(* ===== verification/Prelude.thy ===== *)
theory Prelude
  imports Main "HOL-Library.Multiset"
begin

text \<open>
  Shared vocabulary of the development: the named collections the component proofs draw on,
  Go's signed 64-bit wrap-around, enumerations of a Go map (the iteration order of a map is
  unspecified, so it is an explicit list argument), and the generic interface of a
  deterministic component: a step function with an invariant that every step keeps.
\<close>

named_theorems go_map_simps \<open>rewriting of the maps that model Go maps\<close>
named_theorems inv_intros \<open>preservation of component invariants by single operations\<close>

section \<open>Machine integers\<close>

text \<open>Go's \<open>int\<close>, \<open>int64\<close> and \<open>time.Duration\<close> are signed 64-bit values that wrap around.\<close>

definition i64 :: "int \<Rightarrow> int" where
  "i64 n = (n + 2 ^ 63) mod 2 ^ 64 - 2 ^ 63"

definition in_i64 :: "int \<Rightarrow> bool" where
  "in_i64 n \<longleftrightarrow> - (2 ^ 63) \<le> n \<and> n < 2 ^ 63"

lemma i64_id [simp]: "in_i64 n \<Longrightarrow> i64 n = n"
  by (simp add: i64_def in_i64_def)

lemma in_i64_i64 [simp]: "in_i64 (i64 n)"
  by (simp add: i64_def in_i64_def)

lemma i64_add [simp]: "i64 (i64 a + b) = i64 (a + b)"
proof -
  have "(i64 a + b + 2 ^ 63) mod 2 ^ 64 = ((a + 2 ^ 63) mod 2 ^ 64 + b) mod 2 ^ 64"
    by (simp add: i64_def)
  also have "\<dots> = (a + b + 2 ^ 63) mod 2 ^ 64" by (simp add: mod_simps algebra_simps)
  finally show ?thesis by (simp add: i64_def)
qed

lemma i64_add' [simp]: "i64 (b + i64 a) = i64 (b + a)"
  using i64_add[of a b] by (simp add: add.commute)

lemma in_i64I: "0 \<le> n \<Longrightarrow> n \<le> 9000000000000000000 \<Longrightarrow> in_i64 n"
  by (simp add: in_i64_def)

text \<open>Go's unsigned \<open>uint64\<close>, for the atomic counters.\<close>

definition u64 :: "int \<Rightarrow> int" where
  "u64 n = n mod 2 ^ 64"

lemma u64_id [simp]: "0 \<le> n \<Longrightarrow> n < 2 ^ 64 \<Longrightarrow> u64 n = n"
  by (simp add: u64_def)

lemma u64_bound [simp]: "u64 n < 2 ^ 64" "0 \<le> u64 n"
  by (simp_all add: u64_def)

lemma u64_add [simp]: "u64 (u64 a + b) = u64 (a + b)" "u64 (a + u64 b) = u64 (a + b)"
  by (simp_all add: u64_def mod_simps)

section \<open>Enumerations of a Go map\<close>

text \<open>
  \<open>for k, v := range m\<close> visits every key of \<open>m\<close> once, in an order the language leaves open:
  \<open>enumerates ks m\<close> says that \<open>ks\<close> is such an order.
\<close>

definition enumerates :: "'k list \<Rightarrow> ('k \<rightharpoonup> 'v) \<Rightarrow> bool" where
  "enumerates ks m \<longleftrightarrow> distinct ks \<and> set ks = dom m"

lemma enumerates_distinct [dest]: "enumerates ks m \<Longrightarrow> distinct ks"
  by (simp add: enumerates_def)

lemma enumerates_iff: "enumerates ks m \<Longrightarrow> k \<in> set ks \<longleftrightarrow> (\<exists>v. m k = Some v)"
  by (auto simp: enumerates_def)

lemma enumerates_finite: "enumerates ks m \<Longrightarrow> finite (dom m)"
  by (metis enumerates_def finite_set)

lemma enumerates_exists: "finite (dom m) \<Longrightarrow> \<exists>ks. enumerates ks m"
  unfolding enumerates_def by (drule finite_distinct_list) auto

text \<open>The values of a map along an enumeration of its keys.\<close>

definition map_vals :: "'k list \<Rightarrow> ('k \<rightharpoonup> 'v) \<Rightarrow> 'v list" where
  "map_vals ks m = List.map_filter m ks"

lemma set_map_vals: "enumerates ks m \<Longrightarrow> set (map_vals ks m) = ran m"
  by (force simp: map_vals_def List.map_filter_def enumerates_def ran_def)

text \<open>
  A map whose values carry their own key can be listed and read back: the listing does not
  depend on the iteration order when the sort key tells the values apart, and storing the
  listed values one by one gives the map again.
\<close>

definition keyed :: "('v \<Rightarrow> 'k) \<Rightarrow> ('k \<rightharpoonup> 'v) \<Rightarrow> bool" where
  "keyed kf m \<longleftrightarrow> (\<forall>k v. m k = Some v \<longrightarrow> kf v = k)"

lemma keyedD: "keyed kf m \<Longrightarrow> m k = Some v \<Longrightarrow> kf v = k"
  by (simp add: keyed_def)

lemma keyed_empty [simp]: "keyed kf Map.empty"
  by (simp add: keyed_def)

lemma keyed_upd [simp]: "keyed kf m \<Longrightarrow> kf v = k \<Longrightarrow> keyed kf (m(k \<mapsto> v))"
  by (simp add: keyed_def)

lemma keyed_del [simp]: "keyed kf m \<Longrightarrow> keyed kf (m(k := None))"
  by (simp add: keyed_def)

lemma keyed_fold: "keyed kf m \<Longrightarrow> keyed kf (foldl (\<lambda>m e. m(kf e \<mapsto> e)) m xs)"
  by (induction xs arbitrary: m) simp_all

lemma fold_store_lookup:
  "foldl (\<lambda>m e. m(kf e \<mapsto> e)) m xs k =
     (case filter (\<lambda>e. kf e = k) xs of [] \<Rightarrow> m k | es \<Rightarrow> Some (last es))"
  by (induction xs rule: rev_induct) (auto split: list.splits)

lemma fold_store_keyed:
  assumes "keyed kf m" and "set xs = ran m"
  shows "foldl (\<lambda>m e. m(kf e \<mapsto> e)) Map.empty xs = m"
proof
  fix k
  have sub: "m k = Some e" if "e \<in> set (filter (\<lambda>e. kf e = k) xs)" for e
    using that assms by (auto simp: ran_def dest: keyedD)
  show "foldl (\<lambda>m e. m(kf e \<mapsto> e)) Map.empty xs k = m k"
  proof (cases "filter (\<lambda>e. kf e = k) xs")
    case Nil
    have "m k = None"
    proof (rule ccontr)
      assume "m k \<noteq> None"
      then obtain e where "m k = Some e" by auto
      with assms have "e \<in> set (filter (\<lambda>e. kf e = k) xs)" by (auto simp: ran_def dest: keyedD)
      with Nil show False by simp
    qed
    with Nil show ?thesis by (simp add: fold_store_lookup)
  next
    case (Cons e es)
    then have "m k = Some (last (e # es))" using sub by (metis last_in_set list.distinct(1))
    with Cons show ?thesis by (simp add: fold_store_lookup)
  qed
qed

lemma map_filter_inj_distinct:
  assumes "keyed kf m" and "distinct ks"
  shows "distinct (map_vals ks m)"
  using assms(2)
proof (induction ks)
  case (Cons k ks)
  show ?case
  proof (cases "m k")
    case (Some v)
    have "v \<notin> set (map_vals ks m)"
    proof
      assume "v \<in> set (map_vals ks m)"
      then obtain k' where "k' \<in> set ks" "m k' = Some v"
        by (auto simp: map_vals_def List.map_filter_def)
      with Cons.prems Some assms(1) show False by (metis distinct.simps(2) keyedD)
    qed
    with Cons Some show ?thesis by (simp add: map_vals_def)
  qed (use Cons in \<open>simp add: map_vals_def\<close>)
qed (simp add: map_vals_def)

lemma sort_key_determined:
  assumes "keyed kf m" "enumerates ks m" "enumerates ks' m" and "inj_on g (ran m)"
  shows "sort_key g (map_vals ks m) = sort_key g (map_vals ks' m)"
proof -
  have set: "set (map_vals ks m) = ran m" "set (map_vals ks' m) = ran m"
    using assms(2,3) by (simp_all add: set_map_vals)
  have dist: "distinct (map_vals ks m)" "distinct (map_vals ks' m)"
    using assms by (auto intro: map_filter_inj_distinct simp: enumerates_def)
  then have "mset (map_vals ks m) = mset (map_vals ks' m)"
    using set by (metis set_eq_iff_mset_eq_distinct)
  then show ?thesis
    by (intro sort_key_inj_key_eq) (use set assms(4) in simp_all)
qed

section \<open>Deterministic components\<close>

text \<open>
  A component of the program is a state and a family of operations on it. When every
  operation keeps an invariant, so does every run: the interface below is instantiated by
  each component's step function, and its lemmas are what the properties about whole
  executions rest on.
\<close>

locale component =
  fixes step :: "'s \<Rightarrow> 'e \<Rightarrow> 's"
    and inv :: "'s \<Rightarrow> bool"
  assumes step_inv: "inv s \<Longrightarrow> inv (step s e)"
begin

lemma run_inv: "inv s \<Longrightarrow> inv (foldl step s es)"
  by (induction es arbitrary: s) (simp_all add: step_inv)

end

text \<open>
  A component with an abstraction: each step of the detailed model is a step of the
  specification on the abstract state.
\<close>

locale refined_component = component step inv
  for step :: "'s \<Rightarrow> 'e \<Rightarrow> 's" and inv +
  fixes abs :: "'s \<Rightarrow> 'a"
    and astep :: "'a \<Rightarrow> 'e \<Rightarrow> 'a"
  assumes step_refines: "inv s \<Longrightarrow> abs (step s e) = astep (abs s) e"
begin

lemma run_refines: "inv s \<Longrightarrow> abs (foldl step s es) = foldl astep (abs s) es"
  by (induction es arbitrary: s) (simp_all add: step_inv step_refines)

end

end
