(* ===== verification/Float64.thy ===== *)
theory Float64
  imports Complex_Main "HOL-Library.Log_Nat"
begin

text \<open>
  Go's \<open>float64\<close> on finite values: an IEEE 754 binary64 value is a rational number, and every
  operation is the exact rational operation followed by one rounding to nearest, ties to
  even, at 53 significant bits (gradual underflow below \<open>2\<^sup>-\<^sup>1\<^sup>0\<^sup>2\<^sup>2\<close>). Infinities and NaN do not
  occur in the code modelled here: every operand is finite and far below \<open>2\<^sup>1\<^sup>0\<^sup>2\<^sup>4\<close>.
  The components use only what the interface \<open>float_rounding\<close> at the end promises.
\<close>

definition round_half_even :: "rat \<Rightarrow> int" where
  "round_half_even y =
     (let f = \<lfloor>y\<rfloor>; d = y - of_int f
      in if d < 1 / 2 then f else if 1 / 2 < d then f + 1 else if even f then f else f + 1)"

text \<open>The binary exponent of a positive rational: \<open>2 powi e \<le> x < 2 powi (e + 1)\<close>.\<close>

definition ilogb :: "rat \<Rightarrow> int" where
  "ilogb x =
     (let (n, d) = quotient_of x; e = bitlen n - bitlen d
      in if 2 powi e \<le> x then e else e - 1)"

definition rnd64 :: "rat \<Rightarrow> rat" where
  "rnd64 x =
     (if x = 0 then 0
      else let u = 2 powi (max (ilogb \<bar>x\<bar>) (- 1022) - 52)
           in of_int (round_half_even (x / u)) * u)"

section \<open>Rounding to an integer\<close>

lemma rhe_of_int [simp]: "round_half_even (of_int n) = n"
  by (simp add: round_half_even_def)

lemma rhe_floor_ceil: "\<lfloor>y\<rfloor> \<le> round_half_even y" "round_half_even y \<le> \<lfloor>y\<rfloor> + 1"
  by (simp_all add: round_half_even_def Let_def)

lemma rhe_dist: "\<bar>of_int (round_half_even y) - y\<bar> \<le> 1 / 2"
proof -
  have "0 \<le> y - of_int \<lfloor>y\<rfloor>" "y - of_int \<lfloor>y\<rfloor> < 1"
    by linarith+
  then show ?thesis by (auto simp: round_half_even_def Let_def abs_le_iff)
qed

lemma rhe_mono: "x \<le> y \<Longrightarrow> round_half_even x \<le> round_half_even y"
proof -
  assume le: "x \<le> y"
  then have "\<lfloor>x\<rfloor> \<le> \<lfloor>y\<rfloor>" by (rule floor_mono)
  then consider "\<lfloor>x\<rfloor> = \<lfloor>y\<rfloor>" | "\<lfloor>x\<rfloor> + 1 \<le> \<lfloor>y\<rfloor>" by linarith
  then show ?thesis
  proof cases
    case 1
    with le show ?thesis by (auto simp: round_half_even_def Let_def)
  next
    case 2
    with rhe_floor_ceil(2)[of x] rhe_floor_ceil(1)[of y] show ?thesis by linarith
  qed
qed

lemma rhe_le_of_int: "x \<le> of_int n \<Longrightarrow> round_half_even x \<le> n"
  using rhe_mono[of x "of_int n"] by simp

lemma rhe_ge_of_int: "of_int n \<le> x \<Longrightarrow> n \<le> round_half_even x"
  using rhe_mono[of "of_int n" x] by simp

section \<open>Powers of two\<close>

lemma p2_pos [simp]: "0 < (2::rat) powi e"
  by (simp add: zero_less_power_int)

lemma p2_add: "(2::rat) powi (a + b) = 2 powi a * 2 powi b"
  by (simp add: power_int_add)

lemma p2_diff: "(2::rat) powi (a - b) = 2 powi a / 2 powi b"
  by (simp add: power_int_diff)

lemma p2_mono: "a \<le> b \<Longrightarrow> (2::rat) powi a \<le> 2 powi b"
  by (rule power_int_increasing) simp_all

lemma p2_less_cancel: "(2::rat) powi a < 2 powi b \<Longrightarrow> a < b"
  by (meson leD leI p2_mono)

lemma p2_nat: "0 \<le> e \<Longrightarrow> (2::rat) powi e = of_int (2 ^ nat e)"
  by (simp add: power_int_def)

lemma p2_shift: "(2::rat) powi (e + int k) = of_int (2 ^ k) * 2 powi e"
  by (simp add: power_int_add)

section \<open>The binary exponent\<close>

lemma bitlen_p2:
  assumes "0 < n"
  shows "2 powi (bitlen n - 1) \<le> (of_int n :: rat)" "(of_int n :: rat) < 2 powi bitlen n"
proof -
  from bitlen_bounds[OF assms] have b: "2 ^ nat (bitlen n - 1) \<le> n" "n < 2 ^ nat (bitlen n)"
    by auto
  have "0 < bitlen n" using assms bitlen_nonneg[of n] bitlen_eq_zero_iff[of n] by linarith
  then have "(2::rat) powi (bitlen n - 1) = of_int (2 ^ nat (bitlen n - 1))"
    and "(2::rat) powi (bitlen n) = of_int (2 ^ nat (bitlen n))"
    by (simp_all add: p2_nat)
  with b show "2 powi (bitlen n - 1) \<le> (of_int n :: rat)" "(of_int n :: rat) < 2 powi bitlen n"
    by (simp_all only: of_int_le_iff of_int_less_iff)
qed

lemma ilogb_bounds:
  assumes "0 < x"
  shows "2 powi ilogb x \<le> x" "x < 2 powi (ilogb x + 1)"
proof -
  obtain n d where q: "quotient_of x = (n, d)" by fastforce
  then have d: "0 < d" and x: "x = of_int n / of_int d"
    by (simp_all add: quotient_of_denom_pos quotient_of_div)
  from assms x d have n: "0 < n" by (simp add: zero_less_divide_iff)
  let ?e = "bitlen n - bitlen d"
  have hi: "x < 2 powi (?e + 1)"
  proof -
    have "x \<le> of_int n / 2 powi (bitlen d - 1)"
      unfolding x using bitlen_p2(1)[OF d] n d by (intro divide_left_mono mult_pos_pos) auto
    also have "\<dots> < 2 powi bitlen n / 2 powi (bitlen d - 1)"
      using bitlen_p2(2)[OF n] by (intro divide_strict_right_mono) auto
    also have "\<dots> = 2 powi (?e + 1)"
      by (subst p2_diff[symmetric]) (simp add: algebra_simps)
    finally show ?thesis .
  qed
  have lo: "2 powi (?e - 1) \<le> x"
  proof -
    have "2 powi (?e - 1) = 2 powi (bitlen n - 1) / (2::rat) powi bitlen d"
      by (subst p2_diff[symmetric]) (simp add: algebra_simps)
    also have "\<dots> \<le> of_int n / 2 powi bitlen d"
      using bitlen_p2(1)[OF n] by (intro divide_right_mono) auto
    also have "\<dots> \<le> x"
      unfolding x using bitlen_p2(2)[OF d] n d by (intro divide_left_mono) auto
    finally show ?thesis .
  qed
  show "2 powi ilogb x \<le> x" "x < 2 powi (ilogb x + 1)"
    using lo hi by (auto simp: ilogb_def q Let_def)
qed

lemma ilogb_mono:
  assumes "0 < x" "x \<le> y"
  shows "ilogb x \<le> ilogb y"
proof -
  have "2 powi ilogb x \<le> x" using ilogb_bounds(1)[OF assms(1)] .
  also have "x \<le> y" by (fact assms(2))
  also have "y < 2 powi (ilogb y + 1)" using assms by (intro ilogb_bounds(2)) simp
  finally show ?thesis using p2_less_cancel by fastforce
qed

section \<open>Rounding to 53 bits\<close>

definition ulp :: "rat \<Rightarrow> rat" where
  "ulp x = 2 powi (max (ilogb \<bar>x\<bar>) (- 1022) - 52)"

lemma ulp_pos [simp]: "0 < ulp x"
  by (simp add: ulp_def)

lemma ulp_nz [simp]: "ulp x \<noteq> 0"
  using ulp_pos[of x] by (metis less_irrefl)

lemma rnd64_ulp: "x \<noteq> 0 \<Longrightarrow> rnd64 x = of_int (round_half_even (x / ulp x)) * ulp x"
  by (simp add: rnd64_def ulp_def Let_def)

lemma rnd64_0 [simp]: "rnd64 0 = 0"
  by (simp add: rnd64_def)

lemma rnd64_nonneg: "0 \<le> x \<Longrightarrow> 0 \<le> rnd64 x"
  by (cases "x = 0")
    (auto simp: rnd64_ulp order_less_imp_le intro!: mult_nonneg_nonneg rhe_ge_of_int[of 0, simplified])

text \<open>An integer multiple of the unit in the last place is representable.\<close>

lemma rnd64_multiple:
  assumes "x = of_int k * ulp x"
  shows "rnd64 x = x"
proof (cases "x = 0")
  case False
  have "x / ulp x = of_int k" by (rule nonzero_divide_eq_eq[THEN iffD2, OF ulp_nz assms])
  with False assms show ?thesis by (simp add: rnd64_ulp)
qed simp

lemma rnd64_half_ulp: "\<bar>rnd64 x - x\<bar> \<le> ulp x / 2"
proof (cases "x = 0")
  case True then show ?thesis by (simp add: order_less_imp_le)
next
  case False
  let ?r = "of_int (round_half_even (x / ulp x)) :: rat"
  have "x = x / ulp x * ulp x" using ulp_pos[of x] by simp
  then have "rnd64 x - x = (?r - x / ulp x) * ulp x"
    using False by (metis left_diff_distrib rnd64_ulp)
  then have "\<bar>rnd64 x - x\<bar> = \<bar>?r - x / ulp x\<bar> * ulp x"
    by (simp add: abs_mult order_less_imp_le)
  also have "\<dots> \<le> 1 / 2 * ulp x"
    by (rule mult_right_mono) (use rhe_dist in \<open>auto simp: order_less_imp_le\<close>)
  finally show ?thesis by simp
qed

lemma rnd64_le_binade:
  assumes "0 < x"
  shows "rnd64 x \<le> 2 powi (max (ilogb x) (- 1022) + 1)"
proof -
  let ?e = "max (ilogb x) (- 1022)"
  have u: "ulp x = 2 powi (?e - 52)" using assms by (simp add: ulp_def)
  have eq: "2 powi (?e + 1) = of_int (2 ^ 53) * ulp x"
    unfolding u using p2_shift[of "?e - 52" 53] by (simp add: algebra_simps)
  have "x < 2 powi (?e + 1)"
    by (rule less_le_trans[OF ilogb_bounds(2)[OF assms]]) (rule p2_mono, simp)
  then have "x / ulp x \<le> of_int (2 ^ 53)"
    unfolding eq using ulp_pos[of x] by (simp add: pos_divide_le_eq order_less_imp_le)
  then have "round_half_even (x / ulp x) \<le> 2 ^ 53" by (rule rhe_le_of_int)
  then have "(of_int (round_half_even (x / ulp x)) :: rat) \<le> of_int (2 ^ 53)"
    by (simp only: of_int_le_iff)
  then show ?thesis
    unfolding eq using assms by (simp add: rnd64_ulp mult_right_mono order_less_imp_le)
qed

lemma rnd64_ge_binade:
  assumes "0 < x" "- 1022 \<le> ilogb x"
  shows "2 powi (ilogb x) \<le> rnd64 x"
proof -
  have u: "ulp x = 2 powi (ilogb x - 52)" using assms by (simp add: ulp_def)
  have eq: "2 powi ilogb x = of_int (2 ^ 52) * ulp x"
    unfolding u using p2_shift[of "ilogb x - 52" 52] by simp
  have "of_int (2 ^ 52) \<le> x / ulp x"
    using ilogb_bounds(1)[OF assms(1)] ulp_pos[of x] unfolding eq
    by (simp add: pos_le_divide_eq)
  then have "2 ^ 52 \<le> round_half_even (x / ulp x)" by (rule rhe_ge_of_int)
  then have "of_int (2 ^ 52) \<le> (of_int (round_half_even (x / ulp x)) :: rat)"
    by (simp only: of_int_le_iff)
  then show ?thesis
    unfolding eq using assms by (simp add: rnd64_ulp mult_right_mono order_less_imp_le)
qed

lemma rnd64_mono:
  assumes "0 \<le> x" "x \<le> y"
  shows "rnd64 x \<le> rnd64 y"
proof (cases "x = 0")
  case True with assms rnd64_nonneg[of y] show ?thesis by simp
next
  case False
  with assms have x: "0 < x" and y: "0 < y" by simp_all
  let ?ex = "max (ilogb x) (- 1022)" and ?ey = "max (ilogb y) (- 1022)"
  have e: "?ex \<le> ?ey" using ilogb_mono[OF x assms(2)] by simp
  show ?thesis
  proof (cases "?ex = ?ey")
    case True
    then have u: "ulp x = ulp y" using x y by (simp add: ulp_def)
    have "round_half_even (x / ulp y) \<le> round_half_even (y / ulp y)"
      using assms(2) by (intro rhe_mono divide_right_mono) (simp_all add: order_less_imp_le)
    then show ?thesis
      using x y by (simp add: rnd64_ulp u mult_right_mono order_less_imp_le)
  next
    case False
    with e have lt: "?ex + 1 \<le> ilogb y" and n: "- 1022 \<le> ilogb y" by auto
    have "rnd64 x \<le> 2 powi (?ex + 1)" using x by (rule rnd64_le_binade)
    also have "\<dots> \<le> 2 powi ilogb y" using lt by (rule p2_mono)
    also have "\<dots> \<le> rnd64 y" using y n by (rule rnd64_ge_binade)
    finally show ?thesis .
  qed
qed

lemma rnd64_nat:
  assumes "n \<le> 2 ^ 53"
  shows "rnd64 (of_nat n) = of_nat n"
proof (cases "n = 0")
  case False
  let ?x = "of_nat n :: rat"
  from False have x: "0 < ?x" "1 \<le> ?x" by simp_all
  have lo: "2 powi ilogb ?x \<le> ?x" and hi: "?x < 2 powi (ilogb ?x + 1)"
    using ilogb_bounds[OF x(1)] by auto
  have e0: "0 \<le> ilogb ?x"
    using x(2) hi p2_less_cancel[of 0 "ilogb ?x + 1"] by simp
  then have u: "ulp ?x = 2 powi (ilogb ?x - 52)" using x by (simp add: ulp_def)
  show ?thesis
  proof (cases "ilogb ?x \<le> 52")
    case True
    then have "of_int (2 ^ nat (52 - ilogb ?x)) * ulp ?x = 1"
      unfolding u by (subst p2_nat[symmetric]) (simp_all flip: p2_add)
    then have "?x = of_int (int n * 2 ^ nat (52 - ilogb ?x)) * ulp ?x"
      by (simp add: mult.assoc)
    then show ?thesis by (rule rnd64_multiple)
  next
    case False
    then have "(2::rat) powi 53 \<le> ?x" using lo p2_mono[of 53 "ilogb ?x"] by simp
    then have "(of_nat (2 ^ 53) :: rat) \<le> ?x" using p2_shift[of 0 53] by simp
    then have "2 ^ 53 \<le> n" by (simp only: of_nat_le_iff)
    with assms have n: "?x = of_int (2 ^ 53)" by simp
    have "?x < 2 powi 54" unfolding n using p2_shift[of 0 54] by simp
    then have "ilogb ?x < 54" by (rule p2_less_cancel[OF le_less_trans[OF lo]])
    with False have "ilogb ?x = 53" by simp
    then have "ulp ?x = 2" using u by simp
    then have "?x = of_int (2 ^ 52) * ulp ?x" using n by simp
    then show ?thesis by (rule rnd64_multiple)
  qed
qed simp

lemma rnd64_rel:
  assumes "2 powi (- 1022) \<le> x"
  shows "\<bar>rnd64 x - x\<bar> \<le> x / 2 ^ 53"
proof -
  have x: "0 < x" using assms p2_pos[of "- 1022"] by (rule less_le_trans[rotated])
  have "- 1022 < ilogb x + 1"
    using assms ilogb_bounds(2)[OF x] by (intro p2_less_cancel) simp
  then have "ulp x = 2 powi (ilogb x - 52)" using x by (simp add: ulp_def)
  also have "\<dots> = 2 powi ilogb x / 2 ^ 52"
    using p2_shift[of "ilogb x - 52" 52] by simp
  also have "\<dots> \<le> x / 2 ^ 52"
    using ilogb_bounds(1)[OF x] by (simp add: divide_right_mono)
  finally have "ulp x / 2 \<le> x / 2 ^ 53" by simp
  with rnd64_half_ulp[of x] show ?thesis by linarith
qed

section \<open>What the components rely on\<close>

text \<open>
  The interface of a rounding that the clients use: it is monotone on non-negative values
  and exact on the naturals up to \<open>2\<^sup>5\<^sup>3\<close>.
\<close>

locale float_rounding =
  fixes rnd :: "rat \<Rightarrow> rat"
  assumes rnd_mono: "0 \<le> x \<Longrightarrow> x \<le> y \<Longrightarrow> rnd x \<le> rnd y"
    and rnd_nat: "n \<le> 2 ^ 53 \<Longrightarrow> rnd (of_nat n) = of_nat n"
begin

lemma rnd_zero: "rnd 0 = 0"
  using rnd_nat[of 0] by simp

lemma rnd_nonneg: "0 \<le> x \<Longrightarrow> 0 \<le> rnd x"
  using rnd_mono[of 0 x] by (simp add: rnd_zero)

lemma rnd_upper: "0 \<le> x \<Longrightarrow> x \<le> of_nat n \<Longrightarrow> n \<le> 2 ^ 53 \<Longrightarrow> rnd x \<le> of_nat n"
  using rnd_mono[of x "of_nat n"] by (simp add: rnd_nat)

lemma rnd_lower: "of_nat n \<le> x \<Longrightarrow> n \<le> 2 ^ 53 \<Longrightarrow> of_nat n \<le> rnd x"
  using rnd_mono[of "of_nat n" x] by (simp add: rnd_nat)

lemma rnd_int: "0 \<le> n \<Longrightarrow> n \<le> 2 ^ 53 \<Longrightarrow> rnd (of_int n) = of_int n"
  using rnd_nat[of "nat n"] by (simp add: nat_le_iff)

lemma rnd_upper_int: "0 \<le> x \<Longrightarrow> x \<le> of_int n \<Longrightarrow> n \<le> 2 ^ 53 \<Longrightarrow> rnd x \<le> of_int n"
  using rnd_mono[of x "of_int n"] by (simp add: rnd_int order_trans[of 0 x])

lemma rnd_lower_int: "0 \<le> n \<Longrightarrow> of_int n \<le> x \<Longrightarrow> n \<le> 2 ^ 53 \<Longrightarrow> of_int n \<le> rnd x"
  using rnd_mono[of "of_int n" x] by (simp add: rnd_int)

text \<open>Scaling a count by a fraction never exceeds the count.\<close>

lemma rnd_scale_le:
  assumes "0 \<le> p" "p \<le> 1" "0 \<le> n" "n \<le> 2 ^ 53"
  shows "rnd (p * rnd (of_int n)) \<le> of_int n"
  using assms by (intro rnd_upper_int) (simp_all add: rnd_int mult_left_le_one_le)

end

interpretation fl: float_rounding rnd64
  by unfold_locales (simp_all add: rnd64_mono rnd64_nat)

end
