(* ===== verification/Latency.thy ===== *)
theory Latency
  imports Prelude Float64 "HOL-Library.Multiset"
begin

text \<open>
  The fixed-memory latency histogram (internal/latency/histogram.go): log-linear buckets,
  the atomic record path, and the percentile points of a snapshot. Durations are
  nanoseconds; the \<open>uint64\<close> counters wrap at \<open>2\<^sup>6\<^sup>4\<close>. Go may fuse \<open>x*y + z\<close> into one
  rounding on some machines: the flag \<open>fma\<close> says whether the compiler did, and every
  result below holds for both.
\<close>

definition minNs :: int where "minNs = 1000"
definition decades :: int where "decades = 7"
definition subBucketsPerDecade :: int where "subBucketsPerDecade = 32"
definition numBuckets :: int where "numBuckets = decades * subBucketsPerDecade + 1"

lemmas hist_consts = minNs_def decades_def subBucketsPerDecade_def numBuckets_def

record histogram =
  buckets :: "int list"
  hcount :: int
  sumNs :: int
  maxNs :: int

definition zero_histogram :: histogram where
  "zero_histogram = \<lparr>buckets = replicate (nat numBuckets) 0, hcount = 0, sumNs = 0, maxNs = 0\<rparr>"

fun pow10_loop :: "nat \<Rightarrow> int \<Rightarrow> int" where
  "pow10_loop 0 out = out"
| "pow10_loop (Suc n) out = pow10_loop n (i64 (out * 10))"

definition pow10 :: "int \<Rightarrow> int" where
  "pow10 n = pow10_loop (nat n) 1"

function decade_loop :: "int \<Rightarrow> int \<Rightarrow> int \<Rightarrow> int" where
  "decade_loop ns d thresh =
     (if thresh \<le> ns \<and> d < decades - 1 then decade_loop ns (d + 1) (i64 (thresh * 10)) else d)"
  by pat_completeness auto
termination
  by (relation "measure (\<lambda>(ns, d, thresh). nat (decades - d))") auto

declare decade_loop.simps [simp del]

definition bucketIndex :: "int \<Rightarrow> int" where
  "bucketIndex ns =
     (if ns < minNs then 0
      else if 10 ^ nat decades * minNs \<le> ns then numBuckets - 1
      else let d = decade_loop ns 0 (minNs * 10);
               low = minNs * pow10 d;
               high = low * 10;
               step0 = (high - low) div subBucketsPerDecade;
               step = (if step0 \<le> 0 then 1 else step0);
               sub0 = (ns - low) div step;
               sub = (if subBucketsPerDecade \<le> sub0 then subBucketsPerDecade - 1 else sub0)
           in d * subBucketsPerDecade + sub)"

definition bucketBoundsNs :: "int \<Rightarrow> int \<times> int" where
  "bucketBoundsNs idx =
     (if numBuckets - 1 \<le> idx then (let top = minNs * pow10 decades in (top, top * 10))
      else let d = idx div subBucketsPerDecade;
               sub = idx mod subBucketsPerDecade;
               low = minNs * pow10 d;
               high = low * 10;
               step = (high - low) div subBucketsPerDecade
           in (low + sub * step, low + (sub + 1) * step))"

text \<open>
  \<open>Add\<close>: the four atomic updates, in program order. The compare-and-swap loop on the
  maximum takes effect as one atomic maximum, at its last load or its successful swap.
\<close>

datatype hist_op = BucketAdd nat | CountAdd | SumAdd int | MaxTo int

fun hist_atomic :: "histogram \<Rightarrow> hist_op \<Rightarrow> histogram" where
  "hist_atomic h (BucketAdd i) = h\<lparr>buckets := (buckets h)[i := u64 (buckets h ! i + 1)]\<rparr>"
| "hist_atomic h CountAdd = h\<lparr>hcount := u64 (hcount h + 1)\<rparr>"
| "hist_atomic h (SumAdd n) = h\<lparr>sumNs := u64 (sumNs h + n)\<rparr>"
| "hist_atomic h (MaxTo n) = (if n \<le> maxNs h then h else h\<lparr>maxNs := n\<rparr>)"

definition add_ops :: "int \<Rightarrow> hist_op list" where
  "add_ops d =
     (let ns = (if d < 0 then 0 else d)
      in [BucketAdd (nat (bucketIndex ns)), CountAdd, SumAdd ns, MaxTo ns])"

definition hist_add :: "histogram \<Rightarrow> int \<Rightarrow> histogram" where
  "hist_add h d = foldl hist_atomic h (add_ops d)"

text \<open>\<open>Add\<close> on a nil histogram returns at once.\<close>

fun hist_Add :: "histogram option \<Rightarrow> int \<Rightarrow> histogram option" where
  "hist_Add None d = None"
| "hist_Add (Some h) d = Some (hist_add h d)"

section \<open>Percentiles\<close>

definition interpolate :: "bool \<Rightarrow> int \<Rightarrow> int \<Rightarrow> int \<Rightarrow> nat \<Rightarrow> int" where
  "interpolate fma target seen bc i =
     (let (low, high) = bucketBoundsNs (int i);
          fraction = rnd64 (rnd64 (of_int (u64 (target - seen))) / rnd64 (of_int bc));
          lo = rnd64 (of_int low);
          width = rnd64 (of_int (high - low));
          est = (if fma then rnd64 (lo + fraction * width) else rnd64 (lo + rnd64 (fraction * width)))
      in \<lfloor>est\<rfloor>)"

fun percentile_loop :: "bool \<Rightarrow> int \<Rightarrow> int \<Rightarrow> nat \<Rightarrow> int list \<Rightarrow> int option" where
  "percentile_loop fma target seen i [] = None"
| "percentile_loop fma target seen i (bc # bs) =
     (if bc = 0 then percentile_loop fma target seen (Suc i) bs
      else if target \<le> u64 (seen + bc) then Some (interpolate fma target seen bc i)
      else percentile_loop fma target (u64 (seen + bc)) (Suc i) bs)"

definition target_rank :: "rat \<Rightarrow> int \<Rightarrow> int" where
  "target_rank p n =
     (let t = \<lceil>rnd64 (p * rnd64 (of_int n))\<rceil> in if t = 0 then 1 else t)"

definition percentile :: "bool \<Rightarrow> histogram \<Rightarrow> rat \<Rightarrow> int" where
  "percentile fma h p =
     (if hcount h = 0 then 0
      else case percentile_loop fma (target_rank p (hcount h)) 0 0 (buckets h) of
             Some v \<Rightarrow> v | None \<Rightarrow> maxNs h)"

record hist_snapshot =
  sCount :: int
  P50 :: int
  P95 :: int
  P99 :: int
  P999 :: int
  sMax :: int
  sMean :: int

definition empty_snapshot :: hist_snapshot where
  "empty_snapshot = \<lparr>sCount = 0, P50 = 0, P95 = 0, P99 = 0, P999 = 0, sMax = 0, sMean = 0\<rparr>"

definition hist_Snapshot :: "bool \<Rightarrow> histogram option \<Rightarrow> hist_snapshot" where
  "hist_Snapshot fma ho =
     (case ho of None \<Rightarrow> empty_snapshot
      | Some h \<Rightarrow>
          if hcount h = 0 then empty_snapshot
          else \<lparr>sCount = hcount h,
                P50 = percentile fma h (rnd64 (50 / 100)),
                P95 = percentile fma h (rnd64 (95 / 100)),
                P99 = percentile fma h (rnd64 (99 / 100)),
                P999 = percentile fma h (rnd64 (999 / 1000)),
                sMax = maxNs h,
                sMean = i64 (sumNs h div hcount h)\<rparr>)"

section \<open>Bucketing\<close>

text \<open>Decade \<open>d\<close> starts at \<open>low d\<close>; its 32 sub-buckets are \<open>step d\<close> wide.\<close>

definition dec_low :: "nat \<Rightarrow> int" where "dec_low d = 1000 * 10 ^ d"
definition dec_step :: "nat \<Rightarrow> int" where "dec_step d = (dec_low d * 10 - dec_low d) div 32"

lemma less7: "d < (7::nat) \<longleftrightarrow> d \<in> {0, 1, 2, 3, 4, 5, 6}"
  by auto

lemma dec_low_pos [simp]: "0 < dec_low d"
  by (simp add: dec_low_def)

lemma dec_low_Suc: "dec_low (Suc d) = 10 * dec_low d"
  by (simp add: dec_low_def)

lemma dec_low_mono: "d \<le> e \<Longrightarrow> dec_low d \<le> dec_low e"
  by (simp add: dec_low_def power_increasing)

lemma dec_step_pos: "d < 7 \<Longrightarrow> 0 < dec_step d"
  by (auto simp: less7 dec_step_def dec_low_def)

lemma dec_step_rest: "d < 7 \<Longrightarrow> dec_low d * 10 - (dec_low d + 32 * dec_step d) =
    (if d = 0 then 8 else if d = 1 then 16 else 0)"
  by (auto simp: less7 dec_step_def dec_low_def)

lemma dec_low_i64: "d \<le> 8 \<Longrightarrow> in_i64 (dec_low d)"
proof -
  assume "d \<le> 8"
  then have "dec_low d \<le> dec_low 8" by (rule dec_low_mono)
  also have "\<dots> \<le> 9000000000000000000" by (simp add: dec_low_def)
  finally show ?thesis using dec_low_pos[of d] by (intro in_i64I) linarith+
qed

lemma pow10_loop_eq: "n + k \<le> 8 \<Longrightarrow> pow10_loop n (10 ^ k) = 10 ^ (n + k)"
proof (induction n arbitrary: k)
  case (Suc n)
  from Suc.prems have "(10::int) ^ Suc k \<le> 10 ^ 8" by (intro power_increasing) simp_all
  then have "(10::int) ^ k * 10 \<le> 100000000" by simp
  moreover have "(0::int) \<le> 10 ^ k * 10" by simp
  ultimately have "in_i64 (10 ^ k * 10)" by (intro in_i64I) linarith+
  with Suc.IH[of "Suc k"] Suc.prems show ?case by (simp add: mult.commute)
qed simp

lemma pow10_eq: "d \<le> 8 \<Longrightarrow> pow10 (int d) = 10 ^ d"
  using pow10_loop_eq[of d 0] by (simp add: pow10_def)

lemma decade_loop_spec:
  assumes "d < 7"
  shows "\<exists>k. decade_loop ns (int d) (dec_low (Suc d)) = int k \<and> d \<le> k \<and> k < 7 \<and>
    (k = d \<or> dec_low k \<le> ns) \<and> (k = 6 \<or> ns < dec_low (Suc k))"
  using assms
proof (induction "6 - d" arbitrary: d)
  case 0
  then show ?case by (intro exI[of _ 6]) (simp add: decade_loop.simps[of ns] decades_def)
next
  case (Suc n)
  show ?case
  proof (cases "dec_low (Suc d) \<le> ns")
    case True
    have "i64 (dec_low (Suc d) * 10) = dec_low (Suc (Suc d))"
      using Suc.prems Suc.hyps(2) dec_low_i64[of "Suc (Suc d)"] by (simp add: dec_low_Suc mult.commute)
    moreover have "d < 6" using Suc.hyps(2) by simp
    ultimately have "decade_loop ns (int d) (dec_low (Suc d)) =
        decade_loop ns (int (Suc d)) (dec_low (Suc (Suc d)))"
      using True by (subst decade_loop.simps) (simp add: decades_def add.commute)
    moreover from Suc.hyps obtain k where
      "decade_loop ns (int (Suc d)) (dec_low (Suc (Suc d))) = int k" "Suc d \<le> k" "k < 7"
      "k = Suc d \<or> dec_low k \<le> ns" "k = 6 \<or> ns < dec_low (Suc k)"
      using Suc.hyps(1)[of "Suc d"] by force
    ultimately show ?thesis using True by (intro exI[of _ k]) auto
  next
    case False
    with Suc.prems show ?thesis by (subst decade_loop.simps) auto
  qed
qed

lemma bucketIndex_decade:
  assumes "1000 \<le> ns" "ns < dec_low 7"
  obtains d where "d < 7" "dec_low d \<le> ns" "ns < dec_low (Suc d)"
    "bucketIndex ns = 32 * int d + min 31 ((ns - dec_low d) div dec_step d)"
proof -
  obtain k where k: "decade_loop ns 0 (dec_low 1) = int k" "k < 7"
      "k = 0 \<or> dec_low k \<le> ns" "k = 6 \<or> ns < dec_low (Suc k)"
    using decade_loop_spec[of 0 ns] by auto
  have r: "dec_low k \<le> ns" "ns < dec_low (Suc k)"
    using k(3,4) assms by (auto simp: dec_low_def numeral_eq_Suc)
  have step: "(dec_low k * 10 - dec_low k) div 32 = dec_step k" by (simp add: dec_step_def)
  have low: "minNs * pow10 (int k) = dec_low k"
    using k(2) by (simp add: minNs_def pow10_eq dec_low_def)
  have c: "(ns < minNs) = False" "(10 ^ nat decades * minNs \<le> ns) = False" "minNs * 10 = dec_low 1"
    using assms by (simp_all add: hist_consts dec_low_def)
  have "bucketIndex ns = 32 * int k + min 31 ((ns - dec_low k) div dec_step k)"
    using dec_step_pos[OF k(2)]
    by (simp only: bucketIndex_def c k(1) low Let_def if_False subBucketsPerDecade_def step)
      (simp add: min_def)
  with k(2) r that show thesis by blast
qed

lemma bucketBounds_decade:
  assumes "d < 7" "0 \<le> sub" "sub < 32"
  shows "bucketBoundsNs (32 * int d + sub) =
    (dec_low d + sub * dec_step d, dec_low d + (sub + 1) * dec_step d)"
proof -
  have "(32 * int d + sub) div 32 = int d" "(32 * int d + sub) mod 32 = sub"
    using assms by (simp_all add: div_pos_pos_trivial)
  moreover have "32 * int d + sub < 224" using assms by simp
  ultimately show ?thesis
    using assms by (simp add: bucketBoundsNs_def hist_consts Let_def pow10_eq dec_step_def dec_low_def)
qed

lemma bucketBounds_overflow: "bucketBoundsNs 224 = (dec_low 7, dec_low 8)"
  using pow10_eq[of 7] by (simp add: bucketBoundsNs_def hist_consts Let_def dec_low_def)

lemma bucketIndex_small: "ns < 1000 \<Longrightarrow> bucketIndex ns = 0"
  by (simp add: bucketIndex_def hist_consts)

lemma bucketIndex_large: "dec_low 7 \<le> ns \<Longrightarrow> bucketIndex ns = 224"
  by (simp add: bucketIndex_def hist_consts dec_low_def)

lemma bucketIndex_cases [case_names small decade large]:
  obtains "ns < 1000" "bucketIndex ns = 0"
  | d where "d < 7" "dec_low d \<le> ns" "ns < dec_low (Suc d)"
      "bucketIndex ns = 32 * int d + min 31 ((ns - dec_low d) div dec_step d)"
  | "dec_low 7 \<le> ns" "bucketIndex ns = 224"
proof -
  consider "ns < 1000" | "1000 \<le> ns" "ns < dec_low 7" | "dec_low 7 \<le> ns" by linarith
  then show thesis
    by cases (use that bucketIndex_decade[of ns] bucketIndex_small bucketIndex_large in blast)+
qed

lemma bucketIndex_range: "0 \<le> bucketIndex ns" "bucketIndex ns < numBuckets"
proof -
  have "0 \<le> bucketIndex ns \<and> bucketIndex ns < numBuckets"
  proof (cases ns rule: bucketIndex_cases)
    case (decade d)
    then have "0 \<le> (ns - dec_low d) div dec_step d"
      using dec_step_pos[of d] by (simp add: pos_imp_zdiv_nonneg_iff)
    with decade(1,4) show ?thesis by (simp add: hist_consts)
  qed (auto simp: hist_consts)
  then show "0 \<le> bucketIndex ns" "bucketIndex ns < numBuckets" by auto
qed

lemma dec_unique: "dec_low d \<le> a \<Longrightarrow> a \<le> b \<Longrightarrow> b < dec_low (Suc e) \<Longrightarrow> d \<le> e"
  using dec_low_mono[of "Suc e" d] by force

lemma bucketIndex_mono:
  assumes "a \<le> b"
  shows "bucketIndex a \<le> bucketIndex b"
proof (cases a rule: bucketIndex_cases)
  case small
  then show ?thesis using bucketIndex_range(1)[of b] by simp
next
  case large
  with assms have "bucketIndex b = 224" by (intro bucketIndex_large) simp
  with large show ?thesis by simp
next
  case (decade d)
  show ?thesis
  proof (cases b rule: bucketIndex_cases)
    case small
    have "1000 \<le> dec_low d" by (simp add: dec_low_def)
    with small decade assms show ?thesis by linarith
  next
    case large
    then show ?thesis using bucketIndex_range(2)[of a] by (simp add: hist_consts)
  next
    case (decade e)
    note b = this and a = \<open>d < 7\<close> \<open>dec_low d \<le> a\<close> \<open>bucketIndex a = _\<close>
    have "d \<le> e" using a(2) assms b(3) by (rule dec_unique)
    then consider "d = e" | "int d + 1 \<le> int e" by linarith
    then show ?thesis
    proof cases
      case 1
      have "(a - dec_low e) div dec_step e \<le> (b - dec_low e) div dec_step e"
        using assms dec_step_pos[OF b(1)] by (intro zdiv_mono1) simp_all
      with 1 a b show ?thesis by (simp add: min_def)
    next
      case 2
      have "0 \<le> (b - dec_low e) div dec_step e"
        using b(2) dec_step_pos[OF b(1)] by (simp add: pos_imp_zdiv_nonneg_iff)
      with 2 a(3) b(4) show ?thesis by linarith
    qed
  qed
qed

text \<open>
  A duration lies in the bounds reported for its bucket. The division \<open>(high-low)/32\<close>
  truncates in the first two decades, so the durations just below 10 and 100 microseconds
  are put into buckets 31 and 63 although the bounds end up to 16 ns below them.
\<close>

lemma bucket_contains:
  assumes "1000 \<le> ns" "ns < dec_low 7"
  shows "fst (bucketBoundsNs (bucketIndex ns)) \<le> ns"
    and "ns < snd (bucketBoundsNs (bucketIndex ns)) \<or>
      bucketIndex ns \<in> {31, 63} \<and> ns < snd (bucketBoundsNs (bucketIndex ns)) + 16"
proof -
  obtain d where d: "d < 7" "dec_low d \<le> ns" "ns < dec_low (Suc d)"
      "bucketIndex ns = 32 * int d + min 31 ((ns - dec_low d) div dec_step d)"
    using bucketIndex_decade[OF assms] by blast
  let ?q = "(ns - dec_low d) div dec_step d"
  have sp: "0 < dec_step d" using d(1) by (rule dec_step_pos)
  have q0: "0 \<le> ?q" using d(2) sp by (simp add: pos_imp_zdiv_nonneg_iff)
  have q1: "?q * dec_step d \<le> ns - dec_low d"
    using sp by (metis div_mult_mod_eq le_add_same_cancel1 pos_mod_sign)
  have q2: "ns - dec_low d < (?q + 1) * dec_step d"
    using pos_mod_bound[OF sp, of "ns - dec_low d"]
      div_mult_mod_eq[of "ns - dec_low d" "dec_step d"] by (simp only: distrib_right)
  have b: "bucketBoundsNs (bucketIndex ns) =
      (dec_low d + min 31 ?q * dec_step d, dec_low d + (min 31 ?q + 1) * dec_step d)"
    unfolding d(4) by (rule bucketBounds_decade) (use d(1) q0 in auto)
  have "min 31 ?q * dec_step d \<le> ?q * dec_step d"
    using sp by (intro mult_right_mono) auto
  with q1 b show "fst (bucketBoundsNs (bucketIndex ns)) \<le> ns" by simp
  show "ns < snd (bucketBoundsNs (bucketIndex ns)) \<or>
      bucketIndex ns \<in> {31, 63} \<and> ns < snd (bucketBoundsNs (bucketIndex ns)) + 16"
  proof (cases "?q \<le> 31")
    case True
    with q2 b show ?thesis by (simp add: min_def)
  next
    case False
    then have m: "min 31 ?q = 31" by simp
    have "ns < dec_low d * 10" using d(3) by (simp add: dec_low_Suc)
    with dec_step_rest[OF d(1)] b m d(4) show ?thesis
      by (auto simp: distrib_right split: if_splits)
  qed
qed

section \<open>The record path under interleaving\<close>

text \<open>Any two atomic updates commute, so the schedule of concurrent \<open>Add\<close>s is immaterial.\<close>

lemma list_bump_swap:
  "(xs[i := g (xs ! i)])[j := g (xs[i := g (xs ! i)] ! j)] =
   (xs[j := g (xs ! j)])[i := g (xs[j := g (xs ! j)] ! i)]"
  by (cases "i = j") (simp_all add: list_update_swap)

lemma hist_atomic_commute: "hist_atomic (hist_atomic h a) b = hist_atomic (hist_atomic h b) a"
  using list_bump_swap[of "buckets h" _ "\<lambda>x. u64 (x + 1)"]
  by (cases a; cases b) (auto simp: algebra_simps)

lemma foldl_atomic_perm:
  assumes "mset xs = mset ys"
  shows "foldl hist_atomic h xs = foldl hist_atomic h ys"
proof -
  have "fold (\<lambda>a h. hist_atomic h a) xs = fold (\<lambda>a h. hist_atomic h a) ys"
    by (rule fold_multiset_equiv[OF _ assms]) (simp add: fun_eq_iff hist_atomic_commute)
  then show ?thesis by (simp add: foldl_conv_fold)
qed

lemma foldl_hist_add: "foldl hist_add h ds = foldl hist_atomic h (concat (map add_ops ds))"
  by (induction ds arbitrary: h) (simp_all add: hist_add_def)

section \<open>Counting\<close>

abbreviation clip :: "int \<Rightarrow> int" where "clip d \<equiv> max 0 d"

lemma add_ops_clip:
  "add_ops d = [BucketAdd (nat (bucketIndex (clip d))), CountAdd, SumAdd (clip d), MaxTo (clip d)]"
  by (simp add: add_ops_def max_def)

definition hist_of :: "int list \<Rightarrow> histogram" where
  "hist_of ds = foldl hist_add zero_histogram ds"

definition in_bucket :: "int list \<Rightarrow> nat \<Rightarrow> int list" where
  "in_bucket ds i = filter (\<lambda>d. bucketIndex (clip d) = int i) ds"

lemma hist_of_snoc: "hist_of (ds @ [d]) = hist_add (hist_of ds) d"
  by (simp add: hist_of_def)

lemma foldl_max_nonneg: "0 \<le> foldl max 0 (ds :: int list)"
  by (induction ds rule: rev_induct) auto

lemma hist_of_fields:
  "length (buckets (hist_of ds)) = 225"
  "hcount (hist_of ds) = u64 (int (length ds))"
  "sumNs (hist_of ds) = u64 (sum_list (map clip ds))"
  "maxNs (hist_of ds) = foldl max 0 ds"
  by (induction ds rule: rev_induct)
    (auto simp: hist_of_def zero_histogram_def hist_consts hist_add_def add_ops_clip add.commute
      max_def dest: order_trans[OF foldl_max_nonneg] intro: foldl_max_nonneg)

lemma hist_of_bucket:
  "i < 225 \<Longrightarrow> buckets (hist_of ds) ! i = u64 (int (length (in_bucket ds i)))"
proof (induction ds rule: rev_induct)
  case Nil
  then show ?case by (simp add: hist_of_def zero_histogram_def hist_consts in_bucket_def)
next
  case (snoc d ds)
  have b: "nat (bucketIndex (clip d)) < 225"
    using bucketIndex_range[of "clip d"] by (simp add: hist_consts)
  have e: "nat (bucketIndex (clip d)) = i \<longleftrightarrow> bucketIndex (clip d) = int i"
    using bucketIndex_range(1)[of "clip d"] by auto
  have l: "length (buckets (hist_of ds)) = 225" by (rule hist_of_fields)
  have "buckets (hist_of (ds @ [d])) =
      (buckets (hist_of ds))[nat (bucketIndex (clip d)) :=
        u64 (buckets (hist_of ds) ! nat (bucketIndex (clip d)) + 1)]"
    by (simp add: hist_of_snoc hist_add_def add_ops_clip)
  with snoc b e l show ?case
    by (auto simp: nth_list_update in_bucket_def add.commute)
qed

lemma length_in_bucket: "length (in_bucket ds i) \<le> length ds"
  by (simp add: in_bucket_def)

lemma length_filter_disjoint:
  "(\<And>d. P d \<Longrightarrow> \<not> Q d) \<Longrightarrow>
    length (filter (\<lambda>d. P d \<or> Q d) ds) = length (filter P ds) + length (filter Q ds)"
  by (induction ds) auto

lemma sum_buckets_below:
  "(\<Sum>i<k. length (in_bucket ds i)) = length (filter (\<lambda>d. bucketIndex (clip d) < int k) ds)"
proof (induction k)
  case 0
  then show ?case using bucketIndex_range(1) by (simp add: not_less)
next
  case (Suc k)
  have "filter (\<lambda>d. bucketIndex (clip d) < int (Suc k)) ds =
      filter (\<lambda>d. bucketIndex (clip d) < int k \<or> bucketIndex (clip d) = int k) ds"
    by (rule filter_cong) auto
  with Suc.IH show ?case
    by (simp add: in_bucket_def length_filter_disjoint[of "\<lambda>d. bucketIndex (clip d) < int k"])
qed

section \<open>Percentiles lie in the bucket of the exact rank\<close>

lemma bucketBounds_order:
  assumes "0 \<le> i" "i < numBuckets" "bucketBoundsNs i = (lo, hi)"
  shows "0 \<le> lo" "lo \<le> hi" "hi \<le> dec_low 8"
proof -
  have "0 \<le> lo \<and> lo \<le> hi \<and> hi \<le> dec_low 8"
  proof (cases "i = 224")
    case True
    with assms(3) show ?thesis by (simp add: bucketBounds_overflow dec_low_def)
  next
    case False
    define d s where "d = nat (i div 32)" and "s = i mod 32"
    have d: "d < 7" and s: "0 \<le> s" "s < 32" and i: "i = 32 * int d + s"
      using assms(1,2) False by (auto simp: d_def s_def hist_consts)
    have sp: "0 < dec_step d" using d by (rule dec_step_pos)
    have b: "lo = dec_low d + s * dec_step d" "hi = dec_low d + (s + 1) * dec_step d"
      using assms(3) bucketBounds_decade[OF d s] by (simp_all add: i)
    have "(s + 1) * dec_step d \<le> 32 * dec_step d" using s sp by (intro mult_right_mono) auto
    then have "hi \<le> dec_low d * 10" using dec_step_rest[OF d] b(2) by (auto split: if_splits)
    also have "\<dots> \<le> dec_low 8" using d dec_low_mono[of "Suc d" 8] by (simp add: dec_low_Suc)
    finally show ?thesis using b s sp dec_low_pos[of d]
      by (simp add: distrib_right order_less_imp_le add_nonneg_nonneg)
  qed
  then show "0 \<le> lo" "lo \<le> hi" "hi \<le> dec_low 8" by auto
qed

lemma interpolate_bounds:
  assumes i: "i < 225" and r: "0 \<le> seen" "seen < target" "target \<le> seen + bc" "bc \<le> 2 ^ 53"
    and b: "bucketBoundsNs (int i) = (lo, hi)"
  shows "lo \<le> interpolate fma target seen bc i" "interpolate fma target seen bc i \<le> hi"
proof -
  have o: "0 \<le> lo" "lo \<le> hi" "hi \<le> 2 ^ 53"
    using bucketBounds_order[OF _ _ b] i by (simp_all add: hist_consts dec_low_def)
  let ?k = "target - seen"
  have k: "1 \<le> ?k" "?k \<le> bc" "u64 ?k = ?k" using r by simp_all
  let ?q = "rnd64 (of_int ?k) / rnd64 (of_int bc)"
  have q: "0 \<le> ?q" "?q \<le> 1"
    using k r by (simp_all add: fl.rnd_int divide_le_eq del: of_int_diff)
  let ?f = "rnd64 ?q"
  have f: "0 \<le> ?f" "?f \<le> 1"
    using q fl.rnd_nonneg[of ?q] fl.rnd_upper_int[of ?q 1] by simp_all
  have w: "rnd64 (of_int (hi - lo)) = of_int (hi - lo)" and l: "rnd64 (of_int lo) = of_int lo"
    using o by (simp_all add: fl.rnd_int del: of_int_diff)
  let ?p = "?f * of_int (hi - lo)"
  have p: "0 \<le> ?p" "?p \<le> of_int (hi - lo)" using f o
    by (simp_all add: mult_left_le_one_le del: of_int_diff)
  have rp: "0 \<le> rnd64 ?p" "rnd64 ?p \<le> of_int (hi - lo)"
    using p o fl.rnd_nonneg[of ?p] fl.rnd_upper_int[of ?p "hi - lo"] by simp_all
  have "of_int lo \<le> rnd64 (of_int lo + x) \<and> rnd64 (of_int lo + x) \<le> of_int hi"
    if "0 \<le> x" "x \<le> of_int (hi - lo)" for x
    using that o fl.rnd_lower_int[of lo "of_int lo + x"] fl.rnd_upper_int[of "of_int lo + x" hi]
    by simp
  note e = this[OF p] this[OF rp]
  show "lo \<le> interpolate fma target seen bc i" "interpolate fma target seen bc i \<le> hi"
    using e by (auto simp: interpolate_def b k(3) w l Let_def le_floor_iff floor_le_iff
        simp del: of_int_diff intro: order.strict_trans1)
qed

text \<open>The scan stops at the first bucket whose cumulative count reaches the target rank.\<close>

lemma percentile_loop_spec:
  assumes "0 \<le> seen" "seen < t" "t \<le> seen + sum_list bs" "seen + sum_list bs < 2 ^ 64"
    and "\<forall>b \<in> set bs. 0 \<le> b"
  shows "\<exists>k < length bs. 0 < bs ! k \<and> seen + sum_list (take k bs) < t \<and>
    t \<le> seen + sum_list (take (Suc k) bs) \<and>
    percentile_loop fma t seen i bs =
      Some (interpolate fma t (seen + sum_list (take k bs)) (bs ! k) (i + k))"
  using assms
proof (induction bs arbitrary: seen i)
  case (Cons b bs)
  have nn: "0 \<le> sum_list bs" using Cons.prems(5) by (simp add: sum_list_nonneg)
  have b0: "0 \<le> b" using Cons.prems(5) by simp
  have u: "u64 (seen + b) = seen + b" using Cons.prems(1,4) nn b0 by simp
  show ?case
  proof (cases "b \<noteq> 0 \<and> t \<le> seen + b")
    case True
    with u b0 Cons.prems(2) show ?thesis by (intro exI[of _ 0]) auto
  next
    case False
    then have lt: "seen + b < t" using Cons.prems(2) by auto
    obtain k where "k < length bs" "0 < bs ! k" "seen + b + sum_list (take k bs) < t"
      "t \<le> seen + b + sum_list (take (Suc k) bs)"
      "percentile_loop fma t (seen + b) (Suc i) bs =
        Some (interpolate fma t (seen + b + sum_list (take k bs)) (bs ! k) (Suc i + k))"
      using Cons.IH[of "seen + b" "Suc i"] Cons.prems b0 lt by auto
    with False u show ?thesis
      by (intro exI[of _ "Suc k"]) (auto simp: add.assoc)
  qed
qed simp

lemma target_rank_bounds:
  assumes "0 \<le> p" "p \<le> 1" "1 \<le> n" "n \<le> 2 ^ 53"
  shows "1 \<le> target_rank p n" "target_rank p n \<le> n"
proof -
  let ?x = "rnd64 (p * rnd64 (of_int n))"
  define c where "c = \<lceil>?x\<rceil>"
  have "0 \<le> ?x" using assms by (intro fl.rnd_nonneg mult_nonneg_nonneg) simp_all
  moreover have "?x \<le> of_int n" using assms by (intro fl.rnd_scale_le) simp_all
  ultimately have "0 \<le> c" "c \<le> n"
    by (simp_all add: c_def ceiling_le_iff le_ceiling_iff order.strict_trans2[of "-1" 0])
  with assms(3) show "1 \<le> target_rank p n" "target_rank p n \<le> n"
    by (auto simp: target_rank_def Let_def simp flip: c_def)
qed

lemma length_filter_mono: "(\<And>x. P x \<Longrightarrow> Q x) \<Longrightarrow> length (filter P xs) \<le> length (filter Q xs)"
  by (induction xs) (auto simp: le_SucI)

lemma length_filter_sorted:
  fixes xs :: "int list"
  assumes s: "sorted xs" and j: "j < length xs" and m: "\<And>a b. a \<le> b \<Longrightarrow> f a \<le> (f b :: int)"
  shows "length (filter (\<lambda>x. f x < f (xs ! j)) xs) \<le> j"
    and "j < length (filter (\<lambda>x. f x \<le> f (xs ! j)) xs)"
proof -
  have "{i. i < length xs \<and> f (xs ! i) < f (xs ! j)} \<subseteq> {..<j}"
  proof clarify
    fix i assume "i < length xs" "f (xs ! i) < f (xs ! j)"
    then show "i < j" using m[OF sorted_nth_mono[OF s, of j i]] by (meson leD not_le)
  qed
  then show "length (filter (\<lambda>x. f x < f (xs ! j)) xs) \<le> j"
    unfolding length_filter_conv_card by (metis card_lessThan card_mono finite_lessThan)
  have "{..j} \<subseteq> {i. i < length xs \<and> f (xs ! i) \<le> f (xs ! j)}"
    using j m sorted_nth_mono[OF s] by auto
  then have "card {..j} \<le> card {i. i < length xs \<and> f (xs ! i) \<le> f (xs ! j)}"
    by (intro card_mono) auto
  then show "j < length (filter (\<lambda>x. f x \<le> f (xs ! j)) xs)"
    unfolding length_filter_conv_card by simp
qed

definition exact_percentile :: "rat \<Rightarrow> int list \<Rightarrow> int" where
  "exact_percentile p ds = sort (map clip ds) ! nat (target_rank p (int (length ds)) - 1)"

lemma length_filter_clip:
  "length (filter (\<lambda>d. P (bucketIndex (clip d))) ds) =
   length (filter (\<lambda>x. P (bucketIndex x)) (sort (map clip ds)))"
proof -
  have "mset (filter (\<lambda>x. P (bucketIndex x)) (sort (map clip ds))) =
      mset (filter (\<lambda>x. P (bucketIndex x)) (map clip ds))" by simp
  then have "length (filter (\<lambda>x. P (bucketIndex x)) (sort (map clip ds))) =
      length (filter (\<lambda>x. P (bucketIndex x)) (map clip ds))" by (rule mset_eq_length)
  then show ?thesis by (simp add: filter_map o_def)
qed

lemma hist_of_buckets_small:
  assumes "length ds < 2 ^ 64"
  shows "buckets (hist_of ds) = map (\<lambda>i. int (length (in_bucket ds i))) [0..<225]"
proof (rule nth_equalityI)
  fix i assume "i < length (buckets (hist_of ds))"
  then have "i < 225" by (simp add: hist_of_fields)
  moreover have "int (length (in_bucket ds i)) < 2 ^ 64"
    using assms length_in_bucket[of ds i] by simp
  ultimately show "buckets (hist_of ds) ! i = map (\<lambda>i. int (length (in_bucket ds i))) [0..<225] ! i"
    by (simp add: hist_of_bucket)
qed (simp add: hist_of_fields)

lemma sum_take_buckets:
  "k \<le> 225 \<Longrightarrow> sum_list (take k (map (\<lambda>i. int (length (in_bucket ds i))) [0..<225])) =
    int (length (filter (\<lambda>d. bucketIndex (clip d) < int k) ds))"
  by (simp add: take_map sum_set_upt_conv_sum_list_nat[symmetric] atLeast0LessThan
      flip: sum_buckets_below)

lemma percentile_interpolates:
  assumes "ds \<noteq> []" "length ds \<le> 2 ^ 53" "0 \<le> p" "p \<le> 1"
  obtains k seen bc where "k < 225" "bucketIndex (exact_percentile p ds) = int k"
    "0 \<le> seen" "seen < target_rank p (int (length ds))" "target_rank p (int (length ds)) \<le> seen + bc"
    "bc \<le> int (length ds)"
    "percentile fma (hist_of ds) p = interpolate fma (target_rank p (int (length ds))) seen bc k"
proof -
  let ?n = "length ds" and ?t = "target_rank p (int (length ds))"
  let ?bs = "map (\<lambda>i. int (length (in_bucket ds i))) [0..<225]"
  let ?x = "exact_percentile p ds"
  have n: "1 \<le> int ?n" using assms(1) by (cases ds) simp_all
  have n53: "int ?n \<le> 2 ^ 53" using assms(2) by (simp flip: of_nat_le_iff)
  have t: "1 \<le> ?t" "?t \<le> int ?n" using target_rank_bounds[OF assms(3,4) n n53] by auto
  have bs: "buckets (hist_of ds) = ?bs" using n53 by (intro hist_of_buckets_small) simp
  have all: "sum_list ?bs = int ?n"
    using sum_take_buckets[of 225 ds] bucketIndex_range(2) by (simp add: hist_consts)
  obtain k where k: "k < 225" "sum_list (take k ?bs) < ?t" "?t \<le> sum_list (take (Suc k) ?bs)"
      "percentile_loop fma ?t 0 0 ?bs = Some (interpolate fma ?t (sum_list (take k ?bs)) (?bs ! k) k)"
    using percentile_loop_spec[of 0 ?t ?bs fma 0] t n53 all by fastforce
  have cnt: "hcount (hist_of ds) = int ?n" using n53 by (simp add: hist_of_fields)
  have pk: "percentile fma (hist_of ds) p = interpolate fma ?t (sum_list (take k ?bs)) (?bs ! k) k"
    using assms(1) k(4) by (simp add: percentile_def cnt bs)
  let ?xs = "sort (map clip ds)" and ?j = "nat (?t - 1)"
  have j: "?j < length ?xs" using t by simp
  note r = length_filter_sorted[where f = bucketIndex, OF sorted_sort j bucketIndex_mono]
  have kx: "bucketIndex ?x = int k"
  proof (rule antisym)
    show "bucketIndex ?x \<le> int k"
    proof (rule ccontr)
      assume "\<not> bucketIndex ?x \<le> int k"
      then have "length (filter (\<lambda>x. bucketIndex x < int (Suc k)) ?xs) \<le>
          length (filter (\<lambda>x. bucketIndex x < bucketIndex ?x) ?xs)"
        by (intro length_filter_mono) auto
      with r(1) k(1,3) t(1) show False
        using sum_take_buckets[of "Suc k" ds] length_filter_clip[of "\<lambda>b. b < int (Suc k)" ds]
        by (simp add: exact_percentile_def)
    qed
    show "int k \<le> bucketIndex ?x"
    proof (rule ccontr)
      assume "\<not> int k \<le> bucketIndex ?x"
      then have "length (filter (\<lambda>x. bucketIndex x \<le> bucketIndex ?x) ?xs) \<le>
          length (filter (\<lambda>x. bucketIndex x < int k) ?xs)"
        by (intro length_filter_mono) auto
      with r(2) k(1,2) t(1) show False
        using sum_take_buckets[of k ds] length_filter_clip[of "\<lambda>b. b < int k" ds]
        by (simp add: exact_percentile_def)
    qed
  qed
  have "?bs ! k \<le> int ?n" using length_in_bucket[of ds k] k(1) by simp
  moreover have "sum_list (take (Suc k) ?bs) = sum_list (take k ?bs) + ?bs ! k"
    using k(1) by (simp add: take_Suc_conv_app_nth)
  moreover have "0 \<le> sum_list (take k ?bs)" using sum_take_buckets[of k ds] k(1) by simp
  ultimately show thesis using that[of k "sum_list (take k ?bs)" "?bs ! k"] k kx pk by simp
qed

lemma percentile_in_exact_bucket:
  assumes "ds \<noteq> []" "length ds \<le> 2 ^ 53" "0 \<le> p" "p \<le> 1"
    and b: "bucketBoundsNs (bucketIndex (exact_percentile p ds)) = (lo, hi)"
  shows "lo \<le> percentile fma (hist_of ds) p" "percentile fma (hist_of ds) p \<le> hi"
proof -
  have n53: "int (length ds) \<le> 2 ^ 53" using assms(2) by (simp flip: of_nat_le_iff)
  obtain k seen bc where k: "k < 225" "bucketIndex (exact_percentile p ds) = int k"
    "0 \<le> seen" "seen < target_rank p (int (length ds))" "target_rank p (int (length ds)) \<le> seen + bc"
    "bc \<le> int (length ds)"
    "percentile fma (hist_of ds) p = interpolate fma (target_rank p (int (length ds))) seen bc k"
    using percentile_interpolates[OF assms(1-4)] .
  show "lo \<le> percentile fma (hist_of ds) p" "percentile fma (hist_of ds) p \<le> hi"
    unfolding k(7) using interpolate_bounds[OF k(1,3,4,5), of lo hi fma] k(2,6) n53 b by simp_all
qed

text \<open>At the last rank of a bucket the interpolation returns the bucket's upper bound.\<close>

lemma interpolate_full:
  assumes "i < 225" "1 \<le> bc" "bc \<le> 2 ^ 53" "bucketBoundsNs (int i) = (lo, hi)"
  shows "interpolate fma (seen + bc) seen bc i = hi"
proof -
  have o: "0 \<le> lo" "lo \<le> hi" "hi \<le> 2 ^ 53"
    using bucketBounds_order[OF _ _ assms(4)] assms(1) by (simp_all add: hist_consts dec_low_def)
  have e: "rnd64 (of_int bc) = of_int bc" "rnd64 1 = 1" "rnd64 (of_int lo) = of_int lo"
    "rnd64 (of_int (hi - lo)) = of_int (hi - lo)" "rnd64 (of_int hi) = of_int hi"
    using o assms fl.rnd_nat[of 1] by (simp_all add: fl.rnd_int del: of_int_diff)
  have "u64 bc = bc" using assms by simp
  then show ?thesis using assms e
    by (simp add: interpolate_def Let_def)
qed

lemma bucketIndex_dec_low: "d < 7 \<Longrightarrow> bucketIndex (dec_low d) = 32 * int d"
proof -
  assume d: "d < 7"
  have "1000 \<le> dec_low d" "dec_low d < dec_low 7"
    using d dec_low_mono[of "Suc d" 7] dec_low_pos[of d] by (simp_all add: dec_low_def)
  then obtain e where e: "e < 7" "dec_low e \<le> dec_low d" "dec_low d < dec_low (Suc e)"
    "bucketIndex (dec_low d) = 32 * int e + min 31 ((dec_low d - dec_low e) div dec_step e)"
    by (rule bucketIndex_decade)
  then have "e = d" using dec_unique[of e "dec_low d" "dec_low d" d] dec_unique[of d "dec_low d" "dec_low d" e]
    dec_low_Suc[of d] dec_low_pos[of d] by fastforce
  with e show ?thesis by simp
qed

lemma percentile_decade_start:
  assumes "d < 7" "0 \<le> p" "p \<le> 1"
  shows "percentile fma (hist_of [dec_low d]) p = dec_low d + dec_step d"
proof -
  have x: "exact_percentile p [dec_low d] = dec_low d"
    using target_rank_bounds[of p 1] assms by (simp add: exact_percentile_def order_less_imp_le)
  have t: "target_rank p 1 = 1" using target_rank_bounds[of p 1] assms by simp
  obtain k seen bc where k: "k < 225" "bucketIndex (exact_percentile p [dec_low d]) = int k"
    "0 \<le> seen" "seen < target_rank p (int (length [dec_low d]))"
    "target_rank p (int (length [dec_low d])) \<le> seen + bc" "bc \<le> int (length [dec_low d])"
    "percentile fma (hist_of [dec_low d]) p = interpolate fma (target_rank p (int (length [dec_low d]))) seen bc k"
    using percentile_interpolates[of "[dec_low d]" p fma] assms by auto
  then have "seen = 0" "bc = 1" "int k = 32 * int d"
    using t x assms bucketIndex_dec_low by auto
  then show ?thesis
    using k(1,7) t interpolate_full[of k 1 "dec_low d" "dec_low d + dec_step d" fma 0]
      bucketBounds_decade[of d 0] assms(1) by simp
qed

section \<open>Properties\<close>

text \<open>C20: recording is safe under concurrency: whatever the interleaving of the atomic
  updates of concurrent \<open>Add\<close> calls, the histogram ends in the state the calls reach one
  after the other: \<open>count\<close> observations, each in the bucket of its duration, the sum and
  the maximum exact up to the wrap of the 64-bit counters.\<close>

theorem histogram_interleaving:
  assumes "mset ops = mset (concat (map add_ops ds))"
  shows "let h = foldl hist_atomic zero_histogram ops in
    h = foldl hist_add zero_histogram ds \<and>
    hcount h = u64 (int (length ds)) \<and>
    sumNs h = u64 (sum_list (map (max 0) ds)) \<and>
    maxNs h = foldl max 0 ds \<and>
    length (buckets h) = 225 \<and>
    (\<forall>i < 225. buckets h ! i =
      u64 (int (length (filter (\<lambda>d. bucketIndex (max 0 d) = int i) ds))))"
proof -
  have "foldl hist_atomic zero_histogram ops = hist_of ds"
    using foldl_atomic_perm[OF assms] by (simp add: hist_of_def foldl_hist_add)
  then show ?thesis
    using hist_of_fields[of ds] hist_of_bucket[of _ ds] by (simp add: Let_def hist_of_def in_bucket_def)
qed

theorem histogram_interleaving_witness:
  "hcount (foldl hist_atomic zero_histogram
     [CountAdd, CountAdd, BucketAdd 1, SumAdd 1300, MaxTo 1300, BucketAdd 0, MaxTo 1100, SumAdd 1100]) = 2"
proof -
  have "mset [CountAdd, CountAdd, BucketAdd 1, SumAdd 1300, MaxTo 1300, BucketAdd 0, MaxTo 1100, SumAdd 1100] =
      mset (concat (map add_ops [1100, 1300]))"
  proof -
    have "bucketIndex 1100 = 0" "bucketIndex 1300 = 1" by code_simp+
    then show ?thesis by (simp add: add_ops_def)
  qed
  from histogram_interleaving[OF this] show ?thesis by (simp add: Let_def)
qed

text \<open>C19: for any observations, every percentile point a snapshot reports lies within the
  bounds of the very bucket that holds the exact nearest-rank percentile of the sorted
  observations; for a duration between 1 microsecond and 10 seconds those bounds hold the
  exact value too (16 ns beyond the upper one at most).\<close>

theorem percentile_in_bucket_of_exact:
  assumes "ds \<noteq> []" "length ds \<le> 2 ^ 53" "0 \<le> p" "p \<le> 1"
  shows "let x = exact_percentile p ds; (lo, hi) = bucketBoundsNs (bucketIndex x) in
    lo \<le> percentile fma (foldl hist_add zero_histogram ds) p \<and>
    percentile fma (foldl hist_add zero_histogram ds) p \<le> hi \<and>
    (1000 \<le> x \<and> x < 10 ^ 10 \<longrightarrow> lo \<le> x \<and> x < hi + 16)"
proof -
  let ?x = "exact_percentile p ds"
  obtain lo hi where b: "bucketBoundsNs (bucketIndex ?x) = (lo, hi)" by fastforce
  have "(10::int) ^ 10 = dec_low 7" by (simp add: dec_low_def)
  with percentile_in_exact_bucket[OF assms b, of fma] bucket_contains[of ?x] b show ?thesis
    by (auto simp: hist_of_def Let_def)
qed

theorem percentile_in_bucket_of_exact_witness:
  "let x = exact_percentile (1 / 2) [5000, 2000]; (lo, hi) = bucketBoundsNs (bucketIndex x) in
    lo \<le> percentile True (foldl hist_add zero_histogram [5000, 2000]) (1 / 2) \<and>
    percentile True (foldl hist_add zero_histogram [5000, 2000]) (1 / 2) \<le> hi \<and>
    (1000 \<le> x \<and> x < 10 ^ 10 \<longrightarrow> lo \<le> x \<and> x < hi + 16)"
  by (rule percentile_in_bucket_of_exact) simp_all

text \<open>the resolution at the start of a decade is 28 percent, not the 3 percent the
  package comment promises: for a histogram holding one duration equal to the start of any
  of the seven decades, every percentile point is one whole sub-bucket above the value
  (and above the recorded maximum).\<close>

theorem percentile_error_at_decade_start:
  assumes "d < 7" "0 \<le> p" "p \<le> 1"
  shows "let x = 1000 * 10 ^ d; v = percentile fma (foldl hist_add zero_histogram [x]) p in
    v = x + 9 * x div 32 \<and> 28 * x \<le> 100 * (v - x) \<and>
    maxNs (foldl hist_add zero_histogram [x]) = x"
proof -
  have "percentile fma (hist_of [dec_low d]) p = dec_low d + dec_step d"
    using assms by (rule percentile_decade_start)
  moreover have "28 * dec_low d \<le> 100 * dec_step d"
    using assms(1) by (auto simp: less7 dec_step_def dec_low_def)
  moreover have "dec_step d = 9 * dec_low d div 32" by (simp add: dec_step_def)
  moreover have "maxNs (hist_of [dec_low d]) = dec_low d"
    using dec_low_pos[of d] by (simp add: hist_of_fields)
  ultimately show ?thesis by (simp add: hist_of_def dec_low_def Let_def)
qed

theorem percentile_error_at_decade_start_witness:
  "percentile False (foldl hist_add zero_histogram [1000]) (99 / 100) = 1281"
  using percentile_error_at_decade_start[of 0 "99 / 100" False] by (simp add: Let_def)

end
