(* ===== verification/GoStrings.thy ===== *)
theory GoStrings
  imports Prelude
begin

text \<open>
  The part of Go's \<open>strings\<close>, \<open>strconv\<close> and \<open>path\<close> packages the program uses. A Go string is
  a sequence of bytes, modelled as a \<open>string\<close> (a list of 8-bit characters). Where the
  library consults the Unicode tables for strings with bytes beyond ASCII, that part is a
  parameter \<open>uni\<close> of the definition.
\<close>

section \<open>Searching\<close>

definition has_prefix :: "string \<Rightarrow> string \<Rightarrow> bool" where
  "has_prefix s p \<longleftrightarrow> take (length p) s = p"

definition has_suffix :: "string \<Rightarrow> string \<Rightarrow> bool" where
  "has_suffix s p \<longleftrightarrow> length p \<le> length s \<and> drop (length s - length p) s = p"

definition trim_prefix :: "string \<Rightarrow> string \<Rightarrow> string" where
  "trim_prefix s p = (if has_prefix s p then drop (length p) s else s)"

definition trim_suffix :: "string \<Rightarrow> string \<Rightarrow> string" where
  "trim_suffix s p = (if has_suffix s p then take (length s - length p) s else s)"

text \<open>\<open>strings.Index\<close>: the first position of a substring; Go returns -1 for None.\<close>

fun str_index :: "string \<Rightarrow> string \<Rightarrow> nat option" where
  "str_index [] p = (if p = [] then Some 0 else None)"
| "str_index (c # s) p = (if has_prefix (c # s) p then Some 0 else map_option Suc (str_index s p))"

definition str_last_index :: "string \<Rightarrow> string \<Rightarrow> nat option" where
  "str_last_index s p =
     map_option (\<lambda>i. length s - length p - i) (str_index (rev s) (rev p))"

definition str_contains :: "string \<Rightarrow> string \<Rightarrow> bool" where
  "str_contains s p \<longleftrightarrow> str_index s p \<noteq> None"

lemma has_prefix_iff: "has_prefix s p \<longleftrightarrow> (\<exists>t. s = p @ t)"
  by (auto simp: has_prefix_def) (metis append_take_drop_id)

lemma has_suffix_iff: "has_suffix s p \<longleftrightarrow> (\<exists>t. s = t @ p)"
  by (auto simp: has_suffix_def) (metis append_take_drop_id)

lemma has_prefix_append [simp]: "has_prefix (p @ s) p"
  by (simp add: has_prefix_def)

lemma trim_prefix_append [simp]: "trim_prefix (p @ s) p = s"
  by (simp add: trim_prefix_def)

lemma trim_suffix_append [simp]: "trim_suffix (s @ p) p = s"
  by (simp add: trim_suffix_def has_suffix_def)

lemma str_index_SomeD:
  "str_index s p = Some i \<Longrightarrow> \<exists>u v. s = u @ p @ v \<and> length u = i"
proof (induction s arbitrary: i)
  case (Cons c s)
  show ?case
  proof (cases "has_prefix (c # s) p")
    case True
    with Cons.prems show ?thesis by (auto simp: has_prefix_iff)
  next
    case False
    with Cons.prems obtain j where "str_index s p = Some j" "i = Suc j" by auto
    with Cons.IH[of j] obtain u v where "s = u @ p @ v" "length u = j" by blast
    with \<open>i = Suc j\<close> show ?thesis by (intro exI[of _ "c # u"] exI[of _ v]) simp
  qed
qed (simp split: if_splits)

lemma str_index_append:
  "str_index (u @ p @ v) p \<noteq> None"
  by (induction u) (cases p; cases v; simp add: has_prefix_def)+

lemma str_contains_iff: "str_contains s p \<longleftrightarrow> (\<exists>u v. s = u @ p @ v)"
  using str_index_SomeD str_index_append by (fastforce simp: str_contains_def)

text \<open>No earlier occurrence: the first position is where the prefix ends.\<close>

lemma str_index_first:
  assumes "\<And>i. i < length u \<Longrightarrow> \<not> has_prefix (drop i (u @ p @ v)) p"
  shows "str_index (u @ p @ v) p = Some (length u)"
  using assms
proof (induction u)
  case Nil
  have "has_prefix (p @ v) p" by simp
  then show ?case by (cases "p @ v") (auto simp: has_prefix_def)
next
  case (Cons c u)
  have "str_index (u @ p @ v) p = Some (length u)"
    using Cons.prems[of "Suc _"] by (intro Cons.IH) simp
  moreover have "\<not> has_prefix (c # u @ p @ v) p" using Cons.prems[of 0] by simp
  ultimately show ?case by simp
qed

lemma str_index_length: "str_index s p = Some i \<Longrightarrow> i + length p \<le> length s"
  using str_index_SomeD[of s p i] by auto

section \<open>Case\<close>

definition is_ascii :: "string \<Rightarrow> bool" where
  "is_ascii s \<longleftrightarrow> list_all (\<lambda>c. of_char c < (128 :: nat)) s"

definition lower_byte :: "char \<Rightarrow> char" where
  "lower_byte c = (if 65 \<le> (of_char c :: nat) \<and> (of_char c :: nat) \<le> 90 then char_of (of_char c + 32 :: nat) else c)"

definition upper_byte :: "char \<Rightarrow> char" where
  "upper_byte c = (if 97 \<le> (of_char c :: nat) \<and> (of_char c :: nat) \<le> 122 then char_of (of_char c - 32 :: nat) else c)"

definition to_lower :: "(string \<Rightarrow> string) \<Rightarrow> string \<Rightarrow> string" where
  "to_lower uni s = (if is_ascii s then map lower_byte s else uni s)"

definition to_upper :: "(string \<Rightarrow> string) \<Rightarrow> string \<Rightarrow> string" where
  "to_upper uni s = (if is_ascii s then map upper_byte s else uni s)"

lemma is_ascii_append [simp]: "is_ascii (s @ t) \<longleftrightarrow> is_ascii s \<and> is_ascii t"
  by (simp add: is_ascii_def)

lemma to_lower_ascii: "is_ascii s \<Longrightarrow> to_lower uni s = map lower_byte s"
  by (simp add: to_lower_def)

section \<open>White space\<close>

text \<open>The UTF-8 encodings of the code points for which \<open>unicode.IsSpace\<close> holds.\<close>

definition space_seqs :: "string list" where
  "space_seqs =
     [[CHR 0x09], [CHR 0x0A], [CHR 0x0B], [CHR 0x0C], [CHR 0x0D], [CHR 0x20],
      [CHR 0xC2, CHR 0x85], [CHR 0xC2, CHR 0xA0], [CHR 0xE1, CHR 0x9A, CHR 0x80],
      [CHR 0xE2, CHR 0x80, CHR 0xA8], [CHR 0xE2, CHR 0x80, CHR 0xA9],
      [CHR 0xE2, CHR 0x80, CHR 0xAF], [CHR 0xE2, CHR 0x81, CHR 0x9F],
      [CHR 0xE3, CHR 0x80, CHR 0x80], [CHR 0xE2, CHR 0x80, CHR 0x80],
      [CHR 0xE2, CHR 0x80, CHR 0x81], [CHR 0xE2, CHR 0x80, CHR 0x82],
      [CHR 0xE2, CHR 0x80, CHR 0x83], [CHR 0xE2, CHR 0x80, CHR 0x84],
      [CHR 0xE2, CHR 0x80, CHR 0x85], [CHR 0xE2, CHR 0x80, CHR 0x86],
      [CHR 0xE2, CHR 0x80, CHR 0x87], [CHR 0xE2, CHR 0x80, CHR 0x88],
      [CHR 0xE2, CHR 0x80, CHR 0x89], [CHR 0xE2, CHR 0x80, CHR 0x8A]]"

definition space_prefix :: "string list \<Rightarrow> string \<Rightarrow> nat" where
  "space_prefix seqs s = (case find (has_prefix s) seqs of None \<Rightarrow> 0 | Some q \<Rightarrow> length q)"

function strip_left :: "string list \<Rightarrow> string \<Rightarrow> string" where
  "strip_left seqs s =
     (let n = space_prefix seqs s in if n = 0 \<or> s = [] then s else strip_left seqs (drop n s))"
  by pat_completeness auto
termination
  by (relation "measure (\<lambda>(seqs, s). length s)") auto

declare strip_left.simps [simp del]

definition trim_space :: "string \<Rightarrow> string" where
  "trim_space s = rev (strip_left (map rev space_seqs) (rev (strip_left space_seqs s)))"

text \<open>Trimming leaves a string alone whose first and last bytes are no part of a white-space sequence,
  and never adds a byte.\<close>

lemma space_prefix_none: "s \<noteq> [] \<Longrightarrow> list_all (\<lambda>q. q \<noteq> [] \<and> hd q \<noteq> hd s) seqs \<Longrightarrow> space_prefix seqs s = 0"
proof -
  assume s: "s \<noteq> []" "list_all (\<lambda>q. q \<noteq> [] \<and> hd q \<noteq> hd s) seqs"
  have "\<not> has_prefix s q" if "q \<in> set seqs" for q
  proof -
    have "q \<noteq> [] \<and> hd q \<noteq> hd s" using s(2) that by (simp add: list_all_iff)
    then obtain c cs where "q = c # cs" "c \<noteq> hd s" by (cases q) auto
    then show ?thesis using s(1) by (cases s) (auto simp: has_prefix_def)
  qed
  then have "find (has_prefix s) seqs = None" by (simp add: find_None_iff)
  then show ?thesis by (simp add: space_prefix_def)
qed

lemma strip_left_none: "space_prefix seqs s = 0 \<Longrightarrow> strip_left seqs s = s"
  by (subst strip_left.simps) (simp add: Let_def)

lemma trim_space_plain:
  assumes "s \<noteq> []" and "list_all (\<lambda>q. hd q \<noteq> hd s) space_seqs" and "list_all (\<lambda>q. last q \<noteq> last s) space_seqs"
  shows "trim_space s = s"
proof -
  have ne: "list_all (\<lambda>q. q \<noteq> []) space_seqs" by (simp add: space_seqs_def)
  have a: "strip_left space_seqs s = s"
    using assms(1,2) ne by (intro strip_left_none space_prefix_none) (auto simp: list_all_iff)
  have "list_all (\<lambda>q. q \<noteq> [] \<and> hd q \<noteq> hd (rev s)) (map rev space_seqs)"
    using assms(1,3) ne by (auto simp: list_all_iff hd_rev)
  then have "strip_left (map rev space_seqs) (rev s) = rev s"
    using assms(1) by (intro strip_left_none space_prefix_none) auto
  with a show ?thesis by (simp add: trim_space_def)
qed

lemma set_strip_left: "set (strip_left seqs s) \<subseteq> set s"
proof (induction seqs s rule: strip_left.induct)
  case (1 seqs s)
  show ?case
  proof (cases "space_prefix seqs s = 0 \<or> s = []")
    case True
    then show ?thesis by (subst strip_left.simps) (simp add: Let_def)
  next
    case False
    with 1 show ?thesis
      by (subst strip_left.simps) (auto simp: Let_def dest: in_set_dropD)
  qed
qed

lemma set_trim_space: "set (trim_space s) \<subseteq> set s"
proof
  fix c assume "c \<in> set (trim_space s)"
  then have "c \<in> set (strip_left (map rev space_seqs) (rev (strip_left space_seqs s)))" by (simp add: trim_space_def)
  then have "c \<in> set (rev (strip_left space_seqs s))" using set_strip_left by (rule set_mp[rotated])
  then have "c \<in> set (strip_left space_seqs s)" by simp
  then show "c \<in> set s" using set_strip_left by (rule set_mp[rotated])
qed

function fields_from :: "string \<Rightarrow> string \<Rightarrow> string list" where
  "fields_from acc s =
     (if s = [] then (if acc = [] then [] else [acc])
      else let n = space_prefix space_seqs s in
        if n = 0 then fields_from (acc @ [hd s]) (tl s)
        else (if acc = [] then [] else [acc]) @ fields_from [] (drop n s))"
  by pat_completeness auto
termination
  by (relation "measure (\<lambda>(acc, s). length s)") auto

declare fields_from.simps [simp del]

definition str_fields :: "string \<Rightarrow> string list" where
  "str_fields s = fields_from [] s"

section \<open>Splitting and joining\<close>

fun split_byte :: "char \<Rightarrow> string \<Rightarrow> string list" where
  "split_byte c [] = [[]]"
| "split_byte c (x # xs) =
     (if x = c then [] # split_byte c xs
      else case split_byte c xs of [] \<Rightarrow> [[x]] | y # ys \<Rightarrow> (x # y) # ys)"

text \<open>\<open>strings.SplitN(s, sep, n)\<close> for a one-byte separator and \<open>n > 0\<close>.\<close>

fun split_n :: "nat \<Rightarrow> char \<Rightarrow> string \<Rightarrow> string list" where
  "split_n 0 c s = []"
| "split_n (Suc 0) c s = [s]"
| "split_n (Suc (Suc n)) c s =
     (case str_index s [c] of None \<Rightarrow> [s]
      | Some i \<Rightarrow> take i s # split_n (Suc n) c (drop (Suc i) s))"

fun str_join :: "string \<Rightarrow> string list \<Rightarrow> string" where
  "str_join sep [] = []"
| "str_join sep [x] = x"
| "str_join sep (x # y # ys) = x @ sep @ str_join sep (y # ys)"

lemma split_byte_not_nil [simp]: "split_byte c s \<noteq> []"
  by (induction s) (auto split: list.split)

lemma join_split: "str_join [c] (split_byte c s) = s"
proof (induction s)
  case (Cons x xs)
  obtain y ys where "split_byte c xs = y # ys" by (cases "split_byte c xs") auto
  with Cons show ?case by (cases ys) auto
qed simp

lemma str_index_byte: "str_index s [c] = (if c \<in> set s then Some (length (takeWhile (\<lambda>x. x \<noteq> c) s)) else None)"
  by (induction s) (auto simp: has_prefix_def)

lemma takeWhile_byte: "c \<notin> set u \<Longrightarrow> takeWhile (\<lambda>x. x \<noteq> c) (u @ c # v) = u"
  by (induction u) auto

lemma split_n_cons: "c \<notin> set u \<Longrightarrow> split_n (Suc (Suc n)) c (u @ c # v) = u # split_n (Suc n) c v"
  by (simp add: str_index_byte takeWhile_byte)

lemma split_n_none: "c \<notin> set u \<Longrightarrow> split_n (Suc n) c u = [u]"
  by (cases n) (simp_all add: str_index_byte)

lemma split_byte_none: "c \<notin> set s \<Longrightarrow> split_byte c s = [s]"
  by (induction s) auto

lemma split_byte_append: "c \<notin> set u \<Longrightarrow> split_byte c (u @ c # v) = u # split_byte c v"
  by (induction u) auto

lemma split_byte_parts: "p \<in> set (split_byte c s) \<Longrightarrow> c \<notin> set p"
proof (induction s arbitrary: p)
  case (Cons x xs)
  obtain y ys where s: "split_byte c xs = y # ys" by (cases "split_byte c xs") auto
  with Cons show ?case by (auto split: if_splits)
qed simp

text \<open>\<open>strings.ReplaceAll\<close> of a text that is not empty.\<close>

function replace_all :: "string \<Rightarrow> string \<Rightarrow> string \<Rightarrow> string" where
  "replace_all old new s =
     (if s = [] \<or> old = [] then s
      else if has_prefix s old then new @ replace_all old new (drop (length old) s)
      else hd s # replace_all old new (tl s))"
  by pat_completeness auto
termination
  by (relation "measure (\<lambda>(old, new, s). length s)") auto

declare replace_all.simps [simp del]

section \<open>Slash-separated paths\<close>

text \<open>\<open>path.Base\<close>.\<close>

definition path_base :: "string \<Rightarrow> string" where
  "path_base s =
     (if s = [] then ''.''
      else let t = rev (dropWhile (\<lambda>c. c = CHR ''/'') (rev s))
           in if t = [] then ''/'' else last (split_byte (CHR ''/'') t))"

text \<open>
  \<open>path.Clean\<close>: the elements are processed left to right onto a stack. Empty and \<open>.\<close> elements
  are dropped, \<open>..\<close> removes the element before it, is dropped at the root, and stays at the
  start of a relative path.
\<close>

fun clean_element :: "bool \<Rightarrow> string list \<Rightarrow> string \<Rightarrow> string list" where
  "clean_element rooted acc e =
     (if e = [] \<or> e = ''.'' then acc
      else if e = ''..'' then
        (case acc of
           [] \<Rightarrow> if rooted then [] else [e]
         | x # xs \<Rightarrow> if x = ''..'' then e # acc else xs)
      else e # acc)"

definition path_clean :: "string \<Rightarrow> string" where
  "path_clean s =
     (if s = [] then ''.''
      else let rooted = (hd s = CHR ''/'');
               es = rev (foldl (clean_element rooted) [] (split_byte (CHR ''/'') s))
           in if rooted then CHR ''/'' # str_join ''/'' es
              else if es = [] then ''.'' else str_join ''/'' es)"

definition plain_name :: "string \<Rightarrow> bool" where
  "plain_name n \<longleftrightarrow> n \<notin> {[], ''.'', ''..''} \<and> CHR ''/'' \<notin> set n"

lemma path_clean_two:
  "plain_name a \<Longrightarrow> plain_name n \<Longrightarrow> path_clean (a @ ''/'' @ n) = a @ ''/'' @ n"
  "plain_name a \<Longrightarrow> plain_name n \<Longrightarrow> path_clean (''/'' @ a @ ''/'' @ n) = ''/'' @ a @ ''/'' @ n"
proof -
  assume p: "plain_name a" "plain_name n"
  then have h: "hd (a @ CHR ''/'' # n) \<noteq> CHR ''/''" by (cases a) (auto simp: plain_name_def)
  have s: "split_byte (CHR ''/'') (a @ CHR ''/'' # n) = [a, n]"
    using p by (simp add: plain_name_def split_byte_append split_byte_none)
  show "path_clean (a @ ''/'' @ n) = a @ ''/'' @ n"
    using p h s by (simp add: path_clean_def plain_name_def)
  show "path_clean (''/'' @ a @ ''/'' @ n) = ''/'' @ a @ ''/'' @ n"
    using p s by (simp add: path_clean_def plain_name_def)
qed

lemma path_clean_one: "plain_name n \<Longrightarrow> path_clean n = n"
  by (cases n) (auto simp: path_clean_def plain_name_def split_byte_none)

section \<open>Numbers\<close>

definition digit_char :: "int \<Rightarrow> char" where
  "digit_char d = char_of (nat (48 + d))"

definition is_digit :: "char \<Rightarrow> bool" where
  "is_digit c \<longleftrightarrow> 48 \<le> (of_char c :: nat) \<and> (of_char c :: nat) \<le> 57"

definition digit_val :: "char \<Rightarrow> int" where
  "digit_val c = int (of_char c) - 48"

function digits_of :: "int \<Rightarrow> string \<Rightarrow> string" where
  "digits_of n acc = (if n \<le> 0 then acc else digits_of (n div 10) (digit_char (n mod 10) # acc))"
  by pat_completeness auto
termination
  by (relation "measure (\<lambda>(n, acc). nat n)") auto

declare digits_of.simps [simp del]

text \<open>\<open>strconv.Itoa\<close>.\<close>

definition go_itoa :: "int \<Rightarrow> string" where
  "go_itoa n = (if n = 0 then ''0'' else if n < 0 then CHR ''-'' # digits_of (- n) [] else digits_of n [])"

definition digits_val :: "string \<Rightarrow> int" where
  "digits_val s = foldl (\<lambda>n c. 10 * n + digit_val c) 0 s"

text \<open>\<open>strconv.Atoi\<close> and \<open>ParseInt(s, 10, 64)\<close>: an optional sign, at least one digit, and a
  value in range; None is the error.\<close>

definition go_atoi :: "string \<Rightarrow> int option" where
  "go_atoi s =
     (let (neg, ds) = (case s of [] \<Rightarrow> (False, [])
             | c # cs \<Rightarrow> if c = CHR ''-'' then (True, cs) else if c = CHR ''+'' then (False, cs) else (False, s))
      in if ds = [] \<or> \<not> list_all is_digit ds then None
         else let v = (if neg then - digits_val ds else digits_val ds)
              in if in_i64 v then Some v else None)"

lemma is_digit_digit_char: "0 \<le> d \<Longrightarrow> d < 10 \<Longrightarrow> is_digit (digit_char d)"
  by (simp add: is_digit_def digit_char_def le_nat_iff nat_le_iff)

lemma digit_val_digit_char: "0 \<le> d \<Longrightarrow> d < 10 \<Longrightarrow> digit_val (digit_char d) = d"
  by (simp add: digit_val_def digit_char_def)

lemma digits_of_all: "list_all is_digit acc \<Longrightarrow> list_all is_digit (digits_of n acc)"
proof (induction n acc rule: digits_of.induct)
  case (1 n acc)
  then show ?case by (subst digits_of.simps) (simp add: is_digit_digit_char)
qed

lemma digits_val_from:
  "foldl (\<lambda>n c. 10 * n + digit_val c) a s = a * 10 ^ length s + digits_val s"
  unfolding digits_val_def
proof (induction s arbitrary: a)
  case (Cons c s)
  from Cons.IH[of "10 * a + digit_val c"] Cons.IH[of "digit_val c"]
  show ?case by (simp add: algebra_simps)
qed simp

lemma digits_val_Cons: "digits_val (c # s) = digit_val c * 10 ^ length s + digits_val s"
  using digits_val_from[of "digit_val c" s] by (simp add: digits_val_def)

lemma digits_val_Nil [simp]: "digits_val [] = 0"
  by (simp add: digits_val_def)

lemma digits_of_val:
  "0 \<le> n \<Longrightarrow> digits_val (digits_of n acc) = n * 10 ^ length acc + digits_val acc"
proof (induction n acc rule: digits_of.induct)
  case (1 n acc)
  show ?case
  proof (cases "n \<le> 0")
    case True
    with 1 show ?thesis by (subst digits_of.simps) simp
  next
    case False
    with 1 have "digits_val (digits_of n acc) =
        (n div 10) * 10 ^ Suc (length acc) + (n mod 10) * 10 ^ length acc + digits_val acc"
      by (subst digits_of.simps) (simp add: digits_val_Cons digit_val_digit_char)
    also have "\<dots> = (n div 10 * 10 + n mod 10) * 10 ^ length acc + digits_val acc"
      by (simp only: power_Suc distrib_right mult.assoc)
    finally show ?thesis by (simp only: div_mult_mod_eq)
  qed
qed

lemma digits_of_not_nil: "0 < n \<Longrightarrow> digits_of n acc \<noteq> []"
proof -
  have "length acc \<le> length (digits_of n acc)" for n acc
  proof (induction n acc rule: digits_of.induct)
    case (1 n acc)
    then show ?case by (subst digits_of.simps) (force simp: not_le)
  qed
  from this[of "digit_char (n mod 10) # acc" "n div 10"] show "0 < n \<Longrightarrow> digits_of n acc \<noteq> []"
    by (subst digits_of.simps) auto
qed

lemma go_atoi_digits:
  "ds \<noteq> [] \<Longrightarrow> list_all is_digit ds \<Longrightarrow> in_i64 (digits_val ds) \<Longrightarrow> go_atoi ds = Some (digits_val ds)"
  by (cases ds) (auto simp: go_atoi_def is_digit_def)

lemma go_atoi_itoa: "in_i64 n \<Longrightarrow> go_atoi (go_itoa n) = Some n"
proof -
  assume n: "in_i64 n"
  consider "n = 0" | "0 < n" | "n < 0" by linarith
  then show ?thesis
  proof cases
    case 1
    then show ?thesis by (simp add: go_itoa_def go_atoi_def is_digit_def digits_val_def digit_val_def in_i64_def)
  next
    case 2
    then have "go_atoi (digits_of n []) = Some (digits_val (digits_of n []))"
      using n by (intro go_atoi_digits) (simp_all add: digits_of_not_nil digits_of_all digits_of_val)
    with 2 show ?thesis by (simp add: go_itoa_def digits_of_val)
  next
    case 3
    then have "digits_of (- n) [] \<noteq> []" "list_all is_digit (digits_of (- n) [])"
      "digits_val (digits_of (- n) []) = - n"
      by (simp_all add: digits_of_not_nil digits_of_all digits_of_val)
    with 3 n show ?thesis by (simp add: go_itoa_def go_atoi_def)
  qed
qed

end
