(* ===== verification/Generator.thy ===== *)
theory Generator
  imports GoStrings
begin

text \<open>
  File names, round-trip markers and payload readers (internal/generator/generator.go). The
  clock and the random draws are arguments: \<open>ts\<close> is \<open>time.Now().UnixNano()\<close>, \<open>r\<close> the draw of
  \<open>mathrand.Intn(1<<24)\<close>.
\<close>

definition MarkerPrefix :: string where "MarkerPrefix = ''_slt_''"
definition MarkerSuffix :: string where "MarkerSuffix = ''_''"
definition MarkerLen :: nat where "MarkerLen = 12"
definition alphabet :: string where "alphabet = ''abcdefghijklmnopqrstuvwxyz0123456789''"

lemmas marker_consts = MarkerPrefix_def MarkerSuffix_def MarkerLen_def

text \<open>The package's own \<open>itoa\<close>: the negation wraps for the smallest \<open>int64\<close>.\<close>

definition gen_itoa :: "int \<Rightarrow> string" where
  "gen_itoa n =
     (if n = 0 then ''0''
      else let neg = n < 0; m = (if neg then i64 (- n) else n)
           in (if neg then ''-'' else []) @ digits_of m [])"

text \<open>\<open>path.Ext\<close>: from the last dot of the last path element.\<close>

fun ext_scan :: "string \<Rightarrow> string \<Rightarrow> string" where
  "ext_scan [] acc = []"
| "ext_scan (c # rest) acc =
     (if c = CHR ''/'' then [] else if c = CHR ''.'' then c # acc else ext_scan rest (c # acc))"

definition path_ext :: "string \<Rightarrow> string" where
  "path_ext p = ext_scan (rev p) []"

definition nameFromPatternImpl :: "int \<Rightarrow> int \<Rightarrow> string \<Rightarrow> string \<Rightarrow> string" where
  "nameFromPatternImpl ts r pattern markerBlock =
     (let ext0 = path_ext pattern;
          base0 = (if ext0 \<noteq> [] then trim_suffix pattern ext0 else pattern);
          base = trim_suffix base0 ''*'';
          ext = (if ext0 = [] then ''.txt'' else ext0)
      in base @ gen_itoa ts @ ''_'' @ gen_itoa r @ markerBlock @ ext)"

definition NameFromPattern :: "int \<Rightarrow> int \<Rightarrow> string \<Rightarrow> string" where
  "NameFromPattern ts r pattern = nameFromPatternImpl ts r pattern []"

definition NameFromPatternWithMarker :: "int \<Rightarrow> int \<Rightarrow> string \<Rightarrow> string \<Rightarrow> string" where
  "NameFromPatternWithMarker ts r pattern marker =
     (if marker = [] then NameFromPattern ts r pattern
      else nameFromPatternImpl ts r pattern (MarkerPrefix @ marker @ MarkerSuffix))"

text \<open>\<open>NewMarkerToken\<close>: twelve random bytes, or, when the source fails (None), twelve draws
  of \<open>mathrand.Intn(len(alphabet))\<close>.\<close>

definition NewMarkerToken :: "nat list option \<Rightarrow> nat list \<Rightarrow> string" where
  "NewMarkerToken rd draws =
     (case rd of None \<Rightarrow> map (\<lambda>i. alphabet ! i) draws
      | Some buf \<Rightarrow> map (\<lambda>b. alphabet ! (b mod length alphabet)) buf)"

definition marker_char :: "char \<Rightarrow> bool" where
  "marker_char c \<longleftrightarrow> (97 \<le> (of_char c :: nat) \<and> (of_char c :: nat) \<le> 122) \<or>
     (48 \<le> (of_char c :: nat) \<and> (of_char c :: nat) \<le> 57)"

definition ExtractMarker :: "(string \<Rightarrow> string) \<Rightarrow> string \<Rightarrow> string option" where
  "ExtractMarker uni filename =
     (let low = to_lower uni filename in
      case str_index low MarkerPrefix of
        None \<Rightarrow> None
      | Some i \<Rightarrow>
          let start = i + length MarkerPrefix in
          if length low < start + MarkerLen then None
          else let candidate = take MarkerLen (drop start low) in
            if length low \<le> start + MarkerLen \<or> low ! (start + MarkerLen) \<noteq> hd MarkerSuffix then None
            else if list_all marker_char candidate then Some candidate else None)"

definition valid_token :: "string \<Rightarrow> bool" where
  "valid_token t \<longleftrightarrow> length t = MarkerLen \<and> list_all marker_char t"

section \<open>Payload readers\<close>

record fast_reader =
  remaining :: int
  rpos :: nat
  src :: string

text \<open>The copy loop of \<open>Read\<close>; on an empty source it would not return (None).\<close>

partial_function (option) copy_loop :: "string \<Rightarrow> nat \<Rightarrow> nat \<Rightarrow> string \<Rightarrow> (string \<times> nat) option" where
  "copy_loop s want p acc =
     (if want \<le> length acc then Some (acc, p)
      else let n = min (want - length acc) (length s - p);
               p' = p + n
           in copy_loop s want (if length s \<le> p' then 0 else p') (acc @ take n (drop p s)))"

datatype read_result = EOF | Data string fast_reader

definition fast_read :: "fast_reader \<Rightarrow> nat \<Rightarrow> read_result option" where
  "fast_read f n =
     (if remaining f \<le> 0 then Some EOF
      else let want = (if remaining f < int n then nat (remaining f) else n)
           in case copy_loop (src f) want (rpos f) [] of
                None \<Rightarrow> None
              | Some (out, p) \<Rightarrow> Some (Data out (f\<lparr>remaining := remaining f - int want, rpos := p\<rparr>)))"

text \<open>The ASCII seed: printable bytes with a line break after 79 columns.\<close>

fun ascii_fill :: "nat \<Rightarrow> nat list \<Rightarrow> string" where
  "ascii_fill col [] = []"
| "ascii_fill col (b # bs) =
     (if 79 \<le> col \<and> bs \<noteq> [] then char_of (10::nat) # ascii_fill 0 bs
      else char_of (32 + b mod 95) # ascii_fill (col + 1) bs)"

definition FastReader :: "string \<Rightarrow> string \<Rightarrow> nat \<Rightarrow> int \<Rightarrow> string \<Rightarrow> fast_reader" where
  "FastReader asciiSeed binarySeed coin sz kind =
     (if kind = ''ascii'' \<or> kind = ''random'' \<and> coin mod 2 = 0
      then \<lparr>remaining = sz, rpos = 0, src = asciiSeed\<rparr>
      else \<lparr>remaining = sz, rpos = 0, src = binarySeed\<rparr>)"

text \<open>A client that reads with buffers of the given sizes until the end of the data.\<close>

fun read_bufs :: "fast_reader \<Rightarrow> nat list \<Rightarrow> string option" where
  "read_bufs f [] = Some []"
| "read_bufs f (n # ns) =
     (case fast_read f n of None \<Rightarrow> None | Some EOF \<Rightarrow> Some []
      | Some (Data out f') \<Rightarrow> map_option (\<lambda>rest. out @ rest) (read_bufs f' ns))"

section \<open>The reader delivers exactly the requested bytes\<close>

definition cyc :: "string \<Rightarrow> nat \<Rightarrow> nat \<Rightarrow> string" where
  "cyc s p n = map (\<lambda>j. s ! ((p + j) mod length s)) [0..<n]"

lemma length_cyc [simp]: "length (cyc s p n) = n"
  by (simp add: cyc_def)

lemma cyc_add: "cyc s p (m + n) = cyc s p m @ cyc s (p + m) n"
  by (rule nth_equalityI) (auto simp: cyc_def nth_append add.assoc)

lemma cyc_mod: "cyc s (p mod length s) n = cyc s p n"
  by (simp add: cyc_def mod_add_left_eq)

lemma cyc_take: "p < length s \<Longrightarrow> n \<le> length s - p \<Longrightarrow> cyc s p n = take n (drop p s)"
  by (rule nth_equalityI) (simp_all add: cyc_def)

lemma copy_loop_spec:
  assumes "p < length s"
  shows "copy_loop s want p acc =
    Some (acc @ cyc s p (want - length acc), if length acc < want then (p + (want - length acc)) mod length s else p)"
  using assms
proof (induction "want - length acc" arbitrary: p acc rule: less_induct)
  case less
  show ?case
  proof (cases "want \<le> length acc")
    case True
    then show ?thesis by (subst copy_loop.simps) (simp add: cyc_def)
  next
    case False
    define n where "n = min (want - length acc) (length s - p)"
    define q where "q = (if length s \<le> p + n then 0 else p + n)"
    have n: "0 < n" "n \<le> want - length acc" "n \<le> length s - p" using False less.prems by (auto simp: n_def)
    have "p + n = length s \<or> p + n < length s" using n less.prems by linarith
    then have q: "q = (p + n) mod length s" "q < length s" using less.prems by (auto simp: q_def)
    let ?acc = "acc @ take n (drop p s)"
    have l: "length ?acc = length acc + n" using n by simp
    have "copy_loop s want p acc = copy_loop s want q ?acc"
      using False by (subst copy_loop.simps) (simp add: Let_def n_def q_def)
    also have "\<dots> = Some (?acc @ cyc s q (want - length ?acc),
        if length ?acc < want then (q + (want - length ?acc)) mod length s else q)"
      using n False q(2) l by (intro less.hyps) simp_all
    also have "?acc @ cyc s q (want - length ?acc) = acc @ cyc s p (want - length acc)"
      using n l cyc_add[of s p n "want - length acc - n"] cyc_take[OF less.prems n(3)]
      by (simp add: q(1) cyc_mod)
    also have "(if length ?acc < want then (q + (want - length ?acc)) mod length s else q) =
        (p + (want - length acc)) mod length s"
    proof (cases "length ?acc < want")
      case True
      then have "q + (want - length ?acc) = (p + n) mod length s + (want - length acc - n)"
        using l q(1) by simp
      also have "\<dots> mod length s = (p + n + (want - length acc - n)) mod length s"
        by (rule mod_add_left_eq)
      finally show ?thesis using True n by simp
    next
      case False
      then have "n = want - length acc" using n l by simp
      with False q(1) show ?thesis by simp
    qed
    finally show ?thesis using False by simp
  qed
qed

lemma fast_read_spec:
  assumes "rpos f < length (src f)" "0 < remaining f"
  shows "let want = min n (nat (remaining f)) in
    fast_read f n = Some (Data (cyc (src f) (rpos f) want)
      (f\<lparr>remaining := remaining f - int want, rpos := (rpos f + want) mod length (src f)\<rparr>))"
proof -
  have w: "(if remaining f < int n then nat (remaining f) else n) = min n (nat (remaining f))"
    using assms(2) by (auto simp: min_def le_nat_iff)
  show ?thesis
    unfolding fast_read_def w using assms copy_loop_spec[OF assms(1)]
    by (simp add: Let_def)
qed

lemma read_bufs_spec:
  "rpos f < length (src f) \<Longrightarrow>
    read_bufs f ns = Some (cyc (src f) (rpos f) (min (sum_list ns) (nat (remaining f))))"
proof (induction ns arbitrary: f)
  case Nil
  then show ?case by (simp add: cyc_def)
next
  case (Cons n ns)
  show ?case
  proof (cases "remaining f \<le> 0")
    case True
    then show ?thesis by (simp add: fast_read_def cyc_def)
  next
    case False
    define w where "w = min n (nat (remaining f))"
    let ?f = "f\<lparr>remaining := remaining f - int w, rpos := (rpos f + w) mod length (src f)\<rparr>"
    have rd: "fast_read f n = Some (Data (cyc (src f) (rpos f) w) ?f)"
      using fast_read_spec[OF Cons.prems, of n] False by (simp add: w_def Let_def)
    have "src f \<noteq> []" using Cons.prems by auto
    then have ih: "read_bufs ?f ns =
        Some (cyc (src f) ((rpos f + w) mod length (src f)) (min (sum_list ns) (nat (remaining f - int w))))"
      using Cons.IH[of ?f] by simp
    have "w + min (sum_list ns) (nat (remaining f - int w)) = min (sum_list (n # ns)) (nat (remaining f))"
      using False by (simp add: w_def min_def) linarith
    then have "cyc (src f) (rpos f) w @ cyc (src f) (rpos f + w) (min (sum_list ns) (nat (remaining f - int w)))
        = cyc (src f) (rpos f) (min (sum_list (n # ns)) (nat (remaining f)))"
      by (metis cyc_add)
    with rd ih show ?thesis by (simp add: cyc_mod)
  qed
qed

lemma ascii_fill_printable:
  "c \<in> set (ascii_fill col bs) \<Longrightarrow> (of_char c :: nat) = 10 \<or> 32 \<le> (of_char c :: nat) \<and> (of_char c :: nat) \<le> 126"
proof (induction bs arbitrary: col)
  case (Cons b bs)
  have "b mod 95 < 95" by simp
  then show ?case using Cons by (auto split: if_splits)
qed simp

section \<open>Round trip of the marker\<close>

lemma has_prefix_nth: "has_prefix (drop i w) p \<Longrightarrow> j < length p \<Longrightarrow> i + j < length w \<and> w ! (i + j) = p ! j"
proof -
  assume a: "has_prefix (drop i w) p" "j < length p"
  then obtain t where t: "drop i w = p @ t" by (auto simp: has_prefix_iff)
  then have "length w - i = length p + length t" by (metis length_append length_drop)
  with a(2) have l: "i + j < length w" by auto
  then have "w ! (i + j) = drop i w ! j" by simp
  with t a(2) l show ?thesis by (simp add: nth_append)
qed

lemma trim_suffix_prefix: "\<exists>t. s = trim_suffix s p @ t"
proof (cases "has_suffix s p")
  case True
  then have "s = trim_suffix s p @ drop (length s - length p) s" by (simp only: trim_suffix_def if_True append_take_drop_id)
  then show ?thesis ..
next
  case False
  then have "s = trim_suffix s p @ []" by (simp only: trim_suffix_def if_False append_Nil2)
  then show ?thesis ..
qed

lemma name_shape:
  obtains base rest ext where "pattern = base @ rest" "path_ext pattern = [] \<longrightarrow> ext = ''.txt''"
    "path_ext pattern \<noteq> [] \<longrightarrow> ext = path_ext pattern"
    "\<And>block. nameFromPatternImpl ts r pattern block = base @ gen_itoa ts @ ''_'' @ gen_itoa r @ block @ ext"
proof -
  define e where "e = path_ext pattern"
  define b0 where "b0 = (if e \<noteq> [] then trim_suffix pattern e else pattern)"
  define b where "b = trim_suffix b0 ''*''"
  obtain t0 where t0: "pattern = b0 @ t0"
    using trim_suffix_prefix[of pattern e] by (cases "e = []") (auto simp: b0_def)
  obtain t1 where t1: "b0 = b @ t1" using trim_suffix_prefix unfolding b_def by blast
  have p: "pattern = b @ (t1 @ t0)" by (subst t0, subst t1) simp
  have n: "nameFromPatternImpl ts r pattern block =
      b @ gen_itoa ts @ ''_'' @ gen_itoa r @ block @ (if e = [] then ''.txt'' else e)" for block
    by (simp only: nameFromPatternImpl_def Let_def e_def[symmetric] b0_def[symmetric] b_def[symmetric])
  show thesis by (rule that[OF p _ _ n]) (simp_all add: e_def)
qed

lemma gen_itoa_digits: "0 \<le> n \<Longrightarrow> list_all is_digit (gen_itoa n) \<and> gen_itoa n \<noteq> []"
  by (auto simp: gen_itoa_def digits_of_all is_digit_def digits_of_not_nil)

lemma is_digit_lower [simp]: "is_digit c \<Longrightarrow> lower_byte c = c"
  by (simp add: is_digit_def lower_byte_def)

lemma map_lower_digits: "list_all is_digit s \<Longrightarrow> map lower_byte s = s"
  by (induction s) auto

lemma marker_char_lower [simp]: "marker_char c \<Longrightarrow> lower_byte c = c"
  by (auto simp: marker_char_def lower_byte_def)

lemma map_lower_token: "list_all marker_char s \<Longrightarrow> map lower_byte s = s"
  by (induction s) auto

lemma not_digit_marker: "\<not> is_digit (MarkerPrefix ! j)" if "j < 5"
proof -
  from that consider "j = 0" | "j = 1" | "j = 2" | "j = 3" | "j = 4" by linarith
  then show ?thesis by cases (simp_all add: is_digit_def marker_consts)
qed

text \<open>The digits before the block keep the first occurrence of the prefix where it was put.\<close>

lemma marker_first:
  assumes nc: "\<not> str_contains a MarkerPrefix"
    and d: "list_all is_digit d1" "d1 \<noteq> []" "list_all is_digit d2" "d2 \<noteq> []"
  shows "str_index ((a @ d1 @ ''_'' @ d2) @ MarkerPrefix @ v) MarkerPrefix = Some (length (a @ d1 @ ''_'' @ d2))"
proof (rule str_index_first)
  let ?u = "a @ d1 @ ''_'' @ d2" and ?w = "(a @ d1 @ ''_'' @ d2) @ MarkerPrefix @ v"
  fix i assume i: "i < length ?u"
  show "\<not> has_prefix (drop i ?w) MarkerPrefix"
  proof
    assume hp: "has_prefix (drop i ?w) MarkerPrefix"
    have c: "?w ! (i + j) = MarkerPrefix ! j" if "j < 5" for j
      using has_prefix_nth[OF hp, of j] that by (simp add: MarkerPrefix_def)
    have dig1: "is_digit (?w ! k)" if "length a \<le> k" "k < length a + length d1" for k
      using that d(1) by (auto simp: nth_append list_all_length)
    have dig2: "is_digit (?w ! k)" if "length a + length d1 < k" "k < length ?u" for k
    proof -
      have "?w ! k = ((a @ d1 @ ''_'') @ d2 @ MarkerPrefix @ v) ! k" by simp
      also have "\<dots> = d2 ! (k - (length a + length d1 + 1))"
      proof -
        have "k - Suc (length a + length d1) < length d2" using that by simp
        with that show ?thesis by (subst nth_append) (simp add: nth_append)
      qed
      finally show ?thesis using that d(3) by (simp add: list_all_length)
    qed
    consider "i + 5 \<le> length a" | "i < length a" "length a < i + 5"
      | "length a \<le> i" "i < length a + length d1" | "i = length a + length d1"
      | "length a + length d1 < i" by linarith
    then show False
    proof cases
      case 1
      then have "take 5 (drop i a) = MarkerPrefix"
        using hp by (simp add: has_prefix_def MarkerPrefix_def numeral_eq_Suc)
      then have "a = take i a @ MarkerPrefix @ drop 5 (drop i a)"
        by (metis append_take_drop_id)
      then show False using nc by (auto simp: str_contains_iff)
    next
      case 2
      then have "is_digit (?w ! length a)" using d(2) by (intro dig1) auto
      with c[of "length a - i"] 2 not_digit_marker[of "length a - i"] show False by simp
    next
      case 3
      with dig1[of i] c[of 0] not_digit_marker[of 0] show False by simp
    next
      case 4
      then have "is_digit (?w ! (i + 1))" using d(4) by (intro dig2) auto
      with c[of 1] not_digit_marker[of 1] show False by simp
    next
      case 5
      with dig2[of i] c[of 0] i not_digit_marker[of 0] show False by simp
    qed
  qed
qed

lemma str_contains_prefix: "str_contains u p \<Longrightarrow> str_contains (u @ v) p"
  by (auto simp: str_contains_iff) (metis append.assoc)

lemma extract_of_lower:
  assumes "to_lower uni name = (a @ d1 @ ''_'' @ d2) @ MarkerPrefix @ tok @ ''_'' @ v"
    and "\<not> str_contains a MarkerPrefix" "list_all is_digit d1" "d1 \<noteq> []" "list_all is_digit d2" "d2 \<noteq> []"
    and "valid_token tok"
  shows "ExtractMarker uni name = Some tok"
proof -
  define u where "u = a @ d1 @ ''_'' @ d2"
  have low: "to_lower uni name = u @ MarkerPrefix @ tok @ ''_'' @ v" using assms(1) by (simp add: u_def)
  have idx: "str_index (to_lower uni name) MarkerPrefix = Some (length u)"
    unfolding assms(1) u_def by (rule marker_first) (use assms in auto)
  have tok: "length tok = 12" "list_all marker_char tok"
    using assms(7) by (simp_all add: valid_token_def MarkerLen_def)
  have "drop (length u + length MarkerPrefix) (to_lower uni name) = tok @ ''_'' @ v"
    by (simp add: low)
  moreover have "to_lower uni name ! (length u + length MarkerPrefix + 12) = CHR ''_''"
    using tok(1) by (simp add: low nth_append)
  moreover have "length (to_lower uni name) = length u + length MarkerPrefix + 13 + length v"
    using tok(1) by (simp add: low)
  ultimately show ?thesis
    using tok by (simp add: ExtractMarker_def Let_def idx MarkerLen_def MarkerSuffix_def)
qed

section \<open>Properties\<close>

text \<open>a marker put into a file name is found again whatever the server does around it:
  for a pattern without a marker of its own, the token is recovered from every renaming
  that adds ASCII text before (free of a marker) or after the name or changes the case of
  letters, so a download is always paired with the upload that produced it.\<close>

theorem marker_roundtrip:
  assumes "valid_token tok" "0 \<le> ts" "0 \<le> r"
    and "is_ascii renamed"
    and "map lower_byte renamed =
      map lower_byte (before @ NameFromPatternWithMarker ts r pattern tok @ after)"
    and "\<not> str_contains (map lower_byte (before @ pattern)) MarkerPrefix"
  shows "ExtractMarker uni renamed = Some tok"
proof -
  obtain base rest ext where n: "pattern = base @ rest"
    "\<And>block. nameFromPatternImpl ts r pattern block = base @ gen_itoa ts @ ''_'' @ gen_itoa r @ block @ ext"
    by (rule name_shape[of pattern ts r]) blast
  have tok: "tok \<noteq> []" "map lower_byte tok = tok"
    using assms(1) by (auto simp: valid_token_def MarkerLen_def map_lower_token)
  have d: "map lower_byte (gen_itoa ts) = gen_itoa ts" "map lower_byte (gen_itoa r) = gen_itoa r"
    using gen_itoa_digits[OF assms(2)] gen_itoa_digits[OF assms(3)] by (simp_all add: map_lower_digits)
  have c: "lower_byte CHR ''_'' = CHR ''_''" "map lower_byte MarkerPrefix = MarkerPrefix"
    "map lower_byte MarkerSuffix = ''_''"
    by (simp_all add: marker_consts lower_byte_def)
  have "to_lower uni renamed = map lower_byte renamed" using assms(4) by (rule to_lower_ascii)
  also have "\<dots> = (map lower_byte (before @ base) @ gen_itoa ts @ ''_'' @ gen_itoa r) @
      MarkerPrefix @ tok @ ''_'' @ map lower_byte (ext @ after)"
    unfolding assms(5) using tok(1) by (simp add: NameFromPatternWithMarker_def n(2) d c tok(2))
  finally show ?thesis
    by (rule extract_of_lower)
      (use assms str_contains_prefix[of "map lower_byte (before @ base)" MarkerPrefix "map lower_byte rest"]
        gen_itoa_digits n(1) in auto)
qed

theorem marker_roundtrip_witness:
  "ExtractMarker (\<lambda>s. s) ''IN-Invoice17_4_SLT_A3K7q9zwbf2m_.csv.done'' = Some ''a3k7q9zwbf2m''"
proof -
  have "valid_token ''a3k7q9zwbf2m''" by code_simp
  moreover have "is_ascii ''IN-Invoice17_4_SLT_A3K7q9zwbf2m_.csv.done''" by code_simp
  moreover have "map lower_byte ''IN-Invoice17_4_SLT_A3K7q9zwbf2m_.csv.done'' =
      map lower_byte (''IN-'' @ NameFromPatternWithMarker 17 4 ''invoice*.csv'' ''a3k7q9zwbf2m'' @ ''.done'')"
    by code_simp
  moreover have "\<not> str_contains (map lower_byte (''IN-'' @ ''invoice*.csv'')) MarkerPrefix" by code_simp
  ultimately show ?thesis
    by (intro marker_roundtrip[of _ 17 4 _ "''IN-''" "''invoice*.csv''" "''.done''"]) simp_all
qed

text \<open>the payload reader delivers exactly the requested number of bytes, whatever the
  buffer sizes of the client: the bytes read by any sequence of reads are the seed repeated
  cyclically from its start, cut at the requested size, and no read loops forever.\<close>

theorem fast_reader_delivers:
  assumes "asciiSeed \<noteq> []" "binarySeed \<noteq> []"
  shows "let f = FastReader asciiSeed binarySeed coin sz kind in
    read_bufs f ns =
      Some (map (\<lambda>j. src f ! (j mod length (src f))) [0..<min (sum_list ns) (nat sz)])"
  using read_bufs_spec[of "FastReader asciiSeed binarySeed coin sz kind" ns] assms
  by (simp add: FastReader_def Let_def cyc_def)

theorem fast_reader_delivers_witness:
  "read_bufs (FastReader ''ab'' ''xyz'' 0 5 ''binary'') [2, 4, 9] = Some ''xyzxy''"
proof -
  have "[0..<5] = [0, 1, 2, 3, 4 :: nat]" by (simp add: upt_conv_Cons)
  with fast_reader_delivers[of "''ab''" "''xyz''" 0 5 "''binary''" "[2, 4, 9]"] show ?thesis
    by (simp add: FastReader_def Let_def)
qed

end
