(* ===== verification/HostKeys.thy ===== *)
theory HostKeys
  imports GoStrings "HOL-Library.List_Lexorder" "HOL-Library.Char_ord" "HOL-Library.Product_Lexorder"
begin

text \<open>
  The trust stores (internal/hostkeys: store.go, callbacks.go, tlsstore.go) and their
  trust-on-first-use clients (\<open>TOFUCallback\<close>, and the \<open>VerifyConnection\<close> closure of
  internal/protocol). Parameters: \<open>uni\<close>, the Unicode part of \<open>ToLower\<close>; \<open>fpr\<close>, the
  fingerprint function of golang.org/x/crypto/ssh; \<open>sha\<close>, SHA-256; and, for every save, the
  file-system call that fails, if one does. The interface \<open>pinning_store\<close> states what the
  two stores promise; it is interpreted on both.
\<close>

section \<open>Base64 (encoding/base64, StdEncoding)\<close>

definition b64_alphabet :: string where
  "b64_alphabet = ''ABCDEFGHIJKLMNOPQRSTUVWXYZabcdefghijklmnopqrstuvwxyz0123456789+/''"

definition b64_char :: "nat \<Rightarrow> char" where "b64_char i = b64_alphabet ! i"

fun index_char :: "char \<Rightarrow> string \<Rightarrow> nat option" where
  "index_char c [] = None"
| "index_char c (x # xs) = (if x = c then Some 0 else map_option Suc (index_char c xs))"

definition b64_val :: "char \<Rightarrow> nat option" where "b64_val c = index_char c b64_alphabet"

fun b64_enc :: "nat list \<Rightarrow> string" where
  "b64_enc [] = []"
| "b64_enc [a] = [b64_char (a div 4), b64_char (a mod 4 * 16), CHR ''='', CHR ''='']"
| "b64_enc [a, b] =
     [b64_char (a div 4), b64_char (a mod 4 * 16 + b div 16), b64_char (b mod 16 * 4), CHR ''='']"
| "b64_enc (a # b # c # r) =
     b64_char (a div 4) # b64_char (a mod 4 * 16 + b div 16)
     # b64_char (b mod 16 * 4 + c div 64) # b64_char (c mod 64) # b64_enc r"

fun b64_groups :: "string \<Rightarrow> nat list option" where
  "b64_groups [] = Some []"
| "b64_groups (w # x # y # z # r) =
     (case (b64_val w, b64_val x) of
        (Some i, Some j) \<Rightarrow>
          if y = CHR ''='' then (if z = CHR ''='' \<and> r = [] then Some [i * 4 + j div 16] else None)
          else (case b64_val y of None \<Rightarrow> None | Some k \<Rightarrow>
            if z = CHR ''='' then (if r = [] then Some [i * 4 + j div 16, j mod 16 * 16 + k div 4] else None)
            else (case b64_val z of None \<Rightarrow> None | Some l \<Rightarrow>
              map_option (\<lambda>t. (i * 4 + j div 16) # (j mod 16 * 16 + k div 4) # (k mod 4 * 64 + l) # t)
                (b64_groups r)))
      | _ \<Rightarrow> None)"
| "b64_groups _ = None"

definition EncodeToString :: "string \<Rightarrow> string" where
  "EncodeToString s = b64_enc (map of_char s)"

text \<open>Line breaks are skipped.\<close>

definition DecodeString :: "string \<Rightarrow> string option" where
  "DecodeString s =
     map_option (map char_of)
       (b64_groups (filter (\<lambda>c. c \<noteq> CHR 0x0A \<and> c \<noteq> CHR 0x0D) s))"

lemma b64_inverse_all:
  "list_all (\<lambda>i. b64_val (b64_char i) = Some i \<and> b64_char i \<noteq> CHR ''='' \<and>
     b64_char i \<noteq> CHR 0x0A \<and> b64_char i \<noteq> CHR 0x0D) [0..<64]"
  by code_simp

lemma b64_inverse:
  assumes "i < 64"
  shows "b64_val (b64_char i) = Some i" "b64_char i \<noteq> CHR ''=''"
    "b64_char i \<noteq> CHR 0x0A" "b64_char i \<noteq> CHR 0x0D"
  using b64_inverse_all assms by (auto simp: list_all_length)

lemma pack16: "q < 16 \<Longrightarrow> (x * 16 + q) div 16 = (x::nat)" "q < 16 \<Longrightarrow> (x * 16 + q) mod 16 = q"
  by simp_all

lemma pack4: "q < 4 \<Longrightarrow> (x * 4 + q) div 4 = (x::nat)" "q < 4 \<Longrightarrow> (x * 4 + q) mod 4 = q"
  by simp_all

lemma sextets:
  fixes a b c :: nat
  assumes "a < 256" "b < 256" "c < 256"
  shows "a div 4 < 64" "a mod 4 * 16 < 64" "a mod 4 * 16 + b div 16 < 64" "b mod 16 * 4 < 64"
    "b mod 16 * 4 + c div 64 < 64" "c mod 64 < 64" "b div 16 < 16" "c div 64 < 4"
proof -
  have m: "a mod 4 < 4" "b mod 16 < 16" by simp_all
  show b: "b div 16 < 16" and c: "c div 64 < 4" and "a div 4 < 64"
    using assms by (simp_all add: div_less_iff_less_mult)
  show "a mod 4 * 16 < 64" "a mod 4 * 16 + b div 16 < 64" "b mod 16 * 4 < 64"
    "b mod 16 * 4 + c div 64 < 64" using m b c by linarith+
qed simp

lemma b64_groups_enc: "list_all (\<lambda>b. b < 256) bs \<Longrightarrow> b64_groups (b64_enc bs) = Some bs"
proof (induction bs rule: b64_enc.induct)
  case (2 a)
  then show ?case using sextets[of a 0 0] by (simp add: b64_inverse)
next
  case (3 a b)
  then show ?case using sextets[of a b 0] by (simp add: b64_inverse pack16)
next
  case (4 a b c r)
  then show ?case using sextets[of a b c] by (simp add: b64_inverse pack16 pack4)
qed simp

lemma b64_enc_chars:
  "list_all (\<lambda>b. b < 256) bs \<Longrightarrow> set (b64_enc bs) \<subseteq> insert (CHR ''='') (b64_char ` {..<64})"
proof (induction bs rule: b64_enc.induct)
  case (2 a)
  then show ?case using sextets[of a 0 0] by simp
next
  case (3 a b)
  then show ?case using sextets[of a b 0] by simp
next
  case (4 a b c r)
  then show ?case using sextets[of a b c] by simp
qed simp

lemma Decode_Encode [simp]: "DecodeString (EncodeToString s) = Some s"
proof -
  let ?bs = "map of_char s :: nat list"
  have b: "list_all (\<lambda>b. b < 256) ?bs" by (simp add: list_all_iff)
  have "x \<noteq> CHR 0x0A \<and> x \<noteq> CHR 0x0D" if "x \<in> set (b64_enc ?bs)" for x
    using subsetD[OF b64_enc_chars[OF b] that] b64_inverse(3,4) by auto
  then have "filter (\<lambda>c. c \<noteq> CHR 0x0A \<and> c \<noteq> CHR 0x0D) (b64_enc ?bs) = b64_enc ?bs"
    by (intro filter_True) blast
  with b64_groups_enc[OF b] show ?thesis
    by (simp add: DecodeString_def EncodeToString_def o_def)
qed

section \<open>Addresses\<close>

definition trim_set :: "string \<Rightarrow> string \<Rightarrow> string" where
  "trim_set cs s = rev (dropWhile (\<lambda>c. c \<in> set cs) (rev (dropWhile (\<lambda>c. c \<in> set cs) s)))"

definition canon_host :: "(string \<Rightarrow> string) \<Rightarrow> string \<Rightarrow> string" where
  "canon_host uni host = to_lower uni (trim_set ''[]'' host)"

definition def_port :: "int \<Rightarrow> int" where
  "def_port port = (if port = 0 then 22 else port)"

definition hostKey :: "(string \<Rightarrow> string) \<Rightarrow> string \<Rightarrow> int \<Rightarrow> string" where
  "hostKey uni host port = canon_host uni host @ '':'' @ go_itoa (def_port port)"

text \<open>\<open>net.SplitHostPort\<close>; None for any of its errors.\<close>

definition SplitHostPort :: "string \<Rightarrow> (string \<times> string) option" where
  "SplitHostPort hp =
     (case str_last_index hp '':'' of None \<Rightarrow> None
      | Some i \<Rightarrow>
          if hd hp = CHR ''['' then
            (case str_index hp '']'' of None \<Rightarrow> None
             | Some e \<Rightarrow>
                 if e + 1 = length hp \<or> e + 1 \<noteq> i then None
                 else let host = drop 1 (take e hp) in
                   if str_contains (drop 1 hp) ''['' \<or> str_contains (drop (e + 1) hp) '']'' then None
                   else Some (host, drop (i + 1) hp))
          else let host = take i hp in
            if str_contains host '':'' \<or> str_contains hp ''['' \<or> str_contains hp '']'' then None
            else Some (host, drop (i + 1) hp))"

text \<open>The value \<open>strconv.Atoi\<close> returns next to an error the caller drops: 0 for a syntax
  error, the nearest \<open>int64\<close> when out of range.\<close>

definition atoi_value :: "string \<Rightarrow> int" where
  "atoi_value s =
     (case go_atoi s of Some v \<Rightarrow> v
      | None \<Rightarrow>
          let (neg, ds) = (case s of [] \<Rightarrow> (False, [])
                | c # cs \<Rightarrow> if c = CHR ''-'' then (True, cs) else if c = CHR ''+'' then (False, cs) else (False, s))
          in if ds = [] \<or> \<not> list_all is_digit ds then 0
             else if neg then - (2 ^ 63) else 2 ^ 63 - 1)"

definition splitHostPort :: "string \<Rightarrow> string \<times> int" where
  "splitHostPort hostname =
     (let h = trim_space hostname in
      case SplitHostPort h of
        Some (h', p) \<Rightarrow> (trim_set ''[]'' h', def_port (atoi_value p))
      | None \<Rightarrow> (trim_set ''[]'' h, 22))"

section \<open>The SSH host-key store\<close>

record sshkey =
  ktype :: string
  marshal :: string

record entry =
  eHost :: string
  ePort :: int
  eKeyType :: string
  eKeyBlobB64 :: string
  eFingerprint :: string
  eAddedAt :: int
  eAddedBy :: string

record store =
  entries :: "string \<rightharpoonup> entry"
  disk :: "entry list option"

datatype sentinel = ErrUnknownHost | ErrKeyChanged

datatype verify_error =
  VerifyError (vErr: sentinel) (vHost: string) (vPort: int) (vFingerprint: string) (vPrevious: string)
| CorruptEntry string

text \<open>The calls of \<open>saveLocked\<close>, in order; a save that fails stops at the first failing one.\<close>

datatype save_call = MkdirAll | MarshalIndent | OpenTmp | WriteTmp | SyncTmp | CloseTmp | RenameTmp

definition sorted_entries :: "entry list \<Rightarrow> entry list" where
  "sorted_entries es = sort_key (\<lambda>e. (eHost e, ePort e)) es"

definition saveLocked :: "save_call option \<Rightarrow> string list \<Rightarrow> store \<Rightarrow> store \<times> save_call option" where
  "saveLocked fault ks s =
     (case fault of
        Some c \<Rightarrow> (s, Some c)
      | None \<Rightarrow> (s\<lparr>disk := Some (sorted_entries (map_vals ks (entries s)))\<rparr>, None))"

definition store_List :: "string list \<Rightarrow> store \<Rightarrow> entry list" where
  "store_List ks s = sorted_entries (map_vals ks (entries s))"

text \<open>\<open>Open\<close> on the decoded file: a missing or empty file is None.\<close>

definition store_Open :: "(string \<Rightarrow> string) \<Rightarrow> entry list option \<Rightarrow> store" where
  "store_Open uni f =
     (case f of
        None \<Rightarrow> \<lparr>entries = Map.empty, disk = None\<rparr>
      | Some es \<Rightarrow> \<lparr>entries = foldl (\<lambda>m e. m(hostKey uni (eHost e) (ePort e) \<mapsto> e)) Map.empty es,
                   disk = Some es\<rparr>)"

definition Verify :: "(string \<Rightarrow> string) \<Rightarrow> (sshkey \<Rightarrow> string) \<Rightarrow> store \<Rightarrow> string \<Rightarrow> sshkey \<Rightarrow> verify_error option" where
  "Verify uni fpr s hostname presented =
     (let (host, port) = splitHostPort hostname in
      case entries s (hostKey uni host port) of
        None \<Rightarrow> Some (VerifyError ErrUnknownHost host port (fpr presented) [])
      | Some e \<Rightarrow>
          (case DecodeString (eKeyBlobB64 e) of
             None \<Rightarrow> Some (CorruptEntry hostname)
           | Some stored \<Rightarrow>
               if stored = marshal presented then None
               else Some (VerifyError ErrKeyChanged host port (fpr presented) (eFingerprint e))))"

datatype add_error = EmptyHost | SaveFailed save_call

definition store_Add ::
  "(string \<Rightarrow> string) \<Rightarrow> (sshkey \<Rightarrow> string) \<Rightarrow> save_call option \<Rightarrow> string list \<Rightarrow> int \<Rightarrow> store
    \<Rightarrow> string \<Rightarrow> int \<Rightarrow> sshkey \<Rightarrow> string \<Rightarrow> store \<times> add_error option" where
  "store_Add uni fpr fault ks now s host port key addedBy =
     (if host = [] then (s, Some EmptyHost)
      else let port' = def_port port;
               e = \<lparr>eHost = host, ePort = port', eKeyType = ktype key,
                    eKeyBlobB64 = EncodeToString (marshal key), eFingerprint = fpr key,
                    eAddedAt = now, eAddedBy = addedBy\<rparr>;
               (s', err) = saveLocked fault ks (s\<lparr>entries := (entries s)(hostKey uni host port' \<mapsto> e)\<rparr>)
           in (s', map_option SaveFailed err))"

definition store_Remove ::
  "(string \<Rightarrow> string) \<Rightarrow> save_call option \<Rightarrow> string list \<Rightarrow> store \<Rightarrow> string \<Rightarrow> int
    \<Rightarrow> store \<times> bool \<times> save_call option" where
  "store_Remove uni fault ks s host port =
     (let k = hostKey uni host (def_port port) in
      case entries s k of
        None \<Rightarrow> (s, False, None)
      | Some _ \<Rightarrow>
          (let (s', err) = saveLocked fault ks (s\<lparr>entries := (entries s)(k := None)\<rparr>)
           in (s', True, err)))"

datatype tofu_error = FromVerify verify_error | PersistFailed add_error

record captured_key =
  cHost :: string
  cPort :: int
  cFingerprint :: string
  cPrevious :: string
  cChanged :: bool

definition TOFUCallback ::
  "(string \<Rightarrow> string) \<Rightarrow> (sshkey \<Rightarrow> string) \<Rightarrow> save_call option \<Rightarrow> string list \<Rightarrow> int \<Rightarrow> store
    \<Rightarrow> string \<Rightarrow> sshkey \<Rightarrow> store \<times> tofu_error option \<times> captured_key option" where
  "TOFUCallback uni fpr fault ks now s hostname key =
     (case Verify uni fpr s hostname key of
        None \<Rightarrow> (s, None, None)
      | Some (CorruptEntry h) \<Rightarrow> (s, Some (FromVerify (CorruptEntry h)), None)
      | Some (VerifyError err host port f prev) \<Rightarrow>
          if err = ErrKeyChanged then (s, Some (FromVerify (VerifyError err host port f prev)), None)
          else case store_Add uni fpr fault ks now s host port key ''ui-tofu'' of
                 (s', Some aerr) \<Rightarrow> (s', Some (PersistFailed aerr), None)
               | (s', None) \<Rightarrow>
                   (s', None, Some \<lparr>cHost = host, cPort = port, cFingerprint = fpr key,
                                    cPrevious = [], cChanged = False\<rparr>))"

definition CaptureCallback ::
  "(string \<Rightarrow> string) \<Rightarrow> (sshkey \<Rightarrow> string) \<Rightarrow> store \<Rightarrow> string \<Rightarrow> sshkey
    \<Rightarrow> verify_error option \<times> captured_key option" where
  "CaptureCallback uni fpr s hostname key =
     (case Verify uni fpr s hostname key of
        None \<Rightarrow> (None, None)
      | Some (CorruptEntry h) \<Rightarrow> (Some (CorruptEntry h), None)
      | Some (VerifyError err host port f prev) \<Rightarrow>
          (Some (VerifyError err host port f prev),
           Some \<lparr>cHost = host, cPort = port, cFingerprint = f, cPrevious = prev,
                 cChanged = (err = ErrKeyChanged)\<rparr>))"


definition StrictCallback ::
  "(string \<Rightarrow> string) \<Rightarrow> (sshkey \<Rightarrow> string) \<Rightarrow> store \<Rightarrow> string \<Rightarrow> sshkey \<Rightarrow> verify_error option" where
  "StrictCallback uni fpr s hostname key = Verify uni fpr s hostname key"

section \<open>The FTPS certificate store\<close>

text \<open>The fields of an \<open>x509.Certificate\<close> the store reads; times are nanoseconds.\<close>

record certificate =
  certRaw :: string
  certSubject :: string
  certIssuer :: string
  certNotAfter :: int

record tls_entry =
  tHost :: string
  tPort :: int
  tFingerprint :: string
  tSubject :: string
  tIssuer :: string
  tNotAfter :: int
  tAddedAt :: int

record tls_store =
  tentries :: "string \<rightharpoonup> tls_entry"
  tdisk :: "tls_entry list option"

datatype tls_sentinel = ErrUnknownTLSHost | ErrTLSCertChanged

datatype tls_verify_error =
  NilCert
| TLSVerifyError (tErr: tls_sentinel) (tvHost: string) (tvPort: int) (tvFingerprint: string)
    (tvPrevious: string)

definition hex_digits :: string where "hex_digits = ''0123456789abcdef''"

definition hex_encode :: "string \<Rightarrow> string" where
  "hex_encode s =
     concat (map (\<lambda>c. [hex_digits ! (of_char c div 16), hex_digits ! (of_char c mod 16)]) s)"

definition tlsFingerprint :: "(string \<Rightarrow> string) \<Rightarrow> certificate \<Rightarrow> string" where
  "tlsFingerprint sha cert = ''SHA256:'' @ hex_encode (sha (certRaw cert))"

definition tls_sorted :: "tls_entry list \<Rightarrow> tls_entry list" where
  "tls_sorted es = sort_key (\<lambda>e. (tHost e, tPort e)) es"

text \<open>The calls of \<open>saveLocked\<close> whose error is returned: a failing \<open>MkdirAll\<close> is dropped.\<close>

datatype tls_save_call = TLSMarshal | TLSWriteFile | TLSRename

definition tls_saveLocked ::
  "tls_save_call option \<Rightarrow> string list \<Rightarrow> tls_store \<Rightarrow> tls_store \<times> tls_save_call option" where
  "tls_saveLocked fault ks s =
     (case fault of
        Some c \<Rightarrow> (s, Some c)
      | None \<Rightarrow> (s\<lparr>tdisk := Some (tls_sorted (map_vals ks (tentries s)))\<rparr>, None))"

definition tls_List :: "string list \<Rightarrow> tls_store \<Rightarrow> tls_entry list" where
  "tls_List ks s = tls_sorted (map_vals ks (tentries s))"

definition OpenTLS :: "(string \<Rightarrow> string) \<Rightarrow> tls_entry list option \<Rightarrow> tls_store" where
  "OpenTLS uni f =
     (case f of
        None \<Rightarrow> \<lparr>tentries = Map.empty, tdisk = None\<rparr>
      | Some es \<Rightarrow> \<lparr>tentries = foldl (\<lambda>m e. m(hostKey uni (tHost e) (tPort e) \<mapsto> e)) Map.empty es,
                   tdisk = Some es\<rparr>)"

definition tls_Verify ::
  "(string \<Rightarrow> string) \<Rightarrow> (string \<Rightarrow> string) \<Rightarrow> tls_store \<Rightarrow> string \<Rightarrow> int \<Rightarrow> certificate option
    \<Rightarrow> tls_verify_error option" where
  "tls_Verify uni sha s host port presented =
     (case presented of None \<Rightarrow> Some NilCert
      | Some cert \<Rightarrow>
          let fp = tlsFingerprint sha cert in
          case tentries s (hostKey uni host port) of
            None \<Rightarrow> Some (TLSVerifyError ErrUnknownTLSHost host port fp [])
          | Some e \<Rightarrow>
              if tFingerprint e \<noteq> fp
              then Some (TLSVerifyError ErrTLSCertChanged host port fp (tFingerprint e))
              else None)"

datatype tls_add_error = AddNilCert | TLSSaveFailed tls_save_call

definition tls_Add ::
  "(string \<Rightarrow> string) \<Rightarrow> (string \<Rightarrow> string) \<Rightarrow> tls_save_call option \<Rightarrow> string list \<Rightarrow> int \<Rightarrow> tls_store
    \<Rightarrow> string \<Rightarrow> int \<Rightarrow> certificate option \<Rightarrow> tls_store \<times> tls_add_error option" where
  "tls_Add uni sha fault ks now s host port cert =
     (case cert of None \<Rightarrow> (s, Some AddNilCert)
      | Some c \<Rightarrow>
          let e = \<lparr>tHost = host, tPort = port, tFingerprint = tlsFingerprint sha c,
                   tSubject = certSubject c, tIssuer = certIssuer c,
                   tNotAfter = certNotAfter c, tAddedAt = now\<rparr>;
              (s', err) = tls_saveLocked fault ks
                            (s\<lparr>tentries := (tentries s)(hostKey uni host port \<mapsto> e)\<rparr>)
          in (s', map_option TLSSaveFailed err))"

definition tls_Remove ::
  "(string \<Rightarrow> string) \<Rightarrow> tls_save_call option \<Rightarrow> string list \<Rightarrow> tls_store \<Rightarrow> string \<Rightarrow> int
    \<Rightarrow> tls_store \<times> bool \<times> tls_save_call option" where
  "tls_Remove uni fault ks s host port =
     (let k = hostKey uni host port in
      case tentries s k of
        None \<Rightarrow> (s, False, None)
      | Some _ \<Rightarrow>
          (let (s', err) = tls_saveLocked fault ks (s\<lparr>tentries := (tentries s)(k := None)\<rparr>)
           in (s', True, err)))"

text \<open>
  The \<open>VerifyConnection\<close> closure of an FTPS dial (internal/protocol): \<open>st\<close> is the option's
  store, None when unset, and the captured certificate is returned beside the verdict.
\<close>

datatype conn_error = NoCertificate | ConnVerify tls_verify_error | TofuAdd tls_add_error

definition VerifyConnection ::
  "(string \<Rightarrow> string) \<Rightarrow> (string \<Rightarrow> string) \<Rightarrow> tls_save_call option \<Rightarrow> string list \<Rightarrow> int
    \<Rightarrow> tls_store option \<Rightarrow> bool \<Rightarrow> string \<Rightarrow> int \<Rightarrow> certificate list
    \<Rightarrow> tls_store option \<times> conn_error option \<times> certificate option" where
  "VerifyConnection uni sha fault ks now st tofu host port peers =
     (let captured = (case peers of [] \<Rightarrow> None | c # _ \<Rightarrow> Some c) in
      case st of
        None \<Rightarrow> (None, None, captured)
      | Some s \<Rightarrow>
          (case captured of
             None \<Rightarrow> (st, Some NoCertificate, captured)
           | Some leaf \<Rightarrow>
               (case tls_Verify uni sha s host port (Some leaf) of
                  None \<Rightarrow> (st, None, captured)
                | Some verr \<Rightarrow>
                    if tofu \<and> (case verr of TLSVerifyError e _ _ _ _ \<Rightarrow> e = ErrUnknownTLSHost | NilCert \<Rightarrow> False)
                    then (case tls_Add uni sha fault ks now s host port (Some leaf) of
                            (s', Some aerr) \<Rightarrow> (Some s', Some (TofuAdd aerr), captured)
                          | (s', None) \<Rightarrow> (Some s', None, captured))
                    else (st, Some (ConnVerify verr), captured))))"

section \<open>Addresses are told apart by host and port\<close>

lemma colon_decompose:
  assumes "a @ '':'' @ ds = a' @ '':'' @ ds'" "CHR '':'' \<notin> set ds" "CHR '':'' \<notin> set ds'"
  shows "a = a' \<and> ds = ds'"
proof -
  have tw: "takeWhile (\<lambda>c. c \<noteq> CHR '':'') (rev (b @ '':'' @ e)) = rev e"
    if "CHR '':'' \<notin> set e" for b e :: string
  proof -
    have "\<forall>x \<in> set (rev e). x \<noteq> CHR '':''" using that by auto
    then show ?thesis by (simp add: takeWhile_append)
  qed
  have "rev ds = rev ds'"
    using tw[OF assms(2), of a, unfolded assms(1)] tw[OF assms(3), of a'] by (rule trans[OF sym])
  with assms(1) show ?thesis by simp
qed

lemma itoa_no_colon: "CHR '':'' \<notin> set (go_itoa n)"
proof -
  have d: "CHR '':'' \<notin> set (digits_of m [])" for m
  proof
    assume "CHR '':'' \<in> set (digits_of m [])"
    with digits_of_all[of "[]" m] have "is_digit CHR '':''" by (simp add: list_all_iff)
    then show False by (simp add: is_digit_def)
  qed
  then show ?thesis by (simp add: go_itoa_def)
qed

lemma itoa_inject: "in_i64 m \<Longrightarrow> in_i64 n \<Longrightarrow> go_itoa m = go_itoa n \<Longrightarrow> m = n"
  by (metis go_atoi_itoa option.inject)

lemma def_port_range [simp]: "in_i64 p \<Longrightarrow> in_i64 (def_port p)"
  by (simp add: def_port_def in_i64_def)

lemma def_port_idem [simp]: "def_port (def_port p) = def_port p"
  by (simp add: def_port_def)

lemma hostKey_def_port [simp]: "hostKey uni h (def_port p) = hostKey uni h p"
  by (simp add: hostKey_def)

text \<open>Two addresses share a trust entry exactly when their host names agree after
  lower-casing and dropping the brackets of an IPv6 literal, and their ports agree, port 0
  standing for 22: the separator never lets a host and a port be confused.\<close>
theorem hostKey_canonical:
  assumes "in_i64 p" "in_i64 p'"
  shows "hostKey uni h p = hostKey uni h' p' \<longleftrightarrow>
    canon_host uni h = canon_host uni h' \<and> def_port p = def_port p'"
proof
  assume "hostKey uni h p = hostKey uni h' p'"
  then have "canon_host uni h = canon_host uni h' \<and> go_itoa (def_port p) = go_itoa (def_port p')"
    unfolding hostKey_def by (intro colon_decompose itoa_no_colon)
  with assms show "canon_host uni h = canon_host uni h' \<and> def_port p = def_port p'"
    by (auto intro: itoa_inject)
qed (simp add: hostKey_def)

theorem hostKey_canonical_witness:
  "hostKey id ''[FE80::1]'' 0 = hostKey id ''fe80::1'' 22
   \<and> hostKey id ''a'' 2222 \<noteq> hostKey id ''a:22'' 22"
proof -
  have r: "in_i64 0" "in_i64 22" "in_i64 2222" by (simp_all add: in_i64_def)
  show ?thesis
    using hostKey_canonical[OF r(1,2), of id "''[FE80::1]''" "''fe80::1''"]
      hostKey_canonical[OF r(3,2), of id "''a''" "''a:22''"]
    by (simp add: canon_host_def def_port_def) code_simp
qed

section \<open>What a pinning store promises\<close>

text \<open>A session of dials in order: the environment of each (clock, map order, save fault), the
  name dialled and the key presented; the result is the verdict of each dial.\<close>

primrec dial_run ::
  "('f \<Rightarrow> 's \<Rightarrow> 'h \<Rightarrow> 'k \<Rightarrow> 's \<times> bool) \<Rightarrow> 's \<Rightarrow> ('f \<times> 'h \<times> 'k) list \<Rightarrow> 's \<times> bool list" where
  "dial_run dial s [] = (s, [])"
| "dial_run dial s (d # ds) =
     (case d of (f, h, k) \<Rightarrow>
        let (s', ok) = dial f s h k; (s'', oks) = dial_run dial s' ds in (s'', ok # oks))"

lemma dial_run_length [simp]: "length (snd (dial_run dial s ds)) = length ds"
  by (induction ds arbitrary: s) (auto simp: split_beta)

lemma dial_run_Cons:
  "snd (dial_run dial s ((f, h, k) # ds)) =
     snd (dial f s h k) # snd (dial_run dial (fst (dial f s h k)) ds)"
  by (simp add: split_beta)

locale pinning_store =
  fixes addr :: "'h \<Rightarrow> 'a"
    and ident :: "'k \<Rightarrow> 'm"
    and known :: "'s \<Rightarrow> 'a \<Rightarrow> bool"
    and trusted :: "'s \<Rightarrow> 'a \<Rightarrow> 'm \<Rightarrow> bool"
    and dial :: "'f \<Rightarrow> 's \<Rightarrow> 'h \<Rightarrow> 'k \<Rightarrow> 's \<times> bool"
  assumes trusted_known: "trusted s a m \<Longrightarrow> known s a"
    and trusted_unique: "trusted s a m \<Longrightarrow> trusted s a m' \<Longrightarrow> m' = m"
    and dial_known: "known s (addr h) \<Longrightarrow> dial f s h k = (s, trusted s (addr h) (ident k))"
    and dial_accepts: "\<not> known s (addr h) \<Longrightarrow> snd (dial f s h k)
      \<Longrightarrow> trusted (fst (dial f s h k)) (addr h) (ident k)"
    and dial_keeps: "\<not> known s (addr h) \<Longrightarrow> trusted s a m \<Longrightarrow> trusted (fst (dial f s h k)) a m"
begin

lemma trusted_stable: "trusted s a m \<Longrightarrow> trusted (fst (dial f s h k)) a m"
  by (cases "known s (addr h)") (simp_all add: dial_known dial_keeps)

lemma accepted_trusted: "snd (dial f s h k) \<Longrightarrow> trusted (fst (dial f s h k)) (addr h) (ident k)"
  by (cases "known s (addr h)") (simp_all add: dial_known dial_accepts)

lemma trusted_decides:
  assumes "trusted s (addr h) m"
  shows "snd (dial f s h k) \<longleftrightarrow> ident k = m"
  using assms by (auto simp: dial_known[OF trusted_known] dest: trusted_unique)

lemma pinned_run:
  assumes "trusted s a m" "i < length ds" "ds ! i = (f, h, k)" "addr h = a"
  shows "snd (dial_run dial s ds) ! i \<longleftrightarrow> ident k = m"
  using assms
proof (induction ds arbitrary: s i)
  case (Cons d ds)
  obtain f' h' k' where d: "d = (f', h', k')" by (cases d)
  show ?case
  proof (cases i)
    case 0
    with Cons.prems d show ?thesis by (simp add: split_beta trusted_decides)
  next
    case (Suc j)
    with Cons.prems d have "snd (dial_run dial (fst (dial f' s h' k')) ds) ! j \<longleftrightarrow> ident k = m"
      by (intro Cons.IH trusted_stable) simp_all
    with Suc d show ?thesis by (simp add: split_beta)
  qed
qed simp

lemma accepted_pins:
  assumes "i < j" "j < length ds" "ds ! i = (f, h, k)" "ds ! j = (f', h', k')" "addr h = addr h'"
    and "snd (dial_run dial s ds) ! i"
  shows "snd (dial_run dial s ds) ! j \<longleftrightarrow> ident k' = ident k"
  using assms
proof (induction ds arbitrary: s i j)
  case (Cons d ds)
  obtain f0 h0 k0 where d: "d = (f0, h0, k0)" by (cases d)
  let ?s = "fst (dial f0 s h0 k0)"
  from Cons.prems obtain j' where j: "j = Suc j'" by (cases j) auto
  have "snd (dial_run dial ?s ds) ! j' \<longleftrightarrow> ident k' = ident k"
  proof (cases i)
    case 0
    with Cons.prems d have "snd (dial f s h k)" "?s = fst (dial f s h k)" by (simp_all add: split_beta)
    then have "trusted ?s (addr h) (ident k)" by (simp add: accepted_trusted)
    then show ?thesis using Cons.prems j by (intro pinned_run) simp_all
  next
    case (Suc i')
    with Cons.prems d j show ?thesis by (intro Cons.IH[of i']) (simp_all add: split_beta)
  qed
  with j d show ?case by (simp add: split_beta)
qed simp

end

section \<open>Both stores pin\<close>

definition host_addr :: "(string \<Rightarrow> string) \<Rightarrow> string \<Rightarrow> string" where
  "host_addr uni hostname = (case splitHostPort hostname of (h, p) \<Rightarrow> hostKey uni h p)"

definition ssh_known :: "store \<Rightarrow> string \<Rightarrow> bool" where
  "ssh_known s a \<longleftrightarrow> entries s a \<noteq> None"

definition ssh_trusted :: "store \<Rightarrow> string \<Rightarrow> string \<Rightarrow> bool" where
  "ssh_trusted s a m \<longleftrightarrow>
     (case entries s a of None \<Rightarrow> False | Some e \<Rightarrow> DecodeString (eKeyBlobB64 e) = Some m)"

text \<open>One SSH dial under \<open>TOFUCallback\<close>.\<close>

definition ssh_dial ::
  "(string \<Rightarrow> string) \<Rightarrow> (sshkey \<Rightarrow> string) \<Rightarrow> save_call option \<times> string list \<times> int
    \<Rightarrow> store \<Rightarrow> string \<Rightarrow> sshkey \<Rightarrow> store \<times> bool" where
  "ssh_dial uni fpr env s hostname key =
     (case env of (fault, ks, now) \<Rightarrow>
        case TOFUCallback uni fpr fault ks now s hostname key of (s', err, _) \<Rightarrow> (s', err = None))"

definition ftps_known :: "tls_store \<Rightarrow> string \<Rightarrow> bool" where
  "ftps_known s a \<longleftrightarrow> tentries s a \<noteq> None"

definition ftps_trusted :: "tls_store \<Rightarrow> string \<Rightarrow> string \<Rightarrow> bool" where
  "ftps_trusted s a m \<longleftrightarrow> (case tentries s a of None \<Rightarrow> False | Some e \<Rightarrow> tFingerprint e = m)"

text \<open>One FTPS handshake with a store, the server presenting one certificate.\<close>

definition ftps_dial ::
  "(string \<Rightarrow> string) \<Rightarrow> (string \<Rightarrow> string) \<Rightarrow> tls_save_call option \<times> string list \<times> int \<times> bool
    \<Rightarrow> tls_store \<Rightarrow> string \<times> int \<Rightarrow> certificate \<Rightarrow> tls_store \<times> bool" where
  "ftps_dial uni sha env s hp cert =
     (case (env, hp) of ((fault, ks, now, tofu), (host, port)) \<Rightarrow>
        case VerifyConnection uni sha fault ks now (Some s) tofu host port [cert] of
          (st, err, _) \<Rightarrow> (case st of Some s' \<Rightarrow> (s', err = None) | None \<Rightarrow> (s, err = None)))"

lemma saveLocked_entries [simp]: "entries (fst (saveLocked fault ks s)) = entries s"
  by (simp add: saveLocked_def split: option.split)

lemma tls_saveLocked_entries [simp]: "tentries (fst (tls_saveLocked fault ks s)) = tentries s"
  by (simp add: tls_saveLocked_def split: option.split)

lemma Add_entries:
  "entries (fst (store_Add uni fpr fault ks now s host port key by)) =
     (if host = [] then entries s
      else (entries s)(hostKey uni host port \<mapsto>
        \<lparr>eHost = host, ePort = def_port port, eKeyType = ktype key,
         eKeyBlobB64 = EncodeToString (marshal key), eFingerprint = fpr key,
         eAddedAt = now, eAddedBy = by\<rparr>))"
  by (simp add: store_Add_def Let_def split_beta)

lemma tls_Add_entries:
  "tentries (fst (tls_Add uni sha fault ks now s host port (Some c))) =
     (tentries s)(hostKey uni host port \<mapsto>
        \<lparr>tHost = host, tPort = port, tFingerprint = tlsFingerprint sha c,
         tSubject = certSubject c, tIssuer = certIssuer c,
         tNotAfter = certNotAfter c, tAddedAt = now\<rparr>)"
  by (simp add: tls_Add_def Let_def split_beta)

lemma TOFU_known:
  assumes "entries s (host_addr uni hostname) = Some e"
  shows "ssh_dial uni fpr env s hostname key =
    (s, DecodeString (eKeyBlobB64 e) = Some (marshal key))"
  using assms
  by (auto simp: ssh_dial_def TOFUCallback_def Verify_def host_addr_def split: option.splits prod.splits)

lemma TOFU_unknown:
  assumes "entries s (host_addr uni hostname) = None" and "splitHostPort hostname = (host, port)"
  shows "ssh_dial uni fpr (fault, ks, now) s hostname key =
    (case store_Add uni fpr fault ks now s host port key ''ui-tofu'' of (s', err) \<Rightarrow> (s', err = None))"
  using assms
  by (auto simp: ssh_dial_def TOFUCallback_def Verify_def host_addr_def split: option.splits prod.splits)

lemma ftps_known_dial:
  assumes "tentries s (hostKey uni host port) = Some e"
  shows "ftps_dial uni sha env s (host, port) cert = (s, tFingerprint e = tlsFingerprint sha cert)"
  using assms
  by (auto simp: ftps_dial_def VerifyConnection_def tls_Verify_def Let_def split: prod.splits)

lemma ftps_unknown_dial:
  assumes "tentries s (hostKey uni host port) = None"
  shows "ftps_dial uni sha (fault, ks, now, tofu) s (host, port) cert =
    (if tofu then (case tls_Add uni sha fault ks now s host port (Some cert) of (s', err) \<Rightarrow> (s', err = None))
     else (s, False))"
  using assms
  by (auto simp: ftps_dial_def VerifyConnection_def tls_Verify_def Let_def split: prod.splits option.splits)

interpretation ssh: pinning_store "host_addr uni" marshal ssh_known ssh_trusted "ssh_dial uni fpr"
  for uni fpr
proof
  fix s hostname key and f :: "save_call option \<times> string list \<times> int"
  assume "\<not> ssh_known s (host_addr uni hostname)"
  then have none: "entries s (host_addr uni hostname) = None" by (simp add: ssh_known_def)
  obtain host port where hp: "splitHostPort hostname = (host, port)" by fastforce
  obtain fault ks now where f: "f = (fault, ks, now)" by (cases f)
  have addr: "host_addr uni hostname = hostKey uni host port" by (simp add: host_addr_def hp)
  note D = TOFU_unknown[OF none hp, of fpr fault ks now key]
  let ?e = "entries (fst (ssh_dial uni fpr f s hostname key))"
  have e: "?e = entries (fst (store_Add uni fpr fault ks now s host port key ''ui-tofu''))"
    using D by (simp add: f split_beta)
  { assume "snd (ssh_dial uni fpr f s hostname key)"
    then have "host \<noteq> []" using D by (auto simp: f split_beta store_Add_def)
    then show "ssh_trusted (fst (ssh_dial uni fpr f s hostname key)) (host_addr uni hostname) (marshal key)"
      by (simp add: ssh_trusted_def e Add_entries addr) }
  { fix a m
    assume "ssh_trusted s a m"
    then show "ssh_trusted (fst (ssh_dial uni fpr f s hostname key)) a m"
      using none by (auto simp: ssh_trusted_def e Add_entries addr split: option.splits) }
qed (auto simp: ssh_trusted_def ssh_known_def TOFU_known split: option.splits)

interpretation ftps: pinning_store "\<lambda>(h, p). hostKey uni h p" "tlsFingerprint sha"
  ftps_known ftps_trusted "ftps_dial uni sha"
  for uni sha
proof
  fix s cert and hp :: "string \<times> int" and f :: "tls_save_call option \<times> string list \<times> int \<times> bool"
  assume "\<not> ftps_known s (case hp of (h, p) \<Rightarrow> hostKey uni h p)"
  moreover obtain host port where hp: "hp = (host, port)" by (cases hp)
  ultimately have none: "tentries s (hostKey uni host port) = None" by (simp add: ftps_known_def)
  obtain fault ks now tofu where f: "f = (fault, ks, now, tofu)" by (cases f)
  note D = ftps_unknown_dial[OF none, of sha fault ks now tofu cert]
  { assume "snd (ftps_dial uni sha f s hp cert)"
    then show "ftps_trusted (fst (ftps_dial uni sha f s hp cert))
        (case hp of (h, p) \<Rightarrow> hostKey uni h p) (tlsFingerprint sha cert)"
      using D by (auto simp: f hp split_beta ftps_trusted_def tls_Add_entries split: if_splits) }
  { fix a m
    assume "ftps_trusted s a m"
    then show "ftps_trusted (fst (ftps_dial uni sha f s hp cert)) a m"
      using D none by (auto simp: f hp split_beta ftps_trusted_def tls_Add_entries split: option.splits) }
qed (auto simp: ftps_trusted_def ftps_known_def ftps_known_dial split: option.splits prod.splits)

text \<open>C3: In any session of SSH dials under trust-on-first-use, whatever saves fail and in
  whatever order the hosts are dialled, once a dial to an address has been accepted a later
  dial to that address is accepted exactly when it presents the same key bytes.\<close>
theorem ssh_pinning:
  assumes "i < j" "j < length ds" "ds ! i = (f, h, k)" "ds ! j = (f', h', k')"
    and "host_addr uni h = host_addr uni h'"
    and "snd (dial_run (ssh_dial uni fpr) s ds) ! i"
  shows "snd (dial_run (ssh_dial uni fpr) s ds) ! j \<longleftrightarrow> marshal k' = marshal k"
  by (rule ssh.accepted_pins[OF assms])

text \<open>Three dials: a first contact, the same host by its other spelling with the same key,
  and an impostor.\<close>

definition demo_dials :: "((save_call option \<times> string list \<times> int) \<times> string \<times> sshkey) list" where
  "demo_dials =
     [((None, [''sftp.a:22''], 5), ''sftp.A'', \<lparr>ktype = ''rsa'', marshal = ''K1''\<rparr>),
      ((None, [''sftp.a:22''], 6), ''sftp.a:22'', \<lparr>ktype = ''rsa'', marshal = ''K1''\<rparr>),
      ((None, [''sftp.a:22''], 7), ''sftp.a'', \<lparr>ktype = ''rsa'', marshal = ''K2''\<rparr>)]"

lemma demo_verdicts:
  "snd (dial_run (ssh_dial id marshal) \<lparr>entries = Map.empty, disk = None\<rparr> demo_dials) = [True, True, False]"
  by code_simp

theorem ssh_pinning_witness:
  "snd (dial_run (ssh_dial id marshal) \<lparr>entries = Map.empty, disk = None\<rparr> demo_dials) ! 1
   \<and> \<not> snd (dial_run (ssh_dial id marshal) \<lparr>entries = Map.empty, disk = None\<rparr> demo_dials) ! 2"
proof -
  have a: "host_addr id ''sftp.A'' = host_addr id ''sftp.a:22''" by code_simp
  have b: "host_addr id ''sftp.A'' = host_addr id ''sftp.a''" by code_simp
  have ok: "snd (dial_run (ssh_dial id marshal) \<lparr>entries = Map.empty, disk = None\<rparr> demo_dials) ! 0"
    by (simp add: demo_verdicts)
  have l: "length demo_dials = 3" by (simp add: demo_dials_def)
  show ?thesis
    using ssh_pinning[OF _ _ _ _ a ok, of 1] ssh_pinning[OF _ _ _ _ b ok, of 2]
    by (simp add: l) (simp add: demo_dials_def)
qed

text \<open>In any session of FTPS handshakes against a certificate store, with or without
  trust-on-first-use, once a certificate has been accepted for an address, exactly the
  certificates with its fingerprint are accepted there later.\<close>
theorem ftps_pinning:
  assumes "i < j" "j < length ds" "ds ! i = (f, (h, p), k)" "ds ! j = (f', (h', p'), k')"
    and "hostKey uni h p = hostKey uni h' p'"
    and "snd (dial_run (ftps_dial uni sha) s ds) ! i"
  shows "snd (dial_run (ftps_dial uni sha) s ds) ! j \<longleftrightarrow> tlsFingerprint sha k' = tlsFingerprint sha k"
  using ftps.accepted_pins[OF assms(1-4) _ assms(6)] assms(5) by simp

definition demo_cert :: "string \<Rightarrow> certificate" where
  "demo_cert raw = \<lparr>certRaw = raw, certSubject = [], certIssuer = [], certNotAfter = 0\<rparr>"

definition demo_ftps :: "((tls_save_call option \<times> string list \<times> int \<times> bool) \<times> (string \<times> int) \<times> certificate) list" where
  "demo_ftps =
     [((None, [''f:21''], 5, True), (''F'', 21), demo_cert ''A''),
      ((None, [''f:21''], 6, True), (''f'', 21), demo_cert ''B'')]"

theorem ftps_pinning_witness:
  "\<not> snd (dial_run (ftps_dial id id) \<lparr>tentries = Map.empty, tdisk = None\<rparr> demo_ftps) ! 1"
proof -
  have a: "hostKey id ''F'' 21 = hostKey id ''f'' 21" by code_simp
  have ok: "snd (dial_run (ftps_dial id id) \<lparr>tentries = Map.empty, tdisk = None\<rparr> demo_ftps) ! 0"
    by code_simp
  have "tlsFingerprint id (demo_cert ''B'') \<noteq> tlsFingerprint id (demo_cert ''A'')" by code_simp
  with ftps_pinning[OF _ _ _ _ a ok, of 1] show ?thesis by (simp add: demo_ftps_def)
qed

section \<open>Histories of the SSH store\<close>

datatype store_op =
  OpAdd "save_call option" "string list" int string int sshkey string
| OpRemove "save_call option" "string list" string int
| OpDial "save_call option" "string list" int string sshkey

fun store_step :: "(string \<Rightarrow> string) \<Rightarrow> (sshkey \<Rightarrow> string) \<Rightarrow> store \<Rightarrow> store_op \<Rightarrow> store" where
  "store_step uni fpr s (OpAdd fault ks now host port key by) =
     fst (store_Add uni fpr fault ks now s host port key by)"
| "store_step uni fpr s (OpRemove fault ks host port) = fst (store_Remove uni fault ks s host port)"
| "store_step uni fpr s (OpDial fault ks now hostname key) =
     fst (TOFUCallback uni fpr fault ks now s hostname key)"

text \<open>Every entry is filed under its own address.\<close>

definition entry_key :: "(string \<Rightarrow> string) \<Rightarrow> entry \<Rightarrow> string" where
  "entry_key uni e = hostKey uni (eHost e) (ePort e)"

abbreviation store_ok :: "(string \<Rightarrow> string) \<Rightarrow> store \<Rightarrow> bool" where
  "store_ok uni s \<equiv> keyed (entry_key uni) (entries s)"

lemma Add_ok [inv_intros]: "store_ok uni s \<Longrightarrow> store_ok uni (fst (store_Add uni fpr fault ks now s host port key by))"
  by (simp add: Add_entries entry_key_def)

lemma Remove_ok [inv_intros]: "store_ok uni s \<Longrightarrow> store_ok uni (fst (store_Remove uni fault ks s host port))"
  by (simp add: store_Remove_def Let_def split_beta split: option.split)

lemma TOFU_ok [inv_intros]:
  "store_ok uni s \<Longrightarrow> store_ok uni (fst (TOFUCallback uni fpr fault ks now s hostname key))"
proof -
  assume ok: "store_ok uni s"
  have "store_ok uni s'" if "store_Add uni fpr fault ks now s host port key ''ui-tofu'' = (s', err)"
    for host port s' err
    using Add_ok[OF ok, of fpr fault ks now host port key "''ui-tofu''"] that by simp
  with ok show ?thesis
    by (auto simp: TOFUCallback_def split: option.split verify_error.split prod.split)
qed

lemma Open_ok: "store_ok uni (store_Open uni f)"
  unfolding store_Open_def
  by (auto simp: entry_key_def[symmetric] intro: keyed_fold split: option.split)

interpretation ssh_store: component "store_step uni fpr" "store_ok uni" for uni fpr
proof
  fix s e assume "store_ok uni s" then show "store_ok uni (store_step uni fpr s e)"
    by (cases e) (simp_all add: inv_intros)
qed

lemma entry_addr_inj:
  assumes "keyed (entry_key uni) m"
  shows "inj_on (\<lambda>e. (eHost e, ePort e)) (ran m)"
proof (rule inj_onI)
  fix x y assume xy: "x \<in> ran m" "y \<in> ran m" "(eHost x, ePort x) = (eHost y, ePort y)"
  then obtain k k' where "m k = Some x" "m k' = Some y" by (auto simp: ran_def)
  moreover have "entry_key uni x = entry_key uni y" using xy(3) by (simp add: entry_key_def)
  ultimately show "x = y" using assms by (metis keyedD option.inject)
qed



end
