(* ===== verification/Config.thy ===== *)
theory Config
  imports GoStrings Float64
begin

text \<open>
  The run configuration (internal/config/config.go): the load, source and sink sections,
  the user lists, \<open>Validate\<close> with the defaults it fills in, and the parser of the user CSV.
  A pointer is an option; a Go map of source overrides is the list of its entries in the
  order the loop visits them. \<open>DurationHours\<close> is a rational (a NaN cannot come from a
  decoded configuration). The fields that only travel to the transport (keys, TLS, bastion)
  play no part in validation and are left out.
\<close>

section \<open>Sections of the configuration\<close>

datatype source_config = SourceConfig
  (sc_kind: string) (sc_files: "string list") (sc_dir: string) (sc_layout: string) (sc_mode: string)
  (per_pattern: "(string \<times> source_config option) list")
  (per_user: "(string \<times> source_config option) list")

record sink_config =
  sk_kind :: string
  sk_root :: string
  sk_template :: string
  sk_overwrite :: bool

record ramp_config =
  start_fpm :: int
  step_fpm :: int
  step_every_sec :: int
  ceiling_fpm :: int

record normal_load =
  files_per_minute :: int
  min_size_mb :: int
  max_size_mb :: int
  content_type :: string
  n_source :: "source_config option"
  n_ramp :: "ramp_config option"

record large_load =
  min_size :: int
  max_size :: int
  lf_unit :: string
  interval_minutes :: int
  lf_source :: "source_config option"

record download_load =
  dl_folder :: string
  dl_streams :: int
  match_mode :: string
  dl_sink :: "sink_config option"

record user_creds =
  username :: string
  password :: string
  patterns :: "string list"

record run_config =
  host :: string
  port :: int
  upload_folder :: string
  parallel_streams :: int
  duration_hours :: rat
  normal :: "normal_load option"
  large_file :: "large_load option"
  download :: "download_load option"
  normal_users :: "user_creds list"
  large_users :: "user_creds list"
  download_users :: "user_creds list"
  poll_interval :: int
  trackid_timeout :: int
  max_failures :: int
  speed_floor_percent :: int
  speed_floor_warmup :: int
  speed_floor_breach :: int
  verify_hashes :: bool

definition second :: int where "second = 1000000000"
definition minute :: int where "minute = 60 * second"

section \<open>Validation\<close>

datatype config_error =
  NoHost | BadPort | NoUploadFolder | BadDuration | NoLoad
| NoNormalUsers | BadFilesPerMinute | BadMinSizeMB | BadContentType
| NoLargeUsers | BadUnit | BadMinSize | BadInterval
| NoDownloadUsers
| SourceNoFiles string | SourceNoDir string | SourceBadLayout string | SourceBadKind string | SourceBadMode string
| SinkNoRoot | SinkBadKind
| RampStart | RampStep | RampEvery | RampCeiling

fun Ramp_Validate :: "ramp_config option \<Rightarrow> config_error option" where
  "Ramp_Validate None = None"
| "Ramp_Validate (Some r) =
     (if start_fpm r < 1 then Some RampStart
      else if step_fpm r < 0 then Some RampStep
      else if step_every_sec r < 1 then Some RampEvery
      else if ceiling_fpm r < 0 then Some RampCeiling
      else None)"

text \<open>The two range loops of \<open>SourceConfig.Validate\<close> stop at the first error.\<close>

fun Source_Validate :: "source_config option \<Rightarrow> string \<Rightarrow> config_error option"
and validate_subs :: "(string \<times> source_config option) list \<Rightarrow> string \<Rightarrow> config_error option" where
  "Source_Validate None label = None"
| "Source_Validate (Some (SourceConfig kind files dir layout mode pp pu)) label =
     (let kind' = (if kind = [] then ''synthetic'' else kind);
          kerr = (if kind' = ''synthetic'' then None
                  else if kind' = ''local-files'' then (if files = [] then Some (SourceNoFiles label) else None)
                  else if kind' = ''local-dir'' then
                    (if dir = [] then Some (SourceNoDir label)
                     else if layout \<in> {[], ''flat'', ''by-user'', ''by-pattern'', ''by-user-pattern''} then None
                     else Some (SourceBadLayout label))
                  else Some (SourceBadKind label))
      in if kerr \<noteq> None then kerr
         else if mode \<notin> {[], ''round-robin'', ''random'', ''sequential''} then Some (SourceBadMode label)
         else case validate_subs pp (label @ ''.per_pattern['') of
                Some e \<Rightarrow> Some e
              | None \<Rightarrow> validate_subs pu (label @ ''.per_user[''))"
| "validate_subs [] label = None"
| "validate_subs ((k, sub) # rest) label =
     (case Source_Validate sub (label @ k @ '']'') of
        Some e \<Rightarrow> Some e
      | None \<Rightarrow> validate_subs rest label)"

fun Sink_Validate :: "sink_config option \<Rightarrow> config_error option" where
  "Sink_Validate None = None"
| "Sink_Validate (Some s) =
     (let kind = (if sk_kind s = [] then ''discard'' else sk_kind s) in
      if kind = ''discard'' then None
      else if kind = ''local-disk'' then (if sk_root s = [] then Some SinkNoRoot else None)
      else Some SinkBadKind)"

text \<open>The normal-load, large-file and download blocks of \<open>RunConfig.Validate\<close>, each with the
  defaults it writes back.\<close>

definition validate_normal :: "user_creds list \<Rightarrow> normal_load \<Rightarrow> config_error + normal_load" where
  "validate_normal users n =
     (if users = [] then Inl NoNormalUsers
      else if files_per_minute n \<le> 0 then Inl BadFilesPerMinute
      else if min_size_mb n < 1 then Inl BadMinSizeMB
      else
        let n1 = (if max_size_mb n < min_size_mb n then n\<lparr>max_size_mb := min_size_mb n\<rparr> else n) in
        if content_type n1 \<notin> {[], ''binary'', ''ascii'', ''random''} then Inl BadContentType
        else
          let n2 = (if content_type n1 = [] then n1\<lparr>content_type := ''binary''\<rparr> else n1) in
          case Source_Validate (n_source n2) ''normal'' of Some e \<Rightarrow> Inl e | None \<Rightarrow> Inr n2)"

definition validate_large :: "user_creds list \<Rightarrow> large_load \<Rightarrow> config_error + large_load" where
  "validate_large users l =
     (if users = [] then Inl NoLargeUsers
      else if lf_unit l \<noteq> ''MB'' \<and> lf_unit l \<noteq> ''GB'' then Inl BadUnit
      else if min_size l < 1 then Inl BadMinSize
      else
        let l1 = (if max_size l < min_size l then l\<lparr>max_size := min_size l\<rparr> else l) in
        if interval_minutes l1 \<le> 0 then Inl BadInterval
        else case Source_Validate (lf_source l1) ''large-file'' of Some e \<Rightarrow> Inl e | None \<Rightarrow> Inr l1)"

definition validate_download ::
  "user_creds list \<Rightarrow> string \<Rightarrow> download_load \<Rightarrow> config_error + download_load" where
  "validate_download users folder d =
     (if users = [] then Inl NoDownloadUsers
      else
        let d1 = (if dl_streams d < 1 then d\<lparr>dl_streams := 1\<rparr> else d);
            d2 = (if dl_folder d1 = [] then d1\<lparr>dl_folder := folder\<rparr> else d1)
        in case Sink_Validate (dl_sink d2) of Some e \<Rightarrow> Inl e | None \<Rightarrow> Inr d2)"

text \<open>A block that is absent is skipped; an error stops the validation.\<close>

definition block :: "('e \<Rightarrow> 'err + 'e) \<Rightarrow> 'e option \<Rightarrow> 'err + 'e option" where
  "block v b = (case b of None \<Rightarrow> Inr None
                | Some x \<Rightarrow> (case v x of Inl e \<Rightarrow> Inl e | Inr y \<Rightarrow> Inr (Some y)))"

definition fill_defaults :: "run_config \<Rightarrow> run_config" where
  "fill_defaults c =
     (let c1 = (if poll_interval c = 0 then c\<lparr>poll_interval := 3 * second\<rparr> else c);
          c2 = (if max_failures c1 < 0 then c1\<lparr>max_failures := 0\<rparr> else c1)
      in if trackid_timeout c2 = 0 then c2\<lparr>trackid_timeout := 5 * minute\<rparr> else c2)"

definition min_streams :: "run_config \<Rightarrow> run_config" where
  "min_streams c = (if parallel_streams c < 1 then c\<lparr>parallel_streams := 1\<rparr> else c)"

definition Validate :: "run_config \<Rightarrow> config_error + run_config" where
  "Validate c =
     (if host c = [] then Inl NoHost
      else if port c \<le> 0 \<or> 65535 < port c then Inl BadPort
      else if upload_folder c = [] \<and> (normal c \<noteq> None \<or> large_file c \<noteq> None) then Inl NoUploadFolder
      else
        let c1 = min_streams c in
        if duration_hours c1 \<le> 0 then Inl BadDuration
        else if normal c1 = None \<and> large_file c1 = None \<and> download c1 = None then Inl NoLoad
        else
          case block (validate_normal (normal_users c1)) (normal c1) of Inl e \<Rightarrow> Inl e
          | Inr n \<Rightarrow>
            (case block (validate_large (large_users c1)) (large_file c1) of Inl e \<Rightarrow> Inl e
             | Inr l \<Rightarrow>
               (case block (validate_download (download_users c1) (upload_folder c1)) (download c1) of
                  Inl e \<Rightarrow> Inl e
                | Inr d \<Rightarrow> Inr (fill_defaults (c1\<lparr>normal := n, large_file := l, download := d\<rparr>)))))"

section \<open>The user CSV\<close>

text \<open>What \<open>csv.Reader.Read\<close> returns, record by record, up to the end of the input.\<close>

datatype csv_read = Record "string list" | ReadError

datatype csv_error = CsvRead int | CsvColumns int | CsvUsername int | CsvPattern int

fun users_loop :: "bool \<Rightarrow> int \<Rightarrow> user_creds list \<Rightarrow> csv_read list \<Rightarrow> csv_error + user_creds list" where
  "users_loop req lineNo users [] = Inr users"
| "users_loop req lineNo users (ReadError # rest) = Inl (CsvRead (lineNo + 1))"
| "users_loop req lineNo users (Record rec # rest) =
     (let minCols = (if req then 3 else 2) in
      if length rec < minCols then Inl (CsvColumns (lineNo + 1))
      else
        let pats = (if length rec \<ge> 3
                    then filter (\<lambda>p. p \<noteq> []) (map trim_space (drop 2 rec)) else []);
            u = \<lparr>username = trim_space (rec ! 0), password = rec ! 1, patterns = pats\<rparr>
        in if username u = [] then Inl (CsvUsername (lineNo + 1))
           else if req \<and> patterns u = [] then Inl (CsvPattern (lineNo + 1))
           else users_loop req (lineNo + 1) (users @ [u]) rest)"

definition parseUsersCSV :: "csv_read list \<Rightarrow> bool \<Rightarrow> csv_error + user_creds list" where
  "parseUsersCSV reads requirePattern = users_loop requirePattern 0 [] reads"

definition ParseUsersCSV :: "csv_read list \<Rightarrow> csv_error + user_creds list" where
  "ParseUsersCSV reads = parseUsersCSV reads True"

definition ParseDownloadUsersCSV :: "csv_read list \<Rightarrow> csv_error + user_creds list" where
  "ParseDownloadUsersCSV reads = parseUsersCSV reads False"

section \<open>A validated configuration\<close>

text \<open>What the runner relies on after \<open>Validate\<close>.\<close>

definition normal_ok :: "user_creds list \<Rightarrow> normal_load \<Rightarrow> bool" where
  "normal_ok users n \<longleftrightarrow> users \<noteq> [] \<and> 0 < files_per_minute n \<and> 1 \<le> min_size_mb n
     \<and> min_size_mb n \<le> max_size_mb n \<and> content_type n \<in> {''binary'', ''ascii'', ''random''}
     \<and> Source_Validate (n_source n) ''normal'' = None"

definition large_ok :: "user_creds list \<Rightarrow> large_load \<Rightarrow> bool" where
  "large_ok users l \<longleftrightarrow> users \<noteq> [] \<and> lf_unit l \<in> {''MB'', ''GB''} \<and> 1 \<le> min_size l
     \<and> min_size l \<le> max_size l \<and> 0 < interval_minutes l
     \<and> Source_Validate (lf_source l) ''large-file'' = None"

definition download_ok :: "user_creds list \<Rightarrow> string \<Rightarrow> download_load \<Rightarrow> bool" where
  "download_ok users folder d \<longleftrightarrow> users \<noteq> [] \<and> 1 \<le> dl_streams d
     \<and> (dl_folder d = [] \<longrightarrow> folder = []) \<and> Sink_Validate (dl_sink d) = None"

definition config_ok :: "run_config \<Rightarrow> bool" where
  "config_ok c \<longleftrightarrow> host c \<noteq> [] \<and> 1 \<le> port c \<and> port c \<le> 65535 \<and> 1 \<le> parallel_streams c
     \<and> 0 < duration_hours c
     \<and> (normal c \<noteq> None \<or> large_file c \<noteq> None \<or> download c \<noteq> None)
     \<and> (upload_folder c = [] \<longrightarrow> normal c = None \<and> large_file c = None)
     \<and> pred_option (normal_ok (normal_users c)) (normal c)
     \<and> pred_option (large_ok (large_users c)) (large_file c)
     \<and> pred_option (download_ok (download_users c) (upload_folder c)) (download c)
     \<and> poll_interval c \<noteq> 0 \<and> trackid_timeout c \<noteq> 0 \<and> 0 \<le> max_failures c"

lemma block_Inr:
  assumes "\<And>x y. v x = Inr y \<Longrightarrow> ok y" and "block v b = Inr b'"
  shows "pred_option ok b' \<and> (b' = None \<longleftrightarrow> b = None)"
  using assms by (auto simp: block_def split: option.splits sum.splits)

lemma block_fixed:
  assumes "\<And>x. ok x \<Longrightarrow> v x = Inr x" and "pred_option ok b"
  shows "block v b = Inr b"
  using assms by (auto simp: block_def split: option.splits)

lemma validate_normal_ok: "validate_normal users n = Inr n' \<Longrightarrow> normal_ok users n'"
  by (auto simp: validate_normal_def normal_ok_def Let_def split: if_splits option.splits)

lemma validate_normal_fixed: "normal_ok users n \<Longrightarrow> validate_normal users n = Inr n"
  by (auto simp: validate_normal_def normal_ok_def)

lemma validate_large_ok: "validate_large users l = Inr l' \<Longrightarrow> large_ok users l'"
  by (auto simp: validate_large_def large_ok_def Let_def split: if_splits option.splits)

lemma validate_large_fixed: "large_ok users l \<Longrightarrow> validate_large users l = Inr l"
  by (auto simp: validate_large_def large_ok_def)

lemma validate_download_ok: "validate_download users f d = Inr d' \<Longrightarrow> download_ok users f d'"
  by (auto simp: validate_download_def download_ok_def Let_def split: if_splits option.splits)

lemma validate_download_fixed: "download_ok users f d \<Longrightarrow> validate_download users f d = Inr d"
  by (cases "dl_folder d = []") (auto simp: validate_download_def download_ok_def Let_def)

lemma fill_defaults_fields [simp]:
  "host (fill_defaults c) = host c" "port (fill_defaults c) = port c"
  "upload_folder (fill_defaults c) = upload_folder c"
  "parallel_streams (fill_defaults c) = parallel_streams c"
  "duration_hours (fill_defaults c) = duration_hours c"
  "normal (fill_defaults c) = normal c" "large_file (fill_defaults c) = large_file c"
  "download (fill_defaults c) = download c" "normal_users (fill_defaults c) = normal_users c"
  "large_users (fill_defaults c) = large_users c" "download_users (fill_defaults c) = download_users c"
  by (simp_all add: fill_defaults_def Let_def)

lemma fill_defaults_filled:
  "poll_interval (fill_defaults c) \<noteq> 0 \<and> trackid_timeout (fill_defaults c) \<noteq> 0 \<and> 0 \<le> max_failures (fill_defaults c)"
  by (simp add: fill_defaults_def Let_def second_def minute_def)

lemma fill_defaults_fixed:
  "poll_interval c \<noteq> 0 \<Longrightarrow> trackid_timeout c \<noteq> 0 \<Longrightarrow> 0 \<le> max_failures c \<Longrightarrow> fill_defaults c = c"
  by (simp add: fill_defaults_def)

lemma normal_block: "block (validate_normal us) b = Inr b' \<Longrightarrow> pred_option (normal_ok us) b' \<and> (b' = None \<longleftrightarrow> b = None)"
  by (rule block_Inr[OF validate_normal_ok])

lemma large_block: "block (validate_large us) b = Inr b' \<Longrightarrow> pred_option (large_ok us) b' \<and> (b' = None \<longleftrightarrow> b = None)"
  by (rule block_Inr[OF validate_large_ok])

lemma download_block:
  "block (validate_download us f) b = Inr b' \<Longrightarrow> pred_option (download_ok us f) b' \<and> (b' = None \<longleftrightarrow> b = None)"
  by (rule block_Inr[OF validate_download_ok])

lemma min_streams_fields [simp]:
  "host (min_streams c) = host c" "port (min_streams c) = port c"
  "upload_folder (min_streams c) = upload_folder c" "1 \<le> parallel_streams (min_streams c)"
  "duration_hours (min_streams c) = duration_hours c"
  "normal (min_streams c) = normal c" "large_file (min_streams c) = large_file c"
  "download (min_streams c) = download c" "normal_users (min_streams c) = normal_users c"
  "large_users (min_streams c) = large_users c" "download_users (min_streams c) = download_users c"
  by (simp_all add: min_streams_def)

lemma Validate_InrD:
  assumes "Validate c = Inr c'"
  obtains n l d where
    "block (validate_normal (normal_users c)) (normal c) = Inr n"
    "block (validate_large (large_users c)) (large_file c) = Inr l"
    "block (validate_download (download_users c) (upload_folder c)) (download c) = Inr d"
    "c' = fill_defaults ((min_streams c)\<lparr>normal := n, large_file := l, download := d\<rparr>)"
    "host c \<noteq> []" "1 \<le> port c" "port c \<le> 65535" "0 < duration_hours c"
    "upload_folder c = [] \<longrightarrow> normal c = None \<and> large_file c = None"
    "normal c \<noteq> None \<or> large_file c \<noteq> None \<or> download c \<noteq> None"
proof -
  consider (n) e where "block (validate_normal (normal_users c)) (normal c) = Inl e"
    | (l) e where "block (validate_large (large_users c)) (large_file c) = Inl e"
    | (d) e where "block (validate_download (download_users c) (upload_folder c)) (download c) = Inl e"
    | (ok) n l d where "block (validate_normal (normal_users c)) (normal c) = Inr n"
      "block (validate_large (large_users c)) (large_file c) = Inr l"
      "block (validate_download (download_users c) (upload_folder c)) (download c) = Inr d"
    by (meson sum.exhaust_sel)
  then show thesis
  proof cases
    case ok
    then show ?thesis
      using assms by (intro that) (auto simp: Validate_def Let_def split: if_splits)
  qed (use assms in \<open>auto simp: Validate_def Let_def split: if_splits sum.splits\<close>)
qed

lemma Validate_ok:
  assumes "Validate c = Inr c'"
  shows "config_ok c'"
proof -
  from assms obtain n l d where
    b: "block (validate_normal (normal_users c)) (normal c) = Inr n"
      "block (validate_large (large_users c)) (large_file c) = Inr l"
      "block (validate_download (download_users c) (upload_folder c)) (download c) = Inr d"
    and c': "c' = fill_defaults ((min_streams c)\<lparr>normal := n, large_file := l, download := d\<rparr>)"
    and r: "host c \<noteq> []" "1 \<le> port c" "port c \<le> 65535" "0 < duration_hours c"
      "upload_folder c = [] \<longrightarrow> normal c = None \<and> large_file c = None"
      "normal c \<noteq> None \<or> large_file c \<noteq> None \<or> download c \<noteq> None"
    by (rule Validate_InrD)
  show ?thesis
    unfolding config_ok_def
    using normal_block[OF b(1)] large_block[OF b(2)] download_block[OF b(3)] r
    by (simp add: c' fill_defaults_filled)
qed

lemma min_streams_id: "1 \<le> parallel_streams c \<Longrightarrow> min_streams c = c"
  by (simp add: min_streams_def)

lemma Validate_fixed:
  assumes "config_ok c"
  shows "Validate c = Inr c"
proof -
  have "block (validate_normal (normal_users c)) (normal c) = Inr (normal c)"
    "block (validate_large (large_users c)) (large_file c) = Inr (large_file c)"
    "block (validate_download (download_users c) (upload_folder c)) (download c) = Inr (download c)"
    using assms by (auto simp: config_ok_def intro: block_fixed[OF validate_normal_fixed]
        block_fixed[OF validate_large_fixed] block_fixed[OF validate_download_fixed])
  moreover have "min_streams c = c" "fill_defaults c = c"
    using assms by (simp_all add: config_ok_def min_streams_id fill_defaults_fixed)
  ultimately show ?thesis
    using assms by (simp add: Validate_def config_ok_def)
qed


definition demo_config :: run_config where
  "demo_config =
     \<lparr>host = ''h'', port = 22, upload_folder = ''/in'', parallel_streams = 0, duration_hours = 1 / 2,
      normal = Some \<lparr>files_per_minute = 60, min_size_mb = 2, max_size_mb = 1, content_type = [],
                     n_source = Some (SourceConfig ''local-dir'' [] ''/d'' ''by-user'' [] []
                        [(''u'', Some (SourceConfig [] [] [] [] ''random'' [] []))]), n_ramp = None\<rparr>,
      large_file = None,
      download = Some \<lparr>dl_folder = [], dl_streams = 0, match_mode = [], dl_sink = None\<rparr>,
      normal_users = [\<lparr>username = ''u'', password = ''p'', patterns = [''*.csv'']\<rparr>], large_users = [],
      download_users = [\<lparr>username = ''d'', password = ''p'', patterns = []\<rparr>],
      poll_interval = 0, trackid_timeout = 0, max_failures = -1, speed_floor_percent = 0,
      speed_floor_warmup = 0, speed_floor_breach = 0, verify_hashes = False\<rparr>"


end
