(* ===== verification/DisablePolicy.thy ===== *)
theory DisablePolicy
  imports Config
begin

text \<open>
  The failure policy of a run (internal/runner/runner.go, lines 60 to 284): the status kept
  per user and direction, the threshold that disables a user, the classification of error
  codes, and the counters by error code. The methods are nil-safe, so the receiver is an
  option; \<open>time.Now().UnixNano()\<close> is an argument. The second half takes the atomic operations
  of concurrent failures apart and follows their interleavings.
\<close>

section \<open>State and operations\<close>

record user_status =
  us_user :: string
  us_kind :: string
  consecutive :: int
  totalFailed :: int
  disabled :: bool
  disabledAt :: int
  lastCode :: "string option"
  lastAt :: int
  lastFile :: "string option"

record disable_policy =
  threshold :: int
  up :: "string \<rightharpoonup> user_status"
  dl :: "string \<rightharpoonup> user_status"

definition fresh_status :: "string \<Rightarrow> string \<Rightarrow> user_status" where
  "fresh_status user kind =
     \<lparr>us_user = user, us_kind = kind, consecutive = 0, totalFailed = 0, disabled = False,
      disabledAt = 0, lastCode = None, lastAt = 0, lastFile = None\<rparr>"

fun add_unseen :: "(string \<rightharpoonup> user_status) \<Rightarrow> string set \<Rightarrow> user_creds list \<Rightarrow> (string \<rightharpoonup> user_status)" where
  "add_unseen m seen [] = m"
| "add_unseen m seen (u # us) =
     (if username u \<in> seen then add_unseen m seen us
      else add_unseen (m(username u \<mapsto> fresh_status (username u) ''upload''))
             (insert (username u) seen) us)"

definition newDisablePolicy ::
  "int \<Rightarrow> user_creds list \<Rightarrow> user_creds list \<Rightarrow> user_creds list \<Rightarrow> disable_policy" where
  "newDisablePolicy th upload large downloads =
     \<lparr>threshold = (if th < 0 then 0 else th),
      up = add_unseen Map.empty {} (upload @ large),
      dl = foldl (\<lambda>m u. m(username u \<mapsto> fresh_status (username u) ''download'')) Map.empty downloads\<rparr>"

definition status :: "disable_policy \<Rightarrow> string \<Rightarrow> string \<Rightarrow> user_status option" where
  "status p user kind = (if kind = ''download'' then dl p user else up p user)"

definition set_status :: "disable_policy \<Rightarrow> string \<Rightarrow> string \<Rightarrow> user_status \<Rightarrow> disable_policy" where
  "set_status p user kind s =
     (if kind = ''download'' then p\<lparr>dl := (dl p)(user \<mapsto> s)\<rparr> else p\<lparr>up := (up p)(user \<mapsto> s)\<rparr>)"

definition accountLevelFailureCode :: "string \<Rightarrow> bool" where
  "accountLevelFailureCode code \<longleftrightarrow> code = ''POOL_EMPTY'' \<or> code = ''PANIC''"

fun onSuccess :: "disable_policy option \<Rightarrow> string \<Rightarrow> string \<Rightarrow> disable_policy option" where
  "onSuccess None user kind = None"
| "onSuccess (Some p) user kind =
     (case status p user kind of
        None \<Rightarrow> Some p
      | Some s \<Rightarrow> Some (set_status p user kind (s\<lparr>consecutive := 0\<rparr>)))"

text \<open>The status after a failure, and whether this failure crossed the threshold.\<close>

definition fail_status ::
  "int \<Rightarrow> int \<Rightarrow> string \<Rightarrow> string \<Rightarrow> user_status \<Rightarrow> user_status \<times> bool" where
  "fail_status th now code basename s =
     (let s1 = s\<lparr>totalFailed := i64 (totalFailed s + 1), lastAt := now, lastCode := Some code\<rparr>;
          s2 = (if basename \<noteq> [] then s1\<lparr>lastFile := Some basename\<rparr> else s1)
      in if \<not> accountLevelFailureCode code then (s2, False)
         else let n = i64 (consecutive s2 + 1); s3 = s2\<lparr>consecutive := n\<rparr> in
           if 0 < th \<and> th \<le> n \<and> \<not> disabled s3
           then (s3\<lparr>disabled := True, disabledAt := now\<rparr>, True)
           else (s3, False))"

fun onFailureFor ::
  "int \<Rightarrow> disable_policy option \<Rightarrow> string \<Rightarrow> string \<Rightarrow> string \<Rightarrow> string \<Rightarrow> disable_policy option \<times> bool" where
  "onFailureFor now None user kind code basename = (None, False)"
| "onFailureFor now (Some p) user kind code basename =
     (case status p user kind of
        None \<Rightarrow> (Some p, False)
      | Some s \<Rightarrow>
          let (s', crossed) = fail_status (threshold p) now code basename s
          in (Some (set_status p user kind s'), crossed))"

definition onFailure ::
  "int \<Rightarrow> disable_policy option \<Rightarrow> string \<Rightarrow> string \<Rightarrow> string \<Rightarrow> disable_policy option \<times> bool" where
  "onFailure now p user kind code = onFailureFor now p user kind code []"

fun isDisabled :: "disable_policy option \<Rightarrow> string \<Rightarrow> string \<Rightarrow> bool" where
  "isDisabled None user kind = False"
| "isDisabled (Some p) user kind =
     (case status p user kind of None \<Rightarrow> False | Some s \<Rightarrow> disabled s)"

record disabled_snapshot =
  ds_user :: string
  ds_kind :: string
  ds_at :: int
  ds_consecutive :: int
  ds_total :: int
  ds_code :: string
  ds_file :: string
  ds_last :: int

definition or_empty :: "string option \<Rightarrow> string" where
  "or_empty x = (case x of None \<Rightarrow> [] | Some s \<Rightarrow> s)"

definition collect :: "string list \<Rightarrow> (string \<rightharpoonup> user_status) \<Rightarrow> disabled_snapshot list" where
  "collect ks m =
     map (\<lambda>s. \<lparr>ds_user = us_user s, ds_kind = us_kind s, ds_at = disabledAt s,
               ds_consecutive = consecutive s, ds_total = totalFailed s,
               ds_code = or_empty (lastCode s), ds_file = or_empty (lastFile s), ds_last = lastAt s\<rparr>)
       (filter disabled (map_vals ks m))"

fun policy_snapshot :: "string list \<Rightarrow> string list \<Rightarrow> disable_policy option \<Rightarrow> disabled_snapshot list" where
  "policy_snapshot ku kd None = []"
| "policy_snapshot ku kd (Some p) = collect ku (up p) @ collect kd (dl p)"

text \<open>The counters by error code; a nil map is created by the first increment.\<close>

definition errCounters_inc :: "(string \<rightharpoonup> int) \<Rightarrow> string \<Rightarrow> (string \<rightharpoonup> int)" where
  "errCounters_inc m code =
     (if code = [] then m
      else m(code \<mapsto> i64 ((case m code of None \<Rightarrow> 0 | Some n \<Rightarrow> n) + 1)))"

definition errCounters_snapshot :: "string list \<Rightarrow> (string \<rightharpoonup> int) \<Rightarrow> (string \<rightharpoonup> int)" where
  "errCounters_snapshot ks m =
     foldl (\<lambda>out k. out(k := m k)) Map.empty ks"

section \<open>Histories\<close>

datatype outcome = Success | Failure int string string

text \<open>One event of the run: the user and direction it concerns, and how the operation ended.\<close>

type_synonym policy_event = "string \<times> string \<times> outcome"

fun policy_step :: "disable_policy option \<Rightarrow> policy_event \<Rightarrow> disable_policy option" where
  "policy_step p (user, kind, Success) = onSuccess p user kind"
| "policy_step p (user, kind, Failure now code basename) = fst (onFailureFor now p user kind code basename)"

text \<open>The specification: per user and direction, the current streak of account-level failures
  and whether a streak ever reached the threshold.\<close>

type_synonym streak = "int \<times> bool"

fun streak_step :: "int \<Rightarrow> streak \<Rightarrow> outcome \<Rightarrow> streak" where
  "streak_step th (n, dis) Success = (0, dis)"
| "streak_step th (n, dis) (Failure now code basename) =
     (if accountLevelFailureCode code then (i64 (n + 1), dis \<or> (0 < th \<and> th \<le> i64 (n + 1)))
      else (n, dis))"

definition direction :: "string \<Rightarrow> bool" where
  "direction kind \<longleftrightarrow> kind = ''download''"

definition policy_abs :: "disable_policy option \<Rightarrow> int \<times> (string \<times> bool \<rightharpoonup> streak)" where
  "policy_abs p =
     (case p of None \<Rightarrow> (0, Map.empty)
      | Some q \<Rightarrow> (threshold q,
          \<lambda>(user, d). map_option (\<lambda>s. (consecutive s, disabled s)) (if d then dl q user else up q user)))"

definition policy_astep ::
  "int \<times> (string \<times> bool \<rightharpoonup> streak) \<Rightarrow> policy_event \<Rightarrow> int \<times> (string \<times> bool \<rightharpoonup> streak)" where
  "policy_astep a ev =
     (case (a, ev) of ((th, m), (user, kind, out)) \<Rightarrow>
        case m (user, direction kind) of
          None \<Rightarrow> (th, m)
        | Some st \<Rightarrow> (th, m((user, direction kind) \<mapsto> streak_step th st out)))"

lemma set_status_same [simp]: "status (set_status p user kind s) user kind = Some s"
  by (simp add: status_def set_status_def)

lemma status_direction:
  "status p user kind = (if direction kind then dl p user else up p user)"
  by (simp add: status_def direction_def)

lemma set_status_other:
  "(user', direction kind') \<noteq> (user, direction kind) \<Longrightarrow>
   status (set_status p user kind s) user' kind' = status p user' kind'"
  by (auto simp: status_def set_status_def direction_def)

lemma set_status_abs:
  "policy_abs (Some (set_status p user kind s)) =
     (threshold p, (snd (policy_abs (Some p)))((user, direction kind) \<mapsto> (consecutive s, disabled s)))"
  by (auto simp: policy_abs_def set_status_def direction_def fun_eq_iff)

lemma abs_lookup:
  "snd (policy_abs (Some p)) (user, direction kind) =
     map_option (\<lambda>s. (consecutive s, disabled s)) (status p user kind)"
  by (simp add: policy_abs_def status_direction)

lemma fst_abs [simp]: "fst (policy_abs (Some p)) = threshold p"
  by (simp add: policy_abs_def)

lemma fail_status_streak:
  "(consecutive (fst (fail_status th now code b s)), disabled (fst (fail_status th now code b s))) =
   streak_step th (consecutive s, disabled s) (Failure now code b)"
  by (auto simp: fail_status_def Let_def)

lemma policy_step_refines: "policy_abs (policy_step p ev) = policy_astep (policy_abs p) ev"
proof -
  obtain user kind out where ev: "ev = (user, kind, out)" by (cases ev)
  show ?thesis
  proof (cases p)
    case None
    then show ?thesis by (cases out) (simp_all add: ev policy_abs_def policy_astep_def)
  next
    case (Some q)
    obtain th m where a: "policy_abs (Some q) = (th, m)" by fastforce
    have th: "th = threshold q" and m: "m (user, direction kind) =
        map_option (\<lambda>s. (consecutive s, disabled s)) (status q user kind)"
      using a abs_lookup[of q user kind] fst_abs[of q] by simp_all
    show ?thesis
    proof (cases "status q user kind")
      case None
      with Some a m show ?thesis by (cases out) (simp_all add: ev policy_astep_def)
    next
      case (Some s)
      show ?thesis
      proof (cases out)
        case Success
        then show ?thesis using Some \<open>p = Some q\<close> a m th
          by (simp add: ev policy_astep_def set_status_abs)
      next
        case (Failure now code b)
        then show ?thesis using Some \<open>p = Some q\<close> a m th fail_status_streak[of th now code b s]
          by (simp add: ev policy_astep_def set_status_abs split_beta)
      qed
    qed
  qed
qed

interpretation policy: refined_component policy_step "\<lambda>_. True" policy_abs policy_astep
  by unfold_locales (simp_all add: policy_step_refines)

section \<open>Disabled exactly by a streak\<close>

definition outcomes :: "string \<Rightarrow> string \<Rightarrow> policy_event list \<Rightarrow> outcome list" where
  "outcomes user kind es =
     map (\<lambda>(_, _, out). out) (filter (\<lambda>(u, k, _). u = user \<and> direction k = direction kind) es)"

definition account_failure :: "outcome \<Rightarrow> bool" where
  "account_failure out =
     (case out of Success \<Rightarrow> False | Failure now code b \<Rightarrow> accountLevelFailureCode code)"

text \<open>The account-level failures since the last success.\<close>

definition trailing :: "outcome list \<Rightarrow> nat" where
  "trailing outs = length (filter account_failure (takeWhile (\<lambda>out. out \<noteq> Success) (rev outs)))"

lemma abstract_run:
  "fst (foldl policy_astep (th, m) es) = th \<and>
   snd (foldl policy_astep (th, m) es) (user, direction kind) =
     map_option (\<lambda>st. foldl (streak_step th) st (outcomes user kind es)) (m (user, direction kind))"
proof (induction es arbitrary: m)
  case (Cons ev es)
  obtain u k out where ev: "ev = (u, k, out)" by (cases ev)
  obtain th' m' where a: "policy_astep (th, m) ev = (th', m')" by fastforce
  have th': "th' = th" using a by (simp add: ev policy_astep_def split: option.splits)
  show ?case
  proof (cases "m (u, direction k)")
    case None
    then have "m' = m" using a by (simp add: ev policy_astep_def)
    with None Cons[of m'] show ?thesis by (auto simp: a[unfolded ev] th' ev outcomes_def)
  next
    case (Some st)
    then have "m' (user, direction kind) =
      (if u = user \<and> direction k = direction kind then Some (streak_step th st out)
       else m (user, direction kind))"
      using a by (auto simp: ev policy_astep_def)
    with Some Cons[of m'] show ?thesis by (auto simp: a[unfolded ev] th' ev outcomes_def)
  qed
qed (simp add: outcomes_def option.map_id[unfolded id_def])

lemma trailing_snoc:
  "trailing (outs @ [out]) =
     (if out = Success then 0 else trailing outs + (if account_failure out then 1 else 0))"
  by (simp add: trailing_def)

lemma trailing_le: "trailing outs \<le> length outs"
  by (induction outs rule: rev_induct) (auto simp: trailing_def[of "[]"] trailing_snoc)

lemma streak_run:
  assumes "length outs < 2 ^ 63"
  shows "foldl (streak_step th) (0, False) outs =
    (int (trailing outs), 0 < th \<and> (\<exists>k \<le> length outs. th \<le> int (trailing (take k outs))))"
  using assms
proof (induction outs rule: rev_induct)
  case (snoc out outs)
  have ex: "(\<exists>k \<le> length (outs @ [out]). th \<le> int (trailing (take k (outs @ [out])))) \<longleftrightarrow>
    (\<exists>k \<le> length outs. th \<le> int (trailing (take k outs))) \<or> th \<le> int (trailing (outs @ [out]))"
    by (auto simp: le_Suc_eq)
  have in64: "in_i64 (int (trailing outs) + 1)"
    using snoc.prems trailing_le[of outs] by (simp add: in_i64_def)
  have last: "th \<le> int (trailing outs) \<Longrightarrow> \<exists>k \<le> length outs. th \<le> int (trailing (take k outs))"
    by (rule exI[of _ "length outs"]) simp
  have zero: "th \<le> 0 \<longleftrightarrow> \<not> 0 < th" by linarith
  have w: "i64 (int (trailing outs) + 1) = int (trailing outs) + 1" by (rule i64_id[OF in64])
  from snoc have IH: "foldl (streak_step th) (0, False) outs =
    (int (trailing outs), 0 < th \<and> (\<exists>k \<le> length outs. th \<le> int (trailing (take k outs))))" by simp
  show ?case
  proof (cases out)
    case Success
    then show ?thesis unfolding ex by (auto simp: IH trailing_snoc dest: last)
  next
    case (Failure now code b)
    then show ?thesis unfolding ex
      by (auto simp: IH trailing_snoc account_failure_def w add.commute[of 1] dest: last)
  qed
qed (auto simp: trailing_def)

lemma add_unseen_dom:
  "add_unseen m seen us user =
     (if user \<in> username ` set us - seen then Some (fresh_status user ''upload'') else m user)"
proof (induction m seen us rule: add_unseen.induct)
  case (2 m seen u us)
  then show ?case
    by (cases "user = username u"; cases "username u \<in> seen")
      (auto simp: fun_upd_same fun_upd_other simp del: fun_upd_apply)
qed simp

lemma dl_fold_dom:
  "foldl (\<lambda>m u. m(username u \<mapsto> fresh_status (username u) ''download'')) m us user =
     (if user \<in> username ` set us then Some (fresh_status user ''download'') else m user)"
proof (induction us arbitrary: m)
  case (Cons u us)
  then show ?case by (cases "user = username u") simp_all
qed simp

definition policy_users ::
  "user_creds list \<Rightarrow> user_creds list \<Rightarrow> user_creds list \<Rightarrow> string \<Rightarrow> string set" where
  "policy_users upload large downloads kind =
     username ` set (if direction kind then downloads else upload @ large)"

lemma new_policy_abs:
  "policy_abs (Some (newDisablePolicy th upload large downloads)) =
     (max 0 th, \<lambda>(user, d). if user \<in> username ` set (if d then downloads else upload @ large)
                            then Some (0, False) else None)"
proof -
  have f: "consecutive (fresh_status u k) = 0" "disabled (fresh_status u k) = False" for u k
    by (simp_all add: fresh_status_def)
  show ?thesis
    by (auto simp: policy_abs_def newDisablePolicy_def add_unseen_dom dl_fold_dom f fun_eq_iff max_def)
qed

lemma isDisabled_abs:
  "isDisabled p user kind \<longleftrightarrow> (\<exists>n. snd (policy_abs p) (user, direction kind) = Some (n, True))"
  by (cases p) (auto simp: policy_abs_def status_direction split: option.splits)

text \<open>C4: After any history of successes and failures, a user is disabled in a direction exactly
  when the user belongs to that direction, the threshold is positive, and at some point of the
  history the account-level failures since the user's last success in that direction reached
  the threshold; failures that only measure the server neither count nor reset the streak, and
  what happens to other users or in the other direction plays no part.\<close>
theorem disabled_iff_streak:
  assumes "length es < 2 ^ 63"
  shows "isDisabled (foldl policy_step (Some (newDisablePolicy th upload large downloads)) es) user kind \<longleftrightarrow>
    user \<in> policy_users upload large downloads kind \<and> 0 < th \<and>
    (\<exists>k \<le> length (outcomes user kind es). th \<le> int (trailing (take k (outcomes user kind es))))"
proof -
  let ?p = "Some (newDisablePolicy th upload large downloads)"
  have "length (outcomes user kind es) < 2 ^ 63"
    using assms by (auto simp: outcomes_def intro: le_less_trans[OF length_filter_le])
  note streak = streak_run[OF this, of "max 0 th"]
  have "policy_abs (foldl policy_step ?p es) = foldl policy_astep (policy_abs ?p) es"
    by (rule policy.run_refines) simp
  then have "snd (policy_abs (foldl policy_step ?p es)) (user, direction kind) =
    (if user \<in> policy_users upload large downloads kind
     then Some (foldl (streak_step (max 0 th)) (0, False) (outcomes user kind es)) else None)"
    using abstract_run[of "max 0 th" _ es user kind] by (simp add: new_policy_abs policy_users_def)
  then show ?thesis
    unfolding isDisabled_abs streak by (auto simp: max_def split: if_splits)
qed

theorem disabled_iff_streak_witness:
  "isDisabled (foldl policy_step
     (Some (newDisablePolicy 2 [\<lparr>username = ''u'', password = [], patterns = []\<rparr>] [] []))
     [(''u'', ''upload'', Failure 1 ''POOL_EMPTY'' []), (''u'', ''upload'', Failure 2 ''WRITE'' ''f''),
      (''u'', ''upload'', Failure 3 ''PANIC'' [])]) ''u'' ''upload''"
proof -
  have t: "take 3 (outcomes ''u'' ''upload''
     [(''u'', ''upload'', Failure 1 ''POOL_EMPTY'' []), (''u'', ''upload'', Failure 2 ''WRITE'' ''f''),
      (''u'', ''upload'', Failure 3 ''PANIC'' [])]) =
     [Failure 1 ''POOL_EMPTY'' [], Failure 2 ''WRITE'' ''f'', Failure 3 ''PANIC'' []]"
    by (simp add: outcomes_def)
  have "trailing [Failure 1 ''POOL_EMPTY'' [], Failure 2 ''WRITE'' ''f'', Failure 3 ''PANIC'' []] = 2"
    by code_simp
  with t show ?thesis
    by (subst disabled_iff_streak)
      (simp_all add: policy_users_def direction_def outcomes_def exI[of _ 3] del: take_Suc_Cons)
qed

section \<open>Concurrent failures of one user\<close>

text \<open>
  The workers of a user call \<open>onFailureFor\<close> and \<open>onSuccess\<close> concurrently; the status is touched
  only by atomic operations. A call is the point it has reached: \<open>CTotal\<close> is about to add to
  \<open>totalFailed\<close>, \<open>CCount\<close> to \<open>consecutive\<close>, \<open>CSwap\<close> to compare-and-swap \<open>disabled\<close>, and
  \<open>CDone b\<close> has returned \<open>b\<close>.
\<close>

datatype call =
  CTotal string string | CLastAt string string | CLastCode string string | CLastFile string string
| CCount | CSwap | CStamp | CReset | CDone bool

definition after_record :: "string \<Rightarrow> call" where
  "after_record code = (if accountLevelFailureCode code then CCount else CDone False)"

inductive micro :: "int \<Rightarrow> user_status \<Rightarrow> call \<Rightarrow> user_status \<Rightarrow> call \<Rightarrow> bool" for th where
  total: "micro th s (CTotal c b) (s\<lparr>totalFailed := i64 (totalFailed s + 1)\<rparr>) (CLastAt c b)"
| lastAt: "micro th s (CLastAt c b) (s\<lparr>lastAt := now\<rparr>) (CLastCode c b)"
| lastCode: "micro th s (CLastCode c b) (s\<lparr>lastCode := Some c\<rparr>)
    (if b \<noteq> [] then CLastFile c b else after_record c)"
| lastFile: "micro th s (CLastFile c b) (s\<lparr>lastFile := Some b\<rparr>) (after_record c)"
| count: "n = i64 (consecutive s + 1) \<Longrightarrow>
    micro th s CCount (s\<lparr>consecutive := n\<rparr>) (if 0 < th \<and> th \<le> n then CSwap else CDone False)"
| swap: "\<not> disabled s \<Longrightarrow> micro th s CSwap (s\<lparr>disabled := True\<rparr>) CStamp"
| lost: "disabled s \<Longrightarrow> micro th s CSwap s (CDone False)"
| stamp: "micro th s CStamp (s\<lparr>disabledAt := now\<rparr>) (CDone True)"
| reset: "micro th s CReset (s\<lparr>consecutive := 0\<rparr>) (CDone False)"

inductive_simps micro_simps: "micro th s c s' c'"

inductive interleave :: "int \<Rightarrow> user_status \<times> call list \<Rightarrow> user_status \<times> call list \<Rightarrow> bool" for th where
  start: "interleave th x x"
| move: "interleave th x (s, cs) \<Longrightarrow> i < length cs \<Longrightarrow> micro th s (cs ! i) s' c' \<Longrightarrow>
    interleave th x (s', cs[i := c'])"

definition won :: "call \<Rightarrow> int" where
  "won c = (if c = CStamp \<or> c = CDone True then 1 else 0)"

definition pending :: "call \<Rightarrow> int" where
  "pending c = (case c of CTotal code b \<Rightarrow> if accountLevelFailureCode code then 1 else 0
     | CLastAt code b \<Rightarrow> if accountLevelFailureCode code then 1 else 0
     | CLastCode code b \<Rightarrow> if accountLevelFailureCode code then 1 else 0
     | CLastFile code b \<Rightarrow> if accountLevelFailureCode code then 1 else 0
     | CCount \<Rightarrow> 1 | _ \<Rightarrow> 0)"

definition total_of :: "(call \<Rightarrow> int) \<Rightarrow> call list \<Rightarrow> int" where
  "total_of f cs = (\<Sum>c\<leftarrow>cs. f c)"

lemma total_of_update: "i < length cs \<Longrightarrow> total_of f (cs[i := c]) = total_of f cs - f (cs ! i) + f c"
  unfolding total_of_def
  by (induction cs arbitrary: i) (auto simp: nth_Cons split: nat.splits)

lemma total_of_nonneg: "(\<And>c. 0 \<le> f c) \<Longrightarrow> 0 \<le> total_of f cs"
  unfolding total_of_def by (induction cs) (simp_all add: add_nonneg_nonneg)

lemma pending_nonneg [simp]: "0 \<le> pending c"
  by (simp add: pending_def split: call.split)

lemma pending_after [simp]: "pending (after_record code) = (if accountLevelFailureCode code then 1 else 0)"
  by (simp add: after_record_def pending_def)

lemma won_after [simp]: "won (after_record code) = 0"
  by (simp add: after_record_def won_def)

text \<open>With \<open>A\<close> account-level failures in all: their counting is bounded, the number of calls that
  won the swap is the disabled flag, and nobody swaps below the threshold.\<close>

definition calls_inv :: "int \<Rightarrow> int \<Rightarrow> user_status \<times> call list \<Rightarrow> bool" where
  "calls_inv th A x \<longleftrightarrow> (case x of (s, cs) \<Rightarrow>
     0 \<le> consecutive s \<and> consecutive s + total_of pending cs \<le> A
     \<and> total_of won cs = (if disabled s then 1 else 0)
     \<and> (CSwap \<in> set cs \<or> disabled s \<longrightarrow> 0 < th \<and> th \<le> A))"

text \<open>Without successes nothing is lost, and a full count is followed by a swap.\<close>

definition failing_inv :: "int \<Rightarrow> int \<Rightarrow> user_status \<times> call list \<Rightarrow> bool" where
  "failing_inv th A x \<longleftrightarrow> (case x of (s, cs) \<Rightarrow>
     CReset \<notin> set cs \<and> 0 \<le> consecutive s \<and> consecutive s + total_of pending cs = A
     \<and> (0 < th \<and> th \<le> consecutive s \<longrightarrow> disabled s \<or> CSwap \<in> set cs))"

lemma set_update_new: "x \<in> set (cs[i := c]) \<Longrightarrow> x \<in> set cs \<or> x = c"
  using set_update_subset_insert[of cs i c] by blast

lemma pending_total_nonneg [simp]: "0 \<le> total_of pending cs"
  by (rule total_of_nonneg) simp

lemma pending_counting:
  assumes "i < length cs" "cs ! i = CCount"
  shows "1 \<le> total_of pending cs"
proof -
  have "total_of pending (cs[i := CReset]) = total_of pending cs - 1"
    using assms by (simp add: total_of_update pending_def[of CCount] pending_def[of CReset])
  then show ?thesis using pending_total_nonneg[of "cs[i := CReset]"] by linarith
qed

lemma calls_inv_step:
  assumes "calls_inv th A (s, cs)" "A < 2 ^ 63" "i < length cs" "micro th s (cs ! i) s' c'"
  shows "calls_inv th A (s', cs[i := c'])"
proof -
  have inv: "0 \<le> consecutive s" "consecutive s + total_of pending cs \<le> A"
    "total_of won cs = (if disabled s then 1 else 0)"
    "CSwap \<in> set cs \<or> disabled s \<longrightarrow> 0 < th \<and> th \<le> A"
    using assms(1) by (simp_all add: calls_inv_def)
  have mem: "cs ! i \<in> set cs" using assms(3) by simp
  have new: "CSwap \<in> set (cs[i := c']) \<Longrightarrow> CSwap \<in> set cs \<or> c' = CSwap"
    using set_update_new[of CSwap cs i c'] by auto
  have cnt: "i64 (consecutive s + 1) = consecutive s + 1" if "cs ! i = CCount"
    using inv(1,2) assms(2) pending_counting[OF assms(3) that] by (simp add: in_i64_def)
  show ?thesis
    using assms(4)
  proof (cases rule: micro.cases)
    case (count n)
    then show ?thesis
      using inv new cnt assms(3) pending_counting[OF assms(3) count(1)]
      by (auto simp: calls_inv_def total_of_update pending_def won_def)
  next
    case swap
    then show ?thesis
      using inv new assms(3) mem
      by (auto simp: calls_inv_def total_of_update pending_def won_def)
  qed (use inv new assms(3) mem in
      \<open>auto simp: calls_inv_def total_of_update pending_def won_def after_record_def split: if_splits\<close>)
qed

lemma set_update_old: "x \<in> set cs \<Longrightarrow> cs ! i \<noteq> x \<Longrightarrow> x \<in> set (cs[i := c])"
  by (metis in_set_conv_nth length_list_update nth_list_update_neq)

lemma failing_inv_step:
  assumes "failing_inv th A (s, cs)" "A < 2 ^ 63" "i < length cs" "micro th s (cs ! i) s' c'"
  shows "failing_inv th A (s', cs[i := c'])"
proof -
  have inv: "CReset \<notin> set cs" "0 \<le> consecutive s" "consecutive s + total_of pending cs = A"
    "0 < th \<and> th \<le> consecutive s \<longrightarrow> disabled s \<or> CSwap \<in> set cs"
    using assms(1) by (simp_all add: failing_inv_def)
  have mem: "cs ! i \<in> set cs" using assms(3) by simp
  have new: "CReset \<in> set (cs[i := c']) \<Longrightarrow> CReset \<in> set cs \<or> c' = CReset"
    using set_update_new[of CReset cs i c'] by auto
  have self: "c' \<in> set (cs[i := c'])" using assms(3) by (simp add: set_update_memI)
  have old: "CSwap \<in> set cs \<Longrightarrow> cs ! i \<noteq> CSwap \<Longrightarrow> CSwap \<in> set (cs[i := c'])"
    by (rule set_update_old)
  show ?thesis
    using assms(4)
  proof (cases rule: micro.cases)
    case (count n)
    have "i64 (consecutive s + 1) = consecutive s + 1"
      using inv assms(2) pending_counting[OF assms(3) count(1)] by (simp add: in_i64_def)
    with count show ?thesis
      using inv new old self assms(3)
      by (auto simp: failing_inv_def total_of_update pending_def)
  next
    case reset
    with inv mem show ?thesis by simp
  qed (use inv new old assms(3) in
      \<open>auto simp: failing_inv_def total_of_update pending_def after_record_def split: if_splits\<close>)
qed

definition fresh_call :: "call \<Rightarrow> bool" where
  "fresh_call c \<longleftrightarrow> (case c of CTotal code b \<Rightarrow> True | CReset \<Rightarrow> True | _ \<Rightarrow> False)"

definition account_calls :: "call list \<Rightarrow> int" where
  "account_calls cs =
     int (length (filter (\<lambda>c. case c of CTotal code b \<Rightarrow> accountLevelFailureCode code | _ \<Rightarrow> False) cs))"

definition finished :: "call list \<Rightarrow> bool" where
  "finished cs \<longleftrightarrow> list_all (\<lambda>c. c = CDone True \<or> c = CDone False) cs"

lemma fresh_totals:
  "list_all fresh_call cs \<Longrightarrow> total_of pending cs = account_calls cs \<and> total_of won cs = 0 \<and> CSwap \<notin> set cs"
proof (induction cs)
  case (Cons c cs)
  then show ?case
    by (cases c) (auto simp: total_of_def account_calls_def fresh_call_def pending_def won_def)
qed (simp add: total_of_def account_calls_def)

lemma finished_totals:
  "finished cs \<Longrightarrow> total_of pending cs = 0 \<and> total_of won cs = int (count_list cs (CDone True)) \<and> CSwap \<notin> set cs"
proof (induction cs)
  case (Cons c cs)
  then show ?case by (auto simp: total_of_def finished_def pending_def won_def)
qed (simp add: total_of_def)

lemma reach_calls_inv:
  assumes "interleave th x y" "calls_inv th A x" "A < 2 ^ 63"
  shows "calls_inv th A y"
  using assms
proof (induction rule: interleave.induct)
  case (move s cs i s' c')
  then show ?case by (intro calls_inv_step) simp_all
qed simp

lemma reach_failing_inv:
  assumes "interleave th x y" "failing_inv th A x" "A < 2 ^ 63"
  shows "failing_inv th A y"
  using assms
proof (induction rule: interleave.induct)
  case (move s cs i s' c')
  then show ?case by (intro failing_inv_step) simp_all
qed simp

text \<open>When the workers of one user report failures and successes concurrently, in any
  interleaving of their atomic operations, exactly one call is told that it crossed the
  threshold when the user ends up disabled and none otherwise; a user is never disabled by
  fewer account-level failures than the threshold, and when no success intervenes that many
  failures always disable the user.\<close>
theorem crossing_reported_once:
  assumes "interleave th (fresh_status u k, cs) (s', cs')" "list_all fresh_call cs"
    and "finished cs'" "account_calls cs < 2 ^ 63"
  shows "count_list cs' (CDone True) = (if disabled s' then 1 else 0)
    \<and> (disabled s' \<longrightarrow> 0 < th \<and> th \<le> account_calls cs)
    \<and> (CReset \<notin> set cs \<and> 0 < th \<and> th \<le> account_calls cs \<longrightarrow> disabled s')"
proof -
  let ?x = "(fresh_status u k, cs)"
  have "calls_inv th (account_calls cs) ?x"
    using fresh_totals[OF assms(2)] by (simp add: calls_inv_def fresh_status_def)
  from reach_calls_inv[OF assms(1) this assms(4)]
  have c: "calls_inv th (account_calls cs) (s', cs')" .
  have f: "failing_inv th (account_calls cs) (s', cs')" if "CReset \<notin> set cs"
  proof (rule reach_failing_inv[OF assms(1) _ assms(4)])
    show "failing_inv th (account_calls cs) ?x"
      using fresh_totals[OF assms(2)] that by (simp add: failing_inv_def fresh_status_def)
  qed
  show ?thesis
    using c f finished_totals[OF assms(3)]
    by (auto simp: calls_inv_def failing_inv_def split: if_splits)
qed

text \<open>The step relation as a function of the clock, to run a schedule of worker numbers.\<close>

fun micro_next :: "int \<Rightarrow> int \<Rightarrow> user_status \<Rightarrow> call \<Rightarrow> (user_status \<times> call) option" where
  "micro_next th now s (CTotal c b) = Some (s\<lparr>totalFailed := i64 (totalFailed s + 1)\<rparr>, CLastAt c b)"
| "micro_next th now s (CLastAt c b) = Some (s\<lparr>lastAt := now\<rparr>, CLastCode c b)"
| "micro_next th now s (CLastCode c b) =
     Some (s\<lparr>lastCode := Some c\<rparr>, if b \<noteq> [] then CLastFile c b else after_record c)"
| "micro_next th now s (CLastFile c b) = Some (s\<lparr>lastFile := Some b\<rparr>, after_record c)"
| "micro_next th now s CCount =
     (let n = i64 (consecutive s + 1)
      in Some (s\<lparr>consecutive := n\<rparr>, if 0 < th \<and> th \<le> n then CSwap else CDone False))"
| "micro_next th now s CSwap =
     Some (if disabled s then (s, CDone False) else (s\<lparr>disabled := True\<rparr>, CStamp))"
| "micro_next th now s CStamp = Some (s\<lparr>disabledAt := now\<rparr>, CDone True)"
| "micro_next th now s CReset = Some (s\<lparr>consecutive := 0\<rparr>, CDone False)"
| "micro_next th now s (CDone b) = None"

lemma micro_next_micro: "micro_next th now s c = Some (s', c') \<Longrightarrow> micro th s c s' c'"
  by (cases c) (auto simp: Let_def micro_simps split: if_splits)

fun run_schedule :: "int \<Rightarrow> (nat \<times> int) list \<Rightarrow> user_status \<times> call list \<Rightarrow> user_status \<times> call list" where
  "run_schedule th [] x = x"
| "run_schedule th ((i, now) # sched) (s, cs) =
     (if length cs \<le> i then run_schedule th sched (s, cs)
      else case micro_next th now s (cs ! i) of
             None \<Rightarrow> run_schedule th sched (s, cs)
           | Some (s', c') \<Rightarrow> run_schedule th sched (s', cs[i := c']))"

lemma run_schedule_interleave: "interleave th x y \<Longrightarrow> interleave th x (run_schedule th sched y)"
proof (induction sched arbitrary: y)
  case (Cons a sched)
  obtain i now s cs where y: "a = (i, now)" "y = (s, cs)" by (cases a; cases y)
  show ?case
  proof (cases "i < length cs \<and> micro_next th now s (cs ! i) \<noteq> None")
    case True
    then obtain s' c' where m: "micro_next th now s (cs ! i) = Some (s', c')" by auto
    have "interleave th x (s', cs[i := c'])"
      using Cons.prems True y micro_next_micro[OF m] by (auto intro: interleave.move)
    with True m y show ?thesis by (simp add: Cons.IH)
  next
    case False
    show ?thesis
    proof (cases "length cs \<le> i")
      case True
      with Cons y show ?thesis by simp
    next
      case ge: False
      with False have "micro_next th now s (cs ! i) = None" by (meson not_le)
      with ge Cons y show ?thesis by simp
    qed
  qed
qed simp

text \<open>A sequential call runs the same operations without interruption.\<close>

lemma fail_status_sequential:
  "run_schedule th (replicate 7 (0, now)) (s, [CTotal code b]) =
     (case fail_status th now code b s of (s', r) \<Rightarrow> (s', [CDone r]))"
  by (auto simp: numeral_eq_Suc fail_status_def after_record_def Let_def)

text \<open>Two workers of a user with threshold 2, the second counting last.\<close>

theorem crossing_reported_once_witness:
  "case run_schedule 2 (concat (replicate 7 [(1, 7), (0, 8)]))
      (fresh_status ''u'' ''upload'', [CTotal ''PANIC'' [], CTotal ''PANIC'' ''f'']) of
     (s, cs) \<Rightarrow> disabled s \<and> count_list cs (CDone True) = 1"
proof -
  let ?cs = "[CTotal ''PANIC'' [], CTotal ''PANIC'' ''f'']"
  obtain s cs where r: "run_schedule 2 (concat (replicate 7 [(1, 7), (0, 8)]))
      (fresh_status ''u'' ''upload'', ?cs) = (s, cs)" by fastforce
  have i: "interleave 2 (fresh_status ''u'' ''upload'', ?cs) (s, cs)"
    using run_schedule_interleave[OF interleave.start] r by metis
  have "finished (snd (run_schedule 2 (concat (replicate 7 [(1, 7), (0, 8)]))
      (fresh_status ''u'' ''upload'', ?cs)))" by code_simp
  then have f: "finished cs" unfolding r by simp
  have a: "list_all fresh_call ?cs" "account_calls ?cs = 2" "CReset \<notin> set ?cs" by code_simp+
  have "disabled s \<and> count_list cs (CDone True) = (if disabled s then 1 else 0)"
    using crossing_reported_once[OF i a(1) f] unfolding a(2) using a(3) by simp
  then show ?thesis unfolding r by simp
qed

end
