(* ===== verification/Dispatch.thy ===== *)
theory Dispatch
  imports DisablePolicy
begin

text \<open>
  The dispatchers of a run (internal/runner/runner.go): the round-robin user cursor, the
  50 ms tick of \<open>runNormal\<close> with its ramp, its fractional accumulator and its semaphore,
  \<open>runLargeFile\<close>, the pattern cursors, the random size, the connection pools with their
  self-healing slots, and the user lists they are built from. Parameters: the disabled
  predicate as the policy answers it, the random source, and the outcome of a dial per slot.
  Times are nanoseconds; float64 values are rationals rounded by \<open>rnd64\<close>.
\<close>

section \<open>Picking a user\<close>

fun pick_loop ::
  "nat \<Rightarrow> user_creds list \<Rightarrow> int \<Rightarrow> (string \<Rightarrow> bool) \<Rightarrow> user_creds option \<times> int" where
  "pick_loop 0 users i isDis = (None, i)"
| "pick_loop (Suc tries) users i isDis =
     (let u = users ! nat (i mod int (length users)); i' = u64 (i + 1) in
      if \<not> isDis (username u) then (Some u, i') else pick_loop tries users i' isDis)"

definition pickActiveUser ::
  "user_creds list \<Rightarrow> int \<Rightarrow> (string \<Rightarrow> bool) \<Rightarrow> user_creds option \<times> int" where
  "pickActiveUser users i isDis =
     (if users = [] then (None, i) else pick_loop (length users) users i isDis)"

text \<open>None is the panic of \<open>Int63n\<close> on a span that wrapped around.\<close>

definition pickSize :: "(int \<Rightarrow> int) \<Rightarrow> int \<Rightarrow> int \<Rightarrow> int option" where
  "pickSize int63n minB maxB =
     (if maxB \<le> minB then Some minB
      else let span = i64 (i64 (maxB - minB) + 1)
           in if span \<le> 0 then None else Some (i64 (minB + int63n span)))"

section \<open>The normal-load dispatcher\<close>

definition tickInterval :: int where "tickInterval = 50000000"

definition files_per_tick :: "int \<Rightarrow> rat" where
  "files_per_tick fpm =
     rnd64 (rnd64 (rnd64 (of_int fpm) * of_int tickInterval) / of_int minute)"

text \<open>\<open>Duration.Seconds\<close>, truncated to an int.\<close>

definition dur_seconds :: "int \<Rightarrow> rat" where
  "dur_seconds d = rnd64 (rnd64 (of_int (d div second)) + rnd64 (of_int (d mod second) / of_int second))"

text \<open>The steps of the ramp; \<open>RampConfig.Validate\<close> has made the step length positive and the
  elapsed time is never negative, so the integer division rounds down.\<close>

definition ramp_fpm :: "ramp_config \<Rightarrow> int \<Rightarrow> int \<Rightarrow> int" where
  "ramp_fpm ramp base elapsed =
     (let steps = \<lfloor>dur_seconds elapsed\<rfloor> div step_every_sec ramp;
          newFPM = i64 (start_fpm ramp + i64 (steps * step_fpm ramp));
          ceiling = (if ceiling_fpm ramp = 0 then base else ceiling_fpm ramp)
      in if 0 < ceiling \<and> ceiling < newFPM then ceiling else newFPM)"

record normal_state =
  cursor :: int
  lastMinute :: int
  accumulator :: rat
  perTick :: rat
  lastRamp :: int
  sem :: int
  skips :: int
  fired :: "(user_creds \<times> int) list"

definition normal_start :: "normal_load \<Rightarrow> normal_state option" where
  "normal_start n =
     (let fpm = (case n_ramp n of
                   Some r \<Rightarrow> if 0 < start_fpm r then start_fpm r else files_per_minute n
                 | None \<Rightarrow> files_per_minute n)
      in if fpm \<le> 0 then None
         else Some \<lparr>cursor = 0, lastMinute = -1, accumulator = 0, perTick = files_per_tick fpm,
                    lastRamp = fpm, sem = 0, skips = 0, fired = []\<rparr>)"

text \<open>
  One iteration of the inner loop: what the policy answers at that moment, how many uploads
  have released the semaphore since the previous iteration, and the size drawn. None is the
  return after the last user was disabled.
\<close>

type_synonym sample = "(string \<Rightarrow> bool) \<times> int \<times> int"

definition dispatch_one ::
  "user_creds list \<Rightarrow> int \<Rightarrow> normal_state \<Rightarrow> sample \<Rightarrow> normal_state option" where
  "dispatch_one users capacity st sample =
     (case sample of (isDis, released, sz) \<Rightarrow>
        let inuse = max 0 (sem st - released) in
        case pickActiveUser users (cursor st) isDis of
          (None, i) \<Rightarrow> None
        | (Some u, i) \<Rightarrow>
            if inuse < capacity
            then Some (st\<lparr>cursor := i, sem := inuse + 1, fired := fired st @ [(u, sz)]\<rparr>)
            else Some (st\<lparr>cursor := i, sem := inuse, skips := skips st + 1\<rparr>))"

fun dispatch_loop ::
  "user_creds list \<Rightarrow> int \<Rightarrow> normal_state \<Rightarrow> sample list \<Rightarrow> normal_state option" where
  "dispatch_loop users capacity st [] = Some st"
| "dispatch_loop users capacity st (s # ss) =
     (case dispatch_one users capacity st s of
        None \<Rightarrow> None
      | Some st' \<Rightarrow> dispatch_loop users capacity st' ss)"

text \<open>The ramp, the minute boundary and the accumulator of one tick; the result carries the
  number of files the tick fires.\<close>

definition apply_ramp :: "ramp_config option \<Rightarrow> int \<Rightarrow> int \<Rightarrow> normal_state \<Rightarrow> normal_state" where
  "apply_ramp ramp base elapsed st =
     (case ramp of None \<Rightarrow> st
      | Some r \<Rightarrow>
          if 0 < start_fpm r then
            let newFPM = ramp_fpm r base elapsed in
            if newFPM \<noteq> lastRamp st then st\<lparr>perTick := files_per_tick newFPM, lastRamp := newFPM\<rparr> else st
          else st)"

definition unix_minute :: "int \<Rightarrow> int" where
  "unix_minute t = (let s = t div second in if 0 \<le> s then s div 60 else - ((- s) div 60))"

definition tick_count :: "ramp_config option \<Rightarrow> int \<Rightarrow> int \<Rightarrow> int \<Rightarrow> normal_state \<Rightarrow> normal_state \<times> int" where
  "tick_count ramp base runStart now st =
     (let st1 = apply_ramp ramp base (now - runStart) st;
          m = unix_minute now;
          st2 = (if m \<noteq> lastMinute st1 then st1\<lparr>cursor := 0, lastMinute := m\<rparr> else st1);
          a = rnd64 (accumulator st2 + perTick st2);
          count = \<lfloor>a\<rfloor>
      in (st2\<lparr>accumulator := rnd64 (a - rnd64 (of_int count))\<rparr>, count))"

datatype dispatch_end = Deadline | MaxFailures normal_state

definition normal_tick ::
  "run_config \<Rightarrow> normal_load \<Rightarrow> int \<Rightarrow> int \<Rightarrow> int \<Rightarrow> normal_state \<Rightarrow> (nat \<Rightarrow> sample)
    \<Rightarrow> dispatch_end + normal_state" where
  "normal_tick c n runStart deadline now st samples =
     (if deadline < now then Inl Deadline
      else let (st', count) = tick_count (n_ramp n) (files_per_minute n) runStart now st in
        case dispatch_loop (normal_users c) (int (length (normal_users c)) * parallel_streams c)
               st' (map samples [0..<nat count]) of
          None \<Rightarrow> Inl (MaxFailures st')
        | Some st'' \<Rightarrow> Inr st'')"

text \<open>\<open>runNormal\<close> from its first tick: the ticks with their instants and samples.\<close>

fun normal_run ::
  "run_config \<Rightarrow> normal_load \<Rightarrow> int \<Rightarrow> int \<Rightarrow> normal_state \<Rightarrow> (int \<times> (nat \<Rightarrow> sample)) list
    \<Rightarrow> dispatch_end + normal_state" where
  "normal_run c n runStart deadline st [] = Inr st"
| "normal_run c n runStart deadline st ((now, samples) # ticks) =
     (case normal_tick c n runStart deadline now st samples of
        Inl e \<Rightarrow> Inl e
      | Inr st' \<Rightarrow> normal_run c n runStart deadline st' ticks)"

section \<open>The large-file dispatcher\<close>

definition unit_bytes :: "string \<Rightarrow> int" where
  "unit_bytes u = (if u = ''GB'' then 1024 * 1024 * 1024 else 1024 * 1024)"

definition large_bounds :: "large_load \<Rightarrow> int \<times> int" where
  "large_bounds l = (i64 (min_size l * unit_bytes (lf_unit l)), i64 (max_size l * unit_bytes (lf_unit l)))"

record large_state =
  lcursor :: int
  lfired :: "(user_creds \<times> int) list"
  cancelled :: bool

text \<open>\<open>fire\<close>: False means that every user is disabled; the dispatch context is cancelled.\<close>

definition large_fire ::
  "user_creds list \<Rightarrow> large_state \<Rightarrow> (string \<Rightarrow> bool) \<Rightarrow> int \<Rightarrow> large_state \<times> bool" where
  "large_fire users st isDis sz =
     (case pickActiveUser users (lcursor st) isDis of
        (None, i) \<Rightarrow> (st\<lparr>lcursor := i, cancelled := True\<rparr>, False)
      | (Some u, i) \<Rightarrow> (st\<lparr>lcursor := i, lfired := lfired st @ [(u, sz)]\<rparr>, True))"

fun large_loop ::
  "user_creds list \<Rightarrow> int \<Rightarrow> large_state \<Rightarrow> (int \<times> (string \<Rightarrow> bool) \<times> int) list \<Rightarrow> large_state" where
  "large_loop users deadline st [] = st"
| "large_loop users deadline st ((now, isDis, sz) # ticks) =
     (if deadline < now then st
      else let (st', ok) = large_fire users st isDis sz in
        if ok then large_loop users deadline st' ticks else st')"

definition runLargeFile ::
  "user_creds list \<Rightarrow> int \<Rightarrow> int \<times> (string \<Rightarrow> bool) \<times> int \<Rightarrow> (int \<times> (string \<Rightarrow> bool) \<times> int) list \<Rightarrow> large_state" where
  "runLargeFile users deadline first ticks =
     (let st = \<lparr>lcursor = 0, lfired = [], cancelled = False\<rparr> in
      case first of (now, isDis, sz) \<Rightarrow>
        if users \<noteq> [] \<and> now < deadline
        then (let (st', ok) = large_fire users st isDis sz
              in if ok then large_loop users deadline st' ticks else st')
        else large_loop users deadline st ticks)"

section \<open>Pattern cursors\<close>

text \<open>None is the division by zero for a user without patterns.\<close>

definition nextPattern ::
  "(string \<rightharpoonup> int) \<Rightarrow> string \<Rightarrow> user_creds \<Rightarrow> (string \<times> (string \<rightharpoonup> int)) option" where
  "nextPattern cursors kind u =
     (if length (patterns u) = 1 then Some (patterns u ! 0, cursors)
      else let key = kind @ '':'' @ username u;
               n = u64 ((case cursors key of None \<Rightarrow> 0 | Some v \<Rightarrow> v) + 1);
               idx = u64 (n - 1)
           in if patterns u = [] then None
              else Some (patterns u ! nat (idx mod int (length (patterns u))), cursors(key \<mapsto> n)))"

section \<open>Connection pools\<close>

text \<open>A slot holds its live client, if any; a dial yields a client or an error.\<close>

type_synonym 'c slot = "'c option"

record 'c client_pool =
  slots :: "'c slot list"
  pidx :: nat

datatype ('c, 'e) pool_result =
  Got 'c nat bool
| PoolEmpty
| Unreachable 'e

text \<open>\<open>poolSlot.get\<close>: the client and whether it was dialled for this call.\<close>

definition slot_get :: "'c slot \<Rightarrow> 'e + 'c \<Rightarrow> 'c slot \<times> ('e + 'c \<times> bool)" where
  "slot_get s dialled =
     (case s of
        Some c \<Rightarrow> (s, Inr (c, False))
      | None \<Rightarrow> (case dialled of Inl e \<Rightarrow> (None, Inl e) | Inr c \<Rightarrow> (Some c, Inr (c, True))))"

definition slot_markDead :: "'c slot \<Rightarrow> 'c slot" where
  "slot_markDead s = None"

fun pool_attempts ::
  "nat list \<Rightarrow> 'c slot list \<Rightarrow> (nat \<Rightarrow> 'e + 'c) \<Rightarrow> 'e option \<Rightarrow> 'c slot list \<times> ('c, 'e) pool_result option \<times> 'e option" where
  "pool_attempts [] ss dial firstErr = (ss, None, firstErr)"
| "pool_attempts (k # ks) ss dial firstErr =
     (case slot_get (ss ! k) (dial k) of
        (s', Inr (c, dialled)) \<Rightarrow> (ss[k := s'], Some (Got c k dialled), firstErr)
      | (s', Inl e) \<Rightarrow>
          pool_attempts ks (ss[k := s']) dial (case firstErr of None \<Rightarrow> Some e | Some f \<Rightarrow> Some f))"

definition attempt_order :: "nat \<Rightarrow> nat \<Rightarrow> nat list" where
  "attempt_order n start = map (\<lambda>a. (start + a) mod n) [0..<n]"

definition pool_get :: "'c client_pool \<Rightarrow> (nat \<Rightarrow> 'e + 'c) \<Rightarrow> 'c client_pool \<times> ('c, 'e) pool_result" where
  "pool_get p dial =
     (let n = length (slots p) in
      if n = 0 then (p, PoolEmpty)
      else let start = pidx p;
               p1 = p\<lparr>pidx := (pidx p + 1) mod n\<rparr>
           in case pool_attempts (attempt_order n start) (slots p1) dial None of
                (ss, Some r, _) \<Rightarrow> (p1\<lparr>slots := ss\<rparr>, r)
              | (ss, None, Some e) \<Rightarrow> (p1\<lparr>slots := ss\<rparr>, Unreachable e)
              | (ss, None, None) \<Rightarrow> (p1\<lparr>slots := ss\<rparr>, PoolEmpty))"

definition pool_markDead :: "'c client_pool \<Rightarrow> nat \<Rightarrow> 'c client_pool" where
  "pool_markDead p k = p\<lparr>slots := (slots p)[k := slot_markDead (slots p ! k)]\<rparr>"

definition pool_closeAll :: "'c client_pool \<Rightarrow> 'c client_pool" where
  "pool_closeAll p = p\<lparr>slots := []\<rparr>"

text \<open>\<open>buildPool\<close>: every slot is dialled once; the first failure closes what was opened.\<close>

fun build_slots :: "nat \<Rightarrow> nat \<Rightarrow> (nat \<Rightarrow> 'e + 'c) \<Rightarrow> 'c slot list \<Rightarrow> 'e + 'c slot list" where
  "build_slots 0 i dial acc = Inr acc"
| "build_slots (Suc n) i dial acc =
     (case dial i of Inl e \<Rightarrow> Inl e | Inr c \<Rightarrow> build_slots n (Suc i) dial (acc @ [Some c]))"

definition buildPool :: "int \<Rightarrow> (nat \<Rightarrow> 'e + 'c) \<Rightarrow> 'e + 'c client_pool" where
  "buildPool n dial =
     (case build_slots (nat (if n < 1 then 1 else n)) 0 dial [] of
        Inl e \<Rightarrow> Inl e
      | Inr ss \<Rightarrow> Inr \<lparr>slots = ss, pidx = 0\<rparr>)"

section \<open>User lists\<close>

fun merge_loop :: "string set \<Rightarrow> user_creds list \<Rightarrow> user_creds list" where
  "merge_loop seen [] = []"
| "merge_loop seen (u # us) =
     (if username u \<in> seen then merge_loop seen us
      else u # merge_loop (insert (username u) seen) us)"

definition mergeUsers :: "user_creds list \<Rightarrow> user_creds list \<Rightarrow> user_creds list" where
  "mergeUsers a b = merge_loop {} (a @ b)"

definition findPassword :: "run_config \<Rightarrow> string \<Rightarrow> string" where
  "findPassword c user =
     (case find (\<lambda>u. username u = user) (normal_users c @ large_users c @ download_users c) of
        None \<Rightarrow> [] | Some u \<Rightarrow> password u)"

section \<open>The round robin\<close>

abbreviation at_cursor :: "user_creds list \<Rightarrow> int \<Rightarrow> user_creds" where
  "at_cursor users i \<equiv> users ! nat (i mod int (length users))"

lemma at_cursor_in [simp]: "users \<noteq> [] \<Longrightarrow> at_cursor users i \<in> set users"
  by (simp add: nat_less_iff)

lemma pick_loop_spec:
  assumes "0 \<le> i" "i + int n < 2 ^ 64"
  shows "case pick_loop n users i isDis of
      (None, i') \<Rightarrow> i' = i + int n \<and> (\<forall>e < n. isDis (username (at_cursor users (i + int e))))
    | (Some u, i') \<Rightarrow> \<exists>d < n. i' = i + int d + 1 \<and> u = at_cursor users (i + int d) \<and> \<not> isDis (username u)
        \<and> (\<forall>e < d. isDis (username (at_cursor users (i + int e))))"
  using assms
proof (induction n arbitrary: i)
  case (Suc n)
  have w: "u64 (i + 1) = i + 1" using Suc.prems by simp
  show ?case
  proof (cases "isDis (username (at_cursor users i))")
    case False
    then show ?thesis by (auto simp: Let_def w intro!: exI[of _ 0])
  next
    case True
    have IH: "case pick_loop n users (i + 1) isDis of
      (None, i') \<Rightarrow> i' = i + 1 + int n \<and> (\<forall>e < n. isDis (username (at_cursor users (i + 1 + int e))))
    | (Some u, i') \<Rightarrow> \<exists>d < n. i' = i + 1 + int d + 1 \<and> u = at_cursor users (i + 1 + int d) \<and> \<not> isDis (username u)
        \<and> (\<forall>e < d. isDis (username (at_cursor users (i + 1 + int e))))"
      by (rule Suc.IH) (use Suc.prems in simp_all)
    have shift: "(\<forall>e < Suc m. isDis (username (at_cursor users (i + int e)))) \<longleftrightarrow>
        (\<forall>e < m. isDis (username (at_cursor users (i + 1 + int e))))" for m
      using True by (auto simp: less_Suc_eq_0_disj add.assoc)
    show ?thesis
    proof (cases "pick_loop n users (i + 1) isDis")
      case (Pair r i')
      show ?thesis
      proof (cases r)
        case None
        with IH Pair True w show ?thesis by (simp add: Let_def shift)
      next
        case (Some u)
        with IH Pair obtain d where d: "d < n" "i' = i + 1 + int d + 1"
          "u = at_cursor users (i + 1 + int d)" "\<not> isDis (username u)"
          "\<forall>e < d. isDis (username (at_cursor users (i + 1 + int e)))" by auto
        then have "\<forall>e < Suc d. isDis (username (at_cursor users (i + int e)))" using shift[of d] by blast
        moreover have r: "i + 1 + int d = i + int (Suc d)" by simp
        ultimately have fin: "Suc d < Suc n \<and> i' = i + int (Suc d) + 1 \<and> u = at_cursor users (i + int (Suc d))
          \<and> \<not> isDis (username u) \<and> (\<forall>e < Suc d. isDis (username (at_cursor users (i + int e))))"
          using d(1-4) unfolding r by simp
        have eq: "pick_loop (Suc n) users i isDis = (Some u, i')"
          using Pair Some True w by (simp add: Let_def)
        show ?thesis unfolding eq prod.case option.case by (rule exI[of _ "Suc d"]) (rule fin)
      qed
    qed
  qed
qed simp

text \<open>Every user is reached by some offset within one turn.\<close>

lemma turn_covers:
  assumes "u \<in> set users" "0 \<le> i"
  shows "\<exists>e < length users. at_cursor users (i + int e) = u"
proof -
  from assms obtain k where k: "k < length users" "users ! k = u" by (auto simp: in_set_conv_nth)
  let ?n = "int (length users)"
  let ?e = "nat ((int k - i) mod ?n)"
  have n: "0 < ?n" using k by (cases users) simp_all
  have e: "?e < length users" using n by (simp add: nat_less_iff)
  have "(i + int ?e) mod ?n = (i + (int k - i)) mod ?n" using n by (simp add: mod_add_right_eq)
  also have "\<dots> = int k" using k by simp
  finally have "at_cursor users (i + int ?e) = u" using k by simp
  with e show ?thesis by blast
qed

text \<open>The round-robin cursor returns the first enabled user at or after the cursor and
  advances just past it; it gives up only when every user is disabled. So no enabled user is
  passed over, and a disabled user is never dispatched.\<close>
theorem pickActiveUser_next:
  assumes "users \<noteq> []" "0 \<le> i" "i + int (length users) < 2 ^ 64"
  shows "case pickActiveUser users i isDis of
      (None, i') \<Rightarrow> \<forall>u \<in> set users. isDis (username u)
    | (Some u, i') \<Rightarrow> u \<in> set users \<and> \<not> isDis (username u)
        \<and> (\<exists>d < length users. i' = i + int d + 1 \<and> u = at_cursor users (i + int d)
              \<and> (\<forall>e < d. isDis (username (at_cursor users (i + int e)))))"
proof -
  have "case pick_loop (length users) users i isDis of
      (None, i') \<Rightarrow> i' = i + int (length users) \<and> (\<forall>e < length users. isDis (username (at_cursor users (i + int e))))
    | (Some u, i') \<Rightarrow> \<exists>d < length users. i' = i + int d + 1 \<and> u = at_cursor users (i + int d)
        \<and> \<not> isDis (username u) \<and> (\<forall>e < d. isDis (username (at_cursor users (i + int e))))"
    by (rule pick_loop_spec[OF assms(2,3)])
  then show ?thesis
    using assms(1) turn_covers[OF _ assms(2)]
    by (fastforce simp: pickActiveUser_def split: prod.splits option.splits)
qed

definition demo_user :: "string \<Rightarrow> user_creds" where
  "demo_user n = \<lparr>username = n, password = n, patterns = [''*'']\<rparr>"

theorem pickActiveUser_next_witness:
  "fst (pickActiveUser [demo_user ''a'', demo_user ''b'', demo_user ''c''] 1 (\<lambda>u. u = ''b'')) = Some (demo_user ''c'')"
proof -
  let ?us = "[demo_user ''a'', demo_user ''b'', demo_user ''c'']"
  have e: "pickActiveUser ?us 1 (\<lambda>u. u = ''b'') = (Some (demo_user ''c''), 3)" by code_simp
  have "case pickActiveUser ?us 1 (\<lambda>u. u = ''b'') of (None, i') \<Rightarrow> False
    | (Some u, i') \<Rightarrow> \<not> username u = ''b''"
    using pickActiveUser_next[of ?us 1 "\<lambda>u. u = ''b''"] by (simp add: e)
  then show ?thesis by (simp add: e)
qed

section \<open>Every file of the rate is fired or counted as skipped\<close>

lemma dispatch_one_frame:
  assumes "dispatch_one users capacity st sample = Some st'"
  shows "accumulator st' = accumulator st" "perTick st' = perTick st" "lastRamp st' = lastRamp st"
    "lastMinute st' = lastMinute st"
    "int (length (fired st')) + skips st' = int (length (fired st)) + skips st + 1"
  using assms by (auto simp: dispatch_one_def Let_def split: prod.splits option.splits if_splits)

lemma dispatch_loop_frame:
  assumes "dispatch_loop users capacity st ss = Some st'"
  shows "accumulator st' = accumulator st \<and> perTick st' = perTick st \<and> lastRamp st' = lastRamp st
    \<and> lastMinute st' = lastMinute st
    \<and> int (length (fired st')) + skips st' = int (length (fired st)) + skips st + int (length ss)"
  using assms
proof (induction ss arbitrary: st)
  case (Cons s ss)
  then obtain st1 where st1: "dispatch_one users capacity st s = Some st1"
    "dispatch_loop users capacity st1 ss = Some st'" by (auto split: option.splits)
  show ?case using dispatch_one_frame[OF st1(1)] Cons.IH[OF st1(2)] by simp
qed simp

lemma dispatch_loop_capacity:
  assumes "dispatch_loop users capacity st ss = Some st'" "0 \<le> sem st" "sem st \<le> capacity"
    and "\<forall>(d, released, z) \<in> set ss. 0 \<le> released"
  shows "0 \<le> sem st' \<and> sem st' \<le> capacity"
  using assms
proof (induction ss arbitrary: st)
  case (Cons s ss)
  then obtain st1 where st1: "dispatch_one users capacity st s = Some st1"
    "dispatch_loop users capacity st1 ss = Some st'" by (auto split: option.splits)
  have "0 \<le> sem st1 \<and> sem st1 \<le> capacity"
    using st1(1) Cons.prems by (auto simp: dispatch_one_def Let_def max_def split: prod.splits option.splits if_splits)
  with Cons st1 show ?case by simp
qed simp

lemma tick_count_plain:
  assumes "tick_count None base runStart now st = (st', k)"
  shows "k = \<lfloor>rnd64 (accumulator st + perTick st)\<rfloor>"
    "accumulator st' = rnd64 (rnd64 (accumulator st + perTick st) - rnd64 (of_int k))"
    "perTick st' = perTick st" "fired st' = fired st" "skips st' = skips st"
  using assms by (auto simp: tick_count_def apply_ramp_def Let_def)

lemma rnd64_abs:
  assumes "0 \<le> x" "x \<le> b" "1 \<le> b"
  shows "\<bar>rnd64 x - x\<bar> \<le> b / 2 ^ 53"
proof (cases "2 powi (- 1022) \<le> x")
  case True
  have "x / 2 ^ 53 \<le> b / 2 ^ 53" using assms(2) by (rule divide_right_mono) simp
  with rnd64_rel[OF True] show ?thesis by linarith
next
  case False
  define t where "t = (2 powi (- 1022) :: rat)"
  have t: "0 < t" "t \<le> 1 / 2 ^ 54" "x \<le> t"
    using False by (simp_all add: t_def power_int_minus field_simps)
  have d: "\<bar>rnd64 t - t\<bar> \<le> t / 2 ^ 53" using rnd64_rel[of t] by (simp only: t_def order_refl)
  have "t / 2 ^ 53 \<le> t" using t(1) by (simp add: divide_le_eq)
  with d have "rnd64 t \<le> 2 * t" by linarith
  moreover have "rnd64 x \<le> rnd64 t" "0 \<le> rnd64 x"
    using t(3) assms(1) by (auto intro: rnd64_mono rnd64_nonneg)
  ultimately have "\<bar>rnd64 x - x\<bar> \<le> 2 * t" using t assms(1) by linarith
  moreover have "2 * t \<le> 1 / 2 ^ 53" using t(2) by simp
  moreover have "1 / 2 ^ 53 \<le> b / (2::rat) ^ 53" using assms(3) by (rule divide_right_mono) simp
  ultimately show ?thesis by linarith
qed

lemma files_per_tick_close:
  assumes "1 \<le> fpm" "fpm \<le> 1000000"
  shows "\<bar>files_per_tick fpm - of_int fpm / 1200\<bar> \<le> 1 / 2 ^ 43" "0 \<le> files_per_tick fpm"
    "files_per_tick fpm \<le> 1000"
proof -
  have e: "rnd64 (rnd64 (of_int fpm) * of_int tickInterval) = of_int (fpm * tickInterval)"
  proof -
    have "rnd64 (of_int fpm) = of_int fpm" by (rule fl.rnd_int) (use assms in simp_all)
    moreover have "rnd64 (of_int (fpm * tickInterval)) = of_int (fpm * tickInterval)"
      by (rule fl.rnd_int) (use assms in \<open>simp_all add: tickInterval_def\<close>)
    ultimately show ?thesis by simp
  qed
  have q: "of_int (fpm * tickInterval) / of_int minute = (of_int fpm / 1200 :: rat)"
    by (simp add: tickInterval_def minute_def second_def)
  have r: "0 \<le> (of_int fpm / 1200 :: rat)" "of_int fpm / 1200 \<le> (1000 :: rat)"
    using assms by simp_all
  have f: "files_per_tick fpm = rnd64 (of_int fpm / 1200)"
    unfolding files_per_tick_def e q ..
  have "(1000::rat) / 2 ^ 53 \<le> 1 / 2 ^ 43" by simp
  with rnd64_abs[OF r] show "\<bar>files_per_tick fpm - of_int fpm / 1200\<bar> \<le> 1 / 2 ^ 43"
    unfolding f by linarith
  show "0 \<le> files_per_tick fpm" unfolding f by (rule rnd64_nonneg[OF r(1)])
  show "files_per_tick fpm \<le> 1000" unfolding f
    using fl.rnd_upper_int[OF r(1), of 1000] r(2) by simp
qed

text \<open>One tick: what is fired plus what is carried over is what was due, up to rounding.\<close>

lemma tick_exact:
  assumes "tick_count None base runStart now st = (st', k)"
    and "0 \<le> accumulator st" "accumulator st \<le> 1" "0 \<le> perTick st" "perTick st \<le> 1000"
  shows "0 \<le> accumulator st' \<and> accumulator st' \<le> 1 \<and> 0 \<le> k
    \<and> \<bar>of_int k + accumulator st' - (accumulator st + perTick st)\<bar> \<le> 2 / 2 ^ 43"
proof -
  let ?x = "accumulator st + perTick st"
  let ?a = "rnd64 ?x"
  note T = tick_count_plain[OF assms(1)]
  have x: "0 \<le> ?x" "?x \<le> 1001" using assms by linarith+
  have a: "0 \<le> ?a" "?a \<le> 1001" "\<bar>?a - ?x\<bar> \<le> 1001 / 2 ^ 53"
    using rnd64_nonneg[OF x(1)] fl.rnd_upper_int[OF x(1), of 1001] x(2) rnd64_abs[OF x] by simp_all
  have k: "0 \<le> k" "of_int k \<le> ?a" "?a < of_int k + 1"
    using a(1) by (simp_all add: T(1) floor_correct) linarith+
  have kr: "rnd64 (of_int k) = of_int k"
    by (rule fl.rnd_int) (use k a in \<open>auto simp: T(1) floor_le_iff\<close>)
  have d: "0 \<le> ?a - of_int k" "?a - of_int k \<le> 1" using k by linarith+
  have acc: "accumulator st' = rnd64 (?a - of_int k)" by (simp only: T(2) kr)
  have "0 \<le> accumulator st'" unfolding acc by (rule rnd64_nonneg[OF d(1)])
  moreover have "accumulator st' \<le> 1" unfolding acc using fl.rnd_upper_int[OF d(1), of 1] d(2) by simp
  moreover have "\<bar>accumulator st' - (?a - of_int k)\<bar> \<le> 1 / 2 ^ 53"
    unfolding acc by (rule rnd64_abs[OF d]) simp
  moreover have "(1001::rat) / 2 ^ 53 + 1 / 2 ^ 53 \<le> 2 / 2 ^ 43" by simp
  ultimately show ?thesis using a(3) k(1) by linarith
qed

definition attempted :: "normal_state \<Rightarrow> int" where
  "attempted st = int (length (fired st)) + skips st"

lemma normal_run_rate:
  assumes "normal_run c n runStart deadline st ticks = Inr st'" "n_ramp n = None"
    and "0 \<le> accumulator st" "accumulator st \<le> 1" "0 \<le> perTick st" "perTick st \<le> 1000"
  shows "0 \<le> accumulator st' \<and> accumulator st' \<le> 1 \<and>
    \<bar>of_int (attempted st') + accumulator st' - (of_int (attempted st) + accumulator st
       + of_nat (length ticks) * perTick st)\<bar> \<le> of_nat (length ticks) * (2 / 2 ^ 43)"
  using assms
proof (induction ticks arbitrary: st)
  case (Cons tk ticks)
  obtain now samples where tk: "tk = (now, samples)" by (cases tk)
  from Cons.prems(1) obtain st1 where st1: "normal_tick c n runStart deadline now st samples = Inr st1"
    "normal_run c n runStart deadline st1 ticks = Inr st'" by (auto simp: tk split: sum.splits)
  obtain sc k where sc: "tick_count None (files_per_minute n) runStart now st = (sc, k)" by fastforce
  then have loop: "dispatch_loop (normal_users c) (int (length (normal_users c)) * parallel_streams c)
      sc (map samples [0..<nat k]) = Some st1"
    using st1(1) Cons.prems(2) by (simp add: normal_tick_def split: if_splits option.splits)
  note T = tick_exact[OF sc Cons.prems(3-6)] and P = tick_count_plain[OF sc]
  note L = dispatch_loop_frame[OF loop]
  have acc: "accumulator st1 = accumulator sc" "perTick st1 = perTick st"
    "attempted st1 = attempted st + k"
    using L P T by (simp_all add: attempted_def)
  have IH: "0 \<le> accumulator st' \<and> accumulator st' \<le> 1 \<and>
    \<bar>of_int (attempted st') + accumulator st' - (of_int (attempted st1) + accumulator st1
       + of_nat (length ticks) * perTick st1)\<bar> \<le> of_nat (length ticks) * (2 / 2 ^ 43)"
    by (rule Cons.IH[OF st1(2) Cons.prems(2)]) (use T acc Cons.prems in simp_all)
  define e :: rat where "e = 2 / 2 ^ 43"
  have n: "length (tk # ticks) = Suc (length ticks)" by simp
  show ?case
    using T IH unfolding acc n e_def[symmetric] of_nat_Suc distrib_right of_int_add mult_1_left by linarith
qed simp

text \<open>C5: At a fixed rate of up to a million files a minute the dispatcher keeps its rate for as
  long as it runs: after any number of 50 ms ticks (up to a billion, a year and a half) the
  files fired plus the dispatches recorded as skipped differ from rate times elapsed ticks by
  at most 2. The floating-point accumulator never drifts, and no file is lost silently.\<close>
theorem normal_rate:
  assumes "normal_start n = Some st" "n_ramp n = None" "files_per_minute n \<le> 1000000"
    and "normal_run c n runStart deadline st ticks = Inr st'" "length ticks \<le> 1000000000"
  shows "\<bar>of_int (attempted st') - of_int (files_per_minute n) * of_nat (length ticks) / (1200 :: rat)\<bar> \<le> 2"
proof -
  let ?f = "files_per_minute n" and ?m = "of_nat (length ticks) :: rat"
  have f: "1 \<le> ?f" and st: "accumulator st = 0" "perTick st = files_per_tick ?f" "attempted st = 0"
    using assms(1,2) by (auto simp: normal_start_def attempted_def Let_def split: if_splits)
  note F = files_per_tick_close[OF f assms(3)]
  have R: "0 \<le> accumulator st' \<and> accumulator st' \<le> 1 \<and>
    \<bar>of_int (attempted st') + accumulator st' - ?m * files_per_tick ?f\<bar> \<le> ?m * (2 / 2 ^ 43)"
    using normal_run_rate[OF assms(4,2)] F by (simp add: st)
  have "\<bar>?m * files_per_tick ?f - ?m * (of_int ?f / 1200)\<bar> = ?m * \<bar>files_per_tick ?f - of_int ?f / 1200\<bar>"
    by (simp only: right_diff_distrib[symmetric] abs_mult abs_of_nat)
  also have "\<dots> \<le> ?m * (1 / 2 ^ 43)" by (rule mult_left_mono[OF F(1)]) simp
  finally have D: "\<bar>?m * files_per_tick ?f - ?m * (of_int ?f / 1200)\<bar> \<le> ?m * (1 / 2 ^ 43)" .
  have m: "?m \<le> 1000000000" using assms(5) by (simp add: of_nat_le_iff[of _ 1000000000, simplified])
  have "?m * (2 / 2 ^ 43) + ?m * (1 / 2 ^ 43) \<le> 1" using m by simp
  then have "\<bar>of_int (attempted st') + accumulator st' - ?m * (of_int ?f / 1200)\<bar> \<le> 1"
    using R D by linarith
  moreover have "?m * (of_int ?f / 1200) = of_int ?f * ?m / 1200" by simp
  ultimately show ?thesis using R by linarith
qed

definition demo_load :: normal_load where
  "demo_load = \<lparr>files_per_minute = 1800, min_size_mb = 1, max_size_mb = 1, content_type = ''binary'',
     n_source = None, n_ramp = None\<rparr>"

definition demo_run_config :: run_config where
  "demo_run_config =
     \<lparr>host = ''h'', port = 22, upload_folder = ''/in'', parallel_streams = 1, duration_hours = 1,
      normal = Some demo_load, large_file = None, download = None,
      normal_users = [demo_user ''a'', demo_user ''b''], large_users = [], download_users = [],
      poll_interval = 3, trackid_timeout = 5, max_failures = 0, speed_floor_percent = 0,
      speed_floor_warmup = 0, speed_floor_breach = 0, verify_hashes = False\<rparr>"

definition demo_start :: normal_state where
  "demo_start = \<lparr>cursor = 0, lastMinute = -1, accumulator = 0, perTick = files_per_tick 1800,
     lastRamp = 1800, sem = 0, skips = 0, fired = []\<rparr>"

definition demo_ticks :: "(int \<times> (nat \<Rightarrow> sample)) list" where
  "demo_ticks = [(50000000, \<lambda>j. (\<lambda>u. False, 0, 1)), (100000000, \<lambda>j. (\<lambda>u. False, 0, 1)),
     (150000000, \<lambda>j. (\<lambda>u. False, 1, 1))]"

theorem normal_rate_witness:
  "case normal_run demo_run_config demo_load 0 1000000000 demo_start demo_ticks of
     Inr st \<Rightarrow> \<bar>of_int (attempted st) - 9 / (2 :: rat)\<bar> \<le> 2 \<and> map (username \<circ> fst) (fired st) = [''a'', ''b'', ''b'']
       \<and> skips st = 1
   | Inl _ \<Rightarrow> False"
proof -
  have s: "normal_start demo_load = Some demo_start"
    by (simp add: normal_start_def demo_load_def demo_start_def)
  have "(case normal_run demo_run_config demo_load 0 1000000000 demo_start demo_ticks of
     Inr st \<Rightarrow> map (username \<circ> fst) (fired st) = [''a'', ''b'', ''b''] \<and> skips st = 1 | Inl _ \<Rightarrow> False)"
    by code_simp
  then obtain st where r: "normal_run demo_run_config demo_load 0 1000000000 demo_start demo_ticks = Inr st"
    "map (username \<circ> fst) (fired st) = [''a'', ''b'', ''b'']" "skips st = 1" by (auto split: sum.splits)
  show ?thesis
    using normal_rate[OF s _ _ r(1)] r
    by (simp add: demo_load_def[THEN arg_cong[where f = n_ramp]] demo_load_def[THEN arg_cong[where f = files_per_minute]] demo_ticks_def)
qed

section \<open>Patterns are used evenly\<close>

text \<open>The calls of \<open>nextPattern\<close> in the order their atomic additions took effect.\<close>

fun pattern_run ::
  "(string \<rightharpoonup> int) \<Rightarrow> (string \<times> user_creds) list \<Rightarrow> (string list \<times> (string \<rightharpoonup> int)) option" where
  "pattern_run m [] = Some ([], m)"
| "pattern_run m ((kind, u) # calls) =
     (case nextPattern m kind u of None \<Rightarrow> None
      | Some (p, m') \<Rightarrow> map_option (\<lambda>(ps, m''). (p # ps, m'')) (pattern_run m' calls))"

definition cursor_key :: "string \<Rightarrow> user_creds \<Rightarrow> string" where
  "cursor_key kind u = kind @ '':'' @ username u"

definition cursor_of :: "(string \<rightharpoonup> int) \<Rightarrow> string \<Rightarrow> int" where
  "cursor_of m key = (case m key of None \<Rightarrow> 0 | Some v \<Rightarrow> v)"

lemma nextPattern_many:
  assumes "length (patterns u) \<ge> 2" "0 \<le> cursor_of m (cursor_key kind u)"
    "cursor_of m (cursor_key kind u) + 1 < 2 ^ 64"
  shows "nextPattern m kind u =
    Some (patterns u ! nat (cursor_of m (cursor_key kind u) mod int (length (patterns u))),
          m(cursor_key kind u \<mapsto> cursor_of m (cursor_key kind u) + 1))"
  using assms
  by (auto simp: nextPattern_def cursor_key_def cursor_of_def Let_def split: option.splits)

lemma nextPattern_other:
  assumes "nextPattern m kind' u' = Some (p, m')" "cursor_key kind' u' \<noteq> key"
  shows "cursor_of m' key = cursor_of m key"
  using assms by (auto simp: nextPattern_def cursor_key_def cursor_of_def Let_def split: if_splits)

text \<open>The patterns handed to one user and kind, among the calls of all of them.\<close>

definition patterns_for :: "string \<Rightarrow> (string \<times> user_creds) list \<Rightarrow> string list \<Rightarrow> string list" where
  "patterns_for key calls ps = map snd (filter (\<lambda>((kind, u), p). cursor_key kind u = key) (zip calls ps))"

lemma pattern_run_served:
  assumes "pattern_run m calls = Some (ps, m')"
    and "\<forall>(k, u') \<in> set calls. cursor_key k u' = cursor_key kind u \<longrightarrow> patterns u' = patterns u"
    and "length (patterns u) \<ge> 2" "0 \<le> cursor_of m (cursor_key kind u)"
    and "cursor_of m (cursor_key kind u) + int (length calls) < 2 ^ 64"
  shows "patterns_for (cursor_key kind u) calls ps =
    map (\<lambda>j. patterns u ! nat ((cursor_of m (cursor_key kind u) + int j) mod int (length (patterns u))))
      [0..<length (patterns_for (cursor_key kind u) calls ps)]"
  using assms
proof (induction calls arbitrary: m ps)
  case (Cons call calls)
  obtain k v where call: "call = (k, v)" by (cases call)
  from Cons.prems(1) obtain p m1 ps' where r: "nextPattern m k v = Some (p, m1)" "ps = p # ps'"
    "pattern_run m1 calls = Some (ps', m')"
    by (auto simp: call split: option.splits)
  let ?key = "cursor_key kind u"
  let ?rest = "patterns_for ?key calls ps'"
  show ?case
  proof (cases "cursor_key k v = ?key")
    case True
    have pv: "patterns v = patterns u" using Cons.prems(2) True call by auto
    have c: "p = patterns u ! nat (cursor_of m ?key mod int (length (patterns u)))"
      "m1 = m(?key \<mapsto> cursor_of m ?key + 1)"
      using nextPattern_many[of v m k] r(1) Cons.prems(3-5) True pv by simp_all
    have c1: "cursor_of m1 ?key = cursor_of m ?key + 1" by (simp add: c cursor_of_def)
    have "?rest = map (\<lambda>j. patterns u ! nat ((cursor_of m1 ?key + int j) mod int (length (patterns u))))
        [0..<length ?rest]"
      by (rule Cons.IH[OF r(3)]) (use Cons.prems c1 in auto)
    moreover have "patterns_for ?key (call # calls) ps = p # ?rest"
      using True by (simp add: patterns_for_def call r(2))
    ultimately show ?thesis
      unfolding c1 by (simp add: c map_upt_Suc add.assoc del: upt_Suc)
  next
    case False
    have c1: "cursor_of m1 ?key = cursor_of m ?key" by (rule nextPattern_other[OF r(1) False])
    have "patterns_for ?key (call # calls) ps = ?rest"
      using False by (simp add: patterns_for_def call r(2))
    moreover have "?rest = map (\<lambda>j. patterns u ! nat ((cursor_of m1 ?key + int j) mod int (length (patterns u))))
        [0..<length ?rest]"
      by (rule Cons.IH[OF r(3)]) (use Cons.prems c1 in auto)
    ultimately show ?thesis by (simp add: c1)
  qed
qed (simp add: patterns_for_def)

text \<open>How often a residue occurs among consecutive numbers.\<close>

lemma residue_count:
  assumes "0 < K" "k < (K::nat)"
  shows "length (filter (\<lambda>j. j mod K = k) [0..<n]) = (n + K - 1 - k) div K"
proof (induction n)
  case (Suc n)
  have d: "(Suc n + K - 1 - k) div K = (n + K - 1 - k) div K + (if n mod K = k then 1 else 0)"
  proof -
    have e: "Suc n + K - 1 - k = Suc (n + K - 1 - k)" using assms by simp
    have "Suc (n + K - 1 - k) mod K = 0 \<longleftrightarrow> n mod K = k"
    proof -
      have "Suc (n + K - 1 - k) = n + (K - k)" using assms by simp
      moreover have "(n + (K - k)) mod K = 0 \<longleftrightarrow> n mod K = k"
      proof -
        have "(n + (K - k)) mod K = (n mod K + (K - k)) mod K" by (simp add: mod_add_left_eq)
        also have "\<dots> = 0 \<longleftrightarrow> n mod K = k"
        proof (cases "n mod K < k")
          case True
          then show ?thesis using assms(2) by simp
        next
          case False
          then have "n mod K + (K - k) = (n mod K - k) + K" using assms(2) by simp
          then have "(n mod K + (K - k)) mod K = (n mod K - k) mod K" by simp
          moreover have "n mod K - k < K" using assms by (simp add: less_imp_diff_less)
          ultimately show ?thesis using False by auto
        qed
        finally show ?thesis .
      qed
      ultimately show ?thesis by simp
    qed
    then show ?thesis unfolding e by (simp add: div_Suc)
  qed
  show ?case using Suc d by simp
qed (use assms in \<open>simp add: div_eq_0_iff\<close>)

text \<open>However the uploads of all users interleave, a user with several patterns is served
  them in strict rotation: after any number of uploads each pattern has been used the same
  number of times, give or take one.\<close>
theorem patterns_rotate:
  assumes "pattern_run Map.empty calls = Some (ps, m')"
    and "\<forall>(k, u') \<in> set calls. cursor_key k u' = cursor_key kind u \<longrightarrow> patterns u' = patterns u"
    and "length (patterns u) \<ge> 2" "distinct (patterns u)" "int (length calls) < 2 ^ 64"
    and "p \<in> set (patterns u)" "q \<in> set (patterns u)"
  shows "count_list (patterns_for (cursor_key kind u) calls ps) p
    \<le> count_list (patterns_for (cursor_key kind u) calls ps) q + 1"
proof -
  define served where "served = patterns_for (cursor_key kind u) calls ps"
  let ?K = "length (patterns u)"
  have K: "0 < ?K" by (rule less_le_trans[OF _ assms(3)]) simp
  have s: "served = map (\<lambda>j. patterns u ! (j mod ?K)) [0..<length served]"
    using pattern_run_served[OF assms(1-3)] assms(5)
    by (simp add: served_def cursor_of_def zmod_int[symmetric])
  have cnt: "count_list served (patterns u ! k) = (length served + ?K - 1 - k) div ?K" if "k < ?K" for k
  proof -
    have "count_list served (patterns u ! k) = length (filter (\<lambda>j. patterns u ! k = patterns u ! (j mod ?K)) [0..<length served])"
      by (subst s) (simp add: count_list_eq_length_filter filter_map o_def)
    also have "\<dots> = length (filter (\<lambda>j. j mod ?K = k) [0..<length served])"
      using assms(4) that K by (intro arg_cong[where f = length] filter_cong) (auto simp: nth_eq_iff_index_eq)
    finally show ?thesis using residue_count[OF K that] by simp
  qed
  obtain k l where kl: "k < ?K" "p = patterns u ! k" "l < ?K" "q = patterns u ! l"
    using assms(6,7) by (auto simp: in_set_conv_nth)
  have "length served + ?K - 1 - k \<le> (length served + ?K - 1 - l) + ?K" using kl by simp
  then have "(length served + ?K - 1 - k) div ?K \<le> ((length served + ?K - 1 - l) + ?K) div ?K"
    by (rule div_le_mono)
  also have "\<dots> = (length served + ?K - 1 - l) div ?K + 1" using K by simp
  finally show ?thesis using cnt[OF kl(1)] cnt[OF kl(3)] kl unfolding served_def by simp
qed

definition demo_patterns :: user_creds where
  "demo_patterns = \<lparr>username = ''u'', password = [], patterns = [''a*'', ''b*'', ''c*'']\<rparr>"

definition demo_calls :: "(string \<times> user_creds) list" where
  "demo_calls = [(''normal'', demo_patterns), (''large'', demo_patterns), (''normal'', demo_patterns),
     (''normal'', demo_patterns), (''normal'', demo_patterns)]"

theorem patterns_rotate_witness:
  "\<exists>m'. pattern_run Map.empty demo_calls = Some ([''a*'', ''a*'', ''b*'', ''c*'', ''a*''], m')
     \<and> count_list (patterns_for (cursor_key ''normal'' demo_patterns) demo_calls [''a*'', ''a*'', ''b*'', ''c*'', ''a*'']) ''a*''
       \<le> count_list (patterns_for (cursor_key ''normal'' demo_patterns) demo_calls [''a*'', ''a*'', ''b*'', ''c*'', ''a*'']) ''c*'' + 1"
proof -
  have "map_option fst (pattern_run Map.empty demo_calls) = Some [''a*'', ''a*'', ''b*'', ''c*'', ''a*'']"
    by code_simp
  then obtain m' where m: "pattern_run Map.empty demo_calls = Some ([''a*'', ''a*'', ''b*'', ''c*'', ''a*''], m')"
    by auto
  show ?thesis
    using patterns_rotate[OF m, of "''normal''" demo_patterns "''a*''" "''c*''"] m
    by (simp add: demo_calls_def demo_patterns_def)
qed

section \<open>A pool hands out live connections\<close>

lemma pool_attempts_spec:
  assumes "distinct ks" "\<forall>k \<in> set ks. k < length ss"
  shows "case pool_attempts ks ss dial firstErr of
      (ss', None, e) \<Rightarrow> ss' = ss \<and> (\<forall>k \<in> set ks. ss ! k = None \<and> (\<exists>er. dial k = Inl er))
        \<and> (ks \<noteq> [] \<longrightarrow> e \<noteq> None)
    | (ss', Some r, e) \<Rightarrow> \<exists>k c fresh. r = Got c k fresh \<and> k \<in> set ks
        \<and> (if fresh then ss ! k = None \<and> dial k = Inr c else ss ! k = Some c)
        \<and> ss' = ss[k := Some c]
        \<and> (\<forall>j \<in> set (takeWhile (\<lambda>j. j \<noteq> k) ks). ss ! j = None \<and> (\<exists>er. dial j = Inl er))"
  using assms
proof (induction ks arbitrary: firstErr)
  case (Cons k ks)
  show ?case
  proof (cases "ss ! k")
    case (Some c)
    then have "ss[k := Some c] = ss" by (metis list_update_id)
    with Some show ?thesis by (auto simp: slot_get_def)
  next
    case None
    show ?thesis
    proof (cases "dial k")
      case (Inr c)
      with None show ?thesis by (auto simp: slot_get_def)
    next
      case (Inl er)
      have upd: "ss[k := None] = ss" using None by (metis list_update_id)
      let ?f = "case firstErr of None \<Rightarrow> Some er | Some f \<Rightarrow> Some f"
      have step: "pool_attempts (k # ks) ss dial firstErr = pool_attempts ks ss dial ?f"
        by (simp add: slot_get_def None Inl upd)
      obtain ss' r e where res: "pool_attempts ks ss dial ?f = (ss', r, e)" by (cases "pool_attempts ks ss dial ?f")
      have IH: "case (ss', r, e) of
      (ss', None, e) \<Rightarrow> ss' = ss \<and> (\<forall>k \<in> set ks. ss ! k = None \<and> (\<exists>er. dial k = Inl er))
        \<and> (ks \<noteq> [] \<longrightarrow> e \<noteq> None)
    | (ss', Some r, e) \<Rightarrow> \<exists>k c fresh. r = Got c k fresh \<and> k \<in> set ks
        \<and> (if fresh then ss ! k = None \<and> dial k = Inr c else ss ! k = Some c)
        \<and> ss' = ss[k := Some c]
        \<and> (\<forall>j \<in> set (takeWhile (\<lambda>j. j \<noteq> k) ks). ss ! j = None \<and> (\<exists>er. dial j = Inl er))"
        using Cons.IH[of ?f] Cons.prems unfolding res by simp
      show ?thesis
      proof (cases r)
        case (Some rr)
        with IH obtain k' c fresh where g: "rr = Got c k' fresh" "k' \<in> set ks"
          "if fresh then ss ! k' = None \<and> dial k' = Inr c else ss ! k' = Some c"
          "ss' = ss[k' := Some c]"
          "\<forall>j \<in> set (takeWhile (\<lambda>j. j \<noteq> k') ks). ss ! j = None \<and> (\<exists>er. dial j = Inl er)" by auto
        moreover have "k \<noteq> k'" using g(2) Cons.prems(1) by auto
        ultimately show ?thesis unfolding step res Some using None Inl by auto
      next
        case n: None
        have e: "e \<noteq> None"
        proof (cases "ks = []")
          case True
          then show ?thesis using res by (auto split: option.splits)
        next
          case False
          then show ?thesis using IH n by simp
        qed
        then show ?thesis unfolding step res n using IH n None Inl by auto
      qed
    qed
  qed
qed simp

lemma attempt_order_perm:
  assumes "0 < n"
  shows "distinct (attempt_order n start)" "set (attempt_order n start) = {..<n}"
proof -
  have inj: "inj_on (\<lambda>a. (start + a) mod n) {..<n}"
  proof (rule inj_onI)
    fix a b assume ab: "a \<in> {..<n}" "b \<in> {..<n}" "(start + a) mod n = (start + b) mod n"
    then have "int (start + a) mod int n = int (start + b) mod int n" by (metis zmod_int)
    then have "int n dvd int a - int b" by (simp add: mod_eq_dvd_iff)
    moreover have "\<bar>int a - int b\<bar> < int n" using ab by auto
    ultimately have "int a - int b = 0" using dvd_imp_le_int[of "int a - int b" "int n"] by linarith
    then show "a = b" by simp
  qed
  show "distinct (attempt_order n start)"
    using inj unfolding attempt_order_def by (simp add: distinct_map lessThan_atLeast0)
  have "(\<lambda>a. (start + a) mod n) ` {..<n} \<subseteq> {..<n}" using assms by auto
  with inj have "(\<lambda>a. (start + a) mod n) ` {..<n} = {..<n}"
    by (intro endo_inj_surj) auto
  then show "set (attempt_order n start) = {..<n}"
    by (simp add: attempt_order_def atLeast_upt)
qed

text \<open>A pool hands out a connection whenever one of its slots is live or can be dialled,
  starting with the slot the round robin points at: the connection handed out is the one now
  stored in that slot, it is dialled only when the slot was dead, only slots that were dead
  and refused a dial were passed over, and no other slot changes. It reports failure only when
  every slot is dead and every dial failed. The round robin always moves to the next slot.\<close>
theorem pool_get_live:
  assumes "slots p \<noteq> []"
  shows "case pool_get p dial of
      (p', Got c k fresh) \<Rightarrow> k < length (slots p) \<and> slots p' = (slots p)[k := Some c]
        \<and> (if fresh then slots p ! k = None \<and> dial k = Inr c else slots p ! k = Some c)
        \<and> (\<forall>j \<in> set (takeWhile (\<lambda>j. j \<noteq> k) (attempt_order (length (slots p)) (pidx p))).
              slots p ! j = None \<and> (\<exists>e. dial j = Inl e))
        \<and> pidx p' = (pidx p + 1) mod length (slots p)
    | (p', Unreachable e) \<Rightarrow> (\<forall>k < length (slots p). slots p ! k = None \<and> (\<exists>e. dial k = Inl e))
        \<and> slots p' = slots p \<and> pidx p' = (pidx p + 1) mod length (slots p)
    | (p', PoolEmpty) \<Rightarrow> False"
proof -
  let ?n = "length (slots p)" and ?ks = "attempt_order (length (slots p)) (pidx p)"
  have n: "0 < ?n" using assms by simp
  note perm = attempt_order_perm[OF n, of "pidx p"]
  have ne: "?ks \<noteq> []" using perm(2) n by (metis empty_set lessThan_empty_iff not_gr_zero)
  have spec: "case pool_attempts ?ks (slots p) dial None of
      (ss', None, e) \<Rightarrow> ss' = slots p \<and> (\<forall>k \<in> set ?ks. slots p ! k = None \<and> (\<exists>er. dial k = Inl er))
        \<and> (?ks \<noteq> [] \<longrightarrow> e \<noteq> None)
    | (ss', Some r, e) \<Rightarrow> \<exists>k c fresh. r = Got c k fresh \<and> k \<in> set ?ks
        \<and> (if fresh then slots p ! k = None \<and> dial k = Inr c else slots p ! k = Some c)
        \<and> ss' = (slots p)[k := Some c]
        \<and> (\<forall>j \<in> set (takeWhile (\<lambda>j. j \<noteq> k) ?ks). slots p ! j = None \<and> (\<exists>er. dial j = Inl er))"
    by (rule pool_attempts_spec) (use perm in auto)
  obtain ss r e where res: "pool_attempts ?ks (slots p) dial None = (ss, r, e)"
    by (cases "pool_attempts ?ks (slots p) dial None")
  show ?thesis
  proof (cases r)
    case None
    with spec res ne perm(2) obtain er where "e = Some er" by auto
    with None spec res ne perm(2) n show ?thesis by (auto simp: pool_get_def Let_def)
  next
    case (Some rr)
    with spec res perm(2) n show ?thesis by (auto simp: pool_get_def Let_def)
  qed
qed

theorem pool_get_live_witness:
  "case pool_get \<lparr>slots = [Some (7::int), None, None], pidx = 1\<rparr> (\<lambda>k. if k = 1 then Inl ''refused'' else Inr 9) of
     (p', Got c k fresh) \<Rightarrow> k = 2 \<and> fresh \<and> slots p' = [Some 7, None, Some 9] \<and> pidx p' = 2
   | _ \<Rightarrow> False"
proof -
  let ?p = "\<lparr>slots = [Some (7::int), None, None], pidx = 1\<rparr>"
  let ?d = "\<lambda>k::nat. if k = 1 then Inl ''refused'' else Inr 9"
  have e: "pool_get ?p ?d = (\<lparr>slots = [Some 7, None, Some 9], pidx = 2\<rparr>, Got 9 2 True)"
    by code_simp
  show ?thesis using pool_get_live[of ?p ?d] unfolding e by simp
qed

text \<open>The merged user list holds every user of the two lists once, the first entry winning,
  and the password the track-id watcher looks up for a merged user is the one the user's
  pool was built with.\<close>
theorem mergeUsers_passwords:
  "distinct (map username (mergeUsers (normal_users c) (large_users c)))
   \<and> username ` set (mergeUsers (normal_users c) (large_users c)) =
       username ` set (normal_users c) \<union> username ` set (large_users c)
   \<and> list_all (\<lambda>u. findPassword c (username u) = password u) (mergeUsers (normal_users c) (large_users c))"
proof -
  have loop: "distinct (map username (merge_loop seen us)) \<and>
      username ` set (merge_loop seen us) = username ` set us - seen \<and>
      (\<forall>u \<in> set (merge_loop seen us). find (\<lambda>v. username v = username u) us = Some u)" for seen us
  proof (induction seen us rule: merge_loop.induct)
    case (2 seen u us)
    then show ?case by (cases "username u \<in> seen") auto
  qed simp
  have app: "find P (xs @ ys) = Some u" if "find P xs = Some u" for P u and xs ys :: "user_creds list"
    using that by (induction xs) auto
  show ?thesis
    unfolding mergeUsers_def findPassword_def
    using loop[of "{}" "normal_users c @ large_users c"]
    by (auto simp: list_all_iff app[of _ "normal_users c @ large_users c", unfolded append_assoc])
qed

end
