(* ===== verification/ReportStore.thy ===== *)
theory ReportStore
  imports Config "HOL-Library.Multiset"
begin

text \<open>
  The per-file ledger of a run (internal/report/report.go): the records, the indexes by key,
  by name, by marker and by minute, the attachment of track ids and downloads, the flush of
  finalized rows to the streaming CSV in its two phases, and the CSV rows. Instants are
  nanoseconds since 1970, None is Go's zero time. Parameters: \<open>rfc\<close>, the rendering of an
  instant (it depends on the local zone), the effective-speed callback, and the lines a
  failing disk write lets through. The finality predicate of the runner is included because
  the flush is instantiated with it.
\<close>

section \<open>Instants and durations\<close>

definition zero_instant :: int where "zero_instant = - 62135596800 * second"

definition instant :: "int option \<Rightarrow> int" where
  "instant t = (case t of None \<Rightarrow> zero_instant | Some n \<Rightarrow> n)"

text \<open>\<open>Time.Sub\<close> saturates.\<close>

definition time_sub :: "int option \<Rightarrow> int option \<Rightarrow> int" where
  "time_sub t u = max (- (2 ^ 63)) (min (2 ^ 63 - 1) (instant t - instant u))"

text \<open>\<open>t.Unix() / 60\<close>: whole seconds rounded down, then truncated.\<close>

definition minute_of :: "int \<Rightarrow> int" where
  "minute_of t = (let s = t div second in if 0 \<le> s then s div 60 else - ((- s) div 60))"

definition go_div :: "int \<Rightarrow> int \<Rightarrow> int" where
  "go_div a b = (if (0 \<le> a) = (0 < b) then \<bar>a\<bar> div \<bar>b\<bar> else - (\<bar>a\<bar> div \<bar>b\<bar>))"

definition go_rem :: "int \<Rightarrow> int \<Rightarrow> int" where
  "go_rem a b = a - b * go_div a b"

text \<open>\<open>Duration.Seconds\<close> and \<open>Duration.Minutes\<close>; rounding is odd, so the sign is taken out.\<close>

definition rnd_signed :: "rat \<Rightarrow> rat" where
  "rnd_signed x = (if x < 0 then - rnd64 (- x) else rnd64 x)"

definition seconds :: "int \<Rightarrow> rat" where
  "seconds d = rnd_signed (rnd_signed (of_int (go_div d second)) + rnd_signed (of_int (go_rem d second) / of_int second))"

definition minutes :: "int \<Rightarrow> rat" where
  "minutes d = rnd_signed (rnd_signed (of_int (go_div d minute)) + rnd_signed (of_int (go_rem d minute) / of_int minute))"

section \<open>Records\<close>

record file_record =
  f_user :: string
  f_kind :: string
  f_name :: string
  f_start :: "int option"
  f_end :: "int option"
  f_size :: int
  f_expected :: int
  f_incomplete :: bool
  f_speed :: rat
  f_trackid :: string
  f_trackid_at :: "int option"
  f_trackid_wait :: int
  f_slow :: bool
  f_error :: string
  f_code :: string
  f_marker :: string
  f_dl_user :: string
  f_dl_avail :: "int option"
  f_dl_start :: "int option"
  f_dl_end :: "int option"
  f_dl_size :: int
  f_dl_speed :: rat
  f_dl_wait :: int
  f_dl_error :: string
  f_up_sha :: string
  f_dl_sha :: string
  f_match :: bool

record download_result =
  d_user :: string
  d_start :: "int option"
  d_end :: "int option"
  d_size :: int
  d_speed :: rat
  d_avail :: "int option"
  d_error :: string
  d_sha :: string

definition MinReliableBytes :: int where "MinReliableBytes = 2 ^ 20"
definition MinReliableDuration :: int where "MinReliableDuration = 100000000"

definition RawSpeedMBps :: "int \<Rightarrow> int \<Rightarrow> rat" where
  "RawSpeedMBps bytes dur =
     (if bytes \<le> 0 \<or> dur \<le> 0 then 0
      else rnd64 (rnd64 (rnd64 (of_int bytes) / 1048576) / seconds dur))"

definition IsReliablePerFileSpeed :: "int \<Rightarrow> int \<Rightarrow> bool" where
  "IsReliablePerFileSpeed bytes dur \<longleftrightarrow> MinReliableBytes \<le> bytes \<and> MinReliableDuration \<le> dur"

section \<open>CSV rows\<close>

definition CSVHeader :: "string list" where
  "CSVHeader =
     [''user'', ''kind'', ''filename'', ''filename_id'', ''start_time'', ''end_time'', ''duration_sec'',
      ''size_bytes'', ''expected_bytes'', ''incomplete'', ''upload_mbps'', ''upload_mbps_source'',
      ''track_id'', ''track_id_detected_at'', ''track_id_wait_sec'', ''processing_time_min'',
      ''in_slowdown_minute'', ''error'', ''error_code'', ''download_user'', ''download_available_at'',
      ''download_start'', ''download_end'', ''download_wait_sec'', ''download_duration_sec'',
      ''download_size_bytes'', ''download_mbps'', ''download_mbps_source'', ''download_error'',
      ''upload_sha256'', ''download_sha256'', ''hash_match'']"

text \<open>\<open>FormatFloat(x, 'f', 3, 64)\<close>: the exact value rounded to three decimals, ties to even.\<close>

definition pad3 :: "int \<Rightarrow> string" where
  "pad3 n = [digit_char (n div 100), digit_char (n div 10 mod 10), digit_char (n mod 10)]"

definition fmt_f3 :: "rat \<Rightarrow> string" where
  "fmt_f3 x =
     (let n = round_half_even (\<bar>x\<bar> * 1000)
      in (if x < 0 then ''-'' else []) @ go_itoa (n div 1000) @ ''.'' @ pad3 (n mod 1000))"

definition fmt_bool :: "bool \<Rightarrow> string" where
  "fmt_bool b = (if b then ''true'' else ''false'')"

definition fmtTime :: "(int option \<Rightarrow> string) \<Rightarrow> int option \<Rightarrow> string" where
  "fmtTime rfc t = (case t of None \<Rightarrow> [] | Some _ \<Rightarrow> rfc t)"

type_synonym effective = "int \<Rightarrow> int option \<Rightarrow> int \<Rightarrow> rat"

definition row_speed ::
  "effective option \<Rightarrow> rat \<Rightarrow> int \<Rightarrow> int option \<Rightarrow> int \<Rightarrow> rat \<times> string" where
  "row_speed eff raw bytes start dur =
     (case eff of
        Some f \<Rightarrow> if \<not> IsReliablePerFileSpeed bytes dur then (f bytes start dur, ''window_rate'')
                  else (raw, ''per_file'')
      | None \<Rightarrow> (raw, ''per_file''))"

definition buildRow ::
  "(int option \<Rightarrow> string) \<Rightarrow> (int \<Rightarrow> bool) \<Rightarrow> effective option \<Rightarrow> file_record \<Rightarrow> string list" where
  "buildRow rfc slow eff r =
     (let upDur = time_sub (f_end r) (f_start r);
          dlDur = time_sub (f_dl_end r) (f_dl_start r);
          inSlow = (f_slow r \<or> (case f_start r of None \<Rightarrow> False | Some t \<Rightarrow> slow (minute_of t)));
          (upSpeed, upSource) = row_speed eff (f_speed r) (f_size r) (f_start r) upDur;
          (dlSpeed, dlSource) = row_speed eff (f_dl_speed r) (f_dl_size r) (f_dl_start r) dlDur
      in [f_user r, f_kind r, f_name r, f_marker r, rfc (f_start r), rfc (f_end r),
          fmt_f3 (seconds upDur), go_itoa (f_size r), go_itoa (f_expected r), fmt_bool (f_incomplete r),
          fmt_f3 upSpeed, upSource, f_trackid r, fmtTime rfc (f_trackid_at r),
          fmt_f3 (seconds (f_trackid_wait r)), fmt_f3 (minutes (f_trackid_wait r)), fmt_bool inSlow,
          f_error r, f_code r, f_dl_user r, fmtTime rfc (f_dl_avail r), fmtTime rfc (f_dl_start r),
          fmtTime rfc (f_dl_end r), fmt_f3 (seconds (f_dl_wait r)), fmt_f3 (seconds dlDur),
          go_itoa (f_dl_size r), fmt_f3 dlSpeed, dlSource, f_dl_error r, f_up_sha r, f_dl_sha r,
          fmt_bool (f_match r)])"

section \<open>The streaming writer\<close>

record csv_stream =
  wroteHeader :: bool
  csv_lines :: "string list list"

text \<open>A failing batch lets some lines reach the file; whether the header counts as written is
  part of the failure.\<close>

type_synonym write_fault = "(nat \<times> bool) option"

definition WriteRowsBatch ::
  "(int option \<Rightarrow> string) \<Rightarrow> (int \<Rightarrow> bool) \<Rightarrow> effective option \<Rightarrow> write_fault \<Rightarrow> csv_stream
    \<Rightarrow> file_record list \<Rightarrow> csv_stream \<times> bool" where
  "WriteRowsBatch rfc slow eff fault w rs =
     (if rs = [] then (w, True)
      else
        let new = (if wroteHeader w then [] else [CSVHeader]) @ map (buildRow rfc slow eff) rs
        in case fault of
             None \<Rightarrow> (w\<lparr>wroteHeader := True, csv_lines := csv_lines w @ new\<rparr>, True)
           | Some (k, hdr) \<Rightarrow>
               (w\<lparr>wroteHeader := (wroteHeader w \<or> hdr), csv_lines := csv_lines w @ take k new\<rparr>, False))"

section \<open>The store\<close>

record report_store =
  records :: "file_record option list"
  byKey :: "string \<rightharpoonup> nat"
  byBasename :: "string \<rightharpoonup> nat"
  byFilenameID :: "string \<rightharpoonup> nat"
  byMinute :: "int \<rightharpoonup> nat list"
  nilMaps :: bool
  stream :: "csv_stream option"
  flushed :: int
  hashVerified :: int
  hashMismatch :: int
  recentTail :: "file_record list"

definition recentTailCap :: nat where "recentTailCap = 256"

definition NewStore :: report_store where
  "NewStore = \<lparr>records = [], byKey = Map.empty, byBasename = Map.empty, byFilenameID = Map.empty,
     byMinute = Map.empty, nilMaps = False, stream = None, flushed = 0, hashVerified = 0,
     hashMismatch = 0, recentTail = []\<rparr>"

definition SetStream :: "report_store \<Rightarrow> csv_stream option \<Rightarrow> report_store" where
  "SetStream s w = s\<lparr>stream := w\<rparr>"

definition key_of :: "string \<Rightarrow> string \<Rightarrow> string" where
  "key_of user name = user @ ''|'' @ name"

text \<open>None is the panic of an assignment to a nil map.\<close>

definition AddUpload :: "report_store \<Rightarrow> file_record \<Rightarrow> report_store option" where
  "AddUpload s r =
     (if nilMaps s then None
      else
        let idx = length (records s);
            s1 = s\<lparr>records := records s @ [Some r],
                   byKey := (byKey s)(key_of (f_user r) (f_name r) \<mapsto> idx),
                   byBasename := (byBasename s)(f_name r \<mapsto> idx)\<rparr>;
            s2 = (if f_marker r \<noteq> [] then s1\<lparr>byFilenameID := (byFilenameID s1)(f_marker r \<mapsto> idx)\<rparr> else s1)
        in Some (case f_start r of None \<Rightarrow> s2
             | Some t \<Rightarrow>
                 let m = minute_of t; old = (case byMinute s2 m of None \<Rightarrow> [] | Some l \<Rightarrow> l)
                 in s2\<lparr>byMinute := (byMinute s2)(m \<mapsto> old @ [idx])\<rparr>))"

definition live_at :: "report_store \<Rightarrow> nat option \<Rightarrow> (nat \<times> file_record) option" where
  "live_at s i = (case i of None \<Rightarrow> None | Some k \<Rightarrow> map_option (Pair k) (records s ! k))"

definition set_record :: "report_store \<Rightarrow> nat \<Rightarrow> file_record \<Rightarrow> report_store" where
  "set_record s k r = s\<lparr>records := (records s)[k := Some r]\<rparr>"

definition track_record :: "string \<Rightarrow> int option \<Rightarrow> bool \<Rightarrow> file_record \<Rightarrow> file_record" where
  "track_record trackID detectedAt timedOut r =
     (let r1 = (if timedOut
                then r\<lparr>f_trackid := ''TRACKID_TIMEOUT'',
                       f_code := (if f_code r = [] then ''TRACKID_TIMEOUT'' else f_code r)\<rparr>
                else r\<lparr>f_trackid := trackID\<rparr>);
          r2 = r1\<lparr>f_trackid_at := detectedAt\<rparr>
      in if f_end r2 \<noteq> None then r2\<lparr>f_trackid_wait := time_sub detectedAt (f_end r2)\<rparr> else r2)"

definition AttachTrackID ::
  "report_store \<Rightarrow> string \<Rightarrow> string \<Rightarrow> string \<Rightarrow> int option \<Rightarrow> bool \<Rightarrow> report_store" where
  "AttachTrackID s user name trackID detectedAt timedOut =
     (case live_at s (byKey s (key_of user name)) of
        None \<Rightarrow> s
      | Some (k, r) \<Rightarrow> set_record s k (track_record trackID detectedAt timedOut r))"

text \<open>The body the three attach functions share: the record, and what the two hash counters
  gain.\<close>

definition attach_record :: "download_result \<Rightarrow> file_record \<Rightarrow> file_record \<times> int \<times> int" where
  "attach_record d r =
     (let r1 = r\<lparr>f_dl_user := d_user d, f_dl_avail := d_avail d, f_dl_start := d_start d,
                 f_dl_end := d_end d, f_dl_size := d_size d, f_dl_speed := d_speed d,
                 f_dl_error := d_error d\<rparr>;
          (r2, v, m) =
            (if d_sha d \<noteq> [] then
               let r' = r1\<lparr>f_dl_sha := d_sha d\<rparr> in
               if f_up_sha r' \<noteq> [] then
                 let ok = (f_up_sha r' = f_dl_sha r');
                     r'' = r'\<lparr>f_match := ok\<rparr>;
                     r''' = (if \<not> ok \<and> f_dl_error r'' = [] then r''\<lparr>f_dl_error := ''HASH_MISMATCH''\<rparr> else r'')
                 in (r''', if ok then 1 else 0, if ok then 0 else 1)
               else (r', 0, 0)
             else (r1, 0, 0))
      in (if d_avail d \<noteq> None \<and> d_start d \<noteq> None
          then r2\<lparr>f_dl_wait := time_sub (d_start d) (d_avail d)\<rparr> else r2, v, m))"

definition attach_at :: "report_store \<Rightarrow> nat option \<Rightarrow> download_result \<Rightarrow> report_store \<times> bool" where
  "attach_at s i d =
     (case live_at s i of
        None \<Rightarrow> (s, False)
      | Some (k, r) \<Rightarrow>
          let (r', v, m) = attach_record d r; s' = set_record s k r'
          in (s'\<lparr>hashVerified := i64 (hashVerified s + v), hashMismatch := i64 (hashMismatch s + m)\<rparr>, True))"

definition AttachDownloadByFilenameID :: "report_store \<Rightarrow> string \<Rightarrow> download_result \<Rightarrow> report_store \<times> bool" where
  "AttachDownloadByFilenameID s marker d = attach_at s (byFilenameID s marker) d"

definition AttachDownloadByBasename :: "report_store \<Rightarrow> string \<Rightarrow> download_result \<Rightarrow> report_store \<times> bool" where
  "AttachDownloadByBasename s basename d = attach_at s (byBasename s basename) d"

definition AttachDownload :: "report_store \<Rightarrow> string \<Rightarrow> string \<Rightarrow> download_result \<Rightarrow> report_store" where
  "AttachDownload s user name d = fst (attach_at s (byKey s (key_of user name)) d)"

definition HasUploadByFilenameID :: "report_store \<Rightarrow> string \<Rightarrow> bool" where
  "HasUploadByFilenameID s marker \<longleftrightarrow> marker \<noteq> [] \<and> byFilenameID s marker \<noteq> None"

definition HasUploadByBasename :: "report_store \<Rightarrow> string \<Rightarrow> bool" where
  "HasUploadByBasename s basename \<longleftrightarrow> basename \<noteq> [] \<and> byBasename s basename \<noteq> None"

definition live_records :: "report_store \<Rightarrow> file_record list" where
  "live_records s = map the (filter (\<lambda>r. r \<noteq> None) (records s))"

definition report_Snapshot :: "report_store \<Rightarrow> file_record list" where
  "report_Snapshot s = live_records s"

definition LiveCount :: "report_store \<Rightarrow> int" where
  "LiveCount s = int (length (live_records s))"

definition FlushedCount :: "report_store \<Rightarrow> int" where
  "FlushedCount s = flushed s"

definition HashCounts :: "report_store \<Rightarrow> int \<times> int" where
  "HashCounts s = (hashVerified s, hashMismatch s)"

text \<open>The last \<open>n\<close> by start time; records with equal start times may come in any order, the
  model keeps theirs.\<close>

definition SnapshotTail :: "report_store \<Rightarrow> int \<Rightarrow> file_record list" where
  "SnapshotTail s n =
     (if n \<le> 0 then []
      else let out = sort_key (\<lambda>r. instant (f_start r)) (recentTail s @ live_records s)
           in drop (length out - nat n) out)"

definition RecordsInMinute :: "report_store \<Rightarrow> int \<Rightarrow> file_record list" where
  "RecordsInMinute s m =
     List.map_filter (\<lambda>k. records s ! k) (case byMinute s m of None \<Rightarrow> [] | Some l \<Rightarrow> l)"

definition StampPendingDownloads :: "report_store \<Rightarrow> string \<Rightarrow> report_store \<times> int" where
  "StampPendingDownloads s code =
     (if code = [] then (s, 0)
      else
        let hit = (\<lambda>r. f_trackid r \<noteq> [] \<and> f_dl_end r = None \<and> f_dl_error r = [])
        in (s\<lparr>records := map (map_option (\<lambda>r. if hit r then r\<lparr>f_dl_error := code\<rparr> else r)) (records s)\<rparr>,
            int (length (filter hit (live_records s)))))"

definition ReleaseHeavyState :: "report_store \<Rightarrow> report_store" where
  "ReleaseHeavyState s =
     s\<lparr>byKey := Map.empty, byBasename := Map.empty, byFilenameID := Map.empty, byMinute := Map.empty,
       nilMaps := True\<rparr>"

definition WriteRemainingCSV ::
  "(int option \<Rightarrow> string) \<Rightarrow> (int \<Rightarrow> bool) \<Rightarrow> effective option \<Rightarrow> report_store \<Rightarrow> string list list" where
  "WriteRemainingCSV rfc slow eff s = map (buildRow rfc slow eff) (live_records s)"

definition WriteCSV ::
  "(int option \<Rightarrow> string) \<Rightarrow> (int \<Rightarrow> bool) \<Rightarrow> effective option \<Rightarrow> file_record list \<Rightarrow> string list list" where
  "WriteCSV rfc slow eff rs = CSVHeader # map (buildRow rfc slow eff) rs"

section \<open>Flushing, phase by phase\<close>

text \<open>
  The callback decides and may stamp the record it is given, so it returns both. The first
  phase runs under the store's lock: it walks the live records and collects the final ones.
\<close>

type_synonym finality = "file_record \<Rightarrow> bool \<times> file_record"

fun collect_final ::
  "finality \<Rightarrow> nat \<Rightarrow> file_record option list \<Rightarrow> file_record option list \<times> (nat \<times> file_record) list" where
  "collect_final fin i [] = ([], [])"
| "collect_final fin i (None # rs) =
     (let (rs', batch) = collect_final fin (Suc i) rs in (None # rs', batch))"
| "collect_final fin i (Some r # rs) =
     (let (b, r') = fin r; (rs', batch) = collect_final fin (Suc i) rs
      in (Some r' # rs', if b then (i, r') # batch else batch))"

definition flush_collect :: "finality \<Rightarrow> report_store \<Rightarrow> report_store \<times> (nat \<times> file_record) list" where
  "flush_collect fin s =
     (if stream s = None then (s, [])
      else let (rs, batch) = collect_final fin 0 (records s) in (s\<lparr>records := rs\<rparr>, batch))"

text \<open>The write happens without the store's lock.\<close>

definition flush_write ::
  "(int option \<Rightarrow> string) \<Rightarrow> (int \<Rightarrow> bool) \<Rightarrow> effective option \<Rightarrow> write_fault \<Rightarrow> report_store
    \<Rightarrow> (nat \<times> file_record) list \<Rightarrow> report_store \<times> bool" where
  "flush_write rfc slow eff fault s batch =
     (case stream s of
        None \<Rightarrow> (s, True)
      | Some w \<Rightarrow>
          let (w', ok) = WriteRowsBatch rfc slow eff fault w (map snd batch)
          in (s\<lparr>stream := Some w'\<rparr>, ok))"

definition can_prune :: "file_record \<Rightarrow> bool" where
  "can_prune r \<longleftrightarrow> f_code r \<noteq> [] \<and> f_trackid r = [] \<or> f_dl_end r \<noteq> None \<or> f_dl_error r \<noteq> []"

definition prune :: "file_record \<Rightarrow> report_store \<Rightarrow> report_store" where
  "prune r s =
     (if can_prune r then
        let s1 = s\<lparr>byKey := (byKey s)(key_of (f_user r) (f_name r) := None),
                   byBasename := (byBasename s)(f_name r := None)\<rparr>
        in if f_marker r \<noteq> [] then s1\<lparr>byFilenameID := (byFilenameID s1)(f_marker r := None)\<rparr> else s1
      else s)"

definition commit_one :: "nat \<Rightarrow> report_store \<Rightarrow> report_store" where
  "commit_one i s =
     (case records s ! i of
        None \<Rightarrow> s
      | Some r \<Rightarrow>
          let tail = recentTail s @ [r];
              tail' = (if recentTailCap < length tail then drop (length tail - recentTailCap) tail else tail);
              s' = prune r (s\<lparr>recentTail := tail'\<rparr>)
          in s'\<lparr>records := (records s')[i := None]\<rparr>)"

definition flush_commit :: "nat list \<Rightarrow> report_store \<Rightarrow> report_store" where
  "flush_commit is s =
     (let s' = fold commit_one is s in s'\<lparr>flushed := i64 (flushed s' + int (length is))\<rparr>)"

text \<open>The whole call, when nothing else touches the store between its phases.\<close>

definition FlushFinalized ::
  "(int option \<Rightarrow> string) \<Rightarrow> (int \<Rightarrow> bool) \<Rightarrow> effective option \<Rightarrow> finality \<Rightarrow> write_fault \<Rightarrow> report_store
    \<Rightarrow> report_store \<times> (nat \<times> bool)" where
  "FlushFinalized rfc slow eff fin fault s =
     (let (s1, batch) = flush_collect fin s in
      if batch = [] then (s1, (0, True))
      else let (s2, ok) = flush_write rfc slow eff fault s1 batch in
        if \<not> ok then (s2, (0, False))
        else (flush_commit (map fst batch) s2, (length batch, True)))"

section \<open>Finality, as the runner decides it\<close>

definition grace_of :: "run_config \<Rightarrow> int" where
  "grace_of c =
     (let g1 = (if poll_interval c * 20 > trackid_timeout c then poll_interval c * 20 else trackid_timeout c)
      in if g1 < 2 * minute then 2 * minute else g1)"

definition isRecordFinal :: "run_config \<Rightarrow> int \<Rightarrow> finality" where
  "isRecordFinal c now r =
     (if f_code r \<noteq> [] \<and> f_trackid r = [] then (True, r)
      else if f_trackid r = [] then (False, r)
      else if download c = None then (True, r)
      else if f_dl_end r \<noteq> None then (True, r)
      else case f_trackid_at r of
        None \<Rightarrow> (False, r)
      | Some t \<Rightarrow>
          if time_sub (Some now) (Some t) > grace_of c
          then (True, if f_dl_error r = [] then r\<lparr>f_dl_error := ''DOWNLOAD_TIMEOUT_LOCAL''\<rparr> else r)
          else (False, r))"

end
