(* ===== verification/ReportLedger.thy ===== *)
theory ReportLedger
  imports ReportStore
begin

text \<open>
  What the ledger of internal/report/report.go guarantees while uploads, track ids, downloads
  and the three phases of a flush interleave: the identity of records, the invariant of the
  indexes and of the CSV, the exactly-once theorem, the attribution of downloads, and the
  window in which a flush loses a download.
\<close>

section \<open>Every upload reaches the CSV exactly once\<close>

text \<open>
  One flusher runs its phases while uploads are added and track ids and downloads are attached
  in between. \<open>added\<close> lists the uploads in the order they were added.
\<close>

datatype phase = Idle | Collected "(nat \<times> file_record) list" | Written "nat list"

record ledger =
  lstore :: report_store
  lphase :: phase
  added :: "file_record list"

datatype report_op =
  OAdd file_record
| OTrack string string string "int option" bool
| ODlName string download_result
| ODlMarker string download_result
| ODlKey string string download_result
| OStamp string
| OCollect int
| OWrite
| OCommit

text \<open>The columns that identify an upload in its row.\<close>

definition ident :: "file_record \<Rightarrow> string list" where
  "ident r = [f_user r, f_kind r, f_name r, f_marker r]"


fun ledger_step ::
  "run_config \<Rightarrow> (int option \<Rightarrow> string) \<Rightarrow> (int \<Rightarrow> bool) \<Rightarrow> effective option \<Rightarrow> ledger \<Rightarrow> report_op \<Rightarrow> ledger" where
  "ledger_step c rfc slow eff l (OAdd r) =
     (case AddUpload (lstore l) r of None \<Rightarrow> l
      | Some s \<Rightarrow> l\<lparr>lstore := s, added := added l @ [r]\<rparr>)"
| "ledger_step c rfc slow eff l (OTrack user name tid t timedOut) =
     l\<lparr>lstore := AttachTrackID (lstore l) user name tid t timedOut\<rparr>"
| "ledger_step c rfc slow eff l (ODlName name d) = l\<lparr>lstore := fst (AttachDownloadByBasename (lstore l) name d)\<rparr>"
| "ledger_step c rfc slow eff l (ODlMarker m d) = l\<lparr>lstore := fst (AttachDownloadByFilenameID (lstore l) m d)\<rparr>"
| "ledger_step c rfc slow eff l (ODlKey user name d) = l\<lparr>lstore := AttachDownload (lstore l) user name d\<rparr>"
| "ledger_step c rfc slow eff l (OStamp code) = l\<lparr>lstore := fst (StampPendingDownloads (lstore l) code)\<rparr>"
| "ledger_step c rfc slow eff l (OCollect now) =
     (case lphase l of
        Idle \<Rightarrow> let (s, batch) = flush_collect (isRecordFinal c now) (lstore l)
                in l\<lparr>lstore := s, lphase := (if batch = [] then Idle else Collected batch)\<rparr>
      | _ \<Rightarrow> l)"
| "ledger_step c rfc slow eff l OWrite =
     (case lphase l of
        Collected batch \<Rightarrow> l\<lparr>lstore := fst (flush_write rfc slow eff None (lstore l) batch),
                             lphase := Written (map fst batch)\<rparr>
      | _ \<Rightarrow> l)"
| "ledger_step c rfc slow eff l OCommit =
     (case lphase l of
        Written is \<Rightarrow> l\<lparr>lstore := flush_commit is (lstore l), lphase := Idle\<rparr>
      | _ \<Rightarrow> l)"

definition ledger_start :: ledger where
  "ledger_start = \<lparr>lstore = SetStream NewStore (Some \<lparr>wroteHeader = False, csv_lines = []\<rparr>),
     lphase = Idle, added = []\<rparr>"

definition live_of :: "'a option list \<Rightarrow> 'a list" where
  "live_of rs = map the (filter (\<lambda>r. r \<noteq> None) rs)"

lemma live_of_simps [simp]:
  "live_of [] = []" "live_of (None # rs) = live_of rs" "live_of (Some r # rs) = r # live_of rs"
  "live_of (rs @ rs') = live_of rs @ live_of rs'"
  by (simp_all add: live_of_def)

lemma live_records_live_of: "live_records s = live_of (records s)"
  by (simp add: live_records_def live_of_def)

lemma live_of_update:
  "k < length rs \<Longrightarrow> rs ! k = Some r \<Longrightarrow> f r' = f r \<Longrightarrow>
   map f (live_of (rs[k := Some r'])) = map f (live_of rs)"
proof (induction rs arbitrary: k)
  case (Cons x rs)
  then show ?case by (cases k; cases x) auto
qed simp

lemma live_of_remove:
  "k < length rs \<Longrightarrow> rs ! k = Some r \<Longrightarrow> mset (live_of rs) = add_mset r (mset (live_of (rs[k := None])))"
proof (induction rs arbitrary: k)
  case (Cons x rs)
  then show ?case by (cases k; cases x) auto
qed simp

lemma live_of_map: "map f (live_of (map (map_option g) rs)) = map (f \<circ> g) (live_of rs)"
proof (induction rs)
  case (Cons x rs)
  then show ?case by (cases x) simp_all
qed simp

definition nones :: "'a option list \<Rightarrow> nat" where
  "nones rs = length (filter (\<lambda>r. r = None) rs)"

lemma nones_remove:
  "k < length rs \<Longrightarrow> rs ! k = Some r \<Longrightarrow> nones (rs[k := None]) = Suc (nones rs)"
  unfolding nones_def
proof (induction rs arbitrary: k)
  case (Cons x rs)
  then show ?case by (cases k; cases x) auto
qed simp

lemma nones_update: "k < length rs \<Longrightarrow> rs ! k = Some r \<Longrightarrow> nones (rs[k := Some r']) = nones rs"
  unfolding nones_def
proof (induction rs arbitrary: k)
  case (Cons x rs)
  then show ?case by (cases k; cases x) auto
qed simp

subsection \<open>Records keep their identity\<close>

lemma track_ident [simp]: "ident (track_record tid t timedOut r) = ident r"
  by (simp add: track_record_def ident_def Let_def)

lemma attach_ident [simp]: "ident (fst (attach_record d r)) = ident r"
  by (simp add: attach_record_def ident_def Let_def)

lemma final_ident [simp]: "ident (snd (isRecordFinal c now r)) = ident r"
  by (simp add: isRecordFinal_def ident_def split: option.split)

lemma row_ident: "take 4 (buildRow rfc slow eff r) = ident r"
  by (simp add: buildRow_def ident_def Let_def split_beta numeral_eq_Suc)

text \<open>What an operation between the phases of a flush may do: rewrite live records in place or
  append one.\<close>

definition in_place :: "report_store \<Rightarrow> report_store \<Rightarrow> bool" where
  "in_place s s' \<longleftrightarrow> map (map_option ident) (records s') = map (map_option ident) (records s)
     \<and> stream s' = stream s \<and> flushed s' = flushed s \<and> nilMaps s' = nilMaps s"

lemma in_place_refl [simp]: "in_place s s"
  by (simp add: in_place_def)

lemma in_place_set:
  assumes "k < length (records s)" "records s ! k = Some r" "ident r' = ident r"
  shows "in_place s (set_record s k r')"
  using assms by (simp add: in_place_def set_record_def map_update list_update_same_conv)

lemma in_range_live_at:
  "live_at s i = Some (k, r) \<Longrightarrow> i = Some k \<and> records s ! k = Some r"
  by (auto simp: live_at_def split: option.splits)

text \<open>The indexes only hold positions of the ledger.\<close>

definition indexes_ok :: "report_store \<Rightarrow> bool" where
  "indexes_ok s \<longleftrightarrow>
     (\<forall>x k. byKey s x = Some k \<longrightarrow> k < length (records s))
     \<and> (\<forall>x k. byBasename s x = Some k \<longrightarrow> k < length (records s))
     \<and> (\<forall>x k. byFilenameID s x = Some k \<longrightarrow> k < length (records s))"

lemma attach_at_in_place:
  assumes "indexes_ok s" "i \<in> {byKey s x, byBasename s x, byFilenameID s x}"
  shows "in_place s (fst (attach_at s i d))" "indexes_ok (fst (attach_at s i d))"
proof -
  have rng: "k < length (records s)" if "i = Some k" for k
    using assms that by (auto simp: indexes_ok_def)
  show "in_place s (fst (attach_at s i d))"
  proof (cases "live_at s i")
    case (Some kr)
    then obtain k r where kr: "live_at s i = Some (k, r)" by (cases kr) auto
    note p = in_range_live_at[OF kr]
    have "in_place s (set_record s k (fst (attach_record d r)))"
      by (rule in_place_set) (use p rng in auto)
    then show ?thesis by (simp add: attach_at_def kr split_beta in_place_def)
  qed (simp add: attach_at_def)
  show "indexes_ok (fst (attach_at s i d))"
    using assms(1) by (auto simp: attach_at_def indexes_ok_def set_record_def split_beta split: option.split)
qed

lemma track_in_place:
  assumes "indexes_ok s"
  shows "in_place s (AttachTrackID s user name tid t timedOut)" "indexes_ok (AttachTrackID s user name tid t timedOut)"
proof -
  let ?i = "byKey s (key_of user name)"
  have rng: "k < length (records s)" if "?i = Some k" for k
    using assms that by (auto simp: indexes_ok_def)
  show "in_place s (AttachTrackID s user name tid t timedOut)"
  proof (cases "live_at s ?i")
    case (Some kr)
    then obtain k r where kr: "live_at s ?i = Some (k, r)" by (cases kr) auto
    note p = in_range_live_at[OF kr]
    show ?thesis unfolding AttachTrackID_def kr
      by (simp, rule in_place_set) (use p rng in auto)
  qed (simp add: AttachTrackID_def)
  show "indexes_ok (AttachTrackID s user name tid t timedOut)"
    using assms by (auto simp: AttachTrackID_def indexes_ok_def set_record_def split: option.split)
qed

lemma stamp_in_place:
  "in_place s (fst (StampPendingDownloads s code))"
  "indexes_ok s \<Longrightarrow> indexes_ok (fst (StampPendingDownloads s code))"
proof -
  have "ident (if b then r\<lparr>f_dl_error := code\<rparr> else r) = ident r" for b r
    by (simp add: ident_def)
  then show "in_place s (fst (StampPendingDownloads s code))"
    by (simp add: StampPendingDownloads_def in_place_def Let_def option.map_comp o_def)
  show "indexes_ok s \<Longrightarrow> indexes_ok (fst (StampPendingDownloads s code))"
    by (simp add: StampPendingDownloads_def indexes_ok_def Let_def)
qed

text \<open>Collecting.\<close>

lemma collect_final_spec:
  assumes "\<And>r. ident (snd (fin r)) = ident r"
  shows "map (map_option ident) (fst (collect_final fin i rs)) = map (map_option ident) rs
    \<and> (\<forall>(k, r) \<in> set (snd (collect_final fin i rs)).
          i \<le> k \<and> k < i + length rs \<and> fst (collect_final fin i rs) ! (k - i) = Some r)
    \<and> distinct (map fst (snd (collect_final fin i rs)))"
proof (induction rs arbitrary: i)
  case (Cons x rs)
  obtain rs' batch where c: "collect_final fin (Suc i) rs = (rs', batch)" by fastforce
  have IH: "map (map_option ident) rs' = map (map_option ident) rs" "distinct (map fst batch)"
    "\<And>k r. (k, r) \<in> set batch \<Longrightarrow> Suc i \<le> k \<and> k < Suc i + length rs \<and> rs' ! (k - Suc i) = Some r"
    using Cons.IH[of "Suc i"] by (auto simp: c)
  have later: "i \<le> k \<and> k < Suc (i + length rs) \<and> (y # rs') ! (k - i) = Some r" if "(k, r) \<in> set batch" for k r y
  proof -
    have "Suc i \<le> k" using IH(3)[OF that] by simp
    then have "k - i = Suc (k - Suc i)" by arith
    with IH(3)[OF that] show ?thesis by simp
  qed
  have fresh: "i \<notin> fst ` set batch" using IH(3) by fastforce
  show ?case
  proof (cases x)
    case None
    with IH later show ?thesis by (auto simp: c)
  next
    case (Some r)
    with IH later fresh assms[of r] show ?thesis by (auto simp: c split_beta)
  qed
qed simp

lemma collect_in_place:
  assumes "flush_collect (isRecordFinal c now) s = (s', batch)"
  shows "in_place s s'" "indexes_ok s \<Longrightarrow> indexes_ok s'" "distinct (map fst batch)"
    "(k, r) \<in> set batch \<Longrightarrow> k < length (records s') \<and> records s' ! k = Some r"
proof -
  note spec = collect_final_spec[of "isRecordFinal c now" 0 "records s", simplified final_ident]
  have len: "length (fst (collect_final (isRecordFinal c now) 0 (records s))) = length (records s)"
    using spec by (metis length_map final_ident)
  show "in_place s s'" "indexes_ok s \<Longrightarrow> indexes_ok s'" "distinct (map fst batch)"
    "(k, r) \<in> set batch \<Longrightarrow> k < length (records s') \<and> records s' ! k = Some r"
    using assms spec len
    by (auto simp: flush_collect_def in_place_def indexes_ok_def split_beta split: if_splits)
qed

subsection \<open>Committing\<close>

lemma prune_fields [simp]:
  "records (prune r s) = records s" "stream (prune r s) = stream s" "flushed (prune r s) = flushed s"
  "nilMaps (prune r s) = nilMaps s" "recentTail (prune r s) = recentTail s"
  by (simp_all add: prune_def Let_def)

lemma prune_indexes: "indexes_ok s \<Longrightarrow> indexes_ok (prune r s)"
  by (auto simp: prune_def indexes_ok_def Let_def)

lemma commit_one_live:
  assumes "records s ! i = Some r"
  shows "records (commit_one i s) = (records s)[i := None]" "stream (commit_one i s) = stream s"
    "flushed (commit_one i s) = flushed s" "nilMaps (commit_one i s) = nilMaps s"
    "indexes_ok s \<Longrightarrow> indexes_ok (commit_one i s)"
  using assms prune_indexes[of "s\<lparr>recentTail := x\<rparr>" for x]
  by (auto simp: commit_one_def Let_def indexes_ok_def)

lemma commit_all:
  assumes "distinct is" "\<forall>i \<in> set is. i < length (records s) \<and> records s ! i \<noteq> None" "indexes_ok s"
  shows "mset (live_of (records s)) =
      mset (live_of (records (fold commit_one is s))) + mset (map (\<lambda>i. the (records s ! i)) is)
    \<and> nones (records (fold commit_one is s)) = nones (records s) + length is
    \<and> stream (fold commit_one is s) = stream s \<and> flushed (fold commit_one is s) = flushed s
    \<and> nilMaps (fold commit_one is s) = nilMaps s \<and> indexes_ok (fold commit_one is s)
    \<and> length (records (fold commit_one is s)) = length (records s)"
  using assms
proof (induction "is" arbitrary: s)
  case (Cons i "is")
  then obtain r where r: "i < length (records s)" "records s ! i = Some r" by auto
  note C = commit_one_live[OF r(2)]
  have rest: "\<forall>j \<in> set is. records (commit_one i s) ! j = records s ! j"
    using Cons.prems(1) by (metis C(1) distinct.simps(2) nth_list_update_neq)
  have IH: "mset (live_of (records (commit_one i s))) =
      mset (live_of (records (fold commit_one is (commit_one i s))))
        + mset (map (\<lambda>j. the (records (commit_one i s) ! j)) is)
    \<and> nones (records (fold commit_one is (commit_one i s))) = nones (records (commit_one i s)) + length is
    \<and> stream (fold commit_one is (commit_one i s)) = stream (commit_one i s)
    \<and> flushed (fold commit_one is (commit_one i s)) = flushed (commit_one i s)
    \<and> nilMaps (fold commit_one is (commit_one i s)) = nilMaps (commit_one i s)
    \<and> indexes_ok (fold commit_one is (commit_one i s))
    \<and> length (records (fold commit_one is (commit_one i s))) = length (records (commit_one i s))"
    by (rule Cons.IH) (use Cons.prems rest C in auto)
  have m: "map (\<lambda>j. the (records (commit_one i s) ! j)) is = map (\<lambda>j. the (records s ! j)) is"
    using rest by simp
  show ?case
    using IH live_of_remove[OF r] nones_remove[OF r] C r(2) unfolding m by simp
qed simp

subsection \<open>The invariant of the ledger\<close>

definition pending_positions :: "phase \<Rightarrow> nat list" where
  "pending_positions ph = (case ph of Idle \<Rightarrow> [] | Collected batch \<Rightarrow> map fst batch | Written is \<Rightarrow> is)"

definition csv_rows :: "report_store \<Rightarrow> string list list" where
  "csv_rows s = (case stream s of None \<Rightarrow> [] | Some w \<Rightarrow> if wroteHeader w then tl (csv_lines w) else csv_lines w)"

definition csv_shape :: "report_store \<Rightarrow> bool" where
  "csv_shape s \<longleftrightarrow> (\<exists>w. stream s = Some w \<and>
     (if wroteHeader w then csv_lines w \<noteq> [] \<and> hd (csv_lines w) = CSVHeader else csv_lines w = []))"

text \<open>Rows already written but not yet committed.\<close>

definition in_flight :: "ledger \<Rightarrow> string list list" where
  "in_flight l = (case lphase l of Written is \<Rightarrow> map (\<lambda>i. ident (the (records (lstore l) ! i))) is | _ \<Rightarrow> [])"

definition ledger_inv :: "ledger \<Rightarrow> bool" where
  "ledger_inv l \<longleftrightarrow>
     indexes_ok (lstore l) \<and> \<not> nilMaps (lstore l) \<and> csv_shape (lstore l)
     \<and> distinct (pending_positions (lphase l))
     \<and> (\<forall>i \<in> set (pending_positions (lphase l)). i < length (records (lstore l)) \<and> records (lstore l) ! i \<noteq> None)
     \<and> (\<forall>batch. lphase l = Collected batch \<longrightarrow>
          (\<forall>(i, r) \<in> set batch. ident r = ident (the (records (lstore l) ! i))))
     \<and> mset (map (take 4) (csv_rows (lstore l))) + mset (map ident (live_of (records (lstore l)))) =
         mset (map ident (added l)) + mset (in_flight l)
     \<and> flushed (lstore l) = i64 (int (nones (records (lstore l))))"

lemma in_place_nth:
  assumes "map (map_option ident) rs' = map (map_option ident) rs" "i < length rs"
  shows "map_option ident (rs' ! i) = map_option ident (rs ! i)"
  using assms by (metis length_map nth_map)

lemma in_place_live:
  assumes "map (map_option ident) rs' = map (map_option ident) rs"
  shows "map ident (live_of rs') = map ident (live_of rs)" "nones rs' = nones rs" "length rs' = length rs"
proof -
  have "live_of (map (map_option ident) rs) = map ident (live_of rs)" for rs
  proof (induction rs)
    case (Cons x rs) then show ?case by (cases x) simp_all
  qed simp
  then show "map ident (live_of rs') = map ident (live_of rs)" using assms by metis
  have "nones (map (map_option ident) rs) = nones rs" for rs
    unfolding nones_def by (induction rs) auto
  then show "nones rs' = nones rs" using assms by metis
  show "length rs' = length rs" using assms by (metis length_map)
qed

lemma in_place_inv:
  assumes "ledger_inv l" "in_place (lstore l) s" "indexes_ok s"
  shows "ledger_inv (l\<lparr>lstore := s\<rparr>)"
proof -
  have m: "map (map_option ident) (records s) = map (map_option ident) (records (lstore l))"
    and st: "stream s = stream (lstore l)" "flushed s = flushed (lstore l)" "nilMaps s = nilMaps (lstore l)"
    using assms(2) by (simp_all add: in_place_def)
  note L = in_place_live[OF m]
  have nth: "map_option ident (records s ! i) = map_option ident (records (lstore l) ! i)"
    if "i < length (records (lstore l))" for i by (rule in_place_nth[OF m that])
  have the: "ident (the (records s ! i)) = ident (the (records (lstore l) ! i))" "records s ! i \<noteq> None"
    if "i \<in> set (pending_positions (lphase l))" for i
  proof -
    have i: "i < length (records (lstore l))" "records (lstore l) ! i \<noteq> None"
      using assms(1) that by (auto simp: ledger_inv_def)
    show "records s ! i \<noteq> None" using nth[OF i(1)] i(2) by (metis option.map_disc_iff)
    with nth[OF i(1)] i(2) show "ident (the (records s ! i)) = ident (the (records (lstore l) ! i))" by auto
  qed
  have fl: "in_flight (l\<lparr>lstore := s\<rparr>) = in_flight l"
    using the(1) by (auto simp: in_flight_def pending_positions_def split: phase.split)
  have coll: "\<forall>batch. lphase l = Collected batch \<longrightarrow> (\<forall>(i, r) \<in> set batch. ident r = ident (the (records s ! i)))"
    using assms(1) the(1) by (fastforce simp: ledger_inv_def pending_positions_def)
  show ?thesis
    using assms(1) the(2) coll
    by (auto simp: ledger_inv_def fl L csv_rows_def csv_shape_def st assms(3))
qed

lemma AddUpload_shape:
  assumes "AddUpload s r = Some s'"
  shows "records s' = records s @ [Some r]" "stream s' = stream s" "flushed s' = flushed s"
    "nilMaps s' = nilMaps s" "indexes_ok s \<Longrightarrow> indexes_ok s'"
  using assms
  by (auto simp: AddUpload_def Let_def indexes_ok_def less_SucI split: if_splits option.splits)

lemma nones_append [simp]: "nones (rs @ [Some r]) = nones rs"
  by (simp add: nones_def)

lemma add_inv:
  assumes "ledger_inv l" "AddUpload (lstore l) r = Some s"
  shows "ledger_inv (l\<lparr>lstore := s, added := added l @ [r]\<rparr>)"
proof -
  note A = AddUpload_shape[OF assms(2)]
  have nth: "records s ! i = records (lstore l) ! i" if "i \<in> set (pending_positions (lphase l))" for i
    using assms(1) that by (auto simp: ledger_inv_def A nth_append)
  have fl: "in_flight (l\<lparr>lstore := s, added := added l @ [r]\<rparr>) = in_flight l"
    using nth by (auto simp: in_flight_def pending_positions_def split: phase.split)
  have coll: "\<forall>batch. lphase l = Collected batch \<longrightarrow> (\<forall>(i, r) \<in> set batch. ident r = ident (the (records s ! i)))"
    using assms(1) nth by (fastforce simp: ledger_inv_def pending_positions_def)
  have pos: "\<forall>i \<in> set (pending_positions (lphase l)). i < length (records s) \<and> records s ! i \<noteq> None"
    using assms(1) nth by (auto simp: ledger_inv_def A)
  show ?thesis
    using assms(1) coll pos by (simp add: ledger_inv_def fl csv_rows_def csv_shape_def A)
qed

lemma collect_inv:
  assumes "ledger_inv l" "lphase l = Idle" "flush_collect (isRecordFinal c now) (lstore l) = (s, batch)"
  shows "ledger_inv (l\<lparr>lstore := s, lphase := (if batch = [] then Idle else Collected batch)\<rparr>)"
proof -
  note C = collect_in_place[OF assms(3)]
  have ok: "indexes_ok (lstore l)" using assms(1) by (simp add: ledger_inv_def)
  have inv: "ledger_inv (l\<lparr>lstore := s\<rparr>)" by (rule in_place_inv[OF assms(1) C(1) C(2)[OF ok]])
  show ?thesis
  proof (cases "batch = []")
    case True
    with inv assms(2) show ?thesis by (cases l) simp
  next
    case False
    then show ?thesis
      using inv assms(2) C(3,4) by (auto simp: ledger_inv_def in_flight_def pending_positions_def)
  qed
qed

lemma write_rows:
  assumes "csv_shape s" "batch \<noteq> []" "flush_write rfc slow eff None s batch = (s', ok)"
  shows "csv_shape s'" "csv_rows s' = csv_rows s @ map (buildRow rfc slow eff) (map snd batch)"
    "records s' = records s" "flushed s' = flushed s" "nilMaps s' = nilMaps s"
    "indexes_ok s \<Longrightarrow> indexes_ok s'"
  using assms
  by (auto simp: flush_write_def WriteRowsBatch_def csv_shape_def csv_rows_def indexes_ok_def Let_def
      split: option.splits if_splits)

lemma write_inv:
  assumes "ledger_inv l" "lphase l = Collected batch"
  shows "ledger_inv (l\<lparr>lstore := fst (flush_write rfc slow eff None (lstore l) batch), lphase := Written (map fst batch)\<rparr>)"
proof (cases "batch = []")
  case True
  have "flush_write rfc slow eff None (lstore l) [] = (lstore l, True)"
    by (simp add: flush_write_def WriteRowsBatch_def split: option.split)
  then show ?thesis
    using assms True by (auto simp: ledger_inv_def in_flight_def pending_positions_def)
next
  case False
  obtain s ok where w: "flush_write rfc slow eff None (lstore l) batch = (s, ok)" by fastforce
  have inv: "csv_shape (lstore l)" "\<forall>(i, r) \<in> set batch. ident r = ident (the (records (lstore l) ! i))"
    using assms by (simp_all add: ledger_inv_def)
  note W = write_rows[OF inv(1) False w]
  let ?l = "l\<lparr>lstore := s, lphase := Written (map fst batch)\<rparr>"
  have "map (take 4) (map (buildRow rfc slow eff) (map snd batch)) = in_flight ?l"
    using inv(2) by (auto simp: row_ident in_flight_def W)
  then have "mset (map (take 4) (csv_rows s)) = mset (map (take 4) (csv_rows (lstore l))) + mset (in_flight ?l)"
    by (simp only: W(2) map_append mset_append)
  moreover have "mset (in_flight l) = {#}" using assms(2) by (simp add: in_flight_def)
  ultimately have m: "mset (map (take 4) (csv_rows (lstore ?l))) + mset (map ident (live_of (records (lstore ?l)))) =
      mset (map ident (added ?l)) + mset (in_flight ?l)"
    using assms(1) W(3) by (simp add: ledger_inv_def)
  have "pending_positions (lphase ?l) = pending_positions (lphase l)"
    using assms(2) by (simp add: pending_positions_def)
  then have "ledger_inv ?l"
    unfolding ledger_inv_def using assms W m by (simp add: ledger_inv_def)
  then show ?thesis by (simp add: w)
qed

lemma commit_inv:
  assumes "ledger_inv l" "lphase l = Written is"
  shows "ledger_inv (l\<lparr>lstore := flush_commit is (lstore l), lphase := Idle\<rparr>)"
proof -
  let ?s = "lstore l" and ?s' = "fold commit_one is (lstore l)"
  have inv: "distinct is" "\<forall>i \<in> set is. i < length (records ?s) \<and> records ?s ! i \<noteq> None" "indexes_ok ?s"
    "mset (map (take 4) (csv_rows ?s)) + mset (map ident (live_of (records ?s))) =
       mset (map ident (added l)) + mset (map (\<lambda>i. ident (the (records ?s ! i))) is)"
    using assms by (simp_all add: ledger_inv_def in_flight_def pending_positions_def)
  note C = commit_all[OF inv(1-3)]
  have "mset (map ident (live_of (records ?s))) =
    mset (map ident (live_of (records ?s'))) + mset (map (\<lambda>i. ident (the (records ?s ! i))) is)"
    using arg_cong[OF conjunct1[OF C], of "image_mset ident"] by (simp add: o_def image_mset.compositionality)
  with inv(4) have "mset (map (take 4) (csv_rows ?s)) + mset (map ident (live_of (records ?s'))) = mset (map ident (added l))"
    by simp
  moreover define t where "t = flush_commit is ?s"
  have t: "records t = records ?s'" "stream t = stream ?s" "nilMaps t = nilMaps ?s"
    "flushed t = i64 (flushed ?s + int (length is))" "indexes_ok t = indexes_ok ?s'"
    using C by (simp_all add: t_def flush_commit_def Let_def indexes_ok_def)
  have u: "csv_rows t = csv_rows ?s" "csv_shape t = csv_shape ?s"
    by (simp_all add: csv_rows_def csv_shape_def t)
  have "flushed t = i64 (int (nones (records t)))"
    using assms(1) C by (simp add: ledger_inv_def t)
  ultimately have "ledger_inv (l\<lparr>lstore := t, lphase := Idle\<rparr>)"
    using assms(1) C by (simp add: ledger_inv_def in_flight_def pending_positions_def t(1,3,5) u)
  then show ?thesis by (simp add: t_def)
qed

lemma ledger_step_inv: "ledger_inv l \<Longrightarrow> ledger_inv (ledger_step c rfc slow eff l ev)"
proof -
  assume inv: "ledger_inv l"
  then have ok: "indexes_ok (lstore l)" by (simp add: ledger_inv_def)
  show ?thesis
  proof (cases ev)
    case (OAdd r)
    with inv show ?thesis by (auto intro: add_inv split: option.split)
  next
    case (OCollect now)
    obtain s batch where b: "flush_collect (isRecordFinal c now) (lstore l) = (s, batch)" by fastforce
    show ?thesis
    proof (cases "lphase l = Idle")
      case True
      with collect_inv[OF inv True b] show ?thesis by (simp add: OCollect b)
    qed (use inv OCollect in \<open>auto split: phase.split\<close>)
  next
    case OWrite
    with inv show ?thesis by (auto intro: write_inv split: phase.split)
  next
    case OCommit
    with inv show ?thesis by (auto intro: commit_inv split: phase.split)
  qed (use inv ok in \<open>auto intro!: in_place_inv attach_at_in_place track_in_place stamp_in_place
      simp: AttachDownloadByBasename_def AttachDownloadByFilenameID_def AttachDownload_def\<close>)
qed

interpretation ledger: component "ledger_step c rfc slow eff" ledger_inv for c rfc slow eff
  by unfold_locales (rule ledger_step_inv)

lemma ledger_start_inv: "ledger_inv ledger_start"
  by (simp add: ledger_inv_def ledger_start_def SetStream_def NewStore_def indexes_ok_def csv_shape_def
      csv_rows_def in_flight_def pending_positions_def nones_def i64_def)

text \<open>C1: Whatever the order in which uploads are added, track ids and downloads are attached and
  the flusher collects, writes and commits, as long as no write fails: between two flushes
  every upload of the run is either still live in memory or has exactly one row in the CSV,
  no row is there twice and none belongs to no upload, the header is the first line and is
  written once, and the flush counter is the number of rows.\<close>
theorem rows_exactly_once:
  assumes "l = foldl (ledger_step c rfc slow eff) ledger_start ops" "lphase l = Idle"
    and "length (records (lstore l)) < 2 ^ 63"
  shows "mset (map (take 4) (csv_rows (lstore l))) + mset (map ident (live_records (lstore l))) =
      mset (map ident (added l))
    \<and> csv_shape (lstore l) \<and> flushed (lstore l) = int (nones (records (lstore l)))"
proof -
  have inv: "ledger_inv l" unfolding assms(1) by (rule ledger.run_inv[OF ledger_start_inv])
  have "nones (records (lstore l)) \<le> length (records (lstore l))" by (simp add: nones_def)
  then have "in_i64 (int (nones (records (lstore l))))" using assms(3) by (simp add: in_i64_def)
  with inv assms(2) show ?thesis
    by (simp add: ledger_inv_def in_flight_def live_records_live_of)
qed

definition demo_record :: "string \<Rightarrow> string \<Rightarrow> file_record" where
  "demo_record name code =
     \<lparr>f_user = ''u'', f_kind = ''normal'', f_name = name, f_start = Some 0, f_end = Some 0,
      f_size = 0, f_expected = 0, f_incomplete = False, f_speed = 0, f_trackid = [],
      f_trackid_at = None, f_trackid_wait = 0, f_slow = False, f_error = [], f_code = code,
      f_marker = [], f_dl_user = [], f_dl_avail = None, f_dl_start = None, f_dl_end = None,
      f_dl_size = 0, f_dl_speed = 0, f_dl_wait = 0, f_dl_error = [], f_up_sha = ''aa'', f_dl_sha = [],
      f_match = False\<rparr>"

definition demo_download :: download_result where
  "demo_download = \<lparr>d_user = ''dl'', d_start = Some 3, d_end = Some 3, d_size = 0,
     d_speed = 0, d_avail = Some 3, d_error = [], d_sha = ''aa''\<rparr>"

definition demo_report_config :: run_config where
  "demo_report_config =
     \<lparr>host = ''h'', port = 22, upload_folder = ''/in'', parallel_streams = 1, duration_hours = 1,
      normal = None, large_file = None,
      download = Some \<lparr>dl_folder = ''/out'', dl_streams = 1, match_mode = [], dl_sink = None\<rparr>,
      normal_users = [], large_users = [], download_users = [], poll_interval = 3000000000,
      trackid_timeout = 300000000000, max_failures = 0, speed_floor_percent = 0,
      speed_floor_warmup = 0, speed_floor_breach = 0, verify_hashes = True\<rparr>"

definition demo_ops :: "report_op list" where
  "demo_ops =
     [OAdd (demo_record ''a'' ''WRITE''), OAdd (demo_record ''b'' []), OCollect 5000000000,
      OAdd (demo_record ''c'' []), OTrack ''u'' ''b'' ''id1'' (Some 0) False, OWrite,
      ODlName ''b'' demo_download, OCommit, OCollect 6000000000, OWrite, OCommit]"

theorem rows_exactly_once_witness:
  "let l = foldl (ledger_step demo_report_config (\<lambda>t. []) (\<lambda>m. False) None) ledger_start demo_ops
   in mset (map (take 4) (csv_rows (lstore l))) + mset (map ident (live_records (lstore l))) = mset (map ident (added l))
      \<and> map (\<lambda>r. r ! 2) (csv_rows (lstore l)) = [''a'', ''b''] \<and> map f_name (live_records (lstore l)) = [''c'']"
proof -
  let ?l = "foldl (ledger_step demo_report_config (\<lambda>t. []) (\<lambda>m. False) None) ledger_start demo_ops"
  have "let l = ?l in (case lphase l of Idle \<Rightarrow> True | _ \<Rightarrow> False) \<and> length (records (lstore l)) = 3
      \<and> map (\<lambda>r. r ! 2) (csv_rows (lstore l)) = [''a'', ''b''] \<and> map f_name (live_records (lstore l)) = [''c'']"
    by code_simp
  then have e: "(case lphase ?l of Idle \<Rightarrow> True | _ \<Rightarrow> False)"
    and n: "length (records (lstore ?l)) = 3"
    and r: "map (\<lambda>r. r ! 2) (csv_rows (lstore ?l)) = [''a'', ''b'']" "map f_name (live_records (lstore ?l)) = [''c'']"
    unfolding Let_def by blast+
  from e have p': "lphase ?l = Idle" by (cases "lphase ?l") simp_all
  show ?thesis unfolding Let_def using rows_exactly_once[OF refl p'] n r by simp
qed

section \<open>Attribution of downloads\<close>

lemma attach_record_hash:
  "f_match (fst (attach_record d r)) \<longleftrightarrow>
     (if d_sha d \<noteq> [] \<and> f_up_sha r \<noteq> [] then f_up_sha r = d_sha d else f_match r)"
  "f_dl_error (fst (attach_record d r)) =
     (if d_error d = [] \<and> d_sha d \<noteq> [] \<and> f_up_sha r \<noteq> [] \<and> f_up_sha r \<noteq> d_sha d
      then ''HASH_MISMATCH'' else d_error d)"
  "snd (attach_record d r) =
     (if d_sha d \<noteq> [] \<and> f_up_sha r \<noteq> [] then if f_up_sha r = d_sha d then (1, 0) else (0, 1) else (0, 0))"
  by (simp_all add: attach_record_def Let_def)



text \<open>The window of a flush: a download attached after the flusher has collected a record and
  before it commits is acknowledged, but the row on disk is the record without the download
  and the record is gone, so the download never reaches the report.\<close>
theorem attach_during_flush_lost:
  assumes "flush_collect fin s = (s1, batch)" "(k, r) \<in> set batch" "csv_shape s1"
    and "records s1 ! k = Some r" "byBasename s1 name = Some k" "k < length (records s1)"
    and "AttachDownloadByBasename s1 name d = (s2, ok)"
    and "flush_write rfc slow eff None s2 batch = (s3, wrote)"
  shows "ok \<and> csv_rows s3 = csv_rows s1 @ map (buildRow rfc slow eff) (map snd batch)
    \<and> buildRow rfc slow eff r \<in> set (csv_rows s3)
    \<and> records (flush_commit [k] s3) ! k = None"
proof -
  have l: "live_at s1 (byBasename s1 name) = Some (k, r)" using assms(4,5) by (simp add: live_at_def)
  have ok: "ok" and s2: "records s2 = (records s1)[k := Some (fst (attach_record d r))]" "stream s2 = stream s1"
    using assms(7) by (auto simp: AttachDownloadByBasename_def attach_at_def l set_record_def split_beta Let_def)
  have ne: "batch \<noteq> []" using assms(2) by auto
  have sh: "csv_shape s2" using assms(3) s2 by (simp add: csv_shape_def)
  note W = write_rows[OF sh ne assms(8)]
  have rows: "csv_rows s3 = csv_rows s1 @ map (buildRow rfc slow eff) (map snd batch)"
    using W(2) s2 by (simp add: csv_rows_def)
  have "records s3 ! k = Some (fst (attach_record d r))" using W(3) s2 assms(6) by simp
  from commit_one_live(1)[OF this] have "records (flush_commit [k] s3) ! k = None"
    using W(3) s2 assms(6) by (simp add: flush_commit_def Let_def)
  moreover have "buildRow rfc slow eff r \<in> set (csv_rows s3)" unfolding rows using assms(2) by force
  ultimately show ?thesis using ok rows by simp
qed

definition demo_failed :: file_record where
  "demo_failed = (demo_record ''b'' [])\<lparr>f_trackid := ''id'', f_trackid_at := Some 0\<rparr>"

definition demo_flush_store :: report_store where
  "demo_flush_store =
     NewStore\<lparr>records := [Some demo_failed], byBasename := [''b'' \<mapsto> 0],
       stream := Some \<lparr>wroteHeader = False, csv_lines = []\<rparr>\<rparr>"

theorem attach_during_flush_lost_witness:
  "let (s1, batch) = flush_collect (isRecordFinal demo_report_config 900000000000) demo_flush_store;
       (s2, ok) = AttachDownloadByBasename s1 ''b'' demo_download;
       s3 = fst (flush_write (\<lambda>t. []) (\<lambda>m. False) None None s2 batch)
   in ok \<and> records (flush_commit [0] s3) ! 0 = None \<and> map (\<lambda>r. r ! 19) (csv_rows s3) = [[]]"
proof -
  let ?fin = "isRecordFinal demo_report_config 900000000000"
  let ?r = "snd (?fin demo_failed)"
  have fin: "fst (?fin demo_failed)" by code_simp
  obtain s1 batch where c: "flush_collect ?fin demo_flush_store = (s1, batch)" by fastforce
  have b: "batch = [(0, ?r)]" and s1: "records s1 = [Some ?r]" "byBasename s1 ''b'' = Some 0" "csv_shape s1" "csv_rows s1 = []"
    using c fin by (auto simp: flush_collect_def demo_flush_store_def NewStore_def csv_shape_def csv_rows_def split_beta)
  obtain s2 ok where a: "AttachDownloadByBasename s1 ''b'' demo_download = (s2, ok)" by fastforce
  obtain s3 w where wr: "flush_write (\<lambda>t. []) (\<lambda>m. False) None None s2 batch = (s3, w)" by fastforce
  have row: "buildRow (\<lambda>t. []) (\<lambda>m. False) None ?r ! 19 = []" by code_simp
  show ?thesis
    using attach_during_flush_lost[OF c _ s1(3) _ s1(2) _ a wr, of ?r] row
    by (simp add: c a wr[unfolded b] b s1 Let_def)
qed

end
