(* ===== verification/Metrics.thy ===== *)
theory Metrics
  imports ReportStore
begin

text \<open>
  The throughput engine (internal/metrics/metrics.go): totals, per-minute buckets, the
  slowdown detector with its moving baseline, and the snapshot; and the effective speed the
  runner derives from a snapshot. float64 values are rationals rounded by \<open>rnd64\<close>; the
  constants 0.30, 0.7 and 0.3 are their float64 values.
\<close>

section \<open>State\<close>

definition bucketSize :: int where "bucketSize = minute"
definition maxSlowdowns :: nat where "maxSlowdowns = 1000"
definition maxBuckets :: nat where "maxBuckets = 1440"

record bucket =
  b_files :: int
  b_bytes :: int
  b_dur :: int

record slowdown =
  sl_at :: int
  sl_files :: int
  sl_bytes :: int
  sl_window :: rat
  sl_baseline :: rat
  sl_drop :: rat

record engine =
  startAt :: int
  totalFiles :: int
  totalBytes :: int
  totalUploadD :: int
  buckets :: "int \<rightharpoonup> bucket"
  slowdowns :: "slowdown list"
  lastBaseline :: rat
  slowdownPct :: rat

definition New :: "int \<Rightarrow> rat \<Rightarrow> engine" where
  "New now pct =
     \<lparr>startAt = now, totalFiles = 0, totalBytes = 0, totalUploadD = 0, buckets = Map.empty,
      slowdowns = [], lastBaseline = 0, slowdownPct = (if pct \<le> 0 then rnd64 (3 / 10) else pct)\<rparr>"

definition bytesToMBps :: "int \<Rightarrow> int \<Rightarrow> rat" where
  "bytesToMBps b d = (if d \<le> 0 then 0 else rnd_signed (rnd_signed (rnd_signed (of_int b) / 1048576) / seconds d))"

section \<open>Recording\<close>

definition evalLastClosedBucketLocked :: "int \<Rightarrow> engine \<Rightarrow> engine" where
  "evalLastClosedBucketLocked currentKey e =
     (let prevKey = currentKey - 1 in
      case buckets e prevKey of
        None \<Rightarrow> e
      | Some pb \<Rightarrow>
          let mbps = bytesToMBps (b_bytes pb) bucketSize in
          if lastBaseline e = 0 then e\<lparr>lastBaseline := mbps\<rparr>
          else
            let e1 = (if mbps < rnd_signed (lastBaseline e * rnd_signed (1 - slowdownPct e)) then
                        let sl = \<lparr>sl_at = prevKey * 60 * second, sl_files = totalFiles e, sl_bytes = totalBytes e,
                                  sl_window = mbps, sl_baseline = lastBaseline e,
                                  sl_drop = rnd_signed (rnd_signed (lastBaseline e - mbps) / lastBaseline e)\<rparr>;
                            ss = slowdowns e @ [sl]
                        in e\<lparr>slowdowns := (if maxSlowdowns < length ss then drop (length ss - maxSlowdowns) ss else ss)\<rparr>
                      else e)
            in e1\<lparr>lastBaseline :=
                 rnd_signed (rnd_signed (rnd64 (7 / 10) * lastBaseline e1) + rnd_signed (rnd64 (3 / 10) * mbps))\<rparr>)"

definition prune_buckets :: "int \<Rightarrow> engine \<Rightarrow> engine" where
  "prune_buckets key e =
     (if maxBuckets < card (dom (buckets e))
      then e\<lparr>buckets := (\<lambda>k. if k < key - int maxBuckets then None else buckets e k)\<rparr>
      else e)"

definition add_to_bucket :: "int \<Rightarrow> int \<Rightarrow> bucket \<Rightarrow> bucket" where
  "add_to_bucket bytes dur b =
     \<lparr>b_files = i64 (b_files b + 1), b_bytes = i64 (b_bytes b + bytes), b_dur = i64 (b_dur b + dur)\<rparr>"

definition metrics_Record :: "engine \<Rightarrow> int \<Rightarrow> int \<Rightarrow> int \<Rightarrow> engine" where
  "metrics_Record e t bytes dur =
     (let key = minute_of t;
          e1 = e\<lparr>totalFiles := i64 (totalFiles e + 1), totalBytes := i64 (totalBytes e + bytes),
                 totalUploadD := i64 (totalUploadD e + dur)\<rparr>;
          e2 = (case buckets e1 key of
                  Some _ \<Rightarrow> e1
                | None \<Rightarrow>
                    prune_buckets key
                      (evalLastClosedBucketLocked key
                        (e1\<lparr>buckets := (buckets e1)(key \<mapsto> \<lparr>b_files = 0, b_bytes = 0, b_dur = 0\<rparr>)\<rparr>)))
      in case buckets e2 key of
           Some b \<Rightarrow> e2\<lparr>buckets := (buckets e2)(key \<mapsto> add_to_bucket bytes dur b)\<rparr>
         | None \<Rightarrow> e2)"

section \<open>Snapshots\<close>

record bucket_row =
  br_minute :: int
  br_files :: int
  br_bytes :: int
  br_mbps :: rat

record metrics_snapshot =
  s_totalFiles :: int
  s_totalBytes :: int
  s_overall :: rat
  s_window :: rat
  s_baseline :: rat
  s_slowdowns :: "slowdown list"
  s_perMinute :: "bucket_row list"

definition metrics_Snapshot :: "int list \<Rightarrow> int \<Rightarrow> engine \<Rightarrow> metrics_snapshot" where
  "metrics_Snapshot keys now e =
     (let rows = map (\<lambda>k. case buckets e k of
                     Some b \<Rightarrow> \<lparr>br_minute = k, br_files = b_files b, br_bytes = b_bytes b,
                                br_mbps = bytesToMBps (b_bytes b) bucketSize\<rparr>
                   | None \<Rightarrow> \<lparr>br_minute = k, br_files = 0, br_bytes = 0, br_mbps = 0\<rparr>) (sort keys)
      in \<lparr>s_totalFiles = totalFiles e, s_totalBytes = totalBytes e,
          s_overall = bytesToMBps (totalBytes e) (now - startAt e),
          s_window = (if rows = [] then 0 else br_mbps (last rows)),
          s_baseline = lastBaseline e, s_slowdowns = slowdowns e, s_perMinute = rows\<rparr>)"

text \<open>The runner's effective speed of a file (\<open>EffectiveSpeedMBps\<close>, \<open>SlowdownMinutes\<close>).\<close>

definition EffectiveSpeedMBps :: "metrics_snapshot \<Rightarrow> int \<Rightarrow> int option \<Rightarrow> int \<Rightarrow> rat" where
  "EffectiveSpeedMBps snap bytes start dur =
     (let raw = RawSpeedMBps bytes dur;
          overall = (if 0 < s_overall snap then s_overall snap else raw)
      in if IsReliablePerFileSpeed bytes dur then raw
         else case start of
             None \<Rightarrow> overall
           | Some t \<Rightarrow>
               (case find (\<lambda>b. br_minute b = minute_of t \<and> 0 < br_mbps b) (s_perMinute snap) of
                  Some b \<Rightarrow> br_mbps b
                | None \<Rightarrow> overall))"

definition SlowdownMinutes :: "metrics_snapshot \<Rightarrow> int \<Rightarrow> bool" where
  "SlowdownMinutes snap m \<longleftrightarrow> (\<exists>sl \<in> set (s_slowdowns snap). minute_of (sl_at sl) = m)"

section \<open>Totals, buckets and their bounds\<close>

definition record_all :: "engine \<Rightarrow> (int \<times> int \<times> int) list \<Rightarrow> engine" where
  "record_all e obs = foldl (\<lambda>e (t, bytes, dur). metrics_Record e t bytes dur) e obs"

lemma eval_frame [simp]:
  "buckets (evalLastClosedBucketLocked k e) = buckets e"
  "totalFiles (evalLastClosedBucketLocked k e) = totalFiles e"
  "totalBytes (evalLastClosedBucketLocked k e) = totalBytes e"
  "startAt (evalLastClosedBucketLocked k e) = startAt e"
  "slowdownPct (evalLastClosedBucketLocked k e) = slowdownPct e"
  by (simp_all add: evalLastClosedBucketLocked_def Let_def split: option.split)

lemma prune_frame [simp]:
  "totalFiles (prune_buckets k e) = totalFiles e" "totalBytes (prune_buckets k e) = totalBytes e"
  "slowdowns (prune_buckets k e) = slowdowns e" "lastBaseline (prune_buckets k e) = lastBaseline e"
  "slowdownPct (prune_buckets k e) = slowdownPct e"
  by (simp_all add: prune_buckets_def)

lemma eval_slowdowns:
  "length (slowdowns e) \<le> maxSlowdowns \<Longrightarrow> length (slowdowns (evalLastClosedBucketLocked k e)) \<le> maxSlowdowns"
  by (auto simp: evalLastClosedBucketLocked_def Let_def split: option.split)

lemma finite_prune: "finite (dom (buckets e)) \<Longrightarrow> finite (dom (buckets (prune_buckets k e)))"
  by (rule finite_subset[of _ "dom (buckets e)"]) (auto simp: prune_buckets_def split: if_splits)

lemma Record_fields:
  "totalFiles (metrics_Record e t bytes dur) = i64 (totalFiles e + 1)"
  "totalBytes (metrics_Record e t bytes dur) = i64 (totalBytes e + bytes)"
  "length (slowdowns e) \<le> maxSlowdowns \<Longrightarrow> length (slowdowns (metrics_Record e t bytes dur)) \<le> maxSlowdowns"
  by (auto simp: metrics_Record_def Let_def eval_slowdowns split: option.split)

lemma Record_dom:
  "dom (buckets (metrics_Record e t bytes dur)) \<subseteq> insert (minute_of t) (dom (buckets e))"
  by (auto simp: metrics_Record_def Let_def prune_buckets_def split: option.splits if_splits)

text \<open>The bucket of a minute as the sum over the observations that fall in it.\<close>

definition bucket_of :: "(int \<times> int \<times> int) list \<Rightarrow> int \<Rightarrow> bucket option" where
  "bucket_of obs k =
     (let os = filter (\<lambda>(t, bytes, dur). minute_of t = k) obs in
      if os = [] then None
      else Some \<lparr>b_files = i64 (int (length os)), b_bytes = i64 (\<Sum>(t, bytes, dur)\<leftarrow>os. bytes),
                 b_dur = i64 (\<Sum>(t, bytes, dur)\<leftarrow>os. dur)\<rparr>)"

lemma Record_buckets:
  assumes "\<forall>k \<in> dom (buckets e). minute_of t - int maxBuckets \<le> k"
  shows "buckets (metrics_Record e t bytes dur) = (buckets e)(minute_of t \<mapsto>
    add_to_bucket bytes dur (case buckets e (minute_of t) of Some b \<Rightarrow> b | None \<Rightarrow> \<lparr>b_files = 0, b_bytes = 0, b_dur = 0\<rparr>))"
proof -
  have p: "buckets (prune_buckets (minute_of t) x) = buckets x"
    if "buckets x = (buckets e)(minute_of t \<mapsto> b)" for x b
  proof -
    have "buckets x k = None" if "k < minute_of t - int maxBuckets" for k
    proof -
      have "k \<noteq> minute_of t" using that by simp
      moreover have "k \<notin> dom (buckets e)" using assms that by force
      ultimately show ?thesis using \<open>buckets x = (buckets e)(minute_of t \<mapsto> b)\<close> by auto
    qed
    then show ?thesis by (auto simp: prune_buckets_def fun_eq_iff)
  qed
  show ?thesis
    by (simp add: metrics_Record_def Let_def p split: option.split)
qed

lemma bucket_of_snoc:
  "bucket_of (obs @ [(t, bytes, dur)]) k =
     (if k = minute_of t
      then Some (add_to_bucket bytes dur (case bucket_of obs k of Some b \<Rightarrow> b | None \<Rightarrow> \<lparr>b_files = 0, b_bytes = 0, b_dur = 0\<rparr>))
      else bucket_of obs k)"
  by (auto simp: bucket_of_def add_to_bucket_def Let_def add.commute)

definition obs_minutes :: "(int \<times> int \<times> int) list \<Rightarrow> int set" where
  "obs_minutes obs = minute_of ` fst ` set obs"

text \<open>For the uploads of any day, recorded in any order, the totals are the number of uploads
  and the sum of their bytes, and the bucket of each minute holds exactly the uploads that
  ended in that minute: their count, their bytes and their durations. Nothing is counted in
  two minutes and the pruning of old buckets never touches the window.\<close>
theorem buckets_exact:
  assumes "\<forall>m \<in> obs_minutes obs. \<forall>m' \<in> obs_minutes obs. m - m' \<le> int maxBuckets"
  shows "buckets (record_all (New now pct) obs) = bucket_of obs
    \<and> totalFiles (record_all (New now pct) obs) = i64 (int (length obs))
    \<and> totalBytes (record_all (New now pct) obs) = i64 (\<Sum>(t, b, d)\<leftarrow>obs. b)"
  using assms
proof (induction obs rule: rev_induct)
  case Nil
  show ?case by (simp add: record_all_def New_def bucket_of_def fun_eq_iff i64_def)
next
  case (snoc o1 obs)
  obtain t bytes dur where o1: "o1 = (t, bytes, dur)" by (cases o1)
  let ?e = "record_all (New now pct) obs"
  have IH: "buckets ?e = bucket_of obs" "totalFiles ?e = i64 (int (length obs))"
    "totalBytes ?e = i64 (\<Sum>(t, b, d)\<leftarrow>obs. b)"
    using snoc by (simp_all add: obs_minutes_def)
  have step: "record_all (New now pct) (obs @ [o1]) = metrics_Record ?e t bytes dur"
    by (simp add: record_all_def o1)
  have "\<forall>k \<in> dom (buckets ?e). minute_of t - int maxBuckets \<le> k"
  proof
    fix k assume "k \<in> dom (buckets ?e)"
    then have "filter (\<lambda>(t, bytes, dur). minute_of t = k) obs \<noteq> []"
      by (auto simp: IH bucket_of_def Let_def split: if_splits)
    then have "k \<in> obs_minutes obs" by (force simp: filter_empty_conv obs_minutes_def)
    with snoc.prems o1 show "minute_of t - int maxBuckets \<le> k" by (fastforce simp: obs_minutes_def)
  qed
  note B = Record_buckets[OF this, of bytes dur]
  show ?case
    unfolding step B
    by (auto simp: IH Record_fields bucket_of_snoc o1 fun_eq_iff add.commute)
qed

theorem buckets_exact_witness:
  "map_option b_bytes (buckets (record_all (New 0 0) [(0, 5, 1), (60000000000, 7, 1), (59999999999, 9, 1)]) 0) = Some 14"
proof -
  have "buckets (record_all (New 0 0) [(0, 5, 1), (60000000000, 7, 1), (59999999999, 9, 1)])
    = bucket_of [(0, 5, 1), (60000000000, 7, 1), (59999999999, 9, 1)]"
    using buckets_exact[of "[(0, 5, 1), (60000000000, 7, 1), (59999999999, 9, 1)]" 0 0]
    by (simp add: obs_minutes_def minute_of_def second_def maxBuckets_def)
  then show ?thesis
    by (simp add: bucket_of_def minute_of_def second_def in_i64_def)
qed

section \<open>The slowdown detector\<close>

definition slow_entry :: "rat \<Rightarrow> slowdown \<Rightarrow> bool" where
  "slow_entry pct sl \<longleftrightarrow> sl_baseline sl \<noteq> 0 \<and> sl_window sl < rnd_signed (sl_baseline sl * rnd_signed (1 - pct))"

definition slow_inv :: "engine \<Rightarrow> bool" where
  "slow_inv e \<longleftrightarrow> length (slowdowns e) \<le> maxSlowdowns \<and> list_all (slow_entry (slowdownPct e)) (slowdowns e)"

lemma list_all_drop: "list_all P xs \<Longrightarrow> list_all P (drop n xs)"
  by (meson in_set_dropD list_all_iff)

lemma eval_slow_inv: "slow_inv e \<Longrightarrow> slow_inv (evalLastClosedBucketLocked k e)"
  by (auto simp: slow_inv_def evalLastClosedBucketLocked_def Let_def slow_entry_def
      split: option.split intro!: list_all_drop)

lemma Record_slow_inv: "slow_inv e \<Longrightarrow> slow_inv (metrics_Record e t bytes dur)"
proof -
  assume inv: "slow_inv e"
  let ?e1 = "e\<lparr>totalFiles := i64 (totalFiles e + 1), totalBytes := i64 (totalBytes e + bytes),
    totalUploadD := i64 (totalUploadD e + dur)\<rparr>"
  have "slow_inv (evalLastClosedBucketLocked k (?e1\<lparr>buckets := m\<rparr>))" for k m
    by (rule eval_slow_inv) (use inv in \<open>simp add: slow_inv_def\<close>)
  then have "slow_inv (prune_buckets k (evalLastClosedBucketLocked k (?e1\<lparr>buckets := m\<rparr>)))" for k m
    by (simp add: slow_inv_def)
  with inv show ?thesis
    by (simp add: metrics_Record_def Let_def slow_inv_def split: option.split)
qed

interpretation metrics: component "\<lambda>e (t, bytes, dur). metrics_Record e t bytes dur" slow_inv
  by unfold_locales (auto intro: Record_slow_inv)

text \<open>After any history of uploads the slowdown list never exceeds its cap, and every entry
  compares a completed minute against a nonzero baseline it really fell short of by the
  configured fraction.\<close>
theorem slowdowns_sound:
  "length (slowdowns (record_all (New now pct) obs)) \<le> maxSlowdowns
   \<and> list_all (slow_entry (slowdownPct (record_all (New now pct) obs))) (slowdowns (record_all (New now pct) obs))"
proof -
  have "slow_inv (record_all (New now pct) obs)"
    unfolding record_all_def by (rule metrics.run_inv) (simp add: slow_inv_def New_def)
  then show ?thesis by (simp add: slow_inv_def)
qed

end
