(* ===== verification/TrackWatcher.thy ===== *)
theory TrackWatcher
  imports GoStrings
begin

text \<open>
  The track-id watcher (internal/trackid/watcher.go): uploads registered as pending, the tick
  that expires them or finds their "name#id" form in a listing, the bounded results channel
  with its non-blocking send, and the cached connections. A tick is modelled with the instant
  it read, the order in which it visited the pending map and the users, and per user the
  outcome of the dial and of the listing. Two ghost lists record what was consumed from the
  channel and what a full channel dropped.
\<close>

section \<open>State\<close>

record wentry =
  w_user :: string
  w_base :: string
  w_uploaded :: int
  w_deadline :: int

record track_result =
  tr_user :: string
  tr_base :: string
  tr_id :: string
  tr_at :: int
  tr_timeout :: bool

record watcher =
  pending :: "string \<rightharpoonup> wentry"
  results :: "track_result list"
  clients :: "string set"
  consumed :: "track_result list"
  dropped :: "track_result list"

definition chan_cap :: nat where "chan_cap = 512"

definition wkey :: "string \<Rightarrow> string \<Rightarrow> string" where
  "wkey user basename = user @ ''|'' @ basename"

definition entry_wkey :: "wentry \<Rightarrow> string" where
  "entry_wkey e = wkey (w_user e) (w_base e)"

definition result_wkey :: "track_result \<Rightarrow> string" where
  "result_wkey r = wkey (tr_user r) (tr_base r)"

definition new_watcher :: watcher where
  "new_watcher = \<lparr>pending = Map.empty, results = [], clients = {}, consumed = [], dropped = []\<rparr>"

section \<open>Operations\<close>

definition Register :: "int \<Rightarrow> int \<Rightarrow> watcher \<Rightarrow> string \<Rightarrow> string \<Rightarrow> watcher" where
  "Register timeout now w user basename =
     w\<lparr>pending := (pending w)(wkey user basename \<mapsto>
         \<lparr>w_user = user, w_base = basename, w_uploaded = now, w_deadline = now + timeout\<rparr>)\<rparr>"

text \<open>The non-blocking send: a result that does not fit is lost.\<close>

definition send :: "track_result \<Rightarrow> watcher \<Rightarrow> watcher" where
  "send r w =
     (if length (results w) < chan_cap then w\<lparr>results := results w @ [r]\<rparr>
      else w\<lparr>dropped := dropped w @ [r]\<rparr>)"

definition expire_one :: "int \<Rightarrow> string \<Rightarrow> watcher \<Rightarrow> watcher" where
  "expire_one now k w =
     (case pending w k of
        None \<Rightarrow> w
      | Some e \<Rightarrow>
          if w_deadline e < now
          then send \<lparr>tr_user = w_user e, tr_base = w_base e, tr_id = [], tr_at = now, tr_timeout = True\<rparr>
                 (w\<lparr>pending := (pending w)(k := None)\<rparr>)
          else w)"

definition entries_of :: "string list \<Rightarrow> watcher \<Rightarrow> string \<Rightarrow> wentry list" where
  "entries_of ks w user = filter (\<lambda>e. w_user e = user) (map_vals ks (pending w))"

definition prefix_map :: "string list \<Rightarrow> (string \<rightharpoonup> string)" where
  "prefix_map infos =
     foldl (\<lambda>m fi. let name = path_base fi in
              case str_index name ''#'' of
                Some i \<Rightarrow> if 0 < i then m(take i name \<mapsto> drop (i + 1) name) else m
              | None \<Rightarrow> m) Map.empty infos"

definition resolve_one :: "int \<Rightarrow> (string \<rightharpoonup> string) \<Rightarrow> wentry \<Rightarrow> watcher \<Rightarrow> watcher" where
  "resolve_one now pm e w =
     (case pm (w_base e) of
        None \<Rightarrow> w
      | Some tid \<Rightarrow>
          send \<lparr>tr_user = w_user e, tr_base = w_base e, tr_id = tid, tr_at = now, tr_timeout = False\<rparr>
            (w\<lparr>pending := (pending w)(entry_wkey e := None)\<rparr>))"

datatype listing = OpenFails | ListFails | Listing "string list"

definition user_pass :: "int \<Rightarrow> string \<Rightarrow> wentry list \<Rightarrow> listing \<Rightarrow> watcher \<Rightarrow> watcher" where
  "user_pass now user es out w =
     (if user \<notin> clients w \<and> out = OpenFails then w
      else let w1 = w\<lparr>clients := insert user (clients w)\<rparr> in
        case out of
          Listing infos \<Rightarrow> fold (resolve_one now (prefix_map infos)) es w1
        | _ \<Rightarrow> w1\<lparr>clients := clients w1 - {user}\<rparr>)"

text \<open>A tick: \<open>ks\<close> is the order of the pending map, \<open>us\<close> that of the users with live entries, and
  \<open>env\<close> gives the outcome of each user's listing and the instant after it.\<close>

definition tick ::
  "int \<Rightarrow> string list \<Rightarrow> string list \<Rightarrow> (string \<Rightarrow> listing \<times> int) \<Rightarrow> watcher \<Rightarrow> watcher" where
  "tick now ks us env w =
     (let w1 = fold (expire_one now) ks w;
          groups = map (\<lambda>u. (u, entries_of ks w1 u)) us
      in fold (\<lambda>(u, es) w. case env u of (out, at') \<Rightarrow> user_pass at' u es out w) groups w1)"

definition consume :: "watcher \<Rightarrow> watcher" where
  "consume w = (case results w of [] \<Rightarrow> w
                | r # rs \<Rightarrow> w\<lparr>results := rs, consumed := consumed w @ [r]\<rparr>)"

definition closeAllClients :: "watcher \<Rightarrow> watcher" where
  "closeAllClients w = w\<lparr>clients := {}\<rparr>"

definition PendingCount :: "watcher \<Rightarrow> nat" where
  "PendingCount w = card (dom (pending w))"

section \<open>Every registered upload has exactly one fate\<close>

definition outcome_keys :: "watcher \<Rightarrow> string list" where
  "outcome_keys w = map result_wkey (consumed w @ results w @ dropped w)"

definition watch_inv :: "string set \<Rightarrow> watcher \<Rightarrow> bool" where
  "watch_inv regs w \<longleftrightarrow> keyed entry_wkey (pending w) \<and> distinct (outcome_keys w)
     \<and> set (outcome_keys w) \<inter> dom (pending w) = {} \<and> set (outcome_keys w) \<union> dom (pending w) = regs"

lemma send_pending [simp]: "pending (send r w) = pending w" "clients (send r w) = clients w"
  by (simp_all add: send_def)

lemma send_keys: "mset (outcome_keys (send r w)) = add_mset (result_wkey r) (mset (outcome_keys w))"
  by (simp add: send_def outcome_keys_def)

lemma outcome_pending [simp]: "outcome_keys (w\<lparr>pending := m\<rparr>) = outcome_keys w"
  "outcome_keys (w\<lparr>clients := c\<rparr>) = outcome_keys w"
  by (simp_all add: outcome_keys_def)

text \<open>Moving one pending key to the outcomes keeps the partition.\<close>

lemma settle_inv:
  assumes "watch_inv regs w" "pending w k = Some e" "result_wkey r = k"
  shows "watch_inv regs (send r (w\<lparr>pending := (pending w)(k := None)\<rparr>))"
proof -
  let ?w = "send r (w\<lparr>pending := (pending w)(k := None)\<rparr>)"
  have m: "mset (outcome_keys ?w) = add_mset k (mset (outcome_keys w))"
    by (simp add: send_keys assms(3))
  then have s: "set (outcome_keys ?w) = insert k (set (outcome_keys w))"
    by (metis set_mset_add_mset_insert set_mset_mset)
  have k: "k \<notin> set (outcome_keys w)" "k \<in> dom (pending w)"
    using assms(1,2) by (auto simp: watch_inv_def)
  have "distinct (outcome_keys ?w)"
    using mset_eq_imp_distinct_iff[of "outcome_keys ?w" "k # outcome_keys w"] m k(1) assms(1)
    by (simp add: watch_inv_def)
  with s k assms(1) show ?thesis by (auto simp: watch_inv_def)
qed

lemma expire_inv: "watch_inv regs w \<Longrightarrow> watch_inv regs (expire_one now k w)"
proof -
  assume inv: "watch_inv regs w"
  then have "entry_wkey e = k" if "pending w k = Some e" for e
    using that by (auto simp: watch_inv_def keyed_def)
  with inv show ?thesis
    by (auto simp: expire_one_def result_wkey_def entry_wkey_def intro: settle_inv split: option.split)
qed

lemma expire_all_inv: "watch_inv regs w \<Longrightarrow> watch_inv regs (fold (expire_one now) ks w)"
  by (induction ks arbitrary: w) (simp_all add: expire_inv)

lemma resolve_inv:
  assumes "watch_inv regs w" "entry_wkey e \<in> dom (pending w)"
  shows "watch_inv regs (resolve_one now pm e w)"
  using assms by (auto simp: resolve_one_def entry_wkey_def result_wkey_def intro!: settle_inv split: option.split)

lemma resolve_pending:
  "pending (resolve_one now pm e w) = (if pm (w_base e) = None then pending w else (pending w)(entry_wkey e := None))"
  by (simp add: resolve_one_def split: option.split)

lemma resolve_all:
  assumes "watch_inv regs w" "distinct (map entry_wkey es)" "entry_wkey ` set es \<subseteq> dom (pending w)"
  shows "watch_inv regs (fold (resolve_one now pm) es w)
    \<and> dom (pending w) - entry_wkey ` set es \<subseteq> dom (pending (fold (resolve_one now pm) es w))"
  using assms
proof (induction es arbitrary: w)
  case (Cons e es)
  let ?w = "resolve_one now pm e w"
  have inv: "watch_inv regs ?w" by (rule resolve_inv) (use Cons.prems in auto)
  have d: "dom (pending w) - {entry_wkey e} \<subseteq> dom (pending ?w)" by (auto simp: resolve_pending)
  have "entry_wkey ` set es \<subseteq> dom (pending w) - {entry_wkey e}"
    using Cons.prems(2,3) by (simp add: subset_Diff_insert)
  then have "entry_wkey ` set es \<subseteq> dom (pending ?w)" using d by (rule subset_trans)
  with Cons.IH[OF inv] Cons.prems(2)
  have IH: "watch_inv regs (fold (resolve_one now pm) es ?w)"
    "dom (pending ?w) - entry_wkey ` set es \<subseteq> dom (pending (fold (resolve_one now pm) es ?w))" by simp_all
  have "dom (pending w) - insert (entry_wkey e) (entry_wkey ` set es) \<subseteq> dom (pending (fold (resolve_one now pm) es ?w))"
    using IH(2) d by blast
  with IH(1) show ?case by simp
qed simp

lemma user_pass_inv:
  assumes "watch_inv regs w" "distinct (map entry_wkey es)" "entry_wkey ` set es \<subseteq> dom (pending w)"
  shows "watch_inv regs (user_pass now user es out w)
    \<and> dom (pending w) - entry_wkey ` set es \<subseteq> dom (pending (user_pass now user es out w))"
proof -
  have c: "watch_inv regs (w\<lparr>clients := x\<rparr>)" for x using assms(1) by (simp add: watch_inv_def)
  show ?thesis
    using c assms resolve_all[OF c, of es _ now] by (auto simp: user_pass_def Let_def split: listing.split)
qed

lemma entries_of_keys:
  assumes "keyed entry_wkey (pending w)" "distinct ks"
  shows "distinct (map entry_wkey (entries_of ks w u))" "entry_wkey ` set (entries_of ks w u) \<subseteq> dom (pending w)"
proof -
  have mem: "pending w (entry_wkey e) = Some e" if "e \<in> set (map_vals ks (pending w))" for e
    using that assms(1) by (auto simp: map_vals_def List.map_filter_def keyed_def)
  have d: "distinct (map_vals ks (pending w))" by (rule map_filter_inj_distinct[OF assms])
  have "inj_on entry_wkey (set (map_vals ks (pending w)))"
    by (rule inj_onI) (metis mem option.inject)
  then show "distinct (map entry_wkey (entries_of ks w u))"
    using d by (auto simp: entries_of_def distinct_map intro: inj_on_subset)
  show "entry_wkey ` set (entries_of ks w u) \<subseteq> dom (pending w)"
    using mem by (auto simp: entries_of_def)
qed

text \<open>The key of an entry determines its user within one pending map, so the groups of different
  users are disjoint.\<close>

lemma groups_disjoint:
  assumes "keyed entry_wkey (pending w)" "u \<noteq> u'"
  shows "entry_wkey ` set (entries_of ks w u) \<inter> entry_wkey ` set (entries_of ks w u') = {}"
proof -
  have mem: "pending w (entry_wkey e) = Some e" if "e \<in> set (map_vals ks (pending w))" for e
    using that assms(1) by (auto simp: map_vals_def List.map_filter_def keyed_def)
  have "w_user e = w_user e'" if "e \<in> set (map_vals ks (pending w))" "e' \<in> set (map_vals ks (pending w))"
    "entry_wkey e = entry_wkey e'" for e e'
    using mem[OF that(1)] mem[OF that(2)] unfolding that(3) by (metis option.inject)
  note same = this
  show ?thesis
  proof (rule equals0I)
    fix x
    assume "x \<in> entry_wkey ` set (entries_of ks w u) \<inter> entry_wkey ` set (entries_of ks w u')"
    then have x: "x \<in> entry_wkey ` set (entries_of ks w u)" "x \<in> entry_wkey ` set (entries_of ks w u')"
      by (rule IntD1, rule IntD2)
    from x(1) obtain e where e: "x = entry_wkey e" "e \<in> set (entries_of ks w u)" by (rule imageE)
    from x(2) obtain e' where e': "x = entry_wkey e'" "e' \<in> set (entries_of ks w u')" by (rule imageE)
    have "w_user e = u" "e \<in> set (map_vals ks (pending w))" using e(2) by (simp_all add: entries_of_def)
    moreover have "w_user e' = u'" "e' \<in> set (map_vals ks (pending w))" using e'(2) by (simp_all add: entries_of_def)
    moreover have "entry_wkey e = entry_wkey e'" using e(1) e'(1) by (rule subst)
    ultimately show False using same[of e e'] assms(2) by metis
  qed
qed

lemma users_inv:
  assumes "watch_inv regs w" "distinct us"
    and "\<forall>u \<in> set us. distinct (map entry_wkey (es u)) \<and> entry_wkey ` set (es u) \<subseteq> dom (pending w)"
    and "\<forall>u \<in> set us. \<forall>u' \<in> set us. u \<noteq> u' \<longrightarrow> entry_wkey ` set (es u) \<inter> entry_wkey ` set (es u') = {}"
  shows "watch_inv regs (fold (\<lambda>(u, e) w. case env u of (out, t) \<Rightarrow> user_pass t u e out w) (map (\<lambda>u. (u, es u)) us) w)"
  using assms
proof (induction us arbitrary: w)
  case (Cons u us)
  obtain out t where env: "env u = (out, t)" by (cases "env u")
  let ?w = "user_pass t u (es u) out w"
  have P: "watch_inv regs ?w" "dom (pending w) - entry_wkey ` set (es u) \<subseteq> dom (pending ?w)"
    using user_pass_inv[OF Cons.prems(1), of "es u"] Cons.prems(3) by auto
  have "\<forall>u' \<in> set us. distinct (map entry_wkey (es u')) \<and> entry_wkey ` set (es u') \<subseteq> dom (pending ?w)"
  proof
    fix u' assume u': "u' \<in> set us"
    then have "u' \<noteq> u" using Cons.prems(2) by auto
    then have "entry_wkey ` set (es u') \<inter> entry_wkey ` set (es u) = {}" "entry_wkey ` set (es u') \<subseteq> dom (pending w)"
      using Cons.prems(3,4) u' by simp_all
    then have "entry_wkey ` set (es u') \<subseteq> dom (pending ?w)" using P(2) by blast
    with u' Cons.prems(3) show "distinct (map entry_wkey (es u')) \<and> entry_wkey ` set (es u') \<subseteq> dom (pending ?w)"
      by simp
  qed
  with Cons.IH[OF P(1)] Cons.prems(2,4) show ?case by (simp add: env)
qed simp

lemma tick_inv:
  assumes "watch_inv regs w" "distinct ks" "distinct us"
  shows "watch_inv regs (tick now ks us env w)"
proof -
  let ?w = "fold (expire_one now) ks w"
  have inv: "watch_inv regs ?w" by (rule expire_all_inv[OF assms(1)])
  then have k: "keyed entry_wkey (pending ?w)" by (simp add: watch_inv_def)
  have "\<forall>u \<in> set us. distinct (map entry_wkey (entries_of ks ?w u)) \<and>
      entry_wkey ` set (entries_of ks ?w u) \<subseteq> dom (pending ?w)"
    using entries_of_keys[OF k assms(2)] by simp
  moreover have "\<forall>u \<in> set us. \<forall>u' \<in> set us. u \<noteq> u' \<longrightarrow>
      entry_wkey ` set (entries_of ks ?w u) \<inter> entry_wkey ` set (entries_of ks ?w u') = {}"
    using groups_disjoint[OF k] by simp
  ultimately show ?thesis
    unfolding tick_def Let_def by (rule users_inv[OF inv assms(3)])
qed

lemma consume_frame: "outcome_keys (consume w) = outcome_keys w" "pending (consume w) = pending w"
  by (simp_all add: consume_def outcome_keys_def split: list.split)

lemma consume_inv: "watch_inv regs w \<Longrightarrow> watch_inv regs (consume w)"
  by (simp add: watch_inv_def consume_frame)

lemma register_inv:
  assumes "watch_inv regs w" "wkey user b \<notin> regs"
  shows "watch_inv (insert (wkey user b) regs) (Register timeout now w user b)"
  using assms by (auto simp: Register_def watch_inv_def entry_wkey_def outcome_keys_def[of "w\<lparr>pending := _\<rparr>"] outcome_keys_def)

datatype watch_op =
  WRegister int string string
| WTick int "string list" "string list" "string \<Rightarrow> listing \<times> int"
| WConsume

fun watch_step :: "int \<Rightarrow> watcher \<Rightarrow> watch_op \<Rightarrow> watcher" where
  "watch_step timeout w (WRegister now user b) = Register timeout now w user b"
| "watch_step timeout w (WTick now ks us env) = tick now ks us env w"
| "watch_step timeout w WConsume = consume w"

definition registered :: "watch_op list \<Rightarrow> string list" where
  "registered ops = List.map_filter (\<lambda>ev. case ev of WRegister now user b \<Rightarrow> Some (wkey user b) | _ \<Rightarrow> None) ops"

definition proper_tick :: "watch_op \<Rightarrow> bool" where
  "proper_tick ev = (case ev of WTick now ks us env \<Rightarrow> distinct ks \<and> distinct us | _ \<Rightarrow> True)"

lemma registered_snoc:
  "registered (ops @ [ev]) = registered ops @ (case ev of WRegister now user b \<Rightarrow> [wkey user b] | _ \<Rightarrow> [])"
  by (cases ev) (simp_all add: registered_def List.map_filter_def)

lemma watch_run_inv:
  assumes "distinct (registered ops)" "list_all proper_tick ops"
  shows "watch_inv (set (registered ops)) (foldl (watch_step timeout) new_watcher ops)"
  using assms
proof (induction ops rule: rev_induct)
  case Nil
  show ?case by (simp add: watch_inv_def new_watcher_def outcome_keys_def registered_def)
next
  case (snoc ev ops)
  then have inv: "watch_inv (set (registered ops)) (foldl (watch_step timeout) new_watcher ops)"
    by (simp add: registered_snoc)
  show ?case
  proof (cases ev)
    case (WRegister now user b)
    with snoc.prems inv show ?thesis by (simp add: registered_snoc register_inv)
  next
    case (WTick now ks us env)
    with snoc.prems inv show ?thesis by (simp add: registered_snoc tick_inv proper_tick_def)
  next
    case WConsume
    with inv show ?thesis by (simp add: registered_snoc consume_inv)
  qed
qed


definition demo_watch :: "watch_op list" where
  "demo_watch =
     [WRegister 0 ''u'' ''a.csv'', WRegister 0 ''u'' ''b.csv'', WRegister 90 ''v'' ''c.csv'',
      WTick 50 [''u|b.csv'', ''u|a.csv'', ''v|c.csv''] [''u'', ''v'']
        (\<lambda>u. (if u = ''u'' then Listing [''/in/a.csv#77'', ''b.csv''] else OpenFails, 51)),
      WConsume, WTick 101 [''u|b.csv'', ''v|c.csv''] [''v''] (\<lambda>u. (ListFails, 102))]"


text \<open>Time-outs: every tick after a deadline settles the upload.\<close>

lemma expire_all_pending:
  "pending (fold (expire_one now) ks w) k =
     (case pending w k of
        None \<Rightarrow> None
      | Some e \<Rightarrow> if k \<in> set ks \<and> w_deadline e < now then None else Some e)"
proof (induction ks arbitrary: w)
  case (Cons k' ks)
  have "pending (expire_one now k' w) k =
    (case pending w k of None \<Rightarrow> None | Some e \<Rightarrow> if k = k' \<and> w_deadline e < now then None else Some e)"
    by (auto simp: expire_one_def split: option.split)
  with Cons show ?case by (auto split: option.split)
qed (simp split: option.split)

lemma user_pass_shrinks: "dom (pending (user_pass t u es out w)) \<subseteq> dom (pending w)"
proof -
  have "dom (pending (fold (resolve_one t pm) es v)) \<subseteq> dom (pending v)" for pm v
  proof (induction es arbitrary: v)
    case (Cons e es)
    have "dom (pending (resolve_one t pm e v)) \<subseteq> dom (pending v)" by (auto simp: resolve_pending)
    with Cons[of "resolve_one t pm e v"] show ?case by auto
  qed simp
  from this[of _ "w\<lparr>clients := insert u (clients w)\<rparr>"] show ?thesis
    by (auto simp: user_pass_def Let_def split: listing.split)
qed

text \<open>C16: A tick that runs after an upload's deadline settles it, so after one tick past the last
  deadline nothing is pending any more, whatever the connections and listings do: the run
  never waits for a track id beyond its time-out plus one poll.\<close>
theorem tick_settles:
  assumes "enumerates ks (pending w)" "\<forall>e \<in> ran (pending w). w_deadline e < now"
  shows "PendingCount (tick now ks us env w) = 0"
proof -
  let ?w = "fold (expire_one now) ks w"
  have empty: "pending ?w = Map.empty"
    using assms by (auto simp: expire_all_pending fun_eq_iff enumerates_def ran_def split: option.split)
  have "dom (pending (fold (\<lambda>(u, es) w. case env u of (out, t) \<Rightarrow> user_pass t u es out w) gs v)) \<subseteq> dom (pending v)" for gs v
  proof (induction gs arbitrary: v)
    case (Cons g gs)
    obtain u es out t where g: "g = (u, es)" "env u = (out, t)" by (cases g; cases "env (fst g)") auto
    have "dom (pending (user_pass t u es out v)) \<subseteq> dom (pending v)" by (rule user_pass_shrinks)
    with Cons[of "user_pass t u es out v"]
    have "dom (pending (fold (\<lambda>(u, es) w. case env u of (out, t) \<Rightarrow> user_pass t u es out w) gs (user_pass t u es out v))) \<subseteq> dom (pending v)"
      by (rule subset_trans)
    then show ?case by (simp only: g fold_Cons comp_apply prod.case)
  qed simp
  note shrink = this
  have "dom (pending (tick now ks us env w)) \<subseteq> dom (pending ?w)"
    unfolding tick_def Let_def by (rule shrink)
  then have "dom (pending (tick now ks us env w)) = {}" using empty by simp
  then show ?thesis by (simp add: PendingCount_def)
qed

theorem tick_settles_witness:
  "PendingCount (tick 200 [''u|a''] [''u''] (\<lambda>u. (OpenFails, 201)) (Register 100 0 new_watcher ''u'' ''a'')) = 0"
proof -
  let ?w = "Register 100 0 new_watcher ''u'' ''a''"
  have p: "pending ?w = [''u|a'' \<mapsto> \<lparr>w_user = ''u'', w_base = ''a'', w_uploaded = 0, w_deadline = 100\<rparr>]"
    by (simp add: Register_def new_watcher_def wkey_def)
  show ?thesis by (rule tick_settles) (auto simp: p enumerates_def ran_def split: if_splits)
qed

end
