(* ===== verification/Run.thy ===== *)
theory Run
  imports Dispatch ReportLedger Metrics TrackWatcher Generator Latency
begin

text \<open>
  A run and the workers on it (internal/runner/runner.go): one upload from the choice of its
  name to the bookkeeping of its outcome (\<open>uploadOne\<close>), the consumer of track-id results,
  one entry of a download worker's outbox, the stop reasons, the host-stats sampler with its
  speed floor, and the figures sealed into the run's metadata. What happens outside the
  program (the pool's connection, the byte source, the transfer, the sink, the clock, the
  random numbers) is the environment argument of each operation. None stands for a panic
  that no deferred recover catches.
\<close>

section \<open>The run\<close>

record run =
  cfg :: run_config
  report :: report_store
  policy :: "disable_policy option"
  errs :: "string \<rightharpoonup> int"
  FailedFiles :: int
  FailedBytes :: int
  engine :: engine
  watch :: watcher
  cursors :: "string \<rightharpoonup> int"
  upLat :: histogram
  corLat :: histogram
  dialLat :: histogram
  dlLat :: histogram
  DownloadCompleted :: int
  DownloadOrphans :: int
  DispatchSkips :: int
  stopReason :: "string option"
  stopDetail :: "string option"
  dispatchCancelled :: bool

definition filename_mode :: "run_config \<Rightarrow> bool" where
  "filename_mode c = (case download c of None \<Rightarrow> False | Some d \<Rightarrow> match_mode d = ''filename'')"

definition stageToCode :: "string \<Rightarrow> string" where
  "stageToCode stage =
     (if stage = ''create'' then ''CREATE'' else if stage = ''write'' then ''WRITE''
      else if stage = ''close'' then ''CLOSE'' else ''UNKNOWN'')"

section \<open>One upload\<close>

datatype pool_outcome = NoPool | PoolErr string | PoolPanic string | PoolOk int

datatype source_outcome = SourceErr string | SourcePanic string | SourceOk int

datatype transfer_outcome = TransferErr string string int | TransferPanic string | TransferOk int string

text \<open>The environment of one upload: the random bytes of the marker, the two numbers in the file
  name, the start and end instants, the instant a failure is stamped with, and what the pool,
  the source and the transfer did; each of the three may panic, which the deferred recover turns
  into a failure of the record as it stands. The slot a failed transfer marks dead belongs to
  the pool, hence to the environment.\<close>

record upload_env =
  ue_marker :: "nat list"
  ue_ts :: int
  ue_rand :: int
  ue_start :: int
  ue_pool :: pool_outcome
  ue_source :: source_outcome
  ue_transfer :: transfer_outcome
  ue_end :: int
  ue_fail_at :: int

definition new_record :: "string \<Rightarrow> string \<Rightarrow> string \<Rightarrow> int \<Rightarrow> int \<Rightarrow> string \<Rightarrow> file_record" where
  "new_record user kind name start expected marker =
     \<lparr>f_user = user, f_kind = kind, f_name = name, f_start = Some start, f_end = None, f_size = 0,
      f_expected = expected, f_incomplete = False, f_speed = 0, f_trackid = [], f_trackid_at = None,
      f_trackid_wait = 0, f_slow = False, f_error = [], f_code = [], f_marker = marker, f_dl_user = [],
      f_dl_avail = None, f_dl_start = None, f_dl_end = None, f_dl_size = 0, f_dl_speed = 0,
      f_dl_wait = 0, f_dl_error = [], f_up_sha = [], f_dl_sha = [], f_match = False\<rparr>"

definition recordFailure :: "int \<Rightarrow> run \<Rightarrow> string \<Rightarrow> file_record \<Rightarrow> string \<Rightarrow> string \<Rightarrow> int \<Rightarrow> run option" where
  "recordFailure now r user rec code msg bytesSent =
     (let rec' = rec\<lparr>f_code := code, f_error := msg, f_incomplete := True, f_size := bytesSent,
                     f_end := (case f_end rec of None \<Rightarrow> Some now | Some t \<Rightarrow> Some t)\<rparr>
      in case AddUpload (report r) rec' of
           None \<Rightarrow> None
         | Some rep \<Rightarrow>
             Some (r\<lparr>report := rep, FailedFiles := i64 (FailedFiles r + 1),
                     FailedBytes := i64 (FailedBytes r + bytesSent),
                     errs := errCounters_inc (errs r) code,
                     policy := fst (onFailureFor now (policy r) user ''upload'' code (f_name rec'))\<rparr>))"

definition recordSuccess ::
  "int \<Rightarrow> int \<Rightarrow> run \<Rightarrow> string \<Rightarrow> file_record \<Rightarrow> int option \<Rightarrow> run option" where
  "recordSuccess start fin r user rec intended =
     (let n = f_size rec; dur = time_sub (Some fin) (Some start);
          rec' = (if f_marker rec \<noteq> []
                  then rec\<lparr>f_trackid := ''FILENAME:'' @ f_marker rec, f_trackid_at := Some fin\<rparr> else rec)
      in case AddUpload (report r) rec' of
           None \<Rightarrow> None
         | Some rep \<Rightarrow>
             Some (r\<lparr>report := rep, engine := metrics_Record (engine r) fin n dur,
                     watch := (if f_marker rec = []
                               then Register (trackid_timeout (cfg r)) fin (watch r) user (f_name rec)
                               else watch r),
                     policy := onSuccess (policy r) user ''upload'',
                     upLat := hist_add (upLat r) dur,
                     corLat := (case intended of None \<Rightarrow> corLat r
                                | Some t \<Rightarrow> hist_add (corLat r) (time_sub (Some fin) (Some t)))\<rparr>))"

definition uploadOne :: "run \<Rightarrow> user_creds \<Rightarrow> int \<Rightarrow> string \<Rightarrow> int option \<Rightarrow> upload_env \<Rightarrow> run option" where
  "uploadOne r u sz kind intended env =
     (case nextPattern (cursors r) kind u of
        None \<Rightarrow> None
      | Some (pat, cur) \<Rightarrow>
          let r0 = r\<lparr>cursors := cur\<rparr>;
              marker = (if filename_mode (cfg r) then NewMarkerToken (Some (ue_marker env)) [] else []);
              name = (if filename_mode (cfg r)
                      then NameFromPatternWithMarker (ue_ts env) (ue_rand env) pat marker
                      else NameFromPattern (ue_ts env) (ue_rand env) pat);
              rec = new_record (username u) kind name (ue_start env) sz marker;
              fail = (\<lambda>run rc code msg n. recordFailure (ue_fail_at env) run (username u) rc code msg n)
          in case ue_pool env of
               NoPool \<Rightarrow> fail r0 rec ''POOL_EMPTY'' ''no connection pool for user'' 0
             | PoolErr e \<Rightarrow> fail r0 rec ''POOL_EMPTY'' e 0
             | PoolPanic p \<Rightarrow> fail r0 rec ''PANIC'' (''panic: '' @ p) 0
             | PoolOk dialDur \<Rightarrow>
                 let r1 = (if 0 < dialDur then r0\<lparr>dialLat := hist_add (dialLat r0) dialDur\<rparr> else r0) in
                 (case ue_source env of
                    SourceErr e \<Rightarrow> fail r1 rec ''SOURCE'' e 0
                  | SourcePanic p \<Rightarrow> fail r1 rec ''PANIC'' (''panic: '' @ p) 0
                  | SourceOk rsize \<Rightarrow>
                      let rec1 = (if 0 < rsize \<and> rsize \<noteq> sz then rec\<lparr>f_expected := rsize\<rparr> else rec);
                          rec2 = rec1\<lparr>f_end := Some (ue_end env)\<rparr>
                      in case ue_transfer env of
                           TransferErr stage e n \<Rightarrow> fail r1 rec2 (stageToCode stage) e n
                         | TransferPanic p \<Rightarrow> fail r1 rec1 ''PANIC'' (''panic: '' @ p) 0
                         | TransferOk n sha \<Rightarrow>
                             let rec3 = (if verify_hashes (cfg r) then rec2\<lparr>f_up_sha := sha\<rparr> else rec2);
                                 dur = time_sub (Some (ue_end env)) (Some (ue_start env));
                                 rec4 = rec3\<lparr>f_size := n, f_speed := RawSpeedMBps n dur\<rparr>
                             in recordSuccess (ue_start env) (ue_end env) r1 (username u) rec4 intended))"

section \<open>Track ids and downloads\<close>

text \<open>One iteration of \<open>consumeTrackIDs\<close>.\<close>

definition consumeTrackID :: "int \<Rightarrow> run \<Rightarrow> run" where
  "consumeTrackID now r =
     (case results (watch r) of
        [] \<Rightarrow> r
      | res # _ \<Rightarrow>
          let r1 = r\<lparr>watch := consume (watch r),
                     report := AttachTrackID (report r) (tr_user res) (tr_base res) (tr_id res)
                                 (Some (tr_at res)) (tr_timeout res)\<rparr>
          in if tr_timeout res
             then r1\<lparr>errs := errCounters_inc (errs r1) ''TRACKID_TIMEOUT'',
                     policy := fst (onFailureFor now (policy r1) (tr_user res) ''upload'' ''TRACKID_TIMEOUT'' (tr_base res))\<rparr>
             else r1)"

datatype drain_outcome = DrainErr string int | DrainOk int string

record 'c download_env =
  de_name :: string
  de_mtime :: "int option"
  de_dial :: "nat \<Rightarrow> string + 'c"
  de_dialDur :: int
  de_start :: int
  de_sink :: "string option"
  de_drain :: drain_outcome
  de_end :: int

text \<open>What an outbox entry is matched by: the marker in filename mode, else the name before the
  first \<open>#\<close>; None when the entry is not a candidate.\<close>

definition outbox_key :: "(string \<Rightarrow> string) \<Rightarrow> bool \<Rightarrow> string \<Rightarrow> string option" where
  "outbox_key uni fmode name =
     (if fmode then ExtractMarker uni name
      else case str_index name ''#'' of
             None \<Rightarrow> None
           | Some i \<Rightarrow> if i = 0 then None else Some (take i name))"

definition is_ours :: "bool \<Rightarrow> report_store \<Rightarrow> string \<Rightarrow> bool" where
  "is_ours fmode rep key = (if fmode then HasUploadByFilenameID rep key else HasUploadByBasename rep key)"

definition attach_result :: "bool \<Rightarrow> report_store \<Rightarrow> string \<Rightarrow> download_result \<Rightarrow> report_store \<times> bool" where
  "attach_result fmode rep key d =
     (if fmode then AttachDownloadByFilenameID rep key d else AttachDownloadByBasename rep key d)"

definition download_failed :: "int \<Rightarrow> run \<Rightarrow> string \<Rightarrow> string \<Rightarrow> run" where
  "download_failed now r user basename =
     r\<lparr>errs := errCounters_inc (errs r) ''DOWNLOAD'',
       policy := fst (onFailureFor now (policy r) user ''download'' ''DOWNLOAD'' basename)\<rparr>"

text \<open>The transfer of one file: the run, the pool and the result to attach.\<close>

definition download_file ::
  "run \<Rightarrow> 'c client_pool \<Rightarrow> string \<Rightarrow> string \<Rightarrow> 'c download_env \<Rightarrow> run \<times> 'c client_pool \<times> download_result" where
  "download_file r pool user basename env =
     (let base = \<lparr>d_user = user, d_start = Some (de_start env), d_end = None, d_size = 0, d_speed = 0,
                  d_avail = de_mtime env, d_error = [], d_sha = []\<rparr>;
          dialled = (\<lambda>fresh r. if fresh \<and> 0 < de_dialDur env then r\<lparr>dialLat := hist_add (dialLat r) (de_dialDur env)\<rparr> else r)
      in case pool_get pool (de_dial env) of
           (pool', Got c k fresh) \<Rightarrow>
             let r1 = dialled fresh r in
             (case de_sink env of
                Some e \<Rightarrow> (download_failed (de_end env) r1 user basename, pool', base\<lparr>d_end := Some (de_end env), d_error := e\<rparr>)
              | None \<Rightarrow>
                  (case de_drain env of
                     DrainErr e n \<Rightarrow>
                       (download_failed (de_end env) r1 user basename, pool_markDead pool' k,
                        base\<lparr>d_end := Some (de_end env), d_size := n, d_error := e\<rparr>)
                   | DrainOk n sha \<Rightarrow>
                       let dur = time_sub (Some (de_end env)) (Some (de_start env)) in
                       (r1\<lparr>dlLat := hist_add (dlLat r1) dur, policy := onSuccess (policy r1) user ''download''\<rparr>,
                        pool',
                        base\<lparr>d_end := Some (de_end env), d_size := n, d_speed := RawSpeedMBps n dur,
                             d_sha := (if verify_hashes (cfg r) then sha else [])\<rparr>)))
         | (pool', PoolEmpty) \<Rightarrow>
             (download_failed (de_start env) r user basename, pool',
              base\<lparr>d_end := Some (de_start env), d_error := ''pool empty''\<rparr>)
         | (pool', Unreachable e) \<Rightarrow>
             (download_failed (de_start env) r user basename, pool',
              base\<lparr>d_end := Some (de_start env), d_error := ''all pool slots unreachable (last: '' @ e @ '')''\<rparr>))"

text \<open>One entry of the outbox listing.\<close>

definition download_entry ::
  "(string \<Rightarrow> string) \<Rightarrow> string \<Rightarrow> run \<times> 'c client_pool \<times> string set \<Rightarrow> 'c download_env
    \<Rightarrow> run \<times> 'c client_pool \<times> string set" where
  "download_entry uni user st env =
     (case st of (r, pool, seen) \<Rightarrow>
        if de_name env \<in> seen then st
        else let fmode = filename_mode (cfg r) in
          case outbox_key uni fmode (de_name env) of
            None \<Rightarrow> st
          | Some key \<Rightarrow>
              let seen' = insert (de_name env) seen in
              if \<not> is_ours fmode (report r) key
              then (r\<lparr>DownloadOrphans := i64 (DownloadOrphans r + 1)\<rparr>, pool, seen')
              else
                let (r1, pool', d) = download_file r pool user (if fmode then de_name env else key) env;
                    (rep, attached) = attach_result fmode (report r1) key d;
                    r2 = r1\<lparr>report := rep\<rparr>
                in (if attached then r2\<lparr>DownloadCompleted := i64 (DownloadCompleted r2 + 1)\<rparr>
                    else r2\<lparr>DownloadOrphans := i64 (DownloadOrphans r2 + 1)\<rparr>, pool', seen'))"

section \<open>Stopping\<close>

definition Stop :: "run \<Rightarrow> run" where
  "Stop r = r\<lparr>stopReason := (case stopReason r of None \<Rightarrow> Some ''user'' | Some c \<Rightarrow> Some c),
              dispatchCancelled := True\<rparr>"

definition stopWithReason :: "string \<Rightarrow> string \<Rightarrow> run \<Rightarrow> run" where
  "stopWithReason code detail r =
     (case stopReason r of
        Some _ \<Rightarrow> r
      | None \<Rightarrow>
          let r1 = r\<lparr>stopReason := Some code, dispatchCancelled := True\<rparr>
          in if detail \<noteq> [] then r1\<lparr>stopDetail := Some detail\<rparr> else r1)"

section \<open>The sampler\<close>

record sampler =
  streak :: int
  peakWindowKBps :: int
  peakCPUMicroPct :: int
  cpuSamplesSum :: int
  cpuSamplesCount :: int
  peakFDInUse :: int
  peakGoroutines :: int
  peakHeapKB :: int
  peakConcurrentRuns :: int

record host_sample =
  hs_cpu :: rat
  hs_fd :: int
  hs_goroutines :: int
  hs_heapMB :: rat
  hs_runs :: int
  hs_mbps :: "rat option"
  hs_elapsed :: int

definition floor_ticks :: "run_config \<Rightarrow> int" where
  "floor_ticks c =
     (let breach = (if speed_floor_breach c \<le> 0 then 90 else speed_floor_breach c);
          t = (breach + 1) div 2
      in if t < 1 then 1 else t)"

definition floor_warmup :: "run_config \<Rightarrow> int" where
  "floor_warmup c = (if 0 < speed_floor_warmup c then speed_floor_warmup c * second else 60 * second)"

text \<open>The integer ratio of the current rate to the peak, in percent.\<close>

definition ratio_pct :: "rat \<Rightarrow> rat \<Rightarrow> int" where
  "ratio_pct current peak = \<lfloor>rnd64 (rnd64 (current / peak) * 100)\<rfloor>"

definition sample_peaks :: "host_sample \<Rightarrow> sampler \<Rightarrow> sampler" where
  "sample_peaks h s =
     (let cpu = \<lfloor>rnd64 (hs_cpu h * 1000000)\<rfloor> in
      s\<lparr>peakCPUMicroPct := max (peakCPUMicroPct s) cpu,
        cpuSamplesSum := i64 (cpuSamplesSum s + cpu), cpuSamplesCount := i64 (cpuSamplesCount s + 1),
        peakFDInUse := (if 0 < hs_fd h then max (peakFDInUse s) (hs_fd h) else peakFDInUse s),
        peakGoroutines := max (peakGoroutines s) (hs_goroutines h),
        peakHeapKB := max (peakHeapKB s) \<lfloor>rnd64 (hs_heapMB h * 1024)\<rfloor>,
        peakConcurrentRuns := (if 0 < hs_runs h then max (peakConcurrentRuns s) (hs_runs h) else peakConcurrentRuns s),
        peakWindowKBps := (case hs_mbps h of None \<Rightarrow> peakWindowKBps s
                           | Some m \<Rightarrow> max (peakWindowKBps s) \<lfloor>rnd64 (m * 1024)\<rfloor>)\<rparr>)"

text \<open>One sample: the state afterwards, and whether the floor trips.\<close>

definition floor_step :: "run_config \<Rightarrow> host_sample \<Rightarrow> sampler \<Rightarrow> sampler \<times> bool" where
  "floor_step c h s0 =
     (let s = sample_peaks h s0;
          current = (case hs_mbps h of None \<Rightarrow> 0 | Some m \<Rightarrow> m);
          peak = rnd64 (of_int (peakWindowKBps s)) / 1024
      in if 0 < speed_floor_percent c \<and> floor_warmup c \<le> hs_elapsed h then
           if 0 < peak \<and> 0 < current then
             if ratio_pct current peak < speed_floor_percent c then
               let s' = s\<lparr>streak := streak s + 1\<rparr>
               in (s', floor_ticks c \<le> streak s')
             else (s\<lparr>streak := 0\<rparr>, False)
           else (s, False)
         else (s, False))"

fun floor_run :: "run_config \<Rightarrow> sampler \<Rightarrow> host_sample list \<Rightarrow> sampler \<times> bool" where
  "floor_run c s [] = (s, False)"
| "floor_run c s (h # hs) = (let (s', trip) = floor_step c h s in if trip then (s', True) else floor_run c s' hs)"

section \<open>Sealing\<close>

definition snapshotToStage :: "hist_snapshot \<Rightarrow> hist_snapshot option" where
  "snapshotToStage s = (if sCount s = 0 then None else Some s)"

record run_meta =
  m_total :: int
  m_bytes :: int
  m_failed :: int
  m_succeeded :: int
  m_skips :: int
  m_stalled :: int
  m_reason :: string
  m_detail :: string
  m_verified :: int
  m_mismatch :: int
  m_completed :: int
  m_orphans :: int

text \<open>The counters of \<open>sealAllAndWriteMeta\<close>; \<open>ks\<close> enumerates the error codes.\<close>

definition seal_run ::
  "(int option \<Rightarrow> string) \<Rightarrow> metrics_snapshot \<Rightarrow> write_fault \<Rightarrow> string list \<Rightarrow> run \<Rightarrow> run \<times> run_meta" where
  "seal_run rfc snap fault ks r =
     (let (rep1, stalled) = (if download (cfg r) \<noteq> None
                             then StampPendingDownloads (report r) ''DOWNLOAD_TIMEOUT_LOCAL'' else (report r, 0));
          rep2 = fst (FlushFinalized rfc (SlowdownMinutes snap) (Some (EffectiveSpeedMBps snap)) (\<lambda>x. (True, x)) fault rep1);
          tally = i64 (sum_list (map_vals ks (errs r)));
          failed = (if s_totalFiles snap < tally then s_totalFiles snap else tally);
          counts = (if verify_hashes (cfg r) then HashCounts rep2 else (0, 0))
      in (r\<lparr>report := rep2\<rparr>,
          \<lparr>m_total = s_totalFiles snap, m_bytes = s_totalBytes snap, m_failed = failed,
           m_succeeded = s_totalFiles snap - failed, m_skips = DispatchSkips r, m_stalled = stalled,
           m_reason = (case stopReason r of Some c \<Rightarrow> if c \<noteq> [] then c else ''duration'' | None \<Rightarrow> ''duration''),
           m_detail = (case stopDetail r of Some d \<Rightarrow> d | None \<Rightarrow> []),
           m_verified = fst counts, m_mismatch = snd counts,
           m_completed = DownloadCompleted r, m_orphans = DownloadOrphans r\<rparr>))"

section \<open>The accounts of a run\<close>

type_synonym upload_job = "user_creds \<times> int \<times> string \<times> int option \<times> upload_env"

fun uploads :: "run \<Rightarrow> upload_job list \<Rightarrow> run option" where
  "uploads r [] = Some r"
| "uploads r ((u, sz, kind, intended, env) # js) =
     (case uploadOne r u sz kind intended env of None \<Rightarrow> None | Some r' \<Rightarrow> uploads r' js)"

text \<open>The environment lets the transfer finish.\<close>

definition upload_ok :: "upload_env \<Rightarrow> bool" where
  "upload_ok env \<longleftrightarrow> (case ue_pool env of PoolOk _ \<Rightarrow> True | _ \<Rightarrow> False)
     \<and> (case ue_source env of SourceOk _ \<Rightarrow> True | _ \<Rightarrow> False)
     \<and> (case ue_transfer env of TransferOk _ _ \<Rightarrow> True | _ \<Rightarrow> False)"

text \<open>What one upload does to the run's accounts: the record \<open>x\<close> joins the ledger, and either the
  throughput engine or the failure counters move.\<close>

definition posted :: "run \<Rightarrow> file_record \<Rightarrow> bool \<Rightarrow> run \<Rightarrow> bool" where
  "posted r x good r' \<longleftrightarrow>
     AddUpload (report r) x = Some (report r') \<and> (good \<longleftrightarrow> f_code x = [])
     \<and> cfg r' = cfg r
     \<and> totalFiles (engine r') = i64 (totalFiles (engine r) + (if good then 1 else 0))
     \<and> FailedFiles r' = i64 (FailedFiles r + (if good then 0 else 1))
     \<and> errs r' = (if good then errs r else errCounters_inc (errs r) (f_code x))"

lemma AddUpload_total: "\<not> nilMaps s \<Longrightarrow> AddUpload s x \<noteq> None"
  by (simp add: AddUpload_def Let_def split: option.split)

lemma AddUpload_records:
  "AddUpload s x = Some s' \<Longrightarrow> records s' = records s @ [Some x] \<and> nilMaps s' = nilMaps s
     \<and> stream s' = stream s \<and> hashVerified s' = hashVerified s"
  by (auto simp: AddUpload_def Let_def split: if_splits option.splits)

lemma nextPattern_total: "patterns u \<noteq> [] \<Longrightarrow> nextPattern m kind u \<noteq> None"
  by (simp add: nextPattern_def Let_def)

lemma recordFailure_posted:
  assumes "\<not> nilMaps (report r)" "code \<noteq> []" "f_user x = u" "in_i64 (totalFiles (engine r))"
  shows "\<exists>r' y. recordFailure now r user x code msg n = Some r' \<and> posted r y False r' \<and> f_user y = u"
proof -
  let ?y = "x\<lparr>f_code := code, f_error := msg, f_incomplete := True, f_size := n,
              f_end := (case f_end x of None \<Rightarrow> Some now | Some t \<Rightarrow> Some t)\<rparr>"
  obtain rep where "AddUpload (report r) ?y = Some rep" using AddUpload_total[OF assms(1)] by blast
  then show ?thesis
    using assms by (intro exI[of _ "the (recordFailure now r user x code msg n)"] exI[of _ ?y])
      (simp add: recordFailure_def posted_def Let_def)
qed

lemma recordSuccess_posted:
  assumes "\<not> nilMaps (report r)" "f_code x = []" "f_user x = u" "in_i64 (FailedFiles r)"
  shows "\<exists>r' y. recordSuccess s e r user x intended = Some r' \<and> posted r y True r' \<and> f_user y = u"
proof -
  let ?y = "(if f_marker x \<noteq> [] then x\<lparr>f_trackid := ''FILENAME:'' @ f_marker x, f_trackid_at := Some e\<rparr> else x)"
  obtain rep where "AddUpload (report r) ?y = Some rep" using AddUpload_total[OF assms(1)] by blast
  then show ?thesis
    using assms by (intro exI[of _ "the (recordSuccess s e r user x intended)"] exI[of _ ?y])
      (simp add: recordSuccess_def posted_def Let_def Record_fields)
qed

lemma posted_frame:
  "cfg r1 = cfg r \<Longrightarrow> report r1 = report r \<Longrightarrow> engine r1 = engine r \<Longrightarrow> FailedFiles r1 = FailedFiles r
   \<Longrightarrow> errs r1 = errs r \<Longrightarrow> posted r1 y good r' = posted r y good r'"
  by (simp add: posted_def)

lemma stageToCode_nonempty [simp]: "stageToCode stage \<noteq> []"
  by (simp add: stageToCode_def)

lemma uploadOne_posted:
  assumes "patterns u \<noteq> []" "\<not> nilMaps (report r)" "in_i64 (totalFiles (engine r))" "in_i64 (FailedFiles r)"
  shows "\<exists>r'. uploadOne r u sz kind intended env = Some r'
    \<and> (\<exists>y. posted r y (upload_ok env) r' \<and> f_user y = username u)"
proof -
  obtain pat cur where p: "nextPattern (cursors r) kind u = Some (pat, cur)"
    using nextPattern_total[OF assms(1)] by fastforce
  have fail: "\<exists>r'. recordFailure now r1 user z code msg n = Some r' \<and> (\<exists>y. posted r y False r' \<and> f_user y = username u)"
    if "code \<noteq> []" "f_user z = username u" "cfg r1 = cfg r" "report r1 = report r" "engine r1 = engine r"
      "FailedFiles r1 = FailedFiles r" "errs r1 = errs r" for now r1 user z code msg n
    using recordFailure_posted[of r1 code z "username u" now user msg n] that assms posted_frame[OF that(3-7)] by simp
  have good: "\<exists>r'. recordSuccess s e r1 user z intended = Some r' \<and> (\<exists>y. posted r y True r' \<and> f_user y = username u)"
    if "f_code z = []" "f_user z = username u" "cfg r1 = cfg r" "report r1 = report r" "engine r1 = engine r"
      "FailedFiles r1 = FailedFiles r" "errs r1 = errs r" for s e r1 user z
    using recordSuccess_posted[of r1 z "username u" s e user intended] that assms posted_frame[OF that(3-7)] by simp
  note expand = uploadOne_def p Let_def upload_ok_def
  show ?thesis
  proof (cases "ue_pool env")
    case (PoolOk d)
    show ?thesis
    proof (cases "ue_source env")
      case (SourceOk rsize)
      with PoolOk show ?thesis
        by (cases "ue_transfer env"; simp add: expand split del: if_split)
          (rule fail good; simp add: new_record_def)+
    next
      case (SourceErr e)
      with PoolOk show ?thesis by (simp add: expand split del: if_split) (rule fail; simp add: new_record_def)
    next
      case (SourcePanic m)
      with PoolOk show ?thesis by (simp add: expand split del: if_split) (rule fail; simp add: new_record_def)
    qed
  next
    case NoPool
    then show ?thesis by (simp add: expand split del: if_split) (rule fail; simp add: new_record_def)
  next
    case (PoolErr e)
    then show ?thesis by (simp add: expand split del: if_split) (rule fail; simp add: new_record_def)
  next
    case (PoolPanic m)
    then show ?thesis by (simp add: expand split del: if_split) (rule fail; simp add: new_record_def)
  qed
qed

section \<open>The ledger and the counters agree\<close>

definition failures_with :: "string \<Rightarrow> file_record list \<Rightarrow> int" where
  "failures_with code xs = int (length (filter (\<lambda>x. f_code x = code) xs))"

definition errs_at :: "run \<Rightarrow> string \<Rightarrow> int" where
  "errs_at r code = (case errs r code of None \<Rightarrow> 0 | Some n \<Rightarrow> n)"

lemma errs_inc: "code \<noteq> [] \<Longrightarrow> errCounters_inc m c code =
   (if c = code then Some (i64 ((case m code of None \<Rightarrow> 0 | Some n \<Rightarrow> n) + 1)) else m code)"
  by (auto simp: errCounters_inc_def)

lemma posted_errs:
  assumes "posted r x good r'" "code \<noteq> []" "in_i64 (errs_at r code)"
  shows "errs_at r' code = i64 (errs_at r code + failures_with code [x])"
  using assms by (auto simp: posted_def errs_at_def failures_with_def errs_inc)

text \<open>The ledger and the counters after a sequence of uploads, from any state.\<close>

lemma uploads_account:
  assumes "\<forall>j \<in> set jobs. patterns (fst j) \<noteq> []" "\<not> nilMaps (report r)"
    and "in_i64 (totalFiles (engine r))" "in_i64 (FailedFiles r)" "\<And>code. in_i64 (errs_at r code)"
  shows "\<exists>r' xs. uploads r jobs = Some r'
    \<and> records (report r') = records (report r) @ map Some xs
    \<and> map f_user xs = map (username \<circ> fst) jobs
    \<and> map (\<lambda>x. f_code x = []) xs = map (\<lambda>(u, sz, kind, intended, env). upload_ok env) jobs
    \<and> totalFiles (engine r') = i64 (totalFiles (engine r) + failures_with [] xs)
    \<and> FailedFiles r' = i64 (FailedFiles r + int (length xs) - failures_with [] xs)
    \<and> (\<forall>code. code \<noteq> [] \<longrightarrow> errs_at r' code = i64 (errs_at r code + failures_with code xs))"
  using assms
proof (induction jobs arbitrary: r)
  case Nil
  then show ?case by (auto simp: failures_with_def intro!: exI[of _ "[]"])
next
  case (Cons j jobs)
  obtain u sz kind intended env where j: "j = (u, sz, kind, intended, env)" by (cases j)
  obtain r1 x where u1: "uploadOne r u sz kind intended env = Some r1" "posted r x (upload_ok env) r1"
    "f_user x = username u"
    using uploadOne_posted[of u r sz kind intended env] Cons.prems by (auto simp: j)
  have rec1: "records (report r1) = records (report r) @ [Some x]" "\<not> nilMaps (report r1)"
    using u1(2) AddUpload_records[of "report r" x "report r1"] Cons.prems(2) by (auto simp: posted_def)
  have e1: "code \<noteq> [] \<Longrightarrow> errs_at r1 code = i64 (errs_at r code + failures_with code [x])" for code
    using posted_errs[OF u1(2)] Cons.prems(5) by simp
  have "in_i64 (errs_at r1 code)" for code
  proof (cases "code = []")
    case True
    then have "errs r1 code = errs r code"
      using u1(2) by (auto simp: posted_def errCounters_inc_def)
    then show ?thesis using Cons.prems(5)[of code] by (simp add: errs_at_def)
  qed (simp add: e1)
  moreover have "in_i64 (totalFiles (engine r1))" "in_i64 (FailedFiles r1)"
    using u1(2) by (simp_all add: posted_def)
  ultimately obtain r' xs where IH: "uploads r1 jobs = Some r'"
    "records (report r') = records (report r1) @ map Some xs" "map f_user xs = map (username \<circ> fst) jobs"
    "map (\<lambda>x. f_code x = []) xs = map (\<lambda>(u, sz, kind, intended, env). upload_ok env) jobs"
    "totalFiles (engine r') = i64 (totalFiles (engine r1) + failures_with [] xs)"
    "FailedFiles r' = i64 (FailedFiles r1 + int (length xs) - failures_with [] xs)"
    "\<forall>code. code \<noteq> [] \<longrightarrow> errs_at r' code = i64 (errs_at r1 code + failures_with code xs)"
    using Cons.IH[of r1] Cons.prems(1) rec1(2) by force
  have cons: "failures_with code (x # xs) = failures_with code [x] + failures_with code xs" for code
    by (simp add: failures_with_def)
  have f1: "failures_with [] [x] = (if upload_ok env then 1 else 0)"
    using u1(2) by (simp add: failures_with_def posted_def)
  have t: "totalFiles (engine r') = i64 (totalFiles (engine r) + failures_with [] (x # xs))"
    using u1(2) unfolding IH(5) cons f1 by (simp add: posted_def add.assoc)
  have fl: "FailedFiles r' = i64 (FailedFiles r + int (length (x # xs)) - failures_with [] (x # xs))"
  proof -
    have "FailedFiles r' = i64 (i64 (FailedFiles r + (if upload_ok env then 0 else 1)) + (int (length xs) - failures_with [] xs))"
      using u1(2) unfolding IH(6) by (simp add: posted_def algebra_simps)
    also have "\<dots> = i64 (FailedFiles r + (if upload_ok env then 0 else 1) + (int (length xs) - failures_with [] xs))"
      by (rule i64_add)
    finally show ?thesis unfolding cons f1 by (simp add: algebra_simps)
  qed
  have er: "\<forall>code. code \<noteq> [] \<longrightarrow> errs_at r' code = i64 (errs_at r code + failures_with code (x # xs))"
    using IH(7) e1 unfolding cons by (simp add: add.assoc)
  have good: "(f_code x = []) = upload_ok env" using u1(2) by (simp add: posted_def)
  show ?case
    by (rule exI[of _ r'], rule exI[of _ "x # xs"])
      (use IH(1-4) t fl er rec1 u1 good in \<open>simp add: j\<close>)
qed


lemma uploads_errs_keys:
  assumes "uploads r jobs = Some r'" "\<forall>j \<in> set jobs. patterns (fst j) \<noteq> []" "\<not> nilMaps (report r)"
    "in_i64 (totalFiles (engine r))" "in_i64 (FailedFiles r)"
  shows "errs r' [] = errs r [] \<and> (finite (dom (errs r)) \<longrightarrow> finite (dom (errs r')))"
  using assms
proof (induction jobs arbitrary: r)
  case (Cons j jobs)
  obtain u sz kind intended env where j: "j = (u, sz, kind, intended, env)" by (cases j)
  obtain r1 x where u1: "uploadOne r u sz kind intended env = Some r1" "posted r x (upload_ok env) r1"
    using uploadOne_posted[of u r sz kind intended env] Cons.prems by (auto simp: j)
  have "\<not> nilMaps (report r1)"
    using u1(2) AddUpload_records[of "report r" x "report r1"] Cons.prems(3) by (auto simp: posted_def)
  moreover have "in_i64 (totalFiles (engine r1))" "in_i64 (FailedFiles r1)"
    using u1(2) by (simp_all add: posted_def)
  ultimately have "errs r' [] = errs r1 [] \<and> (finite (dom (errs r1)) \<longrightarrow> finite (dom (errs r')))"
    using Cons.IH[of r1] Cons.prems(1,2) u1(1) j by simp
  moreover have "errs r1 [] = errs r []" "finite (dom (errs r)) \<longrightarrow> finite (dom (errs r1))"
    using u1(2) by (simp_all add: posted_def errCounters_inc_def)
  ultimately show ?case by simp
qed simp

text \<open>Before the first upload.\<close>

definition unused :: "run \<Rightarrow> bool" where
  "unused r \<longleftrightarrow> records (report r) = [] \<and> \<not> nilMaps (report r) \<and> errs r = Map.empty
     \<and> FailedFiles r = 0 \<and> totalFiles (engine r) = 0"

lemma unused_bounds:
  "unused r \<Longrightarrow> \<not> nilMaps (report r) \<and> in_i64 (totalFiles (engine r)) \<and> in_i64 (FailedFiles r)
     \<and> in_i64 (errs_at r code) \<and> errs_at r code = 0 \<and> errs r [] = None \<and> records (report r) = []"
  by (simp add: unused_def errs_at_def in_i64_def)

text \<open>C2: The run's three accounts of its uploads agree. For any sequence of uploads of a run, with
  any outcomes, each upload files exactly one record under its user, in order; the
  throughput engine counts the records without an error code, the failure counter those with
  one, and the tally of every error code is the number of records that carry it. An upload
  always produces its record: no outcome of the environment makes it vanish.\<close>
theorem upload_accounting:
  assumes "unused r" "\<forall>j \<in> set jobs. patterns (fst j) \<noteq> []"
  shows "\<exists>r' xs. uploads r jobs = Some r' \<and> records (report r') = map Some xs
    \<and> map f_user xs = map (username \<circ> fst) jobs
    \<and> map (\<lambda>x. f_code x = []) xs = map (\<lambda>(u, sz, kind, intended, env). upload_ok env) jobs
    \<and> totalFiles (engine r') = i64 (failures_with [] xs)
    \<and> FailedFiles r' = i64 (int (length xs) - failures_with [] xs)
    \<and> (\<forall>code. code \<noteq> [] \<longrightarrow> errs_at r' code = i64 (failures_with code xs))"
  using uploads_account[OF assms(2), of r] unused_bounds[OF assms(1)] assms(1)
  by (simp add: unused_def)

text \<open>The tally sums the failed records once each.\<close>

lemma sum_codes:
  assumes "distinct ks" "[] \<notin> set ks" "\<forall>x \<in> set xs. f_code x \<noteq> [] \<longrightarrow> f_code x \<in> set ks"
  shows "(\<Sum>k\<leftarrow>ks. failures_with k xs) = int (length (filter (\<lambda>x. f_code x \<noteq> []) xs))"
  using assms(3)
proof (induction xs)
  case Nil
  show ?case by (simp add: failures_with_def sum_list_0)
next
  case (Cons x xs)
  have "(\<Sum>k\<leftarrow>ks. failures_with k (x # xs)) = (\<Sum>k\<leftarrow>ks. failures_with k xs) + (\<Sum>k\<leftarrow>ks. if k = f_code x then 1 else 0)"
    unfolding sum_list_addf[symmetric] by (rule arg_cong[of _ _ sum_list]) (simp add: failures_with_def)
  also have "(\<Sum>k\<leftarrow>ks. if k = f_code x then 1 else (0::int)) = (if f_code x \<in> set ks then 1 else 0)"
    using assms(1) by (induction ks) auto
  also have "\<dots> = (if f_code x \<noteq> [] then 1 else 0)"
    using Cons.prems assms(2) by auto
  finally show ?case using Cons by simp
qed

lemma map_vals_errs:
  "set ks \<subseteq> dom (errs r) \<Longrightarrow> map_vals ks (errs r) = map (errs_at r) ks"
  by (induction ks) (auto simp: map_vals_def errs_at_def)

text \<open>The metadata sealed at the end of a run misreports partial failure. Its total is the
  number of uploads that succeeded, because the engine records only those, yet the failed
  uploads are subtracted from it again: with \<open>S\<close> successes and \<open>F\<close> failures it claims a total
  of \<open>S\<close>, \<open>min S F\<close> failures and \<open>S - min S F\<close> successes. The claim is right only when nothing
  failed.\<close>
theorem sealed_counts:
  assumes "unused r" "\<forall>j \<in> set jobs. patterns (fst j) \<noteq> []" "uploads r jobs = Some r'"
    and "enumerates ks (errs r')" "s_totalFiles snap = totalFiles (engine r')" "int (length jobs) < 2 ^ 63"
  shows "let S = int (length (filter (\<lambda>(u, sz, kind, intended, env). upload_ok env) jobs));
             F = int (length jobs) - S; m = snd (seal_run rfc snap fault ks r')
    in m_total m = S \<and> m_failed m = min S F \<and> m_succeeded m = S - min S F
       \<and> (m_succeeded m = S \<longleftrightarrow> S = 0 \<or> F = 0)"
proof -
  obtain xs where xs: "records (report r') = map Some xs"
    "map (\<lambda>x. f_code x = []) xs = map (\<lambda>(u, sz, kind, intended, env). upload_ok env) jobs"
    "totalFiles (engine r') = i64 (failures_with [] xs)"
    "\<forall>code. code \<noteq> [] \<longrightarrow> errs_at r' code = i64 (failures_with code xs)"
  proof -
    have z: "totalFiles (engine r) = 0" using assms(1) by (simp add: unused_def)
    show ?thesis
      using uploads_account[OF assms(2), of r] unused_bounds[OF assms(1)] assms(3) that
      by (simp add: z) blast
  qed
  let ?F = "int (length (filter (\<lambda>x. f_code x \<noteq> []) xs))"
  have len: "length xs = length jobs" using xs(2) by (metis length_map)
  have count: "length (filter P as) = length (filter Q bs)" if "map P as = map Q bs" for P Q as bs
    using that by (induction as arbitrary: bs) auto
  have S: "failures_with [] xs = int (length (filter (\<lambda>(u, sz, kind, intended, env). upload_ok env) jobs))"
    using count[OF xs(2)] by (simp add: failures_with_def)
  have F: "?F = int (length jobs) - failures_with [] xs"
    using sum_length_filter_compl[of "\<lambda>x. f_code x = []" xs] len by (simp add: failures_with_def)
  have bound: "in_i64 (failures_with code xs)" for code
    using length_filter_le[of "\<lambda>x. f_code x = code" xs] assms(6) len
    by (simp add: failures_with_def in_i64_def)
  have e: "code \<noteq> [] \<Longrightarrow> errs_at r' code = failures_with code xs" for code using xs(4) bound by simp
  have "[] \<notin> dom (errs r')"
    using uploads_errs_keys[OF assms(3,2)] unused_bounds[OF assms(1)] by auto
  with assms(4) have ks: "distinct ks" "[] \<notin> set ks" "set ks = dom (errs r')" by (auto simp: enumerates_def)
  have "f_code x \<in> set ks" if "x \<in> set xs" "f_code x \<noteq> []" for x
  proof -
    have "0 < failures_with (f_code x) xs" using that(1) by (auto simp: failures_with_def filter_empty_conv)
    then show ?thesis using e[OF that(2)] ks(3) by (auto simp: errs_at_def split: option.splits)
  qed
  then have sum: "(\<Sum>k\<leftarrow>ks. failures_with k xs) = ?F" using sum_codes[OF ks(1,2)] by blast
  have codes: "map (errs_at r') ks = map (\<lambda>k. failures_with k xs) ks"
    by (rule map_cong[OF refl]) (use e ks(2) in metis)
  have tally: "sum_list (map_vals ks (errs r')) = ?F"
    by (simp only: map_vals_errs[OF equalityD1[OF ks(3)]] codes sum)
  have "in_i64 ?F" using length_filter_le[of "\<lambda>x. f_code x \<noteq> []" xs] assms(6) len by (simp add: in_i64_def)
  then show ?thesis
    unfolding seal_run_def assms(5) xs(3) tally Let_def S[symmetric] F[symmetric]
    using bound[of "[]"] by (auto simp: split_beta min_def failures_with_def)
qed

definition demo_run :: run where
  "demo_run =
     \<lparr>cfg = demo_report_config, report = NewStore, policy = None, errs = Map.empty, FailedFiles = 0,
      FailedBytes = 0, engine = New 0 0, watch = new_watcher, cursors = Map.empty,
      upLat = zero_histogram, corLat = zero_histogram, dialLat = zero_histogram, dlLat = zero_histogram,
      DownloadCompleted = 0, DownloadOrphans = 0, DispatchSkips = 0, stopReason = None,
      stopDetail = None, dispatchCancelled = False\<rparr>"

definition demo_env :: "transfer_outcome \<Rightarrow> upload_env" where
  "demo_env t =
     \<lparr>ue_marker = [], ue_ts = 0, ue_rand = 0, ue_start = 0, ue_pool = PoolOk 0, ue_source = SourceOk 0,
      ue_transfer = t, ue_end = 1, ue_fail_at = 1\<rparr>"

definition demo_jobs :: "upload_job list" where
  "demo_jobs = [(demo_user ''a'', 1, ''normal'', None, demo_env (TransferOk 1 [])),
                (demo_user ''b'', 1, ''normal'', None, demo_env (TransferErr ''write'' ''reset'' 0))]"

lemma demo_unused: "unused demo_run"
  by (simp add: unused_def demo_run_def NewStore_def New_def)

lemma demo_patterns: "\<forall>j \<in> set demo_jobs. patterns (fst j) \<noteq> []"
  by (simp add: demo_jobs_def demo_user_def)

lemma demo_ok: "map (\<lambda>(u, sz, kind, intended, env). upload_ok env) demo_jobs = [True, False]"
  by (simp add: demo_jobs_def upload_ok_def demo_env_def)

theorem upload_accounting_witness:
  "\<exists>r' xs. uploads demo_run demo_jobs = Some r' \<and> records (report r') = map Some xs
    \<and> map (\<lambda>x. f_code x = []) xs = [True, False]"
proof -
  obtain r' xs where "uploads demo_run demo_jobs = Some r' \<and> records (report r') = map Some xs
    \<and> map f_user xs = map (username \<circ> fst) demo_jobs
    \<and> map (\<lambda>x. f_code x = []) xs = map (\<lambda>(u, sz, kind, intended, env). upload_ok env) demo_jobs
    \<and> totalFiles (engine r') = i64 (failures_with [] xs)
    \<and> FailedFiles r' = i64 (int (length xs) - failures_with [] xs)
    \<and> (\<forall>code. code \<noteq> [] \<longrightarrow> errs_at r' code = i64 (failures_with code xs))"
    using upload_accounting[OF demo_unused demo_patterns] by (elim exE) (rule that)
  then show ?thesis by (intro exI[of _ r'] exI[of _ xs] conjI) (simp_all only: demo_ok)
qed

theorem sealed_counts_witness:
  "\<exists>r' ks. uploads demo_run demo_jobs = Some r' \<and> enumerates ks (errs r')
    \<and> (let m = snd (seal_run (\<lambda>t. []) (metrics_Snapshot [] 0 (engine r')) None ks r')
       in m_total m = 1 \<and> m_failed m = 1 \<and> m_succeeded m = 0)"
proof -
  obtain r' where r': "uploads demo_run demo_jobs = Some r'"
    using uploads_account[OF demo_patterns, of demo_run] unused_bounds[OF demo_unused] by blast
  have "finite (dom (errs demo_run))" by (simp add: demo_run_def)
  then obtain ks where e: "enumerates ks (errs r')"
    using uploads_errs_keys[OF r' demo_patterns] unused_bounds[OF demo_unused] enumerates_exists by blast
  have "let m = snd (seal_run (\<lambda>t. []) (metrics_Snapshot [] 0 (engine r')) None ks r')
    in m_total m = 1 \<and> m_failed m = 1 \<and> m_succeeded m = 0"
    using sealed_counts[OF demo_unused demo_patterns r' e,
        of "metrics_Snapshot [] 0 (engine r')" "\<lambda>t. []" None]
    by (simp add: metrics_Snapshot_def demo_jobs_def upload_ok_def demo_env_def Let_def)
  with r' e show ?thesis by blast
qed

end
