(* ===== verification/DownloadWorker.thy ===== *)
theory DownloadWorker
  imports Run
begin

text \<open>
  The download workers of a run (internal/runner/runner.go, \<open>downloadWorker\<close>): one tick of a
  worker with its self-healing listing connection, and what any number of ticks does to the
  run's download counters and to the failure policy. A worker is followed alone; the counters
  it shares with its siblings are atomic sums.
\<close>

section \<open>Download workers\<close>

text \<open>A worker across its ticks: the run, its pool, the names it has acted on, whether its listing
  connection is up, and whether it has returned.\<close>

record 'c dl_worker =
  w_run :: run
  w_pool :: "'c client_pool"
  w_seen :: "string set"
  w_list :: bool
  w_exited :: bool

text \<open>A tick's environment: the instant, whether a dial of the listing connection succeeds, the
  listing (None is an error), and per entry what its transfer meets.\<close>

record 'c tick_env =
  te_now :: int
  te_dial :: bool
  te_entries :: "'c download_env list option"

definition list_failed :: "int \<Rightarrow> string \<Rightarrow> run \<Rightarrow> run" where
  "list_failed now user r =
     r\<lparr>errs := errCounters_inc (errs r) ''DOWNLOAD'',
       policy := fst (onFailure now (policy r) user ''download'' ''DOWNLOAD'')\<rparr>"

definition download_tick ::
  "(string \<Rightarrow> string) \<Rightarrow> string \<Rightarrow> 'c dl_worker \<Rightarrow> 'c tick_env \<Rightarrow> 'c dl_worker" where
  "download_tick uni user w e =
     (if w_exited w then w
      else if isDisabled (policy (w_run w)) user ''download'' then w\<lparr>w_exited := True\<rparr>
      else if \<not> w_list w \<and> \<not> te_dial e then w\<lparr>w_run := list_failed (te_now e) user (w_run w)\<rparr>
      else case te_entries e of
          None \<Rightarrow> w\<lparr>w_list := False, w_run := list_failed (te_now e) user (w_run w)\<rparr>
        | Some es \<Rightarrow>
            let (r, pool, seen) = foldl (download_entry uni user) (w_run w, w_pool w, w_seen w) es
            in w\<lparr>w_run := r, w_pool := pool, w_seen := seen, w_list := True\<rparr>)"

definition handled :: "run \<Rightarrow> int" where
  "handled r = i64 (DownloadCompleted r + DownloadOrphans r)"

text \<open>What a transfer leaves alone: the two outcome counters, the ledger, and every disabled flag.\<close>

definition same_disabled :: "run \<Rightarrow> run \<Rightarrow> bool" where
  "same_disabled r r' \<longleftrightarrow> (\<forall>user kind. isDisabled (policy r') user kind = isDisabled (policy r) user kind)"

lemma same_disabled_refl [simp]: "same_disabled r r"
  by (simp add: same_disabled_def)

lemma same_disabled_trans: "same_disabled r r1 \<Longrightarrow> same_disabled r1 r2 \<Longrightarrow> same_disabled r r2"
  by (simp add: same_disabled_def)

lemma isDisabled_set_status:
  "isDisabled (Some (set_status p user kind s)) user' kind' =
     (if user' = user \<and> direction kind' = direction kind then disabled s else isDisabled (Some p) user' kind')"
  by (auto simp: set_status_other status_direction set_status_def direction_def split: option.split)

lemma isDisabled_status:
  "status p user kind = Some s \<Longrightarrow> direction kind' = direction kind \<Longrightarrow> isDisabled (Some p) user kind' = disabled s"
  by (simp add: status_direction)

lemma fail_other_disabled:
  "\<not> accountLevelFailureCode code \<Longrightarrow> disabled (fst (fail_status th now code b s)) = disabled s"
  by (simp add: fail_status_def Let_def)

lemma onFailureFor_other:
  assumes "\<not> accountLevelFailureCode code"
  shows "isDisabled (fst (onFailureFor now p user kind code b)) user' kind' = isDisabled p user' kind'"
proof (cases p)
  case (Some q)
  show ?thesis
  proof (cases "status q user kind")
    case (Some s)
    show ?thesis
      using \<open>p = Some q\<close> Some fail_other_disabled[OF assms, of "threshold q" now b s] isDisabled_status[OF Some, of kind']
      by (simp add: split_beta isDisabled_set_status del: isDisabled.simps)
  qed (use Some in simp)
qed simp

lemma onSuccess_disabled: "isDisabled (onSuccess p user kind) user' kind' = isDisabled p user' kind'"
proof (cases p)
  case (Some q)
  show ?thesis
  proof (cases "status q user kind")
    case (Some s)
    show ?thesis
      using \<open>p = Some q\<close> Some isDisabled_status[OF Some, of kind']
      by (simp add: isDisabled_set_status del: isDisabled.simps)
  qed (use Some in simp)
qed simp

lemma download_code [simp]: "\<not> accountLevelFailureCode ''DOWNLOAD''"
  by (simp add: accountLevelFailureCode_def)

lemma download_failed_frame [simp]:
  "DownloadCompleted (download_failed now r user b) = DownloadCompleted r"
  "DownloadOrphans (download_failed now r user b) = DownloadOrphans r"
  "cfg (download_failed now r user b) = cfg r" "report (download_failed now r user b) = report r"
  "same_disabled r (download_failed now r user b)"
  by (simp_all add: download_failed_def same_disabled_def onFailureFor_other)

lemma list_failed_frame [simp]:
  "handled (list_failed now user r) = handled r" "same_disabled r (list_failed now user r)"
  by (simp_all add: list_failed_def onFailure_def same_disabled_def onFailureFor_other handled_def)

text \<open>Every way a transfer can end.\<close>

lemma download_file_frame:
  assumes "download_file r pool user b env = (r1, pool', d)"
  shows "DownloadCompleted r1 = DownloadCompleted r \<and> DownloadOrphans r1 = DownloadOrphans r
    \<and> cfg r1 = cfg r \<and> report r1 = report r \<and> same_disabled r r1"
proof -
  obtain pool1 res where g: "pool_get pool (de_dial env) = (pool1, res)" by fastforce
  show ?thesis
  proof (cases res)
    case (Got c k fresh)
    define r0 where "r0 = (if fresh \<and> 0 < de_dialDur env then r\<lparr>dialLat := hist_add (dialLat r) (de_dialDur env)\<rparr> else r)"
    have r0: "DownloadCompleted r0 = DownloadCompleted r" "DownloadOrphans r0 = DownloadOrphans r"
      "cfg r0 = cfg r" "report r0 = report r" "policy r0 = policy r" by (simp_all add: r0_def)
    then have s0: "same_disabled r r0" by (simp add: same_disabled_def)
    have "r1 = download_failed (de_end env) r0 user b
        \<or> (\<exists>h. r1 = r0\<lparr>dlLat := h, policy := onSuccess (policy r0) user ''download''\<rparr>)"
      using assms unfolding download_file_def g Got Let_def r0_def[symmetric]
      by (auto simp: r0_def split: option.splits drain_outcome.splits)
    then show ?thesis
      using r0 s0 same_disabled_trans[OF s0 download_failed_frame(5)]
      by (auto simp: same_disabled_def onSuccess_disabled)
  qed (use assms in \<open>auto simp: download_file_def g Let_def\<close>)
qed

text \<open>One entry: nothing, or one new name and one count.\<close>

lemma download_entry_once:
  assumes "download_entry uni user (r, pool, seen) env = (r', pool', seen')"
  shows "same_disabled r r' \<and> (seen' = seen \<and> r' = r
     \<or> de_name env \<notin> seen \<and> seen' = insert (de_name env) seen \<and> handled r' = i64 (handled r + 1))"
proof -
  let ?fmode = "filename_mode (cfg r)"
  show ?thesis
  proof (cases "de_name env \<in> seen")
    case True
    then show ?thesis using assms by (simp add: download_entry_def)
  next
    case new: False
    show ?thesis
    proof (cases "outbox_key uni ?fmode (de_name env)")
      case None
      then show ?thesis using assms new by (simp add: download_entry_def Let_def)
    next
      case (Some key)
      show ?thesis
      proof (cases "is_ours ?fmode (report r) key")
        case False
        then show ?thesis using assms new Some
          by (auto simp: download_entry_def Let_def handled_def same_disabled_def add.assoc)
      next
        case True
        obtain r1 p d where f: "download_file r pool user (if ?fmode then de_name env else key) env = (r1, p, d)"
          using prod_cases3 by blast
        obtain rep att where a: "attach_result ?fmode (report r1) key d = (rep, att)" by fastforce
        have "seen' = insert (de_name env) seen"
          "r' = (if att then r1\<lparr>report := rep, DownloadCompleted := i64 (DownloadCompleted r1 + 1)\<rparr>
                 else r1\<lparr>report := rep, DownloadOrphans := i64 (DownloadOrphans r1 + 1)\<rparr>)"
          using assms new Some True by (auto simp: download_entry_def Let_def f a)
        with download_file_frame[OF f] new show ?thesis
          by (cases att) (simp_all add: handled_def same_disabled_def algebra_simps)
      qed
    qed
  qed
qed

text \<open>A worker's invariant: every name it acted on was counted once, and no flag moved.\<close>

definition worker_inv :: "int \<Rightarrow> run \<Rightarrow> 'c dl_worker \<Rightarrow> bool" where
  "worker_inv n r w \<longleftrightarrow> finite (w_seen w) \<and> handled (w_run w) = i64 (n + int (card (w_seen w)))
     \<and> same_disabled r (w_run w)"

lemma entries_inv:
  assumes "finite seen" "handled r = i64 (n + int (card seen))" "same_disabled r0 r"
    and "foldl (download_entry uni user) (r, pool, seen) es = (r', pool', seen')"
  shows "finite seen' \<and> handled r' = i64 (n + int (card seen')) \<and> same_disabled r0 r'"
  using assms
proof (induction es arbitrary: r pool seen)
  case (Cons e es)
  obtain r1 p1 s1 where e: "download_entry uni user (r, pool, seen) e = (r1, p1, s1)" using prod_cases3 by blast
  note once = download_entry_once[OF e]
  have "finite s1" using once Cons.prems(1) by auto
  moreover have "handled r1 = i64 (n + int (card s1))"
    using once Cons.prems(1,2) by (auto simp: algebra_simps)
  moreover have "same_disabled r0 r1" using once Cons.prems(3) same_disabled_trans by blast
  ultimately show ?case using Cons.IH[of s1 r1 p1] Cons.prems(4) by (simp add: e)
qed simp

lemma worker_tick_inv:
  assumes "worker_inv n r w"
  shows "worker_inv n r (download_tick uni user w e)"
proof -
  obtain r' pool' seen' where f: "foldl (download_entry uni user) (w_run w, w_pool w, w_seen w) es = (r', pool', seen')"
    if "te_entries e = Some es" for es using prod_cases3 by (metis option.inject)
  show ?thesis
  proof (cases "te_entries e")
    case (Some es)
    have "worker_inv n r (w\<lparr>w_run := r', w_pool := pool', w_seen := seen', w_list := True\<rparr>)"
      using entries_inv[OF _ _ _ f[OF Some], of n r] assms by (simp add: worker_inv_def)
    moreover have "worker_inv n r (w\<lparr>w_run := list_failed (te_now e) user (w_run w)\<rparr>)"
      using assms same_disabled_trans[OF _ list_failed_frame(2)] by (simp add: worker_inv_def)
    ultimately show ?thesis using assms f[OF Some] Some
      by (simp add: download_tick_def) (simp add: worker_inv_def)
  next
    case None
    have "worker_inv n r (w\<lparr>w_list := b, w_run := list_failed (te_now e) user (w_run w)\<rparr>)"
      "worker_inv n r (w\<lparr>w_run := list_failed (te_now e) user (w_run w)\<rparr>)" for b
      using assms same_disabled_trans[OF _ list_failed_frame(2)] by (simp_all add: worker_inv_def)
    then show ?thesis using assms None by (simp add: download_tick_def) (simp add: worker_inv_def)
  qed
qed

interpretation downloads: component "download_tick uni user" "worker_inv n r" for uni user n r
  by unfold_locales (rule worker_tick_inv)

definition new_worker :: "run \<Rightarrow> 'c client_pool \<Rightarrow> 'c dl_worker" where
  "new_worker r pool = \<lparr>w_run = r, w_pool = pool, w_seen = {}, w_list = False, w_exited = False\<rparr>"

text \<open>C6: A download worker, over any number of polls with any listings, dial failures and transfer
  errors, accounts for every outbox name it acts on exactly once: the growth of completed plus
  orphaned downloads is the number of distinct names it has seen. And however many of its
  operations fail, the failure policy never disables it or anybody else: its failures carry a
  code the policy does not count, so the worker polls until the run ends.\<close>
theorem download_worker_accounts:
  "let w = foldl (download_tick uni user) (new_worker r pool) ticks in
     handled (w_run w) = i64 (handled r + int (card (w_seen w))) \<and> finite (w_seen w)
     \<and> (isDisabled (policy (w_run w)) u kind \<longleftrightarrow> isDisabled (policy r) u kind)"
proof -
  have "worker_inv (handled r) r (foldl (download_tick uni user) (new_worker r pool) ticks)"
    by (rule downloads.run_inv) (simp add: worker_inv_def new_worker_def handled_def)
  then show ?thesis by (simp add: worker_inv_def same_disabled_def Let_def)
qed

end
