(* ===== verification/SpeedFloor.thy ===== *)
theory SpeedFloor
  imports Run
begin

text \<open>
  The ends of a run (internal/runner/runner.go): the speed floor of the host sampler
  (\<open>sampleHostStats\<close>) as a condition on the sequence of its samples, and the stop reasons that
  reach the sealed metadata.
\<close>

section \<open>The floor as a condition on the samples\<close>

datatype verdict = Breach | Recover | NoData

text \<open>How one sample counts, given the peaks before it.\<close>

definition verdict_of :: "run_config \<Rightarrow> host_sample \<Rightarrow> sampler \<Rightarrow> verdict" where
  "verdict_of c h s0 =
     (let s = sample_peaks h s0;
          current = (case hs_mbps h of None \<Rightarrow> 0 | Some m \<Rightarrow> m);
          peak = rnd64 (of_int (peakWindowKBps s)) / 1024
      in if 0 < speed_floor_percent c \<and> floor_warmup c \<le> hs_elapsed h \<and> 0 < peak \<and> 0 < current
         then if ratio_pct current peak < speed_floor_percent c then Breach else Recover
         else NoData)"

fun verdicts :: "run_config \<Rightarrow> sampler \<Rightarrow> host_sample list \<Rightarrow> verdict list" where
  "verdicts c s [] = []"
| "verdicts c s (h # hs) = verdict_of c h s # verdicts c (sample_peaks h s) hs"

text \<open>The breaches since the last recovery; samples without data are passed over.\<close>

definition breaches :: "verdict list \<Rightarrow> int" where
  "breaches vs = int (length (filter (\<lambda>v. v = Breach) (takeWhile (\<lambda>v. v \<noteq> Recover) (rev vs))))"

lemma breaches_snoc: "breaches (vs @ [v]) =
   (case v of Breach \<Rightarrow> breaches vs + 1 | Recover \<Rightarrow> 0 | NoData \<Rightarrow> breaches vs)"
  by (cases v) (simp_all add: breaches_def)

lemma peaks_streak [simp]:
  "sample_peaks h (s\<lparr>streak := k\<rparr>) = (sample_peaks h s)\<lparr>streak := k\<rparr>"
  "streak (sample_peaks h s) = streak s"
  by (simp_all add: sample_peaks_def Let_def split: option.split)

lemma verdict_streak [simp]: "verdict_of c h (s\<lparr>streak := k\<rparr>) = verdict_of c h s"
  by (simp add: verdict_of_def Let_def)

lemma verdicts_streak [simp]: "verdicts c (s\<lparr>streak := k\<rparr>) hs = verdicts c s hs"
  by (induction hs arbitrary: s) simp_all

lemma floor_step_verdict:
  "floor_step c h s =
     (case verdict_of c h s of
        Breach \<Rightarrow> ((sample_peaks h s)\<lparr>streak := streak s + 1\<rparr>, floor_ticks c \<le> streak s + 1)
      | Recover \<Rightarrow> ((sample_peaks h s)\<lparr>streak := 0\<rparr>, False)
      | NoData \<Rightarrow> (sample_peaks h s, False))"
  by (auto simp: floor_step_def verdict_of_def Let_def)

lemma verdicts_snoc: "verdicts c s (hs @ [h]) = verdicts c s hs @ [verdict_of c h (foldl (\<lambda>s h. sample_peaks h s) s hs)]"
  by (induction hs arbitrary: s) simp_all

lemma length_verdicts [simp]: "length (verdicts c s hs) = length hs"
  by (induction hs arbitrary: s) simp_all

lemma floor_ticks_pos: "1 \<le> floor_ticks c"
  by (simp add: floor_ticks_def Let_def)

lemma floor_run_from:
  assumes "streak s = breaches vs" "breaches vs < floor_ticks c"
  shows "snd (floor_run c s hs) \<longleftrightarrow> (\<exists>k \<le> length hs. floor_ticks c \<le> breaches (vs @ take k (verdicts c s hs)))"
  using assms
proof (induction hs arbitrary: s vs)
  case (Cons h hs)
  have split: "(\<exists>k \<le> length (h # hs). floor_ticks c \<le> breaches (vs @ take k (v # ws)))
    \<longleftrightarrow> (\<exists>k \<le> length hs. floor_ticks c \<le> breaches ((vs @ [v]) @ take k ws))" for v ws
  proof
    assume "\<exists>k \<le> length (h # hs). floor_ticks c \<le> breaches (vs @ take k (v # ws))"
    then obtain k where k: "k \<le> Suc (length hs)" "floor_ticks c \<le> breaches (vs @ take k (v # ws))" by auto
    then show "\<exists>k \<le> length hs. floor_ticks c \<le> breaches ((vs @ [v]) @ take k ws)"
      using Cons.prems(2) by (cases k) auto
  next
    assume "\<exists>k \<le> length hs. floor_ticks c \<le> breaches ((vs @ [v]) @ take k ws)"
    then obtain k where "k \<le> length hs" "floor_ticks c \<le> breaches ((vs @ [v]) @ take k ws)" by blast
    then show "\<exists>k \<le> length (h # hs). floor_ticks c \<le> breaches (vs @ take k (v # ws))"
      by (intro exI[of _ "Suc k"]) simp
  qed
  let ?v = "verdict_of c h s" and ?s = "sample_peaks h s"
  have next': "snd (floor_run c t hs) \<longleftrightarrow>
      (\<exists>k \<le> length hs. floor_ticks c \<le> breaches ((vs @ [?v]) @ take k (verdicts c ?s hs)))"
    if "streak t = breaches (vs @ [?v])" "breaches (vs @ [?v]) < floor_ticks c" "verdicts c t hs = verdicts c ?s hs" for t
    using Cons.IH[OF that(1,2)] that(3) by simp
  show ?case
  proof (cases ?v)
    case Breach
    note v = Breach
    show ?thesis
    proof (cases "floor_ticks c \<le> streak s + 1")
      case True
      then have "floor_ticks c \<le> breaches (vs @ take 1 (verdicts c s (h # hs)))"
        using Cons.prems(1) by (simp add: v breaches_snoc)
      then have "\<exists>k \<le> length (h # hs). floor_ticks c \<le> breaches (vs @ take k (verdicts c s (h # hs)))"
        by (intro exI[of _ 1]) simp
      moreover have "snd (floor_run c s (h # hs))" using True by (simp add: floor_step_verdict v)
      ultimately show ?thesis by blast
    next
      case False
      then have "snd (floor_run c s (h # hs)) = snd (floor_run c (?s\<lparr>streak := streak s + 1\<rparr>) hs)"
        by (simp add: floor_step_verdict v)
      also have "\<dots> \<longleftrightarrow> (\<exists>k \<le> length hs. floor_ticks c \<le> breaches ((vs @ [?v]) @ take k (verdicts c ?s hs)))"
        by (rule next') (use False Cons.prems(1) in \<open>simp_all add: v breaches_snoc\<close>)
      finally show ?thesis using split by simp
    qed
  next
    case Recover
    have "snd (floor_run c s (h # hs)) = snd (floor_run c (?s\<lparr>streak := 0\<rparr>) hs)"
      by (simp add: floor_step_verdict Recover)
    also have "\<dots> \<longleftrightarrow> (\<exists>k \<le> length hs. floor_ticks c \<le> breaches ((vs @ [?v]) @ take k (verdicts c ?s hs)))"
      by (rule next') (use floor_ticks_pos[of c] in \<open>simp_all add: Recover breaches_snoc\<close>)
    finally show ?thesis using split by simp
  next
    case NoData
    have "snd (floor_run c s (h # hs)) = snd (floor_run c ?s hs)"
      by (simp add: floor_step_verdict NoData)
    also have "\<dots> \<longleftrightarrow> (\<exists>k \<le> length hs. floor_ticks c \<le> breaches ((vs @ [?v]) @ take k (verdicts c ?s hs)))"
      by (rule next') (use Cons.prems in \<open>simp_all add: NoData breaches_snoc\<close>)
    finally show ?thesis using split by simp
  qed
qed simp

text \<open>C7: The speed floor ends a run exactly when, at some sample, the samples below the floor since
  the last sample at or above it number the configured breach window of two-second ticks
  (rounded up, 90 seconds when not set). Every recovery starts the count again, samples during
  the warm-up or without a rate neither count nor reset it, and the floor is measured against
  the highest rate seen so far.\<close>
theorem floor_trips_iff_sustained:
  assumes "streak s = 0"
  shows "snd (floor_run c s hs) \<longleftrightarrow> (\<exists>k \<le> length hs. floor_ticks c \<le> breaches (take k (verdicts c s hs)))"
  using floor_run_from[of s "[]" c hs] assms floor_ticks_pos[of c] by (simp add: breaches_def)


section \<open>A steady load below its own peak\<close>

lemma rnd_signed_int: "0 \<le> n \<Longrightarrow> n \<le> 2 ^ 53 \<Longrightarrow> rnd_signed (of_int n) = of_int n"
  by (simp add: rnd_signed_def fl.rnd_int)

lemma seconds_minute: "seconds bucketSize = 60"
  using rnd_signed_int[of 60] by (simp add: seconds_def bucketSize_def minute_def second_def go_div_def go_rem_def rnd_signed_def)

text \<open>At a steady 60 MiB a second the bucket of the current minute shows, after \<open>t\<close> seconds, a rate
  of \<open>t\<close>.\<close>

lemma partial_bucket:
  assumes "1 \<le> t" "t \<le> 60"
  shows "bytesToMBps (60 * t * 1048576) bucketSize = of_int t"
proof -
  have "rnd_signed (of_int (60 * t * 1048576)) = of_int (60 * t * 1048576)" by (rule rnd_signed_int) (use assms in simp_all)
  moreover have "(of_int (60 * t * 1048576) :: rat) / 1048576 = of_int (60 * t)" by simp
  moreover have "rnd_signed (of_int (60 * t)) = of_int (60 * t)" by (rule rnd_signed_int) (use assms in simp_all)
  moreover have "(of_int (60 * t) :: rat) / 60 = of_int t" by simp
  moreover have "rnd_signed (of_int t) = of_int t" by (rule rnd_signed_int) (use assms in simp_all)
  ultimately show ?thesis
    by (simp only: bytesToMBps_def seconds_minute) (simp add: bucketSize_def minute_def second_def)
qed

lemma steady_ratio:
  assumes "1 \<le> t" "t \<le> 28"
  shows "ratio_pct (of_int t) 60 < 50"
proof -
  have e: "rnd64 (15 / 32) = 15 / 32" by code_simp
  have "(of_int t :: rat) \<le> of_int 28" using assms(2) by (simp only: of_int_le_iff)
  then have "rnd64 (of_int t / 60) \<le> rnd64 (15 / 32)" by (intro rnd64_mono) (use assms in simp_all)
  then have "rnd64 (of_int t / 60) * 100 \<le> of_int 47" by (simp add: e)
  moreover have "0 \<le> rnd64 (of_int t / 60) * 100" using assms by (simp add: rnd64_nonneg)
  ultimately have "rnd64 (rnd64 (of_int t / 60) * 100) \<le> of_int 47" by (intro fl.rnd_upper_int) simp_all
  then show ?thesis unfolding ratio_pct_def by linarith
qed


lemma peak_kept:
  assumes "hs_mbps h = Some (of_int t)" "1 \<le> t" "t \<le> 60" "peakWindowKBps s = 60 * 1024"
  shows "peakWindowKBps (sample_peaks h s) = 60 * 1024"
proof -
  have "rnd64 (of_int (t * 1024)) = of_int (t * 1024)" by (rule fl.rnd_int) (use assms in simp_all)
  then have "\<lfloor>rnd64 (of_int t * 1024)\<rfloor> = t * 1024"
    by (metis floor_of_int of_int_mult of_int_numeral)
  then show ?thesis using assms by (simp add: sample_peaks_def Let_def)
qed

lemma steady_verdict:
  assumes "hs_mbps h = Some (of_int t)" "1 \<le> t" "t \<le> 28" "peakWindowKBps s = 60 * 1024"
    and "50 \<le> speed_floor_percent c" "floor_warmup c \<le> hs_elapsed h"
  shows "verdict_of c h s = Breach"
proof -
  have p: "peakWindowKBps (sample_peaks h s) = 60 * 1024" using assms by (intro peak_kept[of h t]) simp_all
  have "rnd64 (of_int (60 * 1024)) = of_int (60 * 1024)" by (rule fl.rnd_int) simp_all
  then have "rnd64 (of_int (peakWindowKBps (sample_peaks h s))) / 1024 = 60" by (simp only: p)
  then show ?thesis
    using assms steady_ratio[of t] by (simp add: verdict_of_def Let_def)
qed

lemma steady_verdicts:
  assumes "list_all2 (\<lambda>h t. hs_mbps h = Some (of_int t) \<and> 1 \<le> t \<and> t \<le> 28 \<and> floor_warmup c \<le> hs_elapsed h) hs ts"
    and "peakWindowKBps s = 60 * 1024" "50 \<le> speed_floor_percent c"
  shows "verdicts c s hs = replicate (length hs) Breach"
  using assms
proof (induction arbitrary: s rule: list_all2_induct)
  case (Cons h hs t ts)
  have "peakWindowKBps (sample_peaks h s) = 60 * 1024" using Cons by (intro peak_kept[of h t]) simp_all
  then show ?case using Cons steady_verdict[of h t s c] by simp
qed simp

lemma breaches_replicate: "breaches (replicate n Breach) = int n"
  by (simp add: breaches_def)

text \<open>The floor ends runs that lost no speed. A run uploads at a steady 60 MiB a second; whole
  minutes show 60, which is the peak. The sampler reads the bucket of the current minute, so
  during the first 28 seconds of the next minute it sees 2, 4, ..., 28 MiB/s, and with a floor
  of half the peak and a breach window of up to 28 seconds that is a sustained breach: the run
  is stopped for being slow although its rate never changed.\<close>
theorem floor_trips_on_steady_load:
  assumes "50 \<le> speed_floor_percent c" "0 < speed_floor_breach c" "speed_floor_breach c \<le> 28"
    and "streak s = 0" "peakWindowKBps s = 60 * 1024"
    and "length hs = 14"
    and "\<forall>k < 14. hs_mbps (hs ! k) = Some (bytesToMBps (60 * (2 * int k + 2) * 1048576) bucketSize)"
    and "\<forall>h \<in> set hs. floor_warmup c \<le> hs_elapsed h"
  shows "snd (floor_run c s hs)"
proof -
  note len = assms(6)
  have m: "hs_mbps (hs ! k) = Some (of_int (2 * int k + 2))" if "k < 14" for k
    using assms(7) that partial_bucket[of "2 * int k + 2"] by simp
  have l2: "list_all2 (\<lambda>h t. hs_mbps h = Some (of_int t) \<and> 1 \<le> t \<and> t \<le> 28 \<and> floor_warmup c \<le> hs_elapsed h)
      hs (map (\<lambda>k. 2 * int k + 2) [0..<14])"
  proof (rule list_all2_all_nthI)
    fix i assume i: "i < length hs"
    then have "map (\<lambda>k. 2 * int k + 2) [0..<14] ! i = 2 * int i + 2" using len by (simp del: upt_conv_Cons upt_rec_numeral)
    moreover have "hs ! i \<in> set hs" using i by simp
    ultimately show "hs_mbps (hs ! i) = Some (of_int (map (\<lambda>k. 2 * int k + 2) [0..<14] ! i))
        \<and> 1 \<le> map (\<lambda>k. 2 * int k + 2) [0..<14] ! i \<and> map (\<lambda>k. 2 * int k + 2) [0..<14] ! i \<le> 28
        \<and> floor_warmup c \<le> hs_elapsed (hs ! i)"
      using assms(8) i len m[of i] by (simp only:) simp
  qed (simp add: len del: upt_conv_Cons upt_rec_numeral)
  have v: "verdicts c s hs = replicate 14 Breach" using steady_verdicts[OF l2 assms(5,1)] by (simp only: len)
  have "(speed_floor_breach c + 1) div 2 \<le> 14" using assms(3) by linarith
  then have t: "1 \<le> floor_ticks c" "floor_ticks c \<le> 14" using assms(2) by (simp_all add: floor_ticks_def Let_def)
  have "breaches (take 14 (verdicts c s hs)) = 14" by (simp add: v breaches_replicate)
  then have "\<exists>k \<le> length hs. floor_ticks c \<le> breaches ([] @ take k (verdicts c s hs))"
    using t len by (intro exI[of _ 14]) simp
  moreover have "streak s = breaches []" "breaches [] < floor_ticks c"
    using assms(4) t by (simp_all add: breaches_def)
  ultimately show ?thesis using floor_run_from[of s "[]" c hs] by blast
qed

definition demo_floor :: run_config where
  "demo_floor = demo_report_config\<lparr>speed_floor_percent := 50, speed_floor_warmup := 1, speed_floor_breach := 28\<rparr>"

definition demo_sampler :: sampler where
  "demo_sampler = \<lparr>streak = 0, peakWindowKBps = 60 * 1024, peakCPUMicroPct = 0, cpuSamplesSum = 0, cpuSamplesCount = 0,
     peakFDInUse = 0, peakGoroutines = 0, peakHeapKB = 0, peakConcurrentRuns = 0\<rparr>"

text \<open>The sample \<open>2 k\<close> seconds into the second minute.\<close>

definition demo_sample :: "nat \<Rightarrow> host_sample" where
  "demo_sample k = \<lparr>hs_cpu = 0, hs_fd = -1, hs_goroutines = 9, hs_heapMB = 0, hs_runs = 1,
     hs_mbps = Some (bytesToMBps (60 * (2 * int k + 2) * 1048576) bucketSize), hs_elapsed = (62 + 2 * int k) * second\<rparr>"

definition demo_samples :: "host_sample list" where
  "demo_samples = map demo_sample [0..<14]"

lemma demo_samples_length: "length demo_samples = 14"
  by (simp add: demo_samples_def)

theorem floor_trips_on_steady_load_witness: "snd (floor_run demo_floor demo_sampler demo_samples)"
proof (rule floor_trips_on_steady_load)
  show "\<forall>k<14. hs_mbps (demo_samples ! k) = Some (bytesToMBps (60 * (2 * int k + 2) * 1048576) bucketSize)"
    unfolding demo_samples_def by (simp del: upt_conv_Cons upt_rec_numeral) (simp add: demo_sample_def)
  show "\<forall>h \<in> set demo_samples. floor_warmup demo_floor \<le> hs_elapsed h"
    unfolding demo_samples_def
    by (simp add: demo_sample_def floor_warmup_def demo_floor_def second_def)
qed (simp_all add: demo_floor_def demo_sampler_def demo_samples_length)

theorem floor_trips_iff_sustained_witness:
  "snd (floor_run demo_floor demo_sampler demo_samples) \<longleftrightarrow>
     (\<exists>k \<le> 14. 14 \<le> breaches (take k (verdicts demo_floor demo_sampler demo_samples)))"
proof -
  have "streak demo_sampler = 0" by (simp add: demo_sampler_def)
  moreover have "floor_ticks demo_floor = 14" by (simp add: floor_ticks_def demo_floor_def Let_def)
  ultimately show ?thesis
    using floor_trips_iff_sustained[of demo_sampler demo_floor demo_samples] by (simp only: demo_samples_length)
qed

section \<open>Stop reasons\<close>

datatype stop_event = UserStop | Signal string string

fun stop_step :: "run \<Rightarrow> stop_event \<Rightarrow> run" where
  "stop_step r UserStop = Stop r"
| "stop_step r (Signal code detail) = stopWithReason code detail r"

fun reason_of :: "stop_event \<Rightarrow> string" where
  "reason_of UserStop = ''user''"
| "reason_of (Signal code detail) = code"

fun detail_of :: "stop_event \<Rightarrow> string" where
  "detail_of UserStop = []"
| "detail_of (Signal code detail) = detail"

lemma later_stops:
  "stopReason r = Some c \<Longrightarrow> stopReason (foldl stop_step r es) = Some c
     \<and> stopDetail (foldl stop_step r es) = stopDetail r
     \<and> (dispatchCancelled r \<longrightarrow> dispatchCancelled (foldl stop_step r es))"
proof (induction es arbitrary: r)
  case (Cons e es)
  have "stopReason (stop_step r e) = Some c" "stopDetail (stop_step r e) = stopDetail r"
    "dispatchCancelled r \<longrightarrow> dispatchCancelled (stop_step r e)"
    using Cons.prems by (cases e; simp add: Stop_def stopWithReason_def)+
  with Cons.IH[of "stop_step r e"] show ?case by simp
qed simp

text \<open>Whatever stops a run and in whatever order the stops arrive (the operator, the speed floor,
  the failure policy), the sealed metadata names the first of them and carries its detail and
  no other; a run nobody stopped is sealed as having reached its duration. Any stop ends the
  dispatch.\<close>
theorem sealed_reason_is_first:
  assumes "stopReason r = None" "stopDetail r = None" "\<forall>e \<in> set es. reason_of e \<noteq> []"
  shows "let r' = foldl stop_step r es; m = snd (seal_run rfc snap fault ks r') in
    (case es of
       [] \<Rightarrow> m_reason m = ''duration'' \<and> m_detail m = []
     | e # _ \<Rightarrow> m_reason m = reason_of e \<and> m_detail m = detail_of e \<and> dispatchCancelled r')"
proof (cases es)
  case Nil
  then show ?thesis using assms by (simp add: seal_run_def Let_def split_beta)
next
  case (Cons e es')
  have f: "stopReason (stop_step r e) = Some (reason_of e)" "dispatchCancelled (stop_step r e)"
    "stopDetail (stop_step r e) = (if detail_of e = [] then None else Some (detail_of e))"
    using assms(1,2) by (cases e; simp add: Stop_def stopWithReason_def Let_def)+
  have "reason_of e \<noteq> []" using assms(3) Cons by simp
  with later_stops[OF f(1), of es'] f show ?thesis
    by (simp add: Cons seal_run_def Let_def split_beta)
qed

theorem sealed_reason_is_first_witness:
  "let r' = foldl stop_step demo_run [Signal ''speed-floor'' ''slow'', UserStop];
       m = snd (seal_run (\<lambda>t. []) (metrics_Snapshot [] 0 (engine r')) None [] r')
   in m_reason m = ''speed-floor'' \<and> m_detail m = ''slow'' \<and> dispatchCancelled r'"
proof -
  have "stopReason demo_run = None" "stopDetail demo_run = None" by (simp_all add: demo_run_def)
  from sealed_reason_is_first[OF this, of "[Signal ''speed-floor'' ''slow'', UserStop]" "\<lambda>t. []"
      "metrics_Snapshot [] 0 (engine (foldl stop_step demo_run [Signal ''speed-floor'' ''slow'', UserStop]))" None "[]"]
  show ?thesis by (simp add: Let_def)
qed

end
