(* ===== verification/DumpParser.thy ===== *)
theory DumpParser
  imports GoStrings
begin

text \<open>
  The HotSpot thread-dump parser (threaddump-analyzer/internal/parser/parser.go): frames, lock
  references, threads and dumps, the parsers of the four kinds of line, and the forward-only
  loop over the lines. The line scanner of the library is outside: the input is the list of its
  lines and the error it ended with, if any. \<open>tparse\<close> stands for \<open>time.Parse\<close> with a layout.
\<close>

section \<open>Data\<close>

text \<open>The state of a thread without a state line is the empty string, here \<open>StateNone\<close>.\<close>

datatype thread_state = StateNone | StateNew | StateRunnable | StateBlocked | StateWaiting
  | StateTimedWaiting | StateTerminated | StateUnknown

record frame =
  fr_class :: string
  fr_method :: string
  fr_source :: string
  fr_native :: bool
  fr_compiled :: bool

definition frame_Sig :: "frame \<Rightarrow> string" where
  "frame_Sig f = fr_class f @ ''.'' @ fr_method f @ ''@'' @ fr_source f"

record lock_ref =
  lk_id :: string
  lk_class :: string
  lk_op :: string

definition no_lock :: lock_ref where
  "no_lock = \<lparr>lk_id = [], lk_class = [], lk_op = []\<rparr>"

record thread =
  th_name :: string
  th_id :: int
  th_daemon :: bool
  th_prio :: int
  th_osprio :: int
  th_tid :: string
  th_nid :: string
  th_cpu :: string
  th_state :: thread_state
  th_note :: string
  th_frames :: "frame list"
  th_locks :: "lock_ref list"

definition new_thread :: "string \<Rightarrow> thread" where
  "new_thread name =
     \<lparr>th_name = name, th_id = 0, th_daemon = False, th_prio = 0, th_osprio = 0, th_tid = [],
      th_nid = [], th_cpu = [], th_state = StateNone, th_note = [], th_frames = [], th_locks = []\<rparr>"

definition Holds :: "thread \<Rightarrow> lock_ref list" where
  "Holds t = filter (\<lambda>l. lk_op l = ''locked'') (th_locks t)"

definition WaitingOn :: "thread \<Rightarrow> lock_ref" where
  "WaitingOn t =
     (case find (\<lambda>l. lk_op l = ''waiting to lock'' \<or> lk_op l = ''parking to wait for'' \<or> lk_op l = ''waiting on'')
             (th_locks t) of
        None \<Rightarrow> no_lock | Some l \<Rightarrow> l)"

record dump =
  d_title :: string
  d_time :: "int option"
  d_threads :: "thread list"
  d_raw :: string

section \<open>Single lines\<close>

datatype header_error = NoOpeningQuote | NoClosingQuote

fun header_token :: "thread \<Rightarrow> string \<Rightarrow> thread" where
  "header_token t tok =
     (if has_prefix tok ''#'' then (case go_atoi (drop 1 tok) of None \<Rightarrow> t | Some v \<Rightarrow> t\<lparr>th_id := v\<rparr>)
      else if tok = ''daemon'' then t\<lparr>th_daemon := True\<rparr>
      else if has_prefix tok ''prio='' then (case go_atoi (drop 5 tok) of None \<Rightarrow> t | Some v \<Rightarrow> t\<lparr>th_prio := v\<rparr>)
      else if has_prefix tok ''os_prio='' then (case go_atoi (drop 8 tok) of None \<Rightarrow> t | Some v \<Rightarrow> t\<lparr>th_osprio := v\<rparr>)
      else if has_prefix tok ''tid='' then t\<lparr>th_tid := drop 4 tok\<rparr>
      else if has_prefix tok ''nid='' then t\<lparr>th_nid := drop 4 tok\<rparr>
      else if has_prefix tok ''cpu='' then t\<lparr>th_cpu := drop 4 tok\<rparr>
      else t)"

text \<open>The caller only passes lines that are not empty.\<close>

definition parseHeader :: "string \<Rightarrow> header_error + thread" where
  "parseHeader line =
     (if take 1 line \<noteq> [CHR 0x22] then Inl NoOpeningQuote
      else case str_index (drop 1 line) [CHR 0x22] of
          None \<Rightarrow> Inl NoClosingQuote
        | Some e \<Rightarrow> Inr (foldl header_token (new_thread (take e (drop 1 line)))
                           (str_fields (trim_space (drop (2 + e) line)))))"

definition state_of :: "string \<Rightarrow> thread_state" where
  "state_of s =
     (if s = ''RUNNABLE'' then StateRunnable else if s = ''BLOCKED'' then StateBlocked
      else if s = ''WAITING'' then StateWaiting else if s = ''TIMED_WAITING'' then StateTimedWaiting
      else if s = ''NEW'' then StateNew else if s = ''TERMINATED'' then StateTerminated
      else StateUnknown)"

definition parseStateLine :: "thread \<Rightarrow> string \<Rightarrow> thread" where
  "parseStateLine t line =
     (let rest = trim_space (trim_prefix line ''java.lang.Thread.State:'')
      in case str_index rest ''('' of
           Some i \<Rightarrow>
             if 0 < i then
               t\<lparr>th_state := state_of (trim_space (take i rest)),
                 th_note := (case str_last_index rest '')'' of
                    None \<Rightarrow> []
                  | Some c \<Rightarrow> if i < c then trim_space (take (c - (i + 1)) (drop (i + 1) rest)) else [])\<rparr>
             else t\<lparr>th_state := state_of rest, th_note := []\<rparr>
         | None \<Rightarrow> t\<lparr>th_state := state_of rest, th_note := []\<rparr>)"

definition parseAtFrame :: "string \<Rightarrow> frame option" where
  "parseAtFrame line =
     (let body = trim_space (trim_prefix line ''at '')
      in case (str_last_index body ''('', str_last_index body '')'') of
           (Some p, Some c) \<Rightarrow>
             if p = 0 \<or> c \<le> p then None
             else
               let src = take (c - (p + 1)) (drop (p + 1) body); cm = take p body
               in (case str_last_index cm ''.'' of
                     None \<Rightarrow> None
                   | Some d \<Rightarrow> if d = 0 then None
                       else Some \<lparr>fr_class = take d cm, fr_method = drop (d + 1) cm, fr_source = src,
                                  fr_native = (src = ''Native Method''), fr_compiled = (src = ''Compiled Method'')\<rparr>)
         | _ \<Rightarrow> None)"

definition parseLockLine :: "string \<Rightarrow> lock_ref option" where
  "parseLockLine line =
     (let body = trim_prefix line ''- ''
      in case (str_index body ''<'', str_index body ''>'') of
           (Some a, Some e) \<Rightarrow>
             if e < a then None
             else
               let op = trim_space (take a body);
                   cls = (case str_index (drop e body) ''(a '' of
                            None \<Rightarrow> []
                          | Some k \<Rightarrow> let rest = drop (e + k + 3) body in
                              (case str_last_index rest '')'' of
                                 None \<Rightarrow> [] | Some z \<Rightarrow> if 0 < z then take z rest else []))
               in Some \<lparr>lk_id = take (e - (a + 1)) (drop (a + 1) body), lk_class = cls,
                        lk_op = (if op = ''eliminated'' then ''locked'' else op)\<rparr>
         | _ \<Rightarrow> None)"

definition extractTimestamp :: "(string \<Rightarrow> string \<Rightarrow> int option) \<Rightarrow> string \<Rightarrow> int option" where
  "extractTimestamp tparse s =
     (let try = (\<lambda>layout. if length layout \<le> length s then tparse layout (take (length layout) s) else None)
      in case try ''2006-01-02 15:04:05'' of
           Some t \<Rightarrow> Some t
         | None \<Rightarrow> try ''2006-01-02T15:04:05'')"

definition trimLong :: "string \<Rightarrow> string" where
  "trimLong s = (if 120 < length s then take 117 s @ ''...'' else s)"

section \<open>The loop\<close>

record parse_state =
  ps_dump :: dump
  ps_current :: "thread option"
  ps_inOSY :: bool

datatype parse_error = BadHeader string header_error | ScanError string

definition close_current :: "parse_state \<Rightarrow> parse_state" where
  "close_current st =
     (case ps_current st of
        None \<Rightarrow> st
      | Some t \<Rightarrow> st\<lparr>ps_dump := (ps_dump st)\<lparr>d_threads := d_threads (ps_dump st) @ [t]\<rparr>, ps_current := None\<rparr>)"

definition body_line :: "parse_state \<Rightarrow> thread \<Rightarrow> string \<Rightarrow> parse_state" where
  "body_line st t trimmed =
     (if has_prefix trimmed ''java.lang.Thread.State:'' then st\<lparr>ps_current := Some (parseStateLine t trimmed)\<rparr>
      else if has_prefix trimmed ''at '' then
        (case parseAtFrame trimmed of
           None \<Rightarrow> st
         | Some f \<Rightarrow> st\<lparr>ps_current := Some (t\<lparr>th_frames := th_frames t @ [f]\<rparr>)\<rparr>)
      else if has_prefix trimmed ''- '' then
        if ps_inOSY st \<and> (trimmed = ''- None'' \<or> trimmed = ''- none'') then st
        else (case parseLockLine trimmed of
                None \<Rightarrow> st
              | Some l \<Rightarrow> st\<lparr>ps_current := Some (t\<lparr>th_locks := th_locks t @ [l]\<rparr>)\<rparr>)
      else if has_prefix trimmed ''Locked ownable synchronizers:'' then st\<lparr>ps_inOSY := True\<rparr>
      else if trimmed = [] then (close_current st)\<lparr>ps_inOSY := False\<rparr>
      else st)"

definition is_title :: "parse_state \<Rightarrow> string \<Rightarrow> bool" where
  "is_title st line \<longleftrightarrow> d_title (ps_dump st) = []
     \<and> (has_prefix line ''Full thread dump'' \<or> str_contains line ''thread dump'')"

definition parse_line ::
  "(string \<Rightarrow> string \<Rightarrow> int option) \<Rightarrow> parse_state \<Rightarrow> string \<Rightarrow> parse_error + parse_state" where
  "parse_line tparse st0 line =
     (let st = st0\<lparr>ps_dump := (ps_dump st0)\<lparr>d_raw := d_raw (ps_dump st0) @ line @ [CHR 0x0A]\<rparr>\<rparr> in
      if is_title st line
      then Inr (st\<lparr>ps_dump := (ps_dump st)\<lparr>d_title := line, d_time := extractTimestamp tparse line\<rparr>\<rparr>)
      else
        let trimmed = trim_space line in
        if has_prefix trimmed [CHR 0x22] then
          (case parseHeader line of
             Inl e \<Rightarrow> Inl (BadHeader (trimLong line) e)
           | Inr t \<Rightarrow> Inr ((close_current st)\<lparr>ps_current := Some t, ps_inOSY := False\<rparr>))
        else case ps_current st of
             None \<Rightarrow> Inr st
           | Some t \<Rightarrow> Inr (body_line st t trimmed))"

fun parse_lines ::
  "(string \<Rightarrow> string \<Rightarrow> int option) \<Rightarrow> parse_state \<Rightarrow> string list \<Rightarrow> parse_error + parse_state" where
  "parse_lines tparse st [] = Inr st"
| "parse_lines tparse st (l # ls) =
     (case parse_line tparse st l of Inl e \<Rightarrow> Inl e | Inr st' \<Rightarrow> parse_lines tparse st' ls)"

definition empty_dump :: dump where
  "empty_dump = \<lparr>d_title = [], d_time = None, d_threads = [], d_raw = []\<rparr>"

definition Parse ::
  "(string \<Rightarrow> string \<Rightarrow> int option) \<Rightarrow> string list \<Rightarrow> string option \<Rightarrow> parse_error + dump" where
  "Parse tparse lines scanErr =
     (case parse_lines tparse \<lparr>ps_dump = empty_dump, ps_current = None, ps_inOSY = False\<rparr> lines of
        Inl e \<Rightarrow> Inl e
      | Inr st \<Rightarrow> (case scanErr of Some e \<Rightarrow> Inl (ScanError e) | None \<Rightarrow> Inr (ps_dump (close_current st))))"


section \<open>Every header is a thread\<close>

text \<open>The header lines of a dump: those whose trimmed text starts with a quote, the title line
  apart.\<close>

fun header_lines :: "bool \<Rightarrow> string list \<Rightarrow> string list" where
  "header_lines titled [] = []"
| "header_lines titled (l # ls) =
     (if \<not> titled \<and> str_contains l ''thread dump'' then header_lines True ls
      else if has_prefix (trim_space l) [CHR 0x22] then l # header_lines titled ls
      else header_lines titled ls)"

text \<open>A header the format allows: the quoted name starts in the first column.\<close>

definition quoted :: "string \<Rightarrow> bool" where
  "quoted l \<longleftrightarrow> (\<exists>name rest. l = CHR 0x22 # name @ CHR 0x22 # rest)"

definition quoted_name :: "string \<Rightarrow> string" where
  "quoted_name l = takeWhile (\<lambda>c. c \<noteq> CHR 0x22) (tl l)"

definition names :: "parse_state \<Rightarrow> string list" where
  "names st = map th_name (d_threads (ps_dump (close_current st)))"

definition titled :: "parse_state \<Rightarrow> bool" where
  "titled st \<longleftrightarrow> d_title (ps_dump st) \<noteq> []"

lemma header_token_name [simp]: "th_name (header_token t tok) = th_name t"
  by (simp split: option.split)

lemma header_tokens_name: "th_name (foldl header_token t toks) = th_name t"
  by (induction toks arbitrary: t) (simp_all del: header_token.simps)

lemma quoted_iff: "quoted l \<longleftrightarrow> take 1 l = [CHR 0x22] \<and> CHR 0x22 \<in> set (drop 1 l)"
  by (cases l) (auto simp: quoted_def in_set_conv_decomp)

lemma parseHeader_quoted:
  "case parseHeader l of Inr t \<Rightarrow> quoted l \<and> th_name t = quoted_name l | Inl e \<Rightarrow> \<not> quoted l"
proof -
  have "take (length (takeWhile P xs)) xs = takeWhile P xs" for P and xs :: string
    by (metis append_eq_conv_conj takeWhile_dropWhile_id)
  then show ?thesis
    by (auto simp: parseHeader_def quoted_iff str_index_byte header_tokens_name new_thread_def
        quoted_name_def drop_Suc)
qed

lemma close_names [simp]: "names (close_current st) = names st"
  by (simp add: names_def close_current_def split: option.split)

lemma close_title [simp]: "d_title (ps_dump (close_current st)) = d_title (ps_dump st)"
  by (simp add: close_current_def split: option.split)

lemma state_line_name [simp]: "th_name (parseStateLine t l) = th_name t"
  by (simp add: parseStateLine_def Let_def split: option.split)

lemma names_current: "ps_current st = Some t \<Longrightarrow> th_name t' = th_name t \<Longrightarrow>
    names (st\<lparr>ps_current := Some t'\<rparr>) = names st"
  by (simp add: names_def close_current_def)

lemma names_osy [simp]: "names (st\<lparr>ps_inOSY := b\<rparr>) = names st"
  by (simp add: names_def close_current_def split: option.split)

lemma names_raw [simp]:
  "names (st\<lparr>ps_dump := (ps_dump st)\<lparr>d_raw := r\<rparr>\<rparr>) = names st"
  "names (st\<lparr>ps_dump := (ps_dump st)\<lparr>d_raw := r, d_title := u, d_time := v\<rparr>\<rparr>) = names st"
  by (simp_all add: names_def close_current_def split: option.split)

lemma body_line_names:
  assumes "ps_current st = Some t"
  shows "names (body_line st t tr) = names st" "d_title (ps_dump (body_line st t tr)) = d_title (ps_dump st)"
  using assms
  by (auto simp: body_line_def names_current split: option.split)

lemma parse_line_names:
  "case parse_line tparse st l of
     Inr st' \<Rightarrow> list_all quoted (header_lines (titled st) [l])
       \<and> names st' = names st @ map quoted_name (header_lines (titled st) [l])
       \<and> titled st' = (titled st \<or> str_contains l ''thread dump'')
   | Inl e \<Rightarrow> \<not> list_all quoted (header_lines (titled st) [l])"
proof -
  have sub: "str_contains l ''thread dump''" if "has_prefix l ''Full thread dump''"
  proof -
    from that obtain t where "l = ''Full thread dump'' @ t" by (auto simp: has_prefix_iff)
    then have "l = ''Full '' @ ''thread dump'' @ t" by simp
    then show ?thesis unfolding str_contains_iff by blast
  qed
  have nonempty: "l \<noteq> []" if "str_contains l ''thread dump''"
    using that by (auto simp: str_contains_iff)
  define st1 where "st1 = st\<lparr>ps_dump := (ps_dump st)\<lparr>d_raw := d_raw (ps_dump st) @ l @ [CHR 0x0A]\<rparr>\<rparr>"
  have st1: "names st1 = names st" "titled st1 = titled st" "is_title st1 l \<longleftrightarrow> is_title st l"
    "ps_current st1 = ps_current st"
    by (simp_all add: st1_def titled_def is_title_def)
  have title: "is_title st l \<longleftrightarrow> \<not> titled st \<and> str_contains l ''thread dump''"
    using sub by (auto simp: is_title_def titled_def)
  show ?thesis
  proof (cases "is_title st l")
    case True
    then show ?thesis using title nonempty
      by (simp add: parse_line_def Let_def is_title_def) (simp add: titled_def)
  next
    case False
    have line: "parse_line tparse st l =
      (if has_prefix (trim_space l) [CHR 0x22] then
         (case parseHeader l of Inl e \<Rightarrow> Inl (BadHeader (trimLong l) e)
          | Inr t \<Rightarrow> Inr ((close_current st1)\<lparr>ps_current := Some t, ps_inOSY := False\<rparr>))
       else case ps_current st1 of None \<Rightarrow> Inr st1 | Some t \<Rightarrow> Inr (body_line st1 t (trim_space l)))"
      using False st1(3) by (simp add: parse_line_def Let_def st1_def[symmetric])
    have t: "titled st = (titled st \<or> str_contains l ''thread dump'')" using False title by blast
    have hl: "header_lines (titled st) [l] = (if has_prefix (trim_space l) [CHR 0x22] then [l] else [])"
      using False title by auto
    show ?thesis
    proof (cases "has_prefix (trim_space l) [CHR 0x22]")
      case True
      have "names ((close_current st1)\<lparr>ps_current := Some t, ps_inOSY := b\<rparr>) = names st @ [th_name t]" for t b
        using st1(1) by (simp add: names_def close_current_def split: option.splits)
      moreover have "titled ((close_current st1)\<lparr>ps_current := Some t, ps_inOSY := b\<rparr>) = titled st" for t b
        using st1(2) by (simp add: titled_def close_current_def split: option.splits)
      ultimately show ?thesis using parseHeader_quoted[of l] True t
        unfolding line hl by (simp split: sum.splits)
    next
      case f: False
      show ?thesis
      proof (cases "ps_current st1")
        case None
        then show ?thesis using f t st1 unfolding line hl by simp
      next
        case (Some th)
        then have "names (body_line st1 th (trim_space l)) = names st" "titled (body_line st1 th (trim_space l)) = titled st"
          using body_line_names[OF Some] st1 by (simp_all add: titled_def)
        then show ?thesis using f t Some unfolding line hl by simp
      qed
    qed
  qed
qed

lemma header_lines_Cons:
  "header_lines b (l # ls) = header_lines b [l] @ header_lines (b \<or> str_contains l ''thread dump'') ls"
  by simp

lemma parse_lines_names:
  "case parse_lines tparse st ls of
     Inr st' \<Rightarrow> list_all quoted (header_lines (titled st) ls)
       \<and> names st' = names st @ map quoted_name (header_lines (titled st) ls)
   | Inl e \<Rightarrow> \<not> list_all quoted (header_lines (titled st) ls)"
proof (induction ls arbitrary: st)
  case (Cons l ls)
  show ?case
  proof (cases "parse_line tparse st l")
    case (Inl e)
    with parse_line_names[where tparse = tparse and st = st and l = l] show ?thesis by (subst header_lines_Cons) simp
  next
    case (Inr st1)
    with parse_line_names[where tparse = tparse and st = st and l = l]
    have p: "list_all quoted (header_lines (titled st) [l])"
      "names st1 = names st @ map quoted_name (header_lines (titled st) [l])"
      "titled st1 = (titled st \<or> str_contains l ''thread dump'')" by simp_all
    have step: "parse_lines tparse st (l # ls) = parse_lines tparse st1 ls" using Inr by simp
    show ?thesis unfolding step
      by (subst (1 2 3) header_lines_Cons) (use Cons.IH[of st1] p in \<open>simp split: sum.splits del: header_lines.simps(2)\<close>)
  qed
qed simp

text \<open>The parser turns every header of a dump into a thread and nothing else into one: a dump is
  accepted exactly when each of its header lines holds a closed quoted name in the first
  column, and then its threads carry those names, in the order of the file, none lost and none
  merged, whatever the lines between them look like.\<close>
theorem Parse_threads:
  "case Parse tparse lines None of
     Inr d \<Rightarrow> list_all quoted (header_lines False lines)
       \<and> map th_name (d_threads d) = map quoted_name (header_lines False lines)
   | Inl e \<Rightarrow> \<not> list_all quoted (header_lines False lines)"
proof -
  let ?st = "\<lparr>ps_dump = empty_dump, ps_current = None, ps_inOSY = False\<rparr>"
  have "titled ?st = False" "names ?st = []"
    by (simp_all add: titled_def names_def close_current_def empty_dump_def)
  with parse_lines_names[where tparse = tparse and st = ?st and ls = lines] show ?thesis
    by (auto simp: Parse_def names_def split: sum.splits)
qed

text \<open>An ownership line of a \<open>java.util.concurrent\<close> lock is parsed, but with an empty operation: it
  never counts as holding the lock.\<close>

lemma ownable_line:
  assumes "CHR ''<'' \<notin> set addr" "CHR ''>'' \<notin> set addr" "parseLockLine (''- <'' @ addr @ ''>'' @ rest) = Some l"
  shows "lk_id l = addr \<and> lk_op l = []"
proof -
  have a: "str_index (''<'' @ addr @ ''>'' @ rest) ''<'' = Some 0"
    by (simp add: str_index_byte)
  have e: "str_index (''<'' @ addr @ ''>'' @ rest) ''>'' = Some (Suc (length addr))"
    using assms(2) by (simp add: str_index_byte takeWhile_append)
  have t: "trim_space [] = []" by (simp add: trim_space_def strip_left.simps)
  have b: "trim_prefix (''- <'' @ addr @ ''>'' @ rest) ''- '' = ''<'' @ addr @ ''>'' @ rest"
    by (simp add: trim_prefix_def has_prefix_def)
  show ?thesis using assms(3) unfolding parseLockLine_def b a e Let_def
    by (auto simp: t)
qed

end
