(* ===== verification/Deadlocks.thy ===== *)
theory Deadlocks
  imports DumpParser "HOL-Library.List_Lexorder" "HOL-Library.Char_ord"
begin

text \<open>
  The deadlock search of the thread-dump analyzer (threaddump-analyzer/internal/analyzer,
  \<open>Deadlocks\<close>): the wait-for graph of a dump, the walk that follows its edges with marks, the
  scan over all waiting threads in whatever order the map yields them, and the removal of
  rotated duplicates. The graph has at most one edge per thread, so its cycles are disjoint.
\<close>

section \<open>The wait-for graph\<close>

type_synonym wait_graph = "string \<rightharpoonup> string \<times> lock_ref"

definition holderByLock :: "dump \<Rightarrow> (string \<rightharpoonup> string)" where
  "holderByLock d =
     foldl (\<lambda>m t. foldl (\<lambda>m h. m(lk_id h \<mapsto> th_name t)) m (Holds t)) Map.empty (d_threads d)"

definition wait_one :: "(string \<rightharpoonup> string) \<Rightarrow> wait_graph \<Rightarrow> thread \<Rightarrow> wait_graph" where
  "wait_one holder w t =
     (let wo = WaitingOn t in
      if lk_id wo = [] then w
      else case holder (lk_id wo) of
          None \<Rightarrow> w
        | Some h \<Rightarrow> if h = th_name t then w else w(th_name t \<mapsto> (h, wo)))"

definition waitForGraph :: "dump \<Rightarrow> wait_graph" where
  "waitForGraph d = foldl (wait_one (holderByLock d)) Map.empty (d_threads d)"

section \<open>The search\<close>

datatype mark = Unmarked | OnStack | Done

definition mark_done :: "string list \<Rightarrow> (string \<Rightarrow> mark) \<Rightarrow> string \<Rightarrow> mark" where
  "mark_done path mark = (\<lambda>n. if n \<in> set path then Done else mark n)"

text \<open>One walk from a start: the marks afterwards and the cycle it closed, if any.\<close>

partial_function (option) walk ::
  "wait_graph \<Rightarrow> (string \<Rightarrow> mark) \<Rightarrow> string list \<Rightarrow> string \<Rightarrow> ((string \<Rightarrow> mark) \<times> string list option) option" where
  "walk w mark path cur =
     (if cur \<in> set path then Some (mark_done path mark, Some (dropWhile (\<lambda>n. n \<noteq> cur) path))
      else if mark cur \<noteq> Unmarked then Some (mark_done path mark, None)
      else case w cur of
          None \<Rightarrow> Some (mark_done (path @ [cur]) (mark(cur := OnStack)), None)
        | Some e \<Rightarrow> walk w (mark(cur := OnStack)) (path @ [cur]) (fst e))"

record deadlock_cycle =
  dc_threads :: "string list"
  dc_locks :: "lock_ref list"

definition cycle_of :: "wait_graph \<Rightarrow> string list \<Rightarrow> deadlock_cycle" where
  "cycle_of w ns =
     \<lparr>dc_threads = ns, dc_locks = map (\<lambda>n. case w n of None \<Rightarrow> no_lock | Some e \<Rightarrow> snd e) ns\<rparr>"

fun scan ::
  "wait_graph \<Rightarrow> (string \<Rightarrow> mark) \<Rightarrow> deadlock_cycle list \<Rightarrow> string list \<Rightarrow> deadlock_cycle list option" where
  "scan w mark cs [] = Some cs"
| "scan w mark cs (start # ks) =
     (if mark start \<noteq> Unmarked then scan w mark cs ks
      else case walk w mark [] start of
          None \<Rightarrow> None
        | Some (mark', None) \<Rightarrow> scan w mark' cs ks
        | Some (mark', Some ns) \<Rightarrow> scan w mark' (cs @ [cycle_of w ns]) ks)"

section \<open>Removal of rotations\<close>

definition arrow :: string where
  "arrow = [CHR 0xE2, CHR 0x86, CHR 0x92]"

definition min_index :: "string list \<Rightarrow> nat" where
  "min_index ns = foldl (\<lambda>m i. if ns ! i < ns ! m then i else m) 0 [1..<length ns]"

definition canonicalCycleKey :: "string list \<Rightarrow> string" where
  "canonicalCycleKey ns =
     (if ns = [] then [] else let m = min_index ns in str_join arrow (drop m ns @ take m ns))"

fun dedupe :: "string set \<Rightarrow> deadlock_cycle list \<Rightarrow> deadlock_cycle list" where
  "dedupe seen [] = []"
| "dedupe seen (c # cs) =
     (let key = canonicalCycleKey (dc_threads c)
      in if key \<in> seen then dedupe seen cs else c # dedupe (insert key seen) cs)"

definition dedupeCycles :: "deadlock_cycle list \<Rightarrow> deadlock_cycle list" where
  "dedupeCycles cs = dedupe {} cs"

text \<open>\<open>ks\<close> is the order in which the map of edges is ranged over.\<close>

definition Deadlocks :: "string list \<Rightarrow> dump \<Rightarrow> deadlock_cycle list option" where
  "Deadlocks ks d = map_option dedupeCycles (scan (waitForGraph d) (\<lambda>n. Unmarked) [] ks)"

section \<open>Cycles of a graph with one edge per node\<close>

definition edges :: "wait_graph \<Rightarrow> (string \<times> string) set" where
  "edges w = {(x, y). \<exists>l. w x = Some (y, l)}"

lemma edges_iff [simp]: "(x, y) \<in> edges w \<longleftrightarrow> (\<exists>l. w x = Some (y, l))"
  by (simp add: edges_def)

lemma edges_det: "(x, y) \<in> edges w \<Longrightarrow> (x, z) \<in> edges w \<Longrightarrow> y = z"
  by auto

definition on_cycle :: "wait_graph \<Rightarrow> string \<Rightarrow> bool" where
  "on_cycle w x \<longleftrightarrow> (x, x) \<in> (edges w)\<^sup>+"

text \<open>From a cycle one always comes back.\<close>

lemma cycle_back:
  assumes "on_cycle w x" "(x, d) \<in> (edges w)\<^sup>*"
  shows "(d, x) \<in> (edges w)\<^sup>*"
  using assms(2)
proof (induction rule: rtrancl_induct)
  case (step d e)
  have "(d, x) \<in> (edges w)\<^sup>+"
    using step.IH assms(1) by (metis on_cycle_def rtrancl_eq_or_trancl)
  then obtain e' where "(d, e') \<in> edges w" "(e', x) \<in> (edges w)\<^sup>*" by (meson tranclD)
  with step.hyps(2) edges_det show ?case by metis
qed simp

lemma closed_reach:
  assumes "(x, y) \<in> (edges w)\<^sup>*" "x \<in> D" "\<And>u v. u \<in> D \<Longrightarrow> (u, v) \<in> edges w \<Longrightarrow> v \<in> D"
  shows "y \<in> D"
  using assms(1,2) by (induction rule: rtrancl_induct) (use assms(3) in auto)

lemma not_cyclic_closed:
  assumes "(x, d) \<in> (edges w)\<^sup>*" "d \<in> D" "x \<notin> D" "\<And>u v. u \<in> D \<Longrightarrow> (u, v) \<in> edges w \<Longrightarrow> v \<in> D"
  shows "\<not> on_cycle w x"
  using cycle_back[of w x d] closed_reach[of d x w D] assms by blast

lemma not_cyclic_end:
  assumes "(x, d) \<in> (edges w)\<^sup>*" "w d = None"
  shows "\<not> on_cycle w x"
proof
  assume "on_cycle w x"
  then have "(d, x) \<in> (edges w)\<^sup>*" "(x, x) \<in> (edges w)\<^sup>+" using cycle_back assms(1) by (auto simp: on_cycle_def)
  then have "(d, x) \<in> (edges w)\<^sup>+" by auto
  then show False using assms(2) by (metis edges_iff option.distinct(1) tranclD)
qed

definition follows :: "wait_graph \<Rightarrow> string list \<Rightarrow> bool" where
  "follows w p \<longleftrightarrow> successively (\<lambda>x y. (x, y) \<in> edges w) p"

lemma follows_snoc: "follows w (p @ [x]) \<longleftrightarrow> follows w p \<and> (p \<noteq> [] \<longrightarrow> (last p, x) \<in> edges w)"
  by (auto simp: follows_def successively_append_iff)

lemma follows_last: "follows w p \<Longrightarrow> x \<in> set p \<Longrightarrow> (x, last p) \<in> (edges w)\<^sup>*"
proof (induction p rule: rev_induct)
  case (snoc z p)
  then show ?case
    by (cases "x = z") (auto simp: follows_snoc intro: rtrancl_into_rtrancl simp del: edges_iff)
qed simp

lemma follows_hd: "follows w p \<Longrightarrow> x \<in> set p \<Longrightarrow> (hd p, x) \<in> (edges w)\<^sup>*"
proof (induction p)
  case (Cons z p)
  show ?case
  proof (cases "x = z")
    case False
    then have "x \<in> set p" using Cons.prems by simp
    moreover have "follows w p" "(z, hd p) \<in> edges w" using Cons.prems calculation
      by (auto simp: follows_def successively_Cons simp del: edges_iff)
    ultimately show ?thesis using Cons.IH by (auto intro: converse_rtrancl_into_rtrancl simp del: edges_iff)
  qed simp
qed simp

text \<open>A closed walk without repetition.\<close>

definition is_cycle :: "wait_graph \<Rightarrow> string list \<Rightarrow> bool" where
  "is_cycle w c \<longleftrightarrow> c \<noteq> [] \<and> distinct c \<and> follows w c \<and> (last c, hd c) \<in> edges w"

lemma is_cycle_closed:
  assumes "is_cycle w c" "x \<in> set c" "(x, y) \<in> edges w"
  shows "y \<in> set c"
proof -
  obtain p s where c: "c = p @ x # s" using split_list[OF assms(2)] by blast
  show ?thesis
  proof (cases s)
    case Nil
    then have "last c = x" using c by simp
    then have "y = hd c" using assms(1,3) edges_det by (metis is_cycle_def)
    then show ?thesis using assms(1) by (simp add: is_cycle_def)
  next
    case (Cons z s')
    have "(x, z) \<in> edges w"
      using assms(1) unfolding is_cycle_def follows_def c Cons by (simp add: successively_append_iff del: edges_iff)
    then have "y = z" using assms(3) edges_det by metis
    then show ?thesis using c Cons by simp
  qed
qed

lemma is_cycle_on:
  assumes "is_cycle w c" "x \<in> set c"
  shows "on_cycle w x"
proof -
  have "(x, last c) \<in> (edges w)\<^sup>*" "(hd c, x) \<in> (edges w)\<^sup>*"
    using assms follows_last follows_hd by (auto simp: is_cycle_def)
  with assms(1) show ?thesis unfolding on_cycle_def is_cycle_def
    by (meson rtrancl_into_trancl1 trancl_rtrancl_trancl)
qed


section \<open>What a walk does\<close>

text \<open>The marks during a walk: the path on the stack, everything else as before.\<close>

definition stacked :: "(string \<Rightarrow> mark) \<Rightarrow> string list \<Rightarrow> string \<Rightarrow> mark" where
  "stacked mark path = (\<lambda>n. if n \<in> set path then OnStack else mark n)"

lemma stacked_upd: "(stacked mark path)(cur := OnStack) = stacked mark (path @ [cur])"
  by (auto simp: stacked_def fun_eq_iff)

lemma done_stacked [simp]: "mark_done path (stacked mark path) = mark_done path mark"
  by (auto simp: mark_done_def stacked_def fun_eq_iff)

definition settled :: "(string \<Rightarrow> mark) \<Rightarrow> string set" where
  "settled mark = {n. mark n = Done}"

definition closed :: "wait_graph \<Rightarrow> string set \<Rightarrow> bool" where
  "closed w D \<longleftrightarrow> (\<forall>u v. u \<in> D \<longrightarrow> (u, v) \<in> edges w \<longrightarrow> v \<in> D)"

lemma closedD: "closed w D \<Longrightarrow> u \<in> D \<Longrightarrow> (u, v) \<in> edges w \<Longrightarrow> v \<in> D"
  by (simp add: closed_def)

text \<open>The outcome of a walk that ends with path \<open>p\<close>: exactly the cyclic nodes of the path, if any,
  are reported.\<close>

definition walked :: "wait_graph \<Rightarrow> string set \<Rightarrow> string list \<Rightarrow> string list option \<Rightarrow> bool" where
  "walked w D p c \<longleftrightarrow> closed w (D \<union> set p) \<and> set p \<inter> D = {} \<and>
     (case c of
        None \<Rightarrow> \<forall>x \<in> set p. \<not> on_cycle w x
      | Some ns \<Rightarrow> is_cycle w ns \<and> set ns \<subseteq> set p \<and> (\<forall>x \<in> set p. on_cycle w x \<longleftrightarrow> x \<in> set ns))"

lemma path_closed:
  assumes "follows w path" "closed w D" "path \<noteq> [] \<Longrightarrow> (last path, cur) \<in> edges w" "cur \<in> D \<union> set path"
  shows "closed w (D \<union> set path)"
  unfolding closed_def
proof (intro allI impI)
  fix u v assume u: "u \<in> D \<union> set path" and e: "(u, v) \<in> edges w"
  show "v \<in> D \<union> set path"
  proof (cases "u \<in> D")
    case True
    then show ?thesis using closedD[OF assms(2) _ e] by blast
  next
    case False
    then obtain p s where path: "path = p @ u # s" using u split_list by fastforce
    show ?thesis
    proof (cases s)
      case Nil
      then have "(u, cur) \<in> edges w" using assms(3) path by simp
      then show ?thesis using assms(4) e edges_det by metis
    next
      case (Cons z s')
      have "(u, z) \<in> edges w"
        using assms(1) unfolding follows_def path Cons by (simp add: successively_append_iff del: edges_iff)
      then have "v = z" using e edges_det by metis
      then show ?thesis using path Cons by simp
    qed
  qed
qed

lemma walked_cycle:
  assumes "follows w path" "distinct path" "closed w D" "set path \<inter> D = {}"
    and "(last path, cur) \<in> edges w" "cur \<in> set path"
  shows "walked w D path (Some (dropWhile (\<lambda>n. n \<noteq> cur) path))"
proof -
  let ?c = "dropWhile (\<lambda>n. n \<noteq> cur) path" and ?pre = "takeWhile (\<lambda>n. n \<noteq> cur) path"
  have path: "path = ?pre @ ?c" by simp
  have ne: "?c \<noteq> []" using assms(6) by (simp add: dropWhile_eq_Nil_conv)
  have hd: "hd ?c = cur" using hd_dropWhile[OF ne] by simp
  have "follows w ?c"
    using assms(1) path unfolding follows_def by (metis successively_append_iff)
  moreover have "last ?c = last path" using path ne by (metis last_appendR)
  ultimately have cyc: "is_cycle w ?c"
    using ne hd assms(2,5) by (simp add: is_cycle_def)
  have off: "\<not> on_cycle w x" if "x \<in> set ?pre" for x
  proof
    assume on: "on_cycle w x"
    have "x \<in> set path" using that by (meson set_takeWhileD)
    then have "(x, last path) \<in> (edges w)\<^sup>*" by (rule follows_last[OF assms(1)])
    then have "(x, cur) \<in> (edges w)\<^sup>*" using assms(5) by (rule rtrancl_into_rtrancl)
    then have "(cur, x) \<in> (edges w)\<^sup>*" by (rule cycle_back[OF on])
    moreover have "cur \<in> set ?c" using hd ne by (metis hd_in_set)
    ultimately have "x \<in> set ?c" by (rule closed_reach) (rule is_cycle_closed[OF cyc])
    moreover have "set ?pre \<inter> set ?c = {}" using assms(2) path by (metis distinct_append)
    ultimately show False using that by blast
  qed
  have "on_cycle w x \<longleftrightarrow> x \<in> set ?c" if "x \<in> set path" for x
  proof -
    have "x \<in> set ?pre \<or> x \<in> set ?c" using that path by (metis Un_iff set_append)
    then show ?thesis using off is_cycle_on[OF cyc] by blast
  qed
  moreover have "set ?c \<subseteq> set path" using set_dropWhileD by fast
  moreover have "closed w (D \<union> set path)"
    by (rule path_closed[OF assms(1,3)]) (use assms(5,6) in auto)
  ultimately show ?thesis using cyc assms(4) by (simp add: walked_def)
qed

lemma walked_dead_end:
  assumes "follows w path" "closed w D" "set path \<inter> D = {}"
    and "path \<noteq> [] \<Longrightarrow> (last path, cur) \<in> edges w" "cur \<in> D"
  shows "walked w D path None"
proof -
  have "\<not> on_cycle w x" if "x \<in> set path" for x
  proof -
    have "(x, last path) \<in> (edges w)\<^sup>*" by (rule follows_last[OF assms(1) that])
    moreover have "path \<noteq> []" using that by auto
    ultimately have "(x, cur) \<in> (edges w)\<^sup>*" using assms(4) by (meson rtrancl_into_rtrancl)
    then show ?thesis
      by (rule not_cyclic_closed[of _ cur _ D]) (use assms that closedD[OF assms(2)] in blast)+
  qed
  moreover have "closed w (D \<union> set path)" by (rule path_closed[OF assms(1,2)]) (use assms(4,5) in auto)
  ultimately show ?thesis using assms(3) by (simp add: walked_def)
qed

lemma walked_sink:
  assumes "follows w (path @ [cur])" "closed w D" "set (path @ [cur]) \<inter> D = {}" "w cur = None"
  shows "walked w D (path @ [cur]) None"
proof -
  have "\<not> on_cycle w x" if "x \<in> set (path @ [cur])" for x
    using follows_last[OF assms(1) that] by (intro not_cyclic_end[of x cur]) (simp_all add: assms(4))
  moreover have "closed w (D \<union> set (path @ [cur]))"
    unfolding closed_def
  proof (intro allI impI)
    fix u v assume u: "u \<in> D \<union> set (path @ [cur])" and e: "(u, v) \<in> edges w"
    have "u \<noteq> cur" using e assms(4) by auto
    show "v \<in> D \<union> set (path @ [cur])"
    proof (cases "u \<in> D")
      case True then show ?thesis using closedD[OF assms(2) _ e] by blast
    next
      case False
      then have "u \<in> set path" using u \<open>u \<noteq> cur\<close> by simp
      then obtain p s where path: "path = p @ u # s" using split_list by fastforce
      have "(u, hd (s @ [cur])) \<in> edges w"
        using assms(1) unfolding follows_def path
        by (cases s) (simp_all add: successively_append_iff del: edges_iff)
      then have "v = hd (s @ [cur])" using e edges_det by metis
      then show ?thesis using path by (cases s) auto
    qed
  qed
  ultimately show ?thesis using assms(3) by (simp add: walked_def)
qed

lemma walk_result:
  assumes "finite (dom w)" "follows w path" "distinct path" "set path \<subseteq> dom w"
    and "closed w (settled mark)" "\<forall>n. mark n \<noteq> OnStack" "set path \<inter> settled mark = {}"
    and "path \<noteq> [] \<Longrightarrow> (last path, cur) \<in> edges w"
  shows "\<exists>p c. walk w (stacked mark path) path cur = Some (mark_done p mark, c)
    \<and> walked w (settled mark) p c \<and> cur \<in> settled mark \<union> set p \<and> set path \<subseteq> set p"
  using assms
proof (induction "card (dom w - set path)" arbitrary: path cur rule: less_induct)
  case less
  let ?D = "settled mark"
  consider (closes) "cur \<in> set path" | (known) "cur \<notin> set path" "cur \<in> ?D"
    | (sink) "cur \<notin> set path" "cur \<notin> ?D" "w cur = None"
    | (on) e where "cur \<notin> set path" "cur \<notin> ?D" "w cur = Some e" by fastforce
  then show ?case
  proof cases
    case closes
    then have "path \<noteq> []" by auto
    then have "(last path, cur) \<in> edges w" by (rule less.prems(8))
    then have "walked w ?D path (Some (dropWhile (\<lambda>n. n \<noteq> cur) path))"
      using closes less.prems by (intro walked_cycle)
    then show ?thesis
      using closes by (intro exI[of _ path] exI[of _ "Some (dropWhile (\<lambda>n. n \<noteq> cur) path)"])
        (simp add: walk.simps[of w _ path cur])
  next
    case known
    have "walked w ?D path None" by (rule walked_dead_end) (use known less.prems in auto)
    moreover have "stacked mark path cur \<noteq> Unmarked" using known by (simp add: stacked_def settled_def)
    ultimately show ?thesis
      using known by (intro exI[of _ path] exI[of _ None]) (simp add: walk.simps[of w _ path cur])
  next
    case sink
    have "mark cur = Unmarked" using sink less.prems(6) by (cases "mark cur") (auto simp: settled_def)
    moreover have "walked w ?D (path @ [cur]) None"
      by (rule walked_sink) (use sink less.prems in \<open>auto simp: follows_snoc simp del: edges_iff\<close>)
    ultimately show ?thesis
      using sink by (intro exI[of _ "path @ [cur]"] exI[of _ None])
        (simp add: walk.simps[of w _ path cur] stacked_upd, auto simp: stacked_def)
  next
    case on
    have u: "mark cur = Unmarked" using on less.prems(6) by (cases "mark cur") (auto simp: settled_def)
    have f: "finite (dom w - set path)" using less.prems(1) by simp
    have "cur \<in> dom w - set path" using on by auto
    then have "card (dom w - set (path @ [cur])) < card (dom w - set path)"
      by (intro psubset_card_mono[OF f]) auto
    then have "\<exists>p c. walk w (stacked mark (path @ [cur])) (path @ [cur]) (fst e) = Some (mark_done p mark, c)
      \<and> walked w ?D p c \<and> fst e \<in> ?D \<union> set p \<and> set (path @ [cur]) \<subseteq> set p"
    proof (rule less.hyps)
      show "follows w (path @ [cur])" using less.prems(2,8) by (simp add: follows_snoc)
      show "(last (path @ [cur]), fst e) \<in> edges w" using on(3) by (cases e) simp
    qed (use less.prems on in auto)
    then obtain p c where r: "walk w (stacked mark (path @ [cur])) (path @ [cur]) (fst e) = Some (mark_done p mark, c)"
      "walked w ?D p c" "set (path @ [cur]) \<subseteq> set p" by blast
    have "walk w (stacked mark path) path cur = Some (mark_done p mark, c)"
      using on u r(1) by (simp add: walk.simps[of w _ path cur] stacked_upd) (simp add: stacked_def)
    moreover have "cur \<in> ?D \<union> set p" "set path \<subseteq> set p" using r(3) by simp_all
    ultimately show ?thesis using r(2) by blast
  qed
qed


section \<open>The scan\<close>

definition scanned :: "wait_graph \<Rightarrow> (string \<Rightarrow> mark) \<Rightarrow> deadlock_cycle list \<Rightarrow> bool" where
  "scanned w mark cs \<longleftrightarrow> (\<forall>n. mark n \<noteq> OnStack) \<and> closed w (settled mark)
     \<and> (\<forall>c \<in> set cs. is_cycle w (dc_threads c) \<and> c = cycle_of w (dc_threads c))
     \<and> distinct (concat (map dc_threads cs))
     \<and> set (concat (map dc_threads cs)) = {x \<in> settled mark. on_cycle w x}"

lemma settled_done: "settled (mark_done p mark) = settled mark \<union> set p"
  by (auto simp: settled_def mark_done_def)

lemma scan_result:
  assumes "finite (dom w)" "scanned w mark cs"
  shows "\<exists>cs' mark'. scan w mark cs ks = Some cs' \<and> scanned w mark' cs' \<and> set ks \<union> settled mark \<subseteq> settled mark'"
  using assms(2)
proof (induction ks arbitrary: mark cs)
  case Nil
  then show ?case by auto
next
  case (Cons k ks)
  show ?case
  proof (cases "mark k = Unmarked")
    case False
    then have "k \<in> settled mark" using Cons.prems by (cases "mark k") (auto simp: scanned_def settled_def)
    then show ?thesis using Cons.IH[OF Cons.prems] False by auto
  next
    case True
    have "stacked mark [] = mark" by (simp add: stacked_def fun_eq_iff)
    then obtain p c where walk: "walk w mark [] k = Some (mark_done p mark, c)"
      and r: "walked w (settled mark) p c" "k \<in> settled mark \<union> set p"
      using walk_result[OF assms(1), of "[]" mark k] Cons.prems by (auto simp: scanned_def follows_def)
    have dis: "set p \<inter> settled mark = {}" using r(1) by (simp add: walked_def)
    define new where "new = (case c of None \<Rightarrow> [] | Some ns \<Rightarrow> [cycle_of w ns])"
    have unmarked: "\<forall>n. mark_done p mark n \<noteq> OnStack"
      using Cons.prems by (simp add: scanned_def mark_done_def)
    have "scanned w (mark_done p mark) (cs @ new)"
    proof (cases c)
      case None
      have "set (concat (map dc_threads cs)) = {x \<in> settled mark \<union> set p. on_cycle w x}"
        using Cons.prems r(1) None by (auto simp: scanned_def walked_def)
      then show ?thesis
        using Cons.prems r(1) None unmarked unfolding scanned_def settled_done
        by (simp add: walked_def new_def)
    next
      case (Some ns)
      have ns: "is_cycle w ns" "set ns \<subseteq> set p" "\<forall>x \<in> set p. on_cycle w x \<longleftrightarrow> x \<in> set ns"
        using r(1) Some by (simp_all add: walked_def)
      have old: "set (concat (map dc_threads cs)) = {x \<in> settled mark. on_cycle w x}"
        "distinct (concat (map dc_threads cs))" using Cons.prems by (simp_all add: scanned_def)
      have all: "set (concat (map dc_threads (cs @ new))) = {x \<in> settled mark \<union> set p. on_cycle w x}"
        using old(1) ns Some by (auto simp: new_def cycle_of_def)
      have "set (concat (map dc_threads cs)) \<inter> set ns = {}" unfolding old(1) using ns(2) dis by blast
      moreover have "distinct ns" using ns(1) by (simp add: is_cycle_def)
      ultimately have "distinct (concat (map dc_threads (cs @ new)))"
        using old(2) Some by (simp add: new_def cycle_of_def)
      then show ?thesis
        using Cons.prems r(1) Some ns(1) all unmarked unfolding scanned_def settled_done
        by (auto simp: walked_def new_def cycle_of_def)
    qed
    from Cons.IH[OF this] obtain cs' mark' where s: "scan w (mark_done p mark) (cs @ new) ks = Some cs'"
      "scanned w mark' cs'" "set ks \<union> settled (mark_done p mark) \<subseteq> settled mark'" by blast
    have "scan w mark cs (k # ks) = Some cs'"
      using True walk s(1) by (cases c) (simp_all add: new_def)
    moreover have "set (k # ks) \<union> settled mark \<subseteq> settled mark'"
      using s(3) r(2) by (auto simp: settled_done)
    ultimately show ?thesis using s(2) by blast
  qed
qed

text \<open>Disjoint cycles have different keys, unless a thread name contains the separator.\<close>

lemma join_inj:
  assumes "\<forall>x \<in> set xs \<union> set ys. CHR 0xE2 \<notin> set x" "xs \<noteq> []" "ys \<noteq> []" "str_join arrow xs = str_join arrow ys"
  shows "xs = ys"
  using assms
proof (induction xs arbitrary: ys)
  case (Cons x xs)
  obtain y ys' where ys: "ys = y # ys'" using Cons.prems(3) by (cases ys) auto
  have tw: "takeWhile (\<lambda>c. c \<noteq> CHR 0xE2) (str_join arrow (z # zs)) = z"
    if "CHR 0xE2 \<notin> set z" for z zs
  proof -
    have "takeWhile (\<lambda>c. c \<noteq> CHR 0xE2) (z @ arrow @ t) = z" "takeWhile (\<lambda>c. c \<noteq> CHR 0xE2) z = z" for t
      using that by (auto simp: takeWhile_append arrow_def takeWhile_eq_all_conv)
    then show ?thesis by (cases zs) simp_all
  qed
  have "x = y" using tw[of x xs] tw[of y ys'] Cons.prems(1,4) ys by simp
  moreover have "xs = ys'"
  proof (cases xs)
    case Nil
    then show ?thesis using Cons.prems(4) ys \<open>x = y\<close> by (cases ys') (simp_all add: arrow_def)
  next
    case c: (Cons x' xs')
    show ?thesis
    proof (cases ys')
      case Nil
      then show ?thesis using Cons.prems(4) ys c \<open>x = y\<close> by (simp add: arrow_def)
    next
      case (Cons y' ys'')
      then have "str_join arrow xs = str_join arrow ys'" using Cons.prems(4) ys c \<open>x = y\<close> by simp
      then show ?thesis using Cons.IH[of ys'] Cons.prems(1) ys c Cons by simp
    qed
  qed
  ultimately show ?case using ys by simp
qed simp

lemma key_set:
  assumes "\<forall>x \<in> set xs \<union> set ys. CHR 0xE2 \<notin> set x" "xs \<noteq> []" "ys \<noteq> []"
    and "canonicalCycleKey xs = canonicalCycleKey ys"
  shows "set xs = set ys"
proof -
  have rot: "set (drop m zs @ take m zs) = set zs" for m and zs :: "string list"
    by (metis Un_commute append_take_drop_id set_append)
  have ne: "drop m zs @ take m zs \<noteq> []" if "zs \<noteq> []" for m and zs :: "string list"
    using rot[of m zs] that by (metis set_empty)
  have "drop (min_index xs) xs @ take (min_index xs) xs = drop (min_index ys) ys @ take (min_index ys) ys"
  proof (rule join_inj)
    show "str_join arrow (drop (min_index xs) xs @ take (min_index xs) xs) =
        str_join arrow (drop (min_index ys) ys @ take (min_index ys) ys)"
      using assms(2-4) by (simp add: canonicalCycleKey_def Let_def)
  qed (use assms(1) rot ne[OF assms(2)] ne[OF assms(3)] in metis)+
  then show ?thesis using rot by metis
qed

lemma dedupe_id:
  assumes "\<forall>c \<in> set cs. canonicalCycleKey (dc_threads c) \<notin> seen"
    and "distinct (map (canonicalCycleKey \<circ> dc_threads) cs)"
  shows "dedupe seen cs = cs"
  using assms
proof (induction cs arbitrary: seen)
  case (Cons c cs)
  have "\<forall>c' \<in> set cs. canonicalCycleKey (dc_threads c') \<noteq> canonicalCycleKey (dc_threads c)"
    using Cons.prems(2) by (simp add: image_iff) metis
  then have "dedupe (insert (canonicalCycleKey (dc_threads c)) seen) cs = cs"
    using Cons by simp
  then show ?case using Cons.prems(1) by (simp add: Let_def)
qed simp

lemma keys_distinct:
  assumes "distinct (concat (map dc_threads cs))" "\<forall>c \<in> set cs. dc_threads c \<noteq> []"
    and "\<forall>x \<in> set (concat (map dc_threads cs)). CHR 0xE2 \<notin> set x"
  shows "distinct (map (canonicalCycleKey \<circ> dc_threads) cs)"
  using assms
proof (induction cs)
  case (Cons c cs)
  have "canonicalCycleKey (dc_threads c) \<noteq> canonicalCycleKey (dc_threads c')" if "c' \<in> set cs" for c'
  proof
    assume "canonicalCycleKey (dc_threads c) = canonicalCycleKey (dc_threads c')"
    then have "set (dc_threads c) = set (dc_threads c')"
      using Cons.prems that by (intro key_set) auto
    moreover have "set (dc_threads c) \<inter> set (dc_threads c') = {}" using Cons.prems(1) that by auto
    ultimately show False using Cons.prems(2) by simp
  qed
  with Cons show ?case by auto
qed simp


section \<open>The search reports the deadlocks\<close>

lemma wait_graph_finite: "finite (dom (waitForGraph d))"
proof -
  have "finite (dom (foldl (wait_one h) w ts))" if "finite (dom w)" for h w ts
    using that by (induction ts arbitrary: w) (simp_all add: wait_one_def Let_def split: option.split)
  then show ?thesis by (simp add: waitForGraph_def)
qed

lemma cyclic_in_dom: "on_cycle w x \<Longrightarrow> x \<in> dom w"
  unfolding on_cycle_def by (metis domIff edges_iff option.distinct(1) tranclD)

text \<open>C12: The deadlock search returns, and returns exactly the deadlocks of the dump's wait-for
  graph, whatever the iteration order of the map: every reported cycle is a closed chain of
  distinct threads, each waiting with the reported lock for the next; every thread that
  transitively waits for itself is in exactly one reported cycle, and no other thread is in
  any. (Names containing the separator of the duplicate check are excluded.)\<close>
theorem Deadlocks_exact:
  assumes "enumerates ks (waitForGraph d)" "\<forall>x \<in> dom (waitForGraph d). CHR 0xE2 \<notin> set x"
  shows "\<exists>cs. Deadlocks ks d = Some cs
    \<and> (\<forall>c \<in> set cs. \<forall>i < length (dc_threads c). length (dc_locks c) = length (dc_threads c)
         \<and> waitForGraph d (dc_threads c ! i) =
             Some (dc_threads c ! (Suc i mod length (dc_threads c)), dc_locks c ! i))
    \<and> distinct (concat (map dc_threads cs))
    \<and> set (concat (map dc_threads cs)) = {x. on_cycle (waitForGraph d) x}"
proof -
  let ?w = "waitForGraph d"
  have "scanned ?w (\<lambda>n. Unmarked) []"
    by (simp add: scanned_def closed_def settled_def)
  then obtain cs mark where s: "scan ?w (\<lambda>n. Unmarked) [] ks = Some cs" "scanned ?w mark cs"
    "set ks \<subseteq> settled mark" using scan_result[OF wait_graph_finite] by blast
  have "dom ?w \<subseteq> settled mark" using s(3) assms(1) by (simp add: enumerates_def)
  then have all: "set (concat (map dc_threads cs)) = {x. on_cycle ?w x}"
    using s(2) cyclic_in_dom unfolding scanned_def by blast
  have cyc: "is_cycle ?w (dc_threads c)" "c = cycle_of ?w (dc_threads c)" if "c \<in> set cs" for c
    using s(2) that unfolding scanned_def by blast+
  have dist: "distinct (concat (map dc_threads cs))" using s(2) by (simp add: scanned_def)
  have "\<forall>x \<in> set (concat (map dc_threads cs)). CHR 0xE2 \<notin> set x"
    unfolding all using assms(2) cyclic_in_dom by blast
  moreover have "\<forall>c \<in> set cs. dc_threads c \<noteq> []" using cyc(1) by (simp add: is_cycle_def)
  ultimately have "dedupeCycles cs = cs"
    unfolding dedupeCycles_def using keys_distinct[OF dist] by (intro dedupe_id) auto
  then have "Deadlocks ks d = Some cs" using s(1) by (simp add: Deadlocks_def)
  moreover have "length (dc_locks c) = length (dc_threads c)
      \<and> ?w (dc_threads c ! i) = Some (dc_threads c ! (Suc i mod length (dc_threads c)), dc_locks c ! i)"
    if c: "c \<in> set cs" and i: "i < length (dc_threads c)" for c i
  proof -
    let ?ns = "dc_threads c"
    have locks: "dc_locks c = map (\<lambda>n. case ?w n of None \<Rightarrow> no_lock | Some e \<Rightarrow> snd e) ?ns"
      using cyc(2)[OF c] by (metis cycle_of_def deadlock_cycle.select_convs(2))
    have "(?ns ! i, ?ns ! (Suc i mod length ?ns)) \<in> edges ?w"
    proof (cases "Suc i = length ?ns")
      case True
      then have "?ns ! i = last ?ns" "?ns ! 0 = hd ?ns"
        using i by (metis diff_Suc_1 last_conv_nth length_0_conv nat.distinct(1))
          (metis i hd_conv_nth length_0_conv not_less0)
      then show ?thesis using cyc(1)[OF c] True by (simp add: is_cycle_def del: edges_iff)
    next
      case False
      then show ?thesis using cyc(1)[OF c] i
        by (simp add: is_cycle_def follows_def successively_conv_nth del: edges_iff)
    qed
    then obtain l where l: "?w (?ns ! i) = Some (?ns ! (Suc i mod length ?ns), l)" by auto
    moreover have "dc_locks c ! i = l" using i l by (simp add: locks)
    ultimately show ?thesis by (simp add: locks)
  qed
  ultimately show ?thesis using dist all by blast
qed

definition demo_thread :: "string \<Rightarrow> string \<Rightarrow> string \<Rightarrow> thread" where
  "demo_thread name held wanted =
     (new_thread name)\<lparr>th_locks := [\<lparr>lk_id = wanted, lk_class = [], lk_op = ''waiting to lock''\<rparr>,
                                     \<lparr>lk_id = held, lk_class = [], lk_op = ''locked''\<rparr>]\<rparr>"

definition demo_dump :: dump where
  "demo_dump = empty_dump\<lparr>d_threads := [demo_thread ''a'' ''1'' ''2'', demo_thread ''b'' ''2'' ''1'',
     demo_thread ''c'' ''3'' ''1'']\<rparr>"

lemma demo_graph:
  "waitForGraph demo_dump = [''a'' \<mapsto> (''b'', WaitingOn (demo_thread ''a'' ''1'' ''2'')),
     ''b'' \<mapsto> (''a'', WaitingOn (demo_thread ''b'' ''2'' ''1'')), ''c'' \<mapsto> (''a'', WaitingOn (demo_thread ''c'' ''3'' ''1''))]"
  by (simp add: waitForGraph_def wait_one_def holderByLock_def demo_dump_def demo_thread_def empty_dump_def
      new_thread_def Holds_def WaitingOn_def Let_def)

theorem Deadlocks_exact_witness:
  "\<exists>cs. Deadlocks [''c'', ''b'', ''a''] demo_dump = Some cs
     \<and> ''a'' \<in> set (concat (map dc_threads cs)) \<and> ''c'' \<notin> set (concat (map dc_threads cs))"
proof -
  let ?w = "waitForGraph demo_dump"
  have e: "enumerates [''c'', ''b'', ''a''] ?w" by (simp add: enumerates_def demo_graph insert_commute)
  have n: "\<forall>x \<in> dom ?w. CHR 0xE2 \<notin> set x" by (simp add: demo_graph)
  have ab: "(''a'', ''b'') \<in> edges ?w" "(''b'', ''a'') \<in> edges ?w" by (simp_all add: demo_graph)
  then have a: "on_cycle ?w ''a''" unfolding on_cycle_def by (meson r_into_trancl trancl_trans)
  have "\<not> on_cycle ?w ''c''"
  proof
    assume "on_cycle ?w ''c''"
    then obtain y where "(y, ''c'') \<in> edges ?w" unfolding on_cycle_def by (meson tranclD2)
    then show False by (auto simp: demo_graph split: if_splits)
  qed
  with Deadlocks_exact[OF e n] a show ?thesis by blast
qed

end
