(* ===== verification/ThreadAnalyzer.thy ===== *)
theory ThreadAnalyzer
  imports Deadlocks Float64 "HOL-Library.Product_Lexorder"
begin

text \<open>
  The other primitives of the thread-dump analyzer (threaddump-analyzer/internal/analyzer): the
  state histogram, the contention ranking, the classification of threads into pools, the stack
  signatures and the groups of threads with the same stack; and the multi-dump views of a
  session (internal/session): life lines and frozen threads. Go maps are ranged over in an
  order given as an argument; the hash is the parameter \<open>sha\<close>, the hexadecimal SHA-1 of a
  string.
\<close>

section \<open>Grouping\<close>

text \<open>Appending to the entries of a map, the way the code groups threads.\<close>

definition push :: "('k \<rightharpoonup> 'v list) \<Rightarrow> 'k \<Rightarrow> 'v \<Rightarrow> ('k \<rightharpoonup> 'v list)" where
  "push m k v = m(k \<mapsto> (case m k of None \<Rightarrow> [] | Some l \<Rightarrow> l) @ [v])"

definition grouped :: "('a \<Rightarrow> 'k) \<Rightarrow> ('a \<Rightarrow> 'v) \<Rightarrow> 'a list \<Rightarrow> ('k \<rightharpoonup> 'v list)" where
  "grouped f g xs = foldl (\<lambda>m x. push m (f x) (g x)) Map.empty xs"

lemma grouped_apply:
  "grouped f g xs k = (case filter (\<lambda>x. f x = k) xs of [] \<Rightarrow> None | ys \<Rightarrow> Some (map g ys))"
  by (induction xs rule: rev_induct) (auto simp: grouped_def push_def split: list.splits)

lemma grouped_dom: "dom (grouped f g xs) = f ` set xs"
  by (auto simp: grouped_apply filter_empty_conv dom_def split: list.splits)

section \<open>States\<close>

definition state_rank :: "thread_state \<Rightarrow> nat" where
  "state_rank s = (case s of StateNew \<Rightarrow> 0 | StateRunnable \<Rightarrow> 1 | StateBlocked \<Rightarrow> 2 | StateWaiting \<Rightarrow> 3
     | StateTimedWaiting \<Rightarrow> 4 | StateTerminated \<Rightarrow> 5 | StateUnknown \<Rightarrow> 6 | StateNone \<Rightarrow> 7)"

instantiation thread_state :: linorder
begin
definition less_eq_thread_state :: "thread_state \<Rightarrow> thread_state \<Rightarrow> bool" where
  "less_eq_thread_state a b \<longleftrightarrow> state_rank a \<le> state_rank b"
definition less_thread_state :: "thread_state \<Rightarrow> thread_state \<Rightarrow> bool" where
  "less_thread_state a b \<longleftrightarrow> state_rank a < state_rank b"
instance
  by intro_classes (auto simp: less_eq_thread_state_def less_thread_state_def state_rank_def split: thread_state.splits)
end

definition state_order :: "thread_state list" where
  "state_order = [StateNew, StateRunnable, StateBlocked, StateWaiting, StateTimedWaiting, StateTerminated, StateUnknown]"

definition count_state :: "thread list \<Rightarrow> thread_state \<Rightarrow> int" where
  "count_state ts s = int (length (filter (\<lambda>t. th_state t = s) ts))"

definition States :: "dump \<Rightarrow> (thread_state \<times> int) list" where
  "States d = filter (\<lambda>(s, n). 0 < n) (map (\<lambda>s. (s, count_state (d_threads d) s)) state_order)"

lemma States_sorted: "sorted (map fst (States d))" "distinct (map fst (States d))"
proof -
  have "map fst (States d) = filter (\<lambda>s. 0 < count_state (d_threads d) s) state_order"
    by (simp add: States_def filter_map comp_def split_beta)
  moreover have "sorted state_order" "distinct state_order"
    by (simp_all add: state_order_def less_eq_thread_state_def state_rank_def)
  ultimately show "sorted (map fst (States d))" "distinct (map fst (States d))"
    by (simp_all add: sorted_filter[of id, simplified])
qed

section \<open>Contention\<close>

record contention =
  ct_lock :: lock_ref
  ct_holder :: string
  ct_waiters :: "string list"

definition waiting_threads :: "dump \<Rightarrow> thread list" where
  "waiting_threads d = filter (\<lambda>t. lk_id (WaitingOn t) \<noteq> []) (d_threads d)"

text \<open>\<open>ks\<close> is the order in which the map of waiters is ranged over; a cut at zero or a negative
  number is no cut.\<close>

definition TopContention :: "string list \<Rightarrow> dump \<Rightarrow> int \<Rightarrow> contention list" where
  "TopContention ks d n =
     (let waiters = grouped (\<lambda>t. lk_id (WaitingOn t)) th_name (waiting_threads d);
          lockByID = foldl (\<lambda>m t. m(lk_id (WaitingOn t) \<mapsto> WaitingOn t)) Map.empty (waiting_threads d);
          out = map (\<lambda>k. \<lparr>ct_lock = (case lockByID k of None \<Rightarrow> no_lock | Some l \<Rightarrow> l),
                          ct_holder = (case holderByLock d k of None \<Rightarrow> [] | Some h \<Rightarrow> h),
                          ct_waiters = (case waiters k of None \<Rightarrow> [] | Some ws \<Rightarrow> ws)\<rparr>) ks;
          sorted = sort_key (\<lambda>c. (- int (length (ct_waiters c)), lk_id (ct_lock c))) out
      in if 0 < n \<and> n < int (length sorted) then take (nat n) sorted else sorted)"

section \<open>Pools\<close>

definition Pool :: "string \<Rightarrow> string" where
  "Pool name =
     (let p = has_prefix name in
      if p ''http-nio-'' \<or> p ''http-bio-'' \<or> p ''ajp-nio-'' \<or> p ''Catalina-utility-'' then ''tomcat''
      else if p ''qtp'' then ''jetty''
      else if p ''HikariPool-'' then ''hikari''
      else if p ''DB-pool-'' \<or> p ''C3P0PooledConnectionPoolManager'' then ''c3p0''
      else if p ''nioEventLoopGroup-'' \<or> p ''epollEventLoopGroup-'' then ''netty''
      else if p ''reactor-http-'' \<or> p ''reactor-tcp-'' then ''reactor''
      else if p ''kafka-producer-'' \<or> p ''kafka-consumer-'' \<or> p ''kafka-coordinator-'' then ''kafka''
      else if p ''default-dispatcher-'' \<or> p ''akka.actor.default-dispatcher'' then ''akka''
      else if p ''grpc-'' then ''grpc''
      else if p ''ForkJoinPool'' \<or> p ''commonPool-worker'' then ''forkjoin''
      else if p ''GC '' \<or> name = ''VM Thread'' \<or> name = ''VM Periodic Task Thread''
              \<or> name = ''Service Thread'' \<or> name = ''C1 CompilerThread'' \<or> p ''C2 CompilerThread'' then ''jvm''
      else if p ''Reference Handler'' \<or> p ''Finalizer'' \<or> p ''Signal Dispatcher'' then ''jvm-internal''
      else if p ''scheduling-'' \<or> p ''TaskScheduler-'' then ''scheduler''
      else [])"

record pool_stats =
  po_name :: string
  po_threads :: int
  po_states :: "thread_state \<Rightarrow> int"
  po_blocked_pct :: rat

definition blocked_pct :: "int \<Rightarrow> int \<Rightarrow> rat" where
  "blocked_pct b n = rnd64 (rnd64 (rnd64 (of_int b) / rnd64 (of_int n)) * 100)"

definition pool_of :: "string \<Rightarrow> thread list \<Rightarrow> pool_stats" where
  "pool_of p ts =
     \<lparr>po_name = p, po_threads = int (length ts), po_states = count_state ts,
      po_blocked_pct = blocked_pct (count_state ts StateBlocked) (int (length ts))\<rparr>"

text \<open>The aggregates of each pool, built up thread by thread.\<close>

definition pool_threads :: "dump \<Rightarrow> (string \<rightharpoonup> thread list)" where
  "pool_threads d = grouped (\<lambda>t. Pool (th_name t)) id (filter (\<lambda>t. Pool (th_name t) \<noteq> []) (d_threads d))"

definition Pools :: "string list \<Rightarrow> dump \<Rightarrow> pool_stats list" where
  "Pools ks d =
     sort_key (\<lambda>p. (- po_blocked_pct p, po_name p))
       (map (\<lambda>k. pool_of k (case pool_threads d k of None \<Rightarrow> [] | Some ts \<Rightarrow> ts)) ks)"

section \<open>Stack signatures\<close>

definition StackSig :: "(string \<Rightarrow> string) \<Rightarrow> frame list \<Rightarrow> int \<Rightarrow> string" where
  "StackSig sha frames topn =
     (let n = (if topn \<le> 0 \<or> int (length frames) < topn then length frames else nat topn)
      in take 16 (sha (if n = 0 then ''(no stack)''
                       else concat (map (\<lambda>f. frame_Sig f @ [CHR 0x0A]) (take n frames)))))"

record sig_group =
  sg_sig :: string
  sg_sample :: "frame list"
  sg_state :: thread_state
  sg_threads :: "string list"

definition sig_group_of :: "int \<Rightarrow> string \<Rightarrow> thread list \<Rightarrow> sig_group" where
  "sig_group_of topN sig ts =
     \<lparr>sg_sig = sig,
      sg_sample = (let fs = th_frames (hd ts)
                   in if 0 < topN \<and> topN \<le> int (length fs) then take (nat topN) fs else fs),
      sg_state = th_state (hd ts), sg_threads = map th_name ts\<rparr>"

definition SigGroups :: "(string \<Rightarrow> string) \<Rightarrow> string list \<Rightarrow> dump \<Rightarrow> int \<Rightarrow> sig_group list" where
  "SigGroups sha ks d topN =
     (let m = grouped (\<lambda>t. StackSig sha (th_frames t) topN) id (d_threads d)
      in sort_key (\<lambda>g. (- int (length (sg_threads g)), sg_sig g))
           (map (\<lambda>k. sig_group_of topN k (case m k of None \<Rightarrow> [] | Some ts \<Rightarrow> ts)) ks))"


section \<open>Sessions\<close>

record thread_key =
  tk_name :: string
  tk_tid :: string

definition key_of_thread :: "thread \<Rightarrow> thread_key" where
  "key_of_thread t = \<lparr>tk_name = th_name t, tk_tid = th_tid t\<rparr>"

record lifeline =
  ll_key :: thread_key
  ll_pool :: string
  ll_states :: "thread_state option list"
  ll_sigs :: "string list"
  ll_run :: nat

text \<open>A session is the list of its dumps, in upload order.\<close>

definition AddDump :: "dump list \<Rightarrow> dump \<Rightarrow> dump list" where
  "AddDump ds d = ds @ [d]"

text \<open>A key seen twice in a dump keeps the last of its threads.\<close>

definition thread_in :: "thread_key \<Rightarrow> dump \<Rightarrow> thread option" where
  "thread_in k d = find (\<lambda>t. key_of_thread t = k) (rev (d_threads d))"

text \<open>The longest stretch of equal signatures; an empty one means the thread is absent.\<close>

fun run_step :: "nat \<times> nat \<times> string \<Rightarrow> string \<Rightarrow> nat \<times> nat \<times> string" where
  "run_step (run, best, prev) s =
     (if s = [] then (0, best, [])
      else let run' = (if s = prev then run + 1 else 1) in (run', max best run', s))"

definition longest_run :: "string list \<Rightarrow> nat" where
  "longest_run sigs = fst (snd (foldl run_step (0, 0, []) sigs))"

definition lifeline_of :: "(string \<Rightarrow> string) \<Rightarrow> int \<Rightarrow> dump list \<Rightarrow> thread_key \<Rightarrow> lifeline" where
  "lifeline_of sha topn ds k =
     (let sigs = map (\<lambda>d. case thread_in k d of None \<Rightarrow> [] | Some t \<Rightarrow> StackSig sha (th_frames t) topn) ds
      in \<lparr>ll_key = k, ll_pool = Pool (tk_name k), ll_states = map (\<lambda>d. map_option th_state (thread_in k d)) ds,
          ll_sigs = sigs, ll_run = longest_run sigs\<rparr>)"

text \<open>\<open>ks\<close> ranges over the keys of the session; threads of one name and run length may come in
  any order, the model keeps that of \<open>ks\<close>.\<close>

definition Lifelines :: "(string \<Rightarrow> string) \<Rightarrow> thread_key list \<Rightarrow> dump list \<Rightarrow> int \<Rightarrow> lifeline list" where
  "Lifelines sha ks ds topFrames =
     (let topn = (if topFrames \<le> 0 then 8 else topFrames)
      in if ds = [] then []
         else sort_key (\<lambda>l. (- int (ll_run l), tk_name (ll_key l))) (map (lifeline_of sha topn ds) ks))"

definition FrozenThreads ::
  "(string \<Rightarrow> string) \<Rightarrow> thread_key list \<Rightarrow> dump list \<Rightarrow> int \<Rightarrow> int \<Rightarrow> lifeline list" where
  "FrozenThreads sha ks ds minRun topFrames =
     filter (\<lambda>l. minRun \<le> int (ll_run l)) (Lifelines sha ks ds topFrames)"

definition session_keys :: "dump list \<Rightarrow> thread_key set" where
  "session_keys ds = (\<Union>d \<in> set ds. key_of_thread ` set (d_threads d))"

section \<open>The groups partition the dump\<close>

text \<open>The stack groups of a dump are exactly its threads by equal signature: one group per
  signature that occurs, holding the names of all threads with that signature in dump order,
  the largest group first, and none depends on the iteration order of the map.\<close>
theorem SigGroups_partition:
  assumes "distinct ks" "set ks = (\<lambda>t. StackSig sha (th_frames t) topN) ` set (d_threads d)"
  shows "let gs = SigGroups sha ks d topN in
    distinct (map sg_sig gs) \<and> set (map sg_sig gs) = (\<lambda>t. StackSig sha (th_frames t) topN) ` set (d_threads d)
    \<and> (\<forall>g \<in> set gs. sg_threads g \<noteq> []
         \<and> sg_threads g = map th_name (filter (\<lambda>t. StackSig sha (th_frames t) topN = sg_sig g) (d_threads d)))
    \<and> sorted_wrt (\<lambda>g h. length (sg_threads h) \<le> length (sg_threads g)) gs
    \<and> (\<forall>ks'. distinct ks' \<longrightarrow> set ks' = set ks \<longrightarrow> SigGroups sha ks' d topN = gs)"
proof -
  let ?sig = "\<lambda>t. StackSig sha (th_frames t) topN"
  let ?g = "\<lambda>k. sig_group_of topN k (filter (\<lambda>t. ?sig t = k) (d_threads d))"
  let ?key = "\<lambda>g. (- int (length (sg_threads g)), sg_sig g)"
  have G: "SigGroups sha ks' d topN = sort_key ?key (map ?g ks')" for ks'
    unfolding SigGroups_def Let_def
    by (intro arg_cong[of _ _ "sort_key ?key"] map_cong refl) (simp add: grouped_apply split: list.split)
  have sig [simp]: "sg_sig (?g k) = k" "sg_threads (?g k) = map th_name (filter (\<lambda>t. ?sig t = k) (d_threads d))" for k
    by (simp_all add: sig_group_of_def)
  have mem: "set (SigGroups sha ks d topN) = ?g ` set ks" by (simp add: G)
  have names: "map sg_sig (map ?g ks) = ks" by (simp add: comp_def)
  have "mset (map sg_sig (SigGroups sha ks d topN)) = image_mset sg_sig (mset (map ?g ks))"
    by (simp only: G mset_map mset_sort)
  also have "\<dots> = mset ks" by (simp only: mset_map[symmetric] names)
  finally have ms: "mset (map sg_sig (SigGroups sha ks d topN)) = mset ks" .
  have d: "distinct (map sg_sig (SigGroups sha ks d topN))"
    using mset_eq_imp_distinct_iff[OF ms] assms(1) by simp
  have d': "set (map sg_sig (SigGroups sha ks d topN)) = set ks" using mset_eq_setD[OF ms] .
  have "sorted (map ?key (SigGroups sha ks d topN))" unfolding G by (rule sorted_sort_key)
  then have sw: "sorted_wrt (\<lambda>g h. length (sg_threads h) \<le> length (sg_threads g)) (SigGroups sha ks d topN)"
    unfolding sorted_map by (rule sorted_wrt_mono_rel[rotated]) auto
  have ord: "SigGroups sha ks' d topN = SigGroups sha ks d topN" if "distinct ks'" "set ks' = set ks" for ks'
  proof -
    have "mset ks' = mset ks" using that assms(1) set_eq_iff_mset_eq_distinct by blast
    then have "mset (map ?g ks') = mset (map ?g ks)" by (simp only: mset_map)
    moreover have "inj_on ?key (set (map ?g ks'))"
    proof (rule inj_onI)
      fix x y assume "x \<in> set (map ?g ks')" "y \<in> set (map ?g ks')" and e: "?key x = ?key y"
      then obtain i j where x: "x = ?g i" and y: "y = ?g j" by auto
      then have "i = j" using e sig(1) by (metis snd_conv)
      then show "x = y" using x y by simp
    qed
    ultimately show ?thesis unfolding G by (intro sort_key_inj_key_eq) simp_all
  qed
  have "sg_threads g \<noteq> [] \<and> sg_threads g = map th_name (filter (\<lambda>t. ?sig t = sg_sig g) (d_threads d))"
    if "g \<in> set (SigGroups sha ks d topN)" for g
  proof -
    obtain k where k: "g = ?g k" "k \<in> set ks" using \<open>g \<in> _\<close> unfolding mem by blast
    then show ?thesis using assms(2) by (auto simp: filter_empty_conv)
  qed
  then show ?thesis unfolding Let_def using d d' sw ord assms(2) by (intro conjI) (simp_all only:, blast+)
qed


definition demo_sha :: "string \<Rightarrow> string" where
  "demo_sha x = CHR ''0'' # x"

definition demo_stack :: "string \<Rightarrow> thread" where
  "demo_stack name = (new_thread name)\<lparr>th_frames := [\<lparr>fr_class = ''C'', fr_method = ''m'', fr_source = ''s'',
     fr_native = False, fr_compiled = False\<rparr>]\<rparr>"

definition demo_stacks :: dump where
  "demo_stacks = empty_dump\<lparr>d_threads := [demo_stack ''a'', new_thread ''b'', demo_stack ''c'']\<rparr>"

theorem SigGroups_partition_witness:
  "sg_threads ` {g. g \<in> set (SigGroups demo_sha [''0C.m@s'' @ [CHR 0x0A], ''0(no stack)''] demo_stacks 8) \<and>
     sg_sig g = ''0(no stack)''} \<subseteq> {[''b'']}"
proof -
  let ?ks = "[''0C.m@s'' @ [CHR 0x0A], ''0(no stack)'']"
  have s: "set ?ks = (\<lambda>t. StackSig demo_sha (th_frames t) 8) ` set (d_threads demo_stacks)"
    by (simp add: demo_stacks_def demo_stack_def empty_dump_def new_thread_def StackSig_def demo_sha_def
        frame_Sig_def Let_def insert_commute)
  have d: "distinct ?ks" by simp
  note part = SigGroups_partition[OF d s, unfolded Let_def]
  have "\<forall>g \<in> set (SigGroups demo_sha ?ks demo_stacks 8). sg_threads g \<noteq> [] \<and> sg_threads g =
      map th_name (filter (\<lambda>t. StackSig demo_sha (th_frames t) 8 = sg_sig g) (d_threads demo_stacks))"
    using part by (elim conjE)
  moreover have "map th_name (filter (\<lambda>t. StackSig demo_sha (th_frames t) 8 = ''0(no stack)'')
      (d_threads demo_stacks)) = [''b'']"
    by (simp add: demo_stacks_def demo_stack_def empty_dump_def new_thread_def StackSig_def demo_sha_def
        frame_Sig_def)
  ultimately show ?thesis by auto
qed

section \<open>Frozen threads\<close>

text \<open>A stretch of \<open>k\<close> equal, present signatures.\<close>

definition stretch :: "nat \<Rightarrow> string list \<Rightarrow> bool" where
  "stretch k sigs \<longleftrightarrow> (\<exists>s pre post. s \<noteq> [] \<and> sigs = pre @ replicate k s @ post)"

definition tail_run :: "string list \<Rightarrow> nat" where
  "tail_run sigs = length (takeWhile (\<lambda>s. s = last sigs) (rev sigs))"

lemma suffix_run: "(\<exists>pre. ys = pre @ replicate k x) \<longleftrightarrow> k \<le> length (takeWhile (\<lambda>s. s = x) (rev ys))"
proof
  assume "\<exists>pre. ys = pre @ replicate k x"
  then obtain pre where "ys = pre @ replicate k x" by blast
  then have "rev ys = replicate k x @ rev pre" by simp
  then show "k \<le> length (takeWhile (\<lambda>s. s = x) (rev ys))" by (simp add: takeWhile_append)
next
  let ?t = "takeWhile (\<lambda>s. s = x) (rev ys)"
  assume k: "k \<le> length ?t"
  have "?t = replicate (length ?t) x"
    by (metis (full_types) replicate_length_same set_takeWhileD)
  then have "take k ?t = replicate k x" using k by (metis min_def take_replicate)
  moreover have "rev ys = take k ?t @ drop k ?t @ dropWhile (\<lambda>s. s = x) (rev ys)"
    by (metis append.assoc append_take_drop_id takeWhile_dropWhile_id)
  ultimately have "rev ys = replicate k x @ drop k ?t @ dropWhile (\<lambda>s. s = x) (rev ys)" by simp
  then have "ys = rev (drop k ?t @ dropWhile (\<lambda>s. s = x) (rev ys)) @ replicate k x"
    by (metis rev_append rev_replicate rev_rev_ident)
  then show "\<exists>pre. ys = pre @ replicate k x" by blast
qed

lemma stretch_snoc:
  assumes "1 \<le> k"
  shows "stretch k (sigs @ [x]) \<longleftrightarrow>
    stretch k sigs \<or> x \<noteq> [] \<and> k \<le> length (takeWhile (\<lambda>s. s = x) (rev (sigs @ [x])))"
proof
  assume "stretch k (sigs @ [x])"
  then obtain s pre post where s: "s \<noteq> []" "sigs @ [x] = pre @ replicate k s @ post" by (auto simp: stretch_def)
  show "stretch k sigs \<or> x \<noteq> [] \<and> k \<le> length (takeWhile (\<lambda>s. s = x) (rev (sigs @ [x])))"
  proof (cases post rule: rev_cases)
    case Nil
    then have e: "sigs @ [x] = pre @ replicate k s" using s(2) by simp
    moreover have "last (pre @ replicate k s) = s" using assms by simp
    ultimately have "x = s" by (metis last_snoc)
    then have "k \<le> length (takeWhile (\<lambda>s. s = x) (rev (sigs @ [x])))"
      using e suffix_run[of "sigs @ [x]" k x] by simp
    then show ?thesis using \<open>x = s\<close> s(1) by simp
  next
    case (snoc post' y)
    then have "sigs = pre @ replicate k s @ post'" using s(2) by simp
    then show ?thesis using s(1) by (auto simp: stretch_def)
  qed
next
  assume "stretch k sigs \<or> x \<noteq> [] \<and> k \<le> length (takeWhile (\<lambda>s. s = x) (rev (sigs @ [x])))"
  then show "stretch k (sigs @ [x])"
  proof
    assume "stretch k sigs"
    then obtain s pre post where "s \<noteq> []" "sigs = pre @ replicate k s @ post" by (auto simp: stretch_def)
    then have "sigs @ [x] = pre @ replicate k s @ (post @ [x])" by simp
    then show ?thesis using \<open>s \<noteq> []\<close> unfolding stretch_def by blast
  next
    assume x: "x \<noteq> [] \<and> k \<le> length (takeWhile (\<lambda>s. s = x) (rev (sigs @ [x])))"
    then obtain pre where "sigs @ [x] = pre @ replicate k x" using suffix_run[of "sigs @ [x]" k x] by auto
    then have "sigs @ [x] = pre @ replicate k x @ []" by simp
    then show ?thesis using x unfolding stretch_def by blast
  qed
qed

lemma run_state:
  "case foldl run_step (0, 0, []) sigs of (run, best, prev) \<Rightarrow>
     prev = (if sigs = [] then [] else last sigs)
     \<and> run = (if sigs = [] \<or> last sigs = [] then 0 else tail_run sigs)
     \<and> (\<forall>k \<ge> 1. k \<le> best \<longleftrightarrow> stretch k sigs)"
proof (induction sigs rule: rev_induct)
  case Nil
  show ?case by (auto simp: stretch_def)
next
  case (snoc x sigs)
  obtain run best prev where f: "foldl run_step (0, 0, []) sigs = (run, best, prev)" by (metis prod_cases3)
  have IH: "prev = (if sigs = [] then [] else last sigs)" "run = (if sigs = [] \<or> last sigs = [] then 0 else tail_run sigs)"
    "\<And>k. 1 \<le> k \<Longrightarrow> k \<le> best \<longleftrightarrow> stretch k sigs" using snoc f by auto
  show ?case
  proof (cases "x = []")
    case True
    then show ?thesis using IH stretch_snoc[of _ sigs x] by (simp add: f)
  next
    case False
    have r: "(if x = prev then run + 1 else 1) = tail_run (sigs @ [x])"
      using IH(1,2) False by (cases sigs rule: rev_cases) (auto simp: tail_run_def)
    have "k \<le> max best (tail_run (sigs @ [x])) \<longleftrightarrow> stretch k (sigs @ [x])" if "1 \<le> k" for k
      using stretch_snoc[OF that, of sigs x] IH(3)[OF that] False by (auto simp: tail_run_def)
    then show ?thesis using False r by (simp add: f del: One_nat_def) (auto simp: tail_run_def)
  qed
qed

lemma longest_run_stretch: "1 \<le> k \<Longrightarrow> k \<le> longest_run sigs \<longleftrightarrow> stretch k sigs"
  using run_state[of sigs] by (auto simp: longest_run_def split: prod.splits)

lemma stretch_nth:
  "stretch k sigs \<longleftrightarrow> (\<exists>i s. s \<noteq> [] \<and> i + k \<le> length sigs \<and> (\<forall>j < k. sigs ! (i + j) = s))"
proof
  assume "stretch k sigs"
  then obtain s pre post where s: "s \<noteq> []" "sigs = pre @ replicate k s @ post" by (auto simp: stretch_def)
  then show "\<exists>i s. s \<noteq> [] \<and> i + k \<le> length sigs \<and> (\<forall>j < k. sigs ! (i + j) = s)"
    by (intro exI[of _ "length pre"] exI[of _ s]) (simp add: nth_append)
next
  assume "\<exists>i s. s \<noteq> [] \<and> i + k \<le> length sigs \<and> (\<forall>j < k. sigs ! (i + j) = s)"
  then obtain i s where s: "s \<noteq> []" "i + k \<le> length sigs" "\<forall>j < k. sigs ! (i + j) = s" by blast
  have "take k (drop i sigs) = replicate k s"
    by (rule nth_equalityI) (use s in auto)
  then have "sigs = take i sigs @ replicate k s @ drop k (drop i sigs)"
    by (metis append_take_drop_id)
  then show "stretch k sigs" using s(1) unfolding stretch_def by blast
qed

lemma find_mem: "find P xs = Some x \<Longrightarrow> P x \<and> x \<in> set xs"
  by (induction xs) (auto split: if_splits)

lemma thread_in_mem: "thread_in k d = Some t \<Longrightarrow> t \<in> set (d_threads d) \<and> key_of_thread t = k"
  unfolding thread_in_def using find_mem by fastforce

text \<open>C13: The frozen threads of a session are exactly the threads whose stack stood still: a thread
  is listed for a minimum run of \<open>k\<close> dumps if and only if there are \<open>k\<close> consecutive dumps in
  all of which it is present with one and the same stack signature. Absence from a dump breaks
  the run.\<close>
theorem FrozenThreads_exact:
  assumes "\<And>x. sha x \<noteq> []" "1 \<le> k" "set ks = session_keys ds" "0 < n"
  shows "(\<exists>l \<in> set (FrozenThreads sha ks ds (int k) n). ll_key l = key) \<longleftrightarrow>
    (\<exists>i s. i + k \<le> length ds \<and>
      (\<forall>j < k. \<exists>t. thread_in key (ds ! (i + j)) = Some t \<and> StackSig sha (th_frames t) n = s))"
proof -
  let ?sigs = "map (\<lambda>d. case thread_in key d of None \<Rightarrow> [] | Some t \<Rightarrow> StackSig sha (th_frames t) n) ds"
  have sig: "StackSig sha fs n \<noteq> []" for fs
    using assms(1) by (simp add: StackSig_def Let_def)
  have "(\<exists>l \<in> set (FrozenThreads sha ks ds (int k) n). ll_key l = key) \<longleftrightarrow> ds \<noteq> [] \<and> key \<in> set ks \<and> k \<le> longest_run ?sigs"
    using assms(4) by (auto simp: FrozenThreads_def Lifelines_def lifeline_of_def Let_def)
  also have "\<dots> \<longleftrightarrow> ds \<noteq> [] \<and> key \<in> set ks \<and> (\<exists>i s. s \<noteq> [] \<and> i + k \<le> length ds \<and> (\<forall>j < k. ?sigs ! (i + j) = s))"
    using longest_run_stretch[OF assms(2)] by (simp add: stretch_nth)
  also have "\<dots> \<longleftrightarrow> (\<exists>i s. i + k \<le> length ds \<and>
      (\<forall>j < k. \<exists>t. thread_in key (ds ! (i + j)) = Some t \<and> StackSig sha (th_frames t) n = s))" (is "?L \<longleftrightarrow> ?R")
  proof
    assume ?L
    then obtain i s where i: "s \<noteq> []" "i + k \<le> length ds" "\<forall>j < k. ?sigs ! (i + j) = s" by blast
    have "\<exists>t. thread_in key (ds ! (i + j)) = Some t \<and> StackSig sha (th_frames t) n = s" if j: "j < k" for j
    proof -
      have "?sigs ! (i + j) = s" "i + j < length ds" using i j by auto
      then show ?thesis using i(1) by (cases "thread_in key (ds ! (i + j))") auto
    qed
    with i(2) show ?R by blast
  next
    assume ?R
    then obtain i s where i: "i + k \<le> length ds"
      "\<And>j. j < k \<Longrightarrow> \<exists>t. thread_in key (ds ! (i + j)) = Some t \<and> StackSig sha (th_frames t) n = s" by blast
    obtain t where t: "thread_in key (ds ! i) = Some t" "StackSig sha (th_frames t) n = s"
      using i(2)[of 0] assms(2) by auto
    have "ds ! i \<in> set ds" "t \<in> set (d_threads (ds ! i))" "key_of_thread t = key"
      using i(1) assms(2) thread_in_mem[OF t(1)] by simp_all
    then have "key \<in> set ks" unfolding assms(3) session_keys_def by blast
    moreover have "?sigs ! (i + j) = s" if "j < k" for j using i that by fastforce
    moreover have "s \<noteq> []" using t(2) sig by blast
    moreover have "ds \<noteq> []" using i(1) assms(2) by auto
    ultimately show ?L using i(1) by blast
  qed
  finally show ?thesis .
qed


theorem FrozenThreads_exact_witness:
  "\<exists>l \<in> set (FrozenThreads demo_sha (map key_of_thread (d_threads demo_stacks)) [demo_stacks, demo_stacks] (int 2) 8).
     ll_key l = key_of_thread (demo_stack ''a'')"
proof (subst FrozenThreads_exact)
  let ?key = "key_of_thread (demo_stack ''a'')"
  show "set (map key_of_thread (d_threads demo_stacks)) = session_keys [demo_stacks, demo_stacks]"
    by (simp add: session_keys_def)
  have t: "thread_in ?key demo_stacks = Some (demo_stack ''a'')"
    by (simp add: thread_in_def demo_stacks_def key_of_thread_def demo_stack_def new_thread_def)
  have "[demo_stacks, demo_stacks] ! (0 + j) = demo_stacks" if "j < 2" for j
    using that by (simp add: less_2_cases_iff) (auto)
  then have "\<forall>j < 2. \<exists>t. thread_in ?key ([demo_stacks, demo_stacks] ! (0 + j)) = Some t
      \<and> StackSig demo_sha (th_frames t) 8 = StackSig demo_sha (th_frames (demo_stack ''a'')) 8"
    using t by simp
  then show "\<exists>i s. i + 2 \<le> length [demo_stacks, demo_stacks] \<and>
      (\<forall>j < 2. \<exists>t. thread_in ?key ([demo_stacks, demo_stacks] ! (i + j)) = Some t \<and> StackSig demo_sha (th_frames t) 8 = s)"
    by (intro exI[of _ 0] exI[of _ "StackSig demo_sha (th_frames (demo_stack ''a'')) 8"] conjI) simp_all
qed (simp_all add: demo_sha_def)

end
