(* ===== verification/Findings.thy ===== *)
theory Findings
  imports ThreadAnalyzer
begin

text \<open>
  The ranked findings of the thread-dump analyzer (threaddump-analyzer/internal/findings): the
  generators over the latest dump and over the session, and the ranking. The two fields of
  fixed prose, Detail and Remediation, are left out; the Go maps the generators range over
  come in the orders collected in \<open>orders\<close>.
\<close>

datatype severity = Critical | High | Medium | Info

record finding =
  fi_id :: string
  fi_kind :: string
  fi_sev :: severity
  fi_conf :: int
  fi_headline :: string
  fi_impact :: int
  fi_evidence :: "string list"

definition sevWeight :: "severity \<Rightarrow> int" where
  "sevWeight s = (case s of Critical \<Rightarrow> 4 | High \<Rightarrow> 3 | Medium \<Rightarrow> 2 | Info \<Rightarrow> 1)"

definition rank_key :: "finding \<Rightarrow> int \<times> int \<times> int \<times> string" where
  "rank_key f = (- sevWeight (fi_sev f), - fi_conf f, - fi_impact f, fi_id f)"

definition Sort :: "finding list \<Rightarrow> finding list" where
  "Sort fs = sort_key rank_key fs"

section \<open>Generators\<close>

text \<open>A number them list, as in a Go loop over index and value.\<close>

definition indexed :: "'a list \<Rightarrow> (nat \<times> 'a) list" where
  "indexed xs = zip [0..<length xs] xs"

definition deadlockFindings :: "deadlock_cycle list \<Rightarrow> finding list" where
  "deadlockFindings cycles =
     map (\<lambda>(i, c). \<lparr>fi_id = ''deadlock-'' @ go_itoa (int i), fi_kind = ''DEADLOCK'', fi_sev = Critical, fi_conf = 100,
        fi_headline = ''Deadlock cycle of '' @ go_itoa (int (length (dc_threads c))) @ '' threads'',
        fi_impact = int (length (dc_threads c)),
        fi_evidence = (''cycle: '' @ str_join ('' '' @ arrow @ '' '') (dc_threads c))
          # map (\<lambda>l. ''lock '' @ lk_id l @ '' ('' @ lk_class l @ '')'') (dc_locks c)\<rparr>) (indexed cycles)"

definition pool_finding :: "pool_stats \<Rightarrow> finding option" where
  "pool_finding p =
     (let blocked = po_states p StateBlocked;
          waiting = po_states p StateWaiting + po_states p StateTimedWaiting;
          n = rnd64 (of_int (po_threads p));
          ratioBlocked = rnd64 (rnd64 (of_int blocked) / n);
          ratioStuck = rnd64 (rnd64 (of_int (blocked + waiting)) / n)
      in if po_threads p < 4 then None
         else if ratioBlocked < 1 / 2 \<and> ratioStuck < rnd64 (4 / 5) then None
         else
           let crit = rnd64 (9 / 10) \<le> ratioBlocked in
           Some \<lparr>fi_id = ''pool-exhaustion-'' @ po_name p, fi_kind = ''POOL_EXHAUSTION'',
             fi_sev = (if crit then Critical else High), fi_conf = (if crit then 95 else 75),
             fi_headline = po_name p @ '' pool saturated: '' @ go_itoa (blocked + waiting) @ ''/'' @ go_itoa (po_threads p) @ '' threads stuck'',
             fi_impact = blocked + waiting,
             fi_evidence = [po_name p @ '' pool size: '' @ go_itoa (po_threads p), ''blocked: '' @ go_itoa blocked,
                            ''waiting: '' @ go_itoa waiting]\<rparr>)"

definition poolExhaustionFindings :: "pool_stats list \<Rightarrow> finding list" where
  "poolExhaustionFindings ps = List.map_filter pool_finding ps"

definition sevForWaiters :: "int \<Rightarrow> severity" where
  "sevForWaiters n = (if 50 \<le> n then Critical else if 10 \<le> n then High else Medium)"

definition shortClass :: "string \<Rightarrow> string" where
  "shortClass c = (case str_last_index c ''.'' of None \<Rightarrow> c | Some i \<Rightarrow> drop (i + 1) c)"

definition contention_finding :: "contention \<Rightarrow> finding option" where
  "contention_finding c =
     (let n = int (length (ct_waiters c));
          holder = (if ct_holder c = []
                    then ''(not present in this dump '' @ [CHR 0xE2, CHR 0x80, CHR 0x94] @ '' likely a synchronizer, AQS-style)''
                    else ct_holder c)
      in if n < 3 then None
         else Some \<lparr>fi_id = ''contention-'' @ lk_id (ct_lock c), fi_kind = ''CONTENTION'',
                fi_sev = sevForWaiters n, fi_conf = 90,
                fi_headline = go_itoa n @ '' threads contending for one lock ('' @ shortClass (lk_class (ct_lock c)) @ '')'',
                fi_impact = n,
                fi_evidence = [''holder: '' @ holder, ''waiters (sample): '' @ str_join '', '' (take 5 (ct_waiters c)),
                               ''lock id: '' @ lk_id (ct_lock c)]\<rparr>)"

definition contentionFindings :: "contention list \<Rightarrow> finding list" where
  "contentionFindings top5 = List.map_filter contention_finding top5"

text \<open>The frozen threads grouped by the signature of the last dump; a pool is named when all the
  pooled threads of a group agree on it.\<close>

definition pool_label :: "lifeline list \<Rightarrow> string" where
  "pool_label ls =
     (case remdups (filter (\<lambda>p. p \<noteq> []) (map ll_pool ls)) of [p] \<Rightarrow> p | _ \<Rightarrow> ''mixed'')"

definition last_sig :: "lifeline \<Rightarrow> string" where
  "last_sig l = (if ll_sigs l = [] then [] else last (ll_sigs l))"

definition hangFindings :: "string list \<Rightarrow> nat \<Rightarrow> lifeline list \<Rightarrow> finding list" where
  "hangFindings kg n frozen =
     (let groups = grouped last_sig id frozen;
          hits = filter (\<lambda>(sig, ls). sig \<noteq> [] \<and> ls \<noteq> [])
                   (map (\<lambda>k. (k, case groups k of None \<Rightarrow> [] | Some ls \<Rightarrow> ls)) kg)
      in map (\<lambda>(i, sig, ls).
           \<lparr>fi_id = ''hang-'' @ go_itoa (int i), fi_kind = ''HANG_SIGNATURE'', fi_sev = High,
            fi_conf = 85 + min (int n * 3) 14,
            fi_headline = go_itoa (int (length ls)) @ '' '' @ pool_label ls @ '' threads frozen across all '' @ go_itoa (int n) @ '' dumps'',
            fi_impact = int (length ls),
            fi_evidence = [''signature: '' @ sig, ''sample: '' @ str_join '', '' (take 8 (map (tk_name \<circ> ll_key) ls)),
                           ''dumps observed: '' @ go_itoa (int n)]\<rparr>) (indexed hits))"

definition antiPatternFindings :: "dump \<Rightarrow> finding list" where
  "antiPatternFindings d =
     (let finalCount = int (length (filter (\<lambda>t. \<exists>f \<in> set (th_frames t).
              fr_class f = ''java.lang.ref.Finalizer'' \<and> fr_method f = ''runFinalizer'') (d_threads d)));
          clCount = int (length (filter (\<lambda>t. th_state t = StateBlocked \<and> (\<exists>f \<in> set (th_frames t).
              has_suffix (fr_class f) ''ClassLoader'' \<and> fr_method f = ''loadClass'')) (d_threads d)))
      in (if 4 < finalCount
          then [\<lparr>fi_id = ''anti-finalizer-clog'', fi_kind = ''ANTI_PATTERN'', fi_sev = High, fi_conf = 75,
                 fi_headline = ''Finalizer queue clog: '' @ go_itoa finalCount @ '' threads in runFinalizer'',
                 fi_impact = finalCount, fi_evidence = []\<rparr>] else [])
         @ (if 5 < clCount
            then [\<lparr>fi_id = ''anti-classloading-contention'', fi_kind = ''ANTI_PATTERN'', fi_sev = Medium, fi_conf = 70,
                   fi_headline = ''Class-loading contention: '' @ go_itoa clCount @ '' threads BLOCKED in loadClass'',
                   fi_impact = clCount, fi_evidence = []\<rparr>] else []))"

definition state_name :: "thread_state \<Rightarrow> string" where
  "state_name s = (case s of StateNew \<Rightarrow> ''NEW'' | StateRunnable \<Rightarrow> ''RUNNABLE'' | StateBlocked \<Rightarrow> ''BLOCKED''
     | StateWaiting \<Rightarrow> ''WAITING'' | StateTimedWaiting \<Rightarrow> ''TIMED_WAITING'' | StateTerminated \<Rightarrow> ''TERMINATED''
     | StateUnknown \<Rightarrow> ''UNKNOWN'' | StateNone \<Rightarrow> [])"

definition dumpSummary :: "dump list \<Rightarrow> finding" where
  "dumpSummary ds =
     (let latest = last ds; nt = go_itoa (int (length (d_threads latest))); nd = go_itoa (int (length ds))
      in \<lparr>fi_id = ''summary'', fi_kind = ''SUMMARY'', fi_sev = Info, fi_conf = 100,
          fi_headline = nt @ '' threads in latest dump, '' @ nd @ '' dump(s) in session'',
          fi_impact = int (length (d_threads latest)),
          fi_evidence = [''dumps in session: '' @ nd, ''threads in latest: '' @ nt]
            @ map (\<lambda>(s, n). state_name s @ '': '' @ go_itoa n) (States latest)\<rparr>)"

record orders =
  or_wait :: "string list"
  or_pools :: "string list"
  or_locks :: "string list"
  or_keys :: "thread_key list"
  or_groups :: "string list"

definition For :: "(string \<Rightarrow> string) \<Rightarrow> orders \<Rightarrow> dump list \<Rightarrow> finding list option" where
  "For sha o1 ds =
     (if ds = [] then Some []
      else
        let latest = last ds in
        map_option (\<lambda>cycles. Sort
          (deadlockFindings cycles
           @ poolExhaustionFindings (Pools (or_pools o1) latest)
           @ contentionFindings (TopContention (or_locks o1) latest 5)
           @ (if 2 \<le> length ds
              then hangFindings (or_groups o1) (length ds)
                     (FrozenThreads sha (or_keys o1) ds (int (length ds)) 8)
              else [])
           @ antiPatternFindings latest
           @ [dumpSummary ds])) (Deadlocks (or_wait o1) latest))"

section \<open>The ranking\<close>

lemma other_confidence:
  assumes "f \<in> set (poolExhaustionFindings ps @ contentionFindings cs @ hangFindings kg n ls @ antiPatternFindings d)"
  shows "fi_conf f < 100 \<and> fi_sev f \<noteq> Info \<and> fi_kind f \<noteq> ''DEADLOCK'' \<and> fi_kind f \<noteq> ''SUMMARY''"
proof -
  consider (p) p where "pool_finding p = Some f" | (c) c where "contention_finding c = Some f"
    | (h) "f \<in> set (hangFindings kg n ls)" | (a) "f \<in> set (antiPatternFindings d)"
    using assms by (auto simp: poolExhaustionFindings_def contentionFindings_def List.map_filter_def)
  then show ?thesis
  proof cases
    case p then show ?thesis by (auto simp: pool_finding_def Let_def split: if_splits)
  next
    case c then show ?thesis by (auto simp: contention_finding_def Let_def sevForWaiters_def split: if_splits)
  next
    case h then show ?thesis by (auto simp: hangFindings_def Let_def)
  next
    case a then show ?thesis by (auto simp: antiPatternFindings_def Let_def split: if_splits)
  qed
qed

lemma deadlock_conf: "f \<in> set (deadlockFindings cs) \<Longrightarrow> fi_conf f = 100 \<and> fi_sev f = Critical \<and> fi_kind f = ''DEADLOCK''"
  by (auto simp: deadlockFindings_def)

lemma deadlock_count: "length (deadlockFindings cs) = length cs"
  by (simp add: deadlockFindings_def indexed_def)

lemma summary_facts [simp]: "fi_kind (dumpSummary ds) = ''SUMMARY''" "fi_sev (dumpSummary ds) = Info" "fi_conf (dumpSummary ds) = 100"
  by (simp_all add: dumpSummary_def Let_def)

lemma sevWeight_bounds: "sevWeight s \<le> 4" "1 \<le> sevWeight s" "sevWeight s = 4 \<longleftrightarrow> s = Critical" "sevWeight s = 1 \<longleftrightarrow> s = Info"
  by (cases s; simp add: sevWeight_def)+


text \<open>A sorted list starts with the elements whose keys are below all others.\<close>

lemma sorted_split:
  assumes "sorted (map k xs)" "\<And>x y. x \<in> set xs \<Longrightarrow> y \<in> set xs \<Longrightarrow> P x \<Longrightarrow> \<not> P y \<Longrightarrow> k x < (k y :: 'b :: linorder)"
  shows "xs = filter P xs @ filter (\<lambda>x. \<not> P x) xs"
  using assms
proof (induction xs)
  case (Cons x xs)
  show ?case
  proof (cases "P x")
    case True
    then show ?thesis using Cons by simp
  next
    case False
    have "\<not> P y" if "y \<in> set xs" for y
    proof
      assume "P y"
      then have "k y < k x" using Cons.prems(2)[of y x] that False by simp
      moreover have "k x \<le> k y" using Cons.prems(1) that by simp
      ultimately show False by simp
    qed
    then show ?thesis using False by simp
  qed
qed simp

lemma Deadlocks_returns: "\<exists>cs. Deadlocks ks d = Some cs"
proof -
  have "scanned (waitForGraph d) (\<lambda>n. Unmarked) []" by (simp add: scanned_def Deadlocks.closed_def settled_def)
  then show ?thesis using scan_result[OF wait_graph_finite] by (fastforce simp: Deadlocks_def)
qed

definition is_kind :: "string \<Rightarrow> finding \<Rightarrow> bool" where
  "is_kind k f \<longleftrightarrow> fi_kind f = k"

text \<open>The ranking puts the verdicts in the order an operator must read them: every analysis of a
  session with at least one dump produces its findings sorted by severity, the reported
  deadlocks come before everything else, one finding for each, and the summary is there once
  and comes last.\<close>
theorem For_ranked:
  assumes "ds \<noteq> []"
  shows "\<exists>fs cycles. For sha o1 ds = Some fs \<and> Deadlocks (or_wait o1) (last ds) = Some cycles
    \<and> sorted_wrt (\<lambda>f g. sevWeight (fi_sev g) \<le> sevWeight (fi_sev f)) fs
    \<and> list_all (is_kind ''DEADLOCK'') (take (length cycles) fs)
    \<and> length (filter (is_kind ''DEADLOCK'') fs) = length cycles
    \<and> filter (is_kind ''SUMMARY'') fs = [dumpSummary ds] \<and> last fs = dumpSummary ds"
proof -
  obtain cycles where c: "Deadlocks (or_wait o1) (last ds) = Some cycles" using Deadlocks_returns by blast
  obtain ps cs ks n ls where ap: "For sha o1 ds = Some (Sort (deadlockFindings cycles
      @ (poolExhaustionFindings ps @ contentionFindings cs @ hangFindings ks n ls @ antiPatternFindings (last ds))
      @ [dumpSummary ds]))"
  proof (cases "2 \<le> length ds")
    case True
    then show ?thesis using that assms c by (simp add: For_def Let_def)
  next
    case False
    have "hangFindings [] 0 [] = []" by (simp add: hangFindings_def indexed_def Let_def)
    then show ?thesis using that[of _ _ "[]" 0 "[]"] assms c False by (simp add: For_def Let_def)
  qed
  let ?mid = "poolExhaustionFindings ps @ contentionFindings cs @ hangFindings ks n ls @ antiPatternFindings (last ds)"
  let ?in = "deadlockFindings cycles @ ?mid @ [dumpSummary ds]"
  let ?fs = "Sort ?in"
  have sorted: "sorted (map rank_key ?fs)" unfolding Sort_def by (rule sorted_sort_key)
  have set: "set ?fs = set ?in" unfolding Sort_def by simp
  have filt: "filter P ?fs = sort_key rank_key (filter P ?in)" for P
    unfolding Sort_def by (rule filter_sort)
  have mid: "fi_conf f < 100" "fi_sev f \<noteq> Info" "\<not> is_kind ''DEADLOCK'' f" "\<not> is_kind ''SUMMARY'' f" if "f \<in> set ?mid" for f
    using other_confidence[OF that] by (simp_all add: is_kind_def)
  have dl: "fi_conf f = 100" "fi_sev f = Critical" "is_kind ''DEADLOCK'' f" "\<not> is_kind ''SUMMARY'' f"
    if "f \<in> set (deadlockFindings cycles)" for f using deadlock_conf[OF that] by (simp_all add: is_kind_def)
  have sm: "\<not> is_kind ''DEADLOCK'' (dumpSummary ds)" "is_kind ''SUMMARY'' (dumpSummary ds)" by (simp_all add: is_kind_def)
  have fd: "filter (is_kind ''DEADLOCK'') ?in = deadlockFindings cycles"
  proof -
    have "filter (is_kind ''DEADLOCK'') (deadlockFindings cycles) = deadlockFindings cycles" using dl(3) by (simp add: filter_id_conv)
    moreover have "filter (is_kind ''DEADLOCK'') ?mid = []" unfolding filter_empty_conv using mid(3) by blast
    ultimately show ?thesis using sm(1) by (simp only: filter_append) simp
  qed
  have fs: "filter (is_kind ''SUMMARY'') ?in = [dumpSummary ds]"
  proof -
    have "filter (is_kind ''SUMMARY'') (deadlockFindings cycles) = []" unfolding filter_empty_conv using dl(4) by blast
    moreover have "filter (is_kind ''SUMMARY'') ?mid = []" unfolding filter_empty_conv using mid(4) by blast
    ultimately show ?thesis using sm(2) by (simp only: filter_append) simp
  qed
  have below: "rank_key f < rank_key g" if "f \<in> set ?fs" "g \<in> set ?fs" "is_kind ''DEADLOCK'' f" "\<not> is_kind ''DEADLOCK'' g" for f g
  proof -
    have f: "f \<in> set (deadlockFindings cycles)" using that(1,3) mid(3) sm(1) unfolding set by auto
    have g: "g \<in> set ?mid \<or> g = dumpSummary ds" using that(2,4) dl(3) unfolding set by auto
    then have "sevWeight (fi_sev g) < 4 \<or> fi_conf g < 100" using mid(1) sevWeight_bounds(4)[of Info] by auto
    moreover have "sevWeight (fi_sev f) = 4" using dl(2)[OF f] sevWeight_bounds(3) by simp
    ultimately show ?thesis using sevWeight_bounds(1)[of "fi_sev g"] dl(1)[OF f] by (auto simp: rank_key_def less_prod_def)
  qed
  have above: "rank_key f < rank_key g" if "f \<in> set ?fs" "g \<in> set ?fs" "\<not> is_kind ''SUMMARY'' f" "is_kind ''SUMMARY'' g" for f g
  proof -
    have g: "g = dumpSummary ds" using that(2,4) dl(4) mid(4) unfolding set by auto
    have "fi_sev f \<noteq> Info" using that(1,3) dl(2) mid(2) sm(2) unfolding set by auto
    then have "1 < sevWeight (fi_sev f)" using sevWeight_bounds(2,4)[of "fi_sev f"] by linarith
    then show ?thesis using g sevWeight_bounds(4)[of Info] by (simp add: rank_key_def less_prod_def)
  qed
  have split1: "?fs = filter (is_kind ''DEADLOCK'') ?fs @ filter (\<lambda>f. \<not> is_kind ''DEADLOCK'' f) ?fs"
    by (rule sorted_split[OF sorted]) (rule below)
  have split2: "?fs = filter (\<lambda>f. \<not> is_kind ''SUMMARY'' f) ?fs @ filter (\<lambda>f. \<not> \<not> is_kind ''SUMMARY'' f) ?fs"
    by (rule sorted_split[OF sorted]) (use above in simp)
  have nd: "length (filter (is_kind ''DEADLOCK'') ?fs) = length cycles"
    unfolding filt fd by (simp add: deadlock_count)
  have ns: "filter (is_kind ''SUMMARY'') ?fs = [dumpSummary ds]" unfolding filt fs by simp
  have "take (length cycles) ?fs = filter (is_kind ''DEADLOCK'') ?fs"
    by (subst split1) (simp only: nd[symmetric] append_eq_conv_conj[symmetric] take_append take_all_iff diff_self_eq_0 take_0 append_Nil2 le_refl simp_thms)
  then have "list_all (is_kind ''DEADLOCK'') (take (length cycles) ?fs)" by (simp add: list_all_iff)
  moreover have "last ?fs = dumpSummary ds"
    by (subst split2) (use ns in simp)
  moreover have "sorted_wrt (\<lambda>f g. sevWeight (fi_sev g) \<le> sevWeight (fi_sev f)) ?fs"
    using sorted unfolding sorted_map
    by (rule sorted_wrt_mono_rel[rotated]) (auto simp: rank_key_def less_eq_prod_def)
  ultimately show ?thesis using ap c nd ns by blast
qed

theorem For_ranked_witness:
  "\<exists>fs. For demo_sha \<lparr>or_wait = [''a'', ''b'', ''c''], or_pools = [], or_locks = [], or_keys = [], or_groups = []\<rparr> [demo_dump] = Some fs
     \<and> last fs = dumpSummary [demo_dump]"
  using For_ranked[of "[demo_dump]" demo_sha "\<lparr>or_wait = [''a'', ''b'', ''c''], or_pools = [], or_locks = [], or_keys = [], or_groups = []\<rparr>"]
  by blast

end
