(* ===== verification/Transition.thy ===== *)
theory Transition
  imports Prelude
begin

text \<open>
  The interface of a component that runs as a step relation: several clients move one shared
  state, and an invariant that every step keeps holds in every reachable state. \<open>simulation\<close>
  adds an abstraction under which every step is one step of a specification, or none.
\<close>

locale transition =
  fixes step :: "'s \<Rightarrow> 's \<Rightarrow> bool"
    and inv :: "'s \<Rightarrow> bool"
  assumes step_keeps: "inv s \<Longrightarrow> step s s' \<Longrightarrow> inv s'"
begin

lemma reach_keeps: "step\<^sup>*\<^sup>* s s' \<Longrightarrow> inv s \<Longrightarrow> inv s'"
  by (induction rule: rtranclp_induct) (simp_all add: step_keeps)

end

locale simulation = transition step inv
  for step :: "'s \<Rightarrow> 's \<Rightarrow> bool" and inv +
  fixes abs :: "'s \<Rightarrow> 'a"
    and astep :: "'a \<Rightarrow> 'a \<Rightarrow> bool"
  assumes step_simulates: "inv s \<Longrightarrow> step s s' \<Longrightarrow> astep\<^sup>*\<^sup>* (abs s) (abs s')"
begin

lemma reach_simulates: "step\<^sup>*\<^sup>* s s' \<Longrightarrow> inv s \<Longrightarrow> astep\<^sup>*\<^sup>* (abs s) (abs s')"
proof (induction rule: rtranclp_induct)
  case (step s' s'')
  then have "inv s'" by (simp add: reach_keeps)
  with step show ?case by (meson rtranclp_trans step_simulates)
qed simp

end

end
