(* ===== verification/MockFs.thy ===== *)
theory MockFs
  imports GoStrings Transition
begin

text \<open>
  The in-process SFTP server (mocksftp/server.go): the map of files shared by all connections,
  the per-user view that resolves client paths into it, the write handles, and the lazy
  promotion that renames a finished upload, routes a copy into the outbox of the paired user
  and files one under \<open>sent\<close>. The FTP server of the theory MockFtp works on the same map.

  Times are nanoseconds; \<open>completedAt = None\<close> is the zero time. A file state is reached
  through one key only (promotion and renaming move the pointer), so the map holds the states
  themselves. Content is a byte string, None the nil slice. The order in which a range visits
  the files, the random track ids and the clock are arguments.
\<close>

section \<open>State\<close>

record fileState =
  st_size :: int
  completedAt :: "int option"
  trackID :: string
  st_content :: "string option"

definition new_fileState :: fileState where
  "new_fileState = \<lparr>st_size = 0, completedAt = None, trackID = [], st_content = None\<rparr>"

record mockFS =
  files :: "string \<rightharpoonup> fileState"
  fs_delay :: int
  routes :: "string \<rightharpoonup> string"
  failUsers :: "string set"
  fs_persist :: bool
  evictAfterRead :: bool

definition newMockFS :: "int \<Rightarrow> (string \<rightharpoonup> string) \<Rightarrow> mockFS" where
  "newMockFS d rs = \<lparr>files = Map.empty, fs_delay = d, routes = rs, failUsers = {},
     fs_persist = False, evictAfterRead = False\<rparr>"

definition file_key :: "string \<Rightarrow> string \<Rightarrow> string \<Rightarrow> string" where
  "file_key user folder name = user @ ''/'' @ folder @ ''/'' @ name"

section \<open>Options\<close>

definition ParsePairs :: "string \<Rightarrow> (string \<rightharpoonup> string)" where
  "ParsePairs s =
     (if s = [] then Map.empty
      else foldl (\<lambda>out kv. case split_n 2 (CHR ''='') (trim_space kv) of
                    [a, b] \<Rightarrow> if a \<noteq> [] \<and> b \<noteq> [] then out(a \<mapsto> b) else out
                  | _ \<Rightarrow> out) Map.empty (split_byte (CHR '','') s))"

definition ParseFailUsers :: "string \<Rightarrow> string set" where
  "ParseFailUsers s =
     (if s = [] then {} else set (filter (\<lambda>u. u \<noteq> []) (map trim_space (split_byte (CHR '','') s))))"

definition Start_delay :: "int \<Rightarrow> int" where
  "Start_delay d = (if d = 0 then 2000000000 else d)"

definition PasswordCallback :: "string \<Rightarrow> bool" where
  "PasswordCallback pass \<longleftrightarrow> pass \<noteq> []"

text \<open>Which requests on a channel are acknowledged: the subsystem request for sftp.\<close>

definition subsystem_ok :: "string \<Rightarrow> string \<Rightarrow> bool" where
  "subsystem_ok typ payload \<longleftrightarrow> typ = ''subsystem'' \<and> 4 < length payload \<and> drop 4 payload = ''sftp''"

section \<open>Paths of a user's view\<close>

definition resolve :: "string \<Rightarrow> string \<Rightarrow> string \<times> string \<times> string" where
  "resolve user p =
     (let q = trim_prefix (path_clean p) ''/'';
          (folder, name) = (case split_n 2 (CHR ''/'') q of
                              [a, b] \<Rightarrow> (a, b) | _ \<Rightarrow> (''inbox'', q))
      in (folder, name, file_key user folder name))"

definition dirKey :: "string \<Rightarrow> string \<Rightarrow> string \<times> string" where
  "dirKey user p =
     (let q = trim_prefix (path_clean p) ''/'';
          folder = (if q = [] \<or> q = ''.'' then ''inbox'' else hd (split_n 2 (CHR ''/'') q))
      in (folder, user @ ''/'' @ folder @ ''/''))"

section \<open>Readers\<close>

datatype reader = ContentReader string | ZeroReader int

text \<open>\<open>ReadAt\<close> into a buffer of \<open>n\<close> bytes: the bytes read and whether it reports EOF. The first
  clause is the library's \<open>bytes.Reader\<close>.\<close>

fun ReadAt :: "reader \<Rightarrow> nat \<Rightarrow> nat \<Rightarrow> string \<times> bool" where
  "ReadAt (ContentReader b) n off =
     (if length b \<le> off then ([], True)
      else let got = take n (drop off b) in (got, length got < n))"
| "ReadAt (ZeroReader sz) n off =
     (if sz \<le> int off then ([], True)
      else let m = (if sz < int off + int n then sz - int off else int n)
           in (replicate (nat m) (CHR 0x00), sz \<le> int off + m))"

section \<open>Requests\<close>

text \<open>Eviction on reading an outbox file; \<open>rks\<close> is the order in which the routes are visited.\<close>

definition evict :: "string list \<Rightarrow> (string \<rightharpoonup> string) \<Rightarrow> string \<Rightarrow> string \<Rightarrow> (string \<rightharpoonup> fileState)
    \<Rightarrow> (string \<rightharpoonup> fileState)" where
  "evict rks rs user name fls =
     foldl (\<lambda>m src. if rs src = Some user
              then m(file_key src ''inbox'' name := None, file_key src ''sent'' name := None) else m)
       (fls(file_key user ''outbox'' name := None)) rks"

definition reader_of :: "bool \<Rightarrow> fileState \<Rightarrow> reader" where
  "reader_of per st = (case st_content st of
      Some b \<Rightarrow> if per then ContentReader b else ZeroReader (st_size st)
    | None \<Rightarrow> ZeroReader (st_size st))"

definition Fileread :: "string list \<Rightarrow> mockFS \<Rightarrow> string \<Rightarrow> string \<Rightarrow> reader option \<times> mockFS" where
  "Fileread rks fs user p =
     (let (folder, name, key) = resolve user p in
      case files fs key of
        None \<Rightarrow> (None, fs)
      | Some st \<Rightarrow>
          (Some (reader_of (fs_persist fs) st),
           if folder = ''outbox'' \<and> evictAfterRead fs
           then fs\<lparr>files := evict rks (routes fs) user name (files fs)\<rparr> else fs))"

record writeHandle =
  wh_key :: string
  wh_user :: string
  wh_size :: int
  wh_content :: "string option"

datatype write_error = NotInbox string | RejectedUser string

definition Filewrite :: "mockFS \<Rightarrow> string \<Rightarrow> string \<Rightarrow> (write_error + writeHandle) \<times> mockFS" where
  "Filewrite fs user p =
     (let (folder, _, key) = resolve user p in
      if folder \<noteq> ''inbox'' then (Inl (NotInbox folder), fs)
      else if user \<in> failUsers fs then (Inl (RejectedUser user), fs)
      else (Inr \<lparr>wh_key = key, wh_user = user, wh_size = 0, wh_content = None\<rparr>,
            fs\<lparr>files := (files fs)(key \<mapsto> new_fileState)\<rparr>))"

text \<open>\<open>WriteAt\<close>: None is the panic of slicing the buffer at a negative offset. The number of
  bytes it reports is always the length of the chunk.\<close>

definition grow :: "string \<Rightarrow> nat \<Rightarrow> string" where
  "grow b n = (if length b < n then b @ replicate (n - length b) (CHR 0x00) else b)"

definition WriteAt :: "bool \<Rightarrow> writeHandle \<Rightarrow> string \<Rightarrow> int \<Rightarrow> writeHandle option" where
  "WriteAt per w p off =
     (let e = i64 (off + int (length p));
          w = w\<lparr>wh_size := max (wh_size w) e\<rparr>
      in if \<not> per then Some w
         else let old = (case wh_content w of None \<Rightarrow> [] | Some b \<Rightarrow> b);
                  new = (if int (length old) < e then grow old (nat e) else old)
              in if 0 \<le> off \<and> off \<le> e
                 then Some (w\<lparr>wh_content :=
                   (if wh_content w = None \<and> new = [] then None
                    else Some (take (nat off) new @ p @ drop (nat e) new))\<rparr>)
                 else None)"

definition Close :: "int \<Rightarrow> mockFS \<Rightarrow> writeHandle \<Rightarrow> mockFS" where
  "Close now fs w =
     (case files fs (wh_key w) of
        None \<Rightarrow> fs
      | Some st \<Rightarrow> fs\<lparr>files := (files fs)(wh_key w \<mapsto>
          st\<lparr>st_size := wh_size w, completedAt := Some now, st_content := wh_content w\<rparr>)\<rparr>)"

section \<open>Promotion\<close>

text \<open>\<open>time.Time.Sub\<close> saturates.\<close>

definition time_sub :: "int \<Rightarrow> int \<Rightarrow> int" where
  "time_sub a b = max (- (2 ^ 63)) (min (2 ^ 63 - 1) (a - b))"

definition inbox_parts :: "string \<Rightarrow> (string \<times> string) option" where
  "inbox_parts k =
     (case split_n 3 (CHR ''/'') k of
        [u, folder, b] \<Rightarrow> if folder = ''inbox'' \<and> \<not> str_contains b ''#'' then Some (u, b) else None
      | _ \<Rightarrow> None)"

definition ready_one :: "int \<Rightarrow> int \<Rightarrow> (string \<rightharpoonup> fileState) \<Rightarrow> string \<Rightarrow> (string \<times> string \<times> string) option" where
  "ready_one now d fls k =
     (case fls k of
        None \<Rightarrow> None
      | Some st \<Rightarrow>
          (case completedAt st of
             None \<Rightarrow> None
           | Some t \<Rightarrow>
               (case inbox_parts k of
                  None \<Rightarrow> None
                | Some (u, b) \<Rightarrow> if time_sub now t < d then None else Some (k, u, b))))"

definition ready :: "int \<Rightarrow> int \<Rightarrow> (string \<rightharpoonup> fileState) \<Rightarrow> string list \<Rightarrow> (string \<times> string \<times> string) list" where
  "ready now d fls ks = List.map_filter (ready_one now d fls) ks"

definition route_of :: "(string \<rightharpoonup> string) \<Rightarrow> string \<Rightarrow> string" where
  "route_of rs u = (case rs u of None \<Rightarrow> u | Some d \<Rightarrow> if d = [] then u else d)"

definition tracked_name :: "string \<Rightarrow> string \<Rightarrow> string" where
  "tracked_name b tid = b @ ''#'' @ tid"

definition promoted_copy :: "int \<Rightarrow> string \<Rightarrow> fileState \<Rightarrow> fileState" where
  "promoted_copy now tid st =
     \<lparr>st_size = st_size st, completedAt = Some now, trackID = tid, st_content = st_content st\<rparr>"

text \<open>One entry of the ready list; None is the panic on a missing file.\<close>

definition promote_one ::
  "int \<Rightarrow> (string \<rightharpoonup> string) \<Rightarrow> (string \<times> string \<times> string) \<times> string \<Rightarrow> (string \<rightharpoonup> fileState) \<Rightarrow>
    (string \<rightharpoonup> fileState) option" where
  "promote_one now rs r fls =
     (case r of ((old, u, b), tid) \<Rightarrow>
        case fls old of
          None \<Rightarrow> None
        | Some st \<Rightarrow>
            let m = (fls(file_key u ''inbox'' (tracked_name b tid) \<mapsto> st\<lparr>trackID := tid\<rparr>))(old := None);
                m = m(file_key (route_of rs u) ''outbox'' (tracked_name b tid) \<mapsto> promoted_copy now tid st)
            in Some (m(file_key u ''sent'' (tracked_name b tid) \<mapsto> promoted_copy now tid st)))"

fun promote_all ::
  "int \<Rightarrow> (string \<rightharpoonup> string) \<Rightarrow> ((string \<times> string \<times> string) \<times> string) list \<Rightarrow> (string \<rightharpoonup> fileState) \<Rightarrow>
    (string \<rightharpoonup> fileState) option" where
  "promote_all now rs [] fls = Some fls"
| "promote_all now rs (r # rest) fls = Option.bind (promote_one now rs r fls) (promote_all now rs rest)"

definition promoteInboxesLocked :: "int \<Rightarrow> string list \<Rightarrow> (nat \<Rightarrow> string) \<Rightarrow> mockFS \<Rightarrow> mockFS option" where
  "promoteInboxesLocked now ks tids fs =
     (let rs = ready now (fs_delay fs) (files fs) ks in
      map_option (\<lambda>m. fs\<lparr>files := m\<rparr>)
        (promote_all now (routes fs) (zip rs (map tids [0..<length rs])) (files fs)))"

section \<open>Listings\<close>

record file_info =
  fi_name :: string
  fi_size :: int
  fi_mod :: "int option"

definition list_entry :: "(string \<rightharpoonup> fileState) \<Rightarrow> string \<Rightarrow> string \<Rightarrow> file_info option" where
  "list_entry fls prefix k =
     (case fls k of
        None \<Rightarrow> None
      | Some st \<Rightarrow>
          if has_prefix k prefix \<and> \<not> str_contains (trim_prefix k prefix) ''/''
          then Some \<lparr>fi_name = trim_prefix k prefix, fi_size = st_size st, fi_mod = completedAt st\<rparr>
          else None)"

text \<open>\<open>ks\<close> and \<open>ks'\<close> are the orders of the two passes over the files.\<close>

definition listFolder :: "int \<Rightarrow> string list \<Rightarrow> string list \<Rightarrow> (nat \<Rightarrow> string) \<Rightarrow> mockFS \<Rightarrow> string \<Rightarrow>
    (file_info list \<times> mockFS) option" where
  "listFolder now ks ks' tids fs prefix =
     map_option (\<lambda>fs. (List.map_filter (list_entry (files fs) prefix) ks', fs))
       (promoteInboxesLocked now ks tids fs)"

definition Filelist :: "int \<Rightarrow> string list \<Rightarrow> string list \<Rightarrow> (nat \<Rightarrow> string) \<Rightarrow> mockFS \<Rightarrow> string \<Rightarrow>
    string \<Rightarrow> string \<Rightarrow> (file_info list \<times> mockFS) option" where
  "Filelist now ks ks' tids fs user meth p =
     (if meth = ''List'' then listFolder now ks ks' tids fs (snd (dirKey user p))
      else if meth \<in> {''Stat'', ''Lstat'', ''Readlink''}
      then Some ([\<lparr>fi_name = path_base p, fi_size = 0, fi_mod = Some now\<rparr>], fs)
      else Some ([], fs))"

text \<open>Paging through a listing with a buffer of \<open>n\<close> entries: the entries and EOF.\<close>

definition ListAt :: "file_info list \<Rightarrow> nat \<Rightarrow> nat \<Rightarrow> file_info list \<times> bool" where
  "ListAt l n off =
     (if length l \<le> off then ([], True)
      else let got = take n (drop off l) in (got, length l \<le> off + length got))"

section \<open>Keys\<close>

lemma split_n_two: "split_n (Suc (Suc n)) c s = x # y # ys \<Longrightarrow>
    \<exists>v. s = x @ c # v \<and> c \<notin> set x \<and> split_n (Suc n) c v = y # ys"
proof -
  assume s: "split_n (Suc (Suc n)) c s = x # y # ys"
  then have c: "c \<in> set s" by (auto simp: str_index_byte split: if_splits)
  then obtain u v where u: "s = u @ c # v" "c \<notin> set u" using split_list_first by fast
  with s show ?thesis using split_n_cons[OF u(2), of n v] by auto
qed

lemma contains_byte: "str_contains s [c] \<longleftrightarrow> c \<in> set s"
  by (simp add: str_contains_def str_index_byte)

lemma inbox_parts_iff:
  "inbox_parts k = Some (u, b) \<longleftrightarrow> k = file_key u ''inbox'' b \<and> CHR ''/'' \<notin> set u \<and> CHR ''#'' \<notin> set b"
proof
  assume i: "inbox_parts k = Some (u, b)"
  have "\<exists>f. split_n (Suc (Suc (Suc 0))) (CHR ''/'') k = [u, f, b] \<and> f = ''inbox'' \<and> CHR ''#'' \<notin> set b"
    using i unfolding inbox_parts_def numeral_3_eq_3
    by (simp del: split_n.simps add: contains_byte split: list.splits if_splits)
  then obtain f where f: "split_n (Suc (Suc (Suc 0))) (CHR ''/'') k = [u, f, b]" "f = ''inbox''"
    "CHR ''#'' \<notin> set b" by blast
  from split_n_two[OF f(1)] obtain v where v: "k = u @ CHR ''/'' # v" "CHR ''/'' \<notin> set u"
    "split_n (Suc (Suc 0)) (CHR ''/'') v = [f, b]" by blast
  from split_n_two[OF v(3)] obtain v' where "v = f @ CHR ''/'' # v'" "split_n (Suc 0) (CHR ''/'') v' = [b]"
    by blast
  with v f show "k = file_key u ''inbox'' b \<and> CHR ''/'' \<notin> set u \<and> CHR ''#'' \<notin> set b"
    by (simp add: file_key_def)
next
  assume "k = file_key u ''inbox'' b \<and> CHR ''/'' \<notin> set u \<and> CHR ''#'' \<notin> set b"
  then have k: "k = u @ CHR ''/'' # (''inbox'' @ CHR ''/'' # b)" "CHR ''/'' \<notin> set u" "CHR ''#'' \<notin> set b"
    by (simp_all add: file_key_def)
  have "split_n (Suc (Suc (Suc 0))) (CHR ''/'') k = u # split_n (Suc (Suc 0)) (CHR ''/'') (''inbox'' @ CHR ''/'' # b)"
    unfolding k(1) by (rule split_n_cons[OF k(2)])
  also have "split_n (Suc (Suc 0)) (CHR ''/'') (''inbox'' @ CHR ''/'' # b) = [''inbox'', b]"
    using split_n_cons[of "CHR ''/''" "''inbox''" 0 b] by simp
  finally show "inbox_parts k = Some (u, b)"
    unfolding inbox_parts_def numeral_3_eq_3 using k by (simp del: split_n.simps add: contains_byte)
qed

lemma resolve_two: "plain_name a \<Longrightarrow> plain_name n \<Longrightarrow> resolve user (a @ ''/'' @ n) = (a, n, file_key user a n)"
proof -
  assume p: "plain_name a" "plain_name n"
  then have h: "\<not> has_prefix (a @ CHR ''/'' # n) ''/''"
    by (cases a) (auto simp: plain_name_def has_prefix_def)
  have "split_n (Suc (Suc 0)) (CHR ''/'') (a @ CHR ''/'' # n) = [a, n]"
    using p split_n_cons[of "CHR ''/''" a 0 n] by (simp del: split_n.simps(3) add: plain_name_def)
  with p h show ?thesis
    unfolding resolve_def numeral_2_eq_2
    by (simp add: path_clean_two[simplified] trim_prefix_def del: split_n.simps)
qed

section \<open>The upload handle\<close>

text \<open>What a handle holds after any sequence of chunks.\<close>

fun writes :: "bool \<Rightarrow> writeHandle \<Rightarrow> (nat \<times> string) list \<Rightarrow> writeHandle option" where
  "writes per w [] = Some w"
| "writes per w ((off, p) # cs) = Option.bind (WriteAt per w p (int off)) (\<lambda>w. writes per w cs)"

definition chunk_of :: "string \<Rightarrow> nat \<times> string \<Rightarrow> bool" where
  "chunk_of data = (\<lambda>(off, p). off + length p \<le> length data \<and> p = take (length p) (drop off data))"

definition covered :: "(nat \<times> string) list \<Rightarrow> nat set" where
  "covered cs = (\<Union>(off, p) \<in> set cs. {off..<off + length p})"

definition high :: "(nat \<times> string) list \<Rightarrow> nat" where
  "high cs = fold max (map (\<lambda>(off, p). off + length p) cs) 0"

definition buf_of :: "writeHandle \<Rightarrow> string" where
  "buf_of w = (case wh_content w of None \<Rightarrow> [] | Some b \<Rightarrow> b)"

definition handle_ok :: "string \<Rightarrow> nat set \<Rightarrow> writeHandle \<Rightarrow> bool" where
  "handle_ok data cov w \<longleftrightarrow>
     int (length (buf_of w)) = wh_size w \<and> length (buf_of w) \<le> length data \<and>
     cov \<subseteq> {..<length (buf_of w)} \<and> wh_content w \<noteq> Some [] \<and>
     (\<forall>i \<in> cov. buf_of w ! i = data ! i)"

lemma length_grow [simp]: "length (grow b n) = max (length b) n"
  by (simp add: grow_def)

lemma grow_nth: "i < length b \<Longrightarrow> grow b n ! i = b ! i"
  by (simp add: grow_def nth_append)

lemma WriteAt_ok:
  assumes h: "handle_ok data cov w" and c: "chunk_of data (off, p)" and d: "length data < 2 ^ 62"
  shows "\<exists>w'. WriteAt True w p (int off) = Some w' \<and> wh_key w' = wh_key w \<and>
    handle_ok data (cov \<union> {off..<off + length p}) w'"
proof -
  let ?n = "off + length p"
  have le: "?n \<le> length data" and p: "p = take (length p) (drop off data)"
    using c by (simp_all add: chunk_of_def)
  have e: "i64 (int off + int (length p)) = int ?n"
    using le d by (subst i64_id) (auto simp: in_i64_def)
  let ?old = "buf_of w"
  let ?new = "if length ?old < ?n then grow ?old ?n else ?old"
  have new: "length ?new = max (length ?old) ?n" by simp
  let ?c = "if wh_content w = None \<and> ?new = [] then None else Some (take off ?new @ p @ drop ?n ?new)"
  let ?w = "w\<lparr>wh_size := max (wh_size w) (int ?n), wh_content := ?c\<rparr>"
  have r: "WriteAt True w p (int off) = Some ?w"
    unfolding WriteAt_def Let_def e buf_of_def by (auto simp: nat_int_add split: option.split)
  have b: "buf_of ?w = take off ?new @ p @ drop ?n ?new"
  proof (cases "wh_content w = None \<and> ?new = []")
    case True
    then have "?n = 0" using new by (auto simp: max_def split: if_splits)
    with True show ?thesis by (auto simp: buf_of_def)
  qed (auto simp: buf_of_def)
  have len: "length (buf_of ?w) = max (length ?old) ?n" unfolding b using new by (auto simp: max_def)
  have at: "buf_of ?w ! i = (if i \<in> {off..<?n} then data ! i else ?old ! i)"
    if "i < length ?old \<or> i \<in> {off..<?n}" for i
  proof -
    have "take off ?new ! i = ?old ! i" if "i < off" "i < length ?old" using that by (simp add: grow_nth)
    moreover have "p ! (i - off) = data ! i" if "i \<in> {off..<?n}"
      using that by (subst p) (use le in auto)
    moreover have "drop ?n ?new ! (i - ?n) = ?old ! i" if "?n \<le> i" "i < length ?old"
      using that by simp
    ultimately show ?thesis unfolding b using that new by (auto simp: nth_append)
  qed
  have "handle_ok data (cov \<union> {off..<?n}) ?w"
    unfolding handle_ok_def len
  proof (intro conjI ballI)
    show "int (max (length ?old) ?n) = wh_size ?w" using h by (auto simp: handle_ok_def max_def)
    show "max (length ?old) ?n \<le> length data" using h le by (simp add: handle_ok_def)
    show "cov \<union> {off..<?n} \<subseteq> {..<max (length ?old) ?n}" using h by (auto simp: handle_ok_def)
    show "wh_content ?w \<noteq> Some []"
    proof
      assume s: "wh_content ?w = Some []"
      then have "buf_of ?w = []" by (simp add: buf_of_def)
      with len have "?old = []" "?n = 0" by simp_all
      with h have "wh_content w = None" "?new = []" by (auto simp: handle_ok_def buf_of_def split: option.splits)
      with s show False by simp
    qed
  next
    fix i assume "i \<in> cov \<union> {off..<?n}"
    with h at show "buf_of ?w ! i = data ! i" by (auto simp: handle_ok_def subset_iff)
  qed
  with r show ?thesis by auto
qed

lemma writes_ok:
  assumes "handle_ok data cov w" and "list_all (chunk_of data) cs" and "length data < 2 ^ 62"
  shows "\<exists>w'. writes True w cs = Some w' \<and> wh_key w' = wh_key w \<and> handle_ok data (cov \<union> covered cs) w'"
  using assms(1,2)
proof (induction cs arbitrary: cov w)
  case (Cons c cs)
  obtain off p where [simp]: "c = (off, p)" by (cases c)
  from WriteAt_ok[OF Cons.prems(1) _ assms(3)] Cons.prems(2) obtain w1 where
    w1: "WriteAt True w p (int off) = Some w1" "wh_key w1 = wh_key w"
      "handle_ok data (cov \<union> {off..<off + length p}) w1" by fastforce
  with Cons.IH[OF w1(3)] Cons.prems(2) show ?case by (auto simp: covered_def Un_assoc)
qed (simp add: covered_def)

lemma upload_assembled:
  assumes c: "list_all (chunk_of data) cs" and "covered cs = {..<length data}" and "length data < 2 ^ 62"
    and "wh_size w = 0" "wh_content w = None"
  shows "\<exists>w'. writes True w cs = Some w' \<and> wh_key w' = wh_key w \<and> wh_size w' = int (length data) \<and>
    wh_content w' = (if data = [] then None else Some data)"
proof -
  have "handle_ok data {} w" using assms by (simp add: handle_ok_def buf_of_def)
  from writes_ok[OF this c assms(3)] obtain w' where
    w': "writes True w cs = Some w'" "wh_key w' = wh_key w" "handle_ok data {..<length data} w'"
    using assms(2) by auto
  then have l: "length (buf_of w') = length data" by (force simp: handle_ok_def)
  with w'(3) have "buf_of w' = data" by (auto simp: handle_ok_def intro: nth_equalityI)
  with w' l show ?thesis by (auto simp: handle_ok_def buf_of_def split: option.splits)
qed

section \<open>Promotion\<close>

text \<open>
  The three files an entry of the ready list leaves behind, and the specification of a whole
  promotion: every ready inbox file is gone under its old name and present under its three
  tracked names, and no other key changes.
\<close>

definition left_behind ::
  "int \<Rightarrow> (string \<rightharpoonup> string) \<Rightarrow> (string \<rightharpoonup> fileState) \<Rightarrow> (string \<times> string \<times> string) \<times> string \<Rightarrow> (string \<rightharpoonup> fileState)" where
  "left_behind now rs fls r =
     (case r of ((old, u, b), tid) \<Rightarrow>
        [file_key u ''inbox'' (tracked_name b tid) \<mapsto> (the (fls old))\<lparr>trackID := tid\<rparr>,
         file_key (route_of rs u) ''outbox'' (tracked_name b tid) \<mapsto> promoted_copy now tid (the (fls old)),
         file_key u ''sent'' (tracked_name b tid) \<mapsto> promoted_copy now tid (the (fls old))])"

definition promoted ::
  "int \<Rightarrow> (string \<rightharpoonup> string) \<Rightarrow> ((string \<times> string \<times> string) \<times> string) list \<Rightarrow> (string \<rightharpoonup> fileState) \<Rightarrow>
    (string \<rightharpoonup> fileState)" where
  "promoted now rs L fls k =
     (case find (\<lambda>r. k \<in> dom (left_behind now rs fls r)) L of
        Some r \<Rightarrow> left_behind now rs fls r k
      | None \<Rightarrow> if k \<in> fst ` fst ` set L then None else fls k)"

definition hex_id :: "string \<Rightarrow> bool" where
  "hex_id tid \<longleftrightarrow> CHR ''#'' \<notin> set tid \<and> CHR ''/'' \<notin> set tid"

definition good_entry :: "(string \<times> string \<times> string) \<times> string \<Rightarrow> bool" where
  "good_entry r \<longleftrightarrow> (case r of ((old, u, b), tid) \<Rightarrow>
     old = file_key u ''inbox'' b \<and> CHR ''/'' \<notin> set u \<and> CHR ''#'' \<notin> set b \<and> hex_id tid)"

lemma last_mark: "CHR ''#'' \<notin> set t \<Longrightarrow> CHR ''#'' \<notin> set t' \<Longrightarrow> a @ CHR ''#'' # t = a' @ CHR ''#'' # t' \<Longrightarrow> a = a' \<and> t = t'"
proof -
  assume h: "CHR ''#'' \<notin> set t" "CHR ''#'' \<notin> set t'" and eq: "a @ CHR ''#'' # t = a' @ CHR ''#'' # t'"
  from arg_cong[OF eq, of rev] have r: "rev t @ CHR ''#'' # rev a = rev t' @ CHR ''#'' # rev a'" by simp
  have "rev t = takeWhile (\<lambda>x. x \<noteq> CHR ''#'') (rev t @ CHR ''#'' # rev a)"
    by (rule takeWhile_byte[symmetric]) (use h in simp)
  also have "\<dots> = rev t'" unfolding r by (rule takeWhile_byte) (use h in simp)
  finally have "t = t'" by simp
  with eq show ?thesis by simp
qed

lemma left_behind_mark:
  "k \<in> dom (left_behind now rs fls (r, tid)) \<Longrightarrow> \<exists>a. k = a @ CHR ''#'' # tid"
  by (cases r) (auto simp: left_behind_def file_key_def tracked_name_def split: if_splits)

lemma left_behind_other:
  assumes "k \<in> dom (left_behind now rs fls (r, tid))" "k \<in> dom (left_behind now rs fls' (r', tid'))"
    and "hex_id tid" "hex_id tid'"
  shows "tid = tid'"
  using left_behind_mark[OF assms(1)] left_behind_mark[OF assms(2)] assms(3,4) last_mark
  by (metis hex_id_def)

lemma old_not_left:
  assumes "good_entry ((old, u, b), tid0)" and "hex_id tid"
  shows "old \<notin> dom (left_behind now rs fls (r, tid))"
proof
  assume "old \<in> dom (left_behind now rs fls (r, tid))"
  then obtain a where a: "old = a @ CHR ''#'' # tid" using left_behind_mark by blast
  have o: "old = u @ CHR ''/'' # (''inbox/'' @ b)" "CHR ''#'' \<notin> set (''inbox/'' @ b)" "CHR ''/'' \<notin> set tid"
    using assms by (auto simp: good_entry_def file_key_def hex_id_def)
  from a o(1) have "CHR ''#'' # tid = drop (length a) (u @ CHR ''/'' # (''inbox/'' @ b))" by simp
  have "length u < length a \<or> length a \<le> length u" by linarith
  then show False
  proof
    assume l: "length u < length a"
    have "old ! length a = CHR ''#''" unfolding a by simp
    moreover have "old ! length a \<in> set (CHR ''/'' # ''inbox/'' @ b)"
    proof -
      have "length a < length old" unfolding a by simp
      then have "length a - length u < length (CHR ''/'' # ''inbox/'' @ b)" using l o(1) by simp
      then have "(CHR ''/'' # ''inbox/'' @ b) ! (length a - length u) \<in> set (CHR ''/'' # ''inbox/'' @ b)"
        by (rule nth_mem)
      moreover have "old ! length a = (CHR ''/'' # ''inbox/'' @ b) ! (length a - length u)"
        unfolding o(1) using l by (simp add: nth_append)
      ultimately show ?thesis by simp
    qed
    ultimately show False using o(2) by auto
  next
    assume l: "length a \<le> length u"
    have "old ! length u = CHR ''/''" unfolding o(1) by simp
    then have "drop (length a) old ! (length u - length a) = CHR ''/''" using l unfolding o(1) by (simp add: nth_append)
    moreover have "length u - length a < length (drop (length a) old)" using l unfolding o(1) by simp
    ultimately have "CHR ''/'' \<in> set (drop (length a) old)" by (metis nth_mem)
    then show False using a o(3) by simp
  qed
qed

lemma good_hex: "good_entry (q, t) \<Longrightarrow> hex_id t"
  by (auto simp: good_entry_def split: prod.splits)

lemma left_behind_cong:
  "fls (fst (fst r)) = fls' (fst (fst r)) \<Longrightarrow> left_behind now rs fls r = left_behind now rs fls' r"
  by (auto simp: left_behind_def split: prod.split)

lemma promote_one_left:
  assumes "good_entry r" and "fls (fst (fst r)) = Some st"
  shows "promote_one now rs r fls = Some (\<lambda>k. if k = fst (fst r) then None
    else case left_behind now rs fls r k of None \<Rightarrow> fls k | Some f \<Rightarrow> Some f)"
proof -
  obtain old u b tid where [simp]: "r = ((old, u, b), tid)" by (cases r) auto
  have "old \<notin> dom (left_behind now rs fls ((old, u, b), tid))"
    using assms(1) by (intro old_not_left) (auto simp: good_entry_def)
  with assms(2) show ?thesis
    by (auto simp: promote_one_def left_behind_def Let_def fun_eq_iff split: if_splits)
qed

lemma promote_all_spec:
  assumes "list_all good_entry L" and "distinct (map (fst \<circ> fst) L)" and "distinct (map snd L)"
    and "\<forall>r \<in> set L. fls (fst (fst r)) \<noteq> None"
  shows "promote_all now rs L fls = Some (promoted now rs L fls)"
  using assms
proof (induction L arbitrary: fls)
  case (Cons r L)
  let ?m = "\<lambda>k. if k = fst (fst r) then None
    else case left_behind now rs fls r k of None \<Rightarrow> fls k | Some f \<Rightarrow> Some f"
  obtain st where st: "fls (fst (fst r)) = Some st" using Cons.prems(4) by auto
  have one: "promote_one now rs r fls = Some ?m"
    using Cons.prems(1) st by (intro promote_one_left) auto
  have same: "?m (fst (fst r')) = fls (fst (fst r'))" if r': "r' \<in> set L" for r'
  proof -
    obtain old u b t where e: "r' = ((old, u, b), t)" by (cases r') auto
    obtain q tid where f: "r = (q, tid)" by (cases r)
    have "good_entry r'" using r' Cons.prems(1) by (auto simp: list_all_iff)
    moreover have "hex_id tid" using Cons.prems(1) f by (auto simp: good_entry_def split: prod.splits)
    ultimately have "old \<notin> dom (left_behind now rs fls r)" unfolding e f by (rule old_not_left)
    moreover have "old \<noteq> fst (fst r)"
    proof
      assume "old = fst (fst r)"
      with e have "(fst \<circ> fst) r' = (fst \<circ> fst) r" by simp
      with Cons.prems(2) imageI[OF r', of "fst \<circ> fst"] show False by simp
    qed
    ultimately show ?thesis by (auto simp: e split: option.split)
  qed
  have lb: "left_behind now rs ?m r' = left_behind now rs fls r'" if "r' \<in> set L" for r'
    by (rule left_behind_cong) (rule same[OF that])
  have "promote_all now rs L ?m = Some (promoted now rs L ?m)"
    using Cons.prems same by (intro Cons.IH) auto
  moreover have "promoted now rs L ?m = promoted now rs (r # L) fls"
  proof
    fix k
    have fe: "find (\<lambda>r. k \<in> dom (left_behind now rs ?m r)) L = find (\<lambda>r. k \<in> dom (left_behind now rs fls r)) L"
      using lb by (intro find_cong) auto
    show "promoted now rs L ?m k = promoted now rs (r # L) fls k"
    proof (cases "k \<in> dom (left_behind now rs fls r)")
      case True
      have "k \<notin> dom (left_behind now rs fls r')" if r': "r' \<in> set L" for r'
      proof
        assume k: "k \<in> dom (left_behind now rs fls r')"
        obtain q t q' t' where e: "r = (q, t)" "r' = (q', t')" by (cases r, cases r')
        have "hex_id t" "hex_id t'"
          using Cons.prems(1) r' e by (auto simp: list_all_iff intro: good_hex)
        with True k e have "t = t'" using left_behind_other by blast
        with Cons.prems(3) r' e show False by force
      qed
      then have n: "find (\<lambda>r. k \<in> dom (left_behind now rs fls r)) L = None" by (simp add: find_None_iff)
      have nk: "k \<notin> fst ` fst ` set (r # L)"
      proof
        assume "k \<in> fst ` fst ` set (r # L)"
        then obtain old u b t0 where o: "((old, u, b), t0) \<in> set (r # L)" "k = old" by fastforce
        obtain q t where e: "r = (q, t)" by (cases r)
        have "good_entry ((old, u, b), t0)" using o Cons.prems(1) by (simp add: list_all_iff) blast
        moreover have "hex_id t" using Cons.prems(1) e by (auto intro: good_hex)
        ultimately show False using True old_not_left o(2) e by blast
      qed
      then have "promoted now rs L ?m k = left_behind now rs fls r k"
        unfolding promoted_def fe n using True by auto
      with True show ?thesis unfolding promoted_def by simp
    next
      case False
      show ?thesis
      proof (cases "find (\<lambda>r. k \<in> dom (left_behind now rs fls r)) L")
        case None
        with False show ?thesis unfolding promoted_def fe by (auto simp: domIff)
      next
        case (Some r')
        then have "r' \<in> set L" by (auto simp: find_Some_iff)
        with False Some lb show ?thesis unfolding promoted_def fe by simp
      qed
    qed
  qed
  ultimately show ?case using one by simp
qed (simp add: promoted_def fun_eq_iff)

lemma ready_one_iff: "ready_one now d fls k' = Some (k, u, b) \<longleftrightarrow> k' = k \<and>
    (\<exists>st t. fls k = Some st \<and> completedAt st = Some t \<and> d \<le> time_sub now t \<and>
      k = file_key u ''inbox'' b \<and> CHR ''/'' \<notin> set u \<and> CHR ''#'' \<notin> set b)"
proof -
  have "ready_one now d fls k' = Some (k, u, b) \<longleftrightarrow> k' = k \<and>
      (\<exists>st t. fls k = Some st \<and> completedAt st = Some t \<and> d \<le> time_sub now t \<and> inbox_parts k = Some (u, b))"
    by (auto simp: ready_one_def split: option.splits)
  then show ?thesis by (simp add: inbox_parts_iff)
qed

lemma ready_iff: "(k, u, b) \<in> set (ready now d fls ks) \<longleftrightarrow> k \<in> set ks \<and>
    (\<exists>st t. fls k = Some st \<and> completedAt st = Some t \<and> d \<le> time_sub now t \<and>
      k = file_key u ''inbox'' b \<and> CHR ''/'' \<notin> set u \<and> CHR ''#'' \<notin> set b)"
proof -
  have "set (ready now d fls ks) = {y. \<exists>x \<in> set ks. ready_one now d fls x = Some y}"
    by (induction ks) (auto simp: ready_def split: option.splits)
  then show ?thesis by (simp add: ready_one_iff)
qed

lemma ready_distinct: "distinct ks \<Longrightarrow> distinct (map fst (ready now d fls ks))"
proof (induction ks)
  case (Cons k ks)
  have "k \<notin> fst ` set (ready now d fls ks)"
    using Cons.prems by (force simp: ready_iff)
  moreover have "ready_one now d fls k = None \<or> (\<exists>u b. ready_one now d fls k = Some (k, u, b))"
    by (auto simp: ready_one_def split: option.split)
  ultimately show ?case using Cons by (auto simp: ready_def)
qed (simp add: ready_def)

definition fresh_ids :: "(nat \<Rightarrow> string) \<Rightarrow> bool" where
  "fresh_ids tids \<longleftrightarrow> inj tids \<and> (\<forall>i. hex_id (tids i))"

definition promotions :: "int \<Rightarrow> string list \<Rightarrow> (nat \<Rightarrow> string) \<Rightarrow> mockFS \<Rightarrow> ((string \<times> string \<times> string) \<times> string) list" where
  "promotions now ks tids fs =
     (let rs = ready now (fs_delay fs) (files fs) ks in zip rs (map tids [0..<length rs]))"

lemma promotions_mem: "r \<in> set (promotions now ks tids fs) \<Longrightarrow>
    fst r \<in> set (ready now (fs_delay fs) (files fs) ks) \<and> snd r \<in> range tids"
proof -
  assume r: "r \<in> set (promotions now ks tids fs)"
  obtain x t where e: "r = (x, t)" by (cases r)
  let ?rs = "ready now (fs_delay fs) (files fs) ks"
  from r e have "(x, t) \<in> set (zip ?rs (map tids [0..<length ?rs]))" by (simp add: promotions_def Let_def)
  then have "x \<in> set ?rs" "t \<in> set (map tids [0..<length ?rs])"
    by (auto dest: set_zip_leftD simp del: set_map dest: set_zip_rightD)
  then show ?thesis using e by auto
qed

lemma promotions_good:
  assumes "fresh_ids tids" and "distinct ks"
  shows "list_all good_entry (promotions now ks tids fs)"
    and "distinct (map (fst \<circ> fst) (promotions now ks tids fs))"
    and "distinct (map snd (promotions now ks tids fs))"
    and "\<forall>r \<in> set (promotions now ks tids fs). files fs (fst (fst r)) \<noteq> None"
proof -
  let ?rs = "ready now (fs_delay fs) (files fs) ks"
  show "list_all good_entry (promotions now ks tids fs)"
    using assms(1) unfolding list_all_iff
    by (auto simp: good_entry_def fresh_ids_def ready_iff dest!: promotions_mem)
  have "map (fst \<circ> fst) (promotions now ks tids fs) = map fst ?rs"
    by (simp add: promotions_def Let_def flip: map_map)
  then show "distinct (map (fst \<circ> fst) (promotions now ks tids fs))"
    using ready_distinct[OF assms(2)] by simp
  show "distinct (map snd (promotions now ks tids fs))"
    using assms(1) by (simp add: promotions_def Let_def fresh_ids_def distinct_map inj_on_def)
  show "\<forall>r \<in> set (promotions now ks tids fs). files fs (fst (fst r)) \<noteq> None"
    by (auto simp: ready_iff dest!: promotions_mem)
qed

lemma promote_result:
  assumes "fresh_ids tids" and "distinct ks"
  shows "promoteInboxesLocked now ks tids fs =
    Some (fs\<lparr>files := promoted now (routes fs) (promotions now ks tids fs) (files fs)\<rparr>)"
proof -
  have "promoteInboxesLocked now ks tids fs = map_option (\<lambda>m. fs\<lparr>files := m\<rparr>)
      (promote_all now (routes fs) (promotions now ks tids fs) (files fs))"
    by (simp only: promoteInboxesLocked_def promotions_def Let_def)
  also have "promote_all now (routes fs) (promotions now ks tids fs) (files fs) =
      Some (promoted now (routes fs) (promotions now ks tids fs) (files fs))"
    by (rule promote_all_spec[OF promotions_good[OF assms]])
  finally show ?thesis by (simp only: option.map)
qed

lemma find_SomeD: "find P xs = Some x \<Longrightarrow> x \<in> set xs \<and> P x"
  by (auto simp: find_Some_iff)

lemma promoted_new:
  assumes "list_all good_entry L" "distinct (map snd L)" "r \<in> set L" "k \<in> dom (left_behind now rs fls r)"
  shows "promoted now rs L fls k = left_behind now rs fls r k"
proof -
  have "r' = r" if r': "r' \<in> set L" "k \<in> dom (left_behind now rs fls r')" for r'
  proof -
    obtain q t q' t' where e: "r = (q, t)" "r' = (q', t')" by (cases r, cases r')
    have "hex_id t" "hex_id t'"
      using assms(1,3) r' e by (auto simp: list_all_iff intro: good_hex)
    then have "t = t'" using left_behind_other[OF assms(4)[unfolded e] r'(2)[unfolded e]] by simp
    moreover have "inj_on snd (set L)" using assms(2) by (simp add: distinct_map)
    ultimately show ?thesis using assms(3) r'(1) e by (metis inj_onD snd_conv)
  qed
  note only = this
  have "find (\<lambda>r. k \<in> dom (left_behind now rs fls r)) L \<in> {None, Some r}"
  proof (cases "find (\<lambda>r. k \<in> dom (left_behind now rs fls r)) L")
    case (Some r')
    with only find_SomeD[OF Some] show ?thesis by simp
  qed simp
  moreover have "find (\<lambda>r. k \<in> dom (left_behind now rs fls r)) L \<noteq> None"
    using assms(3,4) unfolding find_None_iff by blast
  ultimately show ?thesis by (auto simp: promoted_def)
qed

lemma promoted_cases:
  assumes "promoted now rs L fls k = Some st"
  obtains (new) r where "r \<in> set L" "left_behind now rs fls r k = Some st"
  | (kept) "k \<notin> fst ` fst ` set L" "fls k = Some st"
proof (cases "find (\<lambda>r. k \<in> dom (left_behind now rs fls r)) L")
  case None
  with assms show ?thesis by (intro kept) (auto simp: promoted_def split: if_splits)
next
  case (Some r)
  then have "r \<in> set L" by (simp add: find_SomeD)
  with Some assms show ?thesis by (intro new[of r]) (simp_all add: promoted_def)
qed

lemma promoted_gone:
  assumes "list_all good_entry L" "r \<in> set L"
  shows "promoted now rs L fls (fst (fst r)) = None"
proof -
  obtain old u b t where r: "r = ((old, u, b), t)" by (cases r) auto
  have "old \<notin> dom (left_behind now rs fls r')" if "r' \<in> set L" for r'
  proof -
    obtain q' t' where "r' = (q', t')" by (cases r')
    moreover have "good_entry ((old, u, b), t)" "good_entry r'" using assms that r by (auto simp: list_all_iff)
    ultimately show ?thesis using old_not_left good_hex by blast
  qed
  then have "find (\<lambda>r'. old \<in> dom (left_behind now rs fls r')) L = None" by (auto simp: find_None_iff)
  moreover have "old \<in> fst ` fst ` set L" using assms(2) r by force
  ultimately show ?thesis by (simp add: promoted_def r)
qed

lemma left_behind_outbox:
  "left_behind now rs fls ((old, u, b), tid) (file_key (route_of rs u) ''outbox'' (tracked_name b tid)) =
     Some (promoted_copy now tid (the (fls old)))"
  by (simp add: left_behind_def file_key_def)

section \<open>From upload to download\<close>

lemma file_key_inj:
  "CHR ''/'' \<notin> set u \<Longrightarrow> CHR ''/'' \<notin> set u' \<Longrightarrow> CHR ''/'' \<notin> set f \<Longrightarrow> CHR ''/'' \<notin> set f' \<Longrightarrow>
    file_key u f n = file_key u' f' n' \<longleftrightarrow> u = u' \<and> f = f' \<and> n = n'"
proof
  assume u: "CHR ''/'' \<notin> set u" "CHR ''/'' \<notin> set u'" and f: "CHR ''/'' \<notin> set f" "CHR ''/'' \<notin> set f'"
    and e: "file_key u f n = file_key u' f' n'"
  have split: "c \<notin> set a \<Longrightarrow> c \<notin> set a' \<Longrightarrow> a @ c # v = a' @ c # v' \<Longrightarrow> a = a' \<and> v = v'" for c and a a' v v' :: string
    by (metis append_same_eq list.inject same_append_eq takeWhile_byte)
  from e have "u @ CHR ''/'' # (f @ CHR ''/'' # n) = u' @ CHR ''/'' # (f' @ CHR ''/'' # n')"
    by (simp add: file_key_def)
  with split[OF u] have "u = u'" "f @ CHR ''/'' # n = f' @ CHR ''/'' # n'" by blast+
  with split[OF f] show "u = u' \<and> f = f' \<and> n = n'" by blast
qed auto

lemma tracked_plain: "plain_name n \<Longrightarrow> hex_id tid \<Longrightarrow> plain_name (tracked_name n tid)"
  by (auto simp: plain_name_def tracked_name_def hex_id_def append_eq_Cons_conv)

lemma plain_folders: "plain_name ''inbox''" "plain_name ''outbox''" "plain_name ''sent''"
  by (simp_all add: plain_name_def)

lemma dirKey_outbox: "dirKey d ''outbox'' = (''outbox'', d @ ''/outbox/'')"
proof -
  have "path_clean ''outbox'' = ''outbox''" by (rule path_clean_one[OF plain_folders(2)])
  moreover have "split_n (Suc (Suc 0)) (CHR ''/'') ''outbox'' = [''outbox'']" by (rule split_n_none) simp
  ultimately show ?thesis unfolding dirKey_def numeral_2_eq_2
    by (simp add: trim_prefix_def has_prefix_def del: split_n.simps)
qed

lemma list_entry_outbox:
  assumes "fls (file_key d ''outbox'' n) = Some st" and "CHR ''/'' \<notin> set n"
  shows "list_entry fls (d @ ''/outbox/'') (file_key d ''outbox'' n) =
    Some \<lparr>fi_name = n, fi_size = st_size st, fi_mod = completedAt st\<rparr>"
proof -
  have k: "file_key d ''outbox'' n = (d @ ''/outbox/'') @ n" by (simp add: file_key_def)
  show ?thesis unfolding list_entry_def assms(1)
    by (simp only: k has_prefix_append trim_prefix_append option.case contains_byte assms(2) not_False_eq_True
        simp_thms if_True)
qed

lemma reader_content:
  "fst (ReadAt (reader_of True st) k off) = take k (drop off data)"
  if "st_content st = (if data = [] then None else Some data)" "st_size st = int (length data)"
  using that by (auto simp: reader_of_def)

text \<open>The server side of one upload: the handle is opened, written in any chunks, and closed.\<close>

definition upload :: "mockFS \<Rightarrow> string \<Rightarrow> string \<Rightarrow> (nat \<times> string) list \<Rightarrow> int \<Rightarrow> mockFS option" where
  "upload fs u p cs t =
     (case Filewrite fs u p of
        (Inl e, fs) \<Rightarrow> None
      | (Inr w, fs) \<Rightarrow> map_option (Close t fs) (writes (fs_persist fs) w cs))"

lemma upload_stored:
  assumes "plain_name n" and "u \<notin> failUsers fs" and "fs_persist fs"
    and "list_all (chunk_of data) cs" and "covered cs = {..<length data}" and "length data < 2 ^ 62"
  shows "upload fs u (''inbox/'' @ n) cs t = Some (fs\<lparr>files := (files fs)(file_key u ''inbox'' n \<mapsto>
    \<lparr>st_size = int (length data), completedAt = Some t, trackID = [],
     st_content = (if data = [] then None else Some data)\<rparr>)\<rparr>)"
proof -
  let ?w = "\<lparr>wh_key = file_key u ''inbox'' n, wh_user = u, wh_size = 0, wh_content = None\<rparr>"
  have r: "resolve u (''inbox/'' @ n) = (''inbox'', n, file_key u ''inbox'' n)"
    using resolve_two[OF plain_folders(1) assms(1), of u] by simp
  obtain w where w: "writes True ?w cs = Some w" "wh_key w = file_key u ''inbox'' n"
    "wh_size w = int (length data)" "wh_content w = (if data = [] then None else Some data)"
    using upload_assembled[OF assms(4-6), of ?w] by auto
  show ?thesis
    unfolding upload_def Filewrite_def r using assms(2,3) w by (simp add: Close_def new_fileState_def)
qed

lemma promotion_delivers:
  assumes n: "plain_name n" "CHR ''#'' \<notin> set n" and u: "CHR ''/'' \<notin> set u"
    and st: "files fs2 (file_key u ''inbox'' n) = Some st" "completedAt st = Some t"
    and ks: "enumerates ks (files fs2)" and ids: "fresh_ids tids" and late: "fs_delay fs2 \<le> time_sub now t"
  shows "\<exists>i m. promoteInboxesLocked now ks tids fs2 = Some (fs2\<lparr>files := m\<rparr>) \<and>
    m (file_key u ''inbox'' n) = None \<and>
    m (file_key (route_of (routes fs2) u) ''outbox'' (tracked_name n (tids i))) = Some (promoted_copy now (tids i) st) \<and>
    plain_name (tracked_name n (tids i))"
proof -
  let ?old = "file_key u ''inbox'' n" and ?L = "promotions now ks tids fs2"
  let ?rs = "ready now (fs_delay fs2) (files fs2) ks"
  have "(?old, u, n) \<in> set ?rs" using ks n u late st by (auto simp: ready_iff enumerates_def)
  then obtain i where i: "i < length ?rs" "?rs ! i = (?old, u, n)" by (metis in_set_conv_nth)
  then have mem: "((?old, u, n), tids i) \<in> set ?L"
    by (force simp: promotions_def Let_def set_zip)
  note good = promotions_good[OF ids enumerates_distinct[OF ks], of now fs2]
  let ?m = "promoted now (routes fs2) ?L (files fs2)"
  let ?k = "file_key (route_of (routes fs2) u) ''outbox'' (tracked_name n (tids i))"
  have lb: "left_behind now (routes fs2) (files fs2) ((?old, u, n), tids i) ?k = Some (promoted_copy now (tids i) st)"
    using left_behind_outbox[of now "routes fs2" "files fs2" ?old u n "tids i"] by (simp add: st)
  have "?m ?k = left_behind now (routes fs2) (files fs2) ((?old, u, n), tids i) ?k"
    by (rule promoted_new[OF good(1,3) mem]) (simp only: lb domIff option.distinct not_False_eq_True)
  moreover have "?m ?old = None" using promoted_gone[OF good(1) mem] by simp
  moreover have "plain_name (tracked_name n (tids i))" using n(1) ids by (simp add: tracked_plain fresh_ids_def)
  ultimately show ?thesis
    using promote_result[OF ids enumerates_distinct[OF ks], of now fs2] lb
    by (intro exI[of _ i] exI[of _ ?m]) simp
qed

lemma delivery:
  assumes n: "plain_name n" "CHR ''#'' \<notin> set n" and u: "CHR ''/'' \<notin> set u" "u \<notin> failUsers fs"
    and fs: "fs_persist fs" and cs: "list_all (chunk_of data) cs" "covered cs = {..<length data}"
    and d: "length data < 2 ^ 62"
    and up: "upload fs u (''inbox/'' @ n) cs t = Some fs2" and ks: "enumerates ks (files fs2)"
    and ids: "fresh_ids tids" and late: "fs_delay fs \<le> time_sub now t"
    and dst: "dst = route_of (routes fs) u"
  shows "\<exists>i fs3. promoteInboxesLocked now ks tids fs2 = Some fs3 \<and> files fs3 (file_key u ''inbox'' n) = None \<and>
    (\<exists>st. files fs3 (file_key dst ''outbox'' (tracked_name n (tids i))) = Some st \<and> completedAt st = Some now \<and>
       st_size st = int (length data) \<and> st_content st = (if data = [] then None else Some data)) \<and>
    plain_name (tracked_name n (tids i)) \<and> fs_persist fs3"
proof -
  have fs2: "fs2 = fs\<lparr>files := (files fs)(file_key u ''inbox'' n \<mapsto>
    \<lparr>st_size = int (length data), completedAt = Some t, trackID = [],
     st_content = (if data = [] then None else Some data)\<rparr>)\<rparr>"
    using up upload_stored[OF n(1) u(2) fs cs d] by simp
  then obtain st where st: "files fs2 (file_key u ''inbox'' n) = Some st" "completedAt st = Some t"
    "st_size st = int (length data)" "st_content st = (if data = [] then None else Some data)"
    "fs_delay fs2 = fs_delay fs" "routes fs2 = routes fs" "fs_persist fs2" using fs by simp
  from promotion_delivers[OF n u(1) st(1,2) ks ids] late obtain i m where
    "promoteInboxesLocked now ks tids fs2 = Some (fs2\<lparr>files := m\<rparr>)" "m (file_key u ''inbox'' n) = None"
    "m (file_key dst ''outbox'' (tracked_name n (tids i))) = Some (promoted_copy now (tids i) st)"
    "plain_name (tracked_name n (tids i))" unfolding st(5,6) dst by blast
  with st show ?thesis
    by (intro exI[of _ i] exI[of _ "fs2\<lparr>files := m\<rparr>"] conjI exI[of _ "promoted_copy now (tids i) st"])
      (simp_all add: promoted_copy_def)
qed

text \<open>C8: Upload round trip. When a user uploads a file to the inbox of a server that keeps
  content, in chunks of any order and overlap that cover the data, then the first listing after
  the delay, by anybody and in any iteration order, promotes it: the inbox name is gone, the
  outbox of the paired user lists the name with a track id and the right size, and reading that
  file at any offset returns the bytes of the data.\<close>

theorem sftp_roundtrip:
  assumes n: "plain_name n" "CHR ''#'' \<notin> set n" and u: "CHR ''/'' \<notin> set u" "u \<notin> failUsers fs"
    and fs: "fs_persist fs" and cs: "list_all (chunk_of data) cs" "covered cs = {..<length data}"
    and d: "length data < 2 ^ 62"
    and up: "upload fs u (''inbox/'' @ n) cs t = Some fs2" and ks: "enumerates ks (files fs2)"
    and ids: "fresh_ids tids" and late: "fs_delay fs \<le> time_sub now t"
    and dst: "dst = route_of (routes fs) u"
  shows "\<exists>i fs3. promoteInboxesLocked now ks tids fs2 = Some fs3 \<and> files fs3 (file_key u ''inbox'' n) = None \<and>
    (\<forall>ks'. enumerates ks' (files fs3) \<longrightarrow> (\<exists>l. Filelist now ks ks' tids fs2 dst ''List'' ''outbox'' = Some (l, fs3) \<and>
       \<lparr>fi_name = n @ ''#'' @ tids i, fi_size = int (length data), fi_mod = Some now\<rparr> \<in> set l)) \<and>
    (\<forall>rks. \<exists>r fs4. Fileread rks fs3 dst (''outbox/'' @ n @ ''#'' @ tids i) = (Some r, fs4) \<and>
       (\<forall>k off. fst (ReadAt r k off) = take k (drop off data)))"
proof -
  obtain i fs3 st where d: "promoteInboxesLocked now ks tids fs2 = Some fs3" "files fs3 (file_key u ''inbox'' n) = None"
    "files fs3 (file_key dst ''outbox'' (tracked_name n (tids i))) = Some st" "completedAt st = Some now"
    "st_size st = int (length data)" "st_content st = (if data = [] then None else Some data)"
    "plain_name (tracked_name n (tids i))" "fs_persist fs3"
    using delivery[OF assms] by blast
  let ?m = "tracked_name n (tids i)"
  note out = d(3) and pm = d(7)
  have "\<exists>l. Filelist now ks ks' tids fs2 dst ''List'' ''outbox'' = Some (l, fs3) \<and>
       \<lparr>fi_name = ?m, fi_size = int (length data), fi_mod = Some now\<rparr> \<in> set l"
    if "enumerates ks' (files fs3)" for ks'
  proof -
    have "file_key dst ''outbox'' ?m \<in> set ks'" using that out by (auto simp: enumerates_def)
    moreover have "list_entry (files fs3) (dst @ ''/outbox/'') (file_key dst ''outbox'' ?m) =
        Some \<lparr>fi_name = ?m, fi_size = int (length data), fi_mod = Some now\<rparr>"
      using list_entry_outbox[of "files fs3" dst ?m] out pm d(4,5) by (simp add: plain_name_def)
    ultimately have "\<lparr>fi_name = ?m, fi_size = int (length data), fi_mod = Some now\<rparr>
        \<in> set (List.map_filter (list_entry (files fs3) (dst @ ''/outbox/'')) ks')"
      by (force simp: List.map_filter_def)
    then show ?thesis unfolding Filelist_def listFolder_def d(1) dirKey_outbox by simp
  qed
  moreover have "\<exists>r fs4. Fileread rks fs3 dst (''outbox/'' @ ?m) = (Some r, fs4) \<and>
       (\<forall>k off. fst (ReadAt r k off) = take k (drop off data))" for rks
  proof -
    have r: "resolve dst (''outbox/'' @ ?m) = (''outbox'', ?m, file_key dst ''outbox'' ?m)"
      using resolve_two[OF plain_folders(2) pm, of dst] by simp
    have per: "fs_persist fs3 = True" using d(8) by simp
    have c: "fst (ReadAt (reader_of True st) k off) = take k (drop off data)" for k off
      by (rule reader_content[OF d(6,5)])
    show ?thesis unfolding Fileread_def r prod.case Let_def out option.case per using c by blast
  qed
  ultimately show ?thesis using d(1,2) unfolding tracked_name_def by blast
qed


section \<open>A concrete server\<close>

definition demo_ids :: "nat \<Rightarrow> string" where "demo_ids i = replicate i (CHR ''a'')"

definition demo_mock :: mockFS where
  "demo_mock = (newMockFS 5 [''up'' \<mapsto> ''dl''])\<lparr>fs_persist := True\<rparr>"

definition demo_chunks :: "(nat \<times> string) list" where
  "demo_chunks = [(1, ''bc''), (0, ''ab'')]"

lemma demo_ids_fresh: "fresh_ids demo_ids"
  by (auto simp: fresh_ids_def inj_def demo_ids_def hex_id_def)

lemma demo_cover: "covered demo_chunks = {..<length ''abc''}" "list_all (chunk_of ''abc'') demo_chunks"
  by (auto simp: covered_def demo_chunks_def chunk_of_def)

theorem sftp_roundtrip_witness:
  "\<exists>i fs2 fs3 r fs4. upload demo_mock ''up'' (''inbox/'' @ ''f'') demo_chunks 3 = Some fs2 \<and>
     promoteInboxesLocked 10 [file_key ''up'' ''inbox'' ''f''] demo_ids fs2 = Some fs3 \<and>
     files fs3 (file_key ''up'' ''inbox'' ''f'') = None \<and>
     Fileread [] fs3 ''dl'' (''outbox/'' @ ''f'' @ ''#'' @ demo_ids i) = (Some r, fs4) \<and>
     fst (ReadAt r 3 0) = ''abc''"
proof -
  have p: "plain_name ''f''" by (simp add: plain_name_def)
  have f: "''up'' \<notin> failUsers demo_mock" "fs_persist demo_mock"
    by (simp_all add: demo_mock_def newMockFS_def)
  note st = upload_stored[OF p f demo_cover(2,1), of 3]
  obtain fs2 where fs2: "upload demo_mock ''up'' (''inbox/'' @ ''f'') demo_chunks 3 = Some fs2"
    using st by simp
  have e: "enumerates [file_key ''up'' ''inbox'' ''f''] (files fs2)"
    using trans[OF fs2[symmetric] st] by (auto simp: enumerates_def demo_mock_def newMockFS_def split: if_splits)
  have c: "CHR ''#'' \<notin> set ''f''" "CHR ''/'' \<notin> set ''up''" by simp_all
  have l: "length ''abc'' < 2 ^ 62" by simp
  have t: "fs_delay demo_mock \<le> time_sub 10 3" "''dl'' = route_of (routes demo_mock) ''up''"
    by (simp_all add: demo_mock_def newMockFS_def time_sub_def route_of_def)
  from sftp_roundtrip[OF p c f demo_cover(2,1) l fs2 e demo_ids_fresh t]
  obtain i fs3 where i: "promoteInboxesLocked 10 [file_key ''up'' ''inbox'' ''f''] demo_ids fs2 = Some fs3"
    "files fs3 (file_key ''up'' ''inbox'' ''f'') = None"
    "\<forall>rks. \<exists>r fs4. Fileread rks fs3 ''dl'' (''outbox/'' @ ''f'' @ ''#'' @ demo_ids i) = (Some r, fs4) \<and>
       (\<forall>k off. fst (ReadAt r k off) = take k (drop off ''abc''))"
    by blast
  from i(3) obtain r fs4 where "Fileread [] fs3 ''dl'' (''outbox/'' @ ''f'' @ ''#'' @ demo_ids i) = (Some r, fs4)"
    "fst (ReadAt r 3 0) = take 3 (drop 0 ''abc'')" by blast
  moreover have "take 3 (drop 0 ''abc'') = ''abc''" by simp
  ultimately show ?thesis using fs2 i(1,2) by metis
qed

section \<open>The server under concurrent clients\<close>

text \<open>
  The server as a step relation: the file map, the open write handles, and, as history, the
  uploads that were closed (key, size, content, time). The handlers run their critical sections
  one at a time under the mutex, so a step is one request of any client; a handle is written and
  closed by the connection that opened it.
\<close>

type_synonym closed_upload = "string \<times> int \<times> string option \<times> int"
type_synonym server_state = "mockFS \<times> (nat \<rightharpoonup> writeHandle) \<times> closed_upload set"

inductive sftp_step :: "server_state \<Rightarrow> server_state \<Rightarrow> bool" where
  open_file: "Filewrite fs u p = (Inr w, fs') \<Longrightarrow> CHR ''/'' \<notin> set u \<Longrightarrow>
     sftp_step (fs, hs, log) (fs', hs(i \<mapsto> w), log)"
| refused: "Filewrite fs u p = (Inl e, fs') \<Longrightarrow> sftp_step (fs, hs, log) (fs', hs, log)"
| write_chunk: "hs i = Some w \<Longrightarrow> WriteAt (fs_persist fs) w p off = Some w' \<Longrightarrow>
     sftp_step (fs, hs, log) (fs, hs(i \<mapsto> w'), log)"
| close_file: "hs i = Some w \<Longrightarrow>
     sftp_step (fs, hs, log)
       (Close now fs w, hs(i := None), insert (wh_key w, wh_size w, wh_content w, now) log)"
| list_files: "enumerates ks (files fs) \<Longrightarrow> fresh_ids tids \<Longrightarrow>
     Filelist now ks ks' tids fs u meth p = Some (l, fs') \<Longrightarrow> sftp_step (fs, hs, log) (fs', hs, log)"
| read_file: "Fileread rks fs u p = (r, fs') \<Longrightarrow> sftp_step (fs, hs, log) (fs', hs, log)"

text \<open>
  What a file of an outbox goes back to: an upload under the name before the mark, by a user
  routed to this outbox, closed at least the delay before the copy was made, with the same
  size and content.
\<close>

definition delivered :: "int \<Rightarrow> (string \<rightharpoonup> string) \<Rightarrow> closed_upload set \<Rightarrow> string \<Rightarrow> string \<Rightarrow> fileState \<Rightarrow> bool" where
  "delivered d rs log dst m st \<longleftrightarrow>
     (\<exists>u b t now. m = tracked_name b (trackID st) \<and> route_of rs u = dst \<and> completedAt st = Some now \<and>
        d \<le> time_sub now t \<and> (file_key u ''inbox'' b, st_size st, st_content st, t) \<in> log)"

definition inbox_key :: "string \<Rightarrow> bool" where
  "inbox_key k \<longleftrightarrow> (\<exists>u n. CHR ''/'' \<notin> set u \<and> k = file_key u ''inbox'' n)"

definition server_inv :: "int \<Rightarrow> (string \<rightharpoonup> string) \<Rightarrow> server_state \<Rightarrow> bool" where
  "server_inv d rs = (\<lambda>(fs, hs, log).
     fs_delay fs = d \<and> routes fs = rs \<and>
     (\<forall>w \<in> ran hs. inbox_key (wh_key w)) \<and>
     (\<forall>u b st t. CHR ''/'' \<notin> set u \<longrightarrow> CHR ''#'' \<notin> set b \<longrightarrow>
        files fs (file_key u ''inbox'' b) = Some st \<longrightarrow> completedAt st = Some t \<longrightarrow>
        (file_key u ''inbox'' b, st_size st, st_content st, t) \<in> log) \<and>
     (\<forall>dst m st. CHR ''/'' \<notin> set dst \<longrightarrow> files fs (file_key dst ''outbox'' m) = Some st \<longrightarrow>
        delivered d rs log dst m st))"

lemma folders_slash [simp]: "CHR ''/'' \<notin> set ''inbox''" "CHR ''/'' \<notin> set ''outbox''" "CHR ''/'' \<notin> set ''sent''"
  by simp_all

lemma inbox_not_outbox: "inbox_key k \<Longrightarrow> CHR ''/'' \<notin> set dst \<Longrightarrow> k \<noteq> file_key dst ''outbox'' m"
  by (auto simp: inbox_key_def file_key_inj)

lemma delivered_mono: "delivered d rs log dst m st \<Longrightarrow> log \<subseteq> log' \<Longrightarrow> delivered d rs log' dst m st"
  unfolding delivered_def by blast

lemma inv_fewer:
  assumes "server_inv d rs (fs, hs, log)" and "files fs' \<subseteq>\<^sub>m files fs"
    and "fs_delay fs' = fs_delay fs" "routes fs' = routes fs"
  shows "server_inv d rs (fs', hs, log)"
  using assms unfolding server_inv_def map_le_def prod.case
  by (metis domI)

lemma evict_less: "evict rks rs user name fls \<subseteq>\<^sub>m fls"
proof -
  have fold: "foldl (\<lambda>m src. if rs src = Some user
      then m(file_key src ''inbox'' name := None, file_key src ''sent'' name := None) else m) m rks \<subseteq>\<^sub>m m" for m
    by (induction rks arbitrary: m rule: rev_induct) (auto simp: map_le_def split: if_splits)
  show ?thesis unfolding evict_def by (rule map_le_trans[OF fold upd_None_map_le])
qed

lemma self_loop_kept:
  "rs u = None \<Longrightarrow> u \<notin> ran rs \<Longrightarrow> route_of rs u = u \<and> evict rks rs u name fls = fls(file_key u ''outbox'' name := None)"
proof -
  assume r: "rs u = None" "u \<notin> ran rs"
  have "foldl (\<lambda>m src. if rs src = Some u
      then m(file_key src ''inbox'' name := None, file_key src ''sent'' name := None) else m) m rks = m" for m
    using r(2) by (induction rks) (auto simp: ran_def)
  then show ?thesis using r(1) by (simp add: evict_def route_of_def)
qed

lemma Fileread_less: "Fileread rks fs u p = (r, fs') \<Longrightarrow>
    files fs' \<subseteq>\<^sub>m files fs \<and> fs_delay fs' = fs_delay fs \<and> routes fs' = routes fs"
  by (auto simp: Fileread_def Let_def evict_less split: prod.splits option.splits if_splits)

lemma Filewrite_ok: "Filewrite fs u p = (Inr w, fs') \<Longrightarrow>
    \<exists>n. wh_key w = file_key u ''inbox'' n \<and> fs' = fs\<lparr>files := (files fs)(wh_key w \<mapsto> new_fileState)\<rparr>"
  by (auto simp: Filewrite_def resolve_def Let_def split: prod.splits if_splits)

lemma inv_open:
  assumes "server_inv d rs (fs, hs, log)" "Filewrite fs u p = (Inr w, fs')" "CHR ''/'' \<notin> set u"
  shows "server_inv d rs (fs', hs(i \<mapsto> w), log)"
proof -
  obtain n where w: "wh_key w = file_key u ''inbox'' n" "fs' = fs\<lparr>files := (files fs)(wh_key w \<mapsto> new_fileState)\<rparr>"
    using Filewrite_ok[OF assms(2)] by blast
  then have k: "inbox_key (wh_key w)" using assms(3) by (auto simp: inbox_key_def)
  have "ran (hs(i \<mapsto> w)) \<subseteq> insert w (ran hs)" by (auto simp: ran_def)
  then show ?thesis using assms(1) k inbox_not_outbox[OF k] inbox_not_outbox[OF k, THEN not_sym]
    unfolding server_inv_def w(2) by (auto simp: new_fileState_def)
qed

lemma inv_write:
  assumes "server_inv d rs (fs, hs, log)" "hs i = Some w" "WriteAt per w p off = Some w'"
  shows "server_inv d rs (fs, hs(i \<mapsto> w'), log)"
proof -
  have "wh_key w' = wh_key w" using assms(3) by (auto simp: WriteAt_def Let_def split: if_splits)
  moreover have "ran (hs(i \<mapsto> w')) \<subseteq> insert w' (ran hs)" by (auto simp: ran_def)
  moreover have "w \<in> ran hs" using assms(2) by (rule ranI)
  ultimately show ?thesis using assms(1) unfolding server_inv_def by auto
qed

lemma inv_close:
  assumes "server_inv d rs (fs, hs, log)" "hs i = Some w"
  shows "server_inv d rs (Close now fs w, hs(i := None), insert (wh_key w, wh_size w, wh_content w, now) log)"
proof -
  have k: "inbox_key (wh_key w)" using assms ranI[of hs i w] by (simp add: server_inv_def)
  have "ran (hs(i := None)) \<subseteq> ran hs" by (auto simp: ran_def)
  with assms(1) k inbox_not_outbox[OF k] inbox_not_outbox[OF k, THEN not_sym] show ?thesis
    unfolding server_inv_def Close_def
    by (auto split: option.split intro: delivered_mono[OF _ subset_insertI])
qed

lemma promoted_file_cases:
  assumes "left_behind now rs fls ((old, u, b), tid) k = Some st"
  shows "k = file_key u ''inbox'' (tracked_name b tid) \<or> k = file_key u ''sent'' (tracked_name b tid) \<or>
    k = file_key (route_of rs u) ''outbox'' (tracked_name b tid) \<and> st = promoted_copy now tid (the (fls old))"
  using assms by (auto simp: left_behind_def split: if_splits)

lemma inv_promote:
  assumes inv: "server_inv d rs (fs, hs, log)" and ks: "enumerates ks (files fs)" and ids: "fresh_ids tids"
    and rs: "\<forall>u v. rs u = Some v \<longrightarrow> CHR ''/'' \<notin> set v"
  shows "server_inv d rs (fs\<lparr>files := promoted now rs (promotions now ks tids fs) (files fs)\<rparr>, hs, log)"
proof -
  let ?L = "promotions now ks tids fs"
  let ?m = "promoted now rs ?L (files fs)"
  have up: "(file_key u ''inbox'' b, st_size st, st_content st, t) \<in> log"
    if "CHR ''/'' \<notin> set u" "CHR ''#'' \<notin> set b" "files fs (file_key u ''inbox'' b) = Some st" "completedAt st = Some t"
    for u b st t
    using inv that unfolding server_inv_def by blast
  have entry: "\<exists>st t. files fs old = Some st \<and> completedAt st = Some t \<and> d \<le> time_sub now t \<and>
      old = file_key u ''inbox'' b \<and> CHR ''/'' \<notin> set u \<and> CHR ''#'' \<notin> set b"
    if "((old, u, b), tid) \<in> set ?L" for old u b tid
    using promotions_mem[OF that] inv by (auto simp: ready_iff server_inv_def)
  have route: "CHR ''/'' \<notin> set (route_of rs u)" if "CHR ''/'' \<notin> set u" for u
    using that rs by (auto simp: route_of_def split: option.split)
  have A: "(file_key u ''inbox'' b, st_size st, st_content st, t) \<in> log"
    if u: "CHR ''/'' \<notin> set u" and b: "CHR ''#'' \<notin> set b" and m: "?m (file_key u ''inbox'' b) = Some st"
      and t: "completedAt st = Some t" for u b st t
    using m
  proof (cases rule: promoted_cases)
    case (new r)
    obtain old u' b' tid where r: "r = ((old, u', b'), tid)" by (cases r) auto
    have "CHR ''/'' \<notin> set u'" "CHR ''/'' \<notin> set (route_of rs u')" using entry new(1) r route by blast+
    with promoted_file_cases[OF new(2)[unfolded r]] u have "b = tracked_name b' tid"
      by (auto simp: file_key_inj)
    with b show ?thesis by (simp add: tracked_name_def)
  next
    case kept
    with up u b t show ?thesis by blast
  qed
  have B: "delivered d rs log dst m st"
    if dst: "CHR ''/'' \<notin> set dst" and m: "?m (file_key dst ''outbox'' m) = Some st" for dst m st
    using m
  proof (cases rule: promoted_cases)
    case (new r)
    obtain old u b tid where r: "r = ((old, u, b), tid)" by (cases r) auto
    obtain st0 t where e: "files fs old = Some st0" "completedAt st0 = Some t" "d \<le> time_sub now t"
      "old = file_key u ''inbox'' b" "CHR ''/'' \<notin> set u" "CHR ''#'' \<notin> set b"
      using entry new(1) r by blast
    from promoted_file_cases[OF new(2)[unfolded r]] dst e(5) route[OF e(5)]
    have "dst = route_of rs u" "m = tracked_name b tid" "st = promoted_copy now tid st0"
      by (auto simp: file_key_inj e(1))
    with e up show ?thesis unfolding delivered_def
      by (intro exI[of _ u] exI[of _ b] exI[of _ t] exI[of _ now]) (auto simp: promoted_copy_def)
  next
    case kept
    with inv dst show ?thesis unfolding server_inv_def by blast
  qed
  from inv A B show ?thesis unfolding server_inv_def by auto
qed


lemma Filelist_fs: "Filelist now ks ks' tids fs u meth p = Some (l, fs') \<Longrightarrow> fresh_ids tids \<Longrightarrow> distinct ks \<Longrightarrow>
    fs' = fs \<or> fs' = fs\<lparr>files := promoted now (routes fs) (promotions now ks tids fs) (files fs)\<rparr>"
  by (auto simp: Filelist_def listFolder_def promote_result split: if_splits)

definition plain_routes :: "(string \<rightharpoonup> string) \<Rightarrow> bool" where
  "plain_routes rs \<longleftrightarrow> (\<forall>u v. rs u = Some v \<longrightarrow> CHR ''/'' \<notin> set v)"

lemma server_step_inv:
  assumes rs: "plain_routes rs" and inv: "server_inv d rs s" and st: "sftp_step s s'"
  shows "server_inv d rs s'"
  using st
proof cases
  case (open_file fs u p w fs' hs log i)
  then show ?thesis using inv inv_open by blast
next
  case (refused fs u p e fs' hs log)
  then have "fs' = fs" by (auto simp: Filewrite_def split: prod.splits if_splits)
  with refused inv show ?thesis by simp
next
  case (write_chunk hs i w fs p off w' log)
  then show ?thesis using inv inv_write by blast
next
  case (close_file hs i w fs log now)
  then show ?thesis using inv inv_close by blast
next
  case (list_files ks fs tids now ks' u meth p l fs' hs log)
  have "routes fs = rs" using inv list_files(1) by (simp add: server_inv_def)
  with Filelist_fs[OF list_files(5,4) enumerates_distinct[OF list_files(3)]]
    inv_promote[OF inv[unfolded list_files(1)] list_files(3,4)] rs
  show ?thesis using list_files(1,2) inv unfolding plain_routes_def by auto
next
  case (read_file rks fs u p r fs' hs log)
  then show ?thesis using inv Fileread_less[OF read_file(3)] inv_fewer by blast
qed

lemma server_start: "files fs = Map.empty \<Longrightarrow> server_inv (fs_delay fs) (routes fs) (fs, Map.empty, {})"
  by (simp add: server_inv_def)

interpretation sftp: transition sftp_step "\<lambda>s. plain_routes rs \<and> server_inv d rs s" for d rs
  by unfold_locales (blast intro: server_step_inv)

text \<open>C9: Outboxes hold only deliveries. In every state the server reaches from an empty one, under
  any interleaving of the requests of any clients, with any iteration orders and clock, every
  file in the outbox of a user goes back to an upload that was closed at least the delay before
  the copy was made: its name is the uploaded name, the mark and its track id, the sender is
  routed to this outbox, and size and content are those of the upload.\<close>

theorem outbox_sound:
  assumes "sftp_step\<^sup>*\<^sup>* (fs0, Map.empty, {}) (fs, hs, log)" and "files fs0 = Map.empty"
    and "plain_routes (routes fs0)" and "CHR ''/'' \<notin> set dst"
    and "files fs (file_key dst ''outbox'' m) = Some st"
  shows "\<exists>u b t now. m = b @ ''#'' @ trackID st \<and> route_of (routes fs0) u = dst \<and> completedAt st = Some now \<and>
    fs_delay fs0 \<le> time_sub now t \<and> (file_key u ''inbox'' b, st_size st, st_content st, t) \<in> log"
proof -
  have "server_inv (fs_delay fs0) (routes fs0) (fs, hs, log)"
    using sftp.reach_keeps[OF assms(1)] server_start[OF assms(2)] assms(3) by blast
  with assms(4,5) show ?thesis
    unfolding server_inv_def delivered_def tracked_name_def by blast
qed

lemma writes_steps:
  "writes (fs_persist fs) w cs = Some w' \<Longrightarrow> sftp_step\<^sup>*\<^sup>* (fs, [0 \<mapsto> w], log) (fs, [0 \<mapsto> w'], log)"
proof (induction cs arbitrary: w)
  case (Cons c cs)
  obtain off p where [simp]: "c = (off, p)" by (cases c)
  from Cons.prems obtain w1 where w1: "WriteAt (fs_persist fs) w p (int off) = Some w1"
    "writes (fs_persist fs) w1 cs = Some w'" by (auto split: Option.bind_splits)
  have "sftp_step (fs, [0 \<mapsto> w], log) (fs, [0 \<mapsto> w1], log)"
    using write_chunk[of "[0 \<mapsto> w]" 0 w fs p "int off" w1 log] w1 by simp
  from converse_rtranclp_into_rtranclp[OF this Cons.IH[OF w1(2)]] show ?case .
qed simp

lemma upload_steps:
  assumes "upload fs u p cs t = Some fs2" and "CHR ''/'' \<notin> set u"
  shows "\<exists>log. sftp_step\<^sup>*\<^sup>* (fs, Map.empty, {}) (fs2, Map.empty, log)"
proof -
  obtain w fs1 w' where w: "Filewrite fs u p = (Inr w, fs1)" "writes (fs_persist fs1) w cs = Some w'" "fs2 = Close t fs1 w'"
    using assms(1) by (auto simp: upload_def split: prod.splits sum.splits)
  have a: "sftp_step (fs, Map.empty, {}) (fs1, [0 \<mapsto> w], {})" by (rule open_file[OF w(1) assms(2)])
  have b: "sftp_step (fs1, [0 \<mapsto> w'], {}) (fs2, Map.empty, {(wh_key w', wh_size w', wh_content w', t)})"
    using close_file[of "[0 \<mapsto> w']" 0 w' fs1 "{}" t] w(3) by simp
  from rtranclp.rtrancl_into_rtrancl[OF converse_rtranclp_into_rtranclp[OF a writes_steps[OF w(2)]] b]
  show ?thesis by blast
qed

theorem outbox_sound_witness:
  "\<exists>(fs :: mockFS) m st. files fs (file_key ''dl'' ''outbox'' m) = Some st \<and> (\<exists>b. m = b @ ''#'' @ trackID st)"
proof -
  have p: "plain_name ''f''" by (simp add: plain_name_def)
  have f: "''up'' \<notin> failUsers demo_mock" "fs_persist demo_mock"
    by (simp_all add: demo_mock_def newMockFS_def)
  have c: "CHR ''#'' \<notin> set ''f''" "CHR ''/'' \<notin> set ''up''" "CHR ''/'' \<notin> set ''dl''" by simp_all
  have l: "length ''abc'' < 2 ^ 62" by simp
  have t: "fs_delay demo_mock \<le> time_sub 10 3" "''dl'' = route_of (routes demo_mock) ''up''"
    "files demo_mock = Map.empty" "plain_routes (routes demo_mock)"
    by (simp_all add: demo_mock_def newMockFS_def time_sub_def route_of_def plain_routes_def)
  note st = upload_stored[OF p f demo_cover(2,1) l, of 3]
  obtain fs2 where fs2: "upload demo_mock ''up'' (''inbox/'' @ ''f'') demo_chunks 3 = Some fs2"
    using st by simp
  have e: "enumerates [file_key ''up'' ''inbox'' ''f''] (files fs2)"
    using trans[OF fs2[symmetric] st] by (auto simp: enumerates_def demo_mock_def newMockFS_def split: if_splits)
  obtain log where s1: "sftp_step\<^sup>*\<^sup>* (demo_mock, Map.empty, {}) (fs2, Map.empty, log)"
    using upload_steps[OF fs2 c(2)] by blast
  from delivery[OF p c(1,2) f demo_cover(2,1) l fs2 e demo_ids_fresh t(1,2)]
  obtain i fs3 ks' where d: "promoteInboxesLocked 10 [file_key ''up'' ''inbox'' ''f''] demo_ids fs2 = Some fs3"
    "files fs3 (file_key ''dl'' ''outbox'' (tracked_name ''f'' (demo_ids i))) \<noteq> None" by blast
  have "sftp_step (fs2, Map.empty, log) (fs3, Map.empty, log)"
    by (rule list_files[OF e demo_ids_fresh, where now = 10 and ks' = "[]" and u = "''dl''" and meth = "''List''" and p = "''outbox''"])
      (simp add: Filelist_def listFolder_def d(1))
  with s1 have s: "sftp_step\<^sup>*\<^sup>* (demo_mock, Map.empty, {}) (fs3, Map.empty, log)" by simp
  obtain st where st: "files fs3 (file_key ''dl'' ''outbox'' (tracked_name ''f'' (demo_ids i))) = Some st"
    using d(2) by blast
  from outbox_sound[OF s t(3,4) c(3) st] have b: "\<exists>b. tracked_name ''f'' (demo_ids i) = b @ ''#'' @ trackID st"
    by blast
  show ?thesis
    by (rule exI[of _ fs3], rule exI[of _ "tracked_name ''f'' (demo_ids i)"], rule exI[of _ st], rule conjI[OF st b])
qed

end
