(* ===== verification/MockFtp.thy ===== *)
theory MockFtp
  imports MockFs
begin

text \<open>
  The in-process FTP/FTPS server (mockftp/server.go): the command loop of a control connection
  as a function from a command line and what the environment does with it (listening,
  accepting the data connection, bytes received, write errors, TLS handshakes, the clock, map
  orders, random ids) to the replies, the new session, the new file map and whether the
  connection goes on. The file map is that of the theory MockFs, whose promotion the FTP server
  duplicates word for word.
\<close>

section \<open>State\<close>

record server =
  allowExplicit :: bool
  hasTLS :: bool
  passiveAddr :: string

text \<open>The listener of the data connection, when there is one: whether it speaks TLS.\<close>

record session =
  user :: string
  authed :: bool
  rnfr :: string
  protectControl :: bool
  protectData :: bool
  dataListener :: "bool option"
  dataPort :: int

definition new_session :: "bool \<Rightarrow> session" where
  "new_session alreadyTLS = \<lparr>user = [], authed = False, rnfr = [], protectControl = False,
     protectData = alreadyTLS, dataListener = None, dataPort = 0\<rparr>"

text \<open>What the environment does during one command.\<close>

record environment =
  env_listen :: "string + int"
  env_accept :: "string option"
  env_data :: string
  env_copy_error :: "string option"
  env_write_ok :: bool
  env_handshake :: bool
  env_now :: int
  env_then :: int
  env_files :: "string list"
  env_files' :: "string list"
  env_routes :: "string list"
  env_ids :: "nat \<Rightarrow> string"

section \<open>The file map\<close>

definition ftp_ParsePairs :: "string \<Rightarrow> (string \<rightharpoonup> string)" where
  "ftp_ParsePairs s =
     foldl (\<lambda>out kv. case split_n 2 (CHR ''='') (trim_space kv) of
                    [a, b] \<Rightarrow> if a \<noteq> [] \<and> b \<noteq> [] then out(a \<mapsto> b) else out
                  | _ \<Rightarrow> out) Map.empty (split_byte (CHR '','') s)"

definition ftp_ParseFailUsers :: "string \<Rightarrow> string set" where
  "ftp_ParseFailUsers s = set (filter (\<lambda>u. u \<noteq> []) (map trim_space (split_byte (CHR '','') s)))"

definition splitPath :: "string \<Rightarrow> string \<times> string" where
  "splitPath p =
     (let q = trim_prefix (path_clean p) ''/'' in
      case split_n 2 (CHR ''/'') q of [a, b] \<Rightarrow> (a, b) | _ \<Rightarrow> (''inbox'', q))"

definition ftp_key :: "string \<Rightarrow> string \<Rightarrow> string" where
  "ftp_key u p = (let (folder, name) = splitPath p in file_key u folder name)"

definition promoteAll :: "int \<Rightarrow> string list \<Rightarrow> (nat \<Rightarrow> string) \<Rightarrow> mockFS \<Rightarrow> mockFS option" where
  "promoteAll now ks tids fs =
     (let rs = ready now (fs_delay fs) (files fs) ks in
      map_option (\<lambda>m. fs\<lparr>files := m\<rparr>)
        (promote_all now (routes fs) (zip rs (map tids [0..<length rs])) (files fs)))"

definition list_folder :: "string \<Rightarrow> string" where
  "list_folder p =
     (let f = trim_prefix (trim_space p) ''/'';
          f = (case str_index f ''/'' of None \<Rightarrow> f | Some i \<Rightarrow> take i f)
      in if f = [] \<or> f = ''.'' then ''inbox'' else f)"

definition listForUser :: "string list \<Rightarrow> mockFS \<Rightarrow> string \<Rightarrow> string \<Rightarrow> file_info list" where
  "listForUser ks fs u p =
     List.map_filter (list_entry (files fs) (u @ ''/'' @ list_folder p @ ''/'')) ks"

text \<open>\<open>mockFS.read\<close>; making the body of a negative size panics (None), which no operation
  leads to.\<close>

definition fs_read :: "string list \<Rightarrow> mockFS \<Rightarrow> string \<Rightarrow> string \<Rightarrow> (string option \<times> mockFS) option" where
  "fs_read rks fs u p =
     (let (folder, name) = splitPath p;
          folder = (if folder = [] then ''outbox'' else folder)
      in case files fs (file_key u folder name) of
           None \<Rightarrow> Some (None, fs)
         | Some st \<Rightarrow>
             map_option (\<lambda>body.
                 (Some body,
                  if folder = ''outbox'' \<and> evictAfterRead fs
                  then fs\<lparr>files := evict rks (routes fs) u name (files fs)\<rparr> else fs))
               (case st_content st of
                  Some b \<Rightarrow> if fs_persist fs then Some b
                     else if st_size st < 0 then None else Some (replicate (nat (st_size st)) (CHR 0x00))
                | None \<Rightarrow> if st_size st < 0 then None else Some (replicate (nat (st_size st)) (CHR 0x00))))"

definition fs_delete :: "mockFS \<Rightarrow> string \<Rightarrow> string \<Rightarrow> bool \<times> mockFS" where
  "fs_delete fs u p =
     (case files fs (ftp_key u p) of
        None \<Rightarrow> (False, fs)
      | Some _ \<Rightarrow> (True, fs\<lparr>files := (files fs)(ftp_key u p := None)\<rparr>))"

definition fs_rename :: "mockFS \<Rightarrow> string \<Rightarrow> string \<Rightarrow> string \<Rightarrow> bool \<times> mockFS" where
  "fs_rename fs u from to =
     (case files fs (ftp_key u from) of
        None \<Rightarrow> (False, fs)
      | Some st \<Rightarrow> (True, fs\<lparr>files := ((files fs)(ftp_key u from := None))(ftp_key u to \<mapsto> st)\<rparr>))"

definition fs_size :: "mockFS \<Rightarrow> string \<Rightarrow> string \<Rightarrow> int option" where
  "fs_size fs u p = map_option st_size (files fs (ftp_key u p))"

section \<open>Data connections\<close>

definition closeData :: "session \<Rightarrow> session" where
  "closeData s = s\<lparr>dataListener := None\<rparr>"

definition dataReady :: "session \<Rightarrow> bool" where
  "dataReady s \<longleftrightarrow> dataListener s \<noteq> None"

text \<open>\<open>openPassive\<close>: the advertised address and port, or the error of listening.\<close>

definition openPassive :: "server \<Rightarrow> environment \<Rightarrow> session \<Rightarrow> (string + string \<times> int) \<times> session" where
  "openPassive srv env s =
     (let s = closeData s in
      case env_listen env of
        Inl e \<Rightarrow> (Inl e, s)
      | Inr port \<Rightarrow>
          (Inr (if passiveAddr srv = [] then ''127.0.0.1'' else passiveAddr srv, port),
           s\<lparr>dataListener := Some (protectData s \<and> hasTLS srv), dataPort := port\<rparr>))"

text \<open>\<open>acceptData\<close> consumes the listener: the error, if any.\<close>

definition acceptData :: "environment \<Rightarrow> session \<Rightarrow> string option \<times> session" where
  "acceptData env s =
     (if dataListener s = None then (Some ''no passive listener'', s)
      else (env_accept env, s\<lparr>dataListener := None\<rparr>))"

text \<open>The two critical sections of \<open>acceptStor\<close>: the entry is created before the bytes
  arrive and completed after them, also when the copy failed half way.\<close>

definition stor_key :: "string \<Rightarrow> string \<Rightarrow> string" where
  "stor_key u p = (let (folder, name) = splitPath p in
     file_key u (if folder = [] then ''inbox'' else folder) name)"

definition stor_open :: "mockFS \<Rightarrow> string \<Rightarrow> mockFS" where
  "stor_open fs key = fs\<lparr>files := (files fs)(key \<mapsto> new_fileState)\<rparr>"

text \<open>The write handle appends the bytes it gets; without any byte its buffer stays nil.\<close>

definition stor_finish :: "int \<Rightarrow> mockFS \<Rightarrow> string \<Rightarrow> string \<Rightarrow> mockFS" where
  "stor_finish now fs key data =
     (case files fs key of
        None \<Rightarrow> fs
      | Some st \<Rightarrow> fs\<lparr>files := (files fs)(key \<mapsto>
          st\<lparr>st_size := int (length data), completedAt := Some now,
             st_content := (if fs_persist fs then (if data = [] then None else Some data) else st_content st)\<rparr>)\<rparr>)"

definition acceptStor :: "environment \<Rightarrow> mockFS \<Rightarrow> session \<Rightarrow> string \<Rightarrow> string option \<times> session \<times> mockFS" where
  "acceptStor env fs s p =
     (case acceptData env s of
        (Some e, s) \<Rightarrow> (Some e, s, fs)
      | (None, s) \<Rightarrow>
          let key = stor_key (user s) p in
          (env_copy_error env, s, stor_finish (env_then env) (stor_open fs key) key (env_data env)))"

text \<open>\<open>streamRetr\<close> and \<open>streamList\<close>: the body or the listing goes to the data connection; the
  result is whether it was sent.\<close>

definition stream :: "environment \<Rightarrow> session \<Rightarrow> bool \<times> session" where
  "stream env s =
     (case acceptData env s of (Some _, s) \<Rightarrow> (False, s) | (None, s) \<Rightarrow> (env_write_ok env, s))"

section \<open>The command loop\<close>

definition splitCmd :: "(string \<Rightarrow> string) \<Rightarrow> string \<Rightarrow> string \<times> string" where
  "splitCmd uni line =
     (case str_index line '' '' of
        None \<Rightarrow> (to_upper uni (trim_space line), [])
      | Some i \<Rightarrow> (to_upper uni (trim_space (take i line)), trim_space (drop (Suc i) line)))"

text \<open>A step ends in the next command or in the end of the connection.\<close>

datatype flow = Next | Closed

text \<open>What goes out during a step: reply lines on the control connection, and on the data
  connection a file body or a listing (of a failed transfer nothing is recorded).\<close>

datatype ftp_out = Reply string | Body string | Listing "file_info list"

type_synonym ftp_result = "ftp_out list \<times> flow \<times> session \<times> mockFS"

definition data_opening :: ftp_out where "data_opening = Reply ''150 opening data connection''"

definition pasv_reply :: "string \<Rightarrow> int \<Rightarrow> string" where
  "pasv_reply ip port =
     (let ps = split_byte (CHR ''.'') ip;
          ps = (if length ps \<noteq> 4 then [''127'', ''0'', ''0'', ''1''] else ps)
      in ''227 entering passive mode ('' @ str_join '','' (ps @ [go_itoa (port div 256), go_itoa (port mod 256)]) @ '')'')"

definition epsv_reply :: "string \<Rightarrow> int \<Rightarrow> string" where
  "epsv_reply ip port = ''229 entering extended passive mode (|||'' @ go_itoa port @ ''|)''"

definition do_passive :: "server \<Rightarrow> environment \<Rightarrow> (string \<Rightarrow> int \<Rightarrow> string) \<Rightarrow> session \<Rightarrow> mockFS \<Rightarrow> ftp_result" where
  "do_passive srv env reply s fs =
     (case openPassive srv env s of
        (Inl e, s) \<Rightarrow> ([Reply (''425 cannot open data connection: '' @ e)], Next, s, fs)
      | (Inr (ip, port), s) \<Rightarrow> ([Reply (reply ip port)], Next, s, fs))"

definition do_stor :: "environment \<Rightarrow> session \<Rightarrow> mockFS \<Rightarrow> string \<Rightarrow> ftp_result" where
  "do_stor env s fs arg =
     (if \<not> authed s then ([Reply ''530 not logged in''], Next, s, fs)
      else if \<not> dataReady s then ([Reply ''425 PASV first''], Next, s, fs)
      else if user s \<in> failUsers fs then ([Reply ''550 test harness rejection''], Next, closeData s, fs)
      else case acceptStor env fs s arg of
        (Some e, s, fs) \<Rightarrow> ([data_opening, Reply (''550 stor failed: '' @ e)], Next, s, fs)
      | (None, s, fs) \<Rightarrow> ([data_opening, Reply ''226 transfer complete''], Next, s, fs))"

definition do_retr :: "environment \<Rightarrow> session \<Rightarrow> mockFS \<Rightarrow> string \<Rightarrow> ftp_result option" where
  "do_retr env s fs arg =
     (if \<not> authed s then Some ([Reply ''530 not logged in''], Next, s, fs)
      else if \<not> dataReady s then Some ([Reply ''425 PASV first''], Next, s, fs)
      else case fs_read (env_routes env) fs (user s) arg of
        None \<Rightarrow> None
      | Some (None, fs) \<Rightarrow> Some ([Reply ''550 not found''], Next, closeData s, fs)
      | Some (Some body, fs) \<Rightarrow>
          (case stream env s of
             (False, s) \<Rightarrow> Some ([data_opening, Reply ''426 transfer error''], Next, s, fs)
           | (True, s) \<Rightarrow> Some ([data_opening, Body body, Reply ''226 transfer complete''], Next, s, fs)))"

definition do_list :: "environment \<Rightarrow> session \<Rightarrow> mockFS \<Rightarrow> string \<Rightarrow> ftp_result option" where
  "do_list env s fs arg =
     (if \<not> authed s then Some ([Reply ''530 not logged in''], Next, s, fs)
      else if \<not> dataReady s then Some ([Reply ''425 PASV first''], Next, s, fs)
      else map_option (\<lambda>fs.
          let entries = listForUser (env_files' env) fs (user s) arg in
          case stream env s of
            (False, s) \<Rightarrow> ([data_opening, Reply ''426 list transfer error''], Next, s, fs)
          | (True, s) \<Rightarrow> ([data_opening, Listing entries, Reply ''226 list complete''], Next, s, fs))
        (promoteAll (env_now env) (env_files env) (env_ids env) fs))"

definition features :: "string list" where
  "features = [''211-features'', '' UTF8'', '' PASV'', '' EPSV'', '' SIZE'', '' AUTH TLS'', '' PBSZ'', '' PROT'', ''211 end'']"

text \<open>The cases of the switch over the command word.\<close>

datatype verb = USER | PASS | AUTH | PBSZ | PROT | FEAT | OPTS | SYST | TYPE_cmd | PWD | CWD | NOOP | QUIT
  | PASV | EPSV | STOR | RETR | LIST | DELE | RNFR | RNTO | SIZE | Other string

definition verbs :: "(string \<times> verb) list" where
  "verbs = [(''USER'', USER), (''PASS'', PASS), (''AUTH'', AUTH), (''PBSZ'', PBSZ), (''PROT'', PROT),
     (''FEAT'', FEAT), (''OPTS'', OPTS), (''SYST'', SYST), (''TYPE'', TYPE_cmd), (''PWD'', PWD), (''CWD'', CWD),
     (''NOOP'', NOOP), (''QUIT'', QUIT), (''PASV'', PASV), (''EPSV'', EPSV), (''STOR'', STOR), (''RETR'', RETR),
     (''LIST'', LIST), (''NLST'', LIST), (''DELE'', DELE), (''RNFR'', RNFR), (''RNTO'', RNTO), (''SIZE'', SIZE)]"

definition verb_of :: "string \<Rightarrow> verb" where
  "verb_of cmd = (case map_of verbs cmd of None \<Rightarrow> Other cmd | Some v \<Rightarrow> v)"

text \<open>\<open>strings.EqualFold\<close> against an upper-case ASCII word.\<close>

definition equal_fold :: "(string \<Rightarrow> string) \<Rightarrow> string \<Rightarrow> string \<Rightarrow> bool" where
  "equal_fold uni a b \<longleftrightarrow> to_upper uni a = b"

definition say :: "string \<Rightarrow> session \<Rightarrow> mockFS \<Rightarrow> ftp_result option" where
  "say r s fs = Some ([Reply r], Next, s, fs)"

text \<open>One command. None is a panic.\<close>

fun handle_cmd ::
  "(string \<Rightarrow> string) \<Rightarrow> server \<Rightarrow> environment \<Rightarrow> verb \<Rightarrow> string \<Rightarrow> session \<Rightarrow> mockFS \<Rightarrow> ftp_result option" where
  "handle_cmd uni srv env USER arg s fs = say ''331 password required'' (s\<lparr>user := arg\<rparr>) fs"
| "handle_cmd uni srv env PASS arg s fs =
     (if user s = [] then say ''530 USER first'' s fs else say ''230 logged in'' (s\<lparr>authed := True\<rparr>) fs)"
| "handle_cmd uni srv env AUTH arg s fs =
     (if \<not> allowExplicit srv \<or> \<not> hasTLS srv then say ''502 AUTH not supported'' s fs
      else if \<not> equal_fold uni arg ''TLS'' \<and> \<not> equal_fold uni arg ''TLS-C'' then say ''504 only TLS'' s fs
      else if env_handshake env then say ''234 ready for TLS'' (s\<lparr>protectControl := True\<rparr>) fs
      else Some ([Reply ''234 ready for TLS''], Closed, s, fs))"
| "handle_cmd uni srv env PBSZ arg s fs = say ''200 PBSZ=0'' s fs"
| "handle_cmd uni srv env PROT arg s fs =
     (if equal_fold uni arg ''P'' then say ''200 data protection set to PRIVATE'' (s\<lparr>protectData := True\<rparr>) fs
      else say ''200 data protection cleared'' (s\<lparr>protectData := False\<rparr>) fs)"
| "handle_cmd uni srv env FEAT arg s fs = Some (map Reply features, Next, s, fs)"
| "handle_cmd uni srv env OPTS arg s fs = say ''200 ok'' s fs"
| "handle_cmd uni srv env SYST arg s fs = say ''215 UNIX Type: L8'' s fs"
| "handle_cmd uni srv env TYPE_cmd arg s fs = say ''200 type set'' s fs"
| "handle_cmd uni srv env PWD arg s fs =
     say (''257 '' @ [CHR 0x22] @ ''/'' @ [CHR 0x22] @ '' current directory'') s fs"
| "handle_cmd uni srv env CWD arg s fs = say ''250 cwd ok'' s fs"
| "handle_cmd uni srv env NOOP arg s fs = say ''200 noop'' s fs"
| "handle_cmd uni srv env QUIT arg s fs = Some ([Reply ''221 bye''], Closed, s, fs)"
| "handle_cmd uni srv env PASV arg s fs = Some (do_passive srv env pasv_reply s fs)"
| "handle_cmd uni srv env EPSV arg s fs = Some (do_passive srv env epsv_reply s fs)"
| "handle_cmd uni srv env STOR arg s fs = Some (do_stor env s fs arg)"
| "handle_cmd uni srv env RETR arg s fs = do_retr env s fs arg"
| "handle_cmd uni srv env LIST arg s fs = do_list env s fs arg"
| "handle_cmd uni srv env DELE arg s fs =
     (case fs_delete fs (user s) arg of
        (True, fs) \<Rightarrow> say ''250 deleted'' s fs | (False, fs) \<Rightarrow> say ''550 not found'' s fs)"
| "handle_cmd uni srv env RNFR arg s fs = say ''350 ready for RNTO'' (s\<lparr>rnfr := arg\<rparr>) fs"
| "handle_cmd uni srv env RNTO arg s fs =
     (if rnfr s = [] then say ''503 RNFR first'' s fs
      else case fs_rename fs (user s) (rnfr s) arg of
        (True, fs) \<Rightarrow> say ''250 renamed'' (s\<lparr>rnfr := []\<rparr>) fs
      | (False, fs) \<Rightarrow> say ''550 rename failed'' (s\<lparr>rnfr := []\<rparr>) fs)"
| "handle_cmd uni srv env SIZE arg s fs =
     (case fs_size fs (user s) arg of
        Some n \<Rightarrow> say (''213 '' @ go_itoa n) s fs | None \<Rightarrow> say ''550 not found'' s fs)"
| "handle_cmd uni srv env (Other cmd) arg s fs = say (''502 not implemented: '' @ cmd) s fs"

text \<open>A line off the wire, without its line end, and a session of lines: the replies so far,
  and the state; the loop ends with the lines, a closed connection or a panic.\<close>

definition trim_crlf :: "string \<Rightarrow> string" where
  "trim_crlf s = rev (dropWhile (\<lambda>c. c = CHR 0x0D \<or> c = CHR 0x0A) (rev s))"

definition handle_line :: "(string \<Rightarrow> string) \<Rightarrow> server \<Rightarrow> environment \<Rightarrow> string \<Rightarrow> session \<Rightarrow> mockFS \<Rightarrow> ftp_result option" where
  "handle_line uni srv env line s fs =
     (let (cmd, arg) = splitCmd uni (trim_crlf line) in handle_cmd uni srv env (verb_of cmd) arg s fs)"

fun handle :: "(string \<Rightarrow> string) \<Rightarrow> server \<Rightarrow> (string \<times> environment) list \<Rightarrow> session \<Rightarrow> mockFS \<Rightarrow> ftp_result option" where
  "handle uni srv [] s fs = Some ([], Closed, s, fs)"
| "handle uni srv ((line, env) # rest) s fs =
     (case handle_line uni srv env line s fs of
        None \<Rightarrow> None
      | Some (out, Closed, s, fs) \<Rightarrow> Some (out, Closed, s, fs)
      | Some (out, Next, s, fs) \<Rightarrow>
          map_option (\<lambda>(out', fl, s, fs). (out @ out', fl, s, fs)) (handle uni srv rest s fs))"

section \<open>What a session can do before it logs in\<close>

lemma ran_upd_none: "ran (m(k := None)) \<subseteq> ran m"
  by (auto simp: ran_def)

lemma ran_move: "m k = Some v \<Longrightarrow> ran ((m(k := None))(k' \<mapsto> v)) \<subseteq> ran m"
  by (auto simp: ran_def split: if_splits)

lemma fs_delete_ran: "fs_delete fs u p = (b, fs') \<Longrightarrow> ran (files fs') \<subseteq> ran (files fs)"
  by (auto simp: fs_delete_def dest: subsetD[OF ran_upd_none] split: option.splits)

lemma fs_rename_ran: "fs_rename fs u a b = (r, fs') \<Longrightarrow> ran (files fs') \<subseteq> ran (files fs)"
  using ran_move by (fastforce simp: fs_rename_def split: option.splits)

text \<open>One command of a session that has not logged in.\<close>

lemma cmd_before_login:
  assumes "handle_cmd uni srv env v arg s fs = Some (out, fl, s', fs')" and "\<not> authed s"
  shows "v = PASS \<and> user s \<noteq> [] \<and> out = [Reply ''230 logged in''] \<and> fs' = fs \<or>
    \<not> authed s' \<and> data_opening \<notin> set out \<and> (\<forall>b. Body b \<notin> set out) \<and> (\<forall>l. Listing l \<notin> set out) \<and>
    ran (files fs') \<subseteq> ran (files fs)"
proof (cases v)
  case STOR
  with assms show ?thesis by (auto simp: do_stor_def data_opening_def)
next
  case RETR
  with assms show ?thesis by (auto simp: do_retr_def data_opening_def)
next
  case LIST
  with assms show ?thesis by (auto simp: do_list_def data_opening_def)
next
  case PASV
  with assms show ?thesis
    by (auto simp: do_passive_def openPassive_def closeData_def Let_def data_opening_def pasv_reply_def split: sum.splits)
next
  case EPSV
  with assms show ?thesis
    by (auto simp: do_passive_def openPassive_def closeData_def Let_def data_opening_def epsv_reply_def split: sum.splits)
next
  case DELE
  with assms show ?thesis
    by (auto simp: say_def data_opening_def dest: fs_delete_ran split: prod.splits bool.splits)
next
  case RNTO
  with assms show ?thesis
    by (auto simp: say_def data_opening_def dest: fs_rename_ran split: prod.splits bool.splits if_splits)
next
  case FEAT
  with assms show ?thesis by (auto simp: features_def data_opening_def)
next
  case SIZE
  with assms show ?thesis by (auto simp: say_def data_opening_def split: option.splits)
qed (use assms in \<open>auto simp: say_def data_opening_def split: if_splits\<close>)


lemma line_before_login:
  assumes "handle_line uni srv env line s fs = Some (out, fl, s', fs')" and "\<not> authed s"
    and "Reply ''230 logged in'' \<notin> set out"
  shows "\<not> authed s' \<and> data_opening \<notin> set out \<and> (\<forall>b. Body b \<notin> set out) \<and> (\<forall>l. Listing l \<notin> set out) \<and>
    ran (files fs') \<subseteq> ran (files fs)"
proof -
  obtain cmd arg where "splitCmd uni (trim_crlf line) = (cmd, arg)" by (cases "splitCmd uni (trim_crlf line)")
  with assms(1) have "handle_cmd uni srv env (verb_of cmd) arg s fs = Some (out, fl, s', fs')"
    by (simp add: handle_line_def)
  from cmd_before_login[OF this assms(2)] assms(3) show ?thesis by auto
qed

lemma handle_before_login:
  assumes "handle uni srv es s fs = Some (out, fl, s', fs')" and "\<not> authed s"
    and "Reply ''230 logged in'' \<notin> set out"
  shows "data_opening \<notin> set out \<and> (\<forall>b. Body b \<notin> set out) \<and> (\<forall>l. Listing l \<notin> set out) \<and>
    ran (files fs') \<subseteq> ran (files fs)"
  using assms
proof (induction es arbitrary: s fs out)
  case (Cons e es)
  obtain line env where [simp]: "e = (line, env)" by (cases e)
  from Cons.prems(1) obtain out1 fl1 s1 fs1 where
    one: "handle_line uni srv env line s fs = Some (out1, fl1, s1, fs1)"
    by (auto split: option.splits prod.splits)
  show ?case
  proof (cases fl1)
    case Next
    with Cons.prems(1) one obtain out2 where rest: "handle uni srv es s1 fs1 = Some (out2, fl, s', fs')"
      and out: "out = out1 @ out2" by auto
    from line_before_login[OF one Cons.prems(2)] Cons.prems(3) out
    have one': "\<not> authed s1" "data_opening \<notin> set out1" "\<forall>b. Body b \<notin> set out1" "\<forall>l. Listing l \<notin> set out1"
      "ran (files fs1) \<subseteq> ran (files fs)" by auto
    from Cons.IH[OF rest one'(1)] Cons.prems(3) out one' show ?thesis by auto
  next
    case Closed
    with Cons.prems(1) one have "out = out1" "fs' = fs1" by simp_all
    with line_before_login[OF one Cons.prems(2)] Cons.prems(3) show ?thesis by simp
  qed
qed simp

text \<open>C10: No transfer without login. However long a control connection talks to the FTP server and
  whatever the environment does, as long as no \<open>PASS\<close> has been accepted no data connection is
  used, no file body and no listing is sent, and no file state is created or altered; at most
  files disappear or change their names.\<close>

theorem ftp_login_required:
  assumes "handle uni srv es (new_session alreadyTLS) fs = Some (out, fl, s', fs')"
    and "Reply ''230 logged in'' \<notin> set out"
  shows "Reply ''150 opening data connection'' \<notin> set out \<and> (\<forall>b. Body b \<notin> set out) \<and>
    (\<forall>l. Listing l \<notin> set out) \<and> ran (files fs') \<subseteq> ran (files fs)"
  using handle_before_login[OF assms(1) _ assms(2)] by (simp add: new_session_def data_opening_def)

definition demo_env :: environment where
  "demo_env = \<lparr>env_listen = Inr 4000, env_accept = None, env_data = ''abc'', env_copy_error = None,
     env_write_ok = True, env_handshake = True, env_now = 10, env_then = 3, env_files = [], env_files' = [],
     env_routes = [], env_ids = demo_ids\<rparr>"

definition demo_server :: server where
  "demo_server = \<lparr>allowExplicit = False, hasTLS = False, passiveAddr = []\<rparr>"

definition demo_files :: mockFS where
  "demo_files = demo_mock\<lparr>files := [file_key ''up'' ''inbox'' ''f'' \<mapsto>
     \<lparr>st_size = 3, completedAt = Some 3, trackID = [], st_content = Some ''abc''\<rparr>]\<rparr>"

text \<open>The three commands that check no login: with the name of a user alone, his files can be
  deleted.\<close>

lemma deleted_without_password:
  assumes "files fs (ftp_key u p) = Some st"
  shows "\<exists>s. handle_cmd uni srv env USER u (new_session tls) fs = Some ([Reply ''331 password required''], Next, s, fs) \<and>
    handle_cmd uni srv env DELE p s fs =
      Some ([Reply ''250 deleted''], Next, s, fs\<lparr>files := (files fs)(ftp_key u p := None)\<rparr>)"
  using assms by (simp add: say_def fs_delete_def)

definition demo_lines :: "(string \<times> environment) list" where
  "demo_lines = [(''USER up'', demo_env), (''STOR inbox/g'', demo_env), (''DELE inbox/f'', demo_env)]"

lemma demo_session:
  "map_option fst (handle id demo_server demo_lines (new_session False) demo_files) =
   Some [Reply ''331 password required'', Reply ''530 not logged in'', Reply ''250 deleted'']"
  by code_simp

theorem ftp_login_required_witness:
  "\<exists>s fs'. handle id demo_server demo_lines (new_session False) demo_files =
     Some ([Reply ''331 password required'', Reply ''530 not logged in'', Reply ''250 deleted''], Closed, s, fs') \<and>
   ran (files fs') \<subseteq> ran (files demo_files)"
proof -
  have s: "map_option (fst \<circ> snd) (handle id demo_server demo_lines (new_session False) demo_files) = Some Closed"
    by code_simp
  obtain s fs' where h: "handle id demo_server demo_lines (new_session False) demo_files =
      Some ([Reply ''331 password required'', Reply ''530 not logged in'', Reply ''250 deleted''], Closed, s, fs')"
    using demo_session s by (cases "handle id demo_server demo_lines (new_session False) demo_files") auto
  have n: "Reply ''230 logged in'' \<notin> set [Reply ''331 password required'', Reply ''530 not logged in'', Reply ''250 deleted'']"
    by simp
  from ftp_login_required[OF h n] have "ran (files fs') \<subseteq> ran (files demo_files)" by (elim conjE)
  with h show ?thesis by (rule_tac exI[of _ s], rule_tac exI[of _ fs']) (rule conjI)
qed

section \<open>What a \<open>STOR\<close> delivers\<close>

lemma splitPath_two: "plain_name a \<Longrightarrow> plain_name n \<Longrightarrow> splitPath (a @ ''/'' @ n) = (a, n)"
proof -
  assume p: "plain_name a" "plain_name n"
  have "resolve u q = (fst (splitPath q), snd (splitPath q), ftp_key u q)" for u q
    by (simp add: resolve_def splitPath_def ftp_key_def Let_def split: list.split prod.split)
  with resolve_two[OF p, of "[]"] show ?thesis by (metis prod.collapse prod.inject)
qed

lemma promoteAll_same: "promoteAll = promoteInboxesLocked"
  by (intro ext) (simp only: promoteAll_def promoteInboxesLocked_def)

definition ready_session :: "session \<Rightarrow> string \<Rightarrow> bool" where
  "ready_session s u \<longleftrightarrow> authed s \<and> dataListener s \<noteq> None \<and> user s = u"

definition sent_body :: "mockFS \<Rightarrow> string \<Rightarrow> string" where
  "sent_body fs data = (if fs_persist fs then data else replicate (length data) (CHR 0x00))"

lemma stor_stores:
  assumes "plain_name n" and "ready_session s u" and "u \<notin> failUsers fs" and "env_accept env = None"
  shows "\<exists>st. do_stor env s fs (''inbox/'' @ n) =
     ([data_opening, Reply (case env_copy_error env of None \<Rightarrow> ''226 transfer complete'' | Some e \<Rightarrow> ''550 stor failed: '' @ e)],
      Next, closeData s, fs\<lparr>files := (files fs)(file_key u ''inbox'' n \<mapsto> st)\<rparr>) \<and>
    completedAt st = Some (env_then env) \<and> st_size st = int (length (env_data env)) \<and>
    st_content st = (if fs_persist fs \<and> env_data env \<noteq> [] then Some (env_data env) else None)"
proof -
  have k: "stor_key u (''inbox/'' @ n) = file_key u ''inbox'' n"
    using splitPath_two[OF plain_folders(1) assms(1)] by (simp add: stor_key_def)
  have a: "acceptStor env fs s (''inbox/'' @ n) = (env_copy_error env, closeData s,
      fs\<lparr>files := (files fs)(file_key u ''inbox'' n \<mapsto> \<lparr>st_size = int (length (env_data env)),
        completedAt = Some (env_then env), trackID = [],
        st_content = (if fs_persist fs \<and> env_data env \<noteq> [] then Some (env_data env) else None)\<rparr>)\<rparr>)"
    using assms(2,4) unfolding acceptStor_def
    by (auto simp: acceptData_def ready_session_def k[simplified] k stor_open_def stor_finish_def new_fileState_def
        closeData_def Let_def)
  show ?thesis
    using assms(2,3) unfolding do_stor_def a
    by (auto simp: ready_session_def dataReady_def split: option.split)
qed

lemma retr_sends:
  assumes "plain_name m" and "ready_session s u" and "env_accept env = None" "env_write_ok env"
    and "files fs (file_key u ''outbox'' m) = Some st" and "st_size st = int (length data)"
    and "st_content st = (if fs_persist fs \<and> data \<noteq> [] then Some data else None)"
  shows "\<exists>s' fs'. do_retr env s fs (''outbox/'' @ m) =
    Some ([data_opening, Body (sent_body fs data), Reply ''226 transfer complete''], Next, s', fs')"
proof -
  have k: "splitPath (''outbox/'' @ m) = (''outbox'', m)"
    using splitPath_two[OF plain_folders(2) assms(1)] by simp
  have r: "\<exists>fs'. fs_read rks fs u (''outbox/'' @ m) = Some (Some (sent_body fs data), fs')" for rks
    unfolding fs_read_def k using assms(5-7) by (auto simp: sent_body_def)
  obtain fs' where "fs_read (env_routes env) fs u (''outbox/'' @ m) = Some (Some (sent_body fs data), fs')"
    using r by blast
  with assms(2-4) show ?thesis unfolding do_retr_def
    by (auto simp: ready_session_def dataReady_def stream_def acceptData_def)
qed

text \<open>C11: The bytes of a \<open>STOR\<close> are delivered, also when the transfer failed. A logged-in user
  stores a file in his inbox; the first listing after the delay, by anybody logged in, promotes
  it, and the paired user then retrieves from his outbox exactly the bytes that arrived (zeros of
  the same number when content is not kept). This holds whether the copy ended well or with an
  error: the truncated upload, answered with 550, is delivered like a complete one.\<close>

theorem ftp_stor_delivered:
  assumes "plain_name n" "CHR ''#'' \<notin> set n" "CHR ''/'' \<notin> set u" "u \<notin> failUsers fs"
    and "ready_session s u" "env_accept env = None"
    and stor: "do_stor env s fs (''inbox/'' @ n) = (out, fl, s1, fs1)"
    and "authed s2" "dataReady s2" and "enumerates (env_files env2) (files fs1)" "fresh_ids (env_ids env2)"
    and "fs_delay fs \<le> time_sub (env_now env2) (env_then env)"
  shows "out = [data_opening, Reply (case env_copy_error env of None \<Rightarrow> ''226 transfer complete''
      | Some e \<Rightarrow> ''550 stor failed: '' @ e)] \<and>
    (\<exists>out2 fl2 s2' fs2 i. do_list env2 s2 fs1 arg = Some (out2, fl2, s2', fs2) \<and>
      (\<forall>env3 s3. ready_session s3 (route_of (routes fs) u) \<longrightarrow> env_accept env3 = None \<longrightarrow> env_write_ok env3 \<longrightarrow>
        (\<exists>s' fs3. do_retr env3 s3 fs2 (''outbox/'' @ n @ ''#'' @ env_ids env2 i) =
          Some ([data_opening, Body (sent_body fs (env_data env)), Reply ''226 transfer complete''], Next, s', fs3))))"
proof -
  obtain st where st: "do_stor env s fs (''inbox/'' @ n) =
     ([data_opening, Reply (case env_copy_error env of None \<Rightarrow> ''226 transfer complete'' | Some e \<Rightarrow> ''550 stor failed: '' @ e)],
      Next, closeData s, fs\<lparr>files := (files fs)(file_key u ''inbox'' n \<mapsto> st)\<rparr>)"
    "completedAt st = Some (env_then env)" "st_size st = int (length (env_data env))"
    "st_content st = (if fs_persist fs \<and> env_data env \<noteq> [] then Some (env_data env) else None)"
    using stor_stores[OF assms(1,5,4,6)] by blast
  then have fs1: "fs1 = fs\<lparr>files := (files fs)(file_key u ''inbox'' n \<mapsto> st)\<rparr>"
    and out: "out = [data_opening, Reply (case env_copy_error env of None \<Rightarrow> ''226 transfer complete''
      | Some e \<Rightarrow> ''550 stor failed: '' @ e)]"
    using trans[OF stor[symmetric] st(1)] by simp_all
  then have fs1': "files fs1 (file_key u ''inbox'' n) = Some st" "fs_delay fs1 = fs_delay fs" "routes fs1 = routes fs"
    by simp_all
  from promotion_delivers[OF assms(1,2,3) fs1'(1) st(2) assms(10,11)] assms(12)
  obtain i m where i: "promoteAll (env_now env2) (env_files env2) (env_ids env2) fs1 = Some (fs1\<lparr>files := m\<rparr>)"
    "m (file_key (route_of (routes fs) u) ''outbox'' (tracked_name n (env_ids env2 i))) =
      Some (promoted_copy (env_now env2) (env_ids env2 i) st)"
    "plain_name (tracked_name n (env_ids env2 i))" unfolding fs1'(2,3) promoteAll_same by blast
  let ?fs2 = "fs1\<lparr>files := m\<rparr>"
  have l: "\<exists>out2 fl2 s2'. do_list env2 s2 fs1 arg = Some (out2, fl2, s2', ?fs2)"
    using assms(8,9) unfolding do_list_def i(1) by (simp add: Let_def split: prod.split bool.split)
  have b: "sent_body ?fs2 = sent_body fs" by (intro ext) (simp add: sent_body_def fs1)
  have r: "\<exists>s' fs3. do_retr env3 s3 ?fs2 (''outbox/'' @ tracked_name n (env_ids env2 i)) =
      Some ([data_opening, Body (sent_body fs (env_data env)), Reply ''226 transfer complete''], Next, s', fs3)"
    if "ready_session s3 (route_of (routes fs) u)" "env_accept env3 = None" "env_write_ok env3" for env3 s3
    using retr_sends[OF i(3) that, of ?fs2 "promoted_copy (env_now env2) (env_ids env2 i) st" "env_data env"] i(2) st b
    by (simp add: promoted_copy_def fs1)
  from l obtain out2 fl2 s2' where "do_list env2 s2 fs1 arg = Some (out2, fl2, s2', ?fs2)" by blast
  with out r show ?thesis unfolding tracked_name_def by blast
qed


definition demo_session_of :: "string \<Rightarrow> session" where
  "demo_session_of u = (new_session False)\<lparr>user := u, authed := True, dataListener := Some False\<rparr>"

definition broken_env :: environment where
  "broken_env = demo_env\<lparr>env_copy_error := Some ''reset''\<rparr>"

definition listing_env :: environment where
  "listing_env = demo_env\<lparr>env_files := [file_key ''up'' ''inbox'' ''f'']\<rparr>"

theorem ftp_stor_delivered_witness:
  "\<exists>out fl s1 fs1 r fs2 i s' fs3.
     do_stor broken_env (demo_session_of ''up'') demo_mock (''inbox/'' @ ''f'') = (out, fl, s1, fs1) \<and>
     out = [data_opening, Reply (''550 stor failed: '' @ ''reset'')] \<and>
     do_list listing_env (demo_session_of ''dl'') fs1 ''outbox'' = Some (r, fs2) \<and>
     do_retr demo_env (demo_session_of ''dl'') (snd (snd fs2)) (''outbox/'' @ ''f'' @ ''#'' @ demo_ids i) =
       Some ([data_opening, Body ''abc'', Reply ''226 transfer complete''], Next, s', fs3)"
proof -
  obtain out fl s1 fs1 where stor: "do_stor broken_env (demo_session_of ''up'') demo_mock (''inbox/'' @ ''f'') = (out, fl, s1, fs1)"
    by (cases "do_stor broken_env (demo_session_of ''up'') demo_mock (''inbox/'' @ ''f'')")
  have p: "plain_name ''f''" "CHR ''#'' \<notin> set ''f''" "CHR ''/'' \<notin> set ''up''" by (simp_all add: plain_name_def)
  have u: "''up'' \<notin> failUsers demo_mock" by (simp add: demo_mock_def newMockFS_def)
  have s: "ready_session (demo_session_of ''up'') ''up''" "authed (demo_session_of ''dl'')" "dataReady (demo_session_of ''dl'')"
    by (simp_all add: ready_session_def demo_session_of_def dataReady_def)
  have a: "env_accept broken_env = None" by (simp add: broken_env_def demo_env_def)
  obtain st where "fs1 = demo_mock\<lparr>files := (files demo_mock)(file_key ''up'' ''inbox'' ''f'' \<mapsto> st)\<rparr>"
    using stor_stores[OF p(1) s(1) u a] stor by auto
  then have e: "enumerates (env_files listing_env) (files fs1)"
    by (auto simp: enumerates_def listing_env_def demo_mock_def newMockFS_def split: if_splits)
  have i: "fresh_ids (env_ids listing_env)" using demo_ids_fresh by (simp add: listing_env_def demo_env_def)
  have t: "fs_delay demo_mock \<le> time_sub (env_now listing_env) (env_then broken_env)"
    by (simp add: demo_mock_def newMockFS_def listing_env_def broken_env_def demo_env_def time_sub_def)
  have r: "ready_session (demo_session_of ''dl'') (route_of (routes demo_mock) ''up'')" "env_accept demo_env = None" "env_write_ok demo_env"
    by (simp_all add: ready_session_def demo_session_of_def demo_mock_def newMockFS_def route_of_def demo_env_def)
  have b: "sent_body demo_mock (env_data broken_env) = ''abc''"
    by (simp add: sent_body_def demo_mock_def broken_env_def demo_env_def)
  have ids: "env_ids listing_env = demo_ids" by (simp add: listing_env_def demo_env_def)
  have err: "env_copy_error broken_env = Some ''reset''" by (simp add: broken_env_def)
  note th = ftp_stor_delivered[OF p u s(1) a stor s(2,3) e i t, of "''outbox''", unfolded b ids err option.case]
  from th obtain out2 fl2 s2' fs2 i where l: "do_list listing_env (demo_session_of ''dl'') fs1 ''outbox'' = Some (out2, fl2, s2', fs2)"
    and g: "\<forall>env3 s3. ready_session s3 (route_of (routes demo_mock) ''up'') \<longrightarrow> env_accept env3 = None \<longrightarrow> env_write_ok env3 \<longrightarrow>
        (\<exists>s' fs3. do_retr env3 s3 fs2 (''outbox/'' @ ''f'' @ ''#'' @ demo_ids i) =
          Some ([data_opening, Body ''abc'', Reply ''226 transfer complete''], Next, s', fs3))" by blast
  from g r obtain s' fs3 where "do_retr demo_env (demo_session_of ''dl'') fs2 (''outbox/'' @ ''f'' @ ''#'' @ demo_ids i) =
          Some ([data_opening, Body ''abc'', Reply ''226 transfer complete''], Next, s', fs3)" by blast
  with stor l conjunct1[OF th] show ?thesis by (metis snd_conv)
qed

end
