(* ===== verification/Schedule.thy ===== *)
theory Schedule
  imports GoStrings Transition "HOL-Library.Monad_Syntax"
begin

text \<open>
  Scheduled runs (web/schedule.go): the entries kept one file each in the schedules directory,
  the handlers that create and cancel them, and the sweep that fires the earliest due entry,
  re-arms recurring ones and drops what was missed while the server was down.

  Instants and durations are nanoseconds. The directory is a map from the file name without
  its suffix to the decoded entry, None for a malformed file. What the environment decides is
  an argument: the clock, the order of the directory listing, whether a run is active, whether
  starting one succeeds, and whether writing or removing a file succeeds. The library's
  \<open>time.ParseDuration\<close> and \<open>time.ParseInLocation\<close> are parameters.
\<close>

section \<open>Entries\<close>

record 'c schedule =
  sc_id :: string
  sc_runAt :: int
  sc_createdAt :: int
  sc_note :: string
  sc_config :: 'c
  sc_every :: string

definition every :: "(string \<Rightarrow> int option) \<Rightarrow> string \<Rightarrow> int" where
  "every parse_duration v =
     (if v = [] then 0
      else if has_suffix v ''d''
      then (case parse_duration (trim_suffix v ''d'' @ ''h'') of
              Some d \<Rightarrow> if 0 < d then i64 (d * 24) else 0 | None \<Rightarrow> 0)
      else (case parse_duration v of Some d \<Rightarrow> if 0 < d then d else 0 | None \<Rightarrow> 0))"

section \<open>The store\<close>

type_synonym 'c schedules = "string \<rightharpoonup> 'c schedule option"

definition sanitizeID :: "string \<Rightarrow> string" where
  "sanitizeID s =
     (let t = trim_space s in
      if t = [] \<or> CHR ''/'' \<in> set t \<or> CHR 0x5C \<in> set t \<or> CHR '':'' \<in> set t \<or> has_prefix t ''.''
      then [] else t)"

definition sched_save :: "bool \<Rightarrow> 'c schedule \<Rightarrow> 'c schedules \<Rightarrow> 'c schedules option" where
  "sched_save ok s disk = (if ok then Some (disk(sc_id s \<mapsto> Some s)) else None)"

text \<open>\<open>delete\<close>: the new directory and whether it reports an error; a file that is not there is
  no error.\<close>

definition sched_delete :: "bool \<Rightarrow> string \<Rightarrow> 'c schedules \<Rightarrow> 'c schedules \<times> bool" where
  "sched_delete ok s disk =
     (let t = sanitizeID s in
      if t = [] then (disk, True)
      else if disk t = None then (disk, False)
      else if ok then (disk(t := None), False) else (disk, True))"

text \<open>\<open>list\<close>: \<open>names\<close> is the order in which the entries reach the sort, which leaves entries
  due at the same instant in any order.\<close>

definition sched_list :: "string list \<Rightarrow> 'c schedules \<Rightarrow> 'c schedule list" where
  "sched_list names disk = sort_key sc_runAt (List.map_filter (\<lambda>n. Option.bind (disk n) id) names)"

section \<open>Handlers\<close>

definition layouts :: "(string \<times> bool) list" where
  "layouts =
     [(''2006-01-02T15:04:05.999999999Z07:00'', False), (''2006-01-02T15:04:05Z07:00'', False),
      (''2006-01-02T15:04:05Z0700'', False), (''2006-01-02T15:04:05-0700'', False),
      (''2006-01-02T15:04Z0700'', False), (''2006-01-02T15:04:05'', True), (''2006-01-02T15:04'', True)]"

text \<open>\<open>parseRunAt\<close>: the layouts in order, those without a zone in local time (the flag).\<close>

fun first_layout :: "(string \<Rightarrow> bool \<Rightarrow> string \<Rightarrow> int option) \<Rightarrow> (string \<times> bool) list \<Rightarrow> string \<Rightarrow> int option" where
  "first_layout parse [] s = None"
| "first_layout parse ((l, local) # ls) s =
     (case parse l local s of Some t \<Rightarrow> Some t | None \<Rightarrow> first_layout parse ls s)"

definition parseRunAt :: "(string \<Rightarrow> bool \<Rightarrow> string \<Rightarrow> int option) \<Rightarrow> string \<Rightarrow> int option" where
  "parseRunAt parse s = (let t = trim_space s in if t = [] then None else first_layout parse layouts t)"

text \<open>A create request after decoding. \<open>cr_valid\<close> is the verdict of \<open>buildRunConfig\<close> on the
  configuration, \<open>cr_preflight\<close> whether the host-key check asks for consent.\<close>

record 'c create_req =
  cr_post :: bool
  cr_decoded :: bool
  cr_runAt :: string
  cr_note :: string
  cr_config :: 'c
  cr_every :: string
  cr_valid :: bool
  cr_preflight :: bool

datatype create_reply = MethodNotAllowed | SchedulerDisabled | BadJson | BadRunAt | BadConfig
  | NeedsConsent | BadEvery | SaveFailed | Created string

definition sched_id :: "int \<Rightarrow> string" where
  "sched_id now = ''sched-'' @ go_itoa now"

definition handleScheduleCreate ::
  "(string \<Rightarrow> bool \<Rightarrow> string \<Rightarrow> int option) \<Rightarrow> (string \<Rightarrow> int option) \<Rightarrow> int \<Rightarrow> bool \<Rightarrow> 'c create_req \<Rightarrow>
    'c schedules option \<Rightarrow> create_reply \<times> 'c schedules option" where
  "handleScheduleCreate parse parse_duration now save_ok req disk0 =
     (if \<not> cr_post req then (MethodNotAllowed, disk0)
      else case disk0 of None \<Rightarrow> (SchedulerDisabled, disk0) | Some disk \<Rightarrow>
        if \<not> cr_decoded req then (BadJson, disk0)
        else case parseRunAt parse (cr_runAt req) of None \<Rightarrow> (BadRunAt, disk0) | Some runAt \<Rightarrow>
          if \<not> cr_valid req then (BadConfig, disk0)
          else if cr_preflight req then (NeedsConsent, disk0)
          else
            let s = \<lparr>sc_id = sched_id now, sc_runAt = runAt, sc_createdAt = now,
                     sc_note = trim_space (cr_note req), sc_config = cr_config req,
                     sc_every = trim_space (cr_every req)\<rparr>
            in if sc_every s \<noteq> [] \<and> every parse_duration (sc_every s) = 0 then (BadEvery, disk0)
               else case sched_save save_ok s disk of
                      None \<Rightarrow> (SaveFailed, disk0)
                    | Some disk' \<Rightarrow> (Created (sc_id s), Some disk'))"

datatype cancel_reply = CancelMethod | CancelDisabled | BadId | CancelFailed | Cancelled string

definition handleScheduleCancel :: "bool \<Rightarrow> bool \<Rightarrow> string \<Rightarrow> 'c schedules option \<Rightarrow> cancel_reply \<times> 'c schedules option" where
  "handleScheduleCancel post del_ok s disk0 =
     (if \<not> post then (CancelMethod, disk0)
      else case disk0 of None \<Rightarrow> (CancelDisabled, disk0) | Some disk \<Rightarrow>
        if sanitizeID s = [] then (BadId, disk0)
        else case sched_delete del_ok s disk of
               (disk', True) \<Rightarrow> (CancelFailed, Some disk')
             | (disk', False) \<Rightarrow> (Cancelled s, Some disk'))"

section \<open>The sweep\<close>

text \<open>The next firing of a recurring entry: the loop does not end by itself for an interval that
  is not positive, which is None.\<close>

partial_function (option) advance :: "int \<Rightarrow> int \<Rightarrow> int \<Rightarrow> int option" where
  "advance ev now nxt = (if now < nxt then Some nxt else advance ev now (nxt + ev))"

record environment =
  sv_now :: int
  sv_active :: bool
  sv_start_ok :: bool
  sv_save_ok :: bool
  sv_delete_ok :: bool

text \<open>A sweep over the listed entries: the directory and the entry it fired.\<close>

fun sweep_list :: "(string \<Rightarrow> int option) \<Rightarrow> int \<Rightarrow> environment \<Rightarrow> 'c schedule list \<Rightarrow> 'c schedules \<Rightarrow>
    ('c schedules \<times> 'c schedule option) option" where
  "sweep_list pd startedAt env [] disk = Some (disk, None)"
| "sweep_list pd startedAt env (s # ss) disk =
     (if sc_runAt s < startedAt
      then sweep_list pd startedAt env ss (fst (sched_delete (sv_delete_ok env) (sc_id s) disk))
      else if sv_now env < sc_runAt s then sweep_list pd startedAt env ss disk
      else if sv_active env then Some (disk, None)
      else if \<not> sv_start_ok env then Some (fst (sched_delete (sv_delete_ok env) (sc_id s) disk), None)
      else
        let ev = every pd (sc_every s) in
        if 0 < ev then
          do { nxt \<leftarrow> advance ev (sv_now env) (sc_runAt s + ev);
               case sched_save (sv_save_ok env) (s\<lparr>sc_runAt := nxt\<rparr>) disk of
                 Some disk' \<Rightarrow> Some (disk', Some s)
               | None \<Rightarrow> Some (fst (sched_delete (sv_delete_ok env) (sc_id s) disk), Some s) }
        else Some (fst (sched_delete (sv_delete_ok env) (sc_id s) disk), Some s))"

definition scheduleSweep :: "(string \<Rightarrow> int option) \<Rightarrow> int \<Rightarrow> environment \<Rightarrow> string list \<Rightarrow> 'c schedules \<Rightarrow>
    ('c schedules \<times> 'c schedule option) option" where
  "scheduleSweep pd startedAt env names disk = sweep_list pd startedAt env (sched_list names disk) disk"

section \<open>Recurrence\<close>

text \<open>The next firing is the first instant of the series after now.\<close>

lemma advance_step: "now \<ge> nxt \<Longrightarrow> advance ev now nxt = advance ev now (nxt + ev)"
  by (subst advance.simps) simp

lemma advance_done: "now < nxt \<Longrightarrow> advance ev now nxt = Some nxt"
  by (subst advance.simps) simp

lemma advance_spec:
  assumes "0 < ev"
  shows "\<exists>k. advance ev now nxt = Some (nxt + int k * ev) \<and> now < nxt + int k * ev \<and>
    (\<forall>j < k. nxt + int j * ev \<le> now)"
proof (induction "nat (now - nxt + 1)" arbitrary: nxt rule: less_induct)
  case less
  show ?case
  proof (cases "now < nxt")
    case True
    then show ?thesis by (intro exI[of _ 0]) (simp add: advance_done)
  next
    case False
    then have "nat (now - (nxt + ev) + 1) < nat (now - nxt + 1)" using assms by simp
    from less[OF this] obtain k where k: "advance ev now (nxt + ev) = Some (nxt + ev + int k * ev)"
      "now < nxt + ev + int k * ev" "\<forall>j < k. nxt + ev + int j * ev \<le> now" by blast
    have "\<forall>j < Suc k. nxt + int j * ev \<le> now"
    proof (intro allI impI)
      fix j assume j: "j < Suc k"
      show "nxt + int j * ev \<le> now"
      proof (cases j)
        case (Suc i)
        with j k(3) have "nxt + ev + int i * ev \<le> now" by simp
        then show ?thesis unfolding Suc by (simp add: algebra_simps)
      qed (use False in simp)
    qed
    with k False show ?thesis
      by (intro exI[of _ "Suc k"]) (simp add: advance_step algebra_simps)
  qed
qed

lemma advance_next:
  assumes "0 < ev"
  obtains nxt' where "advance ev now (t + ev) = Some nxt'" "now < nxt'" "t < nxt'" "ev dvd nxt' - t"
proof -
  from advance_spec[OF assms, of now "t + ev"] obtain k where k: "advance ev now (t + ev) = Some (t + ev + int k * ev)"
    "now < t + ev + int k * ev" by blast
  have "t + ev + int k * ev - t = ev * (int k + 1)" by (simp add: algebra_simps)
  then have "ev dvd t + ev + int k * ev - t" by simp
  moreover have "t < t + ev + int k * ev" using assms by (smt (verit) of_nat_0_le_iff zero_le_mult_iff)
  ultimately show thesis using that k by blast
qed

section \<open>One sweep\<close>

lemma sweep_total: "\<exists>r. sweep_list pd startedAt env ss disk = Some r"
proof (induction ss arbitrary: disk)
  case (Cons s ss)
  show ?case
  proof (cases "0 < every pd (sc_every s)")
    case True
    obtain nxt where "advance (every pd (sc_every s)) (sv_now env) (sc_runAt s + every pd (sc_every s)) = Some nxt"
      using advance_next[OF True] by metis
    with Cons.IH show ?thesis by (simp add: Let_def split: option.split)
  qed (use Cons.IH in \<open>simp add: Let_def\<close>)
qed simp

definition rearmed :: "(string \<Rightarrow> int option) \<Rightarrow> int \<Rightarrow> 'c schedule \<Rightarrow> 'c schedule \<Rightarrow> bool" where
  "rearmed pd now s s' \<longleftrightarrow>
     (\<exists>nxt. s' = s\<lparr>sc_runAt := nxt\<rparr> \<and> now < nxt \<and> 0 < every pd (sc_every s) \<and> every pd (sc_every s) dvd nxt - sc_runAt s)"

definition sweep_result :: "(string \<Rightarrow> int option) \<Rightarrow> int \<Rightarrow> 'c schedule list \<Rightarrow> 'c schedules \<Rightarrow> 'c schedules \<Rightarrow>
    'c schedule option \<Rightarrow> bool" where
  "sweep_result pd now ss disk disk' fired \<longleftrightarrow>
     (case fired of
        None \<Rightarrow> disk' \<subseteq>\<^sub>m disk
      | Some s \<Rightarrow> s \<in> set ss \<and> sc_runAt s \<le> now \<and>
          (\<forall>k v. disk' k = Some v \<longrightarrow>
             k \<noteq> sc_id s \<and> disk k = Some v \<or> k = sc_id s \<and> (\<exists>s'. v = Some s' \<and> rearmed pd now s s')))"

lemma delete_less: "fst (sched_delete ok s disk) \<subseteq>\<^sub>m disk"
  by (auto simp: sched_delete_def Let_def map_le_def split: if_splits)

lemma delete_gone: "sanitizeID s = s \<Longrightarrow> s \<noteq> [] \<Longrightarrow> fst (sched_delete True s disk) s = None"
  by (auto simp: sched_delete_def)

lemma sweep_result_less:
  "sweep_result pd now ss disk1 disk' fired \<Longrightarrow> disk1 \<subseteq>\<^sub>m disk \<Longrightarrow> set ss \<subseteq> set ss' \<Longrightarrow>
    sweep_result pd now ss' disk disk' fired"
  unfolding sweep_result_def map_le_def by (auto split: option.splits) (metis domI)+

lemma sweep_effect:
  assumes "sweep_list pd startedAt env ss disk = Some (disk', fired)" and "sv_delete_ok env"
    and "\<forall>s \<in> set ss. sanitizeID (sc_id s) = sc_id s \<and> sc_id s \<noteq> []"
  shows "sweep_result pd (sv_now env) ss disk disk' fired"
  using assms(1,3)
proof (induction ss arbitrary: disk)
  case Nil
  then show ?case by (simp add: sweep_result_def)
next
  case (Cons s ss)
  let ?del = "fst (sched_delete True (sc_id s) disk)" and ?ev = "every pd (sc_every s)"
  have ok: "sanitizeID (sc_id s) = sc_id s" "sc_id s \<noteq> []" using Cons.prems(2) by auto
  have later: "sweep_result pd (sv_now env) (s # ss) disk disk' fired"
    if "sweep_list pd startedAt env ss disk1 = Some (disk', fired)" "disk1 \<subseteq>\<^sub>m disk" for disk1
    by (rule sweep_result_less[OF Cons.IH[OF that(1)] that(2)]) (use Cons.prems(2) in auto)
  have fired: "sweep_result pd (sv_now env) (s # ss) disk ?del (Some s)" if "sc_runAt s \<le> sv_now env"
      proof -
    have g: "?del (sc_id s) = None" by (rule delete_gone[OF ok])
    have "disk k = Some v \<and> k \<noteq> sc_id s" if "?del k = Some v" for k v
      using that g delete_less[of True "sc_id s" disk] by (metis domI map_le_def option.distinct(1))
    with \<open>sc_runAt s \<le> sv_now env\<close> show ?thesis by (simp add: sweep_result_def)
  qed
  show ?case
  proof (cases "sc_runAt s < startedAt \<or> sv_now env < sc_runAt s \<or> sv_active env \<or> \<not> sv_start_ok env")
    case True
    with Cons.prems(1) later[OF _ map_le_refl] later[OF _ delete_less[of True]] assms(2) delete_less[of True "sc_id s" disk]
    show ?thesis by (auto simp: sweep_result_def split: if_splits)
  next
    case False
    then have due: "sc_runAt s \<le> sv_now env" by simp
    show ?thesis
    proof (cases "0 < ?ev")
      case True
      then obtain nxt where n: "advance ?ev (sv_now env) (sc_runAt s + ?ev) = Some nxt" "sv_now env < nxt"
        "?ev dvd nxt - sc_runAt s" using advance_next by metis
      show ?thesis
      proof (cases "sv_save_ok env")
        case True
        with Cons.prems(1) False n \<open>0 < ?ev\<close> have "disk' = disk(sc_id s \<mapsto> Some (s\<lparr>sc_runAt := nxt\<rparr>))" "fired = Some s"
          by (auto simp: sched_save_def Let_def)
        with n \<open>0 < ?ev\<close> due show ?thesis by (auto simp: sweep_result_def rearmed_def)
      next
        case f: False
        with Cons.prems(1) False n \<open>0 < ?ev\<close> assms(2) have "disk' = ?del" "fired = Some s"
          by (auto simp: sched_save_def Let_def)
        with fired[OF due] show ?thesis by simp
      qed
    next
      case f: False
      with Cons.prems(1) False assms(2) have "disk' = ?del" "fired = Some s" by (auto simp: Let_def)
      with fired[OF due] show ?thesis by simp
    qed
  qed
qed

text \<open>The ids the create handler makes survive the sanitiser.\<close>

lemma itoa_shape: "go_itoa n \<noteq> [] \<and> (\<forall>c \<in> set (go_itoa n). is_digit c \<or> c = CHR ''-'') \<and> is_digit (last (go_itoa n))"
proof -
  have d: "digits_of m [] \<noteq> [] \<and> (\<forall>c \<in> set (digits_of m []). is_digit c)" if "0 < m" for m
    using that digits_of_not_nil[OF that, of "[]"] digits_of_all[of "[]" m] by (simp add: list_all_iff)
  show ?thesis
    using d[of n] d[of "- n"] by (auto simp: go_itoa_def is_digit_def[of "CHR ''0''"])
qed

lemma sanitize_made: "sanitizeID (sched_id n) = sched_id n" and made_not_empty: "sched_id n \<noteq> []"
proof -
  let ?s = "''sched-'' @ go_itoa n"
  have dig: "is_digit (last ?s)" and set: "\<forall>c \<in> set (go_itoa n). is_digit c \<or> c = CHR ''-''"
    using itoa_shape[of n] by simp_all
  have "list_all (\<lambda>q. hd q \<noteq> CHR ''s'') space_seqs" by (simp add: space_seqs_def)
  then have "list_all (\<lambda>q. hd q \<noteq> hd ?s) space_seqs" by simp
  moreover have "list_all (\<lambda>q. \<not> is_digit (last q)) space_seqs" by (simp add: space_seqs_def is_digit_def)
  then have "list_all (\<lambda>q. last q \<noteq> last ?s) space_seqs" using dig by (auto simp: list_all_iff)
  ultimately have t: "trim_space ?s = ?s" by (intro trim_space_plain) simp
  have "\<not> is_digit (CHR ''/'') \<and> \<not> is_digit (CHR 0x5C) \<and> \<not> is_digit (CHR '':'')" by (simp add: is_digit_def)
  then have "CHR ''/'' \<notin> set ?s" "CHR 0x5C \<notin> set ?s" "CHR '':'' \<notin> set ?s" using set by auto
  moreover have "\<not> has_prefix ?s ''.''" by (simp add: has_prefix_def)
  ultimately show "sanitizeID (sched_id n) = sched_id n" "sched_id n \<noteq> []"
    unfolding sched_id_def sanitizeID_def t by (simp_all add: Let_def)
qed

section \<open>Any history of the scheduler\<close>

text \<open>
  The scheduler as a step relation over the directory, the start-up instant, the instants at
  which entries were created and, as history, the firings (id, due instant, instant of the
  sweep, interval). Entries come from the create handler at distinct instants, as their ids
  carry the nanosecond; removing a file succeeds in these histories.
\<close>

type_synonym firing = "string \<times> int \<times> int \<times> int"
type_synonym 'c sched_state = "'c schedules \<times> int \<times> int set \<times> firing list"

inductive sched_step :: "(string \<Rightarrow> bool \<Rightarrow> string \<Rightarrow> int option) \<Rightarrow> (string \<Rightarrow> int option) \<Rightarrow>
    'c sched_state \<Rightarrow> 'c sched_state \<Rightarrow> bool" for parse pd where
  create: "now \<notin> used \<Longrightarrow> in_i64 now \<Longrightarrow> handleScheduleCreate parse pd now ok req (Some disk) = (r, Some disk') \<Longrightarrow>
     sched_step parse pd (disk, t0, used, log) (disk', t0, insert now used, log)"
| cancel: "handleScheduleCancel post True s (Some disk) = (r, Some disk') \<Longrightarrow>
     sched_step parse pd (disk, t0, used, log) (disk', t0, used, log)"
| sweep: "enumerates names disk \<Longrightarrow> sv_delete_ok env \<Longrightarrow> scheduleSweep pd t0 env names disk = Some (disk', fired) \<Longrightarrow>
     sched_step parse pd (disk, t0, used, log)
       (disk', t0, used, log @ (case fired of None \<Rightarrow> []
          | Some s \<Rightarrow> [(sc_id s, sc_runAt s, sv_now env, every pd (sc_every s))]))"
| restart: "sched_step parse pd (disk, t0, used, log) (disk, t1, used, log)"

definition made_ids :: "int set \<Rightarrow> string set" where
  "made_ids used = sched_id ` used"

text \<open>Two firings of one entry, in this order, belong to one series.\<close>

fun in_series :: "firing \<Rightarrow> firing \<Rightarrow> bool" where
  "in_series (i, due, now, ev) (i', due', now', ev') \<longleftrightarrow>
     (i = i' \<longrightarrow> 0 < ev \<and> ev' = ev \<and> now < due' \<and> ev dvd due' - due)"

definition as_next :: "(string \<Rightarrow> int option) \<Rightarrow> 'c schedule \<Rightarrow> firing" where
  "as_next pd s = (sc_id s, sc_runAt s, sc_runAt s, every pd (sc_every s))"

definition sched_inv :: "(string \<Rightarrow> int option) \<Rightarrow> 'c sched_state \<Rightarrow> bool" where
  "sched_inv pd = (\<lambda>(disk, t0, used, log).
     (\<forall>k s. disk k = Some (Some s) \<longrightarrow> sc_id s = k \<and> k \<in> made_ids used) \<and>
     (\<forall>e \<in> set log. fst e \<in> made_ids used \<and> fst (snd e) \<le> fst (snd (snd e))) \<and>
     (\<forall>k s. disk k = Some (Some s) \<longrightarrow> (\<forall>e \<in> set log. in_series e (as_next pd s))) \<and>
     sorted_wrt in_series log \<and> (\<forall>n \<in> used. in_i64 n))"

lemma sched_invI:
  assumes "\<And>k s. disk k = Some (Some s) \<Longrightarrow> sc_id s = k \<and> k \<in> made_ids used"
    and "\<And>e. e \<in> set log \<Longrightarrow> fst e \<in> made_ids used \<and> fst (snd e) \<le> fst (snd (snd e))"
    and "\<And>k s e. disk k = Some (Some s) \<Longrightarrow> e \<in> set log \<Longrightarrow> in_series e (as_next pd s)"
    and "sorted_wrt in_series log" and "\<And>n. n \<in> used \<Longrightarrow> in_i64 n"
  shows "sched_inv pd (disk, t0, used, log)"
  using assms unfolding sched_inv_def prod.case by blast

lemma sched_invD:
  assumes "sched_inv pd (disk, t0, used, log)"
  shows "disk k = Some (Some s) \<Longrightarrow> sc_id s = k \<and> k \<in> made_ids used"
    and "e \<in> set log \<Longrightarrow> fst e \<in> made_ids used \<and> fst (snd e) \<le> fst (snd (snd e))"
    and "disk k = Some (Some s) \<Longrightarrow> e \<in> set log \<Longrightarrow> in_series e (as_next pd s)"
    and "sorted_wrt in_series log" and "n \<in> used \<Longrightarrow> in_i64 n"
  using assms unfolding sched_inv_def prod.case by blast+

lemma inv_less_disk:
  assumes "sched_inv pd (disk, t0, used, log)" and "disk' \<subseteq>\<^sub>m disk"
  shows "sched_inv pd (disk', t1, used, log)"
proof -
  have "disk' k = Some v \<Longrightarrow> disk k = Some v" for k v using assms(2) by (metis domI map_le_def)
  note sub = this
  show ?thesis by (rule sched_invI) (use sub sched_invD[OF assms(1)] in blast)+
qed

lemma create_shape:
  assumes "handleScheduleCreate parse pd now ok req (Some disk) = (r, Some disk')"
  shows "disk' = disk \<or> (\<exists>s. sc_id s = sched_id now \<and> disk' = disk(sc_id s \<mapsto> Some s))"
  using assms unfolding handleScheduleCreate_def sched_save_def Let_def
  by (auto split: if_splits option.splits) (metis schedule.select_convs(1))+

lemma sched_id_inject: "in_i64 m \<Longrightarrow> in_i64 n \<Longrightarrow> sched_id m = sched_id n \<Longrightarrow> m = n"
  unfolding sched_id_def by (metis go_atoi_itoa option.inject same_append_eq)

lemma made_fresh: "now \<notin> used \<Longrightarrow> in_i64 now \<Longrightarrow> \<forall>n \<in> used. in_i64 n \<Longrightarrow> sched_id now \<notin> made_ids used"
  by (auto simp: made_ids_def dest: sched_id_inject)

lemma sched_listed:
  assumes "s \<in> set (sched_list names disk)"
  shows "\<exists>k. disk k = Some (Some s)"
  using assms by (auto simp: sched_list_def List.map_filter_def bind_eq_Some_conv)

lemma inv_fired:
  assumes inv: "sched_inv pd (disk, t0, used, log)" and d: "disk (sc_id s) = Some (Some s)" and due: "sc_runAt s \<le> now"
    and res: "sweep_result pd now ss disk disk' (Some s)"
  shows "sched_inv pd (disk', t0, used, log @ [(sc_id s, sc_runAt s, now, every pd (sc_every s))])"
proof (rule sched_invI)
  let ?e = "(sc_id s, sc_runAt s, now, every pd (sc_every s))"
  have old: "in_series e (as_next pd s)" if "e \<in> set log" for e using sched_invD(3)[OF inv d that] .
  note id = sched_invD(1)[OF inv d]
  have kept: "disk k = Some (Some s')" if "disk' k = Some (Some s')" "k \<noteq> sc_id s" for k s'
    using res that by (auto simp: sweep_result_def)
  have again: "rearmed pd now s s'" if "disk' (sc_id s) = Some (Some s')" for s'
    using res that by (auto simp: sweep_result_def)
  show "sc_id s' = k \<and> k \<in> made_ids used" if "disk' k = Some (Some s')" for k s'
    using that kept[OF that] again id sched_invD(1)[OF inv] by (cases "k = sc_id s") (auto simp: rearmed_def)
  show "fst e \<in> made_ids used \<and> fst (snd e) \<le> fst (snd (snd e))" if "e \<in> set (log @ [?e])" for e
    using that sched_invD(2)[OF inv, of e] id due by auto
  show "in_series e (as_next pd s')" if k: "disk' k = Some (Some s')" and e: "e \<in> set (log @ [?e])" for k s' e
  proof (cases "k = sc_id s")
    case True
    with again k obtain nxt where n: "s' = s\<lparr>sc_runAt := nxt\<rparr>" "now < nxt" "0 < every pd (sc_every s)"
      "every pd (sc_every s) dvd nxt - sc_runAt s" by (auto simp: rearmed_def)
    show ?thesis
    proof (cases "e = ?e")
      case True
      with n show ?thesis by (simp add: as_next_def)
    next
      case False
      with e have l: "e \<in> set log" by simp
      obtain i du nw ev where e': "e = (i, du, nw, ev)" by (cases e)
      have "ev dvd (nxt - sc_runAt s) + (sc_runAt s - du)" if "i = sc_id s"
        using old[OF l] that n(4) unfolding e' as_next_def by (intro dvd_add) auto
      with old[OF l] n due show ?thesis by (auto simp: e' as_next_def)
    qed
  next
    case False
    have d': "disk k = Some (Some s')" using kept[OF k False] .
    then have "sc_id s' = k" using sched_invD(1)[OF inv] by blast
    with False sched_invD(3)[OF inv d', of e] e show ?thesis by (auto simp: as_next_def)
  qed
  have "in_series e ?e" if "e \<in> set log" for e
    using old[OF that] due by (cases e) (auto simp: as_next_def)
  then show "sorted_wrt in_series (log @ [?e])" using sched_invD(4)[OF inv] by (simp add: sorted_wrt_append)
  show "in_i64 n" if "n \<in> used" for n using sched_invD(5)[OF inv that] .
qed

lemma inv_sweep:
  assumes inv: "sched_inv pd (disk, t0, used, log)" and "sv_delete_ok env"
    and sw: "scheduleSweep pd t0 env names disk = Some (disk', fired)"
  shows "sched_inv pd (disk', t0, used, log @ (case fired of None \<Rightarrow> []
          | Some s \<Rightarrow> [(sc_id s, sc_runAt s, sv_now env, every pd (sc_every s))]))"
proof -
  let ?l = "sched_list names disk"
  have ids: "sc_id s \<in> made_ids used \<and> disk (sc_id s) = Some (Some s)" if s: "s \<in> set ?l" for s
    using sched_listed[OF s] sched_invD(1)[OF inv] by blast
  have plain: "\<forall>s\<in>set ?l. sanitizeID (sc_id s) = sc_id s \<and> sc_id s \<noteq> []"
  proof
    fix s assume "s \<in> set ?l"
    then obtain n where "sc_id s = sched_id n" using ids by (auto simp: made_ids_def)
    then show "sanitizeID (sc_id s) = sc_id s \<and> sc_id s \<noteq> []" by (simp add: sanitize_made made_not_empty)
  qed
  have res: "sweep_result pd (sv_now env) ?l disk disk' fired"
    using sweep_effect[OF _ assms(2) plain] sw by (simp add: scheduleSweep_def)
  show ?thesis
  proof (cases fired)
    case None
    with res inv_less_disk[OF inv] show ?thesis by (simp add: sweep_result_def)
  next
    case (Some s)
    with res have s: "s \<in> set ?l" "sc_runAt s \<le> sv_now env" by (auto simp: sweep_result_def)
    with inv_fired[OF inv _ s(2) res[unfolded Some]] ids show ?thesis by (simp add: Some)
  qed
qed

lemma inv_create:
  assumes inv: "sched_inv pd (disk, t0, used, log)" and new: "now \<notin> used" "in_i64 now"
    and h: "handleScheduleCreate parse pd now ok req (Some disk) = (r, Some disk')"
  shows "sched_inv pd (disk', t0, insert now used, log)"
proof -
  have mono: "\<And>i. i \<in> made_ids used \<Longrightarrow> i \<in> made_ids (insert now used)" by (auto simp: made_ids_def)
  have old: "sched_inv pd (disk, t0, insert now used, log)"
    using new(2) sched_invD[OF inv] by (intro sched_invI) (auto intro: mono)
  from create_shape[OF h] show ?thesis
  proof
    assume "disk' = disk"
    with old show ?thesis by simp
  next
    assume "\<exists>s. sc_id s = sched_id now \<and> disk' = disk(sc_id s \<mapsto> Some s)"
    then obtain s where s: "sc_id s = sched_id now" "disk' = disk(sc_id s \<mapsto> Some s)" by blast
    have "sc_id s \<notin> made_ids used" using s(1) made_fresh[OF new] sched_invD(5)[OF inv] by simp
    then have fresh: "fst e \<noteq> sc_id s" if "e \<in> set log" for e
      using sched_invD(2)[OF inv that] by auto
    have new_id: "sc_id s \<in> made_ids (insert now used)" using s(1) by (simp add: made_ids_def)
    show ?thesis unfolding s(2)
    proof (rule sched_invI)
      show "sc_id s' = k \<and> k \<in> made_ids (insert now used)" if "(disk(sc_id s \<mapsto> Some s)) k = Some (Some s')" for k s'
        using that new_id sched_invD(1)[OF old, of k s'] by (auto split: if_splits)
      show "in_series e (as_next pd s')" if d: "(disk(sc_id s \<mapsto> Some s)) k = Some (Some s')" and e: "e \<in> set log" for k s' e
      proof (cases "k = sc_id s")
        case True
        with d fresh[OF e] show ?thesis by (cases e) (auto simp: as_next_def)
      next
        case False
        with d sched_invD(3)[OF old _ e] show ?thesis by auto
      qed
    qed (use sched_invD[OF old] in auto)
  qed
qed

lemma inv_cancel:
  assumes "sched_inv pd (disk, t0, used, log)" "handleScheduleCancel post True s (Some disk) = (r, Some disk')"
  shows "sched_inv pd (disk', t0, used, log)"
proof -
  have "disk' = disk \<or> disk' = fst (sched_delete True s disk)"
    using assms(2) by (auto simp: handleScheduleCancel_def split: if_splits prod.splits bool.splits)
  then have "disk' \<subseteq>\<^sub>m disk" using delete_less[of True s disk] by auto
  with assms(1) show ?thesis by (rule inv_less_disk)
qed

lemma sched_step_inv: "sched_step parse pd st st' \<Longrightarrow> sched_inv pd st \<Longrightarrow> sched_inv pd st'"
  by (induction rule: sched_step.induct)
    (blast intro: inv_create inv_cancel inv_sweep inv_less_disk[OF _ map_le_refl])+

interpretation sched: transition "sched_step parse pd" "sched_inv pd" for parse pd
  by unfold_locales (blast intro: sched_step_inv)


definition demo_parse :: "string \<Rightarrow> bool \<Rightarrow> string \<Rightarrow> int option" where "demo_parse l local s = Some 100"
definition demo_duration :: "string \<Rightarrow> int option" where "demo_duration v = (if v = ''10ns'' then Some 10 else None)"

definition demo_req :: "unit create_req" where
  "demo_req = \<lparr>cr_post = True, cr_decoded = True, cr_runAt = ''noon'', cr_note = ''n'', cr_config = (),
     cr_every = ''10ns'', cr_valid = True, cr_preflight = False\<rparr>"

definition demo_entry :: "int \<Rightarrow> unit schedule" where
  "demo_entry t = \<lparr>sc_id = sched_id 5, sc_runAt = t, sc_createdAt = 5, sc_note = ''n'', sc_config = (), sc_every = ''10ns''\<rparr>"

definition demo_at :: "int \<Rightarrow> environment" where
  "demo_at now = \<lparr>sv_now = now, sv_active = False, sv_start_ok = True, sv_save_ok = True, sv_delete_ok = True\<rparr>"

lemma demo_every: "every demo_duration ''10ns'' = 10"
  by (simp add: every_def has_suffix_def demo_duration_def)

lemma demo_create: "handleScheduleCreate demo_parse demo_duration 5 True demo_req (Some Map.empty) =
    (Created (sched_id 5), Some [sched_id 5 \<mapsto> Some (demo_entry 100)])"
proof -
  have t: "trim_space ''noon'' = ''noon''" "trim_space ''n'' = ''n''" "trim_space ''10ns'' = ''10ns''" by code_simp+
  show ?thesis
    by (simp add: handleScheduleCreate_def demo_req_def parseRunAt_def t layouts_def demo_parse_def demo_every
        sched_save_def demo_entry_def Let_def)
qed

lemma demo_sweep:
  assumes "100 \<le> t" "t \<le> now" "advance 10 now (t + 10) = Some t'"
  shows "sched_step demo_parse demo_duration ([sched_id 5 \<mapsto> Some (demo_entry t)], 0, {5}, log)
    ([sched_id 5 \<mapsto> Some (demo_entry t')], 0, {5}, log @ [(sched_id 5, t, now, 10)])"
proof -
  have e: "sc_id (demo_entry t) = sched_id 5" "sc_runAt (demo_entry t) = t"
    "sc_every (demo_entry t) = ''10ns''" by (simp_all add: demo_entry_def)
  have up: "(demo_entry t)\<lparr>sc_runAt := t'\<rparr> = demo_entry t'" by (simp add: demo_entry_def)
  have l: "sched_list [sched_id 5] [sched_id 5 \<mapsto> Some (demo_entry t)] = [demo_entry t]"
    by (simp add: sched_list_def)
  have "scheduleSweep demo_duration 0 (demo_at now) [sched_id 5] [sched_id 5 \<mapsto> Some (demo_entry t)] =
      Some ([sched_id 5 \<mapsto> Some (demo_entry t')], Some (demo_entry t))"
    using assms unfolding scheduleSweep_def l
    by (simp add: e demo_every demo_at_def sched_save_def up)
  then show ?thesis
    using sweep[of "[sched_id 5]" "[sched_id 5 \<mapsto> Some (demo_entry t)]" "demo_at now" demo_duration 0
        "[sched_id 5 \<mapsto> Some (demo_entry t')]" "Some (demo_entry t)" demo_parse "{5}" log]
    by (simp add: enumerates_def demo_at_def e demo_every)
qed


section \<open>Which entry fires\<close>

text \<open>A sweep without an active run whose start succeeds fires the earliest entry that is due and
  was not missed, if there is one.\<close>

lemma due_entry_fires:
  assumes "sorted (map sc_runAt ss)" and "\<not> sv_active env" "sv_start_ok env"
    and "s \<in> set ss" "startedAt \<le> sc_runAt s" "sc_runAt s \<le> sv_now env"
  shows "\<exists>disk' s'. sweep_list pd startedAt env ss disk = Some (disk', Some s') \<and> s' \<in> set ss \<and>
    startedAt \<le> sc_runAt s' \<and> sc_runAt s' \<le> sc_runAt s"
  using assms(1,4-6)
proof (induction ss arbitrary: disk)
  case (Cons x ss)
  show ?case
  proof (cases "sc_runAt x < startedAt")
    case True
    with Cons.prems have "s \<in> set ss" "sorted (map sc_runAt ss)" by auto
    from Cons.IH[OF this(2,1) Cons.prems(3,4), of "fst (sched_delete (sv_delete_ok env) (sc_id x) disk)"] True
    show ?thesis by auto
  next
    case False
    have x: "sc_runAt x \<le> sc_runAt s" using Cons.prems by auto
    obtain r where r: "sweep_list pd startedAt env (x # ss) disk = Some r" using sweep_total by blast
    then have "snd r = Some x"
      using False x Cons.prems(4) assms(2,3) by (auto simp: Let_def bind_eq_Some_conv split: if_splits option.splits)
    with r x False show ?thesis by (cases r) auto
  qed
qed simp

text \<open>Every entry whose instant passed while the server was down is dropped by the first sweep
  that reaches it, also a recurring one, whose later instants are still ahead.\<close>

lemma missed_recurrence_dropped:
  assumes "sc_runAt s < startedAt" "sanitizeID (sc_id s) = sc_id s" "sc_id s \<noteq> []" "sv_delete_ok env"
  shows "\<exists>disk'. sweep_list pd startedAt env [s] disk = Some (disk', None) \<and> disk' (sc_id s) = None"
  using assms delete_gone[OF assms(2,3), of disk] by simp

text \<open>A sweep always returns, whatever the directory, the clock and the durations: the loop that
  advances a recurring entry past the present runs for positive intervals only, and each of its
  rounds brings the next firing nearer to it.\<close>

theorem sweep_returns: "\<exists>r. scheduleSweep pd startedAt env names disk = Some r"
  unfolding scheduleSweep_def by (rule sweep_total)

end
