(* ===== verification/Cluster.thy ===== *)
theory Cluster
  imports GoStrings Float64 "HOL-Library.Signed_Division" "HOL-Library.List_Lexorder" "HOL-Library.Char_ord"
begin

text \<open>
  The master side of a cluster run (cluster/cluster.go, cluster/archive.go): splitting the
  configured rate over the workers, starting them with roll-back, polling and merging their
  status, stopping them, and the merged report.

  The workers are reached over HTTP, so what they do is part of the environment: for each call
  to a worker its reply, and, apart from the reply, whether the worker really started or
  stopped. The calls made are recorded in order. JSON decoding of replies and of the
  configuration object is a parameter; CSV files arrive as the rows the library reader yields.
\<close>

section \<open>Workers and replies\<close>

record worker =
  w_URL :: string
  w_AuthUser :: string
  w_AuthPass :: string

record wstat =
  ws_Active :: bool
  ws_TotalFiles :: int
  ws_TotalBytes :: int
  ws_FailedFiles :: int
  ws_DispatchSkips :: int
  ws_OverallMBps :: rat
  ws_WindowMBps :: rat

definition no_stat :: wstat where
  "no_stat = \<lparr>ws_Active = False, ws_TotalFiles = 0, ws_TotalBytes = 0, ws_FailedFiles = 0,
     ws_DispatchSkips = 0, ws_OverallMBps = 0, ws_WindowMBps = 0\<rparr>"

record runningWorker =
  rw_Worker :: worker
  rw_RunID :: string
  rw_Version :: string
  rw_LastErr :: string
  rw_LastStat :: wstat

datatype response = Unreachable string | Answer int string

datatype worker_call = StartCall nat string | HealthCall nat | StopCall nat | StatusCall nat

text \<open>The workers as the master cannot see them: which of them run a load, and the calls they got.\<close>

record world =
  running :: "nat set"
  calls :: "worker_call list"

record cluster_env =
  en_start :: "nat \<Rightarrow> response"
  en_accepts :: "nat \<Rightarrow> bool"
  en_health :: "nat \<Rightarrow> response"
  en_stop :: "nat \<Rightarrow> response"
  en_stops :: "nat \<Rightarrow> bool"
  en_status :: "nat \<Rightarrow> response"
  en_now :: int

record decoders =
  decode_run_id :: "string \<Rightarrow> string option"
  decode_version :: "string \<Rightarrow> string option"
  decode_status :: "string \<Rightarrow> wstat option"

definition http_error :: "int \<Rightarrow> string" where
  "http_error code = ''HTTP '' @ go_itoa code"

definition startOne :: "cluster_env \<Rightarrow> decoders \<Rightarrow> string \<Rightarrow> nat \<Rightarrow> world \<Rightarrow> (string + string) \<times> world" where
  "startOne env dec body i wd =
     (let wd = wd\<lparr>calls := calls wd @ [StartCall i body],
                  running := (if en_accepts env i then insert i (running wd) else running wd)\<rparr>
      in (case en_start env i of
            Unreachable e \<Rightarrow> Inl e
          | Answer code b \<Rightarrow>
              if code div 100 \<noteq> 2 then Inl (http_error code @ '': '' @ trim_space b)
              else case decode_run_id dec b of
                None \<Rightarrow> Inl ''decode start response''
              | Some r \<Rightarrow> if r = [] then Inl ''start response had no run_id'' else Inr r, wd))"

definition negotiateOne :: "cluster_env \<Rightarrow> decoders \<Rightarrow> nat \<Rightarrow> world \<Rightarrow> string \<times> world" where
  "negotiateOne env dec i wd =
     ((case en_health env i of
         Unreachable e \<Rightarrow> []
       | Answer code b \<Rightarrow>
           if code div 100 \<noteq> 2 then [] else (case decode_version dec b of None \<Rightarrow> [] | Some v \<Rightarrow> v)),
      wd\<lparr>calls := calls wd @ [HealthCall i]\<rparr>)"

definition stopOne :: "cluster_env \<Rightarrow> nat \<Rightarrow> world \<Rightarrow> string option \<times> world" where
  "stopOne env i wd =
     (case en_stop env i of
        Unreachable e \<Rightarrow> Some e
      | Answer code b \<Rightarrow> if code div 100 \<noteq> 2 then Some (http_error code) else None,
      wd\<lparr>calls := calls wd @ [StopCall i],
         running := (if en_stops env i then running wd - {i} else running wd)\<rparr>)"

definition statusOne :: "cluster_env \<Rightarrow> decoders \<Rightarrow> nat \<Rightarrow> string + wstat" where
  "statusOne env dec i =
     (case en_status env i of
        Unreachable e \<Rightarrow> Inl e
      | Answer code b \<Rightarrow>
          if code div 100 \<noteq> 2 then Inl (http_error code)
          else case decode_status dec b of None \<Rightarrow> Inl ''decode status'' | Some s \<Rightarrow> Inr s)"

section \<open>Splitting the configuration\<close>

datatype json = JFloat rat | JInt int | JOther string

text \<open>\<open>int(f)\<close>: towards zero; out of range the result is the machine's, here that of amd64.\<close>

definition float_to_int :: "rat \<Rightarrow> int" where
  "float_to_int f =
     (let t = (if 0 \<le> f then \<lfloor>f\<rfloor> else \<lceil>f\<rceil>) in if in_i64 t then t else - (2 ^ 63))"

definition per_worker :: "rat \<Rightarrow> nat \<Rightarrow> int" where
  "per_worker t n = (let p = float_to_int t sdiv int n in if p < 1 then 1 else p)"

definition splitConfig :: "(string \<Rightarrow> (string \<rightharpoonup> json) option) \<Rightarrow> string \<Rightarrow> nat \<Rightarrow> string + (string \<rightharpoonup> json)" where
  "splitConfig unmarshal raw n =
     (if n \<le> 0 then Inl ''worker count must be > 0''
      else case unmarshal raw of
        None \<Rightarrow> Inl ''config not an object''
      | Some m \<Rightarrow> Inr (case m ''files_per_minute'' of
            Some (JFloat t) \<Rightarrow> m(''files_per_minute'' \<mapsto> JInt (per_worker t n))
          | _ \<Rightarrow> m))"

section \<open>The coordinator\<close>

record coordinator =
  co_active :: bool
  co_clusterRunID :: string
  co_startedAt :: int
  co_stoppedAt :: "int option"
  co_workers :: "runningWorker list"
  co_masterVersion :: string
  co_archiveDir :: string

definition new_coordinator :: "string \<Rightarrow> coordinator" where
  "new_coordinator v = \<lparr>co_active = False, co_clusterRunID = [], co_startedAt = 0, co_stoppedAt = None,
     co_workers = [], co_masterVersion = v, co_archiveDir = []\<rparr>"

text \<open>The calls of \<open>Start\<close> after its checks: worker after worker, with a stop for every worker
  already started when one fails.\<close>

fun start_loop :: "cluster_env \<Rightarrow> decoders \<Rightarrow> string \<Rightarrow> nat \<Rightarrow> worker list \<Rightarrow> runningWorker list \<Rightarrow> world \<Rightarrow>
    (string + runningWorker list) \<times> world" where
  "start_loop env dec body i [] rws wd = (Inr rws, wd)"
| "start_loop env dec body i (w # ws) rws wd =
     (case startOne env dec body i wd of
        (Inl e, wd) \<Rightarrow> (Inl (''worker '' @ w_URL w @ '': '' @ e), foldl (\<lambda>wd j. snd (stopOne env j wd)) wd [0..<i])
      | (Inr runID, wd) \<Rightarrow>
          (case negotiateOne env dec i wd of
             (ver, wd) \<Rightarrow>
               start_loop env dec body (Suc i) ws
                 (rws @ [\<lparr>rw_Worker = w, rw_RunID = runID, rw_Version = ver, rw_LastErr = [], rw_LastStat = no_stat\<rparr>]) wd))"

text \<open>The three parts of \<open>Start\<close>: the check under the lock, the calls without it, the commit
  under it.\<close>

definition start_check :: "coordinator \<Rightarrow> worker list \<Rightarrow> string option" where
  "start_check c ws =
     (if co_active c then Some ''cluster run already active''
      else if ws = [] then Some ''at least one worker is required'' else None)"

definition start_commit :: "int \<Rightarrow> runningWorker list \<Rightarrow> coordinator \<Rightarrow> coordinator" where
  "start_commit now rws c =
     c\<lparr>co_active := True, co_startedAt := now, co_stoppedAt := None, co_workers := rws,
       co_clusterRunID := ''cluster-'' @ go_itoa (now div 10 ^ 9)\<rparr>"

definition Start ::
  "cluster_env \<Rightarrow> decoders \<Rightarrow> (string \<Rightarrow> (string \<rightharpoonup> json) option) \<Rightarrow> ((string \<rightharpoonup> json) \<Rightarrow> string) \<Rightarrow> worker list \<Rightarrow>
    string \<Rightarrow> coordinator \<Rightarrow> world \<Rightarrow> (string + string list) \<times> coordinator \<times> world" where
  "Start env dec unmarshal marshal ws config c wd =
     (case start_check c ws of
        Some e \<Rightarrow> (Inl e, c, wd)
      | None \<Rightarrow>
          case splitConfig unmarshal config (length ws) of
            Inl e \<Rightarrow> (Inl (''split config: '' @ e), c, wd)
          | Inr m \<Rightarrow>
              (case start_loop env dec (marshal m) 0 ws [] wd of
                 (Inl e, wd) \<Rightarrow> (Inl e, c, wd)
               | (Inr rws, wd) \<Rightarrow> (Inr (map rw_RunID rws), start_commit (en_now env) rws c, wd)))"

fun stop_loop :: "cluster_env \<Rightarrow> nat \<Rightarrow> runningWorker list \<Rightarrow> string option \<Rightarrow> world \<Rightarrow> string option \<times> world" where
  "stop_loop env i [] err wd = (err, wd)"
| "stop_loop env i (w # ws) err wd =
     (case stopOne env i wd of (e, wd) \<Rightarrow> stop_loop env (Suc i) ws (if err = None then e else err) wd)"

definition Stop :: "cluster_env \<Rightarrow> coordinator \<Rightarrow> world \<Rightarrow> string option \<times> coordinator \<times> world" where
  "Stop env c wd =
     (if \<not> co_active c then (None, c, wd)
      else case stop_loop env 0 (co_workers c) None wd of
        (err, wd) \<Rightarrow> (err, c\<lparr>co_active := False, co_stoppedAt := Some (en_now env)\<rparr>, wd))"

section \<open>Status\<close>

record workerStatus =
  st_URL :: string
  st_RunID :: string
  st_Version :: string
  st_VersionMismatch :: bool
  st_stat :: wstat
  st_Reachable :: bool
  st_Err :: string

record clusterStatus =
  cs_Active :: bool
  cs_StartedAt :: int
  cs_MasterVersion :: string
  cs_TotalFiles :: int
  cs_TotalBytes :: int
  cs_FailedFiles :: int
  cs_DispatchSkips :: int
  cs_OverallMBps :: rat
  cs_WindowMBps :: rat
  cs_Workers :: "workerStatus list"

definition version_mismatch :: "string \<Rightarrow> string \<Rightarrow> bool" where
  "version_mismatch master v \<longleftrightarrow> master \<noteq> [] \<and> v \<noteq> [] \<and> v \<noteq> master"

definition merge_row :: "string \<Rightarrow> runningWorker \<Rightarrow> workerStatus" where
  "merge_row master w = \<lparr>st_URL = w_URL (rw_Worker w), st_RunID = rw_RunID w, st_Version = rw_Version w,
     st_VersionMismatch = version_mismatch master (rw_Version w), st_stat = rw_LastStat w,
     st_Reachable = (rw_LastErr w = []), st_Err = rw_LastErr w\<rparr>"

definition merge_one :: "string \<Rightarrow> clusterStatus \<Rightarrow> runningWorker \<Rightarrow> clusterStatus" where
  "merge_one master out w =
     (let s = rw_LastStat w in
      out\<lparr>cs_TotalFiles := i64 (cs_TotalFiles out + ws_TotalFiles s),
          cs_TotalBytes := i64 (cs_TotalBytes out + ws_TotalBytes s),
          cs_FailedFiles := i64 (cs_FailedFiles out + ws_FailedFiles s),
          cs_DispatchSkips := i64 (cs_DispatchSkips out + ws_DispatchSkips s),
          cs_OverallMBps := rnd64 (cs_OverallMBps out + ws_OverallMBps s),
          cs_WindowMBps := rnd64 (cs_WindowMBps out + ws_WindowMBps s),
          cs_Workers := cs_Workers out @ [merge_row master w]\<rparr>)"

definition mergeWorkerStatuses :: "bool \<Rightarrow> int \<Rightarrow> string \<Rightarrow> runningWorker list \<Rightarrow> clusterStatus" where
  "mergeWorkerStatuses active started master ws =
     foldl (merge_one master)
       \<lparr>cs_Active = active, cs_StartedAt = started, cs_MasterVersion = master, cs_TotalFiles = 0, cs_TotalBytes = 0,
        cs_FailedFiles = 0, cs_DispatchSkips = 0, cs_OverallMBps = 0, cs_WindowMBps = 0, cs_Workers = []\<rparr> ws"

text \<open>\<open>Status\<close> copies the workers under the lock, polls them without it, and stores the result
  under it; the two locked parts are separate operations.\<close>

definition status_begin :: "coordinator \<Rightarrow> clusterStatus + runningWorker list \<times> int" where
  "status_begin c =
     (if co_active c then Inr (co_workers c, co_startedAt c)
      else Inl (mergeWorkerStatuses False (co_startedAt c) (co_masterVersion c) (co_workers c)))"

definition poll_one :: "cluster_env \<Rightarrow> decoders \<Rightarrow> nat \<times> runningWorker \<Rightarrow> runningWorker" where
  "poll_one env dec = (\<lambda>(i, w).
     case statusOne env dec i of
       Inl e \<Rightarrow> w\<lparr>rw_LastErr := e\<rparr>
     | Inr s \<Rightarrow> w\<lparr>rw_LastStat := s, rw_LastErr := []\<rparr>)"

definition poll :: "cluster_env \<Rightarrow> decoders \<Rightarrow> runningWorker list \<Rightarrow> runningWorker list" where
  "poll env dec ws = map (poll_one env dec) (zip [0..<length ws] ws)"

definition status_finish :: "runningWorker list \<Rightarrow> int \<Rightarrow> coordinator \<Rightarrow> clusterStatus \<times> coordinator" where
  "status_finish out started c =
     (mergeWorkerStatuses True started (co_masterVersion c) out, c\<lparr>co_workers := out\<rparr>)"

definition Status :: "cluster_env \<Rightarrow> decoders \<Rightarrow> coordinator \<Rightarrow> clusterStatus \<times> coordinator" where
  "Status env dec c =
     (case status_begin c of
        Inl s \<Rightarrow> (s, c)
      | Inr (ws, started) \<Rightarrow> status_finish (poll env dec ws) started c)"

section \<open>The archive of a run\<close>

text \<open>A worker's report: absent, unreadable, or the rows the CSV reader yields before it ends or
  reports an error.\<close>

datatype worker_csv = NoCSV | Rows "string list list" | BrokenRows "string list list" | Unopened

record merge_worker =
  mw_URL :: string
  mw_csv :: worker_csv

definition label_of :: "nat \<Rightarrow> string" where
  "label_of i = ''worker-'' @ (if i + 1 < 10 then ''0'' else []) @ go_itoa (int (i + 1))"

definition index_of :: "'a \<Rightarrow> 'a list \<Rightarrow> nat option" where
  "index_of x xs = (let i = length (takeWhile (\<lambda>y. y \<noteq> x) xs) in if i < length xs then Some i else None)"

definition start_time_of :: "string list \<Rightarrow> string list \<Rightarrow> string" where
  "start_time_of hdr rec =
     (case index_of ''start_time'' hdr of Some i \<Rightarrow> if i < length rec then rec ! i else [] | None \<Rightarrow> [])"

definition label_row :: "nat \<Rightarrow> merge_worker \<Rightarrow> string list \<Rightarrow> string list" where
  "label_row i w rec = (label_of i @ '' ('' @ mw_URL w @ '')'') # rec"

text \<open>The rows of one worker with their sort keys; None is a failed merge.\<close>

definition collect_worker :: "nat \<Rightarrow> merge_worker \<Rightarrow> (string \<times> string list) list option" where
  "collect_worker i w =
     (case mw_csv w of
        NoCSV \<Rightarrow> Some []
      | Unopened \<Rightarrow> None
      | BrokenRows _ \<Rightarrow> None
      | Rows [] \<Rightarrow> Some []
      | Rows (hdr # recs) \<Rightarrow> Some (map (\<lambda>rec. (start_time_of hdr rec, label_row i w rec)) recs))"

fun collect_all :: "nat \<Rightarrow> merge_worker list \<Rightarrow> (string \<times> string list) list option" where
  "collect_all i [] = Some []"
| "collect_all i (w # ws) =
     (case collect_worker i w of
        None \<Rightarrow> None
      | Some rows \<Rightarrow> map_option (\<lambda>rest. rows @ rest) (collect_all (Suc i) ws))"

fun first_header :: "merge_worker list \<Rightarrow> string list" where
  "first_header [] = []"
| "first_header (w # ws) =
     (case mw_csv w of Rows (hdr # _) \<Rightarrow> hdr | BrokenRows (hdr # _) \<Rightarrow> hdr | _ \<Rightarrow> first_header ws)"

text \<open>Strings compare byte by byte; the sort is stable. \<open>disk_ok\<close> tells whether every call that
  writes the temporary file and renames it succeeds.\<close>

definition writeMergedCSV :: "bool \<Rightarrow> merge_worker list \<Rightarrow> (nat \<times> string list list) option" where
  "writeMergedCSV disk_ok ws =
     (case collect_all 0 ws of
        None \<Rightarrow> None
      | Some [] \<Rightarrow> Some (0, [])
      | Some rows \<Rightarrow>
          if \<not> disk_ok then None
          else let out = map snd (sort_key fst rows)
          in Some (length out, ([''worker''] @ first_header ws) # out))"

section \<open>Starting is all or nothing\<close>

definition started_calls :: "string \<Rightarrow> nat \<Rightarrow> nat \<Rightarrow> worker_call list" where
  "started_calls body i n = concat (map (\<lambda>j. [StartCall j body, HealthCall j]) [i..<i + n])"

definition accepted :: "cluster_env \<Rightarrow> nat set \<Rightarrow> nat set" where
  "accepted env A = {j \<in> A. en_accepts env j}"

lemma started_calls_0 [simp]: "started_calls body i 0 = []"
  by (simp add: started_calls_def)

lemma started_calls_Suc: "started_calls body i (Suc n) = [StartCall i body, HealthCall i] @ started_calls body (Suc i) n"
  by (simp add: started_calls_def upt_conv_Cons)

lemma startOne_world: "startOne env dec body i wd = (r, wd') \<Longrightarrow>
    calls wd' = calls wd @ [StartCall i body] \<and> running wd' = running wd \<union> accepted env {i}"
  by (auto simp: startOne_def accepted_def Let_def split: if_splits)

lemma negotiate_world: "negotiateOne env dec i wd = (v, wd') \<Longrightarrow>
    calls wd' = calls wd @ [HealthCall i] \<and> running wd' = running wd"
  by (auto simp: negotiateOne_def)

lemma stops_world:
  "calls (foldl (\<lambda>wd j. snd (stopOne env j wd)) wd js) = calls wd @ map StopCall js \<and>
   running (foldl (\<lambda>wd j. snd (stopOne env j wd)) wd js) = running wd - {j \<in> set js. en_stops env j}"
  by (induction js arbitrary: wd) (auto simp: stopOne_def)

definition loop_result :: "cluster_env \<Rightarrow> string \<Rightarrow> nat \<Rightarrow> worker list \<Rightarrow> runningWorker list \<Rightarrow> world \<Rightarrow>
    string + runningWorker list \<Rightarrow> world \<Rightarrow> bool" where
  "loop_result env body i ws rws wd r wd' \<longleftrightarrow>
     (case r of
        Inr out \<Rightarrow> calls wd' = calls wd @ started_calls body i (length ws) \<and> map rw_Worker out = map rw_Worker rws @ ws \<and>
          running wd' = running wd \<union> accepted env {i..<i + length ws}
      | Inl e \<Rightarrow> (\<exists>k < length ws.
          calls wd' = calls wd @ started_calls body i k @ [StartCall (i + k) body] @ map StopCall [0..<i + k] \<and>
          running wd' = running wd \<union> accepted env {i..i + k} - {j \<in> {..<i + k}. en_stops env j}))"

lemma accepted_Suc: "accepted env {i} \<union> accepted env {Suc i..<Suc i + n} = accepted env {i..<i + Suc n}"
  "accepted env {i} \<union> accepted env {Suc i..Suc i + n} = accepted env {i..i + Suc n}"
  by (auto simp: accepted_def dest: le_neq_implies_less)

lemma start_loop_result: "start_loop env dec body i ws rws wd = (r, wd') \<Longrightarrow> loop_result env body i ws rws wd r wd'"
proof (induction ws arbitrary: i rws wd)
  case Nil
  then show ?case by (auto simp: loop_result_def accepted_def)
next
  case (Cons w ws)
  obtain x wd1 where s: "startOne env dec body i wd = (x, wd1)" by (cases "startOne env dec body i wd")
  note w1 = startOne_world[OF s]
  show ?case
  proof (cases x)
    case (Inl e)
    with Cons.prems s have "r = Inl (''worker '' @ w_URL w @ '': '' @ e)"
      "wd' = foldl (\<lambda>wd j. snd (stopOne env j wd)) wd1 [0..<i]" by simp_all
    with w1 stops_world[of env wd1 "[0..<i]"] show ?thesis
      by (auto simp: loop_result_def lessThan_atLeast0 intro!: exI[of _ 0])
  next
    case (Inr runID)
    obtain ver wd2 where n: "negotiateOne env dec i wd1 = (ver, wd2)" by (cases "negotiateOne env dec i wd1")
    note w2 = negotiate_world[OF n]
    let ?rw = "\<lparr>rw_Worker = w, rw_RunID = runID, rw_Version = ver, rw_LastErr = [], rw_LastStat = no_stat\<rparr>"
    from Cons.prems s n Inr have "start_loop env dec body (Suc i) ws (rws @ [?rw]) wd2 = (r, wd')" by simp
    from Cons.IH[OF this] have ih: "loop_result env body (Suc i) ws (rws @ [?rw]) wd2 r wd'" .
    show ?thesis
    proof (cases r)
      case (Inr out)
      with ih w1 w2 accepted_Suc(1)[of env i "length ws"] show ?thesis
        by (simp add: loop_result_def started_calls_Suc Un_assoc)
    next
      case (Inl e)
      with ih obtain k where k: "k < length ws"
        "calls wd' = calls wd2 @ started_calls body (Suc i) k @ [StartCall (Suc i + k) body] @ map StopCall [0..<Suc i + k]"
        "running wd' = running wd2 \<union> accepted env {Suc i..Suc i + k} - {j \<in> {..<Suc i + k}. en_stops env j}"
        by (auto simp: loop_result_def)
      have "calls wd' = calls wd @ started_calls body i (Suc k) @ [StartCall (i + Suc k) body] @ map StopCall [0..<i + Suc k]"
        using k(2) w1 w2 by (simp add: started_calls_Suc del: upt_Suc)
      moreover have "running wd' = running wd \<union> accepted env {i..i + Suc k} - {j \<in> {..<i + Suc k}. en_stops env j}"
        using k(3) w1 w2 accepted_Suc(2)[of env i k] by (simp add: Un_assoc)
      ultimately show ?thesis using k(1) unfolding Inl loop_result_def sum.case
        by (intro exI[of _ "Suc k"]) simp
    qed
  qed
qed

text \<open>C22: Starting a cluster run is all or nothing, up to the worker whose start call failed. A
  successful \<open>Start\<close> posted the split configuration once to every worker, in order, stopped
  nobody and recorded exactly these workers. A failing one leaves the coordinator as it was;
  either it called nobody, or it failed at one worker \<open>k\<close>: then the workers before it were started
  and every one of them got exactly one stop, in order, and when these stops work no worker runs
  that did not run before, except \<open>k\<close> itself, which gets no stop and runs if it had accepted the
  call whose reply was lost or unreadable.\<close>

theorem start_all_or_nothing:
  assumes "Start env dec unmarshal marshal ws config c wd = (r, c', wd')" and "\<forall>i. en_stops env i"
  shows "case r of
      Inr ids \<Rightarrow> \<exists>m. splitConfig unmarshal config (length ws) = Inr m \<and>
        calls wd' = calls wd @ started_calls (marshal m) 0 (length ws) \<and>
        map rw_Worker (co_workers c') = ws \<and> map rw_RunID (co_workers c') = ids \<and> co_active c'
    | Inl e \<Rightarrow> c' = c \<and> (wd' = wd \<or> (\<exists>m k. k < length ws \<and>
        calls wd' = calls wd @ started_calls (marshal m) 0 k @ [StartCall k (marshal m)] @ map StopCall [0..<k] \<and>
        running wd' - running wd = (if en_accepts env k then {k} - running wd else {})))"
proof (cases "start_check c ws")
  case (Some e)
  with assms(1) show ?thesis by (auto simp: Start_def)
next
  case None
  show ?thesis
  proof (cases "splitConfig unmarshal config (length ws)")
    case (Inl e)
    with assms(1) None show ?thesis by (auto simp: Start_def)
  next
    case (Inr m)
    obtain x wd1 where l: "start_loop env dec (marshal m) 0 ws [] wd = (x, wd1)"
      by (cases "start_loop env dec (marshal m) 0 ws [] wd")
    note res = start_loop_result[OF l, unfolded loop_result_def]
    show ?thesis
    proof (cases x)
      case (Inr out)
      with assms(1) None \<open>splitConfig _ _ _ = Inr m\<close> l have e: "r = Inr (map rw_RunID out)" "wd' = wd1"
        "c' = start_commit (en_now env) out c" by (auto simp: Start_def)
      with res Inr \<open>splitConfig _ _ _ = Inr m\<close> show ?thesis by (auto simp: start_commit_def)
    next
      case (Inl e)
      with assms(1) None \<open>splitConfig _ _ _ = Inr m\<close> l have e: "r = Inl e" "wd' = wd1" "c' = c" by (auto simp: Start_def)
      from res Inl obtain k where k: "k < length ws"
        "calls wd1 = calls wd @ started_calls (marshal m) 0 k @ [StartCall k (marshal m)] @ map StopCall [0..<k]"
        "running wd1 = running wd \<union> accepted env {0..k} - {..<k}" using assms(2) by auto
      from k(3) have "running wd1 - running wd = (if en_accepts env k then {k} - running wd else {})"
        by (auto simp: accepted_def dest: le_neq_implies_less)
      with e k(1,2) show ?thesis by auto
    qed
  qed
qed

definition demo_dec :: decoders where
  "demo_dec = \<lparr>decode_run_id = Some, decode_version = Some, decode_status = (\<lambda>_. None)\<rparr>"

text \<open>Three workers; the third accepts the start but its reply is lost.\<close>

definition demo_cluster :: cluster_env where
  "demo_cluster = \<lparr>en_start = (\<lambda>i. if i = 2 then Unreachable ''timeout'' else Answer 200 ''run''),
     en_accepts = (\<lambda>_. True), en_health = (\<lambda>_. Answer 200 ''v1''), en_stop = (\<lambda>_. Answer 200 []),
     en_stops = (\<lambda>_. True), en_status = (\<lambda>_. Unreachable []), en_now = 0\<rparr>"

definition demo_worker :: worker where
  "demo_worker = \<lparr>w_URL = ''http://w'', w_AuthUser = [], w_AuthPass = []\<rparr>"

definition demo_start :: "(string + string list) \<times> coordinator \<times> world" where
  "demo_start = Start demo_cluster demo_dec (\<lambda>_. Some Map.empty) (\<lambda>_. ''cfg'') (replicate 3 demo_worker) ''cfg''
     (new_coordinator ''v1'') \<lparr>running = {}, calls = []\<rparr>"

lemma length_started: "length (started_calls body i n) = 2 * n"
  by (induction n arbitrary: i) (simp_all add: started_calls_Suc)

theorem start_all_or_nothing_witness:
  "\<exists>e wd'. demo_start = (Inl e, new_coordinator ''v1'', wd') \<and> running wd' = {2} \<and>
     calls wd' = [StartCall 0 ''cfg'', HealthCall 0, StartCall 1 ''cfg'', HealthCall 1, StartCall 2 ''cfg'', StopCall 0, StopCall 1]"
proof -
  obtain r c' wd' where d: "demo_start = (r, c', wd')" by (cases demo_start)
  have e: "fst demo_start = Inl (''worker '' @ ''http://w'' @ '': '' @ ''timeout'')"
    "calls (snd (snd demo_start)) = [StartCall 0 ''cfg'', HealthCall 0, StartCall 1 ''cfg'', HealthCall 1, StartCall 2 ''cfg'', StopCall 0, StopCall 1]"
    by code_simp+
  have stops: "\<forall>i. en_stops demo_cluster i" by (simp add: demo_cluster_def)
  have acc: "en_accepts demo_cluster k" for k by (simp add: demo_cluster_def)
  note th = start_all_or_nothing[OF d[unfolded demo_start_def] stops]
  have r: "r = Inl (''worker '' @ ''http://w'' @ '': '' @ ''timeout'')"
    by (rule trans[OF _ e(1)]) (simp only: d fst_conv)
  from th[unfolded r sum.case] have c: "c' = new_coordinator ''v1''" by (elim conjE)
  have cs: "calls wd' = [StartCall 0 ''cfg'', HealthCall 0, StartCall 1 ''cfg'', HealthCall 1, StartCall 2 ''cfg'', StopCall 0, StopCall 1]"
    by (rule trans[OF _ e(2)]) (simp only: d snd_conv)
  have "length (calls wd') = 7" unfolding cs by simp
  then have ne: "wd' \<noteq> \<lparr>running = {}, calls = []\<rparr>" by auto
  from th[unfolded r sum.case] ne obtain m k where k: "k < length (replicate 3 demo_worker)"
    "calls wd' = calls \<lparr>running = {}, calls = []\<rparr> @ started_calls ''cfg'' 0 k @ [StartCall k ''cfg''] @ map StopCall [0..<k]"
    "running wd' - running \<lparr>running = {}, calls = []\<rparr> =
      (if en_accepts demo_cluster k then {k} - running \<lparr>running = {}, calls = []\<rparr> else {})" by blast
  from arg_cong[OF k(2), of length] have "length (calls wd') = 3 * k + 1" by (simp add: length_started)
  with \<open>length (calls wd') = 7\<close> have "k = 2" by simp
  with k(3) acc[of k] have "running wd' = {2}" by simp
  then show ?thesis using d cs unfolding r c by blast
qed

section \<open>Splitting\<close>

text \<open>The shares of a whole rate that gives every worker something fall short of it by less than
  one file per worker; a rate below the number of workers is exceeded.\<close>

lemma split_bounds:
  assumes "0 \<le> fpm" "fpm < 2 ^ 53" "0 < n"
  shows "int n \<le> fpm \<Longrightarrow> int n * per_worker (of_int fpm) n \<le> fpm \<and> fpm < int n * per_worker (of_int fpm) n + int n"
    and "fpm < int n \<Longrightarrow> int n * per_worker (of_int fpm) n = int n"
proof -
  have f: "float_to_int (of_int fpm) = fpm" using assms by (simp add: float_to_int_def in_i64_def)
  have q: "fpm sdiv int n = fpm div int n" using assms by (cases "fpm = 0") (simp_all add: signed_divide_int_def)
  show "int n \<le> fpm \<Longrightarrow> int n * per_worker (of_int fpm) n \<le> fpm \<and> fpm < int n * per_worker (of_int fpm) n + int n"
  proof -
    assume le: "int n \<le> fpm"
    have "1 \<le> fpm div int n" using assms(3) le by (metis div_self int_ops(1) less_irrefl of_nat_0_less_iff zdiv_mono1)
    then have "per_worker (of_int fpm) n = fpm div int n" by (simp add: per_worker_def f q)
    then have "int n * per_worker (of_int fpm) n = fpm - fpm mod int n" by (simp add: minus_mod_eq_mult_div)
    moreover have "0 \<le> fpm mod int n" "fpm mod int n < int n" using assms(3) by simp_all
    ultimately show ?thesis by linarith
  qed
  assume "fpm < int n"
  with assms show "int n * per_worker (of_int fpm) n = int n" by (simp add: per_worker_def f q)
qed

section \<open>Merging the status\<close>

definition no_wrap :: "(wstat \<Rightarrow> int) \<Rightarrow> runningWorker list \<Rightarrow> bool" where
  "no_wrap f ws \<longleftrightarrow> (\<forall>w \<in> set ws. 0 \<le> f (rw_LastStat w)) \<and> (\<Sum>w \<leftarrow> ws. f (rw_LastStat w)) < 2 ^ 63"

lemma merge_one_sel:
  "cs_Workers (merge_one master s w) = cs_Workers s @ [merge_row master w]"
  "cs_TotalFiles (merge_one master s w) = i64 (cs_TotalFiles s + ws_TotalFiles (rw_LastStat w))"
  "cs_FailedFiles (merge_one master s w) = i64 (cs_FailedFiles s + ws_FailedFiles (rw_LastStat w))"
  "cs_TotalBytes (merge_one master s w) = i64 (cs_TotalBytes s + ws_TotalBytes (rw_LastStat w))"
  "cs_DispatchSkips (merge_one master s w) = i64 (cs_DispatchSkips s + ws_DispatchSkips (rw_LastStat w))"
  by (simp_all add: merge_one_def Let_def)

lemma merge_from:
  "cs_Workers (foldl (merge_one master) s ws) = cs_Workers s @ map (merge_row master) ws \<and>
   cs_TotalFiles (foldl (merge_one master) s ws) = (if ws = [] then cs_TotalFiles s
      else i64 (cs_TotalFiles s + (\<Sum>w \<leftarrow> ws. ws_TotalFiles (rw_LastStat w)))) \<and>
   cs_FailedFiles (foldl (merge_one master) s ws) = (if ws = [] then cs_FailedFiles s
      else i64 (cs_FailedFiles s + (\<Sum>w \<leftarrow> ws. ws_FailedFiles (rw_LastStat w)))) \<and>
   cs_TotalBytes (foldl (merge_one master) s ws) = (if ws = [] then cs_TotalBytes s
      else i64 (cs_TotalBytes s + (\<Sum>w \<leftarrow> ws. ws_TotalBytes (rw_LastStat w)))) \<and>
   cs_DispatchSkips (foldl (merge_one master) s ws) = (if ws = [] then cs_DispatchSkips s
      else i64 (cs_DispatchSkips s + (\<Sum>w \<leftarrow> ws. ws_DispatchSkips (rw_LastStat w))))"
proof (induction ws arbitrary: s)
  case (Cons w ws)
  show ?case
    by (cases "ws = []") (simp_all add: Cons merge_one_sel add.assoc)
qed simp

text \<open>The merged counters are the sums of the workers' last known ones, reachable or not, and the
  rows are the workers in order.\<close>

lemma merge_sums:
  "cs_Workers (mergeWorkerStatuses a t master ws) = map (merge_row master) ws"
  "no_wrap ws_TotalFiles ws \<Longrightarrow> cs_TotalFiles (mergeWorkerStatuses a t master ws) = (\<Sum>w \<leftarrow> ws. ws_TotalFiles (rw_LastStat w))"
  "no_wrap ws_FailedFiles ws \<Longrightarrow> cs_FailedFiles (mergeWorkerStatuses a t master ws) = (\<Sum>w \<leftarrow> ws. ws_FailedFiles (rw_LastStat w))"
proof -
  note m = merge_from[of master "\<lparr>cs_Active = a, cs_StartedAt = t, cs_MasterVersion = master, cs_TotalFiles = 0, cs_TotalBytes = 0,
        cs_FailedFiles = 0, cs_DispatchSkips = 0, cs_OverallMBps = 0, cs_WindowMBps = 0, cs_Workers = []\<rparr>" ws,
      folded mergeWorkerStatuses_def]
  show "cs_Workers (mergeWorkerStatuses a t master ws) = map (merge_row master) ws" using m by simp
  have id: "i64 (\<Sum>w \<leftarrow> ws. f (rw_LastStat w)) = (\<Sum>w \<leftarrow> ws. f (rw_LastStat w))" if "no_wrap f ws" for f
  proof -
    have "0 \<le> (\<Sum>w \<leftarrow> ws. f (rw_LastStat w))" using that by (intro sum_list_nonneg) (auto simp: no_wrap_def)
    with that show ?thesis by (intro i64_id) (simp add: no_wrap_def in_i64_def)
  qed
  show "no_wrap ws_TotalFiles ws \<Longrightarrow> cs_TotalFiles (mergeWorkerStatuses a t master ws) = (\<Sum>w \<leftarrow> ws. ws_TotalFiles (rw_LastStat w))"
    "no_wrap ws_FailedFiles ws \<Longrightarrow> cs_FailedFiles (mergeWorkerStatuses a t master ws) = (\<Sum>w \<leftarrow> ws. ws_FailedFiles (rw_LastStat w))"
    using m id by auto
qed

section \<open>What is not protected by the lock\<close>

text \<open>A status poll that straddles a stop and a new start puts the workers of the old run back
  into the coordinator; two starts that both pass the check both succeed, and the second one
  replaces the workers of the first, which go on running.\<close>

lemma stale_poll_overwrites:
  assumes "status_begin c = Inr (old, started)"
  shows "co_workers (snd (status_finish (poll env dec old) started (start_commit now new c'))) = poll env dec old"
  by (simp add: status_finish_def)

lemma second_start_replaces:
  assumes "start_check c ws = None" and "start_check c ws' = None"
  shows "start_commit now' rws' (start_commit now rws c) = start_commit now' rws' c"
  by (simp add: start_commit_def)

section \<open>The merged report\<close>

lemma collect_all_rows:
  "collect_all i ws = Some rows \<Longrightarrow>
    \<forall>w \<in> set ws. (\<exists>rs. mw_csv w = Rows rs) \<or> mw_csv w = NoCSV"
proof (induction ws arbitrary: i rows)
  case (Cons w ws)
  then obtain a b where "collect_worker i w = Some a" "collect_all (Suc i) ws = Some b" by (auto split: option.splits)
  with Cons.IH show ?case by (auto simp: collect_worker_def split: worker_csv.splits)
qed simp

definition data_rows :: "merge_worker \<Rightarrow> string list list" where
  "data_rows w = (case mw_csv w of Rows (_ # rs) \<Rightarrow> rs | _ \<Rightarrow> [])"

lemma collect_all_map: "collect_all i ws = Some rows \<Longrightarrow>
    map snd rows = concat (map (\<lambda>(j, w). map (label_row j w) (data_rows w)) (zip [i..<i + length ws] ws))"
proof (induction ws arbitrary: i rows)
  case (Cons w ws)
  then obtain a b where ab: "collect_worker i w = Some a" "collect_all (Suc i) ws = Some b" "rows = a @ b"
    by (auto split: option.splits)
  have "map snd a = map (label_row i w) (data_rows w)"
    using ab(1) by (auto simp: collect_worker_def data_rows_def split: worker_csv.splits list.splits)
  moreover have "[i..<i + length (w # ws)] = i # [Suc i..<Suc i + length ws]" by (simp add: upt_conv_Cons del: upt_Suc)
  ultimately show ?case using ab Cons.IH[OF ab(2)] by simp
qed simp

text \<open>A merge that succeeds holds every row of every report under its worker's label, exactly
  once, and counts them.\<close>

lemma merged_rows:
  assumes "writeMergedCSV disk_ok ws = Some (n, hdr # out)"
  shows "mset out = mset (concat (map (\<lambda>(j, w). map (label_row j w) (data_rows w)) (zip [0..<length ws] ws)))"
    and "n = length out"
proof -
  obtain r rs where c: "collect_all 0 ws = Some (r # rs)"
    using assms by (auto simp: writeMergedCSV_def split: option.splits list.splits)
  with assms have o: "out = map snd (sort_key fst (r # rs))" "n = length out"
    unfolding writeMergedCSV_def by (auto simp: Let_def split: if_splits)
  have "mset out = mset (map snd (r # rs))" unfolding o(1) by (metis mset_map mset_sort)
  with collect_all_map[OF c] show "mset out = mset (concat (map (\<lambda>(j, w). map (label_row j w) (data_rows w)) (zip [0..<length ws] ws)))"
    by simp
  show "n = length out" by (fact o(2))
qed

end
