(* ===== verification/Sink.thy ===== *)
theory Sink
  imports GoStrings
begin

text \<open>
  Download destinations (sink/sink.go): the template of a local-disk sink is rendered from the
  fields of a download, each made safe as a path component, joined to the root, checked, and
  opened. The order in which the map of placeholders is visited, the formatted date, the
  outcome of the file system and the effect of decoding a string that is not ASCII to runes and
  back (\<open>uni\<close>) are arguments.
\<close>

section \<open>Strings\<close>

text \<open>\<open>filepath.Ext\<close>: from the last dot of the last element.\<close>

definition path_ext :: "string \<Rightarrow> string" where
  "path_ext s =
     (let t = takeWhile (\<lambda>c. c \<noteq> CHR ''/'') (rev s) in
      if CHR ''.'' \<in> set t then CHR ''.'' # rev (takeWhile (\<lambda>c. c \<noteq> CHR ''.'') t) else [])"

section \<open>Rendering\<close>

record sink_request =
  sr_User :: string
  sr_Filename :: string
  sr_TrackID :: string
  sr_RunID :: string
  sr_StartedAt :: "int option"

definition safe_byte :: "char \<Rightarrow> char" where
  "safe_byte c = (if c \<in> {CHR ''/'', CHR 0x5C, CHR 0x00} then CHR ''_'' else c)"

lemma replace_dots_length: "length (replace_all ''..'' ''__'' s) = length s"
proof (induction "''..''" "''__''" s rule: replace_all.induct)
  case (1 s)
  show ?case
  proof (cases "has_prefix s ''..''")
    case True
    then obtain t where "s = ''..'' @ t" by (auto simp: has_prefix_iff)
    with 1 show ?thesis by (subst replace_all.simps) auto
  next
    case False
    with 1 show ?thesis by (subst replace_all.simps) (cases s; auto)
  qed
qed

lemma replace_dots_count:
  "length (filter (\<lambda>c. c = CHR ''.'') (replace_all ''..'' ''__'' s)) \<le> length (filter (\<lambda>c. c = CHR ''.'') s) \<and>
   (str_contains s ''..'' \<longrightarrow>
     length (filter (\<lambda>c. c = CHR ''.'') (replace_all ''..'' ''__'' s)) < length (filter (\<lambda>c. c = CHR ''.'') s))"
proof (induction "''..''" "''__''" s rule: replace_all.induct)
  case (1 s)
  show ?case
  proof (cases "has_prefix s ''..''")
    case True
    then obtain t where s: "s = ''..'' @ t" by (auto simp: has_prefix_iff)
    have "has_prefix s ''..''" by fact
    then have r: "replace_all ''..'' ''__'' s = ''__'' @ replace_all ''..'' ''__'' t"
      using s by (subst replace_all.simps) simp
    have "length (filter (\<lambda>c. c = CHR ''.'') (replace_all ''..'' ''__'' t)) \<le> length (filter (\<lambda>c. c = CHR ''.'') t)"
      using 1(1) True s by simp
    then show ?thesis unfolding r unfolding s by simp
  next
    case False
    show ?thesis
    proof (cases s)
      case Nil
      then show ?thesis by (simp add: replace_all.simps[of _ _ "[]"] str_contains_def)
    next
      case (Cons c t)
      then have "str_contains s ''..'' \<longleftrightarrow> str_contains t ''..''"
        using False by (auto simp: str_contains_def)
      moreover have "replace_all ''..'' ''__'' s = c # replace_all ''..'' ''__'' t"
        using Cons False by (subst replace_all.simps) simp
      ultimately show ?thesis using 1(2) Cons False by auto
    qed
  qed
qed

text \<open>The loop that replaces pairs of dots while there are any.\<close>

function no_dots :: "string \<Rightarrow> string" where
  "no_dots s = (if str_contains s ''..'' then no_dots (replace_all ''..'' ''__'' s) else s)"
  by pat_completeness auto
termination
  by (relation "measure (\<lambda>s. length (filter (\<lambda>c. c = CHR ''.'') s))") (simp_all add: replace_dots_count)

declare no_dots.simps [simp del]

definition sanitisePathComponent :: "(string \<Rightarrow> string) \<Rightarrow> string \<Rightarrow> string" where
  "sanitisePathComponent uni s =
     (if s = [] then ''_'' else no_dots (map safe_byte (if is_ascii s then s else uni s)))"

definition placeholders :: "string list" where
  "placeholders = [''user'', ''filename'', ''basename'', ''ext'', ''trackid'', ''run_id'', ''date'', ''datetime'']"

definition replacement :: "(string \<Rightarrow> string) \<Rightarrow> (int \<Rightarrow> string) \<Rightarrow> (int \<Rightarrow> string) \<Rightarrow> int \<Rightarrow> sink_request \<Rightarrow> (string \<rightharpoonup> string)" where
  "replacement uni fdate fdatetime now req =
     (let t = (case sr_StartedAt req of None \<Rightarrow> now | Some t \<Rightarrow> t);
          ext = path_ext (sr_Filename req);
          base = trim_suffix (sr_Filename req) ext
      in map_of (zip placeholders
           [sanitisePathComponent uni (sr_User req), sanitisePathComponent uni (sr_Filename req),
            sanitisePathComponent uni base, sanitisePathComponent uni ext,
            sanitisePathComponent uni (sr_TrackID req), sanitisePathComponent uni (sr_RunID req),
            fdate t, fdatetime t]))"

definition substitute :: "(string \<rightharpoonup> string) \<Rightarrow> string \<Rightarrow> string \<Rightarrow> string" where
  "substitute repl out k =
     (case repl k of
        None \<Rightarrow> out
      | Some v \<Rightarrow> replace_all (''${'' @ k @ ''}'') v (replace_all (''{'' @ k @ ''}'') v out))"

text \<open>\<open>ks\<close> is the order in which the map of replacements is visited.\<close>

definition renderTemplate :: "string list \<Rightarrow> (string \<rightharpoonup> string) \<Rightarrow> string \<Rightarrow> string" where
  "renderTemplate ks repl tpl = (if tpl = [] then [] else foldl (substitute repl) tpl ks)"

section \<open>Opening\<close>

text \<open>\<open>filepath.Join\<close> of two non-empty elements, and \<open>filepath.Rel\<close> of two absolute clean paths,
  through their elements.\<close>

definition path_join :: "string \<Rightarrow> string \<Rightarrow> string" where
  "path_join a b = path_clean (a @ ''/'' @ b)"

definition path_elements :: "string \<Rightarrow> string list" where
  "path_elements p = filter (\<lambda>e. e \<noteq> []) (split_byte (CHR ''/'') p)"

fun strip_common :: "string list \<Rightarrow> string list \<Rightarrow> string list \<times> string list" where
  "strip_common (a # as) (b # bs) = (if a = b then strip_common as bs else (a # as, b # bs))"
| "strip_common as bs = (as, bs)"

definition path_rel :: "string \<Rightarrow> string \<Rightarrow> string" where
  "path_rel base targ =
     (case strip_common (path_elements base) (path_elements targ) of
        (as, bs) \<Rightarrow> if as = [] \<and> bs = [] then ''.'' else str_join ''/'' (replicate (length as) ''..'' @ bs))"

record local_disk =
  ld_Root :: string
  ld_Template :: string
  ld_Overwrite :: bool

definition NewLocalDisk :: "(string \<Rightarrow> string option) \<Rightarrow> (string \<Rightarrow> bool) \<Rightarrow> string \<Rightarrow> string \<Rightarrow> bool \<Rightarrow> string + local_disk" where
  "NewLocalDisk to_abs mkdir root template overwrite =
     (if root = [] then Inl ''local-disk: root is required''
      else case to_abs root of
        None \<Rightarrow> Inl ''local-disk: resolve''
      | Some a \<Rightarrow>
          if \<not> mkdir a then Inl ''local-disk: mkdir''
          else Inr \<lparr>ld_Root = a,
                    ld_Template = (if template = [] then ''{run_id}/{user}/{filename}'' else template),
                    ld_Overwrite = overwrite\<rparr>)"

datatype open_error = EmptyPath | EscapesRoot string string | MkdirFailed | OpenFailed

text \<open>\<open>Open\<close>: the path of the opened file and whether it had to be new.\<close>

definition sink_open :: "string list \<Rightarrow> (string \<rightharpoonup> string) \<Rightarrow> (string \<Rightarrow> bool) \<Rightarrow> (string \<Rightarrow> bool \<Rightarrow> bool) \<Rightarrow> local_disk \<Rightarrow>
    open_error + string \<times> bool" where
  "sink_open ks repl mkdir openf l =
     (let rel = renderTemplate ks repl (ld_Template l) in
      if rel = [] then Inl EmptyPath
      else let full = path_join (ld_Root l) rel;
               rel2 = path_rel (ld_Root l) full
           in if has_prefix rel2 ''..'' \<or> has_prefix rel2 ''/'' then Inl (EscapesRoot rel (ld_Root l))
              else if \<not> mkdir full then Inl MkdirFailed
              else if \<not> openf full (\<not> ld_Overwrite l) then Inl OpenFailed
              else Inr (full, \<not> ld_Overwrite l))"

text \<open>Closing a buffered file: the error of the flush wins over that of the close.\<close>

definition buffered_close :: "string option \<Rightarrow> string option \<Rightarrow> string option" where
  "buffered_close flush_err close_err = (case flush_err of Some e \<Rightarrow> Some e | None \<Rightarrow> close_err)"

section \<open>What a rendered component holds\<close>

lemma replace_dots_set: "set (replace_all ''..'' ''__'' s) \<subseteq> set s \<union> {CHR ''_''}"
proof (induction "''..''" "''__''" s rule: replace_all.induct)
  case (1 s)
  show ?case
  proof (cases "has_prefix s ''..''")
    case True
    then obtain t where s: "s = ''..'' @ t" by (auto simp: has_prefix_iff)
    have "replace_all ''..'' ''__'' s = ''__'' @ replace_all ''..'' ''__'' t"
      using True s by (subst replace_all.simps) simp
    with 1(1) True s show ?thesis by auto
  next
    case False
    show ?thesis
    proof (cases s)
      case (Cons c t)
      then have "replace_all ''..'' ''__'' s = c # replace_all ''..'' ''__'' t"
        using False by (subst replace_all.simps) simp
      with 1(2) Cons False show ?thesis by auto
    qed (simp add: replace_all.simps[of _ _ "[]"])
  qed
qed

lemma no_dots_spec: "\<not> str_contains (no_dots s) ''..'' \<and> set (no_dots s) \<subseteq> set s \<union> {CHR ''_''}"
proof (induction s rule: no_dots.induct)
  case (1 s)
  show ?case
  proof (cases "str_contains s ''..''")
    case True
    then have "no_dots s = no_dots (replace_all ''..'' ''__'' s)" by (subst no_dots.simps) simp
    with 1[OF True] replace_dots_set[of s] show ?thesis by auto
  next
    case False
    then have "no_dots s = s" by (subst no_dots.simps) simp
    with False show ?thesis by auto
  qed
qed

text \<open>A sanitised component has no separator, no NUL and no pair of dots.\<close>

lemma sanitised_component:
  "CHR ''/'' \<notin> set (sanitisePathComponent uni s) \<and> CHR 0x5C \<notin> set (sanitisePathComponent uni s) \<and>
   CHR 0x00 \<notin> set (sanitisePathComponent uni s) \<and> \<not> str_contains (sanitisePathComponent uni s) ''..''"
proof (cases "s = []")
  case True
  have "\<not> str_contains ''_'' ''..''" by (simp add: str_contains_def has_prefix_def)
  with True show ?thesis by (simp add: sanitisePathComponent_def)
next
  case False
  let ?m = "map safe_byte (if is_ascii s then s else uni s)"
  have m: "c \<notin> set ?m" if "c \<in> {CHR ''/'', CHR 0x5C, CHR 0x00}" for c
    using that by (auto simp: safe_byte_def split: if_splits)
  have eq: "sanitisePathComponent uni s = no_dots ?m" using False by (simp add: sanitisePathComponent_def)
  have "c \<notin> set (no_dots ?m)" if "c \<in> {CHR ''/'', CHR 0x5C, CHR 0x00}" for c
  proof -
    have "c \<noteq> CHR ''_''" using that by auto
    with m[OF that] no_dots_spec[of ?m] show ?thesis by blast
  qed
  then show ?thesis unfolding eq using no_dots_spec[of ?m] by simp
qed

section \<open>Confinement\<close>

definition clean_stack :: "bool \<Rightarrow> string list \<Rightarrow> bool" where
  "clean_stack rooted es \<longleftrightarrow> (\<forall>e \<in> set es. e \<noteq> [] \<and> e \<noteq> ''.'' \<and> CHR ''/'' \<notin> set e \<and> (rooted \<longrightarrow> e \<noteq> ''..''))"

lemma clean_element_stack:
  "clean_stack rooted acc \<Longrightarrow> CHR ''/'' \<notin> set e \<Longrightarrow> clean_stack rooted (clean_element rooted acc e)"
proof -
  assume a: "clean_stack rooted acc" "CHR ''/'' \<notin> set e"
  consider "e = [] \<or> e = ''.''" | "e = ''..''" | "e \<noteq> []" "e \<noteq> ''.''" "e \<noteq> ''..''" by blast
  then show ?thesis
  proof cases
    case 2
    with a show ?thesis by (cases acc) (auto simp: clean_stack_def)
  qed (use a in \<open>simp_all add: clean_stack_def\<close>)
qed

lemma clean_fold_stack:
  "clean_stack rooted acc \<Longrightarrow> (\<forall>e \<in> set es. CHR ''/'' \<notin> set e) \<Longrightarrow> clean_stack rooted (foldl (clean_element rooted) acc es)"
  by (induction es arbitrary: acc) (simp_all add: clean_element_stack del: clean_element.simps)

lemma elements_join:
  "(\<forall>e \<in> set es. e \<noteq> [] \<and> CHR ''/'' \<notin> set e) \<Longrightarrow> path_elements (CHR ''/'' # str_join ''/'' es) = es"
  by (induction es rule: induct_list012) (simp_all add: path_elements_def split_byte_append split_byte_none)

text \<open>An absolute path cleans to one whose elements are the stack, without any \<open>..\<close>.\<close>

lemma clean_rooted:
  assumes "s \<noteq> []" "hd s = CHR ''/''"
  shows "\<exists>es. path_clean s = CHR ''/'' # str_join ''/'' es \<and> path_elements (path_clean s) = es \<and> ''..'' \<notin> set es"
proof -
  let ?es = "rev (foldl (clean_element True) [] (split_byte (CHR ''/'') s))"
  have st: "clean_stack True (foldl (clean_element True) [] (split_byte (CHR ''/'') s))"
    by (rule clean_fold_stack) (auto simp: clean_stack_def dest: split_byte_parts)
  have p: "path_clean s = CHR ''/'' # str_join ''/'' ?es" using assms by (simp add: path_clean_def)
  have "path_elements (path_clean s) = ?es"
    unfolding p using st by (intro elements_join) (auto simp: clean_stack_def)
  moreover have "''..'' \<notin> set ?es" using st by (auto simp: clean_stack_def)
  ultimately show ?thesis using p by blast
qed

lemma strip_common_prefix: "strip_common as bs = ([], cs) \<Longrightarrow> bs = as @ cs"
  by (induction as bs rule: strip_common.induct) (auto split: if_splits)

lemma rel_inside:
  assumes "\<not> has_prefix (path_rel base targ) ''..''"
  shows "\<exists>cs. path_elements targ = path_elements base @ cs"
proof -
  obtain as bs where s: "strip_common (path_elements base) (path_elements targ) = (as, bs)"
    by (cases "strip_common (path_elements base) (path_elements targ)")
  have "as = []"
  proof (cases as)
    case (Cons a as')
    then have r: "path_rel base targ = str_join ''/'' (''..'' # replicate (length as') ''..'' @ bs)"
      using s by (simp add: path_rel_def)
    have "has_prefix (path_rel base targ) ''..''"
      unfolding r by (cases "replicate (length as') ''..'' @ bs") (simp_all add: has_prefix_def)
    with assms show ?thesis by simp
  qed
  with s strip_common_prefix show ?thesis by blast
qed

text \<open>C23: Downloads stay under the root. Whatever the template, the fields of the download, the
  order in which the placeholders are replaced and the file system say, a file that the
  local-disk sink opens has a clean absolute path below the root: its elements are those of the
  root followed by more, and none of them is \<open>..\<close>; it must be new unless overwriting was asked for.\<close>

theorem sink_confined:
  assumes "sink_open ks repl mkdir openf l = Inr (full, excl)" and "hd (ld_Root l) = CHR ''/''" and "ld_Root l \<noteq> []"
  shows "hd full = CHR ''/'' \<and> (\<exists>es. path_elements full = path_elements (ld_Root l) @ es) \<and>
    ''..'' \<notin> set (path_elements full) \<and> openf full (\<not> ld_Overwrite l) \<and> excl = (\<not> ld_Overwrite l)"
proof -
  let ?rel = "renderTemplate ks repl (ld_Template l)"
  have o: "full = path_join (ld_Root l) ?rel" "\<not> has_prefix (path_rel (ld_Root l) full) ''..''"
    "openf full (\<not> ld_Overwrite l)" "excl = (\<not> ld_Overwrite l)"
    using assms(1) by (auto simp: sink_open_def Let_def split: if_splits)
  have "ld_Root l @ ''/'' @ ?rel \<noteq> []" "hd (ld_Root l @ ''/'' @ ?rel) = CHR ''/''" using assms(2,3) by simp_all
  from clean_rooted[OF this] obtain es where es: "full = CHR ''/'' # str_join ''/'' es" "path_elements full = es" "''..'' \<notin> set es"
    unfolding o(1) path_join_def by blast
  with rel_inside[OF o(2)] o(3,4) show ?thesis by simp
qed


definition demo_sink :: local_disk where
  "demo_sink = \<lparr>ld_Root = ''/data'', ld_Template = ''{run_id}/{user}/{filename}'', ld_Overwrite = False\<rparr>"

definition demo_download :: sink_request where
  "demo_download = \<lparr>sr_User = ''../up'', sr_Filename = ''a/../b.pdf'', sr_TrackID = [], sr_RunID = ''run-1'', sr_StartedAt = None\<rparr>"

definition demo_values :: "sink_request \<Rightarrow> (string \<rightharpoonup> string)" where
  "demo_values = replacement id (\<lambda>_. ''2026-01-02'') (\<lambda>_. ''2026-01-02_03-04-05'') 0"

lemma demo_open: "sink_open placeholders (demo_values demo_download) (\<lambda>_. True) (\<lambda>_ _. True) demo_sink =
    Inr (''/data/run-1/___up/a____b.pdf'', True)"
  by code_simp

theorem sink_confined_witness:
  "\<exists>es. path_elements ''/data/run-1/___up/a____b.pdf'' = path_elements (ld_Root demo_sink) @ es"
proof -
  have r: "hd (ld_Root demo_sink) = CHR ''/''" "ld_Root demo_sink \<noteq> []" by (simp_all add: demo_sink_def)
  show ?thesis using sink_confined[OF demo_open r] by blast
qed

text \<open>The shell spelling of a placeholder is not recognised: the plain spelling inside it is
  replaced first, and the dollar sign stays. And a value that spells a placeholder itself is
  replaced or not, depending on the order in which the map is visited.\<close>

lemma dollar_stays: "renderTemplate placeholders (demo_values demo_download) ''${run_id}'' = ''$run-1''"
  by code_simp

lemma order_matters:
  "renderTemplate placeholders (demo_values (demo_download\<lparr>sr_User := ''{run_id}''\<rparr>)) ''{user}'' = ''run-1''"
  "renderTemplate (rev placeholders) (demo_values (demo_download\<lparr>sr_User := ''{run_id}''\<rparr>)) ''{user}'' = ''{run_id}''"
  by code_simp+

end
