(* ===== verification/Traced.thy ===== *)
theory Traced
  imports Prelude
begin

text \<open>
  A component that answers: \<open>answers nxt s es\<close> are the answers of a run. \<open>traced\<close> is the
  interface of a component whose state is determined by the history of its requests, so that
  every answer is a function of the history; \<open>ok\<close> bounds the requests considered.
\<close>

primrec answers :: "('s \<Rightarrow> 'e \<Rightarrow> 'r \<times> 's) \<Rightarrow> 's \<Rightarrow> 'e list \<Rightarrow> 'r list" where
  "answers nxt s [] = []"
| "answers nxt s (e # es) = (case nxt s e of (r, s') \<Rightarrow> r # answers nxt s' es)"

lemma length_answers [simp]: "length (answers nxt s es) = length es"
  by (induction es arbitrary: s) (simp_all split: prod.splits)

locale traced =
  fixes nxt :: "'s \<Rightarrow> 'e \<Rightarrow> 'r \<times> 's"
    and inv :: "'e list \<Rightarrow> 's \<Rightarrow> bool"
    and answer :: "'e list \<Rightarrow> 'e \<Rightarrow> 'r"
    and ok :: "'e list \<Rightarrow> 'e \<Rightarrow> bool"
  assumes step_answers: "inv h s \<Longrightarrow> ok h e \<Longrightarrow> nxt s e = (r, s') \<Longrightarrow> r = answer h e \<and> inv (h @ [e]) s'"
begin

lemma run_answers:
  "inv h s \<Longrightarrow> (\<And>j. j < length es \<Longrightarrow> ok (h @ take j es) (es ! j)) \<Longrightarrow>
    answers nxt s es = map (\<lambda>j. answer (h @ take j es) (es ! j)) [0..<length es]"
proof (induction es arbitrary: h s)
  case (Cons e es)
  obtain r s' where n: "nxt s e = (r, s')" by fastforce
  have "ok h e" using Cons.prems(2)[of 0] by simp
  with Cons.prems(1) n have st: "r = answer h e" "inv (h @ [e]) s'" using step_answers by blast+
  have "answers nxt s' es = map (\<lambda>j. answer ((h @ [e]) @ take j es) (es ! j)) [0..<length es]"
  proof (rule Cons.IH[OF st(2)])
    fix j assume "j < length es"
    then show "ok ((h @ [e]) @ take j es) (es ! j)" using Cons.prems(2)[of "Suc j"] by simp
  qed
  then show ?case using n st(1) by (simp add: upt_conv_Cons map_Suc_upt[symmetric] del: upt_Suc)
qed simp

end

end
