(* ===== verification/Source.thy ===== *)
theory Source
  imports Config Traced "HOL-Library.List_Lexorder" "HOL-Library.Char_ord"
begin

text \<open>
  Upload sources (source/source.go) and their construction from the configuration
  (runner/runner.go, \<open>buildSourceLeaf\<close>, \<open>buildSourceResolver\<close>): pools of local files with their
  pick modes, trees that resolve a pool per user and pattern on first use, and the resolver
  that chains per-user, per-pattern and default sources.

  The disk is an argument (\<open>source_disk\<close>), and so is the library's \<open>filepath.Match\<close>. A pool is
  reached from one place only, so it is stored there by value. The draw of the random mode is
  an argument of the pick. Picks are atomic, so a run is the sequence of its picks.
\<close>

section \<open>The disk\<close>

text \<open>\<open>sd_stat\<close> tells whether a path is a directory, \<open>sd_read\<close> lists names with a directory
  flag, \<open>sd_open\<close> is None when opening fails and Some None when only its size cannot be read.\<close>

record source_disk =
  sd_abs :: "string \<Rightarrow> string option"
  sd_stat :: "string \<Rightarrow> bool option"
  sd_read :: "string \<Rightarrow> (string \<times> bool) list option"
  sd_match :: "string \<Rightarrow> string \<Rightarrow> bool option"
  sd_open :: "string \<Rightarrow> int option option"

datatype source_error =
    NoFiles | ResolveFailed string | StatFailed string | IsDirectory string | PoolExhausted nat
  | DirRequired | NotDirectory string | ReadFailed string | NoRegular string | UnknownLayout string
  | EmptyUser | BadPattern string | NoMatch string string | SourceOpen string | SourceStat string
  | UnknownKind string

text \<open>The payload of a request: random bytes of the requested size, or the bytes of a file.\<close>

datatype source_result = Generated int string | FromFile string int | Failed source_error | IndexPanic

record source_request =
  rq_User :: string
  rq_Pattern :: string
  rq_SizeBytes :: int
  rq_ContentType :: string

section \<open>Pools of files\<close>

record local_files =
  lf_files :: "string list"
  lf_mode :: string
  lf_idx :: int

fun resolve_paths :: "source_disk \<Rightarrow> string list \<Rightarrow> source_error + string list" where
  "resolve_paths d [] = Inr []"
| "resolve_paths d (p # ps) =
     (case sd_abs d p of
        None \<Rightarrow> Inl (ResolveFailed p)
      | Some ap \<Rightarrow>
          case sd_stat d ap of
            None \<Rightarrow> Inl (StatFailed ap)
          | Some True \<Rightarrow> Inl (IsDirectory ap)
          | Some False \<Rightarrow> (case resolve_paths d ps of Inl e \<Rightarrow> Inl e | Inr aps \<Rightarrow> Inr (ap # aps)))"

definition NewLocalFiles :: "source_disk \<Rightarrow> string list \<Rightarrow> string \<Rightarrow> source_error + local_files" where
  "NewLocalFiles d paths mode =
     (if paths = [] then Inl NoFiles
      else case resolve_paths d paths of
        Inl e \<Rightarrow> Inl e
      | Inr aps \<Rightarrow> Inr \<lparr>lf_files = aps, lf_mode = (if mode = [] then ''round-robin'' else mode), lf_idx = 0\<rparr>)"

text \<open>\<open>idx.Add(1) - 1\<close> wraps at 64 bits; Go's remainder has the sign of the dividend, so an index
  can only leave the pool after the wrap.\<close>

definition trunc_mod :: "int \<Rightarrow> int \<Rightarrow> int" where
  "trunc_mod a b = (if a < 0 then - ((- a) mod b) else a mod b)"

definition pickIndex :: "int \<Rightarrow> local_files \<Rightarrow> (source_error + int) \<times> local_files" where
  "pickIndex draw l =
     (if lf_mode l = ''random'' then (Inr draw, l)
      else let x = i64 (lf_idx l + 1); i = i64 (x - 1); l' = l\<lparr>lf_idx := x\<rparr> in
        if lf_mode l = ''sequential''
        then (if i \<ge> int (length (lf_files l)) then (Inl (PoolExhausted (length (lf_files l))), l') else (Inr i, l'))
        else (Inr (trunc_mod i (int (length (lf_files l)))), l'))"

definition openFile :: "source_disk \<Rightarrow> string \<Rightarrow> source_result" where
  "openFile d p =
     (case sd_open d p of
        None \<Rightarrow> Failed (SourceOpen p)
      | Some None \<Rightarrow> Failed (SourceStat p)
      | Some (Some n) \<Rightarrow> FromFile p n)"

definition files_Next :: "source_disk \<Rightarrow> int \<Rightarrow> local_files \<Rightarrow> source_result \<times> local_files" where
  "files_Next d draw l =
     (case pickIndex draw l of
        (Inl e, l') \<Rightarrow> (Failed e, l')
      | (Inr i, l') \<Rightarrow>
          (if 0 \<le> i \<and> i < int (length (lf_files l)) then openFile d (lf_files l ! nat i) else IndexPanic, l'))"

section \<open>Directories\<close>

definition regular_names :: "(string \<times> bool) list \<Rightarrow> string list" where
  "regular_names es = map fst (filter (\<lambda>(n, is_dir). \<not> (is_dir \<or> has_prefix n ''.'')) es)"

definition join_path :: "string \<Rightarrow> string \<Rightarrow> string" where
  "join_path dir n = path_clean (dir @ ''/'' @ n)"

definition NewLocalDir :: "source_disk \<Rightarrow> string \<Rightarrow> string \<Rightarrow> source_error + local_files" where
  "NewLocalDir d dir mode =
     (if dir = [] then Inl DirRequired
      else case sd_abs d dir of
        None \<Rightarrow> Inl (ResolveFailed dir)
      | Some ap \<Rightarrow>
          case sd_stat d ap of
            None \<Rightarrow> Inl (StatFailed ap)
          | Some False \<Rightarrow> Inl (NotDirectory ap)
          | Some True \<Rightarrow>
              case sd_read d ap of
                None \<Rightarrow> Inl (ReadFailed ap)
              | Some es \<Rightarrow>
                  let files = map (join_path ap) (regular_names es)
                  in if files = [] then Inl (NoRegular ap) else NewLocalFiles d (sort files) mode)"

text \<open>The filter of \<open>readDirGlob\<close>: an unreadable pattern is an error at the first name.\<close>

fun glob_names :: "source_disk \<Rightarrow> string \<Rightarrow> string list \<Rightarrow> source_error + string list" where
  "glob_names d glob [] = Inr []"
| "glob_names d glob (n # ns) =
     (if glob = [] then (case glob_names d glob ns of Inl e \<Rightarrow> Inl e | Inr xs \<Rightarrow> Inr (n # xs))
      else case sd_match d glob n of
        None \<Rightarrow> Inl (BadPattern glob)
      | Some ok \<Rightarrow> (case glob_names d glob ns of Inl e \<Rightarrow> Inl e | Inr xs \<Rightarrow> Inr (if ok then n # xs else xs)))"

definition readDirGlob :: "source_disk \<Rightarrow> string \<Rightarrow> string \<Rightarrow> source_error + string list" where
  "readDirGlob d dir glob =
     (case sd_stat d dir of
        None \<Rightarrow> Inl (StatFailed dir)
      | Some False \<Rightarrow> Inl (NotDirectory dir)
      | Some True \<Rightarrow>
          case sd_read d dir of
            None \<Rightarrow> Inl (ReadFailed dir)
          | Some es \<Rightarrow>
              case glob_names d glob (regular_names es) of
                Inl e \<Rightarrow> Inl e
              | Inr ns \<Rightarrow>
                  if ns = [] then (if glob \<noteq> [] then Inl (NoMatch dir glob) else Inl (NoRegular dir))
                  else Inr (sort (map (join_path dir) ns)))"

section \<open>Trees\<close>

record local_tree =
  lt_root :: string
  lt_layout :: string
  lt_mode :: string
  lt_pools :: "string \<rightharpoonup> local_files"

definition NewLocalTree :: "source_disk \<Rightarrow> string \<Rightarrow> string \<Rightarrow> string \<Rightarrow> source_error + local_tree" where
  "NewLocalTree d dir layout mode =
     (if dir = [] then Inl DirRequired
      else case sd_abs d dir of
        None \<Rightarrow> Inl (ResolveFailed dir)
      | Some ap \<Rightarrow>
          case sd_stat d ap of
            None \<Rightarrow> Inl (StatFailed ap)
          | Some False \<Rightarrow> Inl (NotDirectory ap)
          | Some True \<Rightarrow>
              let lay = (if layout = [] then ''flat'' else layout)
              in if lay \<notin> {''flat'', ''by-user'', ''by-pattern'', ''by-user-pattern''} then Inl (UnknownLayout lay)
                 else Inr \<lparr>lt_root = ap, lt_layout = lay, lt_mode = (if mode = [] then ''round-robin'' else mode),
                           lt_pools = Map.empty\<rparr>)"

definition resolveFor :: "source_disk \<Rightarrow> local_tree \<Rightarrow> string \<Rightarrow> string \<Rightarrow> source_error + string list" where
  "resolveFor d t u pat =
     (if lt_layout t = ''by-user''
      then (if u = [] then Inl EmptyUser else readDirGlob d (join_path (lt_root t) u) [])
      else if lt_layout t = ''by-pattern'' then readDirGlob d (lt_root t) pat
      else if lt_layout t = ''by-user-pattern''
      then (if u = [] then Inl EmptyUser else readDirGlob d (join_path (lt_root t) u) pat)
      else readDirGlob d (lt_root t) [])"

definition pool_key :: "local_tree \<Rightarrow> string \<Rightarrow> string \<Rightarrow> string" where
  "pool_key t u pat = lt_layout t @ ''|'' @ u @ ''|'' @ pat"

definition poolFor :: "source_disk \<Rightarrow> local_tree \<Rightarrow> string \<Rightarrow> string \<Rightarrow> (source_error + local_files) \<times> local_tree" where
  "poolFor d t u pat =
     (let key = pool_key t u pat in
      case lt_pools t key of
        Some p \<Rightarrow> (Inr p, t)
      | None \<Rightarrow>
          case resolveFor d t u pat of
            Inl e \<Rightarrow> (Inl e, t)
          | Inr files \<Rightarrow>
              case NewLocalFiles d files (lt_mode t) of
                Inl e \<Rightarrow> (Inl e, t)
              | Inr p \<Rightarrow> (Inr p, t\<lparr>lt_pools := (lt_pools t)(key \<mapsto> p)\<rparr>))"

definition tree_Next :: "source_disk \<Rightarrow> int \<Rightarrow> source_request \<Rightarrow> local_tree \<Rightarrow> source_result \<times> local_tree" where
  "tree_Next d draw req t =
     (case poolFor d t (rq_User req) (rq_Pattern req) of
        (Inl e, t') \<Rightarrow> (Failed e, t')
      | (Inr p, t') \<Rightarrow>
          (case files_Next d draw p of
             (r, p') \<Rightarrow> (r, t'\<lparr>lt_pools := (lt_pools t')(pool_key t (rq_User req) (rq_Pattern req) \<mapsto> p')\<rparr>)))"

section \<open>The resolver\<close>

datatype file_source = Synthetic | LocalFiles local_files | LocalDir local_files | LocalTree local_tree

definition source_Next :: "source_disk \<Rightarrow> int \<Rightarrow> source_request \<Rightarrow> file_source \<Rightarrow> source_result \<times> file_source" where
  "source_Next d draw req s =
     (case s of
        Synthetic \<Rightarrow>
          (Generated (rq_SizeBytes req) (if rq_ContentType req = [] then ''binary'' else rq_ContentType req), Synthetic)
      | LocalFiles l \<Rightarrow> (case files_Next d draw l of (r, l') \<Rightarrow> (r, LocalFiles l'))
      | LocalDir l \<Rightarrow> (case files_Next d draw l of (r, l') \<Rightarrow> (r, LocalDir l'))
      | LocalTree t \<Rightarrow> (case tree_Next d draw req t of (r, t') \<Rightarrow> (r, LocalTree t')))"

record resolver =
  rs_Default :: "file_source option"
  rs_PerUser :: "string \<rightharpoonup> file_source"
  rs_PerPattern :: "string \<rightharpoonup> file_source"

text \<open>\<open>Resolve\<close> names the place of the source it returns; \<open>Fallback\<close> is a fresh \<open>Synthetic\<close>.\<close>

datatype place = AtUser string | AtPattern string | AtDefault | Fallback

definition Resolve :: "resolver option \<Rightarrow> source_request \<Rightarrow> place" where
  "Resolve r req =
     (case r of
        None \<Rightarrow> Fallback
      | Some r \<Rightarrow>
          if rs_PerUser r (rq_User req) \<noteq> None then AtUser (rq_User req)
          else if rs_PerPattern r (rq_Pattern req) \<noteq> None then AtPattern (rq_Pattern req)
          else if rs_Default r \<noteq> None then AtDefault
          else Fallback)"

definition source_at :: "resolver option \<Rightarrow> place \<Rightarrow> file_source" where
  "source_at r p =
     (case r of
        None \<Rightarrow> Synthetic
      | Some r \<Rightarrow>
          (case p of
             AtUser u \<Rightarrow> the (rs_PerUser r u)
           | AtPattern q \<Rightarrow> the (rs_PerPattern r q)
           | AtDefault \<Rightarrow> the (rs_Default r)
           | Fallback \<Rightarrow> Synthetic))"

definition put_source :: "place \<Rightarrow> file_source \<Rightarrow> resolver option \<Rightarrow> resolver option" where
  "put_source p s r =
     (case r of
        None \<Rightarrow> None
      | Some r \<Rightarrow> Some
          (case p of
             AtUser u \<Rightarrow> r\<lparr>rs_PerUser := (rs_PerUser r)(u \<mapsto> s)\<rparr>
           | AtPattern q \<Rightarrow> r\<lparr>rs_PerPattern := (rs_PerPattern r)(q \<mapsto> s)\<rparr>
           | AtDefault \<Rightarrow> r\<lparr>rs_Default := Some s\<rparr>
           | Fallback \<Rightarrow> r))"

text \<open>One upload's \<open>resolver.Resolve(req).Next(req)\<close>.\<close>

definition resolver_Next :: "source_disk \<Rightarrow> int \<Rightarrow> source_request \<Rightarrow> resolver option \<Rightarrow> source_result \<times> resolver option" where
  "resolver_Next d draw req r =
     (let p = Resolve r req in
      case source_Next d draw req (source_at r p) of (res, s') \<Rightarrow> (res, put_source p s' r))"

section \<open>Construction\<close>

definition buildSourceLeaf :: "source_disk \<Rightarrow> source_config option \<Rightarrow> source_error + file_source option" where
  "buildSourceLeaf d c =
     (case c of
        None \<Rightarrow> Inr None
      | Some c \<Rightarrow>
          if sc_kind c \<in> {[], ''synthetic''} then Inr (Some Synthetic)
          else if sc_kind c = ''local-files''
          then (case NewLocalFiles d (sc_files c) (sc_mode c) of Inl e \<Rightarrow> Inl e | Inr l \<Rightarrow> Inr (Some (LocalFiles l)))
          else if sc_kind c = ''local-dir''
          then (if sc_layout c \<in> {[], ''flat''}
                then (case NewLocalDir d (sc_dir c) (sc_mode c) of Inl e \<Rightarrow> Inl e | Inr l \<Rightarrow> Inr (Some (LocalDir l)))
                else (case NewLocalTree d (sc_dir c) (sc_layout c) (sc_mode c) of
                        Inl e \<Rightarrow> Inl e | Inr t \<Rightarrow> Inr (Some (LocalTree t))))
          else Inl (UnknownKind (sc_kind c)))"

text \<open>The range loops over the overrides, in the order the map is visited.\<close>

fun build_overrides :: "source_disk \<Rightarrow> (string \<times> source_config option) list \<Rightarrow> (string \<rightharpoonup> file_source) \<Rightarrow>
    source_error + (string \<rightharpoonup> file_source)" where
  "build_overrides d [] m = Inr m"
| "build_overrides d ((k, sub) # rest) m =
     (case buildSourceLeaf d sub of
        Inl e \<Rightarrow> Inl e
      | Inr None \<Rightarrow> build_overrides d rest m
      | Inr (Some s) \<Rightarrow> build_overrides d rest (m(k \<mapsto> s)))"

definition buildSourceResolver :: "source_disk \<Rightarrow> source_config option \<Rightarrow> source_error + resolver option" where
  "buildSourceResolver d c =
     (case c of
        None \<Rightarrow> Inr None
      | Some sc \<Rightarrow>
          case buildSourceLeaf d c of
            Inl e \<Rightarrow> Inl e
          | Inr def \<Rightarrow>
              case build_overrides d (per_pattern sc) Map.empty of
                Inl e \<Rightarrow> Inl e
              | Inr pats \<Rightarrow>
                  case build_overrides d (per_user sc) Map.empty of
                    Inl e \<Rightarrow> Inl e
                  | Inr users \<Rightarrow> Inr (Some \<lparr>rs_Default = def, rs_PerUser = users, rs_PerPattern = pats\<rparr>))"


section \<open>What a tree serves\<close>

type_synonym ask = "int \<times> source_request"

definition ask_files :: "source_disk \<Rightarrow> local_files \<Rightarrow> ask \<Rightarrow> source_result \<times> local_files" where
  "ask_files d l e = files_Next d (fst e) l"

definition ask_tree :: "source_disk \<Rightarrow> local_tree \<Rightarrow> ask \<Rightarrow> source_result \<times> local_tree" where
  "ask_tree d t e = tree_Next d (fst e) (snd e) t"

definition ask_source :: "source_disk \<Rightarrow> file_source \<Rightarrow> ask \<Rightarrow> source_result \<times> file_source" where
  "ask_source d s e = source_Next d (fst e) (snd e) s"

definition ask_resolver :: "source_disk \<Rightarrow> resolver option \<Rightarrow> ask \<Rightarrow> source_result \<times> resolver option" where
  "ask_resolver d r e = resolver_Next d (fst e) (snd e) r"

text \<open>The answer to request number \<open>n\<close> of a pool, by its mode alone.\<close>

definition served :: "source_disk \<Rightarrow> string \<Rightarrow> string list \<Rightarrow> nat \<Rightarrow> int \<Rightarrow> source_result" where
  "served d mode files n draw =
     (if mode = ''random'' then (if 0 \<le> draw \<and> draw < int (length files) then openFile d (files ! nat draw) else IndexPanic)
      else if mode = ''sequential'' \<and> length files \<le> n then Failed (PoolExhausted (length files))
      else openFile d (files ! (n mod length files)))"

definition pool_after :: "string \<Rightarrow> string list \<Rightarrow> nat \<Rightarrow> local_files" where
  "pool_after mode files n = \<lparr>lf_files = files, lf_mode = mode, lf_idx = (if mode = ''random'' then 0 else int n)\<rparr>"

lemma pool_step:
  assumes "files \<noteq> []" and "n < 2 ^ 62"
  shows "files_Next d draw (pool_after mode files n) = (served d mode files n draw, pool_after mode files (Suc n))"
proof (cases "mode = ''random''")
  case True
  then show ?thesis by (simp add: files_Next_def pickIndex_def pool_after_def served_def)
next
  case False
  have i: "i64 (1 + int n) = 1 + int n" "i64 (int n) = int n"
    using assms(2) by (intro i64_id; simp add: in_i64_def)+
  show ?thesis
  proof (cases "mode = ''sequential''")
    case True
    then show ?thesis by (simp add: files_Next_def pickIndex_def pool_after_def served_def i Let_def add.commute[of _ 1])
  next
    case seq: False
    have r: "trunc_mod (int n) (int (length files)) = int (n mod length files)" by (simp add: trunc_mod_def zmod_int)
    have m: "n mod length files < length files" using assms(1) by simp
    show ?thesis using False seq m
      by (simp add: files_Next_def pickIndex_def pool_after_def served_def i Let_def r add.commute[of _ 1])
  qed
qed

definition pool_files :: "source_disk \<Rightarrow> local_tree \<Rightarrow> source_request \<Rightarrow> source_error + string list" where
  "pool_files d t q =
     (case resolveFor d t (rq_User q) (rq_Pattern q) of Inl e \<Rightarrow> Inl e | Inr fs \<Rightarrow> resolve_paths d fs)"

definition same_pool :: "source_request \<Rightarrow> ask \<Rightarrow> bool" where
  "same_pool q e \<longleftrightarrow> rq_User (snd e) = rq_User q \<and> rq_Pattern (snd e) = rq_Pattern q"

text \<open>What the tree owes a request after the requests \<open>h\<close>.\<close>

definition owed :: "source_disk \<Rightarrow> local_tree \<Rightarrow> ask list \<Rightarrow> ask \<Rightarrow> source_result" where
  "owed d t h e =
     (case pool_files d t (snd e) of
        Inl err \<Rightarrow> Failed err
      | Inr fs \<Rightarrow> served d (lt_mode t) fs (length (filter (same_pool (snd e)) h)) (fst e))"


text \<open>A key determines its user and pattern when no user name holds the separator.\<close>

lemma pool_key_inj:
  assumes "CHR ''|'' \<notin> set u" and "CHR ''|'' \<notin> set v" and "pool_key t u a = pool_key t' v b" and "lt_layout t = lt_layout t'"
  shows "u = v \<and> a = b"
proof -
  have e: "u @ CHR ''|'' # a = v @ CHR ''|'' # b" using assms(3,4) by (simp add: pool_key_def)
  have "takeWhile (\<lambda>c. c \<noteq> CHR ''|'') (u @ CHR ''|'' # a) = u" "takeWhile (\<lambda>c. c \<noteq> CHR ''|'') (v @ CHR ''|'' # b) = v"
    using assms(1,2) by (simp_all add: takeWhile_byte)
  with e have "u = v" by metis
  with e show ?thesis by simp
qed

definition tree_inv :: "source_disk \<Rightarrow> local_tree \<Rightarrow> ask list \<Rightarrow> local_tree \<Rightarrow> bool" where
  "tree_inv d t0 h t \<longleftrightarrow>
     lt_root t = lt_root t0 \<and> lt_layout t = lt_layout t0 \<and> lt_mode t = lt_mode t0 \<and>
     (\<forall>q. CHR ''|'' \<notin> set (rq_User q) \<longrightarrow>
        lt_pools t (pool_key t0 (rq_User q) (rq_Pattern q)) =
          (let n = length (filter (same_pool q) h) in
           case pool_files d t0 q of
             Inl _ \<Rightarrow> None
           | Inr fs \<Rightarrow> if n = 0 then None else Some (pool_after (lt_mode t0) fs n)))"

definition tree_ok :: "ask list \<Rightarrow> ask \<Rightarrow> bool" where
  "tree_ok h e \<longleftrightarrow> length h < 2 ^ 62 \<and> CHR ''|'' \<notin> set (rq_User (snd e))"

lemma glob_dir_nonempty: "readDirGlob d dir glob = Inr fs \<Longrightarrow> fs \<noteq> []"
  by (auto simp: readDirGlob_def split: option.splits sum.splits bool.splits if_splits dest: arg_cong[where f = length])

lemma resolveFor_nonempty: "resolveFor d t u pat = Inr fs \<Longrightarrow> fs \<noteq> []"
  by (auto simp: resolveFor_def split: if_splits dest: glob_dir_nonempty)

lemma resolve_paths_length: "resolve_paths d ps = Inr fs \<Longrightarrow> length fs = length ps"
  by (induction ps arbitrary: fs) (auto split: option.splits bool.splits sum.splits)

lemma new_pool:
  assumes "lt_mode t \<noteq> []" and "resolveFor d t u pat = Inr fs"
  shows "NewLocalFiles d fs (lt_mode t) =
    (case resolve_paths d fs of Inl e \<Rightarrow> Inl e | Inr aps \<Rightarrow> Inr (pool_after (lt_mode t) aps 0))"
  using assms resolveFor_nonempty[OF assms(2)] by (simp add: NewLocalFiles_def pool_after_def split: sum.split)

lemma resolveFor_cong:
  "lt_root t = lt_root t' \<Longrightarrow> lt_layout t = lt_layout t' \<Longrightarrow> resolveFor d t u pat = resolveFor d t' u pat"
  by (simp add: resolveFor_def)

lemma poolFor_inv:
  assumes inv: "tree_inv d t0 h t" and bar: "CHR ''|'' \<notin> set (rq_User q)" and m: "lt_mode t0 \<noteq> []"
  shows "poolFor d t (rq_User q) (rq_Pattern q) =
    (case pool_files d t0 q of
       Inl e \<Rightarrow> (Inl e, t)
     | Inr fs \<Rightarrow>
         let p = pool_after (lt_mode t0) fs (length (filter (same_pool q) h)) in
         (Inr p, t\<lparr>lt_pools := (lt_pools t)(pool_key t0 (rq_User q) (rq_Pattern q) \<mapsto> p)\<rparr>))"
proof -
  let ?u = "rq_User q" and ?p = "rq_Pattern q"
  have same: "lt_root t = lt_root t0" "lt_layout t = lt_layout t0" "lt_mode t = lt_mode t0"
    using inv by (simp_all add: tree_inv_def)
  have key: "pool_key t ?u ?p = pool_key t0 ?u ?p" by (simp add: pool_key_def same)
  have look: "lt_pools t (pool_key t0 ?u ?p) =
      (let n = length (filter (same_pool q) h) in
       case pool_files d t0 q of Inl _ \<Rightarrow> None | Inr fs \<Rightarrow> if n = 0 then None else Some (pool_after (lt_mode t0) fs n))"
    using inv bar unfolding tree_inv_def by blast
  have res: "resolveFor d t ?u ?p = resolveFor d t0 ?u ?p" by (rule resolveFor_cong) (simp_all add: same)
  show ?thesis
  proof (cases "pool_files d t0 q")
    case (Inl e)
    with look have "lt_pools t (pool_key t0 ?u ?p) = None" by (simp add: Let_def)
    moreover have "resolveFor d t0 ?u ?p = Inl e \<or> (\<exists>fs. resolveFor d t0 ?u ?p = Inr fs \<and> resolve_paths d fs = Inl e)"
      using Inl by (auto simp: pool_files_def split: sum.splits)
    ultimately show ?thesis using Inl new_pool[of t0 d ?u ?p, OF m]
      by (auto simp: poolFor_def key res same)
  next
    case (Inr fs)
    then obtain ps where ps: "resolveFor d t0 ?u ?p = Inr ps" "resolve_paths d ps = Inr fs"
      by (auto simp: pool_files_def split: sum.splits)
    show ?thesis
    proof (cases "length (filter (same_pool q) h) = 0")
      case True
      with look Inr have "lt_pools t (pool_key t0 ?u ?p) = None" by (simp add: Let_def)
      with True ps Inr show ?thesis by (simp add: poolFor_def key res same new_pool[OF m ps(1)] Let_def)
    next
      case False
      with look Inr have "lt_pools t (pool_key t0 ?u ?p) = Some (pool_after (lt_mode t0) fs (length (filter (same_pool q) h)))"
        by (simp add: Let_def)
      with Inr show ?thesis by (simp add: poolFor_def key Let_def map_upd_triv)
    qed
  qed
qed


lemma same_pool_sym: "same_pool q e \<longleftrightarrow> same_pool (snd e) (i, q)"
  by (auto simp: same_pool_def)

lemma tree_inv_snoc_other:
  assumes "tree_inv d t0 h t" and "pool_files d t0 (snd e) = Inl err"
  shows "tree_inv d t0 (h @ [e]) t"
proof -
  have "pool_files d t0 q = Inl err" if "same_pool q e" for q
    using that assms(2) by (simp add: pool_files_def same_pool_def)
  with assms(1) show ?thesis by (auto simp: tree_inv_def Let_def split: sum.splits)
qed

lemma tree_inv_snoc_pool:
  assumes inv: "tree_inv d t0 h t" and fs: "pool_files d t0 (snd e) = Inr fs" and bar: "CHR ''|'' \<notin> set (rq_User (snd e))"
  shows "tree_inv d t0 (h @ [e])
    (t\<lparr>lt_pools := (lt_pools t)(pool_key t0 (rq_User (snd e)) (rq_Pattern (snd e)) \<mapsto>
        pool_after (lt_mode t0) fs (Suc (length (filter (same_pool (snd e)) h))))\<rparr>)"
proof -
  have "pool_key t0 (rq_User q) (rq_Pattern q) = pool_key t0 (rq_User (snd e)) (rq_Pattern (snd e)) \<longleftrightarrow> same_pool q e"
    if "CHR ''|'' \<notin> set (rq_User q)" for q
    using pool_key_inj[OF that bar, of t0 "rq_Pattern q" t0 "rq_Pattern (snd e)"] by (auto simp: same_pool_def)
  moreover have "filter (same_pool q) h = filter (same_pool (snd e)) h \<and> pool_files d t0 q = Inr fs" if "same_pool q e" for q
  proof -
    have "same_pool q = same_pool (snd e)" using that by (intro ext) (simp add: same_pool_def)
    moreover have "pool_files d t0 q = pool_files d t0 (snd e)" using that by (simp add: pool_files_def same_pool_def)
    ultimately show ?thesis using fs by simp
  qed
  ultimately show ?thesis using inv by (auto simp: tree_inv_def Let_def split: sum.split)
qed

lemma paths_nonempty: "pool_files d t q = Inr fs \<Longrightarrow> fs \<noteq> []"
  using resolveFor_nonempty resolve_paths_length by (fastforce simp: pool_files_def split: sum.splits)

lemma tree_step:
  assumes inv: "tree_inv d t0 h t" and ok: "tree_ok h e" and m: "lt_mode t0 \<noteq> []" and st: "ask_tree d t e = (r, t')"
  shows "r = owed d t0 h e \<and> tree_inv d t0 (h @ [e]) t'"
proof -
  let ?q = "snd e" and ?n = "length (filter (same_pool (snd e)) h)"
  have bar: "CHR ''|'' \<notin> set (rq_User ?q)" and n: "?n < 2 ^ 62"
    using ok by (auto simp: tree_ok_def intro: le_less_trans[OF length_filter_le])
  note pf = poolFor_inv[OF inv bar m]
  have key: "pool_key t (rq_User ?q) (rq_Pattern ?q) = pool_key t0 (rq_User ?q) (rq_Pattern ?q)"
    using inv by (simp add: pool_key_def tree_inv_def)
  show ?thesis
  proof (cases "pool_files d t0 ?q")
    case (Inl err)
    with st pf have "r = Failed err" "t' = t" by (simp_all add: ask_tree_def tree_Next_def)
    with Inl tree_inv_snoc_other[OF inv Inl] show ?thesis by (simp add: owed_def)
  next
    case (Inr fs)
    from st pf Inr pool_step[OF paths_nonempty[OF Inr] n, of d "fst e" "lt_mode t0"]
    have "r = served d (lt_mode t0) fs ?n (fst e)"
      "t' = t\<lparr>lt_pools := (lt_pools t)(pool_key t0 (rq_User ?q) (rq_Pattern ?q) \<mapsto> pool_after (lt_mode t0) fs (Suc ?n))\<rparr>"
      by (simp_all add: ask_tree_def tree_Next_def Let_def key)
    with Inr tree_inv_snoc_pool[OF inv Inr bar] show ?thesis by (simp add: owed_def)
  qed
qed

interpretation tree: traced "ask_tree d" "\<lambda>h t. lt_mode t0 \<noteq> [] \<and> tree_inv d t0 h t" "owed d t0" tree_ok for d t0
  by unfold_locales (use tree_step in blast)

lemma new_tree:
  assumes "NewLocalTree d dir layout mode = Inr t"
  shows "lt_mode t \<noteq> [] \<and> tree_inv d t [] t"
proof -
  have "lt_pools t = Map.empty" "lt_mode t \<noteq> []"
    using assms by (auto simp: NewLocalTree_def Let_def split: option.splits bool.splits if_splits)
  then show ?thesis by (simp add: tree_inv_def split: sum.split)
qed


definition demo_disk :: source_disk where
  "demo_disk = \<lparr>sd_abs = Some, sd_stat = (\<lambda>p. Some (p = ''/d'' \<or> p = ''/d/u'')),
     sd_read = (\<lambda>p. Some [(''.x'', False), (''a.csv'', False), (''b.txt'', False), (''s'', True)]),
     sd_match = (\<lambda>g n. Some (g = ''*'' \<or> has_suffix n (trim_prefix g ''*''))), sd_open = (\<lambda>p. Some (Some 7))\<rparr>"

definition demo_ask :: "string \<Rightarrow> ask" where
  "demo_ask pat = (0, \<lparr>rq_User = ''u'', rq_Pattern = pat, rq_SizeBytes = 3, rq_ContentType = []\<rparr>)"

definition demo_tree :: local_tree where
  "demo_tree = \<lparr>lt_root = ''/d'', lt_layout = ''by-user'', lt_mode = ''sequential'', lt_pools = Map.empty\<rparr>"

lemma demo_tree_new: "NewLocalTree demo_disk ''/d'' ''by-user'' ''sequential'' = Inr demo_tree"
  by (simp add: NewLocalTree_def demo_disk_def demo_tree_def)


section \<open>The resolver keeps its sources apart\<close>

lemma Resolve_put: "Resolve (put_source p s r) q = Resolve r q" if "p \<in> range (Resolve r)" for q
  using that by (auto simp: Resolve_def put_source_def split: option.splits place.splits if_splits)

lemma source_at_put:
  assumes "p \<in> range (Resolve r)" "p' \<in> range (Resolve r)"
  shows "source_at (put_source p s r) p' = (if p = p' \<and> p \<noteq> Fallback then s else source_at r p')"
  using assms by (auto simp: Resolve_def put_source_def source_at_def split: option.splits place.splits if_splits)

lemma Fallback_source: "source_at r Fallback = Synthetic"
  by (simp add: source_at_def split: option.split)

text \<open>A resolver never mixes its sources: in any run of uploads the answers to those that resolve
  to one place - the source of a user, of a pattern, the default, or the synthetic fallback - are
  exactly the answers that source gives to these uploads alone, and where an upload resolves to
  depends on its user first, then on its pattern.\<close>

theorem resolver_isolates:
  "map snd (filter (\<lambda>(e, _). Resolve r (snd e) = p) (zip es (answers (ask_resolver d) r es))) =
     answers (ask_source d) (source_at r p) (filter (\<lambda>e. Resolve r (snd e) = p) es)"
proof (induction es arbitrary: r)
  case (Cons e es)
  let ?p = "Resolve r (snd e)"
  obtain res s' where s: "source_Next d (fst e) (snd e) (source_at r ?p) = (res, s')" by fastforce
  let ?r = "put_source ?p s' r"
  have n: "ask_resolver d r e = (res, ?r)" by (simp add: ask_resolver_def resolver_Next_def s Let_def)
  have R: "Resolve ?r = Resolve r" by (rule ext, rule Resolve_put) simp
  note IH = Cons.IH[of ?r, unfolded R]
  show ?case
  proof (cases "?p = p")
    case True
    have "source_at ?r p = s'"
    proof (cases "p = Fallback")
      case True
      with s \<open>?p = p\<close> show ?thesis by (simp add: Fallback_source source_Next_def)
    next
      case False
      with True show ?thesis using source_at_put[of ?p r p s'] by auto
    qed
    with True n s IH show ?thesis by (simp add: ask_source_def)
  next
    case False
    have "source_at ?r p = source_at r p \<or> filter (\<lambda>e. Resolve r (snd e) = p) es = []"
    proof (cases "p \<in> range (Resolve r)")
      case True
      with False source_at_put[of ?p r p s'] show ?thesis by auto
    next
      case False
      then show ?thesis by (auto simp: filter_empty_conv)
    qed
    with False n IH show ?thesis by auto
  qed
qed simp

end
