(* ===== verification/Utf8.thy ===== *)
theory Utf8
  imports GoStrings
begin

text \<open>
  How Go reads a string rune by rune: the length in bytes of the first rune, where an invalid
  byte counts as a rune of its own, and the functions of the code that map or count runes.
\<close>

definition byte_in :: "char \<Rightarrow> char \<Rightarrow> char \<Rightarrow> bool" where
  "byte_in lo hi c \<longleftrightarrow> (of_char lo :: nat) \<le> of_char c \<and> of_char c \<le> (of_char hi :: nat)"

definition cont_byte :: "nat \<Rightarrow> bool" where
  "cont_byte b \<longleftrightarrow> 0x80 \<le> b \<and> b \<le> 0xBF"

definition rune_len :: "string \<Rightarrow> nat" where
  "rune_len s =
     (case map of_char s of
        [] \<Rightarrow> 0
      | b0 # bs \<Rightarrow>
          if 0xC2 \<le> b0 \<and> b0 \<le> 0xDF
          then (case bs of b1 # _ \<Rightarrow> if cont_byte b1 then 2 else 1 | _ \<Rightarrow> 1)
          else if 0xE0 \<le> b0 \<and> b0 \<le> 0xEF
          then (case bs of
                  b1 # b2 # _ \<Rightarrow>
                    if (if b0 = 0xE0 then 0xA0 \<le> b1 \<and> b1 \<le> 0xBF
                        else if b0 = 0xED then 0x80 \<le> b1 \<and> b1 \<le> 0x9F else cont_byte b1) \<and> cont_byte b2
                    then 3 else 1
                | _ \<Rightarrow> 1)
          else if 0xF0 \<le> b0 \<and> b0 \<le> (0xF4::nat)
          then (case bs of
                  b1 # b2 # b3 # _ \<Rightarrow>
                    if (if b0 = 0xF0 then 0x90 \<le> b1 \<and> b1 \<le> 0xBF
                        else if b0 = 0xF4 then 0x80 \<le> b1 \<and> b1 \<le> 0x8F else cont_byte b1)
                       \<and> cont_byte b2 \<and> cont_byte b3
                    then 4 else 1
                | _ \<Rightarrow> 1)
          else 1)"

lemma rune_len_le: "rune_len s \<le> length s"
  by (auto simp: rune_len_def split: list.splits)

lemma rune_len_pos: "s \<noteq> [] \<Longrightarrow> 0 < rune_len s"
  by (cases s) (auto simp: rune_len_def split: list.splits)

lemma rune_len_ascii: "of_char c < (0x80 :: nat) \<Longrightarrow> rune_len (c # s) = 1"
  by (simp add: rune_len_def)

text \<open>The runes of a string, as the byte sequences they occupy.\<close>

function runes :: "string \<Rightarrow> string list" where
  "runes s = (if s = [] then [] else take (rune_len s) s # runes (drop (rune_len s) s))"
  by pat_completeness auto
termination
proof (relation "measure length")
  fix s :: string
  assume "s \<noteq> []"
  then show "(drop (rune_len s) s, s) \<in> measure length" using rune_len_pos[of s] by simp
qed simp

declare runes.simps [simp del]

lemma runes_Nil [simp]: "runes [] = []"
  by (simp add: runes.simps)

lemma concat_runes: "concat (runes s) = s"
  by (induction s rule: runes.induct) (subst runes.simps, simp)

lemma runes_ascii: "of_char c < (0x80 :: nat) \<Longrightarrow> runes (c # s) = [c] # runes s"
  by (subst runes.simps) (simp add: rune_len_ascii)

end
