(* ===== verification/Persist.thy ===== *)
theory Persist
  imports ReportStore Utf8 "HOL-Library.Sublist"
begin

text \<open>
  Finished runs on disk (persist/persist.go), the recovery of runs whose process died before
  it wrote their metadata (persist/recover.go), and the append-only log of diagnoses
  (persist/diagnosis.go).

  A reports directory maps file names to contents. The JSON codec, the CSV reader and
  \<open>time.Parse\<close> are parameters; each write either succeeds or fails at a named call, leaving on
  disk what that call leaves.
\<close>

section \<open>Names\<close>

definition safe_rune :: "string \<Rightarrow> bool" where
  "safe_rune r \<longleftrightarrow>
     (case r of
        [c] \<Rightarrow> byte_in (CHR ''a'') (CHR ''z'') c \<or> byte_in (CHR ''A'') (CHR ''Z'') c \<or> byte_in (CHR ''0'') (CHR ''9'') c
               \<or> c = CHR ''-'' \<or> c = CHR ''_'' \<or> c = CHR ''.''
      | _ \<Rightarrow> False)"

definition sanitize :: "string \<Rightarrow> string" where
  "sanitize s = concat (map (\<lambda>r. if safe_rune r then r else ''_'') (runes s))"

definition csv_name :: "string \<Rightarrow> string" where "csv_name ident = sanitize ident @ ''.csv''"
definition meta_name :: "string \<Rightarrow> string" where "meta_name ident = sanitize ident @ ''.json''"
definition diagnosis_name :: "string \<Rightarrow> string" where "diagnosis_name ident = sanitize ident @ ''.diagnoses.jsonl''"

section \<open>Metadata\<close>

text \<open>The fields of \<open>RunMeta\<close> that the code below reads or computes; \<open>rm_rest\<close> stands for the
  others, which are zero in recovered metadata.\<close>

record 'r run_meta_file =
  rm_ID :: string
  rm_StartedAt :: "int option"
  rm_StoppedAt :: "int option"
  rm_TotalFiles :: int
  rm_TotalBytes :: int
  rm_OverallMBps :: rat
  rm_FailedFiles :: int
  rm_SucceededFiles :: int
  rm_Interrupted :: bool
  rm_rest :: "'r option"

type_synonym directory = "string \<rightharpoonup> string"

datatype write_stage = AtMkdir | AtOpen | AtEncode | AtClose | AtRename

text \<open>\<open>WriteMeta\<close>: the directory afterwards and whether it succeeded. \<open>part\<close> is what an encoder
  that fails leaves in the temporary file, which is then removed.\<close>

definition WriteMeta ::
  "('r run_meta_file \<Rightarrow> string) \<Rightarrow> write_stage option \<Rightarrow> 'r run_meta_file \<Rightarrow> directory \<Rightarrow> directory \<times> bool" where
  "WriteMeta enc fault m dir =
     (let dest = meta_name (rm_ID m); tmp = dest @ ''.tmp'' in
      case fault of
        Some AtMkdir \<Rightarrow> (dir, False)
      | Some AtOpen \<Rightarrow> (dir, False)
      | Some AtEncode \<Rightarrow> (dir(tmp := None), False)
      | Some AtClose \<Rightarrow> (dir(tmp := None), False)
      | Some AtRename \<Rightarrow> (dir(tmp \<mapsto> enc m), False)
      | None \<Rightarrow> (dir(tmp := None, dest \<mapsto> enc m), True))"

text \<open>\<open>ListMeta\<close>: \<open>names\<close> is the order in which the entries reach the sort; equal start times
  stay in that order or any other.\<close>

definition read_meta :: "(string \<Rightarrow> 'r run_meta_file option) \<Rightarrow> directory \<Rightarrow> string \<Rightarrow> 'r run_meta_file option" where
  "read_meta dec dir n =
     (if \<not> has_suffix n ''.json'' \<or> has_suffix n ''.tmp'' then None
      else case dir n of
        None \<Rightarrow> None
      | Some data \<Rightarrow> (case dec data of None \<Rightarrow> None | Some m \<Rightarrow> if rm_ID m = [] then None else Some m))"

definition ListMeta :: "(string \<Rightarrow> 'r run_meta_file option) \<Rightarrow> string list \<Rightarrow> directory \<Rightarrow> 'r run_meta_file list" where
  "ListMeta dec names dir = sort_key (\<lambda>m. - instant (rm_StartedAt m)) (List.map_filter (read_meta dec dir) names)"

section \<open>Recovery\<close>

text \<open>The column of a name in the header: the last one counts.\<close>

definition last_column :: "string \<Rightarrow> string list \<Rightarrow> nat option" where
  "last_column name hdr = foldl (\<lambda>c (i, h). if h = name then Some i else c) None (zip [0..<length hdr] hdr)"

definition field :: "nat option \<Rightarrow> string list \<Rightarrow> string option" where
  "field c row = (case c of Some i \<Rightarrow> if i < length row then Some (row ! i) else None | None \<Rightarrow> None)"

record tally =
  t_files :: int
  t_failed :: int
  t_bytes :: int
  t_earliest :: "int option"
  t_latest :: "int option"

definition no_tally :: tally where
  "no_tally = \<lparr>t_files = 0, t_failed = 0, t_bytes = 0, t_earliest = None, t_latest = None\<rparr>"

definition trailer_row :: "string list \<Rightarrow> bool" where
  "trailer_row row \<longleftrightarrow> row = [] \<or> hd row = [] \<or> has_prefix (hd row) ''#''"

definition tally_row :: "(string \<Rightarrow> int option option) \<Rightarrow> string list \<Rightarrow> string list \<Rightarrow> tally \<Rightarrow> tally" where
  "tally_row parse_time hdr row t =
     t\<lparr>t_files := i64 (t_files t + 1),
       t_bytes := (case Option.bind (field (last_column ''size_bytes'' hdr) row) go_atoi of
                     Some n \<Rightarrow> i64 (t_bytes t + n) | None \<Rightarrow> t_bytes t),
       t_failed := (case field (last_column ''error_code'' hdr) row of
                      Some c \<Rightarrow> if trim_space c \<noteq> [] then i64 (t_failed t + 1) else t_failed t
                    | None \<Rightarrow> t_failed t),
       t_earliest := (case Option.bind (field (last_column ''start_time'' hdr) row) parse_time of
                        Some x \<Rightarrow> if t_earliest t = None \<or> instant x < instant (t_earliest t) then x else t_earliest t
                      | None \<Rightarrow> t_earliest t),
       t_latest := (case Option.bind (field (last_column ''end_time'' hdr) row) parse_time of
                      Some x \<Rightarrow> if instant (t_latest t) < instant x then x else t_latest t
                    | None \<Rightarrow> t_latest t)\<rparr>"

fun tally_rows :: "(string \<Rightarrow> int option option) \<Rightarrow> string list \<Rightarrow> string list list \<Rightarrow> tally \<Rightarrow> tally" where
  "tally_rows parse_time hdr [] t = t"
| "tally_rows parse_time hdr (row # rows) t =
     (if trailer_row row then t else tally_rows parse_time hdr rows (tally_row parse_time hdr row t))"

definition overall :: "int \<Rightarrow> int \<Rightarrow> rat" where
  "overall bytes dur =
     (if 0 < dur then rnd_signed (rnd_signed (rnd_signed (of_int bytes) / 1048576) / seconds dur) else 0)"

text \<open>\<open>rows\<close> are the records the CSV reader yields before its end or its first error.\<close>

definition synthesiseMetaFromCSV ::
  "(string \<Rightarrow> int option option) \<Rightarrow> string \<Rightarrow> string list list \<Rightarrow> 'r run_meta_file option" where
  "synthesiseMetaFromCSV parse_time ident rows =
     (case rows of
        [] \<Rightarrow> None
      | hdr # data \<Rightarrow>
          let t = tally_rows parse_time hdr data no_tally in
          if t_files t = 0 then None
          else let latest = (if t_latest t = None then t_earliest t else t_latest t);
                   dur = time_sub latest (t_earliest t)
               in Some \<lparr>rm_ID = ident, rm_StartedAt = t_earliest t, rm_StoppedAt = latest,
                        rm_TotalFiles = t_files t, rm_TotalBytes = t_bytes t,
                        rm_OverallMBps = overall (t_bytes t) dur, rm_FailedFiles = t_failed t,
                        rm_SucceededFiles = i64 (t_files t - t_failed t), rm_Interrupted = True, rm_rest = None\<rparr>)"

text \<open>The bases of the reports without metadata, in the order of the listing.\<close>

definition csv_bases :: "string list \<Rightarrow> string list" where
  "csv_bases names =
     map (\<lambda>n. trim_suffix n ''.csv'')
       (filter (\<lambda>n. \<not> has_suffix n ''.tmp'' \<and> \<not> has_suffix n ''.json'' \<and> has_suffix n ''.csv'') names)"

definition meta_bases :: "string list \<Rightarrow> string set" where
  "meta_bases names =
     (\<lambda>n. trim_suffix n ''.json'') ` {n \<in> set names. \<not> has_suffix n ''.tmp'' \<and> has_suffix n ''.json''}"

record 'r recovery_env =
  re_enc :: "'r run_meta_file \<Rightarrow> string"
  re_csv :: "string \<Rightarrow> string list list"
  re_time :: "string \<Rightarrow> int option option"
  re_fault :: "string \<Rightarrow> write_stage option"

fun recover_loop :: "'r recovery_env \<Rightarrow> string set \<Rightarrow> string list \<Rightarrow> directory \<Rightarrow> directory \<times> string list" where
  "recover_loop env have [] dir = (dir, [])"
| "recover_loop env have (b # bs) dir =
     (if b \<in> have then recover_loop env have bs dir
      else case Option.bind (dir (b @ ''.csv'')) (\<lambda>data. synthesiseMetaFromCSV (re_time env) b (re_csv env data)) of
        None \<Rightarrow> recover_loop env have bs dir
      | Some m \<Rightarrow>
          case WriteMeta (re_enc env) (re_fault env b) m dir of
            (dir', True) \<Rightarrow> (case recover_loop env have bs dir' of (d, ids) \<Rightarrow> (d, b # ids))
          | (dir', False) \<Rightarrow> recover_loop env have bs dir')"

definition RecoverInterrupted :: "'r recovery_env \<Rightarrow> string list \<Rightarrow> directory \<Rightarrow> directory \<times> string list" where
  "RecoverInterrupted env names dir = recover_loop env (meta_bases names) (csv_bases names) dir"

section \<open>Diagnoses\<close>

text \<open>\<open>dg_rest\<close> stands for the fields that are stored and listed but not looked at.\<close>

record 'x diagnosis =
  dg_ID :: string
  dg_RunID :: string
  dg_GeneratedAt :: "int option"
  dg_rest :: 'x

definition fill_diagnosis :: "int \<Rightarrow> 'x diagnosis \<Rightarrow> 'x diagnosis" where
  "fill_diagnosis now d =
     d\<lparr>dg_ID := (if dg_ID d = [] then ''diag-'' @ go_itoa now else dg_ID d),
       dg_GeneratedAt := (if dg_GeneratedAt d = None then Some now else dg_GeneratedAt d)\<rparr>"

datatype append_fault = NoAppend | Torn nat

text \<open>\<open>AppendDiagnosis\<close> on the bytes of the log: a fault before the write leaves it as it was, a
  torn write leaves some first bytes of the line.\<close>

definition AppendDiagnosis ::
  "('x diagnosis \<Rightarrow> string) \<Rightarrow> append_fault option \<Rightarrow> int \<Rightarrow> 'x diagnosis \<Rightarrow> string \<Rightarrow> string \<times> bool" where
  "AppendDiagnosis enc fault now d journal =
     (let line = enc (fill_diagnosis now d) @ [CHR 10] in
      case fault of
        Some NoAppend \<Rightarrow> (journal, False)
      | Some (Torn k) \<Rightarrow> (journal @ take k line, False)
      | None \<Rightarrow> (journal @ line, True))"

text \<open>The lines the scanner yields with its limit of 2^20 bytes, and whether it ended in error.\<close>

definition max_line :: nat where "max_line = 2 ^ 20"

fun scan_lines :: "string list \<Rightarrow> string list \<times> bool" where
  "scan_lines [] = ([], True)"
| "scan_lines (l # ls) =
     (if max_line \<le> length l then ([], False) else case scan_lines ls of (xs, ok) \<Rightarrow> (l # xs, ok))"

definition list_line :: "(string \<Rightarrow> 'x diagnosis option) \<Rightarrow> string \<Rightarrow> string \<Rightarrow> 'x diagnosis option" where
  "list_line dec runID l =
     (let l = trim_space l in
      if l = [] then None
      else case dec l of
        None \<Rightarrow> None
      | Some d \<Rightarrow> if dg_RunID d \<noteq> [] \<and> dg_RunID d \<noteq> runID then None else Some d)"

definition ListDiagnoses :: "(string \<Rightarrow> 'x diagnosis option) \<Rightarrow> string \<Rightarrow> string \<Rightarrow> 'x diagnosis list \<times> bool" where
  "ListDiagnoses dec runID journal =
     (case scan_lines (split_byte (CHR 10) journal) of
        (ls, ok) \<Rightarrow> (List.map_filter (list_line dec runID) ls, ok))"

definition FindDiagnosis :: "(string \<Rightarrow> 'x diagnosis option) \<Rightarrow> string \<Rightarrow> string \<Rightarrow> string \<Rightarrow> 'x diagnosis option \<times> bool" where
  "FindDiagnosis dec runID diagID journal =
     (case ListDiagnoses dec runID journal of
        (ds, ok) \<Rightarrow> if \<not> ok then (None, False) else (List.find (\<lambda>d. dg_ID d = diagID) ds, True))"


section \<open>What recovery finds in a report\<close>

text \<open>The columns of the report's own header.\<close>

lemma columns:
  "last_column ''start_time'' CSVHeader = Some 4" "last_column ''end_time'' CSVHeader = Some 5"
  "last_column ''size_bytes'' CSVHeader = Some 7" "last_column ''error_code'' CSVHeader = Some 18"
  by code_simp+

lemma row_length: "length (buildRow rfc slow eff r) = 32"
  by (simp add: buildRow_def Let_def split_beta)

lemma row_fields:
  "buildRow rfc slow eff r ! 4 = rfc (f_start r)" "buildRow rfc slow eff r ! 5 = rfc (f_end r)"
  "buildRow rfc slow eff r ! 7 = go_itoa (f_size r)" "buildRow rfc slow eff r ! 18 = f_code r"
  "hd (buildRow rfc slow eff r) = f_user r" "buildRow rfc slow eff r \<noteq> []"
  by (simp_all add: buildRow_def Let_def split_beta)

definition clean_user :: "string \<Rightarrow> bool" where
  "clean_user u \<longleftrightarrow> u \<noteq> [] \<and> \<not> has_prefix u ''#''"

definition past :: "int option \<Rightarrow> bool" where
  "past t \<longleftrightarrow> (case t of None \<Rightarrow> False | Some x \<Rightarrow> zero_instant < x)"

text \<open>A record as the run writes it: a named user, a real start, an end that is unset or real.\<close>

definition plain_record :: "file_record \<Rightarrow> bool" where
  "plain_record r \<longleftrightarrow> clean_user (f_user r) \<and> past (f_start r) \<and> (f_end r = None \<or> past (f_end r)) \<and> in_i64 (f_size r)"

definition has_error :: "file_record \<Rightarrow> bool" where
  "has_error r \<longleftrightarrow> trim_space (f_code r) \<noteq> []"

text \<open>The instants of the records survive being printed and parsed.\<close>

definition times_read :: "(string \<Rightarrow> int option option) \<Rightarrow> (int option \<Rightarrow> string) \<Rightarrow> file_record list \<Rightarrow> bool" where
  "times_read parse_time rfc rs \<longleftrightarrow>
     (\<forall>r \<in> set rs. parse_time (rfc (f_start r)) = Some (f_start r) \<and> parse_time (rfc (f_end r)) = Some (f_end r))"

lemma tally_record:
  assumes "plain_record r" and "times_read parse_time rfc [r]" and "t_earliest t = None \<or> past (t_earliest t)"
  shows "\<not> trailer_row (buildRow rfc slow eff r)"
    and "tally_row parse_time CSVHeader (buildRow rfc slow eff r) t =
      t\<lparr>t_files := i64 (t_files t + 1), t_bytes := i64 (t_bytes t + f_size r),
        t_failed := (if has_error r then i64 (t_failed t + 1) else t_failed t),
        t_earliest := (if t_earliest t = None \<or> instant (f_start r) < instant (t_earliest t) then f_start r else t_earliest t),
        t_latest := (if instant (t_latest t) < instant (f_end r) then f_end r else t_latest t)\<rparr>"
proof -
  show "\<not> trailer_row (buildRow rfc slow eff r)"
    using assms(1) by (simp add: trailer_row_def row_fields plain_record_def clean_user_def)
  have "go_atoi (go_itoa (f_size r)) = Some (f_size r)"
    using assms(1) by (simp add: go_atoi_itoa plain_record_def)
  then show "tally_row parse_time CSVHeader (buildRow rfc slow eff r) t =
      t\<lparr>t_files := i64 (t_files t + 1), t_bytes := i64 (t_bytes t + f_size r),
        t_failed := (if has_error r then i64 (t_failed t + 1) else t_failed t),
        t_earliest := (if t_earliest t = None \<or> instant (f_start r) < instant (t_earliest t) then f_start r else t_earliest t),
        t_latest := (if instant (t_latest t) < instant (f_end r) then f_end r else t_latest t)\<rparr>"
    by (simp add: tally_row_def columns field_def row_length row_fields assms(2)[unfolded times_read_def] has_error_def)
qed

text \<open>The earliest start and the latest end, as the loop keeps them.\<close>

definition starts :: "file_record list \<Rightarrow> int set" where
  "starts rs = {x. \<exists>r \<in> set rs. f_start r = Some x}"

definition ends :: "file_record list \<Rightarrow> int set" where
  "ends rs = {x. \<exists>r \<in> set rs. f_end r = Some x}"

lemma starts_snoc: "starts (rs @ [r]) = (case f_start r of None \<Rightarrow> starts rs | Some x \<Rightarrow> insert x (starts rs))"
  by (auto simp: starts_def split: option.splits)

lemma ends_snoc: "ends (rs @ [r]) = (case f_end r of None \<Rightarrow> ends rs | Some x \<Rightarrow> insert x (ends rs))"
  by (auto simp: ends_def split: option.splits)

lemma finite_starts [simp]: "finite (starts rs)" "finite (ends rs)"
proof -
  have "starts rs \<subseteq> (the \<circ> f_start) ` set rs" "ends rs \<subseteq> (the \<circ> f_end) ` set rs"
    by (force simp: starts_def ends_def)+
  then show "finite (starts rs)" "finite (ends rs)" by (meson List.finite_set finite_imageI finite_subset)+
qed

definition least :: "int set \<Rightarrow> int option" where
  "least A = (if A = {} then None else Some (Min A))"

definition greatest :: "int set \<Rightarrow> int option" where
  "greatest A = (if A = {} then None else Some (Max A))"

definition tallied :: "file_record list \<Rightarrow> tally" where
  "tallied rs = \<lparr>t_files = i64 (int (length rs)), t_failed = i64 (int (length (filter has_error rs))),
     t_bytes = i64 (sum_list (map f_size rs)), t_earliest = least (starts rs), t_latest = greatest (ends rs)\<rparr>"

lemma tallied_Nil: "tallied [] = no_tally"
  by (simp add: tallied_def no_tally_def least_def greatest_def starts_def ends_def i64_def)

lemma tally_snoc:
  assumes rs: "\<forall>r \<in> set (rs @ [r]). plain_record r" and p: "times_read parse_time rfc [r]"
  shows "tally_row parse_time CSVHeader (buildRow rfc slow eff r) (tallied rs) = tallied (rs @ [r])"
proof -
  have S: "\<forall>x \<in> starts rs. zero_instant < x" "\<forall>x \<in> ends rs. zero_instant < x"
    using rs by (auto simp: starts_def ends_def plain_record_def past_def)
  have e: "t_earliest (tallied rs) = None \<or> past (t_earliest (tallied rs))"
    using S(1) by (simp add: tallied_def least_def past_def)
  obtain s where s: "f_start r = Some s" using rs by (auto simp: plain_record_def past_def split: option.splits)
  have E: "f_end r = None \<or> (\<exists>x. f_end r = Some x \<and> zero_instant < x)"
    using rs by (auto simp: plain_record_def past_def split: option.splits)
  have lo: "(if least (starts rs) = None \<or> instant (f_start r) < instant (least (starts rs)) then f_start r else least (starts rs))
      = least (starts (rs @ [r]))"
    by (auto simp: s starts_snoc least_def instant_def min_def simp del: Min_gr_iff Min_ge_iff)
  have hi: "(if instant (greatest (ends rs)) < instant (f_end r) then f_end r else greatest (ends rs)) = greatest (ends (rs @ [r]))"
  proof -
    have g: "zero_instant \<le> instant (greatest (ends rs))"
      using S(2) by (simp add: greatest_def instant_def order.strict_implies_order)
    show ?thesis
    proof (cases "f_end r")
      case None
      with g show ?thesis by (simp add: ends_snoc instant_def)
    next
      case (Some x)
      with E show ?thesis
        by (auto simp: ends_snoc greatest_def instant_def max_def simp del: Max_less_iff Max_le_iff)
    qed
  qed
  have "plain_record r" using rs by simp
  from tally_record(2)[OF this p e] show ?thesis
    using lo hi by (simp add: tallied_def add.commute cong: if_cong)
qed


lemma tally_records:
  assumes "\<forall>r \<in> set (seen @ rs). plain_record r" and "times_read parse_time rfc rs"
    and "trailer = [] \<or> trailer_row (hd trailer)"
  shows "tally_rows parse_time CSVHeader (map (buildRow rfc slow eff) rs @ trailer) (tallied seen) = tallied (seen @ rs)"
  using assms(1,2)
proof (induction rs arbitrary: seen)
  case Nil
  with assms(3) show ?case by (cases trailer) auto
next
  case (Cons r rs)
  then have r: "\<forall>r \<in> set (seen @ [r]). plain_record r" "plain_record r" "times_read parse_time rfc [r]" "times_read parse_time rfc rs"
    by (auto simp: times_read_def)
  have "\<not> trailer_row (buildRow rfc slow eff r)"
    using r(2) by (simp add: trailer_row_def row_fields plain_record_def clean_user_def)
  with tally_snoc[OF r(1,3)] Cons.IH[of "seen @ [r]"] Cons.prems r(4) show ?case by simp
qed

text \<open>C25: Recovery finds in an orphaned report what the run had filed. For a report of records with
  named users and real start times, with or without an analysis trailer behind it, the synthesised
  metadata counts every record, sums their sizes, counts those with an error code as failed, and
  spans from the earliest start to the latest end.\<close>

theorem recovered_counts:
  assumes "rs \<noteq> []" and "int (length rs) < 2 ^ 63" and "\<forall>r \<in> set rs. plain_record r"
    and "times_read parse_time rfc rs" and "trailer = [] \<or> trailer_row (hd trailer)"
  shows "\<exists>m. synthesiseMetaFromCSV parse_time ident (WriteCSV rfc slow eff rs @ trailer) = Some m \<and>
    rm_ID m = ident \<and> rm_Interrupted m \<and> rm_TotalFiles m = int (length rs) \<and>
    rm_TotalBytes m = i64 (\<Sum>r \<leftarrow> rs. f_size r) \<and>
    rm_FailedFiles m = int (length (filter has_error rs)) \<and>
    rm_SucceededFiles m = int (length (filter (\<lambda>r. \<not> has_error r) rs)) \<and>
    rm_StartedAt m = Some (Min (starts rs)) \<and>
    rm_StoppedAt m = (if ends rs = {} then Some (Min (starts rs)) else Some (Max (ends rs)))"
proof -
  let ?rows = "map (buildRow rfc slow eff) rs @ trailer"
  have t: "tally_rows parse_time CSVHeader ?rows no_tally = tallied rs"
    using tally_records[of "[]" rs parse_time rfc trailer slow eff] assms(3-5)
    by (simp add: tallied_Nil)
  have n: "i64 (int (length rs)) = int (length rs)" "int (length rs) \<noteq> 0"
    using assms(1,2) by (auto intro: i64_id simp: in_i64_def)
  have f: "length (filter has_error rs) + length (filter (\<lambda>r. \<not> has_error r) rs) = length rs"
    by (rule sum_length_filter_compl)
  then have i: "i64 (int (length (filter has_error rs))) = int (length (filter has_error rs))"
    "i64 (int (length rs) - int (length (filter has_error rs))) = int (length (filter (\<lambda>r. \<not> has_error r) rs))"
    using assms(2) by (auto intro!: trans[OF i64_id] simp: in_i64_def)
  obtain r where "r \<in> set rs" using assms(1) by (meson last_in_set)
  then have st: "starts rs \<noteq> {}"
    using assms(3) by (fastforce simp: starts_def plain_record_def past_def split: option.splits)
  show ?thesis
    by (simp add: synthesiseMetaFromCSV_def WriteCSV_def t Let_def)
      (simp add: tallied_def n i least_def greatest_def st assms(1))
qed

definition demo_file :: file_record where
  "demo_file = \<lparr>f_user = ''u'', f_kind = ''normal'', f_name = ''a'', f_start = Some 5, f_end = Some 9, f_size = 7,
     f_expected = 7, f_incomplete = False, f_speed = 0, f_trackid = [], f_trackid_at = None, f_trackid_wait = 0,
     f_slow = False, f_error = [], f_code = [], f_marker = [], f_dl_user = [], f_dl_avail = None, f_dl_start = None,
     f_dl_end = None, f_dl_size = 0, f_dl_speed = 0, f_dl_wait = 0, f_dl_error = [], f_up_sha = [], f_dl_sha = [],
     f_match = False\<rparr>"

definition demo_show_time :: "int option \<Rightarrow> string" where
  "demo_show_time t = (case t of None \<Rightarrow> ''z'' | Some n \<Rightarrow> go_itoa n)"

definition demo_parse_time :: "string \<Rightarrow> int option option" where
  "demo_parse_time s = (if s = ''z'' then Some None else map_option Some (go_atoi s))"

definition demo_rows :: "string list list" where
  "demo_rows = WriteCSV demo_show_time (\<lambda>m. False) None
     [demo_file, demo_file\<lparr>f_start := Some 2, f_end := None, f_code := ''DIAL''\<rparr>] @ [[''# RUN ANALYSIS''], [''u'']]"

theorem recovered_counts_witness:
  "(case synthesiseMetaFromCSV demo_parse_time ''run-1'' demo_rows of
      Some m \<Rightarrow> [rm_TotalFiles m, rm_TotalBytes m, rm_FailedFiles m, rm_SucceededFiles m] = [2, 14, 1, 1] \<and>
        rm_StartedAt m = Some 2 \<and> rm_StoppedAt (m :: unit run_meta_file) = Some 9
    | None \<Rightarrow> False)"
proof -
  let ?rs = "[demo_file, demo_file\<lparr>f_start := Some 2, f_end := None, f_code := ''DIAL''\<rparr>]"
  have p: "\<forall>r \<in> set ?rs. plain_record r"
    by (simp add: plain_record_def demo_file_def clean_user_def has_prefix_def past_def zero_instant_def second_def in_i64_def)
  have t: "times_read demo_parse_time demo_show_time ?rs"
    by (simp add: times_read_def) code_simp
  have x: "trailer_row (hd [[''# RUN ANALYSIS''], [''u'']])" by code_simp
  have c: "length (filter has_error ?rs) = 1" "length (filter (\<lambda>r. \<not> has_error r) ?rs) = 1"
    "i64 (\<Sum>r \<leftarrow> ?rs. f_size r) = 14" by code_simp+
  have m: "starts ?rs = {5, 2}" "ends ?rs = {9}" by (auto simp: starts_def ends_def demo_file_def)
  have e: "int (length ?rs) < 2 ^ 63" by simp
  obtain mt :: "unit run_meta_file" where "synthesiseMetaFromCSV demo_parse_time ''run-1'' demo_rows = Some mt"
    "[rm_TotalFiles mt, rm_TotalBytes mt, rm_FailedFiles mt, rm_SucceededFiles mt] = [2, 14, 1, 1]"
    "rm_StartedAt mt = Some 2" "rm_StoppedAt mt = Some 9"
    using recovered_counts[OF list.distinct(2) e p t disjI2[OF x], of "''run-1''" "\<lambda>m. False" None]
    unfolding demo_rows_def c m by auto
  then show ?thesis by simp
qed


section \<open>Recovery settles a directory\<close>

text \<open>What recovery would file for a base name.\<close>

definition recoverable :: "'r recovery_env \<Rightarrow> directory \<Rightarrow> string \<Rightarrow> 'r run_meta_file option" where
  "recoverable env dir b =
     Option.bind (dir (b @ ''.csv'')) (\<lambda>data. synthesiseMetaFromCSV (re_time env) b (re_csv env data))"

lemma synthesised_ID: "synthesiseMetaFromCSV pt ident rows = Some m \<Longrightarrow> rm_ID m = ident"
  by (auto simp: synthesiseMetaFromCSV_def Let_def split: list.splits if_splits)

lemma recoverable_ID: "recoverable env dir b = Some m \<Longrightarrow> rm_ID m = b"
  by (auto simp: recoverable_def bind_eq_Some_conv dest: synthesised_ID)

text \<open>Names with different suffixes differ.\<close>

lemma suffix_names:
  "b @ ''.json'' \<noteq> c @ ''.csv''" "b @ ''.json.tmp'' \<noteq> c @ ''.csv''" "b @ ''.json.tmp'' \<noteq> c @ ''.json''"
  "c @ ''.csv'' \<noteq> b @ ''.json''" "c @ ''.csv'' \<noteq> b @ ''.json.tmp''" "c @ ''.json'' \<noteq> b @ ''.json.tmp''"
  by (auto dest: arg_cong[where f = rev])

definition written :: "'r recovery_env \<Rightarrow> string set \<Rightarrow> directory \<Rightarrow> string \<Rightarrow> bool" where
  "written env have dir b \<longleftrightarrow> b \<notin> have \<and> recoverable env dir b \<noteq> None \<and> re_fault env b = None"

definition is_temp :: "string \<Rightarrow> bool" where
  "is_temp n \<longleftrightarrow> has_suffix n ''.json.tmp''"

text \<open>A write of metadata touches its own file and a temporary one.\<close>

lemma WriteMeta_effect:
  assumes "WriteMeta enc fault m dir = (dir', ok)" and "sanitize (rm_ID m) = rm_ID m"
  shows "ok \<longleftrightarrow> fault = None"
    and "\<not> is_temp n \<Longrightarrow> dir' n = (if ok \<and> n = rm_ID m @ ''.json'' then Some (enc m) else dir n)"
proof -
  show "ok \<longleftrightarrow> fault = None"
    using assms(1) by (auto simp: WriteMeta_def Let_def split: option.splits write_stage.splits)
  assume "\<not> is_temp n"
  then have "n \<noteq> rm_ID m @ ''.json.tmp''" by (auto simp: is_temp_def has_suffix_iff)
  then show "dir' n = (if ok \<and> n = rm_ID m @ ''.json'' then Some (enc m) else dir n)"
    using assms by (auto simp: WriteMeta_def meta_name_def Let_def split: option.splits write_stage.splits)
qed

lemma csv_not_temp: "\<not> is_temp (b @ ''.csv'')" and json_not_temp: "\<not> is_temp (b @ ''.json'')"
  using suffix_names by (auto simp: is_temp_def has_suffix_iff)

lemma recover_loop_result:
  "recover_loop env have bs dir = (dir', ids) \<Longrightarrow> (\<forall>b \<in> set bs. sanitize b = b) \<Longrightarrow>
    ids = filter (written env have dir) bs \<and>
    (\<forall>n. \<not> is_temp n \<longrightarrow> n \<notin> (\<lambda>b. b @ ''.json'') ` set ids \<longrightarrow> dir' n = dir n) \<and>
    (\<forall>b \<in> set ids. dir' (b @ ''.json'') = map_option (re_enc env) (recoverable env dir b))"
proof (induction bs arbitrary: dir dir' ids)
  case (Cons b bs)
  note step = Cons.prems(1)
  have safe: "\<forall>b \<in> set bs. sanitize b = b" "sanitize b = b" using Cons.prems(2) by simp_all
  show ?case
  proof (cases "b \<in> have \<or> recoverable env dir b = None")
    case True
    then have "recover_loop env have bs dir = (dir', ids)"
      using step by (auto simp: recoverable_def split: option.splits)
    from Cons.IH[OF this safe(1)] True show ?thesis by (auto simp: written_def)
  next
    case False
    then obtain m where m: "recoverable env dir b = Some m" "b \<notin> have" by auto
    have id: "rm_ID m = b" by (rule recoverable_ID[OF m(1)])
    obtain d ok where w: "WriteMeta (re_enc env) (re_fault env b) m dir = (d, ok)" by fastforce
    note eff = WriteMeta_effect[OF w, unfolded id, OF safe(2)]
    have csv: "recoverable env d c = recoverable env dir c" for c
      using eff(2)[OF csv_not_temp, of c] by (simp add: recoverable_def suffix_names)
    then have wr: "written env have d = written env have dir" by (simp add: written_def fun_eq_iff)
    obtain ids' where ids': "recover_loop env have bs d = (dir', ids')" "ids = (if ok then b # ids' else ids')"
      using step m w by (cases ok) (auto simp: recoverable_def split: prod.splits)
    note IH = Cons.IH[OF ids'(1) safe(1), unfolded wr csv]
    have bw: "written env have dir b \<longleftrightarrow> ok" using m eff(1) by (simp add: written_def)
    show ?thesis
    proof (intro conjI allI impI ballI)
      show "ids = filter (written env have dir) (b # bs)" using IH ids'(2) bw by simp
    next
      fix n assume n: "\<not> is_temp n" "n \<notin> (\<lambda>b. b @ ''.json'') ` set ids"
      then have "dir' n = d n" using IH ids'(2) by (auto split: if_splits)
      with eff(2)[OF n(1)] n(2) ids'(2) show "dir' n = dir n" by auto
    next
      fix c assume c: "c \<in> set ids"
      show "dir' (c @ ''.json'') = map_option (re_enc env) (recoverable env dir c)"
      proof (cases "c \<in> set ids'")
        case True
        with IH show ?thesis by blast
      next
        case False
        with c ids'(2) have "ok" "c = b" by (auto split: if_splits)
        moreover have "dir' (c @ ''.json'') = d (c @ ''.json'')" using IH False json_not_temp[of c] by auto
        ultimately show ?thesis using eff(2)[OF json_not_temp, of c] m(1) by simp
      qed
    qed
  qed
qed simp

lemma meta_bases_iff: "b \<in> meta_bases names \<longleftrightarrow> b @ ''.json'' \<in> set names"
proof
  assume "b \<in> meta_bases names"
  then show "b @ ''.json'' \<in> set names" by (auto simp: meta_bases_def has_suffix_iff)
next
  assume "b @ ''.json'' \<in> set names"
  moreover have "\<not> has_suffix (b @ ''.json'') ''.tmp''" by (auto simp: has_suffix_iff dest: arg_cong[where f = rev])
  moreover have "has_suffix (b @ ''.json'') ''.json''" by (auto simp: has_suffix_iff)
  ultimately have "b @ ''.json'' \<in> {n \<in> set names. \<not> has_suffix n ''.tmp'' \<and> has_suffix n ''.json''}" by simp
  then have "trim_suffix (b @ ''.json'') ''.json'' \<in> meta_bases names" unfolding meta_bases_def by (rule imageI)
  then show "b \<in> meta_bases names" by simp
qed

lemma csv_bases_iff: "b \<in> set (csv_bases names) \<longleftrightarrow> b @ ''.csv'' \<in> set names"
proof
  assume "b \<in> set (csv_bases names)"
  then show "b @ ''.csv'' \<in> set names" by (auto simp: csv_bases_def has_suffix_iff)
next
  assume b: "b @ ''.csv'' \<in> set names"
  have "\<not> has_suffix (b @ ''.csv'') ''.tmp''" "\<not> has_suffix (b @ ''.csv'') ''.json''" "has_suffix (b @ ''.csv'') ''.csv''"
    by (auto simp: has_suffix_iff dest: arg_cong[where f = rev])
  with b have "trim_suffix (b @ ''.csv'') ''.csv'' \<in> set (csv_bases names)" unfolding csv_bases_def by force
  then show "b \<in> set (csv_bases names)" by simp
qed

text \<open>C26: Recovery files exactly the reports that lack metadata and hold at least one data row, and
  whose metadata could be written: their metadata is on disk afterwards, every other file is
  untouched, and running recovery again recovers only those whose write had failed.\<close>

theorem recovery_settles:
  assumes "enumerates names dir" and "\<forall>b \<in> set (csv_bases names). sanitize b = b"
    and "RecoverInterrupted env names dir = (dir', ids)" and "enumerates names' dir'"
  shows "ids = filter (\<lambda>b. dir (b @ ''.json'') = None \<and> recoverable env dir b \<noteq> None \<and> re_fault env b = None) (csv_bases names) \<and>
    (\<forall>b \<in> set ids. dir' (b @ ''.json'') = map_option (re_enc env) (recoverable env dir b)) \<and>
    (\<forall>n. \<not> is_temp n \<longrightarrow> n \<notin> (\<lambda>b. b @ ''.json'') ` set ids \<longrightarrow> dir' n = dir n) \<and>
    set (snd (RecoverInterrupted (env\<lparr>re_fault := f\<rparr>) names' dir')) \<subseteq> {b. re_fault env b \<noteq> None}"
proof -
  have have_iff: "b \<notin> meta_bases names \<longleftrightarrow> dir (b @ ''.json'') = None" for b
    using assms(1) by (auto simp: meta_bases_iff enumerates_def dom_def)
  have w: "written env (meta_bases names) dir =
      (\<lambda>b. dir (b @ ''.json'') = None \<and> recoverable env dir b \<noteq> None \<and> re_fault env b = None)"
    by (simp add: fun_eq_iff written_def have_iff)
  note r = recover_loop_result[OF assms(3)[unfolded RecoverInterrupted_def] assms(2), unfolded w]
  have csv: "dir' (b @ ''.csv'') = dir (b @ ''.csv'')" for b
    using r csv_not_temp[of b] suffix_names by blast
  then have csv_same: "set (csv_bases names') = set (csv_bases names)"
    using assms(1,4) by (auto simp: set_eq_iff csv_bases_iff enumerates_def dom_def)
  let ?env = "env\<lparr>re_fault := f\<rparr>"
  obtain d2 ids2 where second: "RecoverInterrupted ?env names' dir' = (d2, ids2)" by fastforce
  have "\<forall>b \<in> set (csv_bases names'). sanitize b = b" using assms(2) csv_same by simp
  from recover_loop_result[OF second[unfolded RecoverInterrupted_def] this]
  have i2: "set ids2 \<subseteq> {b \<in> set (csv_bases names). dir' (b @ ''.json'') = None \<and> recoverable env dir b \<noteq> None}"
    using assms(4) csv_same by (auto simp: written_def meta_bases_iff enumerates_def dom_def recoverable_def csv)
  have "re_fault env b \<noteq> None" if "b \<in> set ids2" for b
  proof
    assume no: "re_fault env b = None"
    have b: "b \<in> set (csv_bases names)" "dir' (b @ ''.json'') = None" "recoverable env dir b \<noteq> None"
      using that i2 by blast+
    show False
    proof (cases "b \<in> set ids")
      case True
      with r have "dir' (b @ ''.json'') = map_option (re_enc env) (recoverable env dir b)" by blast
      with b(2,3) show False by simp
    next
      case False
      then have "dir' (b @ ''.json'') = dir (b @ ''.json'')" using r json_not_temp[of b] by auto
      with b r no False show False by auto
    qed
  qed
  with r second show ?thesis by auto
qed

definition demo_recovery :: "unit recovery_env" where
  "demo_recovery = \<lparr>re_enc = (\<lambda>m. rm_ID m @ go_itoa (rm_TotalFiles m)), re_csv = (\<lambda>data. [[''user''], [data]]),
     re_time = (\<lambda>s. None), re_fault = (\<lambda>b. None)\<rparr>"

definition demo_names :: "string list" where
  "demo_names = [''r1.csv'', ''r2.csv'', ''r2.json'', ''r3.csv'']"

definition demo_reports :: directory where
  "demo_reports = [''r1.csv'' \<mapsto> ''u'', ''r2.csv'' \<mapsto> ''u'', ''r2.json'' \<mapsto> ''m'', ''r3.csv'' \<mapsto> []]"

lemma demo_reports_names: "enumerates demo_names demo_reports"
  by (auto simp: enumerates_def demo_reports_def demo_names_def)

lemma demo_recovery_run: "RecoverInterrupted demo_recovery demo_names demo_reports =
    (demo_reports(''r1.json.tmp'' := None, ''r1.json'' \<mapsto> ''r11''), [''r1''])"
proof -
  have h: "meta_bases demo_names = {''r2''}"
    by (auto simp: set_eq_iff meta_bases_iff demo_names_def dest: arg_cong[where f = rev])
  have c: "csv_bases demo_names = [''r1'', ''r2'', ''r3'']" by code_simp
  have s: "synthesiseMetaFromCSV (\<lambda>s. None) ''r1'' [[''user''], [''u'']] =
      Some (\<lparr>rm_ID = ''r1'', rm_StartedAt = None, rm_StoppedAt = None, rm_TotalFiles = 1, rm_TotalBytes = 0, rm_OverallMBps = 0,
        rm_FailedFiles = 0, rm_SucceededFiles = 1, rm_Interrupted = True, rm_rest = None\<rparr> :: unit run_meta_file)"
    "synthesiseMetaFromCSV (\<lambda>s. None) ''r3'' [[''user''], [[]]] = (None :: unit run_meta_file option)"
    by code_simp+
  have f: "sanitize ''r1'' = ''r1''" "go_itoa 1 = ''1''" by code_simp+
  show ?thesis
    by (simp add: RecoverInterrupted_def h c demo_recovery_def demo_reports_def s WriteMeta_def meta_name_def f)
qed

theorem recovery_settles_witness:
  "snd (RecoverInterrupted demo_recovery [''r1.csv'', ''r2.csv'', ''r2.json'', ''r3.csv'', ''r1.json'']
      (demo_reports(''r1.json.tmp'' := None, ''r1.json'' \<mapsto> ''r11''))) = []"
proof -
  have e: "enumerates [''r1.csv'', ''r2.csv'', ''r2.json'', ''r3.csv'', ''r1.json'']
      (demo_reports(''r1.json.tmp'' := None, ''r1.json'' \<mapsto> ''r11''))"
    by (auto simp: enumerates_def demo_reports_def)
  have s: "\<forall>b \<in> set (csv_bases demo_names). sanitize b = b" by code_simp
  have r: "demo_recovery\<lparr>re_fault := \<lambda>b. None\<rparr> = demo_recovery" and n: "{b. re_fault demo_recovery b \<noteq> None} = {}"
    by (simp_all add: demo_recovery_def)
  have "set (snd (RecoverInterrupted (demo_recovery\<lparr>re_fault := \<lambda>b. None\<rparr>)
      [''r1.csv'', ''r2.csv'', ''r2.json'', ''r3.csv'', ''r1.json''] (demo_reports(''r1.json.tmp'' := None, ''r1.json'' \<mapsto> ''r11'')))) \<subseteq>
      {b. re_fault demo_recovery b \<noteq> None}"
    by (rule recovery_settles[OF demo_reports_names s demo_recovery_run e, THEN conjunct2, THEN conjunct2, THEN conjunct2])
  then show ?thesis unfolding r n by simp
qed

section \<open>The log of diagnoses\<close>

type_synonym 'x append = "int \<times> 'x diagnosis \<times> append_fault option"

fun appends :: "('x diagnosis \<Rightarrow> string) \<Rightarrow> 'x append list \<Rightarrow> string \<Rightarrow> string" where
  "appends enc [] journal = journal"
| "appends enc ((now, d, fault) # es) journal = appends enc es (fst (AppendDiagnosis enc fault now d journal))"

text \<open>The diagnoses that survive: those appended without fault, except the first one after a torn
  write. \<open>dirty\<close> tells whether the log ends in a torn line.\<close>

fun kept :: "bool \<Rightarrow> 'x append list \<Rightarrow> 'x diagnosis list" where
  "kept dirty [] = []"
| "kept dirty ((now, d, fault) # es) =
     (case fault of
        None \<Rightarrow> (if dirty then kept False es else fill_diagnosis now d # kept False es)
      | Some NoAppend \<Rightarrow> kept dirty es
      | Some (Torn k) \<Rightarrow> kept (dirty \<or> 0 < k) es)"

text \<open>Torn pieces: proper prefixes of encodings, one after another on one line.\<close>

inductive torn :: "string set \<Rightarrow> string \<Rightarrow> bool" for E where
  torn_one: "e \<in> E \<Longrightarrow> 0 < k \<Longrightarrow> k < length e \<Longrightarrow> torn E (take k e)"
| torn_more: "torn E t \<Longrightarrow> e \<in> E \<Longrightarrow> 0 < k \<Longrightarrow> k < length e \<Longrightarrow> torn E (t @ take k e)"

text \<open>What the log needs of the codec on the diagnoses it holds: an encoding is one line without
  surrounding space and decodes to its diagnosis, and torn text never decodes, alone or with an
  encoding behind it.\<close>

definition codec_ok :: "('x diagnosis \<Rightarrow> string) \<Rightarrow> (string \<Rightarrow> 'x diagnosis option) \<Rightarrow> 'x diagnosis set \<Rightarrow> bool" where
  "codec_ok enc dec D \<longleftrightarrow>
     (\<forall>d \<in> D. dec (enc d) = Some d \<and> CHR 10 \<notin> set (enc d) \<and> trim_space (enc d) = enc d \<and> enc d \<noteq> []) \<and>
     (\<forall>t. torn (enc ` D) t \<longrightarrow> dec (trim_space t) = None \<and> (\<forall>d \<in> D. dec (trim_space (t @ enc d)) = None))"

definition appended :: "'x append list \<Rightarrow> 'x diagnosis set" where
  "appended es = (\<lambda>(now, d, _). fill_diagnosis now d) ` set es"

definition proper_fault :: "('x diagnosis \<Rightarrow> string) \<Rightarrow> 'x append \<Rightarrow> bool" where
  "proper_fault enc = (\<lambda>(now, d, fault). case fault of Some (Torn k) \<Rightarrow> k < length (enc (fill_diagnosis now d)) | _ \<Rightarrow> True)"

lemma codecD:
  assumes "codec_ok enc dec D" "d \<in> D"
  shows "dec (enc d) = Some d" "CHR 10 \<notin> set (enc d)" "trim_space (enc d) = enc d" "enc d \<noteq> []"
  using assms by (auto simp: codec_ok_def)

lemma torn_no_newline: "torn E t \<Longrightarrow> \<forall>e \<in> E. c \<notin> set e \<Longrightarrow> c \<notin> set t"
  by (induction rule: torn.induct) (auto dest: in_set_takeD)

lemma line_kept:
  assumes "codec_ok enc dec D" "d \<in> D" "dg_RunID d = runID"
  shows "list_line dec runID (enc d) = Some d"
  using codecD[OF assms(1,2)] assms(3) by (simp add: list_line_def)

lemma line_torn:
  assumes "codec_ok enc dec D" "torn (enc ` D) t"
  shows "list_line dec runID t = None" "d \<in> D \<Longrightarrow> list_line dec runID (t @ enc d) = None"
  using assms by (auto simp: list_line_def codec_ok_def Let_def)

text \<open>The lines of a log that ends in the text \<open>t\<close>.\<close>

definition listed :: "(string \<Rightarrow> 'x diagnosis option) \<Rightarrow> string \<Rightarrow> string \<Rightarrow> 'x diagnosis list" where
  "listed dec runID journal = List.map_filter (list_line dec runID) (split_byte (CHR 10) journal)"

lemma listed_line: "CHR 10 \<notin> set l \<Longrightarrow>
    listed dec runID (l @ CHR 10 # rest) = (case list_line dec runID l of None \<Rightarrow> [] | Some d \<Rightarrow> [d]) @ listed dec runID rest"
  by (simp add: listed_def split_byte_append List.map_filter_def split: option.split)

lemma listed_last: "CHR 10 \<notin> set l \<Longrightarrow> listed dec runID l = (case list_line dec runID l of None \<Rightarrow> [] | Some d \<Rightarrow> [d])"
  by (simp add: listed_def split_byte_none List.map_filter_def split: option.split)

lemma list_line_empty [simp]: "list_line dec runID [] = None"
proof -
  have "trim_space [] = []" by code_simp
  then show ?thesis by (simp add: list_line_def)
qed

lemma appends_prefix: "appends enc es (journal @ t) = journal @ appends enc es t"
  by (induction es arbitrary: t) (auto simp: AppendDiagnosis_def Let_def split: option.split append_fault.split)

lemma appends_listed:
  assumes "codec_ok enc dec D" and "appended es \<subseteq> D" and "\<forall>e \<in> set es. proper_fault enc e" and "\<forall>d \<in> appended es. dg_RunID d = runID"
    and "t = [] \<or> torn (enc ` D) t"
  shows "listed dec runID (appends enc es t) = kept (t \<noteq> []) es"
  using assms(2-5)
proof (induction es arbitrary: t)
  case Nil
  have "CHR 10 \<notin> set t" using Nil(4) torn_no_newline codecD(2)[OF assms(1)] by (auto simp: torn_no_newline)
  with Nil(4) line_torn(1)[OF assms(1)] show ?case by (auto simp: listed_last)
next
  case (Cons e es)
  obtain now d fault where e: "e = (now, d, fault)" by (cases e)
  let ?d = "fill_diagnosis now d"
  have d: "?d \<in> D" "dg_RunID ?d = runID" using Cons.prems(1,3) by (auto simp: e appended_def)
  have rest: "appended es \<subseteq> D" "\<forall>e \<in> set es. proper_fault enc e" "\<forall>d \<in> appended es. dg_RunID d = runID"
    using Cons.prems(1-3) by (auto simp: appended_def)
  note IH = Cons.IH[OF rest]
  have nl: "CHR 10 \<notin> set (t @ enc ?d)"
    using Cons.prems(4) codecD(2)[OF assms(1)] d(1) torn_no_newline by fastforce
  show ?case
  proof (cases fault)
    case None
    have "appends enc (e # es) t = (t @ enc ?d) @ CHR 10 # appends enc es []"
      using appends_prefix[of enc es "t @ enc ?d @ [CHR 10]" "[]"] by (simp add: e None AppendDiagnosis_def)
    then have "listed dec runID (appends enc (e # es) t) =
        (case list_line dec runID (t @ enc ?d) of None \<Rightarrow> [] | Some d \<Rightarrow> [d]) @ kept False es"
      using listed_line[OF nl, of dec runID "appends enc es []"] IH[of "[]"] by simp
    with Cons.prems(4) line_kept[OF assms(1) d] line_torn(2)[OF assms(1) _ d(1)] show ?thesis
      by (auto simp: e None)
  next
    case (Some f)
    show ?thesis
    proof (cases f)
      case NoAppend
      with Some IH[OF Cons.prems(4)] show ?thesis by (simp add: e AppendDiagnosis_def)
    next
      case (Torn k)
      with Some Cons.prems(2) have k: "k < length (enc ?d)" by (simp add: e proper_fault_def)
      then have a: "appends enc (e # es) t = appends enc es (t @ take k (enc ?d))"
        by (simp add: e Some Torn AppendDiagnosis_def Let_def)
      show ?thesis
      proof (cases "k = 0")
        case True
        with a IH[OF Cons.prems(4)] show ?thesis by (simp add: e Some Torn)
      next
        case False
        have "torn (enc ` D) (t @ take k (enc ?d))"
          using Cons.prems(4) k False d(1) torn_one[where e = "enc ?d"] torn_more[where e = "enc ?d"] by auto
        moreover have "t @ take k (enc ?d) \<noteq> []" using False k by auto
        ultimately show ?thesis using IH[OF disjI2, of "t @ take k (enc ?d)"] a False by (simp add: e Some Torn)
      qed
    qed
  qed
qed

lemma scan_short: "\<forall>l \<in> set ls. length l < max_line \<Longrightarrow> scan_lines ls = (ls, True)"
  by (induction ls) auto

text \<open>C27: The log of diagnoses loses nothing but what a torn write damages. After any sequence of
  appends, each complete, failed before it wrote, or torn in the middle of its line, listing the
  log yields in order exactly the diagnoses whose append succeeded, except the first append after
  a torn one: it lands on the torn line and is lost although its append reported success.\<close>

theorem diagnosis_log:
  assumes "codec_ok enc dec (appended es)" and "\<forall>e \<in> set es. proper_fault enc e"
    and "\<forall>d \<in> appended es. dg_RunID d = runID"
    and "\<forall>l \<in> set (split_byte (CHR 10) (appends enc es [])). length l < max_line"
  shows "ListDiagnoses dec runID (appends enc es []) = (kept False es, True)"
  using appends_listed[OF assms(1) order_refl assms(2,3), of "[]"] scan_short[OF assms(4)]
  by (simp add: ListDiagnoses_def listed_def)

definition demo_diagnosis :: "unit diagnosis" where
  "demo_diagnosis = \<lparr>dg_ID = ''d'', dg_RunID = ''r'', dg_GeneratedAt = Some 1, dg_rest = ()\<rparr>"

definition demo_enc :: "unit diagnosis \<Rightarrow> string" where "demo_enc d = ''{A}''"
definition demo_dec :: "string \<Rightarrow> unit diagnosis option" where
  "demo_dec s = (if s = ''{A}'' then Some demo_diagnosis else None)"

definition demo_appends :: "unit append list" where
  "demo_appends = [(0, demo_diagnosis, None), (0, demo_diagnosis, Some (Torn 2)), (0, demo_diagnosis, None), (0, demo_diagnosis, None)]"

lemma demo_torn: "torn {''{A}''} t \<Longrightarrow> t \<noteq> [] \<and> hd t = CHR ''{'' \<and> set t \<subseteq> {CHR ''{'', CHR ''A''}"
proof (induction rule: torn.induct)
  case (torn_one e k)
  then have "k = 1 \<or> k = 2" by auto
  with torn_one show ?case by auto
next
  case (torn_more t e k)
  then have "k = 1 \<or> k = 2" by auto
  with torn_more show ?case by auto
qed

lemma demo_trim: "trim_space (t @ ''{A}'') = t @ ''{A}''" if "torn {''{A}''} t"
proof (rule trim_space_plain)
  have h: "hd (t @ ''{A}'') = CHR ''{''" "last (t @ ''{A}'') = CHR ''}''" using demo_torn[OF that] by simp_all
  show "list_all (\<lambda>q. hd q \<noteq> hd (t @ ''{A}'')) space_seqs" "list_all (\<lambda>q. last q \<noteq> last (t @ ''{A}'')) space_seqs"
    unfolding h by (simp_all add: space_seqs_def)
qed simp

lemma demo_appended: "appended demo_appends = {demo_diagnosis}"
  by (simp add: appended_def demo_appends_def fill_diagnosis_def demo_diagnosis_def)

lemma demo_codec: "codec_ok demo_enc demo_dec {demo_diagnosis}"
proof -
  have t: "trim_space ''{A}'' = ''{A}''" by code_simp
  have "demo_dec (trim_space t) = None \<and> demo_dec (trim_space (t @ ''{A}'')) = None" if "torn {''{A}''} t" for t
  proof -
    have "CHR ''}'' \<notin> set (trim_space t)" using demo_torn[OF that] set_trim_space[of t] by auto
    then have "trim_space t \<noteq> ''{A}''" by auto
    moreover have "t @ ''{A}'' \<noteq> ''{A}''" using demo_torn[OF that] by simp
    ultimately show ?thesis by (simp add: demo_dec_def demo_trim[OF that])
  qed
  with t show ?thesis by (simp add: codec_ok_def demo_enc_def) (simp add: demo_dec_def)
qed

theorem diagnosis_log_witness:
  "ListDiagnoses demo_dec ''r'' (''{A}'' @ [CHR 10] @ ''{A{A}'' @ [CHR 10] @ ''{A}'' @ [CHR 10]) =
    ([demo_diagnosis, demo_diagnosis], True)"
proof -
  have j: "appends demo_enc demo_appends [] = ''{A}'' @ [CHR 10] @ ''{A{A}'' @ [CHR 10] @ ''{A}'' @ [CHR 10]"
    by (simp add: demo_appends_def AppendDiagnosis_def demo_enc_def)
  have k: "kept False demo_appends = [demo_diagnosis, demo_diagnosis]"
    by (simp add: demo_appends_def fill_diagnosis_def demo_diagnosis_def)
  have f: "\<forall>e \<in> set demo_appends. proper_fault demo_enc e"
    by (simp add: demo_appends_def proper_fault_def demo_enc_def)
  have r: "\<forall>d \<in> appended demo_appends. dg_RunID d = ''r''" by (simp add: demo_appended demo_diagnosis_def)
  have l: "\<forall>l \<in> set (split_byte (CHR 10) (appends demo_enc demo_appends [])). length l < max_line"
  proof -
    have s: "split_byte (CHR 10) (''{A}'' @ [CHR 10] @ ''{A{A}'' @ [CHR 10] @ ''{A}'' @ [CHR 10]) = [''{A}'', ''{A{A}'', ''{A}'', []]"
      by code_simp
    show ?thesis unfolding j s by (simp add: max_line_def)
  qed
  show ?thesis
    using diagnosis_log[OF demo_codec[folded demo_appended] f r l] unfolding j k .
qed

end
