(* ===== verification/Vault.thy ===== *)
theory Vault
  imports GoStrings "HOL-Library.Word" "HOL-Library.List_Lexorder" "HOL-Library.Char_ord"
begin

text \<open>
  The encrypted secret store (vault/vault.go) and the process-wide binding of the unlocked vault
  (web/vault_handlers.go): the file format byte by byte, opening with its checks in order,
  saving through a temporary file, and the operations on an unlocked vault.

  The cryptography is third-party: key derivation, sealing and opening of the ciphertext and the
  JSON codec of the payload are the fields of \<open>crypto\<close>; what the store relies on is stated by
  \<open>crypto_ok\<close>. Random bytes, the clock and the failing call of a save are arguments.
\<close>

section \<open>Payload and parameters\<close>

record payload =
  p_Version :: int
  p_Created :: int
  p_Updated :: int
  p_Secrets :: "string \<rightharpoonup> string"

record vault =
  v_path :: string
  v_pass :: string
  v_secrets :: "string \<rightharpoonup> string"
  v_created :: int
  v_updated :: int
  v_memKiB :: "32 word"
  v_iterations :: "32 word"
  v_threads :: "8 word"

text \<open>\<open>kdf\<close> panics on parameters out of range, which is None.\<close>

record crypto =
  kdf :: "string \<Rightarrow> string \<Rightarrow> 32 word \<Rightarrow> 32 word \<Rightarrow> 8 word \<Rightarrow> string option"
  seal :: "string \<Rightarrow> string \<Rightarrow> string \<Rightarrow> string \<Rightarrow> string"
  unseal :: "string \<Rightarrow> string \<Rightarrow> string \<Rightarrow> string \<Rightarrow> string option"
  encode_payload :: "payload \<Rightarrow> string"
  decode_payload :: "string \<Rightarrow> payload option"

datatype save_fault = NoSalt | NoNonce | NoDir | NoTemp | BadWrite | BadSync | BadClose | BadRename

datatype vault_error =
    EmptyPass | FileExists | Unreadable | ShortHeader | BadMagic | UnknownVersion | UnknownKDF | WrongPass
  | PlaintextMalformed | NoPath | SaveFault save_fault | EmptyRef | EmptySecret | KdfPanic

section \<open>The file format\<close>

definition fileMagic :: string where "fileMagic = ''SLTV''"
definition fileVersion :: char where "fileVersion = CHR 0x01"
definition kdfArgon2id :: char where "kdfArgon2id = CHR 0x01"
definition saltSize :: nat where "saltSize = 16"
definition nonceSize :: nat where "nonceSize = 12"

definition defaultMemKiB :: "32 word" where "defaultMemKiB = 65536"
definition defaultIterations :: "32 word" where "defaultIterations = 3"
definition defaultThreads :: "8 word" where "defaultThreads = 4"

text \<open>Big-endian 32-bit words.\<close>

definition be32 :: "32 word \<Rightarrow> string" where
  "be32 w = (let n = unat w in
     [char_of (n div 2 ^ 24 mod 256), char_of (n div 2 ^ 16 mod 256), char_of (n div 2 ^ 8 mod 256), char_of (n mod 256)])"

definition read32 :: "string \<Rightarrow> 32 word" where
  "read32 s = word_of_nat (foldl (\<lambda>a c. a * 256 + of_char c) 0 s)"

definition byte8 :: "8 word \<Rightarrow> char" where "byte8 w = char_of (unat w)"
definition read8 :: "char \<Rightarrow> 8 word" where "read8 c = word_of_nat (of_char c)"

definition blob :: "vault \<Rightarrow> string \<Rightarrow> string \<Rightarrow> string \<Rightarrow> string" where
  "blob v salt nonce ciphertext =
     fileMagic @ [fileVersion, kdfArgon2id] @ be32 (v_memKiB v) @ be32 (v_iterations v) @ [byte8 (v_threads v)]
       @ salt @ nonce @ ciphertext"

definition header_len :: nat where "header_len = 4 + 1 + 1 + 4 + 4 + 1 + saltSize + nonceSize"

definition slice :: "nat \<Rightarrow> nat \<Rightarrow> string \<Rightarrow> string" where
  "slice i n s = take n (drop i s)"

text \<open>The file that a path holds, None when there is none.\<close>

type_synonym disk_file = "string option"

definition vault_Open :: "crypto \<Rightarrow> string \<Rightarrow> string \<Rightarrow> disk_file \<Rightarrow> vault_error + vault" where
  "vault_Open cr path pass file =
     (if pass = [] then Inl EmptyPass
      else case file of
        None \<Rightarrow> Inl Unreadable
      | Some raw \<Rightarrow>
          if length raw < header_len then Inl ShortHeader
          else if slice 0 4 raw \<noteq> fileMagic then Inl BadMagic
          else if raw ! 4 \<noteq> fileVersion then Inl UnknownVersion
          else if raw ! 5 \<noteq> kdfArgon2id then Inl UnknownKDF
          else
            let mem = read32 (slice 6 4 raw); iters = read32 (slice 10 4 raw); threads = read8 (raw ! 14);
                salt = slice 15 saltSize raw; nonce = slice (15 + saltSize) nonceSize raw;
                ciphertext = drop (15 + saltSize + nonceSize) raw
            in case kdf cr pass salt mem iters threads of
                 None \<Rightarrow> Inl KdfPanic
               | Some key \<Rightarrow>
                   case unseal cr key nonce fileMagic ciphertext of
                     None \<Rightarrow> Inl WrongPass
                   | Some plain \<Rightarrow>
                       case decode_payload cr plain of
                         None \<Rightarrow> Inl PlaintextMalformed
                       | Some p \<Rightarrow> Inr \<lparr>v_path = path, v_pass = pass, v_secrets = p_Secrets p, v_created = p_Created p,
                           v_updated = p_Updated p, v_memKiB = mem, v_iterations = iters, v_threads = threads\<rparr>)"

record save_env =
  se_now :: int
  se_salt :: string
  se_nonce :: string
  se_fault :: "save_fault option"

definition payload_of :: "int \<Rightarrow> vault \<Rightarrow> payload" where
  "payload_of now v = \<lparr>p_Version = 1, p_Created = v_created v, p_Updated = now, p_Secrets = v_secrets v\<rparr>"

text \<open>\<open>Save\<close>: its error, the vault, and the file. Every failing call leaves the file as it was; the
  time of the last save is set before anything can fail.\<close>

definition vault_Save :: "crypto \<Rightarrow> save_env \<Rightarrow> vault \<Rightarrow> disk_file \<Rightarrow> vault_error option \<times> vault \<times> disk_file" where
  "vault_Save cr e v file =
     (if v_path v = [] then (Some NoPath, v, file)
      else if v_pass v = [] then (Some EmptyPass, v, file)
      else
        let v = v\<lparr>v_updated := se_now e\<rparr> in
        if se_fault e \<in> {Some NoSalt, Some NoNonce} then (Some (SaveFault (the (se_fault e))), v, file)
        else case kdf cr (v_pass v) (se_salt e) (v_memKiB v) (v_iterations v) (v_threads v) of
          None \<Rightarrow> (Some KdfPanic, v, file)
        | Some key \<Rightarrow>
            let ciphertext = seal cr key (se_nonce e) fileMagic (encode_payload cr (payload_of (se_now e) v)) in
            case se_fault e of
              Some f \<Rightarrow> (Some (SaveFault f), v, file)
            | None \<Rightarrow> (None, v, Some (blob v (se_salt e) (se_nonce e) ciphertext)))"

definition vault_Create :: "crypto \<Rightarrow> save_env \<Rightarrow> string \<Rightarrow> string \<Rightarrow> disk_file \<Rightarrow> (vault_error + vault) \<times> disk_file" where
  "vault_Create cr e path pass file =
     (if pass = [] then (Inl EmptyPass, file)
      else if file \<noteq> None then (Inl FileExists, file)
      else
        let v = \<lparr>v_path = path, v_pass = pass, v_secrets = Map.empty, v_created = se_now e, v_updated = se_now e,
                 v_memKiB = defaultMemKiB, v_iterations = defaultIterations, v_threads = defaultThreads\<rparr>
        in case vault_Save cr e v file of
             (Some err, _, file') \<Rightarrow> (Inl err, file')
           | (None, v', file') \<Rightarrow> (Inr v', file'))"

section \<open>Operations on an unlocked vault\<close>

definition vault_Get :: "string \<Rightarrow> vault \<Rightarrow> string option" where
  "vault_Get ref v = v_secrets v ref"

definition vault_Set :: "string \<Rightarrow> string \<Rightarrow> vault \<Rightarrow> vault_error option \<times> vault" where
  "vault_Set ref secret v =
     (if ref = [] then (Some EmptyRef, v)
      else if secret = [] then (Some EmptySecret, v)
      else (None, v\<lparr>v_secrets := (v_secrets v)(ref \<mapsto> secret)\<rparr>))"

definition vault_Delete :: "string \<Rightarrow> vault \<Rightarrow> vault" where
  "vault_Delete ref v = v\<lparr>v_secrets := (v_secrets v)(ref := None)\<rparr>"

text \<open>\<open>List\<close>: \<open>ks\<close> is the order in which the map is visited.\<close>

definition vault_List :: "string list \<Rightarrow> vault \<Rightarrow> string list" where
  "vault_List ks v = sort ks"

definition ChangePassphrase :: "crypto \<Rightarrow> save_env \<Rightarrow> string \<Rightarrow> vault \<Rightarrow> disk_file \<Rightarrow> vault_error option \<times> vault \<times> disk_file" where
  "ChangePassphrase cr e newPass v file =
     (if newPass = [] then (Some EmptyPass, v, file)
      else vault_Save cr e (v\<lparr>v_pass := newPass\<rparr>) file)"

definition vault_Close :: "vault \<Rightarrow> vault" where
  "vault_Close v = v\<lparr>v_pass := [], v_secrets := Map.empty\<rparr>"

section \<open>The bound vault and its requests\<close>

text \<open>The process holds at most one unlocked vault; \<open>bd_idle\<close> of zero disables locking on idleness.\<close>

record bound_vault =
  bd_v :: "vault option"
  bd_lastTouch :: int
  bd_idle :: int

definition bound_get :: "int \<Rightarrow> bound_vault \<Rightarrow> vault option \<times> bound_vault" where
  "bound_get now b = (bd_v b, if bd_v b \<noteq> None then b\<lparr>bd_lastTouch := now\<rparr> else b)"

definition bound_set :: "int \<Rightarrow> vault option \<Rightarrow> bound_vault \<Rightarrow> bound_vault" where
  "bound_set now v b = (if v \<noteq> None then b\<lparr>bd_v := v, bd_lastTouch := now\<rparr> else b\<lparr>bd_v := v\<rparr>)"

definition shouldAutoLock :: "int \<Rightarrow> bound_vault \<Rightarrow> bool" where
  "shouldAutoLock now b \<longleftrightarrow> bd_v b \<noteq> None \<and> 0 < bd_idle b \<and> bd_idle b < now - bd_lastTouch b"

datatype vault_request =
    StatusReq bool
  | UnlockReq bool "(string \<times> bool) option" save_env
  | LockReq bool
  | SetReq "(string \<times> string) option" save_env
  | GetReq "string option"
  | DeleteReq "string option" save_env
  | ListReq
  | ChangeReq "string option" save_env
  | IdleSweep

text \<open>A panic inside a handler drops the connection without a reply.\<close>

datatype vault_reply = VaultHttp int | VaultAborted | VaultOk | VaultCount nat | VaultSecret string | VaultRefs "string list"
  | VaultStatus string bool "(int \<times> nat) option"

text \<open>The number of refs and their listing depend on the finite map only.\<close>

definition refs_of :: "vault \<Rightarrow> string list" where
  "refs_of v = sorted_list_of_set (dom (v_secrets v))"

type_synonym vault_state = "bound_vault \<times> disk_file"

definition unlock_status :: "vault_error \<Rightarrow> int" where
  "unlock_status e = (if e = WrongPass then 403 else if e \<in> {BadMagic, UnknownVersion, UnknownKDF, ShortHeader} then 422 else 500)"

definition handleVaultStatus :: "string \<Rightarrow> int \<Rightarrow> bool \<Rightarrow> vault_state \<Rightarrow> vault_reply \<times> vault_state" where
  "handleVaultStatus path now is_get st =
     (case st of (b, file) \<Rightarrow>
        if \<not> is_get then (VaultHttp 405, st)
        else case bound_get now b of (v, b') \<Rightarrow>
          (VaultStatus path (path \<noteq> [] \<and> file \<noteq> None) (map_option (\<lambda>v. (v_updated v, length (refs_of v))) v), b', file))"

definition handleVaultUnlock ::
  "crypto \<Rightarrow> string \<Rightarrow> int \<Rightarrow> bool \<Rightarrow> (string \<times> bool) option \<Rightarrow> save_env \<Rightarrow> vault_state \<Rightarrow> vault_reply \<times> vault_state" where
  "handleVaultUnlock cr path now post body e st =
     (case st of (b, file) \<Rightarrow>
        if \<not> post then (VaultHttp 405, st)
        else if path = [] then (VaultHttp 500, st)
        else case body of
          None \<Rightarrow> (VaultHttp 400, st)
        | Some (pass, create) \<Rightarrow>
            if pass = [] then (VaultHttp 400, st)
            else if file = None \<and> \<not> create then (VaultHttp 404, st)
            else case (if file = None then vault_Create cr e path pass file else (vault_Open cr path pass file, file)) of
              (Inl err, file') \<Rightarrow> (if err = KdfPanic then VaultAborted else VaultHttp (unlock_status err), b, file')
            | (Inr v, file') \<Rightarrow> (VaultCount (length (refs_of v)), bound_set now (Some v) b, file'))"

text \<open>A handler on the unlocked vault: it answers 403 when the vault is locked, 400 when the body
  does not decode or a field is empty. The bound vault is changed in place.\<close>

definition with_vault ::
  "int \<Rightarrow> (vault \<Rightarrow> disk_file \<Rightarrow> vault_reply \<times> vault \<times> disk_file) \<Rightarrow> vault_state \<Rightarrow> vault_reply \<times> vault_state" where
  "with_vault now f st =
     (case st of (b, file) \<Rightarrow>
        case bound_get now b of
          (None, b') \<Rightarrow> (VaultHttp 403, b', file)
        | (Some v, b') \<Rightarrow> (case f v file of (r, v', file') \<Rightarrow> (r, b'\<lparr>bd_v := Some v'\<rparr>, file')))"

definition after_save :: "vault_error option \<times> vault \<times> disk_file \<Rightarrow> vault_reply \<times> vault \<times> disk_file" where
  "after_save r = (case r of (err, v, file) \<Rightarrow> (if err = None then VaultOk else if err = Some KdfPanic then VaultAborted else VaultHttp 500, v, file))"

definition set_body :: "crypto \<Rightarrow> save_env \<Rightarrow> (string \<times> string) option \<Rightarrow> vault \<Rightarrow> disk_file \<Rightarrow> vault_reply \<times> vault \<times> disk_file" where
  "set_body cr e body v file =
     (case body of
        None \<Rightarrow> (VaultHttp 400, v, file)
      | Some (ref, secret) \<Rightarrow>
          if ref = [] \<or> secret = [] then (VaultHttp 400, v, file)
          else case vault_Set ref secret v of
            (Some err, v') \<Rightarrow> (VaultHttp 400, v', file)
          | (None, v') \<Rightarrow> after_save (vault_Save cr e v' file))"

definition get_body :: "string option \<Rightarrow> vault \<Rightarrow> disk_file \<Rightarrow> vault_reply \<times> vault \<times> disk_file" where
  "get_body body v file =
     (case body of
        None \<Rightarrow> (VaultHttp 400, v, file)
      | Some ref \<Rightarrow>
          if ref = [] then (VaultHttp 400, v, file)
          else case vault_Get ref v of None \<Rightarrow> (VaultHttp 404, v, file) | Some s \<Rightarrow> (VaultSecret s, v, file))"

definition delete_body :: "crypto \<Rightarrow> save_env \<Rightarrow> string option \<Rightarrow> vault \<Rightarrow> disk_file \<Rightarrow> vault_reply \<times> vault \<times> disk_file" where
  "delete_body cr e body v file =
     (case body of
        None \<Rightarrow> (VaultHttp 400, v, file)
      | Some ref \<Rightarrow>
          if ref = [] then (VaultHttp 400, v, file)
          else after_save (vault_Save cr e (vault_Delete ref v) file))"

definition change_body :: "crypto \<Rightarrow> save_env \<Rightarrow> string option \<Rightarrow> vault \<Rightarrow> disk_file \<Rightarrow> vault_reply \<times> vault \<times> disk_file" where
  "change_body cr e body v file =
     (case body of
        None \<Rightarrow> (VaultHttp 400, v, file)
      | Some p \<Rightarrow> if p = [] then (VaultHttp 400, v, file) else after_save (ChangePassphrase cr e p v file))"

definition handleVaultLock :: "int \<Rightarrow> bool \<Rightarrow> vault_state \<Rightarrow> vault_reply \<times> vault_state" where
  "handleVaultLock now post st = (if \<not> post then (VaultHttp 405, st) else (VaultOk, bound_set now None (fst st), snd st))"

definition handleVaultList :: "int \<Rightarrow> vault_state \<Rightarrow> vault_reply \<times> vault_state" where
  "handleVaultList now st = with_vault now (\<lambda>v file. (VaultRefs (refs_of v), v, file)) st"

text \<open>The sweep runs once a minute and locks an idle vault.\<close>

definition idle_sweep :: "int \<Rightarrow> bound_vault \<Rightarrow> bound_vault" where
  "idle_sweep now b = (if shouldAutoLock now b then bound_set now None b else b)"

definition vault_request :: "crypto \<Rightarrow> string \<Rightarrow> int \<Rightarrow> vault_request \<Rightarrow> vault_state \<Rightarrow> vault_reply \<times> vault_state" where
  "vault_request cr path now rq st =
     (case rq of
        StatusReq is_get \<Rightarrow> handleVaultStatus path now is_get st
      | UnlockReq post body e \<Rightarrow> handleVaultUnlock cr path now post body e st
      | LockReq post \<Rightarrow> handleVaultLock now post st
      | SetReq body e \<Rightarrow> with_vault now (set_body cr e body) st
      | GetReq body \<Rightarrow> with_vault now (get_body body) st
      | DeleteReq body e \<Rightarrow> with_vault now (delete_body cr e body) st
      | ListReq \<Rightarrow> handleVaultList now st
      | ChangeReq body e \<Rightarrow> with_vault now (change_body cr e body) st
      | IdleSweep \<Rightarrow> (VaultOk, idle_sweep now (fst st), snd st))"

section \<open>Reading back what was written\<close>

lemma read32_be32 [simp]: "read32 (be32 w) = w"
proof -
  let ?n = "unat w"
  have "?n < 2 ^ LENGTH(32)" by (rule unsigned_less)
  then have n: "?n < 2 ^ 32" by simp
  have "?n div 2 ^ 24 < 256" using n by (simp add: less_mult_imp_div_less)
  moreover have "?n div 2 ^ 24 = ?n div 2 ^ 16 div 256" "?n div 2 ^ 16 = ?n div 2 ^ 8 div 256" "?n div 2 ^ 8 = ?n div 256"
    by (simp_all add: div_mult2_eq[symmetric])
  moreover have "a div 256 * 256 + a mod 256 = a" for a :: nat by (rule div_mult_mod_eq)
  ultimately have "((?n div 2 ^ 24 * 256 + ?n div 2 ^ 16 mod 256) * 256 + ?n div 2 ^ 8 mod 256) * 256 + ?n mod 256 = ?n"
    by (metis mod_less)
  moreover have "?n div 2 ^ 24 mod 256 = ?n div 2 ^ 24" using n by (intro mod_less) (simp add: less_mult_imp_div_less)
  moreover have "foldl (\<lambda>a c. a * 256 + of_char c) 0 (be32 w) =
      ((?n div 2 ^ 24 mod 256 * 256 + ?n div 2 ^ 16 mod 256) * 256 + ?n div 2 ^ 8 mod 256) * 256 + ?n mod 256"
    unfolding be32_def Let_def foldl.simps of_char_of mult_zero_left add_0 mod_mod_trivial ..
  ultimately have e: "foldl (\<lambda>a c. a * 256 + of_char c) 0 (be32 w) = ?n" by metis
  show ?thesis unfolding read32_def e by simp
qed

lemma length_be32 [simp]: "length (be32 w) = 4"
  by (simp add: be32_def Let_def)

lemma read8_byte8 [simp]: "read8 (byte8 w) = w"
proof -
  have "unat w < 2 ^ LENGTH(8)" by (rule unsigned_less)
  then have "unat w < 256" by simp
  then show ?thesis by (simp add: read8_def byte8_def)
qed

lemma blob_parts:
  assumes "length salt = saltSize" and "length nonce = nonceSize"
  shows "slice 0 4 (blob v salt nonce c) = fileMagic" "blob v salt nonce c ! 4 = fileVersion"
    "blob v salt nonce c ! 5 = kdfArgon2id" "slice 6 4 (blob v salt nonce c) = be32 (v_memKiB v)"
    "slice 10 4 (blob v salt nonce c) = be32 (v_iterations v)" "blob v salt nonce c ! 14 = byte8 (v_threads v)"
    "slice 15 saltSize (blob v salt nonce c) = salt" "slice (15 + saltSize) nonceSize (blob v salt nonce c) = nonce"
    "drop (15 + saltSize + nonceSize) (blob v salt nonce c) = c" "header_len \<le> length (blob v salt nonce c)"
  using assms by (simp_all add: blob_def slice_def fileMagic_def header_len_def saltSize_def nonceSize_def nth_append)

section \<open>What a vault relies on\<close>

text \<open>Sealing is undone by opening under the same key and refused under another, different
  passphrases derive different keys, derivation works for parameters in range, and the codec is
  faithful on the payloads considered.\<close>

definition crypto_ok :: "crypto \<Rightarrow> payload set \<Rightarrow> bool" where
  "crypto_ok cr D \<longleftrightarrow>
     (\<forall>k n a x. unseal cr k n a (seal cr k n a x) = Some x) \<and>
     (\<forall>k k' n a x. k' \<noteq> k \<longrightarrow> unseal cr k' n a (seal cr k n a x) = None) \<and>
     (\<forall>p q s m i t k. kdf cr p s m i t = Some k \<longrightarrow> kdf cr q s m i t = Some k \<longrightarrow> p = q) \<and>
     (\<forall>p s m i t. kdf cr p s m i t = None \<longleftrightarrow> i = 0 \<or> t = 0) \<and>
     (\<forall>p \<in> D. decode_payload cr (encode_payload cr p) = Some p)"

lemma crypto_okD:
  assumes "crypto_ok cr D"
  shows "unseal cr k n a (seal cr k n a x) = Some x" "k' \<noteq> k \<Longrightarrow> unseal cr k' n a (seal cr k n a x) = None"
    "kdf cr p s m i t = Some k \<Longrightarrow> kdf cr q s m i t = Some k \<Longrightarrow> p = q"
    "kdf cr p s m i t = None \<longleftrightarrow> i = 0 \<or> t = 0"
    "pl \<in> D \<Longrightarrow> decode_payload cr (encode_payload cr pl) = Some pl"
proof -
  note c = assms[unfolded crypto_ok_def]
  show "unseal cr k n a (seal cr k n a x) = Some x" using c[THEN conjunct1] by simp
  show "k' \<noteq> k \<Longrightarrow> unseal cr k' n a (seal cr k n a x) = None" using c[THEN conjunct2, THEN conjunct1] by simp
  show "kdf cr p s m i t = Some k \<Longrightarrow> kdf cr q s m i t = Some k \<Longrightarrow> p = q"
    using c[THEN conjunct2, THEN conjunct2, THEN conjunct1, rule_format, of p s m i t k q] by simp
  show "kdf cr p s m i t = None \<longleftrightarrow> i = 0 \<or> t = 0"
    using c[THEN conjunct2, THEN conjunct2, THEN conjunct2, THEN conjunct1] by simp
  show "pl \<in> D \<Longrightarrow> decode_payload cr (encode_payload cr pl) = Some pl"
    using c[THEN conjunct2, THEN conjunct2, THEN conjunct2, THEN conjunct2] by simp
qed

text \<open>What a file yields under every passphrase.\<close>

definition opens_with :: "crypto \<Rightarrow> disk_file \<Rightarrow> string \<Rightarrow> (string \<rightharpoonup> string) \<Rightarrow> bool" where
  "opens_with cr file p m \<longleftrightarrow> p \<noteq> [] \<and> file \<noteq> None \<and>
     (\<forall>path pw. pw \<noteq> [] \<longrightarrow>
        (if pw = p then \<exists>v. vault_Open cr path pw file = Inr v \<and> v_secrets v = m \<and> v_pass v = p \<and> v_path v = path \<and>
             v_iterations v \<noteq> 0 \<and> v_threads v \<noteq> 0
         else vault_Open cr path pw file = Inl WrongPass))"

lemma opens_withD:
  assumes "opens_with cr fl p m"
  shows "\<exists>v. vault_Open cr path p fl = Inr v \<and> v_secrets v = m \<and> v_pass v = p \<and> v_path v = path \<and> v_iterations v \<noteq> 0 \<and> v_threads v \<noteq> 0"
    and "pw \<noteq> [] \<Longrightarrow> pw \<noteq> p \<Longrightarrow> vault_Open cr path pw fl = Inl WrongPass"
proof -
  note a = assms[unfolded opens_with_def, THEN conjunct2, THEN conjunct2, rule_format, of p path]
    assms[unfolded opens_with_def, THEN conjunct2, THEN conjunct2, rule_format, of pw path]
  have "p \<noteq> []" using assms by (simp add: opens_with_def)
  with a(1) show "\<exists>v. vault_Open cr path p fl = Inr v \<and> v_secrets v = m \<and> v_pass v = p \<and> v_path v = path \<and> v_iterations v \<noteq> 0 \<and> v_threads v \<noteq> 0"
    by simp
  show "pw \<noteq> [] \<Longrightarrow> pw \<noteq> p \<Longrightarrow> vault_Open cr path pw fl = Inl WrongPass" using a(2) by simp
qed

definition good_env :: "save_env \<Rightarrow> bool" where
  "good_env e \<longleftrightarrow> length (se_salt e) = saltSize \<and> length (se_nonce e) = nonceSize"

definition live_vault :: "vault \<Rightarrow> bool" where
  "live_vault v \<longleftrightarrow> v_path v \<noteq> [] \<and> v_iterations v \<noteq> 0 \<and> v_threads v \<noteq> 0"

text \<open>A save either fails and leaves the file, or writes a file that opens to the vault's secrets
  under its passphrase and under no other.\<close>

lemma save_result:
  assumes cr: "crypto_ok cr D" and e: "good_env e" and v: "live_vault v" and D: "payload_of (se_now e) v \<in> D"
    and s: "vault_Save cr e v file = (err, v', file')"
  shows "err = None \<longleftrightarrow> v_pass v \<noteq> [] \<and> se_fault e = None"
    and "err \<noteq> None \<Longrightarrow> file' = file"
    and "err = None \<Longrightarrow> opens_with cr file' (v_pass v) (v_secrets v)"
    and "v_pass v' = v_pass v \<and> v_secrets v' = v_secrets v \<and> live_vault v'"
proof -
  let ?k = "kdf cr (v_pass v) (se_salt e) (v_memKiB v) (v_iterations v) (v_threads v)"
  have "?k \<noteq> None" using v crypto_okD(4)[OF cr] by (simp add: live_vault_def)
  then obtain key where k: "?k = Some key" by auto
  let ?c = "seal cr key (se_nonce e) fileMagic (encode_payload cr (payload_of (se_now e) v))"
  have pl: "payload_of (se_now e) (v\<lparr>v_updated := x\<rparr>) = payload_of (se_now e) v" for x by (simp add: payload_of_def)
  have path: "v_path v \<noteq> []" using v by (simp add: live_vault_def)
  show st: "err = None \<longleftrightarrow> v_pass v \<noteq> [] \<and> se_fault e = None"
    using s path k by (auto simp: vault_Save_def Let_def split: option.splits if_splits)
  show "err \<noteq> None \<Longrightarrow> file' = file"
    using s path k by (auto simp: vault_Save_def Let_def split: option.splits if_splits)
  show "v_pass v' = v_pass v \<and> v_secrets v' = v_secrets v \<and> live_vault v'"
    using s v k by (auto simp: vault_Save_def Let_def live_vault_def split: option.splits if_splits)
  assume "err = None"
  with st have p: "v_pass v \<noteq> []" "se_fault e = None" by auto
  with s path k have f: "file' = Some (blob (v\<lparr>v_updated := se_now e\<rparr>) (se_salt e) (se_nonce e) ?c)"
    by (auto simp: vault_Save_def Let_def pl)
  note parts = blob_parts[OF e[unfolded good_env_def, THEN conjunct1] e[unfolded good_env_def, THEN conjunct2]]
  have "if pw = v_pass v then \<exists>w. vault_Open cr pa pw file' = Inr w \<and> v_secrets w = v_secrets v \<and> v_pass w = v_pass v \<and>
        v_path w = pa \<and> v_iterations w \<noteq> 0 \<and> v_threads w \<noteq> 0
      else vault_Open cr pa pw file' = Inl WrongPass" if pw: "pw \<noteq> []" for pa pw
  proof -
    have "kdf cr pw (se_salt e) (v_memKiB v) (v_iterations v) (v_threads v) \<noteq> None"
      using v crypto_okD(4)[OF cr] by (simp add: live_vault_def)
    then obtain key' where k': "kdf cr pw (se_salt e) (v_memKiB v) (v_iterations v) (v_threads v) = Some key'" by auto
    have long: "\<not> length (blob (v\<lparr>v_updated := se_now e\<rparr>) (se_salt e) (se_nonce e) ?c) < header_len"
      using parts(10) by (simp add: not_less)
    show ?thesis
    proof (cases "pw = v_pass v")
      case True
      with k k' have "key' = key" by simp
      with True pw k' long crypto_okD(1)[OF cr] crypto_okD(5)[OF cr D] v show ?thesis
        by (simp add: vault_Open_def f parts(1-9) Let_def payload_of_def live_vault_def)
    next
      case False
      with crypto_okD(3)[OF cr k] k' have "key' \<noteq> key" by metis
      with False pw k' long crypto_okD(2)[OF cr] show ?thesis
        by (simp add: vault_Open_def f parts(1-9) Let_def)
    qed
  qed
  moreover have "file' \<noteq> None" using f by simp
  ultimately show "opens_with cr file' (v_pass v) (v_secrets v)" using p(1) unfolding opens_with_def by blast
qed

section \<open>Histories of an unlocked vault\<close>

datatype vault_op = SetOp string string | DeleteOp string | SaveOp save_env | ChangeOp save_env string | CloseOp

definition vault_step :: "crypto \<Rightarrow> vault \<times> disk_file \<Rightarrow> vault_op \<Rightarrow> vault \<times> disk_file" where
  "vault_step cr st oper =
     (case st of (v, file) \<Rightarrow>
        case oper of
          SetOp ref secret \<Rightarrow> (snd (vault_Set ref secret v), file)
        | DeleteOp ref \<Rightarrow> (vault_Delete ref v, file)
        | SaveOp e \<Rightarrow> snd (vault_Save cr e v file)
        | ChangeOp e p \<Rightarrow> snd (ChangePassphrase cr e p v file)
        | CloseOp \<Rightarrow> (vault_Close v, file))"

text \<open>The specification: the secrets and passphrase in memory, and what the last successful save
  made durable.\<close>

record vault_spec =
  sp_live :: "string \<rightharpoonup> string"
  sp_pass :: string
  sp_durable :: "string \<times> (string \<rightharpoonup> string)"

definition spec_save :: "save_env \<Rightarrow> vault_spec \<Rightarrow> vault_spec" where
  "spec_save e s = (if sp_pass s \<noteq> [] \<and> se_fault e = None then s\<lparr>sp_durable := (sp_pass s, sp_live s)\<rparr> else s)"

definition spec_step :: "vault_spec \<Rightarrow> vault_op \<Rightarrow> vault_spec" where
  "spec_step s oper =
     (case oper of
        SetOp ref secret \<Rightarrow> if ref = [] \<or> secret = [] then s else s\<lparr>sp_live := (sp_live s)(ref \<mapsto> secret)\<rparr>
      | DeleteOp ref \<Rightarrow> s\<lparr>sp_live := (sp_live s)(ref := None)\<rparr>
      | SaveOp e \<Rightarrow> spec_save e s
      | ChangeOp e p \<Rightarrow> if p = [] then s else spec_save e (s\<lparr>sp_pass := p\<rparr>)
      | CloseOp \<Rightarrow> s\<lparr>sp_live := Map.empty, sp_pass := []\<rparr>)"

text \<open>The payloads the saves of a history encode.\<close>

definition op_payload :: "vault \<Rightarrow> vault_op \<Rightarrow> payload set" where
  "op_payload v oper =
     (case oper of SaveOp e \<Rightarrow> {payload_of (se_now e) v} | ChangeOp e p \<Rightarrow> {payload_of (se_now e) v} | _ \<Rightarrow> {})"

fun payloads :: "crypto \<Rightarrow> vault \<times> disk_file \<Rightarrow> vault_op list \<Rightarrow> payload set" where
  "payloads cr st [] = {}"
| "payloads cr st (x # xs) = op_payload (fst st) x \<union> payloads cr (vault_step cr st x) xs"

definition good_op :: "vault_op \<Rightarrow> bool" where
  "good_op oper = (case oper of SaveOp e \<Rightarrow> good_env e | ChangeOp e p \<Rightarrow> good_env e | _ \<Rightarrow> True)"

definition vault_rel :: "crypto \<Rightarrow> vault \<times> disk_file \<Rightarrow> vault_spec \<Rightarrow> bool" where
  "vault_rel cr st s \<longleftrightarrow>
     live_vault (fst st) \<and> v_secrets (fst st) = sp_live s \<and> v_pass (fst st) = sp_pass s \<and>
     opens_with cr (snd st) (fst (sp_durable s)) (snd (sp_durable s))"

lemma rel_save:
  assumes "crypto_ok cr D" "good_env e" "payload_of (se_now e) v \<in> D"
    and "live_vault v" "v_secrets v = sp_live s" "v_pass v = sp_pass s"
    and "opens_with cr file (fst (sp_durable s)) (snd (sp_durable s))"
  shows "vault_rel cr (snd (vault_Save cr e v file)) (spec_save e s)"
proof -
  obtain err v' file' where s: "vault_Save cr e v file = (err, v', file')" by (metis prod_cases3)
  note r = save_result[OF assms(1,2,4,3) s]
  show ?thesis
  proof (cases "err = None")
    case True
    with r assms(5-7) show ?thesis by (simp add: s vault_rel_def spec_save_def)
  next
    case False
    with r assms(5-7) show ?thesis by (auto simp: s vault_rel_def spec_save_def)
  qed
qed

lemma vault_step_rel:
  assumes "crypto_ok cr D" "vault_rel cr st s" "good_op x" "op_payload (fst st) x \<subseteq> D"
  shows "vault_rel cr (vault_step cr st x) (spec_step s x)"
proof -
  obtain v fl where st: "st = (v, fl)" by fastforce
  have v: "live_vault v" "v_secrets v = sp_live s" "v_pass v = sp_pass s"
    and f: "opens_with cr fl (fst (sp_durable s)) (snd (sp_durable s))"
    using assms(2) by (simp_all add: st vault_rel_def)
  show ?thesis
  proof (cases x)
    case (SetOp ref secret)
    with v f show ?thesis by (simp add: st vault_step_def spec_step_def vault_Set_def vault_rel_def live_vault_def)
  next
    case (DeleteOp ref)
    with v f show ?thesis by (simp add: st vault_step_def spec_step_def vault_Delete_def vault_rel_def live_vault_def)
  next
    case (SaveOp e)
    with assms(3,4) have "good_env e" "payload_of (se_now e) v \<in> D" by (simp_all add: st good_op_def op_payload_def)
    from rel_save[OF assms(1) this v f] SaveOp show ?thesis by (simp add: st vault_step_def spec_step_def)
  next
    case (ChangeOp e p)
    with assms(3,4) have e: "good_env e" "payload_of (se_now e) (v\<lparr>v_pass := p\<rparr>) \<in> D"
      by (simp_all add: st good_op_def op_payload_def payload_of_def)
    show ?thesis
    proof (cases "p = []")
      case True
      with v f ChangeOp show ?thesis by (simp add: st vault_step_def spec_step_def ChangePassphrase_def vault_rel_def)
    next
      case False
      have "vault_rel cr (snd (vault_Save cr e (v\<lparr>v_pass := p\<rparr>) fl)) (spec_save e (s\<lparr>sp_pass := p\<rparr>))"
        by (rule rel_save[OF assms(1) e]) (use v f in \<open>simp_all add: live_vault_def\<close>)
      with False ChangeOp show ?thesis by (simp add: st vault_step_def spec_step_def ChangePassphrase_def)
    qed
  next
    case CloseOp
    with v f show ?thesis by (simp add: st vault_step_def spec_step_def vault_Close_def vault_rel_def live_vault_def)
  qed
qed

lemma vault_history_rel:
  "crypto_ok cr D \<Longrightarrow> vault_rel cr st s \<Longrightarrow> \<forall>x \<in> set xs. good_op x \<Longrightarrow> payloads cr st xs \<subseteq> D \<Longrightarrow>
    vault_rel cr (foldl (vault_step cr) st xs) (foldl spec_step s xs)"
  by (induction xs arbitrary: st s) (simp_all add: vault_step_rel)

lemma created_rel:
  assumes "crypto_ok cr D" "good_env e" "\<lparr>p_Version = 1, p_Created = se_now e, p_Updated = se_now e, p_Secrets = Map.empty\<rparr> \<in> D"
    and "path \<noteq> []" and c: "vault_Create cr e path pass None = (Inr v, file)"
  shows "vault_rel cr (v, file) \<lparr>sp_live = Map.empty, sp_pass = pass, sp_durable = (pass, Map.empty)\<rparr>"
proof -
  let ?v = "\<lparr>v_path = path, v_pass = pass, v_secrets = Map.empty, v_created = se_now e, v_updated = se_now e,
      v_memKiB = defaultMemKiB, v_iterations = defaultIterations, v_threads = defaultThreads\<rparr>"
  have s: "vault_Save cr e ?v None = (None, v, file)"
    using c by (auto simp: vault_Create_def Let_def split: if_splits prod.splits option.splits)
  have l: "live_vault ?v" using assms(4) by (simp add: live_vault_def defaultIterations_def defaultThreads_def)
  have D: "payload_of (se_now e) ?v \<in> D" using assms(3) by (simp add: payload_of_def)
  from save_result[OF assms(1,2) l D s] show ?thesis by (simp add: vault_rel_def)
qed

text \<open>C28: The file of a vault always holds the last successful save, whole. Take any sequence of
  operations on a freshly created vault - setting, deleting, saving, changing the passphrase,
  closing, with saves failing at any call: at the end the file opens under the passphrase in
  force at the last successful save and yields exactly the secrets of that moment, and every other
  non-empty passphrase is refused as wrong.\<close>

theorem vault_durable:
  assumes "crypto_ok cr (insert \<lparr>p_Version = 1, p_Created = se_now e, p_Updated = se_now e, p_Secrets = Map.empty\<rparr> (payloads cr (v0, file0) xs))"
    and "good_env e" and "\<forall>x \<in> set xs. good_op x" and "path \<noteq> []"
    and "vault_Create cr e path pass None = (Inr v0, file0)"
    and "foldl (vault_step cr) (v0, file0) xs = (v, file)"
    and "sp_durable (foldl spec_step \<lparr>sp_live = Map.empty, sp_pass = pass, sp_durable = (pass, Map.empty)\<rparr> xs) = (p, m)"
  shows "(\<exists>w. vault_Open cr path p file = Inr w \<and> v_secrets w = m) \<and>
    (\<forall>pw. pw \<noteq> [] \<and> pw \<noteq> p \<longrightarrow> vault_Open cr path pw file = Inl WrongPass)"
proof -
  note rel = vault_history_rel[OF assms(1) created_rel[OF assms(1,2) insertI1 assms(4,5)] assms(3) subset_insertI]
  have "opens_with cr file p m" using rel[unfolded assms(6) vault_rel_def] assms(7) by simp
  from opens_withD[OF this] show ?thesis by blast
qed

section \<open>Nothing without the passphrase\<close>

definition reveals :: "vault_reply \<Rightarrow> bool" where
  "reveals r = (case r of VaultSecret _ \<Rightarrow> True | VaultRefs _ \<Rightarrow> True | VaultCount _ \<Rightarrow> True | VaultStatus _ _ x \<Rightarrow> x \<noteq> None | _ \<Rightarrow> False)"

definition knows_pass :: "string \<Rightarrow> vault_request \<Rightarrow> bool" where
  "knows_pass p rq = (case rq of UnlockReq _ (Some (pw, _)) _ \<Rightarrow> pw = p | _ \<Rightarrow> False)"

fun vault_session :: "crypto \<Rightarrow> string \<Rightarrow> (int \<times> vault_request) list \<Rightarrow> vault_state \<Rightarrow> vault_reply list \<times> vault_state" where
  "vault_session cr path [] st = ([], st)"
| "vault_session cr path ((now, rq) # rqs) st =
     (case vault_request cr path now rq st of
        (r, st') \<Rightarrow> (case vault_session cr path rqs st' of (rs, st'') \<Rightarrow> (r # rs, st'')))"

lemma locked_request:
  assumes "opens_with cr fl p m" "\<not> knows_pass p rq" "bd_v b = None"
    and "vault_request cr path now rq (b, fl) = (r, b', fl')"
  shows "\<not> reveals r \<and> bd_v b' = None \<and> fl' = fl"
proof -
  have ne: "fl \<noteq> None" using assms(1) by (simp add: opens_with_def)
  have wrong: "vault_Open cr path pw fl = Inl WrongPass" if "pw \<noteq> []" "pw \<noteq> p" for pw
    using opens_withD(2)[OF assms(1) that] .
  have locked: "with_vault now f (b, fl) = (VaultHttp 403, b, fl)" for f
    using assms(3) by (simp add: with_vault_def bound_get_def)
  show ?thesis
  proof (cases rq)
    case (UnlockReq post body e)
    have "handleVaultUnlock cr path now post body e (b, fl) = (r, b', fl')" using assms(4) by (simp add: UnlockReq vault_request_def)
    moreover have "\<exists>c. handleVaultUnlock cr path now post body e (b, fl) = (VaultHttp c, b, fl)"
    proof (cases body)
      case (Some x)
      obtain pw create where x: "x = (pw, create)" by fastforce
      with Some assms(2) have "pw \<noteq> p" by (simp add: UnlockReq knows_pass_def)
      with wrong[of pw] ne Some x show ?thesis by (cases "pw = []") (auto simp: handleVaultUnlock_def)
    qed (simp add: handleVaultUnlock_def)
    ultimately show ?thesis using assms(3) by (auto simp: reveals_def)
  qed (use assms(3,4) locked in \<open>auto simp: vault_request_def handleVaultLock_def handleVaultList_def idle_sweep_def handleVaultStatus_def bound_get_def bound_set_def shouldAutoLock_def reveals_def split: if_splits\<close>)
qed

text \<open>C29: Without its passphrase a locked vault gives nothing away and is not harmed. In any sequence of
  requests to a locked server whose vault file holds secrets under a passphrase, as long as no
  unlock request carries that passphrase, no reply contains a secret, the refs or their number,
  the vault stays locked, and the file stays byte for byte what it was.\<close>

theorem vault_needs_passphrase:
  assumes "opens_with cr file p m" and "bd_v b = None" and "\<forall>(now, rq) \<in> set rqs. \<not> knows_pass p rq"
    and "vault_session cr path rqs (b, file) = (rs, (b', file'))"
  shows "(\<forall>r \<in> set rs. \<not> reveals r) \<and> bd_v b' = None \<and> file' = file"
  using assms(2-4)
proof (induction rqs arbitrary: b rs)
  case (Cons x rqs)
  obtain now rq where x: "x = (now, rq)" by fastforce
  obtain r b1 f1 where r: "vault_request cr path now rq (b, file) = (r, b1, f1)" by (metis prod_cases3)
  have k: "\<not> knows_pass p rq" using Cons.prems(2) x by simp
  note l = locked_request[OF assms(1) k Cons.prems(1) r]
  obtain rs1 where s: "vault_session cr path rqs (b1, file) = (rs1, (b', file'))" "rs = r # rs1"
    using Cons.prems(3) r l by (auto simp: x split: prod.splits)
  have "\<forall>(now, rq) \<in> set rqs. \<not> knows_pass p rq" using Cons.prems(2) by simp
  from Cons.IH[OF _ this s(1)] l s(2) show ?case by simp
qed simp

section \<open>A concrete instance\<close>

text \<open>Sealing puts a prefix-free form of the key in front; the codec knows three payloads.\<close>

definition key_mark :: "string \<Rightarrow> string" where
  "key_mark k = concat (map (\<lambda>c. [CHR 0x01, c]) k) @ [CHR 0x00]"

lemma key_mark_prefix: "has_prefix (key_mark k @ x) (key_mark k') \<Longrightarrow> k' = k"
proof (induction k arbitrary: k')
  case Nil
  then show ?case by (cases k') (simp_all add: key_mark_def has_prefix_iff)
next
  case (Cons c k)
  show ?case
  proof (cases k')
    case Nil
    with Cons.prems show ?thesis by (simp add: key_mark_def has_prefix_iff)
  next
    case (Cons d ks)
    with Cons.prems have "d = c" "has_prefix (key_mark k @ x) (key_mark ks)" by (auto simp: key_mark_def has_prefix_iff)
    with Cons.IH[of ks] Cons show ?thesis by simp
  qed
qed

definition demo_payload :: "int \<Rightarrow> (string \<rightharpoonup> string) \<Rightarrow> payload" where
  "demo_payload n m = \<lparr>p_Version = 1, p_Created = 1, p_Updated = n, p_Secrets = m\<rparr>"

definition demo_crypto :: crypto where
  "demo_crypto = \<lparr>kdf = (\<lambda>p s m i t. if i = 0 \<or> t = 0 then None else Some p),
     seal = (\<lambda>k n a x. key_mark k @ x),
     unseal = (\<lambda>k n a c. if has_prefix c (key_mark k) then Some (drop (length (key_mark k)) c) else None),
     encode_payload = (\<lambda>p. go_itoa (p_Updated p)),
     decode_payload = (\<lambda>s. if s = ''1'' then Some (demo_payload 1 Map.empty)
       else if s = ''2'' then Some (demo_payload 2 [''r'' \<mapsto> ''s''])
       else if s = ''3'' then Some (demo_payload 3 [''r'' \<mapsto> ''s'', ''q'' \<mapsto> ''t'']) else None)\<rparr>"

definition demo_payloads :: "payload set" where
  "demo_payloads = {demo_payload 1 Map.empty, demo_payload 2 [''r'' \<mapsto> ''s''], demo_payload 3 [''r'' \<mapsto> ''s'', ''q'' \<mapsto> ''t'']}"

lemma demo_crypto_ok: "crypto_ok demo_crypto demo_payloads"
proof -
  have n: "go_itoa 1 = ''1''" "go_itoa 2 = ''2''" "go_itoa 3 = ''3''" by code_simp+
  have d: "decode_payload demo_crypto (encode_payload demo_crypto p) = Some p" if "p \<in> demo_payloads" for p
    using that by (auto simp: demo_payloads_def demo_crypto_def demo_payload_def n)
  have u: "unseal demo_crypto k' na a (seal demo_crypto k na a x) = None" if "k' \<noteq> k" for k k' na a x
    using key_mark_prefix[of k x k'] that by (auto simp: demo_crypto_def)
  have s: "unseal demo_crypto k na a (seal demo_crypto k na a x) = Some x" for k na a x by (simp add: demo_crypto_def)
  have i: "kdf demo_crypto p s m i t = Some k \<Longrightarrow> kdf demo_crypto q s m i t = Some k \<Longrightarrow> p = q" for p q s m i t k
    by (simp add: demo_crypto_def split: if_splits)
  have g: "kdf demo_crypto p s m i t = None \<longleftrightarrow> i = 0 \<or> t = 0" for p s m i t by (simp add: demo_crypto_def)
  show ?thesis unfolding crypto_ok_def using d u s i g by metis
qed

definition demo_env :: "int \<Rightarrow> save_fault option \<Rightarrow> save_env" where
  "demo_env now f = \<lparr>se_now = now, se_salt = replicate saltSize CHR 0x07, se_nonce = replicate nonceSize CHR 0x09, se_fault = f\<rparr>"

lemma demo_env_good: "good_env (demo_env now f)"
  by (simp add: good_env_def demo_env_def)

definition demo_vault :: "(string \<rightharpoonup> string) \<Rightarrow> int \<Rightarrow> vault" where
  "demo_vault m now = \<lparr>v_path = ''/v'', v_pass = ''p'', v_secrets = m, v_created = 1, v_updated = now,
     v_memKiB = defaultMemKiB, v_iterations = defaultIterations, v_threads = defaultThreads\<rparr>"

definition demo_file :: "int \<Rightarrow> disk_file" where
  "demo_file now = Some (blob (demo_vault Map.empty 0) (replicate saltSize CHR 0x07) (replicate nonceSize CHR 0x09) (key_mark ''p'' @ go_itoa now))"

lemma demo_save: "vault_Save demo_crypto (demo_env now None) (demo_vault m u) fl = (None, demo_vault m now, demo_file now)"
proof -
  have "kdf demo_crypto ''p'' s k defaultIterations defaultThreads = Some ''p''" for s k
    by (simp add: demo_crypto_def defaultIterations_def defaultThreads_def)
  moreover have "(demo_vault m u)\<lparr>v_updated := now\<rparr> = demo_vault m now" by (simp add: demo_vault_def)
  ultimately show ?thesis
    by (simp add: vault_Save_def demo_env_def Let_def demo_file_def)
      (simp add: demo_vault_def demo_crypto_def payload_of_def blob_def)
qed

lemma demo_vault_create: "vault_Create demo_crypto (demo_env 1 None) ''/v'' ''p'' None = (Inr (demo_vault Map.empty 1), demo_file 1)"
proof -
  have "\<lparr>v_path = ''/v'', v_pass = ''p'', v_secrets = Map.empty, v_created = 1, v_updated = 1, v_memKiB = defaultMemKiB,
      v_iterations = defaultIterations, v_threads = defaultThreads\<rparr> = demo_vault Map.empty 1"
    by (simp add: demo_vault_def)
  moreover have "se_now (demo_env 1 None) = 1" by (simp add: demo_env_def)
  ultimately show ?thesis by (simp add: vault_Create_def demo_save)
qed

definition demo_ops :: "vault_op list" where
  "demo_ops = [SetOp ''r'' ''s'', SaveOp (demo_env 2 None), SetOp ''q'' ''t'', ChangeOp (demo_env 3 (Some BadSync)) ''new'']"

lemma demo_payload_of: "payload_of now (demo_vault m u) = demo_payload now m"
  by (simp add: payload_of_def demo_vault_def demo_payload_def)

lemma demo_steps:
  "vault_step demo_crypto (demo_vault Map.empty 1, fl) (SetOp ''r'' ''s'') = (demo_vault [''r'' \<mapsto> ''s''] 1, fl)"
  "vault_step demo_crypto (demo_vault m 1, fl) (SaveOp (demo_env 2 None)) = (demo_vault m 2, demo_file 2)"
  "vault_step demo_crypto (demo_vault [''r'' \<mapsto> ''s''] 2, fl) (SetOp ''q'' ''t'') = (demo_vault [''r'' \<mapsto> ''s'', ''q'' \<mapsto> ''t''] 2, fl)"
  "\<exists>v. vault_step demo_crypto (demo_vault m 2, fl) (ChangeOp (demo_env 3 (Some BadSync)) ''new'') = (v, fl)"
proof -
  show "vault_step demo_crypto (demo_vault Map.empty 1, fl) (SetOp ''r'' ''s'') = (demo_vault [''r'' \<mapsto> ''s''] 1, fl)"
    "vault_step demo_crypto (demo_vault [''r'' \<mapsto> ''s''] 2, fl) (SetOp ''q'' ''t'') = (demo_vault [''r'' \<mapsto> ''s'', ''q'' \<mapsto> ''t''] 2, fl)"
    by (simp_all add: vault_step_def vault_Set_def demo_vault_def)
  show "vault_step demo_crypto (demo_vault m 1, fl) (SaveOp (demo_env 2 None)) = (demo_vault m 2, demo_file 2)"
    by (simp add: vault_step_def demo_save)
  show "\<exists>v. vault_step demo_crypto (demo_vault m 2, fl) (ChangeOp (demo_env 3 (Some BadSync)) ''new'') = (v, fl)"
    by (simp add: vault_step_def ChangePassphrase_def vault_Save_def demo_vault_def demo_env_def demo_crypto_def
        defaultIterations_def defaultThreads_def Let_def)
qed

theorem vault_durable_witness:
  "(\<exists>w. vault_Open demo_crypto ''/v'' ''p'' (demo_file 2) = Inr w \<and> v_secrets w = [''r'' \<mapsto> ''s'']) \<and>
    vault_Open demo_crypto ''/v'' ''new'' (demo_file 2) = Inl WrongPass"
proof -
  have e: "insert \<lparr>p_Version = 1, p_Created = se_now (demo_env 1 None), p_Updated = se_now (demo_env 1 None), p_Secrets = Map.empty\<rparr>
      (payloads demo_crypto (demo_vault Map.empty 1, demo_file 1) demo_ops) = demo_payloads"
    by (simp add: demo_ops_def demo_steps op_payload_def demo_payload_of demo_payloads_def insert_commute)
      (simp add: demo_env_def demo_payload_def)
  have g: "\<forall>x \<in> set demo_ops. good_op x" by (simp add: demo_ops_def good_op_def demo_env_good)
  obtain v where f: "foldl (vault_step demo_crypto) (demo_vault Map.empty 1, demo_file 1) demo_ops = (v, demo_file 2)"
    using demo_steps(4)[of "[''r'' \<mapsto> ''s'', ''q'' \<mapsto> ''t'']" "demo_file 2"] by (auto simp: demo_ops_def demo_steps(1-3))
  have d: "sp_durable (foldl spec_step \<lparr>sp_live = Map.empty, sp_pass = ''p'', sp_durable = (''p'', Map.empty)\<rparr> demo_ops) =
      (''p'', [''r'' \<mapsto> ''s''])"
    by (simp add: demo_ops_def spec_step_def spec_save_def demo_env_def)
  from vault_durable[OF demo_crypto_ok[folded e] demo_env_good g _ demo_vault_create f d] show ?thesis by simp
qed

definition demo_requests :: "(int \<times> vault_request) list" where
  "demo_requests = [(5, GetReq (Some ''r'')), (6, UnlockReq True (Some (''x'', True)) (demo_env 6 None)), (7, ListReq)]"

theorem vault_needs_passphrase_witness:
  "snd (snd (vault_session demo_crypto ''/v'' demo_requests (\<lparr>bd_v = None, bd_lastTouch = 0, bd_idle = 0\<rparr>, demo_file 1))) = demo_file 1"
proof -
  let ?b = "\<lparr>bd_v = None, bd_lastTouch = 0, bd_idle = 0\<rparr>"
  have "\<lparr>p_Version = 1, p_Created = se_now (demo_env 1 None), p_Updated = se_now (demo_env 1 None), p_Secrets = Map.empty\<rparr> \<in> demo_payloads"
    by (simp add: demo_payloads_def demo_env_def demo_payload_def)
  from created_rel[OF demo_crypto_ok demo_env_good this _ demo_vault_create]
  have o: "opens_with demo_crypto (demo_file 1) ''p'' Map.empty" by (simp add: vault_rel_def)
  have k: "\<forall>(now, rq) \<in> set demo_requests. \<not> knows_pass ''p'' rq" by (simp add: demo_requests_def knows_pass_def)
  obtain rs b' f' where s: "vault_session demo_crypto ''/v'' demo_requests (?b, demo_file 1) = (rs, (b', f'))" by (metis prod_cases3)
  have "bd_v ?b = None" by simp
  from vault_needs_passphrase[OF o this k s] s show ?thesis by simp
qed

text \<open>A passphrase change whose save fails reports an error and leaves the file under the old
  passphrase, but the new one stays in memory: the next save of anything re-encrypts under it.\<close>

lemma failed_change_sticks:
  assumes "p \<noteq> []" "se_fault e = Some f" "se_fault e' = None"
  shows "sp_durable (foldl spec_step s [ChangeOp e p, SaveOp e']) = (p, sp_live s)"
  using assms by (simp add: spec_step_def spec_save_def)

end
