(* ===== verification/CsvText.thy ===== *)
theory CsvText
  imports GoStrings
begin

text \<open>
  Go's \<open>encoding/csv\<close> as the program uses it: the comma as separator, no comments, no lazy quotes,
  any number of fields per record. The reader works on a text whose line ends are normalised, skips
  empty lines and stops at the first malformed record; \<open>trim\<close> is its option \<open>TrimLeadingSpace\<close>.
\<close>

definition LF :: char where "LF = CHR 0x0A"
definition CR :: char where "CR = CHR 0x0D"

section \<open>Reading\<close>

text \<open>Every CR LF becomes LF; a CR that ends the text is dropped.\<close>

fun unix_lines :: "string \<Rightarrow> string" where
  "unix_lines (c # d # s) = (if c = CR \<and> d = LF then LF # unix_lines s else c # unix_lines (d # s))"
| "unix_lines s = s"

definition csv_norm :: "string \<Rightarrow> string" where
  "csv_norm t = (let u = unix_lines t in if u \<noteq> [] \<and> last u = CR then butlast u else u)"

text \<open>The inside of a quoted field up to its closing quote, and what follows it.\<close>

fun quoted :: "string \<Rightarrow> (string \<times> string) option" where
  "quoted [] = None"
| "quoted (c # s) =
     (if c \<noteq> CHR 0x22 then map_option (apfst (Cons c)) (quoted s)
      else case s of
        [] \<Rightarrow> Some ([], [])
      | d # s' \<Rightarrow> if d = CHR 0x22 then map_option (apfst (Cons c)) (quoted s') else Some ([], s))"

definition trim_line :: "string \<Rightarrow> string" where
  "trim_line t = strip_left space_seqs (takeWhile (\<lambda>c. c \<noteq> LF) t) @ dropWhile (\<lambda>c. c \<noteq> LF) t"

definition ends_field :: "char \<Rightarrow> bool" where
  "ends_field c \<longleftrightarrow> c = CHR '','' \<or> c = LF"

definition csv_field :: "bool \<Rightarrow> string \<Rightarrow> (string \<times> string) option" where
  "csv_field trim t0 =
     (let t = (if trim then trim_line t0 else t0) in
      if t \<noteq> [] \<and> hd t = CHR 0x22
      then (case quoted (tl t) of
              None \<Rightarrow> None
            | Some (f, r) \<Rightarrow> if r = [] \<or> ends_field (hd r) then Some (f, r) else None)
      else
        let f = takeWhile (\<lambda>c. \<not> ends_field c) t
        in if CHR 0x22 \<in> set f then None else Some (f, dropWhile (\<lambda>c. \<not> ends_field c) t))"

lemma quoted_length: "quoted s = Some (f, r) \<Longrightarrow> length r < length s"
proof (induction s arbitrary: f r rule: quoted.induct)
  case (2 c s)
  then show ?case by (fastforce split: if_splits list.splits)
qed simp

lemma strip_left_length: "length (strip_left seqs s) \<le> length s"
  by (induction seqs s rule: strip_left.induct) (subst strip_left.simps, auto simp: Let_def)

lemma trim_line_length: "length (trim_line t) \<le> length t"
proof -
  have "length (trim_line t) \<le> length (takeWhile (\<lambda>c. c \<noteq> LF) t @ dropWhile (\<lambda>c. c \<noteq> LF) t)"
    unfolding trim_line_def length_append using strip_left_length[of space_seqs "takeWhile (\<lambda>c. c \<noteq> LF) t"] by simp
  then show ?thesis by (simp only: takeWhile_dropWhile_id)
qed

lemma csv_field_length: "csv_field trim t = Some (f, r) \<Longrightarrow> length r \<le> length t"
proof -
  assume a: "csv_field trim t = Some (f, r)"
  let ?t = "if trim then trim_line t else t"
  have l: "length ?t \<le> length t" using trim_line_length by simp
  have "length r \<le> length ?t"
  proof (cases "?t \<noteq> [] \<and> hd ?t = CHR 0x22")
    case True
    with a have "quoted (tl ?t) = Some (f, r)" by (auto simp: csv_field_def Let_def split: option.splits if_splits)
    from quoted_length[OF this] show ?thesis by simp
  next
    case False
    with a have "r = dropWhile (\<lambda>c. \<not> ends_field c) ?t" by (auto simp: csv_field_def Let_def split: if_splits)
    then show ?thesis by (simp add: length_dropWhile_le)
  qed
  with l show ?thesis by simp
qed

text \<open>One record, and what follows its line.\<close>

function csv_record :: "bool \<Rightarrow> string \<Rightarrow> (string list \<times> string) option" where
  "csv_record trim t =
     (case csv_field trim t of
        None \<Rightarrow> None
      | Some (f, []) \<Rightarrow> Some ([f], [])
      | Some (f, c # r) \<Rightarrow> if c = CHR '','' then map_option (apfst (Cons f)) (csv_record trim r) else Some ([f], r))"
  by pat_completeness auto
termination
  by (relation "measure (\<lambda>(trim, t). length t)") (auto dest: csv_field_length)

declare csv_record.simps [simp del]

lemma csv_record_length: "csv_record trim t = Some (fs, r) \<Longrightarrow> t \<noteq> [] \<Longrightarrow> length r < length t"
proof (induction trim t arbitrary: fs r rule: csv_record.induct)
  case (1 trim t)
  obtain f q where f: "csv_field trim t = Some (f, q)" using 1(2) by (subst (asm) csv_record.simps) (auto split: option.splits)
  note l = csv_field_length[OF f]
  show ?case
  proof (cases q)
    case Nil
    then show ?thesis using 1(2,3) f by (subst (asm) csv_record.simps) simp
  next
    case (Cons c q')
    show ?thesis
    proof (cases "c = CHR '','' \<and> q' \<noteq> []")
      case True
      with 1(2) f Cons obtain fs' where "csv_record trim q' = Some (fs', r)" by (subst (asm) csv_record.simps) auto
      with 1(1)[OF f refl Cons _ this] True have "length r < length q'" by simp
      with l Cons show ?thesis by simp
    next
      case False
      show ?thesis
      proof (cases "c = CHR '',''")
        case True
        with False have "q' = []" by simp
        moreover have "csv_field trim [] = Some ([], [])" by (simp add: csv_field_def trim_line_def strip_left.simps)
        ultimately have "r = []" using 1(2) f Cons True
          by (subst (asm) csv_record.simps) (auto simp: csv_record.simps[of trim "[]"])
        then show ?thesis using 1(3) by simp
      next
        case F: False
        with 1(2) f Cons have "r = q'" by (subst (asm) csv_record.simps) auto
        with l Cons show ?thesis by simp
      qed
    qed
  qed
qed

text \<open>The records up to the end of the text, or up to the first malformed one.\<close>

function csv_rows :: "bool \<Rightarrow> string \<Rightarrow> string list list \<times> bool" where
  "csv_rows trim t =
     (case dropWhile (\<lambda>c. c = LF) t of
        [] \<Rightarrow> ([], True)
      | c # t' \<Rightarrow>
          (case csv_record trim (c # t') of
             None \<Rightarrow> ([], False)
           | Some (fs, r) \<Rightarrow> apfst (Cons fs) (csv_rows trim r)))"
  by pat_completeness auto
termination
proof (relation "measure (\<lambda>(trim, t). length t)")
  fix trim :: bool and t c t' x and fs :: "string list" and r
  assume "dropWhile (\<lambda>c. c = LF) t = c # t'" "csv_record trim (c # t') = Some x" "(fs, r) = x"
  with csv_record_length[of trim "c # t'" fs r] have "length r < length (dropWhile (\<lambda>c. c = LF) t)" by simp
  also have "\<dots> \<le> length t" by (rule length_dropWhile_le)
  finally show "((trim, r), (trim, t)) \<in> measure (\<lambda>(trim, t). length t)" by simp
qed simp

declare csv_rows.simps [simp del]

definition read_csv :: "bool \<Rightarrow> string \<Rightarrow> string list list \<times> bool" where
  "read_csv trim t = csv_rows trim (csv_norm t)"

section \<open>Writing\<close>

definition needs_quotes :: "string \<Rightarrow> bool" where
  "needs_quotes f \<longleftrightarrow> f \<noteq> [] \<and>
     (f = [CHR 0x5C, CHR ''.''] \<or> (\<exists>c \<in> set f. c = LF \<or> c = CR \<or> c = CHR 0x22 \<or> c = CHR '','') \<or> 0 < space_prefix space_seqs f)"

definition quote :: "string \<Rightarrow> string" where
  "quote f = concat (map (\<lambda>c. if c = CHR 0x22 then [c, c] else [c]) f)"

definition csv_out :: "string \<Rightarrow> string" where
  "csv_out f = (if needs_quotes f then CHR 0x22 # quote f @ [CHR 0x22] else f)"

definition csv_line :: "string list \<Rightarrow> string" where
  "csv_line fs = str_join '','' (map csv_out fs) @ [LF]"

definition csv_text :: "string list list \<Rightarrow> string" where
  "csv_text rows = concat (map csv_line rows)"

section \<open>Reading back what was written\<close>

lemma quoted_quote: "r = [] \<or> hd r \<noteq> CHR 0x22 \<Longrightarrow> quoted (quote f @ CHR 0x22 # r) = Some (f, r)"
  by (induction f) (auto simp: quote_def split: list.split)

lemma strip_left_stop: "space_prefix seqs (f @ r) = 0 \<Longrightarrow> strip_left seqs (f @ r) = f @ r"
  by (rule strip_left_none)

text \<open>White space in front of a text is seen without what follows a separator.\<close>

lemma space_prefix_append:
  assumes "space_prefix space_seqs f = 0" and "r = [] \<or> hd r = CHR '',''"
  shows "space_prefix space_seqs (f @ r) = 0"
proof (cases r)
  case (Cons c x)
  with assms(2) have c: "c = CHR '',''" by simp
  have ne: "q \<noteq> [] \<and> c \<notin> set q" if "q \<in> set space_seqs" for q using that by (auto simp: space_seqs_def c)
  have "\<not> has_prefix (f @ r) q" if q: "q \<in> set space_seqs" for q
  proof
    assume p: "has_prefix (f @ r) q"
    have "length q \<le> length f"
    proof (rule ccontr)
      assume "\<not> length q \<le> length f"
      then have "c \<in> set (take (length q) (f @ r))" by (cases "length q - length f") (auto simp: Cons)
      with p ne[OF q] show False by (simp add: has_prefix_def)
    qed
    with p have "has_prefix f q" by (simp add: has_prefix_def)
    with q have "find (has_prefix f) space_seqs \<noteq> None" by (auto simp: find_None_iff)
    then obtain q' where q': "find (has_prefix f) space_seqs = Some q'" by auto
    then have "q' \<in> set space_seqs" by (auto simp: find_Some_iff)
    with ne[OF this] q' assms(1) show False by (simp add: space_prefix_def)
  qed
  then have "find (has_prefix (f @ r)) space_seqs = None" by (simp add: find_None_iff)
  then show ?thesis by (simp add: space_prefix_def)
qed (use assms in simp)

lemma space_prefix_plain [simp]: "space_prefix space_seqs (CHR 0x22 # s) = 0" "space_prefix space_seqs [] = 0"
  by (rule space_prefix_none, simp, simp add: space_seqs_def) (simp add: space_prefix_def space_seqs_def has_prefix_def)

lemma trim_line_quote: "trim_line (CHR 0x22 # s) = CHR 0x22 # s"
  by (simp add: trim_line_def strip_left_none LF_def)

lemma trim_line_plain:
  assumes "space_prefix space_seqs f = 0" and "LF \<notin> set f" and "r \<noteq> [] \<longrightarrow> ends_field (hd r)"
  shows "trim_line (f @ r) = f @ r"
proof -
  have t: "takeWhile (\<lambda>c. c \<noteq> LF) (f @ r) = f @ takeWhile (\<lambda>c. c \<noteq> LF) r" "dropWhile (\<lambda>c. c \<noteq> LF) (f @ r) = dropWhile (\<lambda>c. c \<noteq> LF) r"
    using assms(2) by (auto simp: takeWhile_append dropWhile_append)
  have "takeWhile (\<lambda>c. c \<noteq> LF) r = [] \<or> hd (takeWhile (\<lambda>c. c \<noteq> LF) r) = CHR '',''"
    using assms(3) by (cases r) (auto simp: ends_field_def)
  from strip_left_stop[OF space_prefix_append[OF assms(1) this]] t show ?thesis by (simp add: trim_line_def)
qed

lemma csv_field_out:
  assumes "r = [] \<or> ends_field (hd r)"
  shows "csv_field trim (csv_out f @ r) = Some (f, r)"
proof (cases "needs_quotes f")
  case True
  have "r = [] \<or> hd r \<noteq> CHR 0x22" using assms by (auto simp: ends_field_def LF_def)
  from quoted_quote[OF this] assms True show ?thesis by (simp add: csv_field_def csv_out_def trim_line_quote)
next
  case False
  have p: "space_prefix space_seqs f = 0" "LF \<notin> set f" "CHR '','' \<notin> set f" "CHR 0x22 \<notin> set f"
    using False by (auto simp: needs_quotes_def)
  have t: "(if trim then trim_line (f @ r) else f @ r) = f @ r" using trim_line_plain[OF p(1,2), of r] assms by auto
  have n: "\<not> (f @ r \<noteq> [] \<and> hd (f @ r) = CHR 0x22)" using p(4) assms by (cases f) (auto simp: ends_field_def LF_def)
  have e: "\<forall>c \<in> set f. \<not> ends_field c" using p by (auto simp: ends_field_def)
  have "takeWhile (\<lambda>c. \<not> ends_field c) r = []" "dropWhile (\<lambda>c. \<not> ends_field c) r = r" using assms by (cases r; simp)+
  with e have "takeWhile (\<lambda>c. \<not> ends_field c) (f @ r) = f" "dropWhile (\<lambda>c. \<not> ends_field c) (f @ r) = r"
    by (simp_all add: takeWhile_append dropWhile_append)
  moreover have "csv_out f = f" using False by (simp add: csv_out_def)
  ultimately show ?thesis unfolding csv_field_def \<open>csv_out f = f\<close> t Let_def if_not_P[OF n] using p(4) by simp
qed

lemma csv_record_line:
  assumes "fs \<noteq> []"
  shows "csv_record trim (csv_line fs @ r) = Some (fs, r)"
  using assms
proof (induction fs rule: induct_list012)
  case (2 f)
  have "csv_line [f] @ r = csv_out f @ LF # r" by (simp add: csv_line_def)
  then show ?case using csv_field_out[of "LF # r" trim f]
    by (subst csv_record.simps) (simp add: ends_field_def, simp add: LF_def)
next
  case (3 f g fs)
  have "csv_line (f # g # fs) @ r = csv_out f @ CHR '','' # csv_line (g # fs) @ r" by (simp add: csv_line_def)
  then show ?case using csv_field_out[of "CHR '','' # csv_line (g # fs) @ r" trim f] 3(2)
    by (subst csv_record.simps) (simp add: ends_field_def)
qed simp

definition csv_row_ok :: "string list \<Rightarrow> bool" where
  "csv_row_ok fs \<longleftrightarrow> fs \<noteq> [] \<and> fs \<noteq> [[]]"

lemma csv_line_start: "csv_row_ok fs \<Longrightarrow> \<exists>c t. csv_line fs = c # t \<and> c \<noteq> LF"
proof -
  assume ok: "csv_row_ok fs"
  have s: "f \<noteq> [] \<Longrightarrow> \<exists>c t. csv_out f = c # t \<and> c \<noteq> LF" for f
    by (cases f) (auto simp: csv_out_def needs_quotes_def LF_def)
  show ?thesis
  proof (cases fs)
    case (Cons f gs)
    have "csv_out [] = []" by (simp add: csv_out_def needs_quotes_def)
    with Cons ok s[of f] show ?thesis by (cases gs; cases "f = []") (auto simp: csv_row_ok_def csv_line_def LF_def)
  qed (use ok in \<open>simp add: csv_row_ok_def\<close>)
qed

lemma csv_rows_text:
  assumes "list_all csv_row_ok rows"
  shows "csv_rows trim (csv_text rows) = (rows, True)"
  using assms
proof (induction rows)
  case Nil
  then show ?case by (simp add: csv_text_def csv_rows.simps)
next
  case (Cons fs rows)
  then have ok: "csv_row_ok fs" by simp
  obtain c t where l: "csv_line fs = c # t" "c \<noteq> LF" using csv_line_start[OF ok] by blast
  have "csv_text (fs # rows) = csv_line fs @ csv_text rows" by (simp add: csv_text_def)
  moreover have "csv_record trim (c # t @ csv_text rows) = Some (fs, csv_text rows)"
    using csv_record_line[of fs trim "csv_text rows"] ok by (simp add: l(1) csv_row_ok_def)
  ultimately show ?case using Cons l by (subst csv_rows.simps) simp
qed

section \<open>Line ends inside fields\<close>

lemma unix_lines_append:
  "a = [] \<or> last a \<noteq> CR \<or> b = [] \<or> hd b \<noteq> LF \<Longrightarrow> unix_lines (a @ b) = unix_lines a @ unix_lines b"
proof (induction a rule: unix_lines.induct)
  case (1 c d s)
  then show ?case by (cases s) auto
next
  case "2_2"
  fix v assume "[v] = [] \<or> last [v] \<noteq> CR \<or> b = [] \<or> hd b \<noteq> LF"
  then show "unix_lines ([v] @ b) = unix_lines [v] @ unix_lines b" by (cases b) auto
qed simp

lemma set_unix_lines: "c \<noteq> CR \<Longrightarrow> c \<in> set (unix_lines s) \<longleftrightarrow> c \<in> set s"
  by (induction s rule: unix_lines.induct) auto

lemma unix_lines_Nil [simp]: "unix_lines s = [] \<longleftrightarrow> s = []"
  by (induction s rule: unix_lines.induct) auto

lemma unix_lines_last: "last (unix_lines s) = CR \<longleftrightarrow> last s = CR"
  by (induction s rule: unix_lines.induct) (auto simp: CR_def LF_def)

lemma unix_lines_id: "LF \<notin> set s \<Longrightarrow> unix_lines s = s"
  by (induction s rule: unix_lines.induct) auto

lemma unix_lines_quote: "unix_lines (quote s) = quote (unix_lines s)"
proof (induction s rule: unix_lines.induct)
  case (1 c d s)
  show ?case
  proof (cases "c = CR \<and> d = LF")
    case True
    with 1 show ?thesis by (simp add: quote_def LF_def CR_def)
  next
    case False
    let ?q = "\<lambda>c. if c = CHR 0x22 then [c, c] else [c]"
    have q: "quote (x # xs) = ?q x @ quote xs" for x xs by (simp add: quote_def)
    have "quote (c # d # s) = ?q c @ quote (d # s)" by (rule q)
    moreover have "unix_lines (?q c @ quote (d # s)) = unix_lines (?q c) @ unix_lines (quote (d # s))"
      using False by (intro unix_lines_append) (auto simp: quote_def LF_def CR_def)
    moreover have "unix_lines (?q c) = ?q c" by (simp add: CR_def LF_def)
    moreover have "unix_lines (c # d # s) = c # unix_lines (d # s)"
      unfolding unix_lines.simps(1) if_not_P[OF False] by (rule refl)
    ultimately show ?thesis using 1(2)[OF False] q[of c "unix_lines (d # s)"] by presburger
  qed
qed (simp_all add: quote_def CR_def LF_def)

lemma needs_quotes_lines: "needs_quotes (unix_lines f) = needs_quotes f"
proof (cases "LF \<in> set f")
  case True
  have "LF \<noteq> CR" by (simp add: LF_def CR_def)
  then have "LF \<in> set (unix_lines f)" using True by (simp add: set_unix_lines)
  with True show ?thesis by (auto simp: needs_quotes_def)
next
  case False
  then show ?thesis by (simp add: unix_lines_id)
qed

lemma csv_out_lines: "unix_lines (csv_out f) = csv_out (unix_lines f)"
proof (cases "needs_quotes f")
  case True
  have q: "CHR 0x22 \<noteq> CR" "CHR 0x22 \<noteq> LF" by (simp_all add: CR_def LF_def)
  have "unix_lines ([CHR 0x22] @ (quote f @ [CHR 0x22])) = [CHR 0x22] @ unix_lines (quote f) @ [CHR 0x22]"
    using q by (subst unix_lines_append, simp) (subst unix_lines_append, simp_all)
  with True show ?thesis by (simp add: csv_out_def needs_quotes_lines unix_lines_quote)
next
  case False
  then have "LF \<notin> set f" by (auto simp: needs_quotes_def)
  with False show ?thesis by (simp add: csv_out_def unix_lines_id)
qed

lemma csv_out_last: "csv_out f \<noteq> [] \<Longrightarrow> last (csv_out f) \<noteq> CR"
proof (cases "needs_quotes f")
  case True
  then show ?thesis by (simp add: csv_out_def CR_def)
next
  case False
  assume "csv_out f \<noteq> []"
  with False have f: "f \<noteq> []" "csv_out f = f" by (simp_all add: csv_out_def)
  with False have "\<forall>c \<in> set f. c \<noteq> CR" by (simp add: needs_quotes_def)
  with f show ?thesis by simp
qed

lemma csv_line_lines: "unix_lines (csv_line fs) = csv_line (map unix_lines fs)"
proof (induction fs rule: induct_list012)
  case 1
  then show ?case by (simp add: csv_line_def)
next
  case (2 f)
  have "unix_lines (csv_out f @ [LF]) = unix_lines (csv_out f) @ [LF]"
    using csv_out_last[of f] by (subst unix_lines_append) auto
  then show ?case by (simp add: csv_line_def csv_out_lines)
next
  case (3 f g fs)
  have n: "CHR '','' \<noteq> CR" "CHR '','' \<noteq> LF" by (simp_all add: CR_def LF_def)
  have "csv_line (f # g # fs) = csv_out f @ [CHR '',''] @ csv_line (g # fs)" by (simp add: csv_line_def)
  also have "unix_lines \<dots> = unix_lines (csv_out f) @ [CHR '',''] @ unix_lines (csv_line (g # fs))"
    using csv_out_last[of f] n by (subst unix_lines_append, simp) (subst unix_lines_append, simp_all)
  finally show ?case using 3(2) by (simp add: csv_line_def csv_out_lines)
qed

lemma csv_line_last: "last (csv_line fs) = LF" "csv_line fs \<noteq> []"
  by (simp_all add: csv_line_def)

lemma csv_text_lines: "unix_lines (csv_text rows) = csv_text (map (map unix_lines) rows)"
proof (induction rows)
  case (Cons fs rows)
  have "last (csv_line fs) \<noteq> CR" by (simp add: csv_line_last CR_def LF_def)
  with Cons show ?case by (simp add: csv_text_def unix_lines_append csv_line_lines)
qed (simp add: csv_text_def)

text \<open>What the writer wrote is read back row by row; only a CR LF inside a field becomes LF. The rows
  that are lost are those the writer renders as an empty line.\<close>

lemma csv_round_trip:
  assumes "list_all csv_row_ok rows"
  shows "read_csv trim (csv_text rows) = (map (map unix_lines) rows, True)"
proof -
  have "csv_text rs = [] \<or> last (csv_text rs) \<noteq> CR" for rs
    by (induction rs rule: rev_induct) (simp_all add: csv_text_def csv_line_last, simp add: CR_def LF_def)
  then have n: "csv_norm (csv_text rows) = csv_text (map (map unix_lines) rows)"
    by (auto simp: csv_norm_def csv_text_lines Let_def)
  have "csv_row_ok (map unix_lines fs) = csv_row_ok fs" for fs by (cases fs) (auto simp: csv_row_ok_def)
  then have "list_all csv_row_ok (map (map unix_lines) rows)" using assms by (simp add: list_all_iff)
  from csv_rows_text[OF this, of trim] n show ?thesis by (simp add: read_csv_def)
qed

text \<open>The rows a reader yields are never without fields.\<close>

lemma csv_rows_ne: "csv_rows trim t = (rows, full) \<Longrightarrow> fs \<in> set rows \<Longrightarrow> fs \<noteq> []"
proof (induction trim t arbitrary: rows full rule: csv_rows.induct)
  case (1 trim t)
  from 1(2,3) obtain c t' gs r where t: "dropWhile (\<lambda>c. c = LF) t = c # t'" "csv_record trim (c # t') = Some (gs, r)"
    by (subst (asm) csv_rows.simps) (auto split: list.splits option.splits)
  obtain rows' f' where r: "csv_rows trim r = (rows', f')" by fastforce
  have rows: "rows = gs # rows'" using 1(2) t r by (subst (asm) csv_rows.simps) simp
  have "gs \<noteq> []" using t(2) by (subst (asm) csv_record.simps) (auto split: option.splits list.splits if_splits)
  with 1(1)[OF t refl r] 1(3) rows show ?case by auto
qed

end
