(* ===== verification/VaultRefs.thy ===== *)
theory VaultRefs
  imports Vault Schedule Config CsvText
begin

text \<open>
  Vault references (vault/refs.go): the marker that stands for a secret, its resolution in strings,
  in user CSVs and in a start request (web/vault_refs.go), and the migration of the plaintext
  credentials of all schedules into the vault (web/vault_migrate.go).
\<close>

section \<open>Markers\<close>

definition refPrefix :: string where "refPrefix = ''$vault:''"

definition IsRef :: "string \<Rightarrow> bool" where
  "IsRef s \<longleftrightarrow> has_prefix s refPrefix"

definition MakeRef :: "string \<Rightarrow> string \<Rightarrow> string" where
  "MakeRef namespace key = refPrefix @ namespace @ '':'' @ key"

definition RefKey :: "string \<Rightarrow> string option" where
  "RefKey s = (if \<not> IsRef s then None else Some (trim_prefix s refPrefix))"

text \<open>\<open>ResolveString\<close>: the text, whether it is a marker, and whether its secret was found.\<close>

definition ResolveString :: "string \<Rightarrow> vault option \<Rightarrow> string \<times> bool \<times> bool" where
  "ResolveString s vault =
     (case RefKey s of
        None \<Rightarrow> (s, False, False)
      | Some key \<Rightarrow>
          (case vault of
             None \<Rightarrow> (s, True, False)
           | Some v \<Rightarrow> (case vault_Get key v of None \<Rightarrow> (s, True, False) | Some plain \<Rightarrow> (plain, True, True))))"

definition resolve_row :: "vault option \<Rightarrow> string list \<Rightarrow> string list" where
  "resolve_row vault row =
     (if 2 \<le> length row
      then case ResolveString (row ! 1) vault of (resolved, isRef, found) \<Rightarrow>
             if isRef \<and> found then row[1 := resolved] else row
      else row)"

definition ResolveCSV :: "string \<Rightarrow> vault option \<Rightarrow> string" where
  "ResolveCSV input vault =
     (if input = [] then input else csv_text (map (resolve_row vault) (fst (read_csv False input))))"

text \<open>The credentials of a start request; the other fields are the rest of the record.\<close>

record start_creds =
  TargetPassword :: string
  PrivateKeyPEM :: string
  PrivateKeyPassphrase :: string
  BastionPass :: string
  BastionPrivateKeyPEM :: string
  BastionPassphrase :: string
  NormalUsersCSV :: string
  LargeUsersCSV :: string
  DownloadUsersCSV :: string

definition resolveStr :: "vault option \<Rightarrow> string \<Rightarrow> string" where
  "resolveStr vault s = fst (ResolveString s vault)"

definition resolveStartReqVaultRefs :: "'a start_creds_scheme \<Rightarrow> vault option \<Rightarrow> 'a start_creds_scheme" where
  "resolveStartReqVaultRefs req vault =
     req\<lparr>TargetPassword := resolveStr vault (TargetPassword req),
         PrivateKeyPEM := resolveStr vault (PrivateKeyPEM req),
         PrivateKeyPassphrase := resolveStr vault (PrivateKeyPassphrase req),
         BastionPass := resolveStr vault (BastionPass req),
         BastionPassphrase := resolveStr vault (BastionPassphrase req),
         BastionPrivateKeyPEM := resolveStr vault (BastionPrivateKeyPEM req),
         NormalUsersCSV := ResolveCSV (NormalUsersCSV req) vault,
         LargeUsersCSV := ResolveCSV (LargeUsersCSV req) vault,
         DownloadUsersCSV := ResolveCSV (DownloadUsersCSV req) vault\<rparr>"

section \<open>The scan\<close>

record migration_candidate =
  cand_schedule :: string
  cand_field :: string
  cand_ref :: string

text \<open>\<open>add\<close> of \<open>scheduleCandidates\<close>.\<close>

definition add_candidate :: "string \<Rightarrow> string \<Rightarrow> string \<Rightarrow> migration_candidate list" where
  "add_candidate ident field v =
     (if v = [] \<or> IsRef v then []
      else [\<lparr>cand_schedule = ident, cand_field = field, cand_ref = ''schedule:'' @ ident @ ''/'' @ field\<rparr>])"

definition row_candidates :: "string \<Rightarrow> string \<Rightarrow> string list \<Rightarrow> migration_candidate list" where
  "row_candidates ident kind row =
     (if length row < 2 then []
      else if row ! 1 = [] \<or> IsRef (row ! 1) then []
      else [\<lparr>cand_schedule = ident, cand_field = kind @ ''.csv:'' @ row ! 0,
             cand_ref = ''schedule:'' @ ident @ ''/'' @ kind @ ''.'' @ row ! 0\<rparr>])"

definition csvCandidates :: "string \<Rightarrow> string \<Rightarrow> string \<Rightarrow> migration_candidate list" where
  "csvCandidates ident kind body =
     (if body = [] then [] else concat (map (row_candidates ident kind) (fst (read_csv False body))))"

definition user_lists :: "'a start_creds_scheme \<Rightarrow> (string \<times> string) list" where
  "user_lists cfg =
     [(''normal_users'', NormalUsersCSV cfg), (''large_users'', LargeUsersCSV cfg), (''download_users'', DownloadUsersCSV cfg)]"

text \<open>The three user lists are visited in the order of a Go map, which \<open>ks\<close> permutes.\<close>

definition scheduleCandidates ::
  "((string \<times> string) list \<Rightarrow> (string \<times> string) list) \<Rightarrow> 'a start_creds_scheme schedule \<Rightarrow> migration_candidate list" where
  "scheduleCandidates ks sch =
     (let cfg = sc_config sch; ident = sc_id sch in
      add_candidate ident ''target_password'' (TargetPassword cfg)
      @ add_candidate ident ''private_key_pem'' (PrivateKeyPEM cfg)
      @ add_candidate ident ''private_key_passphrase'' (PrivateKeyPassphrase cfg)
      @ add_candidate ident ''bastion_pass'' (BastionPass cfg)
      @ add_candidate ident ''bastion_private_key_pem'' (BastionPrivateKeyPEM cfg)
      @ add_candidate ident ''bastion_passphrase'' (BastionPassphrase cfg)
      @ concat (map (\<lambda>(kind, body). csvCandidates ident kind body) (ks (user_lists cfg))))"

definition scanScheduleSecrets ::
  "((string \<times> string) list \<Rightarrow> (string \<times> string) list) \<Rightarrow> string list \<Rightarrow> 'a start_creds_scheme schedules option \<Rightarrow>
    migration_candidate list" where
  "scanScheduleSecrets ks names store =
     (case store of None \<Rightarrow> [] | Some disk \<Rightarrow> concat (map (scheduleCandidates ks) (sched_list names disk)))"

section \<open>The migration\<close>

datatype migration_failure = SetFailed string vault_error | SaveOf string

record migration =
  mg_v :: vault
  mg_migrated :: nat
  mg_changed :: bool
  mg_failed :: "migration_failure list"

text \<open>\<open>makeRefMarker\<close> splits at the first colon only to put it back.\<close>

definition makeRefMarker :: "string \<Rightarrow> string" where
  "makeRefMarker refKey =
     (if CHR '':'' \<in> set refKey
      then MakeRef (takeWhile (\<lambda>c. c \<noteq> CHR '':'') refKey) (tl (dropWhile (\<lambda>c. c \<noteq> CHR '':'') refKey))
      else MakeRef [] refKey)"

definition store_secret :: "string \<Rightarrow> string \<Rightarrow> string \<Rightarrow> string \<Rightarrow> migration \<Rightarrow> string \<times> migration" where
  "store_secret refKey label v marker m =
     (case vault_Set refKey v (mg_v m) of
        (Some err, vlt) \<Rightarrow> (v, m\<lparr>mg_v := vlt, mg_failed := mg_failed m @ [SetFailed label err]\<rparr>)
      | (None, vlt) \<Rightarrow> (marker, m\<lparr>mg_v := vlt, mg_migrated := mg_migrated m + 1, mg_changed := True\<rparr>))"

definition moveScalar :: "string \<Rightarrow> string \<Rightarrow> string \<Rightarrow> migration \<Rightarrow> string \<times> migration" where
  "moveScalar ident refField v m =
     (if v = [] \<or> IsRef v then (v, m)
      else
        let refKey = ''schedule:'' @ ident @ ''/'' @ refField
        in store_secret refKey (ident @ ''/'' @ refField) v (makeRefMarker refKey) m)"

definition migrate_row :: "string \<Rightarrow> string \<Rightarrow> string list \<Rightarrow> migration \<Rightarrow> string list \<times> migration" where
  "migrate_row ident kind row m =
     (if 2 \<le> length row \<and> row ! 1 \<noteq> [] \<and> \<not> IsRef (row ! 1)
      then
        let ref = ''schedule:'' @ ident @ ''/'' @ kind @ ''.'' @ row ! 0
        in apfst (\<lambda>s. row[1 := s]) (store_secret ref ref (row ! 1) (makeRefMarker ref) m)
      else (row, m))"

fun migrate_rows :: "string \<Rightarrow> string \<Rightarrow> string list list \<Rightarrow> migration \<Rightarrow> string list list \<times> migration" where
  "migrate_rows ident kind [] m = ([], m)"
| "migrate_rows ident kind (row # rows) m =
     (case migrate_row ident kind row m of
        (row', m') \<Rightarrow> apfst (Cons row') (migrate_rows ident kind rows m'))"

definition migrateCSV :: "string \<Rightarrow> string \<Rightarrow> string \<Rightarrow> migration \<Rightarrow> string \<times> migration" where
  "migrateCSV ident kind body m =
     (if body = [] then (body, m) else apfst csv_text (migrate_rows ident kind (fst (read_csv False body)) m))"

definition migrate_config :: "string \<Rightarrow> 'a start_creds_scheme \<Rightarrow> migration \<Rightarrow> 'a start_creds_scheme \<times> migration" where
  "migrate_config ident cfg m =
     (let (tp, m) = moveScalar ident ''target_password'' (TargetPassword cfg) m;
          (pk, m) = moveScalar ident ''private_key_pem'' (PrivateKeyPEM cfg) m;
          (pp, m) = moveScalar ident ''private_key_passphrase'' (PrivateKeyPassphrase cfg) m;
          (bp, m) = moveScalar ident ''bastion_pass'' (BastionPass cfg) m;
          (bk, m) = moveScalar ident ''bastion_private_key_pem'' (BastionPrivateKeyPEM cfg) m;
          (bf, m) = moveScalar ident ''bastion_passphrase'' (BastionPassphrase cfg) m;
          (nu, m) = migrateCSV ident ''normal_users'' (NormalUsersCSV cfg) m;
          (lu, m) = migrateCSV ident ''large_users'' (LargeUsersCSV cfg) m;
          (du, m) = migrateCSV ident ''download_users'' (DownloadUsersCSV cfg) m
      in (cfg\<lparr>TargetPassword := tp, PrivateKeyPEM := pk, PrivateKeyPassphrase := pp, BastionPass := bp,
              BastionPrivateKeyPEM := bk, BastionPassphrase := bf, NormalUsersCSV := nu, LargeUsersCSV := lu,
              DownloadUsersCSV := du\<rparr>, m))"

text \<open>\<open>save_ok\<close> says which schedule files can be written.\<close>

fun migrate_schedules ::
  "(string \<Rightarrow> bool) \<Rightarrow> 'a start_creds_scheme schedule list \<Rightarrow> 'a start_creds_scheme schedules \<Rightarrow> migration \<Rightarrow>
    'a start_creds_scheme schedules \<times> migration" where
  "migrate_schedules save_ok [] disk m = (disk, m)"
| "migrate_schedules save_ok (sch # schs) disk m =
     (case migrate_config (sc_id sch) (sc_config sch) (m\<lparr>mg_changed := False\<rparr>) of
        (cfg, m1) \<Rightarrow>
          if mg_changed m1
          then (case sched_save (save_ok (sc_id sch)) (sch\<lparr>sc_config := cfg\<rparr>) disk of
                  None \<Rightarrow> migrate_schedules save_ok schs disk (m1\<lparr>mg_failed := mg_failed m1 @ [SaveOf (sc_id sch)]\<rparr>)
                | Some disk' \<Rightarrow> migrate_schedules save_ok schs disk' m1)
          else migrate_schedules save_ok schs disk m1)"

text \<open>The result: how many secrets moved and what failed, the schedule files, the vault, and its
  file. The error of the final save is dropped.\<close>

definition applyScheduleMigrations ::
  "crypto \<Rightarrow> save_env \<Rightarrow> (string \<Rightarrow> bool) \<Rightarrow> string list \<Rightarrow> 'a start_creds_scheme schedules option \<Rightarrow> vault option \<Rightarrow> disk_file \<Rightarrow>
    (nat \<times> migration_failure list) \<times> 'a start_creds_scheme schedules option \<times> vault option \<times> disk_file" where
  "applyScheduleMigrations cr e save_ok names store vlt file =
     (case (store, vlt) of
        (Some disk, Some v) \<Rightarrow>
          (case migrate_schedules save_ok (sched_list names disk) disk
                  \<lparr>mg_v = v, mg_migrated = 0, mg_changed = False, mg_failed = []\<rparr> of
             (disk', m) \<Rightarrow>
               if 0 < mg_migrated m
               then (case vault_Save cr e (mg_v m) file of
                       (_, v', file') \<Rightarrow> ((mg_migrated m, mg_failed m), Some disk', Some v', file'))
               else ((mg_migrated m, mg_failed m), Some disk', Some (mg_v m), file))
      | _ \<Rightarrow> ((0, []), store, vlt, file))"

datatype migrate_reply = ScanReply "migration_candidate list" nat | ApplyReply nat "migration_failure list" bool | MigrateHttp int

definition handleVaultMigrateScan ::
  "((string \<times> string) list \<Rightarrow> (string \<times> string) list) \<Rightarrow> string list \<Rightarrow> bool \<Rightarrow> 'a start_creds_scheme schedules option \<Rightarrow>
    migrate_reply" where
  "handleVaultMigrateScan ks names is_get store =
     (if \<not> is_get then MigrateHttp 405
      else let candidates = scanScheduleSecrets ks names store in ScanReply candidates (length candidates))"

definition handleVaultMigrateApply ::
  "crypto \<Rightarrow> save_env \<Rightarrow> (string \<Rightarrow> bool) \<Rightarrow> string list \<Rightarrow> int \<Rightarrow> bool \<Rightarrow> 'a start_creds_scheme schedules option \<Rightarrow> vault_state \<Rightarrow>
    migrate_reply \<times> 'a start_creds_scheme schedules option \<times> vault_state" where
  "handleVaultMigrateApply cr e save_ok names now post store st =
     (if \<not> post then (MigrateHttp 405, store, st)
      else case bound_get now (fst st) of
        (None, b) \<Rightarrow> (MigrateHttp 403, store, (b, snd st))
      | (Some v, b) \<Rightarrow>
          (case applyScheduleMigrations cr e save_ok names store (Some v) (snd st) of
             ((migrated, failed), store', v', file') \<Rightarrow>
               (ApplyReply migrated failed (0 < length failed), store', (b\<lparr>bd_v := v'\<rparr>, file'))))"

section \<open>What a migration does\<close>

definition plain :: "string \<Rightarrow> bool" where
  "plain s \<longleftrightarrow> s \<noteq> [] \<and> \<not> IsRef s"

text \<open>Storing a list of secrets one after the other.\<close>

definition puts :: "(string \<times> string) list \<Rightarrow> migration \<Rightarrow> migration" where
  "puts es m = m\<lparr>mg_v := (mg_v m)\<lparr>v_secrets := v_secrets (mg_v m) ++ map_of (rev es)\<rparr>,
     mg_migrated := mg_migrated m + length es, mg_changed := mg_changed m \<or> es \<noteq> []\<rparr>"

lemma puts_puts: "puts es2 (puts es1 m) = puts (es1 @ es2) m"
  by (simp add: puts_def)

lemma puts_Nil [simp]: "puts [] m = m"
  by (simp add: puts_def)

definition entry :: "string \<Rightarrow> string \<Rightarrow> string \<Rightarrow> (string \<times> string) list" where
  "entry ident field x = (if plain x then [(''schedule:'' @ ident @ ''/'' @ field, x)] else [])"

definition moved :: "string \<Rightarrow> string \<Rightarrow> string \<Rightarrow> string" where
  "moved ident field x = (if plain x then refPrefix @ ''schedule:'' @ ident @ ''/'' @ field else x)"

definition row_field :: "string \<Rightarrow> string list \<Rightarrow> string" where
  "row_field kind row = kind @ ''.'' @ row ! 0"

definition row_entry :: "string \<Rightarrow> string \<Rightarrow> string list \<Rightarrow> (string \<times> string) list" where
  "row_entry ident kind row = (if 2 \<le> length row then entry ident (row_field kind row) (row ! 1) else [])"

definition moved_row :: "string \<Rightarrow> string \<Rightarrow> string list \<Rightarrow> string list" where
  "moved_row ident kind row = (if 2 \<le> length row then row[1 := moved ident (row_field kind row) (row ! 1)] else row)"

definition csv_entries :: "string \<Rightarrow> string \<Rightarrow> string \<Rightarrow> (string \<times> string) list" where
  "csv_entries ident kind body = (if body = [] then [] else concat (map (row_entry ident kind) (fst (read_csv False body))))"

definition moved_csv :: "string \<Rightarrow> string \<Rightarrow> string \<Rightarrow> string" where
  "moved_csv ident kind body = (if body = [] then [] else csv_text (map (moved_row ident kind) (fst (read_csv False body))))"

lemma makeRefMarker_schedule: "makeRefMarker (''schedule:'' @ x) = refPrefix @ ''schedule:'' @ x"
  by (simp add: makeRefMarker_def MakeRef_def)

lemma store_secret_plain:
  "plain x \<Longrightarrow> store_secret (''schedule:'' @ k) label x mk m = (mk, puts [(''schedule:'' @ k, x)] m)"
  by (simp add: store_secret_def vault_Set_def plain_def puts_def)

lemma moveScalar_eq: "moveScalar ident field x m = (moved ident field x, puts (entry ident field x) m)"
  using store_secret_plain[of x "ident @ ''/'' @ field"] makeRefMarker_schedule[of "ident @ ''/'' @ field"]
  by (auto simp: moveScalar_def moved_def entry_def plain_def Let_def)

lemma migrate_row_eq: "migrate_row ident kind row m = (moved_row ident kind row, puts (row_entry ident kind row) m)"
proof (cases "2 \<le> length row \<and> plain (row ! 1)")
  case True
  let ?k = "ident @ ''/'' @ kind @ ''.'' @ row ! 0"
  from True store_secret_plain[of "row ! 1" ?k] makeRefMarker_schedule[of ?k] show ?thesis
    by (auto simp: migrate_row_def moved_row_def row_entry_def moved_def entry_def row_field_def plain_def Let_def)
next
  case False
  then have "migrate_row ident kind row m = (row, m)" by (auto simp: migrate_row_def plain_def)
  with False show ?thesis by (simp add: moved_row_def row_entry_def moved_def entry_def)
qed

lemma migrate_rows_eq:
  "migrate_rows ident kind rows m = (map (moved_row ident kind) rows, puts (concat (map (row_entry ident kind) rows)) m)"
  by (induction rows arbitrary: m) (simp_all add: migrate_row_eq puts_puts)

lemma migrateCSV_eq: "migrateCSV ident kind body m = (moved_csv ident kind body, puts (csv_entries ident kind body) m)"
  by (simp add: migrateCSV_def migrate_rows_eq moved_csv_def csv_entries_def)

definition moved_config :: "string \<Rightarrow> 'a start_creds_scheme \<Rightarrow> 'a start_creds_scheme" where
  "moved_config ident cfg =
     cfg\<lparr>TargetPassword := moved ident ''target_password'' (TargetPassword cfg),
         PrivateKeyPEM := moved ident ''private_key_pem'' (PrivateKeyPEM cfg),
         PrivateKeyPassphrase := moved ident ''private_key_passphrase'' (PrivateKeyPassphrase cfg),
         BastionPass := moved ident ''bastion_pass'' (BastionPass cfg),
         BastionPrivateKeyPEM := moved ident ''bastion_private_key_pem'' (BastionPrivateKeyPEM cfg),
         BastionPassphrase := moved ident ''bastion_passphrase'' (BastionPassphrase cfg),
         NormalUsersCSV := moved_csv ident ''normal_users'' (NormalUsersCSV cfg),
         LargeUsersCSV := moved_csv ident ''large_users'' (LargeUsersCSV cfg),
         DownloadUsersCSV := moved_csv ident ''download_users'' (DownloadUsersCSV cfg)\<rparr>"

definition config_entries :: "string \<Rightarrow> 'a start_creds_scheme \<Rightarrow> (string \<times> string) list" where
  "config_entries ident cfg =
     entry ident ''target_password'' (TargetPassword cfg)
     @ entry ident ''private_key_pem'' (PrivateKeyPEM cfg)
     @ entry ident ''private_key_passphrase'' (PrivateKeyPassphrase cfg)
     @ entry ident ''bastion_pass'' (BastionPass cfg)
     @ entry ident ''bastion_private_key_pem'' (BastionPrivateKeyPEM cfg)
     @ entry ident ''bastion_passphrase'' (BastionPassphrase cfg)
     @ concat (map (\<lambda>(kind, body). csv_entries ident kind body) (user_lists cfg))"

lemma migrate_config_eq: "migrate_config ident cfg m = (moved_config ident cfg, puts (config_entries ident cfg) m)"
  unfolding migrate_config_def moveScalar_eq migrateCSV_eq Let_def case_prod_conv puts_puts
  by (simp only: moved_config_def config_entries_def user_lists_def list.map concat.simps case_prod_conv append_assoc append_Nil2)

text \<open>The scan lists exactly what the migration stores.\<close>

lemma add_candidate_refs: "map cand_ref (add_candidate ident field x) = map fst (entry ident field x)"
  by (simp add: add_candidate_def entry_def plain_def)

lemma csv_candidate_refs: "map cand_ref (csvCandidates ident kind body) = map fst (csv_entries ident kind body)"
proof -
  have "map cand_ref (row_candidates ident kind row) = map fst (row_entry ident kind row)" for row
    by (auto simp: row_candidates_def row_entry_def entry_def plain_def row_field_def)
  then show ?thesis by (simp add: csvCandidates_def csv_entries_def map_concat comp_def)
qed

definition sched_entries :: "'a start_creds_scheme schedule \<Rightarrow> (string \<times> string) list" where
  "sched_entries sch = config_entries (sc_id sch) (sc_config sch)"

lemma schedule_candidate_refs:
  assumes "\<And>xs. mset (ks xs) = mset xs"
  shows "mset (map cand_ref (scheduleCandidates ks sch)) = mset (map fst (sched_entries sch))"
proof -
  let ?c = "\<lambda>(kind, body). map fst (csv_entries (sc_id sch) kind body)"
  have "mset (map cand_ref (concat (map (\<lambda>(kind, body). csvCandidates (sc_id sch) kind body) xs))) = \<Sum>\<^sub># (image_mset (mset \<circ> ?c) (mset xs))"
    "mset (map fst (concat (map (\<lambda>(kind, body). csv_entries (sc_id sch) kind body) xs))) = \<Sum>\<^sub># (image_mset (mset \<circ> ?c) (mset xs))" for xs
    by (induction xs) (auto simp: csv_candidate_refs simp flip: mset_map)
  then have "mset (map cand_ref (concat (map (\<lambda>(kind, body). csvCandidates (sc_id sch) kind body) (ks xs)))) =
      mset (map fst (concat (map (\<lambda>(kind, body). csv_entries (sc_id sch) kind body) xs)))" for xs
    using assms by simp
  then show ?thesis
    by (simp only: scheduleCandidates_def sched_entries_def config_entries_def Let_def map_append add_candidate_refs mset_append)
qed

lemma scan_refs:
  assumes "\<And>xs. mset (ks xs) = mset xs"
  shows "mset (map cand_ref (concat (map (scheduleCandidates ks) schs))) = mset (map fst (concat (map sched_entries schs)))"
proof (induction schs)
  case (Cons sch schs)
  then show ?case
    unfolding list.map concat.simps map_append mset_append schedule_candidate_refs[of ks sch, OF assms] by (rule arg_cong)
qed simp

text \<open>The whole loop: the vault receives every entry, and a schedule file is either untouched or
  replaced by its migrated form.\<close>

lemma migrate_schedules_eq:
  assumes "migrate_schedules save_ok schs disk m = (disk', m')"
  shows "mg_v m' = mg_v (puts (concat (map sched_entries schs)) m)"
    and "mg_migrated m' = mg_migrated m + length (concat (map sched_entries schs))"
    and "disk' n = disk n \<or> (\<exists>s \<in> set schs. sc_id s = n \<and> disk' n = Some (Some (s\<lparr>sc_config := moved_config (sc_id s) (sc_config s)\<rparr>)))"
    and "set (mg_failed m') \<subseteq> set (mg_failed m) \<union> {SaveOf i |i. \<not> save_ok i}"
  using assms
proof (atomize (full), induction schs arbitrary: disk m)
  case (Cons s schs)
  let ?m1 = "puts (sched_entries s) (m\<lparr>mg_changed := False\<rparr>)"
  let ?s = "s\<lparr>sc_config := moved_config (sc_id s) (sc_config s)\<rparr>"
  have c: "migrate_config (sc_id s) (sc_config s) (m\<lparr>mg_changed := False\<rparr>) = (moved_config (sc_id s) (sc_config s), ?m1)"
    by (simp add: migrate_config_eq sched_entries_def)
  have p: "mg_v (puts es (?m1\<lparr>mg_failed := fs\<rparr>)) = mg_v (puts (sched_entries s @ es) m)" "mg_migrated ?m1 = mg_migrated m + length (sched_entries s)"
      "mg_v (puts es ?m1) = mg_v (puts (sched_entries s @ es) m)" "mg_failed ?m1 = mg_failed m" for es fs
    by (simp_all add: puts_def)
  note st = c p
  consider (keep) "migrate_schedules save_ok (s # schs) disk m = migrate_schedules save_ok schs disk ?m1"
    | (fail) "\<not> save_ok (sc_id s)" "migrate_schedules save_ok (s # schs) disk m =
        migrate_schedules save_ok schs disk (?m1\<lparr>mg_failed := mg_failed ?m1 @ [SaveOf (sc_id s)]\<rparr>)"
    | (save) "migrate_schedules save_ok (s # schs) disk m = migrate_schedules save_ok schs (disk(sc_id s \<mapsto> Some ?s)) ?m1"
    using c by (cases "mg_changed ?m1"; cases "save_ok (sc_id s)") (auto simp: sched_save_def)
  then show ?case
  proof cases
    case keep
    from Cons.IH[of disk ?m1] Cons.prems[unfolded keep] show ?thesis by (auto simp: p)
  next
    case fail
    from Cons.IH[of disk "?m1\<lparr>mg_failed := mg_failed ?m1 @ [SaveOf (sc_id s)]\<rparr>"] fail(1) Cons.prems[unfolded fail(2)]
    show ?thesis by (auto simp: p)
  next
    case save
    note h = Cons.IH[OF Cons.prems[unfolded save]]
    from h[THEN conjunct2, THEN conjunct1] have "disk' n = disk n \<or>
        (\<exists>s \<in> set (s # schs). sc_id s = n \<and> disk' n = Some (Some (s\<lparr>sc_config := moved_config (sc_id s) (sc_config s)\<rparr>)))"
      by (auto simp: fun_upd_apply split: if_splits)
    with h show ?thesis by (simp add: p)
  qed
qed simp

section \<open>A migration changes no run\<close>

text \<open>The keys of the markers a configuration already holds.\<close>

definition str_refs :: "string \<Rightarrow> string list" where
  "str_refs x = (case RefKey x of None \<Rightarrow> [] | Some k \<Rightarrow> [k])"

definition csv_refs :: "string \<Rightarrow> string list" where
  "csv_refs body = concat (map (\<lambda>row. if 2 \<le> length row then str_refs (row ! 1) else []) (fst (read_csv False body)))"

definition config_refs :: "'a start_creds_scheme \<Rightarrow> string list" where
  "config_refs cfg =
     concat (map str_refs [TargetPassword cfg, PrivateKeyPEM cfg, PrivateKeyPassphrase cfg, BastionPass cfg,
       BastionPrivateKeyPEM cfg, BastionPassphrase cfg]) @ concat (map (\<lambda>(kind, body). csv_refs body) (user_lists cfg))"

text \<open>The user lists survive a rewrite: every row is written and read back as it is.\<close>

definition csv_clean :: "string \<Rightarrow> bool" where
  "csv_clean body \<longleftrightarrow> list_all (\<lambda>row. csv_row_ok row \<and> list_all (\<lambda>f. CR \<notin> set f) row) (fst (read_csv False body))"

definition sched_clean :: "'a start_creds_scheme schedule \<Rightarrow> bool" where
  "sched_clean sch \<longleftrightarrow> CR \<notin> set (sc_id sch) \<and> list_all (\<lambda>(kind, body). csv_clean body) (user_lists (sc_config sch))"

text \<open>The vault after the migration, seen from a configuration.\<close>

definition agrees :: "(string \<times> string) list \<Rightarrow> string list \<Rightarrow> vault \<Rightarrow> vault \<Rightarrow> bool" where
  "agrees es refs v v' \<longleftrightarrow> (\<forall>(k, x) \<in> set es. v_secrets v' k = Some x) \<and> (\<forall>k \<in> set refs. v_secrets v' k = v_secrets v k)"

lemma agrees_append: "agrees (es1 @ es2) (r1 @ r2) v v' \<longleftrightarrow> agrees es1 r1 v v' \<and> agrees es2 r2 v v'"
  by (auto simp: agrees_def)

lemma RefKey_marker [simp]: "RefKey (refPrefix @ k) = Some k"
  by (simp add: RefKey_def IsRef_def)

lemma resolve_moved:
  assumes "agrees (entry ident field x) (str_refs x) v v'"
  shows "ResolveString (moved ident field x) (Some v') =
    (if plain x then (x, True, True) else ResolveString x (Some v))"
proof (cases "plain x")
  case True
  with assms show ?thesis by (simp add: agrees_def entry_def moved_def ResolveString_def vault_Get_def)
next
  case False
  then have m: "moved ident field x = x" by (simp add: moved_def)
  show ?thesis
  proof (cases "RefKey x")
    case None
    with m False show ?thesis by (simp add: ResolveString_def)
  next
    case (Some k)
    with assms have "v_secrets v' k = v_secrets v k" by (simp add: agrees_def str_refs_def)
    with m False Some show ?thesis by (simp add: ResolveString_def vault_Get_def)
  qed
qed

lemma resolve_plain: "plain x \<Longrightarrow> ResolveString x vlt = (x, False, False)"
  by (simp add: ResolveString_def RefKey_def plain_def)

lemma resolveStr_moved:
  "agrees (entry ident field x) (str_refs x) v v' \<Longrightarrow> resolveStr (Some v') (moved ident field x) = resolveStr (Some v) x"
  by (simp add: resolveStr_def resolve_moved resolve_plain)

lemma resolve_moved_row:
  assumes "agrees (row_entry ident kind row) (if 2 \<le> length row then str_refs (row ! 1) else []) v v'"
  shows "resolve_row (Some v') (moved_row ident kind row) = resolve_row (Some v) row"
proof (cases "2 \<le> length row")
  case True
  then have a: "agrees (entry ident (row_field kind row) (row ! 1)) (str_refs (row ! 1)) v v'" using assms by (simp add: row_entry_def)
  show ?thesis
  proof (cases "plain (row ! 1)")
    case p: True
    with True show ?thesis by (simp add: resolve_row_def moved_row_def resolve_moved[OF a] resolve_plain del: One_nat_def)
  next
    case False
    then have "moved ident (row_field kind row) (row ! 1) = row ! 1" by (simp add: moved_def)
    with True False resolve_moved[OF a] show ?thesis by (simp add: resolve_row_def moved_row_def del: One_nat_def)
  qed
qed (simp add: resolve_row_def moved_row_def)

lemma agrees_concat: "agrees (concat (map f xs)) (concat (map g xs)) v v' \<Longrightarrow> x \<in> set xs \<Longrightarrow> agrees (f x) (g x) v v'"
  by (induction xs) (auto simp: agrees_append)

lemma unix_lines_clean: "CR \<notin> set s \<Longrightarrow> unix_lines s = s"
  by (induction s rule: unix_lines.induct) auto

lemma moved_row_clean:
  assumes "csv_row_ok row" "list_all (\<lambda>f. CR \<notin> set f) row" "CR \<notin> set ident" "CR \<notin> set kind"
  shows "csv_row_ok (moved_row ident kind row)" "map unix_lines (moved_row ident kind row) = moved_row ident kind row"
proof -
  show "csv_row_ok (moved_row ident kind row)"
    using assms(1) by (cases row; cases "tl row") (auto simp: moved_row_def csv_row_ok_def)
  have "CR \<notin> set (moved ident (row_field kind row) (row ! 1))" if "2 \<le> length row"
  proof -
    have "row ! 0 \<in> set row" "row ! 1 \<in> set row" using that by (auto intro: nth_mem)
    then have "CR \<notin> set (row ! 0)" "CR \<notin> set (row ! 1)" using assms(2) by (auto simp: list_all_iff)
    with assms(3,4) show ?thesis by (simp add: moved_def row_field_def refPrefix_def CR_def)
  qed
  then have "\<forall>f \<in> set (moved_row ident kind row). CR \<notin> set f"
    using assms(2) by (auto simp: moved_row_def list_all_iff dest!: set_update_subset_insert[THEN subsetD])
  then show "map unix_lines (moved_row ident kind row) = moved_row ident kind row" by (simp add: map_idI unix_lines_clean)
qed

lemma resolve_moved_csv:
  assumes "agrees (csv_entries ident kind body) (csv_refs body) v v'" "csv_clean body" "CR \<notin> set ident" "CR \<notin> set kind"
  shows "ResolveCSV (moved_csv ident kind body) (Some v') = ResolveCSV body (Some v)"
proof (cases "body = []")
  case False
  let ?rows = "fst (read_csv False body)"
  have row: "csv_row_ok (moved_row ident kind r)" "map unix_lines (moved_row ident kind r) = moved_row ident kind r" if "r \<in> set ?rows" for r
    using moved_row_clean[OF _ _ assms(3,4), of r] assms(2) that by (simp_all add: csv_clean_def list_all_iff)
  then have "list_all csv_row_ok (map (moved_row ident kind) ?rows)" by (simp add: list_all_iff)
  note rd = csv_round_trip[OF this, of False]
  have "resolve_row (Some v') (moved_row ident kind r) = resolve_row (Some v) r" if "r \<in> set ?rows" for r
  proof -
    have "agrees (concat (map (row_entry ident kind) ?rows)) (concat (map (\<lambda>row. if 2 \<le> length row then str_refs (row ! 1) else []) ?rows)) v v'"
      using assms(1) False by (simp add: csv_entries_def csv_refs_def)
    from resolve_moved_row[OF agrees_concat[OF this that]] show ?thesis .
  qed
  with row(2) have m: "map (resolve_row (Some v')) (map (map unix_lines) (map (moved_row ident kind) ?rows)) = map (resolve_row (Some v)) ?rows"
    by simp
  show ?thesis
  proof (cases "?rows = []")
    case True
    with False show ?thesis by (simp add: ResolveCSV_def moved_csv_def csv_text_def)
  next
    case ne: False
    have "csv_text (map (moved_row ident kind) ?rows) \<noteq> []" using ne by (cases ?rows) (simp_all add: csv_text_def csv_line_last)
    with False rd have "ResolveCSV (moved_csv ident kind body) (Some v') =
        csv_text (map (resolve_row (Some v')) (map (map unix_lines) (map (moved_row ident kind) ?rows)))"
      by (simp add: ResolveCSV_def moved_csv_def del: map_map)
    also have "\<dots> = ResolveCSV body (Some v)" unfolding m using False by (simp add: ResolveCSV_def)
    finally show ?thesis .
  qed
qed (simp add: ResolveCSV_def moved_csv_def)

lemma resolve_moved_config:
  assumes "agrees (sched_entries sch) (config_refs (sc_config sch)) v v'" "sched_clean sch"
  shows "resolveStartReqVaultRefs (moved_config (sc_id sch) (sc_config sch)) (Some v') = resolveStartReqVaultRefs (sc_config sch) (Some v)"
proof -
  note a = assms(1)[unfolded sched_entries_def config_entries_def config_refs_def user_lists_def list.map concat.simps case_prod_conv
    append_Nil2 append_assoc agrees_append]
  note c = assms(2)[unfolded sched_clean_def user_lists_def, simplified]
  show ?thesis using a c
    by (simp add: resolveStartReqVaultRefs_def moved_config_def resolveStr_moved resolve_moved_csv CR_def)
qed

lemma resolve_kept:
  assumes "agrees [] (config_refs cfg) v v'"
  shows "resolveStartReqVaultRefs cfg (Some v') = resolveStartReqVaultRefs cfg (Some v)"
proof -
  have r: "ResolveString x (Some v') = ResolveString x (Some v)" if "agrees [] (str_refs x) v v'" for x
    using that by (cases "RefKey x") (simp_all add: ResolveString_def agrees_def str_refs_def vault_Get_def)
  have c: "ResolveCSV body (Some v') = ResolveCSV body (Some v)" if a: "agrees [] (csv_refs body) v v'" for body
  proof -
    let ?rows = "fst (read_csv False body)"
    have "resolve_row (Some v') row = resolve_row (Some v) row" if row: "row \<in> set ?rows" for row
    proof (cases "2 \<le> length row")
      case True
      with a row have "agrees [] (str_refs (row ! 1)) v v'" by (auto simp: agrees_def csv_refs_def)
      from r[OF this] show ?thesis by (simp add: resolve_row_def)
    qed (simp add: resolve_row_def)
    then have "map (resolve_row (Some v')) ?rows = map (resolve_row (Some v)) ?rows" by simp
    then show ?thesis by (simp add: ResolveCSV_def del: map_eq_conv)
  qed
  note a = assms[unfolded config_refs_def user_lists_def list.map concat.simps case_prod_conv append_Nil2 append_assoc
    agrees_append[of "[]" "[]", simplified]]
  show ?thesis using a by (simp add: resolveStartReqVaultRefs_def resolveStr_def r c)
qed

text \<open>What was moved is a marker: nothing is left to move.\<close>

lemma entry_moved: "entry ident field (moved ident field x) = []"
  by (simp add: entry_def moved_def plain_def IsRef_def)

lemma csv_entries_moved:
  assumes "csv_clean body" "CR \<notin> set ident" "CR \<notin> set kind"
  shows "csv_entries ident kind (moved_csv ident kind body) = []"
proof (cases "moved_csv ident kind body = []")
  case False
  let ?rows = "fst (read_csv False body)"
  have row: "csv_row_ok (moved_row ident kind r)" "map unix_lines (moved_row ident kind r) = moved_row ident kind r" if "r \<in> set ?rows" for r
    using moved_row_clean[OF _ _ assms(2,3), of r] assms(1) that by (simp_all add: csv_clean_def list_all_iff)
  then have "list_all csv_row_ok (map (moved_row ident kind) ?rows)" by (simp add: list_all_iff)
  from csv_round_trip[OF this, of False] row(2)
  have rd: "fst (read_csv False (csv_text (map (moved_row ident kind) ?rows))) = map (moved_row ident kind) ?rows" by simp
  have "row_entry ident kind (moved_row ident kind r) = []" for r
    by (simp add: row_entry_def moved_row_def row_field_def entry_moved del: One_nat_def)
  with False rd show ?thesis by (simp add: csv_entries_def moved_csv_def split: if_splits)
qed (simp add: csv_entries_def)

lemma sched_entries_moved:
  "sched_clean sch \<Longrightarrow> sched_entries (sch\<lparr>sc_config := moved_config (sc_id sch) (sc_config sch)\<rparr>) = []"
  by (simp add: sched_entries_def config_entries_def moved_config_def user_lists_def entry_moved csv_entries_moved sched_clean_def CR_def)

lemma migrate_schedules_saved:
  assumes "migrate_schedules save_ok schs disk m = (disk', m')" "s \<in> set schs" "save_ok (sc_id s)" "sched_entries s \<noteq> []"
  shows "\<exists>s2 \<in> set schs. sc_id s2 = sc_id s \<and> disk' (sc_id s) = Some (Some (s2\<lparr>sc_config := moved_config (sc_id s2) (sc_config s2)\<rparr>))"
  using assms
proof (induction schs arbitrary: disk m)
  case (Cons t schs)
  obtain disk1 m1 where rest: "migrate_schedules save_ok schs disk1 m1 = (disk', m')"
    and d: "t = s \<Longrightarrow> disk1 = disk(sc_id s \<mapsto> Some (s\<lparr>sc_config := moved_config (sc_id s) (sc_config s)\<rparr>))"
  proof (cases "t = s")
    case True
    have "migrate_config (sc_id s) (sc_config s) (m\<lparr>mg_changed := False\<rparr>) = (moved_config (sc_id s) (sc_config s), puts (sched_entries s) (m\<lparr>mg_changed := False\<rparr>))"
      by (simp add: migrate_config_eq sched_entries_def)
    moreover have "mg_changed (puts (sched_entries s) (m\<lparr>mg_changed := False\<rparr>))" using Cons.prems(4) by (simp add: puts_def)
    ultimately show ?thesis using Cons.prems(1,3) True by (intro that) (auto simp: sched_save_def)
  next
    case False
    then show ?thesis using Cons.prems(1) that by (auto split: prod.splits if_splits option.splits)
  qed
  show ?case
  proof (cases "s \<in> set schs")
    case True
    from Cons.IH[OF rest this Cons.prems(3,4)] show ?thesis by auto
  next
    case False
    with Cons.prems(2) have "t = s" by simp
    with d migrate_schedules_eq(3)[OF rest, of "sc_id s"] show ?thesis by auto
  qed
qed simp

lemma vault_Save_secrets: "vault_Save cr e v file = (err, v', file') \<Longrightarrow> v_secrets v' = v_secrets v"
  by (auto simp: vault_Save_def Let_def split: if_splits option.splits)

lemma resolve_secrets:
  "v_secrets v = v_secrets w \<Longrightarrow> resolveStartReqVaultRefs req (Some v) = resolveStartReqVaultRefs req (Some w)"
proof -
  assume s: "v_secrets v = v_secrets w"
  have r: "ResolveString x (Some v) = ResolveString x (Some w)" for x
    by (simp add: ResolveString_def vault_Get_def s split: option.split)
  have "resolve_row (Some v) = resolve_row (Some w)" by (rule ext) (simp add: resolve_row_def r)
  then show ?thesis by (simp add: resolveStartReqVaultRefs_def resolveStr_def ResolveCSV_def r)
qed

lemma set_sched_list: "s \<in> set (sched_list names disk) \<longleftrightarrow> (\<exists>n \<in> set names. disk n = Some (Some s))"
  by (auto simp: sched_list_def List.map_filter_def bind_eq_Some_conv image_iff)

lemma agrees_puts:
  assumes "distinct (map fst es)" "set refs \<inter> fst ` set es = {}" "set es0 \<subseteq> set es"
  shows "agrees es0 refs v (v\<lparr>v_secrets := v_secrets v ++ map_of (rev es)\<rparr>)"
proof -
  have d: "distinct (map fst (rev es))" using assms(1) by (simp add: rev_map[symmetric])
  have "map_of (rev es) k = Some x" if "(k, x) \<in> set es0" for k x
    using map_of_is_SomeI[OF d, of k x] that assms(3) by auto
  moreover have "map_of (rev es) k = None" if "k \<in> set refs" for k
    using that assms(2) by (auto simp: map_of_eq_None_iff)
  ultimately show ?thesis by (auto simp: agrees_def map_add_def)
qed

text \<open>C30: Moving the plaintext credentials of all schedules into the vault changes no run. When the scan
  lists no reference twice and none that a schedule already uses, the migration moves exactly the
  scanned secrets, nothing fails but writes of schedule files, every schedule resolves against the
  vault to exactly the start request it resolved to before, whichever files could not be written,
  and a schedule whose file could be written holds no plaintext credential any more.\<close>

theorem migration_transparent:
  assumes "\<forall>xs. mset (ks xs) = mset xs"
    and "\<forall>i sch. disk i = Some (Some sch) \<longrightarrow> i \<in> set names \<and> sc_id sch = i \<and> sched_clean sch"
    and "distinct (map cand_ref (scanScheduleSecrets ks names (Some disk)))"
    and "\<forall>i sch. disk i = Some (Some sch) \<longrightarrow>
      set (config_refs (sc_config sch)) \<inter> cand_ref ` set (scanScheduleSecrets ks names (Some disk)) = {}"
    and "applyScheduleMigrations cr e save_ok names (Some disk) (Some v) file = ((n, failed), Some disk', Some v', file')"
  shows "n = length (scanScheduleSecrets ks names (Some disk)) \<and> set failed \<subseteq> {SaveOf i |i. \<not> save_ok i} \<and>
    (\<forall>i sch. disk i = Some (Some sch) \<longrightarrow> (\<exists>sch'. disk' i = Some (Some sch') \<and>
      resolveStartReqVaultRefs (sc_config sch') (Some v') = resolveStartReqVaultRefs (sc_config sch) (Some v) \<and>
      (save_ok i \<longrightarrow> scheduleCandidates ks sch' = [])))"
proof -
  let ?schs = "sched_list names disk" and ?scan = "scanScheduleSecrets ks names (Some disk)"
  let ?es = "concat (map sched_entries ?schs)" and ?m0 = "\<lparr>mg_v = v, mg_migrated = 0, mg_changed = False, mg_failed = []\<rparr>"
  note ks = assms(1)[rule_format]
  obtain m where m: "migrate_schedules save_ok ?schs disk ?m0 = (disk', m)" "mg_migrated m = n" "mg_failed m = failed"
      "v_secrets v' = v_secrets (mg_v m)"
    using assms(5) by (auto simp: applyScheduleMigrations_def split: prod.splits if_splits dest: vault_Save_secrets)
  note eq = migrate_schedules_eq[OF m(1)]
  have refs: "mset (map cand_ref ?scan) = mset (map fst ?es)" using scan_refs[OF ks] by (simp add: scanScheduleSecrets_def)
  have len: "length ?scan = length ?es" using mset_eq_length[OF refs] by simp
  have dist: "distinct (map fst ?es)" using assms(3) mset_eq_imp_distinct_iff[OF refs] by simp
  have img: "cand_ref ` set ?scan = fst ` set ?es" using mset_eq_setD[OF refs] by simp
  have v': "v_secrets v' = v_secrets (v\<lparr>v_secrets := v_secrets v ++ map_of (rev ?es)\<rparr>)"
    using m(4) eq(1) by (simp add: puts_def)
  have one: "\<exists>sch'. disk' i = Some (Some sch') \<and>
      resolveStartReqVaultRefs (sc_config sch') (Some v') = resolveStartReqVaultRefs (sc_config sch) (Some v) \<and>
      (save_ok i \<longrightarrow> scheduleCandidates ks sch' = [])" if i: "disk i = Some (Some sch)" for i sch
  proof -
    let ?sch' = "sch\<lparr>sc_config := moved_config (sc_id sch) (sc_config sch)\<rparr>"
    have s: "sch \<in> set ?schs" "sc_id sch = i" "sched_clean sch" using assms(2) i by (auto simp: set_sched_list)
    have uniq: "s2 = sch" if "s2 \<in> set ?schs" "sc_id s2 = i" for s2 using that assms(2) i by (force simp: set_sched_list)
    have sub: "set (sched_entries sch) \<subseteq> set ?es" using s(1) by auto
    have r: "set (config_refs (sc_config sch)) \<inter> fst ` set ?es = {}" using assms(4) i img by simp
    have same: "resolveStartReqVaultRefs (moved_config (sc_id sch) (sc_config sch)) (Some v') = resolveStartReqVaultRefs (sc_config sch) (Some v)"
      by (rule trans[OF resolve_secrets[OF v'] resolve_moved_config[OF agrees_puts[OF dist r sub] s(3)]])
    have none: "scheduleCandidates ks ?sch' = []"
      using schedule_candidate_refs[OF ks, of "?sch'"] sched_entries_moved[OF s(3)] by simp
    show ?thesis
    proof (cases "disk' i = Some (Some ?sch')")
      case True
      with same none show ?thesis by simp
    next
      case False
      have d: "disk' i = disk i" using eq(3)[of i] uniq False by auto
      have "agrees [] (config_refs (sc_config sch)) v (v\<lparr>v_secrets := v_secrets v ++ map_of (rev ?es)\<rparr>)"
        by (rule agrees_puts[OF dist r]) simp
      then have "resolveStartReqVaultRefs (sc_config sch) (Some v') = resolveStartReqVaultRefs (sc_config sch) (Some v)"
        using trans[OF resolve_secrets[OF v'] resolve_kept] by blast
      moreover have "scheduleCandidates ks sch = []" if ok: "save_ok i"
      proof -
        have "sched_entries sch = []"
          using migrate_schedules_saved[OF m(1) s(1)] ok uniq False s(2) by fastforce
        with schedule_candidate_refs[OF ks, of sch] show ?thesis by simp
      qed
      ultimately show ?thesis using d i by auto
    qed
  qed
  have "set failed \<subseteq> {SaveOf i |i. \<not> save_ok i}" using eq(4) m(3) by simp
  moreover have "n = length ?scan" using eq(2) m(2) len by simp
  ultimately show ?thesis using one by blast
qed

section \<open>A concrete migration\<close>

definition demo_creds :: "unit start_creds_scheme" where
  "demo_creds = \<lparr>TargetPassword = ''pw'', PrivateKeyPEM = [], PrivateKeyPassphrase = [], BastionPass = ''$vault:mine'',
     BastionPrivateKeyPEM = [], BastionPassphrase = [], NormalUsersCSV = ''u,p,*'' @ [LF] @ ''w,$vault:x,*'',
     LargeUsersCSV = [], DownloadUsersCSV = []\<rparr>"

definition demo_schedule :: "unit start_creds_scheme schedule" where
  "demo_schedule = \<lparr>sc_id = ''s'', sc_runAt = 5, sc_createdAt = 1, sc_note = [], sc_config = demo_creds, sc_every = []\<rparr>"

definition demo_store :: "unit start_creds_scheme schedules" where
  "demo_store = [''s'' \<mapsto> Some demo_schedule]"

lemma demo_scan:
  "scanScheduleSecrets (\<lambda>xs. xs) [''s''] (Some demo_store) =
     [\<lparr>cand_schedule = ''s'', cand_field = ''target_password'', cand_ref = ''schedule:s/target_password''\<rparr>,
      \<lparr>cand_schedule = ''s'', cand_field = ''normal_users.csv:u'', cand_ref = ''schedule:s/normal_users.u''\<rparr>]"
proof -
  have "scheduleCandidates (\<lambda>xs. xs) demo_schedule =
     [\<lparr>cand_schedule = ''s'', cand_field = ''target_password'', cand_ref = ''schedule:s/target_password''\<rparr>,
      \<lparr>cand_schedule = ''s'', cand_field = ''normal_users.csv:u'', cand_ref = ''schedule:s/normal_users.u''\<rparr>]"
    by code_simp
  moreover have "sched_list [''s''] demo_store = [demo_schedule]"
    by (simp add: sched_list_def demo_store_def List.map_filter_def)
  ultimately show ?thesis by (simp add: scanScheduleSecrets_def)
qed

lemma apply_shape:
  "\<exists>n failed disk' v' file'. applyScheduleMigrations cr e save_ok names (Some disk) (Some v) file = ((n, failed), Some disk', Some v', file')"
  by (auto simp: applyScheduleMigrations_def split: prod.splits)

theorem migration_transparent_witness:
  "fst (fst (applyScheduleMigrations demo_crypto (demo_env 2 (Some BadSync)) (\<lambda>i. True) [''s''] (Some demo_store)
     (Some (demo_vault Map.empty 1)) None)) = 2"
proof -
  let ?r = "applyScheduleMigrations demo_crypto (demo_env 2 (Some BadSync)) (\<lambda>i. True) [''s''] (Some demo_store)
     (Some (demo_vault Map.empty 1)) None"
  have ks: "\<forall>xs. mset ((\<lambda>xs. xs) xs) = mset (xs :: (string \<times> string) list)" by simp
  have clean: "sched_clean demo_schedule" by code_simp
  have ok: "\<forall>i sch. demo_store i = Some (Some sch) \<longrightarrow> i \<in> set [''s''] \<and> sc_id sch = i \<and> sched_clean sch"
    using clean by (auto simp: demo_store_def demo_schedule_def)
  have d: "distinct (map cand_ref (scanScheduleSecrets (\<lambda>xs. xs) [''s''] (Some demo_store)))" by (simp add: demo_scan)
  have c: "config_refs (sc_config demo_schedule) = [''mine'', ''x'']" by code_simp
  have r: "\<forall>i sch. demo_store i = Some (Some sch) \<longrightarrow>
      set (config_refs (sc_config sch)) \<inter> cand_ref ` set (scanScheduleSecrets (\<lambda>xs. xs) [''s''] (Some demo_store)) = {}"
    unfolding demo_scan by (simp add: demo_store_def c)
  obtain n failed disk' v' file' where e: "?r = ((n, failed), Some disk', Some v', file')"
    using apply_shape by metis
  from migration_transparent[OF ks ok d r e] have "n = 2" by (simp add: demo_scan)
  with e show ?thesis by simp
qed

section \<open>Where plaintext is lost\<close>

text \<open>The schedule files are rewritten before the vault is saved, and the error of that save is
  dropped: when it fails, the caller sees the same answer, the files hold markers only, and the
  vault's file does not hold the secrets.\<close>

lemma migration_save_unchecked:
  assumes "applyScheduleMigrations cr e save_ok names store vlt file = (out, store', v', file')" "se_fault e = Some f"
  shows "file' = file \<and> (\<exists>v'' file''. applyScheduleMigrations cr (e\<lparr>se_fault := None\<rparr>) save_ok names store vlt file = (out, store', v'', file''))"
proof -
  have "vault_Save cr e v file = (x, v', fl) \<Longrightarrow> fl = file" for v x v' fl
    using assms(2) by (auto simp: vault_Save_def Let_def split: if_splits option.splits)
  with assms(1) show ?thesis
    by (auto simp: applyScheduleMigrations_def split: option.splits prod.splits if_splits)
qed

text \<open>Two rows of one user share a reference, and the later password wins.\<close>

lemma migration_duplicate_user:
  "(case migrateCSV ''s'' ''normal_users'' (''u,p,*'' @ [LF] @ ''u,q,*'')
       \<lparr>mg_v = demo_vault Map.empty 1, mg_migrated = 0, mg_changed = False, mg_failed = []\<rparr> of
     (body, m) \<Rightarrow> (ResolveCSV body (Some (mg_v m)), mg_migrated m)) = (''u,q,*'' @ [LF] @ ''u,q,*'' @ [LF], 2)"
  by code_simp

text \<open>A malformed row and everything after it is dropped from the stored list.\<close>

lemma migration_truncates:
  "fst (migrateCSV ''s'' ''normal_users'' (''u,$vault:k,*'' @ [LF] @ [CHR ''a'', CHR 0x22] @ '',p,*'' @ [LF] @ ''w,q,*'')
       \<lparr>mg_v = demo_vault Map.empty 1, mg_migrated = 0, mg_changed = False, mg_failed = []\<rparr>) = ''u,$vault:k,*'' @ [LF]"
  by code_simp

text \<open>The resolver keeps the blank after a comma that the parser of the user lists skips, and its
  writer quotes it: with an unlocked vault the password gains a leading blank.\<close>

definition csv_reads :: "bool \<Rightarrow> string \<Rightarrow> csv_read list" where
  "csv_reads trim t = (case read_csv trim t of (rows, full) \<Rightarrow> map Record rows @ (if full then [] else [ReadError]))"

lemma resolve_adds_blank:
  "ParseUsersCSV (csv_reads True ''u, p, *'') = Inr [\<lparr>username = ''u'', password = ''p'', patterns = [''*'']\<rparr>] \<and>
   ParseUsersCSV (csv_reads True (ResolveCSV ''u, p, *'' (Some (demo_vault Map.empty 1)))) =
     Inr [\<lparr>username = ''u'', password = '' p'', patterns = [''*'']\<rparr>]"
  by code_simp

end
