(* ===== verification/Analysis.thy ===== *)
theory Analysis
  imports Persist Latency
begin

text \<open>
  What is made of a sealed run: the rest of its metadata, the ordered advice that
  analyze/analyze.go derives from it, and the triggers and channels of alerts/alerts.go. Prose is
  represented by constructors that carry the values it quotes.
\<close>

section \<open>The rest of the metadata\<close>

record disabled_user =
  du_User :: string
  du_Kind :: string
  du_LastCode :: string
  du_LastFile :: string

record latency_report =
  lr_Upload :: "hist_snapshot option"
  lr_UploadCOR :: "hist_snapshot option"
  lr_Dial :: "hist_snapshot option"
  lr_Download :: "hist_snapshot option"

record meta_rest =
  x_TargetHost :: string
  x_TargetPort :: int
  x_TargetProtocol :: string
  x_UploadUsers :: int
  x_DownloadUsers :: int
  x_ParallelStreams :: int
  x_DownloadParallelStreams :: int
  x_FilesPerMinute :: int
  x_DownloadEnabled :: bool
  x_DownloadMatchMode :: string
  x_DispatchSkips :: int
  x_DownloadStalled :: int
  x_ErrorsByCode :: "(string \<times> int) list"
  x_PeakCPUPercent :: rat
  x_AvgCPUPercent :: rat
  x_PeakFDInUse :: int
  x_PeakHeapMB :: rat
  x_PeakWindowMBps :: rat
  x_NumCPU :: int
  x_StopReason :: string
  x_StopDetail :: string
  x_HashVerified :: int
  x_HashMismatch :: int
  x_Latency :: "latency_report option"
  x_Disabled :: "disabled_user list"

type_synonym sealed = "meta_rest run_meta_file"

definition zero_rest :: meta_rest where
  "zero_rest =
     \<lparr>x_TargetHost = [], x_TargetPort = 0, x_TargetProtocol = [], x_UploadUsers = 0, x_DownloadUsers = 0,
      x_ParallelStreams = 0, x_DownloadParallelStreams = 0, x_FilesPerMinute = 0, x_DownloadEnabled = False,
      x_DownloadMatchMode = [], x_DispatchSkips = 0, x_DownloadStalled = 0, x_ErrorsByCode = [],
      x_PeakCPUPercent = 0, x_AvgCPUPercent = 0, x_PeakFDInUse = 0, x_PeakHeapMB = 0, x_PeakWindowMBps = 0,
      x_NumCPU = 0, x_StopReason = [], x_StopDetail = [], x_HashVerified = 0, x_HashMismatch = 0,
      x_Latency = None, x_Disabled = []\<rparr>"

text \<open>Recovered metadata has zero values in these fields.\<close>

definition rest :: "sealed \<Rightarrow> meta_rest" where
  "rest m = (case rm_rest m of Some x \<Rightarrow> x | None \<Rightarrow> zero_rest)"

section \<open>Advice\<close>

definition fl :: "int \<Rightarrow> rat" where "fl n = rnd_signed (of_int n)"
definition fdiv :: "rat \<Rightarrow> rat \<Rightarrow> rat" where "fdiv x y = rnd_signed (x / y)"
definition fmul :: "rat \<Rightarrow> rat \<Rightarrow> rat" where "fmul x y = rnd_signed (x * y)"

datatype severity = Critical | Warn | Info

text \<open>The titles with their details, and the proposed actions, by the values they quote.\<close>

datatype topic =
    CapacityCeiling rat int int
  | FailureRate rat int int
  | NetworkLimited rat rat int rat
  | DownloadsStalled rat int int
  | FdUsage int
  | Headroom rat int int int

datatype advice = RaiseStreams rat int int | CpuLimit rat int int | MoreStreams int | GroupErrors
  | CheckBandwidth | RaiseDownloads int int | RaiseUlimit | Double int int

record suggestion =
  sg_severity :: severity
  sg_topic :: topic
  sg_action :: advice

definition suggestParallel :: "sealed \<Rightarrow> int" where
  "suggestParallel m =
     (let cur = max 1 (x_ParallelStreams (rest m));
          attempted = i64 (rm_TotalFiles m + x_DispatchSkips (rest m));
          skipRatio = (if 0 < attempted then fdiv (fl (x_DispatchSkips (rest m))) (fl attempted) else 0);
          scaled = fmul (fl cur) (rnd_signed (1 + fmul skipRatio (rnd64 (6 / 5))));
          next0 = \<lceil>scaled\<rceil>;
          next1 = (if next0 \<le> cur then i64 (cur + 1) else next0)
      in if 16 < next1 then 16 else next1)"

definition suggestFpmFromCPU :: "sealed \<Rightarrow> int" where
  "suggestFpmFromCPU m =
     (let fpm = x_FilesPerMinute (rest m); cpu = x_PeakCPUPercent (rest m) in
      if fpm \<le> 0 \<or> cpu \<le> 0 then 0
      else let out = \<lfloor>fmul (fl fpm) (fdiv 70 cpu)\<rfloor> in if out < 1 then 1 else out)"

definition level :: "rat \<Rightarrow> severity" where
  "level pct = (if 25 \<le> pct then Critical else Warn)"

definition percent :: "int \<Rightarrow> int \<Rightarrow> rat" where
  "percent a b = fmul (fdiv (fl a) (fl b)) 100"

definition ceiling_advice :: "sealed \<Rightarrow> suggestion list" where
  "ceiling_advice m =
     (let x = rest m; skips = x_DispatchSkips x; attempted = i64 (rm_TotalFiles m + skips);
          skipPct = (if 0 < attempted then percent skips attempted else 0); cpu = x_PeakCPUPercent x
      in if 0 < skips
         then [\<lparr>sg_severity = level skipPct, sg_topic = CapacityCeiling skipPct skips attempted,
                sg_action = (if 0 < cpu \<and> cpu < 70 then RaiseStreams cpu (x_ParallelStreams x) (suggestParallel m)
                             else if 85 \<le> cpu then CpuLimit cpu (x_NumCPU x) (suggestFpmFromCPU m)
                             else MoreStreams (x_ParallelStreams x))\<rparr>]
         else [])"

definition failure_advice :: "sealed \<Rightarrow> suggestion list" where
  "failure_advice m =
     (let failPct = (if 0 < rm_TotalFiles m then percent (rm_FailedFiles m) (rm_TotalFiles m) else 0)
      in if 0 < rm_TotalFiles m \<and> 5 \<le> failPct
         then [\<lparr>sg_severity = level failPct, sg_topic = FailureRate failPct (rm_FailedFiles m) (rm_TotalFiles m),
                sg_action = GroupErrors\<rparr>]
         else [])"

definition network_advice :: "sealed \<Rightarrow> suggestion list" where
  "network_advice m =
     (let x = rest m in
      if 0 < rm_TotalFiles m \<and> x_DispatchSkips x = 0 \<and> 0 < rm_OverallMBps m \<and> 0 < x_PeakWindowMBps x \<and> 0 < x_FilesPerMinute x
      then let avg = fdiv (fdiv (fl (rm_TotalBytes m)) (fl (rm_TotalFiles m))) 1048576;
               expected = fdiv (fmul avg (fl (x_FilesPerMinute x))) 60
           in if 1 < expected \<and> x_PeakWindowMBps x < fmul expected (rnd64 (7 / 10))
              then [\<lparr>sg_severity = Warn, sg_topic = NetworkLimited (x_PeakWindowMBps x) expected (x_FilesPerMinute x) avg,
                     sg_action = CheckBandwidth\<rparr>]
              else []
      else [])"

definition stalled_advice :: "sealed \<Rightarrow> suggestion list" where
  "stalled_advice m =
     (let x = rest m in
      if x_DownloadEnabled x \<and> 0 < x_DownloadStalled x \<and> 0 < rm_TotalFiles m
      then let pct = percent (x_DownloadStalled x) (rm_TotalFiles m)
           in [\<lparr>sg_severity = level pct, sg_topic = DownloadsStalled pct (x_DownloadStalled x) (rm_TotalFiles m),
                sg_action = RaiseDownloads (x_DownloadParallelStreams x) (x_DownloadUsers x)\<rparr>]
      else [])"

definition fd_advice :: "sealed \<Rightarrow> suggestion list" where
  "fd_advice m =
     (let fds = x_PeakFDInUse (rest m) in
      if 0 < fds \<and> 800 \<le> fds
      then [\<lparr>sg_severity = (if 4000 \<le> fds then Critical else Warn), sg_topic = FdUsage fds, sg_action = RaiseUlimit\<rparr>]
      else [])"

definition headroom_advice :: "sealed \<Rightarrow> suggestion list" where
  "headroom_advice m =
     (let x = rest m; cpu = x_PeakCPUPercent x in
      if 0 < rm_TotalFiles m \<and> x_DispatchSkips x = 0 \<and> rm_FailedFiles m = 0 \<and> 0 < cpu \<and> cpu < 40
      then [\<lparr>sg_severity = Info, sg_topic = Headroom cpu (x_PeakFDInUse x) (x_FilesPerMinute x) (x_ParallelStreams x),
             sg_action = Double (i64 (x_FilesPerMinute x * 2)) (i64 (x_ParallelStreams x * 2))\<rparr>]
      else [])"

definition Suggest :: "sealed \<Rightarrow> suggestion list" where
  "Suggest m = ceiling_advice m @ failure_advice m @ network_advice m @ stalled_advice m @ fd_advice m @ headroom_advice m"

section \<open>Alerts\<close>

record alert_config =
  SlackWebhookURL :: string
  GenericWebhookURL :: string
  SMTPHost :: string
  SMTPPort :: int
  SMTPUser :: string
  EmailFrom :: string
  EmailTo :: "string list"
  AlertOnFailure :: bool
  AlertOnDispatchSkips :: bool
  AlertOnP99MS :: int
  AlertOnErrorRatePct :: rat

record alert_event =
  ev_FailedFiles :: int
  ev_DispatchSkips :: int
  ev_P99LatencyMS :: rat
  ev_ErrorRate :: rat
  ev_StopReason :: string
  ev_StopDetail :: string
  ev_HashMismatch :: int
  ev_Reasons :: "string list"

definition Anything :: "alert_config \<Rightarrow> bool" where
  "Anything c \<longleftrightarrow> SlackWebhookURL c \<noteq> [] \<or> GenericWebhookURL c \<noteq> [] \<or> (SMTPHost c \<noteq> [] \<and> 0 < length (EmailTo c))"

text \<open>The formats \<open>%.0f\<close>, \<open>%.1f\<close>, \<open>%.2f\<close>: the exact value rounded to \<open>k\<close> decimals, ties to even.\<close>

fun low_digits :: "nat \<Rightarrow> int \<Rightarrow> string" where
  "low_digits 0 n = []"
| "low_digits (Suc k) n = low_digits k (n div 10) @ [digit_char (n mod 10)]"

definition fmt_f :: "nat \<Rightarrow> rat \<Rightarrow> string" where
  "fmt_f k x =
     (let n = round_half_even (\<bar>x\<bar> * 10 ^ k)
      in (if x < 0 then ''-'' else []) @ go_itoa (n div 10 ^ k) @ (if k = 0 then [] else ''.'' @ low_digits k n))"

definition ShouldFire :: "alert_config \<Rightarrow> alert_event \<Rightarrow> string list" where
  "ShouldFire c ev =
     (if AlertOnFailure c \<and> 0 < ev_FailedFiles ev then [''failed_files='' @ go_itoa (ev_FailedFiles ev)] else [])
     @ (if AlertOnDispatchSkips c \<and> 0 < ev_DispatchSkips ev then [''dispatch_skips='' @ go_itoa (ev_DispatchSkips ev)] else [])
     @ (if 0 < AlertOnP99MS c \<and> fl (AlertOnP99MS c) < ev_P99LatencyMS ev
        then [''p99='' @ fmt_f 0 (ev_P99LatencyMS ev) @ ''ms (>'' @ go_itoa (AlertOnP99MS c) @ ''ms)''] else [])
     @ (if 0 < AlertOnErrorRatePct c \<and> AlertOnErrorRatePct c < ev_ErrorRate ev
        then [''error_rate='' @ fmt_f 2 (ev_ErrorRate ev) @ ''% (>'' @ fmt_f 2 (AlertOnErrorRatePct c) @ ''%)''] else [])
     @ (if ev_StopReason ev = ''speed-floor''
        then (if ev_StopDetail ev \<noteq> [] then [''speed-floor: '' @ ev_StopDetail ev] else [''speed-floor stop'']) else [])
     @ (if 0 < ev_HashMismatch ev then [''hash_mismatch='' @ go_itoa (ev_HashMismatch ev)] else [])"

definition joinReasons :: "string list \<Rightarrow> string" where
  "joinReasons rs = (if length rs = 0 then ''completed'' else str_join '', '' rs)"

definition joinTo :: "string list \<Rightarrow> string" where
  "joinTo to = str_join '', '' to"

text \<open>\<open>Fire\<close>: what is sent, and whether it fails, is decided outside; a failing channel is logged
  and the next one tried. Mail goes to the host and port of the configuration, from the configured
  sender or the SMTP user.\<close>

datatype channel = Slack string | Generic string | Mail string string "string list"

definition mail_channel :: "alert_config \<Rightarrow> channel" where
  "mail_channel c =
     Mail (SMTPHost c @ '':'' @ go_itoa (if SMTPPort c = 0 then 587 else SMTPPort c))
       (if EmailFrom c = [] then SMTPUser c else EmailFrom c) (EmailTo c)"

definition Fire :: "(channel \<Rightarrow> bool) \<Rightarrow> alert_config \<Rightarrow> (channel \<times> bool) list" where
  "Fire sent c =
     map (\<lambda>ch. (ch, sent ch))
       ((if SlackWebhookURL c \<noteq> [] then [Slack (SlackWebhookURL c)] else [])
        @ (if GenericWebhookURL c \<noteq> [] then [Generic (GenericWebhookURL c)] else [])
        @ (if SMTPHost c \<noteq> [] \<and> 0 < length (EmailTo c) then [mail_channel c] else []))"

section \<open>Whether the advised streams absorb the skips\<close>

lemma fl_small: "0 \<le> n \<Longrightarrow> n \<le> 2 ^ 53 \<Longrightarrow> fl n = of_int n"
  using rnd64_nat[of "nat n"] by (simp add: fl_def rnd_signed_def nat_le_iff)

lemma rnd_signed_lower:
  assumes "2 powi (- 1022) \<le> x"
  shows "x * (1 - 1 / 2 ^ 53) \<le> rnd_signed x"
proof -
  have "0 < x" using assms p2_pos[of "- 1022"] by linarith
  moreover have "x - x / 2 ^ 53 \<le> rnd64 x" using rnd64_rel[OF assms] by linarith
  ultimately show ?thesis by (simp add: rnd_signed_def right_diff_distrib)
qed

lemma p2_60: "(2 :: rat) powi (- 60) = 1 / 2 ^ 60"
  by (simp only: power_int_minus power_int_numeral inverse_eq_divide)

lemma p2_1022: "2 powi (- 1022) \<le> (2 :: rat) powi (- 60)"
  by (rule p2_mono) simp

lemma half_big: "2 powi (- 1022) \<le> (1 / 2 ^ 60 :: rat)"
  by (rule order_trans[OF p2_1022 eq_refl[OF p2_60]])

text \<open>Five roundings lose less than one part in 2 to the 50.\<close>

lemma scaled_lower:
  assumes cur: "1 \<le> cur" "cur \<le> 2 ^ 31" and a: "0 \<le> skips" "0 < att" "skips \<le> att" "att \<le> 2 ^ 40"
  shows "of_int cur * (1 + of_int skips / of_int att * (6 / 5)) * (1 - 1 / 2 ^ 50)
    \<le> fmul (fl cur) (rnd_signed (1 + fmul (fdiv (fl skips) (fl att)) (rnd64 (6 / 5))))"
proof -
  let ?d = "1 - 1 / 2 ^ 53 :: rat"
  let ?s = "of_int skips / of_int att :: rat" and ?c = "of_int cur :: rat"
  have f: "fl cur = ?c" "fl skips = of_int skips" "fl att = of_int att"
    using cur a by (intro fl_small; simp)+
  have tiny: "2 powi (- 1022) \<le> x" if "1 / 2 ^ 60 \<le> x" for x :: rat using half_big that by linarith
  have r65: "6 / 5 * ?d \<le> rnd64 (6 / 5)" using rnd_signed_lower[of "6 / 5"] tiny[of "6 / 5"] by (simp add: rnd_signed_def)
  have s0: "0 \<le> ?s" using a by simp
  have p: "?s * (6 / 5) * (?d * ?d * ?d) \<le> fmul (fdiv (fl skips) (fl att)) (rnd64 (6 / 5))"
  proof (cases "skips = 0")
    case True
    moreover have "fl 0 = 0" by (simp add: fl_def rnd_signed_def)
    ultimately show ?thesis by (simp add: fmul_def fdiv_def rnd_signed_def)
  next
    case False
    have "1 / 2 ^ 40 \<le> ?s"
    proof -
      have "(1 :: rat) / 2 ^ 40 \<le> 1 / of_int att" using a by (intro divide_left_mono) (simp_all add: of_int_le_iff[symmetric] del: of_int_le_iff)
      also have "\<dots> \<le> ?s" using a False by (simp add: divide_right_mono)
      finally show ?thesis .
    qed
    then have s: "1 / 2 ^ 40 \<le> ?s" .
    have d1: "?s * ?d \<le> fdiv (fl skips) (fl att)"
      unfolding fdiv_def f by (rule rnd_signed_lower, rule tiny) (rule order_trans[OF _ s], simp)
    let ?x = "fdiv (fl skips) (fl att) * rnd64 (6 / 5)"
    have x: "?s * ?d * (6 / 5 * ?d) \<le> ?x"
      by (rule mult_mono[OF d1 r65]) (use s0 d1 in \<open>simp_all add: order_trans[OF _ d1]\<close>)
    have "1 / 2 ^ 60 \<le> ?s * ?d * (6 / 5 * ?d)"
    proof -
      have "1 / 2 ^ 60 \<le> 1 / 2 ^ 40 * (?d * (6 / 5 * ?d))" by simp
      also have "\<dots> \<le> ?s * (?d * (6 / 5 * ?d))" using s by (intro mult_right_mono) simp_all
      finally show ?thesis by (simp only: mult.assoc)
    qed
    from order_trans[OF this x] have "1 / 2 ^ 60 \<le> ?x" .
    from rnd_signed_lower[OF tiny[OF this]] have "?x * ?d \<le> fmul (fdiv (fl skips) (fl att)) (rnd64 (6 / 5))" by (simp add: fmul_def)
    moreover have "?s * ?d * (6 / 5 * ?d) * ?d \<le> ?x * ?d" using x by (intro mult_right_mono) simp_all
    ultimately show ?thesis by (simp add: mult.assoc mult.left_commute)
  qed
  let ?p = "fmul (fdiv (fl skips) (fl att)) (rnd64 (6 / 5))"
  have p0: "0 \<le> ?p" using order_trans[OF _ p] s0 by simp
  have q: "(1 + ?p) * ?d \<le> rnd_signed (1 + ?p)" using rnd_signed_lower[of "1 + ?p"] tiny[of "1 + ?p"] p0 by simp
  have q1: "?d \<le> rnd_signed (1 + ?p)" 
  proof -
    have "?d \<le> (1 + ?p) * ?d" using p0 by (simp add: distrib_right)
    from order_trans[OF this q] show ?thesis .
  qed
  let ?y = "?c * rnd_signed (1 + ?p)"
  have c1: "1 \<le> ?c" using cur by simp
  have y: "1 / 2 ^ 60 \<le> ?y"
  proof (rule order_trans)
    show "1 / 2 ^ 60 \<le> 1 * ?d" by simp
    show "1 * ?d \<le> ?y" using c1 by (intro mult_mono[OF c1 q1]) simp_all
  qed
  from rnd_signed_lower[OF tiny[OF y]] have e: "?y * ?d \<le> fmul (fl cur) (rnd_signed (1 + ?p))" by (simp add: fmul_def f)
  have "?c * (1 + ?s * (6 / 5)) * (1 - 1 / 2 ^ 50) \<le> ?c * ((1 + ?s * (6 / 5) * (?d * ?d * ?d)) * ?d) * ?d"
  proof -
    have "(1 + ?s * (6 / 5)) * (1 - 1 / 2 ^ 50) \<le> (1 + ?s * (6 / 5)) * (?d * ?d * ?d) * (?d * ?d)"
      using s0 by (simp only: mult.assoc) (intro mult_left_mono, simp_all)
    also have "\<dots> \<le> (1 + ?s * (6 / 5) * (?d * ?d * ?d)) * (?d * ?d)"
      by (intro mult_right_mono) (simp_all add: distrib_right)
    finally have "?c * ((1 + ?s * (6 / 5)) * (1 - 1 / 2 ^ 50)) \<le> ?c * ((1 + ?s * (6 / 5) * (?d * ?d * ?d)) * (?d * ?d))"
      using c1 by (intro mult_left_mono) simp_all
    then show ?thesis by (simp only: mult.assoc)
  qed
  also have "\<dots> \<le> ?c * ((1 + ?p) * ?d) * ?d"
    using p c1 by (intro mult_right_mono mult_left_mono add_left_mono) simp_all
  also have "\<dots> \<le> ?y * ?d"
    using q c1 by (intro mult_right_mono mult_left_mono) simp_all
  also note e
  finally show ?thesis .
qed

lemma exact_absorbs:
  fixes cur s A T :: rat
  assumes "0 \<le> cur" "0 \<le> s" "6 * s \<le> 1" "0 \<le> A" "T = A * (1 - s)"
  shows "cur * A \<le> cur * (1 + s * (6 / 5)) * T"
proof -
  have "0 \<le> s * (1 - 6 * s)" using assms(2,3) by simp
  then have "1 \<le> (1 + s * (6 / 5)) * (1 - s)" by (simp add: algebra_simps)
  then have "cur * A * 1 \<le> cur * A * ((1 + s * (6 / 5)) * (1 - s))" using assms(1,4) by (intro mult_left_mono) simp_all
  then show ?thesis by (simp add: assms(5) ac_simps)
qed

lemma near:
  fixes x y :: rat
  assumes "x * (1 - 1 / 2 ^ 50) \<le> y" "y \<le> 16"
  shows "x - y \<le> 17 / 2 ^ 50"
proof -
  have "x - x / 2 ^ 50 \<le> y" using assms(1) by (simp add: right_diff_distrib)
  moreover from this assms(2) have "x \<le> 17" by simp
  moreover from this have "x / 2 ^ 50 \<le> 17 / 2 ^ 50" by simp
  ultimately show ?thesis by linarith
qed

lemma capped_next:
  fixes y :: rat and cur r :: int
  assumes "r = (let n = if \<lceil>y\<rceil> \<le> cur then cur + 1 else \<lceil>y\<rceil> in if 16 < n then 16 else n)" "r \<noteq> 16"
  shows "y \<le> of_int r" "r < 16"
proof -
  have "k \<le> r \<and> r < 16" if "\<lceil>y\<rceil> = k" for k using assms unfolding that by (auto simp: Let_def split: if_splits)
  then show "y \<le> of_int r" "r < 16" by (auto simp: ceiling_le_iff)
qed

text \<open>The number of streams proposed to a run that skipped at most a sixth of its attempted files is
  enough: unless it is the cap of 16, the proposed slots times the files one slot got through
  cover all attempted files, float rounding included.\<close>

theorem suggestion_absorbs:
  assumes "0 < rm_TotalFiles m" and "0 \<le> x_DispatchSkips (rest m)"
    and "rm_TotalFiles m + x_DispatchSkips (rest m) \<le> 2 ^ 40"
    and "6 * x_DispatchSkips (rest m) \<le> rm_TotalFiles m + x_DispatchSkips (rest m)"
    and "x_ParallelStreams (rest m) \<le> 2 ^ 31"
  shows "suggestParallel m = 16 \<or>
    max 1 (x_ParallelStreams (rest m)) * (rm_TotalFiles m + x_DispatchSkips (rest m)) \<le> suggestParallel m * rm_TotalFiles m"
proof (rule ccontr)
  let ?cur = "max 1 (x_ParallelStreams (rest m))" and ?T = "rm_TotalFiles m" and ?S = "x_DispatchSkips (rest m)"
  let ?A = "?T + ?S" and ?r = "suggestParallel m"
  let ?y = "fmul (fl ?cur) (rnd_signed (1 + fmul (fdiv (fl ?S) (fl ?A)) (rnd64 (6 / 5))))"
  let ?s = "of_int ?S / of_int ?A :: rat" and ?c = "of_int ?cur :: rat"
  let ?x = "?c * (1 + ?s * (6 / 5))"
  assume "\<not> (?r = 16 \<or> ?cur * ?A \<le> ?r * ?T)"
  then have r16: "?r \<noteq> 16" and lt: "?r * ?T + 1 \<le> ?cur * ?A" by auto
  have A: "i64 ?A = ?A" using assms(1-3) by (intro i64_id) (simp add: in_i64_def)
  have C: "i64 (?cur + 1) = ?cur + 1" using assms(5) by (intro i64_id) (simp add: in_i64_def)
  have pos: "0 < ?A" using assms(1,2) by simp
  have eq: "?r = (let n = if \<lceil>?y\<rceil> \<le> ?cur then ?cur + 1 else \<lceil>?y\<rceil> in if 16 < n then 16 else n)"
    unfolding suggestParallel_def Let_def A C if_P[OF pos] by (rule refl)
  note r = capped_next[OF eq r16]
  have sc: "?x * (1 - 1 / 2 ^ 50) \<le> ?y" using assms by (intro scaled_lower) auto
  have "of_int ?T = of_int ?A * (1 - ?s)" using assms(1,2) by (simp add: field_simps)
  then have ex: "?c * of_int ?A \<le> ?x * of_int ?T"
    using assms(1,2,4) by (intro exact_absorbs) (simp_all add: divide_le_eq of_int_le_iff[symmetric] del: of_int_le_iff)
  have y16: "?y \<le> 16" using order_trans[OF r(1), of 16] r(2) by simp
  have "?x - of_int ?r \<le> 17 / 2 ^ 50" using near[OF sc y16] r(1) by linarith
  then have "(?x - of_int ?r) * of_int ?T \<le> 17 / 2 ^ 50 * of_int ?T" using assms(1) by (intro mult_right_mono) simp_all
  also have "\<dots> \<le> 17 / 2 ^ 50 * 2 ^ 40" using assms(1-3) by (intro mult_left_mono) (simp_all add: of_int_le_iff[symmetric] del: of_int_le_iff)
  also have "\<dots> < 1" by simp
  finally have "?x * of_int ?T < of_int ?r * of_int ?T + 1" by (simp add: left_diff_distrib)
  also have "\<dots> = of_int (?r * ?T + 1)" by simp
  also have "\<dots> \<le> of_int (?cur * ?A)" using lt by (simp only: of_int_le_iff)
  also have "\<dots> = ?c * of_int ?A" by simp
  finally show False using ex by linarith
qed


definition demo_run :: "int \<Rightarrow> int \<Rightarrow> int \<Rightarrow> sealed" where
  "demo_run files skips streams =
     \<lparr>rm_ID = ''r'', rm_StartedAt = Some 0, rm_StoppedAt = Some 1, rm_TotalFiles = files, rm_TotalBytes = 0, rm_OverallMBps = 0,
      rm_FailedFiles = 0, rm_SucceededFiles = files, rm_Interrupted = False,
      rm_rest = Some (zero_rest\<lparr>x_DispatchSkips := skips, x_ParallelStreams := streams\<rparr>)\<rparr>"

theorem suggestion_absorbs_witness: "suggestParallel (demo_run 90 10 5) = 6 \<and> 5 * 100 \<le> (6 :: int) * 90"
proof -
  have s: "suggestParallel (demo_run 90 10 5) = 6" by code_simp
  have "suggestParallel (demo_run 90 10 5) = 16 \<or> max 1 5 * (90 + 10) \<le> suggestParallel (demo_run 90 10 5) * 90"
    using suggestion_absorbs[of "demo_run 90 10 5"] by (simp add: demo_run_def rest_def)
  with s show ?thesis by simp
qed

text \<open>Beyond a sixth it is not: with half of the attempted files skipped, twice the slots are needed,
  and fewer are proposed. Above 16 streams the cap proposes fewer than there are.\<close>

lemma suggestion_falls_short:
  "suggestParallel (demo_run 100 100 5) \<in> {8, 9}" "suggestParallel (demo_run 100 10 20) = 16"
  by code_simp+

text \<open>The findings come in the order of the code, not by severity.\<close>

lemma critical_not_first:
  "map sg_severity (Suggest (demo_run 90 10 5\<lparr>rm_FailedFiles := 45\<rparr>)) = [Warn, Critical]"
  by code_simp

end
