(* ===== verification/Doctor.thy ===== *)
theory Doctor
  imports Analysis Vault "HOL-Library.AList"
begin

text \<open>
  The run doctor (rundoctor/rundoctor.go and web/rundoctor_handlers.go): which past runs a run may
  be compared with, the redaction of what the operator typed, the text of the prompt, follow-up
  conversations over the log of diagnoses, and the handlers.

  Parameters: \<open>uni\<close>, case folding beyond ASCII; \<open>sha6\<close>, the first six hexadecimal digits of
  SHA-256; \<open>order\<close>, the order in which a Go map is visited; \<open>quote_go\<close>, the format \<open>%q\<close>; \<open>rfc\<close>,
  the rendering of instants; the system prompt; the answer of the AI provider.
\<close>

section \<open>Comparable runs\<close>

definition EqualFold :: "(string \<Rightarrow> string \<Rightarrow> bool) \<Rightarrow> string \<Rightarrow> string \<Rightarrow> bool" where
  "EqualFold uni s t = (if is_ascii s \<and> is_ascii t then map lower_byte s = map lower_byte t else uni s t)"

definition sameTarget :: "(string \<Rightarrow> string \<Rightarrow> bool) \<Rightarrow> sealed \<Rightarrow> sealed \<Rightarrow> bool" where
  "sameTarget uni a b \<longleftrightarrow> x_TargetHost (rest a) = x_TargetHost (rest b) \<and> x_TargetPort (rest a) = x_TargetPort (rest b)
     \<and> EqualFold uni (x_TargetProtocol (rest a)) (x_TargetProtocol (rest b))"

text \<open>Runs that started at the same instant may come in any order.\<close>

definition ComparablePeers :: "(string \<Rightarrow> string \<Rightarrow> bool) \<Rightarrow> sealed \<Rightarrow> sealed list \<Rightarrow> sealed list" where
  "ComparablePeers uni focal ms =
     (if x_TargetHost (rest focal) = [] then []
      else sort_key (\<lambda>m. - instant (rm_StartedAt m))
             (filter (\<lambda>m. rm_ID m \<noteq> rm_ID focal \<and> x_TargetHost (rest m) \<noteq> [] \<and> sameTarget uni focal m) ms))"

section \<open>Redaction\<close>

text \<open>A redaction map: tokens with the values they stand for.\<close>

type_synonym redactions = "(string \<times> string) list"

definition rev_of :: "redactions \<Rightarrow> (string \<rightharpoonup> string)" where
  "rev_of seed = foldl (\<lambda>r (tok, val). r(val \<mapsto> tok)) Map.empty seed"

definition token :: "(string \<Rightarrow> string) \<Rightarrow> string \<Rightarrow> string \<Rightarrow> string" where
  "token sha6 category val = ''<'' @ category @ ''_'' @ sha6 (category @ '':'' @ val) @ ''>''"

definition tokenize ::
  "(string \<Rightarrow> string) \<Rightarrow> string \<Rightarrow> string \<Rightarrow> redactions \<times> (string \<rightharpoonup> string) \<Rightarrow> string \<times> redactions \<times> (string \<rightharpoonup> string)" where
  "tokenize sha6 category val st =
     (case st of (seed, rv) \<Rightarrow>
        if val = [] then ([], seed, rv)
        else case rv val of
          Some tok \<Rightarrow> (tok, seed, rv)
        | None \<Rightarrow> (let tok = token sha6 category val in (tok, AList.update tok val seed, rv(val \<mapsto> tok))))"

definition replace_reals :: "(string \<times> string) list \<Rightarrow> string \<Rightarrow> string" where
  "replace_reals pairs s = foldl (\<lambda>s (val, tok). if val = [] then s else replace_all val tok s) s pairs"

text \<open>\<open>Redact\<close> of the values already known.\<close>

definition Redact :: "((string \<rightharpoonup> string) \<Rightarrow> (string \<times> string) list) \<Rightarrow> string \<Rightarrow> redactions \<Rightarrow> string \<times> redactions" where
  "Redact order s seed = (replace_reals (order (rev_of seed)) s, seed)"

fun redact_disabled ::
  "(string \<Rightarrow> string) \<Rightarrow> disabled_user list \<Rightarrow> redactions \<times> (string \<rightharpoonup> string) \<Rightarrow>
    disabled_user list \<times> redactions \<times> (string \<rightharpoonup> string)" where
  "redact_disabled sha6 [] st = ([], st)"
| "redact_disabled sha6 (d # ds) st =
     (case tokenize sha6 ''user'' (du_User d) st of
        (u, st1) \<Rightarrow> (case tokenize sha6 ''path'' (du_LastFile d) st1 of
          (p, st2) \<Rightarrow> (case redact_disabled sha6 ds st2 of
            (ds', st3) \<Rightarrow> (d\<lparr>du_User := u, du_LastFile := p\<rparr> # ds', st3))))"

definition redactMeta ::
  "(string \<Rightarrow> string) \<Rightarrow> ((string \<rightharpoonup> string) \<Rightarrow> (string \<times> string) list) \<Rightarrow> sealed \<Rightarrow> redactions \<Rightarrow> sealed \<times> redactions" where
  "redactMeta sha6 order m seed =
     (case tokenize sha6 ''host'' (x_TargetHost (rest m)) (seed, rev_of seed) of
        (h, st1) \<Rightarrow> (case redact_disabled sha6 (x_Disabled (rest m)) st1 of
          (dis, seed', rv) \<Rightarrow>
            (let detail = x_StopDetail (rest m);
                 detail' = (if detail \<noteq> [] then replace_reals (order rv) detail else detail)
             in (m\<lparr>rm_rest := Some ((rest m)\<lparr>x_TargetHost := h, x_Disabled := dis, x_StopDetail := detail'\<rparr>)\<rparr>, seed'))))"

section \<open>The prompt\<close>

definition nl :: string where "nl = [CHR 10]"

definition fmt_ms :: "int \<Rightarrow> string" where "fmt_ms n = go_itoa (go_div n 1000000) @ ''ms''"

definition success_pct :: "sealed \<Rightarrow> rat" where
  "success_pct m =
     (let n = i64 (rm_SucceededFiles m + rm_FailedFiles m)
      in if 0 < n then fmul (fdiv (fl (rm_SucceededFiles m)) (fl n)) 100 else 0)"

definition latency_lines :: "latency_report \<Rightarrow> string" where
  "latency_lines l =
     (case lr_Upload l of None \<Rightarrow> []
      | Some u \<Rightarrow> ''upload_latency p50='' @ fmt_ms (P50 u) @ '' p95='' @ fmt_ms (P95 u) @ '' p99='' @ fmt_ms (P99 u) @ '' p999='' @ fmt_ms (P999 u) @ nl)
     @ (case lr_UploadCOR l of None \<Rightarrow> []
        | Some u \<Rightarrow> ''upload_cor_latency p95='' @ fmt_ms (P95 u) @ '' (queue-wait corrected)'' @ nl)
     @ (case lr_Dial l of None \<Rightarrow> [] | Some u \<Rightarrow> ''dial_latency p95='' @ fmt_ms (P95 u) @ nl)
     @ (case lr_Download l of None \<Rightarrow> []
        | Some u \<Rightarrow> if 0 < sCount u then ''download_latency p95='' @ fmt_ms (P95 u) @ nl else [])"

text \<open>The error codes are sorted before they are written.\<close>

definition metaSummary :: "(string \<Rightarrow> string) \<Rightarrow> sealed \<Rightarrow> string" where
  "metaSummary quote_go m =
     (let x = rest m; dur = max 0 (time_sub (rm_StoppedAt m) (rm_StartedAt m)) in
      ''id='' @ rm_ID m @ nl
      @ ''duration_s='' @ go_itoa \<lfloor>seconds dur\<rfloor> @ nl
      @ ''files_attempted='' @ go_itoa (i64 (rm_SucceededFiles m + rm_FailedFiles m)) @ '' files_succeeded='' @ go_itoa (rm_SucceededFiles m)
      @ '' files_failed='' @ go_itoa (rm_FailedFiles m) @ '' success_rate_pct='' @ fmt_f 1 (success_pct m) @ nl
      @ ''total_bytes='' @ go_itoa (rm_TotalBytes m) @ '' overall_mbps='' @ fmt_f 2 (rm_OverallMBps m) @ nl
      @ ''workload upload_users='' @ go_itoa (x_UploadUsers x) @ '' parallel_streams='' @ go_itoa (x_ParallelStreams x)
      @ '' files_per_minute='' @ go_itoa (x_FilesPerMinute x) @ nl
      @ ''download enabled='' @ fmt_bool (x_DownloadEnabled x) @ '' users='' @ go_itoa (x_DownloadUsers x)
      @ '' streams='' @ go_itoa (x_DownloadParallelStreams x) @ '' match='' @ x_DownloadMatchMode x @ nl
      @ (if 0 < x_DispatchSkips x then ''dispatch_skips='' @ go_itoa (x_DispatchSkips x) @ '' (capacity ceiling hit)'' @ nl
         else ''dispatch_skips=0'' @ nl)
      @ (if 0 < length (x_ErrorsByCode x)
         then ''errors_by_code:'' @ nl
           @ concat (map (\<lambda>(k, n). ''  '' @ k @ ''='' @ go_itoa n @ nl) (sort_key fst (x_ErrorsByCode x)))
         else [])
      @ (if 0 < x_HashVerified x \<or> 0 < x_HashMismatch x
         then ''hash_verified='' @ go_itoa (x_HashVerified x) @ '' hash_mismatch='' @ go_itoa (x_HashMismatch x) @ nl else [])
      @ (case x_Latency x of None \<Rightarrow> [] | Some l \<Rightarrow> latency_lines l)
      @ ''host_peaks cpu='' @ fmt_f 0 (x_PeakCPUPercent x) @ ''% avg_cpu='' @ fmt_f 0 (x_AvgCPUPercent x) @ ''% peak_fd=''
      @ go_itoa (x_PeakFDInUse x) @ '' peak_heap_mb='' @ fmt_f 0 (x_PeakHeapMB x) @ '' cores='' @ go_itoa (x_NumCPU x) @ nl
      @ (if x_StopReason x \<noteq> [] then ''stop_reason='' @ x_StopReason x @ nl else [])
      @ (if x_StopDetail x \<noteq> [] then ''stop_detail='' @ quote_go (x_StopDetail x) @ nl else []))"

definition median :: "rat list \<Rightarrow> rat" where
  "median vals =
     (if vals = [] then 0
      else let s = sort vals; mid = length s div 2
           in if even (length s) then fdiv (rnd_signed (s ! (mid - 1) + s ! mid)) 2 else s ! mid)"

definition upload_p95 :: "sealed \<Rightarrow> rat option" where
  "upload_p95 m = map_option (\<lambda>u. fdiv (fl (P95 u)) 1000000) (Option.bind (x_Latency (rest m)) lr_Upload)"

text \<open>The format \<open>%+.kf\<close>.\<close>

definition fmt_plus :: "nat \<Rightarrow> rat \<Rightarrow> string" where
  "fmt_plus k x = (if 0 \<le> x then ''+'' else []) @ fmt_f k x"

definition diff_line :: "nat \<Rightarrow> rat \<Rightarrow> rat \<Rightarrow> string" where
  "diff_line k focal med = '' focal='' @ fmt_f k focal @ '' median='' @ fmt_f k med @ '' delta='' @ fmt_plus k (rnd_signed (focal - med)) @ nl"

definition diffSummary :: "sealed \<Rightarrow> sealed list \<Rightarrow> string" where
  "diffSummary focal baselines =
     (if baselines = [] then ''(no baselines)'' @ nl
      else
        let mbps = map rm_OverallMBps baselines;
            successPct = map success_pct (filter (\<lambda>b. 0 < i64 (rm_SucceededFiles b + rm_FailedFiles b)) baselines);
            p95 = List.map_filter upload_p95 baselines
        in ''vs_baseline_median (n='' @ go_itoa (int (length baselines)) @ ''):'' @ nl
           @ ''  overall_mbps'' @ diff_line 2 (rm_OverallMBps focal) (median mbps)
           @ ''  success_pct '' @ diff_line 1 (success_pct focal) (median successPct)
           @ ''  upload_p95_ms'' @ diff_line 0 (case upload_p95 focal of Some y \<Rightarrow> y | None \<Rightarrow> 0) (median p95))"

definition pluralS :: "nat \<Rightarrow> string" where "pluralS n = (if n = 1 then [] else ''s'')"

datatype role = User | Assistant

record turn =
  tn_role :: role
  tn_content :: string

record prompt_result =
  pr_system :: string
  pr_user :: string
  pr_prior :: "turn list"
  pr_redactions :: "redactions option"

fun redact_all ::
  "(string \<Rightarrow> string) \<Rightarrow> ((string \<rightharpoonup> string) \<Rightarrow> (string \<times> string) list) \<Rightarrow> sealed list \<Rightarrow> redactions \<Rightarrow> sealed list \<times> redactions" where
  "redact_all sha6 order [] red = ([], red)"
| "redact_all sha6 order (m # rs) red =
     (case redactMeta sha6 order m red of (m', red') \<Rightarrow> apfst (Cons m') (redact_all sha6 order rs red'))"

record prompt_env =
  pe_sha6 :: "string \<Rightarrow> string"
  pe_order :: "(string \<rightharpoonup> string) \<Rightarrow> (string \<times> string) list"
  pe_quote :: "string \<Rightarrow> string"
  pe_rfc :: "int option \<Rightarrow> string"
  pe_system :: string

fun baseline_blocks :: "prompt_env \<Rightarrow> nat \<Rightarrow> sealed list \<Rightarrow> string" where
  "baseline_blocks pe i [] = []"
| "baseline_blocks pe i (b # bs) =
     ''### baseline_'' @ go_itoa (int i + 1) @ ''  id='' @ rm_ID b @ '' started='' @ pe_rfc pe (rm_StartedAt b) @ nl
     @ metaSummary (pe_quote pe) b @ nl @ baseline_blocks pe (Suc i) bs"

definition em_dash :: string where "em_dash = [CHR 0xE2, CHR 0x80, CHR 0x94]"

definition prompt_text :: "prompt_env \<Rightarrow> sealed \<Rightarrow> sealed list \<Rightarrow> string" where
  "prompt_text pe focal baselines =
     (let x = rest focal in
      trim_space
        (''## TARGET'' @ nl
         @ (if x_TargetHost x = [] then ''destination unknown (legacy meta, pre-v0.20.4)'' @ nl @ nl
            else ''host='' @ x_TargetHost x @ '' port='' @ go_itoa (x_TargetPort x) @ '' protocol='' @ x_TargetProtocol x @ nl @ nl)
         @ ''## FOCAL_RUN'' @ nl @ metaSummary (pe_quote pe) focal @ nl
         @ (if baselines = []
            then ''## BASELINES'' @ nl @ ''(no comparable historical runs targeting the same destination)'' @ nl @ nl
              @ ''## DIFF'' @ nl @ ''(no diff '' @ em_dash @ '' no baselines)'' @ nl
            else ''## BASELINES ('' @ go_itoa (int (length baselines)) @ '' run'' @ pluralS (length baselines) @ '')'' @ nl
              @ baseline_blocks pe 0 baselines
              @ ''## DIFF'' @ nl @ diffSummary focal baselines)))"

definition BuildPrompt :: "prompt_env \<Rightarrow> sealed \<Rightarrow> sealed list \<Rightarrow> bool \<Rightarrow> prompt_result" where
  "BuildPrompt pe focal baselines redact =
     (if redact
      then (case redactMeta (pe_sha6 pe) (pe_order pe) focal [] of
              (focal', red) \<Rightarrow> (case redact_all (pe_sha6 pe) (pe_order pe) baselines red of
                (baselines', red') \<Rightarrow>
                  \<lparr>pr_system = pe_system pe, pr_user = prompt_text pe focal' baselines', pr_prior = [], pr_redactions = Some red'\<rparr>))
      else \<lparr>pr_system = pe_system pe, pr_user = prompt_text pe focal baselines, pr_prior = [], pr_redactions = None\<rparr>)"

definition BuildFollowupPrompt ::
  "prompt_env \<Rightarrow> sealed \<Rightarrow> sealed list \<Rightarrow> turn list \<Rightarrow> string \<Rightarrow> bool \<Rightarrow> prompt_result" where
  "BuildFollowupPrompt pe focal baselines history newQuestion redact =
     (let base = BuildPrompt pe focal baselines redact
      in base\<lparr>pr_prior := \<lparr>tn_role = User, tn_content = pr_user base\<rparr> # history, pr_user := newQuestion\<rparr>)"

section \<open>The provider call\<close>

definition KnownModels :: "(string \<times> rat \<times> rat) list" where
  "KnownModels = [(''claude-haiku-4-5-20251001'', 1, 5), (''claude-sonnet-4-6'', 3, 15), (''claude-opus-4-7'', 15, 75)]"

definition EstimateCostUSD :: "string \<Rightarrow> int \<Rightarrow> int \<Rightarrow> rat" where
  "EstimateCostUSD modelID promptChars responseChars =
     (case List.find (\<lambda>(i, _). i = modelID) KnownModels of
        None \<Rightarrow> 0
      | Some (_, usdIn, usdOut) \<Rightarrow>
          fdiv (rnd_signed (fmul (fdiv (fl promptChars) 4) usdIn + fmul (fdiv (fl responseChars) 4) usdOut)) 1000000)"

text \<open>The messages of a call: the prior turns, then the prompt. \<open>ai\<close> answers with the text of the
  reply or fails.\<close>

definition messages :: "prompt_result \<Rightarrow> turn list" where
  "messages p = pr_prior p @ [\<lparr>tn_role = User, tn_content = pr_user p\<rparr>]"

definition CallAnthropic :: "(string \<Rightarrow> string \<Rightarrow> string \<Rightarrow> turn list \<Rightarrow> string option) \<Rightarrow> string \<Rightarrow> string \<Rightarrow> prompt_result \<Rightarrow> string option" where
  "CallAnthropic ai apiKey model p =
     (if apiKey = [] then None
      else map_option trim_space
        (ai apiKey (if model = [] then ''claude-haiku-4-5-20251001'' else model) (pr_system p) (messages p)))"

section \<open>Handlers\<close>

record dx =
  dx_Provider :: string
  dx_Model :: string
  dx_Redacted :: bool
  dx_BaselineIDs :: "string list"
  dx_Mode :: string
  dx_Question :: string
  dx_ParentID :: string
  dx_Narrative :: string
  dx_PromptChars :: int
  dx_ResponseChars :: int
  dx_ElapsedMs :: int
  dx_EstUSD :: rat

definition vaultRefAIProvider :: string where "vaultRefAIProvider = ''ai/provider''"
definition vaultRefAIKey :: string where "vaultRefAIKey = ''ai/api_key''"
definition vaultRefAIModel :: string where "vaultRefAIModel = ''ai/model''"

text \<open>A missing entry reads as the empty string.\<close>

definition vault_str :: "vault \<Rightarrow> string \<Rightarrow> string" where
  "vault_str v ref = (case vault_Get ref v of Some s \<Rightarrow> s | None \<Rightarrow> [])"

definition provider_of :: "vault \<Rightarrow> string" where
  "provider_of v = (let p = vault_str v vaultRefAIProvider in if p = [] then ''anthropic'' else p)"

datatype config_reply = ConfigHttp int | ConfigLocked | ConfigView bool string string | ConfigOk

datatype config_method = ConfigGet | ConfigPost | ConfigOther

text \<open>Setting a provider, a key and a model, each when it is not empty.\<close>

definition set_if :: "string \<Rightarrow> string \<Rightarrow> vault \<Rightarrow> vault_error option \<times> vault" where
  "set_if ref x v = (if x = [] then (None, v) else vault_Set ref x v)"

definition save_ai_config ::
  "(string \<Rightarrow> string) \<Rightarrow> crypto \<Rightarrow> save_env \<Rightarrow> (string \<times> string \<times> string) option \<Rightarrow> vault \<Rightarrow> disk_file \<Rightarrow>
    config_reply \<times> vault \<times> disk_file" where
  "save_ai_config low cr e body v file =
     (case body of
        None \<Rightarrow> (ConfigHttp 400, v, file)
      | Some (provider0, key0, model0) \<Rightarrow>
          let p = trim_space (to_lower low provider0); provider = (if p = [] then ''anthropic'' else p);
              apiKey = trim_space key0; model = trim_space model0
          in if provider \<noteq> ''anthropic'' then (ConfigHttp 400, v, file)
             else if apiKey = [] \<and> model = [] then (ConfigHttp 400, v, file)
             else if apiKey = [] \<and> vault_Get vaultRefAIKey v = None then (ConfigHttp 400, v, file)
             else case vault_Set vaultRefAIProvider provider v of
               (Some err, v1) \<Rightarrow> (ConfigHttp 500, v1, file)
             | (None, v1) \<Rightarrow> (case set_if vaultRefAIKey apiKey v1 of
               (Some err, v2) \<Rightarrow> (ConfigHttp 500, v2, file)
             | (None, v2) \<Rightarrow> (case set_if vaultRefAIModel model v2 of
               (Some err, v3) \<Rightarrow> (ConfigHttp 500, v3, file)
             | (None, v3) \<Rightarrow> (case vault_Save cr e v3 file of
               (Some err, v4, file') \<Rightarrow> (ConfigHttp 500, v4, file')
             | (None, v4, file') \<Rightarrow> (ConfigOk, v4, file')))))"

definition handleRunDoctorConfig ::
  "(string \<Rightarrow> string) \<Rightarrow> crypto \<Rightarrow> save_env \<Rightarrow> int \<Rightarrow> config_method \<Rightarrow> (string \<times> string \<times> string) option \<Rightarrow> vault_state \<Rightarrow>
    config_reply \<times> vault_state" where
  "handleRunDoctorConfig low cr e now method body st =
     (case method of
        ConfigGet \<Rightarrow> (case bound_get now (fst st) of
            (None, b) \<Rightarrow> (ConfigLocked, b, snd st)
          | (Some v, b) \<Rightarrow> (ConfigView (vault_Get vaultRefAIKey v \<noteq> None) (provider_of v) (vault_str v vaultRefAIModel), b, snd st))
      | ConfigOther \<Rightarrow> (ConfigHttp 405, st)
      | ConfigPost \<Rightarrow> (case bound_get now (fst st) of
            (None, b) \<Rightarrow> (ConfigHttp 403, b, snd st)
          | (Some v, b) \<Rightarrow> (case save_ai_config low cr e body v (snd st) of
              (r, v', file') \<Rightarrow> (r, b\<lparr>bd_v := Some v'\<rparr>, file'))))"

datatype peers_reply = PeersHttp int | NotSealed string | Peers sealed "sealed list"

text \<open>\<open>metas\<close> is the listing of the metadata, None when it fails.\<close>

definition handleRunDoctorPeers ::
  "(string \<Rightarrow> string \<Rightarrow> bool) \<Rightarrow> bool \<Rightarrow> sealed list option \<Rightarrow> string \<Rightarrow> peers_reply" where
  "handleRunDoctorPeers uni has_dir metas ident =
     (if ident = [] then PeersHttp 400
      else if \<not> has_dir then PeersHttp 503
      else case metas of
        None \<Rightarrow> PeersHttp 500
      | Some all \<Rightarrow>
          (case List.find (\<lambda>m. rm_ID m = ident) all of
             None \<Rightarrow> NotSealed ident
           | Some focal \<Rightarrow> Peers focal (ComparablePeers uni focal all)))"

record analyze_body =
  ab_RunID :: string
  ab_CompareIDs :: "string list"
  ab_Redact :: "bool option"
  ab_DryRun :: bool
  ab_Model :: string
  ab_ParentDiagnosisID :: string
  ab_Question :: string

definition defaultMaxPeers :: nat where "defaultMaxPeers = 5"
definition maxDepth :: nat where "maxDepth = 12"

text \<open>The metadata of an id: a later file of the same id counts.\<close>

definition by_id :: "sealed list \<Rightarrow> string \<Rightarrow> sealed option" where
  "by_id all ident = List.find (\<lambda>m. rm_ID m = ident) (List.rev all)"

fun picked_baselines :: "(string \<Rightarrow> string \<Rightarrow> bool) \<Rightarrow> sealed list \<Rightarrow> sealed \<Rightarrow> string set \<Rightarrow> string list \<Rightarrow> sealed list" where
  "picked_baselines uni all focal seen [] = []"
| "picked_baselines uni all focal seen (i # ids) =
     (if i \<in> seen then picked_baselines uni all focal seen ids
      else case by_id all i of
        None \<Rightarrow> picked_baselines uni all focal (insert i seen) ids
      | Some m \<Rightarrow>
          if x_TargetHost (rest m) = [] \<or> x_TargetHost (rest m) \<noteq> x_TargetHost (rest focal)
             \<or> x_TargetPort (rest m) \<noteq> x_TargetPort (rest focal)
             \<or> \<not> EqualFold uni (x_TargetProtocol (rest m)) (x_TargetProtocol (rest focal))
          then picked_baselines uni all focal (insert i seen) ids
          else m # picked_baselines uni all focal (insert i seen) ids)"

definition choose_baselines :: "(string \<Rightarrow> string \<Rightarrow> bool) \<Rightarrow> sealed list \<Rightarrow> sealed \<Rightarrow> string list \<Rightarrow> sealed list" where
  "choose_baselines uni all focal ids =
     (if length ids = 0 then take defaultMaxPeers (ComparablePeers uni focal all)
      else picked_baselines uni all focal {} ids)"

text \<open>The chain of parents, oldest first; None when the log cannot be read. \<open>look\<close> finds a diagnosis.\<close>

fun parent_chain ::
  "(string \<Rightarrow> dx diagnosis option \<times> bool) \<Rightarrow> nat \<Rightarrow> string \<Rightarrow> dx diagnosis list \<Rightarrow> dx diagnosis list option" where
  "parent_chain look 0 cur chain = Some chain"
| "parent_chain look (Suc n) cur chain =
     (if cur = [] then Some chain
      else case look cur of
        (_, False) \<Rightarrow> None
      | (None, True) \<Rightarrow> Some chain
      | (Some d, True) \<Rightarrow> parent_chain look n (dx_ParentID (dg_rest d)) (d # chain))"

definition turns_of :: "dx diagnosis \<Rightarrow> turn list" where
  "turns_of d =
     (if dx_Question (dg_rest d) \<noteq> [] then [\<lparr>tn_role = User, tn_content = dx_Question (dg_rest d)\<rparr>] else [])
     @ [\<lparr>tn_role = Assistant, tn_content = dx_Narrative (dg_rest d)\<rparr>]"

definition history_of :: "dx diagnosis list \<Rightarrow> turn list" where
  "history_of chain = concat (map turns_of chain)"

record analyze_env =
  ae_uni :: "string \<Rightarrow> string \<Rightarrow> bool"
  ae_prompt :: prompt_env
  ae_enc :: "dx diagnosis \<Rightarrow> string"
  ae_dec :: "string \<Rightarrow> dx diagnosis option"
  ae_ai :: "string \<Rightarrow> string \<Rightarrow> string \<Rightarrow> turn list \<Rightarrow> string option"
  ae_elapsed :: int
  ae_fault :: "append_fault option"
  ae_now :: int

datatype analyze_reply =
    AnalyzeHttp int
  | DryRun sealed "sealed list" prompt_result "dx diagnosis list" bool
  | Answer sealed "sealed list" prompt_result "dx" "(string \<times> int option) option"

definition prompt_chars :: "prompt_result \<Rightarrow> int" where
  "prompt_chars p = int (length (pr_system p) + length (pr_user p) + sum_list (map (\<lambda>t. length (tn_content t)) (pr_prior p)))"

text \<open>The call of the provider and the record of its answer; the id and time that the reply reports
  are those of the last diagnosis in the log. A diagnosis that could not be recorded is reported
  without them.\<close>

definition answer ::
  "analyze_env \<Rightarrow> analyze_body \<Rightarrow> vault \<Rightarrow> sealed \<Rightarrow> sealed list \<Rightarrow> bool \<Rightarrow> prompt_result \<Rightarrow> string \<Rightarrow> analyze_reply \<times> string" where
  "answer ae body v focal baselines redact p journal =
     (let apiKey = vault_str v vaultRefAIKey in
      if apiKey = [] then (AnalyzeHttp 412, journal)
      else if \<not> EqualFold (ae_uni ae) (provider_of v) ''anthropic'' then (AnalyzeHttp 500, journal)
      else
        let m0 = trim_space (ab_Model body); model = (if m0 = [] then vault_str v vaultRefAIModel else m0) in
        case CallAnthropic (ae_ai ae) apiKey model p of
          None \<Rightarrow> (AnalyzeHttp 502, journal)
        | Some narrative \<Rightarrow>
            let saved = \<lparr>dx_Provider = provider_of v, dx_Model = model, dx_Redacted = redact,
                  dx_BaselineIDs = map rm_ID baselines, dx_Mode = (if 0 < length (ab_CompareIDs body) then ''pick'' else ''auto''),
                  dx_Question = ab_Question body, dx_ParentID = ab_ParentDiagnosisID body, dx_Narrative = narrative,
                  dx_PromptChars = prompt_chars p, dx_ResponseChars = int (length narrative), dx_ElapsedMs = ae_elapsed ae,
                  dx_EstUSD = EstimateCostUSD model (prompt_chars p) (int (length narrative))\<rparr>
            in case AppendDiagnosis (ae_enc ae) (ae_fault ae) (ae_now ae)
                      \<lparr>dg_ID = [], dg_RunID = ab_RunID body, dg_GeneratedAt = None, dg_rest = saved\<rparr> journal of
                 (journal', False) \<Rightarrow> (Answer focal baselines p saved None, journal')
               | (journal', True) \<Rightarrow>
                   (let ds = fst (ListDiagnoses (ae_dec ae) (ab_RunID body) journal')
                    in (Answer focal baselines p saved
                          (Some (if 0 < length ds then (dg_ID (last ds), dg_GeneratedAt (last ds)) else ([], None))), journal')))"

definition wants_redaction :: "analyze_body \<Rightarrow> bool" where
  "wants_redaction body = (case ab_Redact body of Some r \<Rightarrow> r | None \<Rightarrow> True)"

text \<open>The history and the prompt: a follow-up has a parent.\<close>

definition chain_for :: "analyze_env \<Rightarrow> analyze_body \<Rightarrow> string \<Rightarrow> dx diagnosis list option" where
  "chain_for ae body journal =
     (if ab_ParentDiagnosisID body \<noteq> []
      then parent_chain (\<lambda>i. FindDiagnosis (ae_dec ae) (ab_RunID body) i journal) maxDepth (ab_ParentDiagnosisID body) []
      else Some [])"

definition prompt_for :: "analyze_env \<Rightarrow> analyze_body \<Rightarrow> sealed \<Rightarrow> sealed list \<Rightarrow> dx diagnosis list \<Rightarrow> prompt_result" where
  "prompt_for ae body focal baselines chain =
     (if ab_ParentDiagnosisID body \<noteq> []
      then BuildFollowupPrompt (ae_prompt ae) focal baselines (history_of chain) (ab_Question body) (wants_redaction body)
      else BuildPrompt (ae_prompt ae) focal baselines (wants_redaction body))"

definition handleRunDoctorAnalyze ::
  "analyze_env \<Rightarrow> bool \<Rightarrow> analyze_body option \<Rightarrow> bool \<Rightarrow> sealed list option \<Rightarrow> int \<Rightarrow> bound_vault \<Rightarrow> string \<Rightarrow>
    analyze_reply \<times> bound_vault \<times> string" where
  "handleRunDoctorAnalyze ae post body0 has_dir metas now b journal =
     (if \<not> post then (AnalyzeHttp 405, b, journal)
      else case body0 of None \<Rightarrow> (AnalyzeHttp 400, b, journal) | Some body \<Rightarrow>
        if ab_RunID body = [] then (AnalyzeHttp 400, b, journal)
        else if ab_ParentDiagnosisID body \<noteq> [] \<and> trim_space (ab_Question body) = [] then (AnalyzeHttp 400, b, journal)
        else if \<not> has_dir then (AnalyzeHttp 503, b, journal)
        else case metas of None \<Rightarrow> (AnalyzeHttp 500, b, journal) | Some all \<Rightarrow>
          (case by_id all (ab_RunID body) of None \<Rightarrow> (AnalyzeHttp 404, b, journal) | Some focal \<Rightarrow>
             let baselines = choose_baselines (ae_uni ae) all focal (ab_CompareIDs body);
                 isFollowup = ab_ParentDiagnosisID body \<noteq> []
             in case chain_for ae body journal of
                  None \<Rightarrow> (AnalyzeHttp 500, b, journal)
                | Some chain \<Rightarrow>
                    let p = prompt_for ae body focal baselines chain
                    in if ab_DryRun body then (DryRun focal baselines p chain isFollowup, b, journal)
                       else case bound_get now b of
                         (None, b') \<Rightarrow> (AnalyzeHttp 403, b', journal)
                       | (Some v, b') \<Rightarrow>
                           (case answer ae body v focal baselines (wants_redaction body) p journal of
                              (r, journal') \<Rightarrow> (r, b', journal'))))"

datatype history_reply = HistoryHttp int | History string "dx diagnosis list"

definition handleRunDoctorHistory :: "(string \<Rightarrow> dx diagnosis option) \<Rightarrow> bool \<Rightarrow> string \<Rightarrow> string \<Rightarrow> history_reply" where
  "handleRunDoctorHistory dec has_dir ident journal =
     (if ident = [] then HistoryHttp 400
      else if \<not> has_dir then HistoryHttp 503
      else case ListDiagnoses dec ident journal of
        (ds, True) \<Rightarrow> History ident ds
      | (_, False) \<Rightarrow> HistoryHttp 500)"

definition targetDisplay :: "sealed \<Rightarrow> string" where
  "targetDisplay m =
     (let x = rest m in
      if x_TargetHost x = [] then ''(host unknown '' @ em_dash @ '' legacy run)''
      else
        let proto = (if x_TargetProtocol x = [] then ''sftp'' else x_TargetProtocol x)
        in if x_TargetPort x = 0 then proto @ ''://'' @ x_TargetHost x
           else proto @ ''://'' @ x_TargetHost x @ '':'' @ go_itoa (x_TargetPort x))"

section \<open>Only runs of the same target are compared\<close>

text \<open>What a reply is about: the run, its baselines and the prompt.\<close>

definition reply_about :: "analyze_reply \<Rightarrow> (sealed \<times> sealed list \<times> prompt_result) option" where
  "reply_about r = (case r of AnalyzeHttp _ \<Rightarrow> None | DryRun f bs p _ _ \<Rightarrow> Some (f, bs, p) | Answer f bs p _ _ \<Rightarrow> Some (f, bs, p))"

lemma answer_about: "answer ae body v focal bs red p journal = (r, j) \<Longrightarrow> reply_about r \<in> {None, Some (focal, bs, p)}"
  by (auto simp: answer_def Let_def reply_about_def split: if_splits option.splits prod.splits bool.splits)

text \<open>Everything an answered request determines.\<close>

lemma analyze_shape:
  assumes "handleRunDoctorAnalyze ae post body0 has_dir metas now b journal = (r, b', journal')" "reply_about r = Some (focal, bs, p)"
  obtains body all chain where "body0 = Some body" "metas = Some all" "by_id all (ab_RunID body) = Some focal"
    "bs = choose_baselines (ae_uni ae) all focal (ab_CompareIDs body)" "chain_for ae body journal = Some chain"
    "p = prompt_for ae body focal bs chain"
proof -
  have http: "reply_about (AnalyzeHttp c) = None" for c by (simp add: reply_about_def)
  obtain body all f where s: "body0 = Some body" "metas = Some all" "by_id all (ab_RunID body) = Some f"
    using assms by (auto simp: handleRunDoctorAnalyze_def http split: if_splits option.splits)
  obtain chain where c: "chain_for ae body journal = Some chain"
    using assms s by (cases "chain_for ae body journal") (auto simp: handleRunDoctorAnalyze_def http split: if_splits)
  let ?bs = "choose_baselines (ae_uni ae) all f (ab_CompareIDs body)"
  have "reply_about r \<in> {None, Some (f, ?bs, prompt_for ae body f ?bs chain)}"
  proof (cases "ab_DryRun body")
    case True
    with assms(1) s c show ?thesis by (auto simp: handleRunDoctorAnalyze_def Let_def http reply_about_def split: if_splits)
  next
    case False
    obtain w b1 where g: "bound_get now b = (w, b1)" by fastforce
    show ?thesis
    proof (cases w)
      case None
      with assms(1) s c False g show ?thesis by (auto simp: handleRunDoctorAnalyze_def Let_def http split: if_splits)
    next
      case (Some v)
      obtain r1 j1 where a: "answer ae body v f ?bs (wants_redaction body) (prompt_for ae body f ?bs chain) journal = (r1, j1)" by fastforce
      from assms(1) s c False g Some a have "r = r1 \<or> (\<exists>c. r = AnalyzeHttp c)"
        by (auto simp: handleRunDoctorAnalyze_def Let_def split: if_splits)
      with answer_about[OF a] http show ?thesis by auto
    qed
  qed
  with assms(2) have "focal = f" "bs = ?bs" "p = prompt_for ae body f ?bs chain" by auto
  with s c show thesis by (intro that[of body all chain]) simp_all
qed

lemma by_id_in: "by_id all i = Some m \<Longrightarrow> m \<in> set all"
proof -
  assume "by_id all i = Some m"
  then obtain k where "k < length (List.rev all)" "m = List.rev all ! k" unfolding by_id_def find_Some_iff by blast
  then have "m \<in> set (List.rev all)" using nth_mem by blast
  then show ?thesis by simp
qed

lemma picked_same:
  "list_all (\<lambda>m. x_TargetHost (rest m) \<noteq> [] \<and> sameTarget uni m focal \<and> m \<in> set all) (picked_baselines uni all focal seen ids)"
  by (induction ids arbitrary: seen) (auto simp: sameTarget_def by_id_in split: option.split)

lemma sorted_newest: "sorted_wrt (\<lambda>x y. instant (rm_StartedAt y) \<le> instant (rm_StartedAt x)) (ComparablePeers uni focal all)"
proof -
  have "sorted (map (\<lambda>m. - instant (rm_StartedAt m)) (ComparablePeers uni focal all))" by (simp add: ComparablePeers_def)
  then show ?thesis unfolding sorted_map by (rule sorted_wrt_mono_rel[rotated]) simp
qed

text \<open>An analysis never compares across targets. Every baseline of a diagnosis or of a dry run has the
  host, port and protocol of the run in question; without a selection the baselines are at most
  five, the newest first, never the run itself, and no comparable run that is left out is newer
  than one that is taken.\<close>

theorem analysis_targets:
  assumes "handleRunDoctorAnalyze ae post (Some body) has_dir (Some all) now b journal = (r, b', journal')"
    and "reply_about r = Some (focal, bs, p)"
  shows "rm_ID focal = ab_RunID body \<and>
    (\<forall>m \<in> set bs. m \<in> set all \<and> x_TargetHost (rest m) \<noteq> [] \<and> (sameTarget (ae_uni ae) focal m \<or> sameTarget (ae_uni ae) m focal)) \<and>
    (ab_CompareIDs body = [] \<longrightarrow>
      length bs \<le> 5 \<and> (\<forall>m \<in> set bs. rm_ID m \<noteq> rm_ID focal) \<and>
      sorted_wrt (\<lambda>x y. instant (rm_StartedAt y) \<le> instant (rm_StartedAt x)) bs \<and>
      (\<forall>m \<in> set (ComparablePeers (ae_uni ae) focal all) - set bs. \<forall>x \<in> set bs. instant (rm_StartedAt m) \<le> instant (rm_StartedAt x)))"
proof -
  from analyze_shape[OF assms] have f: "by_id all (ab_RunID body) = Some focal"
    and bs: "bs = choose_baselines (ae_uni ae) all focal (ab_CompareIDs body)" by auto
  let ?peers = "ComparablePeers (ae_uni ae) focal all"
  have peer: "m \<in> set all \<and> x_TargetHost (rest m) \<noteq> [] \<and> sameTarget (ae_uni ae) focal m \<and> rm_ID m \<noteq> rm_ID focal" if "m \<in> set ?peers" for m
    using that by (auto simp: ComparablePeers_def split: if_splits)
  have "rm_ID focal = ab_RunID body" using f by (auto simp: by_id_def find_Some_iff)
  moreover have "m \<in> set all \<and> x_TargetHost (rest m) \<noteq> [] \<and> (sameTarget (ae_uni ae) focal m \<or> sameTarget (ae_uni ae) m focal)"
    if "m \<in> set bs" for m
    using that peer picked_same[of "ae_uni ae" focal all "{}" "ab_CompareIDs body"]
    by (auto simp: bs choose_baselines_def list_all_iff split: if_splits dest!: in_set_takeD)
  moreover have "length bs \<le> 5 \<and> (\<forall>m \<in> set bs. rm_ID m \<noteq> rm_ID focal) \<and>
      sorted_wrt (\<lambda>x y. instant (rm_StartedAt y) \<le> instant (rm_StartedAt x)) bs \<and>
      (\<forall>m \<in> set ?peers - set bs. \<forall>x \<in> set bs. instant (rm_StartedAt m) \<le> instant (rm_StartedAt x))"
    if "ab_CompareIDs body = []"
  proof -
    have t: "bs = take 5 ?peers" using that by (simp add: bs choose_baselines_def defaultMaxPeers_def)
    have sw: "sorted_wrt (\<lambda>x y. instant (rm_StartedAt y) \<le> instant (rm_StartedAt x)) (bs @ drop 5 ?peers)"
      using sorted_newest[of "ae_uni ae" focal all] by (simp add: t)
    have "m \<in> set (drop 5 ?peers)" if "m \<in> set ?peers - set bs" for m
      using that by (metis DiffE Un_iff append_take_drop_id set_append t)
    with sw have "\<forall>m \<in> set ?peers - set bs. \<forall>x \<in> set bs. instant (rm_StartedAt m) \<le> instant (rm_StartedAt x)"
      by (simp add: sorted_wrt_append)
    with sw peer show ?thesis by (auto simp: t sorted_wrt_append dest!: in_set_takeD)
  qed
  ultimately show ?thesis by blast
qed

section \<open>Conversations\<close>

text \<open>A thread of the log: every diagnosis but the first names the one before it as its parent.\<close>

definition thread :: "dx diagnosis list \<Rightarrow> dx diagnosis list \<Rightarrow> bool" where
  "thread ds xs \<longleftrightarrow> xs \<noteq> [] \<and> set xs \<subseteq> set ds \<and> dx_ParentID (dg_rest (hd xs)) = [] \<and>
     (\<forall>i. Suc i < length xs \<longrightarrow> dx_ParentID (dg_rest (xs ! Suc i)) = dg_ID (xs ! i))"

lemma thread_snoc:
  assumes "thread ds (xs @ [d])" "xs \<noteq> []"
  shows "thread ds xs" "dx_ParentID (dg_rest d) = dg_ID (last xs)"
proof -
  have p: "Suc i < length (xs @ [d]) \<Longrightarrow> dx_ParentID (dg_rest ((xs @ [d]) ! Suc i)) = dg_ID ((xs @ [d]) ! i)" for i
    using assms(1) by (simp add: thread_def)
  have "dx_ParentID (dg_rest (xs ! Suc i)) = dg_ID (xs ! i)" if "Suc i < length xs" for i
    using p[of i] that by (simp add: nth_append)
  with assms show "thread ds xs" by (simp add: thread_def)
  show "dx_ParentID (dg_rest d) = dg_ID (last xs)"
    using p[of "length xs - 1"] assms(2) by (simp add: nth_append last_conv_nth)
qed

lemma find_by_id:
  assumes "d \<in> set ds" "distinct (map dg_ID ds)"
  shows "List.find (\<lambda>x. dg_ID x = dg_ID d) ds = Some d"
  using assms by (induction ds) auto

text \<open>The walk stops at the root, or after its depth.\<close>

lemma parent_chain_thread:
  assumes "\<And>i. look i = (List.find (\<lambda>d. dg_ID d = i) ds, True)" "distinct (map dg_ID ds)" "\<forall>d \<in> set ds. dg_ID d \<noteq> []" "thread ds xs"
  shows "parent_chain look n (dg_ID (last xs)) acc = Some (drop (length xs - n) xs @ acc)"
  using assms(4)
proof (induction n arbitrary: xs acc)
  case (Suc n)
  from Suc.prems have ne: "xs \<noteq> []" by (simp add: thread_def)
  then obtain ys d where xs: "xs = ys @ [d]" by (metis append_butlast_last_id)
  have d: "d \<in> set ds" using Suc.prems by (simp add: thread_def xs)
  have st: "parent_chain look (Suc n) (dg_ID d) acc = parent_chain look n (dx_ParentID (dg_rest d)) (d # acc)"
    using assms(1,3) d find_by_id[OF d assms(2)] by simp
  show ?case
  proof (cases "ys = []")
    case True
    then have "dx_ParentID (dg_rest d) = []" using Suc.prems by (simp add: thread_def xs)
    with st True show ?thesis by (cases n) (simp_all add: xs)
  next
    case False
    from thread_snoc[OF Suc.prems[unfolded xs] False] have t: "thread ds ys" "dx_ParentID (dg_rest d) = dg_ID (last ys)" by auto
    from Suc.IH[OF t(1), of "d # acc"] st t(2) show ?thesis by (simp add: xs)
  qed
qed simp

lemma roles_history:
  "\<forall>d \<in> set xs. dx_Question (dg_rest d) \<noteq> [] \<Longrightarrow> map tn_role (history_of xs) = concat (replicate (length xs) [User, Assistant])"
  by (induction xs) (simp_all add: history_of_def turns_of_def)

lemma roles_append: "concat (replicate n [User, Assistant]) @ [User] = User # concat (replicate n [Assistant, User])"
  by (induction n) simp_all

text \<open>A follow-up question continues its thread. When the log holds a thread of diagnoses, the
  messages sent for a question under its last one are the structured prompt of the run, the
  answers and questions of the last twelve diagnoses of the thread in order, and the question;
  for a thread of at most twelve, whose first diagnosis answered no question and whose others
  did, that is the whole conversation, users and assistant taking turns.\<close>

theorem followup_conversation:
  assumes "handleRunDoctorAnalyze ae post (Some body) has_dir metas now b journal = (r, b', journal')"
    and "reply_about r = Some (focal, bs, p)"
    and "ListDiagnoses (ae_dec ae) (ab_RunID body) journal = (ds, True)"
    and "distinct (map dg_ID ds)" and "\<forall>d \<in> set ds. dg_ID d \<noteq> []" and "thread ds xs"
    and "ab_ParentDiagnosisID body = dg_ID (last xs)"
  shows "messages p = \<lparr>tn_role = User, tn_content = pr_user (BuildPrompt (ae_prompt ae) focal bs (wants_redaction body))\<rparr>
      # history_of (drop (length xs - 12) xs) @ [\<lparr>tn_role = User, tn_content = ab_Question body\<rparr>] \<and>
    (length xs \<le> 12 \<and> dx_Question (dg_rest (hd xs)) = [] \<and> (\<forall>d \<in> set (tl xs). dx_Question (dg_rest d) \<noteq> []) \<longrightarrow>
      map tn_role (messages p) = User # concat (replicate (length xs) [Assistant, User]))"
proof -
  obtain chain where c: "chain_for ae body journal = Some chain" and p: "p = prompt_for ae body focal bs chain"
    by (rule analyze_shape[OF assms(1,2)]) simp
  have ne1: "xs \<noteq> []" "last xs \<in> set ds" using assms(6) last_in_set[of xs] by (auto simp: thread_def)
  with assms(5,7) have ne: "xs \<noteq> []" "ab_ParentDiagnosisID body \<noteq> []" by auto
  have look: "FindDiagnosis (ae_dec ae) (ab_RunID body) i journal = (List.find (\<lambda>d. dg_ID d = i) ds, True)" for i
    by (simp add: FindDiagnosis_def assms(3))
  have "chain = drop (length xs - 12) xs"
    using c parent_chain_thread[OF look assms(4-6), of 12 "[]"]
    by (simp add: chain_for_def ne(2) maxDepth_def assms(7)[symmetric])
  then have m: "messages p = \<lparr>tn_role = User, tn_content = pr_user (BuildPrompt (ae_prompt ae) focal bs (wants_redaction body))\<rparr>
      # history_of (drop (length xs - 12) xs) @ [\<lparr>tn_role = User, tn_content = ab_Question body\<rparr>]"
    by (simp add: p prompt_for_def ne(2) messages_def BuildFollowupPrompt_def Let_def)
  have "map tn_role (messages p) = User # concat (replicate (length xs) [Assistant, User])"
    if "length xs \<le> 12" "dx_Question (dg_rest (hd xs)) = []" "\<forall>d \<in> set (tl xs). dx_Question (dg_rest d) \<noteq> []"
  proof -
    obtain y ys where xs: "xs = y # ys" using ne(1) by (cases xs) auto
    have "map tn_role (history_of xs) = Assistant # concat (replicate (length ys) [User, Assistant])"
      using roles_history[of ys] that(2,3) by (simp add: xs history_of_def turns_of_def)
    with that(1) roles_append[of "length ys"] show ?thesis by (simp add: m xs)
  qed
  with m show ?thesis by blast
qed

section \<open>Redaction can be undone\<close>

text \<open>The values of a run that are replaced.\<close>

definition sensitive :: "sealed \<Rightarrow> string list" where
  "sensitive m = x_TargetHost (rest m) # concat (map (\<lambda>d. [du_User d, du_LastFile d]) (x_Disabled (rest m)))"

definition categories :: "string set" where "categories = {''host'', ''user'', ''path''}"

definition no_collision :: "(string \<Rightarrow> string) \<Rightarrow> string set \<Rightarrow> bool" where
  "no_collision sha6 V \<longleftrightarrow>
     (\<forall>c \<in> categories. \<forall>c' \<in> categories. \<forall>x \<in> V. \<forall>y \<in> V. token sha6 c x = token sha6 c' y \<longrightarrow> x = y)"

text \<open>A redaction map built so far: tokens of values, each value once, each token once.\<close>

definition good_seed :: "(string \<Rightarrow> string) \<Rightarrow> string set \<Rightarrow> redactions \<Rightarrow> bool" where
  "good_seed sha6 V seed \<longleftrightarrow> distinct (map fst seed) \<and> distinct (map snd seed) \<and>
     (\<forall>(t, x) \<in> set seed. x \<in> V \<and> x \<noteq> [] \<and> (\<exists>c \<in> categories. t = token sha6 c x))"

definition stands :: "redactions \<Rightarrow> string \<Rightarrow> string \<Rightarrow> bool" where
  "stands seed x t \<longleftrightarrow> (if x = [] then t = [] else (t, x) \<in> set seed)"

lemma stands_mono: "stands seed x t \<Longrightarrow> set seed \<subseteq> set seed' \<Longrightarrow> stands seed' x t"
  by (auto simp: stands_def split: if_splits)

lemma rev_of_iff: "distinct (map snd seed) \<Longrightarrow> rev_of seed x = Some t \<longleftrightarrow> (t, x) \<in> set seed"
proof -
  assume d: "distinct (map snd seed)"
  have "foldl (\<lambda>r (tok, y). r(y \<mapsto> tok)) m seed x = Some t \<longleftrightarrow> (t, x) \<in> set seed \<or> (x \<notin> snd ` set seed \<and> m x = Some t)" for m
    using d
  proof (induction seed arbitrary: m)
    case (Cons a seed)
    obtain u y where a: "a = (u, y)" by fastforce
    from Cons.prems have "y \<notin> snd ` set seed" "distinct (map snd seed)" by (simp_all add: a)
    with Cons.IH[of "m(y \<mapsto> u)"] show ?case by (auto simp: a image_iff)
  qed simp
  from this[of Map.empty] show ?thesis by (simp add: rev_of_def)
qed

lemma tokenize_good:
  assumes "tokenize sha6 c x (seed, rev_of seed) = (t, seed', rv')" "good_seed sha6 V seed" "no_collision sha6 V" "c \<in> categories" "x \<in> V"
  shows "good_seed sha6 V seed' \<and> rv' = rev_of seed' \<and> set seed \<subseteq> set seed' \<and> stands seed' x t"
proof (cases "x = [] \<or> rev_of seed x \<noteq> None")
  case True
  with assms(1,2) rev_of_iff[of seed x t] show ?thesis
    by (auto simp: tokenize_def stands_def good_seed_def split: if_splits)
next
  case False
  have d: "distinct (map snd seed)" "distinct (map fst seed)" using assms(2) by (simp_all add: good_seed_def)
  let ?t = "token sha6 c x"
  have x: "x \<notin> snd ` set seed"
  proof
    assume "x \<in> snd ` set seed"
    then obtain u where "(u, x) \<in> set seed" by force
    with rev_of_iff[OF d(1), of x u] False show False by simp
  qed
  have t: "?t \<notin> fst ` set seed"
  proof
    assume "?t \<in> fst ` set seed"
    then obtain y where y: "(?t, y) \<in> set seed" by force
    then obtain c' where "y \<in> V" "c' \<in> categories" "?t = token sha6 c' y" using assms(2) by (auto simp: good_seed_def)
    with assms(3-5) have "y = x" by (metis no_collision_def)
    with y x show False by force
  qed
  have u: "AList.update ?t x seed = seed @ [(?t, x)]" using t by (induction seed) auto
  have e: "seed' = seed @ [(?t, x)]" "t = ?t" "rv' = (rev_of seed)(x \<mapsto> ?t)"
    using assms(1) False u by (auto simp: tokenize_def Let_def split: option.splits)
  have "rv' = rev_of seed'" by (simp add: e rev_of_def)
  moreover have "good_seed sha6 V seed'" using assms(2,4,5) x t False d by (auto simp: good_seed_def e image_iff)
  ultimately show ?thesis using False by (auto simp: e stands_def)
qed

lemma redact_disabled_good:
  assumes "redact_disabled sha6 ds (seed, rev_of seed) = (ds', seed', rv')" "good_seed sha6 V seed" "no_collision sha6 V"
    and "\<forall>d \<in> set ds. du_User d \<in> V \<and> du_LastFile d \<in> V"
  shows "good_seed sha6 V seed' \<and> rv' = rev_of seed' \<and> set seed \<subseteq> set seed' \<and>
    list_all2 (stands seed') (concat (map (\<lambda>d. [du_User d, du_LastFile d]) ds)) (concat (map (\<lambda>d. [du_User d, du_LastFile d]) ds'))"
  using assms
proof (induction ds arbitrary: seed ds')
  case (Cons d ds)
  obtain u s1 r1 where u: "tokenize sha6 ''user'' (du_User d) (seed, rev_of seed) = (u, s1, r1)" by (metis prod_cases3)
  have g1: "good_seed sha6 V s1 \<and> r1 = rev_of s1 \<and> set seed \<subseteq> set s1 \<and> stands s1 (du_User d) u"
    using tokenize_good[OF u Cons.prems(2,3)] Cons.prems(4) by (simp add: categories_def)
  obtain p s2 r2 where p: "tokenize sha6 ''path'' (du_LastFile d) (s1, rev_of s1) = (p, s2, r2)" by (metis prod_cases3)
  have g2: "good_seed sha6 V s2 \<and> r2 = rev_of s2 \<and> set s1 \<subseteq> set s2 \<and> stands s2 (du_LastFile d) p"
    using tokenize_good[OF p _ Cons.prems(3)] g1 Cons.prems(4) by (simp add: categories_def)
  obtain es where es: "redact_disabled sha6 ds (s2, rev_of s2) = (es, seed', rv')" "ds' = d\<lparr>du_User := u, du_LastFile := p\<rparr> # es"
    using Cons.prems(1) u p g1 g2 by (auto split: prod.splits)
  have g3: "good_seed sha6 V seed' \<and> rv' = rev_of seed' \<and> set s2 \<subseteq> set seed' \<and>
      list_all2 (stands seed') (concat (map (\<lambda>d. [du_User d, du_LastFile d]) ds)) (concat (map (\<lambda>d. [du_User d, du_LastFile d]) es))"
    using Cons.IH[OF es(1)] g2 Cons.prems(3,4) by simp
  have "stands seed' (du_User d) u" "stands seed' (du_LastFile d) p" "set seed \<subseteq> set seed'"
    using g1 g2 g3 stands_mono by (meson order_trans)+
  with g3 show ?case by (simp add: es(2))
qed simp

lemma redactMeta_good:
  assumes "redactMeta sha6 order m seed = (m', seed')" "good_seed sha6 V seed" "no_collision sha6 V" "set (sensitive m) \<subseteq> V"
  shows "good_seed sha6 V seed' \<and> set seed \<subseteq> set seed' \<and> list_all2 (stands seed') (sensitive m) (sensitive m')"
proof -
  obtain h s1 r1 where h: "tokenize sha6 ''host'' (x_TargetHost (rest m)) (seed, rev_of seed) = (h, s1, r1)" by (metis prod_cases3)
  have g1: "good_seed sha6 V s1 \<and> r1 = rev_of s1 \<and> set seed \<subseteq> set s1 \<and> stands s1 (x_TargetHost (rest m)) h"
    using tokenize_good[OF h assms(2,3)] assms(4) by (simp add: categories_def sensitive_def)
  obtain ds' s2 r2 where d: "redact_disabled sha6 (x_Disabled (rest m)) (s1, rev_of s1) = (ds', s2, r2)" by (metis prod_cases3)
  have V: "\<forall>d \<in> set (x_Disabled (rest m)). du_User d \<in> V \<and> du_LastFile d \<in> V" using assms(4) by (auto simp: sensitive_def)
  from redact_disabled_good[OF d _ assms(3) V] g1
  have g2: "good_seed sha6 V s2 \<and> set s1 \<subseteq> set s2 \<and> list_all2 (stands s2)
      (concat (map (\<lambda>d. [du_User d, du_LastFile d]) (x_Disabled (rest m)))) (concat (map (\<lambda>d. [du_User d, du_LastFile d]) ds'))" by simp
  have e: "seed' = s2" "x_TargetHost (rest m') = h" "x_Disabled (rest m') = ds'"
    using assms(1) h d g1 by (auto simp: redactMeta_def Let_def rest_def[of "m\<lparr>rm_rest := _\<rparr>"])
  have "stands s2 (x_TargetHost (rest m)) h" using g1 g2 stands_mono by blast
  with g1 g2 e show ?thesis by (auto simp: sensitive_def)
qed

lemma redact_all_good:
  assumes "redact_all sha6 order rs seed = (rs', seed')" "good_seed sha6 V seed" "no_collision sha6 V" "set (concat (map sensitive rs)) \<subseteq> V"
  shows "good_seed sha6 V seed' \<and> set seed \<subseteq> set seed' \<and> list_all2 (stands seed') (concat (map sensitive rs)) (concat (map sensitive rs'))"
  using assms
proof (induction rs arbitrary: seed rs')
  case (Cons m rs)
  obtain m' s1 where m: "redactMeta sha6 order m seed = (m', s1)" by fastforce
  obtain es where es: "redact_all sha6 order rs s1 = (es, seed')" "rs' = m' # es" using Cons.prems(1) m by (auto simp: apfst_def map_prod_def split: prod.splits)
  have g1: "good_seed sha6 V s1 \<and> set seed \<subseteq> set s1 \<and> list_all2 (stands s1) (sensitive m) (sensitive m')"
    using redactMeta_good[OF m Cons.prems(2,3)] Cons.prems(4) by simp
  have g2: "good_seed sha6 V seed' \<and> set s1 \<subseteq> set seed' \<and> list_all2 (stands seed') (concat (map sensitive rs)) (concat (map sensitive es))"
    using Cons.IH[OF es(1)] g1 Cons.prems(3,4) by simp
  have "list_all2 (stands seed') (sensitive m) (sensitive m')" using g1 g2 stands_mono by (blast intro: list_all2_mono)
  with g1 g2 show ?case by (auto simp: es(2) intro: list_all2_appendI)
qed simp

text \<open>The prompt's redaction map, applied to a replaced value.\<close>

definition unredact :: "redactions \<Rightarrow> string \<Rightarrow> string" where
  "unredact red t = (case map_of red t of Some x \<Rightarrow> x | None \<Rightarrow> t)"

lemma stands_unredact: "good_seed sha6 V seed \<Longrightarrow> stands seed x t \<Longrightarrow> unredact seed t = x"
proof -
  assume g: "good_seed sha6 V seed" and s: "stands seed x t"
  show ?thesis
  proof (cases "x = []")
    case True
    have "(fst a) \<noteq> []" if "a \<in> set seed" for a using g that by (auto simp: good_seed_def token_def)
    then have "map_of seed [] = None" by (fastforce simp: map_of_eq_None_iff)
    with True s show ?thesis by (simp add: unredact_def stands_def)
  next
    case False
    with g s have "map_of seed t = Some x" by (simp add: good_seed_def stands_def)
    then show ?thesis by (simp add: unredact_def)
  qed
qed

text \<open>Redaction can be undone and keeps identities. As long as no two of the values concerned share a
  token, the map that comes with the prompt turns every replaced host, user and path of the run
  and its baselines back into the original, and two of them are replaced by the same text exactly
  when they were equal.\<close>

theorem redaction_reversible:
  assumes "no_collision sha6 (set (concat (map sensitive ms)))" and "redact_all sha6 order ms [] = (ms', red)"
  shows "map (unredact red) (concat (map sensitive ms')) = concat (map sensitive ms) \<and>
    (\<forall>i j. i < length (concat (map sensitive ms)) \<and> j < length (concat (map sensitive ms)) \<longrightarrow>
      (concat (map sensitive ms') ! i = concat (map sensitive ms') ! j) = (concat (map sensitive ms) ! i = concat (map sensitive ms) ! j))"
proof -
  let ?V = "set (concat (map sensitive ms))" and ?xs = "concat (map sensitive ms)" and ?ts = "concat (map sensitive ms')"
  have g: "good_seed sha6 ?V red" and l: "list_all2 (stands red) ?xs ?ts"
    using redact_all_good[OF assms(2) _ assms(1)] by (auto simp: good_seed_def)
  have len: "length ?ts = length ?xs" and st: "i < length ?xs \<Longrightarrow> stands red (?xs ! i) (?ts ! i)" for i
    using l by (auto simp: list_all2_conv_all_nth)
  have un: "i < length ?xs \<Longrightarrow> unredact red (?ts ! i) = ?xs ! i" for i using stands_unredact[OF g st] .
  have inj: "t = t'" if "stands red x t" "stands red x t'" for x t t'
  proof (cases "x = []")
    case False
    with that have "(t, x) \<in> set red" "(t', x) \<in> set red" by (simp_all add: stands_def)
    moreover have "inj_on snd (set red)" using g by (simp add: good_seed_def distinct_map)
    ultimately show ?thesis using inj_onD[of snd "set red" "(t, x)" "(t', x)"] by simp
  qed (use that in \<open>simp add: stands_def\<close>)
  have "map (unredact red) ?ts = ?xs" using un len by (intro nth_equalityI) simp_all
  moreover have "(?ts ! i = ?ts ! j) = (?xs ! i = ?xs ! j)" if "i < length ?xs" "j < length ?xs" for i j
    using st[OF that(1)] st[OF that(2)] un[OF that(1)] un[OF that(2)] inj by metis
  ultimately show ?thesis by blast
qed

section \<open>Concrete instances\<close>

definition demo_meta :: "string \<Rightarrow> string \<Rightarrow> int \<Rightarrow> sealed" where
  "demo_meta ident target start =
     \<lparr>rm_ID = ident, rm_StartedAt = Some start, rm_StoppedAt = Some start, rm_TotalFiles = 0, rm_TotalBytes = 0, rm_OverallMBps = 0,
      rm_FailedFiles = 0, rm_SucceededFiles = 0, rm_Interrupted = False,
      rm_rest = Some (zero_rest\<lparr>x_TargetHost := target, x_TargetPort := 22, x_TargetProtocol := ''sftp'',
        x_Disabled := [\<lparr>du_User = ''u'', du_Kind = ''upload'', du_LastCode = [], du_LastFile = []\<rparr>]\<rparr>)\<rparr>"

definition demo_metas :: "sealed list" where
  "demo_metas = [demo_meta ''a'' ''h'' 1, demo_meta ''b'' ''h'' 2, demo_meta ''c'' ''k'' 3]"

definition demo_prompt_env :: prompt_env where
  "demo_prompt_env = \<lparr>pe_sha6 = (\<lambda>x. x), pe_order = (\<lambda>m. []), pe_quote = (\<lambda>x. x), pe_rfc = (\<lambda>t. []), pe_system = []\<rparr>"

definition demo_dx :: "string \<Rightarrow> string \<Rightarrow> string \<Rightarrow> dx diagnosis" where
  "demo_dx ident parent question =
     \<lparr>dg_ID = ident, dg_RunID = ''a'', dg_GeneratedAt = Some 1,
      dg_rest = \<lparr>dx_Provider = [], dx_Model = [], dx_Redacted = True, dx_BaselineIDs = [], dx_Mode = [], dx_Question = question,
        dx_ParentID = parent, dx_Narrative = ''n'', dx_PromptChars = 0, dx_ResponseChars = 1, dx_ElapsedMs = 0, dx_EstUSD = 0\<rparr>\<rparr>"

definition demo_log :: "dx diagnosis list" where
  "demo_log = [demo_dx ''1'' [] [], demo_dx ''2'' ''1'' ''q'']"

definition demo_ae :: analyze_env where
  "demo_ae = \<lparr>ae_uni = (\<lambda>x y. x = y), ae_prompt = demo_prompt_env, ae_enc = (\<lambda>d. dg_ID d),
     ae_dec = (\<lambda>l. List.find (\<lambda>d. dg_ID d = l) demo_log), ae_ai = (\<lambda>k m y ts. None), ae_elapsed = 0, ae_fault = None, ae_now = 5\<rparr>"

definition demo_body :: "string \<Rightarrow> string \<Rightarrow> analyze_body" where
  "demo_body parent question = \<lparr>ab_RunID = ''a'', ab_CompareIDs = [], ab_Redact = None, ab_DryRun = True, ab_Model = [],
     ab_ParentDiagnosisID = parent, ab_Question = question\<rparr>"

definition demo_bound :: bound_vault where
  "demo_bound = \<lparr>bd_v = None, bd_lastTouch = 0, bd_idle = 0\<rparr>"

lemma demo_baselines:
  "choose_baselines (\<lambda>x y. x = y) demo_metas (demo_meta ''a'' ''h'' 1) [] = [demo_meta ''b'' ''h'' 2]"
  by code_simp

lemma demo_by_id: "by_id demo_metas ''a'' = Some (demo_meta ''a'' ''h'' 1)"
  by code_simp

lemma demo_analyze:
  assumes "chain_for demo_ae (demo_body parent question) journal = Some chain" "parent \<noteq> [] \<longrightarrow> trim_space question \<noteq> []"
  shows "handleRunDoctorAnalyze demo_ae True (Some (demo_body parent question)) True (Some demo_metas) 0 demo_bound journal =
    (DryRun (demo_meta ''a'' ''h'' 1) [demo_meta ''b'' ''h'' 2]
       (prompt_for demo_ae (demo_body parent question) (demo_meta ''a'' ''h'' 1) [demo_meta ''b'' ''h'' 2] chain) chain (parent \<noteq> []),
     demo_bound, journal)"
proof -
  have "ae_uni demo_ae = (\<lambda>x y. x = y)" by (simp add: demo_ae_def)
  moreover have "ab_RunID (demo_body parent question) = ''a''" "ab_CompareIDs (demo_body parent question) = []"
    "ab_ParentDiagnosisID (demo_body parent question) = parent" "ab_Question (demo_body parent question) = question"
    "ab_DryRun (demo_body parent question)" by (simp_all add: demo_body_def)
  ultimately show ?thesis using assms by (auto simp: handleRunDoctorAnalyze_def Let_def demo_by_id demo_baselines)
qed

theorem analysis_targets_witness:
  "\<exists>p. fst (handleRunDoctorAnalyze demo_ae True (Some (demo_body [] [])) True (Some demo_metas) 0 demo_bound []) =
    DryRun (demo_meta ''a'' ''h'' 1) [demo_meta ''b'' ''h'' 2] p [] False \<and> rm_ID (demo_meta ''a'' ''h'' 1) = ''a''"
proof -
  have c: "chain_for demo_ae (demo_body [] []) [] = Some []" by (simp add: chain_for_def demo_body_def)
  note h = demo_analyze[OF c, simplified]
  have "reply_about (DryRun (demo_meta ''a'' ''h'' 1) [demo_meta ''b'' ''h'' 2]
       (prompt_for demo_ae (demo_body [] []) (demo_meta ''a'' ''h'' 1) [demo_meta ''b'' ''h'' 2] []) [] False) =
      Some (demo_meta ''a'' ''h'' 1, [demo_meta ''b'' ''h'' 2],
        prompt_for demo_ae (demo_body [] []) (demo_meta ''a'' ''h'' 1) [demo_meta ''b'' ''h'' 2] [])"
    by (simp add: reply_about_def)
  from analysis_targets[OF h this] h show ?thesis by (simp add: demo_body_def)
qed

definition demo_journal :: string where "demo_journal = ''1'' @ [CHR 10] @ ''2'' @ [CHR 10]"

lemma demo_listed: "ListDiagnoses (ae_dec demo_ae) ''a'' demo_journal = (demo_log, True)"
proof -
  have s: "split_byte (CHR 10) demo_journal = [''1'', ''2'', []]" by code_simp
  have l: "scan_lines [''1'', ''2'', []] = ([''1'', ''2'', []], True)" by (simp add: max_line_def)
  have d: "list_line (ae_dec demo_ae) ''a'' ''1'' = Some (demo_dx ''1'' [] [])" "list_line (ae_dec demo_ae) ''a'' ''2'' = Some (demo_dx ''2'' ''1'' ''q'')"
    "list_line (ae_dec demo_ae) ''a'' [] = None" by code_simp+
  show ?thesis unfolding ListDiagnoses_def s l by (simp add: d demo_log_def List.map_filter_def)
qed

theorem followup_conversation_witness:
  "\<exists>p. fst (handleRunDoctorAnalyze demo_ae True (Some (demo_body ''2'' ''why'')) True (Some demo_metas) 0 demo_bound demo_journal) =
      DryRun (demo_meta ''a'' ''h'' 1) [demo_meta ''b'' ''h'' 2] p demo_log True \<and>
    map tn_role (messages p) = [User, Assistant, User, Assistant, User]"
proof -
  have ds: "distinct (map dg_ID demo_log)" "\<forall>d \<in> set demo_log. dg_ID d \<noteq> []" "thread demo_log demo_log"
    "ab_ParentDiagnosisID (demo_body ''2'' ''why'') = dg_ID (last demo_log)"
    by (simp_all add: demo_log_def demo_dx_def thread_def demo_body_def less_Suc_eq)
  have run: "ab_RunID (demo_body ''2'' ''why'') = ''a''" by (simp add: demo_body_def)
  have look: "FindDiagnosis (ae_dec demo_ae) ''a'' i demo_journal = (List.find (\<lambda>d. dg_ID d = i) demo_log, True)" for i
    by (simp add: FindDiagnosis_def demo_listed)
  have c: "chain_for demo_ae (demo_body ''2'' ''why'') demo_journal = Some demo_log"
    using parent_chain_thread[OF look ds(1-3), of 12 "[]"] ds(4)
    by (simp add: chain_for_def run maxDepth_def) (simp add: demo_log_def demo_dx_def)
  have "trim_space ''why'' \<noteq> []" by code_simp
  note h = demo_analyze[OF c, simplified this, simplified]
  let ?p = "prompt_for demo_ae (demo_body ''2'' ''why'') (demo_meta ''a'' ''h'' 1) [demo_meta ''b'' ''h'' 2] demo_log"
  have "reply_about (DryRun (demo_meta ''a'' ''h'' 1) [demo_meta ''b'' ''h'' 2] ?p demo_log True) =
      Some (demo_meta ''a'' ''h'' 1, [demo_meta ''b'' ''h'' 2], ?p)" by (simp add: reply_about_def)
  note conv = followup_conversation[OF h this demo_listed[folded run] ds]
  have "length demo_log \<le> 12 \<and> dx_Question (dg_rest (hd demo_log)) = [] \<and> (\<forall>d \<in> set (tl demo_log). dx_Question (dg_rest d) \<noteq> [])"
    by (simp add: demo_log_def demo_dx_def)
  from mp[OF conjunct2[OF conv] this]
  have "map tn_role (messages ?p) = [User, Assistant, User, Assistant, User]"
    by (simp add: demo_log_def)
  with h show ?thesis by simp
qed

theorem redaction_reversible_witness:
  "case redact_all (\<lambda>x. x) (\<lambda>m. []) demo_metas [] of
     (ms', red) \<Rightarrow> map (unredact red) (concat (map sensitive ms')) = [''h'', ''u'', [], ''h'', ''u'', [], ''k'', ''u'', []]"
proof -
  have s: "concat (map sensitive demo_metas) = [''h'', ''u'', [], ''h'', ''u'', [], ''k'', ''u'', []]" by code_simp
  have "no_collision (\<lambda>x. x) (set (concat (map sensitive demo_metas)))"
    unfolding s by (auto simp: no_collision_def categories_def token_def)
  moreover obtain ms' red where r: "redact_all (\<lambda>x. x) (\<lambda>m. []) demo_metas [] = (ms', red)" by fastforce
  ultimately have "map (unredact red) (concat (map sensitive ms')) = concat (map sensitive demo_metas)"
    using redaction_reversible[of "\<lambda>x. x" demo_metas "\<lambda>m. []" ms' red] by simp
  with r s show ?thesis by simp
qed

text \<open>The replacement inside a stop detail depends on the order in which the map is visited: a user whose
  name is part of the host takes the host apart, and the rest of it stays readable.\<close>

lemma redaction_order_leaks:
  "replace_reals [(''edi'', ''<user>''), (''edi.example'', ''<host>'')] ''edi.example is down'' = ''<user>.example is down''"
  "replace_reals [(''edi.example'', ''<host>''), (''edi'', ''<user>'')] ''edi.example is down'' = ''<host> is down''"
  by code_simp+

text \<open>When two values share a token, the later one takes it over: the first is turned back into the
  other one.\<close>

lemma redaction_collision:
  "(case redact_all (\<lambda>x. ''000000'') (\<lambda>m. []) [demo_meta ''a'' ''h'' 1, demo_meta ''c'' ''k'' 3] [] of
     (ms', red) \<Rightarrow> map (\<lambda>m. unredact red (x_TargetHost (rest m))) ms') = [''k'', ''k'']"
  by code_simp

end
