(* ===== verification/Progression.thy ===== *)
theory Progression
  imports ThreadAnalyzer
begin

text \<open>
  The two views of a session that look across locks (threaddump-analyzer/internal/session/progression.go):
  who held and who wanted each lock in each dump, and the wait-for chains of the last dump that
  are not cycles yet. Go maps are ranged over in an order given as an argument.
\<close>

section \<open>Locks across dumps\<close>

record lock_progression =
  lp_id :: string
  lp_class :: string
  lp_holders :: "string list"
  lp_waiters :: "int list"
  lp_stable :: bool
  lp_peak :: int

record slot =
  sl_holders :: "string list"
  sl_waiters :: "int list"
  sl_class :: string

text \<open>What one dump says: the class of each lock, from its last holder or else its first waiter, and
  the number of threads waiting.\<close>

definition held_classes :: "dump \<Rightarrow> (string \<rightharpoonup> string)" where
  "held_classes d = foldl (\<lambda>m t. foldl (\<lambda>m h. m(lk_id h \<mapsto> lk_class h)) m (Holds t)) Map.empty (d_threads d)"

definition observe_waiter :: "(string \<rightharpoonup> int) \<times> (string \<rightharpoonup> string) \<Rightarrow> thread \<Rightarrow> (string \<rightharpoonup> int) \<times> (string \<rightharpoonup> string)" where
  "observe_waiter acc t =
     (let (waiters, classes) = acc; wo = WaitingOn t in
      if lk_id wo = [] then acc
      else (waiters(lk_id wo \<mapsto> (case waiters (lk_id wo) of None \<Rightarrow> 0 | Some n \<Rightarrow> n) + 1),
            case classes (lk_id wo) of None \<Rightarrow> classes(lk_id wo \<mapsto> lk_class wo) | Some _ \<Rightarrow> classes))"

definition observe :: "dump \<Rightarrow> (string \<rightharpoonup> int) \<times> (string \<rightharpoonup> string)" where
  "observe d = foldl observe_waiter (Map.empty, held_classes d) (d_threads d)"

text \<open>The observations of dump number \<open>di\<close> merged into the slots; a lock seen for the first time gets
  one position per dump of the session. The keys are independent, so the order in which Go ranges
  over them does not show.\<close>

definition merge_dump :: "nat \<Rightarrow> (string \<rightharpoonup> slot) \<Rightarrow> nat \<times> dump \<Rightarrow> (string \<rightharpoonup> slot)" where
  "merge_dump n state = (\<lambda>(di, d).
     let (waiters, classes) = observe d; holder = holderByLock d in
     (\<lambda>lid. if holder lid = None \<and> waiters lid = None then state lid
           else let sl = (case state lid of
                      None \<Rightarrow> \<lparr>sl_holders = replicate n [], sl_waiters = replicate n 0,
                                sl_class = (case classes lid of None \<Rightarrow> [] | Some c \<Rightarrow> c)\<rparr>
                    | Some sl \<Rightarrow> sl)
                in Some (sl\<lparr>sl_holders := (sl_holders sl)[di := (case holder lid of None \<Rightarrow> [] | Some h \<Rightarrow> h)],
                            sl_waiters := (sl_waiters sl)[di := (case waiters lid of None \<Rightarrow> 0 | Some k \<Rightarrow> k)]\<rparr>)))"

definition slots :: "dump list \<Rightarrow> (string \<rightharpoonup> slot)" where
  "slots ds = foldl (merge_dump (length ds)) Map.empty (enumerate 0 ds)"

text \<open>One named holder throughout: the scan stops at the second name.\<close>

fun stable_scan :: "string \<Rightarrow> string list \<Rightarrow> bool" where
  "stable_scan named [] \<longleftrightarrow> named \<noteq> []"
| "stable_scan named (h # hs) \<longleftrightarrow>
     (if h = [] then stable_scan named hs
      else if named = [] then stable_scan h hs
      else if named \<noteq> h then False
      else stable_scan named hs)"

definition peak_of :: "int list \<Rightarrow> int" where
  "peak_of ns = foldl (\<lambda>peak n. if peak < n then n else peak) 0 ns"

definition progression_of :: "string \<Rightarrow> slot \<Rightarrow> lock_progression" where
  "progression_of lid sl =
     \<lparr>lp_id = lid, lp_class = sl_class sl, lp_holders = sl_holders sl, lp_waiters = sl_waiters sl,
      lp_stable = stable_scan [] (sl_holders sl), lp_peak = peak_of (sl_waiters sl)\<rparr>"

text \<open>\<open>ks\<close> is the order in which the map of slots is ranged over.\<close>

definition LockProgressions :: "string list \<Rightarrow> dump list \<Rightarrow> lock_progression list" where
  "LockProgressions ks ds =
     (if ds = [] then []
      else sort_key (\<lambda>p. (- lp_peak p, lp_id p))
             (List.map_filter (\<lambda>k. map_option (progression_of k) (slots ds k)) ks))"

subsection \<open>What the slots hold\<close>

definition waiting_for :: "dump \<Rightarrow> string \<Rightarrow> int" where
  "waiting_for d lid = (if lid = [] then 0 else int (length (filter (\<lambda>t. lk_id (WaitingOn t) = lid) (d_threads d))))"

definition holder_in :: "dump \<Rightarrow> string \<Rightarrow> string" where
  "holder_in d lid = (case holderByLock d lid of None \<Rightarrow> [] | Some h \<Rightarrow> h)"

definition lock_in :: "dump \<Rightarrow> string \<Rightarrow> bool" where
  "lock_in d lid \<longleftrightarrow> holderByLock d lid \<noteq> None \<or> 0 < waiting_for d lid"

lemma observe_waiter_count:
  "fst (observe_waiter acc t) lid =
     (if lid \<noteq> [] \<and> lk_id (WaitingOn t) = lid then Some ((case fst acc lid of None \<Rightarrow> 0 | Some n \<Rightarrow> n) + 1) else fst acc lid)"
  by (cases acc) (auto simp: observe_waiter_def Let_def)

lemma observe_waiters:
  "fst (foldl observe_waiter (Map.empty, c) ts) lid =
     (let n = (if lid = [] then 0 else int (length (filter (\<lambda>t. lk_id (WaitingOn t) = lid) ts)))
      in if n = 0 then None else Some n)"
  by (induction ts rule: rev_induct) (simp_all add: observe_waiter_count Let_def)

lemma waiters_of: "fst (observe d) lid = (if waiting_for d lid = 0 then None else Some (waiting_for d lid))"
  unfolding observe_def by (simp add: observe_waiters waiting_for_def Let_def)

lemma waiting_nonneg [simp]: "0 \<le> waiting_for d lid"
  by (simp add: waiting_for_def)

lemma holder_absent: "\<not> lock_in d lid \<Longrightarrow> holder_in d lid = [] \<and> waiting_for d lid = 0"
  by (simp add: lock_in_def holder_in_def not_less order.antisym)

lemma merge_dump_at:
  "merge_dump n st (di, d) lid =
     (if \<not> lock_in d lid then st lid
      else let sl = (case st lid of None \<Rightarrow> \<lparr>sl_holders = replicate n [], sl_waiters = replicate n 0,
                                sl_class = (case snd (observe d) lid of None \<Rightarrow> [] | Some c \<Rightarrow> c)\<rparr> | Some sl \<Rightarrow> sl)
           in Some (sl\<lparr>sl_holders := (sl_holders sl)[di := holder_in d lid],
                       sl_waiters := (sl_waiters sl)[di := waiting_for d lid]\<rparr>))"
proof -
  have "fst (observe d) lid = None \<longleftrightarrow> waiting_for d lid = 0" by (simp add: waiters_of)
  moreover have "(case fst (observe d) lid of None \<Rightarrow> 0 | Some k \<Rightarrow> k) = waiting_for d lid"
    by (simp add: waiters_of)
  moreover have "waiting_for d lid = 0 \<longleftrightarrow> \<not> 0 < waiting_for d lid" using waiting_nonneg[of d lid] by linarith
  ultimately show ?thesis
    by (simp add: merge_dump_def lock_in_def holder_in_def split_beta Let_def cong: if_cong)
qed

definition filled :: "nat \<Rightarrow> (dump \<Rightarrow> 'a) \<Rightarrow> 'a \<Rightarrow> dump list \<Rightarrow> 'a list" where
  "filled n f z ds = map f ds @ replicate (n - length ds) z"

lemma filled_snoc:
  assumes "length ds < n"
  shows "(filled n f z ds)[length ds := f d] = filled n f z (ds @ [d])"
    and "f d = z \<Longrightarrow> filled n f z (ds @ [d]) = filled n f z ds"
proof -
  obtain k where k: "n - length ds = Suc k" using assms by (metis Suc_diff_Suc)
  then have "n - Suc (length ds) = k" by simp
  then show "(filled n f z ds)[length ds := f d] = filled n f z (ds @ [d])"
    "f d = z \<Longrightarrow> filled n f z (ds @ [d]) = filled n f z ds"
    by (simp_all add: filled_def k list_update_append)
qed

text \<open>After some dumps, a lock seen in one of them has the observation of each, in order.\<close>

lemma slots_prefix:
  assumes "length ds \<le> n"
  shows "(\<forall>d \<in> set ds. \<not> lock_in d lid) \<longrightarrow> foldl (merge_dump n) Map.empty (enumerate 0 ds) lid = None"
    and "(\<exists>d \<in> set ds. lock_in d lid) \<longrightarrow>
      (\<exists>sl. foldl (merge_dump n) Map.empty (enumerate 0 ds) lid = Some sl
        \<and> sl_holders sl = filled n (\<lambda>d. holder_in d lid) [] ds
        \<and> sl_waiters sl = filled n (\<lambda>d. waiting_for d lid) 0 ds)"
proof -
  let ?st = "\<lambda>ds. foldl (merge_dump n) Map.empty (enumerate 0 ds) lid"
  let ?h = "\<lambda>d. holder_in d lid" and ?w = "\<lambda>d. waiting_for d lid"
  have "(if \<forall>d \<in> set ds. \<not> lock_in d lid then ?st ds = None
     else \<exists>sl. ?st ds = Some sl \<and> sl_holders sl = filled n ?h [] ds \<and> sl_waiters sl = filled n ?w 0 ds)"
    using assms
  proof (induction ds rule: rev_induct)
    case (snoc d ds)
    let ?s0 = "foldl (merge_dump n) Map.empty (enumerate 0 ds)"
    have n: "length ds < n" using snoc.prems by simp
    have step: "?st (ds @ [d]) = merge_dump n ?s0 (length ds, d) lid"
      by (simp add: enumerate_append_eq)
    note IH = snoc.IH[OF less_imp_le[OF n]]
    show ?case
    proof (cases "lock_in d lid")
      case False
      then show ?thesis using IH filled_snoc(2)[OF n, of ?h d "[]"] filled_snoc(2)[OF n, of ?w d 0]
          holder_absent[OF False]
        by (auto simp: step merge_dump_at split: if_splits)
    next
      case True
      show ?thesis
      proof (cases "\<forall>d \<in> set ds. \<not> lock_in d lid")
        case absent: True
        have "filled n ?h [] ds = replicate n []" "filled n ?w 0 ds = replicate n 0"
          using absent holder_absent n
          by (auto simp: filled_def map_replicate_const[symmetric] simp flip: replicate_add
              intro!: nth_equalityI simp: nth_append)
        then show ?thesis using IH absent True filled_snoc(1)[OF n, of ?h "[]" d] filled_snoc(1)[OF n, of ?w 0 d]
          by (simp add: step merge_dump_at)
      next
        case False
        then obtain sl where "?s0 lid = Some sl" "sl_holders sl = filled n ?h [] ds" "sl_waiters sl = filled n ?w 0 ds"
          using IH[unfolded if_not_P[OF False]] by blast
        then show ?thesis using False True filled_snoc(1)[OF n, of ?h "[]" d] filled_snoc(1)[OF n, of ?w 0 d]
          by (auto simp: step merge_dump_at)
      qed
    qed
  qed simp
  then show "(\<forall>d \<in> set ds. \<not> lock_in d lid) \<longrightarrow> ?st ds = None"
    "(\<exists>d \<in> set ds. lock_in d lid) \<longrightarrow>
      (\<exists>sl. ?st ds = Some sl \<and> sl_holders sl = filled n ?h [] ds \<and> sl_waiters sl = filled n ?w 0 ds)"
    by (auto split: if_splits)
qed

lemma slots_of:
  "(\<exists>d \<in> set ds. lock_in d lid) \<Longrightarrow>
     \<exists>sl. slots ds lid = Some sl \<and> sl_holders sl = map (\<lambda>d. holder_in d lid) ds
       \<and> sl_waiters sl = map (\<lambda>d. waiting_for d lid) ds"
  "\<not> (\<exists>d \<in> set ds. lock_in d lid) \<Longrightarrow> slots ds lid = None"
  using slots_prefix[of ds "length ds" lid] by (auto simp: slots_def filled_def)

lemma stable_scan_named: "n \<noteq> [] \<Longrightarrow> stable_scan n hs \<longleftrightarrow> (\<forall>h \<in> set hs. h = [] \<or> h = n)"
  by (induction hs) auto

lemma stable_scan_iff:
  "stable_scan [] hs \<longleftrightarrow> (\<exists>n. n \<noteq> [] \<and> n \<in> set hs \<and> (\<forall>h \<in> set hs. h = [] \<or> h = n))"
  by (induction hs) (auto simp: stable_scan_named)

lemma peak_of_Max: "peak_of ns = Max (insert 0 (set ns))"
proof -
  have "(\<lambda>peak n. if peak < n then n else peak) = (max :: int \<Rightarrow> int \<Rightarrow> int)" by (intro ext) (simp add: max_def)
  moreover have "(\<lambda>n peak. max peak n) = (max :: int \<Rightarrow> int \<Rightarrow> int)" by (intro ext) (rule max.commute)
  ultimately show ?thesis using Max.set_eq_fold[of 0 ns]
    by (simp add: peak_of_def foldl_conv_fold)
qed


subsection \<open>The progression of a session\<close>

text \<open>The progression view of a session has one row per lock that any dump mentions as held or
  waited for, whatever the iteration order of the maps: the row names the holder of the lock in
  each dump (none where it is free) and counts the threads waiting for it there; the row is
  stable exactly when one and the same thread held the lock whenever it was held at all, and
  at least once; the most contested locks come first.\<close>
theorem progression_exact:
  assumes "distinct ks" "set ks = {k. \<exists>d \<in> set ds. lock_in d k}"
  shows "let ps = LockProgressions ks ds in
    distinct (map lp_id ps) \<and> set (map lp_id ps) = set ks
    \<and> (\<forall>p \<in> set ps. lp_holders p = map (\<lambda>d. holder_in d (lp_id p)) ds
         \<and> lp_waiters p = map (\<lambda>d. waiting_for d (lp_id p)) ds
         \<and> (lp_stable p \<longleftrightarrow> (\<exists>n. n \<noteq> [] \<and> n \<in> set (lp_holders p) \<and> (\<forall>h \<in> set (lp_holders p). h = [] \<or> h = n)))
         \<and> lp_peak p = Max (insert 0 (set (lp_waiters p))))
    \<and> sorted_wrt (\<lambda>p q. lp_peak q \<le> lp_peak p) ps
    \<and> (\<forall>ks'. distinct ks' \<longrightarrow> set ks' = set ks \<longrightarrow> LockProgressions ks' ds = ps)"
proof (cases "ds = []")
  case True
  then show ?thesis using assms(2) by (simp add: LockProgressions_def)
next
  case False
  let ?row = "\<lambda>k. progression_of k (the (slots ds k))"
  let ?key = "\<lambda>p. (- lp_peak p, lp_id p)"
  have rows: "List.map_filter (\<lambda>k. map_option (progression_of k) (slots ds k)) ks' = map ?row ks'"
    if "set ks' = set ks" for ks'
  proof -
    have "\<exists>sl. slots ds k = Some sl" if "k \<in> set ks'" for k
      using slots_of(1)[of ds k] that assms(2) \<open>set ks' = set ks\<close> by auto
    then show ?thesis by (induction ks') (fastforce simp: List.map_filter_simps)+
  qed
  have P: "LockProgressions ks' ds = sort_key ?key (map ?row ks')" if "set ks' = set ks" for ks'
    using False by (simp add: LockProgressions_def rows[OF that])
  have lid: "lp_id (?row k) = k" for k by (simp add: progression_of_def)
  have row: "lp_holders (?row k) = map (\<lambda>d. holder_in d k) ds \<and> lp_waiters (?row k) = map (\<lambda>d. waiting_for d k) ds"
    if "k \<in> set ks" for k
    using slots_of(1)[of ds k] that assms(2) by (auto simp: progression_of_def)
  have "mset (map lp_id (LockProgressions ks ds)) = mset (map lp_id (map ?row ks))"
    by (simp only: P[OF refl] mset_map mset_sort)
  then have ids: "mset (map lp_id (LockProgressions ks ds)) = mset ks" by (simp add: comp_def lid)
  have same: "LockProgressions ks' ds = LockProgressions ks ds" if "distinct ks'" "set ks' = set ks" for ks'
  proof -
    have "mset ks' = mset ks" using that assms(1) set_eq_iff_mset_eq_distinct by blast
    then show ?thesis unfolding P[OF that(2)] P[OF refl]
      by (intro sort_key_inj_key_eq) (auto simp: inj_on_def lid)
  qed
  have "sorted_wrt (\<lambda>p q. lp_peak q \<le> lp_peak p) (LockProgressions ks ds)"
    using sorted_sort_key[of ?key "map ?row ks"] unfolding P[OF refl] sorted_map
    by (rule sorted_wrt_mono_rel[rotated]) (auto simp: less_eq_prod_def)
  moreover have "distinct (map lp_id (LockProgressions ks ds))"
    using mset_eq_imp_distinct_iff[OF ids] assms(1) by simp
  moreover have "set (map lp_id (LockProgressions ks ds)) = set ks" using mset_eq_setD[OF ids] by simp
  moreover have "lp_holders p = map (\<lambda>d. holder_in d (lp_id p)) ds \<and> lp_waiters p = map (\<lambda>d. waiting_for d (lp_id p)) ds
      \<and> lp_stable p = stable_scan [] (lp_holders p) \<and> lp_peak p = peak_of (lp_waiters p)"
    if p: "p \<in> set (LockProgressions ks ds)" for p
  proof -
    obtain k where k: "p = ?row k" "k \<in> set ks" using p by (auto simp: P[OF refl])
    show ?thesis using row[OF k(2)] unfolding k(1) lid by (simp add: progression_of_def)
  qed
  ultimately show ?thesis unfolding Let_def stable_scan_iff[symmetric] peak_of_Max[symmetric]
    using same by blast
qed


section \<open>Chains that are not cycles yet\<close>

record predicted =
  pd_chain :: "string list"
  pd_locks :: "lock_ref list"
  pd_closer :: string

text \<open>The walk from one thread along the edges; meeting a thread again clears the path.\<close>

partial_function (option) chain_from ::
  "wait_graph \<Rightarrow> string list \<Rightarrow> lock_ref list \<Rightarrow> string \<Rightarrow> (string list \<times> lock_ref list) option" where
  "chain_from w path locks cur =
     (if cur \<in> set path then Some ([], locks)
      else case w cur of
          None \<Rightarrow> Some (path @ [cur], locks)
        | Some e \<Rightarrow> chain_from w (path @ [cur]) (locks @ [snd e]) (fst e))"

definition closer_of :: "dump \<Rightarrow> string \<Rightarrow> string \<Rightarrow> string" where
  "closer_of d startLock endLock =
     (case find (\<lambda>t. (\<exists>h \<in> set (Holds t). lk_id h = endLock) \<and> lk_id (WaitingOn t) = startLock) (d_threads d) of
        None \<Rightarrow> [] | Some t \<Rightarrow> th_name t)"

definition prediction :: "dump \<Rightarrow> string \<Rightarrow> predicted list option" where
  "prediction d start =
     map_option (\<lambda>(path, locks).
         if 3 \<le> length path \<and> 2 \<le> length locks
         then [\<lparr>pd_chain = path, pd_locks = locks, pd_closer = closer_of d (lk_id (hd locks)) (lk_id (last locks))\<rparr>]
         else [])
       (chain_from (waitForGraph d) [] [] start)"

fun first_starts :: "string set \<Rightarrow> predicted list \<Rightarrow> predicted list" where
  "first_starts seen [] = []"
| "first_starts seen (p # ps) =
     (if hd (pd_chain p) \<in> seen then first_starts seen ps else p # first_starts (insert (hd (pd_chain p)) seen) ps)"

text \<open>\<open>ks\<close> is the order in which the map of edges is ranged over; chains of one length may come in
  any order, the model keeps that of \<open>ks\<close>. No result is a walk that does not end.\<close>

definition PredictDeadlocks :: "string list \<Rightarrow> dump list \<Rightarrow> predicted list option" where
  "PredictDeadlocks ks ds =
     (if ds = [] then Some []
      else map_option (\<lambda>pss. first_starts {} (sort_key (\<lambda>p. - int (length (pd_chain p))) (concat pss)))
             (those (map (prediction (last ds)) ks)))"

subsection \<open>Paths to a thread that does not wait\<close>

definition wait_chain :: "wait_graph \<Rightarrow> string list \<Rightarrow> bool" where
  "wait_chain w p \<longleftrightarrow> p \<noteq> [] \<and> follows w p \<and> w (last p) = None"

definition chain_locks :: "wait_graph \<Rightarrow> string list \<Rightarrow> lock_ref list" where
  "chain_locks w p = map (\<lambda>n. snd (the (w n))) (butlast p)"

lemma follows_Cons: "follows w (x # p) \<longleftrightarrow> follows w p \<and> (p \<noteq> [] \<longrightarrow> (x, hd p) \<in> edges w)"
  by (cases p) (auto simp: follows_def)

lemma repeated_cyclic:
  assumes "follows w p" "\<not> distinct p"
  shows "\<exists>x \<in> set p. on_cycle w x"
  using assms
proof (induction p)
  case (Cons x p)
  show ?case
  proof (cases "x \<in> set p")
    case True
    then have "(x, hd p) \<in> edges w" "(hd p, x) \<in> (edges w)\<^sup>*"
      using Cons.prems(1) follows_hd[of w p x] by (auto simp: follows_Cons simp del: edges_iff)
    then show ?thesis unfolding on_cycle_def by (meson list.set_intros(1) rtrancl_into_trancl2)
  qed (use Cons in \<open>auto simp: follows_Cons\<close>)
qed simp

lemma wait_chain_distinct: "wait_chain w p \<Longrightarrow> distinct p"
  using repeated_cyclic follows_last not_cyclic_end unfolding wait_chain_def by metis

lemma chain_from_finds:
  assumes "wait_chain w rest" "distinct (path @ rest)"
  shows "chain_from w path locks (hd rest) = Some (path @ rest, locks @ chain_locks w rest)"
  using assms
proof (induction rest arbitrary: path locks)
  case (Cons x rest)
  show ?case
  proof (cases "rest = []")
    case True
    then show ?thesis using Cons.prems
      by (subst chain_from.simps) (simp add: wait_chain_def chain_locks_def)
  next
    case False
    then obtain l where "w x = Some (hd rest, l)" using Cons.prems(1)
      by (auto simp: wait_chain_def follows_Cons)
    then show ?thesis using Cons False
      by (subst chain_from.simps) (simp add: wait_chain_def follows_Cons chain_locks_def)
  qed
qed (simp add: wait_chain_def)

lemma chain_from_returns:
  assumes "finite (dom w)" "set path \<subseteq> dom w" "distinct path" "follows w path"
    "path \<noteq> [] \<longrightarrow> (last path, cur) \<in> edges w"
  shows "\<exists>r. chain_from w path locks cur = Some r
    \<and> (fst r = [] \<or> (\<exists>rest. fst r = path @ rest \<and> rest \<noteq> [] \<and> hd rest = cur \<and> wait_chain w (path @ rest)))"
  using assms
proof (induction "card (dom w - set path)" arbitrary: path locks cur rule: less_induct)
  case less
  show ?case
  proof (cases "cur \<in> set path \<or> w cur = None")
    case True
    have "follows w (path @ [cur])" using less.prems(4,5) 
      by (cases "path = []") (simp add: follows_def, simp add: follows_snoc del: edges_iff)
    then show ?thesis using True
      by (subst chain_from.simps) (auto simp: wait_chain_def)
  next
    case False
    then obtain c l where e: "w cur = Some (c, l)" by auto
    let ?path = "path @ [cur]"
    have "dom w - set ?path \<subset> dom w - set path" using False e by auto
    then have less: "card (dom w - set ?path) < card (dom w - set path)"
      using less.prems(1) by (intro psubset_card_mono) auto
    have "set ?path \<subseteq> dom w" "distinct ?path" "follows w ?path" "?path \<noteq> [] \<longrightarrow> (last ?path, c) \<in> edges w"
      using less.prems False e by (auto simp: follows_snoc)
    then obtain r where r: "chain_from w ?path (locks @ [l]) c = Some r"
      "fst r = [] \<or> (\<exists>rest. fst r = ?path @ rest \<and> rest \<noteq> [] \<and> hd rest = c \<and> wait_chain w (?path @ rest))"
      using less.hyps[OF less less.prems(1)] by blast
    moreover have "chain_from w path locks cur = Some r"
      using False e r(1) by (subst chain_from.simps) simp
    ultimately show ?thesis by (metis append.assoc append_Cons append_Nil list.sel(1) list.distinct(1))
  qed
qed

lemma prediction_of:
  "(\<exists>p. wait_chain (waitForGraph d) p \<and> hd p = start \<and> 3 \<le> length p
      \<and> prediction d start = Some [\<lparr>pd_chain = p, pd_locks = chain_locks (waitForGraph d) p,
           pd_closer = closer_of d (lk_id (hd (chain_locks (waitForGraph d) p))) (lk_id (last (chain_locks (waitForGraph d) p)))\<rparr>])
   \<or> prediction d start = Some [] \<and> (\<forall>p. wait_chain (waitForGraph d) p \<longrightarrow> hd p = start \<longrightarrow> length p < 3)"
proof -
  let ?w = "waitForGraph d"
  have found: "chain_from ?w [] [] start = Some (p, chain_locks ?w p)" if "wait_chain ?w p" "hd p = start" for p
    using chain_from_finds[OF that(1), of "[]" "[]"] wait_chain_distinct[OF that(1)] that(2) by simp
  have len: "3 \<le> length p \<Longrightarrow> 2 \<le> length (chain_locks ?w p)" for p by (simp add: chain_locks_def)
  obtain r where r: "chain_from ?w [] [] start = Some r" "fst r = [] \<or> (wait_chain ?w (fst r) \<and> hd (fst r) = start)"
    using chain_from_returns[of ?w "[]" start "[]"] wait_graph_finite by (auto simp: follows_def)
  show ?thesis
  proof (cases "\<exists>p. wait_chain ?w p \<and> hd p = start")
    case True
    then obtain p where p: "wait_chain ?w p" "hd p = start" by blast
    have only: "q = p" if "wait_chain ?w q" "hd q = start" for q
      using found[OF p] found[OF that] by simp
    show ?thesis
    proof (cases "3 \<le> length p")
      case True
      then show ?thesis using p len[OF True] by (intro disjI1 exI[of _ p]) (simp add: prediction_def found[OF p])
    next
      case False
      then show ?thesis using only by (intro disjI2) (auto simp: prediction_def found[OF p])
    qed
  next
    case False
    then have "fst r = []" using r(2) by blast
    then show ?thesis using False r(1) by (intro disjI2) (auto simp: prediction_def split_beta)
  qed
qed


lemma first_starts_id:
  "distinct (map (hd \<circ> pd_chain) ps) \<Longrightarrow> seen \<inter> set (map (hd \<circ> pd_chain) ps) = {} \<Longrightarrow> first_starts seen ps = ps"
  by (induction ps arbitrary: seen) auto

lemma those_map_Some: "(\<And>x. x \<in> set xs \<Longrightarrow> f x = Some (g x)) \<Longrightarrow> those (map f xs) = Some (map g xs)"
  by (induction xs) simp_all

text \<open>The predictions in the order of the map: at most one per thread, starting there.\<close>

lemma predictions:
  assumes "enumerates ks (waitForGraph d)"
  shows "\<exists>pss. those (map (prediction d) ks) = Some pss \<and> distinct (map (hd \<circ> pd_chain) (concat pss))
    \<and> (\<forall>p \<in> set (concat pss). pd_locks p = chain_locks (waitForGraph d) (pd_chain p))
    \<and> set (map pd_chain (concat pss)) = {p. wait_chain (waitForGraph d) p \<and> 3 \<le> length p}"
proof -
  let ?w = "waitForGraph d"
  let ?g = "\<lambda>k. the (prediction d k)"
  have "those (map (prediction d) ks) = Some (map ?g ks)"
    using prediction_of[of d] by (intro those_map_Some) (metis option.sel)
  moreover have one: "length (?g k) \<le> 1" "\<forall>p \<in> set (?g k). hd (pd_chain p) = k \<and> wait_chain ?w (pd_chain p)
      \<and> 3 \<le> length (pd_chain p) \<and> pd_locks p = chain_locks ?w (pd_chain p)" for k
    using prediction_of[of d k] by auto
  moreover have "distinct (map (hd \<circ> pd_chain) (concat (map ?g ks')))
      \<and> set (map (hd \<circ> pd_chain) (concat (map ?g ks'))) \<subseteq> set ks'" if "distinct ks'" for ks'
    using that
  proof (induction ks')
    case (Cons k ks')
    have "map (hd \<circ> pd_chain) (?g k) = [] \<or> map (hd \<circ> pd_chain) (?g k) = [k]"
      using one[of k] by (cases "?g k") auto
    then have "distinct (map (hd \<circ> pd_chain) (?g k))" "set (map (hd \<circ> pd_chain) (?g k)) \<subseteq> {k}"
      by (metis distinct_singleton distinct.simps(1)) (use \<open>_ \<or> _\<close> in force)
    moreover have "k \<notin> set ks'" "distinct ks'" using Cons.prems by simp_all
    ultimately show ?case using Cons.IH
      unfolding list.map concat.simps map_append distinct_append set_append list.set by blast
  qed simp
  moreover have "p \<in> pd_chain ` set (concat (map ?g ks))" if p: "wait_chain ?w p" "3 \<le> length p" for p
  proof -
    obtain x y q where q: "p = x # y # q" using p(2) by (metis Suc_le_length_iff numeral_3_eq_3)
    then have "hd p \<in> set ks" using p(1) assms by (auto simp: wait_chain_def follows_Cons enumerates_def)
    moreover have "\<exists>pr \<in> set (?g (hd p)). pd_chain pr = p"
    proof -
      have "p' = p" if "wait_chain ?w p'" "hd p' = hd p" for p'
        using chain_from_finds[OF p(1), of "[]" "[]"] chain_from_finds[OF that(1), of "[]" "[]"]
          wait_chain_distinct p(1) that by simp
      then show ?thesis using prediction_of[of d "hd p"] p by (auto dest: leD)
    qed
    ultimately show ?thesis by auto
  qed
  ultimately show ?thesis using assms by (intro exI[of _ "map ?g ks"]) (auto simp: enumerates_def simp del: map_map)
qed

text \<open>C31: The prediction over a session returns, and reports from its last dump exactly the chains of
  at least three threads in which each waits for a lock the next one holds and the last does not
  wait: no thread occurs twice in a chain, every chain comes with the locks along it, no two
  chains start with one thread, and longer chains come first. Cycles are never reported here.\<close>
theorem predict_exact:
  assumes "ds \<noteq> []" "enumerates ks (waitForGraph (last ds))"
  shows "\<exists>ps. PredictDeadlocks ks ds = Some ps
    \<and> set (map pd_chain ps) = {p. wait_chain (waitForGraph (last ds)) p \<and> 3 \<le> length p}
    \<and> (\<forall>p \<in> set ps. distinct (pd_chain p) \<and> pd_locks p = chain_locks (waitForGraph (last ds)) (pd_chain p)
         \<and> (\<forall>x \<in> set (pd_chain p). \<not> on_cycle (waitForGraph (last ds)) x))
    \<and> distinct (map (hd \<circ> pd_chain) ps)
    \<and> sorted_wrt (\<lambda>p q. length (pd_chain q) \<le> length (pd_chain p)) ps"
proof -
  let ?w = "waitForGraph (last ds)"
  let ?key = "\<lambda>p. - int (length (pd_chain p))"
  obtain pss where pss: "those (map (prediction (last ds)) ks) = Some pss"
    "distinct (map (hd \<circ> pd_chain) (concat pss))"
    "\<forall>p \<in> set (concat pss). pd_locks p = chain_locks ?w (pd_chain p)"
    "set (map pd_chain (concat pss)) = {p. wait_chain ?w p \<and> 3 \<le> length p}"
    using predictions[OF assms(2)] by blast
  let ?ps = "sort_key ?key (concat pss)"
  have "mset (map (hd \<circ> pd_chain) ?ps) = mset (map (hd \<circ> pd_chain) (concat pss))"
    by (simp only: mset_map mset_sort)
  then have d: "distinct (map (hd \<circ> pd_chain) ?ps)" using pss(2) mset_eq_imp_distinct_iff by blast
  then have "PredictDeadlocks ks ds = Some ?ps"
    using assms(1) pss(1) first_starts_id[OF d, of "{}"] by (simp add: PredictDeadlocks_def)
  moreover have chains: "set (map pd_chain ?ps) = {p. wait_chain ?w p \<and> 3 \<le> length p}"
    using pss(4) by (simp only: set_map set_sort)
  moreover have "distinct (pd_chain p) \<and> (\<forall>x \<in> set (pd_chain p). \<not> on_cycle ?w x)" if "p \<in> set ?ps" for p
  proof -
    have "wait_chain ?w (pd_chain p)" using chains that by auto
    then show ?thesis
      using wait_chain_distinct follows_last not_cyclic_end unfolding wait_chain_def by blast
  qed
  moreover have "\<forall>p \<in> set ?ps. pd_locks p = chain_locks ?w (pd_chain p)" using pss(3) by (simp only: set_sort)
  moreover have "sorted_wrt (\<lambda>p q. length (pd_chain q) \<le> length (pd_chain p)) ?ps"
    using sorted_sort_key[of ?key "concat pss"] unfolding sorted_map
    by (rule sorted_wrt_mono_rel[rotated]) auto
  ultimately show ?thesis using d by blast
qed

subsection \<open>The closing thread is never found\<close>

text \<open>With distinct names, the chain's last thread holds the last lock and does not wait, so no
  thread that holds it waits for the first lock of the chain, unless several threads hold it.\<close>

lemma wait_one_other: "th_name t \<noteq> x \<Longrightarrow> wait_one h w t x = w x"
  by (simp add: wait_one_def Let_def split: option.split)

lemma graph_at:
  assumes "distinct (map th_name (d_threads d))" "t \<in> set (d_threads d)"
  shows "waitForGraph d (th_name t) = wait_one (holderByLock d) Map.empty t (th_name t)"
proof -
  have skip: "foldl (wait_one h) w ts x = w x" if "x \<notin> th_name ` set ts" for h w x ts
    using that by (induction ts arbitrary: w) (auto simp: wait_one_other)
  obtain as bs where ts: "d_threads d = as @ t # bs" using split_list[OF assms(2)] by blast
  then have "th_name t \<notin> th_name ` set as" "th_name t \<notin> th_name ` set bs" using assms(1) by auto
  then show ?thesis
    by (simp add: waitForGraph_def ts skip wait_one_def Let_def split: option.split)
qed

lemma wait_one_edge:
  "wait_one h w t x = Some (y, l) \<Longrightarrow> w x = Some (y, l) \<or> h (lk_id l) = Some y \<and> lk_id l \<noteq> []"
  by (auto simp: wait_one_def Let_def split: if_splits option.splits)

lemma wait_fold_edge:
  "foldl (wait_one h) w ts x = Some (y, l) \<Longrightarrow> w x = Some (y, l) \<or> h (lk_id l) = Some y \<and> lk_id l \<noteq> []"
proof (induction ts arbitrary: w)
  case (Cons t ts)
  then have "wait_one h w t x = Some (y, l) \<or> h (lk_id l) = Some y \<and> lk_id l \<noteq> []" by simp
  then show ?case by (blast dest: wait_one_edge)
qed simp

lemma graph_edge:
  "waitForGraph d x = Some (y, l) \<Longrightarrow> holderByLock d (lk_id l) = Some y \<and> lk_id l \<noteq> []"
  unfolding waitForGraph_def by (drule wait_fold_edge) simp

lemma closer_none:
  assumes "\<And>t. t \<in> set (d_threads d) \<Longrightarrow> \<not> ((\<exists>h \<in> set (Holds t). lk_id h = b) \<and> lk_id (WaitingOn t) = a)"
  shows "closer_of d a b = []"
proof -
  have "find (\<lambda>t. (\<exists>h \<in> set (Holds t). lk_id h = b) \<and> lk_id (WaitingOn t) = a) (d_threads d) = None"
    unfolding find_None_iff using assms by blast
  then show ?thesis by (simp add: closer_of_def)
qed

text \<open>Finding (session/progression.go:207): in a dump whose thread names are distinct and whose locks
  have one holder each, a closing thread is never reported.\<close>
lemma closer_never_found:
  assumes names: "distinct (map th_name (d_threads d))"
    and held: "\<forall>t \<in> set (d_threads d). \<forall>h \<in> set (Holds t). holderByLock d (lk_id h) = Some (th_name t)"
    and "prediction d start = Some ps" "p \<in> set ps"
  shows "pd_closer p = []"
proof -
  let ?w = "waitForGraph d"
  obtain c where c: "wait_chain ?w c" "3 \<le> length c" and p: "p = \<lparr>pd_chain = c, pd_locks = chain_locks ?w c,
     pd_closer = closer_of d (lk_id (hd (chain_locks ?w c))) (lk_id (last (chain_locks ?w c)))\<rparr>"
    using prediction_of[of d start] assms(3,4) by auto
  obtain x y cs where xs: "c = x # y # cs" "cs \<noteq> []" using c(2)
    by (metis Suc_le_length_iff list.size(3) not_numeral_le_zero numeral_3_eq_3 Suc_le_D nat.distinct(1))
  obtain l where l: "?w x = Some (y, l)" using c(1) xs by (auto simp: wait_chain_def follows_Cons)
  obtain bs u v where uv: "c = bs @ [u, v]" using xs
    by (metis append_butlast_last_id append.assoc append_Cons append_Nil butlast.simps(2) list.distinct(1))
  obtain k where k: "?w u = Some (v, k)" using c(1) uv by (auto simp: wait_chain_def follows_def successively_append_iff)
  have end_: "?w v = None" and dist: "distinct c" using c(1) uv wait_chain_distinct[OF c(1)] by (simp_all add: wait_chain_def)
  have "v = last cs" using uv xs by (metis last.simps last_snoc append_Cons append_Nil append_assoc list.distinct(1))
  then have "v \<noteq> y" using dist xs by auto
  have "hd (chain_locks ?w c) = l" using l xs by (simp add: chain_locks_def)
  moreover have "last (chain_locks ?w c) = k" using k uv by (simp add: chain_locks_def butlast_append)
  moreover have "\<not> ((\<exists>h \<in> set (Holds t). lk_id h = lk_id k) \<and> lk_id (WaitingOn t) = lk_id l)"
    if t: "t \<in> set (d_threads d)" for t
  proof
    assume a: "(\<exists>h \<in> set (Holds t). lk_id h = lk_id k) \<and> lk_id (WaitingOn t) = lk_id l"
    then have "holderByLock d (lk_id k) = Some (th_name t)" using held t by metis
    then have "th_name t = v" using graph_edge[OF k] by simp
    then show False using graph_at[OF names t] end_ graph_edge[OF l] a \<open>v \<noteq> y\<close>
      by (auto simp: wait_one_def Let_def)
  qed
  ultimately have "closer_of d (lk_id (hd (chain_locks ?w c))) (lk_id (last (chain_locks ?w c))) = []"
    by (simp add: closer_none)
  then show ?thesis by (simp add: p)
qed

section \<open>Examples\<close>

definition demo_chain :: dump where
  "demo_chain = empty_dump\<lparr>d_threads := [demo_thread ''a'' ''1'' ''2'', demo_thread ''b'' ''2'' ''3'',
     demo_thread ''c'' ''3'' ''9'']\<rparr>"

lemmas demo_chain_simps = waitForGraph_def wait_one_def holderByLock_def demo_chain_def demo_thread_def
  empty_dump_def new_thread_def Holds_def WaitingOn_def

theorem predict_exact_witness:
  "\<exists>ps. PredictDeadlocks [''b'', ''a''] [demo_dump, demo_chain] = Some ps
     \<and> [''a'', ''b'', ''c''] \<in> set (map pd_chain ps)"
proof -
  have g: "waitForGraph demo_chain = [''a'' \<mapsto> (''b'', WaitingOn (demo_thread ''a'' ''1'' ''2'')),
     ''b'' \<mapsto> (''c'', WaitingOn (demo_thread ''b'' ''2'' ''3''))]"
    by (simp add: demo_chain_simps Let_def)
  have "enumerates [''b'', ''a''] (waitForGraph (last [demo_dump, demo_chain]))"
    by (simp add: enumerates_def g insert_commute)
  from predict_exact[OF _ this] obtain ps where "PredictDeadlocks [''b'', ''a''] [demo_dump, demo_chain] = Some ps"
    "set (map pd_chain ps) = {p. wait_chain (waitForGraph demo_chain) p \<and> 3 \<le> length p}" by auto
  moreover have "wait_chain (waitForGraph demo_chain) [''a'', ''b'', ''c'']"
    by (simp add: g wait_chain_def follows_def)
  ultimately show ?thesis by auto
qed

lemma demo_chain_locks: "{k. \<exists>d \<in> set [demo_chain]. lock_in d k} = set [''9'', ''1'', ''2'', ''3'']"
proof -
  have h: "holderByLock demo_chain = [''1'' \<mapsto> ''a'', ''2'' \<mapsto> ''b'', ''3'' \<mapsto> ''c'']"
    by (simp add: demo_chain_simps Let_def)
  have w: "map (\<lambda>t. lk_id (WaitingOn t)) (d_threads demo_chain) = [''2'', ''3'', ''9'']"
    by (simp add: demo_chain_simps)
  have "0 < waiting_for demo_chain k \<longleftrightarrow> k \<noteq> [] \<and> k \<in> set (map (\<lambda>t. lk_id (WaitingOn t)) (d_threads demo_chain))" for k
    by (auto simp: waiting_for_def filter_empty_conv)
  moreover have "dom (holderByLock demo_chain) = {''3'', ''2'', ''1''}" by (simp add: h)
  ultimately have "lock_in demo_chain k \<longleftrightarrow> k \<in> {''3'', ''2'', ''1''} \<or> k \<noteq> [] \<and> k \<in> set [''2'', ''3'', ''9'']" for k
    by (simp only: lock_in_def w domIff[symmetric])
  then show ?thesis by (simp add: set_eq_iff) blast
qed

theorem progression_exact_witness:
  "\<exists>p \<in> set (LockProgressions [''9'', ''1'', ''2'', ''3''] [demo_chain]). lp_id p = ''9''"
proof -
  have "distinct [''9'', ''1'', ''2'', ''3'']" by simp
  from progression_exact[OF this demo_chain_locks[symmetric]]
  have "set (map lp_id (LockProgressions [''9'', ''1'', ''2'', ''3''] [demo_chain])) = set [''9'', ''1'', ''2'', ''3'']"
    unfolding Let_def by (rule conjunct2[THEN conjunct1])
  then have "''9'' \<in> lp_id ` set (LockProgressions [''9'', ''1'', ''2'', ''3''] [demo_chain])"
    unfolding set_map by (simp only: list.set insertI1)
  then show ?thesis by (elim imageE) (rule bexI, rule sym)
qed

end
