(* ===== verification/Scanner.thy ===== *)
theory Scanner
  imports GoStrings
begin

text \<open>
  \<open>bufio.Scanner\<close> with its default split function, as the thread-dump analyzer uses it: the lines of
  an input without their ends, up to the first line that does not fit the buffer. The scan
  stops there, and only a caller that asks \<open>Err\<close> learns of it.
\<close>

definition newline :: char where "newline = CHR 0x0A"

definition drop_cr :: "string \<Rightarrow> string" where
  "drop_cr l = (if l \<noteq> [] \<and> last l = CHR 0x0D then butlast l else l)"

text \<open>The chunks between line feeds; nothing follows a final line feed.\<close>

definition raw_lines :: "string \<Rightarrow> string list" where
  "raw_lines text = (let ps = split_byte newline text in if last ps = [] then butlast ps else ps)"

definition scan_text :: "nat \<Rightarrow> string \<Rightarrow> string list" where
  "scan_text limit text = map drop_cr (takeWhile (\<lambda>l. length l < limit) (raw_lines text))"

definition scan_fails :: "nat \<Rightarrow> string \<Rightarrow> bool" where
  "scan_fails limit text \<longleftrightarrow> list_ex (\<lambda>l. limit \<le> length l) (raw_lines text)"

definition unlines :: "string list \<Rightarrow> string" where
  "unlines ls = concat (map (\<lambda>l. l @ [newline]) ls)"

definition clean_line :: "nat \<Rightarrow> string \<Rightarrow> bool" where
  "clean_line limit l \<longleftrightarrow> newline \<notin> set l \<and> length l < limit \<and> drop_cr l = l"

lemma unlines_Cons: "unlines (l # ls) = l @ newline # unlines ls"
  by (simp add: unlines_def)

lemma unlines_append: "unlines (ls @ ms) = unlines ls @ unlines ms"
  by (simp add: unlines_def)

lemma raw_unlines: "\<forall>l \<in> set ls. newline \<notin> set l \<Longrightarrow> raw_lines (unlines ls) = ls"
proof -
  assume a: "\<forall>l \<in> set ls. newline \<notin> set l"
  then have "split_byte newline (unlines ls) = ls @ [[]]"
    by (induction ls) (simp_all add: unlines_Cons split_byte_append, simp add: unlines_def)
  then show ?thesis by (simp add: raw_lines_def)
qed

text \<open>Scanning lines that were written out again yields them back.\<close>

lemma scan_unlines:
  assumes "\<forall>l \<in> set ls. clean_line limit l"
  shows "scan_text limit (unlines ls) = ls" and "\<not> scan_fails limit (unlines ls)"
proof -
  have "raw_lines (unlines ls) = ls" using assms by (intro raw_unlines) (simp add: clean_line_def)
  moreover have "takeWhile (\<lambda>l. length l < limit) ls = ls"
    using assms by (simp add: takeWhile_eq_all_conv clean_line_def)
  moreover have "map drop_cr ls = ls" using assms by (simp add: map_idI clean_line_def)
  ultimately show "scan_text limit (unlines ls) = ls" by (simp only: scan_text_def)
  show "\<not> scan_fails limit (unlines ls)"
    using assms \<open>raw_lines (unlines ls) = ls\<close> by (simp add: scan_fails_def list_ex_iff clean_line_def not_le)
qed

lemma raw_no_newline: "l \<in> set (raw_lines text) \<Longrightarrow> newline \<notin> set l"
  unfolding raw_lines_def Let_def by (metis in_set_butlastD split_byte_parts)

lemma scan_text_lines: "l \<in> set (scan_text limit text) \<Longrightarrow> newline \<notin> set l \<and> length l < limit"
proof -
  have drop: "set (drop_cr x) \<subseteq> set x \<and> length (drop_cr x) \<le> length x" for x
    by (auto simp: drop_cr_def dest: in_set_butlastD)
  assume "l \<in> set (scan_text limit text)"
  then obtain r where r: "l = drop_cr r" "r \<in> set (takeWhile (\<lambda>l. length l < limit) (raw_lines text))"
    by (auto simp: scan_text_def)
  then have "length r < limit" "newline \<notin> set r" using set_takeWhileD raw_no_newline by fastforce+
  then show ?thesis using drop[of r] r(1) by auto
qed

end
