(* ===== verification/Javacore.thy ===== *)
theory Javacore
  imports Deadlocks Scanner
begin

text \<open>
  The parser of IBM javacore files (threaddump-analyzer/internal/parser/javacore.go), the detection of
  the format and the dispatch between the two parsers. Parameters: \<open>uni\<close>, lower case beyond ASCII;
  \<open>tparse\<close>, \<open>time.Parse\<close>. A result of None is an index out of range, which ends the request.
\<close>

section \<open>Lines\<close>

definition extractField :: "string \<Rightarrow> string \<Rightarrow> string" where
  "extractField line marker =
     (case str_index line marker of None \<Rightarrow> [] | Some i \<Rightarrow> trim_space (drop (i + length marker) line))"

definition first_token :: "string \<Rightarrow> string option" where
  "first_token v = (case str_fields v of [] \<Rightarrow> None | f # _ \<Rightarrow> Some f)"

definition j9_header :: "string \<Rightarrow> thread" where
  "j9_header line =
     (let body = trim_space (trim_prefix line ''3XMTHREADINFO'');
          t = (new_thread [])\<lparr>th_state := StateUnknown\<rparr>;
          (t1, body1) = (case str_index body [CHR 0x22] of
              None \<Rightarrow> (t, body)
            | Some i \<Rightarrow> let rest = drop (i + 1) body in
                (case str_index rest [CHR 0x22] of
                   Some j \<Rightarrow> if 0 < j then (t\<lparr>th_name := take j rest\<rparr>, drop (j + 1) rest) else (t, body)
                 | None \<Rightarrow> (t, body)))
      in case str_index body1 ''J9VMThread:'' of
           None \<Rightarrow> t1
         | Some k \<Rightarrow> (case str_fields (drop k body1) of
              [] \<Rightarrow> t1
            | f # _ \<Rightarrow> t1\<lparr>th_tid := trim_suffix (trim_prefix f ''J9VMThread:'') '',''\<rparr>))"

text \<open>What a token is used for, when the field is there; a field that is there has a token.\<close>

definition with_token :: "string \<Rightarrow> (string \<Rightarrow> 'a) \<Rightarrow> 'a \<Rightarrow> 'a option" where
  "with_token v f t = (if v = [] then Some t else map_option f (first_token v))"

definition vmstate :: "string \<Rightarrow> thread \<Rightarrow> thread" where
  "vmstate s t =
     (if s = ''R'' then t\<lparr>th_state := StateRunnable\<rparr>
      else if s = ''B'' then t\<lparr>th_state := StateBlocked\<rparr>
      else if s = ''CW'' \<or> s = ''P'' then t\<lparr>th_state := StateWaiting\<rparr>
      else if s = ''P-T'' \<or> s = ''S'' then t\<lparr>th_state := StateTimedWaiting\<rparr>
      else if s = ''TERM'' then t\<lparr>th_state := StateTerminated\<rparr>
      else t)"

definition thread_info1 :: "thread \<Rightarrow> string \<Rightarrow> thread option" where
  "thread_info1 t line =
     Option.bind (with_token (extractField line ''native thread ID:'') (\<lambda>w. t\<lparr>th_nid := trim_suffix w '',''\<rparr>) t)
       (\<lambda>t. Option.bind (with_token (extractField line ''native priority:'')
                (\<lambda>w. t\<lparr>th_note := trim_space (''native_priority='' @ w)\<rparr>) t)
       (\<lambda>t. with_token (extractField line ''vmstate:'') (\<lambda>w. vmstate (trim_suffix w '','') t) t))"

definition dots :: "string \<Rightarrow> string" where
  "dots s = map (\<lambda>c. if c = CHR ''/'' then CHR ''.'' else c) s"

text \<open>The lock of a blocking line: its identity and class, empty when the line names none.\<close>

definition block_lock :: "string \<Rightarrow> (string \<times> string) option" where
  "block_lock line =
     (let body = trim_space (trim_prefix line ''3XMTHREADBLOCK'') in
      case str_index body ''Blocked on:'' of
        None \<Rightarrow> Some ([], [])
      | Some i \<Rightarrow> let rest = trim_space (drop (i + length ''Blocked on:'') body) in
          (case str_index rest ''@'' of
             None \<Rightarrow> Some ([], [])
           | Some a \<Rightarrow> map_option (\<lambda>w. (trim_suffix w '','', dots (take a rest))) (first_token (drop (a + 1) rest))))"

definition apply_block :: "thread \<Rightarrow> string \<Rightarrow> thread option" where
  "apply_block t line =
     map_option (\<lambda>(lockID, lockClass).
         let t1 = (if lockID = [] then t
                   else t\<lparr>th_locks := th_locks t @ [\<lparr>lk_id = lockID, lk_class = lockClass, lk_op = ''waiting to lock''\<rparr>]\<rparr>)
         in if th_state t1 = StateUnknown then t1\<lparr>th_state := StateBlocked\<rparr> else t1)
       (block_lock line)"

definition java_frame :: "string \<Rightarrow> frame option" where
  "java_frame line =
     (let body = trim_prefix (trim_space (trim_prefix line ''4XESTACKTRACE'')) ''at '' in
      case (str_last_index body ''('', str_last_index body '')'') of
        (Some p, Some c) \<Rightarrow>
          if p = 0 \<or> c \<le> p then None
          else
            let src = take (c - (p + 1)) (drop (p + 1) body); cm = dots (take p body)
            in (case str_last_index cm ''.'' of
                  None \<Rightarrow> None
                | Some d \<Rightarrow> if d = 0 then None
                    else Some \<lparr>fr_class = take d cm, fr_method = drop (d + 1) cm, fr_source = src,
                               fr_native = (src = ''Native Method'' \<or> src = ''Native method''), fr_compiled = False\<rparr>)
      | _ \<Rightarrow> None)"

definition native_frame :: "string \<Rightarrow> frame option" where
  "native_frame line =
     (let body = trim_space (trim_prefix line ''4XENATIVESTACK'') in
      if body = [] then None
      else Some \<lparr>fr_class = ''(native)'', fr_method = body, fr_source = ''Native'', fr_native = True, fr_compiled = False\<rparr>)"

definition j9_timestamp :: "(string \<Rightarrow> string \<Rightarrow> int option) \<Rightarrow> string \<Rightarrow> int option" where
  "j9_timestamp tparse s =
     (let layout = ''2006/01/02 at 15:04:05''
      in if length layout \<le> length s then tparse layout (take (length layout) s) else None)"

section \<open>The loop\<close>

record j9_state =
  j9_dump :: dump
  j9_current :: "thread option"
  j9_java :: bool
  j9_native :: bool

definition j9_flush :: "j9_state \<Rightarrow> j9_state" where
  "j9_flush st =
     (case j9_current st of
        None \<Rightarrow> st
      | Some t \<Rightarrow> st\<lparr>j9_dump := (j9_dump st)\<lparr>d_threads := d_threads (j9_dump st) @ [t]\<rparr>, j9_current := None\<rparr>)"

definition on_current :: "(thread \<Rightarrow> thread option) \<Rightarrow> j9_state \<Rightarrow> j9_state option" where
  "on_current f st =
     (case j9_current st of
        None \<Rightarrow> Some st
      | Some t \<Rightarrow> map_option (\<lambda>t'. st\<lparr>j9_current := Some t'\<rparr>) (f t))"

definition add_frame :: "frame option \<Rightarrow> thread \<Rightarrow> thread option" where
  "add_frame f t = Some (case f of None \<Rightarrow> t | Some fr \<Rightarrow> t\<lparr>th_frames := th_frames t @ [fr]\<rparr>)"

definition is_j9_header :: "string \<Rightarrow> bool" where
  "is_j9_header line \<longleftrightarrow> has_prefix line ''3XMTHREADINFO '' \<and> \<not> has_prefix line ''3XMTHREADINFO1''
     \<and> \<not> has_prefix line ''3XMTHREADINFO2'' \<and> \<not> has_prefix line ''3XMTHREADINFO3''"

definition j9_body :: "(string \<Rightarrow> string) \<Rightarrow> j9_state \<Rightarrow> string \<Rightarrow> j9_state option" where
  "j9_body uni st line =
     (if is_j9_header line then
        Some ((j9_flush st)\<lparr>j9_current := Some (j9_header line), j9_java := False, j9_native := False\<rparr>)
      else if has_prefix line ''3XMTHREADINFO1'' then on_current (\<lambda>t. thread_info1 t line) st
      else if has_prefix line ''3XMCPUTIME'' then
        on_current (\<lambda>t. with_token (extractField line ''CPU usage total:'') (\<lambda>w. t\<lparr>th_cpu := w @ ''s''\<rparr>) t) st
      else if has_prefix line ''3XMTHREADBLOCK'' then on_current (\<lambda>t. apply_block t line) st
      else if has_prefix line ''3XMTHREADINFO3'' then
        let low = to_lower uni (trim_space (trim_prefix line ''3XMTHREADINFO3''))
        in Some (st\<lparr>j9_java := str_contains low ''java callstack'', j9_native := str_contains low ''native callstack''\<rparr>)
      else if has_prefix line ''4XESTACKTRACE'' then
        (if j9_java st then on_current (add_frame (java_frame line)) st else Some st)
      else if has_prefix line ''4XENATIVESTACK'' then
        (if j9_native st then on_current (add_frame (native_frame line)) st else Some st)
      else if has_prefix line ''NULL'' then Some ((j9_flush st)\<lparr>j9_java := False, j9_native := False\<rparr>)
      else if has_prefix line ''0SECTION'' \<and> \<not> str_contains line ''THREADS'' then Some (j9_flush st)
      else Some st)"

definition j9_line ::
  "(string \<Rightarrow> string) \<Rightarrow> (string \<Rightarrow> string \<Rightarrow> int option) \<Rightarrow> j9_state \<Rightarrow> string \<Rightarrow> j9_state option" where
  "j9_line uni tparse st0 line =
     (let st = st0\<lparr>j9_dump := (j9_dump st0)\<lparr>d_raw := d_raw (j9_dump st0) @ line @ [newline]\<rparr>\<rparr> in
      if d_title (j9_dump st) = [] \<and> has_prefix line ''1TIDATETIME'' then
        let title = trim_space (trim_prefix line ''1TIDATETIME'')
        in Some (st\<lparr>j9_dump := (j9_dump st)\<lparr>d_title := title, d_time := j9_timestamp tparse title\<rparr>\<rparr>)
      else j9_body uni st line)"

fun j9_lines ::
  "(string \<Rightarrow> string) \<Rightarrow> (string \<Rightarrow> string \<Rightarrow> int option) \<Rightarrow> j9_state \<Rightarrow> string list \<Rightarrow> j9_state option" where
  "j9_lines uni tparse st [] = Some st"
| "j9_lines uni tparse st (l # ls) = Option.bind (j9_line uni tparse st l) (\<lambda>st'. j9_lines uni tparse st' ls)"

definition ParseJavacore ::
  "(string \<Rightarrow> string) \<Rightarrow> (string \<Rightarrow> string \<Rightarrow> int option) \<Rightarrow> string list \<Rightarrow> string option \<Rightarrow> (parse_error + dump) option" where
  "ParseJavacore uni tparse lines scanErr =
     map_option (\<lambda>st. case scanErr of Some e \<Rightarrow> Inl (ScanError e) | None \<Rightarrow> Inr (j9_dump (j9_flush st)))
       (j9_lines uni tparse \<lparr>j9_dump = empty_dump, j9_current = None, j9_java = False, j9_native = False\<rparr> lines)"

section \<open>Detection\<close>

datatype dump_format = FormatJavacore | FormatJstack | FormatUnknown

definition Detect :: "string \<Rightarrow> dump_format" where
  "Detect s =
     (if str_contains s ''1TIDATETIME'' \<or> str_contains s ''0SECTION'' \<or> str_contains s ''3XMTHREADINFO'' then FormatJavacore
      else if str_contains s ''Full thread dump'' \<or> str_contains s ''java.lang.Thread.State:'' then FormatJstack
      else FormatUnknown)"

definition scan_limit :: nat where "scan_limit = 4 * 1024 * 1024"

definition too_long :: string where "too_long = ''bufio.Scanner: token too long''"

text \<open>The text read, and the error that ended the reading, if any.\<close>

definition ParseReader ::
  "(string \<Rightarrow> string) \<Rightarrow> (string \<Rightarrow> string \<Rightarrow> int option) \<Rightarrow> string \<Rightarrow> string option \<Rightarrow> (parse_error + dump) option" where
  "ParseReader uni tparse text rerr =
     (let ls = scan_text scan_limit text; err = (if scan_fails scan_limit text then Some too_long else rerr)
      in if Detect (take 4096 text) = FormatJavacore then ParseJavacore uni tparse ls err
         else Some (Parse tparse ls err))"

definition ParseAuto ::
  "(string \<Rightarrow> string) \<Rightarrow> (string \<Rightarrow> string \<Rightarrow> int option) \<Rightarrow> string \<Rightarrow> (parse_error + dump) option" where
  "ParseAuto uni tparse text = ParseReader uni tparse text None"

section \<open>Fields have tokens\<close>

lemma space_prefix_take: "space_prefix seqs s = 0 \<Longrightarrow> \<forall>q \<in> set seqs. q \<noteq> [] \<Longrightarrow> space_prefix seqs (take n s) = 0"
proof -
  assume a: "space_prefix seqs s = 0" "\<forall>q \<in> set seqs. q \<noteq> []"
  have none: "find (has_prefix s) seqs = None"
  proof (rule ccontr)
    assume "find (has_prefix s) seqs \<noteq> None"
    then obtain q where q: "find (has_prefix s) seqs = Some q" by blast
    then have "q \<in> set seqs" by (metis find_Some_iff nth_mem)
    then show False using a q by (simp add: space_prefix_def)
  qed
  have "\<not> has_prefix (take n s) q" if "q \<in> set seqs" for q
  proof
    assume "has_prefix (take n s) q"
    then obtain t where "take n s = q @ t" by (auto simp: has_prefix_iff)
    then have "s = q @ t @ drop n s" by (metis append.assoc append_take_drop_id)
    then have "has_prefix s q" unfolding has_prefix_iff by blast
    then show False using none that by (auto simp: find_None_iff)
  qed
  then have "find (has_prefix (take n s)) seqs = None" unfolding find_None_iff by blast
  then show ?thesis by (simp add: space_prefix_def)
qed

lemma strip_left_stripped: "strip_left seqs s = [] \<or> space_prefix seqs (strip_left seqs s) = 0"
proof (induction seqs s rule: strip_left.induct)
  case (1 seqs s)
  show ?case
  proof (cases "space_prefix seqs s = 0 \<or> s = []")
    case False
    then have "strip_left seqs s = strip_left seqs (drop (space_prefix seqs s) s)"
      by (subst strip_left.simps) (simp add: Let_def)
    then show ?thesis using 1[OF refl False] by simp
  qed (subst (1 2) strip_left.simps, auto simp: Let_def)
qed

lemma strip_left_drop: "\<exists>n. strip_left seqs s = drop n s"
proof (induction seqs s rule: strip_left.induct)
  case (1 seqs s)
  show ?case
  proof (cases "space_prefix seqs s = 0 \<or> s = []")
    case True
    then show ?thesis by (subst strip_left.simps) (auto simp: Let_def intro: exI[of _ 0])
  next
    case False
    with 1 obtain n where "strip_left seqs (drop (space_prefix seqs s) s) = drop n (drop (space_prefix seqs s) s)"
      by auto
    with False show ?thesis by (subst strip_left.simps) (auto simp: Let_def)
  qed
qed

lemma trim_space_start: "space_prefix space_seqs (trim_space s) = 0 \<or> trim_space s = []"
proof -
  let ?l = "strip_left space_seqs s"
  obtain n where "strip_left (map rev space_seqs) (rev ?l) = drop n (rev ?l)" using strip_left_drop by blast
  then have t: "trim_space s = take (length ?l - n) ?l" by (simp add: trim_space_def rev_drop)
  have "\<forall>q \<in> set space_seqs. q \<noteq> []" by (simp add: space_seqs_def)
  then show ?thesis using strip_left_stripped[of space_seqs s] space_prefix_take unfolding t by fastforce
qed

lemma fields_from_acc: "acc \<noteq> [] \<Longrightarrow> fields_from acc s \<noteq> []"
proof (induction acc s rule: fields_from.induct)
  case (1 acc s)
  then show ?case by (subst fields_from.simps) (auto simp: Let_def)
qed

lemma first_token_trimmed: "trim_space s \<noteq> [] \<Longrightarrow> first_token (trim_space s) \<noteq> None"
proof -
  assume a: "trim_space s \<noteq> []"
  then have "str_fields (trim_space s) = fields_from [hd (trim_space s)] (tl (trim_space s))"
    using trim_space_start[of s] unfolding str_fields_def by (subst fields_from.simps) (simp add: Let_def)
  then show ?thesis using fields_from_acc by (auto simp: first_token_def split: list.split)
qed

lemma extractField_token: "extractField line m \<noteq> [] \<Longrightarrow> first_token (extractField line m) \<noteq> None"
  using first_token_trimmed by (cases "str_index line m") (simp_all add: extractField_def del: not_None_eq)

lemma with_field: "\<exists>t'. with_token (extractField line m) f t = Some t'"
  using extractField_token[of line m] by (auto simp: with_token_def)

lemma with_token_cases: "with_token v f t = Some t' \<Longrightarrow> t' = t \<or> (\<exists>w. t' = f w)"
  by (auto simp: with_token_def split: if_splits)

section \<open>Every header is a thread\<close>

text \<open>What the lines of a thread's body leave alone: its name, and that it only waits.\<close>

definition only_waits :: "thread \<Rightarrow> bool" where
  "only_waits t \<longleftrightarrow> (\<forall>l \<in> set (th_locks t). lk_op l = ''waiting to lock'')"

definition keeps :: "thread \<Rightarrow> thread \<Rightarrow> bool" where
  "keeps t t' \<longleftrightarrow> th_name t' = th_name t \<and> (only_waits t \<longrightarrow> only_waits t')"

lemma keeps_refl [simp]: "keeps t t" by (simp add: keeps_def)

lemma keeps_trans: "keeps t u \<Longrightarrow> keeps u v \<Longrightarrow> keeps t v" by (simp add: keeps_def)

lemma only_waits_none: "only_waits t \<Longrightarrow> Holds t = []"
  by (auto simp: only_waits_def Holds_def filter_empty_conv)

lemma keeps_vmstate: "keeps t (vmstate s t)"
  by (simp add: vmstate_def keeps_def only_waits_def)

lemma keeps_info1: "thread_info1 t line = Some t' \<Longrightarrow> keeps t t'"
proof -
  assume "thread_info1 t line = Some t'"
  then obtain u v where u: "with_token (extractField line ''native thread ID:'') (\<lambda>w. t\<lparr>th_nid := trim_suffix w '',''\<rparr>) t = Some u"
    "with_token (extractField line ''native priority:'') (\<lambda>w. u\<lparr>th_note := trim_space (''native_priority='' @ w)\<rparr>) u = Some v"
    "with_token (extractField line ''vmstate:'') (\<lambda>w. vmstate (trim_suffix w '','') v) v = Some t'"
    unfolding thread_info1_def by (auto simp: bind_eq_Some_conv)
  have "keeps t u" using with_token_cases[OF u(1)] by (auto simp: keeps_def only_waits_def)
  moreover have "keeps u v" using with_token_cases[OF u(2)] by (auto simp: keeps_def only_waits_def)
  moreover have "keeps v t'" using with_token_cases[OF u(3)] keeps_vmstate by auto
  ultimately show ?thesis using keeps_trans by blast
qed

lemma info1_returns: "\<exists>t'. thread_info1 t line = Some t'"
proof -
  obtain u where u: "with_token (extractField line ''native thread ID:'') (\<lambda>w. t\<lparr>th_nid := trim_suffix w '',''\<rparr>) t = Some u"
    by (rule exE[OF with_field])
  obtain v where v: "with_token (extractField line ''native priority:'') (\<lambda>w. u\<lparr>th_note := trim_space (''native_priority='' @ w)\<rparr>) u = Some v"
    by (rule exE[OF with_field])
  show ?thesis unfolding thread_info1_def u v bind.bind_lunit by (rule with_field)
qed

lemma keeps_block: "apply_block t line = Some t' \<Longrightarrow> keeps t t'"
  unfolding apply_block_def Let_def by (auto simp: keeps_def only_waits_def split: if_splits)

lemma keeps_add_frame: "add_frame f t = Some t' \<Longrightarrow> keeps t t'"
  by (auto simp: add_frame_def keeps_def only_waits_def split: option.splits)

definition j9_names :: "j9_state \<Rightarrow> string list" where
  "j9_names st = map th_name (d_threads (j9_dump st)) @ (case j9_current st of None \<Rightarrow> [] | Some t \<Rightarrow> [th_name t])"

definition j9_waits :: "j9_state \<Rightarrow> bool" where
  "j9_waits st \<longleftrightarrow> (\<forall>t \<in> set (d_threads (j9_dump st)) \<union> set_option (j9_current st). only_waits t)"

definition j9_keeps :: "j9_state \<Rightarrow> j9_state \<Rightarrow> bool" where
  "j9_keeps st st' \<longleftrightarrow> j9_names st' = j9_names st \<and> (j9_waits st \<longrightarrow> j9_waits st')
     \<and> d_raw (j9_dump st') = d_raw (j9_dump st)"

lemma flush_keeps: "j9_keeps st (j9_flush st)" "j9_current (j9_flush st) = None"
  by (auto simp: j9_keeps_def j9_flush_def j9_names_def j9_waits_def split: option.split)

lemma on_current_keeps:
  assumes "on_current f st = Some st'" "\<And>t t'. f t = Some t' \<Longrightarrow> keeps t t'"
  shows "j9_keeps st st'"
  using assms(1)
  by (auto simp: on_current_def j9_keeps_def j9_names_def j9_waits_def split: option.splits dest!: assms(2))
    (auto simp: keeps_def)

lemma keeps_cpu: "with_token v (\<lambda>w. t\<lparr>th_cpu := w @ ''s''\<rparr>) t = Some t' \<Longrightarrow> keeps t t'"
  by (drule with_token_cases) (auto simp: keeps_def only_waits_def)

lemma j9_flags [simp]: "j9_keeps st (st'\<lparr>j9_java := a, j9_native := b\<rparr>) \<longleftrightarrow> j9_keeps st st'"
  by (simp add: j9_keeps_def j9_names_def j9_waits_def)

lemma j9_keeps_refl [simp]: "j9_keeps st st" by (simp add: j9_keeps_def)

lemma j9_body_keeps:
  assumes "\<not> is_j9_header line" "j9_body uni st line = Some st'"
  shows "j9_keeps st st'"
  using assms unfolding j9_body_def Let_def
  by (auto split: if_splits intro: on_current_keeps keeps_info1 keeps_cpu keeps_block keeps_add_frame flush_keeps(1))

lemma header_waits [simp]: "only_waits (j9_header line)"
  by (simp add: j9_header_def only_waits_def new_thread_def Let_def split: option.split list.split)

lemma j9_body_header:
  "is_j9_header line \<Longrightarrow> \<exists>st'. j9_body uni st line = Some st' \<and> j9_names st' = j9_names st @ [th_name (j9_header line)]
     \<and> (j9_waits st \<longrightarrow> j9_waits st') \<and> d_raw (j9_dump st') = d_raw (j9_dump st)"
  using flush_keeps[of st] by (auto simp: j9_body_def j9_names_def j9_keeps_def j9_waits_def)


text \<open>Only a blocking line whose lock has no address stops the parser.\<close>

lemma block_returns: "block_lock line \<noteq> None \<Longrightarrow> \<exists>t'. apply_block t line = Some t'"
  by (auto simp: apply_block_def)

lemma on_current_returns: "(\<And>t. \<exists>t'. f t = Some t') \<Longrightarrow> \<exists>st'. on_current f st = Some st'"
  by (auto simp: on_current_def split: option.split)

lemma j9_body_returns:
  assumes "has_prefix line ''3XMTHREADBLOCK'' \<longrightarrow> block_lock line \<noteq> None"
  shows "\<exists>st'. j9_body uni st line = Some st'"
  using assms unfolding j9_body_def Let_def
  by (auto intro!: on_current_returns info1_returns with_field block_returns simp: add_frame_def simp del: not_None_eq)

lemma j9_line_step:
  assumes "has_prefix line ''3XMTHREADBLOCK'' \<longrightarrow> block_lock line \<noteq> None"
  shows "\<exists>st'. j9_line uni tparse st line = Some st'
    \<and> j9_names st' = j9_names st @ (if is_j9_header line then [th_name (j9_header line)] else [])
    \<and> (j9_waits st \<longrightarrow> j9_waits st') \<and> d_raw (j9_dump st') = d_raw (j9_dump st) @ line @ [newline]"
proof -
  let ?st = "st\<lparr>j9_dump := (j9_dump st)\<lparr>d_raw := d_raw (j9_dump st) @ line @ [newline]\<rparr>\<rparr>"
  have same: "j9_names ?st = j9_names st" "j9_waits ?st \<longleftrightarrow> j9_waits st" by (simp_all add: j9_names_def j9_waits_def)
  show ?thesis
  proof (cases "d_title (j9_dump ?st) = [] \<and> has_prefix line ''1TIDATETIME''")
    case True
    then have "\<not> is_j9_header line" by (auto simp: is_j9_header_def has_prefix_iff)
    then show ?thesis using True by (simp add: j9_line_def Let_def j9_names_def j9_waits_def)
  next
    case False
    then have l: "j9_line uni tparse st line = j9_body uni ?st line" by (simp only: j9_line_def Let_def if_not_P[OF False] if_False)
    show ?thesis
    proof (cases "is_j9_header line")
      case True
      then show ?thesis using j9_body_header[OF True, of uni ?st] by (auto simp: l same)
    next
      case False
      obtain st' where st': "j9_body uni ?st line = Some st'" using j9_body_returns[OF assms] by blast
      then show ?thesis using j9_body_keeps[OF False st'] False by (simp add: l j9_keeps_def same)
    qed
  qed
qed

lemma j9_lines_run:
  assumes "\<forall>l \<in> set ls. has_prefix l ''3XMTHREADBLOCK'' \<longrightarrow> block_lock l \<noteq> None"
  shows "\<exists>st'. j9_lines uni tparse st ls = Some st'
    \<and> j9_names st' = j9_names st @ map (\<lambda>l. th_name (j9_header l)) (filter is_j9_header ls)
    \<and> (j9_waits st \<longrightarrow> j9_waits st') \<and> d_raw (j9_dump st') = d_raw (j9_dump st) @ unlines ls"
  using assms
proof (induction ls arbitrary: st)
  case (Cons l ls)
  from Cons.prems have "has_prefix l ''3XMTHREADBLOCK'' \<longrightarrow> block_lock l \<noteq> None" by simp
  from j9_line_step[OF this, of uni tparse st] obtain st1 where st1: "j9_line uni tparse st l = Some st1"
    "j9_names st1 = j9_names st @ (if is_j9_header l then [th_name (j9_header l)] else [])"
    "j9_waits st \<longrightarrow> j9_waits st1" "d_raw (j9_dump st1) = d_raw (j9_dump st) @ l @ [newline]" by blast
  from Cons.prems have "\<forall>l \<in> set ls. has_prefix l ''3XMTHREADBLOCK'' \<longrightarrow> block_lock l \<noteq> None" by simp
  from Cons.IH[OF this, of st1] show ?case using st1 by (auto simp: unlines_Cons)
qed (simp add: unlines_def)

text \<open>The javacore parser returns on every file in which no blocking line breaks off after the lock's
  class: the dump has exactly one thread per thread header, in the order of the headers and
  under the names they give, keeps the whole text, and records for every thread only locks it
  waits for.\<close>
theorem javacore_threads:
  assumes "\<forall>l \<in> set ls. has_prefix l ''3XMTHREADBLOCK'' \<longrightarrow> block_lock l \<noteq> None"
  shows "\<exists>d. ParseJavacore uni tparse ls None = Some (Inr d)
    \<and> map th_name (d_threads d) = map (\<lambda>l. th_name (j9_header l)) (filter is_j9_header ls)
    \<and> d_raw d = unlines ls \<and> (\<forall>t \<in> set (d_threads d). Holds t = [])"
proof -
  let ?st = "\<lparr>j9_dump = empty_dump, j9_current = None, j9_java = False, j9_native = False\<rparr>"
  obtain st where st: "j9_lines uni tparse ?st ls = Some st"
    "j9_names st = map (\<lambda>l. th_name (j9_header l)) (filter is_j9_header ls)" "j9_waits st"
    "d_raw (j9_dump st) = unlines ls"
    using j9_lines_run[OF assms, of uni tparse ?st] by (auto simp: j9_names_def j9_waits_def empty_dump_def)
  have "j9_names (j9_flush st) = j9_names st" "j9_waits (j9_flush st)" "d_raw (j9_dump (j9_flush st)) = unlines ls"
    using flush_keeps(1)[of st] st by (simp_all add: j9_keeps_def)
  then show ?thesis using st flush_keeps(2)[of st] only_waits_none
    by (auto simp: ParseJavacore_def j9_names_def j9_waits_def)
qed

text \<open>Finding (parser/javacore.go:180): no javacore shows a deadlock, since the owner a blocking line
  names is never recorded.\<close>
lemma javacore_no_deadlocks:
  assumes "\<forall>t \<in> set (d_threads d). Holds t = []"
  shows "Deadlocks ks d = Some []"
proof -
  have "foldl (\<lambda>m t. foldl (\<lambda>m h. m(lk_id h \<mapsto> th_name t)) m (Holds t)) m ts = m"
    if "\<forall>t \<in> set ts. Holds t = []" for m ts
    using that by (induction ts) simp_all
  then have "holderByLock d = Map.empty" using assms by (simp add: holderByLock_def)
  moreover have "foldl (wait_one Map.empty) w ts = w" for w ts
    by (induction ts) (simp_all add: wait_one_def Let_def)
  ultimately have g: "waitForGraph d = Map.empty" by (simp add: waitForGraph_def)
  have one: "walk Map.empty mark [] start = Some (mark_done (if mark start = Unmarked then [start] else [])
      (if mark start = Unmarked then mark(start := OnStack) else mark), None)" for mark start
    by (subst walk.simps) simp
  have "scan Map.empty mark cs ks = Some cs" for mark cs
    by (induction ks arbitrary: mark) (simp_all add: one)
  then show ?thesis by (simp add: Deadlocks_def g dedupeCycles_def)
qed

text \<open>Finding (parser/javacore.go:191): a blocking line that breaks off after the class ends the request.\<close>
lemma dangling_block_panics:
  "ParseJavacore uni tparse [''3XMTHREADINFO x'', ''3XMTHREADBLOCK Blocked on: A@''] None = None"
  by code_simp


definition demo_javacore :: "string list" where
  "demo_javacore = [''3XMTHREADINFO '' @ [CHR 0x22] @ ''a'' @ [CHR 0x22],
     ''3XMTHREADBLOCK Blocked on: A@0x1 Owned by: B'', ''NULL'', ''3XMTHREADINFO '' @ [CHR 0x22] @ ''B'' @ [CHR 0x22],
     ''3XMTHREADBLOCK Blocked on: A@0x2 Owned by: a'']"

lemma demo_javacore_blocks: "list_all (\<lambda>l. has_prefix l ''3XMTHREADBLOCK'' \<longrightarrow> block_lock l \<noteq> None) demo_javacore"
  unfolding demo_javacore_def by code_simp

lemma demo_javacore_names: "map (\<lambda>l. th_name (j9_header l)) (filter is_j9_header demo_javacore) = [''a'', ''B'']"
  unfolding demo_javacore_def by code_simp

theorem javacore_threads_witness:
  "\<exists>d. ParseJavacore (\<lambda>s. s) (\<lambda>l s. None) demo_javacore None = Some (Inr d) \<and> map th_name (d_threads d) = [''a'', ''B'']
     \<and> Deadlocks [] d = Some []"
proof -
  obtain d where "ParseJavacore (\<lambda>s. s) (\<lambda>l s. None) demo_javacore None = Some (Inr d)"
    "map th_name (d_threads d) = [''a'', ''B'']" "\<forall>t \<in> set (d_threads d). Holds t = []"
    using javacore_threads[OF demo_javacore_blocks[unfolded list_all_iff], of "\<lambda>s. s" "\<lambda>l s. None"]
    unfolding demo_javacore_names by (elim exE conjE)
  then show ?thesis using javacore_no_deadlocks[of d "[]"] by (intro exI[of _ d] conjI)
qed

end
