(* ===== verification/CpuSample.thy ===== *)
theory CpuSample
  imports Scanner Float64 "HOL-Library.Multiset" "HOL-Library.Char_ord" "HOL-Library.List_Lexorder"
begin

text \<open>
  Per-thread CPU readings (threaddump-analyzer/internal/cpu/cpu.go): the parsers of \<open>top -H\<close> and
  \<open>pidstat -t\<close> and the join with the threads of a dump. A 64-bit float is a finite number, an
  infinity or no number; \<open>parse_float\<close>, \<open>strconv.ParseFloat\<close>, is a parameter.
\<close>

datatype go_float = Finite rat | PosInf | NegInf | NaN

fun float_gt :: "go_float \<Rightarrow> go_float \<Rightarrow> bool" where
  "float_gt NaN y = False"
| "float_gt x NaN = False"
| "float_gt (Finite x) (Finite y) = (y < x)"
| "float_gt PosInf y = (y \<noteq> PosInf)"
| "float_gt x PosInf = False"
| "float_gt x NegInf = (x \<noteq> NegInf)"
| "float_gt NegInf y = False"

record thread_cpu =
  tc_NID :: string
  tc_Percent :: go_float
  tc_Command :: string

record cpu_sample =
  cs_Source :: string
  cs_Threads :: "thread_cpu list"

text \<open>The scanner stops without a word at a line that does not fit its buffer of 1 MiB.\<close>

definition cpu_limit :: nat where "cpu_limit = 1048576"

definition cpu_lines :: "string \<Rightarrow> string list" where
  "cpu_lines text = scan_text cpu_limit text"

section \<open>Columns\<close>

record columns =
  col_id :: int
  col_cpu :: int
  col_cmd :: int

definition no_columns :: columns where
  "no_columns = \<lparr>col_id = -1, col_cpu = -1, col_cmd = -1\<rparr>"

text \<open>One field of a line, number \<open>i\<close>, read as the title of a column.\<close>

definition title_field :: "string \<Rightarrow> string \<Rightarrow> columns \<Rightarrow> nat \<times> string \<Rightarrow> columns" where
  "title_field idTitle cmdTitle c = (\<lambda>(i, f).
     if f = idTitle then c\<lparr>col_id := int i\<rparr>
     else if f = ''%CPU'' then c\<lparr>col_cpu := int i\<rparr>
     else if f = cmdTitle then c\<lparr>col_cmd := int i\<rparr>
     else c)"

definition title_line :: "string \<Rightarrow> string \<Rightarrow> columns \<Rightarrow> string list \<Rightarrow> columns" where
  "title_line idTitle cmdTitle c fs = foldl (title_field idTitle cmdTitle) c (enumerate 0 fs)"

definition command_of :: "columns \<Rightarrow> string list \<Rightarrow> string" where
  "command_of c fs =
     (if 0 \<le> col_cmd c \<and> col_cmd c < int (length fs) then str_join '' '' (drop (nat (col_cmd c)) fs) else [])"

definition cpu_row :: "(string \<Rightarrow> go_float option) \<Rightarrow> columns \<Rightarrow> string list \<Rightarrow> string \<Rightarrow> thread_cpu list" where
  "cpu_row parse_float c fs raw =
     (case parse_float raw of
        None \<Rightarrow> []
      | Some pct \<Rightarrow> [\<lparr>tc_NID = fs ! nat (col_id c), tc_Percent = pct, tc_Command = command_of c fs\<rparr>])"

section \<open>The two formats\<close>

text \<open>\<open>top -H\<close>: the rows after the first lines that together title both columns.\<close>

fun top_lines :: "(string \<Rightarrow> go_float option) \<Rightarrow> bool \<Rightarrow> columns \<Rightarrow> string list \<Rightarrow> thread_cpu list" where
  "top_lines parse_float headerSeen c [] = []"
| "top_lines parse_float headerSeen c (line # ls) =
     (let fs = str_fields line in
      if \<not> headerSeen then
        let c' = title_line ''PID'' ''COMMAND'' c fs
        in top_lines parse_float (0 \<le> col_id c' \<and> 0 \<le> col_cpu c') c' ls
      else if int (length fs) \<le> col_cpu c \<or> int (length fs) \<le> col_id c
      then top_lines parse_float True c ls
      else cpu_row parse_float c fs (fs ! nat (col_cpu c)) @ top_lines parse_float True c ls)"

definition parseTop :: "(string \<Rightarrow> go_float option) \<Rightarrow> string \<Rightarrow> cpu_sample" where
  "parseTop parse_float text =
     \<lparr>cs_Source = ''top -H'', cs_Threads = top_lines parse_float False no_columns (cpu_lines text)\<rparr>"

text \<open>\<open>strings.Replace(s, ",", ".", 1)\<close>.\<close>

fun comma_dot :: "string \<Rightarrow> string" where
  "comma_dot [] = []"
| "comma_dot (c # s) = (if c = CHR '','' then CHR ''.'' # s else c # comma_dot s)"

text \<open>\<open>pidstat -t\<close>: every line may move the columns, and one with both titles is no row.\<close>

fun pidstat_lines :: "(string \<Rightarrow> go_float option) \<Rightarrow> columns \<Rightarrow> string list \<Rightarrow> thread_cpu list" where
  "pidstat_lines parse_float c0 [] = []"
| "pidstat_lines parse_float c0 (line # ls) =
     (let fs = str_fields line; c = title_line ''TID'' ''Command'' c0 fs in
      (if ''TID'' \<in> set fs \<and> ''%CPU'' \<in> set fs then []
       else if col_id c < 0 \<or> col_cpu c < 0 then []
       else if int (length fs) \<le> col_cpu c \<or> int (length fs) \<le> col_id c then []
       else if fs ! nat (col_id c) = ''-'' \<or> fs ! nat (col_id c) = [] then []
       else cpu_row parse_float c fs (comma_dot (fs ! nat (col_cpu c))))
      @ pidstat_lines parse_float c ls)"

definition parsePidstat :: "(string \<Rightarrow> go_float option) \<Rightarrow> string \<Rightarrow> cpu_sample" where
  "parsePidstat parse_float text =
     \<lparr>cs_Source = ''pidstat'', cs_Threads = pidstat_lines parse_float no_columns (cpu_lines text)\<rparr>"

definition cpu_Parse :: "(string \<Rightarrow> go_float option) \<Rightarrow> string option \<Rightarrow> cpu_sample option" where
  "cpu_Parse parse_float input =
     (case input of
        None \<Rightarrow> None
      | Some text \<Rightarrow> Some (
          if str_contains text ''%CPU'' \<and> str_contains text ''PID'' then parseTop parse_float text
          else if str_contains text ''pidstat'' \<or> str_contains text ''TID'' then parsePidstat parse_float text
          else let s = parseTop parse_float text
               in if cs_Threads s \<noteq> [] then s else parsePidstat parse_float text))"

section \<open>The join\<close>

record joined =
  jn_Name :: string
  jn_NID :: string
  jn_Percent :: go_float

definition hex_val :: "char \<Rightarrow> int option" where
  "hex_val c =
     (let n = of_char c :: int in
      if 48 \<le> n \<and> n \<le> 57 then Some (n - 48)
      else if 97 \<le> n \<and> n \<le> 102 then Some (n - 87)
      else if 65 \<le> n \<and> n \<le> 70 then Some (n - 55)
      else None)"

fun hex_digits :: "int \<Rightarrow> string \<Rightarrow> int option" where
  "hex_digits a [] = Some a"
| "hex_digits a (c # cs) = (case hex_val c of None \<Rightarrow> None | Some d \<Rightarrow> hex_digits (16 * a + d) cs)"

text \<open>\<open>strconv.ParseInt(s, 16, 64)\<close>.\<close>

definition parse_hex :: "string \<Rightarrow> int option" where
  "parse_hex s =
     (let (neg, ds) = (case s of [] \<Rightarrow> (False, [])
             | c # cs \<Rightarrow> if c = CHR ''-'' then (True, cs) else if c = CHR ''+'' then (False, cs) else (False, s))
      in if ds = [] then None
         else case hex_digits 0 ds of
             None \<Rightarrow> None
           | Some n \<Rightarrow> let v = (if neg then - n else n) in if in_i64 v then Some v else None)"

definition normaliseNID :: "string \<Rightarrow> string" where
  "normaliseNID s0 =
     (let s = trim_space s0 in
      if has_prefix s ''0x'' \<or> has_prefix s ''0X'' then
        (case parse_hex (drop 2 s) of Some v \<Rightarrow> go_itoa v | None \<Rightarrow> s)
      else s)"

definition by_nid :: "cpu_sample \<Rightarrow> (string \<rightharpoonup> go_float)" where
  "by_nid s = foldl (\<lambda>m t. m(normaliseNID (tc_NID t) \<mapsto> tc_Percent t)) Map.empty (cs_Threads s)"

text \<open>The nested loops that order the rows: position \<open>i\<close> is exchanged with every later one that is
  greater.\<close>

definition exchange :: "('a \<Rightarrow> 'a \<Rightarrow> bool) \<Rightarrow> nat \<Rightarrow> 'a list \<Rightarrow> nat \<Rightarrow> 'a list" where
  "exchange gt i xs j = (if gt (xs ! j) (xs ! i) then xs[i := xs ! j, j := xs ! i] else xs)"

definition exchange_row :: "('a \<Rightarrow> 'a \<Rightarrow> bool) \<Rightarrow> 'a list \<Rightarrow> nat \<Rightarrow> 'a list" where
  "exchange_row gt xs i = foldl (exchange gt i) xs [i + 1..<length xs]"

definition exchange_sort :: "('a \<Rightarrow> 'a \<Rightarrow> bool) \<Rightarrow> 'a list \<Rightarrow> 'a list" where
  "exchange_sort gt xs = foldl (exchange_row gt) xs [0..<length xs]"

definition joined_rows :: "cpu_sample \<Rightarrow> (string \<times> string) list \<Rightarrow> joined list" where
  "joined_rows s ts =
     List.map_filter (\<lambda>(name, nid). map_option (\<lambda>p. \<lparr>jn_Name = name, jn_NID = nid, jn_Percent = p\<rparr>)
       (by_nid s (normaliseNID nid))) ts"

definition JoinByNID :: "cpu_sample option \<Rightarrow> (string \<times> string) list \<Rightarrow> joined list" where
  "JoinByNID sample ts =
     (case sample of
        None \<Rightarrow> []
      | Some s \<Rightarrow> if cs_Threads s = [] then []
                else exchange_sort (\<lambda>a b. float_gt (jn_Percent a) (jn_Percent b)) (joined_rows s ts))"

section \<open>Exchange sort sorts\<close>

lemma exchange_length [simp]: "length (exchange gt i xs j) = length xs"
  by (simp add: exchange_def)

lemma exchange_mset: "i < length xs \<Longrightarrow> j < length xs \<Longrightarrow> mset (exchange gt i xs j) = mset xs"
  by (simp add: exchange_def mset_swap)

lemma exchange_row_mset:
  "i < length xs \<Longrightarrow> \<forall>j \<in> set js. j < length xs \<Longrightarrow> mset (foldl (exchange gt i) xs js) = mset xs
     \<and> length (foldl (exchange gt i) xs js) = length xs"
  by (induction js arbitrary: xs) (simp_all add: exchange_mset)

lemma exchange_sort_mset: "mset (exchange_sort gt xs) = mset xs"
proof -
  have "mset (foldl (exchange_row gt) ys ns) = mset ys \<and> length (foldl (exchange_row gt) ys ns) = length ys"
    if "\<forall>i \<in> set ns. i < length ys" for ys ns
    using that
  proof (induction ns arbitrary: ys)
    case (Cons i ns)
    have "mset (exchange_row gt ys i) = mset ys \<and> length (exchange_row gt ys i) = length ys"
      unfolding exchange_row_def using Cons.prems by (intro exchange_row_mset) auto
    then show ?case using Cons.IH[of "exchange_row gt ys i"] Cons.prems by simp
  qed simp
  then show ?thesis by (simp add: exchange_sort_def)
qed

text \<open>A relation under which the loops sort: what is not greater is at most, transitively.\<close>

definition weak_order :: "('a \<Rightarrow> 'a \<Rightarrow> bool) \<Rightarrow> 'a set \<Rightarrow> bool" where
  "weak_order gt A \<longleftrightarrow> (\<forall>x \<in> A. \<forall>y \<in> A. gt x y \<longrightarrow> \<not> gt y x)
     \<and> (\<forall>x \<in> A. \<forall>y \<in> A. \<forall>z \<in> A. \<not> gt x y \<longrightarrow> \<not> gt y z \<longrightarrow> \<not> gt x z)"

text \<open>After the inner loop position \<open>i\<close> is a greatest of the rest, and what lies before is untouched.\<close>

lemma weak_orderD:
  assumes "weak_order gt A"
  shows "x \<in> A \<Longrightarrow> y \<in> A \<Longrightarrow> gt x y \<Longrightarrow> \<not> gt y x" "x \<in> A \<Longrightarrow> \<not> gt x x"
    "x \<in> A \<Longrightarrow> y \<in> A \<Longrightarrow> z \<in> A \<Longrightarrow> \<not> gt x y \<Longrightarrow> \<not> gt y z \<Longrightarrow> \<not> gt x z"
  using assms unfolding weak_order_def by blast+

lemma set_drop_swap:
  assumes "k \<le> i" "i < length xs" "k \<le> j" "j < length xs"
  shows "set (drop k (xs[i := xs ! j, j := xs ! i])) = set (drop k xs)"
proof -
  have "drop k (xs[i := xs ! j, j := xs ! i]) = (drop k xs)[i - k := drop k xs ! (j - k), j - k := drop k xs ! (i - k)]"
    using assms by (simp add: drop_update_swap)
  also have "set \<dots> = set (drop k xs)" using assms by (intro set_swap) auto
  finally show ?thesis .
qed

lemma inner_loop:
  assumes "weak_order gt (set xs)" "i < n" "n \<le> length xs"
  shows "let ys = foldl (exchange gt i) xs [i + 1..<n] in
    set ys = set xs \<and> length ys = length xs \<and> take i ys = take i xs
    \<and> set (drop i ys) = set (drop i xs) \<and> (\<forall>j. i \<le> j \<longrightarrow> j < n \<longrightarrow> \<not> gt (ys ! j) (ys ! i))"
  using assms(2,3)
proof (induction n)
  case (Suc n)
  show ?case
  proof (cases "i = n")
    case True
    then have "xs ! i \<in> set xs" using Suc.prems by simp
    then show ?thesis using weak_orderD(2)[OF assms(1)] True by (auto simp: Let_def le_less_Suc_eq)
  next
    case False
    let ?ys = "foldl (exchange gt i) xs [i + 1..<n]"
    have IH: "set ?ys = set xs" "length ?ys = length xs" "take i ?ys = take i xs" "set (drop i ?ys) = set (drop i xs)"
      and le: "\<And>j. i \<le> j \<Longrightarrow> j < n \<Longrightarrow> \<not> gt (?ys ! j) (?ys ! i)"
      using Suc.IH Suc.prems False by (simp_all add: Let_def)
    have n: "i < n" "n < length ?ys" "i < length ?ys" using Suc.prems False IH(2) by auto
    have fold: "foldl (exchange gt i) xs [i + 1..<Suc n] = exchange gt i ?ys n" using n by simp
    have mem: "?ys ! j \<in> set xs" if "j < length ?ys" for j using that IH(1) nth_mem by blast
    have "\<not> gt (exchange gt i ?ys n ! j) (exchange gt i ?ys n ! i)" if j: "i \<le> j" "j < Suc n" for j
    proof (cases "gt (?ys ! n) (?ys ! i)")
      case True
      then have bk: "\<not> gt (?ys ! i) (?ys ! n)" using weak_orderD(1)[OF assms(1)] mem n by blast
      have "\<not> gt (?ys ! j) (?ys ! n)" if "j < n"
        using weak_orderD(3)[OF assms(1) _ _ _ le[OF j(1) that] bk] mem n that by simp
      then show ?thesis using bk True n j weak_orderD(2)[OF assms(1) mem[OF n(2)]]
        by (cases "j = n"; cases "j = i") (simp_all add: exchange_def)
    next
      case False
      then show ?thesis using le[OF j(1)] j by (cases "j = n") (simp_all add: exchange_def)
    qed
    moreover have "set (exchange gt i ?ys n) = set xs" using n IH(1) by (simp add: exchange_def)
    moreover have "set (drop i (exchange gt i ?ys n)) = set (drop i xs)"
      using n IH(4) by (simp add: exchange_def set_drop_swap)
    moreover have "take i (exchange gt i ?ys n) = take i xs" using n IH(3) by (simp add: exchange_def)
    ultimately show ?thesis unfolding fold Let_def using IH(2) by simp
  qed
qed simp

lemma outer_loop:
  assumes "weak_order gt (set xs)" "n \<le> length xs"
  shows "let ys = foldl (exchange_row gt) xs [0..<n] in
    set ys = set xs \<and> length ys = length xs
    \<and> (\<forall>i < n. \<forall>j. i < j \<longrightarrow> j < length ys \<longrightarrow> \<not> gt (ys ! j) (ys ! i))"
  using assms(2)
proof (induction n)
  case (Suc n)
  let ?ys = "foldl (exchange_row gt) xs [0..<n]"
  have IH: "set ?ys = set xs" "length ?ys = length xs"
    and le: "\<And>i j. i < n \<Longrightarrow> i < j \<Longrightarrow> j < length ?ys \<Longrightarrow> \<not> gt (?ys ! j) (?ys ! i)"
    using Suc by (simp_all add: Let_def)
  have n: "n < length ?ys" using Suc.prems IH(2) by simp
  let ?zs = "exchange_row gt ?ys n"
  have row: "set ?zs = set ?ys" "length ?zs = length ?ys" "take n ?zs = take n ?ys" "set (drop n ?zs) = set (drop n ?ys)"
    "\<And>j. n \<le> j \<Longrightarrow> j < length ?ys \<Longrightarrow> \<not> gt (?zs ! j) (?zs ! n)"
    using inner_loop[of gt ?ys n "length ?ys"] assms(1) IH n by (simp_all add: Let_def exchange_row_def)
  have "\<not> gt (?zs ! j) (?zs ! i)" if i: "i < Suc n" "i < j" "j < length ?zs" for i j
  proof (cases "i = n")
    case True
    then show ?thesis using row(2,5) i by simp
  next
    case False
    then have "i < n" using i by simp
    have i': "?zs ! i = ?ys ! i" using row(3) \<open>i < n\<close> by (metis nth_take)
    show ?thesis
    proof (cases "j < n")
      case True
      then have "?zs ! j = ?ys ! j" using row(3) by (metis nth_take)
      then show ?thesis using le[OF \<open>i < n\<close> i(2)] i i' row(2) by simp
    next
      case False
      then have "?zs ! j \<in> set (drop n ?zs)" using i by (auto simp: in_set_conv_nth intro!: exI[of _ "j - n"])
      then obtain k where "k < length ?ys - n" "?zs ! j = ?ys ! (n + k)"
        unfolding row(4) by (auto simp: in_set_conv_nth)
      then show ?thesis using le[OF \<open>i < n\<close>, of "n + k"] \<open>i < n\<close> i' by simp
    qed
  qed
  then show ?case using row(1,2) IH by (simp add: Let_def)
qed simp

lemma exchange_sort_sorted:
  assumes "weak_order gt (set xs)"
  shows "sorted_wrt (\<lambda>x y. \<not> gt y x) (exchange_sort gt xs)"
  using outer_loop[OF assms order.refl]
  by (auto simp: Let_def exchange_sort_def sorted_wrt_iff_nth_less)

lemma float_weak_order: "NaN \<notin> f ` A \<Longrightarrow> weak_order (\<lambda>a b. float_gt (f a) (f b)) A"
proof -
  have "float_gt x y \<longrightarrow> \<not> float_gt y x" for x y by (cases x; cases y) auto
  moreover have "x \<noteq> NaN \<Longrightarrow> y \<noteq> NaN \<Longrightarrow> z \<noteq> NaN \<Longrightarrow> \<not> float_gt x y \<Longrightarrow> \<not> float_gt y z \<Longrightarrow> \<not> float_gt x z" for x y z
    by (cases x; cases y; cases z) auto
  ultimately show "NaN \<notin> f ` A \<Longrightarrow> ?thesis" unfolding weak_order_def by (metis image_eqI)
qed

section \<open>The join is exact\<close>

lemma by_nid_last:
  "by_nid s k = map_option tc_Percent (find (\<lambda>t. normaliseNID (tc_NID t) = k) (rev (cs_Threads s)))"
proof -
  have "foldl (\<lambda>m t. m(normaliseNID (tc_NID t) \<mapsto> tc_Percent t)) Map.empty ts k
      = map_option tc_Percent (find (\<lambda>t. normaliseNID (tc_NID t) = k) (rev ts))" for ts
    by (induction ts rule: rev_induct) simp_all
  then show ?thesis by (simp add: by_nid_def)
qed

text \<open>The join of a CPU sample with the threads of a dump has one row for every thread whose native
  id, brought to decimal, the sample lists, and none for the others; the row bears the thread's
  name and id and the last percentage the sample gives for it; when no percentage is NaN the rows
  come in descending order.\<close>
theorem join_exact:
  assumes "cs_Threads s \<noteq> []"
  shows "mset (map (\<lambda>r. (jn_Name r, jn_NID r)) (JoinByNID (Some s) ts)) =
           mset (filter (\<lambda>(name, nid). \<exists>t \<in> set (cs_Threads s). normaliseNID (tc_NID t) = normaliseNID nid) ts)
    \<and> (\<forall>r \<in> set (JoinByNID (Some s) ts). \<exists>t. find (\<lambda>t. normaliseNID (tc_NID t) = normaliseNID (jn_NID r)) (rev (cs_Threads s)) = Some t
         \<and> jn_Percent r = tc_Percent t)
    \<and> (NaN \<notin> tc_Percent ` set (cs_Threads s) \<longrightarrow>
         sorted_wrt (\<lambda>a b. \<not> float_gt (jn_Percent b) (jn_Percent a)) (JoinByNID (Some s) ts))"
proof -
  let ?gt = "\<lambda>a b. float_gt (jn_Percent a) (jn_Percent b)"
  have J: "JoinByNID (Some s) ts = exchange_sort ?gt (joined_rows s ts)" using assms by (simp add: JoinByNID_def)
  have m: "mset (JoinByNID (Some s) ts) = mset (joined_rows s ts)" by (simp add: J exchange_sort_mset)
  have listed: "by_nid s (normaliseNID nid) \<noteq> None \<longleftrightarrow> (\<exists>t \<in> set (cs_Threads s). normaliseNID (tc_NID t) = normaliseNID nid)" for nid
    by (auto simp: by_nid_last find_None_iff)
  have "map (\<lambda>r. (jn_Name r, jn_NID r)) (joined_rows s ts) =
      filter (\<lambda>(name, nid). by_nid s (normaliseNID nid) \<noteq> None) ts"
    unfolding joined_rows_def by (induction ts) (auto simp: List.map_filter_simps)
  then have names: "mset (map (\<lambda>r. (jn_Name r, jn_NID r)) (JoinByNID (Some s) ts)) =
      mset (filter (\<lambda>(name, nid). by_nid s (normaliseNID nid) \<noteq> None) ts)"
    using m by (metis mset_map)
  have rows: "\<exists>t. find (\<lambda>t. normaliseNID (tc_NID t) = normaliseNID (jn_NID r)) (rev (cs_Threads s)) = Some t
      \<and> jn_Percent r = tc_Percent t" if "r \<in> set (JoinByNID (Some s) ts)" for r
  proof -
    have "r \<in> set (joined_rows s ts)" using that mset_eq_setD[OF m] by simp
    then show ?thesis by (auto simp: joined_rows_def List.map_filter_def by_nid_last split: option.splits)
  qed
  have "sorted_wrt (\<lambda>a b. \<not> ?gt b a) (JoinByNID (Some s) ts)" if nan: "NaN \<notin> tc_Percent ` set (cs_Threads s)"
  proof -
    have "jn_Percent r \<noteq> NaN" if r: "r \<in> set (joined_rows s ts)" for r
    proof -
      obtain t where "find (\<lambda>t. normaliseNID (tc_NID t) = normaliseNID (jn_NID r)) (rev (cs_Threads s)) = Some t"
        "jn_Percent r = tc_Percent t" using rows[of r] r mset_eq_setD[OF m] by auto
      then show ?thesis using nan by (metis find_Some_iff image_eqI nth_mem set_rev)
    qed
    then have "NaN \<notin> jn_Percent ` set (joined_rows s ts)" by (metis imageE)
    then show ?thesis unfolding J by (intro exchange_sort_sorted float_weak_order)
  qed
  then show ?thesis using names rows unfolding listed by blast
qed

text \<open>Finding (cpu/cpu.go:213): decimal ids are compared as text, although the comment promises a
  comparison by value.\<close>
lemma decimal_nid_as_text: "normaliseNID ''0x1f'' = ''31'' \<and> normaliseNID ''031'' = ''031''"
  by code_simp

definition demo_sample :: cpu_sample where
  "demo_sample = \<lparr>cs_Source = ''top -H'', cs_Threads =
     [\<lparr>tc_NID = ''31'', tc_Percent = Finite 5, tc_Command = []\<rparr>, \<lparr>tc_NID = ''32'', tc_Percent = Finite 90, tc_Command = []\<rparr>]\<rparr>"

theorem join_exact_witness:
  "mset (map (\<lambda>r. (jn_Name r, jn_NID r)) (JoinByNID (Some demo_sample) [(''a'', ''0x1f''), (''b'', ''0x20''), (''c'', ''0x21'')])) =
     mset [(''a'', ''0x1f''), (''b'', ''0x20'')]"
proof -
  have ne: "cs_Threads demo_sample \<noteq> []" by (simp add: demo_sample_def)
  have f: "filter (\<lambda>(name, nid). \<exists>t \<in> set (cs_Threads demo_sample). normaliseNID (tc_NID t) = normaliseNID nid)
      [(''a'', ''0x1f''), (''b'', ''0x20''), (''c'', ''0x21'')] = [(''a'', ''0x1f''), (''b'', ''0x20'')]"
    unfolding demo_sample_def by code_simp
  show ?thesis using join_exact[OF ne, of "[(''a'', ''0x1f''), (''b'', ''0x20''), (''c'', ''0x21'')]"] unfolding f by (elim conjE)
qed

end
