(* ===== verification/GcLog.thy ===== *)
theory GcLog
  imports Scanner CpuSample
begin

text \<open>
  GC logs (threaddump-analyzer/internal/gclog/gclog.go): the two line formats with the regular
  expressions spelt out as matchers, the kinds of pause, the pauses in an interval and the
  statistics. Parameters: \<open>tparse\<close>, \<open>time.Parse\<close> in format RFC 3339; \<open>parse_float\<close>; \<open>uni\<close>, lower case
  beyond ASCII. Instants and durations are nanoseconds.
\<close>

record pause =
  pa_At :: int
  pa_Kind :: string
  pa_Duration :: int
  pa_Detail :: string

section \<open>The regular expressions\<close>

definition stamp_char :: "char \<Rightarrow> bool" where
  "stamp_char c \<longleftrightarrow> is_digit c \<or> c = CHR ''T'' \<or> c = CHR '':'' \<or> c = CHR ''+'' \<or> c = CHR ''-'' \<or> c = CHR ''.''"

definition re_space :: "char \<Rightarrow> bool" where
  "re_space c \<longleftrightarrow> c \<in> {CHR 0x09, CHR 0x0A, CHR 0x0C, CHR 0x0D, CHR 0x20}"

text \<open>\<open>(\d+(?:\.\d+)?)ms\s*$\<close> against a whole string.\<close>

definition ms_tail :: "string \<Rightarrow> string option" where
  "ms_tail s =
     (let ds = takeWhile is_digit s; r = dropWhile is_digit s;
          (num, r') = (if take 1 r = ''.'' \<and> takeWhile is_digit (drop 1 r) \<noteq> []
                       then (ds @ ''.'' @ takeWhile is_digit (drop 1 r), dropWhile is_digit (drop 1 r)) else (ds, r))
      in if ds \<noteq> [] \<and> has_prefix r' ''ms'' \<and> list_all re_space (drop 2 r') then Some num else None)"

text \<open>The lazy \<open>(.*?)\<close>: the shortest text after which the rest matches.\<close>

fun lazy_split :: "(string \<Rightarrow> 'a option) \<Rightarrow> string \<Rightarrow> (string \<times> 'a) option" where
  "lazy_split f [] = map_option (\<lambda>r. ([], r)) (f [])"
| "lazy_split f (c # s) =
     (case f (c # s) of Some r \<Rightarrow> Some ([], r) | None \<Rightarrow> map_option (\<lambda>(u, r). (c # u, r)) (lazy_split f s))"

text \<open>\<open>^\[([0-9T:+\-\.]+)\]\[[^\]]+\]\[gc\] (.*?)(\d+(?:\.\d+)?)ms\s*$\<close>.\<close>

definition re_unified :: "string \<Rightarrow> (string \<times> string \<times> string) option" where
  "re_unified line =
     (if take 1 line \<noteq> ''['' then None
      else let at1 = takeWhile stamp_char (drop 1 line); r1 = dropWhile stamp_char (drop 1 line) in
        if at1 = [] \<or> \<not> has_prefix r1 ''][''  then None
        else let lev = takeWhile (\<lambda>c. c \<noteq> CHR '']'') (drop 2 r1); r2 = dropWhile (\<lambda>c. c \<noteq> CHR '']'') (drop 2 r1) in
          if lev = [] \<or> \<not> has_prefix r2 ''][gc] '' then None
          else map_option (\<lambda>(body, num). (at1, body, num)) (lazy_split ms_tail (drop 6 r2)))"

text \<open>\<open>,?\s*([0-9.]+)\s*secs\]\<close> at the start of a string; the greedy parts cannot give anything back.\<close>

definition num_char :: "char \<Rightarrow> bool" where
  "num_char c \<longleftrightarrow> is_digit c \<or> c = CHR ''.''"

definition secs_tail :: "string \<Rightarrow> string option" where
  "secs_tail s =
     (let r = dropWhile re_space (if take 1 s = '','' then drop 1 s else s);
          num = takeWhile num_char r
      in if num \<noteq> [] \<and> has_prefix (dropWhile re_space (dropWhile num_char r)) ''secs]'' then Some num else None)"

text \<open>\<open>(GC[^\],]+)(?:.*?),?\s*([0-9.]+)\s*secs\]\<close>: the group takes as much as leaves a match, of \<open>n\<close> bytes
  at most after its first two.\<close>

fun gc_group :: "nat \<Rightarrow> string \<Rightarrow> (string \<times> string) option" where
  "gc_group 0 s = None"
| "gc_group (Suc n) s =
     (case lazy_split secs_tail (drop (Suc n) s) of
        Some (u, num) \<Rightarrow> Some (take (Suc n) s, num)
      | None \<Rightarrow> gc_group n s)"

text \<open>\<open>^([0-9T:+\-\.]+):\s+[0-9.]+:\s+\[\<close> and the group; the stamp ends before the last colon of its run.\<close>

definition re_legacy :: "string \<Rightarrow> (string \<times> string \<times> string) option" where
  "re_legacy line =
     (let run = takeWhile stamp_char line; r1 = dropWhile stamp_char line;
          r2 = dropWhile re_space r1; up = takeWhile num_char r2; r3 = dropWhile num_char r2;
          r4 = dropWhile re_space (drop 1 r3) in
      if length run < 2 \<or> last run \<noteq> CHR '':'' \<or> r1 = r2 then None
      else if up = [] \<or> take 1 r3 \<noteq> '':'' \<or> drop 1 r3 = r4 \<or> \<not> has_prefix r4 ''[GC'' then None
      else let g = drop 3 r4 in
        map_option (\<lambda>(u, num). (butlast run, ''GC'' @ u, num))
          (gc_group (length (takeWhile (\<lambda>c. c \<noteq> CHR '']'' \<and> c \<noteq> CHR '','') g)) g))"

section \<open>Lines\<close>

definition fix_zone :: "string \<Rightarrow> string" where
  "fix_zone s = (case str_index s ''+0000'' of None \<Rightarrow> s | Some i \<Rightarrow> take i s @ ''+00:00'' @ drop (i + 5) s)"

definition parse_stamp :: "(string \<Rightarrow> int option) \<Rightarrow> string \<Rightarrow> int option" where
  "parse_stamp tparse s = (case tparse s of Some t \<Rightarrow> Some t | None \<Rightarrow> tparse (fix_zone s))"

definition extractKind :: "(string \<Rightarrow> string) \<Rightarrow> string \<Rightarrow> string" where
  "extractKind uni body =
     (let low = to_lower uni body in
      if str_contains low ''pause full'' \<or> str_contains low ''full gc'' then ''Full''
      else if str_contains low ''pause mixed'' then ''Mixed''
      else if str_contains low ''pause young'' then ''Young''
      else if str_contains low ''pause remark'' then ''Remark''
      else if str_contains low ''pause cleanup'' then ''Cleanup''
      else if str_contains low ''pause initial-mark'' then ''InitialMark''
      else if has_prefix body ''GC '' then trim_space (trim_prefix body ''GC '')
      else ''GC'')"

text \<open>The conversion of a float to a duration truncates (no number of a log is negative); a value beyond 64 bits is the smallest one
  (amd64).\<close>

definition float_duration :: "int \<Rightarrow> go_float \<Rightarrow> int" where
  "float_duration per x =
     (case x of
        Finite v \<Rightarrow> let p = rnd64 (v * of_int per) in if in_i64 \<lfloor>p\<rfloor> then \<lfloor>p\<rfloor> else - (2 ^ 63)
      | _ \<Rightarrow> - (2 ^ 63))"

definition parseUnified ::
  "(string \<Rightarrow> string) \<Rightarrow> (string \<Rightarrow> int option) \<Rightarrow> (string \<Rightarrow> go_float option) \<Rightarrow> string \<Rightarrow> pause option" where
  "parseUnified uni tparse parse_float line =
     (case re_unified line of
        None \<Rightarrow> None
      | Some (stamp, msg, num) \<Rightarrow>
          (case (parse_stamp tparse stamp, parse_float num) of
             (Some t, Some ms1) \<Rightarrow>
               let body = trim_space msg
               in Some \<lparr>pa_At = t, pa_Kind = extractKind uni body, pa_Duration = float_duration 1000000 ms1, pa_Detail = body\<rparr>
           | _ \<Rightarrow> None))"

definition parseLegacy ::
  "(string \<Rightarrow> string) \<Rightarrow> (string \<Rightarrow> int option) \<Rightarrow> (string \<Rightarrow> go_float option) \<Rightarrow> string \<Rightarrow> pause option" where
  "parseLegacy uni tparse parse_float line =
     (case re_legacy line of
        None \<Rightarrow> None
      | Some (stamp, msg, num) \<Rightarrow>
          (case (parse_stamp tparse stamp, parse_float num) of
             (Some t, Some secs) \<Rightarrow>
               Some \<lparr>pa_At = t, pa_Kind = extractKind uni msg, pa_Duration = float_duration 1000000000 secs,
                     pa_Detail = trim_space msg\<rparr>
           | _ \<Rightarrow> None))"

definition gc_line ::
  "(string \<Rightarrow> string) \<Rightarrow> (string \<Rightarrow> int option) \<Rightarrow> (string \<Rightarrow> go_float option) \<Rightarrow> string \<Rightarrow> pause option" where
  "gc_line uni tparse parse_float line =
     (case parseUnified uni tparse parse_float line of
        Some p \<Rightarrow> Some p
      | None \<Rightarrow> parseLegacy uni tparse parse_float line)"

section \<open>The log\<close>

definition gc_limit :: nat where "gc_limit = 4 * 1024 * 1024"

text \<open>None is the error of the scanner. Pauses of one instant may come in any order.\<close>

definition gc_Parse ::
  "(string \<Rightarrow> string) \<Rightarrow> (string \<Rightarrow> int option) \<Rightarrow> (string \<Rightarrow> go_float option) \<Rightarrow> string \<Rightarrow> pause list option" where
  "gc_Parse uni tparse parse_float text =
     (if scan_fails gc_limit text then None
      else Some (sort_key pa_At (List.map_filter (gc_line uni tparse parse_float) (scan_text gc_limit text))))"

definition Within :: "pause list option \<Rightarrow> int \<Rightarrow> int \<Rightarrow> pause list" where
  "Within l from_t to_t =
     (case l of None \<Rightarrow> [] | Some ps \<Rightarrow> filter (\<lambda>p. (pa_At p = from_t \<or> from_t < pa_At p) \<and> (pa_At p = to_t \<or> pa_At p < to_t)) ps)"

record gc_stats =
  gs_Pauses :: int
  gs_TotalDuration :: int
  gs_MaxDuration :: int
  gs_First :: "int option"
  gs_Last :: "int option"
  gs_Full :: int
  gs_Mixed :: int
  gs_Young :: int

definition stat_pause :: "gc_stats \<Rightarrow> pause \<Rightarrow> gc_stats" where
  "stat_pause s p =
     (let s1 = s\<lparr>gs_TotalDuration := i64 (gs_TotalDuration s + pa_Duration p)\<rparr>;
          s2 = (if gs_MaxDuration s1 < pa_Duration p then s1\<lparr>gs_MaxDuration := pa_Duration p\<rparr> else s1)
      in if pa_Kind p = ''Full'' then s2\<lparr>gs_Full := gs_Full s2 + 1\<rparr>
         else if pa_Kind p = ''Mixed'' then s2\<lparr>gs_Mixed := gs_Mixed s2 + 1\<rparr>
         else if pa_Kind p = ''Young'' then s2\<lparr>gs_Young := gs_Young s2 + 1\<rparr>
         else s2)"

definition no_stats :: gc_stats where
  "no_stats = \<lparr>gs_Pauses = 0, gs_TotalDuration = 0, gs_MaxDuration = 0, gs_First = None, gs_Last = None,
     gs_Full = 0, gs_Mixed = 0, gs_Young = 0\<rparr>"

definition Stats :: "pause list option \<Rightarrow> gc_stats" where
  "Stats l =
     (case l of
        None \<Rightarrow> no_stats
      | Some ps \<Rightarrow>
          if ps = [] then no_stats
          else foldl stat_pause (no_stats\<lparr>gs_Pauses := int (length ps), gs_First := Some (pa_At (hd ps)),
                                         gs_Last := Some (pa_At (last ps))\<rparr>) ps)"

section \<open>What the overlay shows\<close>

lemma gc_Parse_sorted: "gc_Parse uni tparse parse_float text = Some ps \<Longrightarrow> sorted (map pa_At ps)"
  by (auto simp: gc_Parse_def split: if_splits)

lemma stats_fold:
  assumes "\<forall>p \<in> set ps. 0 \<le> pa_Duration p" "0 \<le> gs_TotalDuration s"
    "gs_TotalDuration s + sum_list (map pa_Duration ps) < 2 ^ 63"
  shows "let r = foldl stat_pause s ps in
    gs_TotalDuration r = gs_TotalDuration s + sum_list (map pa_Duration ps)
    \<and> gs_MaxDuration r = Max (insert (gs_MaxDuration s) (pa_Duration ` set ps))
    \<and> gs_Full r = gs_Full s + int (length (filter (\<lambda>p. pa_Kind p = ''Full'') ps))
    \<and> gs_Mixed r = gs_Mixed s + int (length (filter (\<lambda>p. pa_Kind p = ''Mixed'') ps))
    \<and> gs_Young r = gs_Young s + int (length (filter (\<lambda>p. pa_Kind p = ''Young'') ps))
    \<and> gs_Pauses r = gs_Pauses s \<and> gs_First r = gs_First s \<and> gs_Last r = gs_Last s"
  using assms
proof (induction ps arbitrary: s)
  case (Cons p ps)
  have nn: "0 \<le> sum_list (map pa_Duration ps)" using Cons.prems(1) by (intro sum_list_nonneg) auto
  have t: "gs_TotalDuration (stat_pause s p) = gs_TotalDuration s + pa_Duration p"
    using Cons.prems nn by (simp add: stat_pause_def Let_def i64_id in_i64_def)
  have m: "gs_MaxDuration (stat_pause s p) = max (gs_MaxDuration s) (pa_Duration p)"
    by (simp add: stat_pause_def Let_def max_def)
  have k: "gs_Full (stat_pause s p) = gs_Full s + (if pa_Kind p = ''Full'' then 1 else 0)"
    "gs_Mixed (stat_pause s p) = gs_Mixed s + (if pa_Kind p = ''Mixed'' then 1 else 0)"
    "gs_Young (stat_pause s p) = gs_Young s + (if pa_Kind p = ''Young'' then 1 else 0)"
    "gs_Pauses (stat_pause s p) = gs_Pauses s" "gs_First (stat_pause s p) = gs_First s"
    "gs_Last (stat_pause s p) = gs_Last s"
    by (simp_all add: stat_pause_def Let_def)
  have mx: "Max (insert (max a x) B) = Max (insert a (insert x B))" if "finite B" for a x :: int and B
    using that by (cases "B = {}") (simp_all add: max.assoc)
  have "let r = foldl stat_pause (stat_pause s p) ps in
    gs_TotalDuration r = gs_TotalDuration (stat_pause s p) + sum_list (map pa_Duration ps)
    \<and> gs_MaxDuration r = Max (insert (gs_MaxDuration (stat_pause s p)) (pa_Duration ` set ps))
    \<and> gs_Full r = gs_Full (stat_pause s p) + int (length (filter (\<lambda>p. pa_Kind p = ''Full'') ps))
    \<and> gs_Mixed r = gs_Mixed (stat_pause s p) + int (length (filter (\<lambda>p. pa_Kind p = ''Mixed'') ps))
    \<and> gs_Young r = gs_Young (stat_pause s p) + int (length (filter (\<lambda>p. pa_Kind p = ''Young'') ps))
    \<and> gs_Pauses r = gs_Pauses (stat_pause s p) \<and> gs_First r = gs_First (stat_pause s p) \<and> gs_Last r = gs_Last (stat_pause s p)"
    using Cons.prems by (intro Cons.IH) (simp_all add: t)
  then show ?case unfolding t m k by (simp add: Let_def mx)
qed simp

text \<open>The statistics of a log add up: the number of pauses, the sum and the greatest of their durations
  (while the sum fits 64 bits), the first and the last instant, and the counts by kind; and the
  pauses within an interval are those of the log that begin in it, bounds included.\<close>
theorem gc_overlay:
  assumes "gc_Parse uni tparse parse_float text = Some ps" "ps \<noteq> []"
    "\<forall>p \<in> set ps. 0 \<le> pa_Duration p" "sum_list (map pa_Duration ps) < 2 ^ 63"
  shows "let s = Stats (Some ps) in
    gs_Pauses s = int (length ps) \<and> gs_TotalDuration s = sum_list (map pa_Duration ps)
    \<and> gs_MaxDuration s = Max (insert 0 (pa_Duration ` set ps))
    \<and> (\<forall>p \<in> set ps. the (gs_First s) \<le> pa_At p \<and> pa_At p \<le> the (gs_Last s))
    \<and> gs_Full s = int (length (filter (\<lambda>p. pa_Kind p = ''Full'') ps))
    \<and> gs_Mixed s = int (length (filter (\<lambda>p. pa_Kind p = ''Mixed'') ps))
    \<and> gs_Young s = int (length (filter (\<lambda>p. pa_Kind p = ''Young'') ps))
    \<and> (\<forall>a b. set (Within (Some ps) a b) = {p \<in> set ps. pa_At p \<in> {a..b}} \<and> sorted (map pa_At (Within (Some ps) a b)))"
proof -
  have so: "sorted (map pa_At ps)" by (rule gc_Parse_sorted[OF assms(1)])
  have bounds: "pa_At (hd ps) \<le> pa_At p \<and> pa_At p \<le> pa_At (last ps)" if p: "p \<in> set ps" for p
  proof -
    obtain i where "i < length ps" "p = ps ! i" using p by (auto simp: in_set_conv_nth)
    then show ?thesis using sorted_nth_mono[OF so, of 0 i] sorted_nth_mono[OF so, of i "length ps - 1"] assms(2)
      by (simp add: hd_conv_nth last_conv_nth)
  qed
  have w: "set (Within (Some ps) a b) = {p \<in> set ps. pa_At p \<in> {a..b}} \<and> sorted (map pa_At (Within (Some ps) a b))" for a b
    using sorted_filter[OF so] by (auto simp: Within_def)
  show ?thesis
    using stats_fold[OF assms(3), of "no_stats\<lparr>gs_Pauses := int (length ps), gs_First := Some (pa_At (hd ps)),
      gs_Last := Some (pa_At (last ps))\<rparr>"] assms(2,4) bounds w
    by (simp add: Stats_def no_stats_def Let_def)
qed


text \<open>Finding (gclog/gclog.go:104): the comma before the seconds is optional in the expression, but without
  it the greedy group swallows all digits except the last, which is then read as the duration.\<close>
lemma missing_comma_misread:
  "re_legacy ''1T: 1: [GC x, 0.0382 secs]'' = Some (''1T'', ''GC x'', ''0.0382'')"
  "re_legacy ''1T: 1: [GC x 0.0382 secs]'' = Some (''1T'', ''GC x 0.038'', ''2'')"
  by code_simp+

lemma unified_example:
  "re_unified ''[1T][info][gc] GC(1) Pause Full 8M->1M 12.5ms'' = Some (''1T'', ''GC(1) Pause Full 8M->1M '', ''12.5'')"
  by code_simp

definition demo_gc :: string where
  "demo_gc = unlines [''[2T][info][gc] GC(2) Pause Young 7ms'', ''x'', ''[1T][info][gc] GC(1) Pause Full 12ms'']"

definition demo_stamp :: "string \<Rightarrow> int option" where
  "demo_stamp s = go_atoi (butlast s)"

definition demo_float :: "string \<Rightarrow> go_float option" where
  "demo_float s = map_option (\<lambda>n. Finite (of_int n)) (go_atoi s)"

definition demo_pauses :: "pause list" where
  "demo_pauses = [\<lparr>pa_At = 1, pa_Kind = ''Full'', pa_Duration = 12000000, pa_Detail = ''GC(1) Pause Full''\<rparr>,
     \<lparr>pa_At = 2, pa_Kind = ''Young'', pa_Duration = 7000000, pa_Detail = ''GC(2) Pause Young''\<rparr>]"

lemma demo_gc_lines:
  "List.map_filter (gc_line (\<lambda>s. s) demo_stamp demo_float)
     [''[2T][info][gc] GC(2) Pause Young 7ms'', ''x'', ''[1T][info][gc] GC(1) Pause Full 12ms''] = rev demo_pauses"
  unfolding demo_stamp_def demo_float_def demo_pauses_def by code_simp

lemma demo_gc_parsed: "gc_Parse (\<lambda>s. s) demo_stamp demo_float demo_gc = Some demo_pauses"
proof -
  have "\<forall>l \<in> set [''[2T][info][gc] GC(2) Pause Young 7ms'', ''x'', ''[1T][info][gc] GC(1) Pause Full 12ms'']. clean_line gc_limit l"
    by (simp add: clean_line_def newline_def gc_limit_def drop_cr_def)
  from scan_unlines[OF this] show ?thesis
    unfolding gc_Parse_def demo_gc_def demo_gc_lines[symmetric]
    by (simp only: if_False) (simp only: demo_gc_lines, simp add: demo_pauses_def)
qed

theorem gc_overlay_witness:
  "gs_TotalDuration (Stats (gc_Parse (\<lambda>s. s) demo_stamp demo_float demo_gc)) = 19000000
   \<and> gs_Full (Stats (gc_Parse (\<lambda>s. s) demo_stamp demo_float demo_gc)) = 1"
proof -
  have p: "demo_pauses \<noteq> []" "\<forall>p \<in> set demo_pauses. 0 \<le> pa_Duration p" "sum_list (map pa_Duration demo_pauses) < 2 ^ 63"
    "sum_list (map pa_Duration demo_pauses) = 19000000" "length (filter (\<lambda>p. pa_Kind p = ''Full'') demo_pauses) = 1"
    by (simp_all add: demo_pauses_def)
  show ?thesis using gc_overlay[OF demo_gc_parsed p(1,2,3)] unfolding demo_gc_parsed Let_def p(4,5) by simp
qed

end
