(* ===== verification/UserPatterns.thy ===== *)
theory UserPatterns
  imports Findings
begin

text \<open>
  Patterns written by operators (threaddump-analyzer/internal/patterns/patterns.go): the rules, their
  compilation, loading them from a directory, and matching them against a dump. Parameters:
  \<open>re_compile\<close> and \<open>re_match\<close>, the library of regular expressions; \<open>decode\<close>, \<open>json.Unmarshal\<close> into
  a rule; what walking the directory meets.
\<close>

section \<open>Rules\<close>

record 're rule =
  ru_ID :: string
  ru_Kind :: string
  ru_Severity :: string
  ru_Confidence :: int
  ru_Headline :: string
  ru_Detail :: string
  ru_Remediation :: string
  ru_StackIncludesAny :: "string list"
  ru_NameIncludesAny :: "string list"
  ru_States :: "string list"
  ru_MinThreads :: int
  ru_stackRe :: "'re list"
  ru_nameRe :: "'re list"
  ru_stateOK :: "string set"

datatype pattern_error = BadStackRegex string string | BadNameRegex string string
  | BadJson string | MissingID string | WalkFailed string | ReadFailed string

fun compile_all :: "(string \<Rightarrow> 're option) \<Rightarrow> (string \<Rightarrow> pattern_error) \<Rightarrow> string list \<Rightarrow> 're list \<Rightarrow> pattern_error + 're list" where
  "compile_all re_compile err [] acc = Inr acc"
| "compile_all re_compile err (p # ps) acc =
     (case re_compile p of None \<Rightarrow> Inl (err p) | Some re \<Rightarrow> compile_all re_compile err ps (acc @ [re]))"

definition rule_compile :: "(string \<Rightarrow> 're option) \<Rightarrow> 're rule \<Rightarrow> pattern_error + 're rule" where
  "rule_compile re_compile r =
     (case compile_all re_compile (BadStackRegex (ru_ID r)) (ru_StackIncludesAny r) (ru_stackRe r) of
        Inl e \<Rightarrow> Inl e
      | Inr sre \<Rightarrow>
          (case compile_all re_compile (BadNameRegex (ru_ID r)) (ru_NameIncludesAny r) (ru_nameRe r) of
             Inl e \<Rightarrow> Inl e
           | Inr nre \<Rightarrow> Inr (r\<lparr>ru_stackRe := sre, ru_nameRe := nre, ru_stateOK := set (ru_States r),
                               ru_MinThreads := (if ru_MinThreads r \<le> 0 then 1 else ru_MinThreads r),
                               ru_Confidence := (if ru_Confidence r \<le> 0 then 70 else ru_Confidence r)\<rparr>)))"

definition rule_matches :: "('re \<Rightarrow> string \<Rightarrow> bool) \<Rightarrow> 're rule \<Rightarrow> thread \<Rightarrow> bool" where
  "rule_matches re_match r t \<longleftrightarrow>
     (if ru_stateOK r \<noteq> {} \<and> state_name (th_state t) \<notin> ru_stateOK r then False
      else if ru_stackRe r \<noteq> [] \<and> \<not> list_ex (\<lambda>f. list_ex (\<lambda>re. re_match re (frame_Sig f)) (ru_stackRe r)) (th_frames t) then False
      else if ru_nameRe r \<noteq> [] \<and> \<not> list_ex (\<lambda>re. re_match re (th_name t)) (ru_nameRe r) then False
      else True)"

section \<open>Loading\<close>

definition add_rule ::
  "(string \<Rightarrow> 're option) \<Rightarrow> (string \<Rightarrow> 're rule option) \<Rightarrow> string \<Rightarrow> string \<Rightarrow> 're rule list \<Rightarrow> pattern_error + 're rule list" where
  "add_rule re_compile decode source data rules =
     (case decode data of
        None \<Rightarrow> Inl (BadJson source)
      | Some r \<Rightarrow>
          if ru_ID r = [] then Inl (MissingID source)
          else (case rule_compile re_compile r of Inl e \<Rightarrow> Inl e | Inr r' \<Rightarrow> Inr (rules @ [r'])))"

text \<open>What the walk hands to its callback: a path that cannot be visited (because it does not exist, or
  for another reason), a directory, or a file with its content unless that cannot be read.\<close>

datatype walk_item = WalkMissing string | WalkError string | WalkDir string | WalkFile string "string option"

definition load_item ::
  "bool \<Rightarrow> (string \<Rightarrow> 're option) \<Rightarrow> (string \<Rightarrow> 're rule option) \<Rightarrow> walk_item \<Rightarrow> 're rule list \<Rightarrow> pattern_error + 're rule list" where
  "load_item forgiving re_compile decode item rules =
     (case item of
        WalkMissing p \<Rightarrow> if forgiving then Inr rules else Inl (WalkFailed p)
      | WalkError p \<Rightarrow> Inl (WalkFailed p)
      | WalkDir p \<Rightarrow> Inr rules
      | WalkFile p content \<Rightarrow>
          if \<not> has_suffix p ''.json'' then Inr rules
          else (case content of None \<Rightarrow> Inl (ReadFailed p) | Some data \<Rightarrow> add_rule re_compile decode p data rules))"

fun load_items ::
  "bool \<Rightarrow> (string \<Rightarrow> 're option) \<Rightarrow> (string \<Rightarrow> 're rule option) \<Rightarrow> walk_item list \<Rightarrow> 're rule list \<Rightarrow> pattern_error + 're rule list" where
  "load_items forgiving re_compile decode [] rules = Inr rules"
| "load_items forgiving re_compile decode (i # items) rules =
     (case load_item forgiving re_compile decode i rules of
        Inl e \<Rightarrow> Inl e
      | Inr rules' \<Rightarrow> load_items forgiving re_compile decode items rules')"

definition loadEmbedded where
  "loadEmbedded re_compile decode builtin rules = load_items False re_compile decode builtin rules"

definition loadDir where
  "loadDir re_compile decode dir rules = load_items True re_compile decode dir rules"

definition pattern_Load ::
  "(string \<Rightarrow> 're option) \<Rightarrow> (string \<Rightarrow> 're rule option) \<Rightarrow> walk_item list \<Rightarrow> string \<Rightarrow> walk_item list \<Rightarrow> pattern_error + 're rule list" where
  "pattern_Load re_compile decode builtin dir found =
     (case loadEmbedded re_compile decode builtin [] of
        Inl e \<Rightarrow> Inl e
      | Inr rules \<Rightarrow> if dir = [] then Inr rules else loadDir re_compile decode found rules)"

section \<open>Matching a dump\<close>

record match =
  mt_Headline :: string
  mt_Detail :: string
  mt_Remediation :: string
  mt_Severity :: string
  mt_Confidence :: int
  mt_Kind :: string
  mt_ID :: string
  mt_Threads :: "string list"

definition sevRank :: "string \<Rightarrow> int" where
  "sevRank s =
     (if s = ''critical'' then 4 else if s = ''high'' then 3 else if s = ''medium'' then 2 else if s = ''info'' then 1 else 0)"

definition hits :: "('re \<Rightarrow> string \<Rightarrow> bool) \<Rightarrow> 're rule \<Rightarrow> dump \<Rightarrow> string list" where
  "hits re_match r d = map th_name (filter (rule_matches re_match r) (d_threads d))"

definition match_of :: "('re \<Rightarrow> string \<Rightarrow> bool) \<Rightarrow> dump \<Rightarrow> 're rule \<Rightarrow> match" where
  "match_of re_match d r =
     \<lparr>mt_Headline = replace_all ''{N}'' (go_itoa (int (length (hits re_match r d)))) (ru_Headline r),
      mt_Detail = ru_Detail r, mt_Remediation = ru_Remediation r, mt_Severity = ru_Severity r,
      mt_Confidence = ru_Confidence r, mt_Kind = ru_Kind r, mt_ID = ru_ID r, mt_Threads = hits re_match r d\<rparr>"

definition match_less :: "match \<Rightarrow> match \<Rightarrow> bool" where
  "match_less a b \<longleftrightarrow>
     (if mt_Severity a \<noteq> mt_Severity b then sevRank (mt_Severity b) < sevRank (mt_Severity a)
      else if mt_Confidence a \<noteq> mt_Confidence b then mt_Confidence b < mt_Confidence a
      else mt_ID a < mt_ID b)"

text \<open>\<open>sort.Slice\<close> as the insertion sort it is for short lists: an element moves left while it is lt
  than its neighbour.\<close>

fun insert_left :: "('a \<Rightarrow> 'a \<Rightarrow> bool) \<Rightarrow> 'a \<Rightarrow> 'a list \<Rightarrow> 'a list" where
  "insert_left lt x [] = [x]"
| "insert_left lt x (y # ys) = (if lt x y then y # insert_left lt x ys else x # y # ys)"

definition sort_slice :: "('a \<Rightarrow> 'a \<Rightarrow> bool) \<Rightarrow> 'a list \<Rightarrow> 'a list" where
  "sort_slice lt xs = rev (foldl (\<lambda>ys x. insert_left lt x ys) [] xs)"

definition pattern_Apply :: "('re \<Rightarrow> string \<Rightarrow> bool) \<Rightarrow> 're rule list \<Rightarrow> dump \<Rightarrow> match list" where
  "pattern_Apply re_match rules d =
     sort_slice match_less
       (concat (map (\<lambda>r. if int (length (hits re_match r d)) < ru_MinThreads r then [] else [match_of re_match d r]) rules))"

definition pattern_Rules :: "'re rule list \<Rightarrow> 're rule list" where
  "pattern_Rules rules = rules"

section \<open>The matches\<close>

lemma insert_left_mset [simp]: "mset (insert_left lt x ys) = add_mset x (mset ys)"
  by (induction ys) auto

lemma sort_slice_mset: "mset (sort_slice lt xs) = mset xs"
proof -
  have "mset (foldl (\<lambda>ys x. insert_left lt x ys) ys xs) = mset ys + mset xs" for ys
    by (induction xs arbitrary: ys) auto
  then show ?thesis by (simp add: sort_slice_def)
qed

text \<open>Where what is not greater is transitive, the result is in order.\<close>

lemma sort_slice_sorted:
  assumes "\<And>x y z. x \<in> set xs \<Longrightarrow> y \<in> set xs \<Longrightarrow> z \<in> set xs \<Longrightarrow> \<not> lt x y \<Longrightarrow> \<not> lt y z \<Longrightarrow> \<not> lt x z"
    and "\<And>x y. x \<in> set xs \<Longrightarrow> y \<in> set xs \<Longrightarrow> lt x y \<Longrightarrow> \<not> lt y x"
  shows "sorted_wrt (\<lambda>x y. \<not> lt y x) (sort_slice lt xs)"
proof -
  have ins: "sorted_wrt (\<lambda>x y. \<not> lt x y) (insert_left lt x ys)"
    if "x \<in> set xs" "set ys \<subseteq> set xs" "sorted_wrt (\<lambda>x y. \<not> lt x y) ys" for x ys
    using that(2,3)
  proof (induction ys)
    case (Cons y ys)
    have s: "set (insert_left lt x ys) = insert x (set ys)"
      by (metis insert_left_mset set_mset_add_mset_insert set_mset_mset)
    show ?case
    proof (cases "lt x y")
      case True
      then show ?thesis using Cons s assms(2)[of x y] that(1) by auto
    next
      case False
      have "\<not> lt x z" if "z \<in> set ys" for z
        using assms(1)[of x y z] False Cons.prems \<open>x \<in> set xs\<close> that by auto
      then show ?thesis using False Cons.prems by auto
    qed
  qed simp
  have "sorted_wrt (\<lambda>x y. \<not> lt x y) (foldl (\<lambda>ys x. insert_left lt x ys) ys zs)"
    if "set zs \<subseteq> set xs" "set ys \<subseteq> set xs" "sorted_wrt (\<lambda>x y. \<not> lt x y) ys" for zs ys
    using that
  proof (induction zs arbitrary: ys)
    case (Cons z zs)
    have "set (insert_left lt z ys) = insert z (set ys)"
      by (metis insert_left_mset set_mset_add_mset_insert set_mset_mset)
    then show ?case using Cons ins[of z ys] by auto
  qed simp
  from this[of xs "[]"] show ?thesis by (simp add: sort_slice_def sorted_wrt_rev)
qed

definition known_severity :: "string \<Rightarrow> bool" where
  "known_severity s \<longleftrightarrow> s \<in> {''critical'', ''high'', ''medium'', ''info''}"

lemma sevRank_inj: "known_severity a \<Longrightarrow> known_severity b \<Longrightarrow> sevRank a = sevRank b \<Longrightarrow> a = b"
  by (auto simp: known_severity_def sevRank_def)

lemma match_less_key:
  "known_severity (mt_Severity a) \<Longrightarrow> known_severity (mt_Severity b) \<Longrightarrow>
     match_less a b \<longleftrightarrow> (- sevRank (mt_Severity a), - mt_Confidence a, mt_ID a) < (- sevRank (mt_Severity b), - mt_Confidence b, mt_ID b)"
  using sevRank_inj[of "mt_Severity a" "mt_Severity b"]
  by (cases "sevRank (mt_Severity a)" "sevRank (mt_Severity b)" rule: linorder_cases)
    (auto simp: match_less_def less_prod_def)

lemma sort_matches:
  assumes "\<forall>m \<in> set ms. known_severity (mt_Severity m)"
  shows "sorted_wrt (\<lambda>a b. sevRank (mt_Severity b) \<le> sevRank (mt_Severity a)) (sort_slice match_less ms)"
proof -
  let ?k = "\<lambda>m. (- sevRank (mt_Severity m), - mt_Confidence m, mt_ID m)"
  have key: "\<not> match_less a b \<longleftrightarrow> ?k b \<le> ?k a" if "a \<in> set ms" "b \<in> set ms" for a b
    using match_less_key[of a b] assms that not_less[of "?k a" "?k b"] by simp
  have "sorted_wrt (\<lambda>a b. \<not> match_less b a) (sort_slice match_less ms)"
  proof (rule sort_slice_sorted)
    fix x y z assume m: "x \<in> set ms" "y \<in> set ms" "z \<in> set ms" and le: "\<not> match_less x y" "\<not> match_less y z"
    show "\<not> match_less x z" using le unfolding key[OF m(1,2)] key[OF m(2,3)] key[OF m(1,3)] by (rule order.trans[rotated])
  next
    fix x y assume m: "x \<in> set ms" "y \<in> set ms" and lt: "match_less x y"
    then have "\<not> ?k y \<le> ?k x" using key[OF m] by blast
    then show "\<not> match_less y x" unfolding key[OF m(2,1)] using linear[of "?k x" "?k y"] by blast
  qed
  moreover have "set (sort_slice match_less ms) = set ms" by (metis sort_slice_mset set_mset_mset)
  moreover have "sevRank (mt_Severity b) \<le> sevRank (mt_Severity a)" if "?k a \<le> ?k b" for a b
    using that by (auto simp: less_eq_prod_def)
  ultimately show ?thesis using key by (elim sorted_wrt_mono_rel[rotated]) blast
qed

text \<open>Applying the registry to a dump reports exactly the rules that enough threads satisfy, each once:
  the match names, in dump order, the threads whose state is allowed, one of whose frames and
  whose name match one of the rule's expressions (a family without expressions allows all), and
  puts their number into the headline; with known severities the gravest matches come first.\<close>
theorem patterns_exact:
  "mset (pattern_Apply re_match rules d) =
      mset (map (match_of re_match d) (filter (\<lambda>r. ru_MinThreads r \<le> int (length (hits re_match r d))) rules))
   \<and> ((\<forall>r \<in> set rules. known_severity (ru_Severity r)) \<longrightarrow>
      sorted_wrt (\<lambda>a b. sevRank (mt_Severity b) \<le> sevRank (mt_Severity a)) (pattern_Apply re_match rules d))
   \<and> (\<forall>r. mt_Threads (match_of re_match d r) = map th_name (filter (\<lambda>t.
          (ru_stateOK r = {} \<or> state_name (th_state t) \<in> ru_stateOK r)
          \<and> (ru_stackRe r = [] \<or> (\<exists>f \<in> set (th_frames t). \<exists>re \<in> set (ru_stackRe r). re_match re (frame_Sig f)))
          \<and> (ru_nameRe r = [] \<or> (\<exists>re \<in> set (ru_nameRe r). re_match re (th_name t)))) (d_threads d)))"
proof -
  have out: "concat (map (\<lambda>r. if int (length (hits re_match r d)) < ru_MinThreads r then [] else [match_of re_match d r]) rules)
      = map (match_of re_match d) (filter (\<lambda>r. ru_MinThreads r \<le> int (length (hits re_match r d))) rules)"
    by (induction rules) auto
  have sev: "mt_Severity (match_of re_match d r) = ru_Severity r" for r by (simp add: match_of_def)
  have "mt_Threads (match_of re_match d r) = map th_name (filter (\<lambda>t.
          (ru_stateOK r = {} \<or> state_name (th_state t) \<in> ru_stateOK r)
          \<and> (ru_stackRe r = [] \<or> (\<exists>f \<in> set (th_frames t). \<exists>re \<in> set (ru_stackRe r). re_match re (frame_Sig f)))
          \<and> (ru_nameRe r = [] \<or> (\<exists>re \<in> set (ru_nameRe r). re_match re (th_name t)))) (d_threads d))" for r
    unfolding match_of_def hits_def match.select_convs
    by (intro arg_cong[of _ _ "map th_name"] filter_cong refl) (simp add: rule_matches_def list_ex_iff)
  then show ?thesis unfolding pattern_Apply_def out
    by (intro conjI impI allI sort_matches) (simp_all only: sort_slice_mset, simp add: sev)
qed

text \<open>Every loaded rule has an id, fires at one thread at least, and holds its compiled expressions.\<close>

definition valid_rule :: "'re rule \<Rightarrow> bool" where
  "valid_rule r \<longleftrightarrow> ru_ID r \<noteq> [] \<and> 1 \<le> ru_MinThreads r \<and> 0 < ru_Confidence r"

lemma add_rule_valid:
  assumes "add_rule re_compile decode p data rules = Inr rules'"
    "\<forall>r \<in> set rules. valid_rule r"
  shows "\<forall>r \<in> set rules'. valid_rule r"
  using assms by (auto simp: valid_rule_def add_rule_def valid_rule_def rule_compile_def split: option.splits sum.splits if_splits)

lemma load_item_valid:
  assumes "load_item forgiving re_compile decode i rules = Inr rules'"
    "\<forall>r \<in> set rules. valid_rule r"
  shows "\<forall>r \<in> set rules'. valid_rule r"
proof (cases i)
  case (WalkFile p content)
  show ?thesis
  proof (cases "has_suffix p ''.json''")
    case True
    then obtain data where "add_rule re_compile decode p data rules = Inr rules'"
      using assms(1) WalkFile by (cases content) (simp_all add: load_item_def)
    then show ?thesis using assms(2) by (rule add_rule_valid)
  next
    case False
    then have "rules' = rules" using assms(1) WalkFile by (simp add: load_item_def)
    then show ?thesis using assms(2) by simp
  qed
next
  case (WalkMissing p)
  then have "rules' = rules" using assms(1) by (simp add: load_item_def split: if_splits)
  then show ?thesis using assms(2) by simp
next
  case (WalkDir p)
  then have "rules' = rules" using assms(1) by (simp add: load_item_def)
  then show ?thesis using assms(2) by simp
qed (use assms(1) in \<open>simp add: load_item_def\<close>)

lemma load_items_valid:
  "load_items forgiving re_compile decode items rules = Inr rules' \<Longrightarrow>
     \<forall>r \<in> set rules. valid_rule r \<Longrightarrow>
     \<forall>r \<in> set rules'. valid_rule r"
proof (induction items arbitrary: rules)
  case (Cons i items)
  then obtain rs where rs: "load_item forgiving re_compile decode i rules = Inr rs"
    "load_items forgiving re_compile decode items rs = Inr rules'" by (cases "load_item forgiving re_compile decode i rules") simp_all
  have "\<forall>r \<in> set rs. valid_rule r"
    using load_item_valid[OF rs(1) Cons.prems(2)] .
  then show ?case using Cons.IH[OF rs(2)] by blast
qed simp

text \<open>A registry that loads holds only rules that can fire.\<close>

lemma loaded_rules_valid:
  assumes "pattern_Load re_compile decode builtin dir found = Inr rules"
  shows "\<forall>r \<in> set rules. valid_rule r"
proof -
  obtain rs where rs: "load_items False re_compile decode builtin [] = Inr rs"
    using assms by (cases "load_items False re_compile decode builtin []") (simp_all add: pattern_Load_def loadEmbedded_def)
  then have v: "\<forall>r \<in> set rs. valid_rule r" by (rule load_items_valid) simp
  show ?thesis
  proof (cases "dir = []")
    case True
    then show ?thesis using assms rs v by (simp add: pattern_Load_def loadEmbedded_def)
  next
    case False
    then have "load_items True re_compile decode found rs = Inr rules"
      using assms rs by (simp add: pattern_Load_def loadEmbedded_def loadDir_def)
    then show ?thesis using v by (rule load_items_valid)
  qed
qed

definition demo_rule :: "string rule" where
  "demo_rule = \<lparr>ru_ID = ''r'', ru_Kind = ''K'', ru_Severity = ''high'', ru_Confidence = 80, ru_Headline = ''{N} stuck'',
     ru_Detail = [], ru_Remediation = [], ru_StackIncludesAny = [], ru_NameIncludesAny = [''a''], ru_States = [],
     ru_MinThreads = 1, ru_stackRe = [], ru_nameRe = [''a''], ru_stateOK = {}\<rparr>"

theorem patterns_exact_witness:
  "sorted_wrt (\<lambda>a b. sevRank (mt_Severity b) \<le> sevRank (mt_Severity a)) (pattern_Apply (=) [demo_rule] demo_stacks)
   \<and> mset (pattern_Apply (=) [demo_rule] demo_stacks) = {#match_of (=) demo_stacks demo_rule#}"
proof -
  have k: "\<forall>r \<in> set [demo_rule]. known_severity (ru_Severity r)" by (simp add: demo_rule_def known_severity_def)
  have h: "ru_MinThreads demo_rule \<le> int (length (hits (=) demo_rule demo_stacks))"
    by (simp add: hits_def rule_matches_def demo_rule_def demo_stacks_def demo_stack_def new_thread_def empty_dump_def)
  show ?thesis using patterns_exact[of "(=)" "[demo_rule]" demo_stacks] k h by simp
qed

end
