(* ===== verification/SessionStore.thy ===== *)
theory SessionStore
  imports Javacore ThreadAnalyzer
begin

text \<open>
  Sessions of the thread-dump analyzer on disk (threaddump-analyzer/internal/session/persist.go): one
  directory per session with its metadata and the raw text of every dump. The disk is a map from
  directory names to directories; which call of a save fails, and how, is an argument, and so are
  the clock and what reading the metadata yields (the JSON codec).
\<close>

record session =
  ss_ID :: string
  ss_Label :: string
  ss_dumps :: "dump list"

record session_meta =
  sm_ID :: string
  sm_Label :: string
  sm_CreatedAt :: "int option"
  sm_UpdatedAt :: "int option"
  sm_DumpFiles :: "string list"
  sm_GCLogFile :: string
  sm_CPUFile :: string

text \<open>A directory: its metadata, unless missing or malformed, and its other files.\<close>

record session_dir =
  sd_meta :: "session_meta option"
  sd_files :: "string \<rightharpoonup> string"

type_synonym session_disk = "string \<rightharpoonup> session_dir"

definition sanitise_byte :: "char \<Rightarrow> char" where
  "sanitise_byte c =
     (if is_digit c \<or> (97 \<le> (of_char c :: nat) \<and> (of_char c :: nat) \<le> 122) \<or> (65 \<le> (of_char c :: nat) \<and> (of_char c :: nat) \<le> 90)
         \<or> c = CHR ''-'' \<or> c = CHR ''_'' then c else CHR ''_'')"

definition sanitiseID :: "string \<Rightarrow> string" where
  "sanitiseID s = map sanitise_byte s"

text \<open>\<open>fmt.Sprintf("dump-%02d.txt", i)\<close>.\<close>

definition dump_name :: "nat \<Rightarrow> string" where
  "dump_name i = ''dump-'' @ (if i < 10 then ''0'' else []) @ go_itoa (int i) @ ''.txt''"

text \<open>How writing a file may end: complete, refused before the file exists, or cut off.\<close>

datatype write_outcome = Written | NotOpened | CutOff string

record store_env =
  se_mkdir :: bool
  se_write :: "string \<Rightarrow> write_outcome"
  se_meta :: bool
  se_now :: int

datatype store_error = MkdirFailed | WriteFailed string | MetaFailed

definition no_dir :: session_dir where
  "no_dir = \<lparr>sd_meta = None, sd_files = Map.empty\<rparr>"

definition put_file :: "write_outcome \<Rightarrow> string \<Rightarrow> string \<Rightarrow> session_dir \<Rightarrow> session_dir" where
  "put_file w name content d =
     (case w of
        Written \<Rightarrow> d\<lparr>sd_files := (sd_files d)(name \<mapsto> content)\<rparr>
      | NotOpened \<Rightarrow> d
      | CutOff part \<Rightarrow> d\<lparr>sd_files := (sd_files d)(name \<mapsto> part)\<rparr>)"

text \<open>The loop over the dumps; only missing files are written.\<close>

fun save_dumps ::
  "store_env \<Rightarrow> nat \<Rightarrow> dump list \<Rightarrow> string list \<Rightarrow> session_dir \<Rightarrow> store_error option \<times> string list \<times> session_dir" where
  "save_dumps env i [] fs d = (None, fs, d)"
| "save_dumps env i (x # xs) fs d =
     (let name = dump_name i in
      if sd_files d name \<noteq> None then save_dumps env (i + 1) xs (fs @ [name]) d
      else let d' = put_file (se_write env name) name (d_raw x) d in
        if se_write env name \<noteq> Written then (Some (WriteFailed name), fs, d')
        else save_dumps env (i + 1) xs (fs @ [name]) d')"

definition writeMetaAtomic :: "store_env \<Rightarrow> session_meta \<Rightarrow> session_dir \<Rightarrow> store_error option \<times> session_dir" where
  "writeMetaAtomic env m d = (if se_meta env then (None, d\<lparr>sd_meta := Some m\<rparr>) else (Some MetaFailed, d))"

definition created_at :: "session_dir \<Rightarrow> int \<Rightarrow> int option" where
  "created_at d now =
     (case sd_meta d of
        Some m \<Rightarrow> if sm_CreatedAt m \<noteq> None then sm_CreatedAt m else Some now
      | None \<Rightarrow> Some now)"

definition dir_of :: "session_disk \<Rightarrow> string \<Rightarrow> session_dir" where
  "dir_of disk key = (case disk key of None \<Rightarrow> no_dir | Some d \<Rightarrow> d)"

definition session_Save :: "store_env \<Rightarrow> string \<Rightarrow> session \<Rightarrow> session_disk \<Rightarrow> store_error option \<times> session_disk" where
  "session_Save env dataDir s disk =
     (if dataDir = [] then (None, disk)
      else if \<not> se_mkdir env then (Some MkdirFailed, disk)
      else
        let key = sanitiseID (ss_ID s); d0 = dir_of disk key in
        case save_dumps env 0 (ss_dumps s) [] d0 of
          (Some e, _, d1) \<Rightarrow> (Some e, disk(key \<mapsto> d1))
        | (None, fs, d1) \<Rightarrow>
            (case writeMetaAtomic env \<lparr>sm_ID = ss_ID s, sm_Label = ss_Label s, sm_CreatedAt = created_at d0 (se_now env),
                    sm_UpdatedAt = Some (se_now env), sm_DumpFiles = fs, sm_GCLogFile = [], sm_CPUFile = []\<rparr> d1 of
               (err, d2) \<Rightarrow> (err, disk(key \<mapsto> d2))))"

text \<open>The GC log and the CPU sample; either may be empty.\<close>

definition aux_file ::
  "store_env \<Rightarrow> string \<Rightarrow> string \<Rightarrow> session_dir \<Rightarrow> store_error option \<times> session_dir" where
  "aux_file env name content d =
     (if content = [] then (None, d)
      else (if se_write env name = Written then None else Some (WriteFailed name),
            put_file (se_write env name) name content d))"

definition SaveAuxiliary ::
  "store_env \<Rightarrow> string \<Rightarrow> session \<Rightarrow> string \<Rightarrow> string \<Rightarrow> session_disk \<Rightarrow> store_error option \<times> session_disk" where
  "SaveAuxiliary env dataDir s gc cpu disk =
     (if dataDir = [] then (None, disk)
      else if \<not> se_mkdir env then (Some MkdirFailed, disk)
      else
        let key = sanitiseID (ss_ID s); d0 = dir_of disk key;
            m0 = (case sd_meta d0 of Some m \<Rightarrow> m
                  | None \<Rightarrow> \<lparr>sm_ID = ss_ID s, sm_Label = ss_Label s, sm_CreatedAt = None, sm_UpdatedAt = None,
                             sm_DumpFiles = [], sm_GCLogFile = [], sm_CPUFile = []\<rparr>) in
        case aux_file env ''gclog.txt'' gc d0 of
          (Some e, d1) \<Rightarrow> (Some e, disk(key \<mapsto> d1))
        | (None, d1) \<Rightarrow>
            (case aux_file env ''cpu.txt'' cpu d1 of
               (Some e, d2) \<Rightarrow> (Some e, disk(key \<mapsto> d2))
             | (None, d2) \<Rightarrow>
                 let m = m0\<lparr>sm_GCLogFile := (if gc = [] then sm_GCLogFile m0 else ''gclog.txt''),
                            sm_CPUFile := (if cpu = [] then sm_CPUFile m0 else ''cpu.txt''),
                            sm_UpdatedAt := Some (se_now env)\<rparr>
                 in (case writeMetaAtomic env m d2 of (err, d3) \<Rightarrow> (err, disk(key \<mapsto> d3)))))"

section \<open>Loading\<close>

text \<open>\<open>parse\<close> is \<open>ParseAuto\<close>; None is a panic.\<close>

fun load_dumps ::
  "(string \<Rightarrow> (parse_error + dump) option) \<Rightarrow> session_dir \<Rightarrow> string list \<Rightarrow> dump list \<Rightarrow> dump list option" where
  "load_dumps parse d [] acc = Some acc"
| "load_dumps parse d (n # ns) acc =
     (case sd_files d n of
        None \<Rightarrow> load_dumps parse d ns acc
      | Some data \<Rightarrow>
          (case parse data of
             None \<Rightarrow> None
           | Some (Inl e) \<Rightarrow> load_dumps parse d ns acc
           | Some (Inr x) \<Rightarrow> load_dumps parse d ns (acc @ [x])))"

text \<open>\<open>names\<close> are the entries of the directory of sessions that are directories themselves.\<close>

fun LoadAll ::
  "(string \<Rightarrow> (parse_error + dump) option) \<Rightarrow> session_disk \<Rightarrow> string list \<Rightarrow> session list option" where
  "LoadAll parse disk [] = Some []"
| "LoadAll parse disk (key # keys) =
     (case disk key of
        None \<Rightarrow> LoadAll parse disk keys
      | Some d \<Rightarrow>
          (case sd_meta d of
             None \<Rightarrow> LoadAll parse disk keys
           | Some m \<Rightarrow>
               (case load_dumps parse d (sort (sm_DumpFiles m)) [] of
                  None \<Rightarrow> None
                | Some xs \<Rightarrow> map_option (\<lambda>ss. \<lparr>ss_ID = sm_ID m, ss_Label = sm_Label m, ss_dumps = xs\<rparr> # ss)
                               (LoadAll parse disk keys))))"

section \<open>The names of dumps\<close>

lemma dump_names_sorted: "n \<le> 100 \<Longrightarrow> sorted (map dump_name [0..<n])"
proof -
  have "successively (\<le>) (map dump_name [0..<100])" by code_simp
  then have "sorted (map dump_name [0..<100])" 
    by (subst successively_conv_sorted_wrt[symmetric]) (auto intro: transpI)
  then have "sorted (take n (map dump_name [0..<100]))" by (rule sorted_wrt_take)
  then show "n \<le> 100 \<Longrightarrow> ?thesis" by (simp add: take_map)
qed

lemma go_itoa_val: "0 \<le> n \<Longrightarrow> digits_val (go_itoa n) = n"
  by (cases "n = 0") (simp add: go_itoa_def digits_val_def digit_val_def, simp add: go_itoa_def digits_of_val)

lemma dump_name_inj: "dump_name i = dump_name j \<longleftrightarrow> i = j"
proof
  let ?d = "\<lambda>i. (if i < 10 then ''0'' else []) @ go_itoa (int i)"
  assume "dump_name i = dump_name j"
  then have "?d i = ?d j" by (simp add: dump_name_def)
  moreover have "digits_val (?d k) = int k" for k by (simp add: go_itoa_val digits_val_Cons digit_val_def)
  ultimately have "int i = int j" by metis
  then show "i = j" by simp
qed simp

section \<open>What a save keeps\<close>

lemma save_dumps_writes:
  assumes "\<And>f. se_write env f = Written"
  shows "save_dumps env i xs fs d = (None, fs @ map dump_name [i..<i + length xs],
     d\<lparr>sd_files := (\<lambda>f. case sd_files d f of Some c \<Rightarrow> Some c
         | None \<Rightarrow> map_of (zip (map dump_name [i..<i + length xs]) (map d_raw xs)) f)\<rparr>)"
proof (induction xs arbitrary: i fs d)
  case Nil
  have "(\<lambda>f. case sd_files d f of Some c \<Rightarrow> Some c
      | None \<Rightarrow> map_of (zip (map dump_name [i..<i + length []]) (map d_raw [])) f) = sd_files d"
    by (intro ext) (simp split: option.split)
  note same = this
  show ?case unfolding save_dumps.simps same by simp
next
  case (Cons x xs)
  let ?n = "dump_name i"
  have up: "[i..<i + length (x # xs)] = i # [i + 1..<i + 1 + length xs]" by (subst upt_conv_Cons) simp_all
  show ?case
  proof (cases "sd_files d ?n")
    case (Some c)
    have "(\<lambda>f. case sd_files d f of Some c \<Rightarrow> Some c
         | None \<Rightarrow> map_of (zip (map dump_name [i + 1..<i + 1 + length xs]) (map d_raw xs)) f)
       = (\<lambda>f. case sd_files d f of Some c \<Rightarrow> Some c
         | None \<Rightarrow> map_of (zip (map dump_name [i..<i + length (x # xs)]) (map d_raw (x # xs))) f)"
      unfolding up using Some by (intro ext) (auto split: option.split)
    then show ?thesis using Some Cons.IH[of "i + 1"] unfolding up by simp
  next
    case None
    let ?d = "d\<lparr>sd_files := (sd_files d)(?n \<mapsto> d_raw x)\<rparr>"
    have "(\<lambda>f. case sd_files ?d f of Some c \<Rightarrow> Some c
         | None \<Rightarrow> map_of (zip (map dump_name [i + 1..<i + 1 + length xs]) (map d_raw xs)) f)
       = (\<lambda>f. case sd_files d f of Some c \<Rightarrow> Some c
         | None \<Rightarrow> map_of (zip (map dump_name [i..<i + length (x # xs)]) (map d_raw (x # xs))) f)"
      unfolding up using None by (intro ext) (auto split: option.split)
    then show ?thesis using None Cons.IH[of "i + 1" _ ?d] assms unfolding up
      by (simp add: put_file_def Let_def)
  qed
qed

text \<open>A directory that holds a session: its metadata, and exactly its dumps under their names.\<close>

definition holds_dumps :: "session_dir \<Rightarrow> dump list \<Rightarrow> bool" where
  "holds_dumps d xs \<longleftrightarrow> (\<forall>i. sd_files d (dump_name i) = (if i < length xs then Some (d_raw (xs ! i)) else None))"

definition stored :: "session_disk \<Rightarrow> session \<Rightarrow> bool" where
  "stored disk s \<longleftrightarrow> (\<exists>d m. disk (sanitiseID (ss_ID s)) = Some d \<and> sd_meta d = Some m \<and> sm_ID m = ss_ID s
     \<and> sm_Label m = ss_Label s \<and> sm_DumpFiles m = map dump_name [0..<length (ss_dumps s)] \<and> holds_dumps d (ss_dumps s))"

definition faultless :: "store_env \<Rightarrow> bool" where
  "faultless env \<longleftrightarrow> se_mkdir env \<and> (\<forall>f. se_write env f = Written) \<and> se_meta env"

lemma zip_names:
  "map_of (zip (map dump_name [0..<length xs]) (map d_raw xs)) (dump_name i) = (if i < length xs then Some (d_raw (xs ! i)) else None)"
proof -
  have d: "distinct (map dump_name [0..<length xs])" by (simp add: distinct_map inj_on_def dump_name_inj)
  show ?thesis
  proof (cases "i < length xs")
    case True
    then have "zip (map dump_name [0..<length xs]) (map d_raw xs) ! i = (dump_name i, d_raw (xs ! i))" by simp
    then have "(dump_name i, d_raw (xs ! i)) \<in> set (zip (map dump_name [0..<length xs]) (map d_raw xs))"
      using True by (metis nth_mem length_zip length_map length_upt min.idem diff_zero)
    then show ?thesis using True d by (simp add: map_of_eq_Some_iff map_fst_zip)
  next
    case False
    have "fst ` set (zip (map dump_name [0..<length xs]) (map d_raw xs)) = set (map dump_name [0..<length xs])"
      by (simp only: set_map[symmetric] map_fst_zip length_map length_upt diff_zero)
    then show ?thesis using False by (simp add: map_of_eq_None_iff) (auto simp: dump_name_inj)
  qed
qed

text \<open>Saving after some dumps were added.\<close>

lemma Save_stores:
  assumes "faultless env" "dataDir \<noteq> []" "holds_dumps (dir_of disk (sanitiseID (ss_ID s))) xs" "ss_dumps s = xs @ ys"
  shows "\<exists>disk'. session_Save env dataDir s disk = (None, disk') \<and> stored disk' s
    \<and> (\<forall>k. k \<noteq> sanitiseID (ss_ID s) \<longrightarrow> disk' k = disk k)"
proof -
  let ?d0 = "dir_of disk (sanitiseID (ss_ID s))"
  let ?d1 = "?d0\<lparr>sd_files := (\<lambda>f. case sd_files ?d0 f of Some c \<Rightarrow> Some c
         | None \<Rightarrow> map_of (zip (map dump_name [0..<length (ss_dumps s)]) (map d_raw (ss_dumps s))) f)\<rparr>"
  have env: "se_mkdir env" "\<And>f. se_write env f = Written" "se_meta env" using assms(1) by (simp_all add: faultless_def)
  have "sd_files ?d1 (dump_name i) = (if i < length (ss_dumps s) then Some (d_raw (ss_dumps s ! i)) else None)" for i
    using assms(3,4) zip_names[of "ss_dumps s" i] by (simp add: holds_dumps_def nth_append split: option.split)
  then have "holds_dumps (?d1\<lparr>sd_meta := Some m\<rparr>) (ss_dumps s)" for m by (simp add: holds_dumps_def)
  then show ?thesis using assms(2) env
    by (simp add: session_Save_def Let_def save_dumps_writes[OF env(2), of 0, unfolded add_0] writeMetaAtomic_def stored_def)
qed

text \<open>Saving the auxiliary files keeps what is stored.\<close>

lemma aux_name: "dump_name i \<noteq> ''gclog.txt''" "dump_name i \<noteq> ''cpu.txt''"
  by (simp_all add: dump_name_def)

lemma aux_file_keeps:
  "name = ''gclog.txt'' \<or> name = ''cpu.txt'' \<Longrightarrow> aux_file env name c d = (e, d') \<Longrightarrow>
     sd_files d' (dump_name i) = sd_files d (dump_name i) \<and> sd_meta d' = sd_meta d"
  using aux_name by (auto simp: aux_file_def put_file_def split: if_splits write_outcome.splits)

lemma Auxiliary_keeps:
  assumes "stored disk s" "ss_ID s = ss_ID s'" "SaveAuxiliary env dataDir s' gc cpu disk = (e, disk')"
  shows "stored disk' s \<and> (\<forall>k. k \<noteq> sanitiseID (ss_ID s) \<longrightarrow> disk' k = disk k)"
proof -
  let ?key = "sanitiseID (ss_ID s)"
  obtain d m where dm: "disk ?key = Some d" "sd_meta d = Some m" "sm_ID m = ss_ID s" "sm_Label m = ss_Label s"
    "sm_DumpFiles m = map dump_name [0..<length (ss_dumps s)]" "holds_dumps d (ss_dumps s)"
    using assms(1) by (auto simp: stored_def)
  obtain e1 d1 where a1: "aux_file env ''gclog.txt'' gc d = (e1, d1)" by (cases "aux_file env ''gclog.txt'' gc d")
  obtain e2 d2 where a2: "aux_file env ''cpu.txt'' cpu d1 = (e2, d2)" by (cases "aux_file env ''cpu.txt'' cpu d1")
  have k1: "holds_dumps d1 (ss_dumps s)" "sd_meta d1 = Some m" using aux_file_keeps[OF _ a1] dm by (simp_all add: holds_dumps_def)
  have k2: "holds_dumps d2 (ss_dumps s)" "sd_meta d2 = Some m" using aux_file_keeps[OF _ a2] k1 by (simp_all add: holds_dumps_def)
  have k3: "holds_dumps (d2\<lparr>sd_meta := x\<rparr>) (ss_dumps s)" for x using k2(1) by (simp add: holds_dumps_def)
  show ?thesis
  proof (cases "dataDir = [] \<or> \<not> se_mkdir env")
    case True
    then show ?thesis using assms by (auto simp: SaveAuxiliary_def split: if_splits)
  next
    case False
    then show ?thesis using assms(2,3) dm a1 a2 k1 k2 k3
      by (cases e1; cases e2; cases "se_meta env") (auto simp: SaveAuxiliary_def dir_of_def writeMetaAtomic_def Let_def stored_def)
  qed
qed

lemma load_dumps_all:
  assumes "holds_dumps d xs" "\<forall>x \<in> set xs. parse (d_raw x) = Some (Inr x)" "i \<le> length xs"
  shows "load_dumps parse d (map dump_name [i..<length xs]) acc = Some (acc @ drop i xs)"
  using assms(3)
proof (induction "length xs - i" arbitrary: i acc)
  case (Suc n)
  then have i: "i < length xs" by simp
  have "drop i xs = xs ! i # drop (i + 1) xs" using i by (simp add: Cons_nth_drop_Suc)
  then show ?case using Suc.hyps(1)[of "i + 1" "acc @ [xs ! i]"] Suc.hyps(2) i assms(1,2)
    by (simp add: upt_conv_Cons holds_dumps_def)
qed simp

text \<open>Loading yields the stored sessions of up to a hundred dumps.\<close>

lemma LoadAll_stored:
  assumes "\<forall>k \<in> set keys. case disk k of None \<Rightarrow> False | Some d \<Rightarrow> (\<exists>s. sanitiseID (ss_ID s) = k \<and> sess k = s \<and> stored disk s
      \<and> length (ss_dumps s) \<le> 100 \<and> (\<forall>x \<in> set (ss_dumps s). parse (d_raw x) = Some (Inr x)))"
  shows "LoadAll parse disk keys = Some (map sess keys)"
  using assms
proof (induction keys)
  case (Cons k keys)
  obtain d where d: "disk k = Some d" using Cons.prems by (auto split: option.splits)
  then have s: "sanitiseID (ss_ID (sess k)) = k" "stored disk (sess k)" "length (ss_dumps (sess k)) \<le> 100"
    "\<forall>x \<in> set (ss_dumps (sess k)). parse (d_raw x) = Some (Inr x)" using Cons.prems by auto
  obtain m where m: "sd_meta d = Some m" "sm_ID m = ss_ID (sess k)" "sm_Label m = ss_Label (sess k)"
    "sm_DumpFiles m = map dump_name [0..<length (ss_dumps (sess k))]" "holds_dumps d (ss_dumps (sess k))"
    using s(1,2) d by (auto simp: stored_def)
  have "sort (sm_DumpFiles m) = sm_DumpFiles m" using dump_names_sorted[OF s(3)] m(4) by (simp add: sorted_sort_id)
  then have "load_dumps parse d (sort (sm_DumpFiles m)) [] = Some (ss_dumps (sess k))"
    using load_dumps_all[OF m(5) s(4), of 0 "[]"] m(4) by simp
  then show ?case using Cons d m by simp
qed simp


section \<open>Findings\<close>

text \<open>Finding (session/persist.go:67): a dump whose write was cut off is never written again, since its file
  exists; the next save of the session lists it and reports success.\<close>
lemma cut_write_sticks:
  assumes "dataDir \<noteq> []" "faultless env'" "se_mkdir env" "se_write env (dump_name 0) = CutOff part" "ss_dumps s = [x]"
  shows "\<exists>disk1 disk2 d. session_Save env dataDir s Map.empty = (Some (WriteFailed (dump_name 0)), disk1)
    \<and> session_Save env' dataDir s disk1 = (None, disk2)
    \<and> disk2 (sanitiseID (ss_ID s)) = Some d \<and> sd_files d (dump_name 0) = Some part"
  using assms by (simp add: session_Save_def dir_of_def no_dir_def put_file_def writeMetaAtomic_def faultless_def Let_def)

text \<open>Finding (session/persist.go:55): saving a session again drops the names of the GC log and the CPU sample
  from its metadata.\<close>
lemma save_forgets_auxiliary:
  assumes "dataDir \<noteq> []" "faultless env" "ss_dumps s = []" "gc \<noteq> []"
  shows "\<exists>disk1 disk2 d1 d2 m1 m2. SaveAuxiliary env dataDir s gc [] Map.empty = (None, disk1)
    \<and> disk1 (sanitiseID (ss_ID s)) = Some d1 \<and> sd_meta d1 = Some m1 \<and> sm_GCLogFile m1 = ''gclog.txt''
    \<and> session_Save env dataDir s disk1 = (None, disk2)
    \<and> disk2 (sanitiseID (ss_ID s)) = Some d2 \<and> sd_meta d2 = Some m2 \<and> sm_GCLogFile m2 = []"
  using assms by (simp add: session_Save_def SaveAuxiliary_def aux_file_def dir_of_def no_dir_def put_file_def
      writeMetaAtomic_def faultless_def Let_def)

text \<open>Finding (session/persist.go:150): from the 101st dump on the names do not sort in upload order.\<close>
lemma dump_hundred_misplaced: "dump_name 100 < dump_name 99"
  by code_simp

end
