(* ===== verification/AnalyzerServer.thy ===== *)
theory AnalyzerServer
  imports SessionStore UserPatterns Progression GcLog Transition
begin

text \<open>
  The HTTP service of the thread-dump analyzer (threaddump-analyzer/internal/web/web.go): the state it
  keeps per session, its handlers, and a restart over the data directory. Parameters, collected in
  \<open>web_env\<close>: the Unicode tables, the two uses of \<open>time.Parse\<close>, \<open>ParseFloat\<close>, SHA-1, the library of
  regular expressions, and the orders in which Go ranges over its maps. The data directory belongs
  to the state.
\<close>

record 're web_env =
  we_uni :: "string \<Rightarrow> string"
  we_tparse :: "string \<Rightarrow> string \<Rightarrow> int option"
  we_rfc :: "string \<Rightarrow> int option"
  we_float :: "string \<Rightarrow> go_float option"
  we_sha :: "string \<Rightarrow> string"
  we_match :: "'re \<Rightarrow> string \<Rightarrow> bool"
  we_orders :: "dump list \<Rightarrow> orders"
  we_slots :: "dump list \<Rightarrow> string list"

record 're server =
  sv_sessions :: "string \<rightharpoonup> session"
  sv_gcLogs :: "string \<rightharpoonup> pause list"
  sv_cpuSamples :: "string \<rightharpoonup> cpu_sample"
  sv_auxGc :: "string \<rightharpoonup> string"
  sv_auxCpu :: "string \<rightharpoonup> string"
  sv_rules :: "'re rule list"
  sv_dataDir :: string
  sv_disk :: session_disk

record http_request =
  hr_method :: string
  hr_requestedWith :: string
  hr_body :: string
  hr_readError :: "string option"

record web_finding =
  wf_id :: string
  wf_kind :: string
  wf_sev :: string
  wf_conf :: int
  wf_headline :: string
  wf_impact :: int
  wf_evidence :: "string list"

record analysis =
  an_states :: "(thread_state \<times> int) list"
  an_deadlocks :: "deadlock_cycle list option"
  an_contention :: "contention list"
  an_pools :: "pool_stats list"
  an_groups :: "sig_group list"
  an_lifelines :: "lifeline list"
  an_progressions :: "lock_progression list"
  an_predictions :: "predicted list option"
  an_gc :: "gc_stats option"
  an_cpu :: "joined list option"

text \<open>Replies: an HTTP error, a panic (which ends the request and leaves the server running), or the
  content of the JSON document.\<close>

datatype web_reply = Refused int string | Panicked
  | NewSessionReply string string | SessionListReply "(string \<times> string \<times> int) set" | SessionReply string string int
  | UploadReply int int string | GcReply gc_stats | CpuReply int string
  | AnalysisReply analysis | FindingsReply "web_finding list option" | ProgressionsReply "lock_progression list"
  | PredictionsReply "predicted list option" | MatchesReply "match list"
  | DumpsReply "(int \<times> string \<times> int option \<times> int) list"
  | HealthReply int int string | PatternsReply "(string \<times> string \<times> string \<times> int \<times> string \<times> int) list"

section \<open>Start\<close>

text \<open>\<open>keys\<close> are the directories found, None when they cannot be listed; None as a result is a panic
  while a dump is parsed.\<close>

definition empty_server :: "string \<Rightarrow> 're rule list \<Rightarrow> session_disk \<Rightarrow> 're server" where
  "empty_server dataDir rules disk =
     \<lparr>sv_sessions = Map.empty, sv_gcLogs = Map.empty, sv_cpuSamples = Map.empty, sv_auxGc = Map.empty,
      sv_auxCpu = Map.empty, sv_rules = rules, sv_dataDir = dataDir, sv_disk = disk\<rparr>"

definition parse_upload :: "'re web_env \<Rightarrow> string \<Rightarrow> string option \<Rightarrow> (parse_error + dump) option" where
  "parse_upload we text rerr = ParseReader (we_uni we) (we_tparse we) text rerr"

definition NewServer ::
  "'re web_env \<Rightarrow> string \<Rightarrow> 're rule list \<Rightarrow> session_disk \<Rightarrow> string list option \<Rightarrow> 're server option" where
  "NewServer we dataDir rules disk keys =
     (let s = empty_server dataDir rules disk in
      if dataDir = [] then Some s
      else case keys of
          None \<Rightarrow> Some s
        | Some ks \<Rightarrow>
            map_option (\<lambda>loaded. s\<lparr>sv_sessions := foldl (\<lambda>m x. m(ss_ID x \<mapsto> x)) Map.empty loaded\<rparr>)
              (LoadAll (\<lambda>data. ParseAuto (we_uni we) (we_tparse we) data) disk ks))"

section \<open>Handlers without a session\<close>

definition csrfOK :: "http_request \<Rightarrow> bool" where
  "csrfOK r \<longleftrightarrow> hr_requestedWith r = ''threaddump-analyzer''"

definition handleHealth :: "'re server \<Rightarrow> web_reply" where
  "handleHealth s = HealthReply (int (card (dom (sv_sessions s)))) (int (length (sv_rules s))) (sv_dataDir s)"

definition handlePatternList :: "'re server \<Rightarrow> web_reply" where
  "handlePatternList s =
     PatternsReply (map (\<lambda>r. (ru_ID r, ru_Kind r, ru_Severity r, ru_Confidence r, ru_Headline r, ru_MinThreads r))
       (pattern_Rules (sv_rules s)))"

text \<open>The id of \<open>newSessionID\<close> is an argument, and so is the label the body decodes to (empty when it
  does not).\<close>

definition handleNewSession ::
  "store_env \<Rightarrow> string \<Rightarrow> string \<Rightarrow> http_request \<Rightarrow> 're server \<Rightarrow> web_reply \<times> 're server" where
  "handleNewSession env newid decoded r s =
     (if hr_method r \<noteq> ''POST'' then (Refused 405 ''POST required'', s)
      else if \<not> csrfOK r then (Refused 403 ''missing X-Requested-With header'', s)
      else
        let t = trim_space decoded; label = (if t = [] then ''incident-'' @ take 8 newid else t);
            sess = \<lparr>ss_ID = newid, ss_Label = label, ss_dumps = []\<rparr>
        in (NewSessionReply newid label,
            s\<lparr>sv_sessions := (sv_sessions s)(newid \<mapsto> sess), sv_disk := snd (session_Save env (sv_dataDir s) sess (sv_disk s))\<rparr>))"

definition handleListSessions :: "http_request \<Rightarrow> 're server \<Rightarrow> web_reply" where
  "handleListSessions r s =
     (if hr_method r \<noteq> ''GET'' then Refused 405 ''GET required''
      else SessionListReply ((\<lambda>x. (ss_ID x, ss_Label x, int (length (ss_dumps x)))) ` ran (sv_sessions s)))"

section \<open>Uploads\<close>

definition handleUpload ::
  "'re web_env \<Rightarrow> store_env \<Rightarrow> http_request \<Rightarrow> string \<Rightarrow> session \<Rightarrow> 're server \<Rightarrow> web_reply \<times> 're server" where
  "handleUpload we env r sid sess s =
     (if hr_method r \<noteq> ''POST'' then (Refused 405 ''POST required'', s)
      else if \<not> csrfOK r then (Refused 403 ''missing X-Requested-With header'', s)
      else case parse_upload we (hr_body r) (hr_readError r) of
          None \<Rightarrow> (Panicked, s)
        | Some (Inl e) \<Rightarrow> (Refused 400 ''parse'', s)
        | Some (Inr d) \<Rightarrow>
            if d_threads d = [] then (Refused 400 ''no threads parsed'', s)
            else
              let sess' = sess\<lparr>ss_dumps := AddDump (ss_dumps sess) d\<rparr>
              in (UploadReply (int (length (d_threads d))) (int (length (ss_dumps sess'))) (d_title d),
                  s\<lparr>sv_sessions := (sv_sessions s)(sid \<mapsto> sess'),
                    sv_disk := snd (session_Save env (sv_dataDir s) sess' (sv_disk s))\<rparr>))"

definition raw_of :: "(string \<rightharpoonup> string) \<Rightarrow> string \<Rightarrow> string" where
  "raw_of m sid = (case m sid of None \<Rightarrow> [] | Some t \<Rightarrow> t)"

definition save_aux :: "store_env \<Rightarrow> session \<Rightarrow> 're server \<Rightarrow> 're server" where
  "save_aux env sess s =
     s\<lparr>sv_disk := snd (SaveAuxiliary env (sv_dataDir s) sess (raw_of (sv_auxGc s) (ss_ID sess)) (raw_of (sv_auxCpu s) (ss_ID sess))
                        (sv_disk s))\<rparr>"

definition handleUploadGCLog ::
  "'re web_env \<Rightarrow> store_env \<Rightarrow> http_request \<Rightarrow> session \<Rightarrow> 're server \<Rightarrow> web_reply \<times> 're server" where
  "handleUploadGCLog we env r sess s =
     (if hr_method r \<noteq> ''POST'' then (Refused 405 ''POST required'', s)
      else if \<not> csrfOK r then (Refused 403 ''missing X-Requested-With header'', s)
      else if hr_readError r \<noteq> None then (Refused 400 ''read'', s)
      else case gc_Parse (we_uni we) (we_rfc we) (we_float we) (hr_body r) of
          None \<Rightarrow> (Refused 400 ''parse gc log'', s)
        | Some g \<Rightarrow>
            (GcReply (Stats (Some g)),
             save_aux env sess (s\<lparr>sv_gcLogs := (sv_gcLogs s)(ss_ID sess \<mapsto> g), sv_auxGc := (sv_auxGc s)(ss_ID sess \<mapsto> hr_body r)\<rparr>)))"

definition handleUploadCPU ::
  "'re web_env \<Rightarrow> store_env \<Rightarrow> http_request \<Rightarrow> session \<Rightarrow> 're server \<Rightarrow> web_reply \<times> 're server" where
  "handleUploadCPU we env r sess s =
     (if hr_method r \<noteq> ''POST'' then (Refused 405 ''POST required'', s)
      else if \<not> csrfOK r then (Refused 403 ''missing X-Requested-With header'', s)
      else if hr_readError r \<noteq> None then (Refused 400 ''read'', s)
      else case cpu_Parse (we_float we) (Some (hr_body r)) of
          None \<Rightarrow> (Refused 400 ''parse cpu'', s)
        | Some c \<Rightarrow>
            (CpuReply (int (length (cs_Threads c))) (cs_Source c),
             save_aux env sess (s\<lparr>sv_cpuSamples := (sv_cpuSamples s)(ss_ID sess \<mapsto> c), sv_auxCpu := (sv_auxCpu s)(ss_ID sess \<mapsto> hr_body r)\<rparr>)))"

section \<open>Views\<close>

definition handleAnalysis :: "'re web_env \<Rightarrow> session \<Rightarrow> 're server \<Rightarrow> web_reply" where
  "handleAnalysis we sess s =
     (let ds = ss_dumps sess; o1 = we_orders we ds in
      if ds = [] then Refused 409 ''session has no dumps yet''
      else let latest = last ds in
        AnalysisReply
          \<lparr>an_states = States latest, an_deadlocks = Deadlocks (or_wait o1) latest,
           an_contention = TopContention (or_locks o1) latest 10, an_pools = Pools (or_pools o1) latest,
           an_groups = SigGroups (we_sha we) (or_groups o1) latest 6,
           an_lifelines = Lifelines (we_sha we) (or_keys o1) ds 8,
           an_progressions = LockProgressions (we_slots we ds) ds, an_predictions = PredictDeadlocks (or_wait o1) ds,
           an_gc = map_option (\<lambda>g. Stats (Some g)) (sv_gcLogs s (ss_ID sess)),
           an_cpu = map_option (\<lambda>c. JoinByNID (Some c) (map (\<lambda>t. (th_name t, th_nid t)) (d_threads latest)))
             (sv_cpuSamples s (ss_ID sess))\<rparr>)"

definition sev_name :: "severity \<Rightarrow> string" where
  "sev_name v = (case v of Critical \<Rightarrow> ''critical'' | High \<Rightarrow> ''high'' | Medium \<Rightarrow> ''medium'' | Info \<Rightarrow> ''info'')"

definition web_of :: "finding \<Rightarrow> web_finding" where
  "web_of f = \<lparr>wf_id = fi_id f, wf_kind = fi_kind f, wf_sev = sev_name (fi_sev f), wf_conf = fi_conf f,
     wf_headline = fi_headline f, wf_impact = fi_impact f, wf_evidence = fi_evidence f\<rparr>"

definition samplePeek :: "string list \<Rightarrow> nat \<Rightarrow> string" where
  "samplePeek ts n =
     (if length ts \<le> n then str_join '', '' ts
      else str_join '', '' (take n ts) @ '' (+'' @ go_itoa (int (length ts - n)) @ '' more)'')"

definition web_of_match :: "match \<Rightarrow> web_finding" where
  "web_of_match m = \<lparr>wf_id = mt_ID m, wf_kind = mt_Kind m, wf_sev = mt_Severity m, wf_conf = mt_Confidence m,
     wf_headline = mt_Headline m, wf_impact = int (length (mt_Threads m)),
     wf_evidence = [''matched threads (sample): '' @ samplePeek (mt_Threads m) 8]\<rparr>"

definition web_key :: "web_finding \<Rightarrow> int \<times> int \<times> int \<times> string" where
  "web_key f = (- sevRank (wf_sev f), - wf_conf f, - wf_impact f, wf_id f)"

text \<open>The registry is always given; the ranking is the one of the findings, where a severity that is
  not known weighs nothing.\<close>

definition handleFindings :: "'re web_env \<Rightarrow> session \<Rightarrow> 're server \<Rightarrow> web_reply" where
  "handleFindings we sess s =
     (let ds = ss_dumps sess in
      if ds = [] then Refused 409 ''session has no dumps yet''
      else FindingsReply (map_option (\<lambda>fs. sort_key web_key (map web_of fs @ map web_of_match (pattern_Apply (we_match we) (sv_rules s) (last ds))))
             (For (we_sha we) (we_orders we ds) ds)))"

definition handleProgressions :: "'re web_env \<Rightarrow> session \<Rightarrow> web_reply" where
  "handleProgressions we sess = ProgressionsReply (LockProgressions (we_slots we (ss_dumps sess)) (ss_dumps sess))"

definition handlePredictions :: "'re web_env \<Rightarrow> session \<Rightarrow> web_reply" where
  "handlePredictions we sess = PredictionsReply (PredictDeadlocks (or_wait (we_orders we (ss_dumps sess))) (ss_dumps sess))"

definition handleApplyPatterns :: "'re web_env \<Rightarrow> session \<Rightarrow> 're server \<Rightarrow> web_reply" where
  "handleApplyPatterns we sess s =
     (if ss_dumps sess = [] then Refused 409 ''session has no dumps yet''
      else MatchesReply (pattern_Apply (we_match we) (sv_rules s) (last (ss_dumps sess))))"

definition handleDumps :: "session \<Rightarrow> web_reply" where
  "handleDumps sess =
     DumpsReply (map (\<lambda>(i, d). (int i, d_title d, d_time d, int (length (d_threads d)))) (enumerate 0 (ss_dumps sess)))"

section \<open>The router\<close>

definition handleSessionRouter ::
  "'re web_env \<Rightarrow> store_env \<Rightarrow> string \<Rightarrow> http_request \<Rightarrow> 're server \<Rightarrow> web_reply \<times> 're server" where
  "handleSessionRouter we env path r s =
     (let parts = split_n 2 (CHR ''/'') (trim_prefix path ''/api/session/''); sid = hd parts;
          verb = (if 1 < length parts then parts ! 1 else [])
      in if sid = [] then (Refused 400 ''session id required'', s)
         else case sv_sessions s sid of
             None \<Rightarrow> (Refused 404 ''session not found'', s)
           | Some sess \<Rightarrow>
               if verb = ''upload'' then handleUpload we env r sid sess s
               else if verb = ''upload-gclog'' then handleUploadGCLog we env r sess s
               else if verb = ''upload-cpu'' then handleUploadCPU we env r sess s
               else if verb = ''analysis'' then (handleAnalysis we sess s, s)
               else if verb = ''findings'' then (handleFindings we sess s, s)
               else if verb = ''progressions'' then (handleProgressions we sess, s)
               else if verb = ''predictions'' then (handlePredictions we sess, s)
               else if verb = ''patterns'' then (handleApplyPatterns we sess s, s)
               else if verb = ''dumps'' then (handleDumps sess, s)
               else if verb = [] then (SessionReply (ss_ID sess) (ss_Label sess) (int (length (ss_dumps sess))), s)
               else (Refused 404 (''unknown verb: '' @ verb), s))"


section \<open>Raw text parses back\<close>

lemma body_line_raw: "d_raw (ps_dump (body_line st t l)) = d_raw (ps_dump st)"
  by (auto simp: body_line_def close_current_def split: option.split)

lemma parse_line_raw: "parse_line tparse st l = Inr st' \<Longrightarrow> d_raw (ps_dump st') = d_raw (ps_dump st) @ l @ [newline]"
  by (auto simp: parse_line_def Let_def close_current_def body_line_raw newline_def split: if_splits option.splits sum.splits)

lemma parse_lines_raw: "parse_lines tparse st ls = Inr st' \<Longrightarrow> d_raw (ps_dump st') = d_raw (ps_dump st) @ unlines ls"
proof (induction ls arbitrary: st)
  case (Cons l ls)
  then obtain st1 where "parse_line tparse st l = Inr st1" "parse_lines tparse st1 ls = Inr st'" by (auto split: sum.splits)
  then show ?case using Cons.IH[of st1] parse_line_raw by (simp add: unlines_Cons)
qed (simp add: unlines_def)

lemma Parse_raw: "Parse tparse ls err = Inr d \<Longrightarrow> d_raw d = unlines ls \<and> err = None"
  by (auto simp: Parse_def close_current_def empty_dump_def split: sum.splits option.splits dest!: parse_lines_raw)

lemma j9_body_raw: "j9_body uni st l = Some st' \<Longrightarrow> d_raw (j9_dump st') = d_raw (j9_dump st)"
  using j9_body_header[of l uni st] j9_body_keeps[of l uni st st'] unfolding j9_keeps_def by (metis option.inject)

lemma j9_line_raw: "j9_line uni tparse st l = Some st' \<Longrightarrow> d_raw (j9_dump st') = d_raw (j9_dump st) @ l @ [newline]"
  by (auto simp: j9_line_def Let_def split: if_splits dest: j9_body_raw)

lemma j9_lines_raw: "j9_lines uni tparse st ls = Some st' \<Longrightarrow> d_raw (j9_dump st') = d_raw (j9_dump st) @ unlines ls"
proof (induction ls arbitrary: st)
  case (Cons l ls)
  then obtain st1 where "j9_line uni tparse st l = Some st1" "j9_lines uni tparse st1 ls = Some st'"
    by (auto simp: bind_eq_Some_conv)
  then show ?case using Cons.IH[of st1] j9_line_raw by (simp add: unlines_Cons)
qed (simp add: unlines_def)

lemma Javacore_raw: "ParseJavacore uni tparse ls err = Some (Inr d) \<Longrightarrow> d_raw d = unlines ls \<and> err = None"
  using flush_keeps(1)
  by (auto simp: ParseJavacore_def j9_keeps_def empty_dump_def split: option.splits dest!: j9_lines_raw)

text \<open>A text whose lines all end in a line feed, without carriage returns before it.\<close>

definition plain_text :: "string \<Rightarrow> bool" where
  "plain_text t \<longleftrightarrow> unlines (scan_text scan_limit t) = t"

lemma upload_reparses:
  assumes "ParseReader uni tparse t rerr = Some (Inr d)" "plain_text t"
  shows "d_raw d = t \<and> ParseAuto uni tparse t = Some (Inr d)"
proof -
  have "d_raw d = unlines (scan_text scan_limit t) \<and> \<not> scan_fails scan_limit t \<and> rerr = None"
    using assms(1) by (auto simp: ParseReader_def Let_def split: if_splits dest!: Parse_raw Javacore_raw)
  then show ?thesis using assms by (simp add: plain_text_def ParseAuto_def)
qed

section \<open>A restart brings the sessions back\<close>

definition web_inv :: "'re web_env \<Rightarrow> 're server \<Rightarrow> bool" where
  "web_inv we s \<longleftrightarrow> sv_dataDir s \<noteq> []
     \<and> (\<forall>sid x. sv_sessions s sid = Some x \<longrightarrow> ss_ID x = sid \<and> sanitiseID sid = sid \<and> stored (sv_disk s) x
          \<and> (\<forall>d \<in> set (ss_dumps x). ParseAuto (we_uni we) (we_tparse we) (d_raw d) = Some (Inr d)))
     \<and> (\<forall>k. sv_disk s k \<noteq> None \<longrightarrow> sv_sessions s k \<noteq> None)"

text \<open>One request, with a disk that works: a session under a new id of file-name characters, or anything
  the router takes, uploads being plain text.\<close>

inductive web_step :: "'re web_env \<Rightarrow> 're server \<Rightarrow> 're server \<Rightarrow> bool" for we where
  NewSession: "faultless env \<Longrightarrow> sanitiseID newid = newid \<Longrightarrow> sv_sessions s newid = None \<Longrightarrow>
     web_step we s (snd (handleNewSession env newid decoded r s))"
| Routed: "faultless env \<Longrightarrow> plain_text (hr_body r) \<Longrightarrow>
     web_step we s (snd (handleSessionRouter we env path r s))"

lemma stored_cong: "stored disk x \<Longrightarrow> disk' (sanitiseID (ss_ID x)) = disk (sanitiseID (ss_ID x)) \<Longrightarrow> stored disk' x"
  by (simp add: stored_def)

lemma put_session:
  assumes inv: "web_inv we s" and new: "ss_ID x = sid" "sanitiseID sid = sid" "stored disk' x"
    "\<forall>d \<in> set (ss_dumps x). ParseAuto (we_uni we) (we_tparse we) (d_raw d) = Some (Inr d)"
    and rest: "\<forall>k. k \<noteq> sid \<longrightarrow> disk' k = sv_disk s k"
  shows "web_inv we (s\<lparr>sv_sessions := (sv_sessions s)(sid \<mapsto> x), sv_disk := disk'\<rparr>)"
proof -
  have "stored disk' y" if "sv_sessions s k = Some y" "k \<noteq> sid" for k y
    using inv that rest unfolding web_inv_def by (metis stored_cong)
  then show ?thesis using inv new rest by (auto simp: web_inv_def)
qed

lemma new_session_inv:
  assumes "web_inv we s" "faultless env" "sanitiseID newid = newid" "sv_sessions s newid = None"
  shows "web_inv we (snd (handleNewSession env newid decoded r s))"
proof -
  have dir: "dir_of (sv_disk s) newid = no_dir" "sv_dataDir s \<noteq> []" using assms(1,4) by (auto simp: web_inv_def dir_of_def split: option.split)
  have "web_inv we (s\<lparr>sv_sessions := (sv_sessions s)(newid \<mapsto> x), sv_disk := snd (session_Save env (sv_dataDir s) x (sv_disk s))\<rparr>)"
    if x: "x = \<lparr>ss_ID = newid, ss_Label = l, ss_dumps = []\<rparr>" for x l
  proof -
    have "holds_dumps (dir_of (sv_disk s) (sanitiseID (ss_ID x))) []"
      using dir(1) assms(3) by (simp add: x holds_dumps_def no_dir_def)
    from Save_stores[OF assms(2) dir(2) this, of "[]"] show ?thesis
      using put_session[OF assms(1), of x newid] assms(3) by (auto simp: x)
  qed
  then show ?thesis using assms(1) by (simp add: handleNewSession_def Let_def)
qed

lemma upload_inv:
  assumes "web_inv we s" "faultless env" "sv_sessions s sid = Some sess" "plain_text (hr_body r)"
  shows "web_inv we (snd (handleUpload we env r sid sess s))"
proof -
  have sess: "ss_ID sess = sid" "sanitiseID sid = sid" "stored (sv_disk s) sess" "sv_dataDir s \<noteq> []"
    "\<forall>d \<in> set (ss_dumps sess). ParseAuto (we_uni we) (we_tparse we) (d_raw d) = Some (Inr d)"
    using assms(1,3) by (auto simp: web_inv_def)
  have "web_inv we (s\<lparr>sv_sessions := (sv_sessions s)(sid \<mapsto> x), sv_disk := snd (session_Save env (sv_dataDir s) x (sv_disk s))\<rparr>)"
    if x: "x = sess\<lparr>ss_dumps := AddDump (ss_dumps sess) d\<rparr>" and d: "parse_upload we (hr_body r) (hr_readError r) = Some (Inr d)" for x d
  proof -
    have "ParseAuto (we_uni we) (we_tparse we) (d_raw d) = Some (Inr d)"
      using upload_reparses[OF d[unfolded parse_upload_def] assms(4)] by simp
    moreover have "holds_dumps (dir_of (sv_disk s) (sanitiseID (ss_ID x))) (ss_dumps sess)"
      using sess by (auto simp: x stored_def dir_of_def)
    then obtain disk' where "session_Save env (sv_dataDir s) x (sv_disk s) = (None, disk')" "stored disk' x"
      "\<forall>k. k \<noteq> sanitiseID (ss_ID x) \<longrightarrow> disk' k = sv_disk s k"
      using Save_stores[OF assms(2) sess(4), of "sv_disk s" x "ss_dumps sess" "[d]"] by (auto simp: x AddDump_def)
    ultimately show ?thesis using put_session[OF assms(1), of x sid disk'] sess by (auto simp: x AddDump_def)
  qed
  then show ?thesis using assms(1) by (auto simp: handleUpload_def Let_def split: option.split sum.split)
qed

lemma save_aux_inv:
  assumes "web_inv we s" "sv_sessions s sid = Some sess"
  shows "web_inv we (save_aux env sess s)"
proof -
  have sess: "ss_ID sess = sid" "sanitiseID sid = sid" "stored (sv_disk s) sess" using assms by (auto simp: web_inv_def)
  obtain e disk' where d: "SaveAuxiliary env (sv_dataDir s) sess (raw_of (sv_auxGc s) (ss_ID sess)) (raw_of (sv_auxCpu s) (ss_ID sess))
    (sv_disk s) = (e, disk')" by force
  have k: "stored disk' sess" "\<forall>k. k \<noteq> sid \<longrightarrow> disk' k = sv_disk s k" using Auxiliary_keeps[OF sess(3) refl d] sess by auto
  have "sess \<in> ran (sv_sessions s)" "(sv_sessions s)(sid \<mapsto> sess) = sv_sessions s" using assms(2) by (auto intro: ranI)
  then have "web_inv we (s\<lparr>sv_sessions := (sv_sessions s)(sid \<mapsto> sess), sv_disk := disk'\<rparr>)"
    using put_session[OF assms(1) sess(1,2) k(1) _ k(2)] assms by (auto simp: web_inv_def)
  then show ?thesis using \<open>(sv_sessions s)(sid \<mapsto> sess) = sv_sessions s\<close> by (simp add: save_aux_def d)
qed

lemma other_fields_inv [simp]:
  "web_inv we (s\<lparr>sv_gcLogs := a, sv_auxGc := b\<rparr>) = web_inv we s"
  "web_inv we (s\<lparr>sv_cpuSamples := c, sv_auxCpu := b\<rparr>) = web_inv we s"
  by (simp_all add: web_inv_def)

lemma aux_upload_inv:
  assumes "web_inv we s" "sv_sessions s sid = Some sess"
  shows "web_inv we (snd (handleUploadGCLog we env r sess s))" "web_inv we (snd (handleUploadCPU we env r sess s))"
  using assms save_aux_inv[of we "s\<lparr>sv_gcLogs := g, sv_auxGc := b\<rparr>" sid sess env for g b]
    save_aux_inv[of we "s\<lparr>sv_cpuSamples := c, sv_auxCpu := b\<rparr>" sid sess env for c b]
  by (simp_all add: handleUploadGCLog_def handleUploadCPU_def split: option.split)

lemma router_inv:
  assumes "web_inv we s" "faultless env" "plain_text (hr_body r)"
  shows "web_inv we (snd (handleSessionRouter we env path r s))"
  using assms upload_inv[OF assms(1,2) _ assms(3)] aux_upload_inv[OF assms(1)]
  by (simp add: handleSessionRouter_def Let_def split: option.split)

lemma web_step_inv: "web_inv we s \<Longrightarrow> web_step we s s' \<Longrightarrow> web_inv we s'"
  by (erule web_step.cases) (simp_all add: new_session_inv router_inv)

interpretation web: transition "web_step we" "web_inv we" for we
  by unfold_locales (rule web_step_inv)

lemma index_sessions:
  "(\<And>k. k \<in> set keys \<Longrightarrow> ss_ID (f k) = k) \<Longrightarrow>
     foldl (\<lambda>m x. m(ss_ID x \<mapsto> x)) Map.empty (map f keys) = (\<lambda>k. if k \<in> set keys then Some (f k) else None)"
  by (induction keys rule: rev_induct) (auto simp: fun_eq_iff)



definition demo_web :: "string web_env" where
  "demo_web = \<lparr>we_uni = (\<lambda>s. s), we_tparse = (\<lambda>l s. None), we_rfc = (\<lambda>s. None), we_float = (\<lambda>s. None), we_sha = (\<lambda>s. s),
     we_match = (=), we_orders = (\<lambda>ds. \<lparr>or_wait = [], or_pools = [], or_locks = [], or_keys = [], or_groups = []\<rparr>),
     we_slots = (\<lambda>ds. [])\<rparr>"

definition good_disk :: store_env where
  "good_disk = \<lparr>se_mkdir = True, se_write = (\<lambda>f. Written), se_meta = True, se_now = 7\<rparr>"

definition demo_text :: string where
  "demo_text = unlines [[CHR 0x22] @ ''a'' @ [CHR 0x22] @ '' #1'']"

definition demo_post :: "string \<Rightarrow> http_request" where
  "demo_post body = \<lparr>hr_method = ''POST'', hr_requestedWith = ''threaddump-analyzer'', hr_body = body, hr_readError = None\<rparr>"

lemma demo_text_lines:
  "scan_text scan_limit demo_text = [[CHR 0x22] @ ''a'' @ [CHR 0x22] @ '' #1'']" "\<not> scan_fails scan_limit demo_text"
proof -
  have "\<forall>l \<in> set [[CHR 0x22] @ ''a'' @ [CHR 0x22] @ '' #1'']. clean_line scan_limit l"
    by (simp add: clean_line_def newline_def scan_limit_def drop_cr_def)
  note c = scan_unlines[OF this]
  show "scan_text scan_limit demo_text = [[CHR 0x22] @ ''a'' @ [CHR 0x22] @ '' #1'']" "\<not> scan_fails scan_limit demo_text"
    unfolding demo_text_def by (rule c(1), rule c(2))
qed

definition demo_parsed :: dump where
  "demo_parsed = empty_dump\<lparr>d_threads := [(new_thread ''a'')\<lparr>th_id := 1\<rparr>], d_raw := demo_text\<rparr>"

lemma demo_parses: "parse_upload demo_web demo_text None = Some (Inr demo_parsed)"
proof -
  have d: "Detect (take 4096 demo_text) \<noteq> FormatJavacore"
  proof -
    have "take 4096 demo_text = demo_text" by (simp add: demo_text_def unlines_def)
    moreover have "Detect demo_text \<noteq> FormatJavacore" unfolding demo_text_def by code_simp
    ultimately show ?thesis by simp
  qed
  have "Parse (\<lambda>l s. None) [[CHR 0x22] @ ''a'' @ [CHR 0x22] @ '' #1''] None = Inr demo_parsed"
    unfolding demo_parsed_def demo_text_def by code_simp
  then show ?thesis using d demo_text_lines by (simp add: parse_upload_def ParseReader_def Let_def demo_web_def)
qed

definition demo_first :: "string server" where
  "demo_first = snd (handleNewSession good_disk ''a1'' [] (demo_post []) (empty_server ''d'' [] Map.empty))"

definition demo_second :: "string server" where
  "demo_second = snd (handleSessionRouter demo_web good_disk ''/api/session/a1/upload'' (demo_post demo_text) demo_first)"

lemma demo_first_session: "sv_sessions demo_first ''a1'' = Some \<lparr>ss_ID = ''a1'', ss_Label = ''incident-a1'', ss_dumps = []\<rparr>"
  "dom (sv_sessions demo_first) = {''a1''}" "dom (sv_disk demo_first) = {''a1''}" "sv_dataDir demo_first = ''d''"
proof -
  have t: "trim_space [] = []" "sanitiseID ''a1'' = ''a1''" by code_simp+
  show "sv_sessions demo_first ''a1'' = Some \<lparr>ss_ID = ''a1'', ss_Label = ''incident-a1'', ss_dumps = []\<rparr>"
    "dom (sv_sessions demo_first) = {''a1''}" "dom (sv_disk demo_first) = {''a1''}" "sv_dataDir demo_first = ''d''"
    by (simp_all add: demo_first_def handleNewSession_def demo_post_def csrfOK_def empty_server_def t session_Save_def
        good_disk_def writeMetaAtomic_def Let_def)
qed

lemma demo_uploaded:
  "sv_sessions demo_second ''a1'' = Some \<lparr>ss_ID = ''a1'', ss_Label = ''incident-a1'', ss_dumps = [demo_parsed]\<rparr>"
  "ran (sv_sessions demo_second) = {\<lparr>ss_ID = ''a1'', ss_Label = ''incident-a1'', ss_dumps = [demo_parsed]\<rparr>}"
  "dom (sv_disk demo_second) = {''a1''}"
proof -
  have sp: "split_n 2 (CHR ''/'') (trim_prefix ''/api/session/a1/upload'' ''/api/session/'') = [''a1'', ''upload'']"
    "sanitiseID ''a1'' = ''a1''" by code_simp+
  let ?sess = "\<lparr>ss_ID = ''a1'', ss_Label = ''incident-a1'', ss_dumps = []\<rparr>"
  have th: "d_threads demo_parsed \<noteq> []" by (simp add: demo_parsed_def)
  have h: "demo_second = snd (handleUpload demo_web good_disk (demo_post demo_text) ''a1'' ?sess demo_first)"
    unfolding demo_second_def handleSessionRouter_def sp by (simp add: demo_first_session(1) Let_def)
  have s: "demo_second = demo_first\<lparr>sv_sessions := (sv_sessions demo_first)(''a1'' \<mapsto> ?sess\<lparr>ss_dumps := [demo_parsed]\<rparr>),
      sv_disk := snd (session_Save good_disk (sv_dataDir demo_first) (?sess\<lparr>ss_dumps := [demo_parsed]\<rparr>) (sv_disk demo_first))\<rparr>"
    unfolding h handleUpload_def using demo_parses th by (simp add: demo_post_def csrfOK_def AddDump_def Let_def)
  show "sv_sessions demo_second ''a1'' = Some \<lparr>ss_ID = ''a1'', ss_Label = ''incident-a1'', ss_dumps = [demo_parsed]\<rparr>"
    by (simp add: s)
  have "sv_sessions demo_first k = None" if "k \<noteq> ''a1''" for k using demo_first_session(2) that by blast
  then show "ran (sv_sessions demo_second) = {\<lparr>ss_ID = ''a1'', ss_Label = ''incident-a1'', ss_dumps = [demo_parsed]\<rparr>}"
    by (auto simp: s ran_def)
  show "dom (sv_disk demo_second) = {''a1''}"
    using demo_first_session(3,4) sp(2)
    by (simp add: s session_Save_def good_disk_def put_file_def writeMetaAtomic_def dir_of_def no_dir_def Let_def split: option.split)
qed


end
