(* ===== verification/WebGuards.thy ===== *)
theory WebGuards
  imports HostKeys ReportStore
begin

text \<open>
  The guards in front of the handlers of the load tester (sftp-loadtest/internal/web/security.go):
  security headers, the limit on the body, basic authentication, the guard against forged
  requests, and the rate limiter with its token buckets. A guard is a function from the handler it
  wraps to a handler. Parameters, in \<open>net_env\<close>: parsing of addresses and networks (package net).
  Instants are nanoseconds on the monotonic clock, token counts are rounded after every operation.
\<close>

record ('ip, 'net) net_env =
  nv_ip :: "string \<Rightarrow> 'ip option"
  nv_cidr :: "string \<Rightarrow> 'net option"
  nv_contains :: "'net \<Rightarrow> 'ip \<Rightarrow> bool"

record guard_request =
  gr_method :: string
  gr_path :: string
  gr_detail :: string
  gr_remote :: string
  gr_requested_with :: string
  gr_forwarded :: string
  gr_auth :: "(string \<times> string) option"

text \<open>What the guards pass on beside the request: the headers set on the reply and the limit on the
  body. An outcome is an error reply or the call of the innermost handler.\<close>

record guard_ctx =
  gx_headers :: "string \<rightharpoonup> string"
  gx_limit :: "int option"

datatype guard_outcome = GuardError int string "string \<rightharpoonup> string" | Reached guard_request guard_ctx

type_synonym http_handler = "guard_request \<Rightarrow> guard_ctx \<Rightarrow> guard_outcome"

section \<open>Headers, body, credentials, forged requests\<close>

definition SecurityHeaders :: "bool \<Rightarrow> http_handler \<Rightarrow> http_handler" where
  "SecurityHeaders tls next r c =
     (let h = (gx_headers c)(''X-Content-Type-Options'' \<mapsto> ''nosniff'', ''X-Frame-Options'' \<mapsto> ''DENY'',
        ''Referrer-Policy'' \<mapsto> ''no-referrer'',
        ''Content-Security-Policy'' \<mapsto>
          ''default-src 'self'; '' @ ''script-src 'self'; '' @ ''style-src 'self' 'unsafe-inline'; ''
          @ ''img-src 'self' data:; '' @ ''connect-src 'self'; '' @ ''form-action 'self'; ''
          @ ''frame-ancestors 'none'; '' @ ''base-uri 'self'' @ [CHR 0x27]);
        h' = (if tls then h(''Strict-Transport-Security'' \<mapsto> ''max-age=63072000; includeSubDomains'') else h)
      in next r (c\<lparr>gx_headers := h'\<rparr>))"

definition bodySizeLimits :: "string \<rightharpoonup> int" where
  "bodySizeLimits = map_of
     [(''/api/start'', 2 * 2 ^ 20), (''/api/schedule'', 2 * 2 ^ 20), (''/api/probe'', 8 * 2 ^ 10),
      (''/api/stop'', 2 ^ 10), (''/api/schedule/cancel'', 2 ^ 10), (''/api/hostkeys/remove'', 2 ^ 10),
      (''/api/cluster/start'', 4 * 2 ^ 20), (''/api/cluster/stop'', 2 ^ 10),
      (''/api/worker/spawn'', 256 * 2 ^ 10), (''/api/worker/despawn'', 2 ^ 10),
      (''/api/worker/preflight'', 256 * 2 ^ 10), (''/api/worker/probe'', 2 ^ 10)]"

definition BodySizeLimit :: "http_handler \<Rightarrow> http_handler" where
  "BodySizeLimit next r c =
     (if gr_method r = ''POST'' \<or> gr_method r = ''PUT'' \<or> gr_method r = ''PATCH''
      then next r (c\<lparr>gx_limit := Some (case bodySizeLimits (gr_path r) of Some l \<Rightarrow> l | None \<Rightarrow> 2 ^ 20)\<rparr>)
      else next r c)"

definition BasicAuth :: "string \<Rightarrow> string \<Rightarrow> http_handler \<Rightarrow> http_handler" where
  "BasicAuth user pass next r c =
     (if gr_path r = ''/healthz'' \<and> gr_detail r \<noteq> ''1'' then next r c
      else
        let h = (gx_headers c)(''WWW-Authenticate'' \<mapsto> ''Basic realm=\"sftp-loadtest\"'')
        in case gr_auth r of
            None \<Rightarrow> GuardError 401 ''auth required'' h
          | Some (u, p) \<Rightarrow> if u \<noteq> user \<or> p \<noteq> pass then GuardError 401 ''bad credentials'' h else next r c)"

definition CSRFGuard :: "http_handler \<Rightarrow> http_handler" where
  "CSRFGuard next r c =
     (if gr_method r = ''GET'' \<or> gr_method r = ''HEAD'' \<or> gr_method r = ''OPTIONS'' then next r c
      else if gr_requested_with r \<noteq> ''sftp-loadtest''
      then GuardError 403 ''missing X-Requested-With header (CSRF guard)'' (gx_headers c)
      else next r c)"

section \<open>The rate limiter\<close>

text \<open>Capacity and tokens per second of each limited path.\<close>

definition rateLimitedPaths :: "string \<rightharpoonup> rat \<times> rat" where
  "rateLimitedPaths = map_of
     [(''/api/start'', (10, 1)), (''/api/probe'', (10, 1)), (''/api/schedule'', (10, 1)),
      (''/api/schedule/cancel'', (10, 1)), (''/api/stop'', (10, 1)), (''/api/hostkeys/remove'', (10, 1)),
      (''/api/cluster/start'', (5, 1 / 2)), (''/api/cluster/stop'', (10, 1)),
      (''/api/worker/spawn'', (5, 1 / 2)), (''/api/worker/despawn'', (10, 1)),
      (''/api/worker/preflight'', (10, 1)), (''/api/worker/probe'', (120, 60)),
      (''/api/runs'', (60, 30)), (''/api/host'', (60, 30)), (''/api/status'', (60, 30)),
      (''/api/schedules'', (60, 30)), (''/api/hostkeys'', (60, 30)), (''/api/cluster/status'', (60, 30)),
      (''/api/worker/spawned'', (60, 30))]"

text \<open>The trusted proxies are kept when parsing fails.\<close>

fun parse_cidrs :: "('ip, 'net) net_env \<Rightarrow> string list \<Rightarrow> 'net list option" where
  "parse_cidrs env [] = Some []"
| "parse_cidrs env (c # cs) =
     (case nv_cidr env (trim_space c) of
        None \<Rightarrow> None
      | Some n \<Rightarrow> map_option ((#) n) (parse_cidrs env cs))"

definition SetTrustedProxies :: "('ip, 'net) net_env \<Rightarrow> string list \<Rightarrow> 'net list \<Rightarrow> bool \<times> 'net list" where
  "SetTrustedProxies env cidrs trusted =
     (case parse_cidrs env cidrs of None \<Rightarrow> (False, trusted) | Some out \<Rightarrow> (True, out))"

definition remote_host :: "string \<Rightarrow> string" where
  "remote_host addr = (case SplitHostPort addr of Some (h, p) \<Rightarrow> h | None \<Rightarrow> addr)"

definition sourceIPIsTrustedProxy :: "('ip, 'net) net_env \<Rightarrow> 'net list \<Rightarrow> string \<Rightarrow> bool" where
  "sourceIPIsTrustedProxy env trusted addr =
     (trusted \<noteq> [] \<and>
      (case nv_ip env (remote_host addr) of
         None \<Rightarrow> False
       | Some ip \<Rightarrow> list_ex (\<lambda>n. nv_contains env n ip) trusted))"

definition client_ip :: "('ip, 'net) net_env \<Rightarrow> 'net list \<Rightarrow> guard_request \<Rightarrow> string" where
  "client_ip env trusted r =
     (if sourceIPIsTrustedProxy env trusted (gr_remote r) \<and> gr_forwarded r \<noteq> []
      then trim_space (takeWhile (\<lambda>x. x \<noteq> CHR '','') (gr_forwarded r))
      else remote_host (gr_remote r))"

definition limit_key :: "('ip, 'net) net_env \<Rightarrow> 'net list \<Rightarrow> guard_request \<Rightarrow> string" where
  "limit_key env trusted r = client_ip env trusted r @ ''|'' @ gr_path r"

record token_bucket =
  tb_tokens :: rat
  tb_last :: "int option"
  tb_capacity :: rat
  tb_refill :: rat

definition new_bucket :: "rat \<times> rat \<Rightarrow> token_bucket" where
  "new_bucket l = \<lparr>tb_tokens = 0, tb_last = None, tb_capacity = fst l, tb_refill = snd l\<rparr>"

definition refilled :: "int \<Rightarrow> token_bucket \<Rightarrow> rat" where
  "refilled now b =
     (case tb_last b of
        None \<Rightarrow> tb_capacity b
      | Some l \<Rightarrow>
          let t = rnd64 (tb_tokens b + rnd64 (tb_refill b * seconds (now - l)))
          in if tb_capacity b < t then tb_capacity b else t)"

definition bucket_allow :: "int \<Rightarrow> token_bucket \<Rightarrow> bool \<times> token_bucket" where
  "bucket_allow now b =
     (let t = refilled now b in
      if 1 \<le> t then (True, b\<lparr>tb_tokens := rnd64 (t - 1), tb_last := Some now\<rparr>)
      else (False, b\<lparr>tb_tokens := t, tb_last := Some now\<rparr>))"

type_synonym buckets = "string \<rightharpoonup> token_bucket"

definition RateLimit ::
  "('ip, 'net) net_env \<Rightarrow> 'net list \<Rightarrow> http_handler \<Rightarrow> int \<Rightarrow> guard_request \<Rightarrow> guard_ctx \<Rightarrow> buckets
   \<Rightarrow> guard_outcome \<times> buckets" where
  "RateLimit env trusted next now r c bs =
     (case rateLimitedPaths (gr_path r) of
        None \<Rightarrow> (next r c, bs)
      | Some l \<Rightarrow>
          let key = limit_key env trusted r;
              b = (case bs key of None \<Rightarrow> new_bucket l | Some b \<Rightarrow> b);
              (ok, b') = bucket_allow now b
          in (if ok then next r c
              else GuardError 429 ''rate limit exceeded'' ((gx_headers c)(''Retry-After'' \<mapsto> ''1'')),
              bs(key \<mapsto> b')))"

text \<open>The ticker of the limiter, every ten minutes.\<close>

definition idle_limit :: int where
  "idle_limit = 10 * minute"

definition evict_idle :: "int \<Rightarrow> buckets \<Rightarrow> buckets" where
  "evict_idle now bs k =
     (case bs k of
        None \<Rightarrow> None
      | Some b \<Rightarrow> (case tb_last b of
            None \<Rightarrow> None
          | Some l \<Rightarrow> if l < now - idle_limit then None else Some b))"

text \<open>The stack of main.go (line 236): the last guard wrapped is the first one met.\<close>

definition guarded :: "bool \<Rightarrow> (string \<times> string) option \<Rightarrow> http_handler" where
  "guarded tls auth =
     (let stack = BodySizeLimit (SecurityHeaders tls Reached);
          stack = (case auth of None \<Rightarrow> stack | Some (u, p) \<Rightarrow> BasicAuth u p stack)
      in CSRFGuard stack)"

definition plain_ctx :: guard_ctx where
  "plain_ctx = \<lparr>gx_headers = Map.empty, gx_limit = None\<rparr>"

definition serve ::
  "('ip, 'net) net_env \<Rightarrow> 'net list \<Rightarrow> bool \<Rightarrow> (string \<times> string) option \<Rightarrow> int \<Rightarrow> guard_request \<Rightarrow> buckets
   \<Rightarrow> guard_outcome \<times> buckets" where
  "serve env trusted tls auth now r bs = RateLimit env trusted (guarded tls auth) now r plain_ctx bs"

text \<open>A history of the limiter: requests and ticks with their instants.\<close>

datatype limiter_event = Hit guard_request | Tick

fun serve_all ::
  "('ip, 'net) net_env \<Rightarrow> 'net list \<Rightarrow> bool \<Rightarrow> (string \<times> string) option \<Rightarrow> (int \<times> limiter_event) list \<Rightarrow> buckets
   \<Rightarrow> guard_outcome list" where
  "serve_all env trusted tls auth [] bs = []"
| "serve_all env trusted tls auth ((now, Tick) # es) bs = serve_all env trusted tls auth es (evict_idle now bs)"
| "serve_all env trusted tls auth ((now, Hit r) # es) bs =
     (case serve env trusted tls auth now r bs of
        (x, bs') \<Rightarrow> x # serve_all env trusted tls auth es bs')"

section \<open>What reaches the handlers\<close>

definition auth_passes :: "(string \<times> string) option \<Rightarrow> guard_request \<Rightarrow> bool" where
  "auth_passes auth r \<longleftrightarrow> auth = None \<or> (gr_path r = ''/healthz'' \<and> gr_detail r \<noteq> ''1'') \<or> gr_auth r = auth"

definition csrf_passes :: "guard_request \<Rightarrow> bool" where
  "csrf_passes r \<longleftrightarrow>
     gr_method r \<in> {''GET'', ''HEAD'', ''OPTIONS''} \<or> gr_requested_with r = ''sftp-loadtest''"

definition body_limit :: "guard_request \<Rightarrow> int option" where
  "body_limit r =
     (if gr_method r \<in> {''POST'', ''PUT'', ''PATCH''}
      then Some (case bodySizeLimits (gr_path r) of Some l \<Rightarrow> l | None \<Rightarrow> 2 ^ 20) else None)"

lemma guards_inner:
  "BodySizeLimit (SecurityHeaders tls Reached) r c =
     Reached r \<lparr>gx_headers = gx_headers (case SecurityHeaders tls Reached r c of Reached r' c' \<Rightarrow> c' | _ \<Rightarrow> c),
       gx_limit = (if gr_method r \<in> {''POST'', ''PUT'', ''PATCH''} then body_limit r else gx_limit c)\<rparr>"
  by (auto simp: BodySizeLimit_def SecurityHeaders_def Let_def body_limit_def)

lemma guarded_reaches:
  "guarded tls auth r plain_ctx = Reached r' c \<longleftrightarrow>
     r' = r \<and> csrf_passes r \<and> auth_passes auth r \<and> BodySizeLimit (SecurityHeaders tls Reached) r plain_ctx = Reached r c"
  by (auto simp: guarded_def CSRFGuard_def BasicAuth_def csrf_passes_def auth_passes_def Let_def guards_inner
      split: option.splits if_splits prod.splits)

definition limiter_passes ::
  "('ip, 'net) net_env \<Rightarrow> 'net list \<Rightarrow> int \<Rightarrow> guard_request \<Rightarrow> buckets \<Rightarrow> bool" where
  "limiter_passes env trusted now r bs =
     (case rateLimitedPaths (gr_path r) of
        None \<Rightarrow> True
      | Some l \<Rightarrow> fst (bucket_allow now (case bs (limit_key env trusted r) of None \<Rightarrow> new_bucket l | Some b \<Rightarrow> b)))"

lemma serve_outcome:
  "fst (serve env trusted tls auth now r bs) =
     (if limiter_passes env trusted now r bs then guarded tls auth r plain_ctx
      else GuardError 429 ''rate limit exceeded'' [''Retry-After'' \<mapsto> ''1''])"
  by (auto simp: serve_def RateLimit_def limiter_passes_def Let_def plain_ctx_def split: option.splits prod.splits)

lemma serve_reaches:
  "fst (serve env trusted tls auth now r bs) = Reached r' c \<longleftrightarrow>
     limiter_passes env trusted now r bs \<and> guarded tls auth r plain_ctx = Reached r' c"
  by (simp add: serve_outcome)

text \<open>With credentials configured, a request reaches the handlers exactly when its bucket holds a
  token, it only reads or carries the custom header, and it has the credentials or asks for the
  plain health check; the handler then reads at most the limit of its path and the reply carries the
  headers that forbid framing and foreign scripts.\<close>

theorem only_guarded_requests_reach:
  "fst (serve env trusted tls auth now r bs) = Reached r' c \<longleftrightarrow>
     r' = r \<and> limiter_passes env trusted now r bs \<and> csrf_passes r \<and> auth_passes auth r \<and>
     gx_limit c = body_limit r \<and> SecurityHeaders tls Reached r plain_ctx = Reached r (c\<lparr>gx_limit := None\<rparr>)"
proof -
  have "BodySizeLimit (SecurityHeaders tls Reached) r plain_ctx = Reached r c \<longleftrightarrow>
      gx_limit c = body_limit r \<and> SecurityHeaders tls Reached r plain_ctx = Reached r (c\<lparr>gx_limit := None\<rparr>)"
    by (cases c) (auto simp: guards_inner SecurityHeaders_def plain_ctx_def Let_def body_limit_def)
  then show ?thesis unfolding serve_reaches guarded_reaches by blast
qed

section \<open>Rounding\<close>

lemma rnd64_up: "0 \<le> x \<Longrightarrow> rnd64 x \<le> x + x / 2 ^ 53 + 1 / 2 ^ 100"
proof -
  assume x: "0 \<le> x"
  have tiny: "(2::rat) powi (- 1022) \<le> 2 powi (- 101)" by (rule p2_mono) simp
  have t: "(2::rat) powi (- 101) = 1 / 2 ^ 101" by (simp add: power_int_def field_simps)
  show ?thesis
  proof (cases "2 powi (- 1022) \<le> x")
    case True
    from rnd64_rel[OF this] have "rnd64 x \<le> x + x / 2 ^ 53" by linarith
    also have "\<dots> \<le> x + x / 2 ^ 53 + 1 / 2 ^ 100" by simp
    finally show ?thesis .
  next
    case False
    let ?m = "2 powi (- 1022) :: rat"
    from False have "rnd64 x \<le> rnd64 ?m" by (intro rnd64_mono x) simp
    also have "\<dots> \<le> ?m + ?m / 2 ^ 53" using rnd64_rel[of ?m] by linarith
    also have "\<dots> \<le> 2 * ?m" by (simp add: field_simps)
    also have "\<dots> \<le> 1 / 2 ^ 100" using tiny t by (simp add: field_simps)
    also have "\<dots> \<le> x + x / 2 ^ 53 + 1 / 2 ^ 100" using x by simp
    finally show ?thesis .
  qed
qed

lemma rnd_signed_nonneg: "0 \<le> x \<Longrightarrow> rnd_signed x = rnd64 x"
  by (simp add: rnd_signed_def)

lemma seconds_pos: "0 \<le> d \<Longrightarrow>
  seconds d = rnd64 (rnd64 (of_int (d div second)) + rnd64 (of_int (d mod second) / of_int second))"
proof -
  assume d: "0 \<le> d"
  then have q: "go_div d second = d div second" by (simp add: go_div_def second_def)
  then have r: "go_rem d second = d mod second" by (simp add: go_rem_def minus_mult_div_eq_mod)
  have q0: "0 \<le> d div second" using d by (simp add: second_def)
  have r0: "0 \<le> d mod second" by (simp add: second_def)
  have a: "rnd_signed (of_int (d div second)) = rnd64 (of_int (d div second))"
    using q0 by (intro rnd_signed_nonneg) simp
  have b: "rnd_signed (of_int (d mod second) / of_int second) = rnd64 (of_int (d mod second) / of_int second)"
    by (intro rnd_signed_nonneg divide_nonneg_nonneg) (use r0 in \<open>simp_all add: second_def\<close>)
  have "0 \<le> rnd64 (of_int (d div second)) + rnd64 (of_int (d mod second) / of_int second)"
    by (intro add_nonneg_nonneg rnd64_nonneg divide_nonneg_nonneg) (use q0 r0 in \<open>simp_all add: second_def\<close>)
  then show ?thesis
    unfolding seconds_def q r a b by (rule rnd_signed_nonneg)
qed

lemma seconds_nonneg: "0 \<le> d \<Longrightarrow> 0 \<le> seconds d"
  by (simp only: seconds_pos) (intro rnd64_nonneg add_nonneg_nonneg divide_nonneg_nonneg; simp add: second_def)

lemma seconds_split: "(of_int d :: rat) / of_int second = of_int (d div second) + of_int (d mod second) / of_int second"
proof -
  have "(of_int d :: rat) = of_int (second * (d div second) + d mod second)" by simp
  then show ?thesis by (simp only: of_int_add of_int_mult) (simp add: second_def add_divide_distrib)
qed

lemma seconds_upper:
  assumes "0 \<le> d"
  shows "seconds d \<le> of_int d / of_int second * (1 + 1 / 2 ^ 51) + 1 / 2 ^ 97"
proof -
  define q r :: rat where "q = of_int (d div second)" and "r = of_int (d mod second) / of_int second"
  have q0: "0 \<le> q" using assms by (simp add: q_def second_def)
  have r0: "0 \<le> r" by (simp add: r_def second_def)
  have a: "rnd64 q \<le> q + q / 2 ^ 53 + 1 / 2 ^ 100" "rnd64 r \<le> r + r / 2 ^ 53 + 1 / 2 ^ 100"
    by (simp_all only: rnd64_up q0 r0)
  have s: "seconds d = rnd64 (rnd64 q + rnd64 r)"
    unfolding seconds_pos[OF assms] q_def r_def ..
  have "seconds d \<le> rnd64 q + rnd64 r + (rnd64 q + rnd64 r) / 2 ^ 53 + 1 / 2 ^ 100"
    unfolding s by (rule rnd64_up) (intro add_nonneg_nonneg rnd64_nonneg q0 r0)
  then have s1: "seconds d \<le> rnd64 q + rnd64 r + (rnd64 q + rnd64 r) / 2 ^ 53 + 1 / 2 ^ 100" .
  define t B where "t = q + r" and "B = t + t / 2 ^ 53 + 2 / 2 ^ 100"
  have t0: "0 \<le> t" using q0 r0 by (simp add: t_def)
  have B: "rnd64 q + rnd64 r \<le> B" using a unfolding B_def t_def add_divide_distrib by linarith
  then have "(rnd64 q + rnd64 r) / 2 ^ 53 \<le> B / 2 ^ 53" by (rule divide_right_mono) simp
  with s1 B have "seconds d \<le> B + B / 2 ^ 53 + 1 / 2 ^ 100" by linarith
  also have "\<dots> \<le> t * (1 + 1 / 2 ^ 51) + 1 / 2 ^ 97"
    using t0 unfolding B_def by (simp add: add_divide_distrib distrib_left)
  finally have "seconds d \<le> (q + r) * (1 + 1 / 2 ^ 51) + 1 / 2 ^ 97" unfolding t_def .
  then show ?thesis unfolding seconds_split[of d] q_def r_def .
qed


section \<open>The limiter over a history\<close>

text \<open>The buckets the limiter holds at some instant: used before it, with the limits of a path, and
  holding between nothing and their capacity. The path is the end of the key.\<close>

definition sound_bucket :: "int \<Rightarrow> string \<Rightarrow> token_bucket \<Rightarrow> bool" where
  "sound_bucket now k b \<longleftrightarrow>
     (\<exists>ip path. k = ip @ ''|'' @ path \<and> rateLimitedPaths path = Some (tb_capacity b, tb_refill b)) \<and>
     (\<exists>l. tb_last b = Some l \<and> l \<le> now) \<and> 0 \<le> tb_tokens b \<and> tb_tokens b \<le> tb_capacity b"

definition sound_buckets :: "int \<Rightarrow> buckets \<Rightarrow> bool" where
  "sound_buckets now bs \<longleftrightarrow> (\<forall>k b. bs k = Some b \<longrightarrow> sound_bucket now k b)"

lemma sound_bucketsD: "sound_buckets now bs \<Longrightarrow> bs k = Some b \<Longrightarrow> sound_bucket now k b"
  by (simp add: sound_buckets_def)

lemma sound_later: "sound_buckets now bs \<Longrightarrow> now \<le> t \<Longrightarrow> sound_buckets t bs"
  unfolding sound_buckets_def sound_bucket_def by (meson order_trans)

lemma limits_range:
  "rateLimitedPaths path = Some (cap, rate) \<Longrightarrow>
     5 \<le> cap \<and> cap \<le> 120 \<and> 1 / 2 \<le> rate \<and> rate \<le> 60 \<and> cap \<le> rate * 600 \<and> CHR ''|'' \<notin> set path \<and>
     cap = of_int \<lfloor>cap\<rfloor>"
  unfolding rateLimitedPaths_def by (drule map_of_SomeD) auto

lemma bar_suffix: "u @ ''|'' @ p = v @ ''|'' @ q \<Longrightarrow> CHR ''|'' \<notin> set p \<Longrightarrow> CHR ''|'' \<notin> set q \<Longrightarrow> p = q"
proof -
  assume e: "u @ ''|'' @ p = v @ ''|'' @ q" and p: "CHR ''|'' \<notin> set p" and q: "CHR ''|'' \<notin> set q"
  have "takeWhile (\<lambda>x. x \<noteq> CHR ''|'') (rev (u @ ''|'' @ p)) = rev p"
    using p by (simp add: takeWhile_append)
  moreover have "takeWhile (\<lambda>x. x \<noteq> CHR ''|'') (rev (v @ ''|'' @ q)) = rev q"
    using q by (simp add: takeWhile_append)
  ultimately show "p = q" unfolding e by simp
qed

lemma sound_limit:
  assumes "sound_bucket now (ip @ ''|'' @ path) b" "rateLimitedPaths path = Some l"
  shows "tb_capacity b = fst l" "tb_refill b = snd l"
proof -
  obtain ip' path' where k: "ip @ ''|'' @ path = ip' @ ''|'' @ path'"
    and p: "rateLimitedPaths path' = Some (tb_capacity b, tb_refill b)"
    using assms(1) unfolding sound_bucket_def by blast
  have "path = path'"
    using bar_suffix[OF k] limits_range[OF p] limits_range[of path "fst l" "snd l"] assms(2) by simp
  with p assms(2) show "tb_capacity b = fst l" "tb_refill b = snd l" by (auto simp: prod_eq_iff)
qed

definition bucket_at :: "buckets \<Rightarrow> string \<Rightarrow> rat \<times> rat \<Rightarrow> token_bucket" where
  "bucket_at bs key l = (case bs key of None \<Rightarrow> new_bucket l | Some b \<Rightarrow> b)"

lemma bucket_at_limit:
  assumes "sound_buckets now bs" "rateLimitedPaths path = Some l"
  shows "tb_capacity (bucket_at bs (ip @ ''|'' @ path) l) = fst l"
    "tb_refill (bucket_at bs (ip @ ''|'' @ path) l) = snd l"
  using sound_limit[OF sound_bucketsD[OF assms(1)] assms(2)]
  by (auto simp: bucket_at_def new_bucket_def split: option.splits)

lemma serve_buckets:
  "snd (serve env trusted tls auth now r bs) =
     (case rateLimitedPaths (gr_path r) of
        None \<Rightarrow> bs
      | Some l \<Rightarrow> bs(limit_key env trusted r \<mapsto> snd (bucket_allow now (bucket_at bs (limit_key env trusted r) l))))"
  by (simp add: serve_def RateLimit_def Let_def bucket_at_def split: option.splits prod.splits)

lemma refilled_range:
  assumes "sound_bucket now k b" "now \<le> t"
  shows "0 \<le> refilled t b" "refilled t b \<le> tb_capacity b"
proof -
  obtain l where l: "tb_last b = Some l" "l \<le> now" and tok: "0 \<le> tb_tokens b" "tb_tokens b \<le> tb_capacity b"
    and r: "0 \<le> tb_refill b"
    using assms(1) unfolding sound_bucket_def by (auto dest: limits_range)
  have "0 \<le> rnd64 (tb_tokens b + rnd64 (tb_refill b * seconds (t - l)))"
    by (intro rnd64_nonneg add_nonneg_nonneg mult_nonneg_nonneg seconds_nonneg tok r) (use l assms(2) in simp)
  then show "0 \<le> refilled t b" "refilled t b \<le> tb_capacity b"
    using l(1) tok by (auto simp: refilled_def Let_def)
qed

lemma allow_sound:
  assumes cap: "0 \<le> refilled t b" "refilled t b \<le> tb_capacity b"
    and lim: "rateLimitedPaths path = Some (tb_capacity b, tb_refill b)"
  shows "sound_bucket t (ip @ ''|'' @ path) (snd (bucket_allow t b))"
proof -
  let ?c = "\<lfloor>tb_capacity b\<rfloor>"
  have c: "tb_capacity b = of_int ?c" "0 \<le> ?c" "?c \<le> 120" using limits_range[OF lim] by auto
  then have "refilled t b \<le> of_int ?c" using cap(2) by simp
  then have "1 \<le> refilled t b \<Longrightarrow> rnd64 (refilled t b - 1) \<le> of_int ?c"
    by (intro fl.rnd_upper_int) (use c in simp_all)
  moreover have "1 \<le> refilled t b \<Longrightarrow> 0 \<le> rnd64 (refilled t b - 1)"
    by (rule rnd64_nonneg) simp
  ultimately show ?thesis
    using lim cap c(1) by (auto simp: sound_bucket_def bucket_allow_def Let_def)
qed

lemma new_bucket_refilled: "refilled t (new_bucket l) = fst l"
  by (simp add: refilled_def new_bucket_def)

lemma bucket_at_refilled:
  assumes "sound_buckets now bs" "now \<le> t" "rateLimitedPaths path = Some l"
  shows "0 \<le> refilled t (bucket_at bs (ip @ ''|'' @ path) l)"
    "refilled t (bucket_at bs (ip @ ''|'' @ path) l) \<le> fst l"
proof -
  have c: "0 \<le> fst l" using limits_range[of path "fst l" "snd l"] assms(3) by simp
  show "0 \<le> refilled t (bucket_at bs (ip @ ''|'' @ path) l)"
    "refilled t (bucket_at bs (ip @ ''|'' @ path) l) \<le> fst l"
    using bucket_at_limit(1)[OF assms(1,3), of ip] refilled_range[OF sound_bucketsD[OF assms(1)] assms(2)] c
    unfolding bucket_at_def
    by (cases "bs (ip @ ''|'' @ path)"; simp only: option.case new_bucket_refilled order_refl; metis)+
qed

lemma serve_sound:
  assumes "sound_buckets now bs" "now \<le> t"
  shows "sound_buckets t (snd (serve env trusted tls auth t r bs))"
proof (cases "rateLimitedPaths (gr_path r)")
  case None
  then show ?thesis using sound_later[OF assms] by (simp add: serve_buckets)
next
  case (Some l)
  let ?b = "bucket_at bs (limit_key env trusted r) l"
  have lim: "rateLimitedPaths (gr_path r) = Some (tb_capacity ?b, tb_refill ?b)"
    using bucket_at_limit[OF assms(1) Some] Some by (simp add: limit_key_def)
  have cap: "0 \<le> refilled t ?b" "refilled t ?b \<le> tb_capacity ?b"
    using bucket_at_refilled[OF assms Some] bucket_at_limit(1)[OF assms(1) Some] by (simp_all add: limit_key_def)
  have s: "sound_bucket t (limit_key env trusted r) (snd (bucket_allow t ?b))"
    using allow_sound[OF cap lim] by (simp add: limit_key_def)
  show ?thesis using sound_later[OF assms] s Some by (auto simp: serve_buckets sound_buckets_def)
qed

lemma evict_sound: "sound_buckets now bs \<Longrightarrow> now \<le> t \<Longrightarrow> sound_buckets t (evict_idle t bs)"
  using sound_later[of now bs t] by (auto simp: sound_buckets_def evict_idle_def split: option.splits if_splits)

text \<open>An idle bucket is full again by the time it is evicted.\<close>

lemma idle_full:
  assumes "sound_bucket now k b" "tb_last b = Some l" "l + idle_limit \<le> t"
  shows "refilled t b = tb_capacity b"
proof -
  from assms(1) have tok: "0 \<le> tb_tokens b" and cap: "tb_capacity b \<le> tb_refill b * 600"
    and c: "tb_capacity b = of_int \<lfloor>tb_capacity b\<rfloor>" "\<lfloor>tb_capacity b\<rfloor> \<le> 120" "0 \<le> \<lfloor>tb_capacity b\<rfloor>" and r: "0 \<le> tb_refill b"
    unfolding sound_bucket_def using limits_range by fastforce+
  have d: "0 \<le> t - l" using assms(3) by (simp add: idle_limit_def minute_def second_def)
  have q: "(600::int) \<le> (t - l) div second"
    using assms(3) by (simp add: idle_limit_def minute_def second_def)
  then have "(of_int 600 :: rat) \<le> of_int ((t - l) div second)" by (simp only: of_int_le_iff)
  then have "of_int 600 \<le> rnd64 (of_int ((t - l) div second))"
    by (intro fl.rnd_lower_int) simp_all
  moreover have "0 \<le> rnd64 (of_int ((t - l) mod second) / of_int second)"
    by (intro rnd64_nonneg divide_nonneg_nonneg) (simp_all add: second_def)
  ultimately have "of_int 600 \<le> seconds (t - l)"
    unfolding seconds_pos[OF d] by (intro fl.rnd_lower_int) simp_all
  then have "tb_refill b * 600 \<le> tb_refill b * seconds (t - l)" by (intro mult_left_mono r) simp
  then have "of_int \<lfloor>tb_capacity b\<rfloor> \<le> tb_refill b * seconds (t - l)" using cap c(1) by simp
  then have "of_int \<lfloor>tb_capacity b\<rfloor> \<le> rnd64 (tb_refill b * seconds (t - l))"
    by (intro fl.rnd_lower_int) (use c in simp_all)
  then have "of_int \<lfloor>tb_capacity b\<rfloor> \<le> rnd64 (tb_tokens b + rnd64 (tb_refill b * seconds (t - l)))"
    by (intro fl.rnd_lower_int) (use c tok in simp_all)
  then show ?thesis using c(1) assms(2) by (simp add: refilled_def Let_def)
qed


subsection \<open>Eviction is not observable\<close>

definition agree :: "int \<Rightarrow> buckets \<Rightarrow> buckets \<Rightarrow> bool" where
  "agree now bs bs' \<longleftrightarrow>
     (\<forall>k. bs k = bs' k \<or> (bs k = None \<and> (\<exists>b l. bs' k = Some b \<and> tb_last b = Some l \<and> l + idle_limit \<le> now)))"

lemma agree_later: "agree now bs bs' \<Longrightarrow> now \<le> t \<Longrightarrow> agree t bs bs'"
  unfolding agree_def by (meson order_trans)

lemma agree_evict:
  assumes a: "agree now bs bs'" and t: "now \<le> t" and sb: "sound_buckets now bs"
  shows "agree t (evict_idle t bs) bs'"
  unfolding agree_def
proof
  fix k
  from a consider "bs k = bs' k" | b l where "bs k = None" "bs' k = Some b" "tb_last b = Some l" "l + idle_limit \<le> now"
    unfolding agree_def by blast
  then show "evict_idle t bs k = bs' k \<or>
      (evict_idle t bs k = None \<and> (\<exists>b l. bs' k = Some b \<and> tb_last b = Some l \<and> l + idle_limit \<le> t))"
  proof cases
    case 1
    show ?thesis
    proof (cases "bs k")
      case (Some b)
      then obtain l where "tb_last b = Some l"
        using sound_bucketsD[OF sb Some] unfolding sound_bucket_def by blast
      moreover have "bs' k = Some b" using 1 Some by simp
      ultimately show ?thesis using Some by (simp add: evict_idle_def)
    qed (use 1 in \<open>simp add: evict_idle_def\<close>)
  next
    case 2
    with t show ?thesis by (simp add: evict_idle_def)
  qed
qed

lemma agree_allow:
  assumes "agree now bs bs'" "sound_buckets now bs'" "now \<le> t" "rateLimitedPaths path = Some l"
  shows "bucket_allow t (bucket_at bs (ip @ ''|'' @ path) l) = bucket_allow t (bucket_at bs' (ip @ ''|'' @ path) l)"
proof -
  let ?k = "ip @ ''|'' @ path"
  from assms(1) consider "bs ?k = bs' ?k"
    | b u where "bs ?k = None" "bs' ?k = Some b" "tb_last b = Some u" "u + idle_limit \<le> now"
    unfolding agree_def by blast
  then show ?thesis
  proof cases
    case 1
    then show ?thesis by (simp add: bucket_at_def)
  next
    case 2
    have sb: "sound_bucket now ?k b" by (rule sound_bucketsD[OF assms(2) 2(2)])
    have "refilled t b = tb_capacity b" using 2(3,4) assms(3) by (intro idle_full[OF sb]) auto
    with sound_limit[OF sb assms(4)] 2(1,2) show ?thesis
      by (simp add: bucket_at_def bucket_allow_def new_bucket_refilled Let_def) (simp add: new_bucket_def)
  qed
qed

lemma serve_via_bucket:
  "fst (serve env trusted tls auth t r bs) =
     (case rateLimitedPaths (gr_path r) of
        None \<Rightarrow> guarded tls auth r plain_ctx
      | Some l \<Rightarrow>
          if fst (bucket_allow t (bucket_at bs (limit_key env trusted r) l)) then guarded tls auth r plain_ctx
          else GuardError 429 ''rate limit exceeded'' [''Retry-After'' \<mapsto> ''1''])"
  by (simp add: serve_outcome limiter_passes_def bucket_at_def split: option.splits)

lemma agree_serve:
  assumes "agree now bs bs'" "sound_buckets now bs'" "now \<le> t"
  shows "fst (serve env trusted tls auth t r bs) = fst (serve env trusted tls auth t r bs')"
    "agree t (snd (serve env trusted tls auth t r bs)) (snd (serve env trusted tls auth t r bs'))"
proof -
  have a: "bucket_allow t (bucket_at bs (limit_key env trusted r) l) = bucket_allow t (bucket_at bs' (limit_key env trusted r) l)"
    if "rateLimitedPaths (gr_path r) = Some l" for l
    using agree_allow[OF assms that] by (simp add: limit_key_def)
  then show "fst (serve env trusted tls auth t r bs) = fst (serve env trusted tls auth t r bs')"
    by (simp add: serve_via_bucket split: option.splits)
  show "agree t (snd (serve env trusted tls auth t r bs)) (snd (serve env trusted tls auth t r bs'))"
    using agree_later[OF assms(1,3)] a by (auto simp: serve_buckets agree_def split: option.splits)
qed

definition is_hit :: "int \<times> limiter_event \<Rightarrow> bool" where
  "is_hit e = (case snd e of Hit r \<Rightarrow> True | Tick \<Rightarrow> False)"

definition from_now :: "int \<Rightarrow> (int \<times> limiter_event) list \<Rightarrow> bool" where
  "from_now now es \<longleftrightarrow> sorted (now # map fst es)"

lemma from_now_Cons [simp]: "from_now now ((t, e) # es) \<longleftrightarrow> now \<le> t \<and> from_now t es"
  by (auto simp: from_now_def)

lemma serve_all_agree:
  assumes "agree now bs bs'" "sound_buckets now bs" "sound_buckets now bs'" "from_now now es"
  shows "serve_all env trusted tls auth es bs = serve_all env trusted tls auth (filter is_hit es) bs'"
  using assms
proof (induction es arbitrary: now bs bs')
  case Nil
  then show ?case by simp
next
  case (Cons te es)
  obtain t e where te: "te = (t, e)" by fastforce
  with Cons.prems have t: "now \<le> t" and es: "from_now t es" by simp_all
  show ?case
  proof (cases e)
    case Tick
    have "agree t (evict_idle t bs) bs'" by (rule agree_evict[OF Cons.prems(1) t Cons.prems(2)])
    from Cons.IH[OF this evict_sound[OF Cons.prems(2) t] sound_later[OF Cons.prems(3) t] es] te Tick
    show ?thesis by (simp add: is_hit_def)
  next
    case (Hit r)
    note a = agree_serve[OF Cons.prems(1,3) t, of env trusted tls auth r]
    from Cons.IH[OF a(2) serve_sound[OF Cons.prems(2) t] serve_sound[OF Cons.prems(3) t] es] a(1) te Hit
    show ?thesis by (simp add: is_hit_def split: prod.splits) (metis fst_conv snd_conv)
  qed
qed

text \<open>Evicting idle buckets is not observable: with a clock that does not run backwards, every
  history of requests and ticks gets the same replies as the requests alone.\<close>

theorem eviction_invisible:
  assumes "sorted (map fst es)"
  shows "serve_all env trusted tls auth es Map.empty = serve_all env trusted tls auth (filter is_hit es) Map.empty"
proof (cases es)
  case (Cons e es')
  have s: "sound_buckets (fst e) Map.empty" by (simp add: sound_buckets_def)
  have a: "agree (fst e) Map.empty Map.empty" by (simp add: agree_def)
  have f: "from_now (fst e) es" using assms Cons by (simp add: from_now_def)
  show ?thesis by (rule serve_all_agree[OF a s s f])
qed simp

subsection \<open>How many requests pass\<close>

text \<open>The requests with one key that the limiter lets pass in a history, and the buckets after it.\<close>

fun admitted ::
  "('ip, 'net) net_env \<Rightarrow> 'net list \<Rightarrow> string \<Rightarrow> (int \<times> limiter_event) list \<Rightarrow> buckets \<Rightarrow> int" where
  "admitted env trusted key [] bs = 0"
| "admitted env trusted key ((now, Tick) # es) bs = admitted env trusted key es (evict_idle now bs)"
| "admitted env trusted key ((now, Hit r) # es) bs =
     (if rateLimitedPaths (gr_path r) \<noteq> None \<and> limit_key env trusted r = key \<and> limiter_passes env trusted now r bs
      then 1 else 0)
     + admitted env trusted key es (snd (serve env trusted False None now r bs))"

fun buckets_after ::
  "('ip, 'net) net_env \<Rightarrow> 'net list \<Rightarrow> (int \<times> limiter_event) list \<Rightarrow> buckets \<Rightarrow> buckets" where
  "buckets_after env trusted [] bs = bs"
| "buckets_after env trusted ((now, Tick) # es) bs = buckets_after env trusted es (evict_idle now bs)"
| "buckets_after env trusted ((now, Hit r) # es) bs =
     buckets_after env trusted es (snd (serve env trusted False None now r bs))"

text \<open>The tokens a bucket can hold at an instant in exact arithmetic, with a little more than its rate.\<close>

definition flow :: "rat \<Rightarrow> int \<Rightarrow> rat" where
  "flow rate d = rate * (of_int d / of_int second) * (1 + 1 / 2 ^ 50)"

definition level :: "rat \<times> rat \<Rightarrow> int \<Rightarrow> token_bucket option \<Rightarrow> rat" where
  "level l t ob =
     (case ob of
        None \<Rightarrow> fst l
      | Some b \<Rightarrow> (case tb_last b of
            None \<Rightarrow> fst l
          | Some u \<Rightarrow> min (fst l) (tb_tokens b + flow (snd l) (t - u))))"

lemma flow_add: "flow rate (a + b) = flow rate a + flow rate b"
  by (simp add: flow_def add_divide_distrib distrib_left distrib_right)

lemma flow_diff: "flow rate (a - b) = flow rate a - flow rate b"
  using flow_add[of rate "a - b" b] by simp

lemma flow_mono: "0 \<le> rate \<Longrightarrow> a \<le> b \<Longrightarrow> flow rate a \<le> flow rate b"
  unfolding flow_def by (intro mult_right_mono mult_left_mono divide_right_mono) (simp_all add: second_def)

lemma level_le: "level l t ob \<le> fst l"
  by (simp add: level_def split: option.splits)

lemma level_later: "0 \<le> snd l \<Longrightarrow> t \<le> t' \<Longrightarrow> level l t' ob \<le> level l t ob + flow (snd l) (t' - t)"
proof -
  assume r: "0 \<le> snd l" and t: "t \<le> t'"
  have f: "0 \<le> flow (snd l) (t' - t)" using flow_mono[OF r, of 0 "t' - t"] t by (simp add: flow_def)
  then show ?thesis by (auto simp: level_def flow_diff min_def split: option.splits)
qed

lemma refill_flow:
  assumes "0 \<le> rate" "rate \<le> 60" "0 \<le> d"
  shows "rnd64 (rate * seconds d) \<le> flow rate d + 1 / 2 ^ 88"
proof -
  define s D where "s = seconds d" and "D = (of_int d :: rat) / of_int second"
  have D: "0 \<le> D" using assms(3) by (simp add: D_def second_def)
  have s: "0 \<le> s" "s \<le> D * (1 + 1 / 2 ^ 51) + 1 / 2 ^ 97"
    using seconds_nonneg seconds_upper assms(3) by (simp_all add: s_def D_def)
  have rs: "rate * s \<le> rate * (D * (1 + 1 / 2 ^ 51) + 1 / 2 ^ 97)" by (intro mult_left_mono s assms)
  define P where "P = rate * D"
  have P: "0 \<le> P" using assms D by (simp add: P_def)
  have "rate * s \<le> P * (1 + 1 / 2 ^ 51) + rate / 2 ^ 97"
    using rs by (simp only: P_def distrib_left mult.assoc times_divide_eq_right mult_1_right)
  then have B: "rate * s \<le> P * (1 + 1 / 2 ^ 51) + 60 / 2 ^ 97"
    using divide_right_mono[OF assms(2), of "2 ^ 97"] by simp
  have "rnd64 (rate * s) \<le> rate * s + rate * s / 2 ^ 53 + 1 / 2 ^ 100"
    by (rule rnd64_up) (intro mult_nonneg_nonneg assms s)
  also have "\<dots> \<le> (P * (1 + 1 / 2 ^ 51) + 60 / 2 ^ 97) + (P * (1 + 1 / 2 ^ 51) + 60 / 2 ^ 97) / 2 ^ 53 + 1 / 2 ^ 100"
    using B divide_right_mono[OF B, of "2 ^ 53"] by (intro add_mono order_refl) simp_all
  also have "\<dots> \<le> P * (1 + 1 / 2 ^ 50) + 1 / 2 ^ 88"
    using P by (simp add: add_divide_distrib distrib_left)
  finally show ?thesis unfolding P_def s_def D_def flow_def .
qed

lemma refilled_level:
  assumes sb: "sound_bucket now k b" and t: "now \<le> t"
    and l: "tb_capacity b = fst l" "tb_refill b = snd l" "fst l \<le> 120" "0 \<le> snd l" "snd l \<le> 60"
  shows "refilled t b \<le> level l t (Some b) + 1 / 2 ^ 45"
proof -
  obtain u where u: "tb_last b = Some u" "u \<le> now" and tok: "0 \<le> tb_tokens b"
    using sb unfolding sound_bucket_def by blast
  define y where "y = rnd64 (tb_refill b * seconds (t - u))"
  have y: "y \<le> flow (snd l) (t - u) + 1 / 2 ^ 88"
    unfolding y_def l(2) using l u t by (intro refill_flow) auto
  have y0: "0 \<le> y"
    unfolding y_def using l(2,4) u t by (intro rnd64_nonneg mult_nonneg_nonneg seconds_nonneg) auto
  have cap: "refilled t b \<le> fst l" using refilled_range(2)[OF sb t] l(1) by simp
  show ?thesis
  proof (cases "fst l \<le> tb_tokens b + y")
    case True
    then show ?thesis using cap y u(1) by (simp add: level_def min_def)
  next
    case False
    have "refilled t b \<le> rnd64 (tb_tokens b + y)"
      using u(1) by (simp add: refilled_def y_def Let_def)
    also have "\<dots> \<le> (tb_tokens b + y) + (tb_tokens b + y) / 2 ^ 53 + 1 / 2 ^ 100"
      by (rule rnd64_up) (use tok y0 in simp)
    also have "\<dots> \<le> (tb_tokens b + y) + 120 / 2 ^ 53 + 1 / 2 ^ 100"
      using False l(3) by (intro add_mono divide_right_mono order_refl) simp_all
    also have "\<dots> \<le> tb_tokens b + flow (snd l) (t - u) + 1 / 2 ^ 45"
      using y by simp
    finally show ?thesis using cap u(1) by (simp add: level_def min_def)
  qed
qed

lemma allow_level:
  assumes "0 \<le> refilled t b" "refilled t b \<le> fst l" "fst l \<le> 120"
  shows "level l t (Some (snd (bucket_allow t b))) + (if fst (bucket_allow t b) then 1 else 0)
    \<le> refilled t b + 1 / 2 ^ 45"
proof (cases "1 \<le> refilled t b")
  case True
  have "rnd64 (refilled t b - 1) \<le> refilled t b - 1 + (refilled t b - 1) / 2 ^ 53 + 1 / 2 ^ 100"
    by (rule rnd64_up) (use True in simp)
  also have "\<dots> \<le> refilled t b - 1 + 120 / 2 ^ 53 + 1 / 2 ^ 100"
    using assms by (intro add_mono divide_right_mono order_refl) simp_all
  finally have "rnd64 (refilled t b - 1) \<le> refilled t b - 1 + 1 / 2 ^ 45" by simp
  then show ?thesis using True by (simp add: bucket_allow_def Let_def level_def flow_def min_def)
next
  case False
  then show ?thesis by (simp add: bucket_allow_def Let_def level_def flow_def min_def)
qed

lemma level_evict:
  assumes sb: "sound_buckets now bs" and t: "now \<le> t" and l: "rateLimitedPaths path = Some l"
  shows "level l t (evict_idle t bs (ip @ ''|'' @ path)) = level l t (bs (ip @ ''|'' @ path))"
proof (cases "bs (ip @ ''|'' @ path)")
  case None
  then show ?thesis by (simp add: evict_idle_def level_def)
next
  case (Some b)
  note b = sound_bucketsD[OF sb Some]
  note lim = sound_limit[OF b l]
  obtain u where u: "tb_last b = Some u" and tok: "0 \<le> tb_tokens b" using b unfolding sound_bucket_def by blast
  have r: "0 \<le> snd l" "fst l \<le> snd l * 600" using limits_range[of path "fst l" "snd l"] l by simp_all
  have "flow (snd l) idle_limit \<le> flow (snd l) (t - u)" if "u < t - idle_limit"
    using that by (intro flow_mono r) simp
  moreover have "snd l * 600 \<le> flow (snd l) idle_limit"
    using r(1) by (simp add: flow_def idle_limit_def minute_def second_def)
  ultimately have "fst l \<le> tb_tokens b + flow (snd l) (t - u)" if "u < t - idle_limit"
    using r(2) tok that by fastforce
  then show ?thesis using Some u by (auto simp: evict_idle_def level_def min_def)
qed

lemma level_hit:
  fixes ip path :: string
  assumes sb: "sound_buckets now bs" and t: "now \<le> t" and l: "rateLimitedPaths path = Some l"
  defines "b \<equiv> bucket_at bs (ip @ ''|'' @ path) l"
  shows "level l t (Some (snd (bucket_allow t b))) + (if fst (bucket_allow t b) then 1 else 0)
    \<le> level l t (bs (ip @ ''|'' @ path)) + 2 / 2 ^ 45"
proof -
  have lim: "5 \<le> fst l" "fst l \<le> 120" "0 \<le> snd l" "snd l \<le> 60" using limits_range[of path "fst l" "snd l"] l by simp_all
  have ref: "0 \<le> refilled t b" "refilled t b \<le> fst l"
    unfolding b_def by (rule bucket_at_refilled[OF sb t l])+
  have "refilled t b \<le> level l t (bs (ip @ ''|'' @ path)) + 1 / 2 ^ 45"
  proof (cases "bs (ip @ ''|'' @ path)")
    case None
    then show ?thesis by (simp add: b_def bucket_at_def new_bucket_refilled level_def)
  next
    case (Some c)
    note c = sound_bucketsD[OF sb Some]
    show ?thesis
      using refilled_level[OF c t sound_limit[OF c l] lim(2-4)] Some by (simp add: b_def bucket_at_def)
  qed
  with allow_level[OF ref lim(2)] show ?thesis by simp
qed

lemma admitted_level:
  assumes "sound_buckets now bs" "from_now now es" "\<forall>t \<in> fst ` set es. t \<le> T" "now \<le> T"
    and l: "rateLimitedPaths path = Some l"
  shows "of_int (admitted env trusted (ip @ ''|'' @ path) es bs)
    \<le> level l now (bs (ip @ ''|'' @ path)) + flow (snd l) (T - now) + of_nat (length es) * (2 / 2 ^ 45)"
  using assms(1-4)
proof (induction es arbitrary: now bs)
  case Nil
  have r: "0 \<le> snd l" "0 \<le> fst l" using limits_range[of path "fst l" "snd l"] l by simp_all
  have "0 \<le> level l now (bs (ip @ ''|'' @ path))"
  proof (cases "bs (ip @ ''|'' @ path)")
    case (Some b)
    obtain u where "tb_last b = Some u" "u \<le> now" "0 \<le> tb_tokens b"
      using sound_bucketsD[OF Nil.prems(1) Some] unfolding sound_bucket_def by blast
    then show ?thesis using r Some flow_mono[OF r(1), of 0 "now - u"] by (simp add: level_def flow_def)
  qed (use r in \<open>simp add: level_def\<close>)
  then show ?case using Nil flow_mono[OF r(1), of 0 "T - now"] by (simp add: flow_def)
next
  case (Cons te es)
  let ?k = "ip @ ''|'' @ path"
  obtain t e where te: "te = (t, e)" by fastforce
  with Cons.prems have t: "now \<le> t" and es: "from_now t es" and T: "t \<le> T" "\<forall>t \<in> fst ` set es. t \<le> T" by simp_all
  have r: "0 \<le> snd l" using limits_range[of path "fst l" "snd l"] l by simp
  have later: "level l t (bs ?k) + flow (snd l) (T - t) \<le> level l now (bs ?k) + flow (snd l) (T - now)"
    using level_later[OF r t, of "bs ?k"] by (simp add: flow_diff)
  have n: "of_nat (length (te # es)) * (2 / 2 ^ 45) = of_nat (length es) * (2 / 2 ^ 45) + (2 / 2 ^ 45 :: rat)"
    by (simp only: length_Cons of_nat_Suc distrib_right)
  show ?case
  proof (cases e)
    case Tick
    have "of_int (admitted env trusted ?k es (evict_idle t bs))
        \<le> level l t (bs ?k) + flow (snd l) (T - t) + of_nat (length es) * (2 / 2 ^ 45)"
      using Cons.IH[OF evict_sound[OF Cons.prems(1) t] es T(2,1)] level_evict[OF Cons.prems(1) t l, of ip] by simp
    with later show ?thesis unfolding n using te Tick by simp
  next
    case (Hit r)
    let ?bs = "snd (serve env trusted False None t r bs)"
    have ih: "of_int (admitted env trusted ?k es ?bs) \<le> level l t (?bs ?k) + flow (snd l) (T - t) + of_nat (length es) * (2 / 2 ^ 45)"
      by (rule Cons.IH[OF serve_sound[OF Cons.prems(1) t] es T(2,1)])
    define a where "a = (if rateLimitedPaths (gr_path r) \<noteq> None \<and> limit_key env trusted r = ?k
        \<and> limiter_passes env trusted t r bs then 1 else 0 :: int)"
    have "level l t (?bs ?k) + of_int a \<le> level l t (bs ?k) + 2 / 2 ^ 45"
    proof (cases "rateLimitedPaths (gr_path r) \<noteq> None \<and> limit_key env trusted r = ?k")
      case True
      then obtain l' where l': "rateLimitedPaths (gr_path r) = Some l'" by blast
      have "gr_path r = path"
        using True bar_suffix[of "client_ip env trusted r" "gr_path r" ip path]
          limits_range[of path "fst l" "snd l"] limits_range[of "gr_path r" "fst l'" "snd l'"] l l'
        by (simp add: limit_key_def)
      with l True have p: "rateLimitedPaths (gr_path r) = Some l" "limit_key env trusted r = ?k" by simp_all
      have lp: "limiter_passes env trusted t r bs = fst (bucket_allow t (bucket_at bs ?k l))"
        by (simp add: limiter_passes_def p bucket_at_def)
      show ?thesis
        using level_hit[OF Cons.prems(1) t l, of ip] by (simp add: serve_buckets a_def p lp split: if_splits)
    next
      case False
      then show ?thesis by (auto simp: serve_buckets a_def split: option.splits)
    qed
    with ih later have "of_int (a + admitted env trusted ?k es ?bs)
        \<le> level l now (bs ?k) + flow (snd l) (T - now) + of_nat (length (te # es)) * (2 / 2 ^ 45)"
      unfolding n of_int_add by linarith
    then show ?thesis using te Hit by (simp add: a_def)
  qed
qed

lemma buckets_after_sound:
  assumes "sound_buckets now bs" "from_now now (es @ es')"
  shows "\<exists>t. now \<le> t \<and> sound_buckets t (buckets_after env trusted es bs) \<and> from_now t es'"
  using assms
proof (induction es arbitrary: now bs)
  case (Cons te es)
  obtain t e where te: "te = (t, e)" by fastforce
  with Cons.prems have t: "now \<le> t" and es: "from_now t (es @ es')" by simp_all
  show ?case
  proof (cases e)
    case Tick
    with Cons.IH[OF evict_sound[OF Cons.prems(1) t] es] te t show ?thesis
      by (simp add: is_hit_def) (meson order_trans)
  next
    case (Hit r)
    let ?bs = "snd (serve env trusted False None t r bs)"
    have "\<exists>u. t \<le> u \<and> sound_buckets u (buckets_after env trusted es ?bs) \<and> from_now u es'"
      by (rule Cons.IH[OF serve_sound[OF Cons.prems(1) t] es])
    with te t Hit show ?thesis by simp (meson order_trans)
  qed
qed auto

text \<open>C33: In every window of any history the limiter lets pass, for one client and path, no more requests than
  the capacity of the path, its rate over the time of the window, and one.\<close>

theorem rate_bounded:
  assumes "sorted (map fst (es @ es'))" "rateLimitedPaths path = Some (cap, rate)"
    and "\<forall>t \<in> fst ` set es'. t0 \<le> t \<and> t \<le> t0 + E" "0 \<le> E" "E \<le> 2 ^ 40 * second" "length es' \<le> 2 ^ 30"
  shows "of_int (admitted env trusted (ip @ ''|'' @ path) es' (buckets_after env trusted es Map.empty))
    \<le> cap + rate * of_int E / of_int second + 1"
proof -
  define u where "u = (if es @ es' = [] then t0 else fst (hd (es @ es')))"
  have s0: "sound_buckets u Map.empty" by (simp add: sound_buckets_def)
  have f0: "from_now u (es @ es')" unfolding u_def from_now_def using assms(1) by (cases "es @ es'") auto
  obtain t where t: "sound_buckets t (buckets_after env trusted es Map.empty)" "from_now t es'"
    using buckets_after_sound[OF s0 f0] by blast
  let ?k = "ip @ ''|'' @ path" and ?bs = "buckets_after env trusted es Map.empty"
  have lim: "0 \<le> rate" "rate \<le> 60" "0 \<le> cap" using limits_range[OF assms(2)] by simp_all
  have n: "of_nat (length es') * (2 / 2 ^ 45) \<le> (1 / 2 ^ 14 :: rat)"
  proof -
    have "(of_nat (length es') :: rat) \<le> of_nat (2 ^ 30)" using assms(6) by (simp only: of_nat_le_iff)
    then show ?thesis by simp
  qed
  define D where "D = rate * (of_int E / of_int second)"
  have "(of_int E :: rat) \<le> of_int (2 ^ 40 * second)" using assms(5) by (simp only: of_int_le_iff)
  then have "(of_int E :: rat) / of_int second \<le> 2 ^ 40" by (simp add: second_def)
  then have "D \<le> 60 * 2 ^ 40"
    unfolding D_def using lim assms(4) by (intro mult_mono) (simp_all add: second_def)
  then have f: "flow rate E \<le> D + 1 / 2"
    unfolding flow_def D_def[symmetric] by (simp add: distrib_left)
  show ?thesis
  proof (cases es')
    case Nil
    then show ?thesis using lim assms(4) by (simp add: second_def)
  next
    case (Cons e es'')
    define t1 where "t1 = fst e"
    have tt: "t \<le> t1" "t0 \<le> t1" "t1 \<le> t0 + E" "from_now t1 es'"
      using t(2) assms(3) Cons by (auto simp: t1_def from_now_def)
    have "of_int (admitted env trusted ?k es' ?bs)
        \<le> level (cap, rate) t1 (?bs ?k) + flow (snd (cap, rate)) (t0 + E - t1) + of_nat (length es') * (2 / 2 ^ 45)"
      by (rule admitted_level[OF sound_later[OF t(1) tt(1)] tt(4) _ tt(3) assms(2)]) (use assms(3) in auto)
    also have "\<dots> \<le> cap + flow rate E + 1 / 2 ^ 14"
      using level_le[of "(cap, rate)" t1 "?bs ?k"] flow_mono[OF lim(1), of "t0 + E - t1" E] tt(2) n by simp
    also have "\<dots> \<le> cap + rate * of_int E / of_int second + 1"
      using f by (simp add: D_def)
    finally show ?thesis .
  qed
qed

text \<open>Behind a trusted proxy the bucket is chosen by the leftmost entry of X-Forwarded-For, which the
  client writes itself: a request with an entry not seen before always passes.\<close>

theorem forwarded_entry_evades:
  assumes "sourceIPIsTrustedProxy env trusted (gr_remote r)" "gr_forwarded r = entry @ '','' @ rest" "CHR '','' \<notin> set entry"
    and "bs (trim_space entry @ ''|'' @ gr_path r) = None"
  shows "limiter_passes env trusted now r bs"
proof -
  have k: "limit_key env trusted r = trim_space entry @ ''|'' @ gr_path r"
    using assms(1-3) by (simp add: limit_key_def client_ip_def takeWhile_byte)
  show ?thesis
  proof (cases "rateLimitedPaths (gr_path r)")
    case (Some l)
    have "1 \<le> refilled now (new_bucket l)"
      using limits_range[of "gr_path r" "fst l" "snd l"] Some by (simp add: new_bucket_refilled)
    then show ?thesis using Some assms(4) by (simp add: limiter_passes_def k bucket_allow_def)
  qed (simp add: limiter_passes_def)
qed

section \<open>Witnesses\<close>

definition demo_net :: "(string, string) net_env" where
  "demo_net = \<lparr>nv_ip = Some, nv_cidr = Some, nv_contains = (=)\<rparr>"

definition demo_hit :: "string \<Rightarrow> guard_request" where
  "demo_hit xff =
     \<lparr>gr_method = ''POST'', gr_path = ''/api/stop'', gr_detail = [], gr_remote = ''10.0.0.1:99'',
      gr_requested_with = ''sftp-loadtest'', gr_forwarded = xff, gr_auth = None\<rparr>"

theorem eviction_invisible_witness:
  "serve_all demo_net [] False None [(0, Hit (demo_hit [])), (idle_limit + 5, Tick), (idle_limit + 7, Hit (demo_hit []))] Map.empty
   = serve_all demo_net [] False None [(0, Hit (demo_hit [])), (idle_limit + 7, Hit (demo_hit []))] Map.empty"
  using eviction_invisible[of "[(0, Hit (demo_hit [])), (idle_limit + 5, Tick), (idle_limit + 7, Hit (demo_hit []))]"
      demo_net "[]" False None]
  by (simp add: is_hit_def idle_limit_def minute_def second_def)

theorem rate_bounded_witness:
  "of_int (admitted demo_net [] (''10.0.0.1'' @ ''|'' @ ''/api/stop'')
      [(idle_limit + 7, Hit (demo_hit [])), (idle_limit + 8, Hit (demo_hit []))]
      (buckets_after demo_net [] [(0, Hit (demo_hit [])), (idle_limit + 5, Tick)] Map.empty))
   \<le> 10 + 1 * of_int second / of_int second + (1 :: rat)"
  using rate_bounded[of "[(0, Hit (demo_hit [])), (idle_limit + 5, Tick)]"
      "[(idle_limit + 7, Hit (demo_hit [])), (idle_limit + 8, Hit (demo_hit []))]" "''/api/stop''" 10 1
      "idle_limit + 7" second demo_net "[]" "''10.0.0.1''"]
  by (simp add: idle_limit_def minute_def second_def rateLimitedPaths_def)

theorem forwarded_entry_evades_witness:
  "limiter_passes demo_net [''10.0.0.1''] 0 (demo_hit ''me,10.0.0.9'') Map.empty"
proof -
  have h: "remote_host ''10.0.0.1:99'' = ''10.0.0.1''" by code_simp
  show ?thesis
    by (rule forwarded_entry_evades[of _ _ _ "''me''" "''10.0.0.9''"])
      (simp_all add: demo_net_def demo_hit_def sourceIPIsTrustedProxy_def h)
qed

end
