(* ===== verification/StartRequest.thy ===== *)
theory StartRequest
  imports Config VaultRefs Sink
begin

text \<open>
  From a start request to the configuration of a run (web/web.go): the request, its conversion, the
  credential used by the check before the start, and the rewriting of a download template that would
  collide with a run already writing to the same root. The record of a request extends the
  credentials of \<open>VaultRefs\<close>, that of the configuration the validated fields of \<open>Config\<close>.
\<close>

record start_req = start_creds +
  sq_Host :: string
  sq_Port :: int
  sq_UploadFolder :: string
  sq_ParallelStreams :: int
  sq_DurationHours :: rat
  sq_PollSeconds :: int
  sq_TrackIDTimeoutS :: int
  sq_MaxConsecutiveFailures :: int
  sq_Protocol :: string
  sq_TLSMode :: string
  sq_TLSInsecureSkipVerify :: bool
  sq_TLSServerName :: string
  sq_TLSTrustOnFirstUse :: bool
  sq_TLSPolicy :: string
  sq_QuirkProfile :: string
  sq_BastionHost :: string
  sq_BastionPort :: int
  sq_BastionUser :: string
  sq_SpeedFloorPercent :: int
  sq_SpeedFloorWarmupSec :: int
  sq_SpeedFloorBreachSec :: int
  sq_VerifyHashes :: bool
  sq_NormalEnabled :: bool
  sq_FilesPerMinute :: int
  sq_NormalMinMB :: int
  sq_NormalMaxMB :: int
  sq_NormalContentType :: string
  sq_NormalRamp :: "ramp_config option"
  sq_LargeEnabled :: bool
  sq_LargeMin :: int
  sq_LargeMax :: int
  sq_LargeUnit :: string
  sq_IntervalMinutes :: int
  sq_DownloadEnabled :: bool
  sq_DownloadFolder :: string
  sq_DownloadParallelStreams :: int
  sq_DownloadMatchMode :: string
  sq_TargetUsername :: string
  sq_NormalSource :: "source_config option"
  sq_LargeSource :: "source_config option"
  sq_DownloadSink :: "sink_config option"

record conn_config = run_config +
  rc_PrivateKeyPEM :: string
  rc_PrivateKeyPassphrase :: string
  rc_Protocol :: string
  rc_TLSMode :: string
  rc_TLSInsecureSkipVerify :: bool
  rc_TLSServerName :: string
  rc_TLSTrustOnFirstUse :: bool
  rc_TLSPolicy :: string
  rc_QuirkProfile :: string
  rc_BastionHost :: string
  rc_BastionPort :: int
  rc_BastionUser :: string
  rc_BastionPass :: string
  rc_BastionPrivateKeyPEM :: string
  rc_BastionPassphrase :: string

section \<open>Conversion\<close>

definition base_config :: "start_req \<Rightarrow> conn_config" where
  "base_config req =
     \<lparr>host = sq_Host req, port = sq_Port req, upload_folder = sq_UploadFolder req,
      parallel_streams = sq_ParallelStreams req, duration_hours = sq_DurationHours req,
      normal = None, large_file = None, download = None,
      normal_users = [], large_users = [], download_users = [],
      poll_interval = i64 (sq_PollSeconds req * second), trackid_timeout = i64 (sq_TrackIDTimeoutS req * second),
      max_failures = sq_MaxConsecutiveFailures req,
      speed_floor_percent = sq_SpeedFloorPercent req, speed_floor_warmup = sq_SpeedFloorWarmupSec req,
      speed_floor_breach = sq_SpeedFloorBreachSec req, verify_hashes = sq_VerifyHashes req,
      rc_PrivateKeyPEM = PrivateKeyPEM req, rc_PrivateKeyPassphrase = PrivateKeyPassphrase req,
      rc_Protocol = sq_Protocol req, rc_TLSMode = sq_TLSMode req,
      rc_TLSInsecureSkipVerify = sq_TLSInsecureSkipVerify req, rc_TLSServerName = sq_TLSServerName req,
      rc_TLSTrustOnFirstUse = sq_TLSTrustOnFirstUse req, rc_TLSPolicy = sq_TLSPolicy req,
      rc_QuirkProfile = sq_QuirkProfile req, rc_BastionHost = sq_BastionHost req,
      rc_BastionPort = sq_BastionPort req, rc_BastionUser = sq_BastionUser req,
      rc_BastionPass = BastionPass req, rc_BastionPrivateKeyPEM = BastionPrivateKeyPEM req,
      rc_BastionPassphrase = BastionPassphrase req\<rparr>"

datatype build_error = BadRamp config_error | NormalCSV csv_error | LargeCSV csv_error | DownloadCSV csv_error

text \<open>The reader of a user list trims leading space and accepts records of any length.\<close>

definition build_normal :: "start_req \<Rightarrow> conn_config \<Rightarrow> build_error + conn_config" where
  "build_normal req c =
     (if \<not> sq_NormalEnabled req then Inr c
      else case Ramp_Validate (sq_NormalRamp req) of
          Some e \<Rightarrow> Inl (BadRamp e)
        | None \<Rightarrow>
            case ParseUsersCSV (csv_reads True (NormalUsersCSV req)) of
              Inl e \<Rightarrow> Inl (NormalCSV e)
            | Inr us \<Rightarrow>
                Inr (c\<lparr>normal := Some \<lparr>files_per_minute = sq_FilesPerMinute req, min_size_mb = sq_NormalMinMB req,
                         max_size_mb = sq_NormalMaxMB req, content_type = sq_NormalContentType req,
                         n_source = sq_NormalSource req, n_ramp = sq_NormalRamp req\<rparr>,
                       normal_users := us\<rparr>))"

definition build_large :: "start_req \<Rightarrow> conn_config \<Rightarrow> build_error + conn_config" where
  "build_large req c =
     (if \<not> sq_LargeEnabled req then Inr c
      else case ParseUsersCSV (csv_reads True (LargeUsersCSV req)) of
          Inl e \<Rightarrow> Inl (LargeCSV e)
        | Inr us \<Rightarrow>
            Inr (c\<lparr>large_file := Some \<lparr>min_size = sq_LargeMin req, max_size = sq_LargeMax req, lf_unit = sq_LargeUnit req,
                     interval_minutes = sq_IntervalMinutes req, lf_source = sq_LargeSource req\<rparr>,
                   large_users := us\<rparr>))"

definition build_download :: "start_req \<Rightarrow> conn_config \<Rightarrow> build_error + conn_config" where
  "build_download req c =
     (if \<not> sq_DownloadEnabled req then Inr c
      else case ParseDownloadUsersCSV (csv_reads True (DownloadUsersCSV req)) of
          Inl e \<Rightarrow> Inl (DownloadCSV e)
        | Inr us \<Rightarrow>
            Inr (c\<lparr>download := Some \<lparr>dl_folder = sq_DownloadFolder req, dl_streams = sq_DownloadParallelStreams req,
                     match_mode = sq_DownloadMatchMode req, dl_sink = sq_DownloadSink req\<rparr>,
                   download_users := us\<rparr>))"

definition buildRunConfig :: "start_req \<Rightarrow> build_error + conn_config" where
  "buildRunConfig req =
     (case build_normal req (base_config req) of
        Inl e \<Rightarrow> Inl e
      | Inr c \<Rightarrow> (case build_large req c of
            Inl e \<Rightarrow> Inl e
          | Inr c' \<Rightarrow> build_download req c'))"

text \<open>\<open>Validate\<close> on the whole configuration: the fields it does not look at stay.\<close>

definition conn_Validate :: "conn_config \<Rightarrow> config_error + conn_config" where
  "conn_Validate c =
     (case Validate (run_config.truncate c) of
        Inl e \<Rightarrow> Inl e
      | Inr v \<Rightarrow> Inr (run_config.extend v (run_config.more c)))"

section \<open>Download templates\<close>

definition prefixed :: "string \<Rightarrow> string" where
  "prefixed tpl = ''{run_id}/'' @ tpl"

definition shares_root :: "string \<Rightarrow> conn_config \<Rightarrow> bool" where
  "shares_root rt other \<longleftrightarrow>
     (case download other of
        None \<Rightarrow> False
      | Some d \<Rightarrow> (case dl_sink d of
            None \<Rightarrow> False
          | Some s \<Rightarrow> sk_kind s = ''local-disk'' \<and> sk_root s = rt))"

definition maybePrependRunIDToSink :: "conn_config \<Rightarrow> conn_config list \<Rightarrow> conn_config" where
  "maybePrependRunIDToSink c active =
     (case download c of
        None \<Rightarrow> c
      | Some d \<Rightarrow> (case dl_sink d of
            None \<Rightarrow> c
          | Some s \<Rightarrow>
              if sk_kind s \<noteq> ''local-disk'' \<or> sk_root s = [] then c
              else if sk_template s = [] then c
              else if str_contains (sk_template s) ''{run_id}'' then c
              else if \<not> list_ex (shares_root (sk_root s)) active then c
              else c\<lparr>download := Some (d\<lparr>dl_sink := Some (s\<lparr>sk_template := prefixed (sk_template s)\<rparr>)\<rparr>)\<rparr>))"

section \<open>The credential of the check before the start\<close>

fun first_credential :: "string list \<Rightarrow> string \<times> string" where
  "first_credential [] = ([], [])"
| "first_credential (l # ls) =
     (let t = trim_space l in
      if t = [] then first_credential ls
      else let parts = split_byte (CHR '','') t in
        if 2 \<le> length parts then (trim_space (parts ! 0), parts ! 1) else first_credential ls)"

definition csv_credential :: "string \<Rightarrow> string \<times> string" where
  "csv_credential csv = first_credential (split_byte (CHR 0x0A) csv)"

definition firstStartCredential :: "start_req \<Rightarrow> string \<times> string" where
  "firstStartCredential req =
     (case find (\<lambda>csv. fst (csv_credential csv) \<noteq> []) [NormalUsersCSV req, LargeUsersCSV req, DownloadUsersCSV req] of
        Some csv \<Rightarrow> csv_credential csv
      | None \<Rightarrow> ([], []))"

section \<open>What a request becomes\<close>

definition users_of :: "bool \<Rightarrow> (csv_read list \<Rightarrow> csv_error + user_creds list) \<Rightarrow> string \<Rightarrow> user_creds list option" where
  "users_of enabled parse csv =
     (if enabled then (case parse (csv_reads True csv) of Inl e \<Rightarrow> None | Inr us \<Rightarrow> Some us) else Some [])"

text \<open>A start request becomes a configuration exactly when the ramp of an enabled normal load is valid and
  the user list of every enabled load can be read; the configuration then has exactly the enabled
  loads, each with its own users, and the target, credentials and TLS settings of the request.\<close>

theorem buildRunConfig_exact:
  "buildRunConfig req = Inr c \<longleftrightarrow>
     (sq_NormalEnabled req \<longrightarrow> Ramp_Validate (sq_NormalRamp req) = None) \<and>
     (\<exists>ns ls ds.
        users_of (sq_NormalEnabled req) ParseUsersCSV (NormalUsersCSV req) = Some ns \<and>
        users_of (sq_LargeEnabled req) ParseUsersCSV (LargeUsersCSV req) = Some ls \<and>
        users_of (sq_DownloadEnabled req) ParseDownloadUsersCSV (DownloadUsersCSV req) = Some ds \<and>
        c = (base_config req)\<lparr>
          normal := (if sq_NormalEnabled req
            then Some \<lparr>files_per_minute = sq_FilesPerMinute req, min_size_mb = sq_NormalMinMB req,
              max_size_mb = sq_NormalMaxMB req, content_type = sq_NormalContentType req,
              n_source = sq_NormalSource req, n_ramp = sq_NormalRamp req\<rparr> else None),
          large_file := (if sq_LargeEnabled req
            then Some \<lparr>min_size = sq_LargeMin req, max_size = sq_LargeMax req, lf_unit = sq_LargeUnit req,
              interval_minutes = sq_IntervalMinutes req, lf_source = sq_LargeSource req\<rparr> else None),
          download := (if sq_DownloadEnabled req
            then Some \<lparr>dl_folder = sq_DownloadFolder req, dl_streams = sq_DownloadParallelStreams req,
              match_mode = sq_DownloadMatchMode req, dl_sink = sq_DownloadSink req\<rparr> else None),
          normal_users := ns, large_users := ls, download_users := ds\<rparr>)"
  unfolding buildRunConfig_def build_normal_def build_large_def build_download_def users_of_def
  by (auto simp: base_config_def split: sum.splits option.splits if_splits)


section \<open>Prefixed templates keep runs apart\<close>

lemma replace_all_skip:
  assumes "\<And>i. i < length u \<Longrightarrow> \<not> has_prefix (drop i (u @ t)) pat" "pat \<noteq> []"
  shows "replace_all pat v (u @ t) = u @ replace_all pat v t"
  using assms
proof (induction u)
  case (Cons c u)
  have n: "\<not> has_prefix (c # u @ t) pat" using Cons.prems(1)[of 0] by simp
  have "replace_all pat v (u @ t) = u @ replace_all pat v t"
    using Cons.prems(1)[of "Suc i" for i] Cons.prems(2) by (intro Cons.IH) auto
  then show ?case using n Cons.prems(2) by (subst append_Cons, subst replace_all.simps) simp
qed simp

lemma replace_all_other:
  assumes "hd pat \<notin> set u" "pat \<noteq> []"
  shows "replace_all pat v (u @ t) = u @ replace_all pat v t"
proof (rule replace_all_skip[OF _ assms(2)])
  fix i
  assume i: "i < length u"
  then have "drop i (u @ t) = u ! i # drop (Suc i) u @ t" by (simp add: Cons_nth_drop_Suc[symmetric])
  moreover have "u ! i \<noteq> hd pat" using i assms(1) by (metis nth_mem)
  ultimately show "\<not> has_prefix (drop i (u @ t)) pat"
    using assms(2) by (cases pat) (auto simp: has_prefix_def)
qed

lemma substitute_behind:
  assumes "CHR ''{'' \<notin> set u" "CHR ''$'' \<notin> set u"
  shows "\<exists>t'. substitute repl (u @ t) k = u @ t'"
  using assms by (simp add: substitute_def replace_all_other split: option.splits)

lemma substitutes_behind:
  assumes "CHR ''{'' \<notin> set u" "CHR ''$'' \<notin> set u"
  shows "\<exists>t'. foldl (substitute repl) (u @ t) ks = u @ t'"
proof (induction ks arbitrary: t)
  case (Cons k ks)
  obtain t' where "substitute repl (u @ t) k = u @ t'" using substitute_behind[OF assms] by blast
  then show ?case using Cons.IH by simp
qed simp

lemma substitute_other:
  assumes "k \<in> set placeholders" "k \<noteq> ''run_id''"
  shows "\<exists>t'. substitute repl (prefixed t) k = prefixed t'"
proof -
  have brace: "replace_all (''{'' @ k @ ''}'') v (prefixed s) = prefixed (replace_all (''{'' @ k @ ''}'') v s)" for v s
    unfolding prefixed_def
  proof (rule replace_all_skip)
    fix i
    assume i: "i < length ''{run_id}/''"
    show "\<not> has_prefix (drop i (''{run_id}/'' @ s)) (''{'' @ k @ ''}'')"
    proof (cases i)
      case 0
      then show ?thesis using assms by (auto simp: placeholders_def has_prefix_def)
    next
      case (Suc j)
      with i have "j \<in> {0, 1, 2, 3, 4, 5, 6, 7}" by auto
      with Suc show ?thesis by (auto simp: has_prefix_def)
    qed
  qed simp
  have dollar: "replace_all (''${'' @ k @ ''}'') v (prefixed s) = prefixed (replace_all (''${'' @ k @ ''}'') v s)" for v s
    unfolding prefixed_def by (rule replace_all_other) simp_all
  show ?thesis unfolding substitute_def by (auto simp: brace dollar simp del: append_Cons split: option.splits)
qed

lemma substitutes_other:
  assumes "set ks \<subseteq> set placeholders" "''run_id'' \<notin> set ks"
  shows "\<exists>t'. foldl (substitute repl) (prefixed t) ks = prefixed t'"
  using assms
proof (induction ks arbitrary: t)
  case (Cons k ks)
  obtain t' where "substitute repl (prefixed t) k = prefixed t'"
    using substitute_other[of k repl t] Cons.prems by auto
  then show ?case using Cons by simp
qed auto

lemma substitute_run_id:
  assumes "repl ''run_id'' = Some rid" "CHR ''{'' \<notin> set rid" "CHR ''$'' \<notin> set rid"
  shows "\<exists>t'. substitute repl (prefixed t) ''run_id'' = (rid @ ''/'') @ t'"
proof -
  have "replace_all ''{run_id}'' rid (''{run_id}'' @ ''/'' @ t) = rid @ replace_all ''{run_id}'' rid (''/'' @ t)"
    by (subst replace_all.simps) (simp add: has_prefix_def)
  also have "replace_all ''{run_id}'' rid (''/'' @ t) = ''/'' @ replace_all ''{run_id}'' rid t"
    by (rule replace_all_other) simp_all
  finally have "replace_all ''{run_id}'' rid (prefixed t) = (rid @ ''/'') @ replace_all ''{run_id}'' rid t"
    by (simp add: prefixed_def)
  then show ?thesis
    using assms by (simp add: substitute_def) (subst replace_all_other[of _ "rid @ ''/''", simplified], simp_all)
qed

text \<open>Whatever the rest of the template and the order in which placeholders are replaced, the rendered path of
  a download of a run whose template was prefixed begins with the id of the run.\<close>

theorem prefixed_runs_apart:
  assumes "distinct ks" "set ks = set placeholders" "repl ''run_id'' = Some rid"
    and "CHR ''{'' \<notin> set rid" "CHR ''$'' \<notin> set rid"
  shows "\<exists>t'. renderTemplate ks repl (prefixed t) = rid @ ''/'' @ t'"
proof -
  have "''run_id'' \<in> set ks" using assms(2) by (simp add: placeholders_def)
  then obtain us vs where ks: "ks = us @ ''run_id'' # vs" by (meson split_list)
  have us: "set us \<subseteq> set placeholders" "''run_id'' \<notin> set us" using assms(1,2) ks by auto
  obtain t1 where t1: "foldl (substitute repl) (prefixed t) us = prefixed t1"
    using substitutes_other[OF us] by blast
  obtain t2 where t2: "substitute repl (prefixed t1) ''run_id'' = (rid @ ''/'') @ t2"
    using substitute_run_id[of repl rid t1, OF assms(3-5)] by blast
  obtain t3 where t3: "foldl (substitute repl) ((rid @ ''/'') @ t2) vs = (rid @ ''/'') @ t3"
    using substitutes_behind[of "rid @ ''/''" repl t2 vs] assms(4,5) by auto
  have "renderTemplate ks repl (prefixed t) = rid @ ''/'' @ t3"
    using t1 t2 t3 by (simp add: renderTemplate_def prefixed_def[of t] ks del: append_assoc)
  then show ?thesis by blast
qed

theorem prefixed_runs_apart_witness:
  "\<exists>t'. renderTemplate placeholders [''run_id'' \<mapsto> ''run-7-1'', ''user'' \<mapsto> ''bob''] (prefixed ''{user}/x'') = ''run-7-1'' @ ''/'' @ t'"
  by (rule prefixed_runs_apart) (simp_all add: placeholders_def)

end
