(* ===== verification/RunServer.thy ===== *)
theory RunServer
  imports StartRequest Run Analysis Transition
begin

text \<open>
  The runs the web server knows (web/web.go): the registry with its eviction, the handlers that start,
  stop and list runs and deliver their reports, the alert configuration, and the texts shown for
  connection errors. A run is its id, its configuration, the state of \<open>Run\<close> and whether it is still
  active. Arguments: what starting a run in the runner and the dial of the check before it give, the
  JSON codec of the metadata and of the alert configuration, the order of directory listings, and
  the effects of decoding beyond ASCII (\<open>uni\<close>).
\<close>

record live_run =
  lv_ID :: string
  lv_StartedAt :: int
  lv_StartedBy :: string
  lv_Cfg :: conn_config
  lv_run :: run
  lv_active :: bool

record registry =
  rg_runs :: "string \<rightharpoonup> live_run"
  rg_order :: "string list"

definition maxRetainedRuns :: nat where "maxRetainedRuns = 10"

definition no_runs :: registry where
  "no_runs = \<lparr>rg_runs = Map.empty, rg_order = []\<rparr>"

section \<open>The registry\<close>

definition latest_run :: "registry \<Rightarrow> live_run option" where
  "latest_run g = (if rg_order g = [] then None else rg_runs g (last (rg_order g)))"

definition pick :: "string \<Rightarrow> registry \<Rightarrow> live_run option" where
  "pick wanted g = (if wanted \<noteq> [] then rg_runs g wanted else latest_run g)"

definition active_at :: "registry \<Rightarrow> string \<Rightarrow> live_run option" where
  "active_at g i = (case rg_runs g i of None \<Rightarrow> None | Some r \<Rightarrow> if lv_active r then Some r else None)"

definition activeRuns :: "registry \<Rightarrow> live_run list" where
  "activeRuns g = List.map_filter (active_at g) (rg_order g)"

definition activeRun :: "registry \<Rightarrow> live_run option" where
  "activeRun g =
     (case latest_run g of
        None \<Rightarrow> None
      | Some r \<Rightarrow>
          if lv_active r then Some r
          else (case List.map_filter (active_at g) (rev (rg_order g)) of [] \<Rightarrow> None | x # xs \<Rightarrow> Some x))"

definition activeRunsSnapshot :: "registry \<Rightarrow> conn_config list" where
  "activeRunsSnapshot g = map lv_Cfg (activeRuns g)"

definition findActiveAtTarget :: "registry \<Rightarrow> string \<Rightarrow> int \<Rightarrow> string" where
  "findActiveAtTarget g h p =
     (if h = [] \<or> p \<le> 0 then []
      else case find (\<lambda>i. case active_at g i of
                          None \<Rightarrow> False
                        | Some r \<Rightarrow> host (lv_Cfg r) = h \<and> port (lv_Cfg r) = p) (rg_order g) of
          None \<Rightarrow> []
        | Some i \<Rightarrow> i)"

text \<open>The eviction: while there are more than ten, the oldest run that is not active goes.\<close>

definition evictable :: "registry \<Rightarrow> string \<Rightarrow> bool" where
  "evictable g i = (case rg_runs g i of None \<Rightarrow> True | Some r \<Rightarrow> \<not> lv_active r)"

function evict :: "registry \<Rightarrow> registry" where
  "evict g =
     (if length (rg_order g) \<le> maxRetainedRuns then g
      else case find (evictable g) (rg_order g) of
          None \<Rightarrow> g
        | Some i \<Rightarrow> evict (g\<lparr>rg_runs := (rg_runs g)(i := None), rg_order := remove1 i (rg_order g)\<rparr>))"
  by pat_completeness auto
termination
proof (relation "measure (\<lambda>g. length (rg_order g))")
  fix g :: registry and i
  assume "\<not> length (rg_order g) \<le> maxRetainedRuns" "find (evictable g) (rg_order g) = Some i"
  then show "(g\<lparr>rg_runs := (rg_runs g)(i := None), rg_order := remove1 i (rg_order g)\<rparr>, g)
      \<in> measure (\<lambda>g. length (rg_order g))"
    by (auto simp: find_Some_iff length_remove1 maxRetainedRuns_def)
qed simp

declare evict.simps [simp del]

definition register_run :: "live_run \<Rightarrow> registry \<Rightarrow> registry" where
  "register_run r g = evict (g\<lparr>rg_runs := (rg_runs g)(lv_ID r \<mapsto> r), rg_order := rg_order g @ [lv_ID r]\<rparr>)"

section \<open>Starting\<close>

text \<open>The first half of \<open>startRun\<close> reads the registry, the second registers the run; in between the
  runner connects. The runner yields an error or a run under a new id.\<close>

datatype start_error = BuildError build_error | RunnerError string

definition prepare_run :: "vault option \<Rightarrow> registry \<Rightarrow> start_req \<Rightarrow> build_error + conn_config" where
  "prepare_run bound g req =
     (let req' = (case bound of None \<Rightarrow> req | Some v \<Rightarrow> resolveStartReqVaultRefs req (Some v))
      in case buildRunConfig req' of
          Inl e \<Rightarrow> Inl e
        | Inr c \<Rightarrow> Inr (maybePrependRunIDToSink c (activeRunsSnapshot g)))"

definition startRun ::
  "(conn_config \<Rightarrow> string + live_run) \<Rightarrow> vault option \<Rightarrow> string \<Rightarrow> start_req \<Rightarrow> registry
   \<Rightarrow> (start_error + live_run) \<times> registry" where
  "startRun runner bound startedBy req g =
     (case prepare_run bound g req of
        Inl e \<Rightarrow> (Inl (BuildError e), g)
      | Inr c \<Rightarrow> (case runner c of
            Inl e \<Rightarrow> (Inl (RunnerError e), g)
          | Inr r \<Rightarrow> let r' = r\<lparr>lv_StartedBy := startedBy\<rparr> in (Inr r', register_run r' g)))"

datatype run_reply =
    RunError int string
  | Consent "(string \<times> string) list"
  | RunStarted string string
  | RunStopped string
  | StopWhich "string list"

text \<open>The warning about another run on the same target.\<close>

definition start_warning :: "bool \<Rightarrow> start_req \<Rightarrow> registry \<Rightarrow> string" where
  "start_warning force req g =
     (let conflict = findActiveAtTarget g (sq_Host req) (sq_Port req) in
      if force \<or> conflict = [] then []
      else
        ''another run ('' @ conflict @ '') is already active against '' @ sq_Host req @ '':'' @ go_itoa (sq_Port req)
        @ '' '' @ [CHR 0xE2, CHR 0x80, CHR 0x94] @ '' concurrent runs against the same host share bandwidth and connections''
        @ (case sq_DownloadSink req of
             None \<Rightarrow> []
           | Some s \<Rightarrow>
               if sq_DownloadEnabled req \<and> sk_kind s = ''local-disk'' \<and> sk_template s \<noteq> []
                  \<and> \<not> str_contains (sk_template s) ''{run_id}''
               then ''; the download sink template lacks {run_id} so paths will be auto-prefixed to keep runs disjoint''
               else []))"

text \<open>\<open>pre\<close> is the payload of the check of the host key, when there is one.\<close>

definition error_text :: "(build_error \<Rightarrow> string) \<Rightarrow> start_error \<Rightarrow> string" where
  "error_text build_text e = (case e of BuildError b \<Rightarrow> build_text b | RunnerError t \<Rightarrow> t)"

definition handleStart ::
  "(conn_config \<Rightarrow> string + live_run) \<Rightarrow> vault option \<Rightarrow> (build_error \<Rightarrow> string) \<Rightarrow> string \<Rightarrow> start_req option
   \<Rightarrow> (string \<times> string \<Rightarrow> start_req \<Rightarrow> (string \<times> string) list option) \<Rightarrow> bool \<Rightarrow> bool \<Rightarrow> registry
   \<Rightarrow> run_reply \<times> registry" where
  "handleStart runner bound build_text method body pre checked force g =
     (if method \<noteq> ''POST'' then (RunError 405 ''POST required'', g)
      else case body of
          None \<Rightarrow> (RunError 400 ''bad json'', g)
        | Some req \<Rightarrow>
            let creds = firstStartCredential req;
                payload = (if checked \<and> fst creds \<noteq> [] \<and> sq_Host req \<noteq> [] \<and> 0 < sq_Port req then pre creds req else None)
            in case payload of
                Some p \<Rightarrow> (Consent p, g)
              | None \<Rightarrow>
                  let warning = start_warning force req g in
                  case startRun runner bound ''manual'' req g of
                    (Inl e, g') \<Rightarrow>
                      (RunError (if str_contains (error_text build_text e) ''already active'' then 409 else 400)
                         (error_text build_text e), g')
                  | (Inr r, g') \<Rightarrow> (RunStarted (lv_ID r) warning, g'))"

section \<open>Stopping\<close>

definition stop_in :: "string \<Rightarrow> registry \<Rightarrow> registry" where
  "stop_in i g = g\<lparr>rg_runs := (rg_runs g)(i := map_option (\<lambda>r. r\<lparr>lv_run := Stop (lv_run r)\<rparr>) (rg_runs g i))\<rparr>"

definition handleStop :: "string \<Rightarrow> registry \<Rightarrow> run_reply \<times> registry" where
  "handleStop wanted g =
     (if wanted \<noteq> [] then
        (case rg_runs g wanted of
           None \<Rightarrow> (RunError 404 ''unknown run id'', g)
         | Some r \<Rightarrow>
             if \<not> lv_active r then (RunError 409 ''run already stopped'', g)
             else (RunStopped (lv_ID r), stop_in wanted g))
      else case activeRuns g of
          [] \<Rightarrow> (RunError 404 ''no active run'', g)
        | [r] \<Rightarrow> (RunStopped (lv_ID r), stop_in (lv_ID r) g)
        | rs \<Rightarrow> (StopWhich (map lv_ID rs), g))"


section \<open>What the registry promises\<close>

definition reg_inv :: "registry \<Rightarrow> bool" where
  "reg_inv g \<longleftrightarrow> distinct (rg_order g) \<and> dom (rg_runs g) = set (rg_order g) \<and>
     (\<forall>i r. rg_runs g i = Some r \<longrightarrow> lv_ID r = i \<and> i \<noteq> [])"

definition finished_runs :: "registry \<Rightarrow> string list" where
  "finished_runs g = filter (evictable g) (rg_order g)"

definition keep_runs :: "string list \<Rightarrow> registry \<Rightarrow> registry" where
  "keep_runs gone g =
     \<lparr>rg_runs = (\<lambda>i. if i \<in> set gone then None else rg_runs g i),
      rg_order = filter (\<lambda>i. i \<notin> set gone) (rg_order g)\<rparr>"

lemma registry_eqI: "rg_runs g = rg_runs h \<Longrightarrow> rg_order g = rg_order h \<Longrightarrow> (g :: registry) = h"
  by simp

lemma find_split: "find P xs = Some i \<Longrightarrow> \<exists>us vs. xs = us @ i # vs \<and> (\<forall>u \<in> set us. \<not> P u) \<and> P i"
proof (induction xs)
  case (Cons x xs)
  show ?case
  proof (cases "P x")
    case True
    then show ?thesis using Cons.prems by (intro exI[of _ "[]"] exI[of _ xs]) simp
  next
    case False
    then obtain us vs where "xs = us @ i # vs" "\<forall>u \<in> set us. \<not> P u" "P i" using Cons by auto
    then show ?thesis using False by (intro exI[of _ "x # us"] exI[of _ vs]) simp
  qed
qed simp

lemma length_filter_notin:
  "distinct xs \<Longrightarrow> S \<subseteq> set xs \<Longrightarrow> length (filter (\<lambda>i. i \<notin> S) xs) = length xs - card S"
proof -
  assume d: "distinct xs" and s: "S \<subseteq> set xs"
  have "set (filter (\<lambda>i. i \<in> S) xs) = S" using s by auto
  then have "length (filter (\<lambda>i. i \<in> S) xs) = card S" using d by (metis distinct_card distinct_filter)
  then show ?thesis using sum_length_filter_compl[of "\<lambda>i. i \<in> S" xs] by simp
qed

lemma evict_exact:
  assumes "reg_inv g"
  shows "evict g = keep_runs (take (length (rg_order g) - maxRetainedRuns) (finished_runs g)) g"
  using assms
proof (induction g rule: evict.induct)
  case (1 g)
  show ?case
  proof (cases "length (rg_order g) \<le> maxRetainedRuns")
    case True
    then show ?thesis by (subst evict.simps) (simp add: keep_runs_def)
  next
    case big: False
    show ?thesis
    proof (cases "find (evictable g) (rg_order g)")
      case None
      then have "finished_runs g = []" by (simp add: finished_runs_def find_None_iff filter_empty_conv)
      then show ?thesis using big None by (subst evict.simps) (simp add: keep_runs_def)
    next
      case (Some i)
      let ?g = "g\<lparr>rg_runs := (rg_runs g)(i := None), rg_order := remove1 i (rg_order g)\<rparr>"
      have inv: "reg_inv g" by (rule 1(2))
      then have d: "distinct (rg_order g)" by (simp add: reg_inv_def)
      obtain us vs where split: "rg_order g = us @ i # vs" and us: "\<forall>u \<in> set us. \<not> evictable g u" and i: "evictable g i"
        using find_split[OF Some] by blast
      have nin: "i \<notin> set us" "i \<notin> set vs" using d split by auto
      have order: "remove1 i (rg_order g) = us @ vs" using nin(1) by (simp add: split remove1_append)
      have fin: "finished_runs g = i # filter (evictable g) vs"
        using us i by (simp add: finished_runs_def split)
      have ev: "evictable ?g x = evictable g x" if "x \<noteq> i" for x using that by (simp add: evictable_def)
      have fin': "finished_runs ?g = filter (evictable g) vs"
      proof -
        have "\<forall>x \<in> set us. \<not> evictable ?g x" using us nin(1) ev by metis
        then have "filter (evictable ?g) us = []" by (simp add: filter_empty_conv)
        moreover have "\<forall>x \<in> set vs. evictable ?g x = evictable g x" using nin(2) ev by metis
        then have "filter (evictable ?g) vs = filter (evictable g) vs" by (intro filter_cong) simp_all
        ultimately show ?thesis unfolding finished_runs_def by (simp add: order)
      qed
      have inv': "reg_inv ?g"
        using inv unfolding reg_inv_def by (auto simp: order split)
      have "evict g = evict ?g" using big Some by (subst evict.simps) simp
      also have "\<dots> = keep_runs (take (length (us @ vs) - maxRetainedRuns) (filter (evictable g) vs)) ?g"
      proof -
        have lo: "length (rg_order ?g) = length (us @ vs)" using order by simp
        have "evict ?g = keep_runs (take (length (rg_order ?g) - maxRetainedRuns) (finished_runs ?g)) ?g"
          by (rule 1(1)[OF big Some inv'])
        then show ?thesis unfolding fin' lo .
      qed
      also have "\<dots> = keep_runs (take (length (rg_order g) - maxRetainedRuns) (finished_runs g)) g"
      proof -
        let ?t = "take (length (us @ vs) - maxRetainedRuns) (filter (evictable g) vs)"
        have "take (length (rg_order g) - maxRetainedRuns) (finished_runs g) = i # ?t"
          using big by (simp add: fin split Suc_diff_le)
        moreover have "filter (\<lambda>x. x \<notin> set ?t) (us @ vs) = filter (\<lambda>x. x \<notin> set (i # ?t)) (us @ vs)"
          by (rule filter_cong) (use nin in auto)
        ultimately show ?thesis
          by (intro registry_eqI) (auto simp: keep_runs_def order[unfolded split] split)
      qed
      finally show ?thesis .
    qed
  qed
qed

lemma keep_runs_inv: "reg_inv g \<Longrightarrow> reg_inv (keep_runs gone g)"
  unfolding reg_inv_def keep_runs_def by (auto simp: dom_def set_eq_iff split: if_splits)

definition push_run :: "live_run \<Rightarrow> registry \<Rightarrow> registry" where
  "push_run r g = g\<lparr>rg_runs := (rg_runs g)(lv_ID r \<mapsto> r), rg_order := rg_order g @ [lv_ID r]\<rparr>"

lemma register_via_push: "register_run r g = evict (push_run r g)"
  by (simp add: register_run_def push_run_def)

lemma push_inv: "reg_inv g \<Longrightarrow> rg_runs g (lv_ID r) = None \<Longrightarrow> lv_ID r \<noteq> [] \<Longrightarrow> reg_inv (push_run r g)"
  unfolding reg_inv_def push_run_def by auto

lemma register_run_inv: "reg_inv g \<Longrightarrow> rg_runs g (lv_ID r) = None \<Longrightarrow> lv_ID r \<noteq> [] \<Longrightarrow> reg_inv (register_run r g)"
  by (simp add: register_via_push evict_exact push_inv keep_runs_inv)

lemma not_gone:
  "set (take k (finished_runs g)) \<subseteq> {i. evictable g i}"
  unfolding finished_runs_def using set_take_subset by fastforce

lemma all_active_or_few:
  assumes "reg_inv g"
  shows "length (rg_order (evict g)) \<le> maxRetainedRuns \<or> (\<forall>i \<in> set (rg_order (evict g)). \<not> evictable (evict g) i)"
proof -
  let ?k = "length (rg_order g) - maxRetainedRuns" and ?f = "finished_runs g"
  have d: "distinct (rg_order g)" using assms by (simp add: reg_inv_def)
  have e: "rg_order (evict g) = filter (\<lambda>i. i \<notin> set (take ?k ?f)) (rg_order g)"
    by (simp add: evict_exact[OF assms] keep_runs_def)
  show ?thesis
  proof (cases "length ?f \<le> ?k")
    case True
    then show ?thesis by (auto simp: evict_exact[OF assms] keep_runs_def evictable_def finished_runs_def)
  next
    case False
    have sub: "set (take ?k ?f) \<subseteq> set (rg_order g)" unfolding finished_runs_def using set_take_subset by fastforce
    have "distinct (take ?k ?f)" using d by (simp add: finished_runs_def)
    then have c: "card (set (take ?k ?f)) = ?k" using False by (simp add: distinct_card)
    have "length (filter (\<lambda>i. i \<notin> set (take ?k ?f)) (rg_order g)) = length (rg_order g) - ?k"
      using length_filter_notin[OF d sub] c by simp
    then have "length (filter (\<lambda>i. i \<notin> set (take ?k ?f)) (rg_order g)) \<le> maxRetainedRuns" by linarith
    then show ?thesis unfolding e by simp
  qed
qed

lemma map_filter_filter: "\<forall>x \<in> set xs. \<not> P x \<longrightarrow> f x = None \<Longrightarrow> List.map_filter f (filter P xs) = List.map_filter f xs"
  by (induction xs) (auto simp: List.map_filter_simps split: option.splits)

lemma map_filter_cong: "\<forall>x \<in> set xs. f x = g x \<Longrightarrow> List.map_filter f xs = List.map_filter g xs"
  by (induction xs) (auto simp: List.map_filter_simps split: option.splits)

lemma keep_active: "set gone \<subseteq> {i. evictable g i} \<Longrightarrow> activeRuns (keep_runs gone g) = activeRuns g"
proof -
  assume gone: "set gone \<subseteq> {i. evictable g i}"
  have "List.map_filter (active_at (keep_runs gone g)) (filter (\<lambda>i. i \<notin> set gone) (rg_order g))
      = List.map_filter (active_at g) (filter (\<lambda>i. i \<notin> set gone) (rg_order g))"
    by (rule map_filter_cong) (simp add: active_at_def keep_runs_def)
  also have "\<dots> = List.map_filter (active_at g) (rg_order g)"
    using gone by (intro map_filter_filter) (auto simp: active_at_def evictable_def split: option.splits)
  finally show ?thesis by (simp add: activeRuns_def keep_runs_def)
qed

lemma ids_when_active:
  assumes "reg_inv g" "\<forall>i \<in> set (rg_order g). \<not> evictable g i"
  shows "map lv_ID (activeRuns g) = rg_order g"
proof -
  have "map lv_ID (List.map_filter (active_at g) is) = is" if "set is \<subseteq> set (rg_order g)" for "is"
    using that
  proof (induction "is")
    case (Cons i "is")
    then obtain r where "rg_runs g i = Some r" "lv_active r" "lv_ID r = i"
      using assms unfolding reg_inv_def by (auto simp: evictable_def split: option.splits)
    then show ?case using Cons by (simp add: List.map_filter_simps active_at_def)
  qed (simp add: List.map_filter_simps)
  then show ?thesis by (simp add: activeRuns_def)
qed

lemma push_active: "rg_runs g (lv_ID r) = None \<Longrightarrow> reg_inv g \<Longrightarrow> lv_active r \<Longrightarrow> activeRuns (push_run r g) = activeRuns g @ [r]"
proof -
  assume n: "rg_runs g (lv_ID r) = None" and inv: "reg_inv g" and a: "lv_active r"
  have "lv_ID r \<notin> set (rg_order g)" using n inv unfolding reg_inv_def by auto
  then have "List.map_filter (active_at (push_run r g)) (rg_order g) = List.map_filter (active_at g) (rg_order g)"
    by (intro map_filter_cong) (auto simp: active_at_def push_run_def)
  then show ?thesis
    using a by (simp add: activeRuns_def List.map_filter_def) (simp add: push_run_def active_at_def)
qed

text \<open>Registering a run keeps every active run, drops only finished ones, the oldest first and no more than
  needed, and leaves at most ten runs unless all of them are active.\<close>

theorem register_keeps_active:
  assumes "reg_inv g" "rg_runs g (lv_ID r) = None" "lv_ID r \<noteq> []" "lv_active r"
  shows "register_run r g = keep_runs (take (Suc (length (rg_order g)) - maxRetainedRuns) (finished_runs g)) (push_run r g) \<and>
    activeRuns (register_run r g) = activeRuns g @ [r] \<and>
    (length (rg_order (register_run r g)) \<le> maxRetainedRuns \<or> map lv_ID (activeRuns (register_run r g)) = rg_order (register_run r g))"
proof -
  let ?p = "push_run r g" and ?g = "register_run r g"
  have inv: "reg_inv ?p" by (rule push_inv[OF assms(1-3)])
  have new: "lv_ID r \<notin> set (rg_order g)" using assms(1,2) unfolding reg_inv_def by auto
  have fin: "finished_runs ?p = finished_runs g"
  proof -
    have "filter (evictable ?p) (rg_order g) = filter (evictable g) (rg_order g)"
      using new by (intro filter_cong) (auto simp: push_run_def evictable_def)
    then show ?thesis using assms(4) by (simp add: finished_runs_def) (simp add: push_run_def evictable_def)
  qed
  have k: "length (rg_order ?p) = Suc (length (rg_order g))" by (simp add: push_run_def)
  have e: "?g = keep_runs (take (Suc (length (rg_order g)) - maxRetainedRuns) (finished_runs g)) ?p"
    unfolding register_via_push evict_exact[OF inv] fin k ..
  have a: "activeRuns ?g = activeRuns g @ [r]"
    unfolding register_via_push evict_exact[OF inv] keep_active[OF not_gone] by (rule push_active[OF assms(2,1,4)])
  have c: "length (rg_order ?g) \<le> maxRetainedRuns \<or> map lv_ID (activeRuns ?g) = rg_order ?g"
    using all_active_or_few[OF inv] ids_when_active[OF register_run_inv[OF assms(1-3)]]
    unfolding register_via_push by blast
  from e a c show ?thesis by blast
qed

text \<open>The steps of the registry: a run is registered, advances, ends, or a stop request arrives.\<close>

inductive registry_step :: "registry \<Rightarrow> registry \<Rightarrow> bool" where
  Registered: "rg_runs g (lv_ID r) = None \<Longrightarrow> lv_ID r \<noteq> [] \<Longrightarrow> lv_active r \<Longrightarrow> registry_step g (register_run r g)"
| Advanced: "rg_runs g i = Some r \<Longrightarrow> lv_active r \<Longrightarrow>
    registry_step g (g\<lparr>rg_runs := (rg_runs g)(i \<mapsto> r\<lparr>lv_run := x, lv_active := b\<rparr>)\<rparr>)"
| StopAsked: "registry_step g (snd (handleStop wanted g))"

lemma stop_in_inv: "reg_inv g \<Longrightarrow> reg_inv (stop_in i g)"
  unfolding reg_inv_def stop_in_def by (auto simp: dom_def set_eq_iff split: if_splits)

lemma handleStop_inv: "reg_inv g \<Longrightarrow> reg_inv (snd (handleStop wanted g))"
  by (auto simp: handleStop_def stop_in_inv split: option.splits list.splits)

lemma registry_step_inv:
  assumes "reg_inv g" "registry_step g g'"
  shows "reg_inv g'"
  using assms(2,1)
proof cases
  case (Advanced i r x b)
  then show ?thesis using assms(1) unfolding reg_inv_def by (auto simp: dom_def set_eq_iff split: if_splits)
qed (use assms(1) in \<open>simp_all add: register_run_inv handleStop_inv\<close>)

interpretation registry: transition registry_step reg_inv
  by unfold_locales (rule registry_step_inv)

lemma registry_reachable: "registry_step\<^sup>*\<^sup>* no_runs g \<Longrightarrow> reg_inv g"
  by (rule registry.reach_keeps) (auto simp: reg_inv_def no_runs_def)

lemma in_map_filter: "y \<in> set (List.map_filter f xs) \<Longrightarrow> \<exists>x \<in> set xs. f x = Some y"
  by (induction xs) (auto simp: List.map_filter_simps split: option.splits)

lemma activeRuns_inv:
  assumes "reg_inv g" "r \<in> set (activeRuns g)"
  shows "rg_runs g (lv_ID r) = Some r" "lv_active r" "lv_ID r \<noteq> []"
proof -
  obtain i where "active_at g i = Some r" using assms(2) unfolding activeRuns_def by (blast dest: in_map_filter)
  then have r: "rg_runs g i = Some r" "lv_active r" by (auto simp: active_at_def split: option.splits if_splits)
  moreover have "lv_ID r = i" "i \<noteq> []" using assms(1) r(1) unfolding reg_inv_def by blast+
  ultimately show "rg_runs g (lv_ID r) = Some r" "lv_active r" "lv_ID r \<noteq> []" by simp_all
qed


section \<open>Two starts into one directory\<close>

definition local_sink :: "conn_config \<Rightarrow> sink_config \<Rightarrow> bool" where
  "local_sink c s \<longleftrightarrow>
     (\<exists>d. download c = Some d \<and> dl_sink d = Some s) \<and> sk_kind s = ''local-disk'' \<and> sk_root s \<noteq> [] \<and>
     sk_template s \<noteq> [] \<and> \<not> str_contains (sk_template s) ''{run_id}''"

lemma prepend_shared:
  assumes "local_sink c s" "list_ex (shares_root (sk_root s)) active"
  obtains d where "download c = Some d"
    "maybePrependRunIDToSink c active = c\<lparr>download := Some (d\<lparr>dl_sink := Some (s\<lparr>sk_template := prefixed (sk_template s)\<rparr>)\<rparr>)\<rparr>"
  using assms unfolding local_sink_def maybePrependRunIDToSink_def by auto

lemma prepend_alone:
  assumes "local_sink c s" "\<not> list_ex (shares_root (sk_root s)) active"
  shows "maybePrependRunIDToSink c active = c"
  using assms unfolding local_sink_def maybePrependRunIDToSink_def by auto

text \<open>Started one after the other, the second of two runs with the same sink gets its own directory; prepared
  before either is registered, both keep the template as it is and write to the same paths.\<close>

theorem concurrent_starts_share_paths:
  assumes "buildRunConfig req = Inr c" "local_sink c s" "\<not> list_ex (shares_root (sk_root s)) (activeRunsSnapshot g)"
    and "reg_inv g" "rg_runs g (lv_ID r) = None" "lv_ID r \<noteq> []" "lv_active r" "lv_Cfg r = c"
  shows "prepare_run None g req = Inr c"
    and "\<exists>d. download c = Some d \<and>
      prepare_run None (register_run r g) req =
        Inr (c\<lparr>download := Some (d\<lparr>dl_sink := Some (s\<lparr>sk_template := prefixed (sk_template s)\<rparr>)\<rparr>)\<rparr>)"
proof -
  show "prepare_run None g req = Inr c"
    using assms(1) prepend_alone[OF assms(2,3)] by (simp add: prepare_run_def)
  have "activeRunsSnapshot (register_run r g) = activeRunsSnapshot g @ [c]"
  proof -
    have "activeRuns (register_run r g) = activeRuns g @ [r]" using register_keeps_active[OF assms(4-7)] by blast
    then show ?thesis using assms(8) by (simp add: activeRunsSnapshot_def)
  qed
  moreover have "shares_root (sk_root s) c" using assms(2) by (auto simp: local_sink_def shares_root_def)
  ultimately have "list_ex (shares_root (sk_root s)) (activeRunsSnapshot (register_run r g))" by simp
  from prepend_shared[OF assms(2) this] assms(1)
  show "\<exists>d. download c = Some d \<and>
      prepare_run None (register_run r g) req =
        Inr (c\<lparr>download := Some (d\<lparr>dl_sink := Some (s\<lparr>sk_template := prefixed (sk_template s)\<rparr>)\<rparr>)\<rparr>)"
    by (auto simp: prepare_run_def)
qed

section \<open>The list of runs\<close>

datatype run_entry = Sealed "sealed" string | Live live_run

definition sealed_entry :: "bool \<Rightarrow> sealed list \<Rightarrow> live_run \<Rightarrow> run_entry" where
  "sealed_entry have_dir metas r =
     (if \<not> lv_active r \<and> have_dir then
        (case find (\<lambda>m. rm_ID m = lv_ID r) metas of Some m \<Rightarrow> Sealed m ''memory+disk'' | None \<Rightarrow> Live r)
      else Live r)"

definition handleRuns :: "bool \<Rightarrow> sealed list \<Rightarrow> registry \<Rightarrow> run_entry list" where
  "handleRuns have_dir metas g =
     (let live = List.map_filter (\<lambda>i. map_option (sealed_entry have_dir metas) (rg_runs g i)) (rg_order g);
          liveIDs = {i \<in> set (rg_order g). rg_runs g i \<noteq> None};
          historical = (if have_dir then map (\<lambda>m. Sealed m ''disk'') (filter (\<lambda>m. rm_ID m \<notin> liveIDs) metas) else [])
      in rev live @ historical)"

fun entry_id :: "run_entry \<Rightarrow> string" where
  "entry_id (Sealed m origin) = rm_ID m"
| "entry_id (Live r) = lv_ID r"

lemma sealed_entry_id: "entry_id (sealed_entry b metas r) = lv_ID r"
  by (auto simp: sealed_entry_def find_Some_iff split: option.splits)

lemma map_filter_all:
  "\<forall>i \<in> set is. m i \<noteq> None \<Longrightarrow> List.map_filter (\<lambda>i. map_option f (m i)) is = map (\<lambda>i. f (the (m i))) is"
  by (induction "is") (auto simp: List.map_filter_simps)

definition memory_entries :: "bool \<Rightarrow> sealed list \<Rightarrow> registry \<Rightarrow> run_entry list" where
  "memory_entries have_dir metas g = map (\<lambda>i. sealed_entry have_dir metas (the (rg_runs g i))) (rg_order g)"

lemma registered:
  assumes "reg_inv g" "i \<in> set (rg_order g)"
  shows "\<exists>r. rg_runs g i = Some r \<and> lv_ID r = i"
proof -
  have "i \<in> dom (rg_runs g)" using assms unfolding reg_inv_def by blast
  then obtain r where r: "rg_runs g i = Some r" by (auto simp: dom_def)
  moreover have "lv_ID r = i" using assms(1) r unfolding reg_inv_def by blast
  ultimately show ?thesis by blast
qed

lemma memory_entry_ids: "reg_inv g \<Longrightarrow> map entry_id (memory_entries have_dir metas g) = rg_order g"
  unfolding memory_entries_def map_map comp_def sealed_entry_id by (rule map_idI) (use registered in fastforce)

lemma handleRuns_parts:
  assumes "reg_inv g"
  shows "handleRuns have_dir metas g = rev (memory_entries have_dir metas g) @
    (if have_dir then map (\<lambda>m. Sealed m ''disk'') (filter (\<lambda>m. rm_ID m \<notin> set (rg_order g)) metas) else [])"
proof -
  have there: "\<forall>i \<in> set (rg_order g). rg_runs g i \<noteq> None" using registered[OF assms] by fastforce
  then have ids: "{i \<in> set (rg_order g). rg_runs g i \<noteq> None} = set (rg_order g)" by blast
  show ?thesis
    unfolding handleRuns_def Let_def ids map_filter_all[OF there] memory_entries_def by (rule refl)
qed

lemma handleRuns_ids:
  assumes "reg_inv g"
  shows "map entry_id (handleRuns have_dir metas g) =
    rev (rg_order g) @ (if have_dir then filter (\<lambda>i. i \<notin> set (rg_order g)) (map rm_ID metas) else [])"
proof -
  have "map rm_ID (filter (\<lambda>m. rm_ID m \<notin> S) metas) = filter (\<lambda>i. i \<notin> S) (map rm_ID metas)" for S
    by (induction metas) auto
  then show ?thesis
    unfolding handleRuns_parts[OF assms] map_append rev_map[symmetric] memory_entry_ids[OF assms]
    by (simp add: comp_def)
qed

lemma active_entry:
  assumes "reg_inv g" "r \<in> set (activeRuns g)"
  shows "Live r \<in> set (memory_entries have_dir metas g)"
proof -
  note a = activeRuns_inv[OF assms]
  have "lv_ID r \<in> dom (rg_runs g)" using a(1) by (simp add: dom_def)
  then have "lv_ID r \<in> set (rg_order g)" using assms(1) unfolding reg_inv_def by simp
  moreover have "sealed_entry have_dir metas (the (rg_runs g (lv_ID r))) = Live r"
    using a by (simp add: sealed_entry_def)
  ultimately show ?thesis unfolding memory_entries_def set_map by (metis imageI)
qed

text \<open>Every run appears exactly once in the list of runs: those in memory, newest first, then those found on disk
  only; a run that is active is shown as it is in memory.\<close>

theorem runs_listed_once:
  assumes "registry_step\<^sup>*\<^sup>* no_runs g" "distinct (map rm_ID metas)"
  shows "map entry_id (handleRuns have_dir metas g) =
      rev (rg_order g) @ (if have_dir then filter (\<lambda>i. i \<notin> set (rg_order g)) (map rm_ID metas) else []) \<and>
    distinct (map entry_id (handleRuns have_dir metas g)) \<and>
    Live ` set (activeRuns g) \<subseteq> set (handleRuns have_dir metas g)"
proof -
  have inv: "reg_inv g" by (rule registry_reachable[OF assms(1)])
  then have d: "distinct (rg_order g)" by (simp add: reg_inv_def)
  have "distinct (map entry_id (handleRuns have_dir metas g))"
    unfolding handleRuns_ids[OF inv] using d assms(2) by auto
  moreover have "Live ` set (activeRuns g) \<subseteq> set (handleRuns have_dir metas g)"
    unfolding handleRuns_parts[OF inv] using active_entry[OF inv] by auto
  ultimately show ?thesis using handleRuns_ids[OF inv] by (intro conjI)
qed

section \<open>Status and report of one run\<close>

datatype status_reply = NoStatus | Historical "sealed" | LiveStatus live_run "file_record list" nat

definition handleStatus :: "string \<Rightarrow> bool \<Rightarrow> sealed list \<Rightarrow> registry \<Rightarrow> status_reply" where
  "handleStatus wanted have_dir metas g =
     (case pick wanted g of
        Some r \<Rightarrow> LiveStatus r (SnapshotTail (report (lv_run r)) 200) (PendingCount (watch (lv_run r)))
      | None \<Rightarrow>
          if wanted \<noteq> [] \<and> have_dir
          then (case find (\<lambda>m. rm_ID m = wanted) metas of Some m \<Rightarrow> Historical m | None \<Rightarrow> NoStatus)
          else NoStatus)"

text \<open>The report of a run in memory is put together from two readings: the bytes of its file, then, under the
  lock of the store, the rows still in memory. The store may change in between.\<close>

definition report_head :: "report_store \<Rightarrow> string list list" where
  "report_head s =
     (case stream s of
        None \<Rightarrow> [CSVHeader]
      | Some w \<Rightarrow> if csv_lines w \<noteq> [] then csv_lines w else [CSVHeader])"

definition live_report ::
  "(int option \<Rightarrow> string) \<Rightarrow> (int \<Rightarrow> bool) \<Rightarrow> effective option \<Rightarrow> report_store \<Rightarrow> report_store \<Rightarrow> string list list" where
  "live_report rfc slow eff s s' = report_head s @ WriteRemainingCSV rfc slow eff s'"

datatype report_source = FromStream | FromDisk string | FromMemory

datatype report_reply = NoReport string | Report report_source

text \<open>\<open>streaming\<close>: the run still has its file open; \<open>exists\<close> tells which files of the reports directory exist.\<close>

definition report_choice :: "string \<Rightarrow> bool \<Rightarrow> (live_run \<Rightarrow> bool) \<Rightarrow> (string \<Rightarrow> bool) \<Rightarrow> registry \<Rightarrow> report_reply" where
  "report_choice wanted have_dir streaming exists_csv g =
     (case pick wanted g of
        Some r \<Rightarrow>
          if streaming r then Report FromStream
          else if have_dir \<and> exists_csv (lv_ID r) then Report (FromDisk (lv_ID r))
          else Report FromMemory
      | None \<Rightarrow>
          if wanted = [] \<or> \<not> have_dir then NoReport ''no run''
          else if exists_csv wanted then Report (FromDisk wanted) else NoReport ''report not found'')"

lemma report_head_rows: "csv_shape s \<Longrightarrow> report_head s = CSVHeader # csv_rows s"
  unfolding csv_shape_def report_head_def csv_rows_def
  by (auto split: if_splits) (metis list.collapse)


section \<open>Alerts\<close>

record alert_state =
  as_cfg :: alert_config
  as_file :: "string option"

definition no_alerts :: alert_config where
  "no_alerts = \<lparr>SlackWebhookURL = [], GenericWebhookURL = [], SMTPHost = [], SMTPPort = 0, SMTPUser = [], EmailFrom = [],
     EmailTo = [], AlertOnFailure = False, AlertOnDispatchSkips = False, AlertOnP99MS = 0, AlertOnErrorRatePct = 0\<rparr>"

definition loadAlertsConfig :: "bool \<Rightarrow> (string \<Rightarrow> alert_config option) \<Rightarrow> string option \<Rightarrow> alert_config" where
  "loadAlertsConfig have_dir dec file =
     (if \<not> have_dir then no_alerts
      else case Option.bind file dec of None \<Rightarrow> no_alerts | Some c \<Rightarrow> c)"

text \<open>A save writes beside the file and renames; a fault before the rename leaves the file.\<close>

definition saveAlertsConfig :: "bool \<Rightarrow> (alert_config \<Rightarrow> string) \<Rightarrow> bool \<Rightarrow> alert_state \<Rightarrow> alert_state \<times> bool" where
  "saveAlertsConfig have_dir enc ok s =
     (if \<not> have_dir \<or> \<not> ok then (s, False) else (s\<lparr>as_file := Some (enc (as_cfg s))\<rparr>, True))"

datatype alert_reply = AlertError int string | AlertConfig alert_config | AlertSaved | AlertsTested int | NoChannels

definition handleAlerts ::
  "bool \<Rightarrow> (alert_config \<Rightarrow> string) \<Rightarrow> bool \<Rightarrow> string \<Rightarrow> alert_config option \<Rightarrow> alert_state \<Rightarrow> alert_reply \<times> alert_state" where
  "handleAlerts have_dir enc ok method body s =
     (if method = ''GET'' then (AlertConfig (as_cfg s), s)
      else if method = ''POST'' then
        (case body of
           None \<Rightarrow> (AlertError 400 ''bad json'', s)
         | Some c \<Rightarrow>
             (case saveAlertsConfig have_dir enc ok (s\<lparr>as_cfg := c\<rparr>) of
                (s', False) \<Rightarrow> (AlertError 500 ''save'', s')
              | (s', True) \<Rightarrow> (AlertSaved, s')))
      else (AlertError 405 ''GET or POST'', s))"

definition channelCount :: "alert_config \<Rightarrow> int" where
  "channelCount c =
     (if SlackWebhookURL c \<noteq> [] then 1 else 0) + (if GenericWebhookURL c \<noteq> [] then 1 else 0)
     + (if SMTPHost c \<noteq> [] \<and> 0 < length (EmailTo c) then 1 else 0)"

definition handleAlertsTest :: "(channel \<Rightarrow> bool) \<Rightarrow> string \<Rightarrow> alert_state \<Rightarrow> alert_reply \<times> (channel \<times> bool) list" where
  "handleAlertsTest sent method s =
     (if method \<noteq> ''POST'' then (AlertError 405 ''POST required'', [])
      else if \<not> Anything (as_cfg s) then (NoChannels, [])
      else (AlertsTested (channelCount (as_cfg s)), Fire sent (as_cfg s)))"

text \<open>The event at the end of a run; the stop reason comes from the metadata on disk when it is there.\<close>

definition run_event :: "bool \<Rightarrow> sealed list \<Rightarrow> int \<Rightarrow> rat \<Rightarrow> live_run \<Rightarrow> alert_event" where
  "run_event have_dir metas files p99ms r =
     (let m = (if have_dir then find (\<lambda>m. rm_ID m = lv_ID r) metas else None);
          failed = FailedFiles (lv_run r)
      in \<lparr>ev_FailedFiles = failed, ev_DispatchSkips = DispatchSkips (lv_run r), ev_P99LatencyMS = p99ms,
          ev_ErrorRate = (if 0 < files then fmul (fdiv (fl failed) (fl files)) 100 else 0),
          ev_StopReason = (case m of None \<Rightarrow> [] | Some m \<Rightarrow> x_StopReason (Analysis.rest m)),
          ev_StopDetail = (case m of None \<Rightarrow> [] | Some m \<Rightarrow> x_StopDetail (Analysis.rest m)),
          ev_HashMismatch = (case m of None \<Rightarrow> 0 | Some m \<Rightarrow> x_HashMismatch (Analysis.rest m)),
          ev_Reasons = []\<rparr>)"

definition dispatchAlertsWhenDone ::
  "(channel \<Rightarrow> bool) \<Rightarrow> bool \<Rightarrow> bool \<Rightarrow> sealed list \<Rightarrow> live_run \<Rightarrow> alert_state \<Rightarrow> (string list \<times> (channel \<times> bool) list) option" where
  "dispatchAlertsWhenDone sent fma have_dir metas r s =
     (let c = as_cfg s in
      if \<not> Anything c then None
      else
        let p99 = fdiv (fl (P99 (hist_Snapshot fma (Some (upLat (lv_run r)))))) 1000000;
            reasons = ShouldFire c (run_event have_dir metas (totalFiles (engine (lv_run r))) p99 r)
        in if reasons = [] then None else Some (reasons, Fire sent c))"

text \<open>A configuration that could not be saved is in force until the next start, which brings back the old one.\<close>

theorem failed_alert_save_sticks:
  "handleAlerts True enc False ''POST'' (Some c) s = (AlertError 500 ''save'', s\<lparr>as_cfg := c\<rparr>) \<and>
   loadAlertsConfig True dec (as_file (s\<lparr>as_cfg := c\<rparr>)) = loadAlertsConfig True dec (as_file s)"
  by (simp add: handleAlerts_def saveAlertsConfig_def)

text \<open>The engine counts successful uploads only, so the error rate of the event is the share of failures among
  the successes: a run in which every upload failed has the rate 0 and never trips its threshold.\<close>

theorem total_failure_has_rate_zero:
  assumes "totalFiles (engine (lv_run r)) = 0" "0 < FailedFiles (lv_run r)" "\<not> AlertOnFailure (as_cfg s)"
    "\<not> AlertOnDispatchSkips (as_cfg s)" "AlertOnP99MS (as_cfg s) = 0"
  shows "dispatchAlertsWhenDone sent fma False metas r s = None"
  using assms by (simp add: dispatchAlertsWhenDone_def run_event_def ShouldFire_def Let_def)

lemma channels_tested: "channelCount c = int (length (Fire sent c))"
  by (auto simp: channelCount_def Fire_def)

section \<open>Health\<close>

definition handleHealthz :: "bool \<Rightarrow> string \<Rightarrow> registry \<Rightarrow> (int \<times> string list \<times> string option \<times> string option) option" where
  "handleHealthz detail version g =
     (if \<not> detail then None
      else
        let actives = activeRuns g; ids = map lv_ID actives
        in Some (int (length actives), ids, (if actives = [] then None else Some (lv_ID (last actives))),
                 (if version = [] then None else Some version)))"

text \<open>The page: every occurrence of the token is replaced by the version.\<close>

definition indexVersionInjector :: "string \<Rightarrow> string option \<Rightarrow> string \<Rightarrow> string option" where
  "indexVersionInjector path index version =
     (if path \<noteq> ''/'' \<and> path \<noteq> ''/index.html'' then None
      else map_option (replace_all ''__SFTPL_VERSION__'' (if version = [] then ''dev'' else version)) index)"

section \<open>Witnesses\<close>

definition demo_conn :: "string \<Rightarrow> conn_config" where
  "demo_conn tpl =
     \<lparr>host = ''h'', port = 22, upload_folder = ''/in'', parallel_streams = 1, duration_hours = 1,
      normal = None, large_file = None,
      download = Some \<lparr>dl_folder = [], dl_streams = 1, match_mode = [],
        dl_sink = Some \<lparr>sk_kind = ''local-disk'', sk_root = ''/out'', sk_template = tpl, sk_overwrite = False\<rparr>\<rparr>,
      normal_users = [], large_users = [], download_users = [\<lparr>username = ''u'', password = ''p'', patterns = []\<rparr>],
      poll_interval = 0, trackid_timeout = 0, max_failures = 0, speed_floor_percent = 0, speed_floor_warmup = 0,
      speed_floor_breach = 0, verify_hashes = False,
      rc_PrivateKeyPEM = [], rc_PrivateKeyPassphrase = [], rc_Protocol = [], rc_TLSMode = [],
      rc_TLSInsecureSkipVerify = False, rc_TLSServerName = [], rc_TLSTrustOnFirstUse = False, rc_TLSPolicy = [],
      rc_QuirkProfile = [], rc_BastionHost = [], rc_BastionPort = 0, rc_BastionUser = [], rc_BastionPass = [],
      rc_BastionPrivateKeyPEM = [], rc_BastionPassphrase = []\<rparr>"

definition demo_start :: start_req where
  "demo_start =
     \<lparr>TargetPassword = [], PrivateKeyPEM = [], PrivateKeyPassphrase = [], BastionPass = [], BastionPrivateKeyPEM = [],
      BastionPassphrase = [], NormalUsersCSV = [], LargeUsersCSV = [], DownloadUsersCSV = ''u,p'',
      sq_Host = ''h'', sq_Port = 22, sq_UploadFolder = ''/in'', sq_ParallelStreams = 1, sq_DurationHours = 1,
      sq_PollSeconds = 0, sq_TrackIDTimeoutS = 0, sq_MaxConsecutiveFailures = 0, sq_Protocol = [], sq_TLSMode = [],
      sq_TLSInsecureSkipVerify = False, sq_TLSServerName = [], sq_TLSTrustOnFirstUse = False, sq_TLSPolicy = [],
      sq_QuirkProfile = [], sq_BastionHost = [], sq_BastionPort = 0, sq_BastionUser = [], sq_SpeedFloorPercent = 0,
      sq_SpeedFloorWarmupSec = 0, sq_SpeedFloorBreachSec = 0, sq_VerifyHashes = False, sq_NormalEnabled = False,
      sq_FilesPerMinute = 0, sq_NormalMinMB = 0, sq_NormalMaxMB = 0, sq_NormalContentType = [], sq_NormalRamp = None,
      sq_LargeEnabled = False, sq_LargeMin = 0, sq_LargeMax = 0, sq_LargeUnit = [], sq_IntervalMinutes = 0,
      sq_DownloadEnabled = True, sq_DownloadFolder = [], sq_DownloadParallelStreams = 1, sq_DownloadMatchMode = [],
      sq_TargetUsername = [], sq_NormalSource = None, sq_LargeSource = None,
      sq_DownloadSink = Some \<lparr>sk_kind = ''local-disk'', sk_root = ''/out'', sk_template = ''{user}/{filename}'', sk_overwrite = False\<rparr>\<rparr>"

lemma demo_start_builds: "buildRunConfig demo_start = Inr (demo_conn ''{user}/{filename}'')"
proof -
  have "ParseDownloadUsersCSV (csv_reads True ''u,p'') = Inr [\<lparr>username = ''u'', password = ''p'', patterns = []\<rparr>]" by code_simp
  then show ?thesis
    by (simp add: buildRunConfig_def build_normal_def build_large_def build_download_def demo_start_def base_config_def demo_conn_def i64_def)
qed

definition demo_live :: "run \<Rightarrow> string \<Rightarrow> live_run" where
  "demo_live x i = \<lparr>lv_ID = i, lv_StartedAt = 0, lv_StartedBy = ''manual'', lv_Cfg = demo_conn ''{user}/{filename}'',
     lv_run = x, lv_active = True\<rparr>"

lemma demo_reached: "registry_step\<^sup>*\<^sup>* no_runs (register_run (demo_live x ''run-1-1'') no_runs)"
  by (rule r_into_rtranclp, rule Registered) (simp_all add: no_runs_def demo_live_def)

lemma demo_active: "activeRuns (register_run (demo_live x ''run-1-1'') no_runs) = [demo_live x ''run-1-1'']"
proof -
  have "activeRuns (register_run (demo_live x ''run-1-1'') no_runs) = activeRuns no_runs @ [demo_live x ''run-1-1'']"
    by (rule register_keeps_active[THEN conjunct2, THEN conjunct1]) (simp_all add: demo_live_def no_runs_def reg_inv_def)
  then show ?thesis by (simp add: activeRuns_def no_runs_def List.map_filter_simps)
qed


theorem concurrent_starts_share_paths_witness:
  "\<forall>x. prepare_run None no_runs demo_start = Inr (demo_conn ''{user}/{filename}'') \<and>
     (\<exists>d. prepare_run None (register_run (demo_live x ''run-1-1'') no_runs) demo_start
        = Inr ((demo_conn ''{user}/{filename}'')\<lparr>download := Some (d\<lparr>dl_sink := Some \<lparr>sk_kind = ''local-disk'', sk_root = ''/out'',
            sk_template = prefixed ''{user}/{filename}'', sk_overwrite = False\<rparr>\<rparr>)\<rparr>))"
proof
  fix x
  let ?s = "\<lparr>sk_kind = ''local-disk'', sk_root = ''/out'', sk_template = ''{user}/{filename}'', sk_overwrite = False\<rparr>"
  have nc: "\<not> str_contains ''{user}/{filename}'' ''{run_id}''" by code_simp
  have l: "local_sink (demo_conn ''{user}/{filename}'') ?s"
    unfolding local_sink_def using nc by (simp add: demo_conn_def)
  have n: "\<not> list_ex (shares_root (sk_root ?s)) (activeRunsSnapshot no_runs)"
    by (simp add: activeRunsSnapshot_def activeRuns_def no_runs_def List.map_filter_simps)
  have i: "reg_inv no_runs" by (simp add: reg_inv_def no_runs_def)
  note t = concurrent_starts_share_paths[OF demo_start_builds l n i, of "demo_live x ''run-1-1''"]
  show "prepare_run None no_runs demo_start = Inr (demo_conn ''{user}/{filename}'') \<and>
     (\<exists>d. prepare_run None (register_run (demo_live x ''run-1-1'') no_runs) demo_start
        = Inr ((demo_conn ''{user}/{filename}'')\<lparr>download := Some (d\<lparr>dl_sink := Some \<lparr>sk_kind = ''local-disk'', sk_root = ''/out'',
            sk_template = prefixed ''{user}/{filename}'', sk_overwrite = False\<rparr>\<rparr>)\<rparr>))"
    using t by (auto simp: demo_live_def no_runs_def)
qed

theorem runs_listed_once_witness:
  "\<forall>x. map entry_id (handleRuns False [] (register_run (demo_live x ''run-1-1'') no_runs))
     = rev (rg_order (register_run (demo_live x ''run-1-1'') no_runs))"
  using runs_listed_once[OF demo_reached, of "[]" False] by simp


theorem total_failure_has_rate_zero_witness:
  "\<forall>x. dispatchAlertsWhenDone (\<lambda>c. True) False False []
     (demo_live (x\<lparr>engine := Metrics.New 0 0, FailedFiles := 5\<rparr>) ''run-1-1'')
     \<lparr>as_cfg = no_alerts\<lparr>SlackWebhookURL := ''s'', AlertOnErrorRatePct := 1\<rparr>, as_file = None\<rparr> = None"
proof
  fix x
  show "dispatchAlertsWhenDone (\<lambda>c. True) False False []
     (demo_live (x\<lparr>engine := Metrics.New 0 0, FailedFiles := 5\<rparr>) ''run-1-1'')
     \<lparr>as_cfg = no_alerts\<lparr>SlackWebhookURL := ''s'', AlertOnErrorRatePct := 1\<rparr>, as_file = None\<rparr> = None"
    by (rule total_failure_has_rate_zero) (simp_all add: demo_live_def Metrics.New_def no_alerts_def)
qed

end
