(* ===== verification/Dial.thy ===== *)
theory Dial
  imports HostKeys
begin

text \<open>
  How connections to a server are opened: the named quirk profiles (internal/quirks/quirks.go), the choice
  of a protocol and its options (internal/protocol/protocol.go), the SSH dial (internal/sftpx/client.go)
  and the jump host (internal/bastion/bastion.go). The libraries behind the dials are environment: a
  server is what it presents and what it accepts, and the steps of a dial run in the order in which
  the protocols prescribe them, so that the key exchange and its host-key callback come before any
  credential is offered.
\<close>

section \<open>Quirk profiles\<close>

text \<open>The algorithm names that are constants of the SSH package keep their identifiers.\<close>

datatype key_algo =
  KeyAlgoED25519 | KeyAlgoRSASHA512 | KeyAlgoRSASHA256 | KeyAlgoRSA | KeyAlgoECDSA256 | KeyAlgoECDSA384 | KeyAlgoECDSA521

record quirk_profile =
  qp_Name :: string
  qp_HostKeyAlgorithms :: "key_algo list"
  qp_KeyExchanges :: "string list"
  qp_DisableEPSV :: bool
  qp_DisableMLSD :: bool
  qp_DisableUTF8 :: bool

definition plain_profile :: "string \<Rightarrow> quirk_profile" where
  "plain_profile name =
     \<lparr>qp_Name = name, qp_HostKeyAlgorithms = [], qp_KeyExchanges = [], qp_DisableEPSV = False,
      qp_DisableMLSD = False, qp_DisableUTF8 = False\<rparr>"

definition profileTable :: "(string \<times> quirk_profile) list" where
  "profileTable =
     [(''default'', plain_profile ''default''),
      (''openssh-legacy'', (plain_profile ''openssh-legacy'')\<lparr>
         qp_HostKeyAlgorithms :=
           [KeyAlgoED25519, KeyAlgoRSASHA512, KeyAlgoRSASHA256, KeyAlgoRSA, KeyAlgoECDSA256, KeyAlgoECDSA384, KeyAlgoECDSA521],
         qp_KeyExchanges :=
           [''curve25519-sha256@libssh.org'', ''curve25519-sha256'', ''ecdh-sha2-nistp256'', ''ecdh-sha2-nistp384'',
            ''ecdh-sha2-nistp521'', ''diffie-hellman-group14-sha256'', ''diffie-hellman-group14-sha1'']\<rparr>),
      (''ftp-no-epsv'', (plain_profile ''ftp-no-epsv'')\<lparr>qp_DisableEPSV := True\<rparr>),
      (''ftp-no-mlsd'', (plain_profile ''ftp-no-mlsd'')\<lparr>qp_DisableMLSD := True\<rparr>),
      (''ftp-iis'', (plain_profile ''ftp-iis'')\<lparr>qp_DisableEPSV := True, qp_DisableMLSD := True, qp_DisableUTF8 := True\<rparr>)]"

definition Lookup :: "string \<Rightarrow> quirk_profile" where
  "Lookup name =
     (if name = [] then the (map_of profileTable ''default'')
      else case map_of profileTable name of Some p \<Rightarrow> p | None \<Rightarrow> the (map_of profileTable ''default''))"

definition Names :: "string list" where
  "Names = sort_key (map (of_char :: char \<Rightarrow> nat)) (map fst profileTable)"

section \<open>Protocols\<close>

datatype protocol = SFTP | FTP | FTPS

definition protocol_Normalize :: "string \<Rightarrow> protocol" where
  "protocol_Normalize p = (if p = ''ftp'' then FTP else if p = ''ftps'' then FTPS else SFTP)"

datatype tls_mode = TLSNone | TLSImplicit | TLSExplicit

definition ParseTLSMode :: "string \<Rightarrow> tls_mode" where
  "ParseTLSMode s = (if s = ''implicit'' then TLSImplicit else if s = ''explicit'' then TLSExplicit else TLSNone)"

text \<open>The options of a dial; \<open>'cb\<close> are host-key callbacks, \<open>'au\<close> authentication methods.\<close>

record ('cb, 'au) dial_opts =
  do_Host :: string
  do_Port :: int
  do_User :: string
  do_Pass :: string
  do_SSHHostKeyCallback :: "'cb option"
  do_SSHAuth :: "'au list"
  do_TLSMode :: tls_mode
  do_InsecureSkipVerify :: bool
  do_TLSServerName :: string
  do_TLSTrustOnFirstUse :: bool
  do_Bastion :: bool
  do_QuirkProfile :: string
  do_TLSPolicy :: string

section \<open>FTP and FTPS\<close>

datatype tls_version = TLS10 | TLS11 | TLS12 | TLS13

fun version_code :: "tls_version \<Rightarrow> int" where
  "version_code TLS10 = 0x0301"
| "version_code TLS11 = 0x0302"
| "version_code TLS12 = 0x0303"
| "version_code TLS13 = 0x0304"

record tls_config =
  tc_ServerName :: string
  tc_MinVersion :: tls_version
  tc_InsecureSkipVerify :: bool

datatype ftp_option =
  WithTimeout | WithContext | WithDisabledEPSV | WithDisabledMLSD | WithDisabledUTF8
| WithTLS tls_config | WithExplicitTLS tls_config

definition tls_min_version :: "string \<Rightarrow> tls_version" where
  "tls_min_version policy =
     (if policy = ''modern'' \<or> policy = ''tls13'' then TLS13 else if policy = ''legacy'' then TLS10 else TLS12)"

definition tls_config_of :: "('cb, 'au) dial_opts \<Rightarrow> bool \<Rightarrow> tls_config" where
  "tls_config_of opts has_store =
     \<lparr>tc_ServerName = (if do_TLSServerName opts = [] then do_Host opts else do_TLSServerName opts),
      tc_MinVersion = tls_min_version (do_TLSPolicy opts),
      tc_InsecureSkipVerify = (do_InsecureSkipVerify opts \<or> has_store)\<rparr>"

definition ftp_options :: "('cb, 'au) dial_opts \<Rightarrow> bool \<Rightarrow> bool \<Rightarrow> bool \<Rightarrow> ftp_option list" where
  "ftp_options opts with_ctx useTLS has_store =
     (let prof = Lookup (do_QuirkProfile opts); cfg = tls_config_of opts has_store
      in [WithTimeout] @ (if with_ctx then [WithContext] else [])
         @ (if qp_DisableEPSV prof then [WithDisabledEPSV] else [])
         @ (if qp_DisableMLSD prof then [WithDisabledMLSD] else [])
         @ (if qp_DisableUTF8 prof then [WithDisabledUTF8] else [])
         @ (if \<not> useTLS then []
            else case do_TLSMode opts of TLSImplicit \<Rightarrow> [WithTLS cfg] | _ \<Rightarrow> [WithExplicitTLS cfg]))"

text \<open>An FTP server: whether it answers under these options, the highest TLS version it speaks, the
  certificates it presents, the server names under which the system accepts its chain, and whether it
  accepts the login.\<close>

record ftp_server =
  sv_answers :: "ftp_option list \<Rightarrow> bool"
  sv_version :: tls_version
  sv_peers :: "certificate list"
  sv_chain_ok :: "string \<Rightarrow> bool"
  sv_login :: "string \<Rightarrow> string \<Rightarrow> bool"

datatype ftp_dial_error = FtpDial | TlsVersion | TlsChain | TlsVerify conn_error | FtpLogin

text \<open>The certificate an FTPS connection keeps, and the fingerprint handed to the capture callback.\<close>

record ftp_conn =
  fc_cert :: "certificate option"
  fc_captured :: "string option"

definition tls_handshake ::
  "(string \<Rightarrow> string) \<Rightarrow> (string \<Rightarrow> string) \<Rightarrow> tls_save_call option \<times> string list \<times> int
   \<Rightarrow> ('cb, 'au) dial_opts \<Rightarrow> ftp_server \<Rightarrow> tls_store option
   \<Rightarrow> tls_store option \<times> ftp_dial_error option \<times> certificate option" where
  "tls_handshake uni sha env opts sv st =
     (let cfg = tls_config_of opts (st \<noteq> None) in
      if version_code (sv_version sv) < version_code (tc_MinVersion cfg) then (st, Some TlsVersion, None)
      else if \<not> tc_InsecureSkipVerify cfg \<and> \<not> sv_chain_ok sv (tc_ServerName cfg) then (st, Some TlsChain, None)
      else case env of (fault, ks, now) \<Rightarrow>
        case VerifyConnection uni sha fault ks now st (do_TLSTrustOnFirstUse opts) (do_Host opts) (do_Port opts) (sv_peers sv) of
          (st', err, captured) \<Rightarrow> (st', map_option TlsVerify err, captured))"

definition dialFTP ::
  "(string \<Rightarrow> string) \<Rightarrow> (string \<Rightarrow> string) \<Rightarrow> tls_save_call option \<times> string list \<times> int
   \<Rightarrow> bool \<Rightarrow> ('cb, 'au) dial_opts \<Rightarrow> bool \<Rightarrow> ftp_server \<Rightarrow> tls_store option
   \<Rightarrow> tls_store option \<times> (ftp_dial_error + ftp_conn)" where
  "dialFTP uni sha env with_ctx opts useTLS sv st =
     (if \<not> sv_answers sv (ftp_options opts with_ctx useTLS (st \<noteq> None)) then (st, Inl FtpDial)
      else
        case (if useTLS then tls_handshake uni sha env opts sv st else (st, None, None)) of
          (st', Some err, captured) \<Rightarrow> (st', Inl err)
        | (st', None, captured) \<Rightarrow>
            if \<not> sv_login sv (do_User opts) (do_Pass opts) then (st', Inl FtpLogin)
            else (st', Inr \<lparr>fc_cert = captured,
                    fc_captured = (if useTLS then map_option (tlsFingerprint sha) captured else None)\<rparr>))"

section \<open>SSH and the jump host\<close>

text \<open>A host-key callback reads and changes the trust store it closes over; None as an error accepts.\<close>

type_synonym ('s, 'e) key_callback = "string \<Rightarrow> sshkey \<Rightarrow> 's \<Rightarrow> 's \<times> 'e option"

datatype ssh_auth = PasswordAuth string | KeyboardInteractive string | PublicKeys string

definition passwordAuthMethods :: "string \<Rightarrow> ssh_auth list" where
  "passwordAuthMethods pass = [PasswordAuth pass, KeyboardInteractive pass]"

text \<open>The responder answers every question with the password.\<close>

definition ki_answers :: "string \<Rightarrow> string list \<Rightarrow> string list" where
  "ki_answers pass questions = map (\<lambda>q. pass) questions"

record ssh_client_config =
  cc_User :: string
  cc_Auth :: "ssh_auth list"
  cc_HostKeyAlgorithms :: "key_algo list"
  cc_KeyExchanges :: "string list"

text \<open>An SSH server: reachable, directly or through the jump host; the key it proves under a configuration
  (None when no algorithm is shared), the credentials it accepts, and its SFTP subsystem.\<close>

record ssh_server =
  ss_tcp :: "bool \<Rightarrow> bool"
  ss_key :: "ssh_client_config \<Rightarrow> sshkey option"
  ss_accepts :: "string \<Rightarrow> ssh_auth list \<Rightarrow> bool"
  ss_subsystem :: bool

datatype 'e ssh_dial_error = BastionDial | SshTcp | SshNegotiation | HostKeyRefused 'e | SshAuthFailed | SftpOpen

text \<open>The handshake: the callback decides on the key before any credential is offered. Beside the outcome it
  yields the store and the credentials the server has seen.\<close>

definition ssh_handshake ::
  "('s, 'e) key_callback \<Rightarrow> string \<Rightarrow> ssh_client_config \<Rightarrow> ssh_server \<Rightarrow> 's \<Rightarrow> 's \<times> 'e ssh_dial_error option \<times> ssh_auth list" where
  "ssh_handshake cb addr cfg sv s =
     (case ss_key sv cfg of
        None \<Rightarrow> (s, Some SshNegotiation, [])
      | Some key \<Rightarrow> (case cb addr key s of
            (s', Some e) \<Rightarrow> (s', Some (HostKeyRefused e), [])
          | (s', None) \<Rightarrow>
              if ss_accepts sv (cc_User cfg) (cc_Auth cfg) then (s', None, cc_Auth cfg)
              else (s', Some SshAuthFailed, cc_Auth cfg)))"

definition JoinHostPort :: "string \<Rightarrow> string \<Rightarrow> string" where
  "JoinHostPort h p = (if CHR '':'' \<in> set h then ''['' @ h @ '']:'' @ p else h @ '':'' @ p)"

text \<open>The process-wide callback; without one every key is refused with the error given.\<close>

definition currentCallback :: "'e \<Rightarrow> ('s, 'e) key_callback option \<Rightarrow> ('s, 'e) key_callback" where
  "currentCallback refusal installed = (case installed of Some cb \<Rightarrow> cb | None \<Rightarrow> (\<lambda>h k s. (s, Some refusal)))"

definition DialWithOpts ::
  "'e \<Rightarrow> ('s, 'e) key_callback option \<Rightarrow> (('s, 'e) key_callback, ssh_auth) dial_opts \<Rightarrow> quirk_profile \<Rightarrow> ssh_server \<Rightarrow> 's
   \<Rightarrow> 's \<times> 'e ssh_dial_error option \<times> ssh_auth list" where
  "DialWithOpts refusal installed opts prof sv s =
     (let cb = (case do_SSHHostKeyCallback opts of Some c \<Rightarrow> c | None \<Rightarrow> currentCallback refusal installed);
          auth = (if do_SSHAuth opts = [] then passwordAuthMethods (do_Pass opts) else do_SSHAuth opts);
          cfg = \<lparr>cc_User = do_User opts, cc_Auth = auth, cc_HostKeyAlgorithms = qp_HostKeyAlgorithms prof,
                 cc_KeyExchanges = qp_KeyExchanges prof\<rparr>;
          addr = JoinHostPort (do_Host opts) (go_itoa (do_Port opts))
      in if \<not> ss_tcp sv (do_Bastion opts) then (s, Some (if do_Bastion opts then BastionDial else SshTcp), [])
         else case ssh_handshake cb addr cfg sv s of
             (s', Some e, seen) \<Rightarrow> (s', Some e, seen)
           | (s', None, seen) \<Rightarrow> (s', (if ss_subsystem sv then None else Some SftpOpen), seen))"

definition dialSFTP ::
  "'e \<Rightarrow> ('s, 'e) key_callback option \<Rightarrow> (('s, 'e) key_callback, ssh_auth) dial_opts \<Rightarrow> ssh_server \<Rightarrow> 's
   \<Rightarrow> 's \<times> 'e ssh_dial_error option \<times> ssh_auth list" where
  "dialSFTP refusal installed opts sv s = DialWithOpts refusal installed opts (Lookup (do_QuirkProfile opts)) sv s"

record ('s, 'e) bastion_config =
  bc_Host :: string
  bc_Port :: int
  bc_User :: string
  bc_Pass :: string
  bc_PrivateKey :: string
  bc_Passphrase :: string
  bc_HostKeyCallback :: "('s, 'e) key_callback option"

datatype 'e bastion_error =
  BastionNoHost | BastionNoUser | BastionNoCallback | BastionKey string | BastionNoAuth | BastionSsh "'e ssh_dial_error"

text \<open>\<open>signer\<close> is \<open>ParsePrivateKey\<close>: an error text or the key under which it authenticates.\<close>

definition bastion_auth :: "(string \<Rightarrow> string \<Rightarrow> string + string) \<Rightarrow> ('s, 'e) bastion_config \<Rightarrow> string + ssh_auth list" where
  "bastion_auth signer c =
     (case (if bc_PrivateKey c = [] then Inr []
            else case signer (bc_PrivateKey c) (bc_Passphrase c) of Inl e \<Rightarrow> Inl e | Inr k \<Rightarrow> Inr [PublicKeys k]) of
        Inl e \<Rightarrow> Inl e
      | Inr ks \<Rightarrow> Inr (ks @ (if bc_Pass c = [] then [] else passwordAuthMethods (bc_Pass c))))"

definition bastion_Open ::
  "(string \<Rightarrow> string \<Rightarrow> string + string) \<Rightarrow> ('s, 'e) bastion_config \<Rightarrow> ssh_server \<Rightarrow> 's
   \<Rightarrow> 's \<times> 'e bastion_error option \<times> ssh_auth list" where
  "bastion_Open signer c sv s =
     (if bc_Host c = [] then (s, Some BastionNoHost, [])
      else if bc_User c = [] then (s, Some BastionNoUser, [])
      else case bc_HostKeyCallback c of
          None \<Rightarrow> (s, Some BastionNoCallback, [])
        | Some cb \<Rightarrow>
            (case bastion_auth signer c of
               Inl e \<Rightarrow> (s, Some (BastionKey e), [])
             | Inr [] \<Rightarrow> (s, Some BastionNoAuth, [])
             | Inr auth \<Rightarrow>
                 let port = (if bc_Port c \<le> 0 then 22 else bc_Port c);
                     cfg = \<lparr>cc_User = bc_User c, cc_Auth = auth, cc_HostKeyAlgorithms = [], cc_KeyExchanges = []\<rparr>
                 in if \<not> ss_tcp sv False then (s, Some (BastionSsh SshTcp), [])
                    else case ssh_handshake cb (JoinHostPort (bc_Host c) (go_itoa port)) cfg sv s of
                        (s', e, seen) \<Rightarrow> (s', map_option BastionSsh e, seen)))"

text \<open>The texts for a private key that cannot be read, from the library's message in lower case.\<close>

definition key_error_text :: "string \<Rightarrow> string \<Rightarrow> string" where
  "key_error_text msg low =
     (if str_contains low ''decryption password'' \<or> str_contains low ''incorrect passphrase''
         \<or> str_contains low ''x509: decryption password''
      then ''private key passphrase is incorrect''
      else if str_contains low ''passphrase protected'' \<or> str_contains low ''encrypted''
      then ''private key is encrypted '' @ [CHR 0xE2, CHR 0x80, CHR 0x94] @ '' supply a passphrase''
      else if str_contains low ''no key found'' \<or> str_contains low ''pem''
      then ''private key PEM is malformed (no key block found)''
      else if str_contains low ''unsupported key type'' \<or> str_contains low ''unknown key type''
      then ''private key type is not supported (use ed25519, RSA, or ECDSA)''
      else ''private key parse failed: '' @ msg)"

definition ParsePrivateKey ::
  "(string \<Rightarrow> string) \<Rightarrow> (string \<Rightarrow> string \<Rightarrow> string + string) \<Rightarrow> (string \<Rightarrow> string + string) \<Rightarrow> string \<Rightarrow> string \<Rightarrow> string + string" where
  "ParsePrivateKey uni with_passphrase plain pem passphrase =
     (if pem = [] then Inl ''private key is empty''
      else case (if passphrase \<noteq> [] then with_passphrase pem passphrase else plain pem) of
          Inr k \<Rightarrow> Inr k
        | Inl msg \<Rightarrow> Inl (key_error_text msg (to_lower uni msg)))"

text \<open>\<open>Upload\<close> of an open connection: the stage at which it failed, empty on success.\<close>

definition sftp_Upload :: "bool \<Rightarrow> int \<Rightarrow> bool \<Rightarrow> bool \<Rightarrow> int \<times> string \<times> bool" where
  "sftp_Upload created n copied closed =
     (if \<not> created then (0, ''create'', False)
      else if \<not> copied then (n, ''write'', False)
      else if \<not> closed then (n, ''close'', False)
      else (n, [], True))"


section \<open>Connections\<close>

text \<open>The dial of a protocol: FTP and FTPS share a dial, every other name is SFTP.\<close>

datatype ('e, 's) dial_result = SftpResult "'s \<times> 'e ssh_dial_error option \<times> ssh_auth list" | FtpResult "tls_store option \<times> (ftp_dial_error + ftp_conn)"

definition protocol_Dial ::
  "'e \<Rightarrow> ('s, 'e) key_callback option \<Rightarrow> (string \<Rightarrow> string) \<Rightarrow> (string \<Rightarrow> string) \<Rightarrow> tls_save_call option \<times> string list \<times> int
   \<Rightarrow> bool \<Rightarrow> string \<Rightarrow> (('s, 'e) key_callback, ssh_auth) dial_opts \<Rightarrow> ssh_server \<Rightarrow> ftp_server \<Rightarrow> 's \<Rightarrow> tls_store option
   \<Rightarrow> ('e, 's) dial_result" where
  "protocol_Dial refusal installed uni sha env ctx p opts ssh ftp s st =
     (case protocol_Normalize p of
        SFTP \<Rightarrow> SftpResult (dialSFTP refusal installed opts ssh s)
      | FTP \<Rightarrow> FtpResult (dialFTP uni sha env ctx opts False ftp st)
      | FTPS \<Rightarrow> FtpResult (dialFTP uni sha env ctx opts True ftp st))"

record conn_info =
  ci_Name :: string
  ci_Size :: int
  ci_Mode :: int
  ci_ModTime :: int

text \<open>\<open>List\<close> and \<open>Stat\<close> of both kinds of connection, from what the library yields; an FTP entry has no mode, and
  an unsigned size.\<close>

definition sftpConn_List :: "(string + (string \<times> int \<times> int \<times> int) list) \<Rightarrow> string + conn_info list" where
  "sftpConn_List r =
     (case r of Inl e \<Rightarrow> Inl e
      | Inr infos \<Rightarrow> Inr (map (\<lambda>(n, sz, m, t). \<lparr>ci_Name = n, ci_Size = sz, ci_Mode = m, ci_ModTime = t\<rparr>) infos))"

definition to_int64 :: "nat \<Rightarrow> int" where
  "to_int64 n = (int n + 2 ^ 63) mod 2 ^ 64 - 2 ^ 63"

definition ftpConn_List :: "(string + (string \<times> nat \<times> int) list) \<Rightarrow> string + conn_info list" where
  "ftpConn_List r =
     (case r of Inl e \<Rightarrow> Inl e
      | Inr es \<Rightarrow> Inr (map (\<lambda>(n, sz, t). \<lparr>ci_Name = n, ci_Size = to_int64 sz, ci_Mode = 0, ci_ModTime = t\<rparr>) es))"

definition ErrNoStat :: string where
  "ErrNoStat = ''stat not supported by this protocol''"

definition ftpConn_Stat :: "int option \<Rightarrow> string \<Rightarrow> string + conn_info" where
  "ftpConn_Stat sz remotePath =
     (case sz of None \<Rightarrow> Inl ErrNoStat
      | Some n \<Rightarrow> Inr \<lparr>ci_Name = remotePath, ci_Size = n, ci_Mode = 0, ci_ModTime = 0\<rparr>)"

text \<open>The reader handed to STOR counts what each read yields; the failure of a STOR is always a write.\<close>

primrec countingReader :: "int \<Rightarrow> int list \<Rightarrow> int" where
  "countingReader n [] = n"
| "countingReader n (r # rs) = countingReader (n + r) rs"

definition ftpConn_Upload :: "int list \<Rightarrow> bool \<Rightarrow> int \<times> string \<times> bool" where
  "ftpConn_Upload reads stored = (if stored then (countingReader 0 reads, [], True) else (countingReader 0 reads, ''write'', False))"

text \<open>\<open>DrainTo\<close>: the bytes copied and the error of opening or copying.\<close>

definition DrainTo :: "(string + int \<times> string option) \<Rightarrow> int \<times> string option" where
  "DrainTo got = (case got of Inl e \<Rightarrow> (0, Some e) | Inr (n, err) \<Rightarrow> (n, err))"

text \<open>The session of a jump host: open, or closed for ever. Its dialler refuses when it is closed, and the flags say
  whether the connection was closed by this call.\<close>

definition bastion_Dialer :: "bool \<Rightarrow> string + 'c \<Rightarrow> string + 'c" where
  "bastion_Dialer is_open dialled = (if \<not> is_open then Inl ''bastion: client is closed'' else dialled)"

definition bastion_Close :: "bool \<Rightarrow> string option \<Rightarrow> bool \<times> string option" where
  "bastion_Close is_open close_err = (if \<not> is_open then (False, None) else (False, close_err))"

text \<open>\<open>Close\<close> of an SFTP client runs once; a later call does nothing and returns no error.\<close>

definition sftp_Close :: "bool \<Rightarrow> string option \<Rightarrow> bool \<times> string option" where
  "sftp_Close closed close_err = (if closed then (True, None) else (True, close_err))"

lemma countingReader_sum: "countingReader n rs = n + sum_list rs"
  by (induction rs arbitrary: n) auto

lemma both_uploads_count:
  "fst (ftpConn_Upload rs ok) = sum_list rs" "fst (sftp_Upload True (sum_list rs) a b) = sum_list rs"
  by (auto simp: ftpConn_Upload_def sftp_Upload_def countingReader_sum)

lemma to_int64_small: "n < 2 ^ 63 \<Longrightarrow> to_int64 n = int n"
  by (simp add: to_int64_def)

lemma closes_once:
  "sftp_Close (fst (sftp_Close c e)) e' = (True, None)" "bastion_Close (fst (bastion_Close b e)) e' = (False, None)"
  "bastion_Dialer (fst (bastion_Close b e)) d = Inl ''bastion: client is closed''"
  by (simp_all add: sftp_Close_def bastion_Close_def bastion_Dialer_def)


section \<open>Profiles are total\<close>

lemma Lookup_names: "name \<in> fst ` set profileTable \<Longrightarrow> qp_Name (Lookup name) = name"
  by (auto simp: profileTable_def Lookup_def plain_profile_def)

lemma Lookup_unknown: "name \<notin> fst ` set profileTable \<Longrightarrow> Lookup name = plain_profile ''default''"
  by (auto simp: Lookup_def map_of_eq_None_iff profileTable_def split: option.splits)

lemma Names_complete: "set Names = fst ` set profileTable" "sorted (map (map (of_char :: char \<Rightarrow> nat)) Names)"
  by (simp_all add: Names_def)

lemma legacy_keeps_modern_first:
  "hd (qp_HostKeyAlgorithms (Lookup ''openssh-legacy'')) = KeyAlgoED25519"
  "last (qp_KeyExchanges (Lookup ''openssh-legacy'')) = ''diffie-hellman-group14-sha1''"
  by (simp_all add: Lookup_def profileTable_def)

section \<open>Credentials and host keys\<close>

lemma handshake_seen:
  assumes "ssh_handshake cb addr cfg sv s = (s', err, seen)" "seen \<noteq> []"
  shows "\<exists>key. ss_key sv cfg = Some key \<and> cb addr key s = (s', None)"
  using assms by (auto simp: ssh_handshake_def split: option.splits prod.splits if_splits)

definition dial_config :: "(('s, 'e) key_callback, ssh_auth) dial_opts \<Rightarrow> quirk_profile \<Rightarrow> ssh_client_config" where
  "dial_config opts prof =
     \<lparr>cc_User = do_User opts,
      cc_Auth = (if do_SSHAuth opts = [] then passwordAuthMethods (do_Pass opts) else do_SSHAuth opts),
      cc_HostKeyAlgorithms = qp_HostKeyAlgorithms prof, cc_KeyExchanges = qp_KeyExchanges prof\<rparr>"

definition dial_addr :: "('cb, 'au) dial_opts \<Rightarrow> string" where
  "dial_addr opts = JoinHostPort (do_Host opts) (go_itoa (do_Port opts))"

lemma DialWithOpts_seen:
  assumes "DialWithOpts refusal installed opts prof sv s = (s', err, seen)" "seen \<noteq> []"
  shows "\<exists>key. ss_key sv (dial_config opts prof) = Some key \<and>
    (case do_SSHHostKeyCallback opts of Some c \<Rightarrow> c | None \<Rightarrow> currentCallback refusal installed) (dial_addr opts) key s
      = (s', None)"
proof -
  let ?cb = "case do_SSHHostKeyCallback opts of Some c \<Rightarrow> c | None \<Rightarrow> currentCallback refusal installed"
  from assms obtain e where "ssh_handshake ?cb (dial_addr opts) (dial_config opts prof) sv s = (s', e, seen)"
    by (auto simp: DialWithOpts_def dial_addr_def dial_config_def Let_def split: if_splits prod.splits option.splits)
  from handshake_seen[OF this assms(2)] show ?thesis .
qed

definition strict_callback :: "(string \<Rightarrow> string) \<Rightarrow> (sshkey \<Rightarrow> string) \<Rightarrow> (store, verify_error) key_callback" where
  "strict_callback uni fpr hostname key s = (s, StrictCallback uni fpr s hostname key)"

lemma Verify_trusted: "Verify uni fpr s hostname key = None \<longleftrightarrow> ssh_trusted s (host_addr uni hostname) (marshal key)"
  by (auto simp: Verify_def host_addr_def ssh_trusted_def split: prod.splits option.splits if_splits)

text \<open>C36: With the strict callback installed, or none at all, an SSH dial shows its password or key only to a
  server that proved the key stored for the address, and it never changes the store.\<close>

theorem credentials_only_to_trusted:
  assumes "dialSFTP refusal installed opts sv s = (s', err, seen)"
    and "installed \<in> {None, Some (strict_callback uni fpr)}" "do_SSHHostKeyCallback opts = None"
  shows "s' = s \<and> (seen \<noteq> [] \<longrightarrow>
    (\<exists>key. ss_key sv (dial_config opts (Lookup (do_QuirkProfile opts))) = Some key \<and>
       ssh_trusted s (host_addr uni (dial_addr opts)) (marshal key)))"
proof
  let ?cb = "case do_SSHHostKeyCallback opts of Some c \<Rightarrow> c | None \<Rightarrow> currentCallback refusal installed"
  have same: "fst (?cb a k t) = t" for a k t
    using assms(2,3) by (auto simp: currentCallback_def strict_callback_def)
  then have "fst (ssh_handshake ?cb a cfg sv s) = s" for a cfg
    by (auto simp: ssh_handshake_def split: option.splits prod.splits) (metis fst_conv)+
  then show "s' = s"
    using assms(1) unfolding dialSFTP_def DialWithOpts_def Let_def
    by (auto split: if_splits prod.splits option.splits) (metis fst_conv)+
  show "seen \<noteq> [] \<longrightarrow> (\<exists>key. ss_key sv (dial_config opts (Lookup (do_QuirkProfile opts))) = Some key \<and>
      ssh_trusted s (host_addr uni (dial_addr opts)) (marshal key))"
  proof
    assume "seen \<noteq> []"
    from DialWithOpts_seen[OF assms(1)[unfolded dialSFTP_def] this] obtain key where
      k: "ss_key sv (dial_config opts (Lookup (do_QuirkProfile opts))) = Some key" "?cb (dial_addr opts) key s = (s', None)"
      by blast
    have "Verify uni fpr s (dial_addr opts) key = None"
      using k(2) assms(2,3) by (auto simp: currentCallback_def strict_callback_def StrictCallback_def)
    with k(1) show "\<exists>key. ss_key sv (dial_config opts (Lookup (do_QuirkProfile opts))) = Some key \<and>
        ssh_trusted s (host_addr uni (dial_addr opts)) (marshal key)"
      by (auto simp: Verify_trusted)
  qed
qed

lemma bastion_seen:
  assumes "bastion_Open signer c sv s = (s', err, seen)" "seen \<noteq> []"
  shows "\<exists>cb cfg key addr. bc_HostKeyCallback c = Some cb \<and> ss_key sv cfg = Some key \<and> cb addr key s = (s', None)"
proof -
  from assms obtain cb cfg addr e where "bc_HostKeyCallback c = Some cb" "ssh_handshake cb addr cfg sv s = (s', e, seen)"
    by (auto simp: bastion_Open_def Let_def split: if_splits option.splits sum.splits list.splits prod.splits)
  with handshake_seen[OF this(2) assms(2)] show ?thesis by blast
qed

section \<open>The FTPS handshake\<close>

text \<open>With a store the flag that skips verification changes nothing: the handshake, its verdict and the store
  afterwards are the same with and without it.\<close>

theorem insecure_flag_ignored:
  "tls_handshake uni sha env (opts\<lparr>do_InsecureSkipVerify := b\<rparr>) sv (Some s) = tls_handshake uni sha env opts sv (Some s)"
  by (simp add: tls_handshake_def tls_config_of_def Let_def)

text \<open>An FTPS dial succeeds exactly when the server answers, speaks at least the minimum version of the policy,
  has a chain the system accepts, unless that check is off, presents a certificate the store accepts, if there is one,
  and accepts the login; the connection then holds the certificate presented.\<close>

theorem ftps_dial_exact:
  "snd (dialFTP uni sha (fault, ks, now) ctx opts True sv st) = Inr conn \<longleftrightarrow>
     sv_answers sv (ftp_options opts ctx True (st \<noteq> None)) \<and>
     version_code (tls_min_version (do_TLSPolicy opts)) \<le> version_code (sv_version sv) \<and>
     (do_InsecureSkipVerify opts \<or> st \<noteq> None \<or>
       sv_chain_ok sv (if do_TLSServerName opts = [] then do_Host opts else do_TLSServerName opts)) \<and>
     fst (snd (VerifyConnection uni sha fault ks now st (do_TLSTrustOnFirstUse opts) (do_Host opts) (do_Port opts) (sv_peers sv))) = None \<and>
     sv_login sv (do_User opts) (do_Pass opts) \<and>
     conn = (let leaf = (case sv_peers sv of [] \<Rightarrow> None | x # xs \<Rightarrow> Some x)
             in \<lparr>fc_cert = leaf, fc_captured = map_option (tlsFingerprint sha) leaf\<rparr>)"
proof -
  obtain st' e cap where v: "VerifyConnection uni sha fault ks now st (do_TLSTrustOnFirstUse opts) (do_Host opts) (do_Port opts) (sv_peers sv) = (st', e, cap)"
    by (metis prod_cases3)
  have cap: "cap = (case sv_peers sv of [] \<Rightarrow> None | x # xs \<Rightarrow> Some x)"
    using v by (auto simp: VerifyConnection_def Let_def split: option.splits prod.splits if_splits)
  have hs: "tls_handshake uni sha (fault, ks, now) opts sv st =
      (if version_code (sv_version sv) < version_code (tls_min_version (do_TLSPolicy opts)) then (st, Some TlsVersion, None)
       else if \<not> (do_InsecureSkipVerify opts \<or> st \<noteq> None) \<and>
         \<not> sv_chain_ok sv (if do_TLSServerName opts = [] then do_Host opts else do_TLSServerName opts)
       then (st, Some TlsChain, None) else (st', map_option TlsVerify e, cap))"
    by (simp add: tls_handshake_def tls_config_of_def v Let_def)
  show ?thesis
    unfolding dialFTP_def hs v cap
    by (cases e) (auto simp: Let_def split: option.splits)
qed

section \<open>Witnesses\<close>

definition demo_sshkey :: sshkey where
  "demo_sshkey = \<lparr>ktype = ''ssh-ed25519'', marshal = ''k''\<rparr>"

definition demo_opts :: "((store, verify_error) key_callback, ssh_auth) dial_opts" where
  "demo_opts =
     \<lparr>do_Host = ''h'', do_Port = 22, do_User = ''u'', do_Pass = ''p'', do_SSHHostKeyCallback = None, do_SSHAuth = [],
      do_TLSMode = TLSNone, do_InsecureSkipVerify = False, do_TLSServerName = [], do_TLSTrustOnFirstUse = False,
      do_Bastion = False, do_QuirkProfile = [], do_TLSPolicy = []\<rparr>"

definition demo_ssh_server :: ssh_server where
  "demo_ssh_server = \<lparr>ss_tcp = (\<lambda>b. True), ss_key = (\<lambda>c. Some demo_sshkey), ss_accepts = (\<lambda>u a. True), ss_subsystem = True\<rparr>"

definition demo_known :: store where
  "demo_known = fst (store_Add id (\<lambda>k. ''f'') None [] 0 (store_Open id None) ''h'' 22 demo_sshkey ''x'')"

theorem credentials_only_to_trusted_witness:
  "dialSFTP (CorruptEntry []) (Some (strict_callback id (\<lambda>k. ''f''))) demo_opts demo_ssh_server demo_known
     = (demo_known, None, passwordAuthMethods ''p'') \<and>
   (\<exists>key. ss_key demo_ssh_server (dial_config demo_opts (Lookup [])) = Some key \<and>
      ssh_trusted demo_known (host_addr id (dial_addr demo_opts)) (marshal key))"
proof -
  have v: "Verify id (\<lambda>k. ''f'') demo_known ''h:22'' demo_sshkey = None" by code_simp
  have a: "JoinHostPort ''h'' (go_itoa 22) = ''h:22''" by code_simp
  have d: "dialSFTP (CorruptEntry []) (Some (strict_callback id (\<lambda>k. ''f''))) demo_opts demo_ssh_server demo_known
      = (demo_known, None, passwordAuthMethods ''p'')"
    by (simp add: dialSFTP_def DialWithOpts_def demo_opts_def demo_ssh_server_def a ssh_handshake_def currentCallback_def
        strict_callback_def StrictCallback_def v)
  have ne: "passwordAuthMethods ''p'' \<noteq> []" by (simp add: passwordAuthMethods_def)
  from credentials_only_to_trusted[OF d, of id "\<lambda>k. ''f''"] ne d show ?thesis by (simp add: demo_opts_def)
qed

end
