(* ===== verification/KnownHosts.thy ===== *)
theory KnownHosts
  imports Dial
begin

text \<open>
  Host keys kept in an OpenSSH \<open>known_hosts\<close> file (internal/sftpx/client.go): trust on first use, the capture
  of an unknown or changed key for a prompt, and the removal of entries. The package that reads the
  format is a parameter: \<open>kl_check\<close> reads a file (None when it is malformed) and judges a key, \<open>kl_line\<close> and
  \<open>kl_normalize\<close> write an entry. The file is its text, None when it does not exist.
\<close>

datatype kh_verdict = KhTrusted | KhUnknown | KhMismatch "sshkey option list" | KhOther

record kh_lib =
  kl_check :: "string \<Rightarrow> (string \<Rightarrow> sshkey \<Rightarrow> kh_verdict) option"
  kl_normalize :: "string \<Rightarrow> string"
  kl_line :: "string \<Rightarrow> sshkey \<Rightarrow> string"

type_synonym kh_file = "string option"

datatype kh_error = KhCreate | KhLoad | KhReload | KhChanged | KhAppend | KhWrite | KhClose | KhRejected | KhConsent

text \<open>Both callbacks first make sure that the file exists and can be read.\<close>

definition kh_setup :: "kh_lib \<Rightarrow> bool \<Rightarrow> kh_file \<Rightarrow> kh_file \<times> kh_error option" where
  "kh_setup lib create_ok f =
     (let f' = (case f of None \<Rightarrow> if create_ok then Some [] else None | Some t \<Rightarrow> Some t) in
      case f' of
        None \<Rightarrow> (f', Some KhCreate)
      | Some t \<Rightarrow> (f', if kl_check lib t = None then Some KhLoad else None))"

text \<open>A fault of the append: at opening, after some bytes of the line, or at closing.\<close>

datatype append_fault = OpenFault | WriteFault nat | CloseFault

definition kh_tofu :: "kh_lib \<Rightarrow> append_fault option \<Rightarrow> string \<Rightarrow> sshkey \<Rightarrow> kh_file \<Rightarrow> kh_file \<times> kh_error option \<times> bool" where
  "kh_tofu lib fault hostname key f =
     (case f of
        None \<Rightarrow> (f, Some KhReload, False)
      | Some t \<Rightarrow> (case kl_check lib t of
            None \<Rightarrow> (f, Some KhReload, False)
          | Some strict \<Rightarrow> (case strict hostname key of
                KhTrusted \<Rightarrow> (f, None, False)
              | KhMismatch want \<Rightarrow> (f, Some KhChanged, False)
              | KhOther \<Rightarrow> (f, Some KhRejected, False)
              | KhUnknown \<Rightarrow>
                  let line = kl_line lib (kl_normalize lib hostname) key @ [CHR 0x0A] in
                  (case fault of
                     Some OpenFault \<Rightarrow> (f, Some KhAppend, False)
                   | Some (WriteFault n) \<Rightarrow> (Some (t @ take n line), Some KhWrite, False)
                   | Some CloseFault \<Rightarrow> (Some (t @ line), Some KhClose, False)
                   | None \<Rightarrow> (Some (t @ line), None, True)))))"

definition kh_capture ::
  "kh_lib \<Rightarrow> (sshkey \<Rightarrow> string) \<Rightarrow> string \<Rightarrow> sshkey \<Rightarrow> kh_file \<Rightarrow> kh_error option \<times> (string \<times> string \<times> bool) option" where
  "kh_capture lib fpr hostname key f =
     (case Option.bind f (kl_check lib) of
        None \<Rightarrow> (Some KhReload, None)
      | Some strict \<Rightarrow> (case strict hostname key of
            KhTrusted \<Rightarrow> (None, None)
          | KhMismatch want \<Rightarrow>
              (Some KhChanged,
               Some (fpr key, (case want of Some k # ks \<Rightarrow> fpr k | _ \<Rightarrow> []), True))
          | KhUnknown \<Rightarrow> (Some KhConsent, Some (fpr key, [], False))
          | KhOther \<Rightarrow> (Some KhRejected, None)))"

text \<open>\<open>strings.SplitAfter\<close> at line feeds.\<close>

fun split_after :: "string \<Rightarrow> string list" where
  "split_after [] = [[]]"
| "split_after (c # cs) =
     (if c = CHR 0x0A then [c] # split_after cs
      else (case split_after cs of [] \<Rightarrow> [[c]] | l # ls \<Rightarrow> (c # l) # ls))"

definition entry_matches :: "string \<Rightarrow> string \<Rightarrow> bool" where
  "entry_matches target line =
     (let t = trim_space line in
      \<not> (t = [] \<or> has_prefix t ''#'') \<and>
      (case str_fields t of
         [] \<Rightarrow> False
       | h # r \<Rightarrow> list_ex (\<lambda>x. trim_space x = target) (split_byte (CHR '','') h)))"

datatype rewrite_fault = ReadFault | TmpFault | RenameFault

definition RemoveKnownHostEntries :: "kh_lib \<Rightarrow> rewrite_fault option \<Rightarrow> string \<Rightarrow> kh_file \<Rightarrow> kh_file \<times> bool" where
  "RemoveKnownHostEntries lib fault hostname f =
     (case f of
        None \<Rightarrow> (f, True)
      | Some t \<Rightarrow>
          if fault \<noteq> None then (f, False)
          else (Some (concat (filter (\<lambda>l. \<not> entry_matches (kl_normalize lib hostname) l) (split_after t))), True))"

section \<open>Lines\<close>

lemma split_after_concat [simp]: "concat (split_after t) = t"
  by (induction t) (auto split: list.split)

lemma split_after_line: "CHR 0x0A \<notin> set l \<Longrightarrow> split_after (l @ CHR 0x0A # t) = (l @ [CHR 0x0A]) # split_after t"
  by (induction l) auto

lemma filter_split_none:
  "list_all (\<lambda>l. \<not> P l) (split_after t) \<Longrightarrow> concat (filter (\<lambda>l. \<not> P l) (split_after t)) = t"
proof -
  assume "list_all (\<lambda>l. \<not> P l) (split_after t)"
  then have "filter (\<lambda>l. \<not> P l) (split_after t) = split_after t"
    by (auto simp: list_all_iff intro!: filter_True)
  then show ?thesis by simp
qed

text \<open>Removing an address leaves the lines of all others as they are, and where the address is, the line goes
  with every other host it names.\<close>

lemma remove_line:
  assumes "CHR 0x0A \<notin> set l" "entry_matches (kl_normalize lib hostname) (l @ [CHR 0x0A])"
  shows "RemoveKnownHostEntries lib None hostname (Some (l @ CHR 0x0A # t)) = RemoveKnownHostEntries lib None hostname (Some t)"
  using assms by (simp add: RemoveKnownHostEntries_def split_after_line)

theorem shared_line_dropped:
  assumes "kl_normalize lib ''a'' = ''a''"
  shows "RemoveKnownHostEntries lib None ''a'' (Some ''a,b ssh-ed25519 AAAA
'') = (Some [], True)"
proof -
  have "entry_matches ''a'' ''a,b ssh-ed25519 AAAA
''" by code_simp
  moreover have "split_after ''a,b ssh-ed25519 AAAA
'' = [''a,b ssh-ed25519 AAAA
'', []]" by code_simp
  moreover have "\<not> entry_matches ''a'' []" by code_simp
  ultimately show ?thesis by (simp add: RemoveKnownHostEntries_def assms)
qed

theorem hashed_line_kept:
  assumes "kl_normalize lib ''a'' = ''a''"
  shows "RemoveKnownHostEntries lib None ''a'' (Some ''|1|c2FsdA==|aGFzaA== ssh-ed25519 AAAA
'') = (Some ''|1|c2FsdA==|aGFzaA== ssh-ed25519 AAAA
'', True)"
proof -
  have "\<not> entry_matches ''a'' ''|1|c2FsdA==|aGFzaA== ssh-ed25519 AAAA
''" by code_simp
  moreover have "split_after ''|1|c2FsdA==|aGFzaA== ssh-ed25519 AAAA
'' = [''|1|c2FsdA==|aGFzaA== ssh-ed25519 AAAA
'', []]" by code_simp
  moreover have "\<not> entry_matches ''a'' []" by code_simp
  ultimately show ?thesis by (simp add: RemoveKnownHostEntries_def assms)
qed

section \<open>The file pins keys\<close>

text \<open>What the format promises of an appended line, when the text before it ends its last line.\<close>

definition line_ended :: "string \<Rightarrow> bool" where
  "line_ended t \<longleftrightarrow> t = [] \<or> last t = CHR 0x0A"

definition appends_entry :: "kh_lib \<Rightarrow> bool" where
  "appends_entry lib \<longleftrightarrow>
     (\<forall>t strict h k. line_ended t \<and> kl_check lib t = Some strict \<and> strict h k = KhUnknown \<longrightarrow>
        (\<exists>strict'. kl_check lib (t @ kl_line lib (kl_normalize lib h) k @ [CHR 0x0A]) = Some strict' \<and> strict' h k = KhTrusted \<and>
           (\<forall>k'. marshal k' \<noteq> marshal k \<longrightarrow> (\<exists>want. strict' h k' = KhMismatch want)) \<and>
           (\<forall>h' k'. kl_normalize lib h' \<noteq> kl_normalize lib h \<longrightarrow> strict' h' k' = strict h' k')))"

definition kh_judge :: "kh_lib \<Rightarrow> kh_file \<Rightarrow> string \<Rightarrow> sshkey \<Rightarrow> kh_verdict" where
  "kh_judge lib f h k =
     (case Option.bind f (kl_check lib) of None \<Rightarrow> KhOther | Some strict \<Rightarrow> strict h k)"

lemma judge_readable: "kh_judge lib f h k \<noteq> KhOther \<Longrightarrow> \<exists>t strict. f = Some t \<and> kl_check lib t = Some strict \<and> strict h k = kh_judge lib f h k"
  by (auto simp: kh_judge_def split: Option.bind_splits option.splits)

text \<open>A first dial to an unknown host is accepted and recorded; from then on the file accepts that key alone for
  the host and judges all other hosts as before. A changed key is refused and never recorded.\<close>

theorem known_hosts_pins:
  assumes "appends_entry lib" "f = Some t" "line_ended t" "kh_tofu lib None h k f = (f', None, added)"
  shows "kh_judge lib f' h k = KhTrusted \<and>
    (added \<longrightarrow> (\<forall>k'. marshal k' \<noteq> marshal k \<longrightarrow> kh_tofu lib fault h k' f' = (f', Some KhChanged, False))) \<and>
    (\<forall>h' k'. kl_normalize lib h' \<noteq> kl_normalize lib h \<longrightarrow> kh_judge lib f' h' k' = kh_judge lib f h' k')"
proof -
  obtain strict where st: "kl_check lib t = Some strict"
    using assms(2,4) by (auto simp: kh_tofu_def split: option.splits)
  from assms(2,4) st consider "strict h k = KhTrusted" "f' = f" "\<not> added"
    | "strict h k = KhUnknown" "f' = Some (t @ kl_line lib (kl_normalize lib h) k @ [CHR 0x0A])"
    by (auto simp: kh_tofu_def Let_def split: kh_verdict.splits)
  then show ?thesis
  proof cases
    case 1
    then show ?thesis using assms(2) st by (simp add: kh_judge_def)
  next
    case 2
    let ?t = "t @ kl_line lib (kl_normalize lib h) k @ [CHR 0x0A]"
    obtain strict' where s': "kl_check lib ?t = Some strict'" "strict' h k = KhTrusted"
      "\<forall>k'. marshal k' \<noteq> marshal k \<longrightarrow> (\<exists>want. strict' h k' = KhMismatch want)"
      "\<forall>h' k'. kl_normalize lib h' \<noteq> kl_normalize lib h \<longrightarrow> strict' h' k' = strict h' k'"
      using assms(1,3) st 2(1) unfolding appends_entry_def by blast
    have "kh_tofu lib fault h k' f' = (f', Some KhChanged, False)" if "marshal k' \<noteq> marshal k" for k'
    proof -
      obtain want where "strict' h k' = KhMismatch want" using s'(3) \<open>marshal k' \<noteq> marshal k\<close> by blast
      then show ?thesis by (simp add: kh_tofu_def 2(2) s'(1))
    qed
    moreover have "kh_judge lib f' h k = KhTrusted" by (simp add: kh_judge_def 2(2) s'(1,2))
    moreover have "kh_judge lib f' h' k' = kh_judge lib f h' k'" if "kl_normalize lib h' \<noteq> kl_normalize lib h" for h' k'
      using s'(4) that by (simp add: kh_judge_def 2(2) s'(1) assms(2) st)
    ultimately show ?thesis by blast
  qed
qed

text \<open>A text whose last line is not ended is continued by the new entry: no line feed is put between.\<close>

theorem entry_glued_to_last_line:
  assumes "kl_check lib t = Some strict" "strict h k = KhUnknown"
  shows "kh_tofu lib None h k (Some t) = (Some (t @ kl_line lib (kl_normalize lib h) k @ [CHR 0x0A]), None, True)"
  using assms by (simp add: kh_tofu_def)

text \<open>The capture changes nothing, accepts only what the file trusts, and shows both fingerprints of a changed key.\<close>

lemma kh_capture_accepts: "fst (kh_capture lib fpr h k f) = None \<longleftrightarrow> kh_judge lib f h k = KhTrusted"
  by (auto simp: kh_capture_def kh_judge_def split: option.splits kh_verdict.splits)

section \<open>A format that keeps the promise\<close>

definition demo_entry :: "string \<Rightarrow> sshkey \<Rightarrow> string" where
  "demo_entry h k = EncodeToString h @ '' '' @ EncodeToString (marshal k)"

definition demo_judge :: "string list \<Rightarrow> string \<Rightarrow> sshkey \<Rightarrow> kh_verdict" where
  "demo_judge ls h k =
     (case find (\<lambda>l. has_prefix l (EncodeToString h @ '' '')) ls of
        None \<Rightarrow> KhUnknown
      | Some l \<Rightarrow> if l = demo_entry h k then KhTrusted else KhMismatch [])"

definition demo_lib :: kh_lib where
  "demo_lib = \<lparr>kl_check = (\<lambda>t. Some (demo_judge (split_byte (CHR 0x0A) t))), kl_normalize = (\<lambda>h. h), kl_line = demo_entry\<rparr>"

lemma split_byte_lines: "split_byte c (u @ c # v) = split_byte c u @ split_byte c v"
  by (induction u) (auto split: list.splits)

lemma find_append_none: "find P xs = None \<Longrightarrow> find P (xs @ ys) = find P ys"
  by (induction xs) (auto split: if_splits)

lemma find_last_irrelevant: "\<not> P y \<Longrightarrow> \<not> P [] \<Longrightarrow> find P (xs @ [y, []]) = find P xs"
  by (induction xs) auto

lemma ended_lines: "line_ended t \<Longrightarrow> \<exists>ls. split_byte (CHR 0x0A) t = ls @ [[]] \<and>
    split_byte (CHR 0x0A) (t @ l @ [CHR 0x0A]) = ls @ split_byte (CHR 0x0A) l @ [[]]"
proof (cases "t = []")
  case True
  then show ?thesis using split_byte_lines[of "CHR 0x0A" l "[]"] by (intro exI[of _ "[]"]) simp
next
  case False
  assume "line_ended t"
  with False obtain u where t: "t = u @ [CHR 0x0A]" unfolding line_ended_def by (metis append_butlast_last_id)
  show ?thesis
    using split_byte_lines[of "CHR 0x0A" u "[]"] split_byte_lines[of "CHR 0x0A" u "l @ [CHR 0x0A]"]
      split_byte_lines[of "CHR 0x0A" l "[]"]
    by (intro exI[of _ "split_byte (CHR 0x0A) u"]) (simp add: t)
qed

lemma encoded_chars: "x \<in> set (EncodeToString h) \<Longrightarrow> x \<noteq> CHR 0x0A \<and> x \<noteq> CHR '' ''"
proof -
  assume x: "x \<in> set (EncodeToString h)"
  have "list_all (\<lambda>b. b < 256) (map of_char h :: nat list)" by (simp add: list_all_iff)
  from subsetD[OF b64_enc_chars[OF this], of x] x
  have "x = CHR ''='' \<or> x \<in> b64_char ` {..<64}" by (simp add: EncodeToString_def)
  moreover have "list_all (\<lambda>i. b64_char i \<noteq> CHR 0x0A \<and> b64_char i \<noteq> CHR '' '') [0..<64]" by code_simp
  ultimately show ?thesis by (auto simp: list_all_length)
qed

lemma encode_inject: "EncodeToString a = EncodeToString b \<longleftrightarrow> a = b"
  by (metis Decode_Encode option.inject)

lemma split_byte_whole: "c \<notin> set l \<Longrightarrow> split_byte c l = [l]"
  by (induction l) auto

lemma word_prefix:
  "CHR '' '' \<notin> set u \<Longrightarrow> CHR '' '' \<notin> set v \<Longrightarrow> has_prefix (u @ CHR '' '' # r) (v @ [CHR '' '']) \<longleftrightarrow> u = v"
proof (induction u arbitrary: v)
  case Nil
  then show ?case by (cases v) (auto simp: has_prefix_def)
next
  case (Cons c cs)
  then show ?case by (cases v) (auto simp: has_prefix_def)
qed

lemma entry_prefix: "has_prefix (demo_entry h k) (EncodeToString h' @ '' '') \<longleftrightarrow> h = h'"
  using word_prefix[of "EncodeToString h" "EncodeToString h'"] encoded_chars
  by (auto simp: demo_entry_def encode_inject)

lemma entry_one_line: "split_byte (CHR 0x0A) (demo_entry h k) = [demo_entry h k]"
  using encoded_chars by (intro split_byte_whole) (auto simp: demo_entry_def)

lemma demo_appends: "appends_entry demo_lib"
  unfolding appends_entry_def
proof (intro allI impI, elim conjE)
  fix t strict h k
  assume e: "line_ended t" and "kl_check demo_lib t = Some strict" and u: "strict h k = KhUnknown"
  obtain ls where ls: "split_byte (CHR 0x0A) t = ls @ [[]]"
    "split_byte (CHR 0x0A) (t @ demo_entry h k @ [CHR 0x0A]) = ls @ [demo_entry h k, []]"
    using ended_lines[OF e, of "demo_entry h k"] by (auto simp: entry_one_line)
  have st: "strict = demo_judge (ls @ [[]])"
    using \<open>kl_check demo_lib t = Some strict\<close> by (simp add: demo_lib_def ls)
  have none: "find (\<lambda>l. has_prefix l (EncodeToString h @ '' '')) ls = None"
    using u unfolding st demo_judge_def by (auto split: option.splits if_splits simp: find_None_iff)
  let ?s = "demo_judge (ls @ [demo_entry h k, []])"
  have found: "find (\<lambda>l. has_prefix l (EncodeToString h @ '' '')) (ls @ [demo_entry h k, []]) = Some (demo_entry h k)"
    using find_append_none[OF none, of "[demo_entry h k, []]"] by (simp add: entry_prefix)
  have "?s h k = KhTrusted" by (simp add: demo_judge_def found)
  moreover have "?s h k' = KhMismatch []" if "marshal k' \<noteq> marshal k" for k'
  proof -
    have "demo_entry h k \<noteq> demo_entry h k'" using that by (simp add: demo_entry_def encode_inject)
    then show ?thesis by (simp add: demo_judge_def found)
  qed
  moreover have "?s h' k' = strict h' k'" if "h' \<noteq> h" for h' k'
  proof -
    let ?P = "\<lambda>l. has_prefix l (EncodeToString h' @ '' '')"
    have nil: "\<not> ?P []" by (simp add: has_prefix_def)
    have "find ?P (ls @ [[]]) = find ?P ls" using nil by (induction ls) auto
    moreover have "find ?P (ls @ [demo_entry h k, []]) = find ?P ls"
      using find_last_irrelevant[of ?P "demo_entry h k" ls] nil that by (simp add: entry_prefix)
    ultimately show ?thesis by (simp add: st demo_judge_def)
  qed
  ultimately show "\<exists>strict'. kl_check demo_lib (t @ kl_line demo_lib (kl_normalize demo_lib h) k @ [CHR 0x0A]) = Some strict' \<and>
      strict' h k = KhTrusted \<and> (\<forall>k'. marshal k' \<noteq> marshal k \<longrightarrow> (\<exists>want. strict' h k' = KhMismatch want)) \<and>
      (\<forall>h' k'. kl_normalize demo_lib h' \<noteq> kl_normalize demo_lib h \<longrightarrow> strict' h' k' = strict h' k')"
    using ls(2) by (simp add: demo_lib_def)
qed

theorem known_hosts_pins_witness:
  "kh_tofu demo_lib None ''h'' demo_sshkey (Some []) = (Some (demo_entry ''h'' demo_sshkey @ [CHR 0x0A]), None, True) \<and>
   kh_judge demo_lib (Some (demo_entry ''h'' demo_sshkey @ [CHR 0x0A])) ''h'' demo_sshkey = KhTrusted"
proof -
  have t: "kh_tofu demo_lib None ''h'' demo_sshkey (Some []) = (Some (demo_entry ''h'' demo_sshkey @ [CHR 0x0A]), None, True)"
    by (simp add: kh_tofu_def demo_lib_def demo_judge_def has_prefix_def)
  from known_hosts_pins[OF demo_appends refl _ t] t show ?thesis by (simp add: line_ended_def)
qed

end
