(* ===== verification/Probe.thy ===== *)
theory Probe
  imports KnownHosts VaultRefs
begin

text \<open>
  The connection check of the web layer (internal/web/web.go: handleProbe, probeFTP), the host-key check before
  a start (preflightHostKey), the list and removal of trusted keys, and the texts of failures. The trust the
  server keeps is a record: the store or the known_hosts file, the FTPS store, and the process-wide callback.
  An open store is what the process-wide strict callback reads; in file mode the callback holds the text it
  was loaded from. The servers, the disk and the texts of library errors are arguments.
\<close>

section \<open>What the server trusts\<close>

datatype process_callback = CbNone | CbStrict | CbAny | CbFile string

record trust =
  tr_store :: "store option"
  tr_path :: bool
  tr_file :: kh_file
  tr_tls :: "tls_store option"
  tr_process :: process_callback

datatype key_refusal =
  StoreRefusal verify_error | PersistRefusal add_error | FileRefusal kh_error | LoadedRefusal kh_verdict | NotConfigured

text \<open>What a callback captures: fingerprint, previous fingerprint, changed.\<close>

record capture =
  cap_fp :: string
  cap_prev :: string
  cap_changed :: bool

definition no_capture :: capture where
  "no_capture = \<lparr>cap_fp = [], cap_prev = [], cap_changed = False\<rparr>"

type_synonym probe_callback = "(trust \<times> capture, key_refusal) key_callback"

text \<open>The world of one probe: clock, order of map iterations, faults of the disk, the servers.\<close>

record probe_env =
  pe_uni :: "string \<Rightarrow> string"
  pe_fpr :: "sshkey \<Rightarrow> string"
  pe_sha :: "string \<Rightarrow> string"
  pe_lib :: kh_lib
  pe_now :: int
  pe_keys :: "string list"
  pe_tls_keys :: "string list"
  pe_add_fault :: "save_call option"
  pe_remove_fault :: "save_call option"
  pe_append_fault :: "append_fault option"
  pe_rewrite_fault :: "rewrite_fault option"
  pe_create_ok :: bool
  pe_tls_add_fault :: "tls_save_call option"
  pe_tls_remove_fault :: "tls_save_call option"
  pe_tls_record_fault :: "tls_save_call option"
  pe_signer :: "string \<Rightarrow> string \<Rightarrow> string + string"
  pe_tcp :: "string option"
  pe_target :: ssh_server
  pe_bastion :: ssh_server
  pe_ftp :: ftp_server
  pe_ssh_text :: "key_refusal ssh_dial_error \<Rightarrow> string"
  pe_bastion_text :: "key_refusal bastion_error \<Rightarrow> string"
  pe_ftp_text :: "ftp_dial_error \<Rightarrow> string"
  pe_setup_text :: "kh_error \<Rightarrow> string"
  pe_list :: "string \<Rightarrow> string option"

definition process_key_callback :: "probe_env \<Rightarrow> process_callback \<Rightarrow> probe_callback" where
  "process_key_callback env cb hostname key s =
     (s, (case cb of
            CbNone \<Rightarrow> Some NotConfigured
          | CbAny \<Rightarrow> None
          | CbStrict \<Rightarrow> (case tr_store (fst s) of
                None \<Rightarrow> Some NotConfigured
              | Some st \<Rightarrow> map_option StoreRefusal (StrictCallback (pe_uni env) (pe_fpr env) st hostname key))
          | CbFile t \<Rightarrow> (case kl_check (pe_lib env) t of
                None \<Rightarrow> Some NotConfigured
              | Some strict \<Rightarrow> (case strict hostname key of KhTrusted \<Rightarrow> None | v \<Rightarrow> Some (LoadedRefusal v)))))"

text \<open>The installed callback, None when there is none.\<close>

definition installed_callback :: "probe_env \<Rightarrow> trust \<Rightarrow> probe_callback option" where
  "installed_callback env tr =
     (if tr_process tr = CbNone then None else Some (process_key_callback env (tr_process tr)))"

definition capture_of :: "captured_key \<Rightarrow> capture" where
  "capture_of ck = \<lparr>cap_fp = cFingerprint ck, cap_prev = cPrevious ck, cap_changed = cChanged ck\<rparr>"

definition store_tofu :: "probe_env \<Rightarrow> probe_callback" where
  "store_tofu env hostname key s =
     (case tr_store (fst s) of
        None \<Rightarrow> (s, Some NotConfigured)
      | Some st \<Rightarrow>
          (case TOFUCallback (pe_uni env) (pe_fpr env) (pe_add_fault env) (pe_keys env) (pe_now env) st hostname key of
             (st', err, ck) \<Rightarrow>
               (((fst s)\<lparr>tr_store := Some st'\<rparr>,
                 case ck of None \<Rightarrow> snd s | Some c \<Rightarrow> (snd s)\<lparr>cap_fp := cFingerprint c\<rparr>),
                case err of None \<Rightarrow> None
                | Some (FromVerify e) \<Rightarrow> Some (StoreRefusal e)
                | Some (PersistFailed e) \<Rightarrow> Some (PersistRefusal e))))"

definition file_tofu :: "probe_env \<Rightarrow> probe_callback" where
  "file_tofu env hostname key s =
     (case kh_tofu (pe_lib env) (pe_append_fault env) hostname key (tr_file (fst s)) of
        (f', err, added) \<Rightarrow>
          (((fst s)\<lparr>tr_file := f'\<rparr>, if added then (snd s)\<lparr>cap_fp := pe_fpr env key\<rparr> else snd s),
           map_option FileRefusal err))"

definition store_capture :: "probe_env \<Rightarrow> probe_callback" where
  "store_capture env hostname key s =
     (case tr_store (fst s) of
        None \<Rightarrow> (s, Some NotConfigured)
      | Some st \<Rightarrow>
          (case CaptureCallback (pe_uni env) (pe_fpr env) st hostname key of
             (err, ck) \<Rightarrow>
               ((fst s, case ck of None \<Rightarrow> snd s | Some c \<Rightarrow> capture_of c), map_option StoreRefusal err)))"

definition file_capture :: "probe_env \<Rightarrow> probe_callback" where
  "file_capture env hostname key s =
     (case kh_capture (pe_lib env) (pe_fpr env) hostname key (tr_file (fst s)) of
        (err, ck) \<Rightarrow>
          ((fst s, case ck of None \<Rightarrow> snd s | Some (fp, prev, ch) \<Rightarrow> \<lparr>cap_fp = fp, cap_prev = prev, cap_changed = ch\<rparr>),
           map_option FileRefusal err))"

section \<open>Texts of failures\<close>

definition dash :: string where
  "dash = [CHR 0xE2, CHR 0x80, CHR 0x94]"

definition any_of :: "string list \<Rightarrow> string \<Rightarrow> bool" where
  "any_of pats low = list_ex (str_contains low) pats"

definition consent_text :: string where
  "consent_text = ''Server presented a new host key. Verify the fingerprint and accept to continue.''"

definition renewal_text :: string where
  "renewal_text =
     ''Server presented a DIFFERENT host key than the one already in known_hosts. Verify out-of-band before accepting.''"

text \<open>The texts, each with the parts of a lower-case message that select it, in the order of the switch.\<close>

definition probe_texts :: "(string list \<times> string) list" where
  "probe_texts =
     [([''no such host''], ''Hostname could not be resolved.''),
      ([''connection refused''], ''Connection refused '' @ dash @ '' verify the SFTP server is running on this port.''),
      ([''i/o timeout'', ''deadline exceeded''],
       ''Connection timed out '' @ dash @ '' verify the host is reachable and not firewalled.''),
      ([''network is unreachable''], ''Network is unreachable from this host.''),
      ([''host key has changed'', ''possible mitm''],
       ''Host key mismatch detected. Open Test Connection to view both fingerprints and decide whether to trust the new key.''),
      ([''knownhosts: key is unknown'', ''user consent required''], consent_text),
      ([''unable to authenticate'', ''authentication failed''],
       ''Authentication failed '' @ dash @ '' verify username and password.''),
      ([''tls'', ''x509''],
       ''Server speaks TLS, not SSH '' @ dash @
       '' switch the protocol to FTPS (or FTP) in the connection form, or point this probe at port 22.''),
      ([''ssh: handshake failed''],
       ''SSH handshake failed '' @ dash @
       '' check server config, credentials, or network. (If the target is FTPS or FTP, switch the protocol in the connection form.)''),
      ([''subsystem''],
       ''Server accepted SSH but rejected the SFTP subsystem '' @ dash @ '' verify SFTP is enabled.'')]"

definition list_text :: string where
  "list_text = ''Folder listing failed '' @ dash @ '' verify the path exists and the user can read it.''"

definition other_text :: string where
  "other_text = ''Connection failed '' @ dash @ '' see server log for details.''"

definition friendlyProbeError :: "(string \<Rightarrow> string) \<Rightarrow> string \<Rightarrow> string option \<Rightarrow> string" where
  "friendlyProbeError uni stage err =
     (case err of
        None \<Rightarrow> []
      | Some msg \<Rightarrow>
          (case find (\<lambda>(pats, text). any_of pats (to_lower uni msg)) probe_texts of
             Some (pats, text) \<Rightarrow> text
           | None \<Rightarrow> if stage = ''list'' then list_text else other_text))"

definition ftp_texts :: "string \<Rightarrow> (string list \<times> string) list" where
  "ftp_texts tag =
     [([''no such host''], ''Hostname could not be resolved.''),
      ([''connection refused''],
       tag @ '' server refused the connection '' @ dash @ '' verify the server is running on this port.''),
      ([''i/o timeout'', ''deadline exceeded''],
       ''Connection timed out '' @ dash @ '' verify the host is reachable and not firewalled.''),
      ([''network is unreachable''], ''Network is unreachable from this host.''),
      ([''tls: handshake failure'', ''tls handshake error'', ''remote error: tls''],
       ''TLS handshake failed '' @ dash @
       '' the server may not support implicit-TLS on this port, or it may not accept your TLS version. Try `tls_mode: explicit` if the server uses AUTH TLS on port 21.''),
      ([''x509: certificate signed by unknown authority'', ''certificate is not trusted'', ''self-signed certificate''],
       ''FTPS certificate is not trusted. Either set `tls_trust_on_first_use: true` to TOFU-pin it, or `tls_insecure_skip_verify: true` for a lab server.''),
      ([''x509: certificate has expired'', ''certificate has expired or is not yet valid''],
       ''FTPS certificate has expired. The server needs a renewed cert.''),
      ([''x509: certificate is valid for''],
       ''FTPS certificate'' @ [CHR 0x27] @
       ''s SAN/CN doesn'' @ [CHR 0x27] @
       ''t match the host you'' @ [CHR 0x27] @
       ''re connecting to. Override with `tls_server_name` if you'' @ [CHR 0x27] @ ''re using an alias.''),
      ([''ftp: 530'', ''login incorrect''], tag @ '' login rejected (530) '' @ dash @ '' verify username and password.''),
      ([''ftp: 421''],
       tag @ '' server is not available (421) '' @ dash @ '' too many connections, or the server is shutting down.''),
      ([''ftp: 550''],
       tag @ '' server denied the request (550) '' @ dash @
       '' typically the upload folder doesn'' @ [CHR 0x27] @ ''t exist or isn'' @ [CHR 0x27] @ ''t writable.''),
      ([''auth tls''],
       ''Server rejected AUTH TLS '' @ dash @
       '' verify the server supports explicit FTPS, or switch to implicit-TLS (`tls_mode: implicit`).''),
      ([''eof'', ''use of closed network connection''],
       tag @ '' server closed the connection during handshake '' @ dash @
       '' common when implicit-TLS is required but plain FTP was negotiated, or vice versa.'')]"

definition friendlyFTPError :: "(string \<Rightarrow> string) \<Rightarrow> protocol \<Rightarrow> string option \<Rightarrow> string" where
  "friendlyFTPError uni proto err =
     (case err of
        None \<Rightarrow> []
      | Some msg \<Rightarrow>
          let tag = (if proto = FTPS then ''FTPS'' else ''FTP'') in
          (case find (\<lambda>(pats, text). any_of pats (to_lower uni msg)) (ftp_texts tag) of
             Some (pats, text) \<Rightarrow> text
           | None \<Rightarrow> tag @ '' connection failed '' @ dash @ '' see server log for details.''))"

section \<open>The request and its answer\<close>

record probe_req =
  pq_Host :: string
  pq_Port :: int
  pq_Username :: string
  pq_Password :: string
  pq_Folder :: string
  pq_TrustOnFirstUse :: bool
  pq_AcceptChanged :: bool
  pq_PrivateKey :: string
  pq_Passphrase :: string
  pq_Protocol :: string
  pq_TLSMode :: string
  pq_TLSInsecureSkipVerify :: bool
  pq_TLSServerName :: string
  pq_BastionHost :: string
  pq_BastionPort :: int
  pq_BastionUser :: string
  pq_BastionPass :: string
  pq_BastionPrivateKeyPEM :: string
  pq_BastionPassphrase :: string

record probe_out =
  po_ok :: bool
  po_stage :: string
  po_error :: string
  po_note :: string
  po_consent :: bool
  po_renewal :: bool
  po_fp :: string
  po_prev :: string
  po_tls_fp :: string

definition probe_started :: probe_out where
  "probe_started =
     \<lparr>po_ok = False, po_stage = [], po_error = [], po_note = [], po_consent = False, po_renewal = False,
      po_fp = [], po_prev = [], po_tls_fp = []\<rparr>"

definition probe_failed :: "string \<Rightarrow> string \<Rightarrow> probe_out" where
  "probe_failed stage err = probe_started\<lparr>po_stage := stage, po_error := err\<rparr>"

definition probe_resolve :: "vault option \<Rightarrow> probe_req \<Rightarrow> probe_req" where
  "probe_resolve v req =
     (case v of None \<Rightarrow> req
      | Some _ \<Rightarrow>
          req\<lparr>pq_Password := resolveStr v (pq_Password req),
              pq_PrivateKey := resolveStr v (pq_PrivateKey req),
              pq_Passphrase := resolveStr v (pq_Passphrase req),
              pq_BastionPass := resolveStr v (pq_BastionPass req),
              pq_BastionPrivateKeyPEM := resolveStr v (pq_BastionPrivateKeyPEM req),
              pq_BastionPassphrase := resolveStr v (pq_BastionPassphrase req)\<rparr>)"

definition probe_addr :: "probe_req \<Rightarrow> string" where
  "probe_addr req = JoinHostPort (pq_Host req) (go_itoa (pq_Port req))"

section \<open>The SFTP probe\<close>

text \<open>Dropping the previous entry, when the operator accepted the changed key.\<close>

definition drop_previous :: "probe_env \<Rightarrow> probe_req \<Rightarrow> trust \<Rightarrow> trust \<times> probe_out option" where
  "drop_previous env req tr =
     (if \<not> (pq_AcceptChanged req \<and> pq_TrustOnFirstUse req) then (tr, None)
      else case tr_store tr of
          Some st \<Rightarrow>
            (case store_Remove (pe_uni env) (pe_remove_fault env) (pe_keys env) st (pq_Host req) (pq_Port req) of
               (st', removed, err) \<Rightarrow>
                 (tr\<lparr>tr_store := Some st'\<rparr>,
                  if err \<noteq> None
                  then Some (probe_failed ''ssh_or_sftp'' ''could not update trust store to overwrite previous entry'')
                  else None))
        | None \<Rightarrow>
            if tr_path tr
            then (case RemoveKnownHostEntries (pe_lib env) (pe_rewrite_fault env) (probe_addr req) (tr_file tr) of
                    (f', ok) \<Rightarrow>
                      (tr\<lparr>tr_file := f'\<rparr>,
                       if \<not> ok
                       then Some (probe_failed ''ssh_or_sftp'' ''could not rewrite known_hosts to overwrite previous entry'')
                       else None))
            else (tr, None))"

text \<open>The callback of this dial; None stands for the process-wide one.\<close>

definition choose_callback :: "probe_env \<Rightarrow> probe_req \<Rightarrow> trust \<Rightarrow> trust \<times> (probe_out + probe_callback option)" where
  "choose_callback env req tr =
     (if pq_TrustOnFirstUse req \<and> tr_store tr \<noteq> None then (tr, Inr (Some (store_tofu env)))
      else if pq_TrustOnFirstUse req \<and> tr_path tr
      then (case kh_setup (pe_lib env) (pe_create_ok env) (tr_file tr) of
              (f', Some e) \<Rightarrow> (tr\<lparr>tr_file := f'\<rparr>, Inl (probe_failed ''ssh_or_sftp'' (''tofu setup: '' @ pe_setup_text env e)))
            | (f', None) \<Rightarrow> (tr\<lparr>tr_file := f'\<rparr>, Inr (Some (file_tofu env))))
      else if pq_TrustOnFirstUse req then (tr, Inr None)
      else if tr_store tr \<noteq> None then (tr, Inr (Some (store_capture env)))
      else if tr_path tr
      then (case kh_setup (pe_lib env) (pe_create_ok env) (tr_file tr) of
              (f', Some e) \<Rightarrow>
                (tr\<lparr>tr_file := f'\<rparr>, Inl (probe_failed ''ssh_or_sftp'' (''host-key check setup: '' @ pe_setup_text env e)))
            | (f', None) \<Rightarrow> (tr\<lparr>tr_file := f'\<rparr>, Inr (Some (file_capture env))))
      else (tr, Inr None))"

definition probe_auth :: "probe_env \<Rightarrow> probe_req \<Rightarrow> probe_out + ssh_auth list" where
  "probe_auth env req =
     (if pq_PrivateKey req = [] then Inr []
      else case pe_signer env (pq_PrivateKey req) (pq_Passphrase req) of
          Inl e \<Rightarrow> Inl (probe_failed ''ssh_or_sftp'' (''private key: '' @ e))
        | Inr k \<Rightarrow> Inr [PublicKeys k])"

definition probe_bastion_config :: "probe_env \<Rightarrow> probe_req \<Rightarrow> trust \<Rightarrow> (trust \<times> capture, key_refusal) bastion_config" where
  "probe_bastion_config env req tr =
     \<lparr>bc_Host = pq_BastionHost req, bc_Port = pq_BastionPort req, bc_User = pq_BastionUser req,
      bc_Pass = pq_BastionPass req, bc_PrivateKey = pq_BastionPrivateKeyPEM req,
      bc_Passphrase = pq_BastionPassphrase req,
      bc_HostKeyCallback = Some (currentCallback NotConfigured (installed_callback env tr))\<rparr>"

text \<open>The jump host, when one is named.\<close>

definition probe_bastion :: "probe_env \<Rightarrow> probe_req \<Rightarrow> trust \<times> capture \<Rightarrow> (trust \<times> capture) \<times> probe_out option" where
  "probe_bastion env req s =
     (if pq_BastionHost req = [] then (s, None)
      else case bastion_Open (pe_signer env) (probe_bastion_config env req (fst s)) (pe_bastion env) s of
          (s', None, seen) \<Rightarrow> (s', None)
        | (s', Some e, seen) \<Rightarrow> (s', Some (probe_failed ''bastion'' (''bastion: '' @ pe_bastion_text env e))))"

definition probe_dial_opts :: "probe_req \<Rightarrow> probe_callback option \<Rightarrow> ssh_auth list \<Rightarrow> (probe_callback, ssh_auth) dial_opts" where
  "probe_dial_opts req cb auth =
     \<lparr>do_Host = pq_Host req, do_Port = pq_Port req, do_User = pq_Username req, do_Pass = pq_Password req,
      do_SSHHostKeyCallback = cb, do_SSHAuth = auth, do_TLSMode = TLSNone, do_InsecureSkipVerify = False,
      do_TLSServerName = [], do_TLSTrustOnFirstUse = False, do_Bastion = (pq_BastionHost req \<noteq> []),
      do_QuirkProfile = [], do_TLSPolicy = []\<rparr>"

definition is_consent :: "probe_env \<Rightarrow> key_refusal ssh_dial_error \<Rightarrow> bool" where
  "is_consent env e \<longleftrightarrow>
     (case e of
        HostKeyRefused (FileRefusal KhConsent) \<Rightarrow> True
      | HostKeyRefused (StoreRefusal (VerifyError s h p f prev)) \<Rightarrow> s = ErrUnknownHost
      | _ \<Rightarrow> False) \<or>
     any_of [''user consent required'', ''knownhosts: key is unknown'', ''host key not trusted''] (pe_ssh_text env e)"

definition dial_failed :: "probe_env \<Rightarrow> key_refusal ssh_dial_error \<Rightarrow> capture \<Rightarrow> probe_out" where
  "dial_failed env e c =
     (if cap_changed c \<and> cap_fp c \<noteq> []
      then (probe_failed ''ssh_or_sftp'' renewal_text)\<lparr>po_renewal := True, po_fp := cap_fp c, po_prev := cap_prev c\<rparr>
      else if cap_fp c \<noteq> [] \<and> (is_consent env e \<or> any_of [''ssh: handshake failed''] (pe_ssh_text env e))
      then (probe_failed ''ssh_or_sftp'' consent_text)\<lparr>po_consent := True, po_fp := cap_fp c\<rparr>
      else probe_failed ''ssh_or_sftp'' (friendlyProbeError (pe_uni env) ''ssh_or_sftp'' (Some (pe_ssh_text env e))))"

definition reload_known_hosts :: "probe_env \<Rightarrow> trust \<Rightarrow> trust" where
  "reload_known_hosts env tr =
     (case tr_file tr of
        None \<Rightarrow> tr
      | Some t \<Rightarrow> if kl_check (pe_lib env) t = None then tr else tr\<lparr>tr_process := CbFile t\<rparr>)"

definition probe_listed :: "probe_env \<Rightarrow> string \<Rightarrow> probe_out \<Rightarrow> probe_out" where
  "probe_listed env folder out =
     (case (if folder = [] then None else pe_list env folder) of
        Some e \<Rightarrow> out\<lparr>po_stage := ''list'', po_error := friendlyProbeError (pe_uni env) ''list'' (Some e)\<rparr>
      | None \<Rightarrow> out\<lparr>po_ok := True, po_stage := ''complete''\<rparr>)"

definition probe_dialled :: "probe_env \<Rightarrow> probe_req \<Rightarrow> trust \<times> capture \<Rightarrow> trust \<times> probe_out" where
  "probe_dialled env req s =
     (let learnt = cap_fp (snd s) \<noteq> [] \<and> pq_TrustOnFirstUse req;
          tr = (if learnt \<and> tr_store (fst s) = None \<and> tr_path (fst s) then reload_known_hosts env (fst s) else fst s)
      in (tr, probe_listed env (pq_Folder req) (if learnt then probe_started\<lparr>po_fp := cap_fp (snd s)\<rparr> else probe_started)))"

text \<open>The dial with the callback chosen and the outcome; beside the answer the credentials the target has seen.\<close>

definition probe_ssh_dial ::
  "probe_env \<Rightarrow> probe_req \<Rightarrow> probe_callback option \<Rightarrow> ssh_auth list \<Rightarrow> trust \<times> capture \<Rightarrow> trust \<times> probe_out \<times> ssh_auth list" where
  "probe_ssh_dial env req cb auth s =
     (case DialWithOpts NotConfigured (installed_callback env (fst s)) (probe_dial_opts req cb auth) (plain_profile []) (pe_target env) s of
        (s', Some e, seen) \<Rightarrow> (fst s', dial_failed env e (snd s'), seen)
      | (s', None, seen) \<Rightarrow> (case probe_dialled env req s' of (tr, out) \<Rightarrow> (tr, out, seen)))"

definition probe_ssh :: "probe_env \<Rightarrow> probe_req \<Rightarrow> trust \<Rightarrow> trust \<times> probe_out \<times> ssh_auth list" where
  "probe_ssh env req tr0 =
     (case drop_previous env req tr0 of
        (tr, Some out) \<Rightarrow> (tr, out, [])
      | (tr, None) \<Rightarrow>
          (case choose_callback env req tr of
             (tr1, Inl out) \<Rightarrow> (tr1, out, [])
           | (tr1, Inr cb) \<Rightarrow>
               (case probe_auth env req of
                  Inl out \<Rightarrow> (tr1, out, [])
                | Inr auth \<Rightarrow>
                    (case probe_bastion env req (tr1, no_capture) of
                       (s, Some out) \<Rightarrow> (fst s, out, [])
                     | (s, None) \<Rightarrow> probe_ssh_dial env req cb auth s))))"

section \<open>The FTP probe\<close>

definition ftp_probe_opts :: "probe_req \<Rightarrow> bool \<Rightarrow> (probe_callback, ssh_auth) dial_opts" where
  "ftp_probe_opts req with_store =
     \<lparr>do_Host = pq_Host req, do_Port = pq_Port req, do_User = pq_Username req, do_Pass = pq_Password req,
      do_SSHHostKeyCallback = None, do_SSHAuth = [], do_TLSMode = ParseTLSMode (pq_TLSMode req),
      do_InsecureSkipVerify = pq_TLSInsecureSkipVerify req, do_TLSServerName = pq_TLSServerName req,
      do_TLSTrustOnFirstUse = (with_store \<and> pq_TrustOnFirstUse req), do_Bastion = False,
      do_QuirkProfile = [], do_TLSPolicy = []\<rparr>"

definition renewal_cert_text :: string where
  "renewal_cert_text =
     ''FTPS server presented a DIFFERENT certificate than the one already trusted. Verify out-of-band before accepting.''"

definition consent_cert_text :: string where
  "consent_cert_text = ''FTPS server presented a new certificate. Verify the fingerprint and accept to continue.''"

definition ftp_failed :: "probe_env \<Rightarrow> protocol \<Rightarrow> ftp_dial_error \<Rightarrow> probe_out" where
  "ftp_failed env proto e =
     (case e of
        TlsVerify (ConnVerify (TLSVerifyError err h p fp prev)) \<Rightarrow>
          if err = ErrTLSCertChanged
          then (probe_failed ''connect'' renewal_cert_text)\<lparr>po_fp := fp, po_tls_fp := fp, po_renewal := True, po_prev := prev\<rparr>
          else (probe_failed ''connect'' consent_cert_text)\<lparr>po_fp := fp, po_tls_fp := fp, po_consent := True\<rparr>
      | _ \<Rightarrow> probe_failed ''connect'' (friendlyFTPError (pe_uni env) proto (Some (pe_ftp_text env e))))"

text \<open>After a successful FTPS dial: the fingerprint is reported and, under trust on first use, recorded.\<close>

definition ftps_record :: "probe_env \<Rightarrow> probe_req \<Rightarrow> ftp_conn \<Rightarrow> trust \<Rightarrow> trust \<times> probe_out" where
  "ftps_record env req conn tr =
     (case fc_cert conn of
        None \<Rightarrow> (tr, probe_started)
      | Some leaf \<Rightarrow>
          let fp = tlsFingerprint (pe_sha env) leaf;
              tr' = (case tr_tls tr of
                       Some st \<Rightarrow>
                         if pq_TrustOnFirstUse req
                         then tr\<lparr>tr_tls := Some (fst (tls_Add (pe_uni env) (pe_sha env) (pe_tls_record_fault env) (pe_tls_keys env)
                                (pe_now env) st (pq_Host req) (pq_Port req) (Some leaf)))\<rparr>
                         else tr
                     | None \<Rightarrow> tr)
          in (tr', probe_started\<lparr>po_fp := fp, po_tls_fp := fp\<rparr>))"

definition drop_previous_cert :: "probe_env \<Rightarrow> protocol \<Rightarrow> probe_req \<Rightarrow> trust \<Rightarrow> trust \<times> bool" where
  "drop_previous_cert env proto req tr =
     (case tr_tls tr of
        Some st \<Rightarrow>
          if proto = FTPS \<and> pq_AcceptChanged req \<and> pq_TrustOnFirstUse req
          then (case tls_Remove (pe_uni env) (pe_tls_remove_fault env) (pe_tls_keys env) st (pq_Host req) (pq_Port req) of
                  (st', removed, err) \<Rightarrow> (tr\<lparr>tr_tls := Some st'\<rparr>, err = None))
          else (tr, True)
      | None \<Rightarrow> (tr, True))"

definition ftp_dial :: "probe_env \<Rightarrow> protocol \<Rightarrow> probe_req \<Rightarrow> bool \<Rightarrow> trust \<Rightarrow> trust \<times> (ftp_dial_error + ftp_conn)" where
  "ftp_dial env proto req with_store tr =
     (case dialFTP (pe_uni env) (pe_sha env) (pe_tls_add_fault env, pe_tls_keys env, pe_now env) True
            (ftp_probe_opts req with_store) (proto = FTPS) (pe_ftp env) (if with_store then tr_tls tr else None) of
       (st', r) \<Rightarrow> (if with_store then tr\<lparr>tr_tls := st'\<rparr> else tr, r))"

definition ftp_outcome :: "probe_env \<Rightarrow> protocol \<Rightarrow> probe_req \<Rightarrow> trust \<Rightarrow> ftp_dial_error + ftp_conn \<Rightarrow> trust \<times> probe_out" where
  "ftp_outcome env proto req tr r =
     (case r of
        Inl e \<Rightarrow> (tr, ftp_failed env proto e)
      | Inr conn \<Rightarrow>
          (case (if proto = FTPS then ftps_record env req conn tr else (tr, probe_started)) of
             (tr', out) \<Rightarrow> (tr', probe_listed env (pq_Folder req) out)))"

definition probeFTP :: "probe_env \<Rightarrow> protocol \<Rightarrow> probe_req \<Rightarrow> trust \<Rightarrow> trust \<times> probe_out" where
  "probeFTP env proto req tr0 =
     (if pq_Username req = []
      then (tr0, probe_started\<lparr>po_ok := True, po_stage := ''tcp'',
              po_note := ''TCP only '' @ dash @ '' supply username + password to verify FTP login''\<rparr>)
      else case drop_previous_cert env proto req tr0 of
          (tr, False) \<Rightarrow> (tr, probe_failed ''connect'' ''could not update trust store to overwrite previous cert'')
        | (tr, True) \<Rightarrow>
            (case ftp_dial env proto req (proto = FTPS \<and> \<not> pq_TLSInsecureSkipVerify req \<and> tr_tls tr \<noteq> None) tr of
               (tr1, r) \<Rightarrow> ftp_outcome env proto req tr1 r))"

section \<open>The handlers\<close>

text \<open>\<open>handleProbe\<close> on a decoded POST; \<open>Inl\<close> is a bad request.\<close>

definition handleProbe :: "probe_env \<Rightarrow> vault option \<Rightarrow> probe_req \<Rightarrow> trust \<Rightarrow> trust \<times> (string + probe_out) \<times> ssh_auth list" where
  "handleProbe env v req0 tr =
     (let req = probe_resolve v req0; proto = protocol_Normalize (pq_Protocol req) in
      if pq_Host req = [] \<or> pq_Port req \<le> 0 then (tr, Inl ''host and port required'', [])
      else case pe_tcp env of
          Some e \<Rightarrow> (tr, Inr (probe_failed ''tcp'' (friendlyProbeError (pe_uni env) ''tcp'' (Some e))), [])
        | None \<Rightarrow>
            if proto = FTP \<or> proto = FTPS
            then (case probeFTP env proto req tr of (tr', out) \<Rightarrow> (tr', Inr out, []))
            else if pq_Username req = []
            then (tr, Inr (probe_started\<lparr>po_ok := True, po_stage := ''tcp'',
                    po_note := ''TCP only '' @ dash @ '' supply username + password to verify SSH/SFTP/auth''\<rparr>), [])
            else (case probe_ssh env req tr of (tr', out, seen) \<Rightarrow> (tr', Inr out, seen)))"

record bastionPreflight =
  bp_Host :: string
  bp_Port :: int
  bp_User :: string
  bp_Pass :: string
  bp_PrivateKeyPEM :: string
  bp_Passphrase :: string

definition preflight_callback :: "probe_env \<Rightarrow> trust \<Rightarrow> trust \<times> probe_callback option" where
  "preflight_callback env tr =
     (if tr_store tr \<noteq> None then (tr, Some (store_capture env))
      else if tr_path tr
      then (case kh_setup (pe_lib env) (pe_create_ok env) (tr_file tr) of
              (f', Some e) \<Rightarrow> (tr\<lparr>tr_file := f'\<rparr>, None)
            | (f', None) \<Rightarrow> (tr\<lparr>tr_file := f'\<rparr>, Some (file_capture env)))
      else (tr, None))"

definition preflight_failed :: "probe_env \<Rightarrow> string \<Rightarrow> key_refusal ssh_dial_error \<Rightarrow> capture \<Rightarrow> probe_out option" where
  "preflight_failed env hst e c =
     (if cap_changed c \<and> cap_fp c \<noteq> []
      then Some ((probe_failed [] renewal_text)\<lparr>po_renewal := True, po_fp := cap_fp c, po_prev := cap_prev c\<rparr>)
      else if cap_fp c \<noteq> [] \<and> is_consent env e
      then Some ((probe_failed [] consent_text)\<lparr>po_consent := True, po_fp := cap_fp c\<rparr>)
      else None)"

definition preflight_opts :: "string \<Rightarrow> int \<Rightarrow> string \<Rightarrow> string \<Rightarrow> ssh_auth list \<Rightarrow> bool \<Rightarrow> probe_callback \<Rightarrow> (probe_callback, ssh_auth) dial_opts" where
  "preflight_opts hst prt user pass auth via cb =
     \<lparr>do_Host = hst, do_Port = prt, do_User = user, do_Pass = pass,
      do_SSHHostKeyCallback = Some cb, do_SSHAuth = auth, do_TLSMode = TLSNone, do_InsecureSkipVerify = False,
      do_TLSServerName = [], do_TLSTrustOnFirstUse = False, do_Bastion = via, do_QuirkProfile = [], do_TLSPolicy = []\<rparr>"

definition preflight_bastion :: "probe_env \<Rightarrow> bastionPreflight \<Rightarrow> trust \<times> capture \<Rightarrow> (trust \<times> capture) \<times> key_refusal bastion_error option" where
  "preflight_bastion env bp s =
     (case bastion_Open (pe_signer env)
             \<lparr>bc_Host = bp_Host bp, bc_Port = bp_Port bp, bc_User = bp_User bp, bc_Pass = bp_Pass bp,
              bc_PrivateKey = bp_PrivateKeyPEM bp, bc_Passphrase = bp_Passphrase bp,
              bc_HostKeyCallback = Some (currentCallback NotConfigured (installed_callback env (fst s)))\<rparr>
             (pe_bastion env) s of (s', e, seen) \<Rightarrow> (s', e))"

text \<open>The check before a start: an answer only when the operator has to consent.\<close>

definition preflightHostKey ::
  "probe_env \<Rightarrow> string \<Rightarrow> int \<Rightarrow> string \<Rightarrow> string \<Rightarrow> ssh_auth list \<Rightarrow> bastionPreflight option \<Rightarrow> trust \<Rightarrow> trust \<times> probe_out option" where
  "preflightHostKey env hst prt user pass auth bp tr =
     (case preflight_callback env tr of
        (tr1, None) \<Rightarrow> (tr1, None)
      | (tr1, Some cb) \<Rightarrow>
          (let via = (case bp of Some b \<Rightarrow> bp_Host b \<noteq> [] | None \<Rightarrow> False) in
           case (if via then preflight_bastion env (the bp) (tr1, no_capture) else ((tr1, no_capture), None)) of
             (s, Some e) \<Rightarrow> (fst s, None)
           | (s, None) \<Rightarrow>
               (case DialWithOpts NotConfigured (installed_callback env tr1) (preflight_opts hst prt user pass auth via cb)
                       (plain_profile []) (pe_target env) s of
                  (s', None, seen) \<Rightarrow> (fst s', None)
                | (s', Some e, seen) \<Rightarrow> (fst s', preflight_failed env hst e (snd s')))))"

datatype hostkeys_answer = HkFile | HkList "entry list" | HkRemoved bool | HkRefused int string

definition handleHostKeys :: "string list \<Rightarrow> bool \<Rightarrow> trust \<Rightarrow> hostkeys_answer" where
  "handleHostKeys ks is_get tr =
     (if \<not> is_get then HkRefused 405 ''GET required''
      else case tr_store tr of None \<Rightarrow> HkFile | Some st \<Rightarrow> HkList (store_List ks st))"

definition handleHostKeysRemove ::
  "probe_env \<Rightarrow> (save_call \<Rightarrow> string) \<Rightarrow> bool \<Rightarrow> (string + string \<times> int) \<Rightarrow> trust \<Rightarrow> trust \<times> hostkeys_answer" where
  "handleHostKeysRemove env save_text is_post req tr =
     (if \<not> is_post then (tr, HkRefused 405 ''POST required'')
      else case tr_store tr of
          None \<Rightarrow> (tr, HkRefused 400 ''trust store not enabled (file-mode); edit the known_hosts file directly'')
        | Some st \<Rightarrow>
            (case req of
               Inl e \<Rightarrow> (tr, HkRefused 400 (''bad json: '' @ e))
             | Inr (h, p) \<Rightarrow>
                 if h = [] then (tr, HkRefused 400 ''host required'')
                 else case store_Remove (pe_uni env) (pe_remove_fault env) (pe_keys env) st h p of
                     (st', removed, Some c) \<Rightarrow> (tr\<lparr>tr_store := Some st'\<rparr>, HkRefused 500 (''remove: '' @ save_text c))
                   | (st', removed, None) \<Rightarrow> (tr\<lparr>tr_store := Some st'\<rparr>, HkRemoved removed)))"

section \<open>What the callbacks do to the trust\<close>

text \<open>\<open>kept\<close>: every pin of the SSH store is still there, the other stores and the callback are the same, and the file
  is continued at most.\<close>

definition kept :: "trust \<Rightarrow> trust \<Rightarrow> bool" where
  "kept tr tr' \<longleftrightarrow>
     (\<forall>st. tr_store tr = Some st \<longrightarrow>
        (\<exists>st'. tr_store tr' = Some st' \<and> (\<forall>a m. ssh_trusted st a m \<longrightarrow> ssh_trusted st' a m))) \<and>
     (tr_store tr = None \<longrightarrow> tr_store tr' = None) \<and> tr_path tr' = tr_path tr \<and> tr_tls tr' = tr_tls tr \<and>
     (\<forall>t. tr_file tr = Some t \<longrightarrow> (\<exists>x. tr_file tr' = Some (t @ x)))"

lemma kept_refl [simp]: "kept tr tr"
  by (auto simp: kept_def intro: exI[of _ "[]"])

lemma kept_trans: "kept a b \<Longrightarrow> kept b c \<Longrightarrow> kept a c"
proof -
  assume ab: "kept a b" and bc: "kept b c"
  have st: "\<exists>st''. tr_store c = Some st'' \<and> (\<forall>x m. ssh_trusted st x m \<longrightarrow> ssh_trusted st'' x m)" if "tr_store a = Some st" for st
    using ab bc that unfolding kept_def by (metis (no_types, lifting))
  have fl: "\<exists>x. tr_file c = Some (t @ x)" if "tr_file a = Some t" for t
    using ab bc that unfolding kept_def by (metis append.assoc)
  from st fl ab bc show ?thesis unfolding kept_def by simp
qed

lemma kept_process [simp]: "kept tr (tr'\<lparr>tr_process := cb\<rparr>) = kept tr tr'"
  by (simp add: kept_def)

lemma process_callback_keeps [simp]: "fst (process_key_callback env cb h k s) = s"
  by (simp add: process_key_callback_def)

lemma current_callback_keeps [simp]: "fst (currentCallback NotConfigured (installed_callback env tr) h k s) = s"
  by (simp add: currentCallback_def installed_callback_def)

lemma store_capture_keeps [simp]: "fst (fst (store_capture env h k s)) = fst s"
  by (auto simp: store_capture_def split: option.splits prod.splits)

lemma file_capture_keeps [simp]: "fst (fst (file_capture env h k s)) = fst s"
  by (auto simp: file_capture_def split: option.splits prod.splits)

lemma TOFU_state: "fst (TOFUCallback uni fpr fault ks now st h k) = fst (ssh_dial uni fpr (fault, ks, now) st h k)"
  by (auto simp: ssh_dial_def split: prod.splits)

lemma store_tofu_kept: "kept (fst s) (fst (fst (store_tofu env h k s)))"
proof (cases "tr_store (fst s)")
  case None
  then show ?thesis by (simp add: store_tofu_def)
next
  case (Some st)
  obtain st' err ck where T: "TOFUCallback (pe_uni env) (pe_fpr env) (pe_add_fault env) (pe_keys env) (pe_now env) st h k = (st', err, ck)"
    by (metis prod_cases3)
  have "\<forall>a m. ssh_trusted st a m \<longrightarrow> ssh_trusted st' a m"
    using ssh.trusted_stable[of st _ _ "pe_uni env" "pe_fpr env" "(pe_add_fault env, pe_keys env, pe_now env)" h k] TOFU_state[of "pe_uni env" "pe_fpr env" "pe_add_fault env" "pe_keys env" "pe_now env" st h k] T
    by simp
  then show ?thesis by (auto simp: store_tofu_def Some T kept_def intro: exI[of _ "[]"])
qed

lemma kh_tofu_extends: "f = Some t \<Longrightarrow> \<exists>x. fst (kh_tofu lib fault h k f) = Some (t @ x)"
  by (auto simp: kh_tofu_def Let_def split: option.splits kh_verdict.splits append_fault.splits intro: exI[of _ "[]"])

lemma file_tofu_kept: "kept (fst s) (fst (fst (file_tofu env h k s)))"
  using kh_tofu_extends[of "tr_file (fst s)" _ "pe_lib env" "pe_append_fault env" h k]
  by (auto simp: file_tofu_def kept_def split: prod.splits)

lemma kh_setup_kept: "kh_setup lib ok f = (f', e) \<Longrightarrow> f' = f \<or> f = None \<and> f' = Some []"
  by (auto simp: kh_setup_def Let_def split: option.splits if_splits)

section \<open>What a dial does to the trust\<close>

lemma handshake_state:
  assumes "ssh_handshake cb addr cfg sv s = (s', e, seen)"
  shows "s' = s \<or> (\<exists>key. s' = fst (cb addr key s))"
  using assms by (auto simp: ssh_handshake_def split: option.splits prod.splits if_splits) (metis fst_conv)+

lemma DialWithOpts_state:
  assumes "DialWithOpts refusal installed opts prof sv s = (s', e, seen)"
  shows "s' = s \<or> (\<exists>addr key. s' = fst ((case do_SSHHostKeyCallback opts of Some c \<Rightarrow> c | None \<Rightarrow> currentCallback refusal installed) addr key s))"
  using assms handshake_state
  by (fastforce simp: DialWithOpts_def Let_def split: if_splits prod.splits option.splits)

lemma bastion_state:
  assumes "bastion_Open signer c sv s = (s', e, seen)"
  shows "s' = s \<or> (\<exists>cb addr key. bc_HostKeyCallback c = Some cb \<and> s' = fst (cb addr key s))"
  using assms
  by (auto simp: bastion_Open_def Let_def dest!: handshake_state split: if_splits option.splits sum.splits list.splits prod.splits)

lemma probe_bastion_keeps: "probe_bastion env req s = (s', r) \<Longrightarrow> s' = s"
  using bastion_state
  by (fastforce simp: probe_bastion_def probe_bastion_config_def split: if_splits prod.splits option.splits)

lemma drop_previous_none: "\<not> pq_AcceptChanged req \<Longrightarrow> drop_previous env req tr = (tr, None)"
  by (simp add: drop_previous_def)

lemma choose_kept: "choose_callback env req tr = (tr', r) \<Longrightarrow> kept tr tr'"
  by (auto simp: choose_callback_def kept_def dest!: kh_setup_kept split: if_splits prod.splits option.splits intro: exI[of _ "[]"])

lemma chosen_kept:
  assumes "choose_callback env req tr = (tr', Inr cb)"
  shows "kept (fst s) (fst (fst ((case cb of Some c \<Rightarrow> c | None \<Rightarrow> currentCallback NotConfigured (installed_callback env2 tr2)) a k s)))"
  using assms
  by (auto simp: choose_callback_def store_tofu_kept file_tofu_kept split: if_splits prod.splits option.splits)

lemma probe_dialled_kept: "kept (fst s) (fst (probe_dialled env req s))"
  by (auto simp: probe_dialled_def reload_known_hosts_def Let_def split: option.splits)

lemma probe_ssh_dial_kept:
  assumes "choose_callback env req tr = (tr1, Inr cb)" "probe_ssh_dial env req cb auth s = (tr', out, seen)"
  shows "kept (fst s) tr'"
proof -
  obtain s1 e seen1 where d: "DialWithOpts NotConfigured (installed_callback env (fst s)) (probe_dial_opts req cb auth)
      (plain_profile []) (pe_target env) s = (s1, e, seen1)"
    by (metis prod_cases3)
  have k: "kept (fst s) (fst s1)"
    using DialWithOpts_state[OF d] chosen_kept[OF assms(1), of s env] by (auto simp: probe_dial_opts_def)
  have "tr' = fst s1 \<or> tr' = fst (probe_dialled env req s1)"
    using assms(2) by (auto simp: probe_ssh_dial_def d split: option.splits prod.splits) 
  then show ?thesis using k kept_trans[OF k probe_dialled_kept] by blast
qed

lemma probe_ssh_kept:
  assumes "probe_ssh env req tr = (tr', out, seen)" "\<not> pq_AcceptChanged req"
  shows "kept tr tr'"
proof -
  obtain tr1 r where c: "choose_callback env req tr = (tr1, r)" by (cases "choose_callback env req tr")
  have k1: "kept tr tr1" by (rule choose_kept[OF c])
  show ?thesis
  proof (cases r)
    case (Inl out1)
    then show ?thesis using assms k1 by (simp add: probe_ssh_def drop_previous_none c)
  next
    case (Inr cb)
    show ?thesis
    proof (cases "probe_auth env req")
      case (Inl out1)
      then show ?thesis using assms k1 by (simp add: probe_ssh_def drop_previous_none c Inr)
    next
      case a: (Inr auth)
      obtain s b where b: "probe_bastion env req (tr1, no_capture) = (s, b)" by (cases "probe_bastion env req (tr1, no_capture)")
      have s: "s = (tr1, no_capture)" by (rule probe_bastion_keeps[OF b])
      show ?thesis
      proof (cases b)
        case None
        with assms have "probe_ssh_dial env req cb auth (tr1, no_capture) = (tr', out, seen)"
          by (simp add: probe_ssh_def drop_previous_none c Inr a b s)
        from probe_ssh_dial_kept[OF c[unfolded Inr] this] k1 show ?thesis using kept_trans by auto
      next
        case (Some out1)
        then show ?thesis using assms k1 by (simp add: probe_ssh_def drop_previous_none c Inr a b s)
      qed
    qed
  qed
qed

section \<open>Without consent nothing is learnt\<close>

text \<open>\<open>untouched\<close>: at most an empty known_hosts file has come into being.\<close>

definition untouched :: "trust \<Rightarrow> trust \<Rightarrow> bool" where
  "untouched tr tr' \<longleftrightarrow>
     tr_store tr' = tr_store tr \<and> tr_path tr' = tr_path tr \<and> tr_tls tr' = tr_tls tr \<and> tr_process tr' = tr_process tr \<and>
     (tr_file tr' = tr_file tr \<or> tr_file tr = None \<and> tr_file tr' = Some [])"

lemma choose_untouched: "choose_callback env req tr = (tr', r) \<Longrightarrow> untouched tr tr'"
  by (auto simp: choose_callback_def untouched_def dest!: kh_setup_kept split: if_splits prod.splits option.splits)

lemma chosen_untouched:
  assumes "choose_callback env req tr = (tr', Inr cb)" "\<not> pq_TrustOnFirstUse req"
  shows "fst (fst ((case cb of Some c \<Rightarrow> c | None \<Rightarrow> currentCallback NotConfigured (installed_callback env2 tr2)) a k s)) = fst s"
  using assms by (auto simp: choose_callback_def split: if_splits prod.splits option.splits)

lemma probe_ssh_dial_untouched:
  assumes "choose_callback env req tr = (tr1, Inr cb)" "\<not> pq_TrustOnFirstUse req"
    "probe_ssh_dial env req cb auth s = (tr', out, seen)"
  shows "tr' = fst s"
proof -
  obtain s1 e seen1 where d: "DialWithOpts NotConfigured (installed_callback env (fst s)) (probe_dial_opts req cb auth)
      (plain_profile []) (pe_target env) s = (s1, e, seen1)"
    by (metis prod_cases3)
  have "fst s1 = fst s"
    using DialWithOpts_state[OF d] chosen_untouched[OF assms(1,2), of env _ _ _ s] by (auto simp: probe_dial_opts_def)
  then show ?thesis
    using assms(2,3) by (auto simp: probe_ssh_dial_def d probe_dialled_def Let_def split: option.splits)
qed

lemma probe_ssh_untouched:
  assumes "probe_ssh env req tr = (tr', out, seen)" "\<not> pq_TrustOnFirstUse req"
  shows "untouched tr tr'"
proof -
  have n: "drop_previous env req tr = (tr, None)" using assms(2) by (simp add: drop_previous_def)
  obtain tr1 r where c: "choose_callback env req tr = (tr1, r)" by (cases "choose_callback env req tr")
  have k1: "untouched tr tr1" by (rule choose_untouched[OF c])
  show ?thesis
  proof (cases r)
    case (Inl out1)
    then show ?thesis using assms k1 by (simp add: probe_ssh_def n c)
  next
    case (Inr cb)
    obtain s b where b: "probe_bastion env req (tr1, no_capture) = (s, b)" by (cases "probe_bastion env req (tr1, no_capture)")
    have s: "s = (tr1, no_capture)" by (rule probe_bastion_keeps[OF b])
    have "tr' = tr1"
      using assms(1) probe_ssh_dial_untouched[OF c[unfolded Inr] assms(2), of _ "(tr1, no_capture)"]
      by (auto simp: probe_ssh_def n c Inr b s split: sum.splits option.splits)
    with k1 show ?thesis by simp
  qed
qed

section \<open>The FTPS probe\<close>

lemma VerifyConnection_kept:
  assumes "VerifyConnection uni sha fault ks now (Some st) tofu hst prt peers = (st', err, captured)"
  shows "\<exists>s'. st' = Some s' \<and> (\<forall>a m. ftps_trusted st a m \<longrightarrow> ftps_trusted s' a m) \<and> (\<not> tofu \<longrightarrow> s' = st) \<and>
    (err = None \<longrightarrow> (\<exists>leaf. captured = Some leaf \<and> ftps_trusted s' (hostKey uni hst prt) (tlsFingerprint sha leaf)))"
proof (cases peers)
  case Nil
  then show ?thesis using assms by (auto simp: VerifyConnection_def)
next
  case (Cons leaf rest)
  then have d: "ftps_dial uni sha (fault, ks, now, tofu) st (hst, prt) leaf = (the st', err = None)"
    and c: "captured = Some leaf" and some: "st' \<noteq> None"
    using assms by (auto simp: ftps_dial_def VerifyConnection_def Let_def split: option.splits prod.splits if_splits)
  have "\<not> tofu \<longrightarrow> the st' = st"
    using assms Cons by (auto simp: VerifyConnection_def Let_def split: option.splits prod.splits if_splits)
  moreover have "ftps_trusted st a m \<Longrightarrow> ftps_trusted (the st') a m" for a m
    using ftps.trusted_stable[of st a m uni sha "(fault, ks, now, tofu)" "(hst, prt)" leaf] d by simp
  moreover have "err = None \<longrightarrow> ftps_trusted (the st') (hostKey uni hst prt) (tlsFingerprint sha leaf)"
    using ftps.accepted_trusted[of uni sha "(fault, ks, now, tofu)" st "(hst, prt)" leaf] d by simp
  ultimately show ?thesis using some c by (intro exI[of _ "the st'"]) auto
qed

lemma dialFTP_kept:
  assumes "dialFTP uni sha env ctx opts True sv (Some st) = (st', r)"
  shows "\<exists>s'. st' = Some s' \<and> (\<forall>a m. ftps_trusted st a m \<longrightarrow> ftps_trusted s' a m) \<and> (\<not> do_TLSTrustOnFirstUse opts \<longrightarrow> s' = st) \<and>
    (\<forall>conn. r = Inr conn \<longrightarrow> (\<exists>leaf. fc_cert conn = Some leaf \<and> ftps_trusted s' (hostKey uni (do_Host opts) (do_Port opts)) (tlsFingerprint sha leaf)))"
proof -
  obtain fault ks now where env: "env = (fault, ks, now)" by (cases env)
  obtain st1 err cap where v: "VerifyConnection uni sha fault ks now (Some st) (do_TLSTrustOnFirstUse opts) (do_Host opts) (do_Port opts) (sv_peers sv)
      = (st1, err, cap)" by (metis prod_cases3)
  show ?thesis
    using assms VerifyConnection_kept[OF v]
    by (auto simp: dialFTP_def tls_handshake_def env v Let_def split: if_splits option.splits prod.splits)
qed

lemma record_kept:
  assumes "ftps_trusted st (hostKey uni hst prt) (tlsFingerprint sha leaf)" "ftps_trusted st a m"
  shows "ftps_trusted (fst (tls_Add uni sha fault ks now st hst prt (Some leaf))) a m"
  using assms by (auto simp: ftps_trusted_def tls_Add_entries split: option.splits)

definition certs_kept :: "trust \<Rightarrow> trust \<Rightarrow> bool" where
  "certs_kept tr tr' \<longleftrightarrow>
     (\<forall>st. tr_tls tr = Some st \<longrightarrow> (\<exists>st'. tr_tls tr' = Some st' \<and> (\<forall>a m. ftps_trusted st a m \<longrightarrow> ftps_trusted st' a m)))"

lemma certs_kept_refl [simp]: "certs_kept tr tr" "tr_tls tr' = tr_tls tr \<Longrightarrow> certs_kept tr tr'"
  by (auto simp: certs_kept_def)

lemma ftps_record_kept:
  assumes "ftps_record env req conn tr1 = (tr', out)" "tr_tls tr1 = Some st"
    "\<And>leaf. fc_cert conn = Some leaf \<Longrightarrow> ftps_trusted st (hostKey (pe_uni env) (pq_Host req) (pq_Port req)) (tlsFingerprint (pe_sha env) leaf)"
  shows "certs_kept tr1 tr'"
proof (cases "fc_cert conn")
  case None
  then show ?thesis using assms(1) by (simp add: ftps_record_def)
next
  case (Some leaf)
  then show ?thesis using assms(1,2) record_kept[OF assms(3)[OF Some]] by (auto simp: ftps_record_def certs_kept_def Let_def)
qed

lemma ftps_record_ssh: "ftps_record env req conn tr = (tr', out) \<Longrightarrow>
    tr_store tr' = tr_store tr \<and> tr_file tr' = tr_file tr \<and> tr_path tr' = tr_path tr \<and> tr_process tr' = tr_process tr \<and>
    (\<not> pq_TrustOnFirstUse req \<longrightarrow> tr' = tr) \<and> (tr_tls tr = None \<longrightarrow> tr' = tr)"
  by (auto simp: ftps_record_def Let_def split: option.splits if_splits)

lemma drop_previous_cert_none: "\<not> pq_AcceptChanged req \<Longrightarrow> drop_previous_cert env proto req tr = (tr, True)"
  "\<not> pq_TrustOnFirstUse req \<Longrightarrow> drop_previous_cert env proto req tr = (tr, True)"
  "proto \<noteq> FTPS \<Longrightarrow> drop_previous_cert env proto req tr = (tr, True)"
  by (simp_all add: drop_previous_cert_def split: option.splits)

lemma ftp_dial_plain: "fst (ftp_dial env proto req False tr) = tr"
  by (simp add: ftp_dial_def split_beta)

lemma ftp_dial_ssh: "tr_store (fst (ftp_dial env proto req ws tr)) = tr_store tr \<and> tr_file (fst (ftp_dial env proto req ws tr)) = tr_file tr \<and>
    tr_path (fst (ftp_dial env proto req ws tr)) = tr_path tr \<and> tr_process (fst (ftp_dial env proto req ws tr)) = tr_process tr"
  by (simp add: ftp_dial_def split_beta)

lemma ftp_outcome_ssh: "tr_store (fst (ftp_outcome env proto req tr r)) = tr_store tr \<and> tr_file (fst (ftp_outcome env proto req tr r)) = tr_file tr \<and>
    tr_path (fst (ftp_outcome env proto req tr r)) = tr_path tr \<and> tr_process (fst (ftp_outcome env proto req tr r)) = tr_process tr \<and>
    (\<not> pq_TrustOnFirstUse req \<or> proto \<noteq> FTPS \<or> tr_tls tr = None \<longrightarrow> fst (ftp_outcome env proto req tr r) = tr)"
  using ftps_record_ssh[of env req _ tr] by (auto simp: ftp_outcome_def split_beta split: sum.split) (metis surjective_pairing)+

lemma probeFTP_plain: "proto \<noteq> FTPS \<Longrightarrow> fst (probeFTP env proto req tr) = tr"
  using ftp_outcome_ssh[of env proto req] ftp_dial_plain[of env proto req tr]
  by (simp add: probeFTP_def drop_previous_cert_none split_beta)

lemma probeFTP_ssh_same:
  "tr_store (fst (probeFTP env proto req tr)) = tr_store tr \<and> tr_file (fst (probeFTP env proto req tr)) = tr_file tr \<and>
   tr_path (fst (probeFTP env proto req tr)) = tr_path tr \<and> tr_process (fst (probeFTP env proto req tr)) = tr_process tr"
proof -
  have d: "tr_store (fst (drop_previous_cert env proto req tr)) = tr_store tr \<and> tr_file (fst (drop_previous_cert env proto req tr)) = tr_file tr \<and>
      tr_path (fst (drop_previous_cert env proto req tr)) = tr_path tr \<and> tr_process (fst (drop_previous_cert env proto req tr)) = tr_process tr"
    by (simp add: drop_previous_cert_def split_beta split: option.split)
  obtain tr1 ok where e: "drop_previous_cert env proto req tr = (tr1, ok)" by fastforce
  show ?thesis
    using d by (cases ok) (simp_all add: probeFTP_def e split_beta ftp_outcome_ssh ftp_dial_ssh)
qed

lemma ftp_dial_stored:
  assumes "ftp_dial env FTPS req True tr = (tr1, r)" "tr_tls tr = Some st"
  shows "certs_kept tr tr1 \<and> (\<not> pq_TrustOnFirstUse req \<longrightarrow> tr1 = tr) \<and>
    (\<forall>conn. r = Inr conn \<longrightarrow> (\<exists>s' leaf. tr_tls tr1 = Some s' \<and> fc_cert conn = Some leaf \<and>
       ftps_trusted s' (hostKey (pe_uni env) (pq_Host req) (pq_Port req)) (tlsFingerprint (pe_sha env) leaf)))"
proof -
  obtain st' where d: "dialFTP (pe_uni env) (pe_sha env) (pe_tls_add_fault env, pe_tls_keys env, pe_now env) True
      (ftp_probe_opts req True) True (pe_ftp env) (Some st) = (st', r)" and t: "tr1 = tr\<lparr>tr_tls := st'\<rparr>"
    using assms by (auto simp: ftp_dial_def split: prod.splits)
  from dialFTP_kept[OF d] show ?thesis
    using assms(2) by (auto simp: t ftp_probe_opts_def certs_kept_def)
qed

lemma certs_kept_trans: "certs_kept a b \<Longrightarrow> certs_kept b c \<Longrightarrow> certs_kept a c"
  unfolding certs_kept_def by (metis (no_types, lifting))

lemma probeFTP_certs:
  assumes "\<not> pq_AcceptChanged req" "\<not> (pq_TLSInsecureSkipVerify req \<and> pq_TrustOnFirstUse req)"
  shows "certs_kept tr (fst (probeFTP env FTPS req tr)) \<and>
    (\<not> pq_TrustOnFirstUse req \<longrightarrow> fst (probeFTP env FTPS req tr) = tr)"
proof -
  let ?ws = "\<not> pq_TLSInsecureSkipVerify req \<and> tr_tls tr \<noteq> None"
  obtain tr1 r where d: "ftp_dial env FTPS req ?ws tr = (tr1, r)" by fastforce
  have p: "fst (probeFTP env FTPS req tr) = (if pq_Username req = [] then tr else fst (ftp_outcome env FTPS req tr1 r))"
    using d by (simp add: probeFTP_def drop_previous_cert_none(1)[OF assms(1)])
  note O = ftp_outcome_ssh[of env FTPS req tr1 r]
  show ?thesis
  proof (cases ?ws)
    case False
    with d have "tr1 = fst (ftp_dial env FTPS req False tr)" by (metis fst_conv)
    then have "tr1 = tr" by (simp add: ftp_dial_plain)
    moreover have "\<not> pq_TrustOnFirstUse req \<or> tr_tls tr = None" using False assms(2) by auto
    ultimately show ?thesis using O by (auto simp: p)
  next
    case True
    then obtain st where st: "tr_tls tr = Some st" by auto
    from True d have "ftp_dial env FTPS req True tr = (tr1, r)" by simp
    note D = ftp_dial_stored[OF this st]
    have "certs_kept tr1 (fst (ftp_outcome env FTPS req tr1 r))"
    proof (cases r)
      case (Inl e)
      then show ?thesis by (simp add: ftp_outcome_def)
    next
      case (Inr conn)
      obtain tr2 out where rc: "ftps_record env req conn tr1 = (tr2, out)" by fastforce
      from D Inr obtain s' leaf where "tr_tls tr1 = Some s'" "fc_cert conn = Some leaf"
        "ftps_trusted s' (hostKey (pe_uni env) (pq_Host req) (pq_Port req)) (tlsFingerprint (pe_sha env) leaf)" by auto
      then have "certs_kept tr1 tr2" using ftps_record_kept[OF rc] by simp
      then show ?thesis by (simp add: ftp_outcome_def Inr rc)
    qed
    with D O certs_kept_trans show ?thesis by (auto simp: p)
  qed
qed

lemma resolve_flags [simp]:
  "pq_TrustOnFirstUse (probe_resolve v req) = pq_TrustOnFirstUse req"
  "pq_AcceptChanged (probe_resolve v req) = pq_AcceptChanged req"
  "pq_TLSInsecureSkipVerify (probe_resolve v req) = pq_TLSInsecureSkipVerify req"
  "pq_Host (probe_resolve v req) = pq_Host req" "pq_Port (probe_resolve v req) = pq_Port req"
  "pq_Protocol (probe_resolve v req) = pq_Protocol req" "pq_Username (probe_resolve v req) = pq_Username req"
  by (simp_all add: probe_resolve_def split: option.split)


section \<open>The prompts\<close>

definition plain_ssh_probe :: "probe_env \<Rightarrow> probe_req \<Rightarrow> bool" where
  "plain_ssh_probe env req \<longleftrightarrow>
     pq_Host req \<noteq> [] \<and> 0 < pq_Port req \<and> pe_tcp env = None \<and> protocol_Normalize (pq_Protocol req) = SFTP \<and>
     pq_Username req \<noteq> [] \<and> pq_PrivateKey req = [] \<and> pq_BastionHost req = [] \<and> ss_tcp (pe_target env) False"

definition probe_config :: "probe_req \<Rightarrow> ssh_client_config" where
  "probe_config req =
     \<lparr>cc_User = pq_Username req, cc_Auth = passwordAuthMethods (pq_Password req), cc_HostKeyAlgorithms = [], cc_KeyExchanges = []\<rparr>"

lemma plain_probe:
  assumes "plain_ssh_probe env req"
  shows "handleProbe env None req tr = (case probe_ssh env req tr of (tr', out, seen) \<Rightarrow> (tr', Inr out, seen))"
  using assms by (simp add: handleProbe_def plain_ssh_probe_def probe_resolve_def)

lemma plain_dial:
  assumes "plain_ssh_probe env req" "ss_key (pe_target env) (probe_config req) = Some key"
    and "cb (probe_addr req) key s = (s', r)"
  shows "DialWithOpts NotConfigured inst (probe_dial_opts req (Some cb) []) (plain_profile []) (pe_target env) s =
    (case r of Some e \<Rightarrow> (s', Some (HostKeyRefused e), [])
     | None \<Rightarrow> if ss_accepts (pe_target env) (pq_Username req) (passwordAuthMethods (pq_Password req))
         then (s', (if ss_subsystem (pe_target env) then None else Some SftpOpen), passwordAuthMethods (pq_Password req))
         else (s', Some SshAuthFailed, passwordAuthMethods (pq_Password req)))"
proof -
  have cfg: "dial_config (probe_dial_opts req (Some cb) []) (plain_profile []) = probe_config req"
    by (simp add: dial_config_def probe_dial_opts_def plain_profile_def probe_config_def)
  have addr: "dial_addr (probe_dial_opts req (Some cb) []) = probe_addr req"
    by (simp add: dial_addr_def probe_dial_opts_def probe_addr_def)
  have tcp: "ss_tcp (pe_target env) (do_Bastion (probe_dial_opts req (Some cb) []))"
    using assms(1) by (simp add: plain_ssh_probe_def probe_dial_opts_def)
  have d: "DialWithOpts NotConfigured inst (probe_dial_opts req (Some cb) []) (plain_profile []) (pe_target env) s =
      (case ssh_handshake cb (probe_addr req) (probe_config req) (pe_target env) s of
         (s', Some e, seen) \<Rightarrow> (s', Some e, seen)
       | (s', None, seen) \<Rightarrow> (s', (if ss_subsystem (pe_target env) then None else Some SftpOpen), seen))"
    using tcp unfolding DialWithOpts_def Let_def cfg[symmetric] addr[symmetric] dial_config_def dial_addr_def
    by (simp add: probe_dial_opts_def)
  have h: "ssh_handshake cb (probe_addr req) (probe_config req) (pe_target env) s =
      (case r of Some e \<Rightarrow> (s', Some (HostKeyRefused e), [])
       | None \<Rightarrow> if ss_accepts (pe_target env) (pq_Username req) (passwordAuthMethods (pq_Password req))
           then (s', None, passwordAuthMethods (pq_Password req))
           else (s', Some SshAuthFailed, passwordAuthMethods (pq_Password req)))"
  proof -
    have u: "cc_User (probe_config req) = pq_Username req" "cc_Auth (probe_config req) = passwordAuthMethods (pq_Password req)"
      by (simp_all add: probe_config_def)
    show ?thesis unfolding ssh_handshake_def assms(2) u using assms(3) by (cases r) simp_all
  qed
  show ?thesis unfolding d h by (cases r) simp_all
qed

lemma store_probe:
  assumes "plain_ssh_probe env req" "tr_store tr = Some st" "\<not> pq_TrustOnFirstUse req"
  shows "probe_ssh env req tr = probe_ssh_dial env req (Some (store_capture env)) [] (tr, no_capture)"
  using assms by (simp add: probe_ssh_def drop_previous_def choose_callback_def probe_auth_def probe_bastion_def plain_ssh_probe_def)

text \<open>C38: A check without consent prompts exactly for the keys the store does not trust: an unknown key asks for consent
  and a changed one for renewal, with the fingerprint the server proved and the one on record, and the server has then seen
  no credential. A key on record is never prompted for.\<close>

theorem probe_prompts_exactly:
  assumes "plain_ssh_probe env req" "tr_store tr = Some st" "\<not> pq_TrustOnFirstUse req"
    and "ss_key (pe_target env) (probe_config req) = Some key" "pe_fpr env key \<noteq> []"
    and "handleProbe env None req tr = (tr', Inr out, seen)"
  shows "case Verify (pe_uni env) (pe_fpr env) st (probe_addr req) key of
      None \<Rightarrow> \<not> po_consent out \<and> \<not> po_renewal out
    | Some (CorruptEntry h) \<Rightarrow> \<not> po_consent out \<and> \<not> po_renewal out \<and> seen = []
    | Some (VerifyError err h p fp prev) \<Rightarrow>
        seen = [] \<and> po_fp out = pe_fpr env key \<and>
        (if err = ErrKeyChanged then po_renewal out \<and> \<not> po_consent out \<and> po_prev out = prev
         else po_consent out \<and> \<not> po_renewal out \<and> po_error out = consent_text)"
proof -
  obtain err cap where c: "store_capture env (probe_addr req) key (tr, no_capture) = ((tr, cap), err)"
    using store_capture_keeps[of env "probe_addr req" key "(tr, no_capture)"]
    by (metis fst_conv surjective_pairing)
  have o: "probe_ssh_dial env req (Some (store_capture env)) [] (tr, no_capture) = (tr', out, seen)"
    using assms(6) plain_probe[OF assms(1)] store_probe[OF assms(1-3)] by (auto split: prod.splits)
  note D = plain_dial[OF assms(1,4), of "store_capture env" "(tr, no_capture)" "(tr, cap)" err, OF c]
  note U = o[unfolded probe_ssh_dial_def D]
  show ?thesis
  proof (cases "Verify (pe_uni env) (pe_fpr env) st (probe_addr req) key")
    case None
    then have "err = None" "cap = no_capture" using c by (auto simp: store_capture_def assms(2) CaptureCallback_def)
    then show ?thesis
      using U None
      by (auto simp: dial_failed_def no_capture_def probe_failed_def probe_started_def probe_dialled_def probe_listed_def Let_def
          split: if_splits option.splits)
  next
    case (Some e)
    show ?thesis
    proof (cases e)
      case (CorruptEntry h)
      then have "err = Some (StoreRefusal e)" "cap = no_capture"
        using c Some by (auto simp: store_capture_def assms(2) CaptureCallback_def)
      then show ?thesis
        using U Some CorruptEntry by (auto simp: dial_failed_def no_capture_def probe_failed_def probe_started_def)
    next
      case (VerifyError er h p fp prev)
      have fp: "fp = pe_fpr env key" using Some VerifyError by (auto simp: Verify_def split: prod.splits option.splits if_splits)
      have "err = Some (StoreRefusal e)" "cap = \<lparr>cap_fp = fp, cap_prev = prev, cap_changed = (er = ErrKeyChanged)\<rparr>"
        using c Some VerifyError by (auto simp: store_capture_def assms(2) CaptureCallback_def capture_of_def)
      moreover have "er \<noteq> ErrKeyChanged \<Longrightarrow> er = ErrUnknownHost" by (cases er) auto
      ultimately show ?thesis
        using U Some VerifyError fp assms(5)
        by (auto simp: dial_failed_def is_consent_def probe_failed_def probe_started_def)
    qed
  qed
qed

section \<open>What the code does against its comments\<close>

text \<open>A learning check with a wrong password records the key and then answers that the operator has to accept it: the
  fingerprint captured by the recording is taken for a question.\<close>

theorem learnt_key_asked_again:
  assumes "plain_ssh_probe env req" "tr_store tr = Some st" "pq_TrustOnFirstUse req" "\<not> pq_AcceptChanged req"
    and "ss_key (pe_target env) (probe_config req) = Some key" "pe_fpr env key \<noteq> []"
    and "Verify (pe_uni env) (pe_fpr env) st (probe_addr req) key = Some (VerifyError ErrUnknownHost h p fp prev)"
    and "h \<noteq> []" "pe_add_fault env = None"
    and "\<not> ss_accepts (pe_target env) (pq_Username req) (passwordAuthMethods (pq_Password req))"
    and "str_contains (pe_ssh_text env SshAuthFailed) ''ssh: handshake failed''"
  shows "\<exists>tr' st' out seen. handleProbe env None req tr = (tr', Inr out, seen) \<and> tr_store tr' = Some st' \<and>
    ssh_trusted st' (host_addr (pe_uni env) (probe_addr req)) (marshal key) \<and>
    po_consent out \<and> po_error out = consent_text \<and> seen = passwordAuthMethods (pq_Password req)"
proof -
  obtain st' where a: "store_Add (pe_uni env) (pe_fpr env) (pe_add_fault env) (pe_keys env) (pe_now env) st h p key ''ui-tofu'' = (st', None)"
    using assms(8,9) by (simp add: store_Add_def saveLocked_def Let_def)
  let ?c = "no_capture\<lparr>cap_fp := pe_fpr env key\<rparr>"
  have t: "TOFUCallback (pe_uni env) (pe_fpr env) (pe_add_fault env) (pe_keys env) (pe_now env) st (probe_addr req) key
      = (st', None, Some \<lparr>cHost = h, cPort = p, cFingerprint = pe_fpr env key, cPrevious = [], cChanged = False\<rparr>)"
    by (simp add: TOFUCallback_def assms(7) a)
  have c: "store_tofu env (probe_addr req) key (tr, no_capture) = ((tr\<lparr>tr_store := Some st'\<rparr>, ?c), None)"
    by (simp add: store_tofu_def assms(2) t)
  have tru: "ssh_trusted st' (host_addr (pe_uni env) (probe_addr req)) (marshal key)"
    using ssh.accepted_trusted[of "pe_uni env" "pe_fpr env" "(pe_add_fault env, pe_keys env, pe_now env)" st "probe_addr req" key]
    by (simp add: ssh_dial_def t)
  have pr: "probe_ssh env req tr = probe_ssh_dial env req (Some (store_tofu env)) [] (tr, no_capture)"
    using assms(1-4) by (simp add: probe_ssh_def drop_previous_def choose_callback_def probe_auth_def probe_bastion_def plain_ssh_probe_def)
  note D = plain_dial[OF assms(1,5), of "store_tofu env" "(tr, no_capture)" "(tr\<lparr>tr_store := Some st'\<rparr>, ?c)" None, OF c]
  have "probe_ssh env req tr = (tr\<lparr>tr_store := Some st'\<rparr>, dial_failed env SshAuthFailed ?c, passwordAuthMethods (pq_Password req))"
    unfolding pr probe_ssh_dial_def D using assms(10) by simp
  then show ?thesis
    using tru assms(6,11)
    by (simp add: plain_probe[OF assms(1)] dial_failed_def no_capture_def any_of_def probe_failed_def)
qed

text \<open>Accepting a changed key drops the pin before the dial, so a check that then fails leaves the host unpinned.\<close>

theorem failed_check_loses_pin:
  assumes "tr_store tr = Some st" "pq_TrustOnFirstUse req" "pq_AcceptChanged req" "pe_remove_fault env = None"
    and "pq_PrivateKey req = []" "pq_BastionHost req = []" "\<not> ss_tcp (pe_target env) False"
  shows "\<exists>st'. tr_store (fst (probe_ssh env req tr)) = Some st' \<and>
    entries st' (hostKey (pe_uni env) (pq_Host req) (def_port (pq_Port req))) = None"
proof -
  have "\<exists>st' removed. store_Remove (pe_uni env) None (pe_keys env) st (pq_Host req) (pq_Port req) = (st', removed, None) \<and>
      entries st' (hostKey (pe_uni env) (pq_Host req) (def_port (pq_Port req))) = None"
    by (cases "entries st (hostKey (pe_uni env) (pq_Host req) (def_port (pq_Port req)))")
      (auto simp: store_Remove_def saveLocked_def Let_def)
  then obtain st' removed where r: "store_Remove (pe_uni env) None (pe_keys env) st (pq_Host req) (pq_Port req) = (st', removed, None)"
    "entries st' (hostKey (pe_uni env) (pq_Host req) (def_port (pq_Port req))) = None"
    by blast
  have "probe_ssh env req tr = probe_ssh_dial env req (Some (store_tofu env)) [] (tr\<lparr>tr_store := Some st'\<rparr>, no_capture)"
    using assms r(1) by (simp add: probe_ssh_def drop_previous_def choose_callback_def probe_auth_def probe_bastion_def)
  also have "\<dots> = (tr\<lparr>tr_store := Some st'\<rparr>, dial_failed env SshTcp no_capture, [])"
    using assms(6,7) by (simp add: probe_ssh_dial_def DialWithOpts_def probe_dial_opts_def Let_def)
  finally show ?thesis using r(2) by simp
qed

text \<open>An FTPS check that skips verification and learns replaces whatever certificate is pinned by the one presented.\<close>

theorem skipping_check_overwrites_pin:
  assumes "pq_Username req \<noteq> []" "pq_TLSInsecureSkipVerify req" "pq_TrustOnFirstUse req" "\<not> pq_AcceptChanged req"
    and "tr_tls tr = Some st" "ftp_dial env FTPS req False tr = (tr, Inr conn)" "fc_cert conn = Some leaf"
  shows "\<exists>st'. tr_tls (fst (probeFTP env FTPS req tr)) = Some st' \<and>
    ftps_trusted st' (hostKey (pe_uni env) (pq_Host req) (pq_Port req)) (tlsFingerprint (pe_sha env) leaf)"
  using assms
  by (simp add: probeFTP_def drop_previous_cert_def ftp_outcome_def ftps_record_def ftps_trusted_def tls_Add_entries Let_def split_beta)

section \<open>Texts and the check before a start\<close>

lemma friendly_fixed:
  "friendlyProbeError uni stage (Some msg) \<in> insert list_text (insert other_text (snd ` set probe_texts))"
proof (cases "find (\<lambda>(pats, text). any_of pats (to_lower uni msg)) probe_texts")
  case None
  then show ?thesis by (simp add: friendlyProbeError_def)
next
  case (Some x)
  then have "x \<in> set probe_texts" by (metis find_Some_iff nth_mem)
  with Some show ?thesis by (auto simp: friendlyProbeError_def split_beta)
qed

lemma preflight_asks_like_the_check:
  "preflight_failed env h e c = Some out \<Longrightarrow> dial_failed env e c = out\<lparr>po_stage := ''ssh_or_sftp''\<rparr>"
  by (auto simp: preflight_failed_def dial_failed_def probe_failed_def split: if_splits)

lemma preflight_bastion_keeps: "preflight_bastion env bp s = (s', e) \<Longrightarrow> s' = s"
  using bastion_state by (fastforce simp: preflight_bastion_def split: prod.splits)

lemma preflight_untouched: "preflightHostKey env hst prt user pass auth bp tr = (tr', out) \<Longrightarrow> untouched tr tr'"
proof -
  assume a: "preflightHostKey env hst prt user pass auth bp tr = (tr', out)"
  obtain tr1 r where c: "preflight_callback env tr = (tr1, r)" by fastforce
  have u: "untouched tr tr1"
    using c by (auto simp: preflight_callback_def untouched_def dest!: kh_setup_kept split: if_splits prod.splits option.splits)
  show "untouched tr tr'"
  proof (cases r)
    case None
    then show ?thesis using a c u by (simp add: preflightHostKey_def)
  next
    case (Some cb)
    have cb: "fst (fst (cb ad k s)) = fst s" for ad k s
      using c Some by (auto simp: preflight_callback_def split: if_splits prod.splits option.splits)
    let ?via = "case bp of Some b \<Rightarrow> bp_Host b \<noteq> [] | None \<Rightarrow> False"
    obtain s e where b: "(if ?via then preflight_bastion env (the bp) (tr1, no_capture) else ((tr1, no_capture), None)) = (s, e)"
      by fastforce
    have s: "s = (tr1, no_capture)" using b preflight_bastion_keeps by (auto split: if_splits)
    obtain s1 e1 seen where d: "DialWithOpts NotConfigured (installed_callback env tr1) (preflight_opts hst prt user pass auth ?via cb)
        (plain_profile []) (pe_target env) s = (s1, e1, seen)" by (metis prod_cases3)
    have "fst s1 = tr1" using DialWithOpts_state[OF d] cb by (auto simp: preflight_opts_def s)
    then have "tr' = tr1"
      using a b d s unfolding preflightHostKey_def c Some by (cases e; cases e1) (simp_all add: Let_def)
    with u show ?thesis by simp
  qed
qed

section \<open>Witnesses\<close>

definition demo_other_key :: sshkey where
  "demo_other_key = \<lparr>ktype = ''ssh-ed25519'', marshal = ''k2''\<rparr>"

definition demo_env :: probe_env where
  "demo_env =
     \<lparr>pe_uni = id, pe_fpr = marshal, pe_sha = id, pe_lib = demo_lib, pe_now = 0, pe_keys = [], pe_tls_keys = [],
      pe_add_fault = None, pe_remove_fault = None, pe_append_fault = None, pe_rewrite_fault = None, pe_create_ok = True,
      pe_tls_add_fault = None, pe_tls_remove_fault = None, pe_tls_record_fault = None, pe_signer = (\<lambda>p q. Inl []),
      pe_tcp = None, pe_target = demo_ssh_server\<lparr>ss_key := (\<lambda>c. Some demo_other_key)\<rparr>, pe_bastion = demo_ssh_server,
      pe_ftp = \<lparr>sv_answers = (\<lambda>s. True), sv_version = TLS13, sv_peers = [], sv_chain_ok = (\<lambda>n. True), sv_login = (\<lambda>u p. True)\<rparr>,
      pe_ssh_text = (\<lambda>e. []), pe_bastion_text = (\<lambda>e. []), pe_ftp_text = (\<lambda>e. []), pe_setup_text = (\<lambda>e. []),
      pe_list = (\<lambda>f. None)\<rparr>"

definition demo_req :: probe_req where
  "demo_req =
     \<lparr>pq_Host = ''h'', pq_Port = 22, pq_Username = ''u'', pq_Password = ''p'', pq_Folder = [], pq_TrustOnFirstUse = False,
      pq_AcceptChanged = False, pq_PrivateKey = [], pq_Passphrase = [], pq_Protocol = [], pq_TLSMode = [],
      pq_TLSInsecureSkipVerify = False, pq_TLSServerName = [], pq_BastionHost = [], pq_BastionPort = 0, pq_BastionUser = [],
      pq_BastionPass = [], pq_BastionPrivateKeyPEM = [], pq_BastionPassphrase = []\<rparr>"

definition demo_trust :: trust where
  "demo_trust = \<lparr>tr_store = Some demo_known, tr_path = False, tr_file = None, tr_tls = None, tr_process = CbStrict\<rparr>"


theorem probe_prompts_exactly_witness:
  "\<exists>tr' out. handleProbe demo_env None demo_req demo_trust = (tr', Inr out, []) \<and>
     po_renewal out \<and> po_fp out = ''k2'' \<and> po_prev out = ''f''"
proof -
  have v: "Verify id marshal demo_known (probe_addr demo_req) demo_other_key = Some (VerifyError ErrKeyChanged ''h'' 22 ''k2'' ''f'')"
    by code_simp
  have p: "plain_ssh_probe demo_env demo_req" by (simp add: plain_ssh_probe_def demo_env_def demo_req_def demo_ssh_server_def protocol_Normalize_def)
  obtain tr' out seen where e: "handleProbe demo_env None demo_req demo_trust = (tr', Inr out, seen)"
    using plain_probe[OF p, of demo_trust] by (cases "probe_ssh demo_env demo_req demo_trust") auto
  have k: "ss_key (pe_target demo_env) (probe_config demo_req) = Some demo_other_key" by (simp add: demo_env_def)
  have u: "pe_uni demo_env = id" "pe_fpr demo_env = marshal" by (simp_all add: demo_env_def)
  from probe_prompts_exactly[OF p, of demo_trust demo_known demo_other_key tr' out seen] e k
  have "seen = [] \<and> po_fp out = ''k2'' \<and> po_renewal out \<and> po_prev out = ''f''"
    by (simp add: u v) (simp add: demo_trust_def demo_req_def demo_other_key_def)
  with e show ?thesis by simp
qed

end
