(* ===== verification/RunStart.thy ===== *)
theory RunStart
  imports StartRequest Dial Source Dispatch
begin

text \<open>
  The start and the end of a run as the resources it takes and gives back (internal/runner/runner.go:
  StartWithPersistAndTLS, buildPool, buildSink, closeListClients, teardown and the closing goroutine).
  Connections are numbers handed out by the world; a dial, a disk call or the opening of the jump host
  succeeds or fails as the environment says. The goroutines a start launches are listed by name.
\<close>

section \<open>The world\<close>

record start_world =
  sw_open :: "nat list"
  sw_next :: nat
  sw_bastions :: nat
  sw_streams :: "string list"
  sw_active :: int

record start_env =
  se_disk :: source_disk
  se_signer :: "string \<Rightarrow> string \<Rightarrow> string + string"
  se_bastion :: "string option"
  se_abs :: "string \<Rightarrow> string option"
  se_mkdir :: "string \<Rightarrow> bool"
  se_create :: "string \<Rightarrow> bool"
  se_dial :: "nat \<Rightarrow> string \<Rightarrow> string option"

definition close_ids :: "nat list \<Rightarrow> start_world \<Rightarrow> start_world" where
  "close_ids ids w = w\<lparr>sw_open := filter (\<lambda>i. i \<notin> set ids) (sw_open w)\<rparr>"

section \<open>Building\<close>

datatype file_sink = Discard | LocalDisk local_disk

definition buildSink :: "start_env \<Rightarrow> sink_config option \<Rightarrow> string + file_sink" where
  "buildSink env c =
     (case c of
        None \<Rightarrow> Inr Discard
      | Some s \<Rightarrow>
          if sk_kind s = [] \<or> sk_kind s = ''discard'' then Inr Discard
          else if sk_kind s = ''local-disk''
          then (case NewLocalDisk (se_abs env) (se_mkdir env) (sk_root s) (sk_template s) (sk_overwrite s) of
                  Inl e \<Rightarrow> Inl e | Inr d \<Rightarrow> Inr (LocalDisk d))
          else Inl (''unknown sink kind '' @ sk_kind s))"

text \<open>The loop of \<open>buildPool\<close>: the first failing dial closes the connections of this pool.\<close>

fun open_slots :: "start_env \<Rightarrow> string \<Rightarrow> nat \<Rightarrow> nat list \<Rightarrow> start_world \<Rightarrow> start_world \<times> (string + nat list)" where
  "open_slots env user 0 ids w = (w, Inr ids)"
| "open_slots env user (Suc n) ids w =
     (let i = sw_next w in
      case se_dial env i user of
        Some e \<Rightarrow> (close_ids ids (w\<lparr>sw_next := i + 1\<rparr>), Inl e)
      | None \<Rightarrow> open_slots env user n (ids @ [i]) (w\<lparr>sw_next := i + 1, sw_open := sw_open w @ [i]\<rparr>))"

definition open_pool :: "start_env \<Rightarrow> string \<Rightarrow> int \<Rightarrow> start_world \<Rightarrow> start_world \<times> (string + nat list)" where
  "open_pool env user n w = open_slots env user (nat (if n < 1 then 1 else n)) [] w"

section \<open>The run\<close>

datatype goroutine =
  GoDownloadWorker string | GoWatcher | GoConsumeTrackIDs | GoSampleHostStats | GoStreamFlusher | GoNormal | GoLargeFile | GoCloser

type_synonym pool_map = "(string \<times> nat list) list"

definition put_pool :: "string \<Rightarrow> nat list \<Rightarrow> pool_map \<Rightarrow> pool_map" where
  "put_pool u ids m = (u, ids) # filter (\<lambda>(v, js). v \<noteq> u) m"

record live_run =
  lr_cfg :: conn_config
  lr_auth :: "ssh_auth list"
  lr_normal_source :: "resolver option"
  lr_large_source :: "resolver option"
  lr_sink :: "file_sink option"
  lr_bastion :: bool
  lr_stream :: "string option"
  lr_pools :: pool_map
  lr_download_pools :: pool_map
  lr_list_clients :: "(string \<times> nat) list"
  lr_lists_closed :: bool
  lr_go :: "goroutine list"

datatype start_error =
  ConfigRefused config_error | PrivateKeyError string | BastionOnlySftp protocol | BastionRefused string
| NormalSourceError source_error | LargeSourceError source_error | DownloadSinkError string
| MkdirReports | OpenStream | ConnectError string string | DownloadConnectError string string

definition conn_Validate :: "conn_config \<Rightarrow> config_error + conn_config" where
  "conn_Validate c =
     (case Validate (run_config.truncate c) of
        Inl e \<Rightarrow> Inl e
      | Inr v \<Rightarrow> Inr (run_config.extend v (conn_config.fields (rc_PrivateKeyPEM c) (rc_PrivateKeyPassphrase c) (rc_Protocol c)
          (rc_TLSMode c) (rc_TLSInsecureSkipVerify c) (rc_TLSServerName c) (rc_TLSTrustOnFirstUse c) (rc_TLSPolicy c)
          (rc_QuirkProfile c) (rc_BastionHost c) (rc_BastionPort c) (rc_BastionUser c) (rc_BastionPass c)
          (rc_BastionPrivateKeyPEM c) (rc_BastionPassphrase c))))"

definition new_run :: "conn_config \<Rightarrow> live_run" where
  "new_run c =
     \<lparr>lr_cfg = c, lr_auth = [], lr_normal_source = None, lr_large_source = None, lr_sink = None, lr_bastion = False,
      lr_stream = None, lr_pools = [], lr_download_pools = [], lr_list_clients = [], lr_lists_closed = False, lr_go = []\<rparr>"

section \<open>The steps of a start\<close>

definition start_key :: "start_env \<Rightarrow> live_run \<Rightarrow> start_error + live_run" where
  "start_key env r =
     (if rc_PrivateKeyPEM (lr_cfg r) = [] then Inr r
      else case se_signer env (rc_PrivateKeyPEM (lr_cfg r)) (rc_PrivateKeyPassphrase (lr_cfg r)) of
          Inl e \<Rightarrow> Inl (PrivateKeyError e)
        | Inr k \<Rightarrow> Inr (r\<lparr>lr_auth := [PublicKeys k]\<rparr>))"

definition start_bastion :: "start_env \<Rightarrow> live_run \<Rightarrow> start_world \<Rightarrow> start_world \<times> (start_error + live_run)" where
  "start_bastion env r w =
     (if rc_BastionHost (lr_cfg r) = [] then (w, Inr r)
      else if protocol_Normalize (rc_Protocol (lr_cfg r)) \<noteq> SFTP
      then (w, Inl (BastionOnlySftp (protocol_Normalize (rc_Protocol (lr_cfg r)))))
      else case se_bastion env of
          Some e \<Rightarrow> (w, Inl (BastionRefused e))
        | None \<Rightarrow> (w\<lparr>sw_bastions := sw_bastions w + 1\<rparr>, Inr (r\<lparr>lr_bastion := True\<rparr>)))"

text \<open>Sources and sink: no resource is taken.\<close>

definition start_sources :: "start_env \<Rightarrow> live_run \<Rightarrow> start_error + live_run" where
  "start_sources env r =
     (let c = lr_cfg r in
      case (case normal c of None \<Rightarrow> Inr r
            | Some n \<Rightarrow> (case buildSourceResolver (se_disk env) (n_source n) of
                Inl e \<Rightarrow> Inl (NormalSourceError e) | Inr s \<Rightarrow> Inr (r\<lparr>lr_normal_source := s\<rparr>))) of
        Inl e \<Rightarrow> Inl e
      | Inr r1 \<Rightarrow>
          (case (case large_file c of None \<Rightarrow> Inr r1
                 | Some l \<Rightarrow> (case buildSourceResolver (se_disk env) (lf_source l) of
                     Inl e \<Rightarrow> Inl (LargeSourceError e) | Inr s \<Rightarrow> Inr (r1\<lparr>lr_large_source := s\<rparr>))) of
             Inl e \<Rightarrow> Inl e
           | Inr r2 \<Rightarrow>
               (case Option.bind (download c) dl_sink of
                  None \<Rightarrow> Inr r2
                | Some s \<Rightarrow> (case buildSink env (Some s) of
                    Inl e \<Rightarrow> Inl (DownloadSinkError e) | Inr k \<Rightarrow> Inr (r2\<lparr>lr_sink := Some k\<rparr>)))))"

definition start_stream :: "start_env \<Rightarrow> string \<Rightarrow> string \<Rightarrow> live_run \<Rightarrow> start_world \<Rightarrow> start_world \<times> (start_error + live_run)" where
  "start_stream env reportsDir path r w =
     (if reportsDir = [] then (w, Inr r)
      else if \<not> se_mkdir env reportsDir then (w, Inl MkdirReports)
      else if \<not> se_create env path then (w, Inl OpenStream)
      else (w\<lparr>sw_streams := path # sw_streams w\<rparr>, Inr (r\<lparr>lr_stream := Some path\<rparr>)))"

definition pool_ids :: "pool_map \<Rightarrow> nat list" where
  "pool_ids m = concat (map snd m)"

definition teardown :: "live_run \<Rightarrow> start_world \<Rightarrow> live_run \<times> start_world" where
  "teardown r w =
     (let w1 = close_ids (pool_ids (lr_pools r)) w;
          w2 = close_ids (pool_ids (lr_download_pools r)) w1;
          w3 = (if lr_bastion r then w2\<lparr>sw_bastions := sw_bastions w2 - 1\<rparr> else w2)
      in (r\<lparr>lr_pools := [], lr_download_pools := [], lr_bastion := False\<rparr>, w3))"

fun start_pools :: "start_env \<Rightarrow> user_creds list \<Rightarrow> live_run \<Rightarrow> start_world \<Rightarrow> start_world \<times> (start_error + live_run)" where
  "start_pools env [] r w = (w, Inr r)"
| "start_pools env (u # us) r w =
     (case open_pool env (username u) (parallel_streams (lr_cfg r)) w of
        (w', Inl e) \<Rightarrow> (snd (teardown r w'), Inl (ConnectError (username u) e))
      | (w', Inr ids) \<Rightarrow> start_pools env us (r\<lparr>lr_pools := put_pool (username u) ids (lr_pools r)\<rparr>) w')"

fun start_download_pools ::
  "start_env \<Rightarrow> int \<Rightarrow> user_creds list \<Rightarrow> live_run \<Rightarrow> start_world \<Rightarrow> start_world \<times> (start_error + live_run)" where
  "start_download_pools env n [] r w = (w, Inr r)"
| "start_download_pools env n (u # us) r w =
     (case open_pool env (username u) n w of
        (w', Inl e) \<Rightarrow> (snd (teardown r w'), Inl (DownloadConnectError (username u) e))
      | (w', Inr ids) \<Rightarrow>
          start_download_pools env n us (r\<lparr>lr_download_pools := put_pool (username u) ids (lr_download_pools r)\<rparr>) w')"

definition launched :: "live_run \<Rightarrow> goroutine list" where
  "launched r =
     (let c = lr_cfg r in
      (case download c of None \<Rightarrow> [] | Some d \<Rightarrow> map (\<lambda>u. GoDownloadWorker (username u)) (download_users c))
      @ [GoWatcher, GoConsumeTrackIDs, GoSampleHostStats]
      @ (if lr_stream r = None then [] else [GoStreamFlusher])
      @ (if normal c = None then [] else [GoNormal]) @ (if large_file c = None then [] else [GoLargeFile])
      @ [GoCloser])"

definition start_dials :: "start_env \<Rightarrow> live_run \<Rightarrow> start_world \<Rightarrow> start_world \<times> (start_error + live_run)" where
  "start_dials env r w =
     (case start_pools env (mergeUsers (normal_users (lr_cfg r)) (large_users (lr_cfg r))) r w of
        (w1, Inl e) \<Rightarrow> (w1, Inl e)
      | (w1, Inr r1) \<Rightarrow>
          (case (case download (lr_cfg r) of None \<Rightarrow> (w1, Inr r1)
                 | Some d \<Rightarrow> start_download_pools env (dl_streams d) (download_users (lr_cfg r)) r1 w1) of
             (w2, Inl e) \<Rightarrow> (w2, Inl e)
           | (w2, Inr r2) \<Rightarrow> (w2\<lparr>sw_active := sw_active w2 + 1\<rparr>, Inr (r2\<lparr>lr_go := launched r2\<rparr>))))"

definition StartWithPersistAndTLS ::
  "start_env \<Rightarrow> string \<Rightarrow> string \<Rightarrow> conn_config \<Rightarrow> start_world \<Rightarrow> start_world \<times> (start_error + live_run)" where
  "StartWithPersistAndTLS env reportsDir path c w =
     (case conn_Validate c of
        Inl e \<Rightarrow> (w, Inl (ConfigRefused e))
      | Inr v \<Rightarrow>
          (case start_key env (new_run v) of
             Inl e \<Rightarrow> (w, Inl e)
           | Inr r1 \<Rightarrow>
               (case start_bastion env r1 w of
                  (w1, Inl e) \<Rightarrow> (w1, Inl e)
                | (w1, Inr r2) \<Rightarrow>
                    (case start_sources env r2 of
                       Inl e \<Rightarrow> (w1, Inl e)
                     | Inr r3 \<Rightarrow>
                         (case start_stream env reportsDir path r3 w1 of
                            (w2, Inl e) \<Rightarrow> (w2, Inl e)
                          | (w2, Inr r4) \<Rightarrow> start_dials env r4 w2)))))"

section \<open>The end of a run\<close>

text \<open>A worker registers the connection it lists with; after the registry was closed it closes the connection itself.\<close>

definition register_list :: "string \<Rightarrow> nat \<Rightarrow> live_run \<Rightarrow> live_run \<times> bool" where
  "register_list u i r =
     (if lr_lists_closed r then (r, False) else (r\<lparr>lr_list_clients := (u, i) # filter (\<lambda>(v, j). v \<noteq> u) (lr_list_clients r)\<rparr>, True))"

definition closeListClients :: "live_run \<Rightarrow> start_world \<Rightarrow> live_run \<times> start_world" where
  "closeListClients r w =
     (r\<lparr>lr_list_clients := [], lr_lists_closed := True\<rparr>, close_ids (map snd (lr_list_clients r)) w)"

text \<open>The moments the closing goroutine passes: the dispatchers end, the uploads end, the drain of pending track ids
  polls, then one more poll interval and half a second; \<open>obs\<close> are the clock and the pending count it reads.\<close>

definition dispatchers_end :: "conn_config \<Rightarrow> int \<Rightarrow> int \<Rightarrow> int \<Rightarrow> int" where
  "dispatchers_end c now end_normal end_large =
     max now (max (if normal c = None then now else end_normal) (if large_file c = None then now else end_large))"

fun drain_until :: "int \<Rightarrow> (int \<times> int) list \<Rightarrow> int option" where
  "drain_until deadline [] = None"
| "drain_until deadline ((t, left) # obs) =
     (if t < deadline \<and> 0 < left then drain_until deadline obs else Some t)"

definition cancel_time :: "conn_config \<Rightarrow> int \<Rightarrow> (int \<times> int) list \<Rightarrow> int option" where
  "cancel_time c uploads_done obs =
     map_option (\<lambda>t. t + poll_interval c + 500000000) (drain_until (uploads_done + trackid_timeout c + 5 * second) obs)"

text \<open>Whether the workers left in time: the teardown does not wait longer.\<close>

definition workers_waited :: "conn_config \<Rightarrow> int \<Rightarrow> int \<Rightarrow> int" where
  "workers_waited c stopped workers_done = min (max stopped workers_done) (stopped + trackid_timeout c + 30 * second)"

text \<open>A worker that lists dials once and, after a failed listing, again: the old connection is closed first.\<close>

definition list_dial :: "string \<Rightarrow> live_run \<times> start_world \<Rightarrow> live_run \<times> start_world" where
  "list_dial u rw =
     (case rw of (r, w) \<Rightarrow>
        let old = (case map_of (lr_list_clients r) u of None \<Rightarrow> [] | Some j \<Rightarrow> [j]);
            i = sw_next w;
            w1 = close_ids old w;
            w2 = w1\<lparr>sw_next := i + 1, sw_open := sw_open w1 @ [i]\<rparr>
        in case register_list u i r of
             (r', True) \<Rightarrow> (r', w2)
           | (r', False) \<Rightarrow> (r', close_ids [i] w2))"

definition finish_run :: "string \<Rightarrow> live_run \<Rightarrow> start_world \<Rightarrow> live_run \<times> start_world" where
  "finish_run reportsDir r w =
     (case closeListClients r w of
        (r1, w1) \<Rightarrow>
          (case teardown r1 w1 of
             (r2, w2) \<Rightarrow>
               let w3 = (if reportsDir = [] then w2
                         else case lr_stream r2 of None \<Rightarrow> w2
                           | Some p \<Rightarrow> w2\<lparr>sw_streams := remove1 p (sw_streams w2)\<rparr>)
               in (r2, w3\<lparr>sw_active := sw_active w3 - 1\<rparr>)))"

section \<open>Connections are accounted for\<close>

definition fresh :: "start_world \<Rightarrow> bool" where
  "fresh w \<longleftrightarrow> (\<forall>i \<in> set (sw_open w). i < sw_next w)"

text \<open>\<open>grows w ids w'\<close>: exactly the connections \<open>ids\<close> were opened, all of them new, and nothing else changed.\<close>

definition grows :: "start_world \<Rightarrow> nat list \<Rightarrow> start_world \<Rightarrow> bool" where
  "grows w ids w' \<longleftrightarrow>
     sw_open w' = sw_open w @ ids \<and> (\<forall>i \<in> set ids. sw_next w \<le> i \<and> i < sw_next w') \<and> sw_next w \<le> sw_next w' \<and>
     sw_bastions w' = sw_bastions w \<and> sw_streams w' = sw_streams w \<and> sw_active w' = sw_active w"

lemma grows_refl [simp]: "grows w [] w"
  by (simp add: grows_def)

lemma grows_trans: "grows w a w1 \<Longrightarrow> grows w1 b w2 \<Longrightarrow> grows w (a @ b) w2"
  unfolding grows_def by auto

lemma grows_fresh: "grows w ids w' \<Longrightarrow> fresh w \<Longrightarrow> fresh w'"
  by (auto simp: grows_def fresh_def)

lemma close_grown:
  assumes "grows w ids w'" "fresh w" "set js = set ids"
  shows "sw_open (close_ids js w') = sw_open w"
proof -
  have "filter (\<lambda>i. i \<notin> set ids) (sw_open w) = sw_open w"
    using assms(1,2) by (intro filter_True) (force simp: grows_def fresh_def)
  then show ?thesis using assms(1,3) by (simp add: close_ids_def grows_def)
qed

lemma close_fields [simp]:
  "sw_next (close_ids ids w) = sw_next w" "sw_bastions (close_ids ids w) = sw_bastions w"
  "sw_streams (close_ids ids w) = sw_streams w" "sw_active (close_ids ids w) = sw_active w"
  by (simp_all add: close_ids_def)

lemma open_slots_grows:
  assumes "open_slots env u n ids w = (w', r)" "grows w0 ids w" "fresh w0"
  shows "(case r of Inr js \<Rightarrow> grows w0 js w' \<and> length js = length ids + n | Inl e \<Rightarrow> grows w0 [] w')"
  using assms(1,2)
proof (induction n arbitrary: ids w)
  case 0
  then show ?case by auto
next
  case (Suc n)
  show ?case
  proof (cases "se_dial env (sw_next w) u")
    case None
    have "grows w0 (ids @ [sw_next w]) (w\<lparr>sw_next := sw_next w + 1, sw_open := sw_open w @ [sw_next w]\<rparr>)"
      using Suc.prems(2) by (auto simp: grows_def)
    from Suc.IH[OF _ this] Suc.prems(1) None show ?thesis by (auto simp: Let_def split: sum.splits)
  next
    case (Some e)
    have g: "grows w0 ids (w\<lparr>sw_next := sw_next w + 1\<rparr>)" using Suc.prems(2) by (auto simp: grows_def)
    have "r = Inl e" "w' = close_ids ids (w\<lparr>sw_next := sw_next w + 1\<rparr>)" using Suc.prems(1) Some by (auto simp: Let_def)
    then show ?thesis using close_grown[OF g assms(3) refl] g by (simp add: grows_def)
  qed
qed

lemma open_pool_grows:
  assumes "open_pool env u n w = (w', r)" "fresh w"
  shows "(case r of Inr js \<Rightarrow> grows w js w' \<and> length js = nat (max 1 n) | Inl e \<Rightarrow> grows w [] w')"
proof -
  have "nat (if n < 1 then 1 else n) = nat (max 1 n)" by auto
  with open_slots_grows[OF assms(1)[unfolded open_pool_def] _ assms(2)] show ?thesis by (auto split: sum.splits)
qed

text \<open>\<open>holds w0 r w\<close>: since \<open>w0\<close> exactly the connections of the two pool maps were opened.\<close>

definition holds :: "start_world \<Rightarrow> live_run \<Rightarrow> start_world \<Rightarrow> bool" where
  "holds w0 r w \<longleftrightarrow>
     (\<exists>ids. grows w0 ids w \<and> set ids = set (pool_ids (lr_pools r)) \<union> set (pool_ids (lr_download_pools r)))"

lemma put_new: "u \<notin> fst ` set m \<Longrightarrow> put_pool u ids m = (u, ids) # m"
  by (force simp: put_pool_def intro!: filter_True)

lemma holds_fresh: "holds w0 r w \<Longrightarrow> fresh w0 \<Longrightarrow> fresh w"
  using grows_fresh by (auto simp: holds_def)

lemma teardown_returns:
  assumes "holds w0 r w" "fresh w0"
  shows "sw_open (snd (teardown r w)) = sw_open w0"
    "sw_bastions (snd (teardown r w)) = sw_bastions w0 - (if lr_bastion r then 1 else 0)"
    "sw_streams (snd (teardown r w)) = sw_streams w0" "sw_active (snd (teardown r w)) = sw_active w0"
proof -
  from assms(1) obtain ids where g: "grows w0 ids w"
    and s: "set ids = set (pool_ids (lr_pools r)) \<union> set (pool_ids (lr_download_pools r))" by (auto simp: holds_def)
  let ?js = "pool_ids (lr_pools r) @ pool_ids (lr_download_pools r)"
  have both: "sw_open (close_ids (pool_ids (lr_download_pools r)) (close_ids (pool_ids (lr_pools r)) w)) = sw_open (close_ids ?js w)"
    by (auto simp: close_ids_def intro: filter_cong)
  have "set ?js = set ids" using s by simp
  from close_grown[OF g assms(2) this] show "sw_open (snd (teardown r w)) = sw_open w0"
    by (simp add: teardown_def Let_def both)
  show "sw_bastions (snd (teardown r w)) = sw_bastions w0 - (if lr_bastion r then 1 else 0)"
    "sw_streams (snd (teardown r w)) = sw_streams w0" "sw_active (snd (teardown r w)) = sw_active w0"
    using g by (simp_all add: teardown_def grows_def Let_def)
qed

lemma holds_put:
  assumes "holds w0 r w" "fresh w0" "open_pool env u n w = (w', Inr ids)"
  shows "u \<notin> fst ` set (lr_pools r) \<Longrightarrow> holds w0 (r\<lparr>lr_pools := put_pool u ids (lr_pools r)\<rparr>) w'"
    "u \<notin> fst ` set (lr_download_pools r) \<Longrightarrow> holds w0 (r\<lparr>lr_download_pools := put_pool u ids (lr_download_pools r)\<rparr>) w'"
    "length ids = nat (max 1 n)"
proof -
  from assms(1) obtain js where g: "grows w0 js w"
    and s: "set js = set (pool_ids (lr_pools r)) \<union> set (pool_ids (lr_download_pools r))" by (auto simp: holds_def)
  have o: "grows w ids w'" "length ids = nat (max 1 n)"
    using open_pool_grows[OF assms(3) holds_fresh[OF assms(1,2)]] by auto
  note t = grows_trans[OF g o(1)]
  show "u \<notin> fst ` set (lr_pools r) \<Longrightarrow> holds w0 (r\<lparr>lr_pools := put_pool u ids (lr_pools r)\<rparr>) w'"
    "u \<notin> fst ` set (lr_download_pools r) \<Longrightarrow> holds w0 (r\<lparr>lr_download_pools := put_pool u ids (lr_download_pools r)\<rparr>) w'"
    unfolding holds_def using t s by (auto simp: put_new pool_ids_def intro!: exI[of _ "js @ ids"])
  show "length ids = nat (max 1 n)" by (rule o(2))
qed

lemma holds_failed:
  assumes "holds w0 r w" "fresh w0" "open_pool env u n w = (w', Inl e)"
  shows "holds w0 r w'"
proof -
  from assms(1) obtain js where g: "grows w0 js w"
    and s: "set js = set (pool_ids (lr_pools r)) \<union> set (pool_ids (lr_download_pools r))" by (auto simp: holds_def)
  have "grows w [] w'" using open_pool_grows[OF assms(3) holds_fresh[OF assms(1,2)]] by simp
  from grows_trans[OF g this] s show ?thesis by (auto simp: holds_def)
qed

lemma pools_cfg: "start_pools env us r w = (w', Inr r') \<Longrightarrow> lr_cfg r' = lr_cfg r"
  by (induction env us r w rule: start_pools.induct) (auto split: prod.splits sum.splits)

lemma download_pools_cfg: "start_download_pools env n us r w = (w', Inr r') \<Longrightarrow> lr_cfg r' = lr_cfg r"
  by (induction env n us r w rule: start_download_pools.induct) (auto split: prod.splits sum.splits)

text \<open>What a loop over users leaves behind: on failure everything it found is given back.\<close>

definition given_back :: "start_world \<Rightarrow> bool \<Rightarrow> start_world \<Rightarrow> bool" where
  "given_back w0 had_bastion w \<longleftrightarrow>
     sw_open w = sw_open w0 \<and> sw_bastions w = sw_bastions w0 - (if had_bastion then 1 else 0) \<and>
     sw_streams w = sw_streams w0 \<and> sw_active w = sw_active w0"

lemma start_pools_holds:
  assumes "start_pools env us r w = (w', res)" "holds w0 r w" "fresh w0"
    and "distinct (map username us)" "\<forall>u \<in> set us. username u \<notin> fst ` set (lr_pools r)"
  shows "(case res of
      Inr r' \<Rightarrow> holds w0 r' w' \<and> fst ` set (lr_pools r') = username ` set us \<union> fst ` set (lr_pools r) \<and>
        (\<forall>p \<in> set (lr_pools r') - set (lr_pools r). length (snd p) = nat (max 1 (parallel_streams (lr_cfg r)))) \<and>
        r' = r\<lparr>lr_pools := lr_pools r'\<rparr>
    | Inl e \<Rightarrow> given_back w0 (lr_bastion r) w' \<and> (\<exists>u t. e = ConnectError u t))"
  using assms(1,2,4,5)
proof (induction us arbitrary: r w)
  case Nil
  then show ?case by auto
next
  case (Cons u us)
  obtain w1 o1 where o: "open_pool env (username u) (parallel_streams (lr_cfg r)) w = (w1, o1)" by fastforce
  show ?case
  proof (cases o1)
    case (Inl e)
    then have "holds w0 r w1" using holds_failed[OF Cons.prems(2) assms(3)] o by simp
    note t = teardown_returns[OF this assms(3)]
    show ?thesis using Cons.prems(1) o Inl t by (auto simp: given_back_def)
  next
    case (Inr ids)
    let ?r = "r\<lparr>lr_pools := put_pool (username u) ids (lr_pools r)\<rparr>"
    have new: "username u \<notin> fst ` set (lr_pools r)" using Cons.prems(4) by simp
    note P = holds_put[OF Cons.prems(2) assms(3) o[unfolded Inr]]
    have s: "start_pools env us ?r w1 = (w', res)" using Cons.prems(1) o Inr by simp
    have other: "\<forall>v \<in> set us. username v \<noteq> username u" using Cons.prems(3) by (simp add: image_iff) metis
    have keys: "fst ` set (put_pool (username u) ids (lr_pools r)) = insert (username u) (fst ` set (lr_pools r))" by (simp add: put_new[OF new])
    have later: "\<forall>v \<in> set us. username v \<notin> fst ` set (lr_pools ?r)" using other Cons.prems(4) by (simp add: keys)
    note I = Cons.IH[OF s P(1)[OF new] _ later]
    show ?thesis
    proof (cases res)
      case (Inl e)
      then show ?thesis using I Cons.prems(3) by simp
    next
      case (Inr r')
      then show ?thesis using I Cons.prems(3) P(3) by (auto simp: put_new[OF new])
    qed
  qed
qed

lemma start_download_pools_holds:
  assumes "start_download_pools env n us r w = (w', res)" "holds w0 r w" "fresh w0"
    and "distinct (map username us)" "\<forall>u \<in> set us. username u \<notin> fst ` set (lr_download_pools r)"
  shows "(case res of
      Inr r' \<Rightarrow> holds w0 r' w' \<and> fst ` set (lr_download_pools r') = username ` set us \<union> fst ` set (lr_download_pools r) \<and>
        (\<forall>p \<in> set (lr_download_pools r') - set (lr_download_pools r). length (snd p) = nat (max 1 n)) \<and>
        r' = r\<lparr>lr_download_pools := lr_download_pools r'\<rparr>
    | Inl e \<Rightarrow> given_back w0 (lr_bastion r) w' \<and> (\<exists>u t. e = DownloadConnectError u t))"
  using assms(1,2,4,5)
proof (induction us arbitrary: r w)
  case Nil
  then show ?case by auto
next
  case (Cons u us)
  obtain w1 o1 where o: "open_pool env (username u) n w = (w1, o1)" by fastforce
  show ?case
  proof (cases o1)
    case (Inl e)
    then have "holds w0 r w1" using holds_failed[OF Cons.prems(2) assms(3)] o by simp
    note t = teardown_returns[OF this assms(3)]
    show ?thesis using Cons.prems(1) o Inl t by (auto simp: given_back_def)
  next
    case (Inr ids)
    let ?r = "r\<lparr>lr_download_pools := put_pool (username u) ids (lr_download_pools r)\<rparr>"
    have new: "username u \<notin> fst ` set (lr_download_pools r)" using Cons.prems(4) by simp
    note P = holds_put[OF Cons.prems(2) assms(3) o[unfolded Inr]]
    have s: "start_download_pools env n us ?r w1 = (w', res)" using Cons.prems(1) o Inr by simp
    have other: "\<forall>v \<in> set us. username v \<noteq> username u" using Cons.prems(3) by (simp add: image_iff) metis
    have keys: "fst ` set (put_pool (username u) ids (lr_download_pools r)) = insert (username u) (fst ` set (lr_download_pools r))" by (simp add: put_new[OF new])
    have later: "\<forall>v \<in> set us. username v \<notin> fst ` set (lr_download_pools ?r)" using other Cons.prems(4) by (simp add: keys)
    note I = Cons.IH[OF s P(2)[OF new] _ later]
    show ?thesis
    proof (cases res)
      case (Inl e)
      then show ?thesis using I Cons.prems(3) by simp
    next
      case (Inr r')
      then show ?thesis using I Cons.prems(3) P(3) by (auto simp: put_new[OF new])
    qed
  qed
qed

section \<open>A failed start\<close>

lemma Validate_users: "Validate c = Inr v \<Longrightarrow>
    download_users v = download_users c \<and> normal_users v = normal_users c \<and> large_users v = large_users c"
  by (auto simp: Validate_def Let_def min_streams_def split: if_splits sum.splits)

lemma conn_Validate_fields: "conn_Validate c = Inr v \<Longrightarrow>
    download_users v = download_users c \<and> normal_users v = normal_users c \<and> large_users v = large_users c \<and>
    rc_BastionHost v = rc_BastionHost c"
proof -
  assume a: "conn_Validate c = Inr v"
  obtain x where x: "Validate (run_config.truncate c) = Inr x" using a by (auto simp: conn_Validate_def split: sum.splits)
  from Validate_users[OF x] have u: "download_users x = download_users c \<and> normal_users x = normal_users c \<and> large_users x = large_users c"
    by (simp add: run_config.truncate_def)
  with a x show ?thesis by (auto simp: conn_Validate_def run_config.extend_def conn_config.fields_def)
qed

definition after_bastion :: "start_error \<Rightarrow> bool" where
  "after_bastion e =
     (case e of NormalSourceError x \<Rightarrow> True | LargeSourceError x \<Rightarrow> True | DownloadSinkError x \<Rightarrow> True
      | MkdirReports \<Rightarrow> True | OpenStream \<Rightarrow> True | _ \<Rightarrow> False)"

definition while_dialling :: "start_error \<Rightarrow> bool" where
  "while_dialling e = (case e of ConnectError u t \<Rightarrow> True | DownloadConnectError u t \<Rightarrow> True | _ \<Rightarrow> False)"

lemma start_sources_run: "start_sources env r = Inr r' \<Longrightarrow>
    lr_bastion r' = lr_bastion r \<and> lr_pools r' = lr_pools r \<and> lr_download_pools r' = lr_download_pools r \<and>
    lr_cfg r' = lr_cfg r \<and> lr_list_clients r' = lr_list_clients r \<and> lr_lists_closed r' = lr_lists_closed r \<and> lr_stream r' = lr_stream r"
  by (auto simp: start_sources_def Let_def split: option.splits sum.splits)

lemma start_sources_error: "start_sources env r = Inl e \<Longrightarrow> after_bastion e \<and> \<not> while_dialling e"
  by (auto simp: start_sources_def Let_def after_bastion_def while_dialling_def split: option.splits sum.splits)

lemma start_dials_holds:
  assumes "start_dials env r w = (w', res)" "fresh w" "lr_pools r = []" "lr_download_pools r = []"
    and "distinct (map username (download_users (lr_cfg r)))"
  shows "case res of
      Inl e \<Rightarrow> given_back w (lr_bastion r) w' \<and> while_dialling e
    | Inr r' \<Rightarrow> holds w r' (w'\<lparr>sw_active := sw_active w\<rparr>) \<and> sw_active w' = sw_active w + 1 \<and>
        fst ` set (lr_pools r') = username ` (set (normal_users (lr_cfg r)) \<union> set (large_users (lr_cfg r))) \<and>
        (\<forall>p \<in> set (lr_pools r'). length (snd p) = nat (max 1 (parallel_streams (lr_cfg r)))) \<and>
        lr_bastion r' = lr_bastion r \<and> lr_list_clients r' = lr_list_clients r \<and> lr_lists_closed r' = lr_lists_closed r \<and>
        lr_stream r' = lr_stream r \<and> lr_go r' = launched r'"
proof -
  let ?us = "mergeUsers (normal_users (lr_cfg r)) (large_users (lr_cfg r))"
  have m: "distinct (map username ?us)" "username ` set ?us = username ` (set (normal_users (lr_cfg r)) \<union> set (large_users (lr_cfg r)))"
    using mergeUsers_passwords[of "run_config.truncate (lr_cfg r)"] by (simp_all add: run_config.truncate_def image_Un)
  have h: "holds w r w" by (auto simp: holds_def pool_ids_def assms(3,4) intro: exI[of _ "[]"])
  obtain w1 r1 where s1: "start_pools env ?us r w = (w1, r1)" by fastforce
  note H1 = start_pools_holds[OF s1 h assms(2) m(1)]
  show ?thesis
  proof (cases r1)
    case (Inl e)
    then show ?thesis using assms(1) H1 by (auto simp: start_dials_def s1 assms(3) while_dialling_def)
  next
    case (Inr ra)
    from H1 Inr have a: "holds w ra w1" "fst ` set (lr_pools ra) = username ` set ?us"
      "\<forall>p \<in> set (lr_pools ra). length (snd p) = nat (max 1 (parallel_streams (lr_cfg r)))" "ra = r\<lparr>lr_pools := lr_pools ra\<rparr>"
      by (simp_all add: assms(3))
    from a(4) have f: "lr_cfg ra = lr_cfg r" "lr_bastion ra = lr_bastion r" "lr_download_pools ra = []" "lr_list_clients ra = lr_list_clients r"
      "lr_lists_closed ra = lr_lists_closed r" "lr_stream ra = lr_stream r"
      using assms(4) by (metis live_run.select_convs live_run.surjective live_run.update_convs(8))+
    show ?thesis
    proof (cases "download (lr_cfg r)")
      case None
      then show ?thesis
        using assms(1) a f m(2) by (auto simp: start_dials_def s1 Inr holds_def grows_def launched_def)
    next
      case (Some d)
      obtain w2 r2 where s2: "start_download_pools env (dl_streams d) (download_users (lr_cfg r)) ra w1 = (w2, r2)" by fastforce
      note H2 = start_download_pools_holds[OF s2 a(1) assms(2,5)]
      show ?thesis
      proof (cases r2)
        case (Inl e)
        then show ?thesis using assms(1) H2 f by (auto simp: start_dials_def s1 Inr Some s2 while_dialling_def)
      next
        case i2: (Inr rb)
        from H2 i2 f have b: "holds w rb w2" "rb = ra\<lparr>lr_download_pools := lr_download_pools rb\<rparr>" by simp_all
        from b(2) have g: "lr_cfg rb = lr_cfg ra" "lr_bastion rb = lr_bastion ra" "lr_pools rb = lr_pools ra" "lr_list_clients rb = lr_list_clients ra"
          "lr_lists_closed rb = lr_lists_closed ra" "lr_stream rb = lr_stream ra"
          by (metis live_run.select_convs live_run.surjective live_run.update_convs(9))+
        show ?thesis
          using assms(1) a b(1) f g m(2) by (auto simp: start_dials_def s1 Inr Some s2 i2 holds_def grows_def launched_def)
      qed
    qed
  qed
qed


section \<open>A run gives everything back\<close>

text \<open>\<open>held w0 r w\<close>: the connections open beyond those of \<open>w0\<close> are the ones the run knows.\<close>

definition run_ids :: "live_run \<Rightarrow> nat set" where
  "run_ids r = set (pool_ids (lr_pools r)) \<union> set (pool_ids (lr_download_pools r)) \<union> snd ` set (lr_list_clients r)"

definition held :: "start_world \<Rightarrow> live_run \<Rightarrow> start_world \<Rightarrow> bool" where
  "held w0 r w \<longleftrightarrow>
     set (sw_open w) = set (sw_open w0) \<union> run_ids r \<and> (\<forall>i \<in> run_ids r. sw_next w0 \<le> i) \<and>
     (\<forall>i \<in> set (sw_open w). i < sw_next w) \<and> sw_next w0 \<le> sw_next w \<and>
     (set (pool_ids (lr_pools r)) \<union> set (pool_ids (lr_download_pools r))) \<inter> snd ` set (lr_list_clients r) = {} \<and>
     inj_on snd (set (lr_list_clients r)) \<and> distinct (map fst (lr_list_clients r)) \<and> \<not> lr_lists_closed r"

lemma holds_held:
  assumes "holds w0 r (w\<lparr>sw_active := a\<rparr>)" "fresh w0" "lr_list_clients r = []" "\<not> lr_lists_closed r"
  shows "held w0 r w"
proof -
  from assms(1) obtain ids where g: "sw_open w = sw_open w0 @ ids" "\<forall>i \<in> set ids. sw_next w0 \<le> i \<and> i < sw_next w" "sw_next w0 \<le> sw_next w"
    and s: "set ids = set (pool_ids (lr_pools r)) \<union> set (pool_ids (lr_download_pools r))"
    by (auto simp: holds_def grows_def)
  have r: "run_ids r = set ids" by (simp add: run_ids_def assms(3) s)
  have "\<forall>i \<in> set (sw_open w0). i < sw_next w" using assms(2) g(3) by (auto simp: fresh_def)
  then show ?thesis using g assms(3,4) by (auto simp: held_def r)
qed

lemma replaced_ids:
  assumes "inj_on snd (set m)"
  shows "snd ` set (filter (\<lambda>(v, j). v \<noteq> u) m) = snd ` set m - snd ` {p \<in> set m. fst p = u}"
proof -
  have "set (filter (\<lambda>(v, j). v \<noteq> u) m) = set m - {p \<in> set m. fst p = u}" by auto
  then show ?thesis using inj_on_image_set_diff[OF assms, of "set m" "{p \<in> set m. fst p = u}"] by auto
qed

lemma replaced_open:
  "A = B \<union> (P \<union> L) \<Longrightarrow> D \<inter> (B \<union> P) = {} \<Longrightarrow> A' = insert i (A - D) \<Longrightarrow> A' = B \<union> (P \<union> insert i (L - D))"
  by auto

lemma register_keeps:
  assumes "held w0 r w" "i \<notin> run_ids r"
    "set (sw_open w') = insert i (set (sw_open w) - snd ` {p \<in> set (lr_list_clients r). fst p = u})"
    "i < sw_next w'" "sw_next w \<le> sw_next w'" "sw_next w0 \<le> i" "fresh w0"
    and r': "r' = r\<lparr>lr_list_clients := (u, i) # filter (\<lambda>(v, j). v \<noteq> u) (lr_list_clients r)\<rparr>"
  shows "held w0 r' w'"
proof -
  let ?m = "lr_list_clients r" and ?old = "snd ` {p \<in> set (lr_list_clients r). fst p = u}"
  let ?P = "set (pool_ids (lr_pools r)) \<union> set (pool_ids (lr_download_pools r))"
  have inj: "inj_on snd (set ?m)" and H: "set (sw_open w) = set (sw_open w0) \<union> (?P \<union> snd ` set ?m)"
    "\<forall>i \<in> ?P \<union> snd ` set ?m. sw_next w0 \<le> i" "\<forall>i \<in> set (sw_open w). i < sw_next w" "sw_next w0 \<le> sw_next w"
    "?P \<inter> snd ` set ?m = {}" "\<not> lr_lists_closed r" "distinct (map fst ?m)"
    using assms(1) by (simp_all add: held_def run_ids_def)
  have sub: "?old \<subseteq> snd ` set ?m" by auto
  have new: "snd ` set (lr_list_clients r') = insert i (snd ` set ?m - ?old)" using replaced_ids[OF inj, of u] by (simp add: r')
  have same: "lr_pools r' = lr_pools r" "lr_download_pools r' = lr_download_pools r" "lr_lists_closed r' = lr_lists_closed r" by (simp_all add: r')
  have "x \<notin> set (sw_open w0)" if "x \<in> ?old" for x
    using that sub H(2) assms(7) by (meson UnI2 fresh_def linorder_not_less subsetD)
  then have away: "?old \<inter> (set (sw_open w0) \<union> ?P) = {}" using sub H(5) by blast
  have inj': "inj_on snd (set (lr_list_clients r'))"
  proof -
    have "inj_on snd (set (filter (\<lambda>(v, j). v \<noteq> u) ?m))" by (rule inj_on_subset[OF inj]) auto
    moreover have "i \<notin> snd ` set (filter (\<lambda>(v, j). v \<noteq> u) ?m)" using assms(2) by (auto simp: run_ids_def)
    ultimately show ?thesis by (simp add: r')
  qed
  have o: "set (sw_open w') = set (sw_open w0) \<union> (?P \<union> insert i (snd ` set ?m - ?old))"
    by (rule replaced_open[OF H(1) away assms(3)])
  have ids: "run_ids r' = ?P \<union> insert i (snd ` set ?m - ?old)" by (simp only: run_ids_def new same)
  have "\<forall>x \<in> run_ids r'. sw_next w0 \<le> x" using H(2) assms(6) by (auto simp: ids)
  moreover have "\<forall>x \<in> set (sw_open w'). x < sw_next w'" using H(3) assms(3,4,5) by auto
  moreover have "?P \<inter> snd ` set (lr_list_clients r') = {}" using H(5) assms(2) by (auto simp: new run_ids_def)
  moreover have "distinct (map fst (lr_list_clients r'))" using H(7) by (auto simp: r' distinct_map_filter)
  ultimately show ?thesis using o ids inj' H(4,6) assms(5) by (simp add: held_def same)
qed

lemma entry_of: "distinct (map fst m) \<Longrightarrow>
    set (case map_of m u of None \<Rightarrow> [] | Some j \<Rightarrow> [j]) = snd ` {p \<in> set m. fst p = u}"
  by (auto simp: map_of_eq_None_iff image_iff split: option.splits dest: map_of_SomeD intro: map_of_is_SomeI)

lemma list_dial_keeps:
  assumes "held w0 r w" "fresh w0" "list_dial u (r, w) = (r', w')"
  shows "held w0 r' w' \<and> lr_bastion r' = lr_bastion r \<and> lr_stream r' = lr_stream r \<and>
    sw_bastions w' = sw_bastions w \<and> sw_streams w' = sw_streams w \<and> sw_active w' = sw_active w"
proof -
  let ?old = "case map_of (lr_list_clients r) u of None \<Rightarrow> [] | Some j \<Rightarrow> [j]"
  have h: "\<not> lr_lists_closed r" "distinct (map fst (lr_list_clients r))" "\<forall>i \<in> set (sw_open w). i < sw_next w"
    "run_ids r \<subseteq> set (sw_open w)" "sw_next w0 \<le> sw_next w"
    using assms(1) by (simp_all add: held_def)
  have r': "r' = r\<lparr>lr_list_clients := (u, sw_next w) # filter (\<lambda>(v, j). v \<noteq> u) (lr_list_clients r)\<rparr>"
    and w': "w' = (close_ids ?old w)\<lparr>sw_next := sw_next w + 1, sw_open := sw_open (close_ids ?old w) @ [sw_next w]\<rparr>"
    using assms(3) h(1) by (auto simp: list_dial_def register_list_def Let_def)
  have new: "sw_next w \<notin> run_ids r" using h(3,4) by auto
  have opened: "set (sw_open w') = insert (sw_next w) (set (sw_open w) - snd ` {p \<in> set (lr_list_clients r). fst p = u})"
    unfolding entry_of[OF h(2), symmetric] by (auto simp: w' close_ids_def)
  have "held w0 r' w'"
    by (rule register_keeps[OF assms(1) new opened _ _ h(5) assms(2) r']) (simp_all add: w')
  then show ?thesis by (simp add: r' w')
qed

text \<open>The listing connections dialled during a run, in any order, by any workers, again and again.\<close>

definition list_dials :: "string list \<Rightarrow> live_run \<times> start_world \<Rightarrow> live_run \<times> start_world" where
  "list_dials us rw = fold list_dial us rw"

lemma list_dials_keep:
  assumes "held w0 r w" "fresh w0" "list_dials us (r, w) = (r', w')"
  shows "held w0 r' w' \<and> lr_bastion r' = lr_bastion r \<and> lr_stream r' = lr_stream r \<and>
    sw_bastions w' = sw_bastions w \<and> sw_streams w' = sw_streams w \<and> sw_active w' = sw_active w"
  using assms(1,3)
proof (induction us arbitrary: r w)
  case Nil
  then show ?case by (simp add: list_dials_def)
next
  case (Cons u us)
  obtain r1 w1 where d: "list_dial u (r, w) = (r1, w1)" by fastforce
  note K = list_dial_keeps[OF Cons.prems(1) assms(2) d]
  have "list_dials us (r1, w1) = (r', w')" using Cons.prems(2) d by (simp add: list_dials_def)
  with Cons.IH K show ?case by metis
qed

lemma finish_gives_back:
  assumes "held w0 r w" "fresh w0"
  shows "set (sw_open (snd (finish_run dir r w))) = set (sw_open w0)"
    "sw_bastions (snd (finish_run dir r w)) = sw_bastions w - (if lr_bastion r then 1 else 0)"
    "sw_active (snd (finish_run dir r w)) = sw_active w - 1"
    "dir \<noteq> [] \<Longrightarrow> lr_stream r = Some p \<Longrightarrow> sw_streams (snd (finish_run dir r w)) = remove1 p (sw_streams w)"
    "dir = [] \<Longrightarrow> sw_streams (snd (finish_run dir r w)) = sw_streams w"
proof -
  have "set (sw_open (snd (finish_run dir r w))) = set (sw_open w) - run_ids r"
    by (auto simp: finish_run_def closeListClients_def teardown_def close_ids_def run_ids_def pool_ids_def Let_def split: option.splits)
  moreover have "set (sw_open w0) \<inter> run_ids r = {}" using assms by (fastforce simp: held_def fresh_def)
  ultimately show "set (sw_open (snd (finish_run dir r w))) = set (sw_open w0)" using assms(1) by (auto simp: held_def)
qed (simp_all add: finish_run_def closeListClients_def teardown_def Let_def split: option.splits)

lemma start_success:
  assumes "StartWithPersistAndTLS env dir path c w = (w', Inr r)"
  shows "\<exists>r4 w2. start_dials env r4 w2 = (w', Inr r) \<and>
    w2 = w\<lparr>sw_bastions := sw_bastions w + (if rc_BastionHost c \<noteq> [] then 1 else 0),
          sw_streams := (if dir = [] then sw_streams w else path # sw_streams w)\<rparr> \<and>
    lr_pools r4 = [] \<and> lr_download_pools r4 = [] \<and> lr_list_clients r4 = [] \<and> \<not> lr_lists_closed r4 \<and>
    lr_bastion r4 = (rc_BastionHost c \<noteq> []) \<and> lr_stream r4 = (if dir = [] then None else Some path) \<and>
    conn_Validate c = Inr (lr_cfg r4)"
proof -
  note A = assms[unfolded StartWithPersistAndTLS_def]
  obtain v where v: "conn_Validate c = Inr v" using A by (auto split: sum.splits)
  obtain r1 where r1: "start_key env (new_run v) = Inr r1" using A v by (auto split: sum.splits)
  then have R1: "lr_cfg r1 = v" "lr_bastion r1 = False" "lr_pools r1 = []" "lr_download_pools r1 = []" "lr_list_clients r1 = []"
      "\<not> lr_lists_closed r1" "lr_stream r1 = None"
    by (auto simp: start_key_def new_run_def split: if_splits sum.splits)
  obtain w1 r2 where b: "start_bastion env r1 w = (w1, Inr r2)" using A v r1 by (auto split: sum.splits prod.splits)
  have R2: "lr_bastion r2 = (rc_BastionHost c \<noteq> [])" "lr_cfg r2 = v" "lr_pools r2 = []" "lr_download_pools r2 = []" "lr_list_clients r2 = []"
      "\<not> lr_lists_closed r2" "lr_stream r2 = None"
    and W1: "w1 = w\<lparr>sw_bastions := sw_bastions w + (if rc_BastionHost c \<noteq> [] then 1 else 0)\<rparr>"
    using b R1 conn_Validate_fields[OF v] by (auto simp: start_bastion_def split: if_splits option.splits)
  obtain r3 where r3: "start_sources env r2 = Inr r3" using A v r1 b by (auto split: sum.splits)
  note R3 = start_sources_run[OF r3]
  obtain w2 r4 where st: "start_stream env dir path r3 w1 = (w2, Inr r4)" using A v r1 b r3 by (auto split: sum.splits prod.splits)
  have R4: "lr_bastion r4 = lr_bastion r3" "lr_cfg r4 = lr_cfg r3" "lr_pools r4 = lr_pools r3" "lr_download_pools r4 = lr_download_pools r3"
      "lr_list_clients r4 = lr_list_clients r3" "lr_lists_closed r4 = lr_lists_closed r3" "lr_stream r4 = (if dir = [] then lr_stream r3 else Some path)"
    and W2: "w2 = (if dir = [] then w1 else w1\<lparr>sw_streams := path # sw_streams w1\<rparr>)"
    using st by (auto simp: start_stream_def split: if_splits)
  have "start_dials env r4 w2 = (w', Inr r)" using A v r1 b r3 st by simp
  then show ?thesis using R2 R3 R4 W1 W2 v by (intro exI[of _ r4] exI[of _ w2]) simp
qed


section \<open>How long it takes\<close>

fun spaced :: "int \<Rightarrow> (int \<times> int) list \<Rightarrow> bool" where
  "spaced d (a # b # obs) \<longleftrightarrow> fst b \<le> fst a + d \<and> spaced d (b # obs)"
| "spaced d obs \<longleftrightarrow> True"

text \<open>The drain ends at the deadline at the latest, up to one interval between two readings.\<close>

lemma drain_bounded:
  "obs \<noteq> [] \<Longrightarrow> spaced d obs \<Longrightarrow> deadline \<le> fst (last obs) \<Longrightarrow> fst (hd obs) \<le> deadline + d \<Longrightarrow>
   \<exists>t. drain_until deadline obs = Some t \<and> t \<le> deadline + d"
proof (induction d obs rule: spaced.induct)
  case (1 d a b obs)
  obtain t p where a: "a = (t, p)" by fastforce
  show ?case
  proof (cases "t < deadline \<and> 0 < p")
    case True
    with 1 show ?thesis by (simp add: a)
  next
    case False
    with 1(5) show ?thesis by (auto simp: a)
  qed
qed auto

text \<open>A run that only downloads has no dispatcher to wait for: it is cancelled after one poll interval and half a second,
  whatever its configured duration.\<close>

theorem download_only_ends_at_once:
  assumes "normal c = None" "large_file c = None"
  shows "dispatchers_end c now end_normal end_large = now \<and>
    cancel_time c now ((now, 0) # obs) = Some (now + poll_interval c + 500000000)"
  using assms by (simp add: dispatchers_end_def cancel_time_def)

section \<open>Twice the same download user\<close>

definition easy_env :: start_env where
  "easy_env =
     \<lparr>se_disk = \<lparr>sd_abs = (\<lambda>p. None), sd_stat = (\<lambda>p. None), sd_read = (\<lambda>p. None), sd_match = (\<lambda>g n. None), sd_open = (\<lambda>p. None)\<rparr>,
      se_signer = (\<lambda>p q. Inl []), se_bastion = None, se_abs = Some, se_mkdir = (\<lambda>p. True),
      se_create = (\<lambda>p. True), se_dial = (\<lambda>i u. if u = ''bad'' then Some ''refused'' else None)\<rparr>"

definition easy_user :: "string \<Rightarrow> user_creds" where
  "easy_user u = \<lparr>username = u, password = ''p'', patterns = [''*'']\<rparr>"

text \<open>A download-only configuration, through a jump host.\<close>

definition easy_config :: "user_creds list \<Rightarrow> conn_config" where
  "easy_config us =
     \<lparr>host = ''h'', port = 22, upload_folder = ''/in'', parallel_streams = 1, duration_hours = 1, normal = None, large_file = None,
      download = Some \<lparr>dl_folder = ''/out'', dl_streams = 1, match_mode = [], dl_sink = None\<rparr>,
      normal_users = [easy_user ''n''], large_users = [], download_users = us, poll_interval = 0, trackid_timeout = 0, max_failures = 0,
      speed_floor_percent = 0, speed_floor_warmup = 0, speed_floor_breach = 0, verify_hashes = False,
      rc_PrivateKeyPEM = [], rc_PrivateKeyPassphrase = [], rc_Protocol = [], rc_TLSMode = [], rc_TLSInsecureSkipVerify = False,
      rc_TLSServerName = [], rc_TLSTrustOnFirstUse = False, rc_TLSPolicy = [], rc_QuirkProfile = [], rc_BastionHost = ''b'',
      rc_BastionPort = 22, rc_BastionUser = [], rc_BastionPass = [], rc_BastionPrivateKeyPEM = [], rc_BastionPassphrase = []\<rparr>"

definition empty_world :: start_world where
  "empty_world = \<lparr>sw_open = [], sw_next = 0, sw_bastions = 0, sw_streams = [], sw_active = 0\<rparr>"

definition start_easy :: "user_creds list \<Rightarrow> start_world \<times> (start_error + live_run)" where
  "start_easy us = StartWithPersistAndTLS easy_env ''/r'' ''/r/1.csv'' (easy_config us) empty_world"

text \<open>A name that is listed twice keeps the second pool only: the connection of the first is never closed.\<close>

theorem duplicate_download_user_leaks:
  "case start_easy [easy_user ''d'', easy_user ''d''] of
     (w, Inr r) \<Rightarrow> sw_open (snd (finish_run ''/r'' r w)) = [1]
   | (w, Inl e) \<Rightarrow> False"
  by code_simp

lemma easy_start:
  "case start_easy [easy_user ''d''] of (w, Inr r) \<Rightarrow> sw_open w = [0, 1] | (w, Inl e) \<Rightarrow> False"
  "case start_easy [easy_user ''bad''] of (w, Inl e) \<Rightarrow> while_dialling e | (w, Inr r) \<Rightarrow> False"
  by code_simp+



end
