(* ===== verification/Spec2Isabelle.thy ===== *)
theory Spec2Isabelle
  imports Latency Generator HostKeys Config DisablePolicy Dispatch ReportLedger Metrics TrackWatcher DownloadWorker SpeedFloor Findings MockFtp
    Schedule Cluster Sink Source Persist Vault VaultRefs Analysis Doctor
    Progression Javacore CpuSample GcLog UserPatterns SessionStore AnalyzerServer WebGuards StartRequest RunServer Dial KnownHosts Probe RunStart
begin

text \<open>
  The program is a load tester for SFTP and FTPS servers (sftp-loadtest/), with a thread-dump
  analyzer and a command runner beside it. A run of the load tester validates a configuration,
  dials pools of connections, dispatches uploads at a configured rate, follows each file through
  the server by its track id, downloads it again from an outbox, keeps a ledger of every file
  and a set of counters, and seals a CSV report and a metadata record at the end.

  The development models the parts that carry this logic, one theory per component, over
  explicit states; what the program does not decide itself (dials, transfers, disks, clocks,
  random numbers, the iteration order of Go maps) is an argument of the operation that meets it.

    Prelude        wrap-around of Go integers, enumerations of Go maps, the interfaces
                   component and refined_component that the state machines instantiate
    Float64        rounding to float64 on rationals, and the laws used of it
    GoStrings      the functions of the packages strings, strconv and path that the code calls
    Latency        internal/latency/histogram.go: the log-bucket histogram
    Generator      internal/generator/generator.go: file names, markers, payload reader
    HostKeys       internal/hostkeys/*.go: SSH and FTPS trust stores and their dial callbacks
    Config         internal/config/config.go: validation and the users CSV
    DisablePolicy  internal/runner/runner.go: failure policy and error counters
    Dispatch       internal/runner/runner.go: dispatchers, round robins, connection pools
    ReportStore    internal/report/report.go: ledger, indexes, flush, CSV rows
    ReportLedger   the ledger under interleaved flushes, and the attribution of downloads
    Metrics        internal/metrics/metrics.go: totals, minute buckets, slowdowns
    TrackWatcher   internal/trackid/watcher.go: pending uploads and their resolution
    Run            internal/runner/runner.go: one upload, one download, the sampler, the seal
    DownloadWorker the download workers over their polls
    SpeedFloor     when the speed floor trips, and which stop reason is sealed
    Transition     interfaces of step relations: reachable states, simulations
    MockFs         internal/mocksftp/server.go: the in-memory SFTP server
    MockFtp        internal/mockftp/server.go: the FTP command loop over the same file map
    Schedule       internal/web/schedule.go: scheduled and recurring runs
    Cluster        internal/cluster: the controller of several workers, the merged report
    Sink           internal/sink/sink.go: where downloads are written
    Traced         the interface of components that answer requests from their history
    Source         internal/source/source.go: pools, trees and the resolver of upload sources
    Utf8           how Go reads a string rune by rune
    Persist        internal/persist: metadata, recovery of interrupted runs, the diagnosis log
    Vault          internal/vault/vault.go, internal/web/vault_handlers.go: the encrypted secrets
    CsvText        Go's encoding/csv: reader, writer and their round trip
    VaultRefs      internal/vault/refs.go, internal/web/vault_migrate.go: markers and migration
    Analysis       internal/analyze, internal/alerts: advice on a sealed run, alert triggers
    Doctor         internal/rundoctor, internal/web/rundoctor_handlers.go: comparisons, prompts
    DumpParser     threaddump-analyzer/internal/parser/parser.go: HotSpot thread dumps
    Deadlocks      internal/analyzer/analyzer.go: the wait-for graph and its cycles
    ThreadAnalyzer internal/analyzer, internal/session: contention, pools, stacks, frozen threads
    Findings       internal/findings/findings.go: the ranked verdicts
    Progression    internal/session/progression.go: locks across dumps, chains before a deadlock
    Scanner        Go's bufio.Scanner over lines
    Javacore       internal/parser/javacore.go: javacore files, detection of the format
    CpuSample      internal/cpu/cpu.go: CPU readings and their join with threads
    GcLog          internal/gclog/gclog.go: GC pauses
    UserPatterns   internal/patterns/patterns.go: the rules of operators and their matches
    SessionStore   internal/session/persist.go: sessions on disk, saved and loaded
    AnalyzerServer internal/web/web.go: the service, its handlers, and what a restart keeps
    WebGuards      internal/web/security.go: the guards in front of the handlers, the rate limiter
    StartRequest   internal/web/web.go: from a start request to the configuration of a run
    RunServer      internal/web/web.go: the registry of runs, starting, stopping, listing, reports, alerts
    Dial           profiles, protocols, dials and the jump host
    KnownHosts     host keys in a known_hosts file
    Probe          internal/web/web.go: connection checks, consent to host keys
    RunStart       internal/runner/runner.go: start, resources and end of a run

  Machine integers are ints with the wrap-around of \<open>i64\<close> and \<open>u64\<close> written out where it can
  matter; float64 values are rationals rounded after every operation; instants are nanoseconds
  since 1970 with None for Go's zero time; strings are lists of bytes. A panic is None or a
  constructor of its own. Loops are structural recursions on the lists or counters that bound
  them in the code; the deadlock walk is a partial function, proved to return.

  The properties about a single operation quantify over its environment; those about a
  component quantify over all histories of its operations, and where goroutines share state
  (histogram, failure policy, pattern cursors, the ledger under a flush) over all interleavings
  of their atomic operations. Not modelled: the wiring of goroutines and contexts, sockets and
  the third-party SSH, SFTP and FTP packages, HTTP itself, and the text of log lines.
\<close>

end
